(* ===== verification/Prelude.thy ===== *)
theory Prelude
  imports Main "HOL-Library.Word" "HOL-Library.Multiset"
begin

unbundle bit_operations_syntax

text \<open>
  Shared vocabulary of the development: the C integer types as words, byte strings, the
  shape of an operation that may fail and still change its state, and the big-endian and
  little-endian readings of byte strings with the lemmas every component uses.
\<close>

section \<open>Types\<close>

type_synonym u8 = "8 word"
type_synonym u16 = "16 word"
type_synonym u32 = "32 word"
type_synonym u64 = "64 word"
type_synonym bytes = "u8 list"

named_theorems word_size_simps \<open>bounds of the unsigned readings of the C integer types\<close>
named_theorems be_simps \<open>byte strings read as numbers and written back\<close>

lemma unat_u8_bound [word_size_simps]: "unat (b :: u8) < 256"
  using unsigned_less [of b] by simp

lemma unat_u16_bound [word_size_simps]: "unat (b :: u16) < 65536"
  using unsigned_less [of b] by simp

lemma unat_u32_bound [word_size_simps]: "unat (b :: u32) < 4294967296"
  using unsigned_less [of b] by simp

lemma unat_u64_bound [word_size_simps]: "unat (b :: u64) < 18446744073709551616"
  using unsigned_less [of b] by simp

section \<open>Operations that may fail\<close>

text \<open>
  A C operation on a handle returns 1 or 0, and may have changed the handle in both cases.
  It is a function from the state to an optional result and the state it leaves: \<open>None\<close> is
  the return value 0, with the state at the point of the failing return.
\<close>

type_synonym ('s, 'a) opn = "'s \<Rightarrow> 'a option \<times> 's"

definition op_ret :: "'a \<Rightarrow> ('s, 'a) opn" where
  "op_ret a = (\<lambda>s. (Some a, s))"

definition op_fail :: "('s, 'a) opn" where
  "op_fail = (\<lambda>s. (None, s))"

definition op_bind :: "('s, 'a) opn \<Rightarrow> ('a \<Rightarrow> ('s, 'b) opn) \<Rightarrow> ('s, 'b) opn" where
  "op_bind m f = (\<lambda>s. case m s of (None, s') \<Rightarrow> (None, s') | (Some a, s') \<Rightarrow> f a s')"

definition op_seq :: "('s, 'a) opn \<Rightarrow> ('s, 'b) opn \<Rightarrow> ('s, 'b) opn" where
  "op_seq m n = op_bind m (\<lambda>_. n)"

definition op_check :: "bool \<Rightarrow> ('s, unit) opn" where
  "op_check b = (if b then op_ret () else op_fail)"

definition op_map :: "('a \<Rightarrow> 'b) \<Rightarrow> ('s, 'a) opn \<Rightarrow> ('s, 'b) opn" where
  "op_map f m = op_bind m (\<lambda>a. op_ret (f a))"

named_theorems opn_defs \<open>unfolding of the operation combinators\<close>

declare op_ret_def [opn_defs] op_fail_def [opn_defs] op_bind_def [opn_defs]
  op_seq_def [opn_defs] op_check_def [opn_defs] op_map_def [opn_defs]

lemma op_bind_Some_iff:
  "op_bind m f s = (Some b, s'') \<longleftrightarrow> (\<exists>a s'. m s = (Some a, s') \<and> f a s' = (Some b, s''))"
  by (auto simp: op_bind_def split: prod.splits option.splits)

lemma op_bind_ret [simp]: "op_bind (op_ret a) f = f a"
  by (simp add: op_bind_def op_ret_def)

lemma op_bind_assoc: "op_bind (op_bind m f) g = op_bind m (\<lambda>a. op_bind (f a) g)"
  by (rule ext) (simp add: op_bind_def split: prod.splits option.splits)

section \<open>Byte strings and numbers\<close>

text \<open>
  \<open>be_nat\<close> reads a byte string as a big-endian number, \<open>nat_be n\<close> writes \<open>n\<close> big-endian
  bytes; \<open>be_word\<close> is the loop by which the C code reads one into a \<open>uint64_t\<close>.
\<close>

definition be_nat :: "bytes \<Rightarrow> nat" where
  "be_nat bs = foldl (\<lambda>a b. a * 256 + unat b) 0 bs"

primrec nat_be :: "nat \<Rightarrow> nat \<Rightarrow> bytes" where
  "nat_be 0 v = []"
| "nat_be (Suc n) v = nat_be n (v div 256) @ [of_nat (v mod 256)]"

lemma be_nat_acc: "foldl (\<lambda>a b. a * 256 + unat b) a bs = a * 256 ^ length bs + be_nat bs"
proof (induction bs arbitrary: a)
  case Nil
  then show ?case by (simp add: be_nat_def)
next
  case (Cons b bs)
  show ?case
    using Cons [of "a * 256 + unat b"] Cons [of "unat b"]
    by (simp add: be_nat_def algebra_simps)
qed

lemma be_nat_Nil [simp]: "be_nat [] = 0"
  by (simp add: be_nat_def)

lemma be_nat_Cons [simp]: "be_nat (b # bs) = unat b * 256 ^ length bs + be_nat bs"
  using be_nat_acc [of "unat b" bs] by (simp add: be_nat_def)

lemma be_nat_append [be_simps]: "be_nat (xs @ ys) = be_nat xs * 256 ^ length ys + be_nat ys"
  by (induction xs) (simp_all add: algebra_simps power_add)

lemma be_nat_bound: "be_nat bs < 256 ^ length bs"
proof (induction bs)
  case (Cons b bs)
  have "unat b * 256 ^ length bs + be_nat bs < (unat b + 1) * 256 ^ length bs"
    using Cons by simp
  also have "\<dots> \<le> 256 * 256 ^ length bs"
    using unat_u8_bound [of b] by (intro mult_le_mono1) linarith
  finally show ?case by simp
qed simp

lemma length_nat_be [simp]: "length (nat_be n v) = n"
  by (induction n arbitrary: v) simp_all

lemma be_nat_nat_be [be_simps]: "be_nat (nat_be n v) = v mod 256 ^ n"
proof (induction n arbitrary: v)
  case (Suc n)
  have "unat (of_nat (v mod 256) :: u8) = v mod 256"
    by (simp add: unat_of_nat)
  with Suc show ?case
    by (simp add: be_nat_append mod_mult2_eq mult.commute)
qed simp

lemma nat_be_be_nat [be_simps]: "nat_be (length bs) (be_nat bs) = bs"
  by (induction bs rule: rev_induct) (simp_all add: be_nat_append unat_u8_bound)

lemma nat_be_be_nat' [be_simps]: "length bs = n \<Longrightarrow> nat_be n (be_nat bs) = bs"
  by (auto simp: nat_be_be_nat)

lemma nat_be_mod: "nat_be n (v mod 256 ^ n) = nat_be n v"
proof (induction n arbitrary: v)
  case (Suc n)
  have "v mod 256 ^ Suc n div 256 = v div 256 mod 256 ^ n"
    by (simp add: mod_mult2_eq)
  moreover have "v mod 256 ^ Suc n mod 256 = v mod 256"
    by (simp add: mod_mod_cancel)
  ultimately show ?case using Suc.IH [of "v div 256"] by simp
qed simp

lemma shift8_or: "push_bit 8 a OR ucast (b :: u8) = a * 256 + ucast b"
proof -
  have "push_bit 8 a AND ucast b = 0"
    by (rule bit_eqI) (auto simp: bit_simps dest: bit_imp_le_length)
  then have "push_bit 8 a + ucast b = push_bit 8 a OR ucast b"
    by (rule disjunctive_add_eq_or)
  then show ?thesis by (simp add: push_bit_eq_mult)
qed

fun be_word :: "u64 \<Rightarrow> bytes \<Rightarrow> u64" where
  "be_word acc [] = acc"
| "be_word acc (b # bs) = be_word (push_bit 8 acc OR ucast b) bs"

lemma be_word_of_nat: "be_word acc bs = acc * 256 ^ length bs + of_nat (be_nat bs)"
  by (induction bs arbitrary: acc) (simp_all add: shift8_or algebra_simps unsigned_ucast_eq)

lemma unat_be_word [be_simps]: "length bs \<le> 8 \<Longrightarrow> unat (be_word 0 bs) = be_nat bs"
proof -
  assume "length bs \<le> 8"
  then have "(256::nat) ^ length bs \<le> 256 ^ 8" by (intro power_increasing) simp_all
  with be_nat_bound [of bs] have "be_nat bs < 2 ^ 64" by simp
  then show ?thesis by (simp add: be_word_of_nat unat_of_nat)
qed

text \<open>\<open>le_bytes n v\<close> is the object representation of a number in \<open>n\<close> octets.\<close>

definition le_bytes :: "nat \<Rightarrow> nat \<Rightarrow> bytes" where
  "le_bytes n v = rev (nat_be n v)"

lemma length_le_bytes [simp]: "length (le_bytes n v) = n"
  by (simp add: le_bytes_def)

lemma le_bytes_be_nat: "length bs = n \<Longrightarrow> le_bytes n (be_nat (rev bs)) = bs"
  using nat_be_be_nat' [of "rev bs" n] by (simp add: le_bytes_def)

lemma le_bytes_0 [simp]: "le_bytes 0 v = []"
  by (simp add: le_bytes_def)

lemma of_nat_u8_mod: "(of_nat (v mod 256) :: u8) = of_nat v"
  by (simp add: word_unat_eq_iff unat_of_nat)

lemma le_bytes_Suc: "le_bytes (Suc n) v = of_nat v # le_bytes n (v div 256)"
  by (simp add: le_bytes_def of_nat_u8_mod)

lemma le_bytes_4: "le_bytes 4 v = [of_nat v, of_nat (v div 256), of_nat (v div 65536), of_nat (v div 16777216)]"
proof -
  have "4 = Suc (Suc (Suc (Suc 0)))" by simp
  then show ?thesis by (simp only: le_bytes_Suc le_bytes_0) (simp flip: div_mult2_eq)
qed

lemma le_bytes_8: "le_bytes 8 v = le_bytes 4 v @ le_bytes 4 (v div 4294967296)"
proof -
  have "8 = Suc (Suc (Suc (Suc 4)))" by simp
  then have "le_bytes 8 v = [of_nat v, of_nat (v div 256), of_nat (v div 65536), of_nat (v div 16777216)] @ le_bytes 4 (v div 4294967296)"
    by (simp only: le_bytes_Suc) (simp flip: div_mult2_eq)
  then show ?thesis by (simp only: le_bytes_4)
qed

lemma be_nat_le_bytes: "v < 256 ^ n \<Longrightarrow> be_nat (rev (le_bytes n v)) = v"
  by (simp add: le_bytes_def be_simps)

section \<open>Bit tricks as arithmetic\<close>

lemma word_eq_by_bits:
  fixes v w :: "'a::len word"
  assumes "list_all (\<lambda>n. bit v n = bit w n) [0..<LENGTH('a)]"
  shows "v = w"
  using assms by (intro bit_word_eqI) (simp add: list_all_iff)

lemma bit_u8_False: "8 \<le> n \<Longrightarrow> \<not> bit (a :: u8) n"
  by (auto dest: bit_imp_le_length)

lemma push_bit_or_add:
  fixes a x :: "'a::len word"
  assumes "take_bit n x = x"
  shows "push_bit n a OR x = push_bit n a + x"
proof -
  have "bit x k \<Longrightarrow> k < n" for k
    using assms by (metis bit_take_bit_iff)
  then have "push_bit n a AND x = 0"
    by (intro bit_eqI) (force simp: bit_simps)
  then show ?thesis
    by (simp add: disjunctive_add_eq_or)
qed

lemma take_bit_word_self:
  "unat x < 2 ^ n \<Longrightarrow> take_bit n x = x" for x :: "'a::len word"
  by (simp add: word_unat_eq_iff unsigned_take_bit_eq take_bit_nat_eq_self)

lemma unat_drop_bit: "unat (drop_bit n w) = unat w div 2 ^ n" for w :: "'a::len word"
  by (rule trans [OF unat_drop_bit_eq drop_bit_eq_div])

lemma drop_bit_eq_0_iff: "drop_bit n w = 0 \<longleftrightarrow> unat w < 2 ^ n" for w :: "'a::len word"
proof -
  have "drop_bit n w = 0 \<longleftrightarrow> unat (drop_bit n w) = 0"
    by (simp only: unat_eq_0)
  then show ?thesis
    by (simp only: unat_drop_bit div_eq_0_iff) simp
qed

text \<open>Shifting a word left and adding a digit with \<open>OR\<close> is the arithmetic one expects.\<close>

lemma unat_push_bit_or:
  fixes a x :: "'a::len word"
  assumes "unat x < 2 ^ n" and "unat a * 2 ^ n + unat x < 2 ^ LENGTH('a)"
  shows "unat (push_bit n a OR x) = unat a * 2 ^ n + unat x"
proof -
  have "push_bit n a OR x = push_bit n a + x"
    by (rule push_bit_or_add) (rule take_bit_word_self [OF assms(1)])
  also have "\<dots> = of_nat (unat a * 2 ^ n + unat x)"
    by (simp add: push_bit_eq_mult)
  finally show ?thesis
    using assms(2) by (simp add: unat_of_nat del: of_nat_add)
qed

named_theorems u8_simps \<open>masks and tests on octets as arithmetic\<close>

lemma unat_and_mask: "unat (w AND (2 ^ n - 1)) = unat w mod 2 ^ n" for w :: "'a::len word"
proof -
  have "w AND (2 ^ n - 1) = take_bit n w"
    by (simp add: take_bit_eq_mask mask_eq_exp_minus_1)
  then have "unat (w AND (2 ^ n - 1)) = take_bit n (unat w)"
    by (simp only: unsigned_take_bit_eq)
  then show ?thesis
    by (simp add: take_bit_eq_mod)
qed

lemma unat_and_7f [u8_simps]: "unat (w AND 0x7f) = unat w mod 128" for w :: "'a::len word"
  using unat_and_mask [of w 7] by simp

lemma unat_and_1f [u8_simps]: "unat (w AND 0x1f) = unat w mod 32" for w :: "'a::len word"
  using unat_and_mask [of w 5] by simp

lemma unat_and_3f [u8_simps]: "unat (w AND 0x3f) = unat w mod 64" for w :: "'a::len word"
  using unat_and_mask [of w 6] by simp

lemma bit_unat_iff: "bit w n \<longleftrightarrow> odd (unat w div 2 ^ n)" for w :: "'a::len word"
  by (metis bit_iff_odd bit_unsigned_iff possible_bit_nat)

lemma high_bit_iff [u8_simps]: "(b :: u8) AND 0x80 = 0 \<longleftrightarrow> unat b < 128"
proof -
  have "b AND 0x80 = 0 \<longleftrightarrow> \<not> bit b 7"
  proof
    assume "b AND 0x80 = 0"
    then have "\<not> bit (b AND 0x80) 7" by simp
    then show "\<not> bit b 7" by (simp add: bit_and_iff)
  next
    assume *: "\<not> bit b 7"
    show "b AND 0x80 = 0"
      by (rule word_eq_by_bits, simp add: upt_conv_Cons)
        (use * in \<open>simp add: bit_and_iff numeral_eq_Suc\<close>)
  qed
  also have "\<dots> \<longleftrightarrow> unat b < 128"
  proof -
    have "unat b div 128 = (if 128 \<le> unat b then 1 else 0)"
      using unat_u8_bound [of b] by (auto intro: div_nat_eqI)
    then show ?thesis by (simp add: bit_unat_iff)
  qed
  finally show ?thesis .
qed

lemma u8_mod_128: "\<not> unat (b :: u8) < 128 \<Longrightarrow> unat b mod 128 = unat b - 128"
proof -
  assume high: "\<not> unat b < 128"
  moreover have "unat b - 128 < 128"
    using high unat_u8_bound [of b] by linarith
  ultimately show ?thesis
    by (simp add: le_mod_geq)
qed

section \<open>The C library's qsort\<close>

text \<open>
  \<open>qsort\<close> sorts by a three-way comparison. C leaves the order of elements that compare equal
  unspecified; the stable order of the insertion sort is one admissible choice, and the two
  callers modelled compare equal only equal keys.
\<close>

fun qsort_insert :: "('a \<Rightarrow> 'a \<Rightarrow> int) \<Rightarrow> 'a \<Rightarrow> 'a list \<Rightarrow> 'a list" where
  "qsort_insert cmp x [] = [x]"
| "qsort_insert cmp x (y # ys) = (if cmp x y \<le> 0 then x # y # ys else y # qsort_insert cmp x ys)"

definition qsort :: "('a \<Rightarrow> 'a \<Rightarrow> int) \<Rightarrow> 'a list \<Rightarrow> 'a list" where
  "qsort cmp xs = foldr (qsort_insert cmp) xs []"

lemma mset_qsort_insert: "mset (qsort_insert cmp x xs) = add_mset x (mset xs)"
  by (induction cmp x xs rule: qsort_insert.induct) auto

lemma mset_qsort [simp]: "mset (qsort cmp xs) = mset xs"
  by (induction xs) (simp_all add: qsort_def mset_qsort_insert)

lemma set_qsort [simp]: "set (qsort cmp xs) = set xs"
  by (metis mset_qsort set_mset_mset)

lemma length_qsort [simp]: "length (qsort cmp xs) = length xs"
  by (metis mset_qsort size_mset)

lemma qsort_insert_sorted:
  assumes "transp (\<lambda>x y. cmp x y \<le> 0)" "\<And>x y. cmp x y \<le> 0 \<or> cmp y x \<le> 0"
    and "sorted_wrt (\<lambda>x y. cmp x y \<le> 0) xs"
  shows "sorted_wrt (\<lambda>x y. cmp x y \<le> 0) (qsort_insert cmp x xs)"
  using assms(3)
proof (induction xs)
  case (Cons y ys)
  have set: "set (qsort_insert cmp x ys) = insert x (set ys)"
    by (metis mset_qsort_insert set_mset_add_mset_insert set_mset_mset)
  show ?case
    using Cons assms(2) [of x y] transpD [OF assms(1), of x y] by (auto simp: set)
qed simp

lemma qsort_sorted:
  assumes "transp (\<lambda>x y. cmp x y \<le> 0)" "\<And>x y. cmp x y \<le> 0 \<or> cmp y x \<le> 0"
  shows "sorted_wrt (\<lambda>x y. cmp x y \<le> 0) (qsort cmp xs)"
  unfolding qsort_def by (induction xs) (simp_all add: qsort_insert_sorted [OF assms])

end
