(* ===== verification/Internal.thy ===== *)
theory Internal
  imports Prelude
begin

unbundle bit_operations_syntax

text \<open>
  The helpers of crypto/internal.h and crypto/mem.c the rest of the library is written with:
  the branch-free comparisons on \<open>crypto_word_t\<close> (64 bits here), the byte swaps, the
  constant-time memory comparison, the FNV-1a hash and the bounded string functions.
\<close>

section \<open>Constant-time comparison and selection (internal.h)\<close>

definition constant_time_msb_w :: "u64 \<Rightarrow> u64" where
  "constant_time_msb_w a = 0 - drop_bit 63 a"

definition constant_time_lt_w :: "u64 \<Rightarrow> u64 \<Rightarrow> u64" where
  "constant_time_lt_w a b = constant_time_msb_w (a XOR ((a XOR b) OR ((a - b) XOR a)))"

definition constant_time_lt_8 :: "u64 \<Rightarrow> u64 \<Rightarrow> u8" where
  "constant_time_lt_8 a b = ucast (constant_time_lt_w a b)"

definition constant_time_ge_w :: "u64 \<Rightarrow> u64 \<Rightarrow> u64" where
  "constant_time_ge_w a b = NOT (constant_time_lt_w a b)"

definition constant_time_ge_8 :: "u64 \<Rightarrow> u64 \<Rightarrow> u8" where
  "constant_time_ge_8 a b = ucast (constant_time_ge_w a b)"

definition constant_time_is_zero_w :: "u64 \<Rightarrow> u64" where
  "constant_time_is_zero_w a = constant_time_msb_w (NOT a AND (a - 1))"

definition constant_time_is_zero_8 :: "u64 \<Rightarrow> u8" where
  "constant_time_is_zero_8 a = ucast (constant_time_is_zero_w a)"

definition constant_time_eq_w :: "u64 \<Rightarrow> u64 \<Rightarrow> u64" where
  "constant_time_eq_w a b = constant_time_is_zero_w (a XOR b)"

definition constant_time_eq_8 :: "u64 \<Rightarrow> u64 \<Rightarrow> u8" where
  "constant_time_eq_8 a b = ucast (constant_time_eq_w a b)"

definition constant_time_select_w :: "u64 \<Rightarrow> u64 \<Rightarrow> u64 \<Rightarrow> u64" where
  "constant_time_select_w msk a b = (msk AND a) OR (NOT msk AND b)"

definition constant_time_select_8 :: "u8 \<Rightarrow> u8 \<Rightarrow> u8 \<Rightarrow> u8" where
  "constant_time_select_8 msk a b = ucast (constant_time_select_w (ucast msk) (ucast a) (ucast b))"

named_theorems ct_simps \<open>the constant-time helpers as conditionals\<close>

lemma bit63_iff: "bit (a :: u64) 63 \<longleftrightarrow> 2 ^ 63 \<le> unat a"
proof -
  have "bit a 63 \<longleftrightarrow> bit (unat a) 63"
    by (simp add: bit_unsigned_iff)
  also have "\<dots> \<longleftrightarrow> odd (unat a div 2 ^ 63)"
    by (rule bit_iff_odd)
  also have "unat a div 2 ^ 63 = (if 2 ^ 63 \<le> unat a then 1 else 0)"
    using unat_u64_bound [of a] by (auto intro: div_nat_eqI)
  finally show ?thesis by auto
qed

lemma ucast_minus_1 [simp]: "ucast (- 1 :: u64) = (- 1 :: u8)"
  by (rule bit_word_eqI) (simp add: bit_simps)

lemma constant_time_msb_w_eq [ct_simps]:
  "constant_time_msb_w a = (if bit a 63 then - 1 else 0)"
proof -
  have "bit a (63 + n) \<longleftrightarrow> n = 0 \<and> bit a 63" for n
    by (cases n) (auto dest: bit_imp_le_length)
  then have "drop_bit 63 a = (if bit a 63 then 1 else 0)"
    by (intro bit_word_eqI) (auto simp: bit_simps)
  then show ?thesis by (simp add: constant_time_msb_w_def)
qed

lemma constant_time_lt_w_eq [ct_simps]:
  "constant_time_lt_w a b = (if a < b then - 1 else 0)"
proof -
  have sub: "unat (a - b) = (if b \<le> a then unat a - unat b else 2 ^ 64 + unat a - unat b)"
    using unat_u64_bound [of a] unat_u64_bound [of b]
    by (auto simp: unat_sub_if_size word_size word_le_nat_alt)
  have "bit (a XOR ((a XOR b) OR ((a - b) XOR a))) 63
      \<longleftrightarrow> (bit a 63 \<noteq> (bit a 63 \<noteq> bit b 63 \<or> bit (a - b) 63 \<noteq> bit a 63))"
    by (simp add: bit_xor_iff bit_or_iff)
  also have "\<dots> \<longleftrightarrow> a < b"
    using unat_u64_bound [of a] unat_u64_bound [of b]
    unfolding bit63_iff sub word_less_nat_alt word_le_nat_alt by auto
  finally have "bit (a XOR ((a XOR b) OR ((a - b) XOR a))) 63 \<longleftrightarrow> a < b" .
  then show ?thesis by (simp add: constant_time_lt_w_def ct_simps)
qed

lemma constant_time_is_zero_w_eq [ct_simps]:
  "constant_time_is_zero_w a = (if a = 0 then - 1 else 0)"
proof -
  have "\<not> bit (a - 1) 63" if "a \<noteq> 0" "\<not> bit a 63"
  proof -
    from that have "0 < unat a" "unat a < 2 ^ 63"
      by (simp_all add: bit63_iff unat_gt_0)
    then show ?thesis
      by (simp add: bit63_iff unat_sub word_le_nat_alt)
  qed
  then have "bit (NOT a AND (a - 1)) 63 \<longleftrightarrow> a = 0"
    by (auto simp: bit_simps)
  then show ?thesis by (simp add: constant_time_is_zero_w_def ct_simps)
qed

lemma xor_eq_0_iff: "(a :: u64) XOR b = 0 \<longleftrightarrow> a = b"
  by (auto simp: bit_eq_iff bit_simps)

lemma constant_time_eq_w_eq [ct_simps]:
  "constant_time_eq_w a b = (if a = b then - 1 else 0)"
  by (simp add: constant_time_eq_w_def ct_simps xor_eq_0_iff)

lemma constant_time_select_w_eq [ct_simps]:
  "constant_time_select_w (if c then - 1 else 0) a b = (if c then a else b)"
  by (simp add: constant_time_select_w_def)

lemma constant_time_8_eq [ct_simps]:
  "constant_time_lt_8 a b = (if a < b then - 1 else 0)"
  "constant_time_ge_8 a b = (if a \<ge> b then - 1 else 0)"
  "constant_time_is_zero_8 a = (if a = 0 then - 1 else 0)"
  "constant_time_eq_8 a b = (if a = b then - 1 else 0)"
  by (auto simp: constant_time_lt_8_def constant_time_ge_8_def constant_time_ge_w_def
      constant_time_is_zero_8_def constant_time_eq_8_def ct_simps)

lemma constant_time_select_8_eq [ct_simps]:
  "constant_time_select_8 (if c then - 1 else 0) a b = (if c then a else b)"
  by (rule bit_word_eqI)
    (auto simp: constant_time_select_8_def constant_time_select_w_def bit_simps)

section \<open>Byte swaps (internal.h)\<close>

definition CRYPTO_bswap2 :: "u16 \<Rightarrow> u16" where
  "CRYPTO_bswap2 x = drop_bit 8 x OR push_bit 8 x"

definition CRYPTO_bswap4 :: "u32 \<Rightarrow> u32" where
  "CRYPTO_bswap4 x =
     (let x = drop_bit 16 x OR push_bit 16 x
      in drop_bit 8 (x AND 0xff00ff00) OR push_bit 8 (x AND 0x00ff00ff))"

definition CRYPTO_bswap8 :: "u64 \<Rightarrow> u64" where
  "CRYPTO_bswap8 x =
     ucast (CRYPTO_bswap4 (ucast (drop_bit 32 x)))
       OR push_bit 32 (ucast (CRYPTO_bswap4 (ucast x)))"

lemma CRYPTO_bswap2_be:
  "CRYPTO_bswap2 (ucast (be_word 0 [a, b])) = ucast (be_word 0 [b, a])"
  by (rule word_eq_by_bits, simp add: upt_conv_Cons)
    (simp add: CRYPTO_bswap2_def bit_simps bit_u8_False, simp add: numeral_eq_Suc)

lemma CRYPTO_bswap4_be:
  "CRYPTO_bswap4 (ucast (be_word 0 [a, b, c, d])) = ucast (be_word 0 [d, c, b, a])"
  by (rule word_eq_by_bits, simp add: upt_conv_Cons)
    (simp add: CRYPTO_bswap4_def bit_simps bit_u8_False, simp add: numeral_eq_Suc)

lemma be_word_8_split:
  "be_word 0 [a, b, c, d, e, f, g, h]
     = push_bit 32 (be_word 0 [a, b, c, d]) OR be_word 0 [e, f, g, h]"
  by (simp add: push_bit_or push_bit_push_bit or.assoc)

lemma CRYPTO_bswap8_be:
  "CRYPTO_bswap8 (be_word 0 [a, b, c, d, e, f, g, h]) = be_word 0 [h, g, f, e, d, c, b, a]"
proof -
  have lo: "ucast (push_bit 32 x OR y :: u64) = (ucast y :: u32)" for x y :: u64
    by (rule bit_word_eqI) (auto simp: bit_simps)
  have small: "unat (be_word 0 [p, q, r, s]) < 2 ^ 32" for p q r s
    using be_nat_bound [of "[p, q, r, s]"] unat_be_word [of "[p, q, r, s]"] by simp
  have hi: "ucast (drop_bit 32 (push_bit 32 x OR y) :: u64) = (ucast x :: u32)"
    if "unat y < 2 ^ 32" for x y :: u64
  proof -
    have "drop_bit 32 y = 0"
      using that by (simp add: word_unat_eq_iff unat_div_distrib drop_bit_eq_div)
    then show ?thesis
      by (intro bit_word_eqI) (auto simp: bit_simps bit_eq_iff)
  qed
  have zext: "ucast (ucast x :: u32) = x" if "unat x < 2 ^ 32" for x :: u64
    using that by (simp add: word_unat_eq_iff unsigned_ucast_eq unsigned_take_bit_eq
        take_bit_nat_eq_self)
  show ?thesis
    unfolding CRYPTO_bswap8_def be_word_8_split [of a] be_word_8_split [of h]
      lo hi [OF small] CRYPTO_bswap4_be zext [OF small]
    by (rule or.commute)
qed

text \<open>The swaps reverse the octets of a word.\<close>

lemma length_2_conv: "length bs = 2 \<longleftrightarrow> (\<exists>a b. bs = [a, b])"
  by (auto simp: numeral_eq_Suc length_Suc_conv)

lemma length_4_conv: "length bs = 4 \<longleftrightarrow> (\<exists>a b c d. bs = [a, b, c, d])"
  by (auto simp: numeral_eq_Suc length_Suc_conv)

lemma length_8_conv: "length bs = 8 \<longleftrightarrow> (\<exists>a b c d e f g h. bs = [a, b, c, d, e, f, g, h])"
  by (auto simp: numeral_eq_Suc length_Suc_conv)

lemma unat_ucast_be_word:
  assumes "length bs \<le> 8" and "256 ^ length bs \<le> (2::nat) ^ LENGTH('a::len)"
  shows "unat (ucast (be_word 0 bs) :: 'a word) = be_nat bs"
  using assms be_nat_bound [of bs]
  by (simp add: unsigned_ucast_eq unsigned_take_bit_eq unat_be_word take_bit_nat_eq_self)

lemma bswap_rev_gen:
  fixes v :: "'a::len word" and f :: "'a word \<Rightarrow> 'a word"
  assumes f: "\<And>bs. length bs = n \<Longrightarrow> f (ucast (be_word 0 bs)) = ucast (be_word 0 (rev bs))"
    and n: "n \<le> 8" "256 ^ n = (2::nat) ^ LENGTH('a)"
  shows "nat_be n (unat (f v)) = rev (nat_be n (unat v))" and "f (f v) = v"
proof -
  have v: "ucast (be_word 0 (nat_be n (unat v))) = v" for v :: "'a word"
    using n unsigned_less [of v]
    by (simp add: word_unat_eq_iff unat_ucast_be_word be_nat_nat_be)
  have "f v = ucast (be_word 0 (rev (nat_be n (unat v))))"
    using f [of "nat_be n (unat v)"] v [of v] by simp
  moreover from this have "unat (f v) = be_nat (rev (nat_be n (unat v)))"
    using n by (simp add: unat_ucast_be_word)
  ultimately show *: "nat_be n (unat (f v)) = rev (nat_be n (unat v))"
    by (simp add: nat_be_be_nat')
  have "f (f v) = ucast (be_word 0 (rev (nat_be n (unat (f v)))))"
    using f [of "nat_be n (unat (f v))"] v [of "f v"] by simp
  then show "f (f v) = v" by (simp add: * v)
qed

lemma CRYPTO_bswap2_rev:
  "nat_be 2 (unat (CRYPTO_bswap2 v)) = rev (nat_be 2 (unat v))"
  "CRYPTO_bswap2 (CRYPTO_bswap2 v) = v"
  by (rule bswap_rev_gen [where n = 2];
      auto simp: length_2_conv CRYPTO_bswap2_be simp del: be_word.simps)+

lemma CRYPTO_bswap4_rev:
  "nat_be 4 (unat (CRYPTO_bswap4 v)) = rev (nat_be 4 (unat v))"
  "CRYPTO_bswap4 (CRYPTO_bswap4 v) = v"
  by (rule bswap_rev_gen [where n = 4];
      auto simp: length_4_conv CRYPTO_bswap4_be simp del: be_word.simps)+

lemma CRYPTO_bswap8_rev:
  "nat_be 8 (unat (CRYPTO_bswap8 v)) = rev (nat_be 8 (unat v))"
  "CRYPTO_bswap8 (CRYPTO_bswap8 v) = v"
  by (rule bswap_rev_gen [where n = 8];
      auto simp: length_8_conv CRYPTO_bswap8_be simp del: be_word.simps)+

section \<open>Memory and strings (mem.c)\<close>

fun memcmp_loop :: "u8 \<Rightarrow> bytes \<Rightarrow> bytes \<Rightarrow> u8" where
  "memcmp_loop x (a # as) (b # bs) = memcmp_loop (x OR (a XOR b)) as bs"
| "memcmp_loop x _ _ = x"

definition CRYPTO_memcmp :: "bytes \<Rightarrow> bytes \<Rightarrow> nat \<Rightarrow> u8" where
  "CRYPTO_memcmp a b len = memcmp_loop 0 (take len a) (take len b)"

lemma or_xor_eq_0_iff: "(x :: u8) OR (a XOR b) = 0 \<longleftrightarrow> x = 0 \<and> a = b"
  by (auto simp: bit_eq_iff bit_simps)

lemma memcmp_loop_eq_0:
  "length as = length bs \<Longrightarrow> memcmp_loop x as bs = 0 \<longleftrightarrow> x = 0 \<and> as = bs"
  by (induction x as bs rule: memcmp_loop.induct) (auto simp: or_xor_eq_0_iff)

lemma CRYPTO_memcmp_eq_0:
  "length a = len \<Longrightarrow> length b = len \<Longrightarrow> CRYPTO_memcmp a b len = 0 \<longleftrightarrow> a = b"
  by (simp add: CRYPTO_memcmp_def memcmp_loop_eq_0)

definition OPENSSL_hash32 :: "bytes \<Rightarrow> u32" where
  "OPENSSL_hash32 bs = foldl (\<lambda>h b. (h XOR ucast b) * 16777619) 2166136261 bs"

fun OPENSSL_strnlen :: "bytes \<Rightarrow> nat \<Rightarrow> nat" where
  "OPENSSL_strnlen (c # s) (Suc len) = (if c = 0 then 0 else Suc (OPENSSL_strnlen s len))"
| "OPENSSL_strnlen _ _ = 0"

lemma OPENSSL_strnlen_le: "OPENSSL_strnlen s len \<le> len"
  by (induction s len rule: OPENSSL_strnlen.induct) auto

lemma OPENSSL_strnlen_takeWhile:
  "take (OPENSSL_strnlen s (length s)) s = takeWhile (\<lambda>c. c \<noteq> 0) s"
  by (induction s) auto

text \<open>
  \<open>malloc\<close> is the C library's: \<open>alloc n\<close> says whether a request for \<open>n\<close> bytes succeeds.
\<close>

definition OPENSSL_strndup :: "(nat \<Rightarrow> bool) \<Rightarrow> bytes \<Rightarrow> nat \<Rightarrow> bytes option" where
  "OPENSSL_strndup alloc str n =
     (let n = OPENSSL_strnlen str n; alloc_size = (n + 1) mod 2 ^ 64
      in if alloc_size < n then None
         else if alloc alloc_size then Some (take n str @ [0]) else None)"

definition OPENSSL_memdup :: "(nat \<Rightarrow> bool) \<Rightarrow> bytes \<Rightarrow> bytes option" where
  "OPENSSL_memdup alloc data =
     (if data = [] then None else if alloc (length data) then Some data else None)"

end
