(* ===== verification/Der.thy ===== *)
theory Der
  imports Prelude
begin

unbundle bit_operations_syntax

text \<open>
  The abstract specification of the byte formats the reader and the builder share, written
  from the format and not from the code: minimal base-128 numbers, DER identifier octets for
  a 32-bit tag, DER length octets and a DER element. Numbers are unbounded here.
\<close>

section \<open>Base-128 numbers\<close>

fun base128_cont :: "nat \<Rightarrow> bytes" where
  "base128_cont n =
     (if n = 0 then [] else base128_cont (n div 128) @ [of_nat (128 + n mod 128)])"

declare base128_cont.simps [simp del]

definition base128 :: "nat \<Rightarrow> bytes" where
  "base128 n = base128_cont (n div 128) @ [of_nat (n mod 128)]"

lemma base128_cont_0 [simp]: "base128_cont 0 = []"
  by (simp add: base128_cont.simps)

lemma base128_cont_step:
  "n \<noteq> 0 \<Longrightarrow> base128_cont n = base128_cont (n div 128) @ [of_nat (128 + n mod 128)]"
  by (subst base128_cont.simps) simp

lemma base128_not_Nil [simp]: "base128 n \<noteq> []"
  by (simp add: base128_def)

lemma length_base128_cont: "n < 128 ^ k \<Longrightarrow> length (base128_cont n) \<le> k"
proof (induction k arbitrary: n)
  case (Suc k)
  show ?case
  proof (cases "n = 0")
    case False
    have "n div 128 < 128 ^ k"
      using Suc.prems by (simp add: div_less_iff_less_mult mult.commute)
    then show ?thesis
      using Suc.IH False by (simp add: base128_cont_step)
  qed simp
qed simp

section \<open>Lengths\<close>

fun byte_len :: "nat \<Rightarrow> nat" where
  "byte_len n = (if n = 0 then 0 else Suc (byte_len (n div 256)))"

declare byte_len.simps [simp del]

lemma byte_len_0 [simp]: "byte_len 0 = 0"
  by (simp add: byte_len.simps)

lemma byte_len_pos: "n \<noteq> 0 \<Longrightarrow> byte_len n = Suc (byte_len (n div 256))"
  by (subst byte_len.simps) simp

lemma byte_len_le_iff: "byte_len n \<le> k \<longleftrightarrow> n < 256 ^ k"
proof (induction k arbitrary: n)
  case 0
  then show ?case by (cases "n = 0") (simp_all add: byte_len_pos)
next
  case (Suc k)
  show ?case
  proof (cases "n = 0")
    case False
    then have "byte_len n \<le> Suc k \<longleftrightarrow> n div 256 < 256 ^ k"
      using Suc [of "n div 256"] by (simp add: byte_len_pos)
    also have "\<dots> \<longleftrightarrow> n < 256 ^ Suc k"
      by (simp add: div_less_iff_less_mult mult.commute)
    finally show ?thesis .
  qed simp
qed

lemma byte_len_eq_iff:
  assumes "0 < k"
  shows "byte_len n = k \<longleftrightarrow> 256 ^ (k - 1) \<le> n \<and> n < 256 ^ k"
proof -
  have "byte_len n = k \<longleftrightarrow> byte_len n \<le> k \<and> \<not> byte_len n \<le> k - 1"
    using assms by linarith
  then show ?thesis by (auto simp: byte_len_le_iff not_less)
qed

definition der_length :: "nat \<Rightarrow> bytes" where
  "der_length n =
     (if n < 128 then [of_nat n]
      else of_nat (128 + byte_len n) # nat_be (byte_len n) n)"

section \<open>Identifiers and elements\<close>

text \<open>
  The in-memory tag has the class and the constructed bit in its three top bits and the tag
  number in the 29 others, so every 32-bit word is a tag.
\<close>

definition der_tag :: "u32 \<Rightarrow> bytes" where
  "der_tag tag =
     (let cls = unat tag div 2 ^ 29 * 32; number = unat tag mod 2 ^ 29
      in if number < 31 then [of_nat (cls + number)]
         else of_nat (cls + 31) # base128 number)"

lemma length_der_tag: "length (der_tag tag) \<le> 6"
proof -
  have "unat tag mod 2 ^ 29 div 128 < 128 ^ 4"
    by (simp add: div_less_iff_less_mult)
  then have "length (base128 (unat tag mod 2 ^ 29)) \<le> 5"
    using length_base128_cont [of "unat tag mod 2 ^ 29 div 128" 4] by (simp add: base128_def)
  then show ?thesis
    by (simp add: der_tag_def Let_def)
qed

lemma der_tag_not_Nil [simp]: "der_tag tag \<noteq> []"
  by (simp add: der_tag_def Let_def)

definition der_header :: "u32 \<Rightarrow> nat \<Rightarrow> bytes" where
  "der_header tag len = der_tag tag @ der_length len"

definition der_element :: "u32 \<Rightarrow> bytes \<Rightarrow> bytes" where
  "der_element tag content = der_header tag (length content) @ content"

section \<open>Integers\<close>

text \<open>The contents octets of an INTEGER: the shortest two's complement of the value.\<close>

definition der_nat_bytes :: "nat \<Rightarrow> bytes" where
  "der_nat_bytes n =
     (if n = 0 then [0]
      else let bs = nat_be (byte_len n) n
           in if unat (hd bs) \<ge> 128 then 0 # bs else bs)"

lemma nat_be_byte_len_hd:
  assumes "n \<noteq> 0"
  shows "hd (nat_be (byte_len n) n) \<noteq> 0"
proof -
  let ?bs = "nat_be (byte_len n) n"
  have val: "be_nat ?bs = n"
    using byte_len_le_iff [of n "byte_len n"] by (simp add: be_nat_nat_be)
  show ?thesis
  proof
    assume hd0: "hd ?bs = 0"
    have "?bs \<noteq> []"
      using assms byte_len_pos [of n] by (metis length_0_conv length_nat_be nat.distinct(1))
    with hd0 have "?bs = 0 # tl ?bs" by (metis list.collapse)
    then have "n = be_nat (tl ?bs)"
      using val by (metis be_nat_Cons mult_zero_left plus_nat.add_0 unsigned_0)
    then have "n < 256 ^ (byte_len n - 1)"
      using be_nat_bound [of "tl ?bs"] by simp
    then show False
      using byte_len_le_iff [of n "byte_len n - 1"] assms byte_len_pos [of n] by simp
  qed
qed

text \<open>A negative number has the complemented octets of its one's complement.\<close>

definition der_int_bytes :: "int \<Rightarrow> bytes" where
  "der_int_bytes i =
     (if 0 \<le> i then der_nat_bytes (nat i) else map NOT (der_nat_bytes (nat (- i - 1))))"

text \<open>The number a two's complement string of octets stands for.\<close>

definition twos_val :: "bytes \<Rightarrow> int" where
  "twos_val bs =
     (if unat (hd bs) < 128 then int (be_nat bs) else int (be_nat bs) - 256 ^ length bs)"

lemma unat_not_u8: "unat (NOT b :: u8) = 255 - unat b"
proof -
  have "NOT b = of_nat (255 - unat b)"
    using unat_u8_bound [of b] by (simp add: not_eq_complement of_nat_diff)
  then show ?thesis by (simp add: unat_of_nat)
qed

lemma be_nat_map_not: "int (be_nat (map NOT bs)) = 256 ^ length bs - 1 - int (be_nat bs)"
proof (induction bs)
  case (Cons b bs)
  have "int (unat (NOT b)) = 255 - int (unat b)"
    using unat_u8_bound [of b] by (simp add: unat_not_u8 of_nat_diff)
  then show ?case
    unfolding list.map be_nat_Cons of_nat_add of_nat_mult of_nat_power length_map Cons
    by (simp only:) (simp add: algebra_simps)
qed simp

lemma be_nat_replicate_ff: "int (be_nat (replicate k 0xff)) = 256 ^ k - 1"
proof (induction k)
  case (Suc k)
  have "unat (0xff :: u8) = 255" by simp
  then show ?case
    unfolding replicate_Suc be_nat_Cons of_nat_add of_nat_mult of_nat_power length_replicate Suc
    by (simp only:) simp
qed simp

end
