(* ===== verification/Cbs.thy ===== *)
theory Cbs
  imports Internal Der
begin

unbundle bit_operations_syntax

text \<open>
  The byte-string reader of crypto/bytestring/cbs.c. A \<open>CBS\<close> is a pointer and a length into
  memory nobody writes while it is read; the model is the string of bytes it still covers.
  An operation \<open>CBS_f\<close> is an \<open>opn\<close> on that string: the result is what the C function
  stores through its out parameters (\<open>None\<close> for the return value 0) and the string is the
  \<open>CBS\<close> it leaves, also when it fails. \<open>size_t\<close> has 64 bits.
\<close>

type_synonym cbs = bytes

section \<open>Reading bytes and numbers\<close>

definition CBS_init :: "bytes \<Rightarrow> cbs" where
  "CBS_init data = data"

definition cbs_get :: "nat \<Rightarrow> (cbs, bytes) opn" where
  "cbs_get n cbs = (if length cbs < n then (None, cbs) else (Some (take n cbs), drop n cbs))"

definition CBS_skip :: "nat \<Rightarrow> (cbs, unit) opn" where
  "CBS_skip len = op_map (\<lambda>_. ()) (cbs_get len)"

definition CBS_stow :: "(nat \<Rightarrow> bool) \<Rightarrow> cbs \<Rightarrow> bytes option" where
  "CBS_stow alloc cbs = (if length cbs = 0 then Some [] else OPENSSL_memdup alloc cbs)"

definition CBS_strdup :: "(nat \<Rightarrow> bool) \<Rightarrow> cbs \<Rightarrow> bytes option" where
  "CBS_strdup alloc cbs = OPENSSL_strndup alloc cbs (length cbs)"

definition CBS_contains_zero_byte :: "cbs \<Rightarrow> bool" where
  "CBS_contains_zero_byte cbs \<longleftrightarrow> List.member cbs 0"

definition CBS_mem_equal :: "cbs \<Rightarrow> bytes \<Rightarrow> bool" where
  "CBS_mem_equal cbs data \<longleftrightarrow>
     (if length data \<noteq> length cbs then False else CRYPTO_memcmp cbs data (length data) = 0)"

definition cbs_get_u :: "nat \<Rightarrow> (cbs, u64) opn" where
  "cbs_get_u len = op_map (be_word 0) (cbs_get len)"

definition CBS_get_u8 :: "(cbs, u8) opn" where
  "CBS_get_u8 = op_map hd (cbs_get 1)"

definition CBS_get_u16 :: "(cbs, u16) opn" where
  "CBS_get_u16 = op_map ucast (cbs_get_u 2)"

definition CBS_get_u16le :: "(cbs, u16) opn" where
  "CBS_get_u16le = op_map CRYPTO_bswap2 CBS_get_u16"

definition CBS_get_u24 :: "(cbs, u32) opn" where
  "CBS_get_u24 = op_map ucast (cbs_get_u 3)"

definition CBS_get_u32 :: "(cbs, u32) opn" where
  "CBS_get_u32 = op_map ucast (cbs_get_u 4)"

definition CBS_get_u32le :: "(cbs, u32) opn" where
  "CBS_get_u32le = op_map CRYPTO_bswap4 CBS_get_u32"

definition CBS_get_u64 :: "(cbs, u64) opn" where
  "CBS_get_u64 = cbs_get_u 8"

definition CBS_get_u64le :: "(cbs, u64) opn" where
  "CBS_get_u64le = op_map CRYPTO_bswap8 (cbs_get_u 8)"

definition CBS_get_last_u8 :: "(cbs, u8) opn" where
  "CBS_get_last_u8 cbs = (if length cbs = 0 then (None, cbs) else (Some (last cbs), butlast cbs))"

definition CBS_get_bytes :: "nat \<Rightarrow> (cbs, cbs) opn" where
  "CBS_get_bytes len = cbs_get len"

definition CBS_copy_bytes :: "nat \<Rightarrow> (cbs, bytes) opn" where
  "CBS_copy_bytes len = cbs_get len"

definition cbs_get_length_prefixed :: "nat \<Rightarrow> (cbs, cbs) opn" where
  "cbs_get_length_prefixed len_len =
     op_bind (cbs_get_u len_len) (\<lambda>len. CBS_get_bytes (unat len))"

definition CBS_get_u8_length_prefixed :: "(cbs, cbs) opn" where
  "CBS_get_u8_length_prefixed = cbs_get_length_prefixed 1"

definition CBS_get_u16_length_prefixed :: "(cbs, cbs) opn" where
  "CBS_get_u16_length_prefixed = cbs_get_length_prefixed 2"

definition CBS_get_u24_length_prefixed :: "(cbs, cbs) opn" where
  "CBS_get_u24_length_prefixed = cbs_get_length_prefixed 3"

section \<open>Tags and elements\<close>

fun parse_base128_loop :: "u64 \<Rightarrow> (cbs, u64) opn" where
  "parse_base128_loop v [] = (None, [])"
| "parse_base128_loop v (b # cbs) =
     (if drop_bit (64 - 7) v \<noteq> 0 then (None, cbs)
      else if v = 0 \<and> b = 0x80 then (None, cbs)
      else let v' = push_bit 7 v OR ucast (b AND 0x7f)
           in if b AND 0x80 \<noteq> 0 then parse_base128_loop v' cbs else (Some v', cbs))"

definition parse_base128_integer :: "(cbs, u64) opn" where
  "parse_base128_integer = parse_base128_loop 0"

definition CBS_ASN1_TAG_SHIFT :: nat where
  "CBS_ASN1_TAG_SHIFT = 24"

definition CBS_ASN1_CONSTRUCTED :: u32 where
  "CBS_ASN1_CONSTRUCTED = push_bit CBS_ASN1_TAG_SHIFT 0x20"

definition CBS_ASN1_TAG_NUMBER_MASK :: u32 where
  "CBS_ASN1_TAG_NUMBER_MASK = push_bit (5 + CBS_ASN1_TAG_SHIFT) 1 - 1"

abbreviation CBS_ASN1_BOOLEAN :: u32 where "CBS_ASN1_BOOLEAN \<equiv> 0x1"
abbreviation CBS_ASN1_INTEGER :: u32 where "CBS_ASN1_INTEGER \<equiv> 0x2"
abbreviation CBS_ASN1_BITSTRING :: u32 where "CBS_ASN1_BITSTRING \<equiv> 0x3"
abbreviation CBS_ASN1_OCTETSTRING :: u32 where "CBS_ASN1_OCTETSTRING \<equiv> 0x4"
abbreviation CBS_ASN1_OBJECT :: u32 where "CBS_ASN1_OBJECT \<equiv> 0x6"

definition parse_asn1_tag :: "(cbs, u32) opn" where
  "parse_asn1_tag =
     op_bind CBS_get_u8 (\<lambda>tag_byte.
       let tag = push_bit CBS_ASN1_TAG_SHIFT (ucast tag_byte AND 0xe0);
           tag_number = ucast (tag_byte AND 0x1f)
       in if tag_number = 0x1f
          then op_bind parse_base128_integer (\<lambda>v.
                 if v > ucast CBS_ASN1_TAG_NUMBER_MASK \<or> v < 0x1f then op_fail
                 else op_ret (tag OR ucast v))
          else op_ret (tag OR tag_number))"

text \<open>
  The C function works on a copy \<open>header\<close> of the \<open>CBS\<close> and moves the \<open>CBS\<close> itself only with
  the final \<open>CBS_get_bytes\<close>; it returns the element, its tag and the length of its header.
\<close>

definition cbs_get_any_asn1_element :: "bool \<Rightarrow> (cbs, cbs \<times> u32 \<times> nat) opn" where
  "cbs_get_any_asn1_element ber_ok cbs =
     (case parse_asn1_tag cbs of
        (None, _) \<Rightarrow> (None, cbs)
      | (Some tag, header) \<Rightarrow>
     (case CBS_get_u8 header of
        (None, _) \<Rightarrow> (None, cbs)
      | (Some length_byte, header) \<Rightarrow>
     (let header_len = length cbs - length header
      in if length_byte AND 0x80 = 0
         then op_map (\<lambda>out. (out, tag, header_len))
                (CBS_get_bytes (unat length_byte + header_len)) cbs
         else
           let num_bytes = unat (length_byte AND 0x7f)
           in if ber_ok \<and> tag AND CBS_ASN1_CONSTRUCTED \<noteq> 0 \<and> num_bytes = 0
              then op_map (\<lambda>out. (out, tag, header_len)) (CBS_get_bytes header_len) cbs
              else if num_bytes = 0 \<or> num_bytes > 4 then (None, cbs)
              else (case cbs_get_u num_bytes header of
                (None, _) \<Rightarrow> (None, cbs)
              | (Some len64, header) \<Rightarrow>
                 if len64 < 128 then (None, cbs)
                 else if drop_bit ((num_bytes - 1) * 8) len64 = 0 then (None, cbs)
                 else
                   let len = unat len64
                   in if (len + header_len + num_bytes) mod 2 ^ 64 < len then (None, cbs)
                      else op_map (\<lambda>out. (out, tag, header_len + num_bytes))
                             (CBS_get_bytes ((len + header_len + num_bytes) mod 2 ^ 64)) cbs))))"

definition CBS_get_any_asn1_element :: "(cbs, cbs \<times> u32 \<times> nat) opn" where
  "CBS_get_any_asn1_element = cbs_get_any_asn1_element False"

definition CBS_get_any_ber_asn1_element :: "(cbs, cbs \<times> u32 \<times> nat) opn" where
  "CBS_get_any_ber_asn1_element = cbs_get_any_asn1_element True"

definition CBS_get_any_asn1 :: "(cbs, cbs \<times> u32) opn" where
  "CBS_get_any_asn1 =
     op_bind CBS_get_any_asn1_element (\<lambda>(out, tag, header_len).
       case CBS_skip header_len out of
         (None, _) \<Rightarrow> op_fail
       | (Some _, out) \<Rightarrow> op_ret (out, tag))"

definition cbs_get_asn1 :: "u32 \<Rightarrow> bool \<Rightarrow> (cbs, cbs) opn" where
  "cbs_get_asn1 tag_value skip_header =
     op_bind CBS_get_any_asn1_element (\<lambda>(out, tag, header_len).
       if tag \<noteq> tag_value then op_fail
       else if skip_header
       then (case CBS_skip header_len out of
               (None, _) \<Rightarrow> op_fail
             | (Some _, out) \<Rightarrow> op_ret out)
       else op_ret out)"

definition CBS_get_asn1 :: "u32 \<Rightarrow> (cbs, cbs) opn" where
  "CBS_get_asn1 tag_value = cbs_get_asn1 tag_value True"

definition CBS_get_asn1_element :: "u32 \<Rightarrow> (cbs, cbs) opn" where
  "CBS_get_asn1_element tag_value = cbs_get_asn1 tag_value False"

definition CBS_peek_asn1_tag :: "u32 \<Rightarrow> cbs \<Rightarrow> bool" where
  "CBS_peek_asn1_tag tag_value cbs \<longleftrightarrow>
     (if length cbs < 1 then False
      else case parse_asn1_tag cbs of
             (None, _) \<Rightarrow> False
           | (Some actual_tag, _) \<Rightarrow> tag_value = actual_tag)"

section \<open>Typed elements\<close>

fun asn1_uint64_loop :: "u64 \<Rightarrow> bytes \<Rightarrow> u64 option" where
  "asn1_uint64_loop out [] = Some out"
| "asn1_uint64_loop out (b # bs) =
     (if drop_bit 56 out \<noteq> 0 then None
      else asn1_uint64_loop (push_bit 8 out OR ucast b) bs)"

definition asn1_uint64_of_bytes :: "bytes \<Rightarrow> u64 option" where
  "asn1_uint64_of_bytes data =
     (let len = length data
      in if len = 0 then None
         else if data ! 0 AND 0x80 \<noteq> 0 then None
         else if data ! 0 = 0 \<and> len > 1 \<and> data ! 1 AND 0x80 = 0 then None
         else asn1_uint64_loop 0 data)"

definition CBS_get_asn1_uint64 :: "(cbs, u64) opn" where
  "CBS_get_asn1_uint64 =
     op_bind (CBS_get_asn1 CBS_ASN1_INTEGER) (\<lambda>data.
       case asn1_uint64_of_bytes data of None \<Rightarrow> op_fail | Some out \<Rightarrow> op_ret out)"

text \<open>
  \<open>int64_of_union\<close> reads the union \<open>{int64_t i; uint8_t bytes[8];}\<close> of the C code on a
  little-endian host; an \<open>int64_t\<close> is the word read with \<open>sint\<close>.
\<close>

definition int64_of_union :: "bytes \<Rightarrow> u64" where
  "int64_of_union u = be_word 0 (rev u)"

definition asn1_int64_of_bytes :: "bytes \<Rightarrow> u64 option" where
  "asn1_int64_of_bytes data =
     (let len = length data
      in if len = 0 \<or> len > 8 then None
         else if len > 1 \<and> data ! 0 = 0 \<and> data ! 1 AND 0x80 = 0 then None
         else if len > 1 \<and> data ! 0 = 0xff \<and> data ! 1 AND 0x80 \<noteq> 0 then None
         else
           let is_negative = data ! 0 AND 0x80 \<noteq> 0;
               u = replicate 8 (if is_negative then 0xff else 0);
               u = foldl (\<lambda>u i. u[i := data ! (len - i - 1)]) u [0..<len]
           in Some (int64_of_union u))"

definition CBS_get_asn1_int64 :: "(cbs, u64) opn" where
  "CBS_get_asn1_int64 =
     op_bind (CBS_get_asn1 CBS_ASN1_INTEGER) (\<lambda>data.
       case asn1_int64_of_bytes data of None \<Rightarrow> op_fail | Some out \<Rightarrow> op_ret out)"

definition CBS_get_asn1_bool :: "(cbs, bool) opn" where
  "CBS_get_asn1_bool =
     op_bind (CBS_get_asn1 CBS_ASN1_BOOLEAN) (\<lambda>data.
       if length data \<noteq> 1 then op_fail
       else let v = hd data
            in if v \<noteq> 0 \<and> v \<noteq> 0xff then op_fail else op_ret (v \<noteq> 0))"

text \<open>The result of an optional element is \<open>None\<close> where C stores 0 in \<open>*out_present\<close>.\<close>

definition CBS_get_optional_asn1 :: "u32 \<Rightarrow> (cbs, cbs option) opn" where
  "CBS_get_optional_asn1 tag cbs =
     (if CBS_peek_asn1_tag tag cbs then op_map Some (CBS_get_asn1 tag) cbs
      else op_ret None cbs)"

definition CBS_get_optional_asn1_octet_string :: "u32 \<Rightarrow> (cbs, bool \<times> cbs) opn" where
  "CBS_get_optional_asn1_octet_string tag =
     op_bind (CBS_get_optional_asn1 tag) (\<lambda>r. case r of
         None \<Rightarrow> op_ret (False, CBS_init [])
       | Some child \<Rightarrow> (case CBS_get_asn1 CBS_ASN1_OCTETSTRING child of
           (None, _) \<Rightarrow> op_fail
         | (Some out, child) \<Rightarrow> if length child \<noteq> 0 then op_fail else op_ret (True, out)))"

definition CBS_get_optional_asn1_uint64 :: "u32 \<Rightarrow> u64 \<Rightarrow> (cbs, u64) opn" where
  "CBS_get_optional_asn1_uint64 tag default_value =
     op_bind (CBS_get_optional_asn1 tag) (\<lambda>r. case r of
         None \<Rightarrow> op_ret default_value
       | Some child \<Rightarrow> (case CBS_get_asn1_uint64 child of
           (None, _) \<Rightarrow> op_fail
         | (Some out, child) \<Rightarrow> if length child \<noteq> 0 then op_fail else op_ret out))"

definition CBS_get_optional_asn1_bool :: "u32 \<Rightarrow> bool \<Rightarrow> (cbs, bool) opn" where
  "CBS_get_optional_asn1_bool tag default_value =
     op_bind (CBS_get_optional_asn1 tag) (\<lambda>r. case r of
         None \<Rightarrow> op_ret default_value
       | Some child \<Rightarrow> (case CBS_get_asn1 CBS_ASN1_BOOLEAN child of
           (None, _) \<Rightarrow> op_fail
         | (Some child2, child) \<Rightarrow>
             if length child2 \<noteq> 1 \<or> length child \<noteq> 0 then op_fail
             else if hd child2 = 0 then op_ret False
             else if hd child2 = 0xff then op_ret True
             else op_fail))"

definition CBS_is_valid_asn1_bitstring :: "cbs \<Rightarrow> bool" where
  "CBS_is_valid_asn1_bitstring cbs \<longleftrightarrow>
     (case CBS_get_u8 cbs of
        (None, _) \<Rightarrow> False
      | (Some num_unused_bits, cbs) \<Rightarrow>
          if num_unused_bits > 7 then False
          else if num_unused_bits = 0 then True
          else (case CBS_get_last_u8 cbs of
                  (None, _) \<Rightarrow> False
                | (Some lst, _) \<Rightarrow> lst AND (push_bit (unat num_unused_bits) 1 - 1) = 0))"

definition CBS_asn1_bitstring_has_bit :: "cbs \<Rightarrow> u32 \<Rightarrow> bool" where
  "CBS_asn1_bitstring_has_bit cbs b \<longleftrightarrow>
     (if \<not> CBS_is_valid_asn1_bitstring cbs then False
      else let byte_num = unat (drop_bit 3 b) + 1; bit_num = 7 - unat (b AND 7)
           in byte_num < length cbs \<and> (cbs ! byte_num) AND push_bit bit_num 1 \<noteq> 0)"

section \<open>What the readers return\<close>

lemma cbs_get_Some: "cbs_get n cbs = (Some bs, rest) \<longleftrightarrow> cbs = bs @ rest \<and> length bs = n"
  by (auto simp: cbs_get_def append_eq_conv_conj)

lemma cbs_get_None: "cbs_get n cbs = (None, rest) \<longleftrightarrow> length cbs < n \<and> rest = cbs"
  by (auto simp: cbs_get_def)

lemma cbs_get_append [simp]: "length bs = n \<Longrightarrow> cbs_get n (bs @ rest) = (Some bs, rest)"
  by (simp add: cbs_get_def)

lemma op_map_Some: "op_map f m s = (Some b, s') \<longleftrightarrow> (\<exists>a. m s = (Some a, s') \<and> b = f a)"
  by (auto simp: opn_defs split: prod.splits option.splits)

lemma op_map_None: "op_map f m s = (None, s') \<longleftrightarrow> m s = (None, s')"
  by (auto simp: opn_defs split: prod.splits option.splits)

lemma cbs_get_u_Some:
  assumes "n \<le> 8"
  shows "cbs_get_u n cbs = (Some v, rest)
           \<longleftrightarrow> cbs = nat_be n (unat v) @ rest \<and> unat v < 256 ^ n"
proof
  assume "cbs_get_u n cbs = (Some v, rest)"
  then obtain bs where "cbs = bs @ rest" "length bs = n" "v = be_word 0 bs"
    by (auto simp: cbs_get_u_def op_map_Some cbs_get_Some)
  with assms show "cbs = nat_be n (unat v) @ rest \<and> unat v < 256 ^ n"
    using be_nat_bound [of bs] by (auto simp: be_simps)
next
  assume *: "cbs = nat_be n (unat v) @ rest \<and> unat v < 256 ^ n"
  have "unat (be_word 0 (nat_be n (unat v))) = unat v"
    using assms * by (simp add: be_simps)
  then have "be_word 0 (nat_be n (unat v)) = v"
    by (simp add: word_unat_eq_iff)
  with * show "cbs_get_u n cbs = (Some v, rest)"
    by (simp add: cbs_get_u_def op_map_Some cbs_get_Some)
qed

lemma cbs_get_u_None: "cbs_get_u n cbs = (None, rest) \<longleftrightarrow> length cbs < n \<and> rest = cbs"
  by (simp add: cbs_get_u_def op_map_None cbs_get_None)

lemma CBS_get_u8_Some: "CBS_get_u8 cbs = (Some b, rest) \<longleftrightarrow> cbs = b # rest"
  by (cases cbs) (auto simp: CBS_get_u8_def op_map_Some cbs_get_def)

lemma CBS_get_u8_simps [simp]:
  "CBS_get_u8 [] = (None, [])"
  "CBS_get_u8 (b # cbs) = (Some b, cbs)"
  by (simp_all add: CBS_get_u8_def opn_defs cbs_get_def)

lemma ucast_u64_Some:
  fixes w :: "'a::len word"
  assumes "n \<le> 8" and "256 ^ n \<le> (2::nat) ^ LENGTH('a)"
  shows "op_map ucast (cbs_get_u n) cbs = (Some w, rest)
           \<longleftrightarrow> cbs = nat_be n (unat w) @ rest \<and> unat w < 256 ^ n"
proof -
  have small: "unat (ucast v :: 'a word) = unat v" if "unat v < 256 ^ n" for v :: u64
    using that assms(2) by (simp add: unsigned_ucast_eq unsigned_take_bit_eq take_bit_nat_eq_self)
  have zext: "unat (ucast w :: u64) = unat w" if "unat w < 256 ^ n"
  proof -
    have "(256::nat) ^ n \<le> 256 ^ 8"
      using assms(1) by (intro power_increasing) simp_all
    with that have "unat w < 2 ^ 64" by simp
    then show ?thesis
      by (simp add: unsigned_ucast_eq unsigned_take_bit_eq take_bit_nat_eq_self)
  qed
  show ?thesis
  proof
    assume "op_map ucast (cbs_get_u n) cbs = (Some w, rest)"
    then obtain v where "cbs_get_u n cbs = (Some v, rest)" and "w = ucast v"
      by (auto simp: op_map_Some)
    with assms(1) show "cbs = nat_be n (unat w) @ rest \<and> unat w < 256 ^ n"
      by (simp add: cbs_get_u_Some small)
  next
    assume *: "cbs = nat_be n (unat w) @ rest \<and> unat w < 256 ^ n"
    then have "cbs_get_u n cbs = (Some (ucast w), rest)"
      using assms(1) by (simp add: cbs_get_u_Some zext)
    moreover have "w = ucast (ucast w :: u64)"
      using * small [of "ucast w"] by (simp add: word_unat_eq_iff zext)
    ultimately show "op_map ucast (cbs_get_u n) cbs = (Some w, rest)"
      by (auto simp: op_map_Some)
  qed
qed

lemma CBS_get_u16_Some:
  "CBS_get_u16 cbs = (Some v, rest) \<longleftrightarrow> cbs = nat_be 2 (unat v) @ rest"
  using unat_u16_bound [of v] by (simp add: CBS_get_u16_def ucast_u64_Some)

lemma CBS_get_u24_Some:
  "CBS_get_u24 cbs = (Some v, rest) \<longleftrightarrow> cbs = nat_be 3 (unat v) @ rest \<and> unat v < 2 ^ 24"
  by (simp add: CBS_get_u24_def ucast_u64_Some)

lemma CBS_get_u32_Some:
  "CBS_get_u32 cbs = (Some v, rest) \<longleftrightarrow> cbs = nat_be 4 (unat v) @ rest"
  using unat_u32_bound [of v] by (simp add: CBS_get_u32_def ucast_u64_Some)

lemma CBS_get_u64_Some:
  "CBS_get_u64 cbs = (Some v, rest) \<longleftrightarrow> cbs = nat_be 8 (unat v) @ rest"
  using unat_u64_bound [of v] by (simp add: CBS_get_u64_def cbs_get_u_Some)

subsection \<open>Little-endian readers\<close>

lemma op_map_bij_Some:
  assumes "\<And>v. f (f v) = v"
  shows "op_map f m s = (Some v, s') \<longleftrightarrow> m s = (Some (f v), s')"
  by (auto simp: op_map_Some assms intro!: exI [of _ "f v"])

lemma CBS_get_le_Some:
  "CBS_get_u16le cbs = (Some v, rest) \<longleftrightarrow> cbs = rev (nat_be 2 (unat v)) @ rest"
  "CBS_get_u32le cbs = (Some w, rest) \<longleftrightarrow> cbs = rev (nat_be 4 (unat w)) @ rest"
  "CBS_get_u64le cbs = (Some z, rest) \<longleftrightarrow> cbs = rev (nat_be 8 (unat z)) @ rest"
  unfolding CBS_get_u16le_def CBS_get_u32le_def CBS_get_u64le_def
    op_map_bij_Some [OF CRYPTO_bswap2_rev(2)] op_map_bij_Some [OF CRYPTO_bswap4_rev(2)]
    op_map_bij_Some [OF CRYPTO_bswap8_rev(2)] CBS_get_u16_Some CBS_get_u32_Some
    CBS_get_u64_Some [unfolded CBS_get_u64_def]
    CRYPTO_bswap2_rev(1) CRYPTO_bswap4_rev(1) CRYPTO_bswap8_rev(1)
  by (rule refl)+

subsection \<open>Length-prefixed strings\<close>

lemma cbs_get_length_prefixed_Some:
  assumes "n \<le> 8"
  shows "cbs_get_length_prefixed n cbs = (Some out, rest)
           \<longleftrightarrow> cbs = nat_be n (length out) @ out @ rest \<and> length out < 256 ^ n \<and> length out < 2 ^ 64"
proof
  assume "cbs_get_length_prefixed n cbs = (Some out, rest)"
  then obtain v s where "cbs_get_u n cbs = (Some v, s)" "cbs_get (unat v) s = (Some out, rest)"
    by (auto simp: cbs_get_length_prefixed_def op_bind_Some_iff CBS_get_bytes_def)
  with assms show "cbs = nat_be n (length out) @ out @ rest \<and> length out < 256 ^ n \<and> length out < 2 ^ 64"
    using unat_u64_bound [of v] by (auto simp: cbs_get_u_Some cbs_get_Some)
next
  assume *: "cbs = nat_be n (length out) @ out @ rest \<and> length out < 256 ^ n \<and> length out < 2 ^ 64"
  then have "unat (of_nat (length out) :: u64) = length out"
    by (simp add: unat_of_nat)
  with * assms have "cbs_get_u n cbs = (Some (of_nat (length out)), out @ rest)"
    by (simp add: cbs_get_u_Some)
  with * show "cbs_get_length_prefixed n cbs = (Some out, rest)"
    by (simp add: cbs_get_length_prefixed_def op_bind_Some_iff CBS_get_bytes_def
        cbs_get_Some unat_of_nat)
qed

subsection \<open>Base-128 integers\<close>

lemma base128_shift:
  assumes "unat (v :: u64) < 2 ^ 57"
  shows "unat (push_bit 7 v OR ucast ((b :: u8) AND 0x7f)) = unat v * 128 + unat b mod 128"
proof -
  have u: "unat (ucast (b AND 0x7f) :: u64) = unat b mod 128"
    by (simp add: unsigned_ucast_eq unsigned_take_bit_eq unat_and_7f take_bit_nat_eq_self)
  have "unat v * 128 + unat b mod 128 < 2 ^ 64"
    using assms by simp
  then show ?thesis
    using unat_push_bit_or [of "ucast (b AND 0x7f) :: u64" 7 v] by (simp add: u)
qed

lemma parse_base128_sound:
  "parse_base128_loop v cbs = (Some w, rest) \<Longrightarrow>
     \<exists>ds. cbs = ds @ rest \<and> base128 (unat w) = base128_cont (unat v) @ ds"
proof (induction v cbs rule: parse_base128_loop.induct)
  case (1 v)
  then show ?case by simp
next
  case (2 v b cbs)
  let ?v' = "push_bit 7 v OR ucast (b AND 0x7f)"
  from "2.prems" have small: "unat v < 2 ^ 57" and lead: "\<not> (v = 0 \<and> b = 0x80)"
    by (auto simp: drop_bit_eq_0_iff split: if_splits)
  have v': "unat ?v' = unat v * 128 + unat b mod 128"
    by (rule base128_shift [OF small])
  show ?case
  proof (cases "b AND 0x80 = 0")
    case True
    then have "unat b < 128" by (simp add: u8_simps)
    moreover from this have "of_nat (unat b mod 128) = b" by simp
    moreover have "w = ?v'" "rest = cbs"
      using "2.prems" True small lead by (auto simp: drop_bit_eq_0_iff split: if_splits)
    ultimately show ?thesis
      by (simp add: base128_def v')
  next
    case False
    then have high: "128 \<le> unat b" by (simp add: u8_simps not_less)
    moreover have "unat b - 128 < 128"
      using unat_u8_bound [of b] high by linarith
    ultimately have "128 + unat b mod 128 = unat b"
      by (simp add: le_mod_geq)
    then have b: "of_nat (128 + unat b mod 128) = b"
      by (simp only:) simp
    have nz: "unat ?v' \<noteq> 0"
    proof
      assume "unat ?v' = 0"
      then have "v = 0" "unat b mod 128 = 0" by (simp_all add: v' unat_eq_0)
      with \<open>128 + unat b mod 128 = unat b\<close> have "unat b = 128" by simp
      with \<open>v = 0\<close> lead show False by (simp add: word_unat_eq_iff)
    qed
    obtain ds where "cbs = ds @ rest" "base128 (unat w) = base128_cont (unat ?v') @ ds"
      using "2.IH" "2.prems" False small lead
      by (auto simp: drop_bit_eq_0_iff Let_def split: if_splits)
    moreover have "base128_cont (unat ?v') = base128_cont (unat v) @ [b]"
      using base128_cont_step [OF nz] b by (simp add: v' del: of_nat_add)
    ultimately show ?thesis
      by auto
  qed
qed

lemma parse_base128_more:
  "drop_bit (64 - 7) v = 0 \<Longrightarrow> \<not> (v = 0 \<and> b = 0x80) \<Longrightarrow> b AND 0x80 \<noteq> 0
     \<Longrightarrow> push_bit 7 v OR ucast (b AND 0x7f) = v'
     \<Longrightarrow> parse_base128_loop v (b # cbs) = parse_base128_loop v' cbs"
  by (auto simp: Let_def)

lemma parse_base128_complete_cont:
  "m < 2 ^ 57 \<Longrightarrow>
     parse_base128_loop 0 (base128_cont m @ b # rest) = parse_base128_loop (of_nat m) (b # rest)"
proof (induction m arbitrary: b rest rule: base128_cont.induct)
  case (1 m)
  show ?case
  proof (cases "m = 0")
    case False
    let ?b = "of_nat (128 + m mod 128) :: u8" and ?v = "of_nat (m div 128) :: u64"
    have b: "unat ?b = 128 + m mod 128" and v: "unat ?v = m div 128"
      using "1.prems" by (simp_all add: unat_of_nat del: of_nat_add)
    have small: "m div 128 < 2 ^ 57" "unat ?v < 2 ^ 57"
      using "1.prems" v by simp_all
    have "unat (push_bit 7 ?v OR ucast (?b AND 0x7f)) = m div 128 * 128 + (128 + m mod 128) mod 128"
      using base128_shift [OF small(2), of ?b] unfolding b v .
    then have "push_bit 7 ?v OR ucast (?b AND 0x7f) = (of_nat m :: u64)"
      using "1.prems" by (simp add: word_unat_eq_iff unat_of_nat)
    moreover have "?b AND 0x80 \<noteq> 0" by (simp add: high_bit_iff b del: of_nat_add)
    moreover have "\<not> (?v = 0 \<and> ?b = 0x80)"
    proof
      assume "?v = 0 \<and> ?b = 0x80"
      then have "unat ?v = 0" "unat ?b = 128" by simp_all
      then have "m div 128 = 0" "m mod 128 = 0"
        unfolding b v by simp_all
      with False show False by (metis div_mod_decomp mult_0 add_0)
    qed
    moreover have "drop_bit (64 - 7) ?v = 0"
      using small by (simp add: drop_bit_eq_0_iff)
    ultimately have "parse_base128_loop ?v (?b # b # rest) = parse_base128_loop (of_nat m) (b # rest)"
      by (intro parse_base128_more)
    then show ?thesis
      using "1.IH" [OF False small(1)] False by (simp add: base128_cont_step del: of_nat_add)
  qed simp
qed

theorem parse_base128_integer_iff:
  "parse_base128_integer cbs = (Some v, rest) \<longleftrightarrow> cbs = base128 (unat v) @ rest"
proof
  assume "parse_base128_integer cbs = (Some v, rest)"
  then show "cbs = base128 (unat v) @ rest"
    using parse_base128_sound [of 0 cbs v rest] by (simp add: parse_base128_integer_def)
next
  let ?b = "of_nat (unat v mod 128) :: u8" and ?v = "of_nat (unat v div 128) :: u64"
  assume cbs: "cbs = base128 (unat v) @ rest"
  have small: "unat v div 128 < 2 ^ 57"
    using unat_u64_bound [of v] by (simp add: div_less_iff_less_mult)
  then have v: "unat ?v = unat v div 128" and v57: "unat ?v < 2 ^ 57"
    by (simp_all add: unat_of_nat)
  have b: "unat ?b = unat v mod 128"
    by (simp add: unat_of_nat)
  have "unat (push_bit 7 ?v OR ucast (?b AND 0x7f)) = unat v"
    using base128_shift [OF v57, of ?b] unfolding v b by simp
  then have "push_bit 7 ?v OR ucast (?b AND 0x7f) = v"
    by (simp add: word_unat_eq_iff)
  moreover have "?b AND 0x80 = 0"
    by (simp add: high_bit_iff b)
  moreover have "drop_bit (64 - 7) ?v = 0"
    using v57 by (simp add: drop_bit_eq_0_iff)
  moreover have "?b \<noteq> 0x80"
    using b by (auto simp: word_unat_eq_iff)
  ultimately have "parse_base128_loop ?v (?b # rest) = (Some v, rest)"
    by (simp add: Let_def)
  then show "parse_base128_integer cbs = (Some v, rest)"
    using parse_base128_complete_cont [OF small, of ?b rest]
    by (simp add: cbs base128_def parse_base128_integer_def)
qed

subsection \<open>Tags\<close>

lemma tag_class_shift:
  "push_bit CBS_ASN1_TAG_SHIFT (ucast (b :: u8) AND 0xe0 :: u32) = push_bit 29 (ucast (drop_bit 5 b))"
  by (rule word_eq_by_bits, simp add: upt_conv_Cons)
    (simp add: CBS_ASN1_TAG_SHIFT_def bit_simps bit_u8_False, simp add: numeral_eq_Suc)

lemma unat_tag:
  fixes x :: u32
  assumes "unat x < 2 ^ 29"
  shows "unat (push_bit CBS_ASN1_TAG_SHIFT (ucast (b :: u8) AND 0xe0) OR x)
           = unat b div 32 * 2 ^ 29 + unat x"
proof -
  have u: "unat (ucast (drop_bit 5 b) :: u32) = unat b div 32"
  proof -
    have "unat b div 32 < 2 ^ 32"
      by (rule le_less_trans [OF div_le_dividend less_trans [OF unat_u8_bound]]) simp
    moreover have "unat (drop_bit 5 b) = unat b div 32"
      by (simp only: unat_drop_bit) simp
    ultimately show ?thesis
      by (simp only: unsigned_ucast_eq unsigned_take_bit_eq) (simp add: take_bit_nat_eq_self)
  qed
  have "unat b div 32 < 8"
    using unat_u8_bound [of b] by (simp add: div_less_iff_less_mult)
  then have "unat b div 32 * 2 ^ 29 + unat x < 2 ^ LENGTH(32)"
    using assms by simp
  then show ?thesis
    unfolding tag_class_shift using unat_push_bit_or [OF assms, of "ucast (drop_bit 5 b)"]
    by (simp add: u)
qed

lemma ASN1_mask_value: "ucast CBS_ASN1_TAG_NUMBER_MASK = (2 ^ 29 - 1 :: u64)"
  by (simp add: CBS_ASN1_TAG_NUMBER_MASK_def CBS_ASN1_TAG_SHIFT_def)

definition tag_octet :: "u32 \<Rightarrow> nat \<Rightarrow> u8" where
  "tag_octet tag n = of_nat (unat tag div 2 ^ 29 * 32 + n)"

lemma unat_tag_octet: "n < 32 \<Longrightarrow> unat (tag_octet tag n) = unat tag div 2 ^ 29 * 32 + n"
proof -
  assume "n < 32"
  moreover have "unat tag div 2 ^ 29 < 8"
    using unat_u32_bound [of tag] by (simp add: div_less_iff_less_mult)
  ultimately have "unat tag div 2 ^ 29 * 32 + n < 256" by simp
  then show ?thesis by (simp add: tag_octet_def unat_of_nat del: of_nat_add)
qed

lemma der_tag_low: "unat tag mod 2 ^ 29 = n \<Longrightarrow> n < 31 \<Longrightarrow> der_tag tag = [tag_octet tag n]"
  by (simp add: der_tag_def tag_octet_def Let_def)

lemma der_tag_high:
  "unat tag mod 2 ^ 29 = n \<Longrightarrow> \<not> n < 31 \<Longrightarrow> der_tag tag = tag_octet tag 31 # base128 n"
  by (simp add: der_tag_def tag_octet_def Let_def)

lemma parse_asn1_tag_sound:
  assumes "parse_asn1_tag cbs = (Some tag, rest)"
  shows "cbs = der_tag tag @ rest"
proof -
  from assms obtain b cbs' where cbs: "cbs = b # cbs'"
    by (cases cbs) (auto simp: parse_asn1_tag_def opn_defs)
  have octet: "b = of_nat (unat b div 32 * 32 + unat b mod 32)"
    by (simp only: div_mult_mod_eq) simp
  show ?thesis
  proof (cases "unat b mod 32 = 31")
    case False
    have u: "unat (ucast (b AND 0x1f) :: u32) = unat b mod 32"
      by (simp add: unsigned_ucast_eq unsigned_take_bit_eq unat_and_1f take_bit_nat_eq_self)
    with False have "ucast (b AND 0x1f) \<noteq> (0x1f :: u32)"
      by (auto simp: word_unat_eq_iff)
    with assms have tag: "rest = cbs'"
        "tag = push_bit CBS_ASN1_TAG_SHIFT (ucast b AND 0xe0) OR ucast (b AND 0x1f)"
      by (simp_all add: parse_asn1_tag_def cbs opn_defs Let_def)
    have "unat tag = unat b div 32 * 2 ^ 29 + unat b mod 32"
      using unat_tag [of "ucast (b AND 0x1f)" b] by (simp add: tag u)
    then have "unat tag div 2 ^ 29 = unat b div 32" "unat tag mod 2 ^ 29 = unat b mod 32"
      by simp_all
    then show ?thesis
      using False octet mod_less_divisor [of 32 "unat b"]
      by (simp add: der_tag_low [of tag "unat b mod 32"] tag_octet_def cbs tag(1))
  next
    case True
    then have "ucast (b AND 0x1f) = (0x1f :: u32)"
      by (simp add: word_unat_eq_iff unsigned_ucast_eq unsigned_take_bit_eq unat_and_1f)
    with assms obtain v where v: "parse_base128_integer cbs' = (Some v, rest)"
      "\<not> v > ucast CBS_ASN1_TAG_NUMBER_MASK" "\<not> v < 0x1f"
      "tag = push_bit CBS_ASN1_TAG_SHIFT (ucast b AND 0xe0) OR ucast v"
      by (auto simp: parse_asn1_tag_def cbs opn_defs Let_def split: prod.splits option.splits if_splits)
    have bounds: "unat v < 2 ^ 29" "31 \<le> unat v"
      using v(2,3) by (simp_all add: ASN1_mask_value word_less_nat_alt not_less)
    have u: "unat (ucast v :: u32) = unat v"
      using bounds by (simp add: unsigned_ucast_eq unsigned_take_bit_eq take_bit_nat_eq_self)
    have "unat tag = unat b div 32 * 2 ^ 29 + unat v"
      using unat_tag [of "ucast v" b] bounds(1) by (simp add: v(4) u)
    then have "unat tag div 2 ^ 29 = unat b div 32" "unat tag mod 2 ^ 29 = unat v"
      using bounds by simp_all
    then show ?thesis
      using True bounds octet v(1)
      by (simp add: der_tag_high [of tag "unat v"] tag_octet_def cbs parse_base128_integer_iff)
  qed
qed

lemma parse_asn1_tag_complete: "parse_asn1_tag (der_tag tag @ rest) = (Some tag, rest)"
proof -
  define n where "n = unat tag mod 2 ^ 29"
  have n: "n < 2 ^ 29" by (simp add: n_def)
  have split: "unat tag = unat tag div 2 ^ 29 * 2 ^ 29 + n"
    unfolding n_def by (rule div_mult_mod_eq [symmetric])
  show ?thesis
  proof (cases "n < 31")
    case True
    let ?b = "tag_octet tag n"
    have b: "unat ?b = unat tag div 2 ^ 29 * 32 + n"
      using True by (simp add: unat_tag_octet)
    have u: "unat (ucast (?b AND 0x1f) :: u32) = n"
      using True by (simp add: unsigned_ucast_eq unsigned_take_bit_eq unat_and_1f b take_bit_nat_eq_self)
    with True have "ucast (?b AND 0x1f) \<noteq> (0x1f :: u32)"
      by (auto simp: word_unat_eq_iff)
    moreover have "push_bit CBS_ASN1_TAG_SHIFT (ucast ?b AND 0xe0) OR ucast (?b AND 0x1f) = tag"
      using unat_tag [of "ucast (?b AND 0x1f)" ?b] n True split
      by (simp add: word_unat_eq_iff u b)
    ultimately show ?thesis
      using True by (simp add: der_tag_low [OF n_def [symmetric]] parse_asn1_tag_def opn_defs Let_def)
  next
    case False
    let ?b = "tag_octet tag 31" and ?v = "of_nat n :: u64"
    have b: "unat ?b = unat tag div 2 ^ 29 * 32 + 31"
      by (simp add: unat_tag_octet)
    have v: "unat ?v = n" using n by (simp add: unat_of_nat)
    have u: "unat (ucast ?v :: u32) = n"
      using n by (simp add: unsigned_ucast_eq unsigned_take_bit_eq v take_bit_nat_eq_self)
    have "ucast (?b AND 0x1f) = (0x1f :: u32)"
      by (simp add: word_unat_eq_iff unsigned_ucast_eq unsigned_take_bit_eq unat_and_1f b)
    moreover have "parse_base128_integer (base128 n @ rest) = (Some ?v, rest)"
      by (simp add: parse_base128_integer_iff v)
    moreover have "\<not> ?v > ucast CBS_ASN1_TAG_NUMBER_MASK" "\<not> ?v < 0x1f"
      using n False by (simp_all add: ASN1_mask_value word_less_nat_alt v)
    moreover have "push_bit CBS_ASN1_TAG_SHIFT (ucast ?b AND 0xe0) OR ucast ?v = tag"
      using unat_tag [of "ucast ?v" ?b] n split by (simp add: word_unat_eq_iff u b)
    ultimately show ?thesis
      using False by (simp add: der_tag_high [OF n_def [symmetric]] parse_asn1_tag_def opn_defs Let_def)
  qed
qed

lemma parse_asn1_tag_iff:
  "parse_asn1_tag cbs = (Some tag, rest) \<longleftrightarrow> cbs = der_tag tag @ rest"
  using parse_asn1_tag_sound parse_asn1_tag_complete by blast

subsection \<open>Elements\<close>

lemma cbs_get_header:
  "cbs_get (n + length hdr) (hdr @ h) = (Some el, rest)
     \<longleftrightarrow> (\<exists>content. el = hdr @ content \<and> length content = n \<and> h = content @ rest)"
proof
  assume "cbs_get (n + length hdr) (hdr @ h) = (Some el, rest)"
  then have "hdr @ h = el @ rest" "length el = n + length hdr"
    by (simp_all add: cbs_get_Some)
  then have "el = hdr @ drop (length hdr) el \<and> length (drop (length hdr) el) = n
      \<and> h = drop (length hdr) el @ rest"
    by (auto simp: append_eq_append_conv2)
  then show "\<exists>content. el = hdr @ content \<and> length content = n \<and> h = content @ rest"
    by blast
qed (auto simp: cbs_get_Some)

lemma element_short:
  assumes "unat lb < 128"
  shows "cbs_get_any_asn1_element ber (der_tag tag @ lb # h)
    = op_map (\<lambda>out. (out, tag, length (der_tag tag) + 1))
        (cbs_get (unat lb + (length (der_tag tag) + 1))) (der_tag tag @ lb # h)"
  using assms
  by (simp add: cbs_get_any_asn1_element_def parse_asn1_tag_complete Let_def high_bit_iff
      CBS_get_bytes_def)

lemma unat_long_octet: "n < 128 \<Longrightarrow> unat (of_nat (128 + n) :: u8) = 128 + n"
  by (simp add: unat_of_nat del: of_nat_add)

lemma element_long:
  assumes "0 < k" "k \<le> 4" "256 ^ (k - 1) \<le> n" "n < 256 ^ k" "128 \<le> n"
  shows "cbs_get_any_asn1_element ber (der_tag tag @ of_nat (128 + k) # nat_be k n @ h)
    = op_map (\<lambda>out. (out, tag, length (der_tag tag) + 1 + k))
        (cbs_get (n + (length (der_tag tag) + 1 + k)))
        (der_tag tag @ of_nat (128 + k) # nat_be k n @ h)"
proof -
  define lb where "lb = (of_nat (128 + k) :: u8)"
  define v where "v = (of_nat n :: u64)"
  have lb: "unat lb = 128 + k" using assms(2) by (simp only: lb_def unat_long_octet)
  have high: "lb AND 0x80 \<noteq> 0" by (simp add: high_bit_iff lb)
  have num: "unat (lb AND 0x7f) = k" using assms(2) by (simp add: unat_and_7f lb)
  have "(256::nat) ^ k \<le> 256 ^ 4" using assms(2) by (intro power_increasing) simp_all
  with assms(4) have n32: "n < 2 ^ 32" by simp
  then have v: "unat v = n" by (simp add: v_def unat_of_nat)
  have u: "cbs_get_u k (nat_be k n @ h) = (Some v, h)"
    using assms by (simp add: cbs_get_u_Some v)
  have big: "\<not> v < 128" using assms(5) v by (simp add: word_less_nat_alt)
  have "(2::nat) ^ ((k - 1) * 8) = 256 ^ (k - 1)"
    by (simp only: mult.commute [of _ 8] power_mult) simp
  then have min: "drop_bit ((k - 1) * 8) v \<noteq> 0"
    using assms(3) by (simp only: drop_bit_eq_0_iff v not_less)
  define t where "t = length (der_tag tag)"
  have hdr: "length (der_tag tag @ lb # nat_be k n @ h) - length (nat_be k n @ h) = t + 1"
    by (simp add: t_def)
  have wrap: "(n + (t + 1) + k) mod 2 ^ 64 = n + (t + 1 + k)"
    using n32 assms(2) length_der_tag [of tag] by (simp add: t_def)
  show ?thesis
    unfolding lb_def [symmetric] cbs_get_any_asn1_element_def parse_asn1_tag_complete
    by (simp only: prod.case option.case CBS_get_u8_simps Let_def hdr high num if_False u big min
        v wrap) (use assms(1,2) in \<open>simp add: CBS_get_bytes_def t_def\<close>)
qed

lemma der_header_long:
  assumes "\<not> n < 128"
  shows "der_header tag n = der_tag tag @ of_nat (128 + byte_len n) # nat_be (byte_len n) n"
  using assms by (simp add: der_header_def der_length_def)

lemma element_complete:
  assumes "length content < 2 ^ 32"
  shows "cbs_get_any_asn1_element ber (der_element tag content @ rest)
    = (Some (der_element tag content, tag, length (der_header tag (length content))), rest)"
proof (cases "length content < 128")
  case True
  then have n: "unat (of_nat (length content) :: u8) = length content"
    by (simp add: unat_of_nat)
  have hdr: "der_header tag (length content) = der_tag tag @ [of_nat (length content)]"
    using True by (simp add: der_header_def der_length_def)
  have "cbs_get (length content + (length (der_tag tag) + 1))
      (der_tag tag @ of_nat (length content) # content @ rest)
    = (Some (der_element tag content), rest)"
    using cbs_get_header [of "length content" "der_header tag (length content)"]
    by (simp add: der_element_def hdr)
  then show ?thesis
    using element_short [of "of_nat (length content)" ber tag "content @ rest"] True
    by (simp add: n op_map_def op_bind_def op_ret_def der_element_def hdr)
next
  case False
  define n k where "n = length content" and "k = byte_len n"
  have "k \<le> 4" using assms by (simp add: k_def n_def byte_len_le_iff)
  moreover have k0: "0 < k"
    using False byte_len_pos [of n] by (cases "n = 0") (simp_all add: k_def n_def)
  moreover have "256 ^ (k - 1) \<le> n" "n < 256 ^ k"
    using byte_len_eq_iff [OF k0, of n] by (simp_all add: k_def)
  ultimately have el: "cbs_get_any_asn1_element ber (der_tag tag @ of_nat (128 + k) # nat_be k n @ h)
    = op_map (\<lambda>out. (out, tag, length (der_tag tag) + 1 + k))
        (cbs_get (n + (length (der_tag tag) + 1 + k)))
        (der_tag tag @ of_nat (128 + k) # nat_be k n @ h)" for h
    using False by (intro element_long) (simp_all add: n_def)
  have hdr: "der_header tag n = der_tag tag @ of_nat (128 + k) # nat_be k n"
    using False by (simp add: der_header_long n_def k_def)
  have "cbs_get (n + (length (der_tag tag) + 1 + k))
      (der_tag tag @ of_nat (128 + k) # nat_be k n @ content @ rest)
    = (Some (der_element tag content), rest)"
    using cbs_get_header [of n "der_header tag n" "content @ rest" "der_element tag content" rest]
    by (simp add: der_element_def hdr n_def [symmetric] del: of_nat_add)
  then show ?thesis
    using el [of "content @ rest"]
    by (simp add: op_map_def op_bind_def op_ret_def der_element_def hdr n_def [symmetric]
        del: of_nat_add)
qed

lemma element_sound:
  assumes "cbs_get_any_asn1_element False cbs = (Some (el, tag, hl), rest)"
  shows "\<exists>content. el = der_element tag content \<and> hl = length (der_header tag (length content))
           \<and> cbs = el @ rest \<and> length content < 2 ^ 32"
proof -
  obtain tag' h1 where "parse_asn1_tag cbs = (Some tag', h1)"
    using assms by (auto simp: cbs_get_any_asn1_element_def split: prod.splits option.splits)
  then have cbs: "cbs = der_tag tag' @ h1" by (simp add: parse_asn1_tag_iff)
  obtain lb h where h1: "h1 = lb # h"
    using assms by (cases h1)
      (auto simp: cbs cbs_get_any_asn1_element_def parse_asn1_tag_complete
        parse_asn1_tag_complete [of _ "[]", simplified])
  show ?thesis
  proof (cases "unat lb < 128")
    case True
    let ?hdr = "der_tag tag' @ [lb]"
    have "tag' = tag" "hl = length ?hdr" "cbs_get (unat lb + length ?hdr) (?hdr @ h) = (Some el, rest)"
      using assms element_short [OF True, of False tag' h] by (auto simp: cbs h1 op_map_Some)
    moreover from this obtain content where "el = ?hdr @ content" "length content = unat lb"
        "h = content @ rest"
      unfolding cbs_get_header by auto
    moreover have "der_header tag (unat lb) = der_tag tag @ [lb]"
      using True by (simp add: der_header_def der_length_def)
    ultimately show ?thesis
      using True by (intro exI [of _ content]) (auto simp: cbs h1 der_element_def)
  next
    case False
    define k where "k = unat (lb AND 0x7f)"
    have k: "k = unat lb - 128"
      using False by (simp add: k_def unat_and_7f u8_mod_128)
    then have lb: "lb = of_nat (128 + k)" using False by simp
    have "lb AND 0x80 \<noteq> 0" using False by (simp add: high_bit_iff)
    then obtain v h2 where kpos: "0 < k" "k \<le> 4" and u: "cbs_get_u k h = (Some v, h2)"
      and big: "\<not> v < 128" and min: "drop_bit ((k - 1) * 8) v \<noteq> 0"
      using assms
      by (auto simp: cbs h1 cbs_get_any_asn1_element_def parse_asn1_tag_complete Let_def
          k_def [symmetric] split: prod.splits option.splits if_splits)
    define n where "n = unat v"
    have h: "h = nat_be k n @ h2" and nk: "n < 256 ^ k"
      using u kpos by (simp_all add: cbs_get_u_Some n_def)
    have "(2::nat) ^ ((k - 1) * 8) = 256 ^ (k - 1)"
      by (simp only: mult.commute [of _ 8] power_mult) simp
    with min have nmin: "256 ^ (k - 1) \<le> n" by (simp only: drop_bit_eq_0_iff n_def not_less)
    have n128: "128 \<le> n" using big by (simp add: n_def word_less_nat_alt)
    have blen: "byte_len n = k" using byte_len_eq_iff [OF kpos(1)] nmin nk by simp
    have "(256::nat) ^ k \<le> 256 ^ 4" using kpos(2) by (intro power_increasing) simp_all
    with nk have n32: "n < 2 ^ 32" by simp
    let ?hdr = "der_tag tag' @ of_nat (128 + k) # nat_be k n"
    have "tag' = tag" "hl = length ?hdr" "cbs_get (n + length ?hdr) (?hdr @ h2) = (Some el, rest)"
      using assms element_long [OF kpos nmin nk n128, of False tag' h2]
      by (auto simp: cbs h1 lb h op_map_Some simp del: of_nat_add)
    moreover from this obtain content where "el = ?hdr @ content" "length content = n"
        "h2 = content @ rest"
      unfolding cbs_get_header by auto
    moreover have "der_header tag n = der_tag tag @ of_nat (128 + k) # nat_be k n"
      using n128 by (simp add: der_header_long blen)
    ultimately show ?thesis
      using n32 by (intro exI [of _ content]) (auto simp: cbs h1 lb h der_element_def simp del: of_nat_add)
  qed
qed

lemma element_iff:
  "CBS_get_any_asn1_element cbs = (Some (el, tag, hl), rest) \<longleftrightarrow>
     (\<exists>content. el = der_element tag content \<and> hl = length (der_header tag (length content))
        \<and> cbs = el @ rest \<and> length content < 2 ^ 32)"
  unfolding CBS_get_any_asn1_element_def
  by (rule iffI, drule element_sound, assumption) (auto simp: element_complete)

lemma element_run:
  "length content < 2 ^ 32 \<Longrightarrow>
     CBS_get_any_asn1_element (der_element tag content @ rest)
       = (Some (der_element tag content, tag, length (der_header tag (length content))), rest)"
  by (simp add: CBS_get_any_asn1_element_def element_complete)

lemma element_None: "cbs_get_any_asn1_element ber cbs = (None, s) \<Longrightarrow> s = cbs"
  by (auto simp: cbs_get_any_asn1_element_def Let_def op_map_None CBS_get_bytes_def cbs_get_None
      split: prod.splits option.splits if_splits)

lemma CBS_skip_Some: "CBS_skip n cbs = (Some u, rest) \<longleftrightarrow> (\<exists>bs. cbs = bs @ rest \<and> length bs = n)"
  by (auto simp: CBS_skip_def op_map_Some cbs_get_Some)

lemma CBS_skip_append [simp]: "n = length hdr \<Longrightarrow> CBS_skip n (hdr @ c) = (Some (), c)"
  by (simp add: CBS_skip_Some)

lemma der_skip [simp]:
  "CBS_skip (length (der_header tag (length content))) (der_element tag content) = (Some (), content)"
  by (simp add: der_element_def)

lemma element_bind_iff:
  "op_bind CBS_get_any_asn1_element f cbs = (Some r, rest) \<longleftrightarrow>
     (\<exists>tag content rest'. cbs = der_element tag content @ rest' \<and> length content < 2 ^ 32
        \<and> f (der_element tag content, tag, length (der_header tag (length content))) rest'
            = (Some r, rest))"
proof
  assume "op_bind CBS_get_any_asn1_element f cbs = (Some r, rest)"
  then obtain el tag hl rest' where el: "CBS_get_any_asn1_element cbs = (Some (el, tag, hl), rest')"
      and f: "f (el, tag, hl) rest' = (Some r, rest)"
    unfolding op_bind_Some_iff by (metis prod_cases3)
  obtain content where "el = der_element tag content"
      "hl = length (der_header tag (length content))" "cbs = el @ rest'" "length content < 2 ^ 32"
    using el [unfolded element_iff] by metis
  with f show "\<exists>tag content rest'. cbs = der_element tag content @ rest' \<and> length content < 2 ^ 32
      \<and> f (der_element tag content, tag, length (der_header tag (length content))) rest'
          = (Some r, rest)"
    by metis
qed (auto simp: op_bind_def element_run)

lemma CBS_get_any_asn1_iff:
  "CBS_get_any_asn1 cbs = (Some (content, tag), rest)
     \<longleftrightarrow> cbs = der_element tag content @ rest \<and> length content < 2 ^ 32"
  unfolding CBS_get_any_asn1_def element_bind_iff by (auto simp: op_ret_def)

lemma CBS_get_asn1_iff:
  "CBS_get_asn1 tag cbs = (Some content, rest)
     \<longleftrightarrow> cbs = der_element tag content @ rest \<and> length content < 2 ^ 32"
  unfolding CBS_get_asn1_def cbs_get_asn1_def element_bind_iff
  by (auto simp: op_ret_def op_fail_def split: if_splits)

lemma CBS_get_asn1_element_iff:
  "CBS_get_asn1_element tag cbs = (Some el, rest)
     \<longleftrightarrow> (\<exists>content. el = der_element tag content \<and> cbs = el @ rest \<and> length content < 2 ^ 32)"
  unfolding CBS_get_asn1_element_def cbs_get_asn1_def element_bind_iff
  by (auto simp: op_ret_def op_fail_def split: if_splits)

lemma der_tag_inject: "der_tag t1 @ r1 = der_tag t2 @ r2 \<longleftrightarrow> t1 = t2 \<and> r1 = r2"
  using parse_asn1_tag_complete [of t1 r1] parse_asn1_tag_complete [of t2 r2]
  by (metis Pair_inject option.inject)

lemma CBS_peek_asn1_tag_iff:
  "CBS_peek_asn1_tag tag cbs \<longleftrightarrow> (\<exists>rest. cbs = der_tag tag @ rest)"
proof (cases "parse_asn1_tag cbs")
  case (Pair r s)
  show ?thesis
  proof (cases r)
    case None
    then show ?thesis
      using Pair by (auto simp: CBS_peek_asn1_tag_def parse_asn1_tag_complete)
  next
    case (Some t)
    with Pair have "cbs = der_tag t @ s" by (simp add: parse_asn1_tag_iff)
    then show ?thesis
      by (auto simp: CBS_peek_asn1_tag_def parse_asn1_tag_complete der_tag_inject Suc_le_eq)
  qed
qed

subsection \<open>Integers\<close>

lemma asn1_uint64_loop_eq:
  "asn1_uint64_loop acc bs =
     (if unat acc * 256 ^ length bs + be_nat bs < 2 ^ 64
      then Some (of_nat (unat acc * 256 ^ length bs + be_nat bs)) else None)"
proof (induction bs arbitrary: acc)
  case Nil
  then show ?case using unat_u64_bound [of acc] by simp
next
  case (Cons b bs)
  show ?case
  proof (cases "unat acc < 2 ^ 56")
    case True
    have "unat acc * 2 ^ 8 + unat b < 2 ^ 64"
      using True unat_u8_bound [of b] by simp
    then have "unat (push_bit 8 acc OR ucast b) = unat acc * 256 + unat b"
      using unat_push_bit_or [of "ucast b :: u64" 8 acc] unat_u8_bound [of b]
      by (simp add: unsigned_ucast_eq unsigned_take_bit_eq take_bit_nat_eq_self)
    with True Cons show ?thesis
      by (simp add: drop_bit_eq_0_iff algebra_simps)
  next
    case False
    then have A: "2 ^ 56 * 256 ^ Suc (length bs) \<le> unat acc * 256 ^ Suc (length bs)"
      by (intro mult_le_mono1) simp
    have B: "(2::nat) ^ 64 \<le> 2 ^ 56 * 256 ^ Suc (length bs)"
      by simp
    have "2 ^ 64 \<le> unat acc * 256 ^ length (b # bs)"
      unfolding length_Cons using B A by (rule order_trans)
    then have "\<not> unat acc * 256 ^ length (b # bs) + be_nat (b # bs) < 2 ^ 64"
      by (simp only: not_less trans_le_add1)
    then show ?thesis
      using False by (simp add: drop_bit_eq_0_iff del: be_nat_Cons list.size)
  qed
qed

text \<open>\<open>min_nonneg\<close>: at least one octet, the sign bit clear and no redundant leading zero.\<close>

definition min_nonneg :: "bytes \<Rightarrow> bool" where
  "min_nonneg bs \<longleftrightarrow> bs \<noteq> [] \<and> unat (bs ! 0) < 128
     \<and> \<not> (bs ! 0 = 0 \<and> length bs > 1 \<and> unat (bs ! 1) < 128)"

lemma byte_len_be_nat:
  assumes "bs \<noteq> []" "hd bs \<noteq> 0"
  shows "byte_len (be_nat bs) = length bs" and "be_nat bs \<noteq> 0"
proof -
  obtain b cs where bs: "bs = b # cs" using assms by (cases bs) auto
  have b: "1 \<le> unat b" using assms by (simp add: bs unat_gt_0 Suc_le_eq)
  have "256 ^ length cs \<le> unat b * 256 ^ length cs"
    using b by (cases "unat b") simp_all
  then have lo: "256 ^ length cs \<le> be_nat bs"
    unfolding bs be_nat_Cons by (rule trans_le_add1)
  then show "byte_len (be_nat bs) = length bs"
    using be_nat_bound [of bs] by (subst byte_len_eq_iff) (simp_all add: bs)
  have "0 < (256::nat) ^ length cs" by simp
  with lo show "be_nat bs \<noteq> 0" by linarith
qed

lemma min_nonneg_canonical:
  assumes "min_nonneg bs"
  shows "der_nat_bytes (be_nat bs) = bs"
proof -
  obtain b cs where bs: "bs = b # cs"
    using assms by (cases bs) (auto simp: min_nonneg_def)
  show ?thesis
  proof (cases "b = 0")
    case False
    then have "byte_len (be_nat bs) = length bs" "be_nat bs \<noteq> 0"
      using byte_len_be_nat [of bs] by (simp_all add: bs)
    moreover have "\<not> 128 \<le> unat b" using assms by (simp add: bs min_nonneg_def)
    ultimately show ?thesis
      by (simp add: der_nat_bytes_def nat_be_be_nat Let_def) (simp add: bs)
  next
    case True
    show ?thesis
    proof (cases cs)
      case Nil
      then show ?thesis using True by (simp add: bs der_nat_bytes_def)
    next
      case (Cons c ds)
      with True assms have c: "128 \<le> unat c"
        by (auto simp: bs min_nonneg_def not_less)
      then have "hd cs \<noteq> 0" using Cons by auto
      then have "byte_len (be_nat cs) = length cs" "be_nat cs \<noteq> 0"
        using byte_len_be_nat [of cs] Cons by simp_all
      moreover have "be_nat bs = be_nat cs" using True by (simp add: bs)
      ultimately show ?thesis
        using c True by (simp add: der_nat_bytes_def nat_be_be_nat Let_def) (simp add: bs Cons)
    qed
  qed
qed

lemma be_nat_byte_len [simp]: "be_nat (nat_be (byte_len n) n) = n"
  using byte_len_le_iff [of n "byte_len n"] by (simp add: be_nat_nat_be)

lemma be_nat_der_nat_bytes [simp]: "be_nat (der_nat_bytes n) = n"
  by (simp add: der_nat_bytes_def Let_def)

lemma der_nat_bytes_min: "min_nonneg (der_nat_bytes n)"
proof (cases "n = 0")
  case True
  then show ?thesis by (simp add: der_nat_bytes_def min_nonneg_def)
next
  case False
  let ?bs = "nat_be (byte_len n) n"
  from False obtain b cs where bs: "?bs = b # cs"
    using byte_len_pos [of n] by (cases ?bs) (auto dest: arg_cong [where f = length])
  have "b \<noteq> 0" using nat_be_byte_len_hd [OF False] by (simp add: bs)
  with False show ?thesis
    by (auto simp: der_nat_bytes_def min_nonneg_def bs Let_def)
qed

lemma length_der_nat_bytes: "length (der_nat_bytes n) \<le> Suc (byte_len n)"
  by (simp add: der_nat_bytes_def Let_def)

lemma asn1_uint64_of_bytes_iff:
  "asn1_uint64_of_bytes data = Some v \<longleftrightarrow> data = der_nat_bytes (unat v)"
proof -
  have "asn1_uint64_of_bytes data
      = (if min_nonneg data then asn1_uint64_loop 0 data else None)"
    by (auto simp: asn1_uint64_of_bytes_def min_nonneg_def high_bit_iff Let_def not_less)
  also have "\<dots> = Some v \<longleftrightarrow> min_nonneg data \<and> be_nat data < 2 ^ 64 \<and> v = of_nat (be_nat data)"
    by (auto simp: asn1_uint64_loop_eq)
  also have "\<dots> \<longleftrightarrow> min_nonneg data \<and> be_nat data = unat v"
    using unat_u64_bound [of v] by (auto simp: unat_of_nat)
  also have "\<dots> \<longleftrightarrow> data = der_nat_bytes (unat v)"
    using min_nonneg_canonical [of data] der_nat_bytes_min [of "unat v"] by auto
  finally show ?thesis .
qed

lemma get_asn1_then_iff:
  "op_bind (CBS_get_asn1 tag) (\<lambda>data. case f data of None \<Rightarrow> op_fail | Some out \<Rightarrow> op_ret out) cbs
       = (Some v, rest)
     \<longleftrightarrow> (\<exists>data. cbs = der_element tag data @ rest \<and> length data < 2 ^ 32 \<and> f data = Some v)"
  unfolding op_bind_Some_iff CBS_get_asn1_iff
  by (intro iffI; elim exE conjE) (auto simp: op_fail_def op_ret_def split: option.splits)

lemma CBS_get_asn1_uint64_iff:
  "CBS_get_asn1_uint64 cbs = (Some v, rest)
     \<longleftrightarrow> cbs = der_element CBS_ASN1_INTEGER (der_nat_bytes (unat v)) @ rest"
proof -
  have "byte_len (unat v) \<le> 8"
    using unat_u64_bound [of v] by (simp add: byte_len_le_iff)
  then have "length (der_nat_bytes (unat v)) < 2 ^ 32"
    using length_der_nat_bytes [of "unat v"] by simp
  then show ?thesis
    by (auto simp: CBS_get_asn1_uint64_def get_asn1_then_iff asn1_uint64_of_bytes_iff)
qed

subsection \<open>Signed integers\<close>

lemma union_fill:
  assumes "k \<le> length data" "length data \<le> length u"
  shows "foldl (\<lambda>u i. u[i := data ! (length data - i - 1)]) u [0..<k] = take k (rev data) @ drop k u"
  using assms
proof (induction k)
  case (Suc k)
  let ?w = "take k (rev data) @ drop k u"
  have "rev data ! k = data ! (length data - k - 1)"
    using Suc.prems by (simp add: rev_nth)
  then have "take (Suc k) (rev data) = take k (rev data) @ [data ! (length data - k - 1)]"
    using Suc.prems by (simp add: take_Suc_conv_app_nth)
  moreover have "drop k u = u ! k # drop (Suc k) u"
    using Suc.prems by (simp add: Cons_nth_drop_Suc)
  ultimately show ?case
    using Suc by (simp add: list_update_append)
qed simp

lemma be_word_0: "be_word 0 bs = of_nat (be_nat bs)"
  by (simp add: be_word_of_nat)

definition min_int :: "bytes \<Rightarrow> bool" where
  "min_int bs \<longleftrightarrow> bs \<noteq> []
     \<and> \<not> (length bs > 1 \<and> bs ! 0 = 0 \<and> unat (bs ! 1) < 128)
     \<and> \<not> (length bs > 1 \<and> bs ! 0 = 0xff \<and> \<not> unat (bs ! 1) < 128)"

lemma sign_extended_word:
  assumes "length data \<le> 8"
  shows "be_word 0 (replicate (8 - length data) 0 @ data) = of_nat (be_nat data)"
    and "be_word 0 (replicate (8 - length data) 0xff @ data)
           = word_of_int (int (be_nat data) - 256 ^ length data)"
proof -
  let ?k = "8 - length data"
  have z: "be_nat (replicate k 0) = 0" for k by (induction k) simp_all
  show "be_word 0 (replicate ?k 0 @ data) = of_nat (be_nat data)"
    by (simp add: be_word_0 be_nat_append z)
  have "int (be_nat (replicate ?k 0xff @ data)) = (256 ^ ?k - 1) * 256 ^ length data + int (be_nat data)"
    unfolding be_nat_append of_nat_add of_nat_mult be_nat_replicate_ff by simp
  also have "\<dots> = 256 ^ 8 + (int (be_nat data) - 256 ^ length data)"
    using assms by (simp add: algebra_simps flip: power_add)
  finally have "be_word 0 (replicate ?k 0xff @ data)
      = word_of_int (256 ^ 8 + (int (be_nat data) - 256 ^ length data))"
    unfolding be_word_0 by (metis of_int_of_nat_eq)
  also have "\<dots> = word_of_int (int (be_nat data) - 256 ^ length data)"
    by simp
  finally show "be_word 0 (replicate ?k 0xff @ data)
      = word_of_int (int (be_nat data) - 256 ^ length data)" .
qed

lemma asn1_int64_of_bytes_eq:
  "asn1_int64_of_bytes data
     = (if min_int data \<and> length data \<le> 8 then Some (word_of_int (twos_val data)) else None)"
proof (cases "min_int data \<and> length data \<le> 8")
  case True
  have "foldl (\<lambda>u i. u[i := data ! (length data - i - 1)]) (replicate 8 x) [0..<length data]
      = rev data @ replicate (8 - length data) x" for x
    using True by (subst union_fill) simp_all
  moreover have "data \<noteq> []" using True by (simp add: min_int_def)
  ultimately show ?thesis
    using True sign_extended_word [of data]
    by (auto simp: asn1_int64_of_bytes_def min_int_def high_bit_iff Let_def twos_val_def
        int64_of_union_def hd_conv_nth not_less)
qed (auto simp: asn1_int64_of_bytes_def min_int_def high_bit_iff Let_def)

lemma min_int_cases:
  "min_int bs \<longleftrightarrow> (if unat (hd bs) < 128 then min_nonneg bs else bs \<noteq> [] \<and> min_nonneg (map NOT bs))"
proof (cases bs)
  case (Cons b cs)
  have not0: "NOT x = 0 \<longleftrightarrow> x = 0xff" for x :: u8
    using unat_u8_bound [of x] by (auto simp: word_unat_eq_iff unat_not_u8)
  have lt: "unat (NOT x) < 128 \<longleftrightarrow> \<not> unat x < 128" for x :: u8
    using unat_u8_bound [of x] by (simp add: unat_not_u8) linarith
  show ?thesis
    using Cons by (cases cs) (auto simp: min_int_def min_nonneg_def not0 lt)
qed (simp add: min_int_def min_nonneg_def)
lemma min_nonneg_big:
  assumes "min_nonneg bs" "8 < length bs"
  shows "2 ^ 63 \<le> be_nat bs"
proof -
  obtain b c cs where bs: "bs = b # c # cs"
    using assms(2) by (cases bs; cases "tl bs") auto
  have len: "7 \<le> length cs" using assms(2) by (simp add: bs)
  show ?thesis
  proof (cases "b = 0")
    case True
    with assms(1) have "128 \<le> unat c" by (auto simp: bs min_nonneg_def not_less)
    then have "128 * 256 ^ 7 \<le> unat c * 256 ^ length cs"
      using len by (intro mult_le_mono power_increasing) simp_all
    then show ?thesis using True by (simp add: bs)
  next
    case False
    then have "1 \<le> unat b" by (simp add: Suc_le_eq unat_gt_0)
    then have "1 * 256 ^ 8 \<le> unat b * 256 ^ length (c # cs)"
      using len by (intro mult_le_mono power_increasing) simp_all
    then show ?thesis by (simp add: bs)
  qed
qed

lemma min_nonneg_small:
  assumes "min_nonneg bs" "length bs \<le> 8"
  shows "be_nat bs < 2 ^ 63"
proof -
  obtain b cs where bs: "bs = b # cs" using assms(1) by (cases bs) (auto simp: min_nonneg_def)
  have "unat b \<le> 127" using assms(1) by (simp add: bs min_nonneg_def)
  then have "unat b * 256 ^ length cs \<le> 127 * 256 ^ 7"
    using assms(2) by (intro mult_le_mono power_increasing) (simp_all add: bs)
  moreover have "be_nat cs < 256 ^ 7"
    using be_nat_bound [of cs] assms(2) power_increasing [of "length cs" 7 "256::nat"]
    by (simp add: bs)
  ultimately show ?thesis by (simp add: bs)
qed

lemma min_int_canonical:
  assumes "min_int bs"
  shows "der_int_bytes (twos_val bs) = bs"
proof (cases "unat (hd bs) < 128")
  case True
  with assms show ?thesis
    by (simp add: min_int_cases twos_val_def der_int_bytes_def min_nonneg_canonical)
next
  case False
  with assms have m: "bs \<noteq> []" "min_nonneg (map NOT bs)" by (simp_all add: min_int_cases)
  have "- twos_val bs - 1 = int (be_nat (map NOT bs))"
    using False by (simp add: twos_val_def be_nat_map_not)
  moreover have "twos_val bs < 0"
    using False be_nat_bound [of bs] by (simp add: twos_val_def flip: of_nat_power)
  ultimately have "der_int_bytes (twos_val bs) = map NOT (der_nat_bytes (be_nat (map NOT bs)))"
    by (simp add: der_int_bytes_def)
  with m show ?thesis by (simp add: min_nonneg_canonical comp_def)
qed

lemma der_int_bytes_min: "min_int (der_int_bytes i) \<and> twos_val (der_int_bytes i) = i"
proof (cases "0 \<le> i")
  case True
  then have "min_nonneg (der_int_bytes i)" by (simp add: der_int_bytes_def der_nat_bytes_min)
  then have "unat (hd (der_int_bytes i)) < 128" "min_nonneg (der_int_bytes i)"
    by (simp_all add: min_nonneg_def hd_conv_nth)
  with True show ?thesis by (simp add: min_int_cases twos_val_def) (simp add: der_int_bytes_def)
next
  case False
  let ?bs = "der_nat_bytes (nat (- i - 1))"
  have e: "der_int_bytes i = map NOT ?bs" using False by (simp add: der_int_bytes_def)
  have m: "min_nonneg ?bs" by (rule der_nat_bytes_min)
  then have ne: "?bs \<noteq> []" "unat (hd ?bs) < 128" by (simp_all add: min_nonneg_def hd_conv_nth)
  then have hd: "\<not> unat (hd (map NOT ?bs)) < 128"
    by (simp add: hd_map unat_not_u8)
  have "min_int (der_int_bytes i)"
    using m ne hd by (simp add: e min_int_cases comp_def)
  moreover have "twos_val (der_int_bytes i) = i"
    using hd False by (simp add: e twos_val_def be_nat_map_not)
  ultimately show ?thesis by simp
qed

lemma twos_val_range:
  assumes "min_int bs"
  shows "length bs \<le> 8 \<longleftrightarrow> - (2 ^ 63) \<le> twos_val bs \<and> twos_val bs < 2 ^ 63"
proof (cases "unat (hd bs) < 128")
  case True
  with assms have "min_nonneg bs" by (simp add: min_int_cases)
  with min_nonneg_small [OF this] min_nonneg_big [OF this] show ?thesis
    using True by (cases "length bs \<le> 8") (auto simp: twos_val_def)
next
  case False
  with assms have m: "min_nonneg (map NOT bs)" by (simp add: min_int_cases)
  have "twos_val bs = - int (be_nat (map NOT bs)) - 1"
    using False by (simp add: twos_val_def be_nat_map_not)
  with min_nonneg_small [OF m] min_nonneg_big [OF m] show ?thesis
    by (cases "length bs \<le> 8") auto
qed

lemma word_of_int_sint_iff:
  "- (2 ^ 63) \<le> i \<and> i < 2 ^ 63 \<and> (word_of_int i :: u64) = v \<longleftrightarrow> i = sint v"
  using sint_greater_eq [of v] sint_less [of v]
  by (auto simp: signed_of_int signed_take_bit_int_eq_self)

lemma asn1_int64_of_bytes_iff:
  "asn1_int64_of_bytes data = Some v \<longleftrightarrow> data = der_int_bytes (sint v)"
proof -
  have "asn1_int64_of_bytes data = Some v
      \<longleftrightarrow> min_int data \<and> length data \<le> 8 \<and> word_of_int (twos_val data) = v"
    by (auto simp: asn1_int64_of_bytes_eq)
  also have "\<dots> \<longleftrightarrow> min_int data \<and> twos_val data = sint v"
    using twos_val_range [of data] word_of_int_sint_iff [of "twos_val data" v] by auto
  also have "\<dots> \<longleftrightarrow> data = der_int_bytes (sint v)"
    using min_int_canonical [of data] der_int_bytes_min [of "sint v"] by auto
  finally show ?thesis .
qed

lemma CBS_get_asn1_int64_iff:
  "CBS_get_asn1_int64 cbs = (Some v, rest)
     \<longleftrightarrow> cbs = der_element CBS_ASN1_INTEGER (der_int_bytes (sint v)) @ rest"
proof -
  have "asn1_int64_of_bytes (der_int_bytes (sint v)) = Some v"
    by (simp add: asn1_int64_of_bytes_iff)
  then have "length (der_int_bytes (sint v)) < 2 ^ 32"
    by (simp add: asn1_int64_of_bytes_eq split: if_splits)
  then show ?thesis
    by (auto simp: CBS_get_asn1_int64_def get_asn1_then_iff asn1_int64_of_bytes_iff)
qed

subsection \<open>Optional elements, BER headers and bit strings\<close>

lemma CBS_get_optional_asn1_absent:
  "\<not> (\<exists>rest. cbs = der_tag tag @ rest) \<Longrightarrow> CBS_get_optional_asn1 tag cbs = (Some None, cbs)"
  by (simp add: CBS_get_optional_asn1_def CBS_peek_asn1_tag_iff op_ret_def)

lemma CBS_get_optional_asn1_present:
  "length content < 2 ^ 32 \<Longrightarrow>
     CBS_get_optional_asn1 tag (der_element tag content @ rest) = (Some (Some content), rest)"
proof -
  assume "length content < 2 ^ 32"
  then have "CBS_get_asn1 tag (der_element tag content @ rest) = (Some content, rest)"
    by (simp add: CBS_get_asn1_iff)
  moreover have "CBS_peek_asn1_tag tag (der_element tag content @ rest)"
    by (auto simp: CBS_peek_asn1_tag_iff der_element_def der_header_def)
  ultimately show ?thesis
    by (simp add: CBS_get_optional_asn1_def op_map_Some)
qed

lemma CBS_get_optional_asn1_iff:
  "CBS_get_optional_asn1 tag cbs = (Some r, rest) \<longleftrightarrow>
     (case r of None \<Rightarrow> rest = cbs \<and> \<not> (\<exists>t. cbs = der_tag tag @ t)
      | Some content \<Rightarrow> cbs = der_element tag content @ rest \<and> length content < 2 ^ 32)"
proof (cases "CBS_peek_asn1_tag tag cbs")
  case True
  then show ?thesis
    by (auto simp: CBS_get_optional_asn1_def op_map_Some CBS_get_asn1_iff CBS_peek_asn1_tag_iff
        split: option.splits)
next
  case False
  then show ?thesis
    by (auto simp: CBS_get_optional_asn1_def op_ret_def CBS_peek_asn1_tag_iff der_element_def
        der_header_def split: option.splits)
qed

lemma der_element_inject:
  assumes "der_element t1 c1 @ r1 = der_element t2 c2 @ r2"
    and "length c1 < 2 ^ 32" "length c2 < 2 ^ 32"
  shows "t1 = t2 \<and> c1 = c2 \<and> r1 = r2"
proof -
  have "CBS_get_any_asn1 (der_element t1 c1 @ r1) = (Some (c1, t1), r1)"
    using assms(2) by (simp add: CBS_get_any_asn1_iff)
  moreover have "CBS_get_any_asn1 (der_element t2 c2 @ r2) = (Some (c2, t2), r2)"
    using assms(3) by (simp add: CBS_get_any_asn1_iff)
  ultimately show ?thesis
    using assms(1) by (metis Pair_inject option.inject)
qed

lemma ber_indefinite:
  assumes "tag AND CBS_ASN1_CONSTRUCTED \<noteq> 0"
  shows "CBS_get_any_ber_asn1_element (der_tag tag @ 0x80 # rest)
    = (Some (der_tag tag @ [0x80], tag, length (der_tag tag) + 1), rest)"
proof -
  have "cbs_get (length (der_tag tag) + 1) (der_tag tag @ 0x80 # rest) = (Some (der_tag tag @ [0x80]), rest)"
    using cbs_get_append [of "der_tag tag @ [0x80]" _ rest] by simp
  then show ?thesis
    using assms
    by (simp add: CBS_get_any_ber_asn1_element_def cbs_get_any_asn1_element_def
        parse_asn1_tag_complete Let_def CBS_get_bytes_def op_map_Some)
qed

lemma octet_0x80: "(lb :: u8) AND 0x80 \<noteq> 0 \<and> unat (lb AND 0x7f) = 0 \<longleftrightarrow> lb = 0x80"
proof -
  have "unat lb \<ge> 128 \<and> unat lb mod 128 = 0 \<longleftrightarrow> unat lb = 128"
    using unat_u8_bound [of lb] by presburger
  then have "lb AND 0x80 \<noteq> 0 \<and> unat (lb AND 0x7f) = 0 \<longleftrightarrow> unat lb = 128"
    unfolding high_bit_iff unat_and_7f by (simp only: not_less)
  then show ?thesis by (simp add: word_unat_eq_iff [of lb])
qed

text \<open>Where there is no indefinite length the BER reader is the DER reader.\<close>

lemma ber_is_der:
  assumes "\<And>tag s. cbs = der_tag tag @ 0x80 # s \<Longrightarrow> tag AND CBS_ASN1_CONSTRUCTED = 0"
  shows "CBS_get_any_ber_asn1_element cbs = CBS_get_any_asn1_element cbs"
proof (cases "parse_asn1_tag cbs")
  case (Pair r header)
  show ?thesis
  proof (cases "\<exists>tag lb h. r = Some tag \<and> header = lb # h")
    case True
    then obtain tag lb h where r: "r = Some tag" "header = lb # h" by blast
    then have "cbs = der_tag tag @ lb # h" using Pair by (simp add: parse_asn1_tag_iff)
    then have "lb AND 0x80 \<noteq> 0 \<and> unat (lb AND 0x7f) = 0 \<Longrightarrow> tag AND CBS_ASN1_CONSTRUCTED = 0"
      using assms octet_0x80 by simp
    then show ?thesis
      by (simp add: CBS_get_any_ber_asn1_element_def CBS_get_any_asn1_element_def
          cbs_get_any_asn1_element_def Pair r Let_def)
  next
    case False
    then have "r = None \<or> header = []" by (cases r; cases header) auto
    then show ?thesis
      by (elim disjE) (simp_all add: CBS_get_any_ber_asn1_element_def CBS_get_any_asn1_element_def
          cbs_get_any_asn1_element_def Pair split: option.split)
  qed
qed

lemma der_refuses_indefinite: "CBS_get_any_asn1_element (der_tag tag @ 0x80 # s) = (None, der_tag tag @ 0x80 # s)"
  by (simp add: CBS_get_any_asn1_element_def cbs_get_any_asn1_element_def parse_asn1_tag_complete Let_def)

lemma ber_element_iff:
  "CBS_get_any_ber_asn1_element cbs = (Some (el, tag, hl), rest) \<longleftrightarrow>
     CBS_get_any_asn1_element cbs = (Some (el, tag, hl), rest)
     \<or> cbs = el @ rest \<and> el = der_tag tag @ [0x80] \<and> hl = length el \<and> tag AND CBS_ASN1_CONSTRUCTED \<noteq> 0"
proof (cases "\<exists>t s. cbs = der_tag t @ 0x80 # s \<and> t AND CBS_ASN1_CONSTRUCTED \<noteq> 0")
  case True
  then obtain t s where cbs: "cbs = der_tag t @ 0x80 # s" and t: "t AND CBS_ASN1_CONSTRUCTED \<noteq> 0" by blast
  have "t = tag \<and> s = rest" if "der_tag t @ 0x80 # s = der_tag tag @ 0x80 # rest"
  proof -
    have "parse_asn1_tag (der_tag t @ 0x80 # s) = parse_asn1_tag (der_tag tag @ 0x80 # rest)" by (simp only: that)
    then show ?thesis by (simp add: parse_asn1_tag_complete)
  qed
  then show ?thesis
    unfolding cbs using ber_indefinite [OF t, of s] t by (auto simp: der_refuses_indefinite)
next
  case False
  then have eq: "CBS_get_any_ber_asn1_element cbs = CBS_get_any_asn1_element cbs"
    by (intro ber_is_der) blast
  have "\<not> (cbs = el @ rest \<and> el = der_tag tag @ [0x80] \<and> tag AND CBS_ASN1_CONSTRUCTED \<noteq> 0)"
    using False append.assoc [of "der_tag tag" "[0x80]" rest] by (metis append_Cons append_Nil)
  then show ?thesis unfolding eq by blast
qed

text \<open>Two octets are the header of an indefinite-length element with a low tag number only.\<close>

lemma der_tag_one: "length (der_tag tag) = 1 \<longleftrightarrow> tag AND CBS_ASN1_TAG_NUMBER_MASK < 0x1f"
proof -
  have "unat (tag AND CBS_ASN1_TAG_NUMBER_MASK) = unat tag mod 2 ^ 29"
    using unat_and_mask [of tag 29] by (simp add: CBS_ASN1_TAG_NUMBER_MASK_def CBS_ASN1_TAG_SHIFT_def)
  then show ?thesis by (simp add: der_tag_def Let_def word_less_nat_alt)
qed

section \<open>Properties\<close>

text \<open>(C1) The DER reader accepts exactly the canonical encodings: \<open>CBS_get_any_asn1\<close> succeeds iff
  the string starts with the minimal identifier and length octets of some tag and contents of
  less than \<open>2 ^ 32\<close> octets, and then it returns those; the element reader returns the whole
  element and its header length, and on failure the \<open>CBS\<close> has not moved.\<close>

theorem CBS_get_any_asn1_exactly_der:
  "(CBS_get_any_asn1 cbs = (Some (content, tag), rest)
      \<longleftrightarrow> cbs = der_element tag content @ rest \<and> length content < 2 ^ 32)
   \<and> (CBS_get_any_asn1_element cbs = (Some (el, tag, hl), rest) \<longleftrightarrow>
        (\<exists>content. el = der_element tag content \<and> hl = length (der_header tag (length content))
           \<and> cbs = el @ rest \<and> length content < 2 ^ 32))
   \<and> (fst (CBS_get_any_asn1_element cbs) = None
        \<longleftrightarrow> CBS_get_any_asn1_element cbs = (None, cbs))"
proof (intro conjI)
  show "fst (CBS_get_any_asn1_element cbs) = None
      \<longleftrightarrow> CBS_get_any_asn1_element cbs = (None, cbs)"
    by (cases "CBS_get_any_asn1_element cbs")
      (auto simp: CBS_get_any_asn1_element_def dest: element_None)
qed (rule CBS_get_any_asn1_iff, rule element_iff)

text \<open>(C14) Integers are read exactly from their shortest two's complement contents: the unsigned
  reader accepts every value below \<open>2 ^ 64\<close> and the signed one every \<open>int64_t\<close>, each from one
  encoding only.\<close>

theorem CBS_get_asn1_integer_canonical:
  "(CBS_get_asn1_uint64 cbs = (Some v, rest)
      \<longleftrightarrow> cbs = der_element CBS_ASN1_INTEGER (der_nat_bytes (unat v)) @ rest)
   \<and> (CBS_get_asn1_int64 cbs = (Some w, rest)
      \<longleftrightarrow> cbs = der_element CBS_ASN1_INTEGER (der_int_bytes (sint w)) @ rest)"
  by (simp only: CBS_get_asn1_uint64_iff CBS_get_asn1_int64_iff)

text \<open>The fixed-width readers return exactly the big-endian (or, for the \<open>le\<close> variants,
  little-endian) value of the octets they consume.\<close>

theorem CBS_get_fixed_width:
  "(CBS_get_u16 cbs = (Some v16, rest) \<longleftrightarrow> cbs = nat_be 2 (unat v16) @ rest)
   \<and> (CBS_get_u24 cbs = (Some v24, rest) \<longleftrightarrow> cbs = nat_be 3 (unat v24) @ rest \<and> unat v24 < 2 ^ 24)
   \<and> (CBS_get_u32 cbs = (Some v32, rest) \<longleftrightarrow> cbs = nat_be 4 (unat v32) @ rest)
   \<and> (CBS_get_u64 cbs = (Some v64, rest) \<longleftrightarrow> cbs = nat_be 8 (unat v64) @ rest)
   \<and> (CBS_get_u16le cbs = (Some v16, rest) \<longleftrightarrow> cbs = rev (nat_be 2 (unat v16)) @ rest)
   \<and> (CBS_get_u32le cbs = (Some v32, rest) \<longleftrightarrow> cbs = rev (nat_be 4 (unat v32)) @ rest)
   \<and> (CBS_get_u64le cbs = (Some v64, rest) \<longleftrightarrow> cbs = rev (nat_be 8 (unat v64)) @ rest)"
  by (simp only: CBS_get_u16_Some CBS_get_u24_Some CBS_get_u32_Some CBS_get_u64_Some
      CBS_get_le_Some)

text \<open>An optional element is reported absent, with nothing consumed, exactly when the next
  octets are not the requested identifier; otherwise it must be a well-formed element of that tag,
  whose contents are returned.\<close>

theorem CBS_get_optional_asn1_spec:
  "CBS_get_optional_asn1 tag cbs = (Some r, rest) \<longleftrightarrow>
     (case r of None \<Rightarrow> rest = cbs \<and> \<not> (\<exists>t. cbs = der_tag tag @ t)
      | Some content \<Rightarrow> cbs = der_element tag content @ rest \<and> length content < 2 ^ 32)"
  by (rule CBS_get_optional_asn1_iff)

text \<open>(C15) The BER reader accepts exactly what the DER reader accepts, with the same results, and the
  headers of constructed elements of indefinite length, which the DER reader refuses. Of such an
  element it returns the header, identifier and length octet; these are two octets exactly for tag
  numbers below 31. On failure the \<open>CBS\<close> has not moved.\<close>

theorem CBS_get_any_ber_extends_der:
  "(CBS_get_any_ber_asn1_element cbs = (Some (el, tag, hl), rest) \<longleftrightarrow>
      (\<exists>content. el = der_element tag content \<and> hl = length (der_header tag (length content))
         \<and> cbs = el @ rest \<and> length content < 2 ^ 32)
      \<or> el = der_tag tag @ [0x80] \<and> hl = length el \<and> cbs = el @ rest \<and> tag AND CBS_ASN1_CONSTRUCTED \<noteq> 0)
   \<and> (fst (CBS_get_any_ber_asn1_element cbs) = None \<longleftrightarrow> CBS_get_any_ber_asn1_element cbs = (None, cbs))
   \<and> CBS_get_any_asn1_element (der_tag tag @ 0x80 # rest) = (None, der_tag tag @ 0x80 # rest)
   \<and> (length (der_tag tag @ [0x80]) = 2 \<longleftrightarrow> tag AND CBS_ASN1_TAG_NUMBER_MASK < 0x1f)"
proof (intro conjI)
  show "fst (CBS_get_any_ber_asn1_element cbs) = None \<longleftrightarrow> CBS_get_any_ber_asn1_element cbs = (None, cbs)"
    by (cases "CBS_get_any_ber_asn1_element cbs") (auto simp: CBS_get_any_ber_asn1_element_def dest: element_None)
  show "length (der_tag tag @ [0x80]) = 2 \<longleftrightarrow> tag AND CBS_ASN1_TAG_NUMBER_MASK < 0x1f"
    using der_tag_one [of tag] by simp
qed (auto simp: ber_element_iff element_iff der_refuses_indefinite)

text \<open>A high tag number: the header is \<open>3f 1f 80\<close>, of three octets.\<close>

lemma CBS_get_any_ber_extends_der_witness:
  "CBS_get_any_ber_asn1_element [0x3f, 0x1f, 0x80, 1, 2] = (Some ([0x3f, 0x1f, 0x80], 0x2000001f, 3), [1, 2])"
proof -
  have tag: "der_tag 0x2000001f = [0x3f, 0x1f]" by (simp add: der_tag_def base128_def)
  have "(0x2000001f :: u32) AND CBS_ASN1_CONSTRUCTED \<noteq> 0" by (simp add: CBS_ASN1_CONSTRUCTED_def CBS_ASN1_TAG_SHIFT_def)
  then show ?thesis
    using CBS_get_any_ber_extends_der [of "[0x3f, 0x1f, 0x80, 1, 2]" "[0x3f, 0x1f, 0x80]" "0x2000001f" 3 "[1, 2]"] tag by simp
qed
end
