(* ===== verification/Cbb.thy ===== *)
theory Cbb
  imports Cbs
begin

unbundle bit_operations_syntax

text \<open>
  The byte-string builder of crypto/bytestring/cbb.c. A root \<open>CBB\<close> owns a growing buffer; a
  pending length-prefixed string is a child \<open>CBB\<close> that writes to the same buffer, and every
  \<open>CBB\<close> has at most one child, so the live handles form a chain. The state is the buffer and
  the chain of children, outermost first; a handle is its depth in the chain (0 is the root),
  and a handle deeper than the chain is one whose \<open>base\<close> pointer the code has set to NULL.
  \<open>cb_buf\<close> holds the bytes written so far (\<open>len\<close> of them); what lies between \<open>len\<close> and \<open>cap\<close>
  is uninitialised. \<open>alloc n\<close> says whether the allocator grants \<open>n\<close> bytes. Where C returns a
  pointer for the caller to fill, the operation takes the bytes the caller writes there.
\<close>

record cbb_buffer =
  cb_buf :: bytes
  cb_cap :: nat
  cb_can_resize :: bool
  cb_error :: bool

record cbb_child =
  ch_offset :: nat
  ch_pending_len_len :: nat
  ch_pending_is_asn1 :: bool

record cbb =
  cbb_base :: "cbb_buffer option"
  cbb_children :: "cbb_child list"

type_synonym allocator = "nat \<Rightarrow> bool"

section \<open>The buffer\<close>

definition CBB_zero :: cbb where
  "CBB_zero = \<lparr>cbb_base = None, cbb_children = []\<rparr>"

definition cbb_init :: "allocator \<Rightarrow> nat \<Rightarrow> bool \<Rightarrow> cbb option" where
  "cbb_init alloc cap resize =
     (if \<not> alloc 32 then None
      else Some (CBB_zero\<lparr>cbb_base := Some \<lparr>cb_buf = [], cb_cap = cap, cb_can_resize = resize,
                                            cb_error = False\<rparr>\<rparr>))"

definition CBB_init :: "allocator \<Rightarrow> nat \<Rightarrow> cbb option" where
  "CBB_init alloc initial_capacity =
     (if initial_capacity > 0 \<and> \<not> alloc initial_capacity then None
      else cbb_init alloc initial_capacity True)"

definition CBB_init_fixed :: "allocator \<Rightarrow> nat \<Rightarrow> cbb option" where
  "CBB_init_fixed alloc len = cbb_init alloc len False"

definition CBB_cleanup :: "nat \<Rightarrow> cbb \<Rightarrow> cbb" where
  "CBB_cleanup d cbb = (if d > 0 then cbb else cbb\<lparr>cbb_base := None, cbb_children := []\<rparr>)"

definition buffer_err :: "(cbb_buffer, 'a) opn" where
  "buffer_err base = (None, base\<lparr>cb_error := True\<rparr>)"

definition cbb_buffer_reserve :: "allocator \<Rightarrow> nat \<Rightarrow> (cbb_buffer, unit) opn" where
  "cbb_buffer_reserve alloc len base =
     (let newlen = (length (cb_buf base) + len) mod 2 ^ 64
      in if newlen < length (cb_buf base) then buffer_err base
         else if newlen > cb_cap base
         then if \<not> cb_can_resize base then buffer_err base
              else let newcap = cb_cap base * 2 mod 2 ^ 64;
                       newcap = (if newcap < cb_cap base \<or> newcap < newlen then newlen else newcap)
                   in if \<not> alloc newcap then buffer_err base
                      else (Some (), base\<lparr>cb_cap := newcap\<rparr>)
         else (Some (), base))"

definition cbb_buffer_add :: "allocator \<Rightarrow> bytes \<Rightarrow> (cbb_buffer, unit) opn" where
  "cbb_buffer_add alloc data =
     op_bind (cbb_buffer_reserve alloc (length data)) (\<lambda>_ base.
       (Some (), base\<lparr>cb_buf := cb_buf base @ data\<rparr>))"

text \<open>The loop of \<open>cbb_buffer_add_u\<close>: the octets it stores and what is left of \<open>v\<close>.\<close>

fun be_fill :: "nat \<Rightarrow> u64 \<Rightarrow> bytes \<times> u64" where
  "be_fill 0 v = ([], v)"
| "be_fill (Suc n) v = (let (bs, v') = be_fill n (drop_bit 8 v) in (bs @ [ucast v], v'))"

definition cbb_buffer_add_u :: "allocator \<Rightarrow> u64 \<Rightarrow> nat \<Rightarrow> (cbb_buffer, unit) opn" where
  "cbb_buffer_add_u alloc v len_len =
     (if len_len = 0 then op_ret ()
      else let (bs, v') = be_fill len_len v
           in op_seq (cbb_buffer_add alloc bs) (if v' \<noteq> 0 then buffer_err else op_ret ()))"

section \<open>Flushing pending length prefixes\<close>

definition memmove :: "bytes \<Rightarrow> nat \<Rightarrow> nat \<Rightarrow> nat \<Rightarrow> bytes" where
  "memmove b dst src n = take dst b @ take n (drop src b) @ drop (dst + n) b"

fun put_be :: "bytes \<Rightarrow> nat \<Rightarrow> nat \<Rightarrow> nat \<Rightarrow> bytes \<times> nat" where
  "put_be b off 0 len = (b, len)"
| "put_be b off (Suc i) len = put_be (b[off + i := of_nat len]) off i (len div 256)"

definition asn1_len_len :: "nat \<Rightarrow> nat \<times> u8 \<times> nat" where
  "asn1_len_len len =
     (if len > 0xffffff then (5, 0x80 OR 4, len)
      else if len > 0xffff then (4, 0x80 OR 3, len)
      else if len > 0xff then (3, 0x80 OR 2, len)
      else if len > 0x7f then (2, 0x80 OR 1, len)
      else (1, of_nat len, 0))"

text \<open>The last part of \<open>CBB_flush\<close>: store the length octets of the child and detach it.\<close>

definition put_prefix ::
  "cbb_child \<Rightarrow> nat \<Rightarrow> (cbb_buffer \<times> cbb_child list, unit) opn" where
  "put_prefix child len = (\<lambda>(base, cs).
     let (b, len') = put_be (cb_buf base) (ch_offset child) (ch_pending_len_len child) len
     in if len' \<noteq> 0 then (None, base\<lparr>cb_buf := b, cb_error := True\<rparr>, child # cs)
        else (Some (), base\<lparr>cb_buf := b\<rparr>, []))"

fun cbb_flush :: "allocator \<Rightarrow> cbb_child list \<Rightarrow> cbb_buffer
    \<Rightarrow> unit option \<times> cbb_buffer \<times> cbb_child list" where
  "cbb_flush alloc cs base =
     (if cb_error base then (None, base, cs)
      else case cs of
        [] \<Rightarrow> (Some (), base, [])
      | child # inner \<Rightarrow>
          if ch_pending_len_len child = 0 then (Some (), base, cs)
          else
            let child_start = (ch_offset child + ch_pending_len_len child) mod 2 ^ 64;
                (r, base, inner) = cbb_flush alloc inner base
            in if r = None \<or> child_start < ch_offset child \<or> length (cb_buf base) < child_start
               then (None, base\<lparr>cb_error := True\<rparr>, child # inner)
               else
                 let len = length (cb_buf base) - child_start
                 in if \<not> ch_pending_is_asn1 child then put_prefix child len (base, inner)
                    else if len > 0xfffffffe then (None, base\<lparr>cb_error := True\<rparr>, child # inner)
                    else
                      let (len_len, initial_length_byte, len') = asn1_len_len len;
                          extra = len_len - 1;
                          (r, base) = (if len_len \<noteq> 1
                            then op_bind (cbb_buffer_add alloc (replicate extra 0)) (\<lambda>_ base.
                                   (Some (), base\<lparr>cb_buf :=
                                      memmove (cb_buf base) (child_start + extra) child_start len\<rparr>)) base
                            else (Some (), base))
                      in if r = None then (None, base\<lparr>cb_error := True\<rparr>, child # inner)
                         else put_prefix
                                (child\<lparr>ch_offset := ch_offset child + 1, ch_pending_len_len := extra\<rparr>)
                                len'
                                (base\<lparr>cb_buf := (cb_buf base)[ch_offset child := initial_length_byte]\<rparr>,
                                 inner))"

declare cbb_flush.simps [simp del]

definition CBB_flush :: "allocator \<Rightarrow> nat \<Rightarrow> (cbb, unit) opn" where
  "CBB_flush alloc d cbb =
     (case cbb_base cbb of
        None \<Rightarrow> (None, cbb)
      | Some base \<Rightarrow>
          if d > length (cbb_children cbb) then (None, cbb)
          else case cbb_flush alloc (drop d (cbb_children cbb)) base of
                 (r, base, cs) \<Rightarrow>
                   (r, cbb\<lparr>cbb_base := Some base, cbb_children := take d (cbb_children cbb) @ cs\<rparr>))"

text \<open>Running a buffer operation on \<open>cbb->base\<close>.\<close>

definition on_base :: "(cbb_buffer, 'a) opn \<Rightarrow> (cbb, 'a) opn" where
  "on_base f cbb =
     (case cbb_base cbb of
        None \<Rightarrow> (None, cbb)
      | Some base \<Rightarrow> (case f base of (r, base) \<Rightarrow> (r, cbb\<lparr>cbb_base := Some base\<rparr>)))"

definition base_len :: "cbb \<Rightarrow> nat" where
  "base_len cbb = (case cbb_base cbb of None \<Rightarrow> 0 | Some base \<Rightarrow> length (cb_buf base))"

section \<open>Adding to a builder\<close>

definition CBB_add_bytes :: "allocator \<Rightarrow> nat \<Rightarrow> bytes \<Rightarrow> (cbb, unit) opn" where
  "CBB_add_bytes alloc d data =
     op_seq (CBB_flush alloc d) (on_base (cbb_buffer_add alloc data))"

definition CBB_add_space :: "allocator \<Rightarrow> nat \<Rightarrow> bytes \<Rightarrow> (cbb, unit) opn" where
  "CBB_add_space alloc d filled =
     op_seq (CBB_flush alloc d) (on_base (cbb_buffer_add alloc filled))"

definition CBB_reserve :: "allocator \<Rightarrow> nat \<Rightarrow> nat \<Rightarrow> (cbb, unit) opn" where
  "CBB_reserve alloc d len =
     op_seq (CBB_flush alloc d) (on_base (cbb_buffer_reserve alloc len))"

definition CBB_did_write :: "nat \<Rightarrow> bytes \<Rightarrow> (cbb, unit) opn" where
  "CBB_did_write d filled cbb =
     (case cbb_base cbb of
        None \<Rightarrow> (None, cbb)
      | Some base \<Rightarrow>
          let newlen = (length (cb_buf base) + length filled) mod 2 ^ 64
          in if d < length (cbb_children cbb) \<or> newlen < length (cb_buf base)
                \<or> newlen > cb_cap base
             then (None, cbb)
             else (Some (), cbb\<lparr>cbb_base := Some (base\<lparr>cb_buf := cb_buf base @ filled\<rparr>)\<rparr>))"

definition cbb_add_u :: "allocator \<Rightarrow> nat \<Rightarrow> u64 \<Rightarrow> nat \<Rightarrow> (cbb, unit) opn" where
  "cbb_add_u alloc d v n = op_seq (CBB_flush alloc d) (on_base (cbb_buffer_add_u alloc v n))"

definition CBB_add_u8 :: "allocator \<Rightarrow> nat \<Rightarrow> u8 \<Rightarrow> (cbb, unit) opn" where
  "CBB_add_u8 alloc d v = cbb_add_u alloc d (ucast v) 1"

definition CBB_add_u16 :: "allocator \<Rightarrow> nat \<Rightarrow> u16 \<Rightarrow> (cbb, unit) opn" where
  "CBB_add_u16 alloc d v = cbb_add_u alloc d (ucast v) 2"

definition CBB_add_u16le :: "allocator \<Rightarrow> nat \<Rightarrow> u16 \<Rightarrow> (cbb, unit) opn" where
  "CBB_add_u16le alloc d v = CBB_add_u16 alloc d (CRYPTO_bswap2 v)"

definition CBB_add_u24 :: "allocator \<Rightarrow> nat \<Rightarrow> u32 \<Rightarrow> (cbb, unit) opn" where
  "CBB_add_u24 alloc d v = cbb_add_u alloc d (ucast v) 3"

definition CBB_add_u32 :: "allocator \<Rightarrow> nat \<Rightarrow> u32 \<Rightarrow> (cbb, unit) opn" where
  "CBB_add_u32 alloc d v = cbb_add_u alloc d (ucast v) 4"

definition CBB_add_u32le :: "allocator \<Rightarrow> nat \<Rightarrow> u32 \<Rightarrow> (cbb, unit) opn" where
  "CBB_add_u32le alloc d v = CBB_add_u32 alloc d (CRYPTO_bswap4 v)"

definition CBB_add_u64 :: "allocator \<Rightarrow> nat \<Rightarrow> u64 \<Rightarrow> (cbb, unit) opn" where
  "CBB_add_u64 alloc d v = cbb_add_u alloc d v 8"

definition CBB_add_u64le :: "allocator \<Rightarrow> nat \<Rightarrow> u64 \<Rightarrow> (cbb, unit) opn" where
  "CBB_add_u64le alloc d v = CBB_add_u64 alloc d (CRYPTO_bswap8 v)"

section \<open>Children\<close>

definition cbb_add_length_prefixed :: "allocator \<Rightarrow> nat \<Rightarrow> nat \<Rightarrow> (cbb, unit) opn" where
  "cbb_add_length_prefixed alloc d len_len =
     op_seq (CBB_flush alloc d) (\<lambda>cbb.
       let offset = base_len cbb
       in op_seq (on_base (cbb_buffer_add alloc (replicate len_len 0)))
            (\<lambda>cbb. (Some (), cbb\<lparr>cbb_children := cbb_children cbb @
               [\<lparr>ch_offset = offset, ch_pending_len_len = len_len, ch_pending_is_asn1 = False\<rparr>]\<rparr>))
            cbb)"

definition CBB_add_u8_length_prefixed :: "allocator \<Rightarrow> nat \<Rightarrow> (cbb, unit) opn" where
  "CBB_add_u8_length_prefixed alloc d = cbb_add_length_prefixed alloc d 1"

definition CBB_add_u16_length_prefixed :: "allocator \<Rightarrow> nat \<Rightarrow> (cbb, unit) opn" where
  "CBB_add_u16_length_prefixed alloc d = cbb_add_length_prefixed alloc d 2"

definition CBB_add_u24_length_prefixed :: "allocator \<Rightarrow> nat \<Rightarrow> (cbb, unit) opn" where
  "CBB_add_u24_length_prefixed alloc d = cbb_add_length_prefixed alloc d 3"

function base128_len :: "u64 \<Rightarrow> nat" where
  "base128_len copy = (if copy > 0 then Suc (base128_len (drop_bit 7 copy)) else 0)"
  by pat_completeness auto

termination
  by (relation "measure unat")
    (auto simp: unat_drop_bit word_less_nat_alt intro!: div_less_dividend)

declare base128_len.simps [simp del]

fun add_base128_loop :: "allocator \<Rightarrow> nat \<Rightarrow> u64 \<Rightarrow> nat \<Rightarrow> (cbb, unit) opn" where
  "add_base128_loop alloc d v 0 = op_ret ()"
| "add_base128_loop alloc d v (Suc i) =
     (let byte = ucast (drop_bit (7 * i) v) AND 0x7f;
          byte = (if i \<noteq> 0 then byte OR 0x80 else byte)
      in op_seq (CBB_add_u8 alloc d byte) (add_base128_loop alloc d v i))"

definition add_base128_integer :: "allocator \<Rightarrow> nat \<Rightarrow> u64 \<Rightarrow> (cbb, unit) opn" where
  "add_base128_integer alloc d v =
     (let len_len = base128_len v;
          len_len = (if len_len = 0 then 1 else len_len)
      in add_base128_loop alloc d v len_len)"

definition CBB_add_asn1 :: "allocator \<Rightarrow> nat \<Rightarrow> u32 \<Rightarrow> (cbb, unit) opn" where
  "CBB_add_asn1 alloc d tag =
     op_seq (CBB_flush alloc d)
       (let tag_bits = ucast (drop_bit CBS_ASN1_TAG_SHIFT tag) AND 0xe0;
            tag_number = tag AND CBS_ASN1_TAG_NUMBER_MASK
        in op_seq
             (if tag_number \<ge> 0x1f
              then op_seq (CBB_add_u8 alloc d (tag_bits OR 0x1f))
                          (add_base128_integer alloc d (ucast tag_number))
              else CBB_add_u8 alloc d (tag_bits OR ucast tag_number))
             (\<lambda>cbb.
               let offset = base_len cbb
               in op_seq (CBB_add_u8 alloc d 0)
                    (\<lambda>cbb. (Some (), cbb\<lparr>cbb_children := cbb_children cbb @
                       [\<lparr>ch_offset = offset, ch_pending_len_len = 1, ch_pending_is_asn1 = True\<rparr>]\<rparr>))
                    cbb))"

text \<open>
  \<open>CBB_discard_child\<close> sets the base of the child to NULL; the handles below the child were
  the discarded child's own and are gone with it.
\<close>

definition CBB_discard_child :: "nat \<Rightarrow> cbb \<Rightarrow> cbb" where
  "CBB_discard_child d cbb =
     (if d < length (cbb_children cbb)
      then case cbb_base cbb of
             None \<Rightarrow> cbb
           | Some base \<Rightarrow>
               \<lparr>cbb_base = Some (base\<lparr>cb_buf := take (ch_offset (cbb_children cbb ! d)) (cb_buf base)\<rparr>),
                cbb_children = take d (cbb_children cbb)\<rparr>
      else cbb)"

section \<open>ASN.1 values\<close>

fun add_uint64_loop :: "allocator \<Rightarrow> nat \<Rightarrow> u64 \<Rightarrow> bool \<Rightarrow> nat list \<Rightarrow> (cbb, bool) opn" where
  "add_uint64_loop alloc d v started [] = op_ret started"
| "add_uint64_loop alloc d v started (i # is) =
     (let byte = ucast (drop_bit (8 * (7 - i)) v AND 0xff)
      in if \<not> started \<and> byte = 0 then add_uint64_loop alloc d v False is
         else op_seq
                (if \<not> started \<and> byte AND 0x80 \<noteq> 0 then CBB_add_u8 alloc d 0 else op_ret ())
                (op_seq (CBB_add_u8 alloc d byte) (add_uint64_loop alloc d v True is)))"

definition CBB_add_asn1_uint64 :: "allocator \<Rightarrow> nat \<Rightarrow> u64 \<Rightarrow> (cbb, unit) opn" where
  "CBB_add_asn1_uint64 alloc d value =
     op_seq (CBB_add_asn1 alloc d CBS_ASN1_INTEGER)
       (op_bind (add_uint64_loop alloc (d + 1) value False [0..<8]) (\<lambda>started.
          op_seq (if \<not> started then CBB_add_u8 alloc (d + 1) 0 else op_ret ())
            (CBB_flush alloc d)))"

text \<open>An \<open>int64_t\<close> is a 64-bit word read with \<open>sint\<close>; the union is read little-endian.\<close>

definition union_byte :: "u64 \<Rightarrow> nat \<Rightarrow> u8" where
  "union_byte value i = ucast (drop_bit (8 * i) value)"

fun int64_start :: "u64 \<Rightarrow> nat \<Rightarrow> nat" where
  "int64_start value 0 = 0"
| "int64_start value (Suc s) =
     (if union_byte value (Suc s) = 0xff \<and> union_byte value s AND 0x80 \<noteq> 0
      then int64_start value s else Suc s)"

fun add_int64_loop :: "allocator \<Rightarrow> nat \<Rightarrow> u64 \<Rightarrow> nat \<Rightarrow> (cbb, unit) opn" where
  "add_int64_loop alloc d value 0 = op_ret ()"
| "add_int64_loop alloc d value (Suc i) =
     op_seq (CBB_add_u8 alloc d (union_byte value i)) (add_int64_loop alloc d value i)"

definition CBB_add_asn1_int64 :: "allocator \<Rightarrow> nat \<Rightarrow> u64 \<Rightarrow> (cbb, unit) opn" where
  "CBB_add_asn1_int64 alloc d value =
     (if sint value \<ge> 0 then CBB_add_asn1_uint64 alloc d value
      else op_seq (CBB_add_asn1 alloc d CBS_ASN1_INTEGER)
             (op_seq (add_int64_loop alloc (d + 1) value (int64_start value 7 + 1))
               (CBB_flush alloc d)))"

definition CBB_add_asn1_octet_string :: "allocator \<Rightarrow> nat \<Rightarrow> bytes \<Rightarrow> (cbb, unit) opn" where
  "CBB_add_asn1_octet_string alloc d data =
     op_seq (CBB_add_asn1 alloc d CBS_ASN1_OCTETSTRING)
       (op_seq (CBB_add_bytes alloc (d + 1) data) (CBB_flush alloc d))"

definition CBB_add_asn1_bool :: "allocator \<Rightarrow> nat \<Rightarrow> bool \<Rightarrow> (cbb, unit) opn" where
  "CBB_add_asn1_bool alloc d value =
     op_seq (CBB_add_asn1 alloc d CBS_ASN1_BOOLEAN)
       (op_seq (CBB_add_u8 alloc (d + 1) (if value then 0xff else 0)) (CBB_flush alloc d))"

section \<open>Finishing\<close>

text \<open>
  \<open>CBB_data\<close> and \<open>CBB_len\<close> assert that the handle has no child, so the handle is the last of
  the chain. \<open>CBB_finish\<close> returns the buffer; \<open>out_ptrs\<close> says that the caller passed both
  output pointers.
\<close>

definition cbb_start :: "nat \<Rightarrow> cbb \<Rightarrow> nat" where
  "cbb_start d cbb =
     (case d of 0 \<Rightarrow> 0
      | Suc i \<Rightarrow> ch_offset (cbb_children cbb ! i) + ch_pending_len_len (cbb_children cbb ! i))"

definition CBB_data :: "nat \<Rightarrow> cbb \<Rightarrow> bytes" where
  "CBB_data d cbb =
     (case cbb_base cbb of None \<Rightarrow> [] | Some base \<Rightarrow> drop (cbb_start d cbb) (cb_buf base))"

definition CBB_len :: "nat \<Rightarrow> cbb \<Rightarrow> nat" where
  "CBB_len d cbb = base_len cbb - cbb_start d cbb"

definition CBB_finish :: "allocator \<Rightarrow> nat \<Rightarrow> bool \<Rightarrow> (cbb, bytes) opn" where
  "CBB_finish alloc d out_ptrs cbb =
     (if d > 0 then (None, cbb)
      else op_seq (CBB_flush alloc d) (\<lambda>cbb.
             case cbb_base cbb of
               None \<Rightarrow> (None, cbb)
             | Some base \<Rightarrow>
                 if cb_can_resize base \<and> \<not> out_ptrs then (None, cbb)
                 else (Some (cb_buf base),
                       CBB_cleanup d (cbb\<lparr>cbb_base := Some (base\<lparr>cb_buf := []\<rparr>)\<rparr>))) cbb)"

section \<open>Sets\<close>

fun memcmp_sign :: "bytes \<Rightarrow> bytes \<Rightarrow> int" where
  "memcmp_sign (a # as) (b # bs) = (if a < b then -1 else if b < a then 1 else memcmp_sign as bs)"
| "memcmp_sign _ _ = 0"

definition compare_set_of_element :: "cbs \<Rightarrow> cbs \<Rightarrow> int" where
  "compare_set_of_element a b =
     (let min_len = (if length a < length b then length a else length b);
          ret = memcmp_sign (take min_len a) (take min_len b)
      in if ret \<noteq> 0 then ret
         else if length a = length b then 0
         else if length a < length b then -1 else 1)"

text \<open>
  The two scans of the elements of the set: the elements, if every one of them parses.
\<close>

function split_elements :: "cbs \<Rightarrow> cbs list option" where
  "split_elements cbs =
     (if cbs = [] then Some []
      else case CBS_get_any_asn1_element cbs of
             (None, _) \<Rightarrow> None
           | (Some (e, _, _), rest) \<Rightarrow>
               if length rest < length cbs then map_option ((#) e) (split_elements rest) else None)"
  by pat_completeness auto

termination by (relation "measure length") auto

declare split_elements.simps [simp del]

fun add_children :: "allocator \<Rightarrow> nat \<Rightarrow> cbs list \<Rightarrow> (cbb, unit) opn" where
  "add_children alloc d [] = op_ret ()"
| "add_children alloc d (c # cs) = op_seq (CBB_add_bytes alloc d c) (add_children alloc d cs)"

definition sizeof_CBS :: nat where
  "sizeof_CBS = 16"

definition CBB_flush_asn1_set_of :: "allocator \<Rightarrow> nat \<Rightarrow> (cbb, unit) opn" where
  "CBB_flush_asn1_set_of alloc d =
     op_seq (CBB_flush alloc d) (\<lambda>cbb.
       case split_elements (CBB_data d cbb) of
         None \<Rightarrow> (None, cbb)
       | Some children \<Rightarrow>
           if length children < 2 then (Some (), cbb)
           else if length children > (2 ^ 64 - 1) div sizeof_CBS then (None, cbb)
           else if \<not> alloc (CBB_len d cbb) \<or> \<not> alloc (length children * sizeof_CBS) then (None, cbb)
           else case cbb_base cbb of
                  None \<Rightarrow> (None, cbb)
                | Some base \<Rightarrow>
                    add_children alloc d (qsort compare_set_of_element children)
                      (cbb\<lparr>cbb_base := Some (base\<lparr>cb_buf := take (cbb_start d cbb) (cb_buf base)\<rparr>)\<rparr>))"

section \<open>The abstract builder\<close>

text \<open>
  What a builder means: the bytes written before the first pending prefix, and for each
  pending child the kind of its prefix and the bytes written in it so far. \<open>close_all\<close> is the
  string that results when every child is closed, innermost first.
\<close>

datatype pending = Fixed nat | Der

fun pend_len :: "pending \<Rightarrow> nat" where
  "pend_len (Fixed n) = n"
| "pend_len Der = 1"

fun prefix_of :: "pending \<Rightarrow> nat \<Rightarrow> bytes option" where
  "prefix_of (Fixed n) len = (if len < 256 ^ n then Some (nat_be n len) else None)"
| "prefix_of Der len = (if len \<le> 0xfffffffe then Some (der_length len) else None)"

fun close_all :: "bytes \<Rightarrow> (pending \<times> bytes) list \<Rightarrow> bytes option" where
  "close_all p [] = Some p"
| "close_all p ((k, q) # fs) =
     (case close_all q fs of
        None \<Rightarrow> None
      | Some c \<Rightarrow> map_option (\<lambda>h. p @ h @ c) (prefix_of k (length c)))"

fun flat :: "bytes \<Rightarrow> (pending \<times> bytes) list \<Rightarrow> bytes" where
  "flat p [] = p"
| "flat p ((k, q) # fs) = p @ replicate (pend_len k) 0 @ flat q fs"

fun chain :: "nat \<Rightarrow> (pending \<times> bytes) list \<Rightarrow> cbb_child list" where
  "chain n [] = []"
| "chain n ((k, q) # fs) =
     \<lparr>ch_offset = n, ch_pending_len_len = pend_len k, ch_pending_is_asn1 = (k = Der)\<rparr>
       # chain (n + pend_len k + length q) fs"

definition buf_ok :: "cbb_buffer \<Rightarrow> bool" where
  "buf_ok base \<longleftrightarrow> length (cb_buf base) \<le> cb_cap base \<and> cb_cap base < 2 ^ 64"

definition holds :: "bytes \<Rightarrow> (pending \<times> bytes) list \<Rightarrow> cbb_buffer \<Rightarrow> cbb_child list \<Rightarrow> bool" where
  "holds p fs base cs \<longleftrightarrow>
     buf_ok base \<and> \<not> cb_error base \<and> cb_buf base = flat p fs \<and> cs = chain (length p) fs
     \<and> (\<forall>(k, q)\<in>set fs. 0 < pend_len k)"

definition cbb_rep :: "cbb \<Rightarrow> bytes \<Rightarrow> (pending \<times> bytes) list \<Rightarrow> bool" where
  "cbb_rep cbb p fs \<longleftrightarrow> (\<exists>base. cbb_base cbb = Some base \<and> holds p fs base (cbb_children cbb))"

section \<open>Lemmas on the buffer\<close>

lemma size_t_add:
  fixes a n :: nat
  assumes "a < 2 ^ 64" "n < 2 ^ 64"
  shows "\<not> (a + n) mod 2 ^ 64 < a \<longleftrightarrow> a + n < 2 ^ 64"
    and "a + n < 2 ^ 64 \<Longrightarrow> (a + n) mod 2 ^ 64 = a + n"
proof -
  show "\<not> (a + n) mod 2 ^ 64 < a \<longleftrightarrow> a + n < 2 ^ 64"
  proof (cases "a + n < 2 ^ 64")
    case False
    then have "(a + n) mod 2 ^ 64 = a + n - 2 ^ 64"
      using assms by (subst mod_if) (simp add: le_mod_geq)
    then show ?thesis using False assms by simp
  qed simp
qed simp

lemma reserve_run:
  assumes "buf_ok base" "n < 2 ^ 64"
  shows "cbb_buffer_reserve alloc n base =
     (let newlen = length (cb_buf base) + n;
          newcap = cb_cap base * 2 mod 2 ^ 64;
          newcap = (if newcap < cb_cap base \<or> newcap < newlen then newlen else newcap)
      in if newlen < 2 ^ 64 \<and> (cb_cap base < newlen \<longrightarrow> cb_can_resize base \<and> alloc newcap)
         then (Some (), if cb_cap base < newlen then base\<lparr>cb_cap := newcap\<rparr> else base)
         else (None, base\<lparr>cb_error := True\<rparr>))"
proof -
  have len: "length (cb_buf base) < 2 ^ 64"
    using assms by (simp add: buf_ok_def)
  show ?thesis
  proof (cases "length (cb_buf base) + n < 2 ^ 64")
    case True
    then show ?thesis
      by (simp add: cbb_buffer_reserve_def Let_def buffer_err_def)
  next
    case False
    then show ?thesis
      using size_t_add(1) [OF len assms(2)]
      by (simp add: cbb_buffer_reserve_def Let_def buffer_err_def)
  qed
qed

definition fits :: "allocator \<Rightarrow> cbb_buffer \<Rightarrow> nat \<Rightarrow> bool" where
  "fits alloc base n \<longleftrightarrow> n \<le> cb_cap base \<or> n < 2 ^ 64 \<and> cb_can_resize base \<and> (\<forall>m. alloc m)"

lemma fits_mono: "fits alloc base n \<Longrightarrow> m \<le> n \<Longrightarrow> fits alloc base m"
  by (auto simp: fits_def)

lemma fits_grow:
  "fits alloc base n \<Longrightarrow> cb_can_resize base' = cb_can_resize base \<Longrightarrow> cb_cap base \<le> cb_cap base'
     \<Longrightarrow> fits alloc base' n"
  by (auto simp: fits_def)

lemma reserve_cases:
  assumes "cbb_buffer_reserve alloc n base = (r, base')" "buf_ok base" "n < 2 ^ 64"
  obtains (ok) "r = Some ()" "cb_buf base' = cb_buf base" "cb_error base' = cb_error base"
      "cb_can_resize base' = cb_can_resize base" "buf_ok base'"
      "length (cb_buf base) + n \<le> cb_cap base'" "\<not> cb_can_resize base \<Longrightarrow> base' = base"
      "cb_cap base \<le> cb_cap base'"
  | (err) "r = None" "base' = base\<lparr>cb_error := True\<rparr>"
      "\<not> fits alloc base (length (cb_buf base) + n)"
proof (cases r)
  case None
  show ?thesis
    by (rule err) (use None assms(1, 2) in
      \<open>auto simp: reserve_run [OF assms(2, 3)] Let_def buf_ok_def fits_def split: if_splits\<close>)
next
  case (Some u)
  have cap: "cb_cap base * 2 mod 2 ^ 64 < 2 ^ 64" by simp
  show ?thesis
    by (rule ok) (use Some assms(1, 2) cap in
      \<open>auto simp: reserve_run [OF assms(2, 3)] Let_def buf_ok_def fits_def split: if_splits\<close>)
qed

lemma add_cases:
  assumes "cbb_buffer_add alloc bs base = (r, base')" "buf_ok base" "length bs < 2 ^ 64"
  obtains (ok) "r = Some ()" "cb_buf base' = cb_buf base @ bs" "cb_error base' = cb_error base"
      "cb_can_resize base' = cb_can_resize base" "buf_ok base'"
      "\<not> cb_can_resize base \<Longrightarrow> cb_cap base' = cb_cap base"
      "cb_cap base \<le> cb_cap base'"
  | (err) "r = None" "base' = base\<lparr>cb_error := True\<rparr>"
      "\<not> fits alloc base (length (cb_buf base) + length bs)"
proof -
  obtain q base1 where q: "cbb_buffer_reserve alloc (length bs) base = (q, base1)"
    by (cases "cbb_buffer_reserve alloc (length bs) base") auto
  show ?thesis
  proof (rule reserve_cases [OF q assms(2, 3)])
    assume "q = Some ()" "cb_buf base1 = cb_buf base" "cb_error base1 = cb_error base"
      "cb_can_resize base1 = cb_can_resize base" "buf_ok base1"
      "length (cb_buf base) + length bs \<le> cb_cap base1" "\<not> cb_can_resize base \<Longrightarrow> base1 = base"
      "cb_cap base \<le> cb_cap base1"
    moreover from this have "r = Some ()" "base' = base1\<lparr>cb_buf := cb_buf base @ bs\<rparr>"
      using assms(1) q by (auto simp: cbb_buffer_add_def op_bind_def)
    ultimately show thesis
      by (intro ok) (auto simp: buf_ok_def)
  next
    assume "q = None" "base1 = base\<lparr>cb_error := True\<rparr>"
      "\<not> fits alloc base (length (cb_buf base) + length bs)"
    then show thesis
      using assms(1) q by (intro err) (auto simp: cbb_buffer_add_def op_bind_def)
  qed
qed

lemma put_be_eq:
  "length bs = n \<Longrightarrow> put_be (a @ bs @ c) (length a) n len = (a @ nat_be n len @ c, len div 256 ^ n)"
proof (induction n arbitrary: bs c len)
  case (Suc n)
  then obtain bs' x where bs: "bs = bs' @ [x]" "length bs' = n"
    by (cases bs rule: rev_cases) auto
  have upd: "(a @ bs @ c)[length a + n := of_nat len] = a @ bs' @ of_nat (len mod 256) # c"
    using bs by (simp add: list_update_append unsigned_of_nat word_unat_eq_iff take_bit_eq_mod)
  have "len div 256 div 256 ^ n = len div 256 ^ Suc n"
    by (simp add: div_mult2_eq)
  then show ?case
    using Suc.IH [of bs' "of_nat (len mod 256) # c" "len div 256"] bs upd by simp
qed simp

lemma memmove_eq:
  "memmove (a @ c @ x) (length a + length x) (length a) (length c) = a @ take (length x) (c @ x) @ c"
  by (simp add: memmove_def)

lemma close_all_append: "close_all (p @ q) fs = map_option ((@) p) (close_all q fs)"
  by (cases fs rule: list.exhaust) (auto simp: option.map_comp o_def split: option.splits)

lemma length_flat_ge: "length p \<le> length (flat p fs)"
  by (induction p fs rule: flat.induct) auto

lemma flat_append: "flat (p @ q) fs = p @ flat q fs"
  by (cases fs rule: list.exhaust) auto

lemma buf_ok_error [simp]: "buf_ok (base\<lparr>cb_error := e\<rparr>) = buf_ok base"
  by (simp add: buf_ok_def)

section \<open>Flushing closes the children\<close>

text \<open>\<open>put_prefix\<close> writes the prefix octets into the space reserved for them.\<close>

lemma put_prefix_eq:
  assumes "cb_buf base = a @ bs @ c" "ch_offset child = length a"
    "ch_pending_len_len child = length bs"
  shows "put_prefix child len (base, cs) =
    (if len < 256 ^ length bs then (Some (), base\<lparr>cb_buf := a @ nat_be (length bs) len @ c\<rparr>, [])
     else (None, base\<lparr>cb_buf := a @ nat_be (length bs) len @ c, cb_error := True\<rparr>, child # cs))"
  using put_be_eq [of bs "length bs" a c len] assms
  by (simp add: put_prefix_def div_eq_0_iff)

lemma asn1_len_len_eq:
  assumes "len \<le> 0xfffffffe" "asn1_len_len len = (l, b, len')"
  shows "l = 1 \<and> b # nat_be 0 len' = der_length len \<and> len' = 0
     \<or> 1 < l \<and> l \<le> 5 \<and> len' = len \<and> len < 256 ^ (l - 1) \<and> b # nat_be (l - 1) len' = der_length len"
proof -
  have eq: "byte_len len = k \<longleftrightarrow> 256 ^ (k - 1) \<le> len \<and> len < 256 ^ k" if "0 < k" for k
    using that by (rule byte_len_eq_iff)
  consider "len < 128" | "128 \<le> len" "len < 256" | "256 \<le> len" "len < 65536"
    | "65536 \<le> len" "len < 16777216" | "16777216 \<le> len" "len < 4294967296"
    using assms(1) by linarith
  then show ?thesis
  proof cases
    case 1
    then show ?thesis using assms(2) by (auto simp: asn1_len_len_def der_length_def)
  next
    case 2
    moreover from this have "byte_len len = 1" using eq [of 1] by simp
    ultimately show ?thesis using assms(2) by (auto simp: asn1_len_len_def der_length_def)
  next
    case 3
    moreover from this have "byte_len len = 2" using eq [of 2] by simp
    ultimately show ?thesis using assms(2) by (auto simp: asn1_len_len_def der_length_def)
  next
    case 4
    moreover from this have "byte_len len = 3" using eq [of 3] by simp
    ultimately show ?thesis using assms(2) by (auto simp: asn1_len_len_def der_length_def)
  next
    case 5
    moreover from this have "byte_len len = 4" using eq [of 4] by simp
    ultimately show ?thesis using assms(2) by (auto simp: asn1_len_len_def der_length_def)
  qed
qed

text \<open>One step of the flush once the children of the child have been closed.\<close>

definition flush_child :: "allocator \<Rightarrow> cbb_child \<Rightarrow> nat \<Rightarrow> cbb_buffer \<times> cbb_child list
    \<Rightarrow> unit option \<times> cbb_buffer \<times> cbb_child list" where
  "flush_child alloc child child_start = (\<lambda>(base, inner).
     let len = length (cb_buf base) - child_start
     in if \<not> ch_pending_is_asn1 child then put_prefix child len (base, inner)
        else if len > 0xfffffffe then (None, base\<lparr>cb_error := True\<rparr>, child # inner)
        else
          let (len_len, initial_length_byte, len') = asn1_len_len len;
              extra = len_len - 1;
              (r, base) = (if len_len \<noteq> 1
                then op_bind (cbb_buffer_add alloc (replicate extra 0)) (\<lambda>_ base.
                       (Some (), base\<lparr>cb_buf :=
                          memmove (cb_buf base) (child_start + extra) child_start len\<rparr>)) base
                else (Some (), base))
          in if r = None then (None, base\<lparr>cb_error := True\<rparr>, child # inner)
             else put_prefix
                    (child\<lparr>ch_offset := ch_offset child + 1, ch_pending_len_len := extra\<rparr>)
                    len'
                    (base\<lparr>cb_buf := (cb_buf base)[ch_offset child := initial_length_byte]\<rparr>,
                     inner))"

lemma cbb_flush_Nil: "\<not> cb_error base \<Longrightarrow> cbb_flush alloc [] base = (Some (), base, [])"
  by (simp add: cbb_flush.simps)

lemma cbb_flush_Cons:
  assumes "\<not> cb_error base" "0 < ch_pending_len_len child"
    "ch_offset child + ch_pending_len_len child < 2 ^ 64"
  shows "cbb_flush alloc (child # inner) base =
    (case cbb_flush alloc inner base of (r, base, inner) \<Rightarrow>
       if r = None \<or> length (cb_buf base) < ch_offset child + ch_pending_len_len child
       then (None, base\<lparr>cb_error := True\<rparr>, child # inner)
       else flush_child alloc child (ch_offset child + ch_pending_len_len child) (base, inner))"
proof -
  have "(ch_offset child + ch_pending_len_len child) mod 2 ^ 64
      = ch_offset child + ch_pending_len_len child"
    using assms(3) by simp
  then show ?thesis
    using assms(1, 2)
    by (subst cbb_flush.simps) (simp add: flush_child_def Let_def split: prod.splits)
qed

lemma flush_child_ok:
  assumes run: "flush_child alloc child (length p + pend_len k) (base, []) = (r, base', cs')"
    and child: "child = \<lparr>ch_offset = length p, ch_pending_len_len = pend_len k,
                        ch_pending_is_asn1 = (k = Der)\<rparr>"
    and buf: "cb_buf base = p @ replicate (pend_len k) 0 @ c" "buf_ok base" "\<not> cb_error base"
  shows "case r of
      None \<Rightarrow> cb_error base'
        \<and> (\<forall>h. prefix_of k (length c) = Some h \<longrightarrow>
             \<not> fits alloc base (length p + length h + length c))
    | Some _ \<Rightarrow> cs' = [] \<and> buf_ok base' \<and> \<not> cb_error base'
        \<and> cb_can_resize base' = cb_can_resize base
        \<and> (\<not> cb_can_resize base \<longrightarrow> cb_cap base' = cb_cap base) \<and> cb_cap base \<le> cb_cap base'
        \<and> (\<exists>h. prefix_of k (length c) = Some h \<and> cb_buf base' = p @ h @ c)"
proof (cases k)
  case (Fixed n)
  then show ?thesis
    using run child buf
    by (auto simp: flush_child_def put_prefix_eq [where bs = "replicate n 0"] buf_ok_def
        split: if_splits)
next
  case Der
  note child = child [unfolded Der, simplified]
  have buf': "cb_buf base = (p @ [0]) @ c" using buf(1) Der by simp
  obtain l b len' where l: "asn1_len_len (length c) = (l, b, len')"
    by (cases "asn1_len_len (length c)") auto
  show ?thesis
  proof (cases "length c \<le> 0xfffffffe")
    case False
    then show ?thesis
      using run child buf' Der by (auto simp: flush_child_def)
  next
    case True
    then have pre: "prefix_of k (length c) = Some (der_length (length c))"
      by (simp add: Der)
    from asn1_len_len_eq [OF True l] show ?thesis
    proof (elim disjE conjE)
      assume "l = 1" and b: "b # nat_be 0 len' = der_length (length c)" and "len' = 0"
      moreover have "put_prefix (child\<lparr>ch_offset := ch_offset child + 1, ch_pending_len_len := 0\<rparr>) 0
          (base\<lparr>cb_buf := (cb_buf base)[ch_offset child := b]\<rparr>, [])
        = (Some (), base\<lparr>cb_buf := p @ [b] @ c\<rparr>, [])"
        by (simp add: put_prefix_def buf' child)
      ultimately have "(r, base', cs') = (Some (), base\<lparr>cb_buf := p @ [b] @ c\<rparr>, [])"
        using run True \<open>l = 1\<close> \<open>len' = 0\<close> l by (simp add: flush_child_def child Der buf')
      then show ?thesis
        using buf pre b by (auto simp: buf_ok_def Der)
    next
      assume l1: "1 < l" "l \<le> 5" "len' = length c" and lt: "length c < 256 ^ (l - 1)"
        and b: "b # nat_be (l - 1) len' = der_length (length c)"
      have hl: "length (der_length (length c)) = l"
        using b [symmetric] l1 by simp
      obtain q base1 where q: "cbb_buffer_add alloc (replicate (l - 1) 0) base = (q, base1)"
        by (cases "cbb_buffer_add alloc (replicate (l - 1) 0) base") auto
      show ?thesis
      proof (rule add_cases [OF q buf(2)])
        show "length (replicate (l - 1) 0 :: bytes) < 2 ^ 64" using l1 by simp
      next
        assume "q = None" "base1 = base\<lparr>cb_error := True\<rparr>"
          and no: "\<not> fits alloc base (length (cb_buf base) + length (replicate (l - 1) (0 :: u8)))"
        then have "r = None" "cb_error base'"
          using run True l1 l q by (auto simp: flush_child_def child Der buf' op_bind_def)
        then show ?thesis
          using no l1 buf' by (simp add: pre hl ac_simps del: replicate.simps)
      next
        assume "q = Some ()" and b1: "cb_buf base1 = cb_buf base @ replicate (l - 1) 0"
          "cb_error base1 = cb_error base" "cb_can_resize base1 = cb_can_resize base" "buf_ok base1"
          "\<not> cb_can_resize base \<Longrightarrow> cb_cap base1 = cb_cap base"
      "cb_cap base \<le> cb_cap base1"
        let ?mid = "take (l - 1) (c @ replicate (l - 1) 0)"
        have mv: "memmove (cb_buf base1) (length p + 1 + (l - 1)) (length p + 1) (length c)
            = p @ [0] @ ?mid @ c"
          using memmove_eq [of "p @ [0]" c "replicate (l - 1) 0"] by (simp add: b1 buf')
        have mid: "length ?mid = l - 1" by simp
        have "put_prefix (child\<lparr>ch_offset := ch_offset child + 1, ch_pending_len_len := l - 1\<rparr>)
            len' (base1\<lparr>cb_buf := (p @ [0] @ ?mid @ c)[ch_offset child := b]\<rparr>, [])
          = (Some (), base1\<lparr>cb_buf := p @ der_length (length c) @ c\<rparr>, [])"
          using put_prefix_eq [of "base1\<lparr>cb_buf := p @ [b] @ ?mid @ c\<rparr>" "p @ [b]" ?mid c] lt
          by (simp add: child l1 b [symmetric] mid del: take_append)
        moreover have "length (cb_buf base) - (length p + pend_len k) = length c"
          by (simp add: buf' Der)
        ultimately have "(r, base', cs')
            = (Some (), base1\<lparr>cb_buf := p @ der_length (length c) @ c\<rparr>, [])"
          using run True l1 q \<open>q = Some ()\<close> mv
          by (simp add: flush_child_def child Der op_bind_def l del: take_append)
        moreover have "length (p @ der_length (length c) @ c) = length (cb_buf base1)"
          using l1 by (simp add: b1 buf' hl)
        ultimately show ?thesis
          using b1 buf(3) pre by (auto simp: buf_ok_def)
      qed
    qed
  qed
qed

definition flush_spec :: "allocator \<Rightarrow> bytes \<Rightarrow> (pending \<times> bytes) list \<Rightarrow> cbb_buffer
    \<Rightarrow> unit option \<times> cbb_buffer \<times> cbb_child list \<Rightarrow> bool" where
  "flush_spec alloc p fs base = (\<lambda>(r, base', cs').
     case r of
       None \<Rightarrow> cb_error base'
         \<and> (\<forall>c. close_all p fs = Some c \<longrightarrow> \<not> fits alloc base (length c))
     | Some _ \<Rightarrow> cs' = [] \<and> buf_ok base' \<and> \<not> cb_error base'
         \<and> cb_can_resize base' = cb_can_resize base
         \<and> (\<not> cb_can_resize base \<longrightarrow> cb_cap base' = cb_cap base) \<and> cb_cap base \<le> cb_cap base'
         \<and> close_all p fs = Some (cb_buf base'))"

lemma cbb_flush_spec:
  assumes "holds p fs base cs"
  shows "flush_spec alloc p fs base (cbb_flush alloc cs base)"
  using assms
proof (induction fs arbitrary: p base cs)
  case Nil
  then show ?case
    by (auto simp: holds_def cbb_flush_Nil flush_spec_def buf_ok_def)
next
  case (Cons f fs)
  obtain k q where f: "f = (k, q)" by (cases f)
  define child where "child = \<lparr>ch_offset = length p, ch_pending_len_len = pend_len k,
                               ch_pending_is_asn1 = (k = Der)\<rparr>"
  define inner where "inner = chain (length p + pend_len k + length q) fs"
  let ?p = "p @ replicate (pend_len k) 0"
  have H: "buf_ok base" "\<not> cb_error base" "0 < pend_len k" "\<forall>(k, q)\<in>set fs. 0 < pend_len k"
      "cb_buf base = flat (?p @ q) fs" and cs: "cs = child # inner"
    using Cons.prems by (simp_all add: holds_def f child_def inner_def flat_append)
  have "holds (?p @ q) fs base inner"
    using H by (simp add: holds_def inner_def add.assoc)
  then have IH: "flush_spec alloc (?p @ q) fs base (cbb_flush alloc inner base)"
    by (rule Cons.IH)
  obtain r1 base1 inner1 where run1: "cbb_flush alloc inner base = (r1, base1, inner1)"
    by (cases "cbb_flush alloc inner base") auto
  have small: "length p + pend_len k < 2 ^ 64"
    using H(1, 5) length_flat_ge [of "?p @ q" fs] by (simp add: buf_ok_def)
  have closed: "close_all (?p @ q) fs = map_option ((@) ?p) (close_all q fs)"
    by (rule close_all_append)
  have step: "cbb_flush alloc cs base =
     (if r1 = None \<or> length (cb_buf base1) < length p + pend_len k
      then (None, base1\<lparr>cb_error := True\<rparr>, child # inner1)
      else flush_child alloc child (length p + pend_len k) (base1, inner1))"
    unfolding cs using H(2, 3) small by (subst cbb_flush_Cons) (simp_all add: child_def run1)
  show ?case
  proof (cases r1)
    case None
    have "\<not> fits alloc base (length c')" if c': "close_all p (f # fs) = Some c'" for c'
    proof -
      obtain c0 h where h: "close_all q fs = Some c0" "prefix_of k (length c0) = Some h"
          "c' = p @ h @ c0"
        using c' f by (auto split: option.splits)
      then have "pend_len k \<le> length h"
        by (cases k) (auto simp: der_length_def split: if_splits)
      then have "length (?p @ c0) \<le> length c'" using h by simp
      moreover have "\<not> fits alloc base (length (?p @ c0))"
        using IH h(1) None by (simp add: flush_spec_def run1 closed del: append_assoc)
      ultimately show ?thesis using fits_mono by blast
    qed
    then show ?thesis
      using None step f by (auto simp: flush_spec_def)
  next
    case (Some u)
    then have b1: "inner1 = []" "buf_ok base1" "\<not> cb_error base1"
          "cb_can_resize base1 = cb_can_resize base"
          "\<not> cb_can_resize base \<Longrightarrow> cb_cap base1 = cb_cap base"
          "cb_cap base \<le> cb_cap base1" and cl: "close_all (?p @ q) fs = Some (cb_buf base1)"
      using IH by (auto simp: flush_spec_def run1)
    obtain c0 where c0: "close_all q fs = Some c0" "cb_buf base1 = ?p @ c0"
      using cl unfolding closed by auto
    obtain r base' cs' where
      run2: "flush_child alloc child (length p + pend_len k) (base1, []) = (r, base', cs')"
      by (cases "flush_child alloc child (length p + pend_len k) (base1, [])") auto
    have "fits alloc base1 n" if "fits alloc base n" for n
      using that b1 by (auto intro: fits_grow)
    then show ?thesis
      using flush_child_ok [OF run2 child_def _ b1(2, 3), of c0] step Some b1 c0 f run2
      by (auto simp: flush_spec_def add.assoc split: option.splits)
  qed
qed

section \<open>Specifying the operations\<close>

text \<open>
  \<open>cbb_at cbb cs b\<close>: the builder has the pending children \<open>cs\<close> (so the innermost live handle
  is \<open>length cs\<close>), has written \<open>b\<close> and has hit no error. \<open>builds\<close> specifies an operation: from
  such a state it either reaches the state given, or it latches the error, and it does so only
  when the new contents do not fit.
\<close>

definition cbb_at :: "cbb \<Rightarrow> cbb_child list \<Rightarrow> bytes \<Rightarrow> bool" where
  "cbb_at cbb cs b \<longleftrightarrow>
     (\<exists>base. cbb = \<lparr>cbb_base = Some base, cbb_children = cs\<rparr> \<and> cb_buf base = b
        \<and> buf_ok base \<and> \<not> cb_error base)"

definition cbb_latched :: "cbb \<Rightarrow> bool" where
  "cbb_latched cbb \<longleftrightarrow> (\<exists>base. cbb_base cbb = Some base \<and> cb_error base)"

definition cbb_fits :: "allocator \<Rightarrow> cbb \<Rightarrow> nat \<Rightarrow> bool" where
  "cbb_fits alloc cbb n \<longleftrightarrow> (\<exists>base. cbb_base cbb = Some base \<and> fits alloc base n)"

text \<open>The capacity only grows, and only if the buffer may be resized.\<close>

definition cbb_grows :: "cbb \<Rightarrow> cbb \<Rightarrow> bool" where
  "cbb_grows cbb cbb' \<longleftrightarrow>
     (\<exists>base base'. cbb_base cbb = Some base \<and> cbb_base cbb' = Some base'
        \<and> cb_can_resize base' = cb_can_resize base \<and> cb_cap base \<le> cb_cap base'
        \<and> (\<not> cb_can_resize base \<longrightarrow> cb_cap base' = cb_cap base))"

definition builds :: "allocator \<Rightarrow> (cbb, 'a) opn \<Rightarrow> cbb_child list \<Rightarrow> bytes \<Rightarrow> 'a
    \<Rightarrow> cbb_child list \<Rightarrow> bytes \<Rightarrow> bool" where
  "builds alloc f cs b a cs' b' \<longleftrightarrow> length b \<le> length b' \<and>
     (\<forall>cbb. cbb_at cbb cs b \<longrightarrow>
        (case f cbb of
           (Some x, cbb') \<Rightarrow> x = a \<and> cbb_at cbb' cs' b' \<and> cbb_grows cbb cbb'
         | (None, cbb') \<Rightarrow> cbb_latched cbb' \<and> \<not> cbb_fits alloc cbb (length b')))"

lemma cbb_grows_refl: "cbb_at cbb cs b \<Longrightarrow> cbb_grows cbb cbb"
  by (auto simp: cbb_at_def cbb_grows_def)

lemma cbb_grows_trans: "cbb_grows x y \<Longrightarrow> cbb_grows y z \<Longrightarrow> cbb_grows x z"
  by (auto simp: cbb_grows_def)

lemma cbb_grows_fits: "cbb_grows x y \<Longrightarrow> cbb_fits alloc x n \<Longrightarrow> cbb_fits alloc y n"
  unfolding cbb_grows_def cbb_fits_def by (metis fits_grow option.inject)

lemma cbb_fits_mono: "cbb_fits alloc x n \<Longrightarrow> m \<le> n \<Longrightarrow> cbb_fits alloc x m"
  by (auto simp: cbb_fits_def intro: fits_mono)

lemma builds_length: "builds alloc f cs b a cs' b' \<Longrightarrow> length b \<le> length b'"
  by (simp add: builds_def)

lemma builds_Some:
  "builds alloc f cs b a cs' b' \<Longrightarrow> cbb_at cbb cs b \<Longrightarrow> f cbb = (Some x, cbb')
     \<Longrightarrow> x = a \<and> cbb_at cbb' cs' b' \<and> cbb_grows cbb cbb'"
  by (auto simp: builds_def dest!: spec [of _ cbb])

lemma builds_None:
  "builds alloc f cs b a cs' b' \<Longrightarrow> cbb_at cbb cs b \<Longrightarrow> f cbb = (None, cbb')
     \<Longrightarrow> cbb_latched cbb' \<and> \<not> cbb_fits alloc cbb (length b')"
  by (auto simp: builds_def dest!: spec [of _ cbb])

lemma builds_ret: "builds alloc (op_ret a) cs b a cs b"
  by (auto simp: builds_def op_ret_def intro: cbb_grows_refl)

lemma builds_bind:
  assumes f: "builds alloc f cs b a cs1 b1" and g: "builds alloc (g a) cs1 b1 c cs2 b2"
  shows "builds alloc (op_bind f g) cs b c cs2 b2"
  unfolding builds_def
proof (intro conjI allI impI)
  show "length b \<le> length b2" using f g by (simp add: builds_def)
  fix cbb assume at: "cbb_at cbb cs b"
  obtain r cbb1 where r: "f cbb = (r, cbb1)" by (cases "f cbb") auto
  show "case op_bind f g cbb of
      (Some x, cbb') \<Rightarrow> x = c \<and> cbb_at cbb' cs2 b2 \<and> cbb_grows cbb cbb'
    | (None, cbb') \<Rightarrow> cbb_latched cbb' \<and> \<not> cbb_fits alloc cbb (length b2)"
  proof (cases r)
    case None
    then show ?thesis
      using builds_None [OF f at] builds_length [OF g] r cbb_fits_mono
      by (simp add: op_bind_def) blast
  next
    case (Some x)
    note 1 = builds_Some [OF f at r [unfolded Some]]
    obtain q cbb2 where q: "g a cbb1 = (q, cbb2)" by (cases "g a cbb1") auto
    have eq: "op_bind f g cbb = (q, cbb2)" using 1 Some r q by (simp add: op_bind_def)
    show ?thesis
    proof (cases q)
      case None
      then show ?thesis
        using builds_None [OF g conjunct1 [OF conjunct2 [OF 1]]] q 1 cbb_grows_fits eq
        by simp blast
    next
      case (Some y)
      then show ?thesis
        using builds_Some [OF g conjunct1 [OF conjunct2 [OF 1]]] q 1 cbb_grows_trans eq
        by simp blast
    qed
  qed
qed

lemma builds_seq:
  "builds alloc f cs b a cs1 b1 \<Longrightarrow> builds alloc g cs1 b1 c cs2 b2
     \<Longrightarrow> builds alloc (op_seq f g) cs b c cs2 b2"
  unfolding op_seq_def by (rule builds_bind)

lemma builds_on_base:
  assumes "\<And>base r base'. f base = (r, base') \<Longrightarrow> buf_ok base \<Longrightarrow> \<not> cb_error base \<Longrightarrow> cb_buf base = b \<Longrightarrow>
      (case r of
         Some x \<Rightarrow> x = a \<and> cb_buf base' = b' \<and> buf_ok base' \<and> \<not> cb_error base'
           \<and> cb_can_resize base' = cb_can_resize base \<and> cb_cap base \<le> cb_cap base'
           \<and> (\<not> cb_can_resize base \<longrightarrow> cb_cap base' = cb_cap base)
       | None \<Rightarrow> cb_error base' \<and> \<not> fits alloc base (length b'))"
    and "length b \<le> length b'"
  shows "builds alloc (on_base f) cs b a cs b'"
  unfolding builds_def
proof (intro conjI allI impI)
  fix cbb assume "cbb_at cbb cs b"
  then obtain base where b: "cbb = \<lparr>cbb_base = Some base, cbb_children = cs\<rparr>" "cb_buf base = b"
      "buf_ok base" "\<not> cb_error base"
    by (auto simp: cbb_at_def)
  obtain r base' where r: "f base = (r, base')" by (cases "f base") auto
  show "case on_base f cbb of
      (Some x, cbb') \<Rightarrow> x = a \<and> cbb_at cbb' cs b' \<and> cbb_grows cbb cbb'
    | (None, cbb') \<Rightarrow> cbb_latched cbb' \<and> \<not> cbb_fits alloc cbb (length b')"
    using assms(1) [OF r b(3, 4, 2)] b(1) r
    by (auto simp: on_base_def cbb_at_def cbb_latched_def cbb_fits_def cbb_grows_def
        split: option.splits)
qed (rule assms(2))

lemma builds_add:
  assumes "length bs < 2 ^ 64"
  shows "builds alloc (on_base (cbb_buffer_add alloc bs)) cs b () cs (b @ bs)"
proof (rule builds_on_base)
  fix base r base'
  assume run: "cbb_buffer_add alloc bs base = (r, base')" and ok: "buf_ok base"
    and "\<not> cb_error base" "cb_buf base = b"
  then show "case r of
      Some x \<Rightarrow> x = () \<and> cb_buf base' = b @ bs \<and> buf_ok base' \<and> \<not> cb_error base'
        \<and> cb_can_resize base' = cb_can_resize base \<and> cb_cap base \<le> cb_cap base'
        \<and> (\<not> cb_can_resize base \<longrightarrow> cb_cap base' = cb_cap base)
    | None \<Rightarrow> cb_error base' \<and> \<not> fits alloc base (length (b @ bs))"
    by (cases rule: add_cases [OF run ok assms]) auto
qed simp

text \<open>A flush with no pending child does nothing.\<close>

lemma builds_flush_idle: "d = length cs \<Longrightarrow> builds alloc (CBB_flush alloc d) cs b () cs b"
  by (auto simp: builds_def cbb_at_def CBB_flush_def cbb_flush_Nil cbb_grows_def)

text \<open>A flush of the parent closes the last child.\<close>

lemma builds_flush_child:
  assumes "d = length cs" "0 < pend_len k" "prefix_of k (length c) = Some h"
    and "child = \<lparr>ch_offset = length p, ch_pending_len_len = pend_len k,
                  ch_pending_is_asn1 = (k = Der)\<rparr>"
  shows "builds alloc (CBB_flush alloc d) (cs @ [child]) (p @ replicate (pend_len k) 0 @ c) ()
           cs (p @ h @ c)"
  unfolding builds_def
proof (intro conjI allI impI)
  have "pend_len k \<le> length h"
    using assms(3) by (cases k) (auto simp: der_length_def split: if_splits)
  then show "length (p @ replicate (pend_len k) 0 @ c) \<le> length (p @ h @ c)" by simp
  fix cbb assume "cbb_at cbb (cs @ [child]) (p @ replicate (pend_len k) 0 @ c)"
  then obtain base where b: "cbb = \<lparr>cbb_base = Some base, cbb_children = cs @ [child]\<rparr>"
      "cb_buf base = p @ replicate (pend_len k) 0 @ c" "buf_ok base" "\<not> cb_error base"
    by (auto simp: cbb_at_def)
  have "holds p [(k, c)] base [child]"
    using assms(2, 4) b by (simp add: holds_def)
  then have spec: "flush_spec alloc p [(k, c)] base (cbb_flush alloc [child] base)"
    by (rule cbb_flush_spec)
  obtain r base' cs' where r: "cbb_flush alloc [child] base = (r, base', cs')"
    by (cases "cbb_flush alloc [child] base") auto
  show "case CBB_flush alloc d cbb of
      (Some x, cbb') \<Rightarrow> x = () \<and> cbb_at cbb' cs (p @ h @ c) \<and> cbb_grows cbb cbb'
    | (None, cbb') \<Rightarrow> cbb_latched cbb' \<and> \<not> cbb_fits alloc cbb (length (p @ h @ c))"
    using spec b assms(1, 3)
    by (auto simp: r flush_spec_def CBB_flush_def cbb_at_def cbb_latched_def cbb_fits_def
        cbb_grows_def split: option.splits)
qed

text \<open>The fixed-width writers.\<close>

lemma be_fill_eq: "be_fill n v = (nat_be n (unat v), drop_bit (8 * n) v)"
proof (induction n arbitrary: v)
  case (Suc n)
  have "(ucast v :: u8) = of_nat (unat v mod 256)"
    by (simp add: word_unat_eq_iff unsigned_ucast_eq unat_of_nat take_bit_eq_mod)
  then show ?case
    by (simp add: Suc unat_drop_bit add.commute [of 8])
qed simp

lemma builds_add_u:
  assumes "d = length cs" "unat v < 256 ^ n" "0 < n" "n < 2 ^ 64"
  shows "builds alloc (cbb_add_u alloc d v n) cs b () cs (b @ nat_be n (unat v))"
proof -
  obtain m where n: "n = Suc m" using assms(3) by (cases n) auto
  have zero: "drop_bit (8 * n) v = 0"
    using assms(2) by (simp add: drop_bit_eq_0_iff power_mult)
  have "cbb_buffer_add_u alloc v n = cbb_buffer_add alloc (nat_be n (unat v))"
  proof
    fix base
    show "cbb_buffer_add_u alloc v n base = cbb_buffer_add alloc (nat_be n (unat v)) base"
      using assms(3) zero
      by (simp add: cbb_buffer_add_u_def be_fill_eq op_seq_def op_bind_def op_ret_def
          split: prod.splits option.splits)
  qed
  then show ?thesis
    unfolding cbb_add_u_def using assms(4)
    by (intro builds_seq [OF builds_flush_idle [OF assms(1)]]) (simp add: builds_add)
qed

lemma builds_add_bytes:
  "d = length cs \<Longrightarrow> length bs < 2 ^ 64 \<Longrightarrow> builds alloc (CBB_add_bytes alloc d bs) cs b () cs (b @ bs)"
  unfolding CBB_add_bytes_def by (intro builds_seq [OF builds_flush_idle] builds_add)

lemma builds_add_u8:
  assumes "d = length cs"
  shows "builds alloc (CBB_add_u8 alloc d v) cs b () cs (b @ [v])"
  using builds_add_u [OF assms, of "ucast v" 1 alloc b] unat_u8_bound [of v]
  by (simp add: CBB_add_u8_def unsigned_ucast_eq take_bit_eq_mod)

lemma builds_add_u8_if:
  "d = length cs \<Longrightarrow>
     builds alloc (if P then CBB_add_u8 alloc d v else op_ret ()) cs b () cs (b @ (if P then [v] else []))"
  by (simp add: builds_add_u8 builds_ret)

text \<open>Base-128 numbers and tags.\<close>

definition base128_octet :: "u64 \<Rightarrow> nat \<Rightarrow> u8" where
  "base128_octet v i =
     (let byte = ucast (drop_bit (7 * i) v) AND 0x7f in if i \<noteq> 0 then byte OR 0x80 else byte)"

lemma low_octet: "ucast (w :: u64) AND 0x7f = (of_nat (unat w mod 128) :: u8)"
  by (simp add: word_unat_eq_iff unat_and_7f unsigned_ucast_eq unat_of_nat take_bit_eq_mod
      mod_mod_cancel)

lemma more_octet: "(ucast (w :: u64) AND 0x7f) OR 0x80 = (of_nat (128 + unat w mod 128) :: u8)"
proof -
  have "(ucast w AND 0x7f) OR 0x80 = (ucast w AND 0x7f) + (0x80 :: u8)"
    using word_plus_and_or [of "ucast w AND 0x7f" "0x80 :: u8"] by (simp add: and.assoc)
  then show ?thesis
    by (simp add: low_octet)
qed

lemma builds_base128_loop:
  "d = length cs \<Longrightarrow>
   builds alloc (add_base128_loop alloc d v n) cs b () cs (b @ map (base128_octet v) (rev [0..<n]))"
proof (induction n arbitrary: b)
  case (Suc n)
  show ?case
    using builds_seq [OF builds_add_u8 [OF Suc.prems] Suc.IH [OF Suc.prems], of _ b]
    by (simp add: base128_octet_def Let_def)
qed (simp add: builds_ret)

lemma base128_len_0 [simp]: "base128_len 0 = 0"
  by (simp add: base128_len.simps)

lemma base128_len_pos: "v \<noteq> 0 \<Longrightarrow> base128_len v = Suc (base128_len (drop_bit 7 v))"
  by (subst base128_len.simps) (simp add: word_neq_0_conv)

lemma base128_cont_len:
  "base128_cont (unat w)
     = map (\<lambda>i. (ucast (drop_bit (7 * i) w) AND 0x7f) OR 0x80) (rev [0..<base128_len w])"
proof (induction w rule: base128_len.induct)
  case (1 w)
  show ?case
  proof (cases "w = 0")
    case False
    have "rev [0..<Suc n] = map Suc (rev [0..<n]) @ [0]" for n
      by (simp add: upt_conv_Cons map_Suc_upt flip: rev_map del: upt_Suc)
    then show ?thesis
      using 1 False base128_cont_step [of "unat w"]
      by (simp add: base128_len_pos word_neq_0_conv unat_drop_bit more_octet unat_eq_zero
          add.commute o_def del: upt_Suc)
  qed simp
qed

lemma base128_octets:
  "map (base128_octet v) (rev [0..<max 1 (base128_len v)]) = base128 (unat v)"
proof -
  have len: "max 1 (base128_len v) = Suc (base128_len (drop_bit 7 v))"
    by (cases "v = 0") (simp_all add: base128_len_pos)
  have "rev [0..<Suc n] = map Suc (rev [0..<n]) @ [0]" for n
    by (simp add: upt_conv_Cons map_Suc_upt flip: rev_map del: upt_Suc)
  moreover have "base128_octet v 0 = of_nat (unat v mod 128)"
    by (simp add: base128_octet_def low_octet)
  ultimately show ?thesis
    unfolding len using base128_cont_len [of "drop_bit 7 v"]
    by (simp add: base128_def unat_drop_bit base128_octet_def Let_def o_def add.commute
        del: upt_Suc)
qed

lemma builds_base128:
  assumes "d = length cs"
  shows "builds alloc (add_base128_integer alloc d v) cs b () cs (b @ base128 (unat v))"
proof -
  have "add_base128_integer alloc d v = add_base128_loop alloc d v (max 1 (base128_len v))"
    by (auto simp: add_base128_integer_def Let_def max_def not_le Suc_le_eq
        simp del: add_base128_loop.simps)
  then show ?thesis
    using builds_base128_loop [OF assms, of alloc v "max 1 (base128_len v)" b]
    by (simp only: base128_octets)
qed

lemma tag_bits_or:
  fixes x :: u8
  assumes "unat x < 32"
  shows "(ucast (drop_bit CBS_ASN1_TAG_SHIFT (tag :: u32)) AND 0xe0) OR x = tag_octet tag (unat x)"
proof -
  have shape: "ucast (drop_bit CBS_ASN1_TAG_SHIFT tag) AND 0xe0 = (push_bit 5 (ucast (drop_bit 29 tag)) :: u8)"
    by (rule word_eq_by_bits, simp add: upt_conv_Cons)
      (simp add: CBS_ASN1_TAG_SHIFT_def bit_simps bit_u8_False)
  have top: "unat tag div 2 ^ 29 < 8"
    using unat_u32_bound [of tag] by (simp add: div_less_iff_less_mult)
  then have "unat (ucast (drop_bit 29 tag) :: u8) = unat tag div 2 ^ 29"
    by (simp add: unsigned_ucast_eq unat_drop_bit take_bit_nat_eq_self)
  then have "unat (push_bit 5 (ucast (drop_bit 29 tag)) OR x :: u8) = unat tag div 2 ^ 29 * 32 + unat x"
    using unat_push_bit_or [of x 5 "ucast (drop_bit 29 tag)"] assms top by simp
  then show ?thesis
    unfolding shape using assms by (simp add: word_unat_eq_iff unat_tag_octet)
qed

lemma builds_new_child:
  assumes "builds alloc f cs c () cs c'" "child = mk (length c)"
  shows "builds alloc (\<lambda>cbb. let offset = base_len cbb
       in op_seq f (\<lambda>cbb. (Some (), cbb\<lparr>cbb_children := cbb_children cbb @ [mk offset]\<rparr>)) cbb)
     cs c () (cs @ [child]) c'"
  unfolding builds_def
proof (intro conjI allI impI)
  show "length c \<le> length c'" using assms(1) by (rule builds_length)
  fix cbb assume at: "cbb_at cbb cs c"
  then have len: "base_len cbb = length c" by (auto simp: cbb_at_def base_len_def)
  obtain r cbb1 where r: "f cbb = (r, cbb1)" by (cases "f cbb") auto
  show "case (let offset = base_len cbb
       in op_seq f (\<lambda>cbb. (Some (), cbb\<lparr>cbb_children := cbb_children cbb @ [mk offset]\<rparr>)) cbb) of
      (Some x, cbb') \<Rightarrow> x = () \<and> cbb_at cbb' (cs @ [child]) c' \<and> cbb_grows cbb cbb'
    | (None, cbb') \<Rightarrow> cbb_latched cbb' \<and> \<not> cbb_fits alloc cbb (length c')"
  proof (cases r)
    case None
    then show ?thesis
      using builds_None [OF assms(1) at] r by (simp add: len op_seq_def op_bind_def)
  next
    case (Some u)
    then show ?thesis
      using builds_Some [OF assms(1) at] r assms(2)
      by (auto simp: len op_seq_def op_bind_def cbb_at_def cbb_grows_def)
  qed
qed

lemma builds_add_asn1:
  assumes "d = length cs"
  shows "builds alloc (CBB_add_asn1 alloc d tag) cs b ()
     (cs @ [\<lparr>ch_offset = length b + length (der_tag tag), ch_pending_len_len = 1,
             ch_pending_is_asn1 = True\<rparr>]) (b @ der_tag tag @ [0])"
proof -
  let ?bits = "ucast (drop_bit CBS_ASN1_TAG_SHIFT tag) AND 0xe0 :: u8"
  let ?num = "tag AND CBS_ASN1_TAG_NUMBER_MASK"
  have num: "unat ?num = unat tag mod 2 ^ 29"
    using unat_and_mask [of tag 29] by (simp add: CBS_ASN1_TAG_NUMBER_MASK_def CBS_ASN1_TAG_SHIFT_def)
  have u64: "unat (ucast ?num :: u64) = unat tag mod 2 ^ 29"
    by (simp add: unsigned_ucast_eq num take_bit_nat_eq_self)
  have big: "?num \<ge> 0x1f \<longleftrightarrow> 31 \<le> unat tag mod 2 ^ 29"
    by (simp add: word_le_nat_alt num)
  have id: "builds alloc
      (if ?num \<ge> 0x1f
       then op_seq (CBB_add_u8 alloc d (?bits OR 0x1f)) (add_base128_integer alloc d (ucast ?num))
       else CBB_add_u8 alloc d (?bits OR ucast ?num)) cs b () cs (b @ der_tag tag)"
  proof (cases "31 \<le> unat tag mod 2 ^ 29")
    case True
    have "builds alloc
        (op_seq (CBB_add_u8 alloc d (?bits OR 0x1f)) (add_base128_integer alloc d (ucast ?num)))
        cs b () cs ((b @ [?bits OR 0x1f]) @ base128 (unat (ucast ?num :: u64)))"
      by (rule builds_seq [OF builds_add_u8 [OF assms] builds_base128 [OF assms]])
    then show ?thesis
      using True by (simp add: big u64 der_tag_high tag_bits_or)
  next
    case False
    then have "unat (ucast ?num :: u8) = unat tag mod 2 ^ 29"
      by (simp add: unsigned_ucast_eq num take_bit_nat_eq_self)
    then show ?thesis
      using False builds_add_u8 [OF assms, of alloc "?bits OR ucast ?num" b]
      by (simp add: big der_tag_low tag_bits_or)
  qed
  have child: "builds alloc (\<lambda>cbb.
       let offset = base_len cbb
       in op_seq (CBB_add_u8 alloc d 0)
            (\<lambda>cbb. (Some (), cbb\<lparr>cbb_children := cbb_children cbb @
               [\<lparr>ch_offset = offset, ch_pending_len_len = 1, ch_pending_is_asn1 = True\<rparr>]\<rparr>)) cbb)
     cs c () (cs @ [\<lparr>ch_offset = length c, ch_pending_len_len = 1, ch_pending_is_asn1 = True\<rparr>])
     (c @ [0])" for c
    by (rule builds_new_child [OF builds_add_u8 [OF assms], where mk = "\<lambda>offset.
          \<lparr>ch_offset = offset, ch_pending_len_len = 1, ch_pending_is_asn1 = True\<rparr>"]) simp
  show ?thesis
    unfolding CBB_add_asn1_def Let_def
    using builds_seq [OF builds_flush_idle [OF assms] builds_seq [OF id child [unfolded Let_def]]]
    by simp
qed

text \<open>Integers.\<close>

fun emit :: "bool \<Rightarrow> bytes \<Rightarrow> bytes" where
  "emit started [] = []"
| "emit started (b # bs) =
     (if started then b # bs
      else if b = 0 then emit False bs
      else (if b AND 0x80 \<noteq> 0 then [0] else []) @ b # bs)"

lemma emit_True [simp]: "emit True bs = bs"
  by (cases bs) simp_all

definition uint64_octet :: "u64 \<Rightarrow> nat \<Rightarrow> u8" where
  "uint64_octet v i = ucast (drop_bit (8 * (7 - i)) v AND 0xff)"

lemma builds_uint64_loop:
  "d = length cs \<Longrightarrow>
   builds alloc (add_uint64_loop alloc d v started is) cs b
     (started \<or> (\<exists>i\<in>set is. uint64_octet v i \<noteq> 0)) cs (b @ emit started (map (uint64_octet v) is))"
proof (induction "is" arbitrary: b started)
  case Nil
  then show ?case by (simp add: builds_ret)
next
  case (Cons i "is")
  let ?byte = "uint64_octet v i"
  show ?case
  proof (cases "\<not> started \<and> ?byte = 0")
    case True
    then show ?thesis
      using Cons.IH [OF Cons.prems, of False b] by (simp add: Let_def flip: uint64_octet_def)
  next
    case False
    let ?pad = "if \<not> started \<and> ?byte AND 0x80 \<noteq> 0 then [0 :: u8] else []"
    have "builds alloc
        (op_seq (if \<not> started \<and> ?byte AND 0x80 \<noteq> 0 then CBB_add_u8 alloc d 0 else op_ret ())
           (op_seq (CBB_add_u8 alloc d ?byte) (add_uint64_loop alloc d v True is))) cs b
        (True \<or> (\<exists>i\<in>set is. uint64_octet v i \<noteq> 0)) cs
        (((b @ ?pad) @ [?byte]) @ emit True (map (uint64_octet v) is))"
      by (intro builds_seq [OF builds_add_u8_if] builds_seq [OF builds_add_u8]
          Cons.IH Cons.prems)
    then show ?thesis
      using False by (auto simp: Let_def simp flip: uint64_octet_def)
  qed
qed

lemma rev_upt_Suc: "rev [0..<Suc n] = map Suc (rev [0..<n]) @ [0]"
  by (simp add: upt_conv_Cons map_Suc_upt flip: rev_map del: upt_Suc)

lemma nat_be_rev: "nat_be n v = map (\<lambda>i. of_nat (v div 256 ^ i mod 256)) (rev [0..<n])"
  by (induction n arbitrary: v) (simp_all add: rev_upt_Suc o_def div_mult2_eq del: upt_Suc)

lemma nat_be_upt: "nat_be n v = map (\<lambda>i. of_nat (v div 256 ^ (n - 1 - i) mod 256)) [0..<n]"
  by (rule nth_equalityI) (simp_all add: nat_be_rev rev_nth)

lemma uint64_octets: "map (uint64_octet v) [0..<8] = nat_be 8 (unat v)"
proof -
  have "uint64_octet v i = of_nat (unat v div 256 ^ (7 - i) mod 256)" for i
    using unat_and_mask [of "drop_bit (8 * (7 - i)) v" 8]
    by (simp add: uint64_octet_def word_unat_eq_iff unsigned_ucast_eq unat_of_nat
        take_bit_eq_mod unat_drop_bit power_mult)
  then show ?thesis
    by (simp add: nat_be_upt)
qed

lemma emit_value:
  assumes "emit False bs \<noteq> []"
  shows "min_nonneg (emit False bs)" "be_nat (emit False bs) = be_nat bs"
  using assms
  by (induction bs) (auto simp: min_nonneg_def high_bit_iff not_less split: if_splits)

lemma emit_empty: "emit False bs = [] \<longleftrightarrow> (\<forall>b\<in>set bs. b = 0)"
  by (induction bs) auto

lemma be_nat_zeros: "\<forall>b\<in>set bs. b = 0 \<Longrightarrow> be_nat bs = 0"
  by (induction bs) auto

lemma emit_der:
  "(let e = emit False (nat_be 8 (unat v)) in if e = [] then [0] else e) = der_nat_bytes (unat (v :: u64))"
proof -
  have val: "be_nat (nat_be 8 (unat v)) = unat v"
    using unat_u64_bound [of v] by (simp add: be_nat_nat_be)
  show ?thesis
  proof (cases "emit False (nat_be 8 (unat v)) = []")
    case True
    then have "unat v = 0"
      using val be_nat_zeros by (simp add: emit_empty)
    then show ?thesis using True by (simp add: der_nat_bytes_def)
  next
    case False
    then show ?thesis
      using min_nonneg_canonical [OF emit_value(1) [OF False]] emit_value(2) [OF False] val
      by simp
  qed
qed

text \<open>An ASN.1 value: a tag, the contents written through the child, and the flush.\<close>

lemma builds_element:
  assumes d: "d = length cs" and c: "length content \<le> 0xfffffffe"
    and body: "\<And>cs p. Suc d = length cs \<Longrightarrow> builds alloc f cs p () cs (p @ content)"
  shows "builds alloc (op_seq (CBB_add_asn1 alloc d tag) (op_seq f (CBB_flush alloc d))) cs b ()
           cs (b @ der_element tag content)"
proof -
  let ?p = "b @ der_tag tag"
  let ?child = "\<lparr>ch_offset = length b + length (der_tag tag), ch_pending_len_len = 1,
                 ch_pending_is_asn1 = True\<rparr>"
  have "builds alloc (CBB_flush alloc d) (cs @ [?child]) (?p @ replicate (pend_len Der) 0 @ content) ()
      cs (?p @ der_length (length content) @ content)"
    using c by (intro builds_flush_child [OF d]) simp_all
  moreover have "builds alloc f (cs @ [?child]) (b @ der_tag tag @ [0]) ()
      (cs @ [?child]) ((b @ der_tag tag @ [0]) @ content)"
    by (rule body) (simp add: d)
  ultimately show ?thesis
    by (intro builds_seq [OF builds_add_asn1 [OF d]] builds_seq)
      (simp_all add: der_element_def der_header_def)
qed

lemma op_seq_assoc: "op_seq (op_seq f g) h = op_seq f (op_seq g h)"
  by (simp add: op_seq_def op_bind_assoc)

lemma op_bind_seq_assoc: "op_bind f (\<lambda>a. op_seq (g a) h) = op_seq (op_bind f g) h"
  by (simp add: op_seq_def op_bind_assoc)

lemma builds_add_asn1_uint64:
  assumes "d = length cs"
  shows "builds alloc (CBB_add_asn1_uint64 alloc d v) cs b () cs
           (b @ der_element CBS_ASN1_INTEGER (der_nat_bytes (unat v)))"
  unfolding CBB_add_asn1_uint64_def op_bind_seq_assoc
proof (rule builds_element [OF assms])
  have "byte_len (unat v) \<le> 8"
    using unat_u64_bound [of v] by (simp add: byte_len_le_iff)
  then show "length (der_nat_bytes (unat v)) \<le> 0xfffffffe"
    using length_der_nat_bytes [of "unat v"] by simp
  fix cs :: "cbb_child list" and p assume d: "Suc d = length cs"
  then have d': "d + 1 = length cs" by simp
  let ?e = "emit False (nat_be 8 (unat v))"
  have "(\<exists>i\<in>set [0..<8]. uint64_octet v i \<noteq> 0) \<longleftrightarrow> ?e \<noteq> []"
    unfolding emit_empty uint64_octets [symmetric] by auto
  then have loop: "builds alloc (add_uint64_loop alloc (d + 1) v False [0..<8]) cs p (?e \<noteq> []) cs (p @ ?e)"
    using builds_uint64_loop [OF d', of alloc v False "[0..<8]" p] by (simp only: uint64_octets simp_thms)
  have "builds alloc (op_bind (add_uint64_loop alloc (d + 1) v False [0..<8])
       (\<lambda>started. if \<not> started then CBB_add_u8 alloc (d + 1) 0 else op_ret ())) cs p () cs
       ((p @ ?e) @ (if \<not> ?e \<noteq> [] then [0] else []))"
    by (rule builds_bind [OF loop builds_add_u8_if [OF d']])
  moreover have "(p @ ?e) @ (if \<not> ?e \<noteq> [] then [0] else []) = p @ der_nat_bytes (unat v)"
    using emit_der [of v] by (auto simp: Let_def split: if_splits)
  ultimately show "builds alloc (op_bind (add_uint64_loop alloc (d + 1) v False [0..<8])
       (\<lambda>started. if \<not> started then CBB_add_u8 alloc (d + 1) 0 else op_ret ())) cs p () cs
       (p @ der_nat_bytes (unat v))"
    by simp
qed

lemma builds_int64_loop:
  "d = length cs \<Longrightarrow>
   builds alloc (add_int64_loop alloc d v n) cs b () cs (b @ map (union_byte v) (rev [0..<n]))"
proof (induction n arbitrary: b)
  case (Suc n)
  have "builds alloc (add_int64_loop alloc d v (Suc n)) cs b () cs
      ((b @ [union_byte v n]) @ map (union_byte v) (rev [0..<n]))"
    unfolding add_int64_loop.simps by (rule builds_seq [OF builds_add_u8 Suc.IH]) (fact Suc.prems)+
  then show ?case by simp
qed (simp add: builds_ret)

abbreviation int64_octets :: "u64 \<Rightarrow> nat \<Rightarrow> bytes" where
  "int64_octets v s \<equiv> map (union_byte v) (rev [0..<Suc s])"

lemma hd_int64_octets: "hd (int64_octets v s) = union_byte v s"
  by simp

lemma int64_octets_7: "int64_octets v 7 = nat_be 8 (unat v)"
proof -
  have "union_byte v i = of_nat (unat v div 256 ^ i mod 256)" for i
    by (simp add: union_byte_def word_unat_eq_iff unsigned_ucast_eq unat_of_nat
        take_bit_eq_mod unat_drop_bit power_mult)
  then show ?thesis
    by (simp add: nat_be_rev)
qed

lemma int64_start_octets:
  assumes "\<not> unat (union_byte v s) < 128"
  shows "min_int (int64_octets v (int64_start v s))
    \<and> twos_val (int64_octets v (int64_start v s)) = twos_val (int64_octets v s)"
  using assms
proof (induction s)
  case 0
  then show ?case by (simp add: min_int_def)
next
  case (Suc s)
  show ?case
  proof (cases "union_byte v (Suc s) = 0xff \<and> union_byte v s AND 0x80 \<noteq> 0")
    case True
    then have "twos_val (int64_octets v (Suc s)) = twos_val (int64_octets v s)"
      by (simp add: twos_val_def high_bit_iff)
    moreover have "\<not> unat (union_byte v s) < 128"
      using True by (simp add: high_bit_iff)
    ultimately show ?thesis
      using Suc.IH True by simp
  next
    case False
    then have "min_int (int64_octets v (Suc s))"
      using Suc.prems by (auto simp: min_int_def high_bit_iff)
    then show ?thesis using False by auto
  qed
qed

lemma sint_unat: "sint v = (if unat v < 2 ^ 63 then int (unat v) else int (unat v) - 2 ^ 64)" for v :: u64
proof (cases "unat v < 2 ^ 63")
  case True
  then have "int (unat v) < int (2 ^ 63)" by (simp only: of_nat_less_iff)
  then have "word_of_int (int (unat v)) = v \<and> int (unat v) < 2 ^ 63" by simp
  moreover have "- (2 ^ 63) \<le> int (unat v)" by (rule order_trans [of _ 0]) simp_all
  ultimately have "int (unat v) = sint v" using word_of_int_sint_iff [of "int (unat v)" v] by blast
  then show ?thesis using True by simp
next
  case False
  define n where "n = unat v"
  have "- (2 ^ 63) \<le> int n - 2 ^ 64" "int n - 2 ^ 64 < 2 ^ 63"
    using False unat_u64_bound [of v] by (simp_all flip: n_def)
  then have "- (2 ^ 63) \<le> int (unat v) - 2 ^ 64" "int (unat v) - 2 ^ 64 < 2 ^ 63"
    unfolding n_def .
  moreover have "word_of_int (int (unat v) - 2 ^ 64) = v" by simp
  ultimately show ?thesis using word_of_int_sint_iff [of "int (unat v) - 2 ^ 64" v] False by simp
qed

lemma builds_add_asn1_int64:
  assumes "d = length cs"
  shows "builds alloc (CBB_add_asn1_int64 alloc d v) cs b () cs
           (b @ der_element CBS_ASN1_INTEGER (der_int_bytes (sint v)))"
proof (cases "0 \<le> sint v")
  case True
  have "uint v < 2 ^ 64" using unsigned_less [of v, where 'a = int] by simp
  with True have "unat v = nat (sint v)"
    by (simp only: sint_unat split: if_splits) (use unat_u64_bound [of v] in \<open>simp_all add: nat_int\<close>)
  then show ?thesis
    using builds_add_asn1_uint64 [OF assms, of alloc v b] True
    by (simp add: CBB_add_asn1_int64_def der_int_bytes_def)
next
  case False
  then have big: "\<not> unat v < 2 ^ 63" by (simp add: sint_unat split: if_splits)
  have top: "\<not> unat (union_byte v 7) < 128"
  proof -
    have "unat (union_byte v 7) = unat v div 2 ^ 56"
      using unat_u64_bound [of v]
      by (simp add: union_byte_def unsigned_ucast_eq unat_drop_bit take_bit_nat_eq_self
          div_less_iff_less_mult)
    then show ?thesis using big by (simp add: div_less_iff_less_mult)
  qed
  have "twos_val (int64_octets v 7) = int (be_nat (int64_octets v 7)) - 256 ^ 8"
    using top unfolding twos_val_def hd_int64_octets by simp
  also have "\<dots> = sint v"
    using big unat_u64_bound [of v] by (simp only: int64_octets_7) (simp add: be_nat_nat_be sint_unat)
  finally have der: "int64_octets v (int64_start v 7) = der_int_bytes (sint v)"
    using int64_start_octets [OF top] min_int_canonical by metis
  show ?thesis
    unfolding CBB_add_asn1_int64_def if_not_P [OF False]
  proof (rule builds_element [OF assms])
    have "asn1_int64_of_bytes (der_int_bytes (sint v)) = Some v"
      by (simp add: asn1_int64_of_bytes_iff)
    then show "length (der_int_bytes (sint v)) \<le> 0xfffffffe"
      by (simp add: asn1_int64_of_bytes_eq split: if_splits)
    fix cs :: "cbb_child list" and p assume "Suc d = length cs"
    then show "builds alloc (add_int64_loop alloc (d + 1) v (int64_start v 7 + 1)) cs p () cs
        (p @ der_int_bytes (sint v))"
      using builds_int64_loop [of "d + 1" cs alloc v "int64_start v 7 + 1" p] der by simp
  qed
qed

lemma builds_add_asn1_octet_string:
  "d = length cs \<Longrightarrow> length data \<le> 0xfffffffe \<Longrightarrow>
   builds alloc (CBB_add_asn1_octet_string alloc d data) cs b () cs
     (b @ der_element CBS_ASN1_OCTETSTRING data)"
  unfolding CBB_add_asn1_octet_string_def
  by (rule builds_element) (simp_all add: builds_add_bytes)

lemma builds_add_asn1_bool:
  "d = length cs \<Longrightarrow>
   builds alloc (CBB_add_asn1_bool alloc d v) cs b () cs
     (b @ der_element CBS_ASN1_BOOLEAN [if v then 0xff else 0])"
  unfolding CBB_add_asn1_bool_def
  by (rule builds_element) (simp_all add: builds_add_u8)

section \<open>Safety of any sequence of calls\<close>

text \<open>
  The calls a client can make on the handles of one builder, and the states they reach. Every
  call may fail; the client may go on regardless.
\<close>

datatype cbb_call =
    Add_bytes nat bytes | Add_space nat bytes | Reserve nat nat | Did_write nat bytes
  | Add_u8 nat u8 | Add_u16 nat u16 | Add_u24 nat u32 | Add_u32 nat u32 | Add_u64 nat u64
  | Add_u8_length_prefixed nat | Add_u16_length_prefixed nat | Add_u24_length_prefixed nat
  | Add_asn1 nat u32 | Add_asn1_uint64 nat u64 | Add_asn1_int64 nat u64
  | Add_asn1_octet_string nat bytes | Add_asn1_bool nat bool
  | Flush nat | Flush_asn1_set_of nat | Discard_child nat

fun run_call :: "allocator \<Rightarrow> cbb_call \<Rightarrow> (cbb, unit) opn" where
  "run_call alloc (Add_bytes d bs) = CBB_add_bytes alloc d bs"
| "run_call alloc (Add_space d bs) = CBB_add_space alloc d bs"
| "run_call alloc (Reserve d n) = CBB_reserve alloc d n"
| "run_call alloc (Did_write d bs) = CBB_did_write d bs"
| "run_call alloc (Add_u8 d v) = CBB_add_u8 alloc d v"
| "run_call alloc (Add_u16 d v) = CBB_add_u16 alloc d v"
| "run_call alloc (Add_u24 d v) = CBB_add_u24 alloc d v"
| "run_call alloc (Add_u32 d v) = CBB_add_u32 alloc d v"
| "run_call alloc (Add_u64 d v) = CBB_add_u64 alloc d v"
| "run_call alloc (Add_u8_length_prefixed d) = CBB_add_u8_length_prefixed alloc d"
| "run_call alloc (Add_u16_length_prefixed d) = CBB_add_u16_length_prefixed alloc d"
| "run_call alloc (Add_u24_length_prefixed d) = CBB_add_u24_length_prefixed alloc d"
| "run_call alloc (Add_asn1 d tag) = CBB_add_asn1 alloc d tag"
| "run_call alloc (Add_asn1_uint64 d v) = CBB_add_asn1_uint64 alloc d v"
| "run_call alloc (Add_asn1_int64 d v) = CBB_add_asn1_int64 alloc d v"
| "run_call alloc (Add_asn1_octet_string d bs) = CBB_add_asn1_octet_string alloc d bs"
| "run_call alloc (Add_asn1_bool d b) = CBB_add_asn1_bool alloc d b"
| "run_call alloc (Flush d) = CBB_flush alloc d"
| "run_call alloc (Flush_asn1_set_of d) = CBB_flush_asn1_set_of alloc d"
| "run_call alloc (Discard_child d) = (\<lambda>cbb. (Some (), CBB_discard_child d cbb))"

text \<open>A call's arguments are C objects: no byte string is as long as the address space.\<close>

fun call_sized :: "cbb_call \<Rightarrow> bool" where
  "call_sized (Add_bytes d bs) = (length bs < 2 ^ 64)"
| "call_sized (Add_space d bs) = (length bs < 2 ^ 64)"
| "call_sized (Reserve d n) = (n < 2 ^ 64)"
| "call_sized (Did_write d bs) = (length bs < 2 ^ 64)"
| "call_sized (Add_asn1_octet_string d bs) = (length bs < 2 ^ 64)"
| "call_sized _ = True"

inductive cbb_reach :: "allocator \<Rightarrow> cbb \<Rightarrow> cbb \<Rightarrow> bool" for alloc :: allocator and cbb0 :: cbb where
  start: "cbb_reach alloc cbb0 cbb0"
| call: "cbb_reach alloc cbb0 cbb \<Longrightarrow> call_sized c \<Longrightarrow> cbb_reach alloc cbb0 (snd (run_call alloc c cbb))"

inductive_cases cbb_reachE: "cbb_reach alloc cbb0 cbb"

text \<open>
  \<open>safe f\<close>: from a builder whose buffer is within its capacity, the operation leaves it so,
  keeps a fixed capacity, and keeps a latched error.
\<close>

definition base_safe :: "cbb_buffer \<Rightarrow> cbb_buffer \<Rightarrow> bool" where
  "base_safe base base' \<longleftrightarrow> (buf_ok base \<longrightarrow> buf_ok base')
     \<and> cb_can_resize base' = cb_can_resize base
     \<and> (\<not> cb_can_resize base \<longrightarrow> cb_cap base' = cb_cap base)
     \<and> (cb_error base \<longrightarrow> cb_error base')"

definition cbb_safe :: "cbb \<Rightarrow> cbb \<Rightarrow> bool" where
  "cbb_safe cbb cbb' \<longleftrightarrow>
     (case cbb_base cbb of
        None \<Rightarrow> cbb_base cbb' = None
      | Some base \<Rightarrow> buf_ok base \<longrightarrow> (\<exists>base'. cbb_base cbb' = Some base' \<and> base_safe base base'))"

definition safe :: "(cbb, 'a) opn \<Rightarrow> bool" where
  "safe f \<longleftrightarrow> (\<forall>cbb. cbb_safe cbb (snd (f cbb)))"

definition base_ok :: "cbb \<Rightarrow> bool" where
  "base_ok cbb \<longleftrightarrow> (\<forall>base. cbb_base cbb = Some base \<longrightarrow> buf_ok base)"

lemma base_safe_refl [simp]: "base_safe base base"
  by (simp add: base_safe_def)

lemma base_safe_trans: "base_safe x y \<Longrightarrow> base_safe y z \<Longrightarrow> base_safe x z"
  by (auto simp: base_safe_def)

lemma cbb_safe_refl [simp]: "cbb_safe cbb cbb"
  by (simp add: cbb_safe_def split: option.splits)

lemma cbb_safe_trans: "cbb_safe x y \<Longrightarrow> cbb_safe y z \<Longrightarrow> cbb_safe x z"
  unfolding cbb_safe_def
  by (auto split: option.splits simp: base_safe_def)

lemma safe_ret [intro]: "safe (op_ret a)"
  by (simp add: safe_def op_ret_def)

lemma safe_fail [intro]: "safe op_fail"
  by (simp add: safe_def op_fail_def)

lemma safe_bind [intro]:
  assumes "safe f" "\<And>a. safe (g a)"
  shows "safe (op_bind f g)"
  unfolding safe_def
proof
  fix cbb
  obtain r cbb1 where r: "f cbb = (r, cbb1)" by (metis surj_pair)
  then have 1: "cbb_safe cbb cbb1" using assms(1) by (metis safe_def snd_conv)
  show "cbb_safe cbb (snd (op_bind f g cbb))"
    using 1 r assms(2) by (cases r) (auto simp: op_bind_def safe_def intro: cbb_safe_trans [OF 1])
qed

lemma safe_seq [intro]: "safe f \<Longrightarrow> safe g \<Longrightarrow> safe (op_seq f g)"
  unfolding op_seq_def by (rule safe_bind)

lemma safe_if [intro]: "safe f \<Longrightarrow> safe g \<Longrightarrow> safe (if P then f else g)"
  by simp

lemma safe_on_base:
  assumes "\<And>base. buf_ok base \<Longrightarrow> base_safe base (snd (f base))"
  shows "safe (on_base f)"
  using assms
  by (auto simp: safe_def cbb_safe_def on_base_def split: option.splits prod.splits) (metis snd_conv)

lemma reserve_safe:
  assumes "n < 2 ^ 64" "buf_ok base"
  shows "base_safe base (snd (cbb_buffer_reserve alloc n base))"
proof -
  obtain r base' where run: "cbb_buffer_reserve alloc n base = (r, base')"
    by (cases "cbb_buffer_reserve alloc n base") auto
  show ?thesis
    by (rule reserve_cases [OF run assms(2, 1)]) (auto simp: run base_safe_def)
qed

lemma add_safe:
  assumes "length bs < 2 ^ 64" "buf_ok base"
  shows "base_safe base (snd (cbb_buffer_add alloc bs base))"
proof -
  obtain r base' where run: "cbb_buffer_add alloc bs base = (r, base')"
    by (cases "cbb_buffer_add alloc bs base") auto
  show ?thesis
    by (rule add_cases [OF run assms(2, 1)]) (auto simp: run base_safe_def)
qed

lemma length_put_be: "length (fst (put_be b off n len)) = length b"
  by (induction b off n len rule: put_be.induct) simp_all

lemma put_prefix_safe: "base_safe base (fst (snd (put_prefix child len (base, cs))))"
  using length_put_be [of "cb_buf base" "ch_offset child" "ch_pending_len_len child" len]
  by (auto simp: put_prefix_def base_safe_def buf_ok_def split: prod.splits)

lemma base_safe_err [simp]: "base_safe base (base\<lparr>cb_error := True\<rparr>)"
  by (simp add: base_safe_def)

lemma base_safe_same_length:
  "length bs = length (cb_buf base) \<Longrightarrow> base_safe base (base\<lparr>cb_buf := bs\<rparr>)"
  by (simp add: base_safe_def buf_ok_def)

lemma asn1_len_len_small: "asn1_len_len len = (l, b, len') \<Longrightarrow> l \<le> 5"
  by (auto simp: asn1_len_len_def split: if_splits)

lemma flush_child_safe:
  assumes "buf_ok base" "start \<le> length (cb_buf base)"
  shows "base_safe base (fst (snd (flush_child alloc child start (base, inner))))"
proof -
  let ?len = "length (cb_buf base) - start"
  obtain l b len' where l: "asn1_len_len ?len = (l, b, len')"
    by (cases "asn1_len_len ?len") auto
  let ?move = "\<lambda>base. (Some (), base\<lparr>cb_buf := memmove (cb_buf base) (start + (l - 1)) start ?len\<rparr>)"
  obtain r base1 where r: "(if l \<noteq> 1
      then op_bind (cbb_buffer_add alloc (replicate (l - 1) 0)) (\<lambda>_. ?move) base
      else (Some (), base)) = (r, base1)" by (meson surj_pair)
  have small: "length (replicate (l - 1) (0 :: u8)) < 2 ^ 64"
    using asn1_len_len_small [OF l] by simp
  have 1: "base_safe base base1"
  proof (cases "l = 1")
    case False
    obtain q base2 where q: "cbb_buffer_add alloc (replicate (l - 1) 0) base = (q, base2)"
      by (meson surj_pair)
    show ?thesis
    proof (rule add_cases [OF q assms(1) small])
      assume "q = None" "base2 = base\<lparr>cb_error := True\<rparr>"
      then show ?thesis using r False q by (simp add: op_bind_def) (metis base_safe_err)
    next
      assume "q = Some ()" and b2: "cb_buf base2 = cb_buf base @ replicate (l - 1) 0"
      then have "base1 = base2\<lparr>cb_buf := memmove (cb_buf base2) (start + (l - 1)) start ?len\<rparr>"
        using r False q by (simp add: op_bind_def)
      moreover have "length (memmove (cb_buf base2) (start + (l - 1)) start ?len) = length (cb_buf base2)"
        using assms(2) by (simp add: memmove_def b2)
      ultimately show ?thesis
        using add_safe [OF small assms(1), of alloc] q base_safe_same_length
        by (metis base_safe_trans snd_conv)
    qed
  qed (use r in simp)
  let ?base2 = "base1\<lparr>cb_buf := (cb_buf base1)[ch_offset child := b]\<rparr>"
  let ?child = "child\<lparr>ch_offset := ch_offset child + 1, ch_pending_len_len := l - 1\<rparr>"
  have 2: "base_safe base ?base2"
    by (rule base_safe_trans [OF 1 base_safe_same_length]) simp
  have run: "flush_child alloc child start (base, inner) =
     (if \<not> ch_pending_is_asn1 child then put_prefix child ?len (base, inner)
      else if ?len > 0xfffffffe then (None, base\<lparr>cb_error := True\<rparr>, child # inner)
      else if r = None then (None, base1\<lparr>cb_error := True\<rparr>, child # inner)
      else put_prefix ?child len' (?base2, inner))"
    unfolding flush_child_def Let_def l prod.case r by simp
  show ?thesis
    unfolding run using put_prefix_safe base_safe_trans [OF 1 base_safe_err]
      base_safe_trans [OF 2 put_prefix_safe]
    by auto
qed

lemma cbb_flush_safe:
  "buf_ok base \<Longrightarrow> base_safe base (fst (snd (cbb_flush alloc cs base)))"
proof (induction alloc cs base rule: cbb_flush.induct)
  case (1 alloc cs base)
  show ?case
  proof (cases "cb_error base \<or> cs = [] \<or> ch_pending_len_len (hd cs) = 0")
    case True
    then show ?thesis by (subst cbb_flush.simps) (auto split: list.splits)
  next
    case False
    then obtain child inner where cs: "cs = child # inner" "0 < ch_pending_len_len child"
      by (cases cs) auto
    define start where "start = (ch_offset child + ch_pending_len_len child) mod 2 ^ 64"
    obtain r base1 inner1 where r: "cbb_flush alloc inner base = (r, base1, inner1)"
      by (metis surj_pair)
    have safe1: "base_safe base base1"
      using 1 False cs r by (metis fst_conv snd_conv not_gr_zero)
    have run: "cbb_flush alloc cs base =
      (if r = None \<or> start < ch_offset child \<or> length (cb_buf base1) < start
       then (None, base1\<lparr>cb_error := True\<rparr>, child # inner1)
       else flush_child alloc child start (base1, inner1))"
      unfolding cs using False cs
      by (subst cbb_flush.simps) (simp add: r flush_child_def Let_def start_def split: prod.splits)
    have "buf_ok base1" using safe1 1 by (simp add: base_safe_def)
    then show ?thesis
      unfolding run using safe1
      by (auto intro: base_safe_trans [OF safe1 base_safe_err] base_safe_trans [OF safe1 flush_child_safe])
  qed
qed

lemma flush_safe [intro]: "safe (CBB_flush alloc d)"
  using cbb_flush_safe
  by (auto simp: safe_def cbb_safe_def CBB_flush_def split: option.splits prod.splits)
    (metis fst_conv snd_conv)

lemma add_base_safe [intro]: "length bs < 2 ^ 64 \<Longrightarrow> safe (on_base (cbb_buffer_add alloc bs))"
  by (rule safe_on_base) (rule add_safe)

lemma add_u_base_safe: "n < 2 ^ 64 \<Longrightarrow> safe (on_base (cbb_buffer_add_u alloc v n))"
proof (rule safe_on_base)
  fix base assume n: "n < 2 ^ 64" and ok: "buf_ok base"
  have len: "length (nat_be n (unat v)) < 2 ^ 64" using n by simp
  show "base_safe base (snd (cbb_buffer_add_u alloc v n base))"
  proof (cases "n = 0")
    case False
    obtain r base1 where r: "cbb_buffer_add alloc (nat_be n (unat v)) base = (r, base1)"
      by (metis surj_pair)
    have "base_safe base base1" using add_safe [OF len ok, of alloc] r by simp
    then show ?thesis
      using False r base_safe_trans [OF _ base_safe_err]
      by (auto simp: cbb_buffer_add_u_def be_fill_eq op_seq_def op_bind_def op_ret_def buffer_err_def
          split: option.splits)
  qed (simp add: cbb_buffer_add_u_def op_ret_def)
qed

lemma safe_fn: "(\<And>x. safe (F x)) \<Longrightarrow> safe (\<lambda>cbb. F (h cbb) cbb)"
  by (simp add: safe_def)

lemma safe_children [intro]: "safe (\<lambda>cbb. (Some a, cbb\<lparr>cbb_children := g (cbb_children cbb)\<rparr>))"
  by (simp add: safe_def cbb_safe_def split: option.splits)

lemma add_u_safe: "n < 2 ^ 64 \<Longrightarrow> safe (cbb_add_u alloc d v n)"
  unfolding cbb_add_u_def by (intro safe_seq flush_safe add_u_base_safe)

lemma add_bytes_safe: "length bs < 2 ^ 64 \<Longrightarrow> safe (CBB_add_bytes alloc d bs)"
  unfolding CBB_add_bytes_def by blast

lemma add_u8_safe [intro]: "safe (CBB_add_u8 alloc d v)"
  unfolding CBB_add_u8_def by (rule add_u_safe) simp

lemma reserve_call_safe: "n < 2 ^ 64 \<Longrightarrow> safe (CBB_reserve alloc d n)"
  unfolding CBB_reserve_def by (intro safe_seq flush_safe safe_on_base reserve_safe)

lemma did_write_safe:
  assumes "length bs < 2 ^ 64"
  shows "safe (CBB_did_write d bs)"
  unfolding safe_def
proof
  fix cbb
  show "cbb_safe cbb (snd (CBB_did_write d bs cbb))"
  proof (cases "cbb_base cbb")
    case (Some base)
    have "length (cb_buf base) + length bs \<le> cb_cap base"
      if "buf_ok base" "\<not> (length (cb_buf base) + length bs) mod 2 ^ 64 < length (cb_buf base)"
        "\<not> (length (cb_buf base) + length bs) mod 2 ^ 64 > cb_cap base"
      using that assms size_t_add [of "length (cb_buf base)" "length bs"]
      by (simp add: buf_ok_def)
    then show ?thesis
      using Some by (auto simp: CBB_did_write_def cbb_safe_def Let_def base_safe_def buf_ok_def)
  qed (simp add: CBB_did_write_def)
qed

lemma new_child_safe:
  assumes "safe f"
  shows "safe (\<lambda>cbb. op_seq f (\<lambda>cbb'. (Some (), cbb'\<lparr>cbb_children := cbb_children cbb' @ [mk (base_len cbb)]\<rparr>)) cbb)"
  by (rule safe_fn [where h = base_len and F = "\<lambda>offset. op_seq f
        (\<lambda>cbb'. (Some (), cbb'\<lparr>cbb_children := cbb_children cbb' @ [mk offset]\<rparr>))"])
    (intro safe_seq assms safe_children)

lemma length_prefixed_safe: "n < 2 ^ 64 \<Longrightarrow> safe (cbb_add_length_prefixed alloc d n)"
  unfolding cbb_add_length_prefixed_def Let_def
  by (intro safe_seq flush_safe add_base_safe
      new_child_safe [where mk = "\<lambda>offset. \<lparr>ch_offset = offset, ch_pending_len_len = n,
                                            ch_pending_is_asn1 = False\<rparr>"]) simp

lemma base128_loop_safe: "safe (add_base128_loop alloc d v n)"
  by (induction n) (auto simp: Let_def)

lemma add_asn1_safe [intro]: "safe (CBB_add_asn1 alloc d tag)"
  unfolding CBB_add_asn1_def add_base128_integer_def Let_def
  by (intro safe_seq safe_if flush_safe add_u8_safe base128_loop_safe
      new_child_safe [where mk = "\<lambda>offset. \<lparr>ch_offset = offset, ch_pending_len_len = 1,
                                            ch_pending_is_asn1 = True\<rparr>"])

lemma uint64_loop_safe: "safe (add_uint64_loop alloc d v started is)"
  by (induction "is" arbitrary: started) (auto simp: Let_def)

lemma add_asn1_uint64_safe [intro]: "safe (CBB_add_asn1_uint64 alloc d v)"
  unfolding CBB_add_asn1_uint64_def
  by (intro safe_seq safe_bind safe_if add_asn1_safe uint64_loop_safe flush_safe add_u8_safe safe_ret)

lemma int64_loop_safe: "safe (add_int64_loop alloc d v n)"
  by (induction n) auto

lemma add_asn1_int64_safe: "safe (CBB_add_asn1_int64 alloc d v)"
  unfolding CBB_add_asn1_int64_def
  by (intro safe_if safe_seq add_asn1_uint64_safe add_asn1_safe int64_loop_safe flush_safe)

lemma add_children_safe: "\<forall>c\<in>set cs. length c < 2 ^ 64 \<Longrightarrow> safe (add_children alloc d cs)"
  by (induction cs) (simp_all add: safe_ret safe_seq add_bytes_safe)

subsection \<open>Sets\<close>

lemma split_elements_step:
  "cbs \<noteq> [] \<Longrightarrow> split_elements cbs =
     (case CBS_get_any_asn1_element cbs of
        (None, _) \<Rightarrow> None
      | (Some (e, _, _), rest) \<Rightarrow>
          if length rest < length cbs then map_option ((#) e) (split_elements rest) else None)"
  by (subst split_elements.simps) simp

lemma split_elements_Nil [simp]: "split_elements [] = Some []"
  by (subst split_elements.simps) simp

lemma any_element_Some:
  assumes "CBS_get_any_asn1_element cbs = (Some (e, tag, hlen), rest)"
  shows "cbs = e @ rest" and "e \<noteq> []"
proof -
  obtain c where "cbs = der_element tag c @ rest" "e = der_element tag c"
    using assms element_iff [of cbs e tag hlen rest] by auto
  then show "cbs = e @ rest" "e \<noteq> []" by (simp_all add: der_element_def der_header_def)
qed

lemma any_element_advances:
  "CBS_get_any_asn1_element cbs = (Some (e, tag, hlen), rest) \<Longrightarrow> length rest < length cbs"
  using any_element_Some [of cbs e tag hlen rest] by auto

lemma split_elements_concat: "split_elements cbs = Some es \<Longrightarrow> concat es = cbs"
proof (induction cbs arbitrary: es rule: split_elements.induct)
  case (1 cbs)
  show ?case
  proof (cases "cbs = []")
    case False
    then obtain e tag hlen rest es' where
      "CBS_get_any_asn1_element cbs = (Some (e, tag, hlen), rest)" "length rest < length cbs"
      "split_elements rest = Some es'" "es = e # es'"
      using 1(2) by (auto simp: split_elements_step split: prod.splits option.splits if_splits)
    then show ?thesis using 1(1) False any_element_Some by fastforce
  qed (use 1 in simp)
qed

text \<open>The guard that the scan advances never fails.\<close>

lemma split_elements_unguarded:
  "cbs \<noteq> [] \<Longrightarrow> split_elements cbs =
     (case CBS_get_any_asn1_element cbs of
        (None, _) \<Rightarrow> None
      | (Some (e, _, _), rest) \<Rightarrow> map_option ((#) e) (split_elements rest))"
  by (auto simp: split_elements_step dest: any_element_advances split: prod.splits option.splits)

lemma set_of_safe: "safe (CBB_flush_asn1_set_of alloc d)"
  unfolding safe_def
proof
  fix cbb
  obtain r cbb1 where r: "CBB_flush alloc d cbb = (r, cbb1)" by (metis surj_pair)
  then have 1: "cbb_safe cbb cbb1" by (metis flush_safe safe_def snd_conv)
  show "cbb_safe cbb (snd (CBB_flush_asn1_set_of alloc d cbb))"
  proof (cases "\<exists>base. cbb_base cbb = Some base \<and> buf_ok base \<and> r \<noteq> None")
    case False
    then show ?thesis
      using 1 r by (cases r; cases "cbb_base cbb")
        (auto simp: CBB_flush_asn1_set_of_def op_seq_def op_bind_def cbb_safe_def CBB_flush_def)
  next
    case True
    then obtain base1 where b1: "cbb_base cbb1 = Some base1" "buf_ok base1" and r1: "r = Some ()"
      using 1 by (auto simp: cbb_safe_def base_safe_def)
    let ?data = "CBB_data d cbb1"
    let ?cbb2 = "cbb1\<lparr>cbb_base := Some (base1\<lparr>cb_buf := take (cbb_start d cbb1) (cb_buf base1)\<rparr>)\<rparr>"
    have 2: "cbb_safe cbb1 ?cbb2"
      using b1 by (simp add: cbb_safe_def base_safe_def buf_ok_def min.coboundedI1)
    have "safe (add_children alloc d (qsort compare_set_of_element es))"
      if "split_elements ?data = Some es" for es
    proof (rule add_children_safe, rule ballI)
      fix c assume "c \<in> set (qsort compare_set_of_element es)"
      then have "length c \<le> length (concat es)"
        by (simp add: length_concat member_le_sum_list)
      also have "\<dots> < 2 ^ 64"
        using b1 by (auto simp: split_elements_concat [OF that] CBB_data_def buf_ok_def)
      finally show "length c < 2 ^ 64" .
    qed
    then have 3: "cbb_safe cbb1 (snd (add_children alloc d (qsort compare_set_of_element es) ?cbb2))"
      if "split_elements ?data = Some es" for es
      using that cbb_safe_trans [OF 2] by (simp add: safe_def)
    show ?thesis
      using cbb_safe_trans [OF 1 3] 1
      by (simp add: CBB_flush_asn1_set_of_def op_seq_def op_bind_def r r1 b1(1) split: option.splits)
  qed
qed

lemma discard_safe: "cbb_safe cbb (CBB_discard_child d cbb)"
  by (auto simp: CBB_discard_child_def cbb_safe_def base_safe_def buf_ok_def split: option.splits)

lemma call_safe:
  assumes "call_sized c"
  shows "safe (run_call alloc c)"
  using assms
proof (cases c)
  case (Discard_child d)
  then show ?thesis using discard_safe by (simp add: safe_def)
next
  case (Add_space d bs)
  then show ?thesis
    using assms unfolding Add_space run_call.simps CBB_add_space_def by (intro safe_seq) auto
next
  case (Add_asn1_octet_string d bs)
  then show ?thesis
    using assms unfolding Add_asn1_octet_string run_call.simps CBB_add_asn1_octet_string_def
    by (intro safe_seq add_bytes_safe) auto
qed (auto simp: CBB_add_space_def CBB_add_u16_def CBB_add_u24_def CBB_add_u32_def CBB_add_u64_def
    CBB_add_u8_length_prefixed_def CBB_add_u16_length_prefixed_def CBB_add_u24_length_prefixed_def
    CBB_add_asn1_octet_string_def CBB_add_asn1_bool_def
    intro!: add_bytes_safe reserve_call_safe did_write_safe add_u_safe length_prefixed_safe
      add_asn1_int64_safe set_of_safe)

text \<open>(C3) Memory safety of the builder: started on a buffer of \<open>n\<close> bytes the caller owns and that
  may not grow, no sequence of calls on any of its handles, failing or not, ever records more
  bytes than the buffer has room for; the capacity stays \<open>n\<close>.\<close>

theorem CBB_fixed_never_overflows:
  assumes "CBB_init_fixed alloc n = Some cbb0" "n < 2 ^ 64" "cbb_reach alloc cbb0 cbb"
  shows "\<exists>base. cbb_base cbb = Some base \<and> length (cb_buf base) \<le> n \<and> cb_cap base = n"
proof -
  have "\<exists>base0. cbb_base cbb0 = Some base0 \<and> buf_ok base0 \<and> cb_cap base0 = n \<and> \<not> cb_can_resize base0"
    using assms(1, 2) by (auto simp: CBB_init_fixed_def cbb_init_def buf_ok_def split: if_splits)
  then obtain base0 where b0: "cbb_base cbb0 = Some base0" "buf_ok base0" "cb_cap base0 = n"
    "\<not> cb_can_resize base0" by auto
  have "cbb_safe cbb0 cbb"
    using assms(3)
  proof induction
    case (call cbb c)
    then show ?case using call_safe by (metis cbb_safe_trans safe_def)
  qed simp
  then show ?thesis
    using b0 by (auto simp: cbb_safe_def base_safe_def buf_ok_def)
qed

section \<open>What the builder promises\<close>

lemma reach_safe: "cbb_reach alloc cbb0 cbb \<Longrightarrow> cbb_safe cbb0 cbb"
proof (induction rule: cbb_reach.induct)
  case (call cbb c)
  then show ?case using call_safe by (metis cbb_safe_trans safe_def)
qed simp

lemma init_at:
  assumes "CBB_init alloc n = Some cbb0" "n < 2 ^ 64"
  shows "cbb_at cbb0 [] []" and "m < 2 ^ 64 \<Longrightarrow> \<forall>k. alloc k \<Longrightarrow> cbb_fits alloc cbb0 m"
proof -
  have "cbb0 = \<lparr>cbb_base = Some \<lparr>cb_buf = [], cb_cap = n, cb_can_resize = True, cb_error = False\<rparr>,
                cbb_children = []\<rparr>"
    using assms(1) by (simp add: CBB_init_def cbb_init_def CBB_zero_def split: if_splits)
  then show "cbb_at cbb0 [] []" "m < 2 ^ 64 \<Longrightarrow> \<forall>k. alloc k \<Longrightarrow> cbb_fits alloc cbb0 m"
    using assms(2) by (simp_all add: cbb_at_def buf_ok_def cbb_fits_def fits_def)
qed

text \<open>(C4) Errors latch: once a call on a builder has hit an error (an allocation that failed, a
  fixed buffer that is full, a value too long for its length prefix), then whatever calls are
  made next, on whatever handles, \<open>CBB_finish\<close> never hands out the buffer.\<close>

theorem CBB_error_latches:
  assumes "CBB_init alloc n = Some cbb0" "n < 2 ^ 64" "cbb_reach alloc cbb0 cbb"
    and "cbb_latched cbb" "cbb_reach alloc cbb cbb'"
  shows "fst (CBB_finish alloc d out_ptrs cbb') = None"
proof -
  have "cbb_safe cbb0 cbb" "cbb_safe cbb cbb'"
    using assms(3, 5) by (simp_all add: reach_safe)
  moreover have "\<exists>base. cbb_base cbb0 = Some base \<and> buf_ok base"
    using init_at(1) [OF assms(1, 2)] by (auto simp: cbb_at_def)
  ultimately obtain base' where "cbb_base cbb' = Some base'" "cb_error base'"
    using assms(4) by (auto simp: cbb_safe_def cbb_latched_def base_safe_def)
  then have "fst (CBB_flush alloc d cbb') = None"
    by (auto simp: CBB_flush_def cbb_flush.simps)
  then show ?thesis
    by (cases "CBB_flush alloc d cbb'") (auto simp: CBB_finish_def op_seq_def op_bind_def)
qed

theorem CBB_error_latches_witness:
  "fst (CBB_finish (\<lambda>n. n = 32) 0 True
     (snd (run_call (\<lambda>n. n = 32) (Flush 0)
       (snd (run_call (\<lambda>n. n = 32) (Add_u8 0 7) (the (CBB_init (\<lambda>n. n = 32) 0))))))) = None"
proof -
  let ?a = "\<lambda>n :: nat. n = 32"
  let ?init = "\<lparr>cbb_base = Some \<lparr>cb_buf = [], cb_cap = 0, cb_can_resize = True, cb_error = False\<rparr>,
     cbb_children = []\<rparr>"
  have init: "CBB_init ?a 0 = Some ?init" by (simp add: CBB_init_def cbb_init_def CBB_zero_def)
  let ?cbb = "snd (run_call ?a (Add_u8 0 7) ?init)"
  have reach: "cbb_reach ?a ?init ?cbb" by (rule cbb_reach.call [OF cbb_reach.start]) simp
  have latched: "cbb_latched ?cbb"
    by (simp add: cbb_latched_def CBB_add_u8_def cbb_add_u_def CBB_flush_def cbb_flush_Nil op_seq_def
        op_bind_def on_base_def cbb_buffer_add_u_def cbb_buffer_add_def cbb_buffer_reserve_def
        buffer_err_def)
  have "cbb_reach ?a ?cbb (snd (run_call ?a (Flush 0) ?cbb))" by (rule cbb_reach.call [OF cbb_reach.start]) simp
  from CBB_error_latches [OF init _ reach latched this] show ?thesis
    by (simp add: init)
qed

text \<open>(C2) \<open>CBB_flush\<close> refines closing the pending children, innermost first: from a builder with
  bytes \<open>p\<close> and pending children \<open>fs\<close>, a flush of the root that succeeds leaves exactly
  \<open>close_all p fs\<close> and no children, and it fails only if a length does not fit its prefix or
  the result does not fit the buffer, and then the error is latched.\<close>

theorem CBB_flush_closes_children:
  assumes "cbb_rep cbb p fs" "CBB_flush alloc 0 cbb = (r, cbb')"
  shows "case r of
      Some _ \<Rightarrow> cbb_children cbb' = [] \<and> close_all p fs = map_option cb_buf (cbb_base cbb')
    | None \<Rightarrow> cbb_latched cbb'
        \<and> (case close_all p fs of None \<Rightarrow> True | Some c \<Rightarrow> \<not> cbb_fits alloc cbb (length c))"
proof -
  obtain base where b: "cbb_base cbb = Some base" "holds p fs base (cbb_children cbb)"
    using assms(1) by (auto simp: cbb_rep_def)
  obtain q base' cs' where q: "cbb_flush alloc (cbb_children cbb) base = (q, base', cs')"
    by (metis surj_pair)
  have "r = q" "cbb' = cbb\<lparr>cbb_base := Some base', cbb_children := cs'\<rparr>"
    using assms(2) b q by (auto simp: CBB_flush_def)
  then show ?thesis
    using cbb_flush_spec [OF b(2), of alloc] b(1) unfolding q flush_spec_def
    by (auto simp: cbb_latched_def cbb_fits_def split: option.splits)
qed

theorem CBB_flush_closes_children_witness:
  "fst (CBB_flush (\<lambda>_. True) 0
       \<lparr>cbb_base = Some \<lparr>cb_buf = [9, 0, 1, 0, 0, 2, 3], cb_cap = 7, cb_can_resize = True, cb_error = False\<rparr>,
        cbb_children = chain 1 [(Der, [1]), (Fixed 2, [2, 3])]\<rparr>) = Some ()"
proof -
  let ?cbb = "\<lparr>cbb_base = Some \<lparr>cb_buf = [9, 0, 1, 0, 0, 2, 3], cb_cap = 7, cb_can_resize = True,
      cb_error = False\<rparr>, cbb_children = chain 1 [(Der, [1]), (Fixed 2, [2, 3])]\<rparr>"
  have rep: "cbb_rep ?cbb [9] [(Der, [1]), (Fixed 2, [2, 3])]"
    by (simp add: cbb_rep_def holds_def buf_ok_def) (simp add: numeral_2_eq_2)
  have c: "close_all [9] [(Der, [1]), (Fixed 2, [2, 3])] = Some [9, 5, 1, 0, 2, 2, 3]"
    by (simp add: der_length_def numeral_2_eq_2)
  have fits: "cbb_fits (\<lambda>_. True) ?cbb k" if "k < 2 ^ 64" for k
    using that by (simp add: cbb_fits_def fits_def)
  obtain r cbb' where r: "CBB_flush (\<lambda>_. True) 0 ?cbb = (r, cbb')" by (metis surj_pair)
  have "r \<noteq> None"
  proof
    assume none: "r = None"
    have "\<not> cbb_fits (\<lambda>_. True) ?cbb (length [9, 5, 1, 0, 2, 2, 3 :: u8])"
      using CBB_flush_closes_children [OF rep r] unfolding none c by simp
    moreover have "cbb_fits (\<lambda>_. True) ?cbb (length [9, 5, 1, 0, 2, 2, 3 :: u8])"
      by (rule fits) simp
    ultimately show False by (rule notE)
  qed
  then show ?thesis unfolding r by auto
qed

text \<open>Building and finishing.\<close>

lemma finish_at:
  assumes "cbb_at cbb [] b"
  shows "fst (CBB_finish alloc 0 True cbb) = Some b"
  using assms
  by (auto simp: CBB_finish_def CBB_flush_def cbb_at_def op_seq_def op_bind_def cbb_flush_Nil)

lemma build_and_finish_any:
  assumes "CBB_init alloc n = Some cbb0" "n < 2 ^ 64"
    and f: "builds alloc f [] [] () cs b" and flush: "builds alloc (CBB_flush alloc 0) cs b () [] out"
  shows "fst (op_seq f (CBB_finish alloc 0 True) cbb0) = Some out
    \<or> fst (op_seq f (CBB_finish alloc 0 True) cbb0) = None
      \<and> \<not> (length out < 2 ^ 64 \<and> (\<forall>m. alloc m))"
proof -
  have fl: "builds alloc (op_seq f (CBB_flush alloc 0)) [] [] () [] out"
    by (rule builds_seq [OF f flush])
  obtain r cbb1 where r: "op_seq f (CBB_flush alloc 0) cbb0 = (r, cbb1)" by (metis surj_pair)
  have run: "op_seq f (CBB_finish alloc 0 True) cbb0 = op_bind (\<lambda>_. (r, cbb1)) (\<lambda>_ cbb.
             case cbb_base cbb of
               None \<Rightarrow> (None, cbb)
             | Some base \<Rightarrow>
                 (Some (cb_buf base), CBB_cleanup 0 (cbb\<lparr>cbb_base := Some (base\<lparr>cb_buf := []\<rparr>)\<rparr>))) cbb0"
    unfolding r [symmetric]
    by (simp add: op_seq_def op_bind_def CBB_finish_def split: prod.splits option.splits)
  show ?thesis
  proof (cases r)
    case None
    then show ?thesis
      using builds_None [OF fl init_at(1) [OF assms(1, 2)]] r init_at(2) [OF assms(1, 2), of "length out"]
      by (auto simp: run op_bind_def)
  next
    case (Some u)
    then show ?thesis
      using builds_Some [OF fl init_at(1) [OF assms(1, 2)]] r
      by (auto simp: run op_bind_def cbb_at_def)
  qed
qed

lemma build_and_finish:
  assumes "CBB_init alloc n = Some cbb0" "n < 2 ^ 64"
    and "builds alloc f [] [] () cs b" "builds alloc (CBB_flush alloc 0) cs b () [] out"
    and "length out < 2 ^ 64"
  shows "fst (op_seq f (CBB_finish alloc 0 True) cbb0) = Some out
    \<or> fst (op_seq f (CBB_finish alloc 0 True) cbb0) = None \<and> \<not> (\<forall>m. alloc m)"
  using build_and_finish_any [OF assms(1-4)] assms(5) by blast

lemma length_der_element: "length (der_element tag c) \<le> length c + 6 + 1 + byte_len (length c)"
  using length_der_tag [of tag] by (simp add: der_element_def der_header_def der_length_def)

lemma small_element: "length c < 2 ^ 32 \<Longrightarrow> length (der_element tag c) < 2 ^ 33"
  using length_der_element [of tag c] byte_len_le_iff [of "length c" 4] by simp

lemma int_content_small:
  "length (der_nat_bytes (unat (v :: u64))) < 2 ^ 32" "length (der_int_bytes (sint (v :: u64))) < 2 ^ 32"
proof -
  show "length (der_nat_bytes (unat v)) < 2 ^ 32"
    using length_der_nat_bytes [of "unat v"] unat_u64_bound [of v] byte_len_le_iff [of "unat v" 8]
    by simp
  have "asn1_int64_of_bytes (der_int_bytes (sint v)) = Some v"
    by (simp add: asn1_int64_of_bytes_iff)
  then show "length (der_int_bytes (sint v)) < 2 ^ 32"
    by (simp add: asn1_int64_of_bytes_eq split: if_splits)
qed

text \<open>Unsigned integers survive the round trip: what a fresh builder hands out after
  \<open>CBB_add_asn1_uint64\<close> is read back by \<open>CBS_get_asn1_uint64\<close> as the same value, whatever
  follows it; the builder fails only when the allocator refuses.\<close>

theorem CBB_asn1_uint64_round_trip:
  assumes "CBB_init alloc n = Some cbb0" "n < 2 ^ 64"
  shows "case fst (op_seq (CBB_add_asn1_uint64 alloc 0 v) (CBB_finish alloc 0 True) cbb0) of
      None \<Rightarrow> \<exists>m. \<not> alloc m
    | Some out \<Rightarrow> CBS_get_asn1_uint64 (out @ rest) = (Some v, rest)"
proof -
  let ?out = "der_element CBS_ASN1_INTEGER (der_nat_bytes (unat v))"
  have "builds alloc (CBB_add_asn1_uint64 alloc 0 v) [] [] () [] ?out"
    using builds_add_asn1_uint64 [of 0 "[]" alloc v "[]"] by simp
  moreover have "length ?out < 2 ^ 64"
    using small_element [OF int_content_small(1)] by (rule less_trans) simp
  ultimately show ?thesis
    using build_and_finish [OF assms _ builds_flush_idle] by (fastforce simp: CBS_get_asn1_uint64_iff)
qed

text \<open>(C10) Signed integers survive the round trip through \<open>CBB_add_asn1_int64\<close> and
  \<open>CBS_get_asn1_int64\<close>, the most negative one included.\<close>

theorem CBB_asn1_int64_round_trip:
  assumes "CBB_init alloc n = Some cbb0" "n < 2 ^ 64"
  shows "case fst (op_seq (CBB_add_asn1_int64 alloc 0 v) (CBB_finish alloc 0 True) cbb0) of
      None \<Rightarrow> \<exists>m. \<not> alloc m
    | Some out \<Rightarrow> CBS_get_asn1_int64 (out @ rest) = (Some v, rest)"
proof -
  let ?out = "der_element CBS_ASN1_INTEGER (der_int_bytes (sint v))"
  have "builds alloc (CBB_add_asn1_int64 alloc 0 v) [] [] () [] ?out"
    using builds_add_asn1_int64 [of 0 "[]" alloc v "[]"] by simp
  moreover have "length ?out < 2 ^ 64"
    using small_element [OF int_content_small(2)] by (rule less_trans) simp
  ultimately show ?thesis
    using build_and_finish [OF assms _ builds_flush_idle] by (fastforce simp: CBS_get_asn1_int64_iff)
qed

text \<open>The parsers' hypotheses at a concrete builder.\<close>

lemma init_32: "CBB_init (\<lambda>_. True) 32 = Some
    \<lparr>cbb_base = Some \<lparr>cb_buf = [], cb_cap = 32, cb_can_resize = True, cb_error = False\<rparr>,
     cbb_children = []\<rparr>"
  by (simp add: CBB_init_def cbb_init_def CBB_zero_def)

theorem CBB_asn1_uint64_round_trip_witness:
  "case fst (op_seq (CBB_add_asn1_uint64 (\<lambda>_. True) 0 300) (CBB_finish (\<lambda>_. True) 0 True)
      (the (CBB_init (\<lambda>_. True) 32))) of
      None \<Rightarrow> False | Some out \<Rightarrow> CBS_get_asn1_uint64 (out @ [7]) = (Some 300, [7])"
  using CBB_asn1_uint64_round_trip [OF init_32, where v = 300 and rest = "[7]"]
  by (simp add: init_32 split: option.splits)

theorem CBB_asn1_int64_round_trip_witness:
  "case fst (op_seq (CBB_add_asn1_int64 (\<lambda>_. True) 0 (- 129)) (CBB_finish (\<lambda>_. True) 0 True)
      (the (CBB_init (\<lambda>_. True) 32))) of
      None \<Rightarrow> False | Some out \<Rightarrow> CBS_get_asn1_int64 (out @ [7]) = (Some (- 129), [7])"
  using CBB_asn1_int64_round_trip [OF init_32, where v = "- 129" and rest = "[7]"]
  by (simp add: init_32 split: option.splits)

text \<open>(C11) A tagged value survives the round trip: contents written through the child that
  \<open>CBB_add_asn1\<close> opens are what \<open>CBS_get_asn1\<close> finds under the same tag, for every tag (high
  tag numbers included) and every length the format allows; \<open>CBB_finish\<close> closes the child.\<close>

theorem CBB_asn1_element_round_trip:
  assumes "CBB_init alloc n = Some cbb0" "n < 2 ^ 64" "length content \<le> 0xfffffffe"
  shows "case fst (op_seq (CBB_add_asn1 alloc 0 tag)
                  (op_seq (CBB_add_bytes alloc 1 content) (CBB_finish alloc 0 True)) cbb0) of
      None \<Rightarrow> \<exists>m. \<not> alloc m
    | Some out \<Rightarrow> CBS_get_asn1 tag (out @ rest) = (Some content, rest)"
proof -
  let ?child = "\<lparr>ch_offset = length (der_tag tag), ch_pending_len_len = 1, ch_pending_is_asn1 = True\<rparr>"
  let ?out = "der_tag tag @ der_length (length content) @ content"
  have out: "?out = der_element tag content" by (simp add: der_element_def der_header_def)
  have "builds alloc (CBB_add_bytes alloc 1 content) [?child] (der_tag tag @ [0]) () [?child]
      ((der_tag tag @ [0]) @ content)"
    using assms(3) by (intro builds_add_bytes) simp_all
  then have build: "builds alloc (op_seq (CBB_add_asn1 alloc 0 tag) (CBB_add_bytes alloc 1 content))
      [] [] () [?child] (der_tag tag @ [0] @ content)"
    using builds_seq [OF builds_add_asn1 [of 0 "[]" alloc tag "[]"]] by simp
  have close: "builds alloc (CBB_flush alloc 0) [?child] (der_tag tag @ [0] @ content) () [] ?out"
    using builds_flush_child [of 0 "[]" Der content "der_length (length content)" ?child "der_tag tag" alloc]
      assms(3) by simp
  have "length ?out < 2 ^ 64"
    unfolding out using assms(3) by (intro less_trans [OF small_element]) simp_all
  from build_and_finish [OF assms(1, 2) build close this]
  have "fst (op_seq (CBB_add_asn1 alloc 0 tag) (op_seq (CBB_add_bytes alloc 1 content)
          (CBB_finish alloc 0 True)) cbb0) = Some (der_element tag content)
    \<or> fst (op_seq (CBB_add_asn1 alloc 0 tag) (op_seq (CBB_add_bytes alloc 1 content)
          (CBB_finish alloc 0 True)) cbb0) = None \<and> \<not> (\<forall>m. alloc m)"
    unfolding op_seq_assoc out .
  then show ?thesis
    using assms(3) by (elim disjE) (auto simp: CBS_get_asn1_iff)
qed

theorem CBB_asn1_element_round_trip_witness:
  "case fst (op_seq (CBB_add_asn1 (\<lambda>_. True) 0 0x20000105)
          (op_seq (CBB_add_bytes (\<lambda>_. True) 1 [1, 2, 3]) (CBB_finish (\<lambda>_. True) 0 True))
          (the (CBB_init (\<lambda>_. True) 32))) of
      None \<Rightarrow> False | Some out \<Rightarrow> CBS_get_asn1 0x20000105 (out @ [7]) = (Some [1, 2, 3], [7])"
  using CBB_asn1_element_round_trip [OF init_32, where content = "[1, 2, 3]" and tag = "0x20000105"
      and rest = "[7]"]
  by (simp add: init_32 split: option.splits)

theorem CBB_fixed_never_overflows_witness:
  "\<exists>base. cbb_base (snd (run_call (\<lambda>_. True) (Add_u16 0 7) (the (CBB_init_fixed (\<lambda>_. True) 1)))) = Some base
     \<and> length (cb_buf base) \<le> 1 \<and> cb_cap base = 1"
proof -
  let ?init = "\<lparr>cbb_base = Some \<lparr>cb_buf = [], cb_cap = 1, cb_can_resize = False, cb_error = False\<rparr>,
     cbb_children = []\<rparr>"
  have init: "CBB_init_fixed (\<lambda>_. True) 1 = Some ?init"
    by (simp add: CBB_init_fixed_def cbb_init_def CBB_zero_def)
  have "cbb_reach (\<lambda>_. True) ?init (snd (run_call (\<lambda>_. True) (Add_u16 0 7) ?init))"
    by (rule cbb_reach.call [OF cbb_reach.start]) simp
  from CBB_fixed_never_overflows [OF init _ this] show ?thesis
    unfolding init option.sel by simp
qed

section \<open>Sorting a SET OF\<close>

lemma compare_set_of_Cons:
  "compare_set_of_element (a # as) (b # bs)
     = (if a < b then -1 else if b < a then 1 else compare_set_of_element as bs)"
  by (auto simp: compare_set_of_element_def Let_def)

lemma compare_set_of_Nil:
  "compare_set_of_element [] [] = 0" "compare_set_of_element [] (b # bs) = - 1"
  "compare_set_of_element (a # as) [] = 1"
  by (simp_all add: compare_set_of_element_def)

text \<open>The comparison is the lexicographic order of the encodings.\<close>

lemma compare_set_of_le: "compare_set_of_element a b \<le> 0 \<longleftrightarrow> lexordp_eq a b"
proof (induction a arbitrary: b)
  case Nil
  then show ?case by (cases b) (simp_all add: compare_set_of_Nil)
next
  case (Cons x xs)
  then show ?case
    by (cases b) (auto simp: compare_set_of_Nil compare_set_of_Cons)
qed

lemma qsort_set_of_sorted: "sorted_wrt lexordp_eq (qsort compare_set_of_element es)"
proof -
  have "transp (\<lambda>a b. compare_set_of_element a b \<le> 0)"
    unfolding compare_set_of_le by (rule transpI) (rule lexordp_eq_trans)
  then have "sorted_wrt (\<lambda>a b. compare_set_of_element a b \<le> 0) (qsort compare_set_of_element es)"
    by (rule qsort_sorted) (simp add: compare_set_of_le lexordp_eq_linear)
  then show ?thesis by (simp add: compare_set_of_le)
qed

lemma builds_add_children:
  "d = length cs \<Longrightarrow> \<forall>e\<in>set es. length e < 2 ^ 64 \<Longrightarrow>
     builds alloc (add_children alloc d es) cs b () cs (b @ concat es)"
proof (induction es arbitrary: b)
  case (Cons e es)
  have "builds alloc (add_children alloc d (e # es)) cs b () cs ((b @ e) @ concat es)"
    unfolding add_children.simps
    by (rule builds_seq [OF builds_add_bytes Cons.IH]) (use Cons.prems in simp_all)
  then show ?case by simp
qed (simp add: builds_ret)

lemma length_concat_mset: "mset xs = mset ys \<Longrightarrow> length (concat xs) = length (concat ys)"
  by (metis length_concat mset_map sum_mset_sum_list)

text \<open>A buffer that is cut back and refilled with the same elements in another order never runs out of
  space.\<close>

lemma refill_permuted:
  assumes "d = length cs" and base: "cb_buf base = p @ concat es" "buf_ok base" "\<not> cb_error base" and "mset es' = mset es"
  obtains cbb' where "add_children alloc d es' \<lparr>cbb_base = Some (base\<lparr>cb_buf := p\<rparr>), cbb_children = cs\<rparr> = (Some (), cbb')"
    "cbb_at cbb' cs (p @ concat es')"
proof -
  let ?init = "\<lparr>cbb_base = Some (base\<lparr>cb_buf := p\<rparr>), cbb_children = cs\<rparr>"
  have len: "length (concat es') = length (concat es)" by (rule length_concat_mset) (simp add: assms(5))
  have at: "cbb_at ?init cs p" using base by (auto simp: cbb_at_def buf_ok_def)
  have "length e < 2 ^ 64" if "e \<in> set es'" for e
  proof -
    have "length e \<le> length (concat es')" using that by (simp add: length_concat member_le_sum_list)
    then show ?thesis using base len by (simp add: buf_ok_def)
  qed
  then have add: "builds alloc (add_children alloc d es') cs p () cs (p @ concat es')"
    by (intro builds_add_children [OF assms(1)]) blast
  have room: "cbb_fits alloc ?init (length (p @ concat es'))"
    using base len by (simp add: cbb_fits_def fits_def buf_ok_def)
  show thesis
  proof (cases "add_children alloc d es' ?init")
    case (Pair q cbb')
    then have "cbb_at cbb' cs (p @ concat es') \<and> q = Some ()"
      using builds_Some [OF add at] builds_None [OF add at] room by (cases q) auto
    then show thesis using that Pair by simp
  qed
qed

text \<open>(C9) \<open>CBB_flush_asn1_set_of\<close> puts a SET OF in DER order: if the contents of the handle are
  a sequence of DER elements, they are replaced by the same elements in ascending order of
  their encodings, in the same space; if they are not, the builder is left as it was. With
  elements that parse it fails only if the allocator refuses or there are too many of them.\<close>

theorem CBB_flush_asn1_set_of_sorts:
  assumes "cbb_at cbb cs (p @ content)" "d = length cs" "cbb_start d cbb = length p"
    and "CBB_flush_asn1_set_of alloc d cbb = (r, cbb')"
  shows "case split_elements content of
      None \<Rightarrow> r = None \<and> cbb' = cbb
    | Some es \<Rightarrow> if r = None then (\<exists>m. \<not> alloc m) \<or> length es > (2 ^ 64 - 1) div sizeof_CBS
        else \<exists>es'. mset es' = mset es \<and> sorted_wrt lexordp_eq es' \<and> cbb_at cbb' cs (p @ concat es')"
proof -
  obtain base where cbb: "cbb = \<lparr>cbb_base = Some base, cbb_children = cs\<rparr>"
    and base: "cb_buf base = p @ content" "buf_ok base" "\<not> cb_error base"
    using assms(1) by (auto simp: cbb_at_def)
  have flush: "CBB_flush alloc d cbb = (Some (), cbb)"
    using assms(2) base by (simp add: CBB_flush_def cbb cbb_flush_Nil)
  have data: "CBB_data d cbb = content"
    using assms(3) base by (simp add: CBB_data_def cbb)
  show ?thesis
  proof (cases "split_elements content")
    case None
    then show ?thesis
      using assms(4) flush data by (simp add: CBB_flush_asn1_set_of_def op_seq_def op_bind_def)
  next
    case (Some es)
    note content = split_elements_concat [OF Some]
    let ?sorted = "qsort compare_set_of_element es"
    let ?init = "cbb\<lparr>cbb_base := Some (base\<lparr>cb_buf := p\<rparr>)\<rparr>"
    have run: "(r, cbb') =
        (if length es < 2 then (Some (), cbb)
         else if length es > (2 ^ 64 - 1) div sizeof_CBS then (None, cbb)
         else if \<not> alloc (CBB_len d cbb) \<or> \<not> alloc (length es * sizeof_CBS) then (None, cbb)
         else add_children alloc d ?sorted ?init)"
    proof -
      have "cbb_base cbb = Some base" "take (cbb_start d cbb) (cb_buf base) = p"
        using assms(3) base by (simp_all add: cbb)
      then show ?thesis
        by (simp only: assms(4) [symmetric] CBB_flush_asn1_set_of_def op_seq_def op_bind_def flush
            prod.case option.case data Some)
    qed
    obtain cbb2 where "add_children alloc d ?sorted ?init = (Some (), cbb2)" "cbb_at cbb2 cs (p @ concat ?sorted)"
      using refill_permuted [OF assms(2) base(1) [folded content] base(2,3), of ?sorted alloc] by (auto simp: cbb)
    moreover have "length es < 2 \<Longrightarrow> sorted_wrt lexordp_eq es"
      by (cases es rule: list.exhaust) auto
    ultimately show ?thesis
      using run Some assms(1) content qsort_set_of_sorted [of es]
      by (simp split: if_splits) (metis mset_qsort)+
  qed
qed

lemma split_two_integers: "split_elements [2, 1, 5, 2, 1, 3] = Some [[2, 1, 5], [2, 1, 3]]"
  by code_simp

theorem CBB_flush_asn1_set_of_sorts_witness:
  "\<exists>es'. mset es' = mset [[2, 1, 5], [2, 1, 3]] \<and> sorted_wrt lexordp_eq es'
    \<and> cbb_at (snd (CBB_flush_asn1_set_of (\<lambda>_. True) 0
        \<lparr>cbb_base = Some \<lparr>cb_buf = [2, 1, 5, 2, 1, 3], cb_cap = 8, cb_can_resize = True,
          cb_error = False\<rparr>, cbb_children = []\<rparr>)) [] ([] @ concat es')"
proof -
  let ?cbb = "\<lparr>cbb_base = Some \<lparr>cb_buf = [2, 1, 5, 2, 1, 3], cb_cap = 8, cb_can_resize = True,
      cb_error = False\<rparr>, cbb_children = []\<rparr>"
  obtain r cbb' where r: "CBB_flush_asn1_set_of (\<lambda>_. True) 0 ?cbb = (r, cbb')" by (metis surj_pair)
  have at: "cbb_at ?cbb [] ([] @ [2, 1, 5, 2, 1, 3])" by (simp add: cbb_at_def buf_ok_def)
  have start: "cbb_start 0 ?cbb = length ([] :: bytes)" by (simp add: cbb_start_def)
  show ?thesis
    using CBB_flush_asn1_set_of_sorts [OF at _ start r] unfolding r
    by (simp add: split_two_integers sizeof_CBS_def split: if_splits)
qed

end
