(* ===== verification/Oid.thy ===== *)
theory Oid
  imports Cbb
begin

unbundle bit_operations_syntax

text \<open>
  Object identifiers: the dotted-decimal text of crypto/bytestring/cbb.c
  (\<open>parse_dotted_decimal\<close>, \<open>CBB_add_asn1_oid_from_text\<close>) and the printer of cbs.c
  (\<open>add_decimal\<close>, \<open>CBS_asn1_oid_to_text\<close>). Each direction is specified against the abstract
  identifier, a list of numbers, and the two are shown to be inverse of each other.
\<close>

section \<open>Text to contents octets\<close>

fun parse_decimal_loop :: "u64 \<Rightarrow> bool \<Rightarrow> (cbs, u64) opn" where
  "parse_decimal_loop out seen_digit [] = (if seen_digit then Some out else None, [])"
| "parse_decimal_loop out seen_digit (u # cbs) =
     (if u = 0x2e \<and> length cbs > 0 then (if seen_digit then Some out else None, cbs)
      else if u < 0x30 \<or> u > 0x39 \<or> (seen_digit \<and> out = 0) \<or> out > 0xffffffffffffffff div 10
              \<or> out * 10 > 0xffffffffffffffff - ucast (u - 0x30)
      then (None, cbs)
      else parse_decimal_loop (out * 10 + ucast (u - 0x30)) True cbs)"

definition parse_dotted_decimal :: "(cbs, u64) opn" where
  "parse_dotted_decimal = parse_decimal_loop 0 False"

lemma parse_decimal_loop_length:
  "length (snd (parse_decimal_loop out seen cbs)) \<le> length cbs"
  by (induction out seen cbs rule: parse_decimal_loop.induct) auto

lemma parse_dotted_decimal_length:
  "parse_dotted_decimal cbs = (Some v, cbs') \<Longrightarrow> length cbs' < length cbs"
proof (cases cbs)
  case (Cons u us)
  assume "parse_dotted_decimal cbs = (Some v, cbs')"
  then show ?thesis
    using Cons parse_decimal_loop_length [of "ucast (u - 0x30)" True us]
    by (auto simp: parse_dotted_decimal_def split: if_splits)
qed (simp add: parse_dotted_decimal_def)

function add_oid_rest :: "allocator \<Rightarrow> nat \<Rightarrow> cbs \<Rightarrow> (cbb, unit) opn" where
  "add_oid_rest alloc d cbs cbb =
     (if length cbs > 0
      then case parse_dotted_decimal cbs of
             (None, _) \<Rightarrow> (None, cbb)
           | (Some a, cbs) \<Rightarrow>
               (case add_base128_integer alloc d a cbb of
                  (None, cbb) \<Rightarrow> (None, cbb)
                | (Some _, cbb) \<Rightarrow> add_oid_rest alloc d cbs cbb)
      else (Some (), cbb))"
  by pat_completeness auto

termination
  by (relation "measure (\<lambda>(_, _, cbs, _). length cbs)") (auto intro: parse_dotted_decimal_length [OF sym])

declare add_oid_rest.simps [simp del]

definition CBB_add_asn1_oid_from_text :: "allocator \<Rightarrow> nat \<Rightarrow> bytes \<Rightarrow> (cbb, unit) opn" where
  "CBB_add_asn1_oid_from_text alloc d text =
     op_seq (CBB_flush alloc d)
       (case parse_dotted_decimal (CBS_init text) of
          (None, _) \<Rightarrow> op_fail
        | (Some a, cbs) \<Rightarrow>
            (case parse_dotted_decimal cbs of
               (None, _) \<Rightarrow> op_fail
             | (Some b, cbs) \<Rightarrow>
                 if a > 2 \<or> (a < 2 \<and> b > 39) \<or> b > 0xffffffffffffffff - 80 then op_fail
                 else op_seq (add_base128_integer alloc d (40 * a + b)) (add_oid_rest alloc d cbs)))"

section \<open>Contents octets to text\<close>

text \<open>\<open>decimal\<close> is the conversion \<open>%PRIu64\<close> of the formatted output.\<close>

fun decimal :: "nat \<Rightarrow> bytes" where
  "decimal n = (if n < 10 then [of_nat (48 + n)] else decimal (n div 10) @ [of_nat (48 + n mod 10)])"

declare decimal.simps [simp del]

definition add_decimal :: "allocator \<Rightarrow> nat \<Rightarrow> u64 \<Rightarrow> (cbb, unit) opn" where
  "add_decimal alloc d v = CBB_add_bytes alloc d (decimal (unat v))"

lemma parse_base128_loop_length:
  "parse_base128_loop acc cbs = (Some v, cbs') \<Longrightarrow> length cbs' < length cbs"
  by (induction acc cbs rule: parse_base128_loop.induct) (fastforce simp: Let_def split: if_splits)+

lemma parse_base128_integer_length:
  "parse_base128_integer cbs = (Some v, cbs') \<Longrightarrow> length cbs' < length cbs"
  unfolding parse_base128_integer_def by (rule parse_base128_loop_length)

function oid_text_loop :: "allocator \<Rightarrow> cbs \<Rightarrow> (cbb, unit) opn" where
  "oid_text_loop alloc copy cbb =
     (if length copy \<noteq> 0
      then case parse_base128_integer copy of
             (None, _) \<Rightarrow> (None, cbb)
           | (Some v, copy) \<Rightarrow>
               (case op_seq (CBB_add_u8 alloc 0 0x2e) (add_decimal alloc 0 v) cbb of
                  (None, cbb) \<Rightarrow> (None, cbb)
                | (Some _, cbb) \<Rightarrow> oid_text_loop alloc copy cbb)
      else (Some (), cbb))"
  by pat_completeness auto

termination
  by (relation "measure (\<lambda>(_, copy, _). length copy)") (auto intro: parse_base128_integer_length [OF sym])

declare oid_text_loop.simps [simp del]

definition CBS_asn1_oid_to_text :: "allocator \<Rightarrow> cbs \<Rightarrow> bytes option" where
  "CBS_asn1_oid_to_text alloc cbs =
     (case CBB_init alloc 32 of
        None \<Rightarrow> None
      | Some cbb \<Rightarrow>
          (case parse_base128_integer cbs of
             (None, _) \<Rightarrow> None
           | (Some v, copy) \<Rightarrow>
               fst (op_seq
                 (if v \<ge> 80
                  then op_seq (CBB_add_bytes alloc 0 [0x32, 0x2e]) (add_decimal alloc 0 (v - 80))
                  else op_seq (add_decimal alloc 0 (v div 40))
                         (op_seq (CBB_add_u8 alloc 0 0x2e) (add_decimal alloc 0 (v mod 40))))
                 (op_seq (oid_text_loop alloc copy)
                   (op_seq (CBB_add_u8 alloc 0 0) (CBB_finish alloc 0 True))) cbb)))"

section \<open>The abstract identifier\<close>

fun oid_ok :: "nat list \<Rightarrow> bool" where
  "oid_ok (a # b # rest) \<longleftrightarrow>
     a \<le> 2 \<and> (a < 2 \<longrightarrow> b \<le> 39) \<and> 40 * a + b < 2 ^ 64 \<and> (\<forall>v\<in>set rest. v < 2 ^ 64)"
| "oid_ok _ = False"

fun oid_der :: "nat list \<Rightarrow> bytes" where
  "oid_der (a # b # rest) = base128 (40 * a + b) @ concat (map base128 rest)"
| "oid_der _ = []"

definition dotted :: "nat list \<Rightarrow> bytes" where
  "dotted vs = concat (map (\<lambda>v. 0x2e # decimal v) vs)"

definition oid_text :: "nat list \<Rightarrow> bytes" where
  "oid_text vs = tl (dotted vs)"

lemma dotted_simps [simp]: "dotted [] = []" "dotted (v # vs) = 0x2e # decimal v @ dotted vs"
  by (simp_all add: dotted_def)

section \<open>Decimal numbers\<close>

lemma decimal_small: "n < 10 \<Longrightarrow> decimal n = [of_nat (48 + n)]"
  by (simp add: decimal.simps)

lemma decimal_step: "10 \<le> n \<Longrightarrow> decimal n = decimal (n div 10) @ [of_nat (48 + n mod 10)]"
  by (subst decimal.simps) simp

lemma decimal_snoc: "n \<noteq> 0 \<Longrightarrow> m < 10 \<Longrightarrow> decimal (n * 10 + m) = decimal n @ [of_nat (48 + m)]"
  by (subst decimal_step) simp_all

lemma decimal_not_Nil [simp]: "decimal n \<noteq> []"
  by (subst decimal.simps) simp

lemma unat_digit: "m < 10 \<Longrightarrow> unat (of_nat (48 + m) :: u8) = 48 + m"
  by (simp add: unat_of_nat del: of_nat_add)

lemma digit_iff:
  "\<not> (u < 0x30 \<or> u > (0x39 :: u8)) \<longleftrightarrow> (\<exists>m < 10. u = of_nat (48 + m))"
proof
  assume "\<not> (u < 0x30 \<or> u > 0x39)"
  then have "48 \<le> unat u" "unat u \<le> 57" by (simp_all add: word_less_nat_alt not_less)
  then show "\<exists>m < 10. u = of_nat (48 + m)"
    by (intro exI [of _ "unat u - 48"]) (simp add: word_unat_eq_iff del: of_nat_add)
next
  assume "\<exists>m < 10. u = of_nat (48 + m)"
  then obtain m where m: "m < 10" "u = of_nat (48 + m)" by auto
  then have "unat u = 48 + m" using unat_digit by simp
  with m(1) show "\<not> (u < 0x30 \<or> u > 0x39)" by (simp add: word_less_nat_alt)
qed

lemma digit_value:
  assumes "m < 10"
  shows "unat (ucast (of_nat (48 + m) - 0x30 :: u8) :: u64) = m"
proof -
  have "of_nat (48 + m) - 0x30 = (of_nat m :: u8)" by simp
  then show ?thesis
    using assms by (simp add: unsigned_ucast_eq unat_of_nat take_bit_nat_eq_self)
qed

text \<open>One step of the parser on a digit: the overflow checks are exact.\<close>

lemma parse_decimal_digit:
  assumes "m < 10"
  shows "parse_decimal_loop out seen (of_nat (48 + m) # cbs) =
    (if seen \<and> out = 0 \<or> \<not> unat out * 10 + m < 2 ^ 64 then (None, cbs)
     else parse_decimal_loop (of_nat (unat out * 10 + m)) True cbs)"
proof -
  let ?u = "of_nat (48 + m) :: u8" and ?d = "ucast (of_nat (48 + m) - 0x30 :: u8) :: u64"
  have u: "\<not> (?u < 0x30 \<or> ?u > 0x39)" using assms digit_iff by blast
  have dot: "?u \<noteq> 0x2e"
  proof
    assume eq: "?u = 0x2e"
    show False using unat_digit [OF assms, unfolded eq] by simp
  qed
  have d: "unat ?d = m" by (rule digit_value [OF assms])
  have guard: "(out > 0xffffffffffffffff div 10 \<or> out * 10 > 0xffffffffffffffff - ?d)
      \<longleftrightarrow> \<not> unat out * 10 + m < 2 ^ 64"
  proof (cases "unat out \<le> (2 ^ 64 - 1) div 10")
    case True
    then have "unat (out * 10) = unat out * 10"
      by (simp add: unat_word_ariths)
    moreover have "unat (0xffffffffffffffff - ?d) = 2 ^ 64 - 1 - m"
      using assms d by (subst unat_sub) (simp_all add: word_le_nat_alt)
    ultimately show ?thesis
      using True assms by (auto simp: word_less_nat_alt)
  next
    case False
    then show ?thesis using assms by (auto simp: word_less_nat_alt)
  qed
  have next_out: "out * 10 + ?d = of_nat (unat out * 10 + m)"
  proof -
    have "?d = of_nat (unat ?d)" by (simp only: of_nat_unat ucast_id)
    then have "?d = of_nat m" unfolding d .
    then show ?thesis by simp
  qed
  show ?thesis
    unfolding parse_decimal_loop.simps using u dot guard next_out by auto
qed

lemma parse_decimal_prefix:
  "n < 2 ^ 64 \<Longrightarrow> parse_decimal_loop 0 False (decimal n @ cbs) = parse_decimal_loop (of_nat n) True cbs"
proof (induction n arbitrary: cbs rule: decimal.induct)
  case (1 n)
  show ?case
  proof (cases "n < 10")
    case True
    then show ?thesis
      using parse_decimal_digit [OF True, of 0 False cbs] by (simp add: decimal_small)
  next
    case False
    let ?q = "n div 10" and ?m = "n mod 10"
    have q: "?q < 2 ^ 64" "?q \<noteq> 0" using 1(2) False by (auto simp: div_eq_0_iff intro: le_less_trans [OF div_le_dividend])
    have u: "unat (of_nat ?q :: u64) = ?q" using q by (simp add: unat_of_nat)
    have nz: "(of_nat ?q :: u64) \<noteq> 0" using q u by (metis unat_0)
    have "parse_decimal_loop 0 False (decimal n @ cbs)
        = parse_decimal_loop 0 False (decimal ?q @ of_nat (48 + ?m) # cbs)"
      using False by (simp add: decimal_step)
    also have "\<dots> = parse_decimal_loop (of_nat ?q) True (of_nat (48 + ?m) # cbs)"
      using 1(1) False q by blast
    also have "\<dots> = parse_decimal_loop (of_nat n) True cbs"
      using nz 1(2)
      by (subst parse_decimal_digit)
        (simp_all add: u del: of_nat_add of_nat_mult parse_decimal_loop.simps)
    finally show ?thesis .
  qed
qed

lemma parse_decimal_sound:
  "parse_decimal_loop out True cbs = (Some v, rest) \<Longrightarrow>
     \<exists>ds. decimal (unat out) @ ds = decimal (unat v)
        \<and> (cbs = ds \<and> rest = [] \<or> cbs = ds @ 0x2e # rest \<and> rest \<noteq> [])"
proof (induction cbs arbitrary: out)
  case Nil
  then show ?case by simp
next
  case (Cons u cbs)
  show ?case
  proof (cases "u = 0x2e \<and> length cbs > 0")
    case True
    then show ?thesis using Cons.prems by auto
  next
    case False
    then have "\<not> (u < 0x30 \<or> u > 0x39)" using Cons.prems by (auto split: if_splits)
    then obtain m where m: "m < 10" "u = of_nat (48 + m)" using digit_iff by blast
    let ?out = "of_nat (unat out * 10 + m) :: u64"
    from Cons.prems have step: "out \<noteq> 0" "unat out * 10 + m < 2 ^ 64"
      "parse_decimal_loop ?out True cbs = (Some v, rest)"
      unfolding m(2) parse_decimal_digit [OF m(1)] by (auto split: if_splits)
    have "unat ?out = unat out * 10 + m" using step(2) by (simp add: unat_of_nat del: of_nat_add)
    then have "decimal (unat ?out) = decimal (unat out) @ [u]"
      using decimal_snoc [of "unat out" m] step(1) m by (simp add: unat_eq_zero)
    then show ?thesis using Cons.IH [OF step(3)] by (metis append.assoc append_Cons append_Nil)
  qed
qed

lemma parse_dotted_decimal_iff:
  "parse_dotted_decimal cbs = (Some v, rest) \<longleftrightarrow>
     (if rest = [] then cbs = decimal (unat v) else cbs = decimal (unat v) @ 0x2e # rest)"
proof
  assume *: "parse_dotted_decimal cbs = (Some v, rest)"
  then obtain u us where cbs: "cbs = u # us" by (cases cbs) (auto simp: parse_dotted_decimal_def)
  with * have "\<not> (u < 0x30 \<or> u > 0x39)" by (auto simp: parse_dotted_decimal_def split: if_splits)
  then obtain m where m: "m < 10" "u = of_nat (48 + m)" using digit_iff by blast
  have "parse_decimal_loop (of_nat m) True us = (Some v, rest)"
    using * m(1) parse_decimal_digit [OF m(1), of 0 False us]
    by (simp add: parse_dotted_decimal_def cbs m(2) del: of_nat_add)
  moreover have "decimal (unat (of_nat m :: u64)) = [u]"
    using m by (simp add: unat_of_nat decimal_small)
  ultimately show "if rest = [] then cbs = decimal (unat v) else cbs = decimal (unat v) @ 0x2e # rest"
    using parse_decimal_sound cbs by fastforce
next
  assume *: "if rest = [] then cbs = decimal (unat v) else cbs = decimal (unat v) @ 0x2e # rest"
  have v: "unat v < 2 ^ 64" using unat_u64_bound [of v] by simp
  show "parse_dotted_decimal cbs = (Some v, rest)"
    using * parse_decimal_prefix [OF v, of "[]"] parse_decimal_prefix [OF v, of "0x2e # rest"]
    by (simp add: parse_dotted_decimal_def split: if_splits)
qed

section \<open>From text\<close>

lemma parse_tl_dotted:
  assumes "v < 2 ^ 64"
  shows "parse_dotted_decimal (tl (dotted (v # vs))) = (Some (of_nat v), tl (dotted vs))"
proof -
  have "unat (of_nat v :: u64) = v" using assms by (simp add: unat_of_nat)
  then show ?thesis
    by (cases vs) (simp_all add: parse_dotted_decimal_iff)
qed

lemma tl_dotted_Nil: "tl (dotted vs) = [] \<longleftrightarrow> vs = []"
  by (cases vs) simp_all

lemma builds_oid_rest:
  "d = length cs \<Longrightarrow> \<forall>v\<in>set vs. v < 2 ^ 64 \<Longrightarrow>
     builds alloc (add_oid_rest alloc d (tl (dotted vs))) cs p () cs (p @ concat (map base128 vs))"
proof (induction vs arbitrary: p)
  case Nil
  have "add_oid_rest alloc d (tl (dotted [])) = op_ret ()"
    by (rule ext, subst add_oid_rest.simps) (simp add: op_ret_def)
  then show ?case by (simp add: builds_ret)
next
  case (Cons v vs)
  have u: "unat (of_nat v :: u64) = v" using Cons.prems by (simp add: unat_of_nat)
  have "add_oid_rest alloc d (tl (dotted (v # vs)))
      = op_seq (add_base128_integer alloc d (of_nat v)) (add_oid_rest alloc d (tl (dotted vs)))"
    using Cons.prems(2) parse_tl_dotted [of v vs]
    by (intro ext, subst add_oid_rest.simps) (simp add: op_seq_def op_bind_def)
  moreover have "builds alloc
      (op_seq (add_base128_integer alloc d (of_nat v)) (add_oid_rest alloc d (tl (dotted vs)))) cs p ()
      cs ((p @ base128 (unat (of_nat v :: u64))) @ concat (map base128 vs))"
    by (rule builds_seq [OF builds_base128 Cons.IH]) (use Cons.prems in simp_all)
  ultimately show ?case by (simp add: u)
qed

lemma builds_oid_from_text:
  assumes "d = length cs" "oid_ok ids"
  shows "builds alloc (CBB_add_asn1_oid_from_text alloc d (oid_text ids)) cs p () cs (p @ oid_der ids)"
proof -
  obtain a b rest where ids: "ids = a # b # rest"
    using assms(2) by (cases ids rule: oid_ok.cases) auto
  have ok: "a \<le> 2" "a < 2 \<longrightarrow> b \<le> 39" "40 * a + b < 2 ^ 64" "\<forall>v\<in>set rest. v < 2 ^ 64"
    using assms(2) by (simp_all add: ids)
  have ua: "unat (of_nat a :: u64) = a" and ub: "unat (of_nat b :: u64) = b"
    using ok by (simp_all add: unat_of_nat)
  have "40 * of_nat a + of_nat b = (of_nat (40 * a + b) :: u64)" by simp
  then have sum: "unat (40 * of_nat a + of_nat b :: u64) = 40 * a + b"
    using ok(3) by (simp add: unat_of_nat del: of_nat_add of_nat_mult)
  have small: "\<not> (of_nat a :: u64) > 2" "(of_nat a :: u64) < 2 \<longleftrightarrow> a < 2"
      "(of_nat b :: u64) > 39 \<longleftrightarrow> b > 39" "\<not> (of_nat b :: u64) > 0xffffffffffffffff - 80"
    using ok by (auto simp: word_less_nat_alt ua ub)
  have "decimal a @ 0x2e # decimal b @ dotted rest = oid_text ids"
    by (simp add: oid_text_def ids)
  then have 1: "parse_dotted_decimal (CBS_init (oid_text ids))
      = (Some (of_nat a), decimal b @ dotted rest)"
    by (simp add: CBS_init_def parse_dotted_decimal_iff ua)
  have 2: "parse_dotted_decimal (decimal b @ dotted rest) = (Some (of_nat b), tl (dotted rest))"
    using parse_tl_dotted [of b rest] ok ub by simp
  have run: "CBB_add_asn1_oid_from_text alloc d (oid_text ids) =
      op_seq (CBB_flush alloc d)
        (op_seq (add_base128_integer alloc d (40 * of_nat a + of_nat b))
          (add_oid_rest alloc d (tl (dotted rest))))"
    using small ok(2) by (auto simp: CBB_add_asn1_oid_from_text_def 1 2)
  have "builds alloc (CBB_add_asn1_oid_from_text alloc d (oid_text ids)) cs p () cs
      ((p @ base128 (unat (40 * of_nat a + of_nat b :: u64))) @ concat (map base128 rest))"
    unfolding run using ok(4)
    by (intro builds_seq [OF builds_flush_idle] builds_seq [OF builds_base128] builds_oid_rest)
      (simp_all add: assms(1))
  then show ?thesis unfolding sum by (simp add: ids)
qed

text \<open>Whatever the reader of text accepts is the text of an identifier.\<close>

lemma oid_rest_sound:
  "add_oid_rest alloc d cbs cbb = (Some u, cbb') \<Longrightarrow>
     \<exists>vs. (\<forall>v\<in>set vs. v < 2 ^ 64) \<and> cbs = tl (dotted vs)"
proof (induction alloc d cbs cbb rule: add_oid_rest.induct)
  case (1 alloc d cbs cbb)
  show ?case
  proof (cases "cbs = []")
    case True
    then show ?thesis by (intro exI [of _ "[]"]) simp
  next
    case False
    then obtain a cbs' cbb1 where a: "parse_dotted_decimal cbs = (Some a, cbs')"
        "add_base128_integer alloc d a cbb = (Some (), cbb1)"
        "add_oid_rest alloc d cbs' cbb1 = (Some u, cbb')"
      using 1(2) by (subst (asm) add_oid_rest.simps) (auto split: prod.splits option.splits)
    then obtain vs where vs: "\<forall>v\<in>set vs. v < 2 ^ 64" "cbs' = tl (dotted vs)"
      using 1(1) False by fastforce
    have "cbs = tl (dotted (unat a # vs))"
      using a(1) vs(2) by (cases vs) (simp_all add: parse_dotted_decimal_iff)
    then show ?thesis
      using vs(1) unat_u64_bound [of a] by (intro exI [of _ "unat a # vs"]) simp
  qed
qed

lemma oid_from_text_sound:
  assumes "CBB_add_asn1_oid_from_text alloc d text cbb = (Some u, cbb')"
  shows "\<exists>ids. oid_ok ids \<and> text = oid_text ids"
proof -
  obtain a cbs1 b cbs2 cbb1 cbb2 where
    a: "parse_dotted_decimal text = (Some a, cbs1)" and b: "parse_dotted_decimal cbs1 = (Some b, cbs2)"
    and ok: "\<not> (a > 2 \<or> (a < 2 \<and> b > 39) \<or> b > 0xffffffffffffffff - 80)"
    and rest: "add_oid_rest alloc d cbs2 cbb1 = (Some u, cbb')"
    using assms
    by (auto simp: CBB_add_asn1_oid_from_text_def CBS_init_def op_seq_def op_bind_Some_iff op_fail_def
        split: prod.splits option.splits if_splits)
  obtain vs where vs: "\<forall>v\<in>set vs. v < 2 ^ 64" "cbs2 = tl (dotted vs)"
    using oid_rest_sound [OF rest] by blast
  have "cbs1 \<noteq> []" using b by (auto simp: parse_dotted_decimal_def)
  then have "text = decimal (unat a) @ 0x2e # cbs1" using a by (simp add: parse_dotted_decimal_iff)
  moreover have "cbs1 = decimal (unat b) @ dotted vs"
    using b vs(2) by (cases vs) (simp_all add: parse_dotted_decimal_iff)
  ultimately have "text = oid_text (unat a # unat b # vs)" by (simp add: oid_text_def)
  moreover have "oid_ok (unat a # unat b # vs)"
    using ok vs(1) by (auto simp: word_less_nat_alt not_less)
  ultimately show ?thesis by blast
qed

text \<open>(C12) \<open>CBB_add_asn1_oid_from_text\<close> accepts exactly the dotted-decimal texts of object
  identifiers (two or more components, no leading zeros, the first two constrained, every
  component and 40 a + b within 64 bits) and appends the contents octets of the identifier;
  on such a text it fails only if the octets do not fit, with the error latched.\<close>

theorem CBB_add_asn1_oid_from_text_spec:
  assumes "cbb_at cbb cs p" "d = length cs"
    and "CBB_add_asn1_oid_from_text alloc d text cbb = (r, cbb')"
  shows "case r of
      Some _ \<Rightarrow> \<exists>ids. oid_ok ids \<and> text = oid_text ids \<and> cbb_at cbb' cs (p @ oid_der ids)
    | None \<Rightarrow> \<forall>ids. oid_ok ids \<and> text = oid_text ids \<longrightarrow>
        cbb_latched cbb' \<and> \<not> cbb_fits alloc cbb (length (p @ oid_der ids))"
proof (cases r)
  case None
  then show ?thesis
    using builds_None [OF builds_oid_from_text [OF assms(2)] assms(1)] assms(3) by auto
next
  case (Some u)
  then obtain ids where ids: "oid_ok ids" "text = oid_text ids"
    using oid_from_text_sound assms(3) by blast
  then show ?thesis
    using builds_Some [OF builds_oid_from_text [OF assms(2) ids(1)] assms(1)] assms(3) Some by auto
qed

section \<open>To text\<close>

lemma builds_decimal:
  "d = length cs \<Longrightarrow> length (decimal (unat v)) < 2 ^ 64 \<Longrightarrow>
     builds alloc (add_decimal alloc d v) cs p () cs (p @ decimal (unat v))"
  unfolding add_decimal_def by (rule builds_add_bytes)

lemma length_decimal: "n < 10 ^ Suc k \<Longrightarrow> length (decimal n) \<le> Suc k"
proof (induction k arbitrary: n)
  case (Suc k)
  show ?case
  proof (cases "n < 10")
    case False
    then have "length (decimal (n div 10)) \<le> Suc k"
      using Suc by (intro Suc.IH) (simp add: div_less_iff_less_mult)
    then show ?thesis using False by (simp add: decimal_step)
  qed (simp add: decimal_small)
qed (simp add: decimal_small)

lemma length_decimal_u64: "length (decimal (unat (v :: u64))) < 2 ^ 64"
  using length_decimal [of "unat v" 19] unat_u64_bound [of v] by simp

lemma builds_oid_text_loop:
  "\<forall>v\<in>set vs. v < 2 ^ 64 \<Longrightarrow>
     builds alloc (oid_text_loop alloc (concat (map base128 vs))) [] p () [] (p @ dotted vs)"
proof (induction vs arbitrary: p)
  case Nil
  have "oid_text_loop alloc [] = op_ret ()"
    by (rule ext, subst oid_text_loop.simps) (simp add: op_ret_def)
  then show ?case by (simp add: builds_ret)
next
  case (Cons v vs)
  have u: "unat (of_nat v :: u64) = v" using Cons.prems by (simp add: unat_of_nat)
  have "parse_base128_integer (base128 v @ concat (map base128 vs)) = (Some (of_nat v), concat (map base128 vs))"
    by (simp add: parse_base128_integer_iff u)
  then have "oid_text_loop alloc (concat (map base128 (v # vs)))
      = op_seq (op_seq (CBB_add_u8 alloc 0 0x2e) (add_decimal alloc 0 (of_nat v)))
          (oid_text_loop alloc (concat (map base128 vs)))"
    by (intro ext, subst oid_text_loop.simps) (simp add: op_seq_def op_bind_def)
  moreover have "builds alloc
      (op_seq (op_seq (CBB_add_u8 alloc 0 0x2e) (add_decimal alloc 0 (of_nat v)))
         (oid_text_loop alloc (concat (map base128 vs)))) [] p () []
      (((p @ [0x2e]) @ decimal (unat (of_nat v :: u64))) @ dotted vs)"
    using Cons.prems
    by (intro builds_seq [OF builds_seq [OF builds_add_u8 builds_decimal] Cons.IH] length_decimal_u64)
      simp_all
  ultimately show ?case by (simp add: u)
qed

lemma oid_text_loop_sound:
  "oid_text_loop alloc copy cbb = (Some u, cbb') \<Longrightarrow>
     \<exists>vs. (\<forall>v\<in>set vs. v < 2 ^ 64) \<and> copy = concat (map base128 vs)"
proof (induction alloc copy cbb rule: oid_text_loop.induct)
  case (1 alloc copy cbb)
  show ?case
  proof (cases "copy = []")
    case True
    then show ?thesis by (intro exI [of _ "[]"]) simp
  next
    case False
    then obtain v copy' cbb1 where v: "parse_base128_integer copy = (Some v, copy')"
        "op_seq (CBB_add_u8 alloc 0 0x2e) (add_decimal alloc 0 v) cbb = (Some (), cbb1)"
        "oid_text_loop alloc copy' cbb1 = (Some u, cbb')"
      using 1(2) by (subst (asm) oid_text_loop.simps) (auto split: prod.splits option.splits)
    then obtain vs where vs: "\<forall>v\<in>set vs. v < 2 ^ 64" "copy' = concat (map base128 vs)"
      using 1(1) False by fastforce
    then have "copy = concat (map base128 (unat v # vs))"
      using v(1) by (simp add: parse_base128_integer_iff)
    then show ?thesis
      using vs(1) unat_u64_bound [of v] by (intro exI [of _ "unat v # vs"]) simp
  qed
qed

text \<open>The split of the first subidentifier into the first two components.\<close>

definition split_first :: "nat \<Rightarrow> nat \<times> nat" where
  "split_first v = (if v \<ge> 80 then (2, v - 80) else (v div 40, v mod 40))"

lemma split_first_ok:
  assumes "v < 2 ^ 64" "split_first v = (a, b)"
  shows "a \<le> 2 \<and> (a < 2 \<longrightarrow> b \<le> 39) \<and> 40 * a + b = v"
proof (cases "v \<ge> 80")
  case False
  then have "v div 40 < 2" by (simp add: div_less_iff_less_mult)
  moreover have "v mod 40 \<le> 39" using mod_less_divisor [of 40 v] by linarith
  ultimately show ?thesis using assms(2) False by (auto simp: split_first_def)
qed (use assms in \<open>auto simp: split_first_def\<close>)

lemma split_first_sum:
  assumes "a \<le> 2" "a < 2 \<longrightarrow> b \<le> 39"
  shows "split_first (40 * a + b) = (a, b)"
proof -
  consider "a = 0" "b \<le> 39" | "a = 1" "b \<le> 39" | "a = 2" using assms by linarith
  then show ?thesis by cases (auto simp: split_first_def div_eq_0_iff)
qed

lemma builds_oid_first:
  assumes "split_first (unat v) = (a, b)"
  shows "builds alloc
     (if v \<ge> 80
      then op_seq (CBB_add_bytes alloc 0 [0x32, 0x2e]) (add_decimal alloc 0 (v - 80))
      else op_seq (add_decimal alloc 0 (v div 40))
             (op_seq (CBB_add_u8 alloc 0 0x2e) (add_decimal alloc 0 (v mod 40))))
     [] p () [] (p @ decimal a @ 0x2e # decimal b)"
proof (cases "v \<ge> 80")
  case True
  then have 80: "80 \<le> unat v" by (simp add: word_le_nat_alt)
  then have sub: "unat (v - 80) = unat v - 80" using True by (simp add: unat_sub)
  have "builds alloc (op_seq (CBB_add_bytes alloc 0 [0x32, 0x2e]) (add_decimal alloc 0 (v - 80)))
      [] p () [] ((p @ [0x32, 0x2e]) @ decimal (unat (v - 80)))"
    by (intro builds_seq [OF builds_add_bytes builds_decimal] length_decimal_u64) simp_all
  then show ?thesis
    using assms True 80 by (auto simp: split_first_def sub decimal_small)
next
  case False
  then have 80: "\<not> 80 \<le> unat v" by (simp add: word_le_nat_alt)
  have "builds alloc (op_seq (add_decimal alloc 0 (v div 40))
             (op_seq (CBB_add_u8 alloc 0 0x2e) (add_decimal alloc 0 (v mod 40))))
      [] p () [] (((p @ decimal (unat (v div 40))) @ [0x2e]) @ decimal (unat (v mod 40)))"
    by (intro builds_seq [OF builds_decimal builds_seq [OF builds_add_u8 builds_decimal]]
        length_decimal_u64) simp_all
  then show ?thesis
    using assms False 80 by (auto simp: split_first_def unat_div unat_mod)
qed

lemma op_seq_first: "fst (op_seq f g s) = Some x \<Longrightarrow> \<exists>u s'. f s = (Some u, s') \<and> fst (g s') = Some x"
  by (auto simp: op_seq_def op_bind_def split: prod.splits option.splits)

lemma oid_to_text_complete:
  assumes "oid_ok ids"
  shows "CBS_asn1_oid_to_text alloc (oid_der ids) = Some (oid_text ids @ [0])
    \<or> CBS_asn1_oid_to_text alloc (oid_der ids) = None
      \<and> \<not> (length (oid_text ids @ [0]) < 2 ^ 64 \<and> (\<forall>m. alloc m))"
proof (cases "CBB_init alloc 32")
  case None
  then have "\<not> (\<forall>m. alloc m)" by (auto simp: CBB_init_def cbb_init_def split: if_splits)
  then show ?thesis using None by (simp add: CBS_asn1_oid_to_text_def)
next
  case (Some cbb0)
  obtain a b rest where ids: "ids = a # b # rest"
    using assms by (cases ids rule: oid_ok.cases) auto
  have ok: "a \<le> 2" "a < 2 \<longrightarrow> b \<le> 39" "40 * a + b < 2 ^ 64" "\<forall>v\<in>set rest. v < 2 ^ 64"
    using assms by (simp_all add: ids)
  let ?v = "of_nat (40 * a + b) :: u64"
  have v: "unat ?v = 40 * a + b" using ok(3) by (simp add: unat_of_nat del: of_nat_add of_nat_mult)
  have parse: "parse_base128_integer (oid_der ids) = (Some ?v, concat (map base128 rest))"
    by (simp only: parse_base128_integer_iff v) (simp add: ids)
  define first where "first =
     (if ?v \<ge> 80
      then op_seq (CBB_add_bytes alloc 0 [0x32, 0x2e]) (add_decimal alloc 0 (?v - 80))
      else op_seq (add_decimal alloc 0 (?v div 40))
             (op_seq (CBB_add_u8 alloc 0 0x2e) (add_decimal alloc 0 (?v mod 40))))"
  define body where
    "body = op_seq first (op_seq (oid_text_loop alloc (concat (map base128 rest))) (CBB_add_u8 alloc 0 0))"
  have "builds alloc first [] [] () [] ([] @ decimal a @ 0x2e # decimal b)"
    unfolding first_def using ok by (intro builds_oid_first) (simp only: v split_first_sum)
  then have "builds alloc body [] [] () []
      ((([] @ decimal a @ 0x2e # decimal b) @ dotted rest) @ [0])"
    unfolding body_def
    by (rule builds_seq [OF _ builds_seq [OF builds_oid_text_loop builds_add_u8]]) (use ok in simp_all)
  then have body: "builds alloc body [] [] () [] (oid_text ids @ [0])"
    by (simp add: oid_text_def ids)
  have run: "CBS_asn1_oid_to_text alloc (oid_der ids) = fst (op_seq body (CBB_finish alloc 0 True) cbb0)"
    unfolding CBS_asn1_oid_to_text_def Some parse body_def first_def op_seq_assoc by simp
  show ?thesis
    unfolding run by (rule build_and_finish_any [OF Some _ body builds_flush_idle]) simp_all
qed

lemma oid_to_text_sound:
  assumes "CBS_asn1_oid_to_text alloc cbs = Some txt"
  shows "\<exists>ids. oid_ok ids \<and> cbs = oid_der ids"
proof -
  obtain v copy cbb1 cbb2 u where v: "parse_base128_integer cbs = (Some v, copy)"
    and loop: "oid_text_loop alloc copy cbb1 = (Some u, cbb2)"
    using assms
    by (auto simp: CBS_asn1_oid_to_text_def split: option.splits prod.splits dest!: op_seq_first)
  obtain vs where vs: "\<forall>v\<in>set vs. v < 2 ^ 64" "copy = concat (map base128 vs)"
    using oid_text_loop_sound [OF loop] by blast
  obtain a b where ab: "split_first (unat v) = (a, b)" by (metis surj_pair)
  have v64: "unat v < 2 ^ 64" using unat_u64_bound [of v] by simp
  note first = split_first_ok [OF v64 ab]
  have "cbs = oid_der (a # b # vs)"
    using v vs(2) first by (simp add: parse_base128_integer_iff)
  moreover have "oid_ok (a # b # vs)" using first vs(1) v64 by simp
  ultimately show ?thesis by blast
qed

text \<open>(C13) \<open>CBS_asn1_oid_to_text\<close> prints exactly the contents octets of object identifiers: what
  it returns is the dotted-decimal text of the identifier the octets encode, NUL-terminated,
  and on such octets it fails only if the allocator refuses (or the text would not fit the
  address space).\<close>

theorem CBS_asn1_oid_to_text_spec:
  "case CBS_asn1_oid_to_text alloc cbs of
      Some txt \<Rightarrow> \<exists>ids. oid_ok ids \<and> cbs = oid_der ids \<and> txt = oid_text ids @ [0]
    | None \<Rightarrow> \<nexists>ids. oid_ok ids \<and> cbs = oid_der ids \<and> length (oid_text ids @ [0]) < 2 ^ 64
        \<and> (\<forall>m. alloc m)"
proof (cases "CBS_asn1_oid_to_text alloc cbs")
  case None
  have False if "oid_ok ids" "cbs = oid_der ids" "length (oid_text ids @ [0]) < 2 ^ 64" "\<forall>m. alloc m" for ids
    using oid_to_text_complete [OF that(1), of alloc] that None by simp
  then show ?thesis using None by auto
next
  case (Some t)
  then obtain ids where "oid_ok ids" "cbs = oid_der ids" using oid_to_text_sound by blast
  then show ?thesis using Some oid_to_text_complete [of ids alloc] by auto
qed

text \<open>Text to octets to text is the identity: if a fresh builder accepts a dotted-decimal
  text and hands out its octets, printing them gives the text back, NUL-terminated (unless an
  allocation fails).\<close>

theorem oid_text_round_trip:
  assumes "CBB_init alloc n = Some cbb0" "n < 2 ^ 64" "length text < 2 ^ 64 - 1"
    and "fst (op_seq (CBB_add_asn1_oid_from_text alloc 0 text) (CBB_finish alloc 0 True) cbb0) = Some out"
  shows "CBS_asn1_oid_to_text alloc out = Some (text @ [0])
    \<or> CBS_asn1_oid_to_text alloc out = None \<and> \<not> (\<forall>m. alloc m)"
proof -
  obtain ids where ids: "oid_ok ids" "text = oid_text ids"
    using op_seq_first [OF assms(4)] oid_from_text_sound by blast
  have "builds alloc (CBB_add_asn1_oid_from_text alloc 0 (oid_text ids)) [] [] () [] ([] @ oid_der ids)"
    by (rule builds_oid_from_text) (simp_all add: ids)
  from build_and_finish_any [OF assms(1, 2) this builds_flush_idle] have "out = oid_der ids"
    using assms(4) by (auto simp: ids)
  then show ?thesis
    using oid_to_text_complete [OF ids(1), of alloc] assms(3) by (auto simp: ids)
qed

lemma oid_1_2_840:
  "oid_ok [1, 2, 840]" "oid_text [1, 2, 840] = [0x31, 0x2e, 0x32, 0x2e, 0x38, 0x34, 0x30]"
  "oid_der [1, 2, 840] = [0x2a, 0x86, 0x48]"
  by (simp_all add: oid_text_def decimal.simps base128_def base128_cont.simps)

lemma run_oid_1_2_840:
  "fst (op_seq (CBB_add_asn1_oid_from_text (\<lambda>_. True) 0 (oid_text [1, 2, 840]))
     (CBB_finish (\<lambda>_. True) 0 True) (the (CBB_init (\<lambda>_. True) 32))) = Some [0x2a, 0x86, 0x48]"
proof -
  have "builds (\<lambda>_. True) (CBB_add_asn1_oid_from_text (\<lambda>_. True) 0 (oid_text [1, 2, 840])) [] [] () []
      ([] @ oid_der [1, 2, 840])"
    by (rule builds_oid_from_text) (simp_all add: oid_1_2_840)
  from build_and_finish_any [OF init_32 _ this builds_flush_idle] show ?thesis
    unfolding oid_1_2_840(3) init_32 option.sel by simp
qed

theorem oid_text_round_trip_witness:
  "CBS_asn1_oid_to_text (\<lambda>_. True) [0x2a, 0x86, 0x48]
     = Some ([0x31, 0x2e, 0x32, 0x2e, 0x38, 0x34, 0x30] @ [0])"
  using oid_text_round_trip [OF init_32 _ _ run_oid_1_2_840 [unfolded init_32 option.sel]]
  unfolding oid_1_2_840(2) by simp

theorem CBB_add_asn1_oid_from_text_spec_witness:
  "\<exists>ids. oid_ok ids \<and> [0x31, 0x2e, 0x32, 0x2e, 0x38, 0x34, 0x30] = oid_text ids
     \<and> cbb_at (snd (CBB_add_asn1_oid_from_text (\<lambda>_. True) 0 [0x31, 0x2e, 0x32, 0x2e, 0x38, 0x34, 0x30]
          (the (CBB_init (\<lambda>_. True) 32)))) [] ([] @ oid_der ids)"
proof -
  let ?cbb = "the (CBB_init (\<lambda>_. True) 32)"
  obtain r cbb' where r:
    "CBB_add_asn1_oid_from_text (\<lambda>_. True) 0 [0x31, 0x2e, 0x32, 0x2e, 0x38, 0x34, 0x30] ?cbb = (r, cbb')"
    by (metis surj_pair)
  have at: "cbb_at ?cbb [] []" by (simp add: init_32 cbb_at_def buf_ok_def)
  note spec = CBB_add_asn1_oid_from_text_spec [OF at _ r, simplified]
  have fits: "cbb_fits (\<lambda>_. True) ?cbb (length ([] @ oid_der [1, 2, 840]))"
    unfolding oid_1_2_840(3) by (simp add: cbb_fits_def fits_def init_32)
  have "r \<noteq> None"
  proof
    assume none: "r = None"
    show False using spec oid_1_2_840(1, 2) fits unfolding none option.case by metis
  qed
  then show ?thesis using spec r by auto
qed

end
