(* ===== verification/Streaming.thy ===== *)
theory Streaming
  imports Prelude
begin

text \<open>
  The interface of an incremental operation: the init/update/final triples of the encoders and
  of the hash functions. \<open>rep s xs\<close> relates a context to the input it has absorbed; the
  provider shows that the initial context has absorbed nothing, that an update absorbs its
  argument (an input of admissible size, \<open>fit\<close>) and that the final call yields the value of
  the whole input. The client's fact is
  that how the input is cut into updates does not matter.
\<close>

locale streaming =
  fixes init :: 's
    and update :: "bytes \<Rightarrow> 's \<Rightarrow> 's"
    and final :: "'s \<Rightarrow> 'o"
    and fit :: "bytes \<Rightarrow> bool"
    and rep :: "'s \<Rightarrow> bytes \<Rightarrow> bool"
    and result :: "bytes \<Rightarrow> 'o"
  assumes rep_init: "rep init []"
    and rep_update: "rep s xs \<Longrightarrow> fit ys \<Longrightarrow> rep (update ys s) (xs @ ys)"
    and rep_final: "rep s xs \<Longrightarrow> final s = result xs"
begin

lemma rep_fold: "rep s xs \<Longrightarrow> \<forall>c\<in>set chunks. fit c \<Longrightarrow> rep (fold update chunks s) (xs @ concat chunks)"
proof (induction chunks arbitrary: s xs)
  case (Cons c cs)
  then show ?case using Cons.IH [OF rep_update [OF Cons.prems(1), of c]] by simp
qed simp

lemma chunked: "\<forall>c\<in>set chunks. fit c \<Longrightarrow> final (fold update chunks init) = result (concat chunks)"
  using rep_final [OF rep_fold [OF rep_init]] by simp

lemma chunking_irrelevant:
  "\<forall>c\<in>set cs1 \<union> set cs2. fit c \<Longrightarrow> concat cs1 = concat cs2
     \<Longrightarrow> final (fold update cs1 init) = final (fold update cs2 init)"
  by (simp add: chunked)

end

end
