(* ===== verification/Base64.thy ===== *)
theory Base64
  imports Internal Streaming
begin

unbundle bit_operations_syntax

text \<open>
  The Base64 coder of crypto/base64/base64.c: the branch-free character conversions, the block
  coder, the line-breaking incremental encoder and the incremental decoder, a state machine
  over the input characters. Output buffers are the byte strings written to them, also by a call
  that fails, without the NUL the encoder appends and does not count; what the call reports in
  \<open>*out_len\<close> is a result of its own.
\<close>

section \<open>Encoding\<close>

definition constant_time_lt_args_8 :: "u8 \<Rightarrow> u8 \<Rightarrow> u8" where
  "constant_time_lt_args_8 a b = ucast (constant_time_msb_w (ucast a - ucast b))"

definition constant_time_in_range_8 :: "u8 \<Rightarrow> u8 \<Rightarrow> u8 \<Rightarrow> u8" where
  "constant_time_in_range_8 a lo hi =
     (let a = a - lo in constant_time_lt_args_8 a (hi - lo + 1))"

definition conv_bin2ascii :: "u8 \<Rightarrow> u8" where
  "conv_bin2ascii a =
     (let a = a AND 0x3f;
          ret = constant_time_select_8 (constant_time_eq_8 (ucast a) 62) 0x2b 0x2f;
          ret = constant_time_select_8 (constant_time_lt_args_8 a 62) (a - 52 + 0x30) ret;
          ret = constant_time_select_8 (constant_time_lt_args_8 a 52) (a - 26 + 0x61) ret;
          ret = constant_time_select_8 (constant_time_lt_args_8 a 26) (a + 0x41) ret
      in ret)"

definition EVP_EncodedLength :: "u64 \<Rightarrow> u64 option" where
  "EVP_EncodedLength len =
     (if len + 2 < len then None
      else let len = (len + 2) div 3
           in if drop_bit 2 (push_bit 2 len) \<noteq> len then None
              else let len = push_bit 2 len
                   in if len + 1 < len then None else Some (len + 1))"

fun EVP_EncodeBlock :: "bytes \<Rightarrow> bytes" where
  "EVP_EncodeBlock [] = []"
| "EVP_EncodeBlock [a] =
     (let l = push_bit 16 (ucast a) :: u32
      in [conv_bin2ascii (ucast (drop_bit 18 l)), conv_bin2ascii (ucast (drop_bit 12 l)), 0x3d, 0x3d])"
| "EVP_EncodeBlock [a, b] =
     (let l = push_bit 16 (ucast a) OR push_bit 8 (ucast b) :: u32
      in [conv_bin2ascii (ucast (drop_bit 18 l)), conv_bin2ascii (ucast (drop_bit 12 l)),
          conv_bin2ascii (ucast (drop_bit 6 l)), 0x3d])"
| "EVP_EncodeBlock (a # b # c # src) =
     (let l = (push_bit 16 (ucast a) OR push_bit 8 (ucast b)) OR ucast c :: u32
      in [conv_bin2ascii (ucast (drop_bit 18 l)), conv_bin2ascii (ucast (drop_bit 12 l)),
          conv_bin2ascii (ucast (drop_bit 6 l)), conv_bin2ascii (ucast l)] @ EVP_EncodeBlock src)"

text \<open>All that the block coder leaves in \<open>dst\<close>: the text, whose length it returns, and a NUL.\<close>

definition EVP_EncodeBlock_dst :: "bytes \<Rightarrow> bytes" where
  "EVP_EncodeBlock_dst src = EVP_EncodeBlock src @ [0]"

record evp_encode_ctx =
  data_used :: nat
  data :: bytes
  eof_seen :: bool
  error_encountered :: bool

abbreviation sizeof_data :: nat where
  "sizeof_data \<equiv> 48"

definition INT_MAX :: nat where
  "INT_MAX = 2 ^ 31 - 1"

definition EVP_EncodeInit :: evp_encode_ctx where
  "EVP_EncodeInit = \<lparr>data_used = 0, data = replicate sizeof_data 0, eof_seen = False,
                     error_encountered = False\<rparr>"

text \<open>Copying \<open>bs\<close> into the context's array at an offset.\<close>

definition data_put :: "nat \<Rightarrow> bytes \<Rightarrow> evp_encode_ctx \<Rightarrow> evp_encode_ctx" where
  "data_put off bs ctx = ctx\<lparr>data := take off (data ctx) @ bs @ drop (off + length bs) (data ctx)\<rparr>"

text \<open>
  The loop over whole lines: what it writes, the input left, and \<open>total\<close>; \<open>None\<close> is the early
  return when \<open>total\<close> would wrap around.
\<close>

function encode_lines :: "nat \<Rightarrow> bytes \<Rightarrow> bytes \<times> (bytes \<times> nat) option" where
  "encode_lines tot inp =
     (if length inp \<ge> sizeof_data
      then let encoded = EVP_EncodeBlock (take sizeof_data inp);
               line = encoded @ [0x0a]
           in if (tot + length encoded + 1) mod 2 ^ 64 < tot then (line, None)
              else let (out, rest) =
                         encode_lines ((tot + length encoded + 1) mod 2 ^ 64) (drop sizeof_data inp)
                   in (line @ out, rest)
      else ([], Some (inp, tot)))"
  by pat_completeness auto

termination by (relation "measure (\<lambda>(_, inp). length inp)") auto

declare encode_lines.simps [simp del]

text \<open>An update returns the value of \<open>*out_len\<close>, the bytes written to \<open>out\<close> and the context.\<close>

definition EVP_EncodeUpdate :: "bytes \<Rightarrow> evp_encode_ctx \<Rightarrow> nat \<times> bytes \<times> evp_encode_ctx" where
  "EVP_EncodeUpdate inp ctx =
     (if length inp = 0 then (0, [], ctx)
      else if sizeof_data - data_used ctx > length inp
      then (0, [], (data_put (data_used ctx) inp ctx)\<lparr>data_used := data_used ctx + length inp\<rparr>)
      else
        let (tot, first, inp, ctx) =
              (if data_used ctx \<noteq> 0
               then let todo = sizeof_data - data_used ctx;
                        ctx = data_put (data_used ctx) (take todo inp) ctx;
                        encoded = EVP_EncodeBlock (data ctx)
                    in (length encoded + 1, encoded @ [0x0a], drop todo inp, ctx\<lparr>data_used := 0\<rparr>)
               else (0, [], inp, ctx))
        in case encode_lines tot inp of
             (out, None) \<Rightarrow> (0, first @ out, ctx)
           | (out, Some (inp, tot)) \<Rightarrow>
               let ctx = (if length inp \<noteq> 0 then data_put 0 inp ctx else ctx)
               in (if tot > INT_MAX then 0 else tot, first @ out,
                   ctx\<lparr>data_used := length inp\<rparr>))"

definition EVP_EncodeFinal :: "evp_encode_ctx \<Rightarrow> nat \<times> bytes \<times> evp_encode_ctx" where
  "EVP_EncodeFinal ctx =
     (if data_used ctx = 0 then (0, [], ctx)
      else let encoded = EVP_EncodeBlock (take (data_used ctx) (data ctx)) @ [0x0a]
           in (length encoded, encoded, ctx\<lparr>data_used := 0\<rparr>))"

section \<open>Decoding\<close>

definition EVP_DecodedLength :: "nat \<Rightarrow> nat option" where
  "EVP_DecodedLength len = (if len mod 4 \<noteq> 0 then None else Some (len div 4 * 3))"

definition EVP_DecodeInit :: evp_encode_ctx where
  "EVP_DecodeInit = \<lparr>data_used = 0, data = replicate sizeof_data 0, eof_seen = False,
                     error_encountered = False\<rparr>"

definition base64_ascii_to_bin :: "u8 \<Rightarrow> u8" where
  "base64_ascii_to_bin a =
     (let is_upper = constant_time_in_range_8 a 0x41 0x5a;
          is_lower = constant_time_in_range_8 a 0x61 0x7a;
          is_digit = constant_time_in_range_8 a 0x30 0x39;
          is_plus = constant_time_eq_8 (ucast a) 0x2b;
          is_slash = constant_time_eq_8 (ucast a) 0x2f;
          is_equals = constant_time_eq_8 (ucast a) 0x3d;
          ret = 0xff;
          ret = constant_time_select_8 is_upper (a - 0x41) ret;
          ret = constant_time_select_8 is_lower (a - 0x61 + 26) ret;
          ret = constant_time_select_8 is_digit (a - 0x30 + 52) ret;
          ret = constant_time_select_8 is_plus 62 ret;
          ret = constant_time_select_8 is_slash 63 ret;
          ret = constant_time_select_8 is_equals 0 ret
      in ret)"

definition base64_decode_quad :: "bytes \<Rightarrow> bytes option" where
  "base64_decode_quad inp =
     (let a = base64_ascii_to_bin (inp ! 0);
          b = base64_ascii_to_bin (inp ! 1);
          c = base64_ascii_to_bin (inp ! 2);
          d = base64_ascii_to_bin (inp ! 3)
      in if a = 0xff \<or> b = 0xff \<or> c = 0xff \<or> d = 0xff then None
         else
           let v = push_bit 18 (ucast a) OR push_bit 12 (ucast b) OR push_bit 6 (ucast c) OR ucast d :: u32;
               padding_pattern =
                 push_bit 3 (of_bool (inp ! 0 = 0x3d)) OR push_bit 2 (of_bool (inp ! 1 = 0x3d))
                 OR push_bit 1 (of_bool (inp ! 2 = 0x3d)) OR of_bool (inp ! 3 = 0x3d) :: u32
           in if padding_pattern = 0
              then Some [ucast (drop_bit 16 v), ucast (drop_bit 8 v), ucast v]
              else if padding_pattern = 1 then Some [ucast (drop_bit 16 v), ucast (drop_bit 8 v)]
              else if padding_pattern = 3 then Some [ucast (drop_bit 16 v)]
              else None)"

text \<open>One character of the decoder's loop: the octets written and the context, or the error.\<close>

definition decode_char :: "u8 \<Rightarrow> evp_encode_ctx \<Rightarrow> bytes option \<times> evp_encode_ctx" where
  "decode_char c ctx =
     (if c = 0x20 \<or> c = 0x09 \<or> c = 0x0d \<or> c = 0x0a then (Some [], ctx)
      else if eof_seen ctx then (None, ctx\<lparr>error_encountered := True\<rparr>)
      else
        let ctx = ctx\<lparr>data := (data ctx)[data_used ctx := c], data_used := data_used ctx + 1\<rparr>
        in if data_used ctx = 4
           then case base64_decode_quad (data ctx) of
                  None \<Rightarrow> (None, ctx\<lparr>error_encountered := True\<rparr>)
                | Some bs \<Rightarrow> (Some bs, ctx\<lparr>data_used := 0, eof_seen := (length bs < 3)\<rparr>)
           else (Some [], ctx))"

text \<open>The loop: whether it reaches the end, the octets written until then, and the context.\<close>

fun decode_loop :: "bytes \<Rightarrow> evp_encode_ctx \<Rightarrow> bool \<times> bytes \<times> evp_encode_ctx" where
  "decode_loop [] ctx = (True, [], ctx)"
| "decode_loop (c # inp) ctx =
     (case decode_char c ctx of
        (None, ctx) \<Rightarrow> (False, [], ctx)
      | (Some bs, ctx) \<Rightarrow> (case decode_loop inp ctx of (ok, out, ctx) \<Rightarrow> (ok, bs @ out, ctx)))"

text \<open>An update returns its result (-1, 0 or 1), \<open>*out_len\<close>, the octets written to \<open>out\<close> and the context.\<close>

definition EVP_DecodeUpdate :: "bytes \<Rightarrow> evp_encode_ctx \<Rightarrow> int \<times> nat \<times> bytes \<times> evp_encode_ctx" where
  "EVP_DecodeUpdate inp ctx =
     (if error_encountered ctx then (-1, 0, [], ctx)
      else case decode_loop inp ctx of
             (False, out, ctx) \<Rightarrow> (-1, 0, out, ctx)
           | (True, out, ctx) \<Rightarrow>
               if length out > INT_MAX then (-1, 0, out, ctx\<lparr>error_encountered := True\<rparr>)
               else (if eof_seen ctx then 0 else 1, length out, out, ctx))"

definition EVP_DecodeFinal :: "evp_encode_ctx \<Rightarrow> int" where
  "EVP_DecodeFinal ctx = (if error_encountered ctx \<or> data_used ctx \<noteq> 0 then -1 else 1)"

text \<open>The loop over the quads: the octets written, and whether it reaches the end.\<close>

fun decode_quads :: "bytes \<Rightarrow> bytes \<times> bool" where
  "decode_quads (a # b # c # d # inp) =
     (case base64_decode_quad [a, b, c, d] of
        None \<Rightarrow> ([], False)
      | Some bs \<Rightarrow>
          if length bs \<noteq> 3 \<and> inp \<noteq> [] then (bs, False)
          else (case decode_quads inp of (out, ok) \<Rightarrow> (bs @ out, ok)))"
| "decode_quads _ = ([], True)"

text \<open>The result, \<open>*out_len\<close>, and the octets written to \<open>out\<close>, also when the call fails.\<close>

definition EVP_DecodeBase64 :: "nat \<Rightarrow> bytes \<Rightarrow> bool \<times> nat \<times> bytes" where
  "EVP_DecodeBase64 max_out inp =
     (if length inp mod 4 \<noteq> 0 then (False, 0, [])
      else case EVP_DecodedLength (length inp) of
             None \<Rightarrow> (False, 0, [])
           | Some max_len \<Rightarrow>
               if max_out < max_len then (False, 0, [])
               else case decode_quads inp of (out, ok) \<Rightarrow> (ok, if ok then length out else 0, out))"

text \<open>The result and the octets written to \<open>dst\<close>.\<close>

definition EVP_DecodeBlock :: "bytes \<Rightarrow> int \<times> bytes" where
  "EVP_DecodeBlock src =
     (let src = dropWhile (\<lambda>c. c = 0x20 \<or> c = 0x09) src;
          src = rev (dropWhile (\<lambda>c. c = 0x20 \<or> c = 0x09 \<or> c = 0x0d \<or> c = 0x0a) (rev src))
      in case EVP_DecodedLength (length src) of
           None \<Rightarrow> (-1, [])
         | Some dst_len \<Rightarrow>
             if dst_len > INT_MAX then (-1, [])
             else case EVP_DecodeBase64 dst_len src of
                    (False, _, dst) \<Rightarrow> (-1, dst)
                  | (True, dst_len, dst) \<Rightarrow>
                      let pad = (3 - dst_len mod 3) mod 3 in (int (dst_len + pad), dst @ replicate pad 0))"

section \<open>The code of RFC 4648\<close>

definition alphabet :: bytes where
  "alphabet = map of_nat ([0x41..<0x5b] @ [0x61..<0x7b] @ [0x30..<0x3a] @ [0x2b, 0x2f])"

definition sextet :: "nat \<Rightarrow> u8" where
  "sextet n = alphabet ! (n mod 64)"

text \<open>Groups of three octets are a 24-bit number, written as four digits to base 64.\<close>

fun base64 :: "bytes \<Rightarrow> bytes" where
  "base64 [] = []"
| "base64 [a] = (let n = be_nat [a, 0, 0] in [sextet (n div 64 ^ 3), sextet (n div 64 ^ 2), 0x3d, 0x3d])"
| "base64 [a, b] =
     (let n = be_nat [a, b, 0]
      in [sextet (n div 64 ^ 3), sextet (n div 64 ^ 2), sextet (n div 64), 0x3d])"
| "base64 (a # b # c # bs) =
     (let n = be_nat [a, b, c]
      in [sextet (n div 64 ^ 3), sextet (n div 64 ^ 2), sextet (n div 64), sextet n] @ base64 bs)"

lemma unat_ucast_u8: "unat (ucast (a :: u8) :: u64) = unat a"
  by (simp add: unsigned_ucast_eq take_bit_nat_eq_self less_trans [OF unat_u8_bound])

lemma constant_time_lt_args_8_eq [ct_simps]:
  "constant_time_lt_args_8 a b = (if a < b then - 1 else 0)"
proof -
  have "bit (ucast a - ucast b :: u64) 63 \<longleftrightarrow> a < b"
    using unat_u8_bound [of a] unat_u8_bound [of b]
    by (auto simp: bit63_iff unat_sub_if_size word_size unat_ucast_u8 word_less_nat_alt)
  then show ?thesis by (simp add: constant_time_lt_args_8_def ct_simps)
qed

lemma constant_time_in_range_8_eq [ct_simps]:
  assumes "lo \<le> hi" "hi < 0xff"
  shows "constant_time_in_range_8 a lo hi = (if lo \<le> a \<and> a \<le> hi then - 1 else 0)"
proof -
  have "a - lo < hi - lo + 1 \<longleftrightarrow> lo \<le> a \<and> a \<le> hi"
  proof -
    have h: "unat (hi - lo + 1) = unat hi - unat lo + 1"
      using assms unat_u8_bound [of hi]
      by (subst unat_add_lem [THEN iffD1]) (auto simp: unat_sub word_le_nat_alt word_less_nat_alt)
    show ?thesis
      using assms unat_u8_bound [of a] unat_u8_bound [of hi]
      by (auto simp: word_less_nat_alt word_le_nat_alt h unat_sub_if_size word_size)
  qed
  then show ?thesis by (simp add: constant_time_in_range_8_def ct_simps)
qed

lemma alphabet_nth:
  "m < 64 \<Longrightarrow> alphabet ! m =
     (if m < 26 then of_nat (0x41 + m) else if m < 52 then of_nat (0x61 + (m - 26))
      else if m < 62 then of_nat (0x30 + (m - 52)) else if m = 62 then 0x2b else 0x2f)"
proof -
  assume "m < 64"
  then consider "m < 26" | j where "m = 26 + j" "j < 26" | j where "m = 52 + j" "j < 10"
    | "m = 62" | "m = 63"
  proof -
    have "m < 26 \<or> m = 26 + (m - 26) \<and> m - 26 < 26 \<or> m = 52 + (m - 52) \<and> m - 52 < 10 \<or> m = 62 \<or> m = 63"
      using \<open>m < 64\<close> by linarith
    then show thesis using that by blast
  qed
  then show ?thesis
    by cases (simp_all add: alphabet_def nth_append del: upt_rec_numeral)
qed

lemma conv_bin2ascii_eq: "conv_bin2ascii a = sextet (unat a)"
proof -
  define m where "m = unat a mod 64"
  have m: "m < 64" by (simp add: m_def)
  have a: "a AND 0x3f = of_nat m"
    by (simp add: word_unat_eq_iff unat_and_3f m_def unat_of_nat)
  have u: "unat (of_nat m :: u8) = m" using m by (simp add: unat_of_nat)
  have u64: "(ucast (of_nat m :: u8) :: u64) = 62 \<longleftrightarrow> m = 62"
    using m by (simp add: word_unat_eq_iff unsigned_ucast_eq u take_bit_nat_eq_self)
  have lt: "(of_nat m :: u8) < 26 \<longleftrightarrow> m < 26" "(of_nat m :: u8) < 52 \<longleftrightarrow> m < 52"
      "(of_nat m :: u8) < 62 \<longleftrightarrow> m < 62"
    by (simp_all add: word_less_nat_alt u)
  have "conv_bin2ascii a =
      (if m < 26 then of_nat m + 0x41 else if m < 52 then of_nat m - 26 + 0x61
       else if m < 62 then of_nat m - 52 + 0x30 else if m = 62 then 0x2b else 0x2f)"
    by (simp add: conv_bin2ascii_def a ct_simps u64 lt Let_def)
  also have "\<dots> = alphabet ! m"
    using m by (simp add: alphabet_nth of_nat_diff)
  finally show ?thesis by (simp add: sextet_def m_def)
qed

lemma ascii_to_bin_eq:
  "base64_ascii_to_bin c =
     (if c = 0x3d then 0 else if c = 0x2f then 63 else if c = 0x2b then 62
      else if 0x30 \<le> c \<and> c \<le> 0x39 then c - 0x30 + 52
      else if 0x61 \<le> c \<and> c \<le> 0x7a then c - 0x61 + 26
      else if 0x41 \<le> c \<and> c \<le> 0x5a then c - 0x41 else 0xff)"
proof -
  have "constant_time_eq_8 (ucast c) 0x2b = (if c = 0x2b then - 1 else 0)"
    "constant_time_eq_8 (ucast c) 0x2f = (if c = 0x2f then - 1 else 0)"
    "constant_time_eq_8 (ucast c) 0x3d = (if c = 0x3d then - 1 else 0)"
    by (simp_all add: ct_simps word_unat_eq_iff unat_ucast_u8)
  then show ?thesis
    by (simp add: base64_ascii_to_bin_def ct_simps Let_def)
qed

lemma ascii_to_bin_sextet: "base64_ascii_to_bin (sextet n) = of_nat (n mod 64)" "sextet n \<noteq> 0x3d"
proof -
  define m where "m = n mod 64"
  have m: "m < 64" by (simp add: m_def)
  have s: "sextet n = alphabet ! m" by (simp add: sextet_def m_def)
  have u: "unat (of_nat k :: u8) = k" if "k < 256" for k using that by (simp add: unat_of_nat)
  consider "m < 26" | "26 \<le> m" "m < 52" | "52 \<le> m" "m < 62" | "m = 62" | "m = 63"
    using m by linarith
  then have "base64_ascii_to_bin (alphabet ! m) = of_nat m \<and> alphabet ! m \<noteq> 0x3d"
  proof cases
    case 1
    then have k: "unat (of_nat (0x41 + m) :: u8) = 0x41 + m" by (intro u) simp
    have d: "of_nat (0x41 + m) - 0x41 = (of_nat m :: u8)" using 1 by (simp add: of_nat_diff)
    show ?thesis
      using 1 k by (simp add: alphabet_nth ascii_to_bin_eq word_unat_eq_iff word_le_nat_alt d del: of_nat_add)
  next
    case 2
    then have k: "unat (of_nat (0x61 + (m - 26)) :: u8) = 0x61 + (m - 26)" by (intro u) simp
    have d: "of_nat (71 + m) - 71 = (of_nat m :: u8)" by simp
    show ?thesis
      using 2 k by (simp add: alphabet_nth ascii_to_bin_eq word_unat_eq_iff word_le_nat_alt d del: of_nat_add)
  next
    case 3
    then obtain j where j: "m = 52 + j" "j < 10" by (intro that [of "m - 52"]) simp_all
    have k: "unat (of_nat (48 + j) :: u8) = 48 + j" using j by (intro u) simp
    have d: "4 + of_nat (48 + j) = (of_nat (52 + j) :: u8)" by simp
    have a: "alphabet ! (52 + j) = of_nat (48 + j)" using j by (simp add: alphabet_nth)
    show ?thesis
      unfolding j(1) a using j(2) k by (simp add: ascii_to_bin_eq word_unat_eq_iff word_le_nat_alt d del: of_nat_add)
  qed (simp_all add: alphabet_nth ascii_to_bin_eq)
  then show "base64_ascii_to_bin (sextet n) = of_nat (n mod 64)" "sextet n \<noteq> 0x3d"
    by (simp_all add: s m_def)
qed

lemma unat_triple:
  "unat ((push_bit 16 (ucast (a :: u8)) OR push_bit 8 (ucast (b :: u8))) OR ucast (c :: u8) :: u32)
     = be_nat [a, b, c]"
proof -
  have u: "unat (ucast (x :: u8) :: u32) = unat x" for x
    by (simp add: unsigned_ucast_eq take_bit_nat_eq_self less_trans [OF unat_u8_bound])
  have b: "unat x < 256" for x :: u8 by (rule unat_u8_bound)
  have sh: "push_bit 16 (ucast a) OR push_bit 8 (ucast b) = (push_bit 8 (push_bit 8 (ucast a) OR ucast b) :: u32)"
    by (simp add: push_bit_or)
  have 1: "unat (push_bit 8 (ucast a) OR ucast b :: u32) = unat a * 256 + unat b"
    using unat_push_bit_or [of "ucast b :: u32" 8 "ucast a"] b [of a] b [of b] by (simp add: u)
  have "unat a * 256 + unat b < 65536" using b [of a] b [of b] by linarith
  then have "unat (push_bit 8 (push_bit 8 (ucast a) OR ucast b) OR ucast c :: u32)
      = (unat a * 256 + unat b) * 256 + unat c"
    using unat_push_bit_or [of "ucast c :: u32" 8 "push_bit 8 (ucast a) OR ucast b"] b [of c]
    by (simp add: u 1)
  then show ?thesis unfolding sh by (simp add: algebra_simps)
qed

lemma sextet_mod: "64 dvd m \<Longrightarrow> sextet (n mod m) = sextet n"
  by (simp add: sextet_def mod_mod_cancel)

lemma conv_drop: "conv_bin2ascii (ucast (drop_bit k (l :: u32))) = sextet (unat l div 2 ^ k)"
  by (simp add: conv_bin2ascii_eq unsigned_ucast_eq unat_drop_bit take_bit_eq_mod sextet_mod)

lemma conv_low: "conv_bin2ascii (ucast (l :: u32)) = sextet (unat l)"
  using conv_drop [of 0 l] by simp

lemma EVP_EncodeBlock_eq: "EVP_EncodeBlock bs = base64 bs"
proof (induction bs rule: base64.induct)
  case (2 a)
  show ?case
    using unat_triple [of a 0 0] by (simp add: conv_drop Let_def)
next
  case (3 a b)
  show ?case
    using unat_triple [of a b 0] by (simp add: conv_drop Let_def)
next
  case (4 a b c bs)
  then show ?case
    by (simp only: EVP_EncodeBlock.simps base64.simps conv_drop Let_def)
      (simp only: conv_low unat_triple append.simps, simp)
qed simp

lemma length_base64: "length (base64 bs) = 4 * ((length bs + 2) div 3)"
proof (induction bs rule: base64.induct)
  case (4 a b c bs)
  have "5 + length bs = 3 + Suc (Suc (length bs))" by simp
  then have "(5 + length bs) div 3 = Suc (Suc (Suc (length bs)) div 3)"
    by (simp only: div_add_self1)
  then show ?case using 4 by (simp add: Let_def)
qed (simp_all add: Let_def)

section \<open>Decoding inverts encoding\<close>

lemma decode_quad_bits:
  fixes a b c d :: u8
  defines "v \<equiv> push_bit 18 (ucast a) OR push_bit 12 (ucast b) OR push_bit 6 (ucast c) OR ucast d :: u32"
  assumes "unat a < 64" "unat b < 64" "unat c < 64" "unat d < 64"
  shows "unat v = ((unat a * 64 + unat b) * 64 + unat c) * 64 + unat d"
proof -
  have u: "unat (ucast (x :: u8) :: u32) = unat x" for x
    by (simp add: unsigned_ucast_eq take_bit_nat_eq_self less_trans [OF unat_u8_bound])
  define A :: u32 where "A = push_bit 6 (ucast a) OR ucast b"
  define A' :: u32 where "A' = push_bit 6 A OR ucast c"
  have sh: "v = push_bit 6 A' OR ucast d"
    by (simp add: v_def A_def A'_def push_bit_or or.assoc)
  have 1: "unat A = unat a * 64 + unat b"
    using unat_push_bit_or [of "ucast b :: u32" 6 "ucast a"] assms by (simp add: u A_def)
  have 2: "unat A' = (unat a * 64 + unat b) * 64 + unat c"
    using unat_push_bit_or [of "ucast c :: u32" 6 A] assms by (simp add: u 1 A'_def)
  show ?thesis
    using unat_push_bit_or [of "ucast d :: u32" 6 A'] assms by (simp add: u 2 sh)
qed

lemma octets_of_digits:
  fixes n :: nat
  assumes "v = ((n div 64 ^ 3 mod 64 * 64 + n div 64 ^ 2 mod 64) * 64 + n div 64 mod 64) * 64 + n mod 64"
    and "n < 2 ^ 24"
  shows "v = n"
proof -
  have "n div 64 ^ 3 < 64" using assms(2) by (simp add: div_less_iff_less_mult)
  then have 1: "n div 64 ^ 3 mod 64 = n div 64 ^ 2 div 64"
    by (simp add: div_mult2_eq [symmetric])
  have 2: "n div 64 ^ 2 = n div 64 div 64" by (simp add: div_mult2_eq [symmetric])
  show ?thesis
    unfolding assms(1) 1 by (simp only: div_mult_mod_eq 2)
qed

text \<open>A quad with no padding, one or two padding characters, over any digits.\<close>

lemma decode_quad_run:
  fixes n :: nat
  assumes "n < 2 ^ 24" "q = [q0, q1, q2, q3]" "q0 = sextet (n div 64 ^ 3)" "q1 = sextet (n div 64 ^ 2)"
    and "q2 = sextet (n div 64) \<or> q2 = 0x3d \<and> n div 64 mod 64 = 0 \<and> q3 = 0x3d"
    and "q3 = sextet n \<or> q3 = 0x3d \<and> n mod 64 = 0"
  shows "base64_decode_quad q =
     Some (if q2 = 0x3d then [of_nat (n div 65536)]
           else if q3 = 0x3d then [of_nat (n div 65536), of_nat (n div 256)]
           else [of_nat (n div 65536), of_nat (n div 256), of_nat n])"
proof -
  have bin: "base64_ascii_to_bin q0 = of_nat (n div 64 ^ 3 mod 64)"
      "base64_ascii_to_bin q1 = of_nat (n div 64 ^ 2 mod 64)"
      "base64_ascii_to_bin q2 = of_nat (n div 64 mod 64)" "base64_ascii_to_bin q3 = of_nat (n mod 64)"
    using assms(3-6) by (auto simp: ascii_to_bin_sextet) (simp_all add: ascii_to_bin_eq)
  have u: "unat (of_nat (m mod 64) :: u8) = m mod 64" for m
    using mod_less_divisor [of 64 m] by (simp add: unat_of_nat)
  have ok: "of_nat (m mod 64) \<noteq> (0xff :: u8)" for m
  proof
    assume eq: "of_nat (m mod 64) = (0xff :: u8)"
    show False using u [of m] mod_less_divisor [of 64 m] unfolding eq by simp
  qed
  define v :: u32 where "v = push_bit 18 (ucast (of_nat (n div 64 ^ 3 mod 64) :: u8))
     OR push_bit 12 (ucast (of_nat (n div 64 ^ 2 mod 64) :: u8))
     OR push_bit 6 (ucast (of_nat (n div 64 mod 64) :: u8)) OR ucast (of_nat (n mod 64) :: u8)"
  have "unat v = ((n div 64 ^ 3 mod 64 * 64 + n div 64 ^ 2 mod 64) * 64 + n div 64 mod 64) * 64 + n mod 64"
    unfolding v_def by (subst decode_quad_bits) (simp_all only: u mod_less_divisor zero_less_numeral)
  then have v: "unat v = n" using assms(1) by (rule octets_of_digits)
  have oct: "ucast (drop_bit k v) = (of_nat (n div 2 ^ k) :: u8)" for k
    by (simp add: word_unat_eq_iff unsigned_ucast_eq unat_drop_bit v unat_of_nat take_bit_eq_mod)
  have oct0: "ucast v = (of_nat n :: u8)"
    using oct [of 0] by simp
  have ne: "q0 \<noteq> 0x3d" "q1 \<noteq> 0x3d" "q2 = 0x3d \<Longrightarrow> q3 = 0x3d"
    using assms(3-5) ascii_to_bin_sextet(2) by auto
  have run: "base64_decode_quad q =
      (let padding_pattern =
           push_bit 1 (of_bool (q2 = 0x3d)) OR of_bool (q3 = 0x3d) :: u32
       in if padding_pattern = 0
              then Some [ucast (drop_bit 16 v), ucast (drop_bit 8 v), ucast v]
              else if padding_pattern = 1 then Some [ucast (drop_bit 16 v), ucast (drop_bit 8 v)]
              else if padding_pattern = 3 then Some [ucast (drop_bit 16 v)]
              else None)"
    unfolding base64_decode_quad_def Let_def assms(2)
    by (simp add: bin ok ne v_def)
  show ?thesis
    unfolding run using ne(3) by (auto simp: oct oct0)
qed

lemma triple_octets:
  fixes a b c :: u8
  shows "of_nat (be_nat [a, b, c] div 65536) = a" "of_nat (be_nat [a, b, c] div 256) = b"
    and "of_nat (be_nat [a, b, c]) = c" and "be_nat [a, b, c] < 2 ^ 24"
proof -
  have e: "be_nat [a, b, c] = (unat a * 256 + unat b) * 256 + unat c" by simp
  have d2: "be_nat [a, b, c] div 256 = unat a * 256 + unat b"
    unfolding e using unat_u8_bound [of c] by (simp add: div_add1_eq)
  have d3: "be_nat [a, b, c] div 65536 = unat a"
  proof -
    have "be_nat [a, b, c] div 65536 = be_nat [a, b, c] div 256 div 256"
      by (simp only: div_mult2_eq [symmetric]) simp
    then show ?thesis unfolding d2 using unat_u8_bound [of b] by simp
  qed
  show "of_nat (be_nat [a, b, c] div 65536) = a" unfolding d3 by simp
  show "of_nat (be_nat [a, b, c] div 256) = b" "of_nat (be_nat [a, b, c]) = c"
    unfolding d2 unfolding e by (simp_all add: word_unat_eq_iff unat_word_ariths unat_u8_bound)
  show "be_nat [a, b, c] < 2 ^ 24" using be_nat_bound [of "[a, b, c]"] by simp
qed

lemma low_digits:
  fixes a b :: u8
  shows "be_nat [a, b, 0] mod 64 = 0" "be_nat [a, 0, 0] mod 64 = 0" "be_nat [a, 0, 0] div 64 mod 64 = 0"
proof -
  have 1: "be_nat [a, b, 0] = ((unat a * 256 + unat b) * 4) * 64" by simp
  show "be_nat [a, b, 0] mod 64 = 0" unfolding 1 by simp
  have 2: "be_nat [a, 0, 0] = (unat a * 16) * 64 * 64" by simp
  show "be_nat [a, 0, 0] mod 64 = 0" "be_nat [a, 0, 0] div 64 mod 64 = 0" unfolding 2 by simp_all
qed

lemma decode_quads_base64: "decode_quads (base64 bs) = (bs, True)"
proof (induction bs rule: base64.induct)
  case (2 a)
  show ?case
    using decode_quad_run [OF triple_octets(4) [of a 0 0] refl refl refl, of "0x3d" "0x3d"] low_digits
      triple_octets(1) [of a 0 0]
    by (simp add: Let_def del: be_nat_Cons)
next
  case (3 a b)
  show ?case
    using decode_quad_run [OF triple_octets(4) [of a b 0] refl refl refl, of "sextet (be_nat [a, b, 0] div 64)" "0x3d"]
      low_digits triple_octets(1, 2) [of a b 0] ascii_to_bin_sextet(2)
    by (simp add: Let_def del: be_nat_Cons)
next
  case (4 a b c bs)
  then show ?case
    using decode_quad_run [OF triple_octets(4) [of a b c] refl refl refl,
        of "sextet (be_nat [a, b, c] div 64)" "sextet (be_nat [a, b, c])"]
      triple_octets(1-3) [of a b c] ascii_to_bin_sextet(2)
    by (simp add: Let_def del: be_nat_Cons)
qed simp

section \<open>The incremental encoder\<close>

text \<open>The text form: lines of 48 octets (64 characters), each ended by a newline.\<close>

function b64_lines :: "bytes \<Rightarrow> bytes" where
  "b64_lines bs =
     (if bs = [] then []
      else base64 (take sizeof_data bs) @ 0x0a # b64_lines (drop sizeof_data bs))"
  by pat_completeness auto

termination by (relation "measure length") auto

declare b64_lines.simps [simp del]

lemma b64_lines_Nil [simp]: "b64_lines [] = []"
  by (simp add: b64_lines.simps)

lemma b64_lines_block:
  "length blk = sizeof_data \<Longrightarrow> b64_lines (blk @ bs) = base64 blk @ 0x0a # b64_lines bs"
  by (subst b64_lines.simps) auto

lemma b64_lines_last: "bs \<noteq> [] \<Longrightarrow> length bs \<le> sizeof_data \<Longrightarrow> b64_lines bs = base64 bs @ [0x0a]"
  by (subst b64_lines.simps) simp

text \<open>The whole lines of an input and what is left of it.\<close>

definition whole :: "bytes \<Rightarrow> bytes" where
  "whole bs = take (length bs div sizeof_data * sizeof_data) bs"

definition left_over :: "bytes \<Rightarrow> bytes" where
  "left_over bs = drop (length bs div sizeof_data * sizeof_data) bs"

lemma whole_left_over: "whole bs @ left_over bs = bs"
  by (simp add: whole_def left_over_def)

lemma length_whole: "length (whole bs) = length bs div sizeof_data * sizeof_data"
  by (simp add: whole_def min.absorb2 [OF div_times_less_eq_dividend])

lemma length_left_over: "length (left_over bs) = length bs mod sizeof_data"
  by (simp add: left_over_def minus_div_mult_eq_mod)

lemma left_over_lt: "length (left_over bs) < sizeof_data"
  by (simp add: length_left_over)

lemma left_over_short: "length bs < sizeof_data \<Longrightarrow> left_over bs = bs \<and> whole bs = []"
  by (simp add: left_over_def whole_def)

lemma left_over_append: "length xs mod sizeof_data = 0 \<Longrightarrow>
    left_over (xs @ bs) = left_over bs \<and> whole (xs @ bs) = xs @ whole bs"
  by (auto simp: left_over_def whole_def elim!: dvdE)

lemma div_block: "(sizeof_data + m) div sizeof_data = Suc (m div sizeof_data)"
  by (subst div_add_self1) simp_all

lemma b64_lines_append:
  "length xs mod sizeof_data = 0 \<Longrightarrow> b64_lines (xs @ ys) = b64_lines xs @ b64_lines ys"
proof (induction xs rule: b64_lines.induct)
  case (1 xs)
  show ?case
  proof (cases "xs = []")
    case False
    define blk where "blk = take sizeof_data xs"
    define rest where "rest = drop sizeof_data xs"
    have "sizeof_data \<le> length xs" using 1(2) False by (intro dvd_imp_le) auto
    then have len: "length blk = sizeof_data" and xs: "xs = blk @ rest"
      by (simp_all add: blk_def rest_def)
    have "length rest mod sizeof_data = 0" using 1(2) len by (simp add: xs)
    then have "b64_lines (rest @ ys) = b64_lines rest @ b64_lines ys"
      using 1(1) False by (simp add: rest_def)
    then show ?thesis using len by (simp add: xs b64_lines_block)
  qed simp
qed

lemma length_b64_lines_whole: "length (b64_lines (whole bs)) = 65 * (length bs div sizeof_data)"
proof (induction bs rule: b64_lines.induct)
  case (1 bs)
  show ?case
  proof (cases "length bs < sizeof_data")
    case False
    define blk where "blk = take sizeof_data bs"
    define rest where "rest = drop sizeof_data bs"
    have len: "length blk = sizeof_data" and bs: "bs = blk @ rest"
      using False by (simp_all add: blk_def rest_def)
    have "whole bs = blk @ whole rest" using left_over_append [of blk rest] len bs by simp
    moreover have "length (b64_lines (whole rest)) = 65 * (length rest div sizeof_data)"
      using 1 False by (cases "bs = []") (simp_all add: rest_def)
    ultimately show ?thesis using len by (simp add: bs b64_lines_block length_base64 div_block)
  qed (simp add: left_over_short)
qed

lemma encode_lines_eq:
  "tot + 65 * (length inp div sizeof_data) < 2 ^ 64 \<Longrightarrow>
     encode_lines tot inp =
       (b64_lines (whole inp), Some (left_over inp, tot + 65 * (length inp div sizeof_data)))"
proof (induction tot inp rule: encode_lines.induct)
  case (1 tot inp)
  show ?case
  proof (cases "length inp < sizeof_data")
    case True
    then show ?thesis by (subst encode_lines.simps) (simp add: left_over_short)
  next
    case False
    define blk where "blk = take sizeof_data inp"
    define rest where "rest = drop sizeof_data inp"
    have len: "length blk = sizeof_data" and inp: "inp = blk @ rest"
      using False by (simp_all add: blk_def rest_def)
    have enc: "length (EVP_EncodeBlock blk) = 64"
      using len by (simp add: EVP_EncodeBlock_eq length_base64)
    have div: "length inp div sizeof_data = length rest div sizeof_data + 1"
      using len by (simp add: inp div_block)
    have small: "tot + 65 + 65 * (length rest div sizeof_data) < 2 ^ 64"
      using 1(2) div by simp
    then have noflow: "(tot + 65) mod 2 ^ 64 = tot + 65" by simp
    have IH: "encode_lines (tot + 65) rest =
        (b64_lines (whole rest), Some (left_over rest, tot + 65 + 65 * (length rest div sizeof_data)))"
      using 1(1) False enc noflow small by (simp add: blk_def rest_def add.commute [of 65])
    have "encode_lines tot inp
        = (EVP_EncodeBlock blk @ [0x0a] @ b64_lines (whole rest),
           Some (left_over rest, tot + 65 + 65 * (length rest div sizeof_data)))"
      using False enc noflow IH
      by (subst encode_lines.simps) (simp add: blk_def rest_def Let_def add.commute [of 65])
    moreover have "whole inp = blk @ whole rest" "left_over inp = left_over rest"
      using left_over_append [of blk rest] len inp by simp_all
    ultimately show ?thesis
      using len div by (simp add: b64_lines_block EVP_EncodeBlock_eq)
  qed
qed

text \<open>The contents of the array that count.\<close>

definition pending_data :: "evp_encode_ctx \<Rightarrow> bytes" where
  "pending_data ctx = take (data_used ctx) (data ctx)"

definition enc_rep :: "evp_encode_ctx \<times> bytes \<Rightarrow> bytes \<Rightarrow> bool" where
  "enc_rep s xs \<longleftrightarrow> length (data (fst s)) = sizeof_data \<and> data_used (fst s) = length xs mod sizeof_data
     \<and> pending_data (fst s) = left_over xs \<and> snd s = b64_lines (whole xs)"

definition enc_update :: "bytes \<Rightarrow> evp_encode_ctx \<times> bytes \<Rightarrow> evp_encode_ctx \<times> bytes" where
  "enc_update inp s = (case EVP_EncodeUpdate inp (fst s) of (n, out, ctx) \<Rightarrow> (ctx, snd s @ out))"

definition enc_final :: "evp_encode_ctx \<times> bytes \<Rightarrow> bytes" where
  "enc_final s = (case EVP_EncodeFinal (fst s) of (n, out, ctx) \<Rightarrow> snd s @ out)"

lemma enc_rep_step:
  assumes rep: "enc_rep s xs" and small: "length ys < 2 ^ 63"
  shows "enc_rep (enc_update ys s) (xs @ ys)
    \<and> (case EVP_EncodeUpdate ys (fst s) of (n, out, _) \<Rightarrow> n = (if length out \<le> INT_MAX then length out else 0))"
proof -
  obtain ctx out where s: "s = (ctx, out)" by (metis surj_pair)
  have D: "length (data ctx) = sizeof_data" and used: "data_used ctx = length xs mod sizeof_data"
    and pend: "pending_data ctx = left_over xs" and out: "out = b64_lines (whole xs)"
    using rep by (simp_all add: enc_rep_def s)
  have lt: "data_used ctx < sizeof_data" using used by simp
  have lo: "length (left_over xs) = data_used ctx" using used by (simp add: length_left_over)
  have wmod: "length (whole xs) mod sizeof_data = 0"
    by (simp add: length_whole)
  have app: "left_over (xs @ zs) = left_over (left_over xs @ zs)
      \<and> whole (xs @ zs) = whole xs @ whole (left_over xs @ zs)" for zs
    using left_over_append [OF wmod, of "left_over xs @ zs"] whole_left_over [of xs]
    by (metis append.assoc)
  consider "ys = []" | "ys \<noteq> []" "sizeof_data - data_used ctx > length ys"
    | "ys \<noteq> []" "\<not> sizeof_data - data_used ctx > length ys" by blast
  then show ?thesis
  proof cases
    case 1
    then show ?thesis using rep by (simp add: enc_update_def EVP_EncodeUpdate_def s)
  next
    case 2
    let ?ctx = "(data_put (data_used ctx) ys ctx)\<lparr>data_used := data_used ctx + length ys\<rparr>"
    have run: "EVP_EncodeUpdate ys ctx = (0, [], ?ctx)"
      using 2 by (simp add: EVP_EncodeUpdate_def)
    have short: "length (left_over xs @ ys) < sizeof_data"
      using 2 used by (simp add: length_left_over)
    have "pending_data ?ctx = left_over xs @ ys"
      using 2 D lt pend lo by (simp add: pending_data_def data_put_def)
    moreover have "length (data ?ctx) = sizeof_data"
      using 2 D lt by (simp add: data_put_def)
    moreover have "left_over (xs @ ys) = left_over xs @ ys" "whole (xs @ ys) = whole xs"
      using app [of ys] left_over_short [OF short] by simp_all
    moreover have "data_used ?ctx = length (xs @ ys) mod sizeof_data"
      using length_left_over [of "xs @ ys"] calculation(3) used by (simp add: length_left_over)
    ultimately show ?thesis
      using out by (simp add: enc_update_def enc_rep_def s run)
  next
    case 3
    define todo where "todo = sizeof_data - data_used ctx"
    define B where "B = (if data_used ctx \<noteq> 0 then left_over xs @ take todo ys else [])"
    define inp where "inp = (if data_used ctx \<noteq> 0 then drop todo ys else ys)"
    define ctx1 where "ctx1 = (if data_used ctx \<noteq> 0
        then (data_put (data_used ctx) (take todo ys) ctx)\<lparr>data_used := 0\<rparr> else ctx)"
    define tot where "tot = (if data_used ctx \<noteq> 0 then 65 else 0 :: nat)"
    have todo: "todo \<le> length ys" using 3 by (simp add: todo_def)
    have B: "left_over xs @ ys = B @ inp" "length B = (if data_used ctx \<noteq> 0 then sizeof_data else 0)"
      using lo todo lt by (auto simp: B_def inp_def todo_def)
    have D1: "length (data ctx1) = sizeof_data"
      using D lt todo by (auto simp: ctx1_def data_put_def todo_def)
    have blk: "data (data_put (data_used ctx) (take todo ys) ctx) = left_over xs @ take todo ys"
      using D lt todo pend by (simp add: data_put_def todo_def pending_data_def)
    have linp: "length inp \<le> length ys" by (simp add: inp_def)
    have "length inp div sizeof_data \<le> 2 ^ 63 div 48"
      using linp small by (intro div_le_mono) simp
    then have noflow: "tot + 65 * (length inp div sizeof_data) < 2 ^ 64"
      by (simp add: tot_def)
    have first: "(if data_used ctx \<noteq> 0 then base64 B @ [0x0a] else []) = b64_lines B"
    proof (cases "data_used ctx = 0")
      case False
      then have "length B = sizeof_data" using B(2) by simp
      from b64_lines_block [OF this, of "[]"] show ?thesis using False by simp
    qed (simp add: B_def)
    let ?ctx = "(if length (left_over inp) \<noteq> 0 then data_put 0 (left_over inp) ctx1 else ctx1)
        \<lparr>data_used := length (left_over inp)\<rparr>"
    let ?tot = "tot + 65 * (length inp div sizeof_data)"
    have run: "EVP_EncodeUpdate ys ctx
        = (if ?tot > INT_MAX then 0 else ?tot, b64_lines B @ b64_lines (whole inp), ?ctx)"
    proof (cases "data_used ctx = 0")
      case True
      then show ?thesis
        using 3 encode_lines_eq [OF noflow] by (simp add: EVP_EncodeUpdate_def tot_def inp_def ctx1_def B_def)
    next
      case False
      have L: "length (base64 B) = 64" using B(2) False by (simp add: length_base64)
      have blk': "data (data_put (data_used ctx) (take todo ys) ctx) = B"
        using False by (simp add: blk B_def)
      have lines: "encode_lines 65 (drop todo ys) = (b64_lines (whole inp), Some (left_over inp, ?tot))"
        using encode_lines_eq [OF noflow] False by (simp add: tot_def inp_def)
      have ctx1: "ctx1 = (data_put (data_used ctx) (take todo ys) ctx)\<lparr>data_used := 0\<rparr>"
        using False by (simp add: ctx1_def)
      show ?thesis
        using 3 False first
        by (simp add: EVP_EncodeUpdate_def Let_def blk' EVP_EncodeBlock_eq L lines
            flip: todo_def ctx1)
    qed
    define ctx2 where "ctx2 = ?ctx"
    have lw: "left_over (xs @ ys) = left_over inp"
        "whole (xs @ ys) = whole xs @ B @ whole inp"
      using app [of ys] B left_over_append [of B inp] by simp_all
    have "b64_lines (whole xs @ B @ whole inp) = b64_lines (whole xs) @ b64_lines B @ b64_lines (whole inp)"
      using b64_lines_append wmod B(2) by simp
    moreover have "pending_data ctx2 = left_over inp" "length (data ctx2) = sizeof_data"
      using D1 left_over_lt [of inp] by (auto simp: pending_data_def data_put_def ctx2_def)
    moreover have "data_used ctx2 = length (xs @ ys) mod sizeof_data"
      using length_left_over [of "xs @ ys"] lw by (simp add: ctx2_def)
    moreover have "length (b64_lines B @ b64_lines (whole inp)) = ?tot"
    proof -
      have "whole B = B" using B(2) by (simp add: whole_def)
      then have "length (b64_lines B) = tot"
        using length_b64_lines_whole [of B] B(2) by (simp add: tot_def)
      then show ?thesis by (simp add: length_b64_lines_whole)
    qed
    ultimately have C: "enc_rep (ctx2, snd s @ b64_lines B @ b64_lines (whole inp)) (xs @ ys)"
        "length (b64_lines B @ b64_lines (whole inp)) = ?tot"
      using out lw s unfolding enc_rep_def by simp_all
    show ?thesis
      using C by (simp add: enc_update_def s run ctx2_def)
  qed
qed

text \<open>The calls of a user, each with \<open>*out_len\<close> and the octets it writes; the last is the final one.\<close>

fun enc_calls :: "bytes list \<Rightarrow> evp_encode_ctx \<Rightarrow> (nat \<times> bytes) list" where
  "enc_calls [] ctx = (case EVP_EncodeFinal ctx of (n, out, ctx) \<Rightarrow> [(n, out)])"
| "enc_calls (c # cs) ctx = (case EVP_EncodeUpdate c ctx of (n, out, ctx) \<Rightarrow> (n, out) # enc_calls cs ctx)"

definition reported :: "nat \<times> bytes \<Rightarrow> bool" where
  "reported call \<longleftrightarrow> (case call of (n, out) \<Rightarrow> n = (if length out \<le> INT_MAX then length out else 0))"

interpretation enc: streaming "(EVP_EncodeInit, [])" enc_update enc_final
    "\<lambda>ys. length ys < 2 ^ 63" enc_rep b64_lines
proof unfold_locales
  show "enc_rep (EVP_EncodeInit, []) []"
    by (simp add: enc_rep_def EVP_EncodeInit_def pending_data_def left_over_def whole_def)
  show "enc_rep (enc_update ys s) (xs @ ys)" if "enc_rep s xs" "length ys < 2 ^ 63" for s xs ys
    using enc_rep_step [OF that] by simp
  fix s xs assume rep: "enc_rep s xs"
  have "b64_lines xs = b64_lines (whole xs) @ b64_lines (left_over xs)"
    using b64_lines_append [of "whole xs" "left_over xs"] by (simp add: whole_left_over length_whole)
  moreover have "length (left_over xs) \<le> sizeof_data"
    using mod_less_divisor [of sizeof_data "length xs"] by (simp add: length_left_over)
  moreover have "data_used (fst s) = 0 \<longleftrightarrow> left_over xs = []"
    using rep length_left_over [of xs] by (auto simp: enc_rep_def)
  ultimately show "enc_final s = b64_lines xs"
    using rep b64_lines_last [of "left_over xs"]
    by (auto simp: enc_final_def EVP_EncodeFinal_def enc_rep_def pending_data_def EVP_EncodeBlock_eq Let_def)
qed

lemma final_reported:
  assumes "enc_rep (ctx, out) xs"
  shows "reported (fst (EVP_EncodeFinal ctx), fst (snd (EVP_EncodeFinal ctx)))"
proof -
  have "length (base64 (pending_data ctx)) \<le> 64"
    using assms left_over_lt [of xs] by (simp add: enc_rep_def length_base64)
  then show ?thesis
    by (simp add: reported_def EVP_EncodeFinal_def Let_def EVP_EncodeBlock_eq INT_MAX_def flip: pending_data_def)
qed

lemma enc_calls_rep:
  assumes "enc_rep (ctx, out) xs" "\<forall>c\<in>set chunks. length c < 2 ^ 63"
  shows "out @ concat (map snd (enc_calls chunks ctx)) = b64_lines (xs @ concat chunks)
    \<and> list_all reported (enc_calls chunks ctx)"
  using assms
proof (induction chunks arbitrary: ctx out xs)
  case Nil
  then show ?case
    using enc.rep_final [OF Nil(1)] final_reported [OF Nil(1)] by (simp add: enc_final_def split: prod.splits)
next
  case (Cons c cs)
  obtain n o1 ctx1 where run: "EVP_EncodeUpdate c ctx = (n, o1, ctx1)" by (metis prod_cases3)
  have "length c < 2 ^ 63" using Cons.prems(2) by simp
  from enc_rep_step [OF Cons.prems(1) this]
  have "enc_rep (ctx1, out @ o1) (xs @ c)" "reported (n, o1)"
    by (simp_all add: enc_update_def reported_def run)
  then show ?case using Cons.IH [of ctx1 "out @ o1" "xs @ c"] Cons.prems(2) run by simp
qed

text \<open>An update of 2 GB or more writes its text and reports that it wrote nothing.\<close>

lemma EVP_EncodeUpdate_reports_zero:
  assumes "2 ^ 31 \<le> length bs" "length bs < 2 ^ 63"
  shows "fst (EVP_EncodeUpdate bs EVP_EncodeInit) = 0 \<and> INT_MAX < length (fst (snd (EVP_EncodeUpdate bs EVP_EncodeInit)))"
proof -
  obtain n out ctx where run: "EVP_EncodeUpdate bs EVP_EncodeInit = (n, out, ctx)" by (metis prod_cases3)
  have "enc_rep (ctx, out) bs" and n: "n = (if length out \<le> INT_MAX then length out else 0)"
    using enc_rep_step [OF enc.rep_init assms(2)] by (simp_all add: enc_update_def run)
  then have "length out = 65 * (length bs div sizeof_data)" by (simp add: enc_rep_def length_b64_lines_whole)
  moreover have "2 ^ 31 div 48 \<le> length bs div sizeof_data" using assms(1) by (intro div_le_mono)
  ultimately have "INT_MAX < length out" by (simp add: INT_MAX_def)
  then show ?thesis using n run by simp
qed

lemma base64_append: "length xs mod 3 = 0 \<Longrightarrow> base64 (xs @ ys) = base64 xs @ base64 ys"
proof (induction xs rule: base64.induct)
  case (4 a b c bs)
  have "length (a # b # c # bs) mod 3 = (3 + length bs) mod 3" by simp
  then have "length bs mod 3 = 0" using 4(2) by (simp only: mod_add_self1)
  then show ?case using 4(1) by (simp add: Let_def)
qed simp_all

section \<open>The incremental decoder\<close>

abbreviation space :: "u8 \<Rightarrow> bool" where
  "space c \<equiv> c = 0x20 \<or> c = 0x09 \<or> c = 0x0d \<or> c = 0x0a"

lemma decode_loop_append:
  "decode_loop (xs @ ys) ctx =
     (case decode_loop xs ctx of
        (False, out, ctx) \<Rightarrow> (False, out, ctx)
      | (True, o1, ctx) \<Rightarrow> (case decode_loop ys ctx of (ok, o2, ctx) \<Rightarrow> (ok, o1 @ o2, ctx)))"
  by (induction xs arbitrary: ctx) (auto split: prod.splits option.splits bool.splits)

lemma decode_loop_spaces: "decode_loop xs ctx = decode_loop (filter (\<lambda>c. \<not> space c) xs) ctx"
  by (induction xs arbitrary: ctx) (auto simp: decode_char_def split: prod.splits option.splits)

lemma length_decode_char: "decode_char c ctx = (Some bs, ctx') \<Longrightarrow> length bs \<le> 3"
  by (auto simp: decode_char_def base64_decode_quad_def Let_def split: if_splits option.splits)

lemma length_decode_loop: "decode_loop xs ctx = (ok, bs, ctx') \<Longrightarrow> length bs \<le> 3 * length xs"
proof (induction xs arbitrary: ctx ok bs ctx')
  case (Cons c xs)
  show ?case
  proof (cases "decode_char c ctx")
    case (Pair r ctx1)
    show ?thesis
    proof (cases r)
      case (Some b1)
      obtain b2 where "decode_loop xs ctx1 = (ok, b2, ctx')" "bs = b1 @ b2"
        using Cons.prems Pair Some by (auto split: prod.splits)
      then show ?thesis using Cons.IH [of ctx1 ok b2 ctx'] length_decode_char [of c ctx b1 ctx1] Pair Some by simp
    qed (use Cons.prems Pair in simp)
  qed
qed simp

text \<open>A context never reports an error it has not returned, so the flag is set only by a failure.\<close>

lemma decode_char_error: "decode_char c ctx = (Some bs, ctx') \<Longrightarrow> error_encountered ctx' = error_encountered ctx"
  by (auto simp: decode_char_def Let_def split: if_splits option.splits)

lemma decode_loop_error:
  "decode_loop xs ctx = (ok, out, ctx') \<Longrightarrow> error_encountered ctx' = (\<not> ok \<or> error_encountered ctx)"
proof (induction xs arbitrary: ctx ok out)
  case (Cons c xs)
  show ?case
  proof (cases "decode_char c ctx")
    case (Pair q ctx1)
    show ?thesis
    proof (cases q)
      case None
      then show ?thesis
        using Cons.prems Pair by (auto simp: decode_char_def Let_def split: if_splits option.splits)
    next
      case (Some b)
      then obtain o2 where "decode_loop xs ctx1 = (ok, o2, ctx')"
        using Cons.prems Pair by (auto split: prod.splits)
      then show ?thesis using Cons.IH decode_char_error [of c ctx b ctx1] Pair Some by simp
    qed
  qed
qed simp

text \<open>A user of the decoder, who moves on by \<open>*out_len\<close> in the output.\<close>

definition dec_update :: "bytes \<Rightarrow> evp_encode_ctx \<times> bytes \<Rightarrow> evp_encode_ctx \<times> bytes" where
  "dec_update inp s = (case EVP_DecodeUpdate inp (fst s) of (r, n, out, ctx) \<Rightarrow> (ctx, snd s @ take n out))"

definition dec_final :: "evp_encode_ctx \<times> bytes \<Rightarrow> bytes option" where
  "dec_final s = (if EVP_DecodeFinal (fst s) = 1 then Some (snd s) else None)"

definition dec_rep :: "evp_encode_ctx \<times> bytes \<Rightarrow> bytes \<Rightarrow> bool" where
  "dec_rep s xs \<longleftrightarrow>
     (case decode_loop xs EVP_DecodeInit of
        (False, _) \<Rightarrow> error_encountered (fst s)
      | (True, out, ctx) \<Rightarrow> s = (ctx, out))"

text \<open>What the decoder makes of a whole text.\<close>

definition decoded :: "bytes \<Rightarrow> bytes option" where
  "decoded xs =
     (case decode_loop xs EVP_DecodeInit of (ok, out, ctx) \<Rightarrow> if ok \<and> data_used ctx = 0 then Some out else None)"

interpretation dec: streaming "(EVP_DecodeInit, [])" dec_update dec_final
    "\<lambda>ys. 3 * length ys \<le> INT_MAX" dec_rep decoded
proof unfold_locales
  show "dec_rep (EVP_DecodeInit, []) []" by (simp add: dec_rep_def)
  fix s xs assume rep: "dec_rep s xs"
  obtain ok out ctx where r: "decode_loop xs EVP_DecodeInit = (ok, out, ctx)" by (metis prod_cases3)
  have err: "error_encountered ctx = (\<not> ok)"
    using decode_loop_error [OF r] by (simp add: EVP_DecodeInit_def)
  show "dec_final s = decoded xs"
    using rep r err
    by (cases ok) (auto simp: dec_rep_def dec_final_def decoded_def EVP_DecodeFinal_def)
  fix ys :: bytes assume small: "3 * length ys \<le> INT_MAX"
  show "dec_rep (dec_update ys s) (xs @ ys)"
  proof (cases ok)
    case False
    then show ?thesis
      using rep r by (simp add: dec_rep_def decode_loop_append dec_update_def EVP_DecodeUpdate_def)
  next
    case True
    then have s: "s = (ctx, out)" using rep r by (simp add: dec_rep_def)
    obtain q o' ctx' where q: "decode_loop ys ctx = (q, o', ctx')" by (metis prod_cases3)
    have "length o' \<le> INT_MAX"
      using length_decode_loop [OF q] small by simp
    then show ?thesis
      using r q err True decode_loop_error [OF q]
      by (cases q) (simp_all add: dec_rep_def decode_loop_append dec_update_def EVP_DecodeUpdate_def s)
  qed
qed

lemma sextet_not_space: "\<not> space (sextet n)" "sextet n \<noteq> 0x0a"
proof -
  have bin: "base64_ascii_to_bin (sextet n) \<noteq> 0xff"
  proof -
    have "unat (base64_ascii_to_bin (sextet n)) = n mod 64"
      using mod_less_divisor [of 64 n] by (simp add: ascii_to_bin_sextet(1) unat_of_nat)
    then show ?thesis using mod_less_divisor [of 64 n] by auto
  qed
  have "space c \<Longrightarrow> base64_ascii_to_bin c = 0xff" for c
    by (auto simp: ascii_to_bin_eq)
  then show "\<not> space (sextet n)" using bin by blast
  then show "sextet n \<noteq> 0x0a" by simp
qed

lemma filter_base64: "filter (\<lambda>c. \<not> space c) (base64 bs) = base64 bs"
  by (induction bs rule: base64.induct) (simp_all add: Let_def sextet_not_space(1)[simplified])

lemma filter_b64_lines: "filter (\<lambda>c. \<not> space c) (b64_lines bs) = base64 bs"
proof (induction bs rule: b64_lines.induct)
  case (1 bs)
  show ?case
  proof (cases "bs = []")
    case False
    have "base64 (take sizeof_data bs) @ base64 (drop sizeof_data bs) = base64 bs"
    proof (cases "length bs \<le> sizeof_data")
      case False
      then have "length (take sizeof_data bs) mod 3 = 0" by simp
      from base64_append [OF this, of "drop sizeof_data bs"] show ?thesis by simp
    qed simp
    then show ?thesis
      using 1 False by (subst b64_lines.simps) (simp add: filter_base64 [simplified])
  qed simp
qed

text \<open>Four characters complete a quad.\<close>

lemma decode_loop_quad:
  assumes "\<not> space a" "\<not> space b" "\<not> space c" "\<not> space d"
    and "data_used ctx = 0" "\<not> eof_seen ctx" "length (data ctx) = sizeof_data"
    and "base64_decode_quad [a, b, c, d] = Some bs"
  shows "\<exists>ctx'. decode_loop (a # b # c # d # inp) ctx
      = (case decode_loop inp ctx' of (ok, out, ctx) \<Rightarrow> (ok, bs @ out, ctx))
    \<and> data_used ctx' = 0 \<and> eof_seen ctx' = (length bs < 3) \<and> length (data ctx') = sizeof_data"
proof -
  obtain x0 x1 x2 x3 xs where data: "data ctx = x0 # x1 # x2 # x3 # xs"
    using assms(7) by (cases "data ctx"; cases "tl (data ctx)"; cases "tl (tl (data ctx))";
        cases "tl (tl (tl (data ctx)))") auto
  let ?ctx = "ctx\<lparr>data := a # b # c # d # xs, data_used := 0, eof_seen := (length bs < 3)\<rparr>"
  have quad: "base64_decode_quad (a # b # c # d # xs) = base64_decode_quad [a, b, c, d]"
    by (simp add: base64_decode_quad_def)
  have "decode_loop (a # b # c # d # inp) ctx
      = (case decode_loop inp ?ctx of (ok, out, ctx) \<Rightarrow> (ok, bs @ out, ctx))"
    using assms(1-6, 8) data quad
    by (simp add: decode_char_def Let_def numeral_eq_Suc split: prod.splits option.splits)
  then show ?thesis using assms(7) data by (intro exI [of _ ?ctx]) simp
qed

lemma decode_loop_base64:
  "data_used ctx = 0 \<Longrightarrow> \<not> eof_seen ctx \<Longrightarrow> length (data ctx) = sizeof_data \<Longrightarrow>
     \<exists>ctx'. decode_loop (base64 bs) ctx = (True, bs, ctx') \<and> data_used ctx' = 0"
proof (induction bs arbitrary: ctx rule: base64.induct)
  case (2 a)
  let ?n = "be_nat [a, 0, 0]"
  have q: "base64_decode_quad [sextet (?n div 64 ^ 3), sextet (?n div 64 ^ 2), 0x3d, 0x3d] = Some [a]"
    using decode_quads_base64 [of "[a]"] by (auto simp: Let_def split: option.splits if_splits)
  obtain ctx' where "decode_loop (base64 [a]) ctx
      = (case decode_loop [] ctx' of (ok, out, ctx) \<Rightarrow> (ok, [a] @ out, ctx))"
    "data_used ctx' = 0"
    using decode_loop_quad [OF sextet_not_space(1) sextet_not_space(1) _ _ 2 q, of "[]"]
    by (auto simp: Let_def)
  then show ?case by simp
next
  case (3 a b)
  let ?n = "be_nat [a, b, 0]"
  have q: "base64_decode_quad [sextet (?n div 64 ^ 3), sextet (?n div 64 ^ 2), sextet (?n div 64), 0x3d]
      = Some [a, b]"
    using decode_quads_base64 [of "[a, b]"] by (auto simp: Let_def split: option.splits if_splits)
  obtain ctx' where "decode_loop (base64 [a, b]) ctx
      = (case decode_loop [] ctx' of (ok, out, ctx) \<Rightarrow> (ok, [a, b] @ out, ctx))"
    "data_used ctx' = 0"
    using decode_loop_quad [OF sextet_not_space(1) sextet_not_space(1) sextet_not_space(1) _ 3 q, of "[]"]
    by (auto simp: Let_def)
  then show ?case by simp
next
  case (4 a b c bs)
  let ?n = "be_nat [a, b, c]"
  have q: "base64_decode_quad [sextet (?n div 64 ^ 3), sextet (?n div 64 ^ 2), sextet (?n div 64), sextet ?n]
      = Some [a, b, c]"
    using decode_quads_base64 [of "[a, b, c]"] by (auto simp: Let_def split: option.splits if_splits)
  obtain ctx' where run: "decode_loop (base64 (a # b # c # bs)) ctx
      = (case decode_loop (base64 bs) ctx' of (ok, out, ctx) \<Rightarrow> (ok, [a, b, c] @ out, ctx))"
    and "data_used ctx' = 0" "\<not> eof_seen ctx'" "length (data ctx') = sizeof_data"
    using decode_loop_quad [OF sextet_not_space(1) sextet_not_space(1) sextet_not_space(1)
        sextet_not_space(1) 4(2-4) q, of "base64 bs"]
    by (auto simp: Let_def)
  with 4(1) obtain ctx2 where "decode_loop (base64 bs) ctx' = (True, bs, ctx2)" "data_used ctx2 = 0"
    by blast
  with run show ?case by (intro exI [of _ ctx2]) simp
qed simp

lemma decoded_base64:
  assumes "filter (\<lambda>c. \<not> space c) inp = base64 bs"
  shows "decoded inp = Some bs"
proof -
  obtain ctx where "decode_loop (base64 bs) EVP_DecodeInit = (True, bs, ctx)" "data_used ctx = 0"
    using decode_loop_base64 [of EVP_DecodeInit bs] by (auto simp: EVP_DecodeInit_def)
  then show ?thesis
    using decode_loop_spaces [of inp EVP_DecodeInit] assms by (simp add: decoded_def)
qed

section \<open>What the coder promises\<close>

text \<open>(C16) The incremental encoder, however the input is cut into updates: the octets that the calls
  write are the line-broken Base64 text of the whole input (lines of 64 characters, the code of
  RFC 4648 with padding), and every call reports their number in \<open>*out_len\<close>, except that a call which
  writes more than \<open>INT_MAX\<close> of them reports that it wrote none.\<close>

theorem EVP_encode_chunks:
  assumes "\<forall>c\<in>set chunks. length c < 2 ^ 63"
  shows "concat (map snd (enc_calls chunks EVP_EncodeInit)) = b64_lines (concat chunks)
    \<and> (\<forall>(n, out)\<in>set (enc_calls chunks EVP_EncodeInit). n = (if length out \<le> INT_MAX then length out else 0))"
  using enc_calls_rep [OF enc.rep_init assms] by (auto simp: list_all_iff reported_def)

lemma EVP_encode_chunks_witness:
  "concat (map snd (enc_calls [[0x66], [0x6f, 0x6f], []] EVP_EncodeInit)) = [0x5a, 0x6d, 0x39, 0x76, 0x0a]
    \<and> list_all (\<lambda>(n, out). n = (if length out \<le> INT_MAX then length out else 0)) (enc_calls [[0x66], [0x6f, 0x6f], []] EVP_EncodeInit)"
proof -
  have "b64_lines [0x66, 0x6f, 0x6f] = [0x5a, 0x6d, 0x39, 0x76, 0x0a]"
    by (simp add: b64_lines_last Let_def sextet_def alphabet_nth)
  then show ?thesis using EVP_encode_chunks [of "[[0x66], [0x6f, 0x6f], []]"] by (simp add: list_all_iff)
qed

text \<open>(C17) The incremental decoder inverts the incremental encoder: fed the encoder's text in any
  pieces, it reports no error, accepts at the end, and has produced the input.\<close>

theorem EVP_decode_inverts_encode:
  assumes "\<forall>c\<in>set chunks. length c < 2 ^ 63" "\<forall>c\<in>set pieces. 3 * length c \<le> INT_MAX"
    and "concat pieces = enc_final (fold enc_update chunks (EVP_EncodeInit, []))"
  shows "dec_final (fold dec_update pieces (EVP_DecodeInit, [])) = Some (concat chunks)"
proof -
  have "dec_final (fold dec_update pieces (EVP_DecodeInit, [])) = decoded (concat pieces)"
    by (rule dec.chunked) (rule assms(2))
  moreover have "concat pieces = b64_lines (concat chunks)"
    unfolding assms(3) by (rule enc.chunked) (rule assms(1))
  ultimately show ?thesis by (simp add: decoded_base64 [OF filter_b64_lines])
qed

theorem EVP_decode_inverts_encode_witness:
  "dec_final (fold dec_update [[0x5a, 0x6d], [0x39], [0x76, 0x0a]] (EVP_DecodeInit, [])) = Some [0x66, 0x6f, 0x6f]"
proof -
  have "b64_lines [0x66, 0x6f, 0x6f] = [0x5a, 0x6d, 0x39, 0x76, 0x0a]"
    by (simp add: b64_lines_last Let_def sextet_def alphabet_nth)
  then have "concat [[0x5a, 0x6d], [0x39], [0x76, 0x0a]]
      = enc_final (fold enc_update [[0x66, 0x6f, 0x6f]] (EVP_EncodeInit, []))"
    by (simp add: enc.chunked [of "[[0x66, 0x6f, 0x6f]]", simplified])
  from EVP_decode_inverts_encode [OF _ _ this] show ?thesis by (simp add: INT_MAX_def)
qed

lemma decode_quads_length: "length (fst (decode_quads inp)) \<le> 3 * (length inp div 4)"
proof (induction inp rule: decode_quads.induct)
  case (1 a b c d inp)
  have quad: "length bs \<le> 3" if "base64_decode_quad [a, b, c, d] = Some bs" for bs
    using that by (auto simp: base64_decode_quad_def Let_def split: if_splits)
  have "length (a # b # c # d # inp) div 4 = Suc (length inp div 4)" by simp
  then show ?case
    using 1 quad by (cases "base64_decode_quad [a, b, c, d]") (fastforce split: prod.splits)+
qed auto

text \<open>(C18) The block codec: \<open>EVP_EncodeBlock\<close> is the Base64 code, \<open>EVP_DecodeBase64\<close> inverts it
  whenever the output buffer has the size \<open>EVP_DecodedLength\<close> asks for, and fails and writes nothing
  when it is smaller.\<close>

theorem EVP_DecodeBase64_inverts_encode:
  "EVP_EncodeBlock bs = base64 bs
   \<and> EVP_DecodeBase64 max_out (EVP_EncodeBlock bs)
      = (if max_out < 3 * ((length bs + 2) div 3) then (False, 0, []) else (True, length bs, bs))"
  by (simp add: EVP_EncodeBlock_eq EVP_DecodeBase64_def EVP_DecodedLength_def length_base64
      decode_quads_base64)

text \<open>(C19) Memory safety of the decoder, on any input and whether it succeeds or fails: it writes no
  more octets than the buffer holds and no more than \<open>EVP_DecodedLength\<close> announces, none at all if the
  buffer is smaller than that or the length is not one of a Base64 text; it reports the number of
  octets written on success and zero on failure.\<close>

theorem EVP_DecodeBase64_bounds:
  "case EVP_DecodeBase64 max_out inp of (ok, out_len, out) \<Rightarrow>
     length out \<le> max_out \<and> out_len = (if ok then length out else 0)
     \<and> (case EVP_DecodedLength (length inp) of
          None \<Rightarrow> \<not> ok \<and> out = []
        | Some max_len \<Rightarrow> (if max_out < max_len then \<not> ok \<and> out = [] else length out \<le> max_len))"
  using decode_quads_length [of inp]
  by (auto simp: EVP_DecodeBase64_def EVP_DecodedLength_def split: prod.splits)

text \<open>An input that fails behind its first quad, whose octets are written.\<close>

lemma EVP_DecodeBase64_fails_late:
  "EVP_DecodeBase64 6 (base64 [a, b, c] @ [0x3d, 0x3d, 0x3d, 0x3d]) = (False, 0, [a, b, c])"
proof -
  have "base64_decode_quad [0x3d, 0x3d, 0x3d, 0x3d] = None"
    by (simp add: base64_decode_quad_def Let_def ascii_to_bin_eq)
  then show ?thesis
    using decode_quads_base64 [of "[a, b, c]"]
    by (auto simp: EVP_DecodeBase64_def EVP_DecodedLength_def Let_def split: option.splits if_splits)
qed

lemma size_t_wrap:
  fixes a n :: nat
  assumes "a < 2 ^ 64" "n < 2 ^ 64"
  shows "(a + n) mod 2 ^ 64 < a \<longleftrightarrow> \<not> a + n < 2 ^ 64"
proof (cases "a + n < 2 ^ 64")
  case False
  then have "(a + n) mod 2 ^ 64 = a + n - 2 ^ 64"
    using assms by (subst mod_if) (simp add: le_mod_geq)
  then show ?thesis using False assms by simp
qed simp

text \<open>The number of quads times four, plus one, with the two checks for an overflow that the code
  makes on the way.\<close>

lemma quad_length:
  fixes w :: u64
  shows "(if drop_bit 2 (push_bit 2 w) \<noteq> w then None
      else if push_bit 2 w + 1 < push_bit 2 w then None else Some (push_bit 2 w + 1))
    = (if 4 * unat w + 1 < 2 ^ 64 then Some (of_nat (4 * unat w + 1)) else None)"
proof -
  have up: "unat (push_bit 2 w) = unat w mod 2 ^ 62 * 4"
    using mult_mod_left [of "unat w" "2 ^ 62" 4] by (simp add: push_bit_eq_mult unat_word_ariths mult.commute)
  have "unat (drop_bit 2 (push_bit 2 w)) = unat w mod 2 ^ 62"
    by (simp only: unat_drop_bit up) simp
  then have sh: "drop_bit 2 (push_bit 2 w) \<noteq> w \<longleftrightarrow> \<not> unat w < 2 ^ 62"
    unfolding word_unat_eq_iff by (metis mod_less mod_less_divisor zero_less_numeral zero_less_power)
  show ?thesis
  proof (cases "unat w < 2 ^ 62")
    case True
    then have "push_bit 2 w = of_nat (4 * unat w)"
      using up by (simp add: word_unat_eq_iff unat_of_nat del: of_nat_mult)
    moreover have "unat (of_nat (4 * unat w) + 1 :: u64) = 4 * unat w + 1" "unat (of_nat (4 * unat w) :: u64) = 4 * unat w"
      using True by (simp_all add: unat_word_ariths unat_of_nat del: of_nat_mult)
    ultimately have "\<not> push_bit 2 w + 1 < push_bit 2 w" "push_bit 2 w + 1 = of_nat (4 * unat w + 1)"
      by (simp_all add: word_less_nat_alt del: of_nat_mult)
    then show ?thesis using True sh by (simp add: add.commute)
  qed (simp add: sh)
qed

lemma EVP_EncodedLength_eq:
  "EVP_EncodedLength len =
     (let n = 4 * ((unat len + 2) div 3) + 1 in if n < 2 ^ 64 then Some (of_nat n) else None)"
proof -
  define m where "m = unat len"
  have m: "m < 2 ^ 64" using unat_u64_bound [of len] by (simp add: m_def)
  have len: "len = of_nat m" by (simp add: m_def)
  have wrap: "len + 2 < len \<longleftrightarrow> \<not> m + 2 < 2 ^ 64"
  proof -
    have "unat (len + 2) = (m + 2) mod 2 ^ 64" by (simp add: unat_word_ariths m_def)
    then show ?thesis using size_t_wrap [OF m, of 2] by (simp add: word_less_nat_alt m_def)
  qed
  show ?thesis
  proof (cases "m + 2 < 2 ^ 64")
    case False
    then have "2 ^ 64 div 3 \<le> (m + 2) div 3" by (intro div_le_mono) simp
    then have "\<not> 4 * ((m + 2) div 3) + 1 < 2 ^ 64" by simp
    then show ?thesis using False wrap by (simp add: EVP_EncodedLength_def Let_def flip: m_def)
  next
    case True
    define w where "w = (len + 2) div 3"
    have uw: "unat w = (m + 2) div 3"
      using True by (simp add: unat_div m_def unat_word_ariths w_def)
    have "EVP_EncodedLength len = (if drop_bit 2 (push_bit 2 w) \<noteq> w then None
        else if push_bit 2 w + 1 < push_bit 2 w then None else Some (push_bit 2 w + 1))"
      using True wrap unfolding EVP_EncodedLength_def Let_def w_def by simp
    then show ?thesis unfolding quad_length uw Let_def m_def .
  qed
qed

text \<open>(C20) \<open>EVP_EncodedLength\<close> is exact: for the length of any input it returns the number of octets that
  \<open>EVP_EncodeBlock\<close> writes for that input, its NUL included, and it fails exactly when that number
  does not fit a \<open>size_t\<close>.\<close>

theorem EVP_EncodedLength_exact:
  assumes "length src < 2 ^ 64"
  shows "EVP_EncodedLength (of_nat (length src)) =
     (let n = length (EVP_EncodeBlock_dst src) in if n < 2 ^ 64 then Some (of_nat n) else None)"
proof -
  have "unat (of_nat (length src) :: u64) = length src" using assms by (simp add: unat_of_nat)
  then show ?thesis
    by (simp only: EVP_EncodedLength_eq EVP_EncodeBlock_dst_def EVP_EncodeBlock_eq length_append length_base64) simp
qed

lemma EVP_EncodedLength_exact_witness:
  "EVP_EncodedLength (of_nat (length [0x66 :: u8, 0x6f, 0x6f, 0x21])) = Some 9
    \<and> length (EVP_EncodeBlock_dst [0x66, 0x6f, 0x6f, 0x21]) = 9"
proof -
  have "length (EVP_EncodeBlock_dst [0x66, 0x6f, 0x6f, 0x21]) = 9" by (simp add: EVP_EncodeBlock_dst_def Let_def)
  then show ?thesis using EVP_EncodedLength_exact [of "[0x66, 0x6f, 0x6f, 0x21]"] by simp
qed

text \<open>A text with a minus sign at its end is not trimmed but rejected.\<close>

lemma EVP_DecodeBlock_keeps_minus: "EVP_DecodeBlock (base64 bs @ [0x2d]) = (-1, [])"
proof -
  have "\<not> (c = 0x20 \<or> c = 0x09)" if "c \<in> set (base64 bs @ [0x2d])" for c
  proof -
    have "c \<in> set (filter (\<lambda>c. \<not> space c) (base64 bs)) \<or> c = 0x2d"
      unfolding filter_base64 using that by auto
    then show ?thesis by auto
  qed
  then have "dropWhile (\<lambda>c. c = 0x20 \<or> c = 0x09) (base64 bs @ [0x2d]) = base64 bs @ [0x2d]"
    by (cases "base64 bs @ [0x2d]") auto
  moreover have "length (base64 bs @ [0x2d]) mod 4 \<noteq> 0"
    by (simp add: length_base64 mod_Suc)
  ultimately show ?thesis
    by (simp add: EVP_DecodeBlock_def EVP_DecodedLength_def)
qed

end
