(* ===== verification/Md32.thy ===== *)
theory Md32
  imports Streaming
begin

unbundle bit_operations_syntax

text \<open>
  The collector the 32-bit hash functions share (crypto/fipsmodule/digest/md32_common.h). The C
  file is a template: each hash includes it with its own block function, byte order and output
  macro. Here these are arguments of the definitions. The locale \<open>md32\<close> states what a block
  function promises, and shows that the collector then computes the Merkle-Damgaard iteration
  of the padded message, however the message is cut into updates.
\<close>

section \<open>The context and the template (md32_common.h)\<close>

abbreviation (input) HASH_CBLOCK :: nat where "HASH_CBLOCK \<equiv> 64"

record md32_ctx =
  ctx_h :: "u32 list"
  ctx_Nl :: u32
  ctx_Nh :: u32
  ctx_data :: bytes
  ctx_num :: nat

text \<open>The macros of the byte order; the flag stands for \<open>DATA_ORDER_IS_BIG_ENDIAN\<close>.\<close>

fun HOST_c2l :: "bool \<Rightarrow> bytes \<Rightarrow> u32" where
  "HOST_c2l True c = push_bit 24 (ucast (c ! 0)) OR push_bit 16 (ucast (c ! 1))
     OR push_bit 8 (ucast (c ! 2)) OR ucast (c ! 3)"
| "HOST_c2l False c = ucast (c ! 0) OR push_bit 8 (ucast (c ! 1))
     OR push_bit 16 (ucast (c ! 2)) OR push_bit 24 (ucast (c ! 3))"

fun HOST_l2c :: "bool \<Rightarrow> u32 \<Rightarrow> bytes" where
  "HOST_l2c True l = [ucast (drop_bit 24 l AND 0xff), ucast (drop_bit 16 l AND 0xff),
     ucast (drop_bit 8 l AND 0xff), ucast (l AND 0xff)]"
| "HOST_l2c False l = [ucast (l AND 0xff), ucast (drop_bit 8 l AND 0xff),
     ucast (drop_bit 16 l AND 0xff), ucast (drop_bit 24 l AND 0xff)]"

text \<open>\<open>OPENSSL_memcpy(dst + n, src, length src)\<close> into a buffer.\<close>

definition memcpy_at :: "nat \<Rightarrow> bytes \<Rightarrow> bytes \<Rightarrow> bytes" where
  "memcpy_at n src dst = take n dst @ src @ drop (n + length src) dst"

type_synonym 'w block_fn = "'w list \<Rightarrow> bytes \<Rightarrow> nat \<Rightarrow> 'w list"

definition HASH_UPDATE_blocks :: "u32 block_fn \<Rightarrow> bytes \<Rightarrow> 'a md32_ctx_scheme \<Rightarrow> 'a md32_ctx_scheme" where
  "HASH_UPDATE_blocks block data c =
     (let n = length data div HASH_CBLOCK;
          c = (if n > 0 then c\<lparr>ctx_h := block (ctx_h c) data n\<rparr> else c);
          data = drop (n * HASH_CBLOCK) data
      in if length data \<noteq> 0 then c\<lparr>ctx_num := length data, ctx_data := memcpy_at 0 data (ctx_data c)\<rparr>
         else c)"

definition HASH_UPDATE :: "u32 block_fn \<Rightarrow> bytes \<Rightarrow> 'a md32_ctx_scheme \<Rightarrow> 'a md32_ctx_scheme" where
  "HASH_UPDATE block data c =
     (let len = length data in
      if len = 0 then c
      else let l = ctx_Nl c + push_bit 3 (of_nat len);
               c = (if l < ctx_Nl c then c\<lparr>ctx_Nh := ctx_Nh c + 1\<rparr> else c);
               c = c\<lparr>ctx_Nh := ctx_Nh c + of_nat (len div 2 ^ 29)\<rparr>;
               c = c\<lparr>ctx_Nl := l\<rparr>;
               n = ctx_num c
        in if n \<noteq> 0 then
             if len \<ge> HASH_CBLOCK \<or> len + n \<ge> HASH_CBLOCK then
               let c = c\<lparr>ctx_data := memcpy_at n (take (HASH_CBLOCK - n) data) (ctx_data c)\<rparr>;
                   c = c\<lparr>ctx_h := block (ctx_h c) (ctx_data c) 1\<rparr>;
                   n = HASH_CBLOCK - n;
                   c = c\<lparr>ctx_num := 0\<rparr>;
                   c = c\<lparr>ctx_data := replicate HASH_CBLOCK 0\<rparr>
               in HASH_UPDATE_blocks block (drop n data) c
             else c\<lparr>ctx_data := memcpy_at n data (ctx_data c), ctx_num := n + len\<rparr>
           else HASH_UPDATE_blocks block data c)"

definition HASH_TRANSFORM :: "u32 block_fn \<Rightarrow> bytes \<Rightarrow> 'a md32_ctx_scheme \<Rightarrow> 'a md32_ctx_scheme" where
  "HASH_TRANSFORM block data c = c\<lparr>ctx_h := block (ctx_h c) data 1\<rparr>"

text \<open>The output macro reads the context and may make the function return 0 (\<open>None\<close>).\<close>

definition HASH_FINAL :: "u32 block_fn \<Rightarrow> bool \<Rightarrow> ('a md32_ctx_scheme \<Rightarrow> bytes option)
    \<Rightarrow> 'a md32_ctx_scheme \<Rightarrow> bytes option \<times> 'a md32_ctx_scheme" where
  "HASH_FINAL block big make_string c =
     (let n = ctx_num c;
          c = c\<lparr>ctx_data := (ctx_data c)[n := 0x80]\<rparr>;
          n = n + 1;
          (n, c) = (if n > HASH_CBLOCK - 8 then
                      let c = c\<lparr>ctx_data := memcpy_at n (replicate (HASH_CBLOCK - n) 0) (ctx_data c)\<rparr>
                      in (0, c\<lparr>ctx_h := block (ctx_h c) (ctx_data c) 1\<rparr>)
                    else (n, c));
          c = c\<lparr>ctx_data := memcpy_at n (replicate (HASH_CBLOCK - 8 - n) 0) (ctx_data c)\<rparr>;
          bits = (if big then HOST_l2c big (ctx_Nh c) @ HOST_l2c big (ctx_Nl c)
                  else HOST_l2c big (ctx_Nl c) @ HOST_l2c big (ctx_Nh c));
          c = c\<lparr>ctx_data := memcpy_at (HASH_CBLOCK - 8) bits (ctx_data c)\<rparr>;
          c = c\<lparr>ctx_h := block (ctx_h c) (ctx_data c) 1\<rparr>;
          c = c\<lparr>ctx_num := 0\<rparr>;
          c = c\<lparr>ctx_data := replicate HASH_CBLOCK 0\<rparr>
      in (make_string c, c))"

section \<open>Specification: iterating a compression function over the padded message\<close>

primrec chunks :: "nat \<Rightarrow> nat \<Rightarrow> 'a list \<Rightarrow> 'a list list" where
  "chunks B 0 xs = []"
| "chunks B (Suc n) xs = take B xs # chunks B n (drop B xs)"

definition iterate_blocks :: "nat \<Rightarrow> ('s \<Rightarrow> bytes \<Rightarrow> 's) \<Rightarrow> 's \<Rightarrow> bytes \<Rightarrow> 's" where
  "iterate_blocks B compress s xs = foldl compress s (chunks B (length xs div B) xs)"

text \<open>
  Padding to a multiple of \<open>B\<close> bytes: a one bit, zeros, and the message length in bits in the last
  \<open>L\<close> bytes (modulo \<open>256 ^ L\<close>), in the hash's byte order.
\<close>

definition md_pad :: "bool \<Rightarrow> nat \<Rightarrow> nat \<Rightarrow> bytes \<Rightarrow> bytes" where
  "md_pad big B L xs =
     xs @ 0x80 # replicate ((B - L - 1 + B - length xs mod B) mod B) 0
       @ (if big then id else rev) (nat_be L (8 * length xs))"

definition merkle_damgard :: "bool \<Rightarrow> nat \<Rightarrow> nat \<Rightarrow> ('s \<Rightarrow> bytes \<Rightarrow> 's) \<Rightarrow> 's \<Rightarrow> bytes \<Rightarrow> 's" where
  "merkle_damgard big B L compress iv xs = iterate_blocks B compress iv (md_pad big B L xs)"

lemma length_chunks [simp]: "length (chunks B n xs) = n"
  by (induction n arbitrary: xs) auto

lemma chunks_add: "length xs = m * B \<Longrightarrow> chunks B (m + n) (xs @ ys) = chunks B m xs @ chunks B n ys"
  by (induction m arbitrary: xs) auto

lemma chunks_prefix: "m * B \<le> length xs \<Longrightarrow> chunks B m (xs @ ys) = chunks B m xs"
  by (induction m arbitrary: xs) auto

lemma chunks_take: "m * B \<le> length xs \<Longrightarrow> chunks B m (take (m * B) xs) = chunks B m xs"
  using chunks_prefix [of m B "take (m * B) xs" "drop (m * B) xs"] by simp

lemma chunks_mem_length: "m * B \<le> length xs \<Longrightarrow> x \<in> set (chunks B m xs) \<Longrightarrow> length x = B"
proof (induction m arbitrary: xs)
  case (Suc m)
  have "m * B \<le> length (drop B xs)" "B \<le> length xs" using Suc.prems(1) by simp_all
  moreover have "x = take B xs \<or> x \<in> set (chunks B m (drop B xs))" using Suc.prems(2) by simp
  ultimately show ?case using Suc.IH [of "drop B xs"] by auto
qed simp

lemma iterate_blocks_Nil [simp]: "iterate_blocks B compress s [] = s"
  by (simp add: iterate_blocks_def)

lemma iterate_blocks_append:
  assumes "0 < B" "B dvd length xs"
  shows "iterate_blocks B compress s (xs @ ys) = iterate_blocks B compress (iterate_blocks B compress s xs) ys"
proof -
  from assms(2) obtain m where m: "length xs = m * B" by (metis dvd_mult_div_cancel mult.commute)
  with assms(1) have "length (xs @ ys) div B = m + length ys div B" by simp
  with m assms(1) show ?thesis by (simp add: iterate_blocks_def chunks_add)
qed

lemma iterate_blocks_short: "length xs < B \<Longrightarrow> iterate_blocks B compress s xs = s"
  by (simp add: iterate_blocks_def)

lemma iterate_blocks_one: "0 < B \<Longrightarrow> length xs = B \<Longrightarrow> iterate_blocks B compress s xs = compress s xs"
  by (simp add: iterate_blocks_def)

lemma iterate_blocks_rest:
  assumes "0 < B"
  shows "iterate_blocks B compress s xs = iterate_blocks B compress s (take (length xs div B * B) xs)"
  by (simp add: iterate_blocks_def min.absorb2 chunks_take assms)

text \<open>
  A buffer of the incomplete last block, zero behind it: the shape the collectors keep.
\<close>

definition tail :: "nat \<Rightarrow> bytes \<Rightarrow> bytes" where
  "tail B xs = drop (length xs div B * B) xs"

lemma length_tail [simp]: "0 < B \<Longrightarrow> length (tail B xs) = length xs mod B"
  by (simp add: tail_def minus_div_mult_eq_mod)

lemma split_tail: "xs = take (length xs div B * B) xs @ tail B xs"
  by (simp add: tail_def)

lemma tail_append_short:
  assumes "0 < B" "length (tail B xs) + length ys < B"
  shows "tail B (xs @ ys) = tail B xs @ ys"
    and "iterate_blocks B compress s (xs @ ys) = iterate_blocks B compress s xs"
proof -
  have short: "length xs mod B + length ys < B" using assms(2) by (simp only: length_tail [OF assms(1)])
  then have "length (xs @ ys) div B = length xs div B"
    by (simp add: div_add1_eq [of "length xs"] mod_add_right_eq)
  then show "tail B (xs @ ys) = tail B xs @ ys"
      and "iterate_blocks B compress s (xs @ ys) = iterate_blocks B compress s xs"
    by (simp_all add: tail_def iterate_blocks_def chunks_prefix)
qed

lemma tail_full:
  assumes "0 < B" "B dvd length xs"
  shows "tail B (xs @ ys) = tail B ys"
proof -
  from assms(2) obtain m where m: "length xs = m * B" by (metis dvd_mult_div_cancel mult.commute)
  with assms(1) have "length (xs @ ys) div B * B = length xs + length ys div B * B"
    by (simp add: add_mult_distrib)
  then show ?thesis by (simp add: tail_def)
qed

section \<open>The 64-bit message length in two words\<close>

text \<open>
  Both collectors keep the message length in bits in a low and a high word, and detect the carry
  by comparing the sum with an operand.
\<close>

lemma counter_add:
  fixes lo hi :: "'a::len word" and m :: nat
  defines "l \<equiv> lo + of_nat m"
  defines "h \<equiv> (if l < lo then hi + 1 else hi) + of_nat (m div 2 ^ LENGTH('a))"
  shows "unat h * 2 ^ LENGTH('a) + unat l = (unat hi * 2 ^ LENGTH('a) + unat lo + m) mod 2 ^ (2 * LENGTH('a))"
proof -
  define P :: nat where "P = 2 ^ LENGTH('a)"
  have P: "0 < P" "unat lo < P" by (simp_all add: P_def)
  define a q where "a = m mod P" and "q = m div P"
  have m: "m = q * P + a" and a: "a < P" using P(1) by (simp_all add: a_def q_def)
  have l: "unat l = (unat lo + a) mod P"
    by (simp add: l_def unat_word_ariths unat_of_nat mod_add_right_eq P_def a_def)
  define c :: nat where "c = (if unat lo + a < P then 0 else 1)"
  have l': "unat l + c * P = unat lo + a"
    using l a P(2) by (auto simp: c_def le_mod_geq)
  have less: "l < lo \<longleftrightarrow> c = 1"
    using l' a P(2) by (auto simp: c_def word_less_nat_alt split: if_splits)
  have "unat h = (unat hi + c + q) mod P"
    using less by (auto simp: h_def c_def q_def P_def unat_word_ariths unat_of_nat mod_simps)
  then have "unat h * P + unat l = ((unat hi + c + q) * P + unat l) mod (P * P)"
    using unsigned_less [of l] P(1) by (simp add: mod_mult2_eq P_def)
  also have "(unat hi + c + q) * P + unat l = unat hi * P + unat lo + m"
    using l' m by (simp add: algebra_simps)
  also have "P * P = 2 ^ (2 * LENGTH('a))" by (simp add: P_def power_add mult_2)
  finally show ?thesis by (simp add: P_def)
qed

lemma of_nat_push_bit_3: "push_bit 3 (of_nat len :: 'a::len word) = of_nat (8 * len)"
  by (simp add: push_bit_eq_mult)

lemma HOST_l2c_be: "HOST_l2c True l = nat_be 4 (unat l)"
proof -
  have byte: "ucast (drop_bit (8 * k) l AND 0xff) = (of_nat (unat l div 256 ^ k mod 256) :: u8)" for k
  proof -
    have "ucast (drop_bit (8 * k) l AND 0xff) = (ucast (drop_bit (8 * k) l) :: u8)"
      using unat_and_mask [of "drop_bit (8 * k) l" 8]
      by (simp add: word_unat_eq_iff unsigned_ucast_eq unsigned_take_bit_eq take_bit_eq_mod)
    also have "\<dots> = of_nat (unat (drop_bit (8 * k) l))" by simp
    also have "unat (drop_bit (8 * k) l) = unat l div 256 ^ k"
      by (simp add: unat_drop_bit power_mult)
    finally show ?thesis by (simp add: word_unat_eq_iff unat_of_nat)
  qed
  have "nat_be 4 v = [of_nat (v div 256 ^ 3 mod 256), of_nat (v div 256 ^ 2 mod 256),
      of_nat (v div 256 ^ 1 mod 256), of_nat (v div 256 ^ 0 mod 256)]" for v
  proof -
    have four: "(4::nat) = Suc (Suc (Suc (Suc 0)))" by simp
    have "nat_be 4 v = nat_be (Suc (Suc (Suc (Suc 0)))) v" by (subst four) (rule refl)
    also have "\<dots> = [of_nat (v div 256 div 256 div 256 mod 256), of_nat (v div 256 div 256 mod 256),
        of_nat (v div 256 mod 256), of_nat (v mod 256)]"
      by (simp only: nat_be.simps append_Nil append_Cons)
    finally show ?thesis
      by (simp only: power3_eq_cube power2_eq_square div_mult2_eq power_one_right power_0 div_by_1)
  qed
  then show ?thesis
    using byte [of 0] byte [of 1] byte [of 2] byte [of 3] by simp
qed

lemma HOST_l2c_le: "HOST_l2c False l = rev (nat_be 4 (unat l))"
  by (simp flip: HOST_l2c_be)

lemma nat_be_two: "v < 256 ^ n \<Longrightarrow> nat_be (m + n) (u * 256 ^ n + v) = nat_be m u @ nat_be n v"
proof (induction n arbitrary: v)
  case (Suc n)
  have "v div 256 < 256 ^ n" using Suc.prems by (simp add: div_less_iff_less_mult mult.commute)
  have e: "(u * 256 ^ Suc n + v) div 256 = u * 256 ^ n + v div 256" "(u * 256 ^ Suc n + v) mod 256 = v mod 256"
    using mod_mult_self3 [of "u * 256 ^ n" 256 v] by (simp_all add: mult.assoc mult.commute mult.left_commute)
  then show ?case using Suc.IH [OF \<open>v div 256 < 256 ^ n\<close>] by simp
qed simp

declare HOST_l2c.simps [simp del] HOST_c2l.simps [simp del]

section \<open>The collector computes the padded iteration\<close>

text \<open>The context \<open>c\<close> has absorbed \<open>xs\<close>; the buffer is zero where it is unused.\<close>

definition md32_rep :: "(u32 list \<Rightarrow> bytes \<Rightarrow> u32 list) \<Rightarrow> u32 list \<Rightarrow> 'a md32_ctx_scheme \<Rightarrow> bytes \<Rightarrow> bool" where
  "md32_rep compress iv c xs \<longleftrightarrow>
     ctx_h c = iterate_blocks 64 compress iv xs \<and> ctx_num c = length xs mod 64
     \<and> ctx_data c = tail 64 xs @ replicate (64 - length xs mod 64) 0
     \<and> unat (ctx_Nh c) * 2 ^ 32 + unat (ctx_Nl c) = 8 * length xs mod 2 ^ 64"

lemma memcpy_at_append: "length pre = n \<Longrightarrow> memcpy_at n src (pre @ rest) = pre @ src @ drop (length src) rest"
  by (simp add: memcpy_at_def)

locale md32 =
  fixes block :: "u32 block_fn"
    and compress :: "u32 list \<Rightarrow> bytes \<Rightarrow> u32 list"
    and big :: bool
  assumes block_compress:
    "0 < n \<Longrightarrow> n * 64 \<le> length data \<Longrightarrow> block s data n = foldl compress s (chunks 64 n data)"
begin

lemma block_one: "length data = 64 \<Longrightarrow> block s data 1 = compress s data"
  using block_compress [of 1 data s] by simp

lemma update_blocks:
  assumes "ctx_h c = iterate_blocks 64 compress iv xs" "64 dvd length xs" "ctx_num c = 0"
    and "ctx_data c = replicate 64 0"
    and "unat (ctx_Nh c) * 2 ^ 32 + unat (ctx_Nl c) = 8 * length (xs @ ys) mod 2 ^ 64"
  shows "md32_rep compress iv (HASH_UPDATE_blocks block ys c) (xs @ ys)"
proof -
  have h: "(if 0 < length ys div 64 then block (ctx_h c) ys (length ys div 64) else ctx_h c)
      = iterate_blocks 64 compress iv (xs @ ys)"
    using block_compress [of "length ys div 64" ys "ctx_h c"]
    by (auto simp: assms(1,2) iterate_blocks_append iterate_blocks_short div_eq_0_iff iterate_blocks_def [of _ _ _ ys])
  have t: "tail 64 (xs @ ys) = drop (length ys div 64 * 64) ys"
    using assms(2) by (simp add: tail_full tail_def [of _ ys])
  have n: "length (drop (length ys div 64 * 64) ys) = length ys mod 64" "length (xs @ ys) mod 64 = length ys mod 64"
    using assms(2) by (auto simp: minus_div_mult_eq_mod mod_add_left_eq [symmetric] mod_0_imp_dvd)
  have d: "memcpy_at 0 (drop (length ys div 64 * 64) ys) (replicate 64 0)
      = drop (length ys div 64 * 64) ys @ replicate (64 - length ys mod 64) 0"
    using n(1) by (simp add: memcpy_at_def)
  show ?thesis
    using h assms(3-5) t n d unfolding md32_rep_def HASH_UPDATE_blocks_def Let_def
    by (auto split: if_splits)
qed

lemma update_rep:
  assumes rep: "md32_rep compress iv c xs"
  shows "md32_rep compress iv (HASH_UPDATE block ys c) (xs @ ys)"
proof (cases "ys = []")
  case True
  with rep show ?thesis by (simp add: HASH_UPDATE_def)
next
  case False
  define l where "l = ctx_Nl c + push_bit 3 (of_nat (length ys))"
  define hh where "hh = (if l < ctx_Nl c then ctx_Nh c + 1 else ctx_Nh c) + of_nat (length ys div 2 ^ 29)"
  have "8 * length ys div 2 ^ 32 = length ys div 2 ^ 29"
    by simp
  then have count: "unat hh * 2 ^ 32 + unat l = 8 * length (xs @ ys) mod 2 ^ 64"
    using counter_add [where lo = "ctx_Nl c" and hi = "ctx_Nh c" and m = "8 * length ys"] rep
    unfolding l_def hh_def md32_rep_def of_nat_push_bit_3
    by (simp add: mod_add_left_eq distrib_left)
  define c1 where "c1 = c\<lparr>ctx_Nh := hh, ctx_Nl := l\<rparr>"
  have c1: "ctx_Nh c1 = hh" "ctx_Nl c1 = l" "ctx_h c1 = ctx_h c" "ctx_num c1 = ctx_num c" "ctx_data c1 = ctx_data c"
    by (simp_all add: c1_def)
  define n where "n = ctx_num c"
  have n: "n = length xs mod 64" "n < 64" "length (tail 64 xs) = n" using rep by (simp_all add: n_def md32_rep_def)
  have upd: "HASH_UPDATE block ys c =
      (if n \<noteq> 0 then
         if length ys \<ge> 64 \<or> length ys + n \<ge> 64 then
           HASH_UPDATE_blocks block (drop (64 - n) ys)
             (c1\<lparr>ctx_h := block (ctx_h c) (memcpy_at n (take (64 - n) ys) (ctx_data c)) 1, ctx_num := 0,
                ctx_data := replicate 64 0\<rparr>)
         else c1\<lparr>ctx_data := memcpy_at n ys (ctx_data c), ctx_num := n + length ys\<rparr>
       else HASH_UPDATE_blocks block ys c1)"
    using False by (simp add: HASH_UPDATE_def Let_def c1_def hh_def l_def n_def)
  consider (fill) "n \<noteq> 0" "64 \<le> length ys + n" | (keep) "n \<noteq> 0" "length ys + n < 64" | (direct) "n = 0" by linarith
  then show ?thesis
  proof cases
    case fill
    define ys1 ys2 where "ys1 = take (64 - n) ys" and "ys2 = drop (64 - n) ys"
    have ys: "ys = ys1 @ ys2" "length ys1 = 64 - n" using fill n by (auto simp: ys1_def ys2_def)
    have buf: "memcpy_at n ys1 (ctx_data c) = tail 64 xs @ ys1"
      using rep n ys(2) by (simp add: md32_rep_def memcpy_at_append)
    have len: "length (tail 64 xs @ ys1) = 64" using n ys(2) by simp
    have full: "xs @ ys1 = take (length xs div 64 * 64) xs @ (tail 64 xs @ ys1)"
      using split_tail [of xs 64] by (metis append_assoc)
    have front: "64 dvd length (take (length xs div 64 * 64) xs)"
      by (simp add: min.absorb2)
    have h: "block (ctx_h c) (tail 64 xs @ ys1) 1 = iterate_blocks 64 compress iv (xs @ ys1)"
      unfolding block_one [OF len] full iterate_blocks_append [OF zero_less_numeral front]
      using rep len iterate_blocks_rest [of 64 compress iv xs]
      by (simp add: md32_rep_def iterate_blocks_one)
    have dvd: "64 dvd length (xs @ ys1)"
      unfolding full using front len by (simp del: length_take)
    have "md32_rep compress iv (HASH_UPDATE_blocks block ys2
        (c1\<lparr>ctx_h := block (ctx_h c) (memcpy_at n ys1 (ctx_data c)) 1, ctx_num := 0, ctx_data := replicate 64 0\<rparr>))
        ((xs @ ys1) @ ys2)"
      by (rule update_blocks) (use h dvd buf count ys in \<open>simp_all add: c1\<close>)
    with fill show ?thesis by (simp add: upd ys1_def ys2_def)
  next
    case keep
    then have short: "length (tail 64 xs) + length ys < 64" using n by simp
    have "(length xs + length ys) mod 64 = n + length ys"
      using keep n by (simp add: mod_add_left_eq [symmetric, of "length xs"])
    with keep show ?thesis
      using rep count tail_append_short(1) [OF zero_less_numeral short] tail_append_short(2) [OF zero_less_numeral short, of compress iv] n
      by (simp add: upd md32_rep_def c1 memcpy_at_append) 
  next
    case direct
    then have "64 dvd length xs" "tail 64 xs = []" using n by (auto simp flip: length_0_conv)
    with direct rep count show ?thesis
      by (simp add: upd) (rule update_blocks; simp add: md32_rep_def c1)
  qed
qed

text \<open>The last call pads what is in the buffer with one or two blocks.\<close>

lemma final_rep:
  assumes rep: "md32_rep compress iv c xs"
  shows "HASH_FINAL block big make_string c =
    (let c' = c\<lparr>ctx_h := merkle_damgard big 64 8 compress iv xs, ctx_num := 0, ctx_data := replicate 64 0\<rparr>
     in (make_string c', c'))"
proof -
  define r where "r = length xs mod 64"
  define t where "t = tail 64 xs"
  define len8 where "len8 = (if big then id else rev) (nat_be 8 (8 * length xs))"
  have r: "r < 64" "length t = r" by (simp_all add: r_def t_def)
  have len8: "length len8 = 8" by (simp add: len8_def)
  have bits: "(if big then HOST_l2c big (ctx_Nh c) @ HOST_l2c big (ctx_Nl c)
      else HOST_l2c big (ctx_Nl c) @ HOST_l2c big (ctx_Nh c)) = len8"
  proof -
    have "nat_be 8 (8 * length xs) = nat_be 8 (8 * length xs mod 256 ^ 8)" by (simp only: nat_be_mod)
    also have "\<dots> = nat_be (4 + 4) (unat (ctx_Nh c) * 256 ^ 4 + unat (ctx_Nl c))"
      using rep by (simp add: md32_rep_def)
    also have "\<dots> = nat_be 4 (unat (ctx_Nh c)) @ nat_be 4 (unat (ctx_Nl c))"
      by (rule nat_be_two) (use unat_u32_bound in simp)
    finally show ?thesis by (cases big) (simp_all add: len8_def HOST_l2c_be HOST_l2c_le)
  qed
  define z where "z = (64 - 8 - 1 + 64 - length xs mod 64) mod 64"
  have pad: "md_pad big 64 8 xs = take (length xs div 64 * 64) xs @ (t @ 0x80 # replicate z 0 @ len8)"
    unfolding md_pad_def z_def [symmetric] len8_def [symmetric] t_def by (subst split_tail [of xs 64]) simp
  have front: "64 dvd length (take (length xs div 64 * 64) xs)" by (simp add: min.absorb2)
  have h: "ctx_h c = iterate_blocks 64 compress iv (take (length xs div 64 * 64) xs)"
    using rep iterate_blocks_rest [of 64 compress iv xs] by (simp add: md32_rep_def)
  have md: "merkle_damgard big 64 8 compress iv xs = iterate_blocks 64 compress (ctx_h c) (t @ 0x80 # replicate z 0 @ len8)"
    unfolding merkle_damgard_def pad by (subst iterate_blocks_append) (simp_all add: front h)
  have num: "ctx_num c = r" and data: "ctx_data c = t @ replicate (64 - r) 0"
    using rep by (simp_all add: md32_rep_def r_def t_def)
  have rep_Suc: "replicate (64 - r) 0 = 0 # replicate (63 - r) (0 :: u8)"
    using r(1) by (simp add: Suc_diff_Suc flip: replicate_Suc)
  have data1: "(t @ replicate (64 - r) 0)[r := 0x80] = (t @ [0x80]) @ replicate (63 - r) 0"
    using r by (simp add: rep_Suc list_update_append)
  show ?thesis
  proof (cases "r \<le> 55")
    case True
    then have z: "z = 55 - r" by (simp add: z_def r_def [symmetric] le_mod_geq)
    have "memcpy_at 56 len8 (memcpy_at (r + 1) (replicate (55 - r) 0) ((t @ [0x80]) @ replicate (63 - r) 0))
        = t @ 0x80 # replicate z 0 @ len8"
    proof -
      have "memcpy_at (r + 1) (replicate (55 - r) 0) ((t @ [0x80]) @ replicate (63 - r) 0)
          = (t @ 0x80 # replicate (55 - r) 0) @ replicate 8 0"
        using r True by (subst memcpy_at_append) simp_all
      also have "memcpy_at 56 len8 \<dots> = (t @ 0x80 # replicate (55 - r) 0) @ len8"
        using r True len8 by (subst memcpy_at_append) simp_all
      finally show ?thesis by (simp add: z)
    qed
    moreover have "length (t @ 0x80 # replicate z 0 @ len8) = 64" using r True len8 by (simp add: z)
    ultimately show ?thesis
      using True r bits unfolding HASH_FINAL_def md
      by (cases big) (simp_all add: Let_def num data data1 block_one iterate_blocks_one del: One_nat_def)
  next
    case False
    then have z: "z = 119 - r" using r by (simp add: z_def r_def [symmetric] le_mod_geq)
    define b1 b2 where "b1 = t @ 0x80 # replicate (63 - r) 0" and "b2 = replicate 56 0 @ len8"
    have split: "t @ 0x80 # replicate z 0 @ len8 = b1 @ b2"
    proof -
      have "119 - r = (63 - r) + 56" using r by simp
      then show ?thesis by (simp only: b1_def b2_def z replicate_add append_assoc append_Cons)
    qed
    have len: "length b1 = 64" "length b2 = 64" using r len8 by (simp_all add: b1_def b2_def)
    have m1: "memcpy_at (r + 1) (replicate (63 - r) 0) ((t @ [0x80]) @ replicate (63 - r) 0) = b1"
      using r by (simp add: memcpy_at_def b1_def)
    have m2: "memcpy_at 56 len8 (memcpy_at 0 (replicate 56 0) b1) = b2"
      using len(1) len8 by (simp add: memcpy_at_def b2_def)
    have "iterate_blocks 64 compress (ctx_h c) (b1 @ b2) = compress (compress (ctx_h c) b1) b2"
      using len by (subst iterate_blocks_append) (simp_all add: iterate_blocks_one)
    then show ?thesis
      using False r bits len m1 m2 unfolding HASH_FINAL_def md split
      by (cases big) (simp_all add: Let_def num data data1 block_one del: One_nat_def)
  qed
qed

end

section \<open>What the block functions share\<close>

text \<open>
  The files of the hashes define \<open>ROTATE\<close> each for itself, with the same text. The unrolled block
  functions pass registers to their round macros by name, in rotating roles; a register file is
  a list and a register name an index.
\<close>

definition ROTATE :: "u32 \<Rightarrow> nat \<Rightarrow> u32" where
  "ROTATE a n = push_bit n a OR drop_bit (32 - n) a"

abbreviation (input) rA :: nat where "rA \<equiv> 0"
abbreviation (input) rB :: nat where "rB \<equiv> 1"
abbreviation (input) rC :: nat where "rC \<equiv> 2"
abbreviation (input) rD :: nat where "rD \<equiv> 3"

lemma rotl_shifts:
  fixes w :: "'a::len word"
  assumes "0 < n" "n < LENGTH('a)"
  shows "push_bit n w OR drop_bit (LENGTH('a) - n) w = word_rotl n w"
proof (rule bit_word_eqI)
  fix k assume k: "k < LENGTH('a)"
  have "(k + LENGTH('a) - n) mod LENGTH('a) = (if n \<le> k then k - n else k + LENGTH('a) - n)"
  proof (cases "n \<le> k")
    case True
    then have "k + LENGTH('a) - n = (k - n) + LENGTH('a)" by simp
    then have "(k + LENGTH('a) - n) mod LENGTH('a) = (k - n) mod LENGTH('a)" by (simp only: mod_add_self2)
    also have "(k - n) mod LENGTH('a) = k - n" using k by simp
    finally show ?thesis using True by simp
  qed (use assms k in simp)
  moreover have "\<not> bit w (k + LENGTH('a) - n)" if "n \<le> k"
    using that bit_imp_le_length [of w "k + LENGTH('a) - n"] by auto
  ultimately show "bit (push_bit n w OR drop_bit (LENGTH('a) - n) w) k \<longleftrightarrow> bit (word_rotl n w) k"
    using assms k by (auto simp: bit_word_rotl_iff bit_or_iff bit_push_bit_iff bit_drop_bit_eq possible_bit_word add.commute)
qed

lemma rotr_shifts:
  fixes w :: "'a::len word"
  assumes "0 < n" "n < LENGTH('a)"
  shows "drop_bit n w OR push_bit (LENGTH('a) - n) w = word_rotr n w"
proof -
  have "drop_bit n w OR push_bit (LENGTH('a) - n) w
      = push_bit (LENGTH('a) - n) w OR drop_bit (LENGTH('a) - (LENGTH('a) - n)) w"
    using assms by (simp add: or.commute)
  also have "\<dots> = word_rotl (LENGTH('a) - n) w"
    by (rule rotl_shifts) (use assms in simp_all)
  also have "\<dots> = word_rotr n w"
    using assms by (simp add: word_rotl_eq_word_rotr)
  finally show ?thesis .
qed

lemma ROTATE_rotl: "0 < n \<Longrightarrow> n < 32 \<Longrightarrow> ROTATE a n = word_rotl n a"
  using rotl_shifts [of n a] by (simp add: ROTATE_def)

lemma ROTATE_rotr: "0 < n \<Longrightarrow> n < 32 \<Longrightarrow> ROTATE a n = word_rotr (32 - n) a"
  using ROTATE_rotl [of n a] rotr_shifts [of "32 - n" a] rotl_shifts [of n a]
  by (simp add: or.commute)

lemma iterate_blocks_length:
  assumes "\<And>s b. length (compress s b) = n" "length iv = n"
  shows "length (iterate_blocks B compress iv xs) = n"
proof -
  have "length (foldl compress iv bs) = n" for bs
    by (induction bs rule: rev_induct) (simp_all add: assms)
  then show ?thesis by (simp add: iterate_blocks_def)
qed

text \<open>
  Four registers in rotating roles: the macro at step \<open>i\<close> overwrites the register whose turn it is;
  the textbook step moves all four values along.
\<close>

definition role4 :: "nat \<Rightarrow> nat \<Rightarrow> nat" where
  "role4 i k = (k + 4 - i mod 4) mod 4"

definition rotate_step :: "(u32 \<Rightarrow> u32 \<Rightarrow> u32 \<Rightarrow> u32 \<Rightarrow> u32) \<Rightarrow> u32 list \<Rightarrow> u32 list" where
  "rotate_step g st = [st ! 3, g (st ! 0) (st ! 1) (st ! 2) (st ! 3), st ! 1, st ! 2]"

definition assign_step :: "(u32 \<Rightarrow> u32 \<Rightarrow> u32 \<Rightarrow> u32 \<Rightarrow> u32) \<Rightarrow> nat \<Rightarrow> nat \<Rightarrow> nat \<Rightarrow> nat \<Rightarrow> u32 list \<Rightarrow> u32 list" where
  "assign_step g a b c d st = st[a := g (st ! a) (st ! b) (st ! c) (st ! d)]"

definition view4 :: "nat \<Rightarrow> u32 list \<Rightarrow> u32 list" where
  "view4 i st = map (\<lambda>k. st ! role4 i k) [0, 1, 2, 3]"

lemma view4_step:
  assumes "length st = 4"
  shows "view4 (Suc i) (assign_step g (role4 i 0) (role4 i 1) (role4 i 2) (role4 i 3) st)
       = rotate_step g (view4 i st)"
proof -
  obtain w x y z where st: "st = [w, x, y, z]"
    using assms by (auto simp: length_Suc_conv numeral_eq_Suc)
  have "i mod 4 = 0 \<or> i mod 4 = 1 \<or> i mod 4 = 2 \<or> i mod 4 = 3" by linarith
  then show ?thesis
    by (elim disjE) (simp_all add: st view4_def role4_def assign_step_def rotate_step_def mod_Suc
        numeral_3_eq_3 numeral_2_eq_2)
qed

lemma unrolled4:
  assumes "length st = 4" "4 dvd n"
    and ops: "list_all2 (\<lambda>f i. \<forall>st. length st = 4
      \<longrightarrow> f st = assign_step (g i) (role4 i 0) (role4 i 1) (role4 i 2) (role4 i 3) st) ops [0..<n]"
  shows "foldl (\<lambda>st f. f st) st ops = foldl (\<lambda>st i. rotate_step (g i) st) st [0..<n]"
proof -
  have "m \<le> n \<Longrightarrow> length (foldl (\<lambda>st f. f st) st (take m ops)) = 4
      \<and> view4 m (foldl (\<lambda>st f. f st) st (take m ops)) = foldl (\<lambda>st i. rotate_step (g i) st) st [0..<m]" for m
  proof (induction m)
    case 0
    obtain w x y z where "st = [w, x, y, z]"
      using assms(1) by (auto simp: length_Suc_conv numeral_eq_Suc)
    then show ?case by (simp add: view4_def role4_def)
  next
    case (Suc m)
    define st' where "st' = foldl (\<lambda>st f. f st) st (take m ops)"
    from Suc have st': "length st' = 4" by (simp add: st'_def)
    have len: "length ops = n" using list_all2_lengthD [OF ops] by simp
    with Suc.prems have "(ops ! m) st' = assign_step (g m) (role4 m 0) (role4 m 1) (role4 m 2) (role4 m 3) st'"
      using list_all2_nthD [OF ops, of m] st' by simp
    moreover have "take (Suc m) ops = take m ops @ [ops ! m]"
      using Suc.prems len by (simp add: take_Suc_conv_app_nth)
    ultimately show ?case using Suc st' view4_step [of st' m "g m"]
      by (auto simp flip: st'_def) (simp add: assign_step_def)
  qed
  from this [of n] obtain st' where st': "st' = foldl (\<lambda>st f. f st) st ops" "length st' = 4"
      "view4 n st' = foldl (\<lambda>st i. rotate_step (g i) st) st [0..<n]"
    using list_all2_lengthD [OF ops] by simp
  have "view4 n st' = st'"
  proof -
    obtain w x y z where "st' = [w, x, y, z]"
      using st'(2) by (auto simp: length_Suc_conv numeral_eq_Suc)
    then show ?thesis using assms(2) by (simp add: view4_def role4_def dvd_eq_mod_eq_0)
  qed
  with st' show ?thesis by simp
qed

text \<open>The sixteen words of a 64-byte block, read in the hash's byte order.\<close>

definition block_words :: "bool \<Rightarrow> bytes \<Rightarrow> u32 list" where
  "block_words big data = map (\<lambda>i. HOST_c2l big (take 4 (drop (4 * i) data))) [0..<16]"

lemma length_block_words [simp]: "length (block_words big data) = 16"
  by (simp add: block_words_def)

lemma block_words_take: "block_words big (take 64 data) = block_words big data"
  unfolding block_words_def by (rule map_cong) (auto simp: drop_take)

text \<open>The reading a standard prescribes: big- or little-endian numbers.\<close>

lemma HOST_c2l_be: "length c = 4 \<Longrightarrow> HOST_c2l True c = of_nat (be_nat c)"
proof -
  assume "length c = 4"
  then obtain p q r s where c: "c = [p, q, r, s]" by (auto simp: length_Suc_conv numeral_eq_Suc)
  have "HOST_c2l True c = ucast (be_word 0 c)"
    by (rule word_eq_by_bits, simp add: upt_conv_Cons c HOST_c2l.simps)
      (simp add: bit_simps bit_u8_False c)
  also have "be_word 0 c = of_nat (be_nat c)" by (simp add: be_word_of_nat)
  also have "ucast (of_nat (be_nat c) :: u64) = (of_nat (be_nat c) :: u32)"
    by (simp add: word_unat_eq_iff unsigned_ucast_eq unat_of_nat take_bit_eq_mod mod_mod_cancel del: of_nat_add of_nat_mult)
  finally show ?thesis .
qed

lemma HOST_c2l_le: "length c = 4 \<Longrightarrow> HOST_c2l False c = of_nat (be_nat (rev c))"
proof -
  assume l: "length c = 4"
  then obtain p q r s where c: "c = [p, q, r, s]" by (auto simp: length_Suc_conv numeral_eq_Suc)
  have "HOST_c2l False c = HOST_c2l True (rev c)"
    by (simp add: c HOST_c2l.simps or.commute or.left_commute)
  with l show ?thesis by (simp add: HOST_c2l_be)
qed

end
