(* ===== verification/Md4.thy ===== *)
theory Md4
  imports Md32
begin

unbundle bit_operations_syntax

text \<open>
  MD4 (crypto/fipsmodule/md4/md4.c). The block function is the unrolled code of the source, one
  assignment to a register per macro call; the words of the block are read before the rounds and
  not between them, which the code does only to shorten their lifetimes. The compression function
  of the standard is a loop of steps; the two are proved equal, and the collector's
  theorems give the hash of the whole input.
\<close>

section \<open>The code\<close>

definition MD4_Init :: md32_ctx where
  "MD4_Init = \<lparr>ctx_h = [0x67452301, 0xefcdab89, 0x98badcfe, 0x10325476], ctx_Nl = 0, ctx_Nh = 0,
     ctx_data = replicate 64 0, ctx_num = 0\<rparr>"

definition md4_F :: "u32 \<Rightarrow> u32 \<Rightarrow> u32 \<Rightarrow> u32" where
  "md4_F b c d = ((c XOR d) AND b) XOR d"

definition md4_G :: "u32 \<Rightarrow> u32 \<Rightarrow> u32 \<Rightarrow> u32" where
  "md4_G b c d = (b AND c) OR (b AND d) OR (c AND d)"

definition md4_H :: "u32 \<Rightarrow> u32 \<Rightarrow> u32 \<Rightarrow> u32" where
  "md4_H b c d = b XOR c XOR d"

text \<open>One macro call: \<open>a\<close>, \<open>b\<close>, \<open>c\<close>, \<open>d\<close> are register names, the first one is assigned.\<close>

definition md4_R0 :: "nat \<Rightarrow> nat \<Rightarrow> nat \<Rightarrow> nat \<Rightarrow> u32 \<Rightarrow> nat \<Rightarrow> u32 \<Rightarrow> u32 list \<Rightarrow> u32 list" where
  "md4_R0 a b c d k s t st =
     (let st = st[a := st ! a + (k + t + md4_F (st ! b) (st ! c) (st ! d))];
          st = st[a := ROTATE (st ! a) s]
      in st)"

definition md4_R1 :: "nat \<Rightarrow> nat \<Rightarrow> nat \<Rightarrow> nat \<Rightarrow> u32 \<Rightarrow> nat \<Rightarrow> u32 \<Rightarrow> u32 list \<Rightarrow> u32 list" where
  "md4_R1 a b c d k s t st =
     (let st = st[a := st ! a + (k + t + md4_G (st ! b) (st ! c) (st ! d))];
          st = st[a := ROTATE (st ! a) s]
      in st)"

definition md4_R2 :: "nat \<Rightarrow> nat \<Rightarrow> nat \<Rightarrow> nat \<Rightarrow> u32 \<Rightarrow> nat \<Rightarrow> u32 \<Rightarrow> u32 list \<Rightarrow> u32 list" where
  "md4_R2 a b c d k s t st =
     (let st = st[a := st ! a + (k + t + md4_H (st ! b) (st ! c) (st ! d))];
          st = st[a := ROTATE (st ! a) s]
      in st)"

definition md4_rounds :: "u32 list \<Rightarrow> (u32 list \<Rightarrow> u32 list) list" where
  "md4_rounds X = [
    md4_R0 rA rB rC rD (X ! 0) 3 0,
    md4_R0 rD rA rB rC (X ! 1) 7 0,
    md4_R0 rC rD rA rB (X ! 2) 11 0,
    md4_R0 rB rC rD rA (X ! 3) 19 0,
    md4_R0 rA rB rC rD (X ! 4) 3 0,
    md4_R0 rD rA rB rC (X ! 5) 7 0,
    md4_R0 rC rD rA rB (X ! 6) 11 0,
    md4_R0 rB rC rD rA (X ! 7) 19 0,
    md4_R0 rA rB rC rD (X ! 8) 3 0,
    md4_R0 rD rA rB rC (X ! 9) 7 0,
    md4_R0 rC rD rA rB (X ! 10) 11 0,
    md4_R0 rB rC rD rA (X ! 11) 19 0,
    md4_R0 rA rB rC rD (X ! 12) 3 0,
    md4_R0 rD rA rB rC (X ! 13) 7 0,
    md4_R0 rC rD rA rB (X ! 14) 11 0,
    md4_R0 rB rC rD rA (X ! 15) 19 0,
    md4_R1 rA rB rC rD (X ! 0) 3 0x5a827999,
    md4_R1 rD rA rB rC (X ! 4) 5 0x5a827999,
    md4_R1 rC rD rA rB (X ! 8) 9 0x5a827999,
    md4_R1 rB rC rD rA (X ! 12) 13 0x5a827999,
    md4_R1 rA rB rC rD (X ! 1) 3 0x5a827999,
    md4_R1 rD rA rB rC (X ! 5) 5 0x5a827999,
    md4_R1 rC rD rA rB (X ! 9) 9 0x5a827999,
    md4_R1 rB rC rD rA (X ! 13) 13 0x5a827999,
    md4_R1 rA rB rC rD (X ! 2) 3 0x5a827999,
    md4_R1 rD rA rB rC (X ! 6) 5 0x5a827999,
    md4_R1 rC rD rA rB (X ! 10) 9 0x5a827999,
    md4_R1 rB rC rD rA (X ! 14) 13 0x5a827999,
    md4_R1 rA rB rC rD (X ! 3) 3 0x5a827999,
    md4_R1 rD rA rB rC (X ! 7) 5 0x5a827999,
    md4_R1 rC rD rA rB (X ! 11) 9 0x5a827999,
    md4_R1 rB rC rD rA (X ! 15) 13 0x5a827999,
    md4_R2 rA rB rC rD (X ! 0) 3 0x6ed9eba1,
    md4_R2 rD rA rB rC (X ! 8) 9 0x6ed9eba1,
    md4_R2 rC rD rA rB (X ! 4) 11 0x6ed9eba1,
    md4_R2 rB rC rD rA (X ! 12) 15 0x6ed9eba1,
    md4_R2 rA rB rC rD (X ! 2) 3 0x6ed9eba1,
    md4_R2 rD rA rB rC (X ! 10) 9 0x6ed9eba1,
    md4_R2 rC rD rA rB (X ! 6) 11 0x6ed9eba1,
    md4_R2 rB rC rD rA (X ! 14) 15 0x6ed9eba1,
    md4_R2 rA rB rC rD (X ! 1) 3 0x6ed9eba1,
    md4_R2 rD rA rB rC (X ! 9) 9 0x6ed9eba1,
    md4_R2 rC rD rA rB (X ! 5) 11 0x6ed9eba1,
    md4_R2 rB rC rD rA (X ! 13) 15 0x6ed9eba1,
    md4_R2 rA rB rC rD (X ! 3) 3 0x6ed9eba1,
    md4_R2 rD rA rB rC (X ! 11) 9 0x6ed9eba1,
    md4_R2 rC rD rA rB (X ! 7) 11 0x6ed9eba1,
    md4_R2 rB rC rD rA (X ! 15) 15 0x6ed9eba1]"

text \<open>One iteration of the loop over the blocks.\<close>

definition md4_one_block :: "u32 list \<Rightarrow> bytes \<Rightarrow> u32 list" where
  "md4_one_block state data =
     (let X = block_words False data;
          regs = foldl (\<lambda>st f. f st) [state ! 0, state ! 1, state ! 2, state ! 3] (md4_rounds X)
      in [state ! 0 + regs ! rA, state ! 1 + regs ! rB, state ! 2 + regs ! rC, state ! 3 + regs ! rD])"

fun md4_block_data_order :: "u32 list \<Rightarrow> bytes \<Rightarrow> nat \<Rightarrow> u32 list" where
  "md4_block_data_order state data 0 = state"
| "md4_block_data_order state data (Suc num) =
     md4_block_data_order (md4_one_block state data) (drop 64 data) num"

definition MD4_Update :: "bytes \<Rightarrow> md32_ctx \<Rightarrow> md32_ctx" where
  "MD4_Update data c = HASH_UPDATE md4_block_data_order data c"

definition MD4_Transform :: "bytes \<Rightarrow> md32_ctx \<Rightarrow> md32_ctx" where
  "MD4_Transform data c = HASH_TRANSFORM md4_block_data_order data c"

definition md4_make_string :: "md32_ctx \<Rightarrow> bytes option" where
  "md4_make_string c = Some (HOST_l2c False (ctx_h c ! 0) @ HOST_l2c False (ctx_h c ! 1)
     @ HOST_l2c False (ctx_h c ! 2) @ HOST_l2c False (ctx_h c ! 3))"

definition MD4_Final :: "md32_ctx \<Rightarrow> bytes option \<times> md32_ctx" where
  "MD4_Final c = HASH_FINAL md4_block_data_order False md4_make_string c"

text \<open>The one-shot function ignores the result of the final call; \<open>out\<close> is what it leaves.\<close>

definition MD4 :: "bytes \<Rightarrow> bytes option" where
  "MD4 data = fst (MD4_Final (MD4_Update data MD4_Init))"

section \<open>The standard's compression function\<close>

text \<open>RFC 1320: the functions, the word each step uses, the rotation amounts and the constants.\<close>

definition md4_aux :: "nat \<Rightarrow> u32 \<Rightarrow> u32 \<Rightarrow> u32 \<Rightarrow> u32" where
  "md4_aux r x y z =
     (if r = 0 then (x AND y) OR (NOT x AND z)
      else if r = 1 then (x AND y) OR (x AND z) OR (y AND z)
      else x XOR y XOR z)"

definition md4_index :: "nat \<Rightarrow> nat" where
  "md4_index i =
     (if i div 16 = 0 then i
      else if i div 16 = 1 then i mod 4 * 4 + i mod 16 div 4
      else [0, 8, 4, 12, 2, 10, 6, 14, 1, 9, 5, 13, 3, 11, 7, 15] ! (i mod 16))"

definition md4_shift :: "nat \<Rightarrow> nat" where
  "md4_shift i = [[3, 7, 11, 19], [3, 5, 9, 13], [3, 9, 11, 15]] ! (i div 16) ! (i mod 4)"

definition md4_T :: "u32 list" where
  "md4_T = [0, 0x5a827999, 0x6ed9eba1]"

definition md4_step :: "u32 list \<Rightarrow> nat \<Rightarrow> u32 \<Rightarrow> u32 \<Rightarrow> u32 \<Rightarrow> u32 \<Rightarrow> u32" where
  "md4_step X i a b c d =
     word_rotl (md4_shift i) (a + md4_aux (i div 16) b c d + X ! md4_index i + md4_T ! (i div 16))"

definition md4_compress :: "u32 list \<Rightarrow> bytes \<Rightarrow> u32 list" where
  "md4_compress s blk =
     (let regs = foldl (\<lambda>st i. rotate_step (md4_step (block_words False blk) i) st)
                   [s ! 0, s ! 1, s ! 2, s ! 3] [0..<48]
      in [s ! 0 + regs ! 0, s ! 1 + regs ! 1, s ! 2 + regs ! 2, s ! 3 + regs ! 3])"

definition md4_hash :: "bytes \<Rightarrow> bytes" where
  "md4_hash xs = concat (map (\<lambda>w. rev (nat_be 4 (unat w)))
     (merkle_damgard False 64 8 md4_compress [0x67452301, 0xefcdab89, 0x98badcfe, 0x10325476] xs))"

section \<open>The code computes it\<close>

lemma md4_F_eq: "md4_F = md4_aux 0"
  by (intro ext bit_word_eqI) (auto simp: md4_F_def md4_aux_def bit_simps)

lemma md4_G_eq: "md4_G = md4_aux 1"
  by (intro ext bit_word_eqI) (auto simp: md4_G_def md4_aux_def bit_simps)

lemma md4_H_eq: "md4_H = md4_aux 2"
  by (intro ext bit_word_eqI) (auto simp: md4_H_def md4_aux_def bit_simps)

lemma md4_R0_assign:
  assumes "a < length st" "a \<noteq> b" "0 < s" "s < 32"
  shows "md4_R0 a b c d k s t st = st[a := word_rotl s (st ! a + md4_aux 0 (st ! b) (st ! c) (st ! d) + k + t)]"
  using assms by (simp add: md4_R0_def md4_F_eq ROTATE_rotl Let_def ac_simps)

lemma md4_R1_assign:
  assumes "a < length st" "a \<noteq> b" "0 < s" "s < 32"
  shows "md4_R1 a b c d k s t st = st[a := word_rotl s (st ! a + md4_aux 1 (st ! b) (st ! c) (st ! d) + k + t)]"
  using assms by (simp add: md4_R1_def md4_G_eq ROTATE_rotl Let_def ac_simps)

lemma md4_R2_assign:
  assumes "a < length st" "a \<noteq> b" "0 < s" "s < 32"
  shows "md4_R2 a b c d k s t st = st[a := word_rotl s (st ! a + md4_aux 2 (st ! b) (st ! c) (st ! d) + k + t)]"
  using assms by (simp add: md4_R2_def md4_H_eq ROTATE_rotl Let_def ac_simps)

text \<open>Each macro call is the step of the standard in the roles the registers have at that point.\<close>

lemma md4_rounds_steps:
  "list_all2 (\<lambda>f i. \<forall>st. length st = 4
      \<longrightarrow> f st = assign_step (md4_step X i) (role4 i 0) (role4 i 1) (role4 i 2) (role4 i 3) st)
     (md4_rounds X) [0..<48]"
  by (simp add: md4_rounds_def upt_conv_Cons md4_R0_assign md4_R1_assign md4_R2_assign assign_step_def role4_def
      md4_step_def md4_index_def md4_shift_def md4_T_def
      flip: numeral_2_eq_2)

lemma md4_one_block_eq: "md4_one_block s blk = md4_compress s blk"
  unfolding md4_one_block_def md4_compress_def Let_def
  by (simp add: unrolled4 [OF _ _ md4_rounds_steps])

lemma md4_compress_take: "md4_compress s (take 64 data) = md4_compress s data"
  by (simp add: md4_compress_def block_words_take)


interpretation md4_blocks: md32 md4_block_data_order md4_compress False
proof unfold_locales
  fix n s and data :: bytes
  assume "n * 64 \<le> length data"
  then show "md4_block_data_order s data n = foldl md4_compress s (chunks 64 n data)"
  proof (induction n arbitrary: s data)
    case (Suc n)
    then show ?case by (simp add: md4_one_block_eq md4_compress_take)
  qed simp
qed

lemma length_md4_compress: "length (md4_compress s blk) = 4"
  by (simp add: md4_compress_def Let_def)

interpretation md4_stream: streaming MD4_Init MD4_Update "\<lambda>c. fst (MD4_Final c)" "\<lambda>_. True"
  "md32_rep md4_compress [0x67452301, 0xefcdab89, 0x98badcfe, 0x10325476]" "\<lambda>xs. Some (md4_hash xs)"
proof
  show "md32_rep md4_compress [0x67452301, 0xefcdab89, 0x98badcfe, 0x10325476] MD4_Init []"
    by (simp add: md32_rep_def MD4_Init_def tail_def)
next
  fix s :: md32_ctx and xs ys
  assume "md32_rep md4_compress [0x67452301, 0xefcdab89, 0x98badcfe, 0x10325476] s xs"
  then show "md32_rep md4_compress [0x67452301, 0xefcdab89, 0x98badcfe, 0x10325476] (MD4_Update ys s) (xs @ ys)"
    unfolding MD4_Update_def by (rule md4_blocks.update_rep)
next
  fix s :: md32_ctx and xs
  let ?iv = "[0x67452301, 0xefcdab89, 0x98badcfe, 0x10325476]"
  let ?d = "merkle_damgard False 64 8 md4_compress ?iv xs"
  assume rep: "md32_rep md4_compress ?iv s xs"
  have "length ?d = 4"
    unfolding merkle_damgard_def by (rule iterate_blocks_length) (simp_all add: length_md4_compress)
  then obtain p q r t where d: "?d = [p, q, r, t]"
    by (auto simp: length_Suc_conv numeral_eq_Suc)
  show "fst (MD4_Final s) = Some (md4_hash xs)"
    unfolding MD4_Final_def md4_blocks.final_rep [OF rep] md4_hash_def d
    by (simp add: md4_make_string_def Let_def HOST_l2c_le)
qed

text \<open>However a message is cut into calls of MD4_Update, MD4_Final yields the MD4 hash
  of the whole message: the standard's padding, and its compression function in
  the form the standard gives it.\<close>

lemma MD4_hashes:
  "fst (MD4_Final (fold MD4_Update parts MD4_Init)) = Some (md4_hash (concat parts))"
  by (rule md4_stream.chunked) simp

end
