(* ===== verification/Md5.thy ===== *)
theory Md5
  imports Md32
begin

unbundle bit_operations_syntax

text \<open>
  MD5 (crypto/fipsmodule/md5/md5.c). The block function is the unrolled code of the source, one
  assignment to a register per macro call; the words of the block are read before the rounds and
  not between them, which the code does only to shorten their lifetimes. The compression function
  of the standard is a loop of steps; the two are proved equal, and the collector's
  theorems give the hash of the whole input.
\<close>

section \<open>The code\<close>

definition MD5_Init :: md32_ctx where
  "MD5_Init = \<lparr>ctx_h = [0x67452301, 0xefcdab89, 0x98badcfe, 0x10325476], ctx_Nl = 0, ctx_Nh = 0,
     ctx_data = replicate 64 0, ctx_num = 0\<rparr>"

definition md5_F :: "u32 \<Rightarrow> u32 \<Rightarrow> u32 \<Rightarrow> u32" where
  "md5_F b c d = ((c XOR d) AND b) XOR d"

definition md5_G :: "u32 \<Rightarrow> u32 \<Rightarrow> u32 \<Rightarrow> u32" where
  "md5_G b c d = ((b XOR c) AND d) XOR c"

definition md5_H :: "u32 \<Rightarrow> u32 \<Rightarrow> u32 \<Rightarrow> u32" where
  "md5_H b c d = b XOR c XOR d"

definition md5_I :: "u32 \<Rightarrow> u32 \<Rightarrow> u32 \<Rightarrow> u32" where
  "md5_I b c d = (NOT d OR b) XOR c"

text \<open>One macro call: \<open>a\<close>, \<open>b\<close>, \<open>c\<close>, \<open>d\<close> are register names, the first one is assigned.\<close>

definition md5_R0 :: "nat \<Rightarrow> nat \<Rightarrow> nat \<Rightarrow> nat \<Rightarrow> u32 \<Rightarrow> nat \<Rightarrow> u32 \<Rightarrow> u32 list \<Rightarrow> u32 list" where
  "md5_R0 a b c d k s t st =
     (let st = st[a := st ! a + (k + t + md5_F (st ! b) (st ! c) (st ! d))];
          st = st[a := ROTATE (st ! a) s]
      in st[a := st ! a + st ! b])"

definition md5_R1 :: "nat \<Rightarrow> nat \<Rightarrow> nat \<Rightarrow> nat \<Rightarrow> u32 \<Rightarrow> nat \<Rightarrow> u32 \<Rightarrow> u32 list \<Rightarrow> u32 list" where
  "md5_R1 a b c d k s t st =
     (let st = st[a := st ! a + (k + t + md5_G (st ! b) (st ! c) (st ! d))];
          st = st[a := ROTATE (st ! a) s]
      in st[a := st ! a + st ! b])"

definition md5_R2 :: "nat \<Rightarrow> nat \<Rightarrow> nat \<Rightarrow> nat \<Rightarrow> u32 \<Rightarrow> nat \<Rightarrow> u32 \<Rightarrow> u32 list \<Rightarrow> u32 list" where
  "md5_R2 a b c d k s t st =
     (let st = st[a := st ! a + (k + t + md5_H (st ! b) (st ! c) (st ! d))];
          st = st[a := ROTATE (st ! a) s]
      in st[a := st ! a + st ! b])"

definition md5_R3 :: "nat \<Rightarrow> nat \<Rightarrow> nat \<Rightarrow> nat \<Rightarrow> u32 \<Rightarrow> nat \<Rightarrow> u32 \<Rightarrow> u32 list \<Rightarrow> u32 list" where
  "md5_R3 a b c d k s t st =
     (let st = st[a := st ! a + (k + t + md5_I (st ! b) (st ! c) (st ! d))];
          st = st[a := ROTATE (st ! a) s]
      in st[a := st ! a + st ! b])"

definition md5_rounds :: "u32 list \<Rightarrow> (u32 list \<Rightarrow> u32 list) list" where
  "md5_rounds X = [
    md5_R0 rA rB rC rD (X ! 0) 7 0xd76aa478,
    md5_R0 rD rA rB rC (X ! 1) 12 0xe8c7b756,
    md5_R0 rC rD rA rB (X ! 2) 17 0x242070db,
    md5_R0 rB rC rD rA (X ! 3) 22 0xc1bdceee,
    md5_R0 rA rB rC rD (X ! 4) 7 0xf57c0faf,
    md5_R0 rD rA rB rC (X ! 5) 12 0x4787c62a,
    md5_R0 rC rD rA rB (X ! 6) 17 0xa8304613,
    md5_R0 rB rC rD rA (X ! 7) 22 0xfd469501,
    md5_R0 rA rB rC rD (X ! 8) 7 0x698098d8,
    md5_R0 rD rA rB rC (X ! 9) 12 0x8b44f7af,
    md5_R0 rC rD rA rB (X ! 10) 17 0xffff5bb1,
    md5_R0 rB rC rD rA (X ! 11) 22 0x895cd7be,
    md5_R0 rA rB rC rD (X ! 12) 7 0x6b901122,
    md5_R0 rD rA rB rC (X ! 13) 12 0xfd987193,
    md5_R0 rC rD rA rB (X ! 14) 17 0xa679438e,
    md5_R0 rB rC rD rA (X ! 15) 22 0x49b40821,
    md5_R1 rA rB rC rD (X ! 1) 5 0xf61e2562,
    md5_R1 rD rA rB rC (X ! 6) 9 0xc040b340,
    md5_R1 rC rD rA rB (X ! 11) 14 0x265e5a51,
    md5_R1 rB rC rD rA (X ! 0) 20 0xe9b6c7aa,
    md5_R1 rA rB rC rD (X ! 5) 5 0xd62f105d,
    md5_R1 rD rA rB rC (X ! 10) 9 0x02441453,
    md5_R1 rC rD rA rB (X ! 15) 14 0xd8a1e681,
    md5_R1 rB rC rD rA (X ! 4) 20 0xe7d3fbc8,
    md5_R1 rA rB rC rD (X ! 9) 5 0x21e1cde6,
    md5_R1 rD rA rB rC (X ! 14) 9 0xc33707d6,
    md5_R1 rC rD rA rB (X ! 3) 14 0xf4d50d87,
    md5_R1 rB rC rD rA (X ! 8) 20 0x455a14ed,
    md5_R1 rA rB rC rD (X ! 13) 5 0xa9e3e905,
    md5_R1 rD rA rB rC (X ! 2) 9 0xfcefa3f8,
    md5_R1 rC rD rA rB (X ! 7) 14 0x676f02d9,
    md5_R1 rB rC rD rA (X ! 12) 20 0x8d2a4c8a,
    md5_R2 rA rB rC rD (X ! 5) 4 0xfffa3942,
    md5_R2 rD rA rB rC (X ! 8) 11 0x8771f681,
    md5_R2 rC rD rA rB (X ! 11) 16 0x6d9d6122,
    md5_R2 rB rC rD rA (X ! 14) 23 0xfde5380c,
    md5_R2 rA rB rC rD (X ! 1) 4 0xa4beea44,
    md5_R2 rD rA rB rC (X ! 4) 11 0x4bdecfa9,
    md5_R2 rC rD rA rB (X ! 7) 16 0xf6bb4b60,
    md5_R2 rB rC rD rA (X ! 10) 23 0xbebfbc70,
    md5_R2 rA rB rC rD (X ! 13) 4 0x289b7ec6,
    md5_R2 rD rA rB rC (X ! 0) 11 0xeaa127fa,
    md5_R2 rC rD rA rB (X ! 3) 16 0xd4ef3085,
    md5_R2 rB rC rD rA (X ! 6) 23 0x04881d05,
    md5_R2 rA rB rC rD (X ! 9) 4 0xd9d4d039,
    md5_R2 rD rA rB rC (X ! 12) 11 0xe6db99e5,
    md5_R2 rC rD rA rB (X ! 15) 16 0x1fa27cf8,
    md5_R2 rB rC rD rA (X ! 2) 23 0xc4ac5665,
    md5_R3 rA rB rC rD (X ! 0) 6 0xf4292244,
    md5_R3 rD rA rB rC (X ! 7) 10 0x432aff97,
    md5_R3 rC rD rA rB (X ! 14) 15 0xab9423a7,
    md5_R3 rB rC rD rA (X ! 5) 21 0xfc93a039,
    md5_R3 rA rB rC rD (X ! 12) 6 0x655b59c3,
    md5_R3 rD rA rB rC (X ! 3) 10 0x8f0ccc92,
    md5_R3 rC rD rA rB (X ! 10) 15 0xffeff47d,
    md5_R3 rB rC rD rA (X ! 1) 21 0x85845dd1,
    md5_R3 rA rB rC rD (X ! 8) 6 0x6fa87e4f,
    md5_R3 rD rA rB rC (X ! 15) 10 0xfe2ce6e0,
    md5_R3 rC rD rA rB (X ! 6) 15 0xa3014314,
    md5_R3 rB rC rD rA (X ! 13) 21 0x4e0811a1,
    md5_R3 rA rB rC rD (X ! 4) 6 0xf7537e82,
    md5_R3 rD rA rB rC (X ! 11) 10 0xbd3af235,
    md5_R3 rC rD rA rB (X ! 2) 15 0x2ad7d2bb,
    md5_R3 rB rC rD rA (X ! 9) 21 0xeb86d391]"

text \<open>One iteration of the loop over the blocks.\<close>

definition md5_one_block :: "u32 list \<Rightarrow> bytes \<Rightarrow> u32 list" where
  "md5_one_block state data =
     (let X = block_words False data;
          regs = foldl (\<lambda>st f. f st) [state ! 0, state ! 1, state ! 2, state ! 3] (md5_rounds X)
      in [state ! 0 + regs ! rA, state ! 1 + regs ! rB, state ! 2 + regs ! rC, state ! 3 + regs ! rD])"

fun md5_block_data_order :: "u32 list \<Rightarrow> bytes \<Rightarrow> nat \<Rightarrow> u32 list" where
  "md5_block_data_order state data 0 = state"
| "md5_block_data_order state data (Suc num) =
     md5_block_data_order (md5_one_block state data) (drop 64 data) num"

definition MD5_Update :: "bytes \<Rightarrow> md32_ctx \<Rightarrow> md32_ctx" where
  "MD5_Update data c = HASH_UPDATE md5_block_data_order data c"

definition MD5_Transform :: "bytes \<Rightarrow> md32_ctx \<Rightarrow> md32_ctx" where
  "MD5_Transform data c = HASH_TRANSFORM md5_block_data_order data c"

definition md5_make_string :: "md32_ctx \<Rightarrow> bytes option" where
  "md5_make_string c = Some (HOST_l2c False (ctx_h c ! 0) @ HOST_l2c False (ctx_h c ! 1)
     @ HOST_l2c False (ctx_h c ! 2) @ HOST_l2c False (ctx_h c ! 3))"

definition MD5_Final :: "md32_ctx \<Rightarrow> bytes option \<times> md32_ctx" where
  "MD5_Final c = HASH_FINAL md5_block_data_order False md5_make_string c"

text \<open>The one-shot function ignores the result of the final call; \<open>out\<close> is what it leaves.\<close>

definition MD5 :: "bytes \<Rightarrow> bytes option" where
  "MD5 data = fst (MD5_Final (MD5_Update data MD5_Init))"

section \<open>The standard's compression function\<close>

text \<open>RFC 1321: the functions in the form of the standard, the word each step uses, the rotation
  amounts and the table of constants.\<close>

definition md5_aux :: "nat \<Rightarrow> u32 \<Rightarrow> u32 \<Rightarrow> u32 \<Rightarrow> u32" where
  "md5_aux r x y z =
     (if r = 0 then (x AND y) OR (NOT x AND z)
      else if r = 1 then (x AND z) OR (y AND NOT z)
      else if r = 2 then x XOR y XOR z
      else y XOR (x OR NOT z))"

definition md5_index :: "nat \<Rightarrow> nat" where
  "md5_index i = [i, 5 * i + 1, 3 * i + 5, 7 * i] ! (i div 16) mod 16"

definition md5_shift :: "nat \<Rightarrow> nat" where
  "md5_shift i = [[7, 12, 17, 22], [5, 9, 14, 20], [4, 11, 16, 23], [6, 10, 15, 21]] ! (i div 16) ! (i mod 4)"

definition md5_T :: "u32 list" where
  "md5_T = [
     0xd76aa478, 0xe8c7b756, 0x242070db, 0xc1bdceee, 0xf57c0faf, 0x4787c62a, 0xa8304613, 0xfd469501,
     0x698098d8, 0x8b44f7af, 0xffff5bb1, 0x895cd7be, 0x6b901122, 0xfd987193, 0xa679438e, 0x49b40821,
     0xf61e2562, 0xc040b340, 0x265e5a51, 0xe9b6c7aa, 0xd62f105d, 0x02441453, 0xd8a1e681, 0xe7d3fbc8,
     0x21e1cde6, 0xc33707d6, 0xf4d50d87, 0x455a14ed, 0xa9e3e905, 0xfcefa3f8, 0x676f02d9, 0x8d2a4c8a,
     0xfffa3942, 0x8771f681, 0x6d9d6122, 0xfde5380c, 0xa4beea44, 0x4bdecfa9, 0xf6bb4b60, 0xbebfbc70,
     0x289b7ec6, 0xeaa127fa, 0xd4ef3085, 0x04881d05, 0xd9d4d039, 0xe6db99e5, 0x1fa27cf8, 0xc4ac5665,
     0xf4292244, 0x432aff97, 0xab9423a7, 0xfc93a039, 0x655b59c3, 0x8f0ccc92, 0xffeff47d, 0x85845dd1,
     0x6fa87e4f, 0xfe2ce6e0, 0xa3014314, 0x4e0811a1, 0xf7537e82, 0xbd3af235, 0x2ad7d2bb, 0xeb86d391]"

definition md5_step :: "u32 list \<Rightarrow> nat \<Rightarrow> u32 \<Rightarrow> u32 \<Rightarrow> u32 \<Rightarrow> u32 \<Rightarrow> u32" where
  "md5_step X i a b c d =
     b + word_rotl (md5_shift i) (a + md5_aux (i div 16) b c d + X ! md5_index i + md5_T ! i)"

definition md5_compress :: "u32 list \<Rightarrow> bytes \<Rightarrow> u32 list" where
  "md5_compress s blk =
     (let regs = foldl (\<lambda>st i. rotate_step (md5_step (block_words False blk) i) st)
                   [s ! 0, s ! 1, s ! 2, s ! 3] [0..<64]
      in [s ! 0 + regs ! 0, s ! 1 + regs ! 1, s ! 2 + regs ! 2, s ! 3 + regs ! 3])"

definition md5_hash :: "bytes \<Rightarrow> bytes" where
  "md5_hash xs = concat (map (\<lambda>w. rev (nat_be 4 (unat w)))
     (merkle_damgard False 64 8 md5_compress [0x67452301, 0xefcdab89, 0x98badcfe, 0x10325476] xs))"

section \<open>The code computes it\<close>

lemma md5_F_eq: "md5_F = md5_aux 0"
  by (intro ext bit_word_eqI) (auto simp: md5_F_def md5_aux_def bit_simps)

lemma md5_G_eq: "md5_G = md5_aux 1"
  by (intro ext bit_word_eqI) (auto simp: md5_G_def md5_aux_def bit_simps)

lemma md5_H_eq: "md5_H = md5_aux 2"
  by (intro ext bit_word_eqI) (auto simp: md5_H_def md5_aux_def bit_simps)

lemma md5_I_eq: "md5_I = md5_aux 3"
  by (intro ext bit_word_eqI) (auto simp: md5_I_def md5_aux_def bit_simps)

lemma md5_R0_assign:
  assumes "a < length st" "a \<noteq> b" "0 < s" "s < 32"
  shows "md5_R0 a b c d k s t st = st[a := st ! b + word_rotl s (st ! a + md5_aux 0 (st ! b) (st ! c) (st ! d) + k + t)]"
  using assms by (simp add: md5_R0_def md5_F_eq ROTATE_rotl Let_def ac_simps)

lemma md5_R1_assign:
  assumes "a < length st" "a \<noteq> b" "0 < s" "s < 32"
  shows "md5_R1 a b c d k s t st = st[a := st ! b + word_rotl s (st ! a + md5_aux 1 (st ! b) (st ! c) (st ! d) + k + t)]"
  using assms by (simp add: md5_R1_def md5_G_eq ROTATE_rotl Let_def ac_simps)

lemma md5_R2_assign:
  assumes "a < length st" "a \<noteq> b" "0 < s" "s < 32"
  shows "md5_R2 a b c d k s t st = st[a := st ! b + word_rotl s (st ! a + md5_aux 2 (st ! b) (st ! c) (st ! d) + k + t)]"
  using assms by (simp add: md5_R2_def md5_H_eq ROTATE_rotl Let_def ac_simps)

lemma md5_R3_assign:
  assumes "a < length st" "a \<noteq> b" "0 < s" "s < 32"
  shows "md5_R3 a b c d k s t st = st[a := st ! b + word_rotl s (st ! a + md5_aux 3 (st ! b) (st ! c) (st ! d) + k + t)]"
  using assms by (simp add: md5_R3_def md5_I_eq ROTATE_rotl Let_def ac_simps)

text \<open>Each macro call is the step of the standard in the roles the registers have at that point.\<close>

lemma md5_rounds_steps:
  "list_all2 (\<lambda>f i. \<forall>st. length st = 4
      \<longrightarrow> f st = assign_step (md5_step X i) (role4 i 0) (role4 i 1) (role4 i 2) (role4 i 3) st)
     (md5_rounds X) [0..<64]"
  by (simp add: md5_rounds_def upt_conv_Cons md5_R0_assign md5_R1_assign md5_R2_assign md5_R3_assign assign_step_def role4_def
      md5_step_def md5_index_def md5_shift_def md5_T_def
      flip: numeral_2_eq_2)

lemma md5_one_block_eq: "md5_one_block s blk = md5_compress s blk"
  unfolding md5_one_block_def md5_compress_def Let_def
  by (simp add: unrolled4 [OF _ _ md5_rounds_steps])

lemma md5_compress_take: "md5_compress s (take 64 data) = md5_compress s data"
  by (simp add: md5_compress_def block_words_take)


interpretation md5_blocks: md32 md5_block_data_order md5_compress False
proof unfold_locales
  fix n s and data :: bytes
  assume "n * 64 \<le> length data"
  then show "md5_block_data_order s data n = foldl md5_compress s (chunks 64 n data)"
  proof (induction n arbitrary: s data)
    case (Suc n)
    then show ?case by (simp add: md5_one_block_eq md5_compress_take)
  qed simp
qed

lemma length_md5_compress: "length (md5_compress s blk) = 4"
  by (simp add: md5_compress_def Let_def)

interpretation md5_stream: streaming MD5_Init MD5_Update "\<lambda>c. fst (MD5_Final c)" "\<lambda>_. True"
  "md32_rep md5_compress [0x67452301, 0xefcdab89, 0x98badcfe, 0x10325476]" "\<lambda>xs. Some (md5_hash xs)"
proof
  show "md32_rep md5_compress [0x67452301, 0xefcdab89, 0x98badcfe, 0x10325476] MD5_Init []"
    by (simp add: md32_rep_def MD5_Init_def tail_def)
next
  fix s :: md32_ctx and xs ys
  assume "md32_rep md5_compress [0x67452301, 0xefcdab89, 0x98badcfe, 0x10325476] s xs"
  then show "md32_rep md5_compress [0x67452301, 0xefcdab89, 0x98badcfe, 0x10325476] (MD5_Update ys s) (xs @ ys)"
    unfolding MD5_Update_def by (rule md5_blocks.update_rep)
next
  fix s :: md32_ctx and xs
  let ?iv = "[0x67452301, 0xefcdab89, 0x98badcfe, 0x10325476]"
  let ?d = "merkle_damgard False 64 8 md5_compress ?iv xs"
  assume rep: "md32_rep md5_compress ?iv s xs"
  have "length ?d = 4"
    unfolding merkle_damgard_def by (rule iterate_blocks_length) (simp_all add: length_md5_compress)
  then obtain p q r t where d: "?d = [p, q, r, t]"
    by (auto simp: length_Suc_conv numeral_eq_Suc)
  show "fst (MD5_Final s) = Some (md5_hash xs)"
    unfolding MD5_Final_def md5_blocks.final_rep [OF rep] md5_hash_def d
    by (simp add: md5_make_string_def Let_def HOST_l2c_le)
qed

text \<open>However a message is cut into calls of MD5_Update, MD5_Final yields the MD5 hash
  of the whole message: the standard's padding, and its compression function in
  the form the standard gives it.\<close>

lemma MD5_hashes:
  "fst (MD5_Final (fold MD5_Update parts MD5_Init)) = Some (md5_hash (concat parts))"
  by (rule md5_stream.chunked) simp

end
