(* ===== verification/Schedule.thy ===== *)
theory Schedule
  imports Prelude
begin

text \<open>
  Message schedules. A standard expands the sixteen words of a block to a long list, each
  further word computed from those before; the code keeps only the last sixteen, in a ring. The
  lemmas relate the two.
\<close>

definition schedule :: "('w list \<Rightarrow> nat \<Rightarrow> 'w) \<Rightarrow> 'w list \<Rightarrow> nat \<Rightarrow> 'w list" where
  "schedule f M n = foldl (\<lambda>W t. W @ [f W t]) M [16..<n]"

lemma schedule_16: "schedule f M 16 = M"
  by (simp add: schedule_def)

lemma schedule_Suc: "16 \<le> n \<Longrightarrow> schedule f M (Suc n) = schedule f M n @ [f (schedule f M n) n]"
  by (simp add: schedule_def)

lemma length_schedule: "length M = 16 \<Longrightarrow> 16 \<le> n \<Longrightarrow> length (schedule f M n) = n"
proof (induction n)
  case (Suc n)
  then show ?case by (cases "n = 15") (simp_all add: schedule_16 schedule_Suc)
qed simp

lemma schedule_prefix:
  assumes "length M = 16" "16 \<le> m" "m \<le> n" "t < m"
  shows "schedule f M n ! t = schedule f M m ! t"
  using assms(3)
proof (induction n rule: dec_induct)
  case (step n)
  then show ?case using assms by (simp add: schedule_Suc nth_append length_schedule)
qed simp

lemma schedule_lt_16:
  assumes "length M = 16" "16 \<le> n" "t < 16"
  shows "schedule f M n ! t = M ! t"
  using schedule_prefix [OF assms(1) order_refl assms(2,3), of f] by (simp add: schedule_16)

text \<open>\<open>f W t\<close> reads only the sixteen words before \<open>t\<close>.\<close>

definition looks_back :: "('w list \<Rightarrow> nat \<Rightarrow> 'w) \<Rightarrow> bool" where
  "looks_back f \<longleftrightarrow> (\<forall>V W t. 16 \<le> t \<longrightarrow> (\<forall>j. t - 16 \<le> j \<and> j < t \<longrightarrow> V ! j = W ! j) \<longrightarrow> f V t = f W t)"

lemma schedule_ge_16:
  assumes "length M = 16" "16 \<le> t" "t < n" "looks_back f"
  shows "schedule f M n ! t = f (schedule f M n) t"
proof -
  have "schedule f M n ! t = schedule f M (Suc t) ! t"
    by (rule schedule_prefix) (use assms in simp_all)
  also have "\<dots> = f (schedule f M t) t"
    using assms by (simp add: schedule_Suc nth_append length_schedule)
  also have "\<dots> = f (schedule f M n) t"
    using assms(4) unfolding looks_back_def
    by (elim allE [of _ "schedule f M t"] allE [of _ "schedule f M n"] allE [of _ t])
      (use assms schedule_prefix [of M t n _ f] in auto)
  finally show ?thesis .
qed

text \<open>The ring \<open>X\<close> holds the last sixteen words of \<open>W\<close> before step \<open>i\<close>.\<close>

definition ring_ok :: "'w list \<Rightarrow> nat \<Rightarrow> 'w list \<Rightarrow> bool" where
  "ring_ok W i X \<longleftrightarrow> length X = 16 \<and> (\<forall>t. i \<le> t + 16 \<longrightarrow> t < max i 16 \<longrightarrow> X ! (t mod 16) = W ! t)"

lemma ring_nth: "ring_ok W i X \<Longrightarrow> i \<le> t + 16 \<Longrightarrow> t < max i 16 \<Longrightarrow> X ! (t mod 16) = W ! t"
  by (simp add: ring_ok_def)

lemma ring_back:
  assumes "ring_ok W i X" "16 \<le> i" "0 < k" "k \<le> 16"
  shows "X ! ((i + (16 - k)) mod 16) = W ! (i - k)"
proof -
  have "i + (16 - k) = (i - k) + 16" using assms by simp
  then have "(i + (16 - k)) mod 16 = (i - k) mod 16" by simp
  with ring_nth [OF assms(1), of "i - k"] assms show ?thesis by simp
qed

lemma ring_write:
  assumes "ring_ok W i X" "16 \<le> i \<or> w = X ! (i mod 16)" "w = W ! i"
  shows "ring_ok W (Suc i) (X[i mod 16 := w])"
  unfolding ring_ok_def
proof (intro conjI allI impI)
  fix t assume t: "Suc i \<le> t + 16" "t < max (Suc i) 16"
  show "X[i mod 16 := w] ! (t mod 16) = W ! t"
  proof (cases "t = i")
    case True
    with assms show ?thesis by (simp add: ring_ok_def)
  next
    case False
    have "t mod 16 \<noteq> i mod 16"
    proof
      assume eq: "t mod 16 = i mod 16"
      show False
      proof (cases "i < 16")
        case True
        with t eq False show False by (simp add: max_def split: if_splits)
      next
        case i: False
        with t False have "t < i" "i - t < 16" by (simp_all add: max_def split: if_splits)
        moreover have "16 dvd i - t" using eq [symmetric] \<open>t < i\<close> by (simp add: mod_eq_dvd_iff_nat)
        ultimately show False using nat_dvd_not_less [of "i - t" 16] by simp
      qed
    qed
    moreover have "i \<le> t + 16" "t < max i 16" using t False by (auto simp: max_def split: if_splits)
    ultimately show ?thesis using ring_nth [OF assms(1), of t] by simp
  qed
qed (use assms in \<open>simp add: ring_ok_def\<close>)

text \<open>The same for a ring that is filled as the steps go, over uninitialised memory.\<close>

definition ring_upto :: "'w list \<Rightarrow> nat \<Rightarrow> 'w list \<Rightarrow> bool" where
  "ring_upto W i X \<longleftrightarrow> length X = 16 \<and> (\<forall>t. i \<le> t + 16 \<longrightarrow> t < i \<longrightarrow> X ! (t mod 16) = W ! t)"

lemma ring_upto_0: "length X = 16 \<Longrightarrow> ring_upto W 0 X"
  by (simp add: ring_upto_def)

lemma ring_upto_back:
  assumes "ring_upto W i X" "16 \<le> i" "0 < k" "k \<le> 16"
  shows "X ! ((i + (16 - k)) mod 16) = W ! (i - k)"
proof -
  have "i + (16 - k) = (i - k) + 16" using assms by simp
  then have "(i + (16 - k)) mod 16 = (i - k) mod 16" by simp
  with assms show ?thesis by (simp add: ring_upto_def)
qed

lemma ring_upto_write:
  assumes "ring_upto W i X"
  shows "ring_upto W (Suc i) (X[i mod 16 := W ! i])"
  unfolding ring_upto_def
proof (intro conjI allI impI)
  fix t assume t: "Suc i \<le> t + 16" "t < Suc i"
  show "X[i mod 16 := W ! i] ! (t mod 16) = W ! t"
  proof (cases "t = i")
    case True
    with assms show ?thesis by (simp add: ring_upto_def)
  next
    case False
    with t have "t < i" "i - t < 16" by simp_all
    have "t mod 16 \<noteq> i mod 16"
    proof
      assume "t mod 16 = i mod 16"
      then have "16 dvd i - t" using \<open>t < i\<close> by (metis less_imp_le mod_eq_dvd_iff_nat)
      with \<open>t < i\<close> \<open>i - t < 16\<close> show False using nat_dvd_not_less [of "i - t" 16] by simp
    qed
    with assms t \<open>t < i\<close> show ?thesis by (simp add: ring_upto_def)
  qed
qed (use assms in \<open>simp add: ring_upto_def\<close>)

end
