(* ===== verification/Sha1.thy ===== *)
theory Sha1
  imports Md32 Schedule
begin

unbundle bit_operations_syntax

text \<open>
  SHA-1 (crypto/fipsmodule/sha/sha1.c). The block function is unrolled over six registers in rotating
  roles and keeps the message schedule in a ring of sixteen words; it is proved to be the
  compression function of FIPS 180-4 with its schedule of eighty words.
\<close>

section \<open>The code\<close>

abbreviation (input) rE :: nat where "rE \<equiv> 4"
abbreviation (input) rT :: nat where "rT \<equiv> 5"

definition SHA1_Init :: md32_ctx where
  "SHA1_Init = \<lparr>ctx_h = [0x67452301, 0xefcdab89, 0x98badcfe, 0x10325476, 0xc3d2e1f0], ctx_Nl = 0, ctx_Nh = 0,
     ctx_data = replicate 64 0, ctx_num = 0\<rparr>"

definition K_00_19 :: u32 where "K_00_19 = 0x5a827999"
definition K_20_39 :: u32 where "K_20_39 = 0x6ed9eba1"
definition K_40_59 :: u32 where "K_40_59 = 0x8f1bbcdc"
definition K_60_79 :: u32 where "K_60_79 = 0xca62c1d6"

definition F_00_19 :: "u32 \<Rightarrow> u32 \<Rightarrow> u32 \<Rightarrow> u32" where
  "F_00_19 b c d = ((c XOR d) AND b) XOR d"

definition F_20_39 :: "u32 \<Rightarrow> u32 \<Rightarrow> u32 \<Rightarrow> u32" where
  "F_20_39 b c d = b XOR c XOR d"

definition F_40_59 :: "u32 \<Rightarrow> u32 \<Rightarrow> u32 \<Rightarrow> u32" where
  "F_40_59 b c d = (b AND c) OR ((b OR c) AND d)"

definition F_60_79 :: "u32 \<Rightarrow> u32 \<Rightarrow> u32 \<Rightarrow> u32" where
  "F_60_79 b c d = F_20_39 b c d"

text \<open>
  The macros work on the registers \<open>r\<close> and the ring \<open>X\<close>: \<open>a\<close> to \<open>f\<close> are register names,
  \<open>xi\<close>, \<open>xa\<close>, ... positions in the ring.
\<close>

definition Xupdate :: "nat \<Rightarrow> nat \<Rightarrow> nat \<Rightarrow> nat \<Rightarrow> nat \<Rightarrow> nat \<Rightarrow> u32 list \<times> u32 list \<Rightarrow> u32 list \<times> u32 list" where
  "Xupdate a ix ia ib ic id' = (\<lambda>(r, X).
     let r = r[a := X ! ia XOR X ! ib XOR X ! ic XOR X ! id'];
         r = r[a := ROTATE (r ! a) 1]
     in (r, X[ix := r ! a]))"

definition BODY_00_15 :: "nat \<Rightarrow> nat \<Rightarrow> nat \<Rightarrow> nat \<Rightarrow> nat \<Rightarrow> nat \<Rightarrow> nat \<Rightarrow> nat \<Rightarrow> u32 list \<times> u32 list \<Rightarrow> u32 list \<times> u32 list" where
  "BODY_00_15 i a b c d e f xi = (\<lambda>(r, X).
     let r = r[f := X ! xi + r ! e + K_00_19 + ROTATE (r ! a) 5 + F_00_19 (r ! b) (r ! c) (r ! d)];
         r = r[b := ROTATE (r ! b) 30]
     in (r, X))"

definition BODY_16_19 :: "nat \<Rightarrow> nat \<Rightarrow> nat \<Rightarrow> nat \<Rightarrow> nat \<Rightarrow> nat \<Rightarrow> nat \<Rightarrow> nat \<Rightarrow> nat \<Rightarrow> nat \<Rightarrow> nat \<Rightarrow> nat \<Rightarrow> u32 list \<times> u32 list \<Rightarrow> u32 list \<times> u32 list" where
  "BODY_16_19 i a b c d e f xi xa xb xc xd = (\<lambda>(r, X).
     let (r, X) = Xupdate f xi xa xb xc xd (r, X);
         r = r[f := r ! f + (r ! e + K_00_19 + ROTATE (r ! a) 5 + F_00_19 (r ! b) (r ! c) (r ! d))];
         r = r[b := ROTATE (r ! b) 30]
     in (r, X))"

definition BODY_20_31 :: "nat \<Rightarrow> nat \<Rightarrow> nat \<Rightarrow> nat \<Rightarrow> nat \<Rightarrow> nat \<Rightarrow> nat \<Rightarrow> nat \<Rightarrow> nat \<Rightarrow> nat \<Rightarrow> nat \<Rightarrow> nat \<Rightarrow> u32 list \<times> u32 list \<Rightarrow> u32 list \<times> u32 list" where
  "BODY_20_31 i a b c d e f xi xa xb xc xd = (\<lambda>(r, X).
     let (r, X) = Xupdate f xi xa xb xc xd (r, X);
         r = r[f := r ! f + (r ! e + K_20_39 + ROTATE (r ! a) 5 + F_20_39 (r ! b) (r ! c) (r ! d))];
         r = r[b := ROTATE (r ! b) 30]
     in (r, X))"

definition BODY_32_39 :: "nat \<Rightarrow> nat \<Rightarrow> nat \<Rightarrow> nat \<Rightarrow> nat \<Rightarrow> nat \<Rightarrow> nat \<Rightarrow> nat \<Rightarrow> nat \<Rightarrow> nat \<Rightarrow> nat \<Rightarrow> u32 list \<times> u32 list \<Rightarrow> u32 list \<times> u32 list" where
  "BODY_32_39 i a b c d e f xa xb xc xd = (\<lambda>(r, X).
     let (r, X) = Xupdate f xa xa xb xc xd (r, X);
         r = r[f := r ! f + (r ! e + K_20_39 + ROTATE (r ! a) 5 + F_20_39 (r ! b) (r ! c) (r ! d))];
         r = r[b := ROTATE (r ! b) 30]
     in (r, X))"

definition BODY_40_59 :: "nat \<Rightarrow> nat \<Rightarrow> nat \<Rightarrow> nat \<Rightarrow> nat \<Rightarrow> nat \<Rightarrow> nat \<Rightarrow> nat \<Rightarrow> nat \<Rightarrow> nat \<Rightarrow> nat \<Rightarrow> u32 list \<times> u32 list \<Rightarrow> u32 list \<times> u32 list" where
  "BODY_40_59 i a b c d e f xa xb xc xd = (\<lambda>(r, X).
     let (r, X) = Xupdate f xa xa xb xc xd (r, X);
         r = r[f := r ! f + (r ! e + K_40_59 + ROTATE (r ! a) 5 + F_40_59 (r ! b) (r ! c) (r ! d))];
         r = r[b := ROTATE (r ! b) 30]
     in (r, X))"

definition BODY_60_79 :: "nat \<Rightarrow> nat \<Rightarrow> nat \<Rightarrow> nat \<Rightarrow> nat \<Rightarrow> nat \<Rightarrow> nat \<Rightarrow> nat \<Rightarrow> nat \<Rightarrow> nat \<Rightarrow> nat \<Rightarrow> u32 list \<times> u32 list \<Rightarrow> u32 list \<times> u32 list" where
  "BODY_60_79 i a b c d e f xa xb xc xd = (\<lambda>(r, X).
     let (r, X) = Xupdate f xa xa xb xc xd (r, X);
         r = r[f := X ! xa + r ! e + K_60_79 + ROTATE (r ! a) 5 + F_60_79 (r ! b) (r ! c) (r ! d)];
         r = r[b := ROTATE (r ! b) 30]
     in (r, X))"

definition sha1_rounds :: "(u32 list \<times> u32 list \<Rightarrow> u32 list \<times> u32 list) list" where
  "sha1_rounds = [
    BODY_00_15 0 rA rB rC rD rE rT 0,
    BODY_00_15 1 rT rA rB rC rD rE 1,
    BODY_00_15 2 rE rT rA rB rC rD 2,
    BODY_00_15 3 rD rE rT rA rB rC 3,
    BODY_00_15 4 rC rD rE rT rA rB 4,
    BODY_00_15 5 rB rC rD rE rT rA 5,
    BODY_00_15 6 rA rB rC rD rE rT 6,
    BODY_00_15 7 rT rA rB rC rD rE 7,
    BODY_00_15 8 rE rT rA rB rC rD 8,
    BODY_00_15 9 rD rE rT rA rB rC 9,
    BODY_00_15 10 rC rD rE rT rA rB 10,
    BODY_00_15 11 rB rC rD rE rT rA 11,
    BODY_00_15 12 rA rB rC rD rE rT 12,
    BODY_00_15 13 rT rA rB rC rD rE 13,
    BODY_00_15 14 rE rT rA rB rC rD 14,
    BODY_00_15 15 rD rE rT rA rB rC 15,
    BODY_16_19 16 rC rD rE rT rA rB 0 0 2 8 13,
    BODY_16_19 17 rB rC rD rE rT rA 1 1 3 9 14,
    BODY_16_19 18 rA rB rC rD rE rT 2 2 4 10 15,
    BODY_16_19 19 rT rA rB rC rD rE 3 3 5 11 0,
    BODY_20_31 20 rE rT rA rB rC rD 4 4 6 12 1,
    BODY_20_31 21 rD rE rT rA rB rC 5 5 7 13 2,
    BODY_20_31 22 rC rD rE rT rA rB 6 6 8 14 3,
    BODY_20_31 23 rB rC rD rE rT rA 7 7 9 15 4,
    BODY_20_31 24 rA rB rC rD rE rT 8 8 10 0 5,
    BODY_20_31 25 rT rA rB rC rD rE 9 9 11 1 6,
    BODY_20_31 26 rE rT rA rB rC rD 10 10 12 2 7,
    BODY_20_31 27 rD rE rT rA rB rC 11 11 13 3 8,
    BODY_20_31 28 rC rD rE rT rA rB 12 12 14 4 9,
    BODY_20_31 29 rB rC rD rE rT rA 13 13 15 5 10,
    BODY_20_31 30 rA rB rC rD rE rT 14 14 0 6 11,
    BODY_20_31 31 rT rA rB rC rD rE 15 15 1 7 12,
    BODY_32_39 32 rE rT rA rB rC rD 0 2 8 13,
    BODY_32_39 33 rD rE rT rA rB rC 1 3 9 14,
    BODY_32_39 34 rC rD rE rT rA rB 2 4 10 15,
    BODY_32_39 35 rB rC rD rE rT rA 3 5 11 0,
    BODY_32_39 36 rA rB rC rD rE rT 4 6 12 1,
    BODY_32_39 37 rT rA rB rC rD rE 5 7 13 2,
    BODY_32_39 38 rE rT rA rB rC rD 6 8 14 3,
    BODY_32_39 39 rD rE rT rA rB rC 7 9 15 4,
    BODY_40_59 40 rC rD rE rT rA rB 8 10 0 5,
    BODY_40_59 41 rB rC rD rE rT rA 9 11 1 6,
    BODY_40_59 42 rA rB rC rD rE rT 10 12 2 7,
    BODY_40_59 43 rT rA rB rC rD rE 11 13 3 8,
    BODY_40_59 44 rE rT rA rB rC rD 12 14 4 9,
    BODY_40_59 45 rD rE rT rA rB rC 13 15 5 10,
    BODY_40_59 46 rC rD rE rT rA rB 14 0 6 11,
    BODY_40_59 47 rB rC rD rE rT rA 15 1 7 12,
    BODY_40_59 48 rA rB rC rD rE rT 0 2 8 13,
    BODY_40_59 49 rT rA rB rC rD rE 1 3 9 14,
    BODY_40_59 50 rE rT rA rB rC rD 2 4 10 15,
    BODY_40_59 51 rD rE rT rA rB rC 3 5 11 0,
    BODY_40_59 52 rC rD rE rT rA rB 4 6 12 1,
    BODY_40_59 53 rB rC rD rE rT rA 5 7 13 2,
    BODY_40_59 54 rA rB rC rD rE rT 6 8 14 3,
    BODY_40_59 55 rT rA rB rC rD rE 7 9 15 4,
    BODY_40_59 56 rE rT rA rB rC rD 8 10 0 5,
    BODY_40_59 57 rD rE rT rA rB rC 9 11 1 6,
    BODY_40_59 58 rC rD rE rT rA rB 10 12 2 7,
    BODY_40_59 59 rB rC rD rE rT rA 11 13 3 8,
    BODY_60_79 60 rA rB rC rD rE rT 12 14 4 9,
    BODY_60_79 61 rT rA rB rC rD rE 13 15 5 10,
    BODY_60_79 62 rE rT rA rB rC rD 14 0 6 11,
    BODY_60_79 63 rD rE rT rA rB rC 15 1 7 12,
    BODY_60_79 64 rC rD rE rT rA rB 0 2 8 13,
    BODY_60_79 65 rB rC rD rE rT rA 1 3 9 14,
    BODY_60_79 66 rA rB rC rD rE rT 2 4 10 15,
    BODY_60_79 67 rT rA rB rC rD rE 3 5 11 0,
    BODY_60_79 68 rE rT rA rB rC rD 4 6 12 1,
    BODY_60_79 69 rD rE rT rA rB rC 5 7 13 2,
    BODY_60_79 70 rC rD rE rT rA rB 6 8 14 3,
    BODY_60_79 71 rB rC rD rE rT rA 7 9 15 4,
    BODY_60_79 72 rA rB rC rD rE rT 8 10 0 5,
    BODY_60_79 73 rT rA rB rC rD rE 9 11 1 6,
    BODY_60_79 74 rE rT rA rB rC rD 10 12 2 7,
    BODY_60_79 75 rD rE rT rA rB rC 11 13 3 8,
    BODY_60_79 76 rC rD rE rT rA rB 12 14 4 9,
    BODY_60_79 77 rB rC rD rE rT rA 13 15 5 10,
    BODY_60_79 78 rA rB rC rD rE rT 14 0 6 11,
    BODY_60_79 79 rT rA rB rC rD rE 15 1 7 12]"

definition sha1_one_block :: "u32 list \<Rightarrow> bytes \<Rightarrow> u32 list" where
  "sha1_one_block state data =
     (let regs = [state ! 0, state ! 1, state ! 2, state ! 3, state ! 4, 0];
          (r, X) = foldl (\<lambda>st f. f st) (regs, block_words True data) sha1_rounds
      in [(state ! 0 + r ! rE) AND 0xffffffff, (state ! 1 + r ! rT) AND 0xffffffff,
          (state ! 2 + r ! rA) AND 0xffffffff, (state ! 3 + r ! rB) AND 0xffffffff,
          (state ! 4 + r ! rC) AND 0xffffffff])"

text \<open>
  The loop tests its counter at the end: it must not be called for no blocks, and is not.
\<close>

fun sha1_block_data_order :: "u32 list \<Rightarrow> bytes \<Rightarrow> nat \<Rightarrow> u32 list" where
  "sha1_block_data_order state data num =
     (let state = sha1_one_block state data; num = num - 1
      in if num = 0 then state else sha1_block_data_order state (drop 64 data) num)"

definition SHA1_Update :: "bytes \<Rightarrow> md32_ctx \<Rightarrow> md32_ctx" where
  "SHA1_Update data c = HASH_UPDATE sha1_block_data_order data c"

definition SHA1_Transform :: "bytes \<Rightarrow> md32_ctx \<Rightarrow> md32_ctx" where
  "SHA1_Transform data c = HASH_TRANSFORM sha1_block_data_order data c"

definition sha1_make_string :: "md32_ctx \<Rightarrow> bytes option" where
  "sha1_make_string c = Some (HOST_l2c True (ctx_h c ! 0) @ HOST_l2c True (ctx_h c ! 1)
     @ HOST_l2c True (ctx_h c ! 2) @ HOST_l2c True (ctx_h c ! 3) @ HOST_l2c True (ctx_h c ! 4))"

definition SHA1_Final :: "md32_ctx \<Rightarrow> bytes option \<times> md32_ctx" where
  "SHA1_Final c = HASH_FINAL sha1_block_data_order True sha1_make_string c"

definition SHA1 :: "bytes \<Rightarrow> bytes option" where
  "SHA1 data = fst (SHA1_Final (SHA1_Update data SHA1_Init))"

section \<open>FIPS 180-4\<close>

definition sha1_f :: "nat \<Rightarrow> u32 \<Rightarrow> u32 \<Rightarrow> u32 \<Rightarrow> u32" where
  "sha1_f r x y z =
     (if r = 0 then (x AND y) XOR (NOT x AND z)
      else if r = 2 then (x AND y) XOR (x AND z) XOR (y AND z)
      else x XOR y XOR z)"

definition sha1_K :: "u32 list" where
  "sha1_K = [0x5a827999, 0x6ed9eba1, 0x8f1bbcdc, 0xca62c1d6]"

definition sha1_expand :: "u32 list \<Rightarrow> nat \<Rightarrow> u32" where
  "sha1_expand W t = word_rotl 1 (W ! (t - 3) XOR W ! (t - 8) XOR W ! (t - 14) XOR W ! (t - 16))"

definition sha1_round :: "u32 list \<Rightarrow> u32 list \<Rightarrow> nat \<Rightarrow> u32 list" where
  "sha1_round W v t =
     [word_rotl 5 (v ! 0) + sha1_f (t div 20) (v ! 1) (v ! 2) (v ! 3) + v ! 4 + sha1_K ! (t div 20) + W ! t,
      v ! 0, word_rotl 30 (v ! 1), v ! 2, v ! 3]"

definition sha1_compress :: "u32 list \<Rightarrow> bytes \<Rightarrow> u32 list" where
  "sha1_compress s blk =
     (let W = schedule sha1_expand (block_words True blk) 80;
          v = foldl (sha1_round W) [s ! 0, s ! 1, s ! 2, s ! 3, s ! 4] [0..<80]
      in [s ! 0 + v ! 0, s ! 1 + v ! 1, s ! 2 + v ! 2, s ! 3 + v ! 3, s ! 4 + v ! 4])"

definition sha1_hash :: "bytes \<Rightarrow> bytes" where
  "sha1_hash xs = concat (map (\<lambda>w. nat_be 4 (unat w))
     (merkle_damgard True 64 8 sha1_compress [0x67452301, 0xefcdab89, 0x98badcfe, 0x10325476, 0xc3d2e1f0] xs))"

section \<open>Every macro call is a round in the roles of the moment\<close>

lemma sha1_F_eq: "F_00_19 = sha1_f 0" "F_20_39 = sha1_f 1" "F_40_59 = sha1_f 2" "F_60_79 = sha1_f 3"
  by (intro ext bit_word_eqI; auto simp: F_00_19_def F_20_39_def F_40_59_def F_60_79_def sha1_f_def bit_simps)+

definition sha1_assign :: "nat \<Rightarrow> nat \<Rightarrow> nat \<Rightarrow> nat \<Rightarrow> nat \<Rightarrow> nat \<Rightarrow> nat \<Rightarrow> u32 \<Rightarrow> nat \<Rightarrow> u32
    \<Rightarrow> u32 list \<times> u32 list \<Rightarrow> u32 list \<times> u32 list" where
  "sha1_assign a b c d e f p k x w = (\<lambda>(r, X).
     (r[f := w + (r ! e + (k + (word_rotl 5 (r ! a) + sha1_f p (r ! b) (r ! c) (r ! d)))), b := word_rotl 30 (r ! b)],
      X[x := w]))"

definition role6 :: "nat \<Rightarrow> nat \<Rightarrow> nat" where
  "role6 i k = (k + 6 - i mod 6) mod 6"

definition sha1_ring :: "nat \<Rightarrow> u32 list \<Rightarrow> u32" where
  "sha1_ring i X = (if i < 16 then X ! i
     else word_rotl 1 (X ! (i mod 16) XOR X ! ((i + 2) mod 16) XOR X ! ((i + 8) mod 16) XOR X ! ((i + 13) mod 16)))"

definition sha1_ring_step :: "nat \<Rightarrow> u32 list \<times> u32 list \<Rightarrow> u32 list \<times> u32 list" where
  "sha1_ring_step i st = sha1_assign (role6 i 0) (role6 i 1) (role6 i 2) (role6 i 3) (role6 i 4) (role6 i 5)
     (i div 20) (sha1_K ! (i div 20)) (i mod 16) (sha1_ring i (snd st)) st"

lemma BODY_00_15_eq:
  assumes "length r = 6" "length X = 16" "distinct [f, a, b, c, d, e]" "f < 6" "xi < 16"
  shows "BODY_00_15 i a b c d e f xi (r, X) = sha1_assign a b c d e f 0 K_00_19 xi (X ! xi) (r, X)"
  using assms by (simp add: BODY_00_15_def sha1_assign_def sha1_F_eq ROTATE_rotl add.assoc Let_def)

lemma BODY_16_19_eq:
  assumes "length r = 6" "length X = 16" "distinct [f, a, b, c, d, e]" "f < 6" "xi < 16"
  shows "BODY_16_19 i a b c d e f xi xa xb xc xd (r, X)
    = sha1_assign a b c d e f 0 K_00_19 xi (word_rotl 1 (X ! xa XOR X ! xb XOR X ! xc XOR X ! xd)) (r, X)"
  using assms by (simp add: BODY_16_19_def Xupdate_def sha1_assign_def sha1_F_eq ROTATE_rotl add.assoc Let_def)

lemma BODY_20_31_eq:
  assumes "length r = 6" "length X = 16" "distinct [f, a, b, c, d, e]" "f < 6" "xi < 16"
  shows "BODY_20_31 i a b c d e f xi xa xb xc xd (r, X)
    = sha1_assign a b c d e f 1 K_20_39 xi (word_rotl 1 (X ! xa XOR X ! xb XOR X ! xc XOR X ! xd)) (r, X)"
  using assms by (simp add: BODY_20_31_def Xupdate_def sha1_assign_def sha1_F_eq ROTATE_rotl add.assoc Let_def)

lemma BODY_32_39_eq:
  assumes "length r = 6" "length X = 16" "distinct [f, a, b, c, d, e]" "f < 6" "xa < 16"
  shows "BODY_32_39 i a b c d e f xa xb xc xd (r, X)
    = sha1_assign a b c d e f 1 K_20_39 xa (word_rotl 1 (X ! xa XOR X ! xb XOR X ! xc XOR X ! xd)) (r, X)"
  using assms by (simp add: BODY_32_39_def Xupdate_def sha1_assign_def sha1_F_eq ROTATE_rotl add.assoc Let_def)

lemma BODY_40_59_eq:
  assumes "length r = 6" "length X = 16" "distinct [f, a, b, c, d, e]" "f < 6" "xa < 16"
  shows "BODY_40_59 i a b c d e f xa xb xc xd (r, X)
    = sha1_assign a b c d e f 2 K_40_59 xa (word_rotl 1 (X ! xa XOR X ! xb XOR X ! xc XOR X ! xd)) (r, X)"
  using assms by (simp add: BODY_40_59_def Xupdate_def sha1_assign_def sha1_F_eq ROTATE_rotl add.assoc Let_def)

lemma BODY_60_79_eq:
  assumes "length r = 6" "length X = 16" "distinct [f, a, b, c, d, e]" "f < 6" "xa < 16"
  shows "BODY_60_79 i a b c d e f xa xb xc xd (r, X)
    = sha1_assign a b c d e f 3 K_60_79 xa (word_rotl 1 (X ! xa XOR X ! xb XOR X ! xc XOR X ! xd)) (r, X)"
  using assms by (simp add: BODY_60_79_def Xupdate_def sha1_assign_def sha1_F_eq ROTATE_rotl add.assoc Let_def)

lemma xor4_rotate: "(p :: u32) XOR q XOR s XOR t = q XOR s XOR t XOR p"
  by (simp add: xor.assoc xor.commute xor.left_commute)

lemma sha1_rounds_steps:
  "list_all2 (\<lambda>f i. \<forall>r X. length r = 6 \<longrightarrow> length X = 16 \<longrightarrow> f (r, X) = sha1_ring_step i (r, X))
     sha1_rounds [0..<80]"
  by (simp add: sha1_rounds_def upt_conv_Cons BODY_00_15_eq BODY_16_19_eq BODY_20_31_eq BODY_32_39_eq
      BODY_40_59_eq BODY_60_79_eq sha1_ring_step_def role6_def sha1_ring_def sha1_K_def
      K_00_19_def K_20_39_def K_40_59_def K_60_79_def flip: numeral_2_eq_2)

definition view6 :: "nat \<Rightarrow> u32 list \<Rightarrow> u32 list" where
  "view6 i r = map (\<lambda>k. r ! role6 i k) [0, 1, 2, 3, 4]"

lemma view6_step:
  assumes "length r = 6" "sha1_ring i X = W ! i"
  shows "view6 (Suc i) (fst (sha1_ring_step i (r, X))) = sha1_round W (view6 i r) i"
proof -
  obtain a b c d e f where r: "r = [a, b, c, d, e, f]"
    using assms(1) by (auto simp: length_Suc_conv numeral_eq_Suc)
  have "i mod 6 = 0 \<or> i mod 6 = 1 \<or> i mod 6 = 2 \<or> i mod 6 = 3 \<or> i mod 6 = 4 \<or> i mod 6 = 5" by linarith
  then show ?thesis
    by (elim disjE) (simp_all add: r view6_def role6_def sha1_ring_step_def sha1_assign_def sha1_round_def
        mod_Suc assms(2) add.commute add.left_commute)
qed

lemma looks_back_sha1: "looks_back sha1_expand"
  unfolding looks_back_def sha1_expand_def by auto

lemma sha1_ring_schedule:
  assumes "ring_ok (schedule sha1_expand M 80) i X" "length M = 16" "i < 80"
  shows "sha1_ring i X = schedule sha1_expand M 80 ! i"
proof (cases "i < 16")
  case True
  with ring_nth [OF assms(1), of i] show ?thesis by (simp add: sha1_ring_def)
next
  case False
  have "sha1_ring i X = sha1_expand (schedule sha1_expand M 80) i"
    using False ring_back [OF assms(1), of 16] ring_back [OF assms(1), of 14] ring_back [OF assms(1), of 8]
      ring_back [OF assms(1), of 3]
    by (simp add: sha1_ring_def sha1_expand_def xor.assoc xor.commute xor.left_commute)
  then show ?thesis
    using schedule_ge_16 [OF assms(2) _ assms(3) looks_back_sha1] False by simp
qed

lemma sha1_unrolled:
  assumes "length M = 16" "m \<le> 80"
  defines "W \<equiv> schedule sha1_expand M 80"
  shows "case foldl (\<lambda>st f. f st) ([a, b, c, d, e, 0], M) (take m sha1_rounds) of (r, X) \<Rightarrow>
    length r = 6 \<and> ring_ok W m X \<and> view6 m r = foldl (sha1_round W) [a, b, c, d, e] [0..<m]"
  using assms(2)
proof (induction m)
  case 0
  have "ring_ok W 0 M"
    using assms(1) schedule_lt_16 [OF assms(1), of 80] by (simp add: ring_ok_def W_def)
  then show ?case by (simp add: view6_def role6_def)
next
  case (Suc m)
  obtain r X where st: "foldl (\<lambda>st f. f st) ([a, b, c, d, e, 0], M) (take m sha1_rounds) = (r, X)" by fastforce
  with Suc have r: "length r = 6" and X: "ring_ok W m X"
    and v: "view6 m r = foldl (sha1_round W) [a, b, c, d, e] [0..<m]" by simp_all
  have len: "length sha1_rounds = 80" using list_all2_lengthD [OF sha1_rounds_steps] by simp
  have op: "(sha1_rounds ! m) (r, X) = sha1_ring_step m (r, X)"
    using list_all2_nthD [OF sha1_rounds_steps, of m] Suc.prems r X len by (simp add: ring_ok_def)
  have w: "sha1_ring m X = W ! m"
    using sha1_ring_schedule [OF X [unfolded W_def] assms(1)] Suc.prems by (simp add: W_def)
  have X': "ring_ok W (Suc m) (snd (sha1_ring_step m (r, X)))"
    unfolding sha1_ring_step_def sha1_assign_def using ring_write [OF X _ w] by (simp add: sha1_ring_def)
  have r': "length (fst (sha1_ring_step m (r, X))) = 6"
    using r by (simp add: sha1_ring_step_def sha1_assign_def)
  show ?case
    using Suc.prems st op v X' r' view6_step [OF r w]
    by (cases "sha1_ring_step m (r, X)") (simp add: take_Suc_conv_app_nth len)
qed

lemma sha1_one_block_eq: "sha1_one_block s blk = sha1_compress s blk"
proof -
  let ?M = "block_words True blk"
  obtain r X where st: "foldl (\<lambda>st f. f st) ([s ! 0, s ! 1, s ! 2, s ! 3, s ! 4, 0], ?M) sha1_rounds = (r, X)"
    by fastforce
  have "take 80 sha1_rounds = sha1_rounds"
    using list_all2_lengthD [OF sha1_rounds_steps] by simp
  with sha1_unrolled [of ?M 80 "s ! 0" "s ! 1" "s ! 2" "s ! 3" "s ! 4"] st
  have "view6 80 r = foldl (sha1_round (schedule sha1_expand ?M 80)) [s ! 0, s ! 1, s ! 2, s ! 3, s ! 4] [0..<80]"
    by simp
  then have v: "foldl (sha1_round (schedule sha1_expand ?M 80)) [s ! 0, s ! 1, s ! 2, s ! 3, s ! 4] [0..<80]
      = [r ! 4, r ! 5, r ! 0, r ! 1, r ! 2]"
    by (simp add: view6_def role6_def flip: numeral_2_eq_2)
  have "w AND 0xffffffff = w" for w :: u32
    using unat_and_mask [of w 32] unat_u32_bound [of w] by (simp add: word_unat_eq_iff)
  with st show ?thesis
    unfolding sha1_one_block_def sha1_compress_def Let_def v by simp
qed

lemma sha1_compress_take: "sha1_compress s (take 64 data) = sha1_compress s data"
  by (simp add: sha1_compress_def block_words_take)

section \<open>The hash\<close>

declare sha1_block_data_order.simps [simp del]

interpretation sha1_blocks: md32 sha1_block_data_order sha1_compress True
proof unfold_locales
  fix n s and data :: bytes
  assume "0 < n" "n * 64 \<le> length data"
  then show "sha1_block_data_order s data n = foldl sha1_compress s (chunks 64 n data)"
  proof (induction n arbitrary: s data)
    case (Suc n)
    then show ?case
      by (cases "n = 0") (simp_all add: sha1_block_data_order.simps [of s data] sha1_one_block_eq sha1_compress_take)
  qed simp
qed

lemma length_sha1_compress: "length (sha1_compress s blk) = 5"
  by (simp add: sha1_compress_def Let_def)

abbreviation (input) sha1_iv :: "u32 list" where
  "sha1_iv \<equiv> [0x67452301, 0xefcdab89, 0x98badcfe, 0x10325476, 0xc3d2e1f0]"

interpretation sha1_stream: streaming SHA1_Init SHA1_Update "\<lambda>c. fst (SHA1_Final c)" "\<lambda>_. True"
  "md32_rep sha1_compress sha1_iv" "\<lambda>xs. Some (sha1_hash xs)"
proof
  show "md32_rep sha1_compress sha1_iv SHA1_Init []"
    by (simp add: md32_rep_def SHA1_Init_def tail_def)
next
  fix s :: md32_ctx and xs ys
  assume "md32_rep sha1_compress sha1_iv s xs"
  then show "md32_rep sha1_compress sha1_iv (SHA1_Update ys s) (xs @ ys)"
    unfolding SHA1_Update_def by (rule sha1_blocks.update_rep)
next
  fix s :: md32_ctx and xs
  let ?d = "merkle_damgard True 64 8 sha1_compress sha1_iv xs"
  assume rep: "md32_rep sha1_compress sha1_iv s xs"
  have "length ?d = 5"
    unfolding merkle_damgard_def by (rule iterate_blocks_length) (simp_all add: length_sha1_compress)
  then obtain p q r t u where d: "?d = [p, q, r, t, u]"
    by (auto simp: length_Suc_conv numeral_eq_Suc)
  show "fst (SHA1_Final s) = Some (sha1_hash xs)"
    unfolding SHA1_Final_def sha1_blocks.final_rep [OF rep] sha1_hash_def d
    by (simp add: sha1_make_string_def Let_def HOST_l2c_be)
qed

text \<open>(C24) However a message is cut into calls of SHA1_Update, SHA1_Final yields the SHA-1 hash of
  the whole message as FIPS 180-4 defines it: padding, schedule of eighty words and rounds.\<close>

theorem SHA1_hashes:
  "fst (SHA1_Final (fold SHA1_Update parts SHA1_Init)) = Some (sha1_hash (concat parts))"
  by (rule sha1_stream.chunked) simp

end
