(* ===== verification/Sha2.thy ===== *)
theory Sha2
  imports Schedule
begin

unbundle bit_operations_syntax

text \<open>
  What SHA-256 and SHA-512 have in common, over the word size: the round and the message
  schedule of FIPS 180-4, the unrolled round over eight registers in rotating roles with a ring
  of sixteen words, and the locale that turns the second into the first. The standard
  defines its constants as digits of roots of primes; \<open>frac_root\<close> states this so
  that the tables of the code can be checked against it.
\<close>

section \<open>The standard\<close>

definition Ch :: "'a::len word \<Rightarrow> 'a word \<Rightarrow> 'a word \<Rightarrow> 'a word" where
  "Ch x y z = (x AND y) XOR (NOT x AND z)"

definition Maj :: "'a::len word \<Rightarrow> 'a word \<Rightarrow> 'a word \<Rightarrow> 'a word" where
  "Maj x y z = (x AND y) XOR (x AND z) XOR (y AND z)"

definition sha2_expand :: "('w::len word \<Rightarrow> 'w word) \<Rightarrow> ('w word \<Rightarrow> 'w word) \<Rightarrow> 'w word list \<Rightarrow> nat \<Rightarrow> 'w word" where
  "sha2_expand s0 s1 W t = s1 (W ! (t - 2)) + W ! (t - 7) + s0 (W ! (t - 15)) + W ! (t - 16)"

definition sha2_round :: "('w::len word \<Rightarrow> 'w word) \<Rightarrow> ('w word \<Rightarrow> 'w word) \<Rightarrow> 'w word list \<Rightarrow> 'w word list
    \<Rightarrow> 'w word list \<Rightarrow> nat \<Rightarrow> 'w word list" where
  "sha2_round S0 S1 K W v t =
     (let T1 = v ! 7 + S1 (v ! 4) + Ch (v ! 4) (v ! 5) (v ! 6) + K ! t + W ! t;
          T2 = S0 (v ! 0) + Maj (v ! 0) (v ! 1) (v ! 2)
      in [T1 + T2, v ! 0, v ! 1, v ! 2, v ! 3 + T1, v ! 4, v ! 5, v ! 6])"

text \<open>
  \<open>frac_root e w p k\<close>: \<open>k\<close> is the number formed by the first \<open>w\<close> bits of the fractional part of the
  \<open>e\<close>-th root of \<open>p\<close>.
\<close>

definition int_root :: "nat \<Rightarrow> int \<Rightarrow> int" where
  "int_root e p = int (length (takeWhile (\<lambda>r. r ^ e \<le> p) [1, 2, 3, 4, 5, 6, 7, 8, 9, 10]))"

definition frac_root :: "nat \<Rightarrow> nat \<Rightarrow> int \<Rightarrow> int \<Rightarrow> bool" where
  "frac_root e w p k \<longleftrightarrow> 0 \<le> k \<and> k < 2 ^ w
     \<and> (let x = int_root e p * 2 ^ w + k in x ^ e \<le> p * 2 ^ (e * w) \<and> p * 2 ^ (e * w) < (x + 1) ^ e)"

text \<open>Trial division; a composite number below \<open>23 * 23\<close> has a divisor up to 22.\<close>

definition primes_below :: "int \<Rightarrow> int list" where
  "primes_below n = filter (\<lambda>p. list_all (\<lambda>d. p \<le> d \<or> p mod d \<noteq> 0)
     [2, 3, 4, 5, 6, 7, 8, 9, 10, 11, 12, 13, 14, 15, 16, 17, 18, 19, 20, 21, 22]) [2..n - 1]"

section \<open>The unrolled form\<close>

lemma and_15: "(n :: nat) AND 15 = n mod 16"
  using take_bit_eq_mask [of 4 n] by (simp add: take_bit_eq_mod mask_eq_exp_minus_1)

definition role8 :: "nat \<Rightarrow> nat \<Rightarrow> nat" where
  "role8 i k = (k + 8 - i mod 8) mod 8"

definition view8 :: "nat \<Rightarrow> 'w list \<Rightarrow> 'w list" where
  "view8 i r = map (\<lambda>k. r ! role8 i k) [0, 1, 2, 3, 4, 5, 6, 7]"

definition sha2_assign :: "('w::len word \<Rightarrow> 'w word) \<Rightarrow> ('w word \<Rightarrow> 'w word) \<Rightarrow> nat \<Rightarrow> nat \<Rightarrow> nat \<Rightarrow> nat \<Rightarrow> nat
    \<Rightarrow> nat \<Rightarrow> nat \<Rightarrow> nat \<Rightarrow> 'w word \<Rightarrow> 'w word \<Rightarrow> 'w word list \<Rightarrow> 'w word \<times> 'w word list" where
  "sha2_assign S0 S1 a b c d e f g h k w r =
     (let T1 = w + (r ! h + S1 (r ! e) + Ch (r ! e) (r ! f) (r ! g) + k)
      in (T1, r[h := S0 (r ! a) + Maj (r ! a) (r ! b) (r ! c) + T1, d := r ! d + T1]))"

definition sha2_ring :: "('w::len word \<Rightarrow> 'w word) \<Rightarrow> ('w word \<Rightarrow> 'w word) \<Rightarrow> 'w word list \<Rightarrow> nat \<Rightarrow> 'w word list \<Rightarrow> 'w word" where
  "sha2_ring s0 s1 M i X = (if i < 16 then M ! i
     else X ! (i mod 16) + (s0 (X ! ((i + 1) mod 16)) + s1 (X ! ((i + 14) mod 16)) + X ! ((i + 9) mod 16)))"

definition sha2_step :: "('w::len word \<Rightarrow> 'w word) \<Rightarrow> ('w word \<Rightarrow> 'w word) \<Rightarrow> ('w word \<Rightarrow> 'w word) \<Rightarrow> ('w word \<Rightarrow> 'w word)
    \<Rightarrow> 'w word list \<Rightarrow> 'w word list \<Rightarrow> nat \<Rightarrow> 'w word list \<Rightarrow> 'w word list \<Rightarrow> 'w word \<times> 'w word list \<times> 'w word list" where
  "sha2_step S0 S1 s0 s1 K M i r X =
     (let w = sha2_ring s0 s1 M i X;
          (T1, r') = sha2_assign S0 S1 (role8 i 0) (role8 i 1) (role8 i 2) (role8 i 3) (role8 i 4) (role8 i 5)
            (role8 i 6) (role8 i 7) (K ! i) w r
      in (T1, r', X[i mod 16 := w]))"

lemma length_8E:
  assumes "length r = 8"
  obtains a b c d e f g h where "r = [a, b, c, d, e, f, g, h]"
  using assms by (auto simp: length_Suc_conv numeral_eq_Suc)

lemma view8_assign:
  assumes "length r = 8" "w = W ! i"
  shows "view8 (Suc i) (snd (sha2_assign S0 S1 (role8 i 0) (role8 i 1) (role8 i 2) (role8 i 3) (role8 i 4) (role8 i 5)
            (role8 i 6) (role8 i 7) (K ! i) w r)) = sha2_round S0 S1 K W (view8 i r) i"
proof -
  obtain a b c d e f g h where r: "r = [a, b, c, d, e, f, g, h]"
    using assms(1) by (rule length_8E)
  have "i mod 8 = 0 \<or> i mod 8 = 1 \<or> i mod 8 = 2 \<or> i mod 8 = 3 \<or> i mod 8 = 4 \<or> i mod 8 = 5
      \<or> i mod 8 = 6 \<or> i mod 8 = 7" by linarith
  then show ?thesis
    by (elim disjE) (simp_all add: r view8_def role8_def sha2_assign_def sha2_round_def Let_def
        mod_Suc assms(2) ac_simps)
qed

lemma looks_back_sha2: "looks_back (sha2_expand s0 s1)"
  unfolding looks_back_def sha2_expand_def by auto

text \<open>
  The contract of an unrolled block function: its \<open>i\<close>-th operation is the assignment of the \<open>i\<close>-th
  round in the roles of the moment. Nothing is assumed of the ring's initial contents.
\<close>

locale sha2 =
  fixes S0 S1 s0 s1 :: "'w::len word \<Rightarrow> 'w word"
    and K :: "'w word list"
    and N :: nat
    and ops :: "'w word list \<Rightarrow> ('w word \<times> 'w word list \<times> 'w word list \<Rightarrow> 'w word \<times> 'w word list \<times> 'w word list) list"
  assumes N: "16 \<le> N" "8 dvd N"
    and ops_steps: "list_all2 (\<lambda>f i. \<forall>T1 r X. length r = 8 \<longrightarrow> length X = 16
          \<longrightarrow> f (T1, r, X) = sha2_step S0 S1 s0 s1 K M i r X) (ops M) [0..<N]"
begin

lemma ring_schedule:
  assumes "ring_upto (schedule (sha2_expand s0 s1) M N) i X" "length M = 16" "i < N"
  shows "sha2_ring s0 s1 M i X = schedule (sha2_expand s0 s1) M N ! i"
proof (cases "i < 16")
  case True
  then show ?thesis using schedule_lt_16 [OF assms(2) N(1)] by (simp add: sha2_ring_def)
next
  case False
  have "sha2_ring s0 s1 M i X = sha2_expand s0 s1 (schedule (sha2_expand s0 s1) M N) i"
    using False ring_upto_back [OF assms(1), of 16] ring_upto_back [OF assms(1), of 15]
      ring_upto_back [OF assms(1), of 7] ring_upto_back [OF assms(1), of 2]
    by (simp add: sha2_ring_def sha2_expand_def ac_simps)
  then show ?thesis
    using schedule_ge_16 [OF assms(2) _ assms(3) looks_back_sha2] False by simp
qed

lemma unrolled_upto:
  assumes "length M = 16" "length X0 = 16" "length r0 = 8" "m \<le> N"
  shows "case foldl (\<lambda>st f. f st) (T0, r0, X0) (take m (ops M)) of (T1, r, X) \<Rightarrow>
    length r = 8 \<and> ring_upto (schedule (sha2_expand s0 s1) M N) m X
    \<and> view8 m r = foldl (sha2_round S0 S1 K (schedule (sha2_expand s0 s1) M N)) r0 [0..<m]"
  using assms(4)
proof (induction m)
  case 0
  obtain a b c d e f g h where "r0 = [a, b, c, d, e, f, g, h]" using assms(3) by (rule length_8E)
  then show ?case by (simp add: ring_upto_0 assms view8_def role8_def)
next
  case (Suc m)
  let ?W = "schedule (sha2_expand s0 s1) M N"
  obtain T1 r X where st: "foldl (\<lambda>st f. f st) (T0, r0, X0) (take m (ops M)) = (T1, r, X)"
    by (metis prod_cases3)
  with Suc have r: "length r = 8" and X: "ring_upto ?W m X"
    and v: "view8 m r = foldl (sha2_round S0 S1 K ?W) r0 [0..<m]" by simp_all
  have len: "length (ops M) = N" using list_all2_lengthD [OF ops_steps] by simp
  have op: "(ops M ! m) (T1, r, X) = sha2_step S0 S1 s0 s1 K M m r X"
    using list_all2_nthD [OF ops_steps, of m M] Suc.prems r X len by (simp add: ring_upto_def)
  have w: "sha2_ring s0 s1 M m X = ?W ! m"
    using ring_schedule [OF X assms(1)] Suc.prems by simp
  obtain T1' r' where a: "sha2_assign S0 S1 (role8 m 0) (role8 m 1) (role8 m 2) (role8 m 3) (role8 m 4) (role8 m 5)
            (role8 m 6) (role8 m 7) (K ! m) (?W ! m) r = (T1', r')" by fastforce
  then have r': "length r' = 8" using r by (auto simp: sha2_assign_def Let_def)
  have "take (Suc m) (ops M) = take m (ops M) @ [ops M ! m]"
    using Suc.prems len by (simp add: take_Suc_conv_app_nth)
  then show ?case
    using view8_assign [OF r, of "?W ! m" ?W m S0 S1 K] ring_upto_write [OF X]
    by (simp add: st op sha2_step_def w a r' v Let_def del: One_nat_def)
qed

lemma unrolled:
  assumes "length M = 16" "length X0 = 16" "length r0 = 8"
  shows "fst (snd (foldl (\<lambda>st f. f st) (T0, r0, X0) (ops M)))
    = foldl (sha2_round S0 S1 K (schedule (sha2_expand s0 s1) M N)) r0 [0..<N]"
proof -
  have take: "take N (ops M) = ops M" using list_all2_lengthD [OF ops_steps, of M] by simp
  obtain T1 r X where st: "foldl (\<lambda>st f. f st) (T0, r0, X0) (ops M) = (T1, r, X)"
    by (metis prod_cases3)
  have r: "length r = 8" and
    v: "view8 N r = foldl (sha2_round S0 S1 K (schedule (sha2_expand s0 s1) M N)) r0 [0..<N]"
    using unrolled_upto [OF assms order_refl, of T0] by (simp_all add: st take)
  obtain a b c d e f g h where "r = [a, b, c, d, e, f, g, h]" using r by (rule length_8E)
  then have "view8 N r = r" using N(2) by (simp add: view8_def role8_def dvd_eq_mod_eq_0)
  with v st show ?thesis by simp
qed

end

end
