(* ===== verification/Sha256.thy ===== *)
theory Sha256
  imports Md32 Sha2
begin

unbundle bit_operations_syntax

text \<open>
  SHA-224 and SHA-256 (crypto/fipsmodule/sha/sha256.c): the block function with its eight rotating registers and
  its ring of sixteen schedule words, the constants, and the four operations of each hash on top
  of the collector. The compression function is proved to be that of FIPS 180-4, and the tables
  to be the digits of roots of primes the standard defines them as.
\<close>

section \<open>The code\<close>

abbreviation (input) ra :: nat where "ra \<equiv> 0"
abbreviation (input) rb :: nat where "rb \<equiv> 1"
abbreviation (input) rc :: nat where "rc \<equiv> 2"
abbreviation (input) rd :: nat where "rd \<equiv> 3"
abbreviation (input) re :: nat where "re \<equiv> 4"
abbreviation (input) rf :: nat where "rf \<equiv> 5"
abbreviation (input) rg :: nat where "rg \<equiv> 6"
abbreviation (input) rh :: nat where "rh \<equiv> 7"

record sha256_ctx = md32_ctx +
  ctx_md_len :: nat

abbreviation (input) SHA224_DIGEST_LENGTH :: nat where "SHA224_DIGEST_LENGTH \<equiv> 28"
abbreviation (input) SHA256_DIGEST_LENGTH :: nat where "SHA256_DIGEST_LENGTH \<equiv> 32"

definition SHA224_Init :: sha256_ctx where
  "SHA224_Init = \<lparr>ctx_h = [0xc1059ed8, 0x367cd507, 0x3070dd17, 0xf70e5939,
     0xffc00b31, 0x68581511, 0x64f98fa7, 0xbefa4fa4],
     ctx_Nl = 0, ctx_Nh = 0, ctx_data = replicate 64 0, ctx_num = 0, ctx_md_len = SHA224_DIGEST_LENGTH\<rparr>"

definition SHA256_Init :: sha256_ctx where
  "SHA256_Init = \<lparr>ctx_h = [0x6a09e667, 0xbb67ae85, 0x3c6ef372, 0xa54ff53a,
     0x510e527f, 0x9b05688c, 0x1f83d9ab, 0x5be0cd19],
     ctx_Nl = 0, ctx_Nh = 0, ctx_data = replicate 64 0, ctx_num = 0, ctx_md_len = SHA256_DIGEST_LENGTH\<rparr>"

definition K256 :: "u32 list" where
  "K256 =
    concat [[0x428a2f98, 0x71374491, 0xb5c0fbcf, 0xe9b5dba5, 0x3956c25b],
      [0x59f111f1, 0x923f82a4, 0xab1c5ed5, 0xd807aa98, 0x12835b01],
      [0x243185be, 0x550c7dc3, 0x72be5d74, 0x80deb1fe, 0x9bdc06a7],
      [0xc19bf174, 0xe49b69c1, 0xefbe4786, 0x0fc19dc6, 0x240ca1cc],
      [0x2de92c6f, 0x4a7484aa, 0x5cb0a9dc, 0x76f988da, 0x983e5152],
      [0xa831c66d, 0xb00327c8, 0xbf597fc7, 0xc6e00bf3, 0xd5a79147],
      [0x06ca6351, 0x14292967, 0x27b70a85, 0x2e1b2138, 0x4d2c6dfc],
      [0x53380d13, 0x650a7354, 0x766a0abb, 0x81c2c92e, 0x92722c85],
      [0xa2bfe8a1, 0xa81a664b, 0xc24b8b70, 0xc76c51a3, 0xd192e819],
      [0xd6990624, 0xf40e3585, 0x106aa070, 0x19a4c116, 0x1e376c08],
      [0x2748774c, 0x34b0bcb5, 0x391c0cb3, 0x4ed8aa4a, 0x5b9cca4f],
      [0x682e6ff3, 0x748f82ee, 0x78a5636f, 0x84c87814, 0x8cc70208],
      [0x90befffa, 0xa4506ceb, 0xbef9a3f7, 0xc67178f2]]"

definition sha256_Sigma0 :: "u32 \<Rightarrow> u32" where
  "sha256_Sigma0 x = ROTATE x 30 XOR ROTATE x 19 XOR ROTATE x 10"

definition sha256_Sigma1 :: "u32 \<Rightarrow> u32" where
  "sha256_Sigma1 x = ROTATE x 26 XOR ROTATE x 21 XOR ROTATE x 7"

definition sha256_sigma0 :: "u32 \<Rightarrow> u32" where
  "sha256_sigma0 x = ROTATE x 25 XOR ROTATE x 14 XOR drop_bit 3 x"

definition sha256_sigma1 :: "u32 \<Rightarrow> u32" where
  "sha256_sigma1 x = ROTATE x 15 XOR ROTATE x 13 XOR drop_bit 10 x"

definition sha256_Ch :: "u32 \<Rightarrow> u32 \<Rightarrow> u32 \<Rightarrow> u32" where
  "sha256_Ch x y z = (x AND y) XOR (NOT x AND z)"

definition sha256_Maj :: "u32 \<Rightarrow> u32 \<Rightarrow> u32 \<Rightarrow> u32" where
  "sha256_Maj x y z = (x AND y) XOR (x AND z) XOR (y AND z)"

text \<open>
  The macros change the temporary \<open>T1\<close>, the registers \<open>r\<close> (whose names they are passed) and
  the ring \<open>X\<close>. \<open>sha256_load\<close> is the assignment \<open>T1 = X[i] = l\<close> before each of the first sixteen rounds.
\<close>

definition sha256_load :: "nat \<Rightarrow> u32 \<Rightarrow> u32 \<times> u32 list \<times> u32 list \<Rightarrow> u32 \<times> u32 list \<times> u32 list" where
  "sha256_load i l = (\<lambda>(T1, r, X). (l, r, X[i := l]))"

definition sha256_ROUND_00_15 :: "nat \<Rightarrow> nat \<Rightarrow> nat \<Rightarrow> nat \<Rightarrow> nat \<Rightarrow> nat \<Rightarrow> nat \<Rightarrow> nat \<Rightarrow> nat \<Rightarrow> u32 \<times> u32 list \<times> u32 list \<Rightarrow> u32 \<times> u32 list \<times> u32 list" where
  "sha256_ROUND_00_15 i a b c d e f g h = (\<lambda>(T1, r, X).
     let T1 = T1 + (r ! h + sha256_Sigma1 (r ! e) + sha256_Ch (r ! e) (r ! f) (r ! g) + K256 ! i);
         r = r[h := sha256_Sigma0 (r ! a) + sha256_Maj (r ! a) (r ! b) (r ! c)];
         r = r[d := r ! d + T1];
         r = r[h := r ! h + T1]
     in (T1, r, X))"

definition sha256_ROUND_16_63 :: "nat \<Rightarrow> nat \<Rightarrow> nat \<Rightarrow> nat \<Rightarrow> nat \<Rightarrow> nat \<Rightarrow> nat \<Rightarrow> nat \<Rightarrow> nat \<Rightarrow> u32 \<times> u32 list \<times> u32 list \<Rightarrow> u32 \<times> u32 list \<times> u32 list" where
  "sha256_ROUND_16_63 i a b c d e f g h = (\<lambda>(T1, r, X).
     let s0 = X ! ((i + 1) AND 0x0f);
         s0 = sha256_sigma0 s0;
         s1 = X ! ((i + 14) AND 0x0f);
         s1 = sha256_sigma1 s1;
         X = X[i AND 0x0f := X ! (i AND 0x0f) + (s0 + s1 + X ! ((i + 9) AND 0x0f))];
         T1 = X ! (i AND 0x0f)
     in sha256_ROUND_00_15 i a b c d e f g h (T1, r, X))"

text \<open>The body of the loop over \<open>i\<close>, and all rounds in order.\<close>

definition sha256_loop_body :: "nat \<Rightarrow> (u32 \<times> u32 list \<times> u32 list \<Rightarrow> u32 \<times> u32 list \<times> u32 list) list" where
  "sha256_loop_body i =
    [sha256_ROUND_16_63 (i + 0) ra rb rc rd re rf rg rh,
     sha256_ROUND_16_63 (i + 1) rh ra rb rc rd re rf rg,
     sha256_ROUND_16_63 (i + 2) rg rh ra rb rc rd re rf,
     sha256_ROUND_16_63 (i + 3) rf rg rh ra rb rc rd re,
     sha256_ROUND_16_63 (i + 4) re rf rg rh ra rb rc rd,
     sha256_ROUND_16_63 (i + 5) rd re rf rg rh ra rb rc,
     sha256_ROUND_16_63 (i + 6) rc rd re rf rg rh ra rb,
     sha256_ROUND_16_63 (i + 7) rb rc rd re rf rg rh ra]"

definition sha256_rounds :: "u32 list \<Rightarrow> (u32 \<times> u32 list \<times> u32 list \<Rightarrow> u32 \<times> u32 list \<times> u32 list) list" where
  "sha256_rounds M =
    [sha256_ROUND_00_15 0 ra rb rc rd re rf rg rh \<circ> sha256_load 0 (M ! 0),
    sha256_ROUND_00_15 1 rh ra rb rc rd re rf rg \<circ> sha256_load 1 (M ! 1),
    sha256_ROUND_00_15 2 rg rh ra rb rc rd re rf \<circ> sha256_load 2 (M ! 2),
    sha256_ROUND_00_15 3 rf rg rh ra rb rc rd re \<circ> sha256_load 3 (M ! 3),
    sha256_ROUND_00_15 4 re rf rg rh ra rb rc rd \<circ> sha256_load 4 (M ! 4),
    sha256_ROUND_00_15 5 rd re rf rg rh ra rb rc \<circ> sha256_load 5 (M ! 5),
    sha256_ROUND_00_15 6 rc rd re rf rg rh ra rb \<circ> sha256_load 6 (M ! 6),
    sha256_ROUND_00_15 7 rb rc rd re rf rg rh ra \<circ> sha256_load 7 (M ! 7),
    sha256_ROUND_00_15 8 ra rb rc rd re rf rg rh \<circ> sha256_load 8 (M ! 8),
    sha256_ROUND_00_15 9 rh ra rb rc rd re rf rg \<circ> sha256_load 9 (M ! 9),
    sha256_ROUND_00_15 10 rg rh ra rb rc rd re rf \<circ> sha256_load 10 (M ! 10),
    sha256_ROUND_00_15 11 rf rg rh ra rb rc rd re \<circ> sha256_load 11 (M ! 11),
    sha256_ROUND_00_15 12 re rf rg rh ra rb rc rd \<circ> sha256_load 12 (M ! 12),
    sha256_ROUND_00_15 13 rd re rf rg rh ra rb rc \<circ> sha256_load 13 (M ! 13),
    sha256_ROUND_00_15 14 rc rd re rf rg rh ra rb \<circ> sha256_load 14 (M ! 14),
    sha256_ROUND_00_15 15 rb rc rd re rf rg rh ra \<circ> sha256_load 15 (M ! 15)]
    @ concat (map (\<lambda>k. sha256_loop_body (16 + 8 * k)) [0..<6])"

text \<open>One block; \<open>X\<close> and \<open>T1\<close> start out uninitialised, here as zeros no round reads.\<close>

definition sha256_one_block :: "u32 list \<Rightarrow> bytes \<Rightarrow> u32 list" where
  "sha256_one_block state data =
     (let regs = [state ! 0, state ! 1, state ! 2, state ! 3, state ! 4, state ! 5, state ! 6, state ! 7];
          (T1, r, X) = foldl (\<lambda>st f. f st) (0, regs, replicate 16 0) (sha256_rounds (block_words True data))
      in [state ! 0 + r ! ra, state ! 1 + r ! rb, state ! 2 + r ! rc, state ! 3 + r ! rd,
          state ! 4 + r ! re, state ! 5 + r ! rf, state ! 6 + r ! rg, state ! 7 + r ! rh])"

fun sha256_block_data_order :: "u32 list \<Rightarrow> bytes \<Rightarrow> nat \<Rightarrow> u32 list" where
  "sha256_block_data_order state data 0 = state"
| "sha256_block_data_order state data (Suc num) =
     sha256_block_data_order (sha256_one_block state data) (drop 64 data) num"

definition SHA256_TransformBlocks :: "u32 list \<Rightarrow> bytes \<Rightarrow> nat \<Rightarrow> u32 list" where
  "SHA256_TransformBlocks state data num_blocks = sha256_block_data_order state data num_blocks"

definition SHA256_Update :: "bytes \<Rightarrow> sha256_ctx \<Rightarrow> sha256_ctx" where
  "SHA256_Update data c = HASH_UPDATE sha256_block_data_order data c"

definition SHA256_Transform :: "bytes \<Rightarrow> sha256_ctx \<Rightarrow> sha256_ctx" where
  "SHA256_Transform data c = HASH_TRANSFORM sha256_block_data_order data c"

text \<open>The output macro: the three cases of the switch differ only in the guard.\<close>

definition sha256_make_string :: "sha256_ctx \<Rightarrow> bytes option" where
  "sha256_make_string c =
     (if ctx_md_len c = SHA224_DIGEST_LENGTH then
        Some (concat (map (\<lambda>nn. HOST_l2c True (ctx_h c ! nn)) [0..<SHA224_DIGEST_LENGTH div 4]))
      else if ctx_md_len c = SHA256_DIGEST_LENGTH then
        Some (concat (map (\<lambda>nn. HOST_l2c True (ctx_h c ! nn)) [0..<SHA256_DIGEST_LENGTH div 4]))
      else if ctx_md_len c > SHA256_DIGEST_LENGTH then None
      else Some (concat (map (\<lambda>nn. HOST_l2c True (ctx_h c ! nn)) [0..<ctx_md_len c div 4])))"

definition SHA256_Final :: "sha256_ctx \<Rightarrow> bytes option \<times> sha256_ctx" where
  "SHA256_Final c = HASH_FINAL sha256_block_data_order True sha256_make_string c"

definition SHA224_Update :: "bytes \<Rightarrow> sha256_ctx \<Rightarrow> sha256_ctx" where
  "SHA224_Update data ctx = SHA256_Update data ctx"

definition SHA224_Final :: "sha256_ctx \<Rightarrow> bytes option \<times> sha256_ctx" where
  "SHA224_Final ctx = SHA256_Final ctx"

definition SHA224 :: "bytes \<Rightarrow> bytes option" where
  "SHA224 data = fst (SHA224_Final (SHA224_Update data SHA224_Init))"

definition SHA256 :: "bytes \<Rightarrow> bytes option" where
  "SHA256 data = fst (SHA256_Final (SHA256_Update data SHA256_Init))"

section \<open>FIPS 180-4\<close>

definition sha256_S0 :: "u32 \<Rightarrow> u32" where
  "sha256_S0 x = word_rotr 2 x XOR word_rotr 13 x XOR word_rotr 22 x"

definition sha256_S1 :: "u32 \<Rightarrow> u32" where
  "sha256_S1 x = word_rotr 6 x XOR word_rotr 11 x XOR word_rotr 25 x"

definition sha256_s0 :: "u32 \<Rightarrow> u32" where
  "sha256_s0 x = word_rotr 7 x XOR word_rotr 18 x XOR drop_bit 3 x"

definition sha256_s1 :: "u32 \<Rightarrow> u32" where
  "sha256_s1 x = word_rotr 17 x XOR word_rotr 19 x XOR drop_bit 10 x"

definition sha256_compress :: "u32 list \<Rightarrow> bytes \<Rightarrow> u32 list" where
  "sha256_compress s blk =
     (let W = schedule (sha2_expand sha256_s0 sha256_s1) (block_words True blk) 64;
          v = foldl (sha2_round sha256_S0 sha256_S1 K256 W) (map ((!) s) [0, 1, 2, 3, 4, 5, 6, 7]) [0..<64]
      in map (\<lambda>k. s ! k + v ! k) [0, 1, 2, 3, 4, 5, 6, 7])"

abbreviation (input) sha224_iv :: "u32 list" where
  "sha224_iv \<equiv> [0xc1059ed8, 0x367cd507, 0x3070dd17, 0xf70e5939,
     0xffc00b31, 0x68581511, 0x64f98fa7, 0xbefa4fa4]"

abbreviation (input) sha256_iv :: "u32 list" where
  "sha256_iv \<equiv> [0x6a09e667, 0xbb67ae85, 0x3c6ef372, 0xa54ff53a,
     0x510e527f, 0x9b05688c, 0x1f83d9ab, 0x5be0cd19]"

definition sha256_hash :: "bytes \<Rightarrow> bytes" where
  "sha256_hash xs = concat (map (\<lambda>w. nat_be 4 (unat w)) (merkle_damgard True 64 8 sha256_compress sha256_iv xs))"

definition sha224_hash :: "bytes \<Rightarrow> bytes" where
  "sha224_hash xs = take 28 (concat (map (\<lambda>w. nat_be 4 (unat w))
     (merkle_damgard True 64 8 sha256_compress sha224_iv xs)))"

section \<open>The rounds of the code are the rounds of the standard\<close>

lemma sha256_Sigma_eq:
  "sha256_Sigma0 = sha256_S0" "sha256_Sigma1 = sha256_S1" "sha256_sigma0 = sha256_s0" "sha256_sigma1 = sha256_s1"
  by (intro ext; simp add: sha256_Sigma0_def sha256_S0_def sha256_Sigma1_def sha256_S1_def
      sha256_sigma0_def sha256_s0_def sha256_sigma1_def sha256_s1_def ROTATE_rotr)+

lemma sha256_Ch_eq: "sha256_Ch = Ch" and sha256_Maj_eq: "sha256_Maj = Maj"
  by (intro ext; simp add: sha256_Ch_def Ch_def sha256_Maj_def Maj_def)+

lemma sha256_ROUND_assign:
  assumes "length r = 8" "h < 8" "distinct [h, d, a, b, c, e, f, g]"
  shows "sha256_ROUND_00_15 i a b c d e f g h (T1, r, X)
    = (case sha2_assign sha256_S0 sha256_S1 a b c d e f g h (K256 ! i) T1 r of (T1, r) \<Rightarrow> (T1, r, X))"
  using assms by (simp add: sha256_ROUND_00_15_def sha2_assign_def Let_def sha256_Sigma_eq sha256_Ch_eq sha256_Maj_eq
      list_update_swap)

text \<open>The operations one by one against the rounds; \<open>K\<close> stays folded.\<close>

lemma sha256_rounds_steps:
  "list_all2 (\<lambda>f i. \<forall>T1 r X. length r = 8 \<longrightarrow> length X = 16
      \<longrightarrow> f (T1, r, X) = sha2_step sha256_S0 sha256_S1 sha256_s0 sha256_s1 K256 M i r X) (sha256_rounds M) [0..<64]"
  by (simp add: sha256_rounds_def sha256_loop_body_def upt_conv_Cons sha256_load_def sha256_ROUND_16_63_def
      sha256_ROUND_assign and_15 sha2_step_def sha2_ring_def role8_def sha256_Sigma_eq Let_def
      split: prod.split flip: numeral_2_eq_2)

interpretation sha256_sha2: sha2 sha256_S0 sha256_S1 sha256_s0 sha256_s1 K256 64 sha256_rounds
  by (unfold_locales; (rule sha256_rounds_steps)?; simp)

lemma sha256_one_block_eq: "sha256_one_block s blk = sha256_compress s blk"
proof -
  let ?regs = "[s ! 0, s ! 1, s ! 2, s ! 3, s ! 4, s ! 5, s ! 6, s ! 7]"
  obtain T1 r X where st: "foldl (\<lambda>st f. f st) (0, ?regs, replicate 16 0) (sha256_rounds (block_words True blk)) = (T1, r, X)"
    by (metis prod_cases3)
  have "r = foldl (sha2_round sha256_S0 sha256_S1 K256
        (schedule (sha2_expand sha256_s0 sha256_s1) (block_words True blk) 64)) ?regs [0..<64]"
    using sha256_sha2.unrolled [of "block_words True blk" "replicate 16 0" ?regs 0] st by simp
  then show ?thesis
    unfolding sha256_one_block_def sha256_compress_def Let_def st by simp
qed

lemma sha256_compress_take: "sha256_compress s (take 64 data) = sha256_compress s data"
  by (simp add: sha256_compress_def block_words_take)

interpretation sha256_blocks: md32 sha256_block_data_order sha256_compress True
proof unfold_locales
  fix n s and data :: bytes
  assume "n * 64 \<le> length data"
  then show "sha256_block_data_order s data n = foldl sha256_compress s (chunks 64 n data)"
  proof (induction n arbitrary: s data)
    case (Suc n)
    then show ?case by (simp add: sha256_one_block_eq sha256_compress_take)
  qed simp
qed

lemma length_sha256_compress: "length (sha256_compress s blk) = 8"
  by (simp add: sha256_compress_def Let_def)

text \<open>The context also remembers which of the two hashes it computes.\<close>

definition sha256_rep :: "u32 list \<Rightarrow> nat \<Rightarrow> sha256_ctx \<Rightarrow> bytes \<Rightarrow> bool" where
  "sha256_rep iv len c xs \<longleftrightarrow> md32_rep sha256_compress iv c xs \<and> ctx_md_len c = len"

lemma HASH_UPDATE_md_len: "ctx_md_len (HASH_UPDATE block data c) = ctx_md_len c"
  by (simp add: HASH_UPDATE_def HASH_UPDATE_blocks_def Let_def)

lemma sha256_rep_update: "sha256_rep iv len c xs \<Longrightarrow> sha256_rep iv len (SHA256_Update ys c) (xs @ ys)"
  unfolding sha256_rep_def SHA256_Update_def by (simp add: sha256_blocks.update_rep HASH_UPDATE_md_len)

lemma sha256_final:
  assumes rep: "sha256_rep iv len c xs" and "length iv = 8" "len = 28 \<or> len = 32"
  shows "fst (SHA256_Final c)
    = Some (take len (concat (map (\<lambda>w. nat_be 4 (unat w)) (merkle_damgard True 64 8 sha256_compress iv xs))))"
proof -
  let ?d = "merkle_damgard True 64 8 sha256_compress iv xs"
  have "length ?d = 8"
    unfolding merkle_damgard_def by (rule iterate_blocks_length) (simp_all add: length_sha256_compress assms(2))
  then obtain a b c' d e f g h where d: "?d = [a, b, c', d, e, f, g, h]" by (rule length_8E)
  have "md32_rep sha256_compress iv c xs" "ctx_md_len c = len" using rep by (simp_all add: sha256_rep_def)
  then show ?thesis
    unfolding SHA256_Final_def sha256_blocks.final_rep [OF \<open>md32_rep sha256_compress iv c xs\<close>] d
    using assms(3) by (auto simp: sha256_make_string_def Let_def HOST_l2c_be upt_conv_Cons)
qed

interpretation sha256_stream: streaming SHA256_Init SHA256_Update "\<lambda>c. fst (SHA256_Final c)" "\<lambda>_. True"
  "sha256_rep sha256_iv 32" "\<lambda>xs. Some (sha256_hash xs)"
proof
  show "sha256_rep sha256_iv 32 SHA256_Init []"
    by (simp add: sha256_rep_def md32_rep_def SHA256_Init_def tail_def)
next
  fix s xs
  assume rep: "sha256_rep sha256_iv 32 s xs"
  have "length (merkle_damgard True 64 8 sha256_compress sha256_iv xs) = 8"
    unfolding merkle_damgard_def by (rule iterate_blocks_length) (simp_all add: length_sha256_compress)
  then obtain a b c d e f g h where
    d: "merkle_damgard True 64 8 sha256_compress sha256_iv xs = [a, b, c, d, e, f, g, h]" by (rule length_8E)
  show "fst (SHA256_Final s) = Some (sha256_hash xs)"
    using sha256_final [OF rep] unfolding sha256_hash_def d by simp
qed (rule sha256_rep_update)

interpretation sha224_stream: streaming SHA224_Init SHA224_Update "\<lambda>c. fst (SHA224_Final c)" "\<lambda>_. True"
  "sha256_rep sha224_iv 28" "\<lambda>xs. Some (sha224_hash xs)"
proof
  show "sha256_rep sha224_iv 28 SHA224_Init []"
    by (simp add: sha256_rep_def md32_rep_def SHA224_Init_def tail_def)
next
  fix s xs
  assume rep: "sha256_rep sha224_iv 28 s xs"
  show "fst (SHA224_Final s) = Some (sha224_hash xs)"
    unfolding SHA224_Final_def sha224_hash_def by (rule sha256_final [OF rep]) simp_all
next
  fix s xs ys
  assume "sha256_rep sha224_iv 28 s xs"
  then show "sha256_rep sha224_iv 28 (SHA224_Update ys s) (xs @ ys)"
    unfolding SHA224_Update_def by (rule sha256_rep_update)
qed

text \<open>(C21) However a message is cut into calls of SHA256_Update, SHA256_Final yields the SHA-256
  hash of the whole message as FIPS 180-4 defines it; the same for SHA-224, whose output is
  the first 28 bytes of the iteration from its own initial value.\<close>

theorem SHA256_hashes:
  "fst (SHA256_Final (fold SHA256_Update parts SHA256_Init)) = Some (sha256_hash (concat parts))
   \<and> fst (SHA224_Final (fold SHA224_Update parts SHA224_Init)) = Some (sha224_hash (concat parts))"
  by (intro conjI sha256_stream.chunked sha224_stream.chunked) simp_all

lemma primes_256:
  "primes_below 312 = [2, 3, 5, 7, 11, 13, 17, 19, 23, 29, 31, 37, 41, 43, 47, 53, 59, 61, 67, 71,
     73, 79, 83, 89, 97, 101, 103, 107, 109, 113, 127, 131, 137, 139, 149, 151, 157, 163, 167, 173,
     179, 181, 191, 193, 197, 199, 211, 223, 227, 229, 233, 239, 241, 251, 257, 263, 269, 271, 277, 281,
     283, 293, 307, 311]"
  "primes_below 20 = [2, 3, 5, 7, 11, 13, 17, 19]"
  by code_simp+

text \<open>The table K256 is what FIPS 180-4 says: the first 32 bits of the fractional parts of the
  cube roots of the first 64 primes; and the initial value of SHA-256 the same of the square
  roots of the first eight.\<close>

lemma K256_from_primes:
  "list_all2 (\<lambda>p k. frac_root 3 32 p (uint k)) (primes_below 312) K256
   \<and> list_all2 (\<lambda>p k. frac_root 2 32 p (uint k)) (primes_below 20) (ctx_h SHA256_Init)"
  by (simp add: primes_256 K256_def SHA256_Init_def frac_root_def int_root_def)

end
