(* ===== verification/Sha512.thy ===== *)
theory Sha512
  imports Md32 Sha2 Internal
begin

unbundle bit_operations_syntax

text \<open>
  SHA-384 and SHA-512 (crypto/fipsmodule/sha/sha512.c), which do not use the shared collector but one of their
  own with a 128-bit message length. The file has two block functions, for 32-bit x86 and for
  other processors; both are modelled and proved to be the compression function of FIPS 180-4.
\<close>

section \<open>The code\<close>

record sha512_ctx =
  ctx5_h :: "u64 list"
  ctx5_Nl :: u64
  ctx5_Nh :: u64
  ctx5_p :: bytes
  ctx5_num :: nat
  ctx5_md_len :: nat

abbreviation (input) SHA512_CBLOCK :: nat where "SHA512_CBLOCK \<equiv> 128"
abbreviation (input) SHA384_DIGEST_LENGTH :: nat where "SHA384_DIGEST_LENGTH \<equiv> 48"
abbreviation (input) SHA512_DIGEST_LENGTH :: nat where "SHA512_DIGEST_LENGTH \<equiv> 64"
abbreviation (input) ra :: nat where "ra \<equiv> 0"
abbreviation (input) rb :: nat where "rb \<equiv> 1"
abbreviation (input) rc :: nat where "rc \<equiv> 2"
abbreviation (input) rd :: nat where "rd \<equiv> 3"
abbreviation (input) re :: nat where "re \<equiv> 4"
abbreviation (input) rf :: nat where "rf \<equiv> 5"
abbreviation (input) rg :: nat where "rg \<equiv> 6"
abbreviation (input) rh :: nat where "rh \<equiv> 7"

text \<open>Unlike the others these do not clear the buffer: they take the context as it is.\<close>

definition SHA384_Init :: "sha512_ctx \<Rightarrow> sha512_ctx" where
  "SHA384_Init sha = sha\<lparr>ctx5_h := [0xcbbb9d5dc1059ed8, 0x629a292a367cd507,
     0x9159015a3070dd17, 0x152fecd8f70e5939,
     0x67332667ffc00b31, 0x8eb44a8768581511,
     0xdb0c2e0d64f98fa7, 0x47b5481dbefa4fa4],
     ctx5_Nl := 0, ctx5_Nh := 0, ctx5_num := 0, ctx5_md_len := SHA384_DIGEST_LENGTH\<rparr>"

definition SHA512_Init :: "sha512_ctx \<Rightarrow> sha512_ctx" where
  "SHA512_Init sha = sha\<lparr>ctx5_h := [0x6a09e667f3bcc908, 0xbb67ae8584caa73b,
     0x3c6ef372fe94f82b, 0xa54ff53a5f1d36f1,
     0x510e527fade682d1, 0x9b05688c2b3e6c1f,
     0x1f83d9abfb41bd6b, 0x5be0cd19137e2179],
     ctx5_Nl := 0, ctx5_Nh := 0, ctx5_num := 0, ctx5_md_len := SHA512_DIGEST_LENGTH\<rparr>"

definition K512 :: "u64 list" where
  "K512 =
    concat [[0x428a2f98d728ae22, 0x7137449123ef65cd], [0xb5c0fbcfec4d3b2f, 0xe9b5dba58189dbbc],
      [0x3956c25bf348b538, 0x59f111f1b605d019], [0x923f82a4af194f9b, 0xab1c5ed5da6d8118],
      [0xd807aa98a3030242, 0x12835b0145706fbe], [0x243185be4ee4b28c, 0x550c7dc3d5ffb4e2],
      [0x72be5d74f27b896f, 0x80deb1fe3b1696b1], [0x9bdc06a725c71235, 0xc19bf174cf692694],
      [0xe49b69c19ef14ad2, 0xefbe4786384f25e3], [0x0fc19dc68b8cd5b5, 0x240ca1cc77ac9c65],
      [0x2de92c6f592b0275, 0x4a7484aa6ea6e483], [0x5cb0a9dcbd41fbd4, 0x76f988da831153b5],
      [0x983e5152ee66dfab, 0xa831c66d2db43210], [0xb00327c898fb213f, 0xbf597fc7beef0ee4],
      [0xc6e00bf33da88fc2, 0xd5a79147930aa725], [0x06ca6351e003826f, 0x142929670a0e6e70],
      [0x27b70a8546d22ffc, 0x2e1b21385c26c926], [0x4d2c6dfc5ac42aed, 0x53380d139d95b3df],
      [0x650a73548baf63de, 0x766a0abb3c77b2a8], [0x81c2c92e47edaee6, 0x92722c851482353b],
      [0xa2bfe8a14cf10364, 0xa81a664bbc423001], [0xc24b8b70d0f89791, 0xc76c51a30654be30],
      [0xd192e819d6ef5218, 0xd69906245565a910], [0xf40e35855771202a, 0x106aa07032bbd1b8],
      [0x19a4c116b8d2d0c8, 0x1e376c085141ab53], [0x2748774cdf8eeb99, 0x34b0bcb5e19b48a8],
      [0x391c0cb3c5c95a63, 0x4ed8aa4ae3418acb], [0x5b9cca4f7763e373, 0x682e6ff3d6b2b8a3],
      [0x748f82ee5defb2fc, 0x78a5636f43172f60], [0x84c87814a1f0ab72, 0x8cc702081a6439ec],
      [0x90befffa23631e28, 0xa4506cebde82bde9], [0xbef9a3f7b2c67915, 0xc67178f2e372532b],
      [0xca273eceea26619c, 0xd186b8c721c0c207], [0xeada7dd6cde0eb1e, 0xf57d4f7fee6ed178],
      [0x06f067aa72176fba, 0x0a637dc5a2c898a6], [0x113f9804bef90dae, 0x1b710b35131c471b],
      [0x28db77f523047d84, 0x32caab7b40c72493], [0x3c9ebe0a15c9bebc, 0x431d67c49c100d4c],
      [0x4cc5d4becb3e42b6, 0x597f299cfc657e2a], [0x5fcb6fab3ad6faec, 0x6c44198c4a475817]]"

definition ROTR :: "u64 \<Rightarrow> nat \<Rightarrow> u64" where
  "ROTR x s = drop_bit s x OR push_bit (64 - s) x"

text \<open>An unaligned load on a little-endian machine, then a byte swap.\<close>

definition load_u64_be :: "bytes \<Rightarrow> u64" where
  "load_u64_be ptr = CRYPTO_bswap8 (be_word 0 (rev (take 8 ptr)))"

definition sha512_Sigma0 :: "u64 \<Rightarrow> u64" where
  "sha512_Sigma0 x = ROTR x 28 XOR ROTR x 34 XOR ROTR x 39"

definition sha512_Sigma1 :: "u64 \<Rightarrow> u64" where
  "sha512_Sigma1 x = ROTR x 14 XOR ROTR x 18 XOR ROTR x 41"

definition sha512_sigma0 :: "u64 \<Rightarrow> u64" where
  "sha512_sigma0 x = ROTR x 1 XOR ROTR x 8 XOR drop_bit 7 x"

definition sha512_sigma1 :: "u64 \<Rightarrow> u64" where
  "sha512_sigma1 x = ROTR x 19 XOR ROTR x 61 XOR drop_bit 6 x"

definition sha512_Ch :: "u64 \<Rightarrow> u64 \<Rightarrow> u64 \<Rightarrow> u64" where
  "sha512_Ch x y z = (x AND y) XOR (NOT x AND z)"

definition sha512_Maj :: "u64 \<Rightarrow> u64 \<Rightarrow> u64 \<Rightarrow> u64" where
  "sha512_Maj x y z = (x AND y) XOR (x AND z) XOR (y AND z)"

text \<open>
  The macros change the temporary \<open>T1\<close>, the registers \<open>r\<close> (whose names they are passed) and
  the ring \<open>X\<close>. \<open>sha512_load\<close> is the assignment \<open>T1 = X[i] = l\<close> before each of the first sixteen rounds.
\<close>

definition sha512_load :: "nat \<Rightarrow> u64 \<Rightarrow> u64 \<times> u64 list \<times> u64 list \<Rightarrow> u64 \<times> u64 list \<times> u64 list" where
  "sha512_load i l = (\<lambda>(T1, r, X). (l, r, X[i := l]))"

definition sha512_ROUND_00_15 :: "nat \<Rightarrow> nat \<Rightarrow> nat \<Rightarrow> nat \<Rightarrow> nat \<Rightarrow> nat \<Rightarrow> nat \<Rightarrow> nat \<Rightarrow> nat \<Rightarrow> u64 \<times> u64 list \<times> u64 list \<Rightarrow> u64 \<times> u64 list \<times> u64 list" where
  "sha512_ROUND_00_15 i a b c d e f g h = (\<lambda>(T1, r, X).
     let T1 = T1 + (r ! h + sha512_Sigma1 (r ! e) + sha512_Ch (r ! e) (r ! f) (r ! g) + K512 ! i);
         r = r[h := sha512_Sigma0 (r ! a) + sha512_Maj (r ! a) (r ! b) (r ! c)];
         r = r[d := r ! d + T1];
         r = r[h := r ! h + T1]
     in (T1, r, X))"

definition sha512_ROUND_16_80 :: "nat \<Rightarrow> nat \<Rightarrow> nat \<Rightarrow> nat \<Rightarrow> nat \<Rightarrow> nat \<Rightarrow> nat \<Rightarrow> nat \<Rightarrow> nat \<Rightarrow> nat \<Rightarrow> u64 \<times> u64 list \<times> u64 list \<Rightarrow> u64 \<times> u64 list \<times> u64 list" where
  "sha512_ROUND_16_80 i j a b c d e f g h = (\<lambda>(T1, r, X).
     let s0 = X ! ((j + 1) AND 0x0f);
         s0 = sha512_sigma0 s0;
         s1 = X ! ((j + 14) AND 0x0f);
         s1 = sha512_sigma1 s1;
         X = X[j AND 0x0f := X ! (j AND 0x0f) + (s0 + s1 + X ! ((j + 9) AND 0x0f))];
         T1 = X ! (j AND 0x0f)
     in sha512_ROUND_00_15 (i + j) a b c d e f g h (T1, r, X))"

text \<open>The body of the loop over \<open>i\<close>, and all rounds in order.\<close>

definition sha512_loop_body :: "nat \<Rightarrow> (u64 \<times> u64 list \<times> u64 list \<Rightarrow> u64 \<times> u64 list \<times> u64 list) list" where
  "sha512_loop_body i =
    [sha512_ROUND_16_80 i 0 ra rb rc rd re rf rg rh,
     sha512_ROUND_16_80 i 1 rh ra rb rc rd re rf rg,
     sha512_ROUND_16_80 i 2 rg rh ra rb rc rd re rf,
     sha512_ROUND_16_80 i 3 rf rg rh ra rb rc rd re,
     sha512_ROUND_16_80 i 4 re rf rg rh ra rb rc rd,
     sha512_ROUND_16_80 i 5 rd re rf rg rh ra rb rc,
     sha512_ROUND_16_80 i 6 rc rd re rf rg rh ra rb,
     sha512_ROUND_16_80 i 7 rb rc rd re rf rg rh ra,
     sha512_ROUND_16_80 i 8 ra rb rc rd re rf rg rh,
     sha512_ROUND_16_80 i 9 rh ra rb rc rd re rf rg,
     sha512_ROUND_16_80 i 10 rg rh ra rb rc rd re rf,
     sha512_ROUND_16_80 i 11 rf rg rh ra rb rc rd re,
     sha512_ROUND_16_80 i 12 re rf rg rh ra rb rc rd,
     sha512_ROUND_16_80 i 13 rd re rf rg rh ra rb rc,
     sha512_ROUND_16_80 i 14 rc rd re rf rg rh ra rb,
     sha512_ROUND_16_80 i 15 rb rc rd re rf rg rh ra]"

definition sha512_rounds :: "u64 list \<Rightarrow> (u64 \<times> u64 list \<times> u64 list \<Rightarrow> u64 \<times> u64 list \<times> u64 list) list" where
  "sha512_rounds M =
    [sha512_ROUND_00_15 0 ra rb rc rd re rf rg rh \<circ> sha512_load 0 (M ! 0),
    sha512_ROUND_00_15 1 rh ra rb rc rd re rf rg \<circ> sha512_load 1 (M ! 1),
    sha512_ROUND_00_15 2 rg rh ra rb rc rd re rf \<circ> sha512_load 2 (M ! 2),
    sha512_ROUND_00_15 3 rf rg rh ra rb rc rd re \<circ> sha512_load 3 (M ! 3),
    sha512_ROUND_00_15 4 re rf rg rh ra rb rc rd \<circ> sha512_load 4 (M ! 4),
    sha512_ROUND_00_15 5 rd re rf rg rh ra rb rc \<circ> sha512_load 5 (M ! 5),
    sha512_ROUND_00_15 6 rc rd re rf rg rh ra rb \<circ> sha512_load 6 (M ! 6),
    sha512_ROUND_00_15 7 rb rc rd re rf rg rh ra \<circ> sha512_load 7 (M ! 7),
    sha512_ROUND_00_15 8 ra rb rc rd re rf rg rh \<circ> sha512_load 8 (M ! 8),
    sha512_ROUND_00_15 9 rh ra rb rc rd re rf rg \<circ> sha512_load 9 (M ! 9),
    sha512_ROUND_00_15 10 rg rh ra rb rc rd re rf \<circ> sha512_load 10 (M ! 10),
    sha512_ROUND_00_15 11 rf rg rh ra rb rc rd re \<circ> sha512_load 11 (M ! 11),
    sha512_ROUND_00_15 12 re rf rg rh ra rb rc rd \<circ> sha512_load 12 (M ! 12),
    sha512_ROUND_00_15 13 rd re rf rg rh ra rb rc \<circ> sha512_load 13 (M ! 13),
    sha512_ROUND_00_15 14 rc rd re rf rg rh ra rb \<circ> sha512_load 14 (M ! 14),
    sha512_ROUND_00_15 15 rb rc rd re rf rg rh ra \<circ> sha512_load 15 (M ! 15)]
    @ concat (map (\<lambda>k. sha512_loop_body (16 + 16 * k)) [0..<4])"

definition block_words64 :: "bytes \<Rightarrow> u64 list" where
  "block_words64 data = map (\<lambda>i. load_u64_be (drop (i * 8) data)) [0..<16]"

definition sha512_one_block :: "u64 list \<Rightarrow> bytes \<Rightarrow> u64 list" where
  "sha512_one_block state data =
     (let regs = [state ! 0, state ! 1, state ! 2, state ! 3, state ! 4, state ! 5, state ! 6, state ! 7];
          (T1, r, X) = foldl (\<lambda>st f. f st) (0, regs, replicate 16 0) (sha512_rounds (block_words64 data))
      in [state ! 0 + r ! ra, state ! 1 + r ! rb, state ! 2 + r ! rc, state ! 3 + r ! rd,
          state ! 4 + r ! re, state ! 5 + r ! rf, state ! 6 + r ! rg, state ! 7 + r ! rh])"

fun sha512_block_data_order :: "u64 list \<Rightarrow> bytes \<Rightarrow> nat \<Rightarrow> u64 list" where
  "sha512_block_data_order state data 0 = state"
| "sha512_block_data_order state data (Suc num) =
     sha512_block_data_order (sha512_one_block state data) (drop (16 * 8) data) num"

text \<open>
  The variant for 32-bit x86. \<open>F\<close> is a pointer into \<open>X[9 + 80]\<close> that moves down by one word per
  round, so that the registers move along without being copied; \<open>F\<close> is the index.
\<close>

definition i386_round :: "nat \<Rightarrow> u64 \<Rightarrow> (u64 list \<times> nat) \<times> u64 \<times> u64 \<Rightarrow> (u64 list \<times> nat) \<times> u64 \<times> u64" where
  "i386_round i T = (\<lambda>((X, F), A, E).
     let X = X[F := A];
         X = X[F + 4 := E];
         X = X[F + 8 := T];
         T = T + (X ! (F + 7) + sha512_Sigma1 E + sha512_Ch E (X ! (F + 5)) (X ! (F + 6)) + K512 ! i);
         E = X ! (F + 3) + T;
         A = T + sha512_Sigma0 A + sha512_Maj A (X ! (F + 1)) (X ! (F + 2))
     in ((X, F - 1), A, E))"

definition i386_expand :: "(u64 list \<times> nat) \<times> u64 \<times> u64 \<Rightarrow> u64" where
  "i386_expand = (\<lambda>((X, F), A, E).
     let T = sha512_sigma0 (X ! (F + (8 + 16 - 1)));
         T = T + sha512_sigma1 (X ! (F + (8 + 16 - 14)))
     in T + (X ! (F + (8 + 16)) + X ! (F + (8 + 16 - 9))))"

definition i386_one_block :: "u64 list \<Rightarrow> u64 list \<Rightarrow> bytes \<Rightarrow> u64 list" where
  "i386_one_block X state data =
     (let F = 80; A = state ! 0; E = state ! 4;
          X = X[F + 1 := state ! 1, F + 2 := state ! 2, F + 3 := state ! 3,
                F + 5 := state ! 5, F + 6 := state ! 6, F + 7 := state ! 7];
          st = foldl (\<lambda>st i. i386_round i (load_u64_be (drop (i * 8) data)) st) ((X, F), A, E) [0..<16];
          st = foldl (\<lambda>st i. i386_round i (i386_expand st) st) st [16..<80];
          ((X, F), A, E) = st
      in [state ! 0 + A, state ! 1 + X ! (F + 1), state ! 2 + X ! (F + 2), state ! 3 + X ! (F + 3),
          state ! 4 + E, state ! 5 + X ! (F + 5), state ! 6 + X ! (F + 6), state ! 7 + X ! (F + 7)])"

fun i386_block_data_order :: "u64 list \<Rightarrow> u64 list \<Rightarrow> bytes \<Rightarrow> nat \<Rightarrow> u64 list" where
  "i386_block_data_order X state data 0 = state"
| "i386_block_data_order X state data (Suc num) =
     i386_block_data_order X (i386_one_block X state data) (drop (16 * 8) data) num"

section \<open>Update and final\<close>

definition SHA512_Transform :: "bytes \<Rightarrow> sha512_ctx \<Rightarrow> sha512_ctx" where
  "SHA512_Transform block c = c\<lparr>ctx5_h := sha512_block_data_order (ctx5_h c) block 1\<rparr>"

definition SHA512_Update_blocks :: "bytes \<Rightarrow> sha512_ctx \<Rightarrow> sha512_ctx" where
  "SHA512_Update_blocks data c =
     (let len = length data;
          c = (if len \<ge> SHA512_CBLOCK
               then c\<lparr>ctx5_h := sha512_block_data_order (ctx5_h c) data (len div SHA512_CBLOCK)\<rparr> else c);
          data = (if len \<ge> SHA512_CBLOCK then drop (len - len mod SHA512_CBLOCK) data else data)
      in if length data \<noteq> 0
         then c\<lparr>ctx5_p := memcpy_at 0 data (ctx5_p c), ctx5_num := length data\<rparr> else c)"

definition SHA512_Update :: "bytes \<Rightarrow> sha512_ctx \<Rightarrow> sha512_ctx" where
  "SHA512_Update data c =
     (let len = length data in
      if len = 0 then c
      else let l = ctx5_Nl c + push_bit 3 (of_nat len);
               c = (if l < ctx5_Nl c then c\<lparr>ctx5_Nh := ctx5_Nh c + 1\<rparr> else c);
               c = c\<lparr>ctx5_Nh := ctx5_Nh c + of_nat (len div 2 ^ 61)\<rparr>;
               c = c\<lparr>ctx5_Nl := l\<rparr>
        in if ctx5_num c \<noteq> 0 then
             let n = SHA512_CBLOCK - ctx5_num c in
             if len < n then
               c\<lparr>ctx5_p := memcpy_at (ctx5_num c) data (ctx5_p c), ctx5_num := ctx5_num c + len\<rparr>
             else
               let c = c\<lparr>ctx5_p := memcpy_at (ctx5_num c) (take n data) (ctx5_p c)\<rparr>;
                   c = c\<lparr>ctx5_num := 0\<rparr>;
                   c = c\<lparr>ctx5_h := sha512_block_data_order (ctx5_h c) (ctx5_p c) 1\<rparr>
               in SHA512_Update_blocks (drop n data) c
           else SHA512_Update_blocks data c)"

definition put_u64_be :: "u64 \<Rightarrow> bytes" where
  "put_u64_be t = [ucast (drop_bit 56 t), ucast (drop_bit 48 t), ucast (drop_bit 40 t), ucast (drop_bit 32 t),
     ucast (drop_bit 24 t), ucast (drop_bit 16 t), ucast (drop_bit 8 t), ucast t]"

text \<open>\<open>out_null\<close>: the caller passed no output buffer. Both 0 returns come after the last block.\<close>

definition SHA512_Final :: "bool \<Rightarrow> sha512_ctx \<Rightarrow> bytes option \<times> sha512_ctx" where
  "SHA512_Final out_null sha =
     (let n = ctx5_num sha;
          sha = sha\<lparr>ctx5_p := (ctx5_p sha)[n := 0x80]\<rparr>;
          n = n + 1;
          (n, sha) = (if n > SHA512_CBLOCK - 16 then
                        let sha = sha\<lparr>ctx5_p := memcpy_at n (replicate (SHA512_CBLOCK - n) 0) (ctx5_p sha)\<rparr>
                        in (0, sha\<lparr>ctx5_h := sha512_block_data_order (ctx5_h sha) (ctx5_p sha) 1\<rparr>)
                      else (n, sha));
          sha = sha\<lparr>ctx5_p := memcpy_at n (replicate (SHA512_CBLOCK - 16 - n) 0) (ctx5_p sha)\<rparr>;
          sha = sha\<lparr>ctx5_p := memcpy_at (SHA512_CBLOCK - 16) (put_u64_be (ctx5_Nh sha) @ put_u64_be (ctx5_Nl sha)) (ctx5_p sha)\<rparr>;
          sha = sha\<lparr>ctx5_h := sha512_block_data_order (ctx5_h sha) (ctx5_p sha) 1\<rparr>
      in (if out_null then None
          else if ctx5_md_len sha = SHA384_DIGEST_LENGTH then
            Some (concat (map (\<lambda>n. put_u64_be (ctx5_h sha ! n)) [0..<SHA384_DIGEST_LENGTH div 8]))
          else if ctx5_md_len sha = SHA512_DIGEST_LENGTH then
            Some (concat (map (\<lambda>n. put_u64_be (ctx5_h sha ! n)) [0..<SHA512_DIGEST_LENGTH div 8]))
          else None, sha))"

definition SHA384_Update :: "bytes \<Rightarrow> sha512_ctx \<Rightarrow> sha512_ctx" where
  "SHA384_Update data sha = SHA512_Update data sha"

definition SHA384_Final :: "bool \<Rightarrow> sha512_ctx \<Rightarrow> bytes option \<times> sha512_ctx" where
  "SHA384_Final out_null sha = SHA512_Final out_null sha"

text \<open>The one-shot functions run on a context of their own, whatever memory it has.\<close>

definition SHA384 :: "sha512_ctx \<Rightarrow> bytes \<Rightarrow> bytes option" where
  "SHA384 ctx data = fst (SHA384_Final False (SHA384_Update data (SHA384_Init ctx)))"

definition SHA512 :: "sha512_ctx \<Rightarrow> bytes \<Rightarrow> bytes option" where
  "SHA512 ctx data = fst (SHA512_Final False (SHA512_Update data (SHA512_Init ctx)))"

section \<open>FIPS 180-4\<close>

definition sha512_S0 :: "u64 \<Rightarrow> u64" where
  "sha512_S0 x = word_rotr 28 x XOR word_rotr 34 x XOR word_rotr 39 x"

definition sha512_S1 :: "u64 \<Rightarrow> u64" where
  "sha512_S1 x = word_rotr 14 x XOR word_rotr 18 x XOR word_rotr 41 x"

definition sha512_s0 :: "u64 \<Rightarrow> u64" where
  "sha512_s0 x = word_rotr 1 x XOR word_rotr 8 x XOR drop_bit 7 x"

definition sha512_s1 :: "u64 \<Rightarrow> u64" where
  "sha512_s1 x = word_rotr 19 x XOR word_rotr 61 x XOR drop_bit 6 x"

definition be_words64 :: "bytes \<Rightarrow> u64 list" where
  "be_words64 blk = map (\<lambda>i. of_nat (be_nat (take 8 (drop (8 * i) blk)))) [0..<16]"

definition sha512_compress :: "u64 list \<Rightarrow> bytes \<Rightarrow> u64 list" where
  "sha512_compress s blk =
     (let W = schedule (sha2_expand sha512_s0 sha512_s1) (be_words64 blk) 80;
          v = foldl (sha2_round sha512_S0 sha512_S1 K512 W) (map ((!) s) [0, 1, 2, 3, 4, 5, 6, 7]) [0..<80]
      in map (\<lambda>k. s ! k + v ! k) [0, 1, 2, 3, 4, 5, 6, 7])"

abbreviation (input) sha384_iv :: "u64 list" where
  "sha384_iv \<equiv> [0xcbbb9d5dc1059ed8, 0x629a292a367cd507,
     0x9159015a3070dd17, 0x152fecd8f70e5939,
     0x67332667ffc00b31, 0x8eb44a8768581511,
     0xdb0c2e0d64f98fa7, 0x47b5481dbefa4fa4]"

abbreviation (input) sha512_iv :: "u64 list" where
  "sha512_iv \<equiv> [0x6a09e667f3bcc908, 0xbb67ae8584caa73b,
     0x3c6ef372fe94f82b, 0xa54ff53a5f1d36f1,
     0x510e527fade682d1, 0x9b05688c2b3e6c1f,
     0x1f83d9abfb41bd6b, 0x5be0cd19137e2179]"

definition sha512_hash :: "bytes \<Rightarrow> bytes" where
  "sha512_hash xs = concat (map (\<lambda>w. nat_be 8 (unat w)) (merkle_damgard True 128 16 sha512_compress sha512_iv xs))"

definition sha384_hash :: "bytes \<Rightarrow> bytes" where
  "sha384_hash xs = take 48 (concat (map (\<lambda>w. nat_be 8 (unat w))
     (merkle_damgard True 128 16 sha512_compress sha384_iv xs)))"

section \<open>The rounds of the code are the rounds of the standard\<close>

lemma ROTR_rotr: "0 < n \<Longrightarrow> n < 64 \<Longrightarrow> ROTR a n = word_rotr n a"
  using rotr_shifts [of n a] by (simp add: ROTR_def)

lemma sha512_Sigma_eq:
  "sha512_Sigma0 = sha512_S0" "sha512_Sigma1 = sha512_S1" "sha512_sigma0 = sha512_s0" "sha512_sigma1 = sha512_s1"
  by (intro ext; simp add: sha512_Sigma0_def sha512_S0_def sha512_Sigma1_def sha512_S1_def
      sha512_sigma0_def sha512_s0_def sha512_sigma1_def sha512_s1_def ROTR_rotr)+

lemma sha512_Ch_eq: "sha512_Ch = Ch" and sha512_Maj_eq: "sha512_Maj = Maj"
  by (intro ext; simp add: sha512_Ch_def Ch_def sha512_Maj_def Maj_def)+

lemma sha512_ROUND_assign:
  assumes "length r = 8" "h < 8" "distinct [h, d, a, b, c, e, f, g]"
  shows "sha512_ROUND_00_15 i a b c d e f g h (T1, r, X)
    = (case sha2_assign sha512_S0 sha512_S1 a b c d e f g h (K512 ! i) T1 r of (T1, r) \<Rightarrow> (T1, r, X))"
  using assms by (simp add: sha512_ROUND_00_15_def sha2_assign_def Let_def sha512_Sigma_eq sha512_Ch_eq sha512_Maj_eq
      list_update_swap)

text \<open>The operations one by one against the rounds; \<open>K\<close> stays folded.\<close>

lemma sha512_rounds_steps:
  "list_all2 (\<lambda>f i. \<forall>T1 r X. length r = 8 \<longrightarrow> length X = 16
      \<longrightarrow> f (T1, r, X) = sha2_step sha512_S0 sha512_S1 sha512_s0 sha512_s1 K512 M i r X) (sha512_rounds M) [0..<80]"
  by (simp add: sha512_rounds_def sha512_loop_body_def upt_conv_Cons sha512_load_def sha512_ROUND_16_80_def
      sha512_ROUND_assign and_15 sha2_step_def sha2_ring_def role8_def sha512_Sigma_eq Let_def
      split: prod.split flip: numeral_2_eq_2)

interpretation sha512_sha2: sha2 sha512_S0 sha512_S1 sha512_s0 sha512_s1 K512 80 sha512_rounds
  by (unfold_locales; (rule sha512_rounds_steps)?; simp)

lemma load_u64_be_eq:
  assumes "8 \<le> length p"
  shows "load_u64_be p = of_nat (be_nat (take 8 p))"
proof -
  have "length (take 8 p) = 8" using assms by simp
  then obtain a b c d e f g h where p: "take 8 p = [a, b, c, d, e, f, g, h]" by (rule length_8E)
  have "load_u64_be p = CRYPTO_bswap8 (be_word 0 [h, g, f, e, d, c, b, a])"
    by (simp add: load_u64_be_def p del: be_word.simps)
  also have "\<dots> = be_word 0 [a, b, c, d, e, f, g, h]" by (rule CRYPTO_bswap8_be)
  finally show ?thesis by (simp add: be_word_of_nat p del: be_word.simps)
qed

lemma block_words64_eq: "128 \<le> length data \<Longrightarrow> block_words64 data = be_words64 data"
  unfolding block_words64_def be_words64_def
  by (rule map_cong) (auto simp: load_u64_be_eq mult.commute)

lemma length_be_words64 [simp]: "length (be_words64 blk) = 16"
  by (simp add: be_words64_def)

lemma be_words64_take: "be_words64 (take 128 data) = be_words64 data"
  unfolding be_words64_def by (rule map_cong) (auto simp: drop_take)

lemma sha512_compress_take: "sha512_compress s (take 128 data) = sha512_compress s data"
  by (simp add: sha512_compress_def be_words64_take)

lemma sha512_one_block_eq:
  assumes "128 \<le> length blk"
  shows "sha512_one_block s blk = sha512_compress s blk"
proof -
  let ?regs = "[s ! 0, s ! 1, s ! 2, s ! 3, s ! 4, s ! 5, s ! 6, s ! 7]"
  obtain T1 r X where st: "foldl (\<lambda>st f. f st) (0, ?regs, replicate 16 0) (sha512_rounds (be_words64 blk)) = (T1, r, X)"
    by (metis prod_cases3)
  have "r = foldl (sha2_round sha512_S0 sha512_S1 K512
        (schedule (sha2_expand sha512_s0 sha512_s1) (be_words64 blk) 80)) ?regs [0..<80]"
    using sha512_sha2.unrolled [of "be_words64 blk" "replicate 16 0" ?regs 0] st by simp
  then show ?thesis
    unfolding sha512_one_block_def sha512_compress_def Let_def block_words64_eq [OF assms] st by simp
qed

lemma sha512_blocks:
  "n * 128 \<le> length data \<Longrightarrow> sha512_block_data_order s data n = foldl sha512_compress s (chunks 128 n data)"
proof (induction n arbitrary: s data)
  case (Suc n)
  then show ?case by (simp add: sha512_one_block_eq sha512_compress_take)
qed simp

lemma sha512_block_one: "length data = 128 \<Longrightarrow> sha512_block_data_order s data 1 = sha512_compress s data"
  using sha512_blocks [of 1 data s] by simp

lemma length_sha512_compress: "length (sha512_compress s blk) = 8"
  by (simp add: sha512_compress_def Let_def)

section \<open>The moving frame of the 32-bit variant\<close>

text \<open>
  Before round \<open>i\<close> the frame starts at \<open>80 - i\<close>: the registers are the words above its start, and
  the schedule words written so far lie above them, the latest lowest.
\<close>

definition frame_ok :: "u64 list \<Rightarrow> nat \<Rightarrow> (u64 list \<times> nat) \<times> u64 \<times> u64 \<Rightarrow> u64 list \<Rightarrow> bool" where
  "frame_ok W i st v \<longleftrightarrow> (case st of ((X, F), A, E) \<Rightarrow>
     length X = 89 \<and> F = 80 - i
     \<and> v = [A, X ! (F + 1), X ! (F + 2), X ! (F + 3), E, X ! (F + 5), X ! (F + 6), X ! (F + 7)]
     \<and> (\<forall>t < i. X ! (88 - t) = W ! t))"

lemma i386_stateE:
  fixes st :: "(u64 list \<times> nat) \<times> u64 \<times> u64"
  obtains X F A E where "st = ((X, F), A, E)"
  by (cases st) auto

lemma i386_round_frame:
  assumes "frame_ok W i st v" "i < 80" "T = W ! i"
  shows "frame_ok W (Suc i) (i386_round i T st) (sha2_round sha512_S0 sha512_S1 K512 W v i)"
proof -
  obtain X F A E where st: "st = ((X, F), A, E)" by (rule i386_stateE)
  with assms have X: "length X = 89" and F: "F = 80 - i" "0 < F"
    and v: "v = [A, X ! (F + 1), X ! (F + 2), X ! (F + 3), E, X ! (F + 5), X ! (F + 6), X ! (F + 7)]"
    and W: "\<And>t. t < i \<Longrightarrow> X ! (88 - t) = W ! t" by (auto simp: frame_ok_def)
  have up: "F - 1 + 1 = F" "F - 1 + 2 = F + 1" "F - 1 + 3 = F + 2" "F - 1 + 5 = F + 4"
    "F - 1 + 6 = F + 5" "F - 1 + 7 = F + 6" using F by simp_all
  have "X[F := A, F + 4 := E, F + 8 := T] ! (88 - t) = W ! t" if "t < Suc i" for t
  proof (cases "t = i")
    case True
    then show ?thesis using assms(2,3) X F by simp
  next
    case False
    then have "t < i" using that by simp
    then have "88 - t \<noteq> F + 8" "88 - t \<noteq> F + 4" "88 - t \<noteq> F" using assms(2) F by simp_all
    then show ?thesis using W [OF \<open>t < i\<close>] by simp
  qed
  moreover have "F - 1 = 80 - Suc i" using F by simp
  ultimately show ?thesis
    using X F(2) unfolding st frame_ok_def i386_round_def Let_def prod.case up v sha2_round_def
    by (simp add: assms(3) sha512_Sigma_eq sha512_Ch_eq sha512_Maj_eq ac_simps)
qed

lemma i386_expand_frame:
  assumes "frame_ok (schedule (sha2_expand sha512_s0 sha512_s1) M 80) i st v" "16 \<le> i" "i < 80" "length M = 16"
  shows "i386_expand st = schedule (sha2_expand sha512_s0 sha512_s1) M 80 ! i"
proof -
  let ?W = "schedule (sha2_expand sha512_s0 sha512_s1) M 80"
  obtain X F A E where st: "st = ((X, F), A, E)" by (rule i386_stateE)
  with assms(1) have F: "F = 80 - i" and W: "\<And>t. t < i \<Longrightarrow> X ! (88 - t) = ?W ! t"
    by (auto simp: frame_ok_def)
  have "X ! (F + (8 + k)) = ?W ! (i - k)" if "0 < k" "k \<le> 16" for k
  proof -
    have "88 - (i - k) = F + (8 + k)" using F that assms(2,3) by simp
    with W [of "i - k"] that assms(2) show ?thesis by simp
  qed
  from this [of 15] this [of 2] this [of 16] this [of 7]
  have "i386_expand st = sha2_expand sha512_s0 sha512_s1 ?W i"
    by (simp add: i386_expand_def st sha2_expand_def sha512_Sigma_eq ac_simps)
  then show ?thesis
    using schedule_ge_16 [OF assms(4,2,3) looks_back_sha2] by simp
qed

lemma i386_one_block_eq:
  assumes "length X = 89" "128 \<le> length blk"
  shows "i386_one_block X s blk = sha512_compress s blk"
proof -
  let ?M = "be_words64 blk"
  let ?W = "schedule (sha2_expand sha512_s0 sha512_s1) ?M 80"
  let ?v = "[s ! 0, s ! 1, s ! 2, s ! 3, s ! 4, s ! 5, s ! 6, s ! 7]"
  let ?X = "X[80 + 1 := s ! 1, 80 + 2 := s ! 2, 80 + 3 := s ! 3, 80 + 5 := s ! 5, 80 + 6 := s ! 6, 80 + 7 := s ! 7]"
  let ?T = "\<lambda>st i. i386_round i (load_u64_be (drop (i * 8) blk)) st"
  let ?U = "\<lambda>st i. i386_round i (i386_expand st) st"
  have init: "frame_ok ?W 0 ((?X, 80), s ! 0, s ! 4) ?v"
    using assms(1) by (simp add: frame_ok_def)
  have low: "frame_ok ?W m (foldl ?T ((?X, 80), s ! 0, s ! 4) [0..<m])
      (foldl (sha2_round sha512_S0 sha512_S1 K512 ?W) ?v [0..<m])" if "m \<le> 16" for m
    using that
  proof (induction m)
    case (Suc m)
    have "load_u64_be (drop (m * 8) blk) = ?W ! m"
      using Suc.prems assms(2) schedule_lt_16 [of ?M 80 m] arg_cong [OF block_words64_eq [OF assms(2)], of "\<lambda>l. l ! m"]
      by (simp add: block_words64_def)
    with i386_round_frame [OF Suc.IH] Suc.prems show ?case by simp
  qed (use init in simp)
  have high: "16 \<le> m \<Longrightarrow> m \<le> 80 \<Longrightarrow>
      frame_ok ?W m (foldl ?U (foldl ?T ((?X, 80), s ! 0, s ! 4) [0..<16]) [16..<m])
        (foldl (sha2_round sha512_S0 sha512_S1 K512 ?W) ?v [0..<m])" for m
  proof (induction m rule: dec_induct)
    case base
    show ?case using low [of 16] by simp
  next
    case (step m)
    then have IH: "frame_ok ?W m (foldl ?U (foldl ?T ((?X, 80), s ! 0, s ! 4) [0..<16]) [16..<m])
        (foldl (sha2_round sha512_S0 sha512_S1 K512 ?W) ?v [0..<m])" by simp
    have m: "16 \<le> m" "m < 80" using step by simp_all
    from i386_round_frame [OF IH m(2) i386_expand_frame [OF IH m]] m show ?case by simp
  qed
  obtain X' F A E where st: "foldl ?U (foldl ?T ((?X, 80), s ! 0, s ! 4) [0..<16]) [16..<80] = ((X', F), A, E)"
    by (rule i386_stateE)
  have v: "foldl (sha2_round sha512_S0 sha512_S1 K512 ?W) ?v [0..<80]
      = [A, X' ! (F + 1), X' ! (F + 2), X' ! (F + 3), E, X' ! (F + 5), X' ! (F + 6), X' ! (F + 7)]"
    using high [of 80] unfolding st frame_ok_def by (simp del: upt_rec_numeral)
  have "map ((!) s) [0, 1, 2, 3, 4, 5, 6, 7] = ?v" by simp
  then show ?thesis
    unfolding i386_one_block_def sha512_compress_def Let_def st prod.case by (simp only: v) simp
qed

section \<open>The collector\<close>

text \<open>What the buffer holds behind its \<open>num\<close> valid bytes is left over from earlier blocks.\<close>

definition sha512_rep :: "u64 list \<Rightarrow> nat \<Rightarrow> sha512_ctx \<Rightarrow> bytes \<Rightarrow> bool" where
  "sha512_rep iv len c xs \<longleftrightarrow>
     ctx5_h c = iterate_blocks 128 sha512_compress iv xs \<and> ctx5_num c = length xs mod 128
     \<and> length (ctx5_p c) = 128 \<and> take (length xs mod 128) (ctx5_p c) = tail 128 xs
     \<and> unat (ctx5_Nh c) * 2 ^ 64 + unat (ctx5_Nl c) = 8 * length xs mod 2 ^ 128
     \<and> ctx5_md_len c = len"

lemma length_memcpy_at: "n + length src \<le> length dst \<Longrightarrow> length (memcpy_at n src dst) = length dst"
  by (simp add: memcpy_at_def)

lemma take_memcpy_at: "n + length src \<le> length dst \<Longrightarrow> take (n + length src) (memcpy_at n src dst) = take n dst @ src"
  by (simp add: memcpy_at_def)

lemma sha512_update_blocks:
  assumes "ctx5_h c = iterate_blocks 128 sha512_compress iv xs" "128 dvd length xs" "ctx5_num c = 0"
    and "length (ctx5_p c) = 128" "ctx5_md_len c = len"
    and "unat (ctx5_Nh c) * 2 ^ 64 + unat (ctx5_Nl c) = 8 * length (xs @ ys) mod 2 ^ 128"
  shows "sha512_rep iv len (SHA512_Update_blocks ys c) (xs @ ys)"
proof -
  have h: "(if 128 \<le> length ys then sha512_block_data_order (ctx5_h c) ys (length ys div 128) else ctx5_h c)
      = iterate_blocks 128 sha512_compress iv (xs @ ys)"
    using sha512_blocks [of "length ys div 128" ys "ctx5_h c"]
    by (auto simp: assms(1,2) iterate_blocks_append iterate_blocks_short iterate_blocks_def [of _ _ _ ys])
  have d: "(if 128 \<le> length ys then drop (length ys - length ys mod 128) ys else ys) = tail 128 ys"
    by (simp add: tail_def minus_mod_eq_div_mult)
  have t: "tail 128 (xs @ ys) = tail 128 ys" "(length xs + length ys) mod 128 = length ys mod 128"
    using assms(2) by (simp_all add: tail_full mod_add_left_eq [symmetric] dvd_eq_mod_eq_0)
  have "length ys mod 128 \<le> 128" by simp
  with h assms(3-6) d t length_memcpy_at [of 0 "tail 128 ys" "ctx5_p c"] take_memcpy_at [of 0 "tail 128 ys" "ctx5_p c"]
  show ?thesis unfolding sha512_rep_def SHA512_Update_blocks_def Let_def
    by (auto split: if_splits)
qed

lemma sha512_update_rep:
  assumes rep: "sha512_rep iv len c xs"
  shows "sha512_rep iv len (SHA512_Update ys c) (xs @ ys)"
proof (cases "ys = []")
  case True
  with rep show ?thesis by (simp add: SHA512_Update_def)
next
  case False
  define l where "l = ctx5_Nl c + push_bit 3 (of_nat (length ys))"
  define hh where "hh = (if l < ctx5_Nl c then ctx5_Nh c + 1 else ctx5_Nh c) + of_nat (length ys div 2 ^ 61)"
  have "8 * length ys div 2 ^ 64 = length ys div 2 ^ 61" by simp
  then have count: "unat hh * 2 ^ 64 + unat l = 8 * length (xs @ ys) mod 2 ^ 128"
    using counter_add [where lo = "ctx5_Nl c" and hi = "ctx5_Nh c" and m = "8 * length ys"] rep
    unfolding l_def hh_def sha512_rep_def of_nat_push_bit_3
    by (simp add: mod_add_left_eq distrib_left)
  define c1 where "c1 = c\<lparr>ctx5_Nh := hh, ctx5_Nl := l\<rparr>"
  have c1: "ctx5_Nh c1 = hh" "ctx5_Nl c1 = l" "ctx5_h c1 = ctx5_h c" "ctx5_num c1 = ctx5_num c"
      "ctx5_p c1 = ctx5_p c" "ctx5_md_len c1 = ctx5_md_len c"
    by (simp_all add: c1_def)
  define n where "n = ctx5_num c"
  have n: "n = length xs mod 128" "n < 128" "length (tail 128 xs) = n" using rep by (simp_all add: n_def sha512_rep_def)
  have p: "length (ctx5_p c) = 128" "take n (ctx5_p c) = tail 128 xs" using rep n(1) by (simp_all add: sha512_rep_def)
  have upd: "SHA512_Update ys c =
      (if n \<noteq> 0 then
         if length ys < 128 - n
         then c1\<lparr>ctx5_p := memcpy_at n ys (ctx5_p c), ctx5_num := n + length ys\<rparr>
         else SHA512_Update_blocks (drop (128 - n) ys)
             (c1\<lparr>ctx5_p := memcpy_at n (take (128 - n) ys) (ctx5_p c), ctx5_num := 0,
                ctx5_h := sha512_block_data_order (ctx5_h c) (memcpy_at n (take (128 - n) ys) (ctx5_p c)) 1\<rparr>)
       else SHA512_Update_blocks ys c1)"
    using False by (simp add: SHA512_Update_def Let_def c1_def hh_def l_def n_def)
  consider (fill) "n \<noteq> 0" "128 - n \<le> length ys" | (keep) "n \<noteq> 0" "length ys < 128 - n" | (direct) "n = 0" by linarith
  then show ?thesis
  proof cases
    case fill
    define ys1 ys2 where "ys1 = take (128 - n) ys" and "ys2 = drop (128 - n) ys"
    have ys: "ys = ys1 @ ys2" "length ys1 = 128 - n" using fill n by (auto simp: ys1_def ys2_def)
    have buf: "memcpy_at n ys1 (ctx5_p c) = tail 128 xs @ ys1"
      using p n ys(2) by (simp add: memcpy_at_def)
    have len: "length (tail 128 xs @ ys1) = 128" using n ys(2) by simp
    have full: "xs @ ys1 = take (length xs div 128 * 128) xs @ (tail 128 xs @ ys1)"
      using split_tail [of xs 128] by (metis append_assoc)
    have front: "128 dvd length (take (length xs div 128 * 128) xs)"
      by (simp add: min.absorb2)
    have h: "sha512_block_data_order (ctx5_h c) (tail 128 xs @ ys1) 1 = iterate_blocks 128 sha512_compress iv (xs @ ys1)"
      unfolding sha512_block_one [OF len] full iterate_blocks_append [OF zero_less_numeral front]
      using rep len iterate_blocks_rest [of 128 sha512_compress iv xs]
      by (simp add: sha512_rep_def iterate_blocks_one)
    have dvd: "128 dvd length (xs @ ys1)"
      unfolding full using front len by (simp del: length_take)
    define c2 where "c2 = c1\<lparr>ctx5_p := memcpy_at n ys1 (ctx5_p c), ctx5_num := 0,
           ctx5_h := sha512_block_data_order (ctx5_h c) (memcpy_at n ys1 (ctx5_p c)) 1\<rparr>"
    have c2: "ctx5_h c2 = iterate_blocks 128 sha512_compress iv (xs @ ys1)" "ctx5_num c2 = 0"
        "ctx5_p c2 = tail 128 xs @ ys1" "ctx5_Nh c2 = hh" "ctx5_Nl c2 = l" "ctx5_md_len c2 = len"
      unfolding c2_def buf h using rep by (simp_all add: c1 sha512_rep_def)
    have "(xs @ ys1) @ ys2 = xs @ ys" using ys(1) by simp
    then have "sha512_rep iv len (SHA512_Update_blocks ys2 c2) (xs @ ys)"
      using sha512_update_blocks [of c2 iv "xs @ ys1" len ys2] dvd len count unfolding c2 by metis
    with fill show ?thesis by (simp add: upd ys1_def ys2_def c2_def)
  next
    case keep
    then have short: "length (tail 128 xs) + length ys < 128" using n by simp
    have "(length xs + length ys) mod 128 = n + length ys"
      using keep n by (simp add: mod_add_left_eq [symmetric, of "length xs"])
    with keep show ?thesis
      using rep count p tail_append_short(1) [OF zero_less_numeral short]
        tail_append_short(2) [OF zero_less_numeral short, of sha512_compress iv] n
        take_memcpy_at [of n ys "ctx5_p c"] length_memcpy_at [of n ys "ctx5_p c"]
      by (simp add: upd sha512_rep_def c1)
  next
    case direct
    then have "128 dvd length xs" using n by auto
    with direct rep count show ?thesis
      by (simp add: upd) (rule sha512_update_blocks; simp add: sha512_rep_def c1 n_def)
  qed
qed

lemma put_u64_be_eq: "put_u64_be t = nat_be 8 (unat t)"
proof -
  have byte: "ucast (drop_bit (8 * k) t) = (of_nat (unat t div 256 ^ k mod 256) :: u8)" for k
  proof -
    have "unat (drop_bit (8 * k) t) = unat t div 256 ^ k" by (simp add: unat_drop_bit power_mult)
    then show ?thesis by (simp add: word_unat_eq_iff unsigned_ucast_eq unat_of_nat take_bit_eq_mod)
  qed
  have eight: "(8::nat) = Suc (Suc (Suc (Suc (Suc (Suc (Suc (Suc 0)))))))" by simp
  have "nat_be 8 v = map (\<lambda>k. of_nat (v div 256 ^ k mod 256)) [7, 6, 5, 4, 3, 2, 1, 0]" for v
  proof -
    have "nat_be 8 v = nat_be (Suc (Suc (Suc (Suc (Suc (Suc (Suc (Suc 0)))))))) v" by (subst eight) (rule refl)
    also have "\<dots> = map (\<lambda>k. of_nat (v div 256 ^ k mod 256)) [7, 6, 5, 4, 3, 2, 1, 0]"
      by (simp only: nat_be.simps append_Nil append_Cons list.map div_mult2_eq [symmetric]) simp
    finally show ?thesis .
  qed
  then show ?thesis
    using byte [of 7] byte [of 6] byte [of 5] byte [of 4] byte [of 3] byte [of 2] byte [of 1] byte [of 0]
    by (simp add: put_u64_be_def)
qed

lemma sha512_final_h:
  assumes rep: "sha512_rep iv len c xs"
  shows "ctx5_h (snd (SHA512_Final out_null c)) = merkle_damgard True 128 16 sha512_compress iv xs
    \<and> ctx5_md_len (snd (SHA512_Final out_null c)) = len"
proof -
  define r where "r = length xs mod 128"
  define t where "t = tail 128 xs"
  define len16 where "len16 = nat_be 16 (8 * length xs)"
  have r: "r < 128" "length t = r" by (simp_all add: r_def t_def)
  have len16: "length len16 = 16" by (simp add: len16_def)
  have bits: "put_u64_be (ctx5_Nh c) @ put_u64_be (ctx5_Nl c) = len16"
  proof -
    have "nat_be 16 (8 * length xs) = nat_be 16 (8 * length xs mod 256 ^ 16)" by (simp only: nat_be_mod)
    also have "\<dots> = nat_be (8 + 8) (unat (ctx5_Nh c) * 256 ^ 8 + unat (ctx5_Nl c))"
      using rep by (simp add: sha512_rep_def)
    also have "\<dots> = nat_be 8 (unat (ctx5_Nh c)) @ nat_be 8 (unat (ctx5_Nl c))"
      by (rule nat_be_two) (use unat_u64_bound in simp)
    finally show ?thesis by (simp add: len16_def put_u64_be_eq)
  qed
  define z where "z = (128 - 16 - 1 + 128 - length xs mod 128) mod 128"
  have pad: "md_pad True 128 16 xs = take (length xs div 128 * 128) xs @ (t @ 0x80 # replicate z 0 @ len16)"
    unfolding md_pad_def z_def [symmetric] t_def by (subst split_tail [of xs 128]) (simp add: len16_def)
  have front: "128 dvd length (take (length xs div 128 * 128) xs)" by (simp add: min.absorb2)
  have h: "ctx5_h c = iterate_blocks 128 sha512_compress iv (take (length xs div 128 * 128) xs)"
    using rep iterate_blocks_rest [of 128 sha512_compress iv xs] by (simp add: sha512_rep_def)
  have md: "merkle_damgard True 128 16 sha512_compress iv xs
      = iterate_blocks 128 sha512_compress (ctx5_h c) (t @ 0x80 # replicate z 0 @ len16)"
    unfolding merkle_damgard_def pad by (subst iterate_blocks_append) (simp_all add: front h)
  have num: "ctx5_num c = r" and mdlen: "ctx5_md_len c = len" using rep by (simp_all add: sha512_rep_def r_def)
  define junk where "junk = drop (r + 1) (ctx5_p c)"
  have junk: "length junk = 127 - r" using rep by (simp add: junk_def sha512_rep_def)
  have p1: "(ctx5_p c)[r := 0x80] = (t @ [0x80]) @ junk"
    using rep r by (simp add: upd_conv_take_nth_drop junk_def sha512_rep_def t_def r_def)
  show ?thesis
  proof (cases "r \<le> 111")
    case True
    then have z: "z = 111 - r" by (simp add: z_def r_def [symmetric] le_mod_geq)
    have p2: "memcpy_at 112 len16 (memcpy_at (r + 1) (replicate (111 - r) 0) ((t @ [0x80]) @ junk))
        = t @ 0x80 # replicate z 0 @ len16"
    proof -
      have "memcpy_at (r + 1) (replicate (111 - r) 0) ((t @ [0x80]) @ junk)
          = (t @ 0x80 # replicate (111 - r) 0) @ drop (111 - r) junk"
        using r True by (subst memcpy_at_append) simp_all
      also have "memcpy_at 112 len16 \<dots> = (t @ 0x80 # replicate (111 - r) 0) @ len16"
        using r True len16 junk by (subst memcpy_at_append) simp_all
      finally show ?thesis by (simp add: z)
    qed
    have len: "length (t @ 0x80 # replicate z 0 @ len16) = 128" using r True len16 by (simp add: z)
    show ?thesis
      using True unfolding SHA512_Final_def md
      unfolding iterate_blocks_one [OF zero_less_numeral len] sha512_block_one [OF len, symmetric]
      by (simp add: Let_def num p1 p2 bits mdlen del: One_nat_def append_assoc append_Cons)
  next
    case False
    then have z: "z = 239 - r" using r by (simp add: z_def r_def [symmetric] le_mod_geq)
    define b1 b2 where "b1 = t @ 0x80 # replicate (127 - r) 0" and "b2 = replicate 112 0 @ len16"
    have split: "t @ 0x80 # replicate z 0 @ len16 = b1 @ b2"
    proof -
      have "239 - r = (127 - r) + 112" using r by simp
      then show ?thesis by (simp only: b1_def b2_def z replicate_add append_assoc append_Cons)
    qed
    have len: "length b1 = 128" "length b2 = 128" using r len16 by (simp_all add: b1_def b2_def)
    have m1: "memcpy_at (r + 1) (replicate (127 - r) 0) ((t @ [0x80]) @ junk) = b1"
      using r junk by (simp add: memcpy_at_def b1_def)
    have m2: "memcpy_at 112 len16 (memcpy_at 0 (replicate 112 0) b1) = b2"
      using len(1) len16 by (simp add: memcpy_at_def b2_def)
    have "iterate_blocks 128 sha512_compress (ctx5_h c) (b1 @ b2)
        = sha512_compress (sha512_compress (ctx5_h c) b1) b2"
      using len by (subst iterate_blocks_append) (simp_all add: iterate_blocks_one)
    then show ?thesis
      using False unfolding SHA512_Final_def md split
      by (simp add: Let_def num p1 m1 m2 bits mdlen sha512_block_one [OF len(1)] sha512_block_one [OF len(2)]
          del: One_nat_def append_assoc append_Cons)
  qed
qed

lemma sha512_final:
  assumes rep: "sha512_rep iv len c xs" and "length iv = 8" "len = 48 \<or> len = 64"
  shows "fst (SHA512_Final False c)
    = Some (take len (concat (map (\<lambda>w. nat_be 8 (unat w)) (merkle_damgard True 128 16 sha512_compress iv xs))))"
proof -
  let ?d = "merkle_damgard True 128 16 sha512_compress iv xs"
  define c' where "c' = snd (SHA512_Final False c)"
  have c': "ctx5_h c' = ?d" "ctx5_md_len c' = len" using sha512_final_h [OF rep, of False] by (simp_all add: c'_def)
  have "length ?d = 8"
    unfolding merkle_damgard_def by (rule iterate_blocks_length) (simp_all add: length_sha512_compress assms(2))
  then obtain a b c2 d e f g h where d: "?d = [a, b, c2, d, e, f, g, h]" by (rule length_8E)
  have "fst (SHA512_Final False c) =
     (if ctx5_md_len c' = 48 then Some (concat (map (\<lambda>n. put_u64_be (ctx5_h c' ! n)) [0..<48 div 8]))
      else if ctx5_md_len c' = 64 then Some (concat (map (\<lambda>n. put_u64_be (ctx5_h c' ! n)) [0..<64 div 8]))
      else None)"
    unfolding c'_def SHA512_Final_def by (simp only: Let_def fst_conv snd_conv split_beta if_False)
  then show ?thesis
    unfolding c' d using assms(3) by (auto simp: put_u64_be_eq upt_conv_Cons)
qed

text \<open>The streaming contract, on a context that starts with any buffer of the right size.\<close>

interpretation sha512_stream: streaming "SHA512_Init \<lparr>ctx5_h = [], ctx5_Nl = 0, ctx5_Nh = 0, ctx5_p = replicate 128 0,
    ctx5_num = 0, ctx5_md_len = 0\<rparr>" SHA512_Update "\<lambda>c. fst (SHA512_Final False c)" "\<lambda>_. True"
  "sha512_rep sha512_iv 64" "\<lambda>xs. Some (sha512_hash xs)"
proof
  fix s xs
  assume rep: "sha512_rep sha512_iv 64 s xs"
  have "length (merkle_damgard True 128 16 sha512_compress sha512_iv xs) = 8"
    unfolding merkle_damgard_def by (rule iterate_blocks_length) (simp_all add: length_sha512_compress)
  then obtain a b c d e f g h where
    d: "merkle_damgard True 128 16 sha512_compress sha512_iv xs = [a, b, c, d, e, f, g, h]" by (rule length_8E)
  show "fst (SHA512_Final False s) = Some (sha512_hash xs)"
    using sha512_final [OF rep] unfolding sha512_hash_def d by simp
qed (simp add: sha512_rep_def SHA512_Init_def tail_def, rule sha512_update_rep)

interpretation sha384_stream: streaming "SHA384_Init \<lparr>ctx5_h = [], ctx5_Nl = 0, ctx5_Nh = 0, ctx5_p = replicate 128 0,
    ctx5_num = 0, ctx5_md_len = 0\<rparr>" SHA384_Update "\<lambda>c. fst (SHA384_Final False c)" "\<lambda>_. True"
  "sha512_rep sha384_iv 48" "\<lambda>xs. Some (sha384_hash xs)"
proof
  fix s xs
  assume rep: "sha512_rep sha384_iv 48 s xs"
  then show "sha512_rep sha384_iv 48 (SHA384_Update ys s) (xs @ ys)" for ys
    unfolding SHA384_Update_def by (rule sha512_update_rep)
  show "fst (SHA384_Final False s) = Some (sha384_hash xs)"
    unfolding SHA384_Final_def sha384_hash_def by (rule sha512_final [OF rep]) simp_all
qed (simp add: sha512_rep_def SHA384_Init_def tail_def)

text \<open>(C22) From a context with any leftover buffer, and however the message is cut into calls of
  SHA512_Update, SHA512_Final yields the SHA-512 hash of FIPS 180-4 of the whole message; the
  same for SHA-384.\<close>

theorem SHA512_hashes:
  assumes "length (ctx5_p c) = 128"
  shows "fst (SHA512_Final False (fold SHA512_Update parts (SHA512_Init c))) = Some (sha512_hash (concat parts))
    \<and> fst (SHA384_Final False (fold SHA384_Update parts (SHA384_Init c))) = Some (sha384_hash (concat parts))"
proof -
  have "sha512_rep sha512_iv 64 (SHA512_Init c) []" "sha512_rep sha384_iv 48 (SHA384_Init c) []"
    using assms by (simp_all add: sha512_rep_def SHA512_Init_def SHA384_Init_def tail_def)
  from sha512_stream.rep_fold [OF this(1), of parts] sha384_stream.rep_fold [OF this(2), of parts]
  show ?thesis using sha512_stream.rep_final sha384_stream.rep_final by simp
qed

theorem SHA512_hashes_witness:
  "fst (SHA512_Final False (fold SHA512_Update [[0x61], [0x62]] (SHA512_Init \<lparr>ctx5_h = [], ctx5_Nl = 7, ctx5_Nh = 7,
     ctx5_p = replicate 128 0xff, ctx5_num = 3, ctx5_md_len = 0\<rparr>))) = Some (sha512_hash [0x61, 0x62])"
  using SHA512_hashes [of "\<lparr>ctx5_h = [], ctx5_Nl = 7, ctx5_Nh = 7, ctx5_p = replicate 128 0xff, ctx5_num = 3,
     ctx5_md_len = 0\<rparr>" "[[0x61], [0x62]]"]
  by simp

text \<open>(C23) The two block functions of the file agree on every state and input: the moving
  frame of the 32-bit x86 variant, over whatever its array holds, against the eight registers
  and ring of the other.\<close>

theorem sha512_variants_agree:
  assumes "length X = 89" "n * 128 \<le> length data"
  shows "i386_block_data_order X s data n = sha512_block_data_order s data n"
  using assms(2)
proof (induction n arbitrary: s data)
  case (Suc n)
  then show ?case by (simp add: i386_one_block_eq [OF assms(1)] sha512_one_block_eq)
qed simp

theorem sha512_variants_agree_witness:
  "i386_block_data_order (replicate 89 5) (replicate 8 3) (replicate 256 1) 2
     = sha512_block_data_order (replicate 8 3) (replicate 256 1) 2"
  by (rule sha512_variants_agree) simp_all

lemma primes_512:
  "primes_below 410 = [2, 3, 5, 7, 11, 13, 17, 19, 23, 29, 31, 37, 41, 43, 47, 53, 59, 61, 67, 71,
     73, 79, 83, 89, 97, 101, 103, 107, 109, 113, 127, 131, 137, 139, 149, 151, 157, 163, 167, 173,
     179, 181, 191, 193, 197, 199, 211, 223, 227, 229, 233, 239, 241, 251, 257, 263, 269, 271, 277, 281,
     283, 293, 307, 311, 313, 317, 331, 337, 347, 349, 353, 359, 367, 373, 379, 383, 389, 397, 401, 409]"
  "primes_below 54 = [2, 3, 5, 7, 11, 13, 17, 19, 23, 29, 31, 37, 41, 43, 47, 53]"
  by code_simp+

text \<open>The table K512 is what FIPS 180-4 says: the first 64 bits of the fractional parts of the
  cube roots of the first 80 primes; and the initial values of SHA-512 and SHA-384 the same of
  the square roots of the first eight primes and the next eight.\<close>

lemma K512_from_primes:
  "list_all2 (\<lambda>p k. frac_root 3 64 p (uint k)) (primes_below 410) K512
   \<and> list_all2 (\<lambda>p k. frac_root 2 64 p (uint k)) (primes_below 54) (ctx5_h (SHA512_Init c) @ ctx5_h (SHA384_Init c))"
  by (simp add: primes_512 K512_def SHA512_Init_def SHA384_Init_def frac_root_def int_root_def)

end
