(* ===== verification/Modes.thy ===== *)
theory Modes
  imports Internal
begin

unbundle bit_operations_syntax

text \<open>
  Block cipher modes that turn a block cipher into a stream cipher: counter mode (modes/ctr.c) with
  its two implementations, output feedback (modes/ofb.c) and cipher feedback (modes/cfb.c) in its
  128-, 8- and 1-bit forms.

  The block cipher is an argument, the function of a 16-byte block that \<open>block128_f\<close> computes under
  the caller's key. Input and output are separate byte strings; the functions read each input byte
  before they write the output byte at the same place, so working in place is the same. Each
  function is compared with a machine that handles one byte at a time, from which it follows that
  the cut of a message into calls does not matter and that decryption inverts encryption.
\<close>

section \<open>Words in memory (modes/internal.h)\<close>

type_synonym block128_f = "bytes \<Rightarrow> bytes"
type_synonym ctr128_f = "bytes \<Rightarrow> nat \<Rightarrow> bytes \<Rightarrow> bytes"

definition GETU32 :: "nat \<Rightarrow> bytes \<Rightarrow> u32" where
  "GETU32 n bs = CRYPTO_bswap4 (of_nat (be_nat (rev (take 4 (drop n bs)))))"

definition PUTU32 :: "nat \<Rightarrow> u32 \<Rightarrow> bytes \<Rightarrow> bytes" where
  "PUTU32 n v bs = take n bs @ le_bytes 4 (unat (CRYPTO_bswap4 v)) @ drop (n + 4) bs"

definition load_word_le :: "nat \<Rightarrow> bytes \<Rightarrow> u64" where
  "load_word_le n bs = of_nat (be_nat (rev (take 8 (drop n bs))))"

definition store_word_le :: "u64 \<Rightarrow> bytes" where
  "store_word_le v = le_bytes 8 (unat v)"

text \<open>The loop \<open>for (; n < 16; n += sizeof(size_t))\<close> that XORs two blocks a word at a time.\<close>

function xor_words :: "nat \<Rightarrow> bytes \<Rightarrow> bytes \<Rightarrow> bytes" where
  "xor_words n a b =
     (if n < 16 then store_word_le (load_word_le n a XOR load_word_le n b) @ xor_words (n + 8) a b else [])"
  by pat_completeness auto
termination
  by (relation "measure (\<lambda>(n, _, _). 16 - n)") auto

declare xor_words.simps [simp del]

section \<open>Counter mode (modes/ctr.c)\<close>

fun ctr_inc_loop :: "nat \<Rightarrow> u32 \<Rightarrow> bytes \<Rightarrow> bytes" where
  "ctr_inc_loop 0 c counter = counter"
| "ctr_inc_loop (Suc n) c counter =
     (let c = c + ucast (counter ! n); counter = counter[n := ucast c]; c = drop_bit 8 c
      in ctr_inc_loop n c counter)"

definition ctr128_inc :: "bytes \<Rightarrow> bytes" where
  "ctr128_inc counter = ctr_inc_loop 16 1 counter"

definition ctr96_inc :: "bytes \<Rightarrow> bytes" where
  "ctr96_inc counter = ctr_inc_loop 12 1 counter"

text \<open>
  The three parts of every function of the file: the bytes left in the key stream block, whole
  blocks, and the last bytes. Each returns the output it adds and what it leaves.
\<close>

fun xor_lead :: "nat \<Rightarrow> bytes \<Rightarrow> bytes \<Rightarrow> bytes \<times> bytes \<times> nat" where
  "xor_lead n buf [] = ([], [], n)"
| "xor_lead n buf (b # rest) =
     (if n \<noteq> 0 then
        let (out, rest, n') = xor_lead ((n + 1) mod 16) buf rest in ((b XOR buf ! n) # out, rest, n')
      else ([], b # rest, n))"

definition xor_tail :: "nat \<Rightarrow> bytes \<Rightarrow> bytes \<Rightarrow> bytes \<times> nat" where
  "xor_tail n buf rest = (map (\<lambda>i. rest ! i XOR buf ! i) [n..<n + length rest], n + length rest)"

function ctr128_blocks :: "block128_f \<Rightarrow> bytes \<Rightarrow> bytes \<Rightarrow> bytes \<Rightarrow> nat \<Rightarrow> bytes \<times> bytes \<times> bytes \<times> bytes \<times> nat" where
  "ctr128_blocks block inp ivec ecount_buf n =
     (if length inp \<ge> 16 then
        let ecount_buf = block ivec; ivec = ctr128_inc ivec;
            out = xor_words 0 inp ecount_buf;
            (outs, res) = ctr128_blocks block (drop 16 inp) ivec ecount_buf 0
        in (out @ outs, res)
      else ([], inp, ivec, ecount_buf, n))"
  by pat_completeness auto
termination
  by (relation "measure (\<lambda>(_, inp, _). length inp)") auto

definition CRYPTO_ctr128_encrypt :: "block128_f \<Rightarrow> bytes \<Rightarrow> bytes \<times> bytes \<times> nat \<Rightarrow> bytes \<times> bytes \<times> bytes \<times> nat" where
  "CRYPTO_ctr128_encrypt block inp = (\<lambda>(ivec, ecount_buf, num).
     let (out1, inp, n) = xor_lead num ecount_buf inp;
         (out2, inp, ivec, ecount_buf, n) = ctr128_blocks block inp ivec ecount_buf n
     in if inp \<noteq> [] then
          let ecount_buf = block ivec; ivec = ctr128_inc ivec; (out3, n) = xor_tail n ecount_buf inp
          in (out1 @ out2 @ out3, ivec, ecount_buf, n)
        else (out1 @ out2, ivec, ecount_buf, n))"

text \<open>The variant for a function that counts in 32 bits; \<open>blocks\<close> is cut at the overflow.\<close>

definition ctr32_step :: "nat \<Rightarrow> u32 \<Rightarrow> nat \<times> u32" where
  "ctr32_step len ctr32 =
     (let blocks = len div 16;
          blocks = (if blocks > 2 ^ 28 then 2 ^ 28 else blocks);
          ctr32 = ctr32 + of_nat blocks
      in if unat ctr32 < blocks then (blocks - unat ctr32, 0) else (blocks, ctr32))"

lemma ctr32_step_shrinks: "ctr32_step len c = (k, c') \<Longrightarrow> 16 \<le> len \<Longrightarrow> len - 16 * k < len"
proof -
  assume *: "ctr32_step len c = (k, c')" "16 \<le> len"
  then have "0 < len div 16" by (simp add: div_greater_zero_iff)
  with *(1) have "0 < k" by (auto simp: ctr32_step_def Let_def split: if_splits)
  with *(2) show ?thesis by simp
qed

function ctr32_blocks :: "ctr128_f \<Rightarrow> bytes \<Rightarrow> bytes \<Rightarrow> u32 \<Rightarrow> bytes \<times> bytes \<times> bytes \<times> u32" where
  "ctr32_blocks func inp ivec ctr32 =
     (if length inp \<ge> 16 then
        let (blocks, ctr32) = ctr32_step (length inp) ctr32;
            out = func (take (16 * blocks) inp) blocks ivec;
            ivec = PUTU32 12 ctr32 ivec;
            ivec = (if ctr32 = 0 then ctr96_inc ivec else ivec);
            (outs, res) = ctr32_blocks func (drop (16 * blocks) inp) ivec ctr32
        in (out @ outs, res)
      else ([], inp, ivec, ctr32))"
  by pat_completeness auto
termination
  by (relation "measure (\<lambda>(_, inp, _). length inp)") (auto dest: ctr32_step_shrinks [OF sym])

definition CRYPTO_ctr128_encrypt_ctr32 ::
  "ctr128_f \<Rightarrow> bytes \<Rightarrow> bytes \<times> bytes \<times> nat \<Rightarrow> bytes \<times> bytes \<times> bytes \<times> nat" where
  "CRYPTO_ctr128_encrypt_ctr32 func inp = (\<lambda>(ivec, ecount_buf, num).
     let (out1, inp, n) = xor_lead num ecount_buf inp;
         (out2, inp, ivec, ctr32) = ctr32_blocks func inp ivec (GETU32 12 ivec)
     in if inp \<noteq> [] then
          let ecount_buf = func (replicate 16 0) 1 ivec;
              ctr32 = ctr32 + 1;
              ivec = PUTU32 12 ctr32 ivec;
              ivec = (if ctr32 = 0 then ctr96_inc ivec else ivec);
              (out3, n) = xor_tail n ecount_buf inp
          in (out1 @ out2 @ out3, ivec, ecount_buf, n)
        else (out1 @ out2, ivec, ecount_buf, n))"

section \<open>Output feedback (modes/ofb.c)\<close>

function ofb_blocks :: "block128_f \<Rightarrow> bytes \<Rightarrow> bytes \<Rightarrow> nat \<Rightarrow> bytes \<times> bytes \<times> bytes \<times> nat" where
  "ofb_blocks block inp ivec n =
     (if length inp \<ge> 16 then
        let ivec = block ivec; out = xor_words n inp ivec;
            (outs, res) = ofb_blocks block (drop 16 inp) ivec 0
        in (out @ outs, res)
      else ([], inp, ivec, n))"
  by pat_completeness auto
termination
  by (relation "measure (\<lambda>(_, inp, _). length inp)") auto

definition CRYPTO_ofb128_encrypt :: "block128_f \<Rightarrow> bytes \<Rightarrow> bytes \<times> nat \<Rightarrow> bytes \<times> bytes \<times> nat" where
  "CRYPTO_ofb128_encrypt block inp = (\<lambda>(ivec, num).
     let (out1, inp, n) = xor_lead num ivec inp;
         (out2, inp, ivec, n) = ofb_blocks block inp ivec n
     in if inp \<noteq> [] then
          let ivec = block ivec; (out3, n) = xor_tail n ivec inp in (out1 @ out2 @ out3, ivec, n)
        else (out1 @ out2, ivec, n))"

section \<open>Cipher feedback (modes/cfb.c)\<close>

text \<open>\<open>cfb_byte\<close> is the loop body: the output byte and the register with the ciphertext byte put in.\<close>

definition cfb_byte :: "bool \<Rightarrow> nat \<Rightarrow> bytes \<Rightarrow> u8 \<Rightarrow> u8 \<times> bytes" where
  "cfb_byte enc n ivec b =
     (if enc then let c = ivec ! n XOR b in (c, ivec[n := c]) else (ivec ! n XOR b, ivec[n := b]))"

fun cfb_lead :: "bool \<Rightarrow> nat \<Rightarrow> bytes \<Rightarrow> bytes \<Rightarrow> bytes \<times> bytes \<times> bytes \<times> nat" where
  "cfb_lead enc n ivec [] = ([], [], ivec, n)"
| "cfb_lead enc n ivec (b # rest) =
     (if n \<noteq> 0 then
        let (c, ivec) = cfb_byte enc n ivec b;
            (out, res) = cfb_lead enc ((n + 1) mod 16) ivec rest in (c # out, res)
      else ([], b # rest, ivec, n))"

fun cfb_tail :: "bool \<Rightarrow> nat \<Rightarrow> bytes \<Rightarrow> bytes \<Rightarrow> bytes \<times> bytes \<times> nat" where
  "cfb_tail enc n ivec [] = ([], ivec, n)"
| "cfb_tail enc n ivec (b # rest) =
     (let (c, ivec) = cfb_byte enc n ivec b; (out, res) = cfb_tail enc (n + 1) ivec rest in (c # out, res))"

function cfb_blocks :: "block128_f \<Rightarrow> bool \<Rightarrow> bytes \<Rightarrow> bytes \<Rightarrow> nat \<Rightarrow> bytes \<times> bytes \<times> bytes \<times> nat" where
  "cfb_blocks block enc inp ivec n =
     (if length inp \<ge> 16 then
        let ivec = block ivec; out = xor_words n ivec inp;
            ivec = (if enc then take n ivec @ out else take n ivec @ drop n (take 16 inp));
            (outs, res) = cfb_blocks block enc (drop 16 inp) ivec 0
        in (out @ outs, res)
      else ([], inp, ivec, n))"
  by pat_completeness auto
termination
  by (relation "measure (\<lambda>(_, _, inp, _). length inp)") auto

definition CRYPTO_cfb128_encrypt :: "block128_f \<Rightarrow> bool \<Rightarrow> bytes \<Rightarrow> bytes \<times> nat \<Rightarrow> bytes \<times> bytes \<times> nat" where
  "CRYPTO_cfb128_encrypt block enc inp = (\<lambda>(ivec, num).
     let (out1, inp, ivec, n) = cfb_lead enc num ivec inp;
         (out2, inp, ivec, n) = cfb_blocks block enc inp ivec n
     in if inp \<noteq> [] then
          let ivec = block ivec; (out3, ivec, n) = cfb_tail enc n ivec inp in (out1 @ out2 @ out3, ivec, n)
        else (out1 @ out2, ivec, n))"

text \<open>
  One step of \<open>nbits\<close> bits. \<open>ovec\<close> is the old register, the ciphertext bytes, and zeros for the
  uninitialised rest, of which the new register takes nothing. The output array is the bytes
  written.
\<close>

definition cfbr_encrypt_block :: "block128_f \<Rightarrow> bool \<Rightarrow> nat \<Rightarrow> bytes \<Rightarrow> bytes \<Rightarrow> bytes \<times> bytes" where
  "cfbr_encrypt_block block enc nbits inp ivec =
     (if nbits = 0 \<or> nbits > 128 then ([], ivec)
      else let ovec = ivec; ivec = block ivec; num = (nbits + 7) div 8;
               out = map (\<lambda>n. inp ! n XOR ivec ! n) [0..<num];
               ovec = ovec @ (if enc then out else take num inp) @ replicate (17 - num) 0;
               rem = nbits mod 8; num = nbits div 8
           in (out, if rem = 0 then take 16 (drop num ovec)
                    else map (\<lambda>n. push_bit rem (ovec ! (n + num)) OR drop_bit (8 - rem) (ovec ! (n + num + 1))) [0..<16]))"

fun cfb8_loop :: "block128_f \<Rightarrow> bool \<Rightarrow> bytes \<Rightarrow> bytes \<Rightarrow> bytes \<times> bytes" where
  "cfb8_loop block enc [] ivec = ([], ivec)"
| "cfb8_loop block enc (b # rest) ivec =
     (let (out, ivec) = cfbr_encrypt_block block enc 8 [b] ivec;
          (outs, ivec) = cfb8_loop block enc rest ivec in (out @ outs, ivec))"

definition CRYPTO_cfb128_8_encrypt :: "block128_f \<Rightarrow> bool \<Rightarrow> bytes \<Rightarrow> bytes \<Rightarrow> bytes \<times> bytes" where
  "CRYPTO_cfb128_8_encrypt block enc inp ivec = cfb8_loop block enc inp ivec"

text \<open>The 1-bit form writes into an output array that already exists.\<close>

fun cfb1_loop :: "block128_f \<Rightarrow> bool \<Rightarrow> bytes \<Rightarrow> nat list \<Rightarrow> bytes \<Rightarrow> bytes \<Rightarrow> bytes \<times> bytes" where
  "cfb1_loop block enc inp [] out ivec = (out, ivec)"
| "cfb1_loop block enc inp (n # ns) out ivec =
     (let c = (if inp ! (n div 8) AND push_bit (7 - n mod 8) 1 \<noteq> 0 then 0x80 else 0);
          (d, ivec) = cfbr_encrypt_block block enc 1 [c] ivec;
          out = out[n div 8 := (out ! (n div 8) AND NOT (push_bit (7 - n mod 8) 1)) OR drop_bit (n mod 8) (d ! 0 AND 0x80)]
      in cfb1_loop block enc inp ns out ivec)"

definition CRYPTO_cfb128_1_encrypt :: "block128_f \<Rightarrow> bool \<Rightarrow> bytes \<Rightarrow> nat \<Rightarrow> bytes \<Rightarrow> bytes \<Rightarrow> bytes \<times> bytes" where
  "CRYPTO_cfb128_1_encrypt block enc inp bits out ivec = cfb1_loop block enc inp [0..<bits] out ivec"

declare ofb_blocks.simps [simp del] cfb_blocks.simps [simp del]

declare ctr128_blocks.simps [simp del] ctr32_blocks.simps [simp del]

section \<open>Words and counters as bytes and numbers\<close>

lemma be_word_xor:
  "length as = length bs \<Longrightarrow> be_word (a XOR b) (map2 (XOR) as bs) = be_word a as XOR be_word b bs"
proof (induction as bs arbitrary: a b rule: list_induct2)
  case (Cons x as y bs)
  have "push_bit 8 (a XOR b) OR ucast (x XOR y) = (push_bit 8 a OR ucast x) XOR (push_bit 8 b OR ucast y)"
    by (rule bit_word_eqI) (auto simp: bit_simps bit_u8_False)
  with Cons show ?case by simp
qed simp

lemma xor_word:
  assumes "n + 8 \<le> length a" "n + 8 \<le> length b"
  shows "store_word_le (load_word_le n a XOR load_word_le n b) = map2 (XOR) (take 8 (drop n a)) (take 8 (drop n b))"
proof -
  define p q where "p = take 8 (drop n a)" and "q = take 8 (drop n b)"
  have l: "length p = 8" "length q = 8" using assms by (simp_all add: p_def q_def)
  have "load_word_le n a XOR load_word_le n b = be_word 0 (map2 (XOR) (rev p) (rev q))"
    using l be_word_xor [of "rev p" "rev q" 0 0] by (simp add: load_word_le_def be_word_of_nat p_def q_def)
  also have "map2 (XOR) (rev p) (rev q) = rev (map2 (XOR) p q)"
    using l by (simp add: zip_rev rev_map)
  finally show ?thesis
    using l by (simp add: store_word_le_def unat_be_word le_bytes_be_nat flip: p_def q_def)
qed

lemma xor_words_0:
  assumes "16 \<le> length a" "16 \<le> length b"
  shows "xor_words 0 a b = map2 (XOR) (take 16 a) (take 16 b)"
proof -
  have "take 16 c = take 8 c @ take 8 (drop 8 c)" for c :: bytes
    using take_add [of 8 8 c] by simp
  moreover have "length (take 8 a) = length (take 8 b)" using assms by simp
  ultimately show ?thesis
    using assms by (simp add: xor_words.simps [of 0] xor_words.simps [of 8] xor_words.simps [of 16] xor_word)
qed

lemma ctr_inc_loop_eq:
  "n \<le> length cs \<Longrightarrow> unat c \<le> 1 \<Longrightarrow> ctr_inc_loop n c cs = nat_be n (be_nat (take n cs) + unat c) @ drop n cs"
proof (induction n arbitrary: c cs)
  case (Suc n)
  define x where "x = cs ! n"
  define c' where "c' = c + ucast x"
  have "unat (ucast x :: u32) = unat x"
    using unat_u8_bound [of x] by (simp add: unsigned_ucast_eq take_bit_eq_mod)
  then have c': "unat c' = unat c + unat x"
    using Suc.prems(2) unat_u8_bound [of x] by (simp add: c'_def unat_word_ariths)
  have d: "unat (drop_bit 8 c') = (unat c + unat x) div 256" by (simp add: unat_drop_bit c')
  with Suc.prems(2) unat_u8_bound [of x] have "unat (drop_bit 8 c') \<le> 1" by simp
  with Suc.IH [of "cs[n := ucast c']" "drop_bit 8 c'"] Suc.prems(1)
  have "ctr_inc_loop n (drop_bit 8 c') (cs[n := ucast c'])
      = nat_be n (be_nat (take n cs) + (unat c + unat x) div 256) @ ucast c' # drop (Suc n) cs"
    by (simp add: d drop_update_swap Cons_nth_drop_Suc [symmetric])
  moreover have "be_nat (take (Suc n) cs) = 256 * be_nat (take n cs) + unat x"
    using Suc.prems(1) by (simp add: take_Suc_conv_app_nth be_nat_append x_def)
  moreover have "(256 * be_nat (take n cs) + unat x + unat c) mod 256 = (unat c + unat x) mod 256"
    using mod_mult_self4 [of 256 "be_nat (take n cs)" "unat c + unat x"] by (simp add: ac_simps)
  then have "(ucast c' :: u8) = of_nat ((256 * be_nat (take n cs) + unat x + unat c) mod 256)"
    by (simp add: word_unat_eq_iff unsigned_ucast_eq unat_of_nat take_bit_eq_mod c')
  moreover have "be_nat (take n cs) + (unat c + unat x) div 256 = (256 * be_nat (take n cs) + unat x + unat c) div 256"
    by (simp add: add.assoc add.commute [of "unat c"])
  ultimately show ?case by (simp add: c'_def x_def Let_def)
qed simp

lemma ctr128_inc_eq: "length iv = 16 \<Longrightarrow> ctr128_inc iv = nat_be 16 (be_nat iv + 1)"
  by (simp add: ctr128_inc_def ctr_inc_loop_eq)

lemma ctr96_inc_eq: "length iv = 16 \<Longrightarrow> ctr96_inc iv = nat_be 12 (be_nat (take 12 iv) + 1) @ drop 12 iv"
  by (simp add: ctr96_inc_def ctr_inc_loop_eq)

lemma GETU32_eq: "n + 4 \<le> length bs \<Longrightarrow> GETU32 n bs = of_nat (be_nat (take 4 (drop n bs)))"
proof -
  define w where "w = take 4 (drop n bs)"
  assume "n + 4 \<le> length bs"
  then have l: "length w = 4" by (simp add: w_def)
  then have r: "be_nat (rev w) < 2 ^ 32" "be_nat w < 2 ^ 32" using be_nat_bound [of "rev w"] be_nat_bound [of w] by simp_all
  have "nat_be 4 (unat (CRYPTO_bswap4 (of_nat (be_nat (rev w))))) = w"
    using l r by (simp add: CRYPTO_bswap4_rev unat_of_nat nat_be_be_nat')
  then have "be_nat (nat_be 4 (unat (CRYPTO_bswap4 (of_nat (be_nat (rev w)))))) = be_nat w" by simp
  then have "unat (CRYPTO_bswap4 (of_nat (be_nat (rev w)))) = be_nat w"
    using unat_u32_bound by (simp add: be_nat_nat_be)
  then show ?thesis using r by (simp add: GETU32_def word_unat_eq_iff unat_of_nat flip: w_def)
qed

lemma PUTU32_eq: "PUTU32 n v bs = take n bs @ nat_be 4 (unat v) @ drop (n + 4) bs"
  by (simp add: PUTU32_def le_bytes_def CRYPTO_bswap4_rev)

section \<open>One byte at a time\<close>

fun run :: "(u8 \<Rightarrow> 's \<Rightarrow> u8 \<times> 's) \<Rightarrow> bytes \<Rightarrow> 's \<Rightarrow> bytes \<times> 's" where
  "run step [] s = ([], s)"
| "run step (b # bs) s = (let (c, s) = step b s; (cs, s) = run step bs s in (c # cs, s))"

lemma run_append: "run step (xs @ ys) s = (let (a, s) = run step xs s; (b, s) = run step ys s in (a @ b, s))"
  by (induction xs arbitrary: s) (simp_all add: Let_def split: prod.splits)

lemma length_run: "length (fst (run step xs s)) = length xs"
  by (induction xs arbitrary: s) (simp_all add: Let_def split_beta)

text \<open>
  The interface of a stream cipher's implementation: on admissible states it does what the
  byte-at-a-time machine does. A stream cipher with its inverse has two such machines that undo
  each other and go through the same states.
\<close>

locale byte_stream =
  fixes bulk :: "bytes \<Rightarrow> 's \<Rightarrow> bytes \<times> 's"
    and step :: "u8 \<Rightarrow> 's \<Rightarrow> u8 \<times> 's"
    and ok :: "'s \<Rightarrow> bool"
  assumes bulk_run: "ok s \<Longrightarrow> bulk xs s = run step xs s"
    and step_ok: "ok s \<Longrightarrow> ok (snd (step b s))"
begin

lemma run_ok: "ok s \<Longrightarrow> ok (snd (run step xs s))"
proof (induction xs arbitrary: s)
  case (Cons b xs)
  then show ?case using step_ok [OF Cons.prems, of b] by (simp add: Let_def split: prod.splits) force
qed simp

lemma cut: "ok s \<Longrightarrow> bulk (xs @ ys) s = (let (a, s) = bulk xs s; (b, s) = bulk ys s in (a @ b, s))"
  using run_ok [of s xs] by (simp add: bulk_run run_append Let_def split_beta)

lemma cuts:
  "ok s \<Longrightarrow> fold (\<lambda>c (out, s). let (o', s) = bulk c s in (out @ o', s)) chunks (out, s)
    = (let (o', s) = bulk (concat chunks) s in (out @ o', s))"
proof (induction chunks arbitrary: s out)
  case Nil
  then show ?case by (simp add: bulk_run)
next
  case (Cons c cs)
  have "ok (snd (bulk c s))" using run_ok [OF Cons.prems] by (simp add: bulk_run [OF Cons.prems])
  with Cons.IH [of "snd (bulk c s)"] cut [OF Cons.prems, of c "concat cs"] show ?case
    by (simp add: Let_def split: prod.splits)
qed

lemma length_bulk: "ok s \<Longrightarrow> length (fst (bulk xs s)) = length xs"
  by (simp add: bulk_run length_run)

end

locale invertible_stream = byte_stream bulk step ok
  for bulk :: "bytes \<Rightarrow> 's \<Rightarrow> bytes \<times> 's" and step :: "u8 \<Rightarrow> 's \<Rightarrow> u8 \<times> 's" and ok :: "'s \<Rightarrow> bool" +
  fixes bulk' :: "bytes \<Rightarrow> 's \<Rightarrow> bytes \<times> 's"
    and step' :: "u8 \<Rightarrow> 's \<Rightarrow> u8 \<times> 's"
  assumes bulk'_run: "ok s \<Longrightarrow> bulk' xs s = run step' xs s"
    and step_inverse: "ok s \<Longrightarrow> step b s = (c, s') \<Longrightarrow> step' c s = (b, s')"
begin

lemma run_inverse: "ok s \<Longrightarrow> run step' (fst (run step xs s)) s = (xs, snd (run step xs s))"
proof (induction xs arbitrary: s)
  case (Cons b xs)
  obtain c s' where st: "step b s = (c, s')" by fastforce
  then have "ok s'" using step_ok [OF Cons.prems, of b] by simp
  from Cons.IH [OF this] step_inverse [OF Cons.prems st] st show ?case
    by (simp add: Let_def split_beta)
qed simp

lemma bulk_inverse: "ok s \<Longrightarrow> bulk' (fst (bulk xs s)) s = (xs, snd (bulk xs s))"
  by (simp add: bulk_run bulk'_run run_inverse)

end

section \<open>Key streams: counter mode and output feedback\<close>

text \<open>
  A machine with a register, a 16-byte key stream block and the position in it; at position 0 it
  makes a new block.
\<close>

definition ks_step :: "('r \<times> bytes \<Rightarrow> 'r \<times> bytes) \<Rightarrow> u8 \<Rightarrow> 'r \<times> bytes \<times> nat \<Rightarrow> u8 \<times> 'r \<times> bytes \<times> nat" where
  "ks_step refresh b = (\<lambda>(r, buf, n).
     let (r, buf) = (if n = 0 then refresh (r, buf) else (r, buf)) in (b XOR buf ! n, r, buf, (n + 1) mod 16))"

lemma run_within:
  "0 < n \<Longrightarrow> n < 16 \<Longrightarrow> n + length xs \<le> 16 \<Longrightarrow>
    run (ks_step refresh) xs (r, buf, n) = (map2 (XOR) xs (map ((!) buf) [n..<n + length xs]), r, buf, (n + length xs) mod 16)"
proof (induction xs arbitrary: n)
  case (Cons b xs)
  show ?case
  proof (cases xs)
    case Nil
    then show ?thesis using Cons.prems by (simp add: ks_step_def)
  next
    case (Cons a list)
    then have "Suc n < 16" using Cons.prems by simp
    then have "Suc n mod 16 = Suc n" by simp
    with Cons.IH [of "Suc n"] Cons.prems show ?thesis
      by (simp add: ks_step_def upt_conv_Cons del: upt_Suc)
  qed
qed (simp add: ks_step_def)

lemma nth_upt: "n + k \<le> length buf \<Longrightarrow> map ((!) buf) [n..<n + k] = take k (drop n buf)"
  by (rule nth_equalityI) simp_all

lemma run_from_0:
  assumes "xs \<noteq> []" "length xs \<le> 16" "refresh (r, buf) = (r', buf')" "length buf' = 16"
  shows "run (ks_step refresh) xs (r, buf, 0) = (map2 (XOR) xs (take (length xs) buf'), r', buf', length xs mod 16)"
proof -
  obtain b ys where xs: "xs = b # ys" using assms(1) by (cases xs) auto
  obtain k ks where buf': "buf' = k # ks" "length ks = 15" using assms(4) by (cases buf') auto
  have first: "ks_step refresh b (r, buf, 0) = (b XOR k, r', buf', 1)"
    by (simp add: ks_step_def assms(3) buf')
  show ?thesis
    using run_within [of 1 ys refresh r' buf'] nth_upt [of 1 "length ys" buf'] assms(2) buf'
    by (simp add: xs first)
qed

text \<open>The parts of the C functions on such a machine.\<close>

lemma xor_lead_run:
  assumes "n < 16" "length buf = 16" "xor_lead n buf xs = (out, rest, n')"
  shows "run (ks_step refresh) xs (r, buf, n)
      = (let (o', s) = run (ks_step refresh) rest (r, buf, n') in (out @ o', s))"
    and "n' < 16" and "n' \<noteq> 0 \<Longrightarrow> rest = []"
proof -
  have "run (ks_step refresh) xs (r, buf, n)
      = (let (o', s) = run (ks_step refresh) rest (r, buf, n') in (out @ o', s)) \<and> n' < 16 \<and> (n' \<noteq> 0 \<longrightarrow> rest = [])"
    using assms
  proof (induction n buf xs arbitrary: out rule: xor_lead.induct)
    case (2 n buf b ys)
    show ?case
    proof (cases "n = 0")
      case False
      then obtain o1 where o1: "xor_lead ((n + 1) mod 16) buf ys = (o1, rest, n')" "out = (b XOR buf ! n) # o1"
        using "2.prems"(3) by (auto split: prod.splits)
      have "ks_step refresh b (r, buf, n) = (b XOR buf ! n, r, buf, (n + 1) mod 16)"
        using False by (simp add: ks_step_def)
      with "2.IH" [OF False _ "2.prems"(2) o1(1)] o1(2) show ?thesis
        by (simp add: Let_def split: prod.splits)
    qed (use "2.prems" in simp)
  qed simp
  then show "run (ks_step refresh) xs (r, buf, n)
      = (let (o', s) = run (ks_step refresh) rest (r, buf, n') in (out @ o', s))"
    and "n' < 16" and "n' \<noteq> 0 \<Longrightarrow> rest = []" by auto
qed

lemma xor_tail_0: "length rest \<le> length buf \<Longrightarrow> xor_tail 0 buf rest = (map2 (XOR) rest (take (length rest) buf), length rest)"
  unfolding xor_tail_def by (auto intro!: nth_equalityI)

definition block_cipher :: "block128_f \<Rightarrow> bool" where
  "block_cipher block \<longleftrightarrow> (\<forall>b. length b = 16 \<longrightarrow> length (block b) = 16)"

lemma block_cipher_length: "block_cipher block \<Longrightarrow> length b = 16 \<Longrightarrow> length (block b) = 16"
  by (simp add: block_cipher_def)

definition ctr_refresh :: "block128_f \<Rightarrow> bytes \<times> bytes \<Rightarrow> bytes \<times> bytes" where
  "ctr_refresh block = (\<lambda>(iv, ec). (ctr128_inc iv, block iv))"

lemma length_ctr128_inc [simp]: "length iv = 16 \<Longrightarrow> length (ctr128_inc iv) = 16"
  by (simp add: ctr128_inc_eq)

lemma ctr128_blocks_run:
  assumes "block_cipher block" "length iv = 16" "ctr128_blocks block xs iv ec 0 = (out, rest, iv', ec', n')"
  shows "run (ks_step (ctr_refresh block)) xs (iv, ec, 0)
      = (let (o', s) = run (ks_step (ctr_refresh block)) rest (iv', ec', 0) in (out @ o', s))"
    and "n' = 0" and "length rest < 16" and "length iv' = 16"
proof -
  have "run (ks_step (ctr_refresh block)) xs (iv, ec, 0)
      = (let (o', s) = run (ks_step (ctr_refresh block)) rest (iv', ec', 0) in (out @ o', s))
      \<and> n' = 0 \<and> length rest < 16 \<and> length iv' = 16"
    using assms(2,3)
  proof (induction xs arbitrary: iv ec out rule: length_induct)
    case (1 xs)
    show ?case
    proof (cases "length xs < 16")
      case True
      with "1.prems" show ?thesis by (simp add: ctr128_blocks.simps [of block xs] split_beta)
    next
      case False
      define outs where "outs = fst (ctr128_blocks block (drop 16 xs) (ctr128_inc iv) (block iv) 0)"
      have rec: "ctr128_blocks block (drop 16 xs) (ctr128_inc iv) (block iv) 0 = (outs, rest, iv', ec', n')"
        and out: "out = map2 (XOR) (take 16 xs) (block iv) @ outs"
        using False "1.prems" block_cipher_length [OF assms(1) "1.prems"(1)]
        by (auto simp: ctr128_blocks.simps [of block xs] outs_def xor_words_0 Let_def split: prod.splits)
      have "length (drop 16 xs) < length xs" using False by simp
      from "1.IH" [rule_format, OF this length_ctr128_inc [OF "1.prems"(1)] rec]
      have IH: "run (ks_step (ctr_refresh block)) (drop 16 xs) (ctr128_inc iv, block iv, 0)
          = (let (o', s) = run (ks_step (ctr_refresh block)) rest (iv', ec', 0) in (outs @ o', s))
          \<and> n' = 0 \<and> length rest < 16 \<and> length iv' = 16" .
      have first: "run (ks_step (ctr_refresh block)) (take 16 xs) (iv, ec, 0)
          = (map2 (XOR) (take 16 xs) (block iv), ctr128_inc iv, block iv, 0)"
        using False block_cipher_length [OF assms(1) "1.prems"(1)]
        by (subst run_from_0 [where r' = "ctr128_inc iv" and buf' = "block iv"]) (auto simp: ctr_refresh_def)
      have "run (ks_step (ctr_refresh block)) (take 16 xs @ drop 16 xs) (iv, ec, 0)
          = (let (o', s) = run (ks_step (ctr_refresh block)) rest (iv', ec', 0) in (out @ o', s))"
        unfolding run_append first out using IH by (simp add: split_beta Let_def)
      with IH show ?thesis by simp
    qed
  qed
  then show "run (ks_step (ctr_refresh block)) xs (iv, ec, 0)
      = (let (o', s) = run (ks_step (ctr_refresh block)) rest (iv', ec', 0) in (out @ o', s))"
    and "n' = 0" and "length rest < 16" and "length iv' = 16" by auto
qed

definition ks_ok :: "('r \<Rightarrow> bool) \<Rightarrow> 'r \<times> bytes \<times> nat \<Rightarrow> bool" where
  "ks_ok rok = (\<lambda>(r, buf, n). rok r \<and> length buf = 16 \<and> n < 16)"

lemma ks_step_ok:
  assumes "\<And>r buf. rok r \<Longrightarrow> length buf = 16 \<Longrightarrow> rok (fst (refresh (r, buf))) \<and> length (snd (refresh (r, buf))) = 16"
  shows "ks_ok rok s \<Longrightarrow> ks_ok rok (snd (ks_step refresh b s))"
  using assms by (auto simp: ks_ok_def ks_step_def Let_def split_beta)

lemma ks_step_self_inverse: "ks_step refresh b s = (c, s') \<Longrightarrow> ks_step refresh c s = (b, s')"
  by (auto simp: ks_step_def Let_def split_beta xor.assoc)

lemma ctr128_run:
  assumes "block_cipher block" "length iv = 16" "length ec = 16" "n < 16"
  shows "CRYPTO_ctr128_encrypt block xs (iv, ec, n) = run (ks_step (ctr_refresh block)) xs (iv, ec, n)"
proof -
  obtain out1 xs1 n1 where l: "xor_lead n ec xs = (out1, xs1, n1)" by (metis prod_cases3)
  note lead = xor_lead_run(1) [OF assms(4,3) l, where refresh = "ctr_refresh block" and r = iv] xor_lead_run(2,3) [OF assms(4,3) l]
  show ?thesis
  proof (cases "n1 = 0")
    case False
    then have "xs1 = []" using lead(3) by simp
    then show ?thesis using lead(1)
      by (simp add: CRYPTO_ctr128_encrypt_def l ctr128_blocks.simps [of block "[]"])
  next
    case True
    obtain out2 rest iv' ec' n' where b: "ctr128_blocks block xs1 iv ec 0 = (out2, rest, iv', ec', n')"
      by (metis prod_cases5)
    note blocks = ctr128_blocks_run [OF assms(1,2) b]
    show ?thesis
    proof (cases "rest = []")
      case True
      then show ?thesis using lead(1) blocks(1,2) \<open>n1 = 0\<close> by (simp add: CRYPTO_ctr128_encrypt_def l b)
    next
      case False
      have "run (ks_step (ctr_refresh block)) rest (iv', ec', 0)
          = (map2 (XOR) rest (take (length rest) (block iv')), ctr128_inc iv', block iv', length rest mod 16)"
        using False blocks(3,4) block_cipher_length [OF assms(1)]
        by (subst run_from_0 [where r' = "ctr128_inc iv'" and buf' = "block iv'"]) (auto simp: ctr_refresh_def)
      moreover have "xor_tail 0 (block iv') rest = (map2 (XOR) rest (take (length rest) (block iv')), length rest)"
        using blocks(3,4) block_cipher_length [OF assms(1), of iv'] by (simp add: xor_tail_0)
      ultimately show ?thesis using lead(1) blocks(1,2,3) \<open>n1 = 0\<close> False
        by (simp add: CRYPTO_ctr128_encrypt_def l b Let_def)
    qed
  qed
qed

interpretation ctr: invertible_stream
  "CRYPTO_ctr128_encrypt block" "ks_step (ctr_refresh block)" "ks_ok (\<lambda>iv. block_cipher block \<and> length iv = 16)"
  "CRYPTO_ctr128_encrypt block" "ks_step (ctr_refresh block)" for block
proof unfold_locales
  fix s :: "bytes \<times> bytes \<times> nat" and xs b c s'
  assume ok: "ks_ok (\<lambda>iv. block_cipher block \<and> length iv = 16) s"
  then show "CRYPTO_ctr128_encrypt block xs s = run (ks_step (ctr_refresh block)) xs s"
    by (auto simp: ks_ok_def ctr128_run)
  show "ks_ok (\<lambda>iv. block_cipher block \<and> length iv = 16) (snd (ks_step (ctr_refresh block) b s))"
    by (rule ks_step_ok [OF _ ok]) (auto simp: ctr_refresh_def block_cipher_length)
  show "ks_step (ctr_refresh block) b s = (c, s') \<Longrightarrow> ks_step (ctr_refresh block) c s = (b, s')"
    by (rule ks_step_self_inverse)
qed

subsection \<open>Output feedback\<close>

definition ofb_refresh :: "block128_f \<Rightarrow> unit \<times> bytes \<Rightarrow> unit \<times> bytes" where
  "ofb_refresh block = (\<lambda>(u, buf). (u, block buf))"

text \<open>The function on the machine's state, which has no register beside the block.\<close>

definition ofb_bulk :: "block128_f \<Rightarrow> bytes \<Rightarrow> unit \<times> bytes \<times> nat \<Rightarrow> bytes \<times> unit \<times> bytes \<times> nat" where
  "ofb_bulk block xs = (\<lambda>(u, s). let (out, s) = CRYPTO_ofb128_encrypt block xs s in (out, u, s))"

lemma ofb_blocks_run:
  assumes "block_cipher block" "length iv = 16" "ofb_blocks block xs iv 0 = (out, rest, iv', n')"
  shows "run (ks_step (ofb_refresh block)) xs ((), iv, 0)
      = (let (o', s) = run (ks_step (ofb_refresh block)) rest ((), iv', 0) in (out @ o', s))
    \<and> n' = 0 \<and> length rest < 16 \<and> length iv' = 16"
  using assms(2,3)
proof (induction xs arbitrary: iv out rule: length_induct)
  case (1 xs)
  show ?case
  proof (cases "length xs < 16")
    case True
    with "1.prems" show ?thesis by (simp add: ofb_blocks.simps [of block xs] split_beta)
  next
    case False
    define outs where "outs = fst (ofb_blocks block (drop 16 xs) (block iv) 0)"
    have rec: "ofb_blocks block (drop 16 xs) (block iv) 0 = (outs, rest, iv', n')"
      and out: "out = map2 (XOR) (take 16 xs) (block iv) @ outs"
      using False "1.prems" block_cipher_length [OF assms(1) "1.prems"(1)]
      by (auto simp: ofb_blocks.simps [of block xs] outs_def xor_words_0 Let_def split: prod.splits)
    have "length (drop 16 xs) < length xs" using False by simp
    from "1.IH" [rule_format, OF this block_cipher_length [OF assms(1) "1.prems"(1)] rec]
    have IH: "run (ks_step (ofb_refresh block)) (drop 16 xs) ((), block iv, 0)
        = (let (o', s) = run (ks_step (ofb_refresh block)) rest ((), iv', 0) in (outs @ o', s))
        \<and> n' = 0 \<and> length rest < 16 \<and> length iv' = 16" .
    have first: "run (ks_step (ofb_refresh block)) (take 16 xs) ((), iv, 0)
        = (map2 (XOR) (take 16 xs) (block iv), (), block iv, 0)"
      using False block_cipher_length [OF assms(1) "1.prems"(1)]
      by (subst run_from_0 [where r' = "()" and buf' = "block iv"]) (auto simp: ofb_refresh_def)
    have "run (ks_step (ofb_refresh block)) (take 16 xs @ drop 16 xs) ((), iv, 0)
        = (let (o', s) = run (ks_step (ofb_refresh block)) rest ((), iv', 0) in (out @ o', s))"
      unfolding run_append first out using IH by (simp add: split_beta Let_def)
    with IH show ?thesis by simp
  qed
qed

lemma ofb128_run:
  assumes "block_cipher block" "length iv = 16" "n < 16"
  shows "ofb_bulk block xs ((), iv, n) = run (ks_step (ofb_refresh block)) xs ((), iv, n)"
proof -
  obtain out1 xs1 n1 where l: "xor_lead n iv xs = (out1, xs1, n1)" by (metis prod_cases3)
  note lead = xor_lead_run(1) [OF assms(3,2) l, where refresh = "ofb_refresh block" and r = "()"]
    xor_lead_run(2,3) [OF assms(3,2) l]
  show ?thesis
  proof (cases "n1 = 0")
    case False
    then have "xs1 = []" using lead(3) by simp
    then show ?thesis using lead(1)
      by (simp add: ofb_bulk_def CRYPTO_ofb128_encrypt_def l ofb_blocks.simps [of block "[]"])
  next
    case True
    obtain out2 rest iv' n' where b: "ofb_blocks block xs1 iv 0 = (out2, rest, iv', n')"
      by (metis prod_cases4)
    note blocks = ofb_blocks_run [OF assms(1,2) b]
    show ?thesis
    proof (cases "rest = []")
      case True
      then show ?thesis using lead(1) blocks \<open>n1 = 0\<close> by (simp add: ofb_bulk_def CRYPTO_ofb128_encrypt_def l b)
    next
      case False
      have "run (ks_step (ofb_refresh block)) rest ((), iv', 0)
          = (map2 (XOR) rest (take (length rest) (block iv')), (), block iv', length rest mod 16)"
        using False blocks block_cipher_length [OF assms(1)]
        by (subst run_from_0 [where r' = "()" and buf' = "block iv'"]) (auto simp: ofb_refresh_def)
      moreover have "xor_tail 0 (block iv') rest = (map2 (XOR) rest (take (length rest) (block iv')), length rest)"
        using blocks block_cipher_length [OF assms(1), of iv'] by (simp add: xor_tail_0)
      ultimately show ?thesis using lead(1) blocks \<open>n1 = 0\<close> False
        by (simp add: ofb_bulk_def CRYPTO_ofb128_encrypt_def l b Let_def)
    qed
  qed
qed

interpretation ofb: invertible_stream
  "ofb_bulk block" "ks_step (ofb_refresh block)" "ks_ok (\<lambda>_. block_cipher block)"
  "ofb_bulk block" "ks_step (ofb_refresh block)" for block
proof unfold_locales
  fix s :: "unit \<times> bytes \<times> nat" and xs b c s'
  assume ok: "ks_ok (\<lambda>_. block_cipher block) s"
  then show "ofb_bulk block xs s = run (ks_step (ofb_refresh block)) xs s"
    by (auto simp: ks_ok_def ofb128_run)
  show "ks_ok (\<lambda>_. block_cipher block) (snd (ks_step (ofb_refresh block) b s))"
    by (rule ks_step_ok [OF _ ok]) (auto simp: ofb_refresh_def block_cipher_length)
  show "ks_step (ofb_refresh block) b s = (c, s') \<Longrightarrow> ks_step (ofb_refresh block) c s = (b, s')"
    by (rule ks_step_self_inverse)
qed

section \<open>Cipher feedback\<close>

definition cfb_step :: "block128_f \<Rightarrow> bool \<Rightarrow> u8 \<Rightarrow> bytes \<times> nat \<Rightarrow> u8 \<times> bytes \<times> nat" where
  "cfb_step block enc b = (\<lambda>(iv, n).
     let iv = (if n = 0 then block iv else iv); (c, iv) = cfb_byte enc n iv b in (c, iv, (n + 1) mod 16))"

definition cfb_ok :: "block128_f \<Rightarrow> bytes \<times> nat \<Rightarrow> bool" where
  "cfb_ok block = (\<lambda>(iv, n). block_cipher block \<and> length iv = 16 \<and> n < 16)"

lemma cfb_tail_eq:
  "n + length xs \<le> length iv \<Longrightarrow> cfb_tail enc n iv xs
    = (let out = map2 (XOR) (take (length xs) (drop n iv)) xs
       in (out, take n iv @ (if enc then out else xs) @ drop (n + length xs) iv, n + length xs))"
proof (induction xs arbitrary: n iv)
  case (Cons b xs)
  define c where "c = (if enc then iv ! n XOR b else b)"
  have st: "cfb_byte enc n iv b = (iv ! n XOR b, iv[n := c])" by (simp add: cfb_byte_def c_def Let_def)
  have "take (Suc n) (iv[n := c]) = take n iv @ [c]"
    using Cons.prems by (simp add: take_Suc_conv_app_nth)
  moreover have "drop n iv = iv ! n # drop (Suc n) iv" using Cons.prems by (simp add: Cons_nth_drop_Suc)
  ultimately show ?case
    using Cons.IH [of "Suc n" "iv[n := c]"] Cons.prems by (auto simp: st Let_def c_def)
qed simp

lemma cfb_within:
  "0 < n \<Longrightarrow> n < 16 \<Longrightarrow> n + length xs \<le> 16 \<Longrightarrow> run (cfb_step block enc) xs (iv, n)
    = (let (out, iv', n') = cfb_tail enc n iv xs in (out, iv', n' mod 16))"
proof (induction xs arbitrary: n iv)
  case (Cons b xs)
  show ?case
  proof (cases xs)
    case Nil
    then show ?thesis using Cons.prems by (simp add: cfb_step_def split_beta)
  next
    case (Cons a list)
    then have "Suc n < 16" using Cons.prems by simp
    with Cons.IH [of "Suc n"] Cons.prems show ?thesis
      by (simp add: cfb_step_def split_beta Let_def)
  qed
qed simp

lemma cfb_from_0:
  assumes "xs \<noteq> []" "length xs \<le> 16"
  shows "run (cfb_step block enc) xs (iv, 0)
    = (let (out, iv', n') = cfb_tail enc 0 (block iv) xs in (out, iv', n' mod 16))"
proof -
  obtain b ys where xs: "xs = b # ys" using assms(1) by (cases xs) auto
  then show ?thesis
    using cfb_within [of 1 ys block enc] assms(2) by (simp add: cfb_step_def split_beta Let_def)
qed

lemma cfb_lead_run:
  assumes "n < 16" "length iv = 16" "cfb_lead enc n iv xs = (out, rest, iv', n')"
  shows "run (cfb_step block enc) xs (iv, n)
      = (let (o', s) = run (cfb_step block enc) rest (iv', n') in (out @ o', s))
    \<and> n' < 16 \<and> (n' \<noteq> 0 \<longrightarrow> rest = []) \<and> length iv' = 16"
  using assms
proof (induction enc n iv xs arbitrary: out rule: cfb_lead.induct)
  case (2 enc n iv b ys)
  show ?case
  proof (cases "n = 0")
    case False
    obtain c iv1 where st: "cfb_byte enc n iv b = (c, iv1)" by fastforce
    then have "length iv1 = 16" using "2.prems"(2) by (auto simp: cfb_byte_def Let_def split: if_splits)
    moreover obtain o1 where o1: "cfb_lead enc ((n + 1) mod 16) iv1 ys = (o1, rest, iv', n')" "out = c # o1"
      using False "2.prems"(3) st by (auto split: prod.splits)
    moreover have "cfb_step block enc b (iv, n) = (c, iv1, (n + 1) mod 16)"
      using False by (simp add: cfb_step_def st)
    ultimately show ?thesis
      using "2.IH" [OF False st [symmetric] refl _ _ o1(1)] by (simp add: Let_def split_beta)
  qed (use "2.prems" in simp)
qed simp

lemma cfb_blocks_run:
  assumes "block_cipher block" "length iv = 16" "cfb_blocks block enc xs iv 0 = (out, rest, iv', n')"
  shows "run (cfb_step block enc) xs (iv, 0)
      = (let (o', s) = run (cfb_step block enc) rest (iv', 0) in (out @ o', s))
    \<and> n' = 0 \<and> length rest < 16 \<and> length iv' = 16"
  using assms(2,3)
proof (induction xs arbitrary: iv out rule: length_induct)
  case (1 xs)
  show ?case
  proof (cases "length xs < 16")
    case True
    with "1.prems" show ?thesis by (simp add: cfb_blocks.simps [of block enc xs] split_beta)
  next
    case False
    define o1 where "o1 = map2 (XOR) (block iv) (take 16 xs)"
    define iv1 where "iv1 = (if enc then o1 else take 16 xs)"
    define outs where "outs = fst (cfb_blocks block enc (drop 16 xs) iv1 0)"
    have l: "length (block iv) = 16" using block_cipher_length [OF assms(1) "1.prems"(1)] .
    have x: "xor_words 0 (block iv) xs = o1" using False l by (simp add: xor_words_0 o1_def)
    have rec: "cfb_blocks block enc (drop 16 xs) iv1 0 = (outs, rest, iv', n')" and out: "out = o1 @ outs"
      using False "1.prems" by (auto simp: cfb_blocks.simps [of block enc xs] x iv1_def outs_def Let_def split: prod.splits)
    have l1: "length iv1 = 16" using False l by (simp add: iv1_def o1_def)
    have "length (drop 16 xs) < length xs" using False by simp
    from "1.IH" [rule_format, OF this l1 rec]
    have IH: "run (cfb_step block enc) (drop 16 xs) (iv1, 0)
        = (let (o', s) = run (cfb_step block enc) rest (iv', 0) in (outs @ o', s))
        \<and> n' = 0 \<and> length rest < 16 \<and> length iv' = 16" .
    have first: "run (cfb_step block enc) (take 16 xs) (iv, 0) = (o1, iv1, 0)"
      using False l by (subst cfb_from_0) (auto simp: cfb_tail_eq o1_def iv1_def Let_def)
    have "run (cfb_step block enc) (take 16 xs @ drop 16 xs) (iv, 0)
        = (let (o', s) = run (cfb_step block enc) rest (iv', 0) in (out @ o', s))"
      unfolding run_append first out using IH by (simp add: split_beta Let_def)
    with IH show ?thesis by simp
  qed
qed

lemma cfb128_run:
  assumes "cfb_ok block (iv, n)"
  shows "CRYPTO_cfb128_encrypt block enc xs (iv, n) = run (cfb_step block enc) xs (iv, n)"
proof -
  have ok: "block_cipher block" "length iv = 16" "n < 16" using assms by (auto simp: cfb_ok_def)
  obtain out1 xs1 iv1 n1 where l: "cfb_lead enc n iv xs = (out1, xs1, iv1, n1)" by (metis prod_cases4)
  note lead = cfb_lead_run [OF ok(3,2) l, of block]
  show ?thesis
  proof (cases "n1 = 0")
    case False
    then have "xs1 = []" using lead by simp
    then show ?thesis using lead
      by (simp add: CRYPTO_cfb128_encrypt_def l cfb_blocks.simps [of block enc "[]"])
  next
    case True
    obtain out2 rest iv' n' where b: "cfb_blocks block enc xs1 iv1 0 = (out2, rest, iv', n')"
      by (metis prod_cases4)
    have "length iv1 = 16" using lead by simp
    note blocks = cfb_blocks_run [OF ok(1) this b]
    show ?thesis
    proof (cases "rest = []")
      case True
      then show ?thesis using lead blocks \<open>n1 = 0\<close> by (simp add: CRYPTO_cfb128_encrypt_def l b)
    next
      case False
      have "length (block iv') = 16" using blocks block_cipher_length [OF ok(1)] by simp
      with False blocks have "run (cfb_step block enc) rest (iv', 0) = cfb_tail enc 0 (block iv') rest"
        by (subst cfb_from_0) (auto simp: cfb_tail_eq Let_def)
      then show ?thesis using lead blocks \<open>n1 = 0\<close> False
        by (simp add: CRYPTO_cfb128_encrypt_def l b Let_def split_beta)
    qed
  qed
qed

interpretation cfb: invertible_stream
  "CRYPTO_cfb128_encrypt block True" "cfb_step block True" "cfb_ok block"
  "CRYPTO_cfb128_encrypt block False" "cfb_step block False" for block
proof unfold_locales
  fix s :: "bytes \<times> nat" and xs b c s'
  assume ok: "cfb_ok block s"
  then show "CRYPTO_cfb128_encrypt block True xs s = run (cfb_step block True) xs s"
    and "CRYPTO_cfb128_encrypt block False xs s = run (cfb_step block False) xs s"
    by (cases s; simp add: cfb128_run)+
  show "cfb_ok block (snd (cfb_step block True b s))"
    using ok by (auto simp: cfb_ok_def cfb_step_def cfb_byte_def Let_def block_cipher_length)
  assume "cfb_step block True b s = (c, s')"
  then show "cfb_step block False c s = (b, s')"
    by (auto simp: cfb_step_def cfb_byte_def Let_def split_beta xor.assoc [symmetric])
qed

interpretation cfb_any: byte_stream "CRYPTO_cfb128_encrypt block enc" "cfb_step block enc" "cfb_ok block" for block enc
proof unfold_locales
  fix s :: "bytes \<times> nat" and xs b
  assume ok: "cfb_ok block s"
  then show "CRYPTO_cfb128_encrypt block enc xs s = run (cfb_step block enc) xs s"
    by (cases s) (simp add: cfb128_run)
  show "cfb_ok block (snd (cfb_step block enc b s))"
    using ok by (cases enc) (auto simp: cfb_ok_def cfb_step_def cfb_byte_def Let_def block_cipher_length)
qed

section \<open>The two implementations of counter mode\<close>

text \<open>
  What a \<open>ctr128_f\<close> computes: counter mode over whole blocks with a counter of 32 bits in the last
  four bytes of the register, the rest of the register fixed.
\<close>

definition ctr32_counter :: "bytes \<Rightarrow> nat \<Rightarrow> bytes" where
  "ctr32_counter iv i = take 12 iv @ nat_be 4 (be_nat (drop 12 iv) + i)"

fun ctr32_spec :: "block128_f \<Rightarrow> bytes \<Rightarrow> nat \<Rightarrow> nat \<Rightarrow> bytes \<Rightarrow> bytes" where
  "ctr32_spec block xs i 0 iv = []"
| "ctr32_spec block xs i (Suc blocks) iv =
     map2 (XOR) (take 16 xs) (block (ctr32_counter iv i)) @ ctr32_spec block (drop 16 xs) (Suc i) blocks iv"

definition ctr32_func :: "block128_f \<Rightarrow> ctr128_f \<Rightarrow> bool" where
  "ctr32_func block func \<longleftrightarrow>
     (\<forall>xs blocks iv. length xs = 16 * blocks \<longrightarrow> length iv = 16 \<longrightarrow> func xs blocks iv = ctr32_spec block xs 0 blocks iv)"

lemma be_nat_split: "length iv = 16 \<Longrightarrow> be_nat iv = be_nat (take 12 iv) * 2 ^ 32 + be_nat (drop 12 iv)"
  using be_nat_append [of "take 12 iv" "drop 12 iv"] by simp

lemma ctr32_counter_0 [simp]: "length iv = 16 \<Longrightarrow> ctr32_counter iv 0 = iv"
  using nat_be_be_nat' [of "drop 12 iv" 4] by (simp add: ctr32_counter_def)

lemma length_ctr32_counter [simp]: "length iv = 16 \<Longrightarrow> length (ctr32_counter iv i) = 16"
  by (simp add: ctr32_counter_def)

text \<open>Short of the overflow of the low 32 bits, the two counters agree; at the overflow the carry is added.\<close>

lemma nat_be_split: "nat_be (m + n) v = nat_be m (v div 256 ^ n) @ nat_be n v"
proof (induction n arbitrary: v)
  case (Suc n)
  then show ?case using Suc.IH [of "v div 256"] by (simp add: div_mult2_eq mult.commute)
qed simp

lemma ctr128_inc_ctr32:
  assumes "length iv = 16" "be_nat (drop 12 iv) + i < 2 ^ 32"
  shows "ctr128_inc (ctr32_counter iv i)
    = (if be_nat (drop 12 iv) + i + 1 = 2 ^ 32 then ctr96_inc (take 12 iv @ nat_be 4 0)
       else ctr32_counter iv (i + 1))"
proof -
  define hi lo where "hi = be_nat (take 12 iv)" and "lo = be_nat (drop 12 iv) + i"
  have lo: "lo < 2 ^ 32" using assms(2) by (simp add: lo_def)
  have hi: "nat_be 12 hi = take 12 iv" using assms(1) by (simp add: hi_def nat_be_be_nat')
  have "be_nat (ctr32_counter iv i) = hi * 2 ^ 32 + lo"
    using lo by (simp add: ctr32_counter_def be_nat_append be_nat_nat_be hi_def lo_def)
  then have inc: "ctr128_inc (ctr32_counter iv i) = nat_be (12 + 4) (hi * 2 ^ 32 + lo + 1)"
    using assms(1) by (simp add: ctr128_inc_eq)
  show ?thesis
  proof (cases "lo + 1 = 2 ^ 32")
    case True
    have "(hi * 2 ^ 32 + lo + 1) = (hi + 1) * 2 ^ 32" using True by simp
    then have "ctr128_inc (ctr32_counter iv i) = nat_be 12 (hi + 1) @ nat_be 4 ((hi + 1) * 2 ^ 32)"
      unfolding inc nat_be_split by simp
    moreover have "nat_be 4 ((hi + 1) * 2 ^ 32) = nat_be 4 0"
      using nat_be_mod [of 4 "(hi + 1) * 2 ^ 32"] by simp
    ultimately show ?thesis using True assms(1)
      by (simp add: ctr96_inc_eq hi_def lo_def add.assoc)
  next
    case False
    then have lt: "lo + 1 < 2 ^ 32" using lo by simp
    have eq: "hi * 2 ^ 32 + lo + 1 = hi * 2 ^ 32 + (lo + 1)" by simp
    have "(hi * 2 ^ 32 + (lo + 1)) mod 256 ^ 4 = (lo + 1) mod 256 ^ 4" by simp
    then have "nat_be 4 (hi * 2 ^ 32 + (lo + 1)) = nat_be 4 (lo + 1)" by (metis nat_be_mod)
    moreover have "(hi * 2 ^ 32 + (lo + 1)) div 256 ^ 4 = hi" using lt by simp
    ultimately have "ctr128_inc (ctr32_counter iv i) = take 12 iv @ nat_be 4 (lo + 1)"
      unfolding inc eq nat_be_split by (simp only: hi)
    with False show ?thesis by (simp add: ctr32_counter_def lo_def add.assoc)
  qed
qed

text \<open>The machine over whole blocks up to the overflow.\<close>

lemma ctr_run_blocks:
  assumes "block_cipher block" "length iv = 16"
  shows "length xs = 16 * blocks \<Longrightarrow> be_nat (drop 12 iv) + i + blocks \<le> 2 ^ 32 \<Longrightarrow> 0 < blocks \<Longrightarrow>
    \<exists>ec'. length ec' = 16 \<and> run (ks_step (ctr_refresh block)) xs (ctr32_counter iv i, ec, 0)
      = (ctr32_spec block xs i blocks iv,
         if be_nat (drop 12 iv) + i + blocks = 2 ^ 32 then ctr96_inc (take 12 iv @ nat_be 4 0)
         else ctr32_counter iv (i + blocks), ec', 0)"
proof (induction blocks arbitrary: xs i ec)
  case (Suc blocks)
  let ?run = "run (ks_step (ctr_refresh block))"
  let ?k = "block (ctr32_counter iv i)"
  have k: "length ?k = 16" using assms by (simp add: block_cipher_length)
  have ne: "take 16 xs \<noteq> []" using Suc.prems(1) by auto
  have lt: "be_nat (drop 12 iv) + i < 2 ^ 32" using Suc.prems(2) by simp
  have first: "?run (take 16 xs) (ctr32_counter iv i, ec, 0)
      = (map2 (XOR) (take 16 xs) ?k, ctr128_inc (ctr32_counter iv i), ?k, 0)"
    using Suc.prems(1) k ne
    by (subst run_from_0 [where r' = "ctr128_inc (ctr32_counter iv i)" and buf' = ?k]) (auto simp: ctr_refresh_def)
  have split: "?run xs (ctr32_counter iv i, ec, 0)
      = (let (o', s) = ?run (drop 16 xs) (ctr128_inc (ctr32_counter iv i), ?k, 0) in (map2 (XOR) (take 16 xs) ?k @ o', s))"
    using run_append [of "ks_step (ctr_refresh block)" "take 16 xs" "drop 16 xs" "(ctr32_counter iv i, ec, 0)"] first by simp
  show ?case
  proof (cases "blocks = 0")
    case True
    then have "drop 16 xs = []" using Suc.prems(1) by simp
    with True k show ?thesis
      unfolding split by (simp add: ctr128_inc_ctr32 [OF assms(2) lt])
  next
    case False
    have "be_nat (drop 12 iv) + i + 1 \<noteq> 2 ^ 32" using Suc.prems(2) False by simp
    then have "ctr128_inc (ctr32_counter iv i) = ctr32_counter iv (Suc i)"
      by (simp add: ctr128_inc_ctr32 [OF assms(2) lt])
    moreover obtain ec' where "length ec' = 16" "?run (drop 16 xs) (ctr32_counter iv (Suc i), ?k, 0)
      = (ctr32_spec block (drop 16 xs) (Suc i) blocks iv,
         if be_nat (drop 12 iv) + Suc i + blocks = 2 ^ 32 then ctr96_inc (take 12 iv @ nat_be 4 0)
         else ctr32_counter iv (Suc i + blocks), ec', 0)"
      using Suc.IH [of "drop 16 xs" "Suc i" ?k] Suc.prems False by auto
    ultimately show ?thesis unfolding split by (intro exI [of _ ec']) simp
  qed
qed simp

lemma ctr32_step_exact:
  assumes "ctr32_step len c = (k, c')" "16 \<le> len"
  shows "0 < k" "16 * k \<le> len" "unat c + k \<le> 2 ^ 32" "c' = 0 \<longleftrightarrow> unat c + k = 2 ^ 32"
    and "unat c + k < 2 ^ 32 \<Longrightarrow> unat c' = unat c + k"
proof -
  define b :: nat where "b = (if len div 16 > 2 ^ 28 then 2 ^ 28 else len div 16)"
  have b: "0 < b" "b \<le> 2 ^ 28" "16 * b \<le> len"
    using assms(2) by (auto simp: b_def div_greater_zero_iff)
  have step: "ctr32_step len c = (if unat (c + of_nat b) < b then (b - unat (c + of_nat b), 0) else (b, c + of_nat b))"
    by (simp add: ctr32_step_def b_def Let_def)
  have ub: "unat (of_nat b :: u32) = b" using b by (simp add: unat_of_nat)
  have "0 < k \<and> 16 * k \<le> len \<and> unat c + k \<le> 2 ^ 32 \<and> (c' = 0 \<longleftrightarrow> unat c + k = 2 ^ 32)
    \<and> (unat c + k < 2 ^ 32 \<longrightarrow> unat c' = unat c + k)"
  proof (cases "unat c + b < 2 ^ 32")
    case True
    then have u: "unat (c + of_nat b) = unat c + b" by (simp add: unat_word_ariths ub)
    then have "k = b" "c' = c + of_nat b" using assms(1) step by auto
    moreover have "c + of_nat b \<noteq> 0" using u b(1) by (metis add_is_0 not_gr_zero unat_0)
    ultimately show ?thesis using u b True by simp
  next
    case False
    then have u: "unat (c + of_nat b) = unat c + b - 2 ^ 32"
      using unat_u32_bound [of c] b by (simp add: unat_word_ariths ub le_mod_geq)
    then have "unat (c + of_nat b) < b" using unat_u32_bound [of c] b False by simp
    then have "(k, c') = (b - (unat c + b - 2 ^ 32), 0)" using assms(1) step u by simp
    moreover have "b - (unat c + b - 2 ^ 32) = 2 ^ 32 - unat c" using False unat_u32_bound [of c] by simp
    ultimately show ?thesis using unat_u32_bound [of c] False b by simp
  qed
  then show "0 < k" "16 * k \<le> len" "unat c + k \<le> 2 ^ 32" "c' = 0 \<longleftrightarrow> unat c + k = 2 ^ 32"
    and "unat c + k < 2 ^ 32 \<Longrightarrow> unat c' = unat c + k" by auto
qed

lemma ctr32_blocks_run:
  assumes "block_cipher block" "ctr32_func block func"
  shows "length iv = 16 \<Longrightarrow> unat c = be_nat (drop 12 iv) \<Longrightarrow> ctr32_blocks func xs iv c = (out, rest, iv', c')
    \<Longrightarrow> \<exists>ec'. run (ks_step (ctr_refresh block)) xs (iv, ec, 0)
      = (let (o', s) = run (ks_step (ctr_refresh block)) rest (iv', ec', 0) in (out @ o', s))
    \<and> length rest < 16 \<and> length iv' = 16 \<and> unat c' = be_nat (drop 12 iv')"
proof (induction xs arbitrary: iv c ec out rule: length_induct)
  case (1 xs)
  let ?run = "run (ks_step (ctr_refresh block))"
  show ?case
  proof (cases "length xs < 16")
    case True
    with "1.prems" have "xs = rest \<and> iv' = iv \<and> c' = c \<and> out = []" by (simp add: ctr32_blocks.simps [of func xs])
    with True "1.prems" show ?thesis by (auto simp: split_beta)
  next
    case False
    obtain k c1 where st: "ctr32_step (length xs) c = (k, c1)" by fastforce
    note k = ctr32_step_exact [OF st]
    define iv1 where "iv1 = (if c1 = 0 then ctr96_inc (PUTU32 12 c1 iv) else PUTU32 12 c1 iv)"
    define outs where "outs = fst (ctr32_blocks func (drop (16 * k) xs) iv1 c1)"
    have f: "func (take (16 * k) xs) k iv = ctr32_spec block (take (16 * k) xs) 0 k iv"
      using assms(2) "1.prems"(1) k(2) False by (simp add: ctr32_func_def)
    have rec: "ctr32_blocks func (drop (16 * k) xs) iv1 c1 = (outs, rest, iv', c')"
      and out: "out = ctr32_spec block (take (16 * k) xs) 0 k iv @ outs"
      using False "1.prems"(3) st f
      by (auto simp: ctr32_blocks.simps [of func xs] iv1_def outs_def Let_def split: prod.splits)
    have iv1: "iv1 = (if be_nat (drop 12 iv) + 0 + k = 2 ^ 32 then ctr96_inc (take 12 iv @ nat_be 4 0)
        else ctr32_counter iv (0 + k))"
      using k(3,4,5) False "1.prems"(1,2) by (auto simp: iv1_def PUTU32_eq ctr32_counter_def)
    have l1: "length iv1 = 16" using "1.prems"(1) by (simp add: iv1 ctr96_inc_eq)
    have c1: "unat c1 = be_nat (drop 12 iv1)"
      using k(3,4,5) False "1.prems"(1,2)
      by (auto simp: iv1 ctr96_inc_eq ctr32_counter_def be_nat_nat_be)
    obtain ec1 where first: "?run (take (16 * k) xs) (iv, ec, 0) = (ctr32_spec block (take (16 * k) xs) 0 k iv, iv1, ec1, 0)"
      using ctr_run_blocks [OF assms(1) "1.prems"(1), of "take (16 * k) xs" k 0 ec] k(1,2,3) False "1.prems"(1,2)
      by (auto simp: iv1)
    have "length (drop (16 * k) xs) < length xs" using False k(1) by simp
    from "1.IH" [rule_format, OF this l1 c1 rec, of ec1] obtain ec' where
      IH: "?run (drop (16 * k) xs) (iv1, ec1, 0) = (let (o', s) = ?run rest (iv', ec', 0) in (outs @ o', s))"
      "length rest < 16" "length iv' = 16" "unat c' = be_nat (drop 12 iv')" by blast
    have "?run (take (16 * k) xs @ drop (16 * k) xs) (iv, ec, 0) = (let (o', s) = ?run rest (iv', ec', 0) in (out @ o', s))"
      unfolding run_append first out using IH(1) by (simp add: split_beta Let_def)
    with IH show ?thesis by auto
  qed
qed

text \<open>(C32) Counter mode over a function that only counts in 32 bits (any that does what \<open>ctr128_f\<close>
  promises) gives the same output, the same counter and the same position as counter mode over the
  block cipher, for every register and every input: the code cuts the blocks exactly at the overflow of
  the low 32 bits and carries into the upper 96. The key stream block agrees whenever part of it is
  still to be used.\<close>

theorem ctr32_agrees_with_ctr128:
  assumes "block_cipher block" "ctr32_func block func" "length iv = 16" "length ec = 16" "n < 16"
    and "CRYPTO_ctr128_encrypt block xs (iv, ec, n) = (out, iv', ec', n')"
    and "CRYPTO_ctr128_encrypt_ctr32 func xs (iv, ec, n) = (out32, iv32, ec32, n32)"
  shows "out32 = out \<and> iv32 = iv' \<and> n32 = n' \<and> (n' \<noteq> 0 \<longrightarrow> ec32 = ec')"
proof -
  let ?run = "run (ks_step (ctr_refresh block))"
  have ref: "?run xs (iv, ec, n) = (out, iv', ec', n')" using ctr128_run [OF assms(1,3,4,5)] assms(6) by simp
  obtain out1 xs1 n1 where l: "xor_lead n ec xs = (out1, xs1, n1)" by (metis prod_cases3)
  note lead = xor_lead_run(1) [OF assms(5,4) l, where refresh = "ctr_refresh block" and r = iv]
    xor_lead_run(2,3) [OF assms(5,4) l]
  show ?thesis
  proof (cases "n1 = 0")
    case False
    then have "xs1 = []" using lead(3) by simp
    then show ?thesis using lead(1) ref assms(7)
      by (simp add: CRYPTO_ctr128_encrypt_ctr32_def l ctr32_blocks.simps [of func "[]"])
  next
    case True
    obtain out2 rest ivb cb where b: "ctr32_blocks func xs1 iv (GETU32 12 iv) = (out2, rest, ivb, cb)"
      by (metis prod_cases4)
    have g: "unat (GETU32 12 iv) = be_nat (drop 12 iv)"
      using assms(3) be_nat_bound [of "drop 12 iv"] by (simp add: GETU32_eq unat_of_nat)
    obtain ecb where blocks: "?run xs1 (iv, ec, 0) = (let (o', s) = ?run rest (ivb, ecb, 0) in (out2 @ o', s))"
      "length rest < 16" "length ivb = 16" "unat cb = be_nat (drop 12 ivb)"
      using ctr32_blocks_run [OF assms(1,2,3) g b] by blast
    show ?thesis
    proof (cases "rest = []")
      case True
      then show ?thesis using lead(1) ref blocks(1) \<open>n1 = 0\<close> assms(7)
        by (simp add: CRYPTO_ctr128_encrypt_ctr32_def l b)
    next
      case False
      let ?k = "block ivb"
      have k: "length ?k = 16" using block_cipher_length [OF assms(1) blocks(3)] .
      have fk: "func (replicate 16 0) 1 ivb = ?k"
      proof -
        have "func (replicate 16 0) 1 ivb = map2 (XOR) (replicate 16 0) ?k"
          using assms(2) blocks(3) by (simp add: ctr32_func_def)
        also have "\<dots> = ?k" using k by (intro nth_equalityI) simp_all
        finally show ?thesis .
      qed
      have run_rest: "?run rest (ivb, ecb, 0)
          = (map2 (XOR) rest (take (length rest) ?k), ctr128_inc ivb, ?k, length rest mod 16)"
        using False blocks(2) k
        by (subst run_from_0 [where r' = "ctr128_inc ivb" and buf' = ?k]) (auto simp: ctr_refresh_def)
      have lt: "be_nat (drop 12 ivb) + 0 < 2 ^ 32" using blocks(3) be_nat_bound [of "drop 12 ivb"] by simp
      have carry: "cb + 1 = 0 \<longleftrightarrow> be_nat (drop 12 ivb) + 0 + 1 = 2 ^ 32"
        and small: "be_nat (drop 12 ivb) + 1 < 2 ^ 32 \<Longrightarrow> unat (cb + 1) = be_nat (drop 12 ivb) + 1"
      proof -
        have u: "unat (cb + 1) = (unat cb + 1) mod 2 ^ 32" by (simp add: unat_word_ariths)
        then show "be_nat (drop 12 ivb) + 1 < 2 ^ 32 \<Longrightarrow> unat (cb + 1) = be_nat (drop 12 ivb) + 1"
          using blocks(4) by simp
        have "cb + 1 = 0 \<longleftrightarrow> (unat cb + 1) mod 2 ^ 32 = 0" unfolding u [symmetric] by (rule unat_eq_0 [symmetric])
        also have "\<dots> \<longleftrightarrow> unat cb + 1 = 2 ^ 32"
          using unat_u32_bound [of cb] by (cases "unat cb + 1 = 2 ^ 32") simp_all
        finally show "cb + 1 = 0 \<longleftrightarrow> be_nat (drop 12 ivb) + 0 + 1 = 2 ^ 32" using blocks(4) by simp
      qed
      have inc: "(if cb + 1 = 0 then ctr96_inc (PUTU32 12 (cb + 1) ivb) else PUTU32 12 (cb + 1) ivb) = ctr128_inc ivb"
        using ctr128_inc_ctr32 [OF blocks(3) lt, unfolded ctr32_counter_0 [OF blocks(3)]] carry small blocks(3) lt
        by (auto simp: PUTU32_eq ctr32_counter_def)
      have "xor_tail 0 ?k rest = (map2 (XOR) rest (take (length rest) ?k), length rest)"
        using blocks(2) k by (simp add: xor_tail_0)
      then show ?thesis using lead(1) ref blocks(1,2) run_rest \<open>n1 = 0\<close> False assms(7) inc fk
        by (auto simp: CRYPTO_ctr128_encrypt_ctr32_def l b Let_def)
    qed
  qed
qed

lemma rev_block_cipher: "block_cipher rev"
  by (simp add: block_cipher_def)

lemma ctr32_agrees_with_ctr128_witness:
  "(let (out, iv, ec, n) = CRYPTO_ctr128_encrypt rev (replicate 40 1) (replicate 16 0xff, replicate 16 0, 0);
        (out32, iv32, ec32, n32) = CRYPTO_ctr128_encrypt_ctr32 (\<lambda>xs b iv. ctr32_spec rev xs 0 b iv) (replicate 40 1)
          (replicate 16 0xff, replicate 16 0, 0)
    in out32 = out \<and> iv32 = iv \<and> n32 = n)"
proof -
  have func: "ctr32_func rev (\<lambda>xs b iv. ctr32_spec rev xs 0 b iv)" by (simp add: ctr32_func_def)
  show ?thesis
    using ctr32_agrees_with_ctr128 [OF rev_block_cipher func, of "replicate 16 0xff" "replicate 16 0" 0 "replicate 40 1"]
    by (simp add: split_beta Let_def) (metis prod.collapse)
qed

section \<open>The 8-bit and 1-bit forms of cipher feedback\<close>

lemma cfbr_8:
  assumes "length iv = 16"
  shows "cfbr_encrypt_block block enc 8 [b] iv
    = (let c = b XOR block iv ! 0 in ([c], drop 1 iv @ [if enc then c else b]))"
  using assms by (simp add: cfbr_encrypt_block_def Let_def drop_append take_append)

definition cfb8_step :: "block128_f \<Rightarrow> bool \<Rightarrow> u8 \<Rightarrow> bytes \<Rightarrow> u8 \<times> bytes" where
  "cfb8_step block enc b iv = (let c = b XOR block iv ! 0 in (c, drop 1 iv @ [if enc then c else b]))"

lemma cfb8_run:
  "length iv = 16 \<Longrightarrow> CRYPTO_cfb128_8_encrypt block enc xs iv = run (cfb8_step block enc) xs iv"
  unfolding CRYPTO_cfb128_8_encrypt_def
  by (induction xs arbitrary: iv) (simp_all add: cfbr_8 cfb8_step_def Let_def split_beta)

interpretation cfb8: invertible_stream
  "CRYPTO_cfb128_8_encrypt block True" "cfb8_step block True" "\<lambda>iv. length iv = 16"
  "CRYPTO_cfb128_8_encrypt block False" "cfb8_step block False" for block
  by unfold_locales (auto simp: cfb8_run cfb8_step_def Let_def xor.assoc)

interpretation cfb8_any: byte_stream "CRYPTO_cfb128_8_encrypt block enc" "cfb8_step block enc" "\<lambda>iv. length iv = 16"
  for block enc
  by unfold_locales (auto simp: cfb8_run cfb8_step_def Let_def)

text \<open>The 1-bit form as a machine on bits. The register moves left by one bit.\<close>

definition shift_in :: "bool \<Rightarrow> bytes \<Rightarrow> bytes" where
  "shift_in b iv = map (\<lambda>n. push_bit 1 (iv ! n) OR (if n < 15 then drop_bit 7 (iv ! (n + 1)) else of_bool b)) [0..<16]"

fun cfb1_bits :: "block128_f \<Rightarrow> bool \<Rightarrow> bool list \<Rightarrow> bytes \<Rightarrow> bool list \<times> bytes" where
  "cfb1_bits block enc [] iv = ([], iv)"
| "cfb1_bits block enc (b # bs) iv =
     (let c = (b \<noteq> bit (block iv ! 0) 7);
          (cs, iv) = cfb1_bits block enc bs (shift_in (if enc then c else b) iv) in (c # cs, iv))"

definition bit_at :: "bytes \<Rightarrow> nat \<Rightarrow> bool" where
  "bit_at xs n = bit (xs ! (n div 8)) (7 - n mod 8)"

lemma drop_bit_7_u8: "drop_bit 7 (x :: u8) = of_bool (bit x 7)"
proof (rule bit_word_eqI)
  fix n assume "n < LENGTH(8)"
  then show "bit (drop_bit 7 x) n = bit (of_bool (bit x 7) :: u8) n"
    by (cases n) (auto simp: bit_simps bit_1_iff bit_u8_False)
qed

lemma cfbr_1:
  assumes "length iv = 16"
  shows "cfbr_encrypt_block block enc 1 [c] iv
    = (let d = c XOR block iv ! 0 in ([d], shift_in (bit (if enc then d else c) 7) iv))"
proof -
  have low: "(iv @ x # xs) ! n = iv ! n" if "n < 16" for n x xs
    using assms that by (simp add: nth_append)
  have up: "(iv @ x # xs) ! Suc n = (if n < 15 then iv ! Suc n else x)" if "n < 16" for n x xs
    using assms that less_antisym by (fastforce simp: nth_append)
  show ?thesis
    by (auto simp: cfbr_encrypt_block_def Let_def shift_in_def drop_bit_7_u8 low up intro!: nth_equalityI
        simp del: push_bit_of_1)
qed

lemma and_single_bit: "x AND push_bit k 1 \<noteq> 0 \<longleftrightarrow> bit x k" for x :: u8
proof
  assume "x AND push_bit k 1 \<noteq> 0"
  then obtain m where "bit (x AND push_bit k 1) m" by (auto simp: bit_eq_iff)
  then show "bit x k" by (auto simp: bit_simps bit_1_iff)
next
  assume *: "bit x k"
  then have "k < 8" by (auto dest: bit_imp_le_length)
  with * have "bit (x AND push_bit k 1) k" by (simp add: bit_simps bit_1_iff)
  then show "x AND push_bit k 1 \<noteq> 0" by (metis bit_0_eq bot_apply bot_bool_def)
qed

lemma bit_write:
  assumes "r < 8" "q < 8"
  shows "bit ((x AND NOT (push_bit (7 - r) 1)) OR drop_bit r (d AND 0x80) :: u8) (7 - q) = (if q = r then bit d 7 else bit x (7 - q))"
proof -
  have "(0x80 :: u8) = push_bit 7 1" by simp
  then have h: "bit (0x80 :: u8) k \<longleftrightarrow> k = 7" for k
    by (simp only: bit_push_bit_iff) (auto simp: bit_1_iff)
  have k: "7 - q = 7 - r \<longleftrightarrow> q = r" "r + (7 - q) = 7 \<longleftrightarrow> q = r" "7 - q < 8" using assms by auto
  have one: "bit (push_bit (7 - r) 1 :: u8) (7 - q) \<longleftrightarrow> q = r"
    unfolding bit_push_bit_iff using assms by (auto simp: bit_1_iff)
  show ?thesis
    unfolding bit_or_iff bit_and_iff bit_not_iff bit_drop_bit_eq comp_apply h one k using assms by auto
qed

lemma bit_at_write:
  assumes "n div 8 < length out"
  shows "bit_at (out[n div 8 := (out ! (n div 8) AND NOT (push_bit (7 - n mod 8) 1)) OR drop_bit (n mod 8) (d AND 0x80)]) m
    = (if m = n then bit d 7 else bit_at out m)"
proof (cases "m div 8 = n div 8")
  case False
  then show ?thesis by (auto simp: bit_at_def)
next
  case True
  then have eq: "m mod 8 = n mod 8 \<longleftrightarrow> m = n" by (metis div_mult_mod_eq)
  show ?thesis using True assms bit_write [of "n mod 8" "m mod 8"] unfolding bit_at_def by (simp add: eq)
qed

lemma length_shift_in [simp]: "length (shift_in b iv) = 16"
  by (simp add: shift_in_def)

lemma length_cfb1_bits [simp]: "length (fst (cfb1_bits block enc bs iv)) = length bs"
  by (induction bs arbitrary: iv) (simp_all add: Let_def split_beta)

lemma cfb1_loop_eq:
  "n + k \<le> 8 * length out \<Longrightarrow> length iv = 16 \<Longrightarrow> cfb1_loop block enc xs [n..<n + k] out iv = (out', iv')
    \<Longrightarrow> length out' = length out
      \<and> map (bit_at out') [n..<n + k] = fst (cfb1_bits block enc (map (bit_at xs) [n..<n + k]) iv)
      \<and> iv' = snd (cfb1_bits block enc (map (bit_at xs) [n..<n + k]) iv)
      \<and> (\<forall>m. m < n \<or> n + k \<le> m \<longrightarrow> bit_at out' m = bit_at out m)"
proof (induction k arbitrary: n out iv)
  case (Suc k)
  let ?b = "bit_at xs n"
  define c :: u8 where "c = (if xs ! (n div 8) AND push_bit (7 - n mod 8) 1 \<noteq> 0 then 0x80 else 0)"
  define d where "d = c XOR block iv ! 0"
  define iv1 where "iv1 = shift_in (bit (if enc then d else c) 7) iv"
  define out1 where "out1 = out[n div 8 := (out ! (n div 8) AND NOT (push_bit (7 - n mod 8) 1)) OR drop_bit (n mod 8) (d AND 0x80)]"
  have "bit (0x80 :: u8) 7" using bit_push_bit_iff [of 7 "1 :: u8" 7] by simp
  then have c: "bit c 7 = ?b" unfolding c_def and_single_bit bit_at_def by simp
  have d: "bit d 7 = (?b \<noteq> bit (block iv ! 0) 7)" by (simp add: d_def bit_xor_iff c)
  have "cfb1_loop block enc xs (n # [Suc n..<Suc n + k]) out iv = cfb1_loop block enc xs [Suc n..<Suc n + k] out1 iv1"
    by (simp only: cfb1_loop.simps Let_def c_def [symmetric] cfbr_1 [OF Suc.prems(2)] prod.case nth_Cons_0
        out1_def iv1_def d_def)
  moreover have upt: "[n..<n + Suc k] = n # [Suc n..<Suc n + k]" by (simp add: upt_conv_Cons)
  ultimately have run: "cfb1_loop block enc xs [Suc n..<Suc n + k] out1 iv1 = (out', iv')" using Suc.prems(3) by simp
  have out1: "length out1 = length out" "bit_at out1 m = (if m = n then bit d 7 else bit_at out m)" for m
    using bit_at_write [of n out d m] Suc.prems(1) by (simp_all add: out1_def)
  have "Suc n + k \<le> 8 * length out1" "length iv1 = 16" using Suc.prems(1) by (simp_all add: out1 iv1_def)
  note IH = Suc.IH [OF this run]
  have iv1: "iv1 = shift_in (if enc then ?b \<noteq> bit (block iv ! 0) 7 else ?b) iv" by (simp add: iv1_def c d)
  have "bit_at out' n = bit d 7" using IH out1(2) [of n] by simp
  then show ?case using IH out1 unfolding upt iv1
    by (simp add: Let_def split_beta d del: upt_Suc)
qed simp

lemma cfb1_bits_inverse:
  "cfb1_bits block False (fst (cfb1_bits block True bs iv)) iv = (bs, snd (cfb1_bits block True bs iv))"
proof (induction bs arbitrary: iv)
  case (Cons b bs)
  then show ?case by (simp add: Let_def split_beta) blast
qed simp

lemma cfb1_inverse:
  assumes "bits \<le> 8 * length out" "bits \<le> 8 * length out2" "length iv = 16"
    and "CRYPTO_cfb128_1_encrypt block True xs bits out iv = (ys, iv1)"
    and "CRYPTO_cfb128_1_encrypt block False ys bits out2 iv = (zs, iv2)"
  shows "map (bit_at zs) [0..<bits] = map (bit_at xs) [0..<bits]" "iv2 = iv1" "length zs = length out2"
  using cfb1_loop_eq [of 0 bits out iv block True xs ys iv1] cfb1_loop_eq [of 0 bits out2 iv block False ys zs iv2]
    cfb1_bits_inverse [of block "map (bit_at xs) [0..<bits]" iv] assms
  by (simp_all add: CRYPTO_cfb128_1_encrypt_def)

section \<open>Calls on a message in pieces\<close>

definition calls :: "(bytes \<Rightarrow> 's \<Rightarrow> bytes \<times> 's) \<Rightarrow> bytes list \<Rightarrow> 's \<Rightarrow> bytes \<times> 's" where
  "calls bulk chunks s = fold (\<lambda>c (out, s). let (o', s) = bulk c s in (out @ o', s)) chunks ([], s)"

context byte_stream begin

lemma calls_cut: "ok s \<Longrightarrow> calls bulk chunks s = bulk (concat chunks) s"
  using cuts [of s chunks "[]"] by (simp add: calls_def split_beta)

end

text \<open>(C33) For any block cipher, any register and any position in the key stream block: calling counter mode,
  output feedback, cipher feedback or its 8-bit form on the pieces of a message, one after the other
  with the state carried over, gives the output and the final state of one call on the whole message,
  and decrypting what was encrypted from the same state gives the message back with the same final
  state. For the 1-bit form, decryption restores the bits encrypted.\<close>

theorem modes_cut_and_invert:
  assumes "block_cipher block" "length iv = 16" "length ec = 16" "n < 16"
  shows "calls (CRYPTO_ctr128_encrypt block) chunks (iv, ec, n) = CRYPTO_ctr128_encrypt block (concat chunks) (iv, ec, n)
    \<and> CRYPTO_ctr128_encrypt block (fst (CRYPTO_ctr128_encrypt block xs (iv, ec, n))) (iv, ec, n)
       = (xs, snd (CRYPTO_ctr128_encrypt block xs (iv, ec, n)))
    \<and> calls (CRYPTO_ofb128_encrypt block) chunks (iv, n) = CRYPTO_ofb128_encrypt block (concat chunks) (iv, n)
    \<and> CRYPTO_ofb128_encrypt block (fst (CRYPTO_ofb128_encrypt block xs (iv, n))) (iv, n)
       = (xs, snd (CRYPTO_ofb128_encrypt block xs (iv, n)))
    \<and> calls (CRYPTO_cfb128_encrypt block enc) chunks (iv, n) = CRYPTO_cfb128_encrypt block enc (concat chunks) (iv, n)
    \<and> CRYPTO_cfb128_encrypt block False (fst (CRYPTO_cfb128_encrypt block True xs (iv, n))) (iv, n)
       = (xs, snd (CRYPTO_cfb128_encrypt block True xs (iv, n)))
    \<and> calls (CRYPTO_cfb128_8_encrypt block enc) chunks iv = CRYPTO_cfb128_8_encrypt block enc (concat chunks) iv
    \<and> CRYPTO_cfb128_8_encrypt block False (fst (CRYPTO_cfb128_8_encrypt block True xs iv)) iv
       = (xs, snd (CRYPTO_cfb128_8_encrypt block True xs iv))
    \<and> (bits \<le> 8 * length out \<longrightarrow>
        map (bit_at (fst (CRYPTO_cfb128_1_encrypt block False (fst (CRYPTO_cfb128_1_encrypt block True xs bits out iv)) bits out iv))) [0..<bits]
        = map (bit_at xs) [0..<bits])"
proof -
  have okc: "ks_ok (\<lambda>iv. block_cipher block \<and> length iv = 16) (iv, ec, n)" using assms by (simp add: ks_ok_def)
  have oko: "ks_ok (\<lambda>_. block_cipher block) ((), iv, n)" using assms by (simp add: ks_ok_def)
  have okf: "cfb_ok block (iv, n)" using assms by (simp add: cfb_ok_def)
  have ofb_eq: "CRYPTO_ofb128_encrypt block xs s = (fst (ofb_bulk block xs (u, s)), snd (snd (ofb_bulk block xs (u, s))))" for xs s u
    by (simp add: ofb_bulk_def split_beta)
  have ofb_calls: "calls (CRYPTO_ofb128_encrypt block) chunks s
      = (fst (calls (ofb_bulk block) chunks ((), s)), snd (snd (calls (ofb_bulk block) chunks ((), s))))" for s
  proof -
    have "fold (\<lambda>c (out, s). let (o', s) = CRYPTO_ofb128_encrypt block c s in (out @ o', s)) chunks (out, s)
      = (let (o', u, s) = fold (\<lambda>c (out, s). let (o', s) = ofb_bulk block c s in (out @ o', s)) chunks (out, (), s) in (o', s))" for out
      by (induction chunks arbitrary: out s) (simp_all add: ofb_bulk_def split_beta Let_def)
    then show ?thesis by (simp add: calls_def split_beta)
  qed
  show ?thesis
    using ctr.calls_cut [OF okc, of chunks] ctr.bulk_inverse [OF okc, of xs] cfb_any.calls_cut [OF okf, of enc chunks]
      cfb.bulk_inverse [OF okf, of xs] cfb8_any.calls_cut [OF assms(2), of block enc chunks]
      cfb8.bulk_inverse [OF assms(2), of block xs] ofb.calls_cut [OF oko, of chunks] ofb.bulk_inverse [OF oko, of xs]
      cfb1_inverse(1) [OF _ _ assms(2) prod.collapse [symmetric] prod.collapse [symmetric], of bits out out block xs]
    by (simp add: ofb_calls ofb_eq [where u = "()"] prod_eq_iff)
qed

lemma modes_cut_and_invert_witness:
  "calls (CRYPTO_ctr128_encrypt rev) [replicate 3 1, replicate 30 2] (replicate 16 7, replicate 16 0, 5)
    = CRYPTO_ctr128_encrypt rev (replicate 3 1 @ replicate 30 2) (replicate 16 7, replicate 16 0, 5)
  \<and> map (bit_at (fst (CRYPTO_cfb128_1_encrypt rev False (fst (CRYPTO_cfb128_1_encrypt rev True [0xa5, 0xc3] 11 [0, 0] (replicate 16 7)))
      11 [0, 0] (replicate 16 7)))) [0..<11] = map (bit_at [0xa5, 0xc3]) [0..<11]"
  using modes_cut_and_invert [OF rev_block_cipher, of "replicate 16 7" "replicate 16 0" 5
      "[replicate 3 1, replicate 30 2]" "[0xa5, 0xc3]" True 11 "[0, 0]"]
  by simp

end
