(* ===== verification/Memory.thy ===== *)
theory Memory
  imports Prelude
begin

text \<open>
  An explicit memory of bytes, for the code whose pointers may overlap or be computed: pointers are
  addresses, an object is its representation in consecutive bytes, and the lemmas say what a load
  sees after a store.
\<close>

section \<open>Memory\<close>

type_synonym mem = "nat \<Rightarrow> u8"

definition load_mem :: "mem \<Rightarrow> nat \<Rightarrow> nat \<Rightarrow> bytes" where
  "load_mem m p n = map m [p..<p + n]"

definition store_mem :: "nat \<Rightarrow> bytes \<Rightarrow> mem \<Rightarrow> mem" where
  "store_mem p bs m = (\<lambda>a. if p \<le> a \<and> a < p + length bs then bs ! (a - p) else m a)"

section \<open>Loading and storing\<close>

definition apart :: "nat \<Rightarrow> nat \<Rightarrow> nat \<Rightarrow> nat \<Rightarrow> bool" where
  "apart p n q k \<longleftrightarrow> p + n \<le> q \<or> q + k \<le> p \<or> n = 0 \<or> k = 0"

named_theorems mem_simps \<open>loads after stores\<close>

lemma length_load_mem [simp]: "length (load_mem m p n) = n"
  by (simp add: load_mem_def)

lemma load_mem_0 [simp]: "load_mem m p 0 = []"
  by (simp add: load_mem_def)

lemma load_mem_add: "load_mem m p (a + b) = load_mem m p a @ load_mem m (p + a) b"
  using upt_add_eq_append [of p "p + a" b] by (simp add: load_mem_def add.assoc)

lemma nth_load_mem [simp]: "i < n \<Longrightarrow> load_mem m p n ! i = m (p + i)"
  by (simp add: load_mem_def)

lemma take_load_mem: "a \<le> n \<Longrightarrow> take a (load_mem m p n) = load_mem m p a"
  by (rule nth_equalityI) simp_all

lemma drop_load_mem: "drop a (load_mem m p n) = load_mem m (p + a) (n - a)"
  by (rule nth_equalityI) (simp_all add: add.assoc)

lemma load_mem_cong: "(\<And>a. p \<le> a \<Longrightarrow> a < p + n \<Longrightarrow> m a = m' a) \<Longrightarrow> load_mem m p n = load_mem m' p n"
  by (simp add: load_mem_def)

lemma load_store_apart [mem_simps]: "apart p n q (length bs) \<Longrightarrow> load_mem (store_mem q bs m) p n = load_mem m p n"
  by (rule load_mem_cong) (auto simp: store_mem_def apart_def)

lemma load_store_same [mem_simps]: "length bs = n \<Longrightarrow> load_mem (store_mem p bs m) p n = bs"
  by (rule nth_equalityI) (simp_all add: store_mem_def)

lemma store_outside: "a < p \<or> p + length bs \<le> a \<Longrightarrow> store_mem p bs m a = m a"
  by (auto simp: store_mem_def)

lemma store_append: "length xs = n \<Longrightarrow> store_mem (p + n) ys (store_mem p xs m) = store_mem p (xs @ ys) m"
  by (rule ext) (auto simp: store_mem_def nth_append)

lemma store_store [mem_simps]: "length xs = length ys \<Longrightarrow> store_mem p xs (store_mem p ys m) = store_mem p xs m"
  by (rule ext) (simp add: store_mem_def)

lemma store_commute:
  "apart p (length xs) q (length ys) \<Longrightarrow> store_mem p xs (store_mem q ys m) = store_mem q ys (store_mem p xs m)"
  by (rule ext) (auto simp: store_mem_def apart_def)

lemma store_mem_Nil [simp]: "store_mem p [] m = m"
  by (rule ext) (auto simp: store_mem_def)

end
