(* ===== verification/Cbc.thy ===== *)
theory Cbc
  imports Modes Memory
begin

unbundle bit_operations_syntax

text \<open>
  Cipher block chaining (modes/cbc.c) on an explicit memory, because the code allows input and
  output to overlap and chooses between two ways to decrypt by where they lie. Pointers are
  addresses of one memory of bytes; the block cipher reads its 16 bytes before it writes. The
  result of a call is the memory it leaves.
\<close>

section \<open>Blocks\<close>

definition call_block :: "block128_f \<Rightarrow> nat \<Rightarrow> nat \<Rightarrow> mem \<Rightarrow> mem" where
  "call_block block inp out m = store_mem out (block (load_mem m inp 16)) m"

section \<open>Encryption\<close>

text \<open>The word loop \<open>for (n = 0; n < 16; n += sizeof(size_t))\<close>.\<close>

definition xor_word_at :: "nat \<Rightarrow> nat \<Rightarrow> nat \<Rightarrow> nat \<Rightarrow> mem \<Rightarrow> mem" where
  "xor_word_at inp iv out n m =
     store_mem (out + n) (store_word_le (load_word_le 0 (load_mem m (inp + n) 8) XOR load_word_le 0 (load_mem m (iv + n) 8))) m"

definition xor_block_at :: "nat \<Rightarrow> nat \<Rightarrow> nat \<Rightarrow> mem \<Rightarrow> mem" where
  "xor_block_at inp iv out m = fold (xor_word_at inp iv out) [0, 8] m"

function cbc_enc_blocks :: "block128_f \<Rightarrow> nat \<Rightarrow> nat \<Rightarrow> nat \<Rightarrow> nat \<Rightarrow> mem \<Rightarrow> mem \<times> nat \<times> nat \<times> nat \<times> nat" where
  "cbc_enc_blocks block inp out iv len m =
     (if len \<ge> 16 then
        cbc_enc_blocks block (inp + 16) (out + 16) out (len - 16) (call_block block out out (xor_block_at inp iv out m))
      else (m, inp, out, iv, len))"
  by pat_completeness auto
termination
  by (relation "measure (\<lambda>(_, _, _, _, len, _). len)") auto

function cbc_enc_tail :: "block128_f \<Rightarrow> nat \<Rightarrow> nat \<Rightarrow> nat \<Rightarrow> nat \<Rightarrow> mem \<Rightarrow> mem \<times> nat" where
  "cbc_enc_tail block inp out iv len m =
     (if len \<noteq> 0 then
        let m = fold (\<lambda>n m. m(out + n := m (inp + n) XOR m (iv + n))) [0..<min 16 len] m;
            m = fold (\<lambda>n m. m(out + n := m (iv + n))) [min 16 len..<16] m;
            m = call_block block out out m
        in if len \<le> 16 then (m, out) else cbc_enc_tail block (inp + 16) (out + 16) out (len - 16) m
      else (m, iv))"
  by pat_completeness auto
termination
  by (relation "measure (\<lambda>(_, _, _, _, len, _). len)") auto

definition CRYPTO_cbc128_encrypt :: "block128_f \<Rightarrow> nat \<Rightarrow> nat \<Rightarrow> nat \<Rightarrow> nat \<Rightarrow> mem \<Rightarrow> mem" where
  "CRYPTO_cbc128_encrypt block inp out len ivec m =
     (let (m, inp, out, iv, len) = cbc_enc_blocks block inp out ivec len m;
          (m, iv) = cbc_enc_tail block inp out iv len m
      in store_mem ivec (load_mem m iv 16) m)"

section \<open>Decryption\<close>

text \<open>With the output far enough behind the input, or disjoint from it: straight into the output.\<close>

function cbc_dec_apart :: "block128_f \<Rightarrow> nat \<Rightarrow> nat \<Rightarrow> nat \<Rightarrow> nat \<Rightarrow> mem \<Rightarrow> mem \<times> nat \<times> nat \<times> nat \<times> nat" where
  "cbc_dec_apart block inp out iv len m =
     (if len \<ge> 16 then
        cbc_dec_apart block (inp + 16) (out + 16) inp (len - 16) (xor_block_at out iv out (call_block block inp out m))
      else (m, inp, out, iv, len))"
  by pat_completeness auto
termination
  by (relation "measure (\<lambda>(_, _, _, _, len, _). len)") auto

text \<open>Otherwise through a temporary block, the ciphertext going to \<open>ivec\<close> word by word.\<close>

definition dec_word_at :: "bytes \<Rightarrow> nat \<Rightarrow> nat \<Rightarrow> nat \<Rightarrow> nat \<Rightarrow> mem \<Rightarrow> mem" where
  "dec_word_at tmp inp out ivec n m =
     (let c = load_word_le 0 (load_mem m (inp + n) 8);
          m = store_mem (out + n) (store_word_le (load_word_le n tmp XOR load_word_le 0 (load_mem m (ivec + n) 8))) m
      in store_mem (ivec + n) (store_word_le c) m)"

function cbc_dec_near :: "block128_f \<Rightarrow> nat \<Rightarrow> nat \<Rightarrow> nat \<Rightarrow> nat \<Rightarrow> mem \<Rightarrow> mem \<times> nat \<times> nat \<times> nat" where
  "cbc_dec_near block inp out ivec len m =
     (if len \<ge> 16 then
        cbc_dec_near block (inp + 16) (out + 16) ivec (len - 16)
          (fold (dec_word_at (block (load_mem m inp 16)) inp out ivec) [0, 8] m)
      else (m, inp, out, len))"
  by pat_completeness auto
termination
  by (relation "measure (\<lambda>(_, _, _, _, len, _). len)") auto

definition dec_byte_at :: "bytes \<Rightarrow> nat \<Rightarrow> nat \<Rightarrow> nat \<Rightarrow> nat \<Rightarrow> mem \<Rightarrow> mem" where
  "dec_byte_at tmp inp out ivec n m =
     (let c = m (inp + n); m = m(out + n := tmp ! n XOR m (ivec + n)) in m(ivec + n := c))"

function cbc_dec_tail :: "block128_f \<Rightarrow> nat \<Rightarrow> nat \<Rightarrow> nat \<Rightarrow> nat \<Rightarrow> mem \<Rightarrow> mem" where
  "cbc_dec_tail block inp out ivec len m =
     (if len \<noteq> 0 then
        let m = fold (dec_byte_at (block (load_mem m inp 16)) inp out ivec) [0..<min 16 len] m
        in if len \<le> 16 then fold (\<lambda>n m. m(ivec + n := m (inp + n))) [min 16 len..<16] m
           else cbc_dec_tail block (inp + 16) (out + 16) ivec (len - 16) m
      else m)"
  by pat_completeness auto
termination
  by (relation "measure (\<lambda>(_, _, _, _, len, _). len)") auto

text \<open>\<open>None\<close> is a failed assertion: the output ahead of the input and overlapping it.\<close>

definition CRYPTO_cbc128_decrypt :: "block128_f \<Rightarrow> nat \<Rightarrow> nat \<Rightarrow> nat \<Rightarrow> nat \<Rightarrow> mem \<Rightarrow> mem option" where
  "CRYPTO_cbc128_decrypt block inp out len ivec m =
     (if \<not> (inp \<ge> out \<or> inp + len \<le> out) then None
      else if (inp \<ge> 32 \<and> out \<le> inp - 32) \<or> inp < out then
        let (m, inp, out, iv, len) = cbc_dec_apart block inp out ivec len m;
            m = store_mem ivec (load_mem m iv 16) m
        in Some (cbc_dec_tail block inp out ivec len m)
      else
        let (m, inp, out, len) = cbc_dec_near block inp out ivec len m
        in Some (cbc_dec_tail block inp out ivec len m))"

declare cbc_enc_blocks.simps [simp del] cbc_enc_tail.simps [simp del] cbc_dec_apart.simps [simp del]
  cbc_dec_near.simps [simp del] cbc_dec_tail.simps [simp del]

section \<open>The mode on byte strings\<close>

primrec cbc_enc :: "block128_f \<Rightarrow> nat \<Rightarrow> bytes \<Rightarrow> bytes \<Rightarrow> bytes \<times> bytes" where
  "cbc_enc block 0 iv xs = ([], iv)"
| "cbc_enc block (Suc k) iv xs =
     (let c = block (map2 (XOR) (take 16 xs) iv); (cs, iv) = cbc_enc block k c (drop 16 xs) in (c @ cs, iv))"

primrec cbc_dec :: "block128_f \<Rightarrow> nat \<Rightarrow> bytes \<Rightarrow> bytes \<Rightarrow> bytes \<times> bytes" where
  "cbc_dec block 0 iv xs = ([], iv)"
| "cbc_dec block (Suc k) iv xs =
     (let (ps, iv') = cbc_dec block k (take 16 xs) (drop 16 xs) in (map2 (XOR) (block (take 16 xs)) iv @ ps, iv'))"

section \<open>Words in memory\<close>

lemma xor_word_mem:
  "store_word_le (load_word_le 0 (load_mem m p 8) XOR load_word_le 0 (load_mem m q 8)) = map2 (XOR) (load_mem m p 8) (load_mem m q 8)"
  using xor_word [of 0 "load_mem m p 8" "load_mem m q 8"] by simp

lemma map2_append: "length xs = length ys \<Longrightarrow> map2 f (xs @ xs') (ys @ ys') = map2 f xs ys @ map2 f xs' ys'"
  by simp

text \<open>One block, with the output not ahead of the input inside it.\<close>

lemma xor_block_at_eq:
  assumes "out \<le> inp \<or> inp + 16 \<le> out" "apart iv 16 out 16"
  shows "xor_block_at inp iv out m = store_mem out (map2 (XOR) (load_mem m inp 16) (load_mem m iv 16)) m"
proof -
  let ?w0 = "map2 (XOR) (load_mem m inp 8) (load_mem m iv 8)"
  let ?m1 = "store_mem out ?w0 m"
  have "load_mem ?m1 (inp + 8) 8 = load_mem m (inp + 8) 8" "load_mem ?m1 (iv + 8) 8 = load_mem m (iv + 8) 8"
    using assms by (auto simp: apart_def intro!: load_store_apart)
  moreover have "load_mem m p 16 = load_mem m p 8 @ load_mem m (p + 8) 8" for p
    using load_mem_add [of m p 8 8] by simp
  ultimately show ?thesis
    using store_append [of ?w0 8 out "map2 (XOR) (load_mem m (inp + 8) 8) (load_mem m (iv + 8) 8)" m]
    by (simp add: xor_block_at_def xor_word_at_def xor_word_mem)
qed

lemma enc_block_eq:
  assumes "out \<le> inp \<or> inp + 16 \<le> out" "apart iv 16 out 16" "block_cipher block"
  shows "call_block block out out (xor_block_at inp iv out m)
    = store_mem out (block (map2 (XOR) (load_mem m inp 16) (load_mem m iv 16))) m"
  using assms by (simp add: xor_block_at_eq call_block_def mem_simps block_cipher_length)

definition behind :: "nat \<Rightarrow> nat \<Rightarrow> nat \<Rightarrow> bool" where
  "behind out inp n \<longleftrightarrow> out \<le> inp \<or> inp + n \<le> out"

text \<open>Whole blocks.\<close>

lemma cbc_enc_blocks_eq:
  assumes "block_cipher block"
  shows "behind out inp (16 * k) \<Longrightarrow> apart iv 16 out (16 * k) \<Longrightarrow> len < 16 \<Longrightarrow>
    cbc_enc_blocks block inp out iv (16 * k + len) m
      = (let cs = fst (cbc_enc block k (load_mem m iv 16) (load_mem m inp (16 * k)))
         in (store_mem out cs m, inp + 16 * k, out + 16 * k, if k = 0 then iv else out + 16 * k - 16, len))
    \<and> length (fst (cbc_enc block k (load_mem m iv 16) (load_mem m inp (16 * k)))) = 16 * k
    \<and> (let cs = fst (cbc_enc block k (load_mem m iv 16) (load_mem m inp (16 * k)))
       in load_mem (store_mem out cs m) (if k = 0 then iv else out + 16 * k - 16) 16
          = snd (cbc_enc block k (load_mem m iv 16) (load_mem m inp (16 * k))))"
proof (induction k arbitrary: inp out iv m)
  case 0
  then show ?case by (simp add: cbc_enc_blocks.simps [of block _ _ _ len])
next
  case (Suc k)
  define c where "c = block (map2 (XOR) (load_mem m inp 16) (load_mem m iv 16))"
  define m1 where "m1 = store_mem out c m"
  have c: "length c = 16" using assms by (simp add: c_def block_cipher_length)
  have b: "behind out inp 16" "apart iv 16 out 16" "behind (out + 16) (inp + 16) (16 * k)" "apart out 16 (out + 16) (16 * k)"
    using Suc.prems by (auto simp: behind_def apart_def)
  have step: "cbc_enc_blocks block inp out iv (16 * Suc k + len) m
      = cbc_enc_blocks block (inp + 16) (out + 16) out (16 * k + len) m1"
    using b(1,2) assms
    by (subst cbc_enc_blocks.simps) (simp add: enc_block_eq behind_def m1_def c_def add.commute)
  have l0: "load_mem m1 out 16 = c" by (simp add: m1_def c mem_simps)
  have l1: "load_mem m1 (inp + 16) (16 * k) = load_mem m (inp + 16) (16 * k)"
    unfolding m1_def using Suc.prems(1) c by (intro load_store_apart) (auto simp: apart_def behind_def)
  have l2: "load_mem m inp (16 * Suc k) = load_mem m inp 16 @ load_mem m (inp + 16) (16 * k)"
    using load_mem_add [of m inp 16 "16 * k"] by (simp add: add.commute)
  define cs where "cs = fst (cbc_enc block k c (load_mem m (inp + 16) (16 * k)))"
  define iv' where "iv' = snd (cbc_enc block k c (load_mem m (inp + 16) (16 * k)))"
  have spec: "cbc_enc block (Suc k) (load_mem m iv 16) (load_mem m inp (16 * Suc k)) = (c @ cs, iv')"
    unfolding l2 cs_def iv'_def by (simp add: c_def Let_def split_beta)
  note IH = Suc.IH [OF b(3,4) Suc.prems(3), of m1, unfolded l0 l1, folded cs_def iv'_def]
  have st: "store_mem (out + 16) cs m1 = store_mem out (c @ cs) m"
    unfolding m1_def using c by (rule store_append)
  show ?case
    unfolding step spec using IH c st by (cases "k = 0") (auto simp: Let_def l0 add.commute)
qed

text \<open>The last bytes are encrypted as a block filled up with zeros.\<close>

lemma fold_write_eq:
  assumes "\<And>n m'. n < k \<Longrightarrow> (\<And>a. a < out \<or> out + n \<le> a \<Longrightarrow> m' a = m a) \<Longrightarrow> f n m' = g n"
  shows "i \<le> k \<Longrightarrow> fold (\<lambda>n m. m(out + n := f n m)) [0..<i] m = store_mem out (map g [0..<i]) m"
proof (induction i)
  case (Suc i)
  have "f i (store_mem out (map g [0..<i]) m) = g i"
    using Suc.prems by (intro assms) (auto simp: store_mem_def)
  moreover have "(store_mem out (map g [0..<i]) m)(out + i := g i) = store_mem out (map g [0..<Suc i]) m"
    by (rule ext) (auto simp: store_mem_def nth_append)
  moreover have "fold (\<lambda>n m. m(out + n := f n m)) [0..<i] m = store_mem out (map g [0..<i]) m"
    by (rule Suc.IH) (use Suc.prems in simp)
  ultimately show ?case by (simp del: fun_upd_apply)
qed simp

lemma map2_zeros: "length xs = n \<Longrightarrow> map2 (XOR) (replicate n 0) xs = (xs :: bytes)"
  by (rule nth_equalityI) simp_all

lemma enc_tail_bytes:
  assumes "len \<le> 16" "behind out inp len" "apart iv 16 out 16"
  shows "fold (\<lambda>n m. m(out + n := m (iv + n))) [len..<16] (fold (\<lambda>n m. m(out + n := m (inp + n) XOR m (iv + n))) [0..<len] m)
    = store_mem out (map2 (XOR) (load_mem m inp len @ replicate (16 - len) 0) (load_mem m iv 16)) m"
proof -
  define f :: "nat \<Rightarrow> mem \<Rightarrow> u8" where "f n m = (if n < len then m (inp + n) XOR m (iv + n) else m (iv + n))" for n m
  let ?step = "\<lambda>n m. m(out + n := f n m)"
  have "fold (\<lambda>n m. m(out + n := m (inp + n) XOR m (iv + n))) [0..<len] m = fold ?step [0..<len] m"
    by (rule fold_cong) (auto simp: f_def)
  moreover have "fold (\<lambda>n m. m(out + n := m (iv + n))) [len..<16] m' = fold ?step [len..<16] m'" for m'
    by (rule fold_cong) (auto simp: f_def)
  moreover have "[0..<16] = [0..<len] @ [len..<16]" using assms(1) upt_add_eq_append [of 0 len "16 - len"] by simp
  moreover have "fold ?step [0..<16] m = store_mem out (map (\<lambda>n. f n m) [0..<16]) m"
  proof (rule fold_write_eq [where k = 16])
    fix n m' assume *: "n < 16" "\<And>a. a < out \<or> out + n \<le> a \<Longrightarrow> m' a = m a"
    have "m' (inp + n) = m (inp + n)" if "n < len"
      using *(2) [of "inp + n"] assms(2) that by (auto simp: behind_def)
    moreover have "m' (iv + n) = m (iv + n)" using *(1) *(2) [of "iv + n"] assms(3) by (auto simp: apart_def)
    ultimately show "f n m' = f n m" by (simp add: f_def)
  qed simp
  moreover have "map (\<lambda>n. f n m) [0..<16] = map2 (XOR) (load_mem m inp len @ replicate (16 - len) 0) (load_mem m iv 16)"
    using assms(1) by (intro nth_equalityI) (auto simp: f_def nth_append)
  ultimately show ?thesis by (simp del: upt_rec_numeral)
qed

lemma cbc_enc_tail_eq:
  assumes "block_cipher block" "len < 16" "behind out inp len" "apart iv 16 out 16"
  shows "cbc_enc_tail block inp out iv len m
    = (if len = 0 then (m, iv)
       else (store_mem out (block (map2 (XOR) (load_mem m inp len @ replicate (16 - len) 0) (load_mem m iv 16))) m, out))"
proof (cases "len = 0")
  case False
  have "min 16 len = len" using assms(2) by simp
  with False show ?thesis
    using enc_tail_bytes [of len out inp iv m] assms
    by (simp add: cbc_enc_tail.simps [of block inp out iv len] call_block_def mem_simps block_cipher_length)
qed (simp add: cbc_enc_tail.simps)

lemma cbc_enc_append:
  "length xs = 16 * k \<Longrightarrow> cbc_enc block (k + l) iv (xs @ ys)
    = (let (cs, iv) = cbc_enc block k iv xs; (ds, iv) = cbc_enc block l iv ys in (cs @ ds, iv))"
proof (induction k arbitrary: iv xs)
  case (Suc k)
  then show ?case using Suc.IH [of "drop 16 xs"] by (simp add: Let_def split_beta)
qed simp

definition pad16 :: "bytes \<Rightarrow> bytes" where
  "pad16 xs = xs @ replicate ((16 - length xs mod 16) mod 16) 0"

lemma cbc128_encrypt_eq:
  assumes "block_cipher block" "k = (len + 15) div 16" "behind out inp (16 * k)" "apart ivec 16 out (16 * k)"
  shows "CRYPTO_cbc128_encrypt block inp out len ivec m
    = (let (cs, iv) = cbc_enc block k (load_mem m ivec 16) (pad16 (load_mem m inp len))
       in store_mem ivec iv (store_mem out cs m))"
proof -
  define q r where "q = len div 16" and "r = len mod 16"
  have len: "len = 16 * q + r" "r < 16" by (simp_all add: q_def r_def)
  have k: "k = (if r = 0 then q else q + 1)" using assms(2) len by (auto simp: div_nat_eqI)
  have b: "behind out inp (16 * q)" "apart ivec 16 out (16 * q)" "behind (out + 16 * q) (inp + 16 * q) r"
    using assms(3,4) len k by (auto simp: behind_def apart_def split: if_splits)
  define cs where "cs = fst (cbc_enc block q (load_mem m ivec 16) (load_mem m inp (16 * q)))"
  define iv1 where "iv1 = snd (cbc_enc block q (load_mem m ivec 16) (load_mem m inp (16 * q)))"
  define p where "p = (if q = 0 then ivec else out + 16 * q - 16)"
  note blocks = cbc_enc_blocks_eq [OF assms(1) b(1,2) len(2), of m, folded cs_def iv1_def p_def, unfolded Let_def]
  define m1 where "m1 = store_mem out cs m"
  have l: "length cs = 16 * q" "load_mem m1 p 16 = iv1" using blocks by (simp_all add: m1_def)
  have pr: "pad16 (load_mem m inp len) = load_mem m inp (16 * q) @ (if r = 0 then [] else load_mem m (inp + 16 * q) r @ replicate (16 - r) 0)"
    using len by (simp add: pad16_def load_mem_add)
  show ?thesis
  proof (cases "r = 0")
    case True
    have "pad16 (load_mem m inp len) = load_mem m inp (16 * q)" using pr True by simp
    then show ?thesis using True k blocks [folded len(1)]
      by (simp add: CRYPTO_cbc128_encrypt_def cbc_enc_tail.simps Let_def split_beta cs_def iv1_def)
  next
    case False
    have ap: "apart p 16 (out + 16 * q) 16" using assms(4) False k by (auto simp: p_def apart_def)
    have in_eq: "load_mem m1 (inp + 16 * q) r = load_mem m (inp + 16 * q) r"
      unfolding m1_def using assms(3) l False k len(2) by (intro load_store_apart) (auto simp: behind_def apart_def)
    let ?c = "block (map2 (XOR) (load_mem m (inp + 16 * q) r @ replicate (16 - r) 0) iv1)"
    have "length iv1 = 16" using l(2) by (metis length_load_mem)
    then have c: "length ?c = 16" using assms(1) len(2) by (simp add: block_cipher_length)
    have tail: "cbc_enc_tail block (inp + 16 * q) (out + 16 * q) p r m1 = (store_mem (out + 16 * q) ?c m1, out + 16 * q)"
      using False cbc_enc_tail_eq [OF assms(1) len(2) b(3) ap] in_eq l(2) by simp
    have st: "store_mem (out + 16 * q) ?c m1 = store_mem out (cs @ ?c) m" unfolding m1_def by (rule store_append) (rule l)
    have spec: "cbc_enc block k (load_mem m ivec 16) (pad16 (load_mem m inp len)) = (cs @ ?c, ?c)"
    proof -
      let ?b = "load_mem m (inp + 16 * q) r @ replicate (16 - r) 0"
      have one: "cbc_enc block 1 iv1 ?b = (?c, ?c)" using len(2) by (simp add: Let_def)
      have "cbc_enc block (q + 1) (load_mem m ivec 16) (load_mem m inp (16 * q) @ ?b) = (cs @ ?c, ?c)"
        by (subst cbc_enc_append) (simp_all only: length_load_mem one cs_def [symmetric] iv1_def [symmetric] prod.case Let_def case_prod_beta fst_conv snd_conv)
      then show ?thesis using False k pr by simp
    qed
    have "load_mem (store_mem (out + 16 * q) ?c m1) (out + 16 * q) 16 = ?c" by (simp add: mem_simps c)
    with tail st blocks False show ?thesis unfolding spec
      by (simp add: CRYPTO_cbc128_encrypt_def len(1) Let_def m1_def)
  qed
qed

text \<open>Decryption of whole blocks, in either way.\<close>

lemma dec_block_apart_eq:
  assumes "block_cipher block" "apart inp 16 out 16" "apart iv 16 out 16"
  shows "xor_block_at out iv out (call_block block inp out m)
    = store_mem out (map2 (XOR) (block (load_mem m inp 16)) (load_mem m iv 16)) m"
  using assms by (simp add: xor_block_at_eq call_block_def mem_simps block_cipher_length)

lemma load_word_le_load_mem: "n + 8 \<le> 16 \<Longrightarrow> load_word_le 0 (load_mem m (p + n) 8) = load_word_le n (load_mem m p 16)"
  by (simp add: load_word_le_def drop_load_mem take_load_mem)

lemma store_load_word: "store_word_le (load_word_le 0 (load_mem m p 8)) = load_mem m p 8"
proof -
  have "be_nat (rev (load_mem m p 8)) < 2 ^ 64" using be_nat_bound [of "rev (load_mem m p 8)"] by simp
  then show ?thesis by (simp add: store_word_le_def load_word_le_def unat_of_nat le_bytes_be_nat)
qed

lemma dec_block_near_eq:
  assumes "length tmp = 16" "behind out inp 16" "apart ivec 16 out 16" "apart ivec 16 inp 16"
  shows "fold (dec_word_at tmp inp out ivec) [0, 8] m
    = store_mem ivec (load_mem m inp 16) (store_mem out (map2 (XOR) tmp (load_mem m ivec 16)) m)"
proof -
  have split: "load_mem m p 16 = load_mem m p 8 @ load_mem m (p + 8) 8" for m p
    using load_mem_add [of m p 8 8] by simp
  have tmp: "tmp = take 8 tmp @ drop 8 tmp" "take 8 (drop 8 tmp) = drop 8 tmp" using assms(1) by simp_all
  have w: "store_word_le (load_word_le n tmp XOR load_word_le 0 (load_mem m q 8)) = map2 (XOR) (take 8 (drop n tmp)) (load_mem m q 8)"
    if "n + 8 \<le> 16" for n m q
    using xor_word [of n tmp "replicate n 0 @ load_mem m q 8"] that assms(1) by (simp add: load_word_le_def)
  define o0 where "o0 = map2 (XOR) (take 8 tmp) (load_mem m ivec 8)"
  define o1 where "o1 = map2 (XOR) (drop 8 tmp) (load_mem m (ivec + 8) 8)"
  have lo: "length o0 = 8" "length o1 = 8" using assms(1) by (simp_all add: o0_def o1_def)
  define m1 where "m1 = store_mem ivec (load_mem m inp 8) (store_mem out o0 m)"
  have s0: "dec_word_at tmp inp out ivec 0 m = m1"
    using assms(3) w [of 0 m ivec] by (simp add: dec_word_at_def Let_def store_load_word m1_def o0_def)
  have l: "load_mem m1 (inp + 8) 8 = load_mem m (inp + 8) 8" "load_mem m1 (ivec + 8) 8 = load_mem m (ivec + 8) 8"
    using assms(2,3,4) lo unfolding m1_def
    by (auto simp: apart_def behind_def load_store_apart)
  have "dec_word_at tmp inp out ivec 8 m1
      = store_mem (ivec + 8) (load_mem m (inp + 8) 8) (store_mem (out + 8) o1 m1)"
    using w [of 8 m1 "ivec + 8"] tmp(2) by (simp add: dec_word_at_def Let_def store_load_word l o1_def [symmetric])
  also have "store_mem (out + 8) o1 m1 = store_mem ivec (load_mem m inp 8) (store_mem out (o0 @ o1) m)"
    unfolding m1_def using assms(3) lo
    by (subst store_commute) (auto simp: apart_def store_append)
  also have "store_mem (ivec + 8) (load_mem m (inp + 8) 8) \<dots> = store_mem ivec (load_mem m inp 16) (store_mem out (o0 @ o1) m)"
    unfolding split [of m inp] by (rule store_append) simp
  also have "o0 @ o1 = map2 (XOR) tmp (load_mem m ivec 16)"
    using map2_append [of "take 8 tmp" "load_mem m ivec 8" "(XOR)" "drop 8 tmp" "load_mem m (ivec + 8) 8"] assms(1)
    by (simp add: o0_def o1_def split [of m ivec])
  finally show ?thesis by (simp add: s0)
qed

lemma load_mem_Suc: "load_mem m p (16 * Suc k) = load_mem m p 16 @ load_mem m (p + 16) (16 * k)"
  using load_mem_add [of m p 16 "16 * k"] by (simp add: add.commute)

lemma length_cbc_dec:
  "block_cipher block \<Longrightarrow> length xs = 16 * k \<Longrightarrow> length iv = 16 \<Longrightarrow> length (fst (cbc_dec block k iv xs)) = 16 * k"
  by (induction k arbitrary: iv xs) (simp_all add: Let_def split_beta block_cipher_length)

lemma length_cbc_dec_iv:
  "length xs = 16 * k \<Longrightarrow> length iv = 16 \<Longrightarrow> length (snd (cbc_dec block k iv xs)) = 16"
  by (induction k arbitrary: iv xs) (simp_all add: Let_def split_beta)

definition well_apart :: "nat \<Rightarrow> nat \<Rightarrow> nat \<Rightarrow> bool" where
  "well_apart inp out n \<longleftrightarrow> (inp \<ge> 32 \<and> out \<le> inp - 32) \<or> inp + n \<le> out"

lemma cbc_dec_apart_eq:
  assumes "block_cipher block"
  shows "well_apart inp out (16 * k) \<Longrightarrow> apart iv 16 out 16 \<Longrightarrow> len < 16 \<Longrightarrow>
    cbc_dec_apart block inp out iv (16 * k + len) m
      = (let ps = fst (cbc_dec block k (load_mem m iv 16) (load_mem m inp (16 * k)))
         in (store_mem out ps m, inp + 16 * k, out + 16 * k, if k = 0 then iv else inp + 16 * k - 16, len))
    \<and> (k \<noteq> 0 \<longrightarrow> load_mem m (inp + 16 * k - 16) 16 = snd (cbc_dec block k (load_mem m iv 16) (load_mem m inp (16 * k))))"
proof (induction k arbitrary: inp out iv m)
  case 0
  then show ?case by (simp add: cbc_dec_apart.simps [of block _ _ _ len])
next
  case (Suc k)
  define p where "p = map2 (XOR) (block (load_mem m inp 16)) (load_mem m iv 16)"
  define m1 where "m1 = store_mem out p m"
  have p: "length p = 16" using assms by (simp add: p_def block_cipher_length)
  have b: "apart inp 16 out 16" "well_apart (inp + 16) (out + 16) (16 * k)" "k \<noteq> 0 \<Longrightarrow> apart inp 16 (out + 16) 16"
    using Suc.prems(1) by (auto simp: well_apart_def apart_def)
  have step: "cbc_dec_apart block inp out iv (16 * Suc k + len) m
      = cbc_dec_apart block (inp + 16) (out + 16) inp (16 * k + len) m1"
    using b(1) Suc.prems(2) assms
    by (subst cbc_dec_apart.simps) (simp add: dec_block_apart_eq m1_def p_def add.commute)
  have l0: "load_mem m1 inp 16 = load_mem m inp 16" using b(1) p by (simp add: m1_def load_store_apart)
  have l1: "load_mem m1 (inp + 16) (16 * k) = load_mem m (inp + 16) (16 * k)"
    unfolding m1_def using Suc.prems(1) p by (intro load_store_apart) (auto simp: apart_def well_apart_def)
  have l2: "load_mem m1 (inp + 16 * k) 16 = load_mem m (inp + 16 * k) 16"
    unfolding m1_def using Suc.prems(1) p by (intro load_store_apart) (auto simp: apart_def well_apart_def)
  define ps where "ps = fst (cbc_dec block k (load_mem m inp 16) (load_mem m (inp + 16) (16 * k)))"
  define iv' where "iv' = snd (cbc_dec block k (load_mem m inp 16) (load_mem m (inp + 16) (16 * k)))"
  have spec: "cbc_dec block (Suc k) (load_mem m iv 16) (load_mem m inp (16 * Suc k)) = (p @ ps, iv')"
    unfolding load_mem_Suc ps_def iv'_def by (simp add: p_def Let_def split_beta)
  have st: "store_mem (out + 16) ps m1 = store_mem out (p @ ps) m"
    unfolding m1_def using p by (rule store_append)
  show ?case
  proof (cases "k = 0")
    case True
    then show ?thesis unfolding step spec using st Suc.prems(3)
      by (simp add: cbc_dec_apart.simps [of block _ _ _ len] ps_def iv'_def m1_def)
  next
    case False
    note IH = Suc.IH [OF b(2) b(3) [OF False] Suc.prems(3), of m1, unfolded l0 l1, folded ps_def iv'_def]
    show ?thesis unfolding step spec using IH st False l2 by (auto simp: Let_def add.commute)
  qed
qed

lemma cbc_dec_near_eq:
  assumes "block_cipher block"
  shows "behind out inp (16 * k) \<Longrightarrow> apart ivec 16 out (16 * k) \<Longrightarrow> apart ivec 16 inp (16 * k) \<Longrightarrow> len < 16 \<Longrightarrow>
    cbc_dec_near block inp out ivec (16 * k + len) m
      = (let (ps, iv) = cbc_dec block k (load_mem m ivec 16) (load_mem m inp (16 * k))
         in (store_mem ivec iv (store_mem out ps m), inp + 16 * k, out + 16 * k, len))"
proof (induction k arbitrary: inp out m)
  case 0
  have "store_mem ivec (load_mem m ivec 16) m = m" by (rule ext) (auto simp: store_mem_def)
  with 0 show ?case by (simp add: cbc_dec_near.simps [of block _ _ _ len])
next
  case (Suc k)
  define tmp where "tmp = block (load_mem m inp 16)"
  define p where "p = map2 (XOR) tmp (load_mem m ivec 16)"
  define m1 where "m1 = store_mem ivec (load_mem m inp 16) (store_mem out p m)"
  have p: "length tmp = 16" "length p = 16" using assms by (simp_all add: p_def tmp_def block_cipher_length)
  have b: "behind out inp 16" "apart ivec 16 out 16" "apart ivec 16 inp 16"
    "behind (out + 16) (inp + 16) (16 * k)" "apart ivec 16 (out + 16) (16 * k)" "apart ivec 16 (inp + 16) (16 * k)"
    using Suc.prems by (auto simp: behind_def apart_def)
  have step: "cbc_dec_near block inp out ivec (16 * Suc k + len) m
      = cbc_dec_near block (inp + 16) (out + 16) ivec (16 * k + len) m1"
    using dec_block_near_eq [OF p(1) b(1,2,3), of m]
    by (subst cbc_dec_near.simps) (simp add: m1_def p_def add.commute flip: tmp_def)
  have l0: "load_mem m1 ivec 16 = load_mem m inp 16" by (simp add: m1_def mem_simps)
  have l1: "load_mem m1 (inp + 16) (16 * k) = load_mem m (inp + 16) (16 * k)"
    unfolding m1_def using Suc.prems(1,3) p b(6) by (auto simp: apart_def behind_def load_store_apart)
  define ps where "ps = fst (cbc_dec block k (load_mem m inp 16) (load_mem m (inp + 16) (16 * k)))"
  define iv' where "iv' = snd (cbc_dec block k (load_mem m inp 16) (load_mem m (inp + 16) (16 * k)))"
  have li: "length iv' = 16" "length ps = 16 * k"
    using length_cbc_dec_iv length_cbc_dec [OF assms] by (simp_all add: iv'_def ps_def)
  have spec: "cbc_dec block (Suc k) (load_mem m ivec 16) (load_mem m inp (16 * Suc k)) = (p @ ps, iv')"
    unfolding load_mem_Suc ps_def iv'_def by (simp add: p_def tmp_def Let_def split_beta)
  have "store_mem ivec iv' (store_mem (out + 16) ps m1) = store_mem ivec iv' (store_mem out (p @ ps) m)"
  proof -
    have "store_mem (out + 16) ps m1 = store_mem ivec (load_mem m inp 16) (store_mem (out + 16) ps (store_mem out p m))"
      unfolding m1_def using b(5) li(2) by (intro store_commute) (auto simp: apart_def)
    also have "store_mem (out + 16) ps (store_mem out p m) = store_mem out (p @ ps) m" using p(2) by (rule store_append)
    finally show ?thesis using li(1) by (simp add: mem_simps)
  qed
  with Suc.IH [OF b(4,5,6) Suc.prems(4), of m1] show ?case
    unfolding step spec l0 l1 by (simp add: split_beta Let_def add.commute flip: ps_def iv'_def)
qed

text \<open>The last bytes: of the last block only \<open>len\<close> bytes of plaintext are written.\<close>

lemma dec_bytes_eq:
  assumes "length tmp = 16" "behind out inp 16" "apart ivec 16 out 16" "apart ivec 16 inp 16"
  shows "n \<le> 16 \<Longrightarrow> fold (dec_byte_at tmp inp out ivec) [0..<n] m
    = store_mem ivec (load_mem m inp n) (store_mem out (map2 (XOR) (take n tmp) (load_mem m ivec n)) m)"
proof (induction n)
  case (Suc n)
  define o0 where "o0 = map2 (XOR) (take n tmp) (load_mem m ivec n)"
  define m1 where "m1 = store_mem ivec (load_mem m inp n) (store_mem out o0 m)"
  have lo: "length o0 = n" using Suc.prems assms(1) by (simp add: o0_def)
  have v: "m1 (inp + n) = m (inp + n)" "m1 (ivec + n) = m (ivec + n)"
    using Suc.prems assms(2,3,4) lo unfolding m1_def
    by (auto simp: store_mem_def apart_def behind_def)
  have o1: "map2 (XOR) (take (Suc n) tmp) (load_mem m ivec (Suc n)) = o0 @ [tmp ! n XOR m (ivec + n)]"
    using Suc.prems assms(1) load_mem_add [of m ivec n 1]
    by (simp add: take_Suc_conv_app_nth o0_def load_mem_def)
  have i1: "load_mem m inp (Suc n) = load_mem m inp n @ [m (inp + n)]" by (simp add: load_mem_def)
  have "fold (dec_byte_at tmp inp out ivec) [0..<Suc n] m = dec_byte_at tmp inp out ivec n m1"
    using Suc by (simp add: m1_def o0_def)
  also have "\<dots> = store_mem ivec (load_mem m inp (Suc n)) (store_mem out (o0 @ [tmp ! n XOR m (ivec + n)]) m)"
    unfolding dec_byte_at_def Let_def v i1
    using Suc.prems assms(3) lo unfolding m1_def
    by (intro ext) (auto simp: store_mem_def nth_append apart_def)
  finally show ?case unfolding o1 .
qed simp

lemma cbc_dec_tail_eq:
  assumes "block_cipher block" "len < 16" "behind out inp 16" "apart ivec 16 out 16" "apart ivec 16 inp 16"
  shows "cbc_dec_tail block inp out ivec len m
    = (if len = 0 then m
       else store_mem ivec (load_mem m inp 16)
         (store_mem out (map2 (XOR) (take len (block (load_mem m inp 16))) (load_mem m ivec len)) m))"
proof (cases "len = 0")
  case False
  let ?tmp = "block (load_mem m inp 16)"
  let ?o = "map2 (XOR) (take len ?tmp) (load_mem m ivec len)"
  have tmp: "length ?tmp = 16" using assms(1) by (simp add: block_cipher_length)
  have f: "fold (dec_byte_at ?tmp inp out ivec) [0..<min 16 len] m
      = store_mem ivec (load_mem m inp len) (store_mem out ?o m)" (is "_ = ?m1")
    using dec_bytes_eq [OF tmp assms(3,4,5), of len m] assms(2) by simp
  have g: "fold (\<lambda>n m. m(ivec + n := m (inp + n))) [len..<16] m' = store_mem (ivec + len) (load_mem m' (inp + len) (16 - len)) m'" for m'
  proof -
    have "[len..<16] = map ((+) len) [0..<16 - len]" using assms(2) by (intro nth_equalityI) simp_all
    then have "fold (\<lambda>n m. m(ivec + n := m (inp + n))) [len..<16] m'
        = fold (\<lambda>n m. m((ivec + len) + n := m (inp + len + n))) [0..<16 - len] m'"
      by (simp add: fold_map comp_def add.assoc)
    also have "\<dots> = store_mem (ivec + len) (map (\<lambda>n. m' (inp + len + n)) [0..<16 - len]) m'"
      by (rule fold_write_eq [where k = "16 - len"]) (use assms(2,5) in \<open>auto simp: apart_def\<close>)
    also have "map (\<lambda>n. m' (inp + len + n)) [0..<16 - len] = load_mem m' (inp + len) (16 - len)"
      by (rule nth_equalityI) simp_all
    finally show ?thesis .
  qed
  have l: "load_mem ?m1 (inp + len) (16 - len) = load_mem m (inp + len) (16 - len)"
    using assms(2,3,5) tmp by (auto simp: apart_def behind_def load_store_apart)
  have "store_mem (ivec + len) (load_mem m (inp + len) (16 - len)) ?m1 = store_mem ivec (load_mem m inp 16) (store_mem out ?o m)"
    using store_append [of "load_mem m inp len" len ivec "load_mem m (inp + len) (16 - len)" "store_mem out ?o m"]
      load_mem_add [of m inp len "16 - len"] assms(2) by simp
  moreover have "min 16 len = len" using assms(2) by simp
  ultimately show ?thesis using False assms(2) f
    by (simp add: cbc_dec_tail.simps [of block inp out ivec len] g l del: upt_rec_numeral)
qed (simp add: cbc_dec_tail.simps)

text \<open>
  Decryption for every overlap the assertion admits. Both branches, and the last bytes, compute the
  same; \<open>k\<close> counts the blocks read, and of a last block that is cut only \<open>len\<close> bytes are written.
\<close>

lemma cbc_dec_append:
  "length xs = 16 * k \<Longrightarrow> cbc_dec block (k + l) iv (xs @ ys)
    = (let (ps, iv) = cbc_dec block k iv xs; (qs, iv) = cbc_dec block l iv ys in (ps @ qs, iv))"
proof (induction k arbitrary: iv xs)
  case (Suc k)
  then show ?case using Suc.IH [of "drop 16 xs" "take 16 xs"] by (simp add: Let_def split_beta)
qed simp

lemma cbc128_decrypt_eq:
  assumes "block_cipher block" "k = (len + 15) div 16" "behind out inp (16 * k)"
    and "apart ivec 16 out (16 * k)" "apart ivec 16 inp (16 * k)"
  shows "CRYPTO_cbc128_decrypt block inp out len ivec m
    = (let (ps, iv) = cbc_dec block k (load_mem m ivec 16) (load_mem m inp (16 * k))
       in Some (store_mem ivec iv (store_mem out (take len ps) m)))"
proof -
  define q r where "q = len div 16" and "r = len mod 16"
  have len: "len = 16 * q + r" "r < 16" by (simp_all add: q_def r_def)
  have k: "k = (if r = 0 then q else q + 1)" using assms(2) len by (auto simp: div_nat_eqI)
  have b: "behind out inp (16 * q)" "apart ivec 16 out (16 * q)" "apart ivec 16 inp (16 * q)" "behind out inp len"
    using assms(3,4,5) len k by (auto simp: behind_def apart_def split: if_splits)
  define ps where "ps = fst (cbc_dec block q (load_mem m ivec 16) (load_mem m inp (16 * q)))"
  define iv where "iv = snd (cbc_dec block q (load_mem m ivec 16) (load_mem m inp (16 * q)))"
  have l: "length ps = 16 * q" "length iv = 16"
    by (simp_all add: ps_def iv_def length_cbc_dec [OF assms(1)] length_cbc_dec_iv)
  define m1 where "m1 = store_mem ivec iv (store_mem out ps m)"
  have blocks: "CRYPTO_cbc128_decrypt block inp out len ivec m
      = Some (cbc_dec_tail block (inp + 16 * q) (out + 16 * q) ivec r m1)"
  proof (cases "(inp \<ge> 32 \<and> out \<le> inp - 32) \<or> inp < out")
    case True
    then have w: "well_apart inp out (16 * q)" "apart ivec 16 out 16 \<or> q = 0"
      using b by (auto simp: well_apart_def behind_def apart_def)
    have "cbc_dec_apart block inp out ivec (16 * q + r) m
        = (store_mem out ps m, inp + 16 * q, out + 16 * q, if q = 0 then ivec else inp + 16 * q - 16, r)
      \<and> load_mem (store_mem out ps m) (if q = 0 then ivec else inp + 16 * q - 16) 16 = iv"
    proof (cases "q = 0")
      case True
      then show ?thesis using len(2) by (simp add: cbc_dec_apart.simps [of block _ _ _ r] ps_def iv_def)
    next
      case False
      then have a: "apart ivec 16 out 16" using w(2) by simp
      have "apart (inp + 16 * q - 16) 16 out (16 * q)"
        using \<open>(inp \<ge> 32 \<and> out \<le> inp - 32) \<or> inp < out\<close> b(1) False by (auto simp: apart_def behind_def)
      then show ?thesis
        using cbc_dec_apart_eq [OF assms(1) w(1) a len(2), of m] False l(1)
        by (simp add: Let_def load_store_apart flip: ps_def iv_def)
    qed
    then show ?thesis using True b(4)
      by (auto simp: CRYPTO_cbc128_decrypt_def len(1) [symmetric] m1_def behind_def)
  next
    case False
    then show ?thesis using cbc_dec_near_eq [OF assms(1) b(1,2,3) len(2), of m] b(4)
      by (auto simp: CRYPTO_cbc128_decrypt_def len(1) [symmetric] m1_def behind_def split_beta ps_def iv_def)
  qed
  show ?thesis
  proof (cases "r = 0")
    case True
    have tk: "take len ps = ps" using True l(1) len(1) by simp
    have kq: "k = q" using True k by simp
    show ?thesis using True
      by (simp add: blocks cbc_dec_tail.simps m1_def split_beta kq tk flip: ps_def iv_def)
  next
    case False
    have c: "behind (out + 16 * q) (inp + 16 * q) 16" "apart ivec 16 (out + 16 * q) 16" "apart ivec 16 (inp + 16 * q) 16"
      using assms(3,4,5) False k by (auto simp: behind_def apart_def)
    have i: "load_mem m1 (inp + 16 * q) 16 = load_mem m (inp + 16 * q) 16"
      unfolding m1_def using assms(3,5) False k l c(3) by (auto simp: apart_def behind_def load_store_apart)
    have v: "load_mem m1 ivec r = take r iv"
      using l(2) take_load_mem [of r 16 m1 ivec] len(2) by (simp add: m1_def mem_simps)
    define tmp where "tmp = block (load_mem m (inp + 16 * q) 16)"
    have tmp: "length tmp = 16" using assms(1) by (simp add: tmp_def block_cipher_length)
    let ?o = "map2 (XOR) (take r tmp) (take r iv)"
    have lk: "load_mem m inp (16 * k) = load_mem m inp (16 * q) @ load_mem m (inp + 16 * q) 16"
      using False k load_mem_add [of m inp "16 * q" 16] by (simp add: add.commute)
    have "cbc_dec block (q + 1) (load_mem m ivec 16) (load_mem m inp (16 * q) @ load_mem m (inp + 16 * q) 16)
        = (ps @ map2 (XOR) tmp iv, load_mem m (inp + 16 * q) 16)"
      using tmp by (subst cbc_dec_append) (simp_all add: Let_def split_beta tmp_def ps_def iv_def)
    then have spec: "cbc_dec block k (load_mem m ivec 16) (load_mem m inp (16 * k))
        = (ps @ map2 (XOR) tmp iv, load_mem m (inp + 16 * q) 16)"
      unfolding lk using False k by simp
    have "store_mem ivec (load_mem m (inp + 16 * q) 16) (store_mem (out + 16 * q) ?o m1)
        = store_mem ivec (load_mem m (inp + 16 * q) 16) (store_mem (out + 16 * q) ?o (store_mem out ps m))"
      unfolding m1_def using c(2) l(2) tmp len(2)
      by (subst store_commute) (auto simp: apart_def mem_simps)
    also have "store_mem (out + 16 * q) ?o (store_mem out ps m) = store_mem out (ps @ ?o) m"
      by (rule store_append) (rule l)
    finally have st: "store_mem ivec (load_mem m (inp + 16 * q) 16) (store_mem (out + 16 * q) ?o m1)
        = store_mem ivec (load_mem m (inp + 16 * q) 16) (store_mem out (ps @ ?o) m)" .
    have "take len (ps @ map2 (XOR) tmp iv) = ps @ ?o"
      using l(1) len(1) by (simp add: take_map take_zip)
    then show ?thesis
      using False cbc_dec_tail_eq [OF assms(1) len(2) c, of m1] st
      by (simp add: blocks spec i v flip: tmp_def)
  qed
qed

lemma cbc_dec_enc:
  assumes "block_cipher enc" "\<And>b. length b = 16 \<Longrightarrow> dec (enc b) = b"
  shows "length xs = 16 * k \<Longrightarrow> length iv = 16 \<Longrightarrow> cbc_dec dec k iv (fst (cbc_enc enc k iv xs)) = (xs, snd (cbc_enc enc k iv xs))"
proof (induction k arbitrary: iv xs)
  case (Suc k)
  let ?c = "enc (map2 (XOR) (take 16 xs) iv)"
  have c: "length ?c = 16" using Suc.prems assms(1) by (simp add: block_cipher_length)
  have "dec ?c = map2 (XOR) (take 16 xs) iv" using Suc.prems by (intro assms(2)) simp
  moreover have "map2 (XOR) (map2 (XOR) (take 16 xs) iv) iv = take 16 xs"
    using Suc.prems by (intro nth_equalityI) (simp_all add: xor.assoc)
  ultimately show ?case
    using Suc.IH [of "drop 16 xs" ?c] Suc.prems(1) c by (simp add: Let_def split_beta)
qed simp

lemma length_cbc_enc:
  "block_cipher enc \<Longrightarrow> length xs = 16 * k \<Longrightarrow> length iv = 16
    \<Longrightarrow> length (fst (cbc_enc enc k iv xs)) = 16 * k \<and> length (snd (cbc_enc enc k iv xs)) = 16"
  by (induction k arbitrary: iv xs) (simp_all add: Let_def split_beta block_cipher_length)

text \<open>The chaining value that encryption leaves is its last block.\<close>

lemma cbc_enc_last:
  "block_cipher enc \<Longrightarrow> length xs = 16 * k \<Longrightarrow> length iv = 16
    \<Longrightarrow> snd (cbc_enc enc k iv xs) = (if k = 0 then iv else drop (16 * k - 16) (fst (cbc_enc enc k iv xs)))"
proof (induction k arbitrary: iv xs)
  case (Suc k)
  let ?c = "enc (map2 (XOR) (take 16 xs) iv)"
  have c: "length ?c = 16" using Suc.prems by (simp add: block_cipher_length)
  have rest: "length (fst (cbc_enc enc k ?c (drop 16 xs))) = 16 * k"
    using length_cbc_enc [OF Suc.prems(1), of "drop 16 xs" k ?c] Suc.prems(2) c by simp
  then show ?case
    using Suc.IH [of "drop 16 xs" ?c] Suc.prems c by (cases k) (simp_all add: Let_def split_beta)
qed simp

lemma length_pad16: "k = (length xs + 15) div 16 \<Longrightarrow> length (pad16 xs) = 16 * k"
proof -
  define q r where "q = length xs div 16" and "r = length xs mod 16"
  have l: "length xs = 16 * q + r" "r < 16" by (simp_all add: q_def r_def)
  assume "k = (length xs + 15) div 16"
  then have "k = (if r = 0 then q else q + 1)" using l by (auto simp: div_nat_eqI)
  then show ?thesis using l by (simp add: pad16_def r_def [symmetric])
qed

lemma take_pad16: "take (length xs) (pad16 xs) = xs"
  by (simp add: pad16_def)

text \<open>(C31) Chaining mode in memory, with overlap: a message of any length is encrypted from \<open>inp\<close> to
  \<open>out\<close>, its last block filled up to 16 bytes, and then decrypted from \<open>out\<close> to \<open>p\<close>, each output lying
  not ahead of its input or behind the end of it (in place, or any distance back, whichever of its
  two branches the decryption takes), with \<open>ivec\<close> away from all three and set back in between. The
  encryption writes the ciphertext of the padded message and leaves the last ciphertext block in
  \<open>ivec\<close>, or the initial value if the message is empty; the decryption passes its assertion, leaves
  the message at \<open>p\<close> and not a byte behind it, and again the last ciphertext block in \<open>ivec\<close>; neither
  changes any other memory.\<close>

theorem cbc128_round_trip:
  assumes "block_cipher enc" "block_cipher dec" "\<forall>b. length b = 16 \<longrightarrow> dec (enc b) = b"
    and "k = (len + 15) div 16" "behind out inp (16 * k)" "behind p out (16 * k)"
    and "apart ivec 16 inp (16 * k)" "apart ivec 16 out (16 * k)" "apart ivec 16 p (16 * k)"
    and "m1 = CRYPTO_cbc128_encrypt enc inp out len ivec m"
    and "m2 = store_mem ivec (load_mem m ivec 16) m1"
    and "final = (if len = 0 then load_mem m ivec 16 else load_mem m1 (out + 16 * k - 16) 16)"
  shows "load_mem m1 out (16 * k) = fst (cbc_enc enc k (load_mem m ivec 16) (pad16 (load_mem m inp len)))
    \<and> load_mem m1 ivec 16 = final
    \<and> (\<forall>a. (a < out \<or> out + 16 * k \<le> a) \<and> (a < ivec \<or> ivec + 16 \<le> a) \<longrightarrow> m1 a = m a)
    \<and> (\<exists>m3. CRYPTO_cbc128_decrypt dec out p len ivec m2 = Some m3
        \<and> load_mem m3 p len = load_mem m inp len
        \<and> load_mem m3 ivec 16 = final
        \<and> (\<forall>a. (a < p \<or> p + len \<le> a) \<and> (a < ivec \<or> ivec + 16 \<le> a) \<longrightarrow> m3 a = m1 a))"
proof -
  define xs where "xs = pad16 (load_mem m inp len)"
  define cs where "cs = fst (cbc_enc enc k (load_mem m ivec 16) xs)"
  define iv where "iv = snd (cbc_enc enc k (load_mem m ivec 16) xs)"
  have xs: "length xs = 16 * k" "take len xs = load_mem m inp len"
    using length_pad16 [of k "load_mem m inp len"] take_pad16 [of "load_mem m inp len"] assms(4) by (simp_all add: xs_def)
  have l: "length cs = 16 * k" "length iv = 16"
    using length_cbc_enc [OF assms(1) xs(1)] by (simp_all add: cs_def iv_def)
  have k0: "k = 0 \<longleftrightarrow> len = 0" using assms(4) by auto
  have last: "iv = (if len = 0 then load_mem m ivec 16 else drop (16 * k - 16) cs)"
    using cbc_enc_last [OF assms(1) xs(1), of "load_mem m ivec 16"] k0 by (simp add: iv_def cs_def)
  have m1: "m1 = store_mem ivec iv (store_mem out cs m)"
    using cbc128_encrypt_eq [OF assms(1,4,5,8), of m] unfolding assms(10) by (simp add: split_beta cs_def iv_def xs_def)
  have m2: "m2 = store_mem ivec (load_mem m ivec 16) (store_mem out cs m)"
    unfolding assms(11) m1 using l(2) by (simp add: mem_simps)
  have out: "load_mem m2 out (16 * k) = cs" "load_mem m1 out (16 * k) = cs"
    unfolding m2 m1 using assms(8) l by (auto simp: load_store_apart load_store_same apart_def)
  have "load_mem m1 (out + 16 * k - 16) 16 = drop (16 * k - 16) (load_mem m1 out (16 * k))" if "k \<noteq> 0"
    using that by (intro nth_equalityI) (auto simp: add.assoc)
  then have final: "final = iv" unfolding assms(12) last using k0 out(2) by simp
  have "load_mem m2 ivec 16 = load_mem m ivec 16" unfolding m2 by (simp add: mem_simps)
  moreover have "cbc_dec dec k (load_mem m ivec 16) cs = (xs, iv)"
    unfolding cs_def iv_def using assms(1,3) xs(1) by (intro cbc_dec_enc) simp_all
  ultimately have dec: "CRYPTO_cbc128_decrypt dec out p len ivec m2
      = Some (store_mem ivec iv (store_mem p (load_mem m inp len) m2))"
    using cbc128_decrypt_eq [OF assms(2,4,6,9,8), of m2] out(1) by (simp add: xs(2))
  let ?m3 = "store_mem ivec iv (store_mem p (load_mem m inp len) m2)"
  have short: "len \<le> 16 * k" using assms(4) by simp
  then have "load_mem ?m3 p len = load_mem m inp len"
    using assms(9) l(2) by (auto simp: load_store_apart load_store_same apart_def)
  moreover have "load_mem ?m3 ivec 16 = iv" "load_mem m1 ivec 16 = iv"
    unfolding m1 using l(2) by (simp_all add: mem_simps)
  moreover have "?m3 a = m1 a" if "(a < p \<or> p + len \<le> a) \<and> (a < ivec \<or> ivec + 16 \<le> a)" for a
    unfolding m2 m1 using that l by (auto simp: store_outside store_mem_def)
  moreover have "m1 a = m a" if "(a < out \<or> out + 16 * k \<le> a) \<and> (a < ivec \<or> ivec + 16 \<le> a)" for a
    unfolding m1 using that l by (auto simp: store_outside)
  ultimately show ?thesis using dec out(2) unfolding final cs_def xs_def by blast
qed

text \<open>Forty bytes, the last block of them cut, overlapping.\<close>

lemma cbc128_round_trip_witness:
  "\<exists>m3. CRYPTO_cbc128_decrypt rev 80 75 40 10
        (store_mem 10 (load_mem (\<lambda>a. of_nat a) 10 16) (CRYPTO_cbc128_encrypt rev 100 80 40 10 (\<lambda>a. of_nat a))) = Some m3
      \<and> load_mem m3 75 40 = load_mem (\<lambda>a. of_nat a) 100 40
      \<and> load_mem m3 10 16 = load_mem (CRYPTO_cbc128_encrypt rev 100 80 40 10 (\<lambda>a. of_nat a)) 112 16"
proof -
  have ok: "behind 80 100 48" "behind 75 80 48" "apart 10 16 100 48" "apart 10 16 80 48" "apart 10 16 75 48"
    by (simp_all add: behind_def apart_def)
  show ?thesis
    using cbc128_round_trip [OF rev_block_cipher rev_block_cipher _ _ _ _ _ _ _ refl refl refl,
        where k = 3 and len = 40 and inp = 100 and out = 80 and p = 75 and ivec = 10 and m = "\<lambda>a. of_nat a"] ok
    by simp blast
qed

end
