(* ===== verification/Digest.thy ===== *)
theory Digest
  imports Md4 Md5 Sha1 Sha256 Sha512 "HOL-Library.Monad_Syntax"
begin

text \<open>
  The digest interface (crypto/fipsmodule/digest/digest.c and digests.c): a table of methods per hash
  function, and a context that owns the state of the function it was last initialised for.

  A pointer to a static method table is the constructor of \<open>EVP_MD\<close>. The memory block behind
  \<open>md_data\<close> is a value of \<open>md_block\<close>, one constructor per C type it is cast to. An operation
  yields \<open>None\<close> where C would follow a null pointer, read a block at the wrong type or fail an
  assertion; that this never happens to a well-formed context is part of what is proved.
  The heap is the sequence of answers of OPENSSL_malloc: each call either fails or grants a block
  with arbitrary contents. The member \<open>pctx\<close>, which belongs to the public key code, is not modelled.
\<close>

section \<open>Method tables (digests.c)\<close>

datatype EVP_MD = EVP_md4 | EVP_md5 | EVP_sha1 | EVP_sha224 | EVP_sha256 | EVP_sha384 | EVP_sha512 | EVP_md5_sha1

abbreviation (input) EVP_MAX_MD_SIZE :: nat where "EVP_MAX_MD_SIZE \<equiv> 64"
abbreviation (input) EVP_MAX_MD_BLOCK_SIZE :: nat where "EVP_MAX_MD_BLOCK_SIZE \<equiv> 128"

fun EVP_MD_type :: "EVP_MD \<Rightarrow> nat" where
  "EVP_MD_type EVP_md4 = 257"
| "EVP_MD_type EVP_md5 = 4"
| "EVP_MD_type EVP_sha1 = 64"
| "EVP_MD_type EVP_sha224 = 675"
| "EVP_MD_type EVP_sha256 = 672"
| "EVP_MD_type EVP_sha384 = 673"
| "EVP_MD_type EVP_sha512 = 674"
| "EVP_MD_type EVP_md5_sha1 = 114"

fun EVP_MD_flags :: "EVP_MD \<Rightarrow> u32" where
  "EVP_MD_flags md = 0"

fun EVP_MD_size :: "EVP_MD \<Rightarrow> nat" where
  "EVP_MD_size EVP_md4 = 16"
| "EVP_MD_size EVP_md5 = 16"
| "EVP_MD_size EVP_sha1 = 20"
| "EVP_MD_size EVP_sha224 = 28"
| "EVP_MD_size EVP_sha256 = 32"
| "EVP_MD_size EVP_sha384 = SHA384_DIGEST_LENGTH"
| "EVP_MD_size EVP_sha512 = SHA512_DIGEST_LENGTH"
| "EVP_MD_size EVP_md5_sha1 = 16 + 20"

fun EVP_MD_block_size :: "EVP_MD \<Rightarrow> nat" where
  "EVP_MD_block_size EVP_sha384 = 128"
| "EVP_MD_block_size EVP_sha512 = 128"
| "EVP_MD_block_size md = 64"

text \<open>The table is finite, so that a statement about every method can be evaluated.\<close>

instantiation EVP_MD :: enum
begin

definition enum_EVP_MD :: "EVP_MD list" where
  "enum_EVP_MD = [EVP_md4, EVP_md5, EVP_sha1, EVP_sha224, EVP_sha256, EVP_sha384, EVP_sha512, EVP_md5_sha1]"

definition enum_all_EVP_MD :: "(EVP_MD \<Rightarrow> bool) \<Rightarrow> bool" where
  "enum_all_EVP_MD P \<longleftrightarrow> list_all P enum_class.enum"

definition enum_ex_EVP_MD :: "(EVP_MD \<Rightarrow> bool) \<Rightarrow> bool" where
  "enum_ex_EVP_MD P \<longleftrightarrow> list_ex P enum_class.enum"

instance
proof
  show univ: "(UNIV :: EVP_MD set) = set enum_class.enum"
  proof (intro set_eqI iffI)
    fix md :: EVP_MD
    show "md \<in> set enum_class.enum" by (cases md) (simp_all add: enum_EVP_MD_def)
  qed simp
  show "distinct (enum_class.enum :: EVP_MD list)" by (simp add: enum_EVP_MD_def)
  show "enum_class.enum_all P \<longleftrightarrow> Ball UNIV P" for P :: "EVP_MD \<Rightarrow> bool"
    by (simp only: univ enum_all_EVP_MD_def list_all_iff)
  show "enum_class.enum_ex P \<longleftrightarrow> Bex UNIV P" for P :: "EVP_MD \<Rightarrow> bool"
    by (simp only: univ enum_ex_EVP_MD_def list_ex_iff)
qed

end

lemma EVP_MD_type_inj: "\<forall>md md'. EVP_MD_type md = EVP_MD_type md' \<longrightarrow> md = md'"
  by code_simp

text \<open>The contents of \<open>md_data\<close>, by the type it is cast to.\<close>

datatype md_block =
    MD32_CTX md32_ctx
  | SHA256_CTX sha256_ctx
  | SHA512_CTX sha512_ctx
  | MD5_SHA1_CTX md32_ctx md32_ctx

fun md_init :: "EVP_MD \<Rightarrow> md_block \<Rightarrow> md_block option" where
  "md_init EVP_md4 (MD32_CTX c) = Some (MD32_CTX MD4_Init)"
| "md_init EVP_md5 (MD32_CTX c) = Some (MD32_CTX MD5_Init)"
| "md_init EVP_sha1 (MD32_CTX c) = Some (MD32_CTX SHA1_Init)"
| "md_init EVP_sha224 (SHA256_CTX c) = Some (SHA256_CTX SHA224_Init)"
| "md_init EVP_sha256 (SHA256_CTX c) = Some (SHA256_CTX SHA256_Init)"
| "md_init EVP_sha384 (SHA512_CTX c) = Some (SHA512_CTX (SHA384_Init c))"
| "md_init EVP_sha512 (SHA512_CTX c) = Some (SHA512_CTX (SHA512_Init c))"
| "md_init EVP_md5_sha1 (MD5_SHA1_CTX c d) = Some (MD5_SHA1_CTX MD5_Init SHA1_Init)"
| "md_init _ _ = None"

fun md_update :: "EVP_MD \<Rightarrow> bytes \<Rightarrow> md_block \<Rightarrow> md_block option" where
  "md_update EVP_md4 data (MD32_CTX c) = Some (MD32_CTX (MD4_Update data c))"
| "md_update EVP_md5 data (MD32_CTX c) = Some (MD32_CTX (MD5_Update data c))"
| "md_update EVP_sha1 data (MD32_CTX c) = Some (MD32_CTX (SHA1_Update data c))"
| "md_update EVP_sha224 data (SHA256_CTX c) = Some (SHA256_CTX (SHA224_Update data c))"
| "md_update EVP_sha256 data (SHA256_CTX c) = Some (SHA256_CTX (SHA256_Update data c))"
| "md_update EVP_sha384 data (SHA512_CTX c) = Some (SHA512_CTX (SHA384_Update data c))"
| "md_update EVP_sha512 data (SHA512_CTX c) = Some (SHA512_CTX (SHA512_Update data c))"
| "md_update EVP_md5_sha1 data (MD5_SHA1_CTX c d) = Some (MD5_SHA1_CTX (MD5_Update data c) (SHA1_Update data d))"
| "md_update _ _ _ = None"

text \<open>\<open>CHECK\<close> asserts that the final function returned one.\<close>

fun CHECK_final :: "('c \<Rightarrow> md_block) \<Rightarrow> bytes option \<times> 'c \<Rightarrow> (bytes \<times> md_block) option" where
  "CHECK_final blk (Some out, c) = Some (out, blk c)"
| "CHECK_final blk (None, c) = None"

fun md_final :: "EVP_MD \<Rightarrow> md_block \<Rightarrow> (bytes \<times> md_block) option" where
  "md_final EVP_md4 (MD32_CTX c) = CHECK_final MD32_CTX (MD4_Final c)"
| "md_final EVP_md5 (MD32_CTX c) = CHECK_final MD32_CTX (MD5_Final c)"
| "md_final EVP_sha1 (MD32_CTX c) = CHECK_final MD32_CTX (SHA1_Final c)"
| "md_final EVP_sha224 (SHA256_CTX c) = CHECK_final SHA256_CTX (SHA224_Final c)"
| "md_final EVP_sha256 (SHA256_CTX c) = CHECK_final SHA256_CTX (SHA256_Final c)"
| "md_final EVP_sha384 (SHA512_CTX c) = CHECK_final SHA512_CTX (SHA384_Final False c)"
| "md_final EVP_sha512 (SHA512_CTX c) = CHECK_final SHA512_CTX (SHA512_Final False c)"
| "md_final EVP_md5_sha1 (MD5_SHA1_CTX c d) =
     do { (out1, c) \<leftarrow> (case MD5_Final c of (r, c) \<Rightarrow> map_option (\<lambda>out. (out, c)) r);
          (out2, d) \<leftarrow> (case SHA1_Final d of (r, d) \<Rightarrow> map_option (\<lambda>out. (out, d)) r);
          Some (out1 @ out2, MD5_SHA1_CTX c d) }"
| "md_final _ _ = None"

section \<open>Contexts (digest.c)\<close>

record env_md_ctx =
  ctx_digest :: "EVP_MD option"
  md_data :: "md_block option"

type_synonym heap = "nat \<Rightarrow> EVP_MD \<Rightarrow> md_block option"

text \<open>The call \<open>OPENSSL_malloc(md->ctx_size)\<close>.\<close>

definition malloc_md :: "EVP_MD \<Rightarrow> heap \<Rightarrow> md_block option \<times> heap" where
  "malloc_md md h = (h 0 md, \<lambda>n. h (Suc n))"

text \<open>\<open>ctx_size\<close> bytes of zeros, what OPENSSL_cleanse leaves.\<close>

definition zero_md32 :: "nat \<Rightarrow> md32_ctx" where
  "zero_md32 n = \<lparr>ctx_h = replicate n 0, ctx_Nl = 0, ctx_Nh = 0, ctx_data = replicate 64 0, ctx_num = 0\<rparr>"

definition zero_sha512 :: sha512_ctx where
  "zero_sha512 = \<lparr>ctx5_h = replicate 8 0, ctx5_Nl = 0, ctx5_Nh = 0, ctx5_p = replicate 128 0, ctx5_num = 0,
     ctx5_md_len = 0\<rparr>"

fun zero_block :: "EVP_MD \<Rightarrow> md_block" where
  "zero_block EVP_sha1 = MD32_CTX (zero_md32 5)"
| "zero_block EVP_sha224 = SHA256_CTX (md32_ctx.extend (zero_md32 8) (sha256_ctx.fields 0))"
| "zero_block EVP_sha256 = SHA256_CTX (md32_ctx.extend (zero_md32 8) (sha256_ctx.fields 0))"
| "zero_block EVP_sha384 = SHA512_CTX zero_sha512"
| "zero_block EVP_sha512 = SHA512_CTX zero_sha512"
| "zero_block EVP_md5_sha1 = MD5_SHA1_CTX (zero_md32 4) (zero_md32 5)"
| "zero_block md = MD32_CTX (zero_md32 4)"

definition EVP_MD_CTX_init :: env_md_ctx where
  "EVP_MD_CTX_init = \<lparr>ctx_digest = None, md_data = None\<rparr>"

definition EVP_MD_CTX_new :: "bool \<Rightarrow> env_md_ctx option" where
  "EVP_MD_CTX_new granted = (if granted then Some EVP_MD_CTX_init else None)"

definition EVP_MD_CTX_cleanup :: "env_md_ctx \<Rightarrow> env_md_ctx" where
  "EVP_MD_CTX_cleanup ctx = EVP_MD_CTX_init"

definition EVP_MD_CTX_reset :: "env_md_ctx \<Rightarrow> env_md_ctx" where
  "EVP_MD_CTX_reset ctx = (let ctx = EVP_MD_CTX_cleanup ctx in EVP_MD_CTX_init)"

text \<open>\<open>OPENSSL_memcpy\<close> of a whole block needs both pointers.\<close>

definition memcpy_block :: "md_block option \<Rightarrow> md_block option \<Rightarrow> md_block option" where
  "memcpy_block dst src = do { _ \<leftarrow> dst; src }"

definition EVP_MD_CTX_copy_ex :: "env_md_ctx option \<Rightarrow> env_md_ctx \<Rightarrow> heap \<Rightarrow> (bool \<times> env_md_ctx \<times> heap) option" where
  "EVP_MD_CTX_copy_ex inp out h =
     (case inp of None \<Rightarrow> Some (False, out, h) | Some inp \<Rightarrow>
      case ctx_digest inp of None \<Rightarrow> Some (False, out, h) | Some md \<Rightarrow>
        let (granted, tmp_buf, h) =
              (if ctx_digest out \<noteq> Some md
               then (case malloc_md md h of (b, h) \<Rightarrow> (b \<noteq> None, b, h))
               else (True, md_data out, h))
        in if \<not> granted then Some (False, out, h)
           else do { let out = EVP_MD_CTX_cleanup (out\<lparr>md_data := None\<rparr>);
                     b \<leftarrow> memcpy_block tmp_buf (md_data inp);
                     Some (True, out\<lparr>ctx_digest := Some md, md_data := Some b\<rparr>, h) })"

definition EVP_MD_CTX_copy :: "env_md_ctx option \<Rightarrow> heap \<Rightarrow> (bool \<times> env_md_ctx \<times> heap) option" where
  "EVP_MD_CTX_copy inp h = EVP_MD_CTX_copy_ex inp EVP_MD_CTX_init h"

definition EVP_DigestInit_ex :: "EVP_MD \<Rightarrow> env_md_ctx \<Rightarrow> heap \<Rightarrow> (bool \<times> env_md_ctx \<times> heap) option" where
  "EVP_DigestInit_ex type ctx h =
     (let (granted, ctx, h) =
        (if ctx_digest ctx \<noteq> Some type
         then (case malloc_md type h of
                 (None, h) \<Rightarrow> (False, ctx, h)
               | (Some b, h) \<Rightarrow> (True, ctx\<lparr>md_data := Some b, ctx_digest := Some type\<rparr>, h))
         else (True, ctx, h))
      in if \<not> granted then Some (False, ctx, h)
         else do { md \<leftarrow> ctx_digest ctx; b \<leftarrow> md_data ctx; b \<leftarrow> md_init md b;
                   Some (True, ctx\<lparr>md_data := Some b\<rparr>, h) })"

definition EVP_DigestInit :: "EVP_MD \<Rightarrow> heap \<Rightarrow> (bool \<times> env_md_ctx \<times> heap) option" where
  "EVP_DigestInit type h = EVP_DigestInit_ex type EVP_MD_CTX_init h"

text \<open>These two always return one; the second yields what it writes to \<open>md_out\<close> and \<open>*size\<close>.\<close>

definition EVP_DigestUpdate :: "bytes \<Rightarrow> env_md_ctx \<Rightarrow> env_md_ctx option" where
  "EVP_DigestUpdate data ctx =
     do { md \<leftarrow> ctx_digest ctx; b \<leftarrow> md_data ctx; b \<leftarrow> md_update md data b;
          Some (ctx\<lparr>md_data := Some b\<rparr>) }"

definition EVP_DigestFinal_ex :: "env_md_ctx \<Rightarrow> (bytes \<times> nat \<times> env_md_ctx) option" where
  "EVP_DigestFinal_ex ctx =
     do { md \<leftarrow> ctx_digest ctx;
          if \<not> EVP_MD_size md \<le> EVP_MAX_MD_SIZE then None else
          do { b \<leftarrow> md_data ctx; (out, b) \<leftarrow> md_final md b;
               Some (out, EVP_MD_size md, ctx\<lparr>md_data := Some (zero_block md)\<rparr>) } }"

definition EVP_DigestFinal :: "env_md_ctx \<Rightarrow> (bytes \<times> nat \<times> env_md_ctx) option" where
  "EVP_DigestFinal ctx =
     do { (out, n, ctx) \<leftarrow> EVP_DigestFinal_ex ctx; Some (out, n, EVP_MD_CTX_cleanup ctx) }"

definition EVP_Digest :: "bytes \<Rightarrow> EVP_MD \<Rightarrow> heap \<Rightarrow> ((bytes \<times> nat) option \<times> heap) option" where
  "EVP_Digest data type h =
     do { (ok, ctx, h) \<leftarrow> EVP_DigestInit_ex type EVP_MD_CTX_init h;
          if \<not> ok then Some (None, h)
          else do { ctx \<leftarrow> EVP_DigestUpdate data ctx; (out, n, ctx) \<leftarrow> EVP_DigestFinal_ex ctx;
                    Some (Some (out, n), h) } }"

text \<open>The accessors; \<open>None\<close> of the last three is a null pointer read.\<close>

definition EVP_MD_CTX_md :: "env_md_ctx option \<Rightarrow> EVP_MD option" where
  "EVP_MD_CTX_md ctx = (case ctx of None \<Rightarrow> None | Some ctx \<Rightarrow> ctx_digest ctx)"

definition EVP_MD_CTX_size :: "env_md_ctx option \<Rightarrow> nat option" where
  "EVP_MD_CTX_size ctx = map_option EVP_MD_size (EVP_MD_CTX_md ctx)"

definition EVP_MD_CTX_block_size :: "env_md_ctx option \<Rightarrow> nat option" where
  "EVP_MD_CTX_block_size ctx = map_option EVP_MD_block_size (EVP_MD_CTX_md ctx)"

definition EVP_MD_CTX_type :: "env_md_ctx option \<Rightarrow> nat option" where
  "EVP_MD_CTX_type ctx = map_option EVP_MD_type (EVP_MD_CTX_md ctx)"

section \<open>What they compute\<close>

fun md_hash :: "EVP_MD \<Rightarrow> bytes \<Rightarrow> bytes" where
  "md_hash EVP_md4 xs = md4_hash xs"
| "md_hash EVP_md5 xs = md5_hash xs"
| "md_hash EVP_sha1 xs = sha1_hash xs"
| "md_hash EVP_sha224 xs = sha224_hash xs"
| "md_hash EVP_sha256 xs = sha256_hash xs"
| "md_hash EVP_sha384 xs = sha384_hash xs"
| "md_hash EVP_sha512 xs = sha512_hash xs"
| "md_hash EVP_md5_sha1 xs = md5_hash xs @ sha1_hash xs"

text \<open>A block of the size and shape the method casts it to, and one that has absorbed a message.\<close>

fun block_ok :: "EVP_MD \<Rightarrow> md_block \<Rightarrow> bool" where
  "block_ok EVP_sha224 b = (case b of SHA256_CTX c \<Rightarrow> True | _ \<Rightarrow> False)"
| "block_ok EVP_sha256 b = (case b of SHA256_CTX c \<Rightarrow> True | _ \<Rightarrow> False)"
| "block_ok EVP_sha384 b = (case b of SHA512_CTX c \<Rightarrow> length (ctx5_p c) = 128 | _ \<Rightarrow> False)"
| "block_ok EVP_sha512 b = (case b of SHA512_CTX c \<Rightarrow> length (ctx5_p c) = 128 | _ \<Rightarrow> False)"
| "block_ok EVP_md5_sha1 b = (case b of MD5_SHA1_CTX c d \<Rightarrow> True | _ \<Rightarrow> False)"
| "block_ok md b = (case b of MD32_CTX c \<Rightarrow> True | _ \<Rightarrow> False)"

abbreviation (input) md5_iv :: "u32 list" where
  "md5_iv \<equiv> [0x67452301, 0xefcdab89, 0x98badcfe, 0x10325476]"

fun md_rep :: "EVP_MD \<Rightarrow> md_block \<Rightarrow> bytes \<Rightarrow> bool" where
  "md_rep EVP_md4 b xs = (case b of MD32_CTX c \<Rightarrow> md32_rep md4_compress md5_iv c xs | _ \<Rightarrow> False)"
| "md_rep EVP_md5 b xs = (case b of MD32_CTX c \<Rightarrow> md32_rep md5_compress md5_iv c xs | _ \<Rightarrow> False)"
| "md_rep EVP_sha1 b xs = (case b of MD32_CTX c \<Rightarrow> md32_rep sha1_compress sha1_iv c xs | _ \<Rightarrow> False)"
| "md_rep EVP_sha224 b xs = (case b of SHA256_CTX c \<Rightarrow> sha256_rep sha224_iv 28 c xs | _ \<Rightarrow> False)"
| "md_rep EVP_sha256 b xs = (case b of SHA256_CTX c \<Rightarrow> sha256_rep sha256_iv 32 c xs | _ \<Rightarrow> False)"
| "md_rep EVP_sha384 b xs = (case b of SHA512_CTX c \<Rightarrow> sha512_rep sha384_iv 48 c xs | _ \<Rightarrow> False)"
| "md_rep EVP_sha512 b xs = (case b of SHA512_CTX c \<Rightarrow> sha512_rep sha512_iv 64 c xs | _ \<Rightarrow> False)"
| "md_rep EVP_md5_sha1 b xs = (case b of MD5_SHA1_CTX c d \<Rightarrow>
     md32_rep md5_compress md5_iv c xs \<and> md32_rep sha1_compress sha1_iv d xs | _ \<Rightarrow> False)"

lemma md_rep_block_ok: "md_rep md b xs \<Longrightarrow> block_ok md b"
  by (cases md; cases b) (simp_all add: sha512_rep_def)

lemma zero_block_ok [simp]: "block_ok md (zero_block md)"
  by (cases md) (simp_all add: zero_sha512_def)

lemma sha512_init_rep:
  "length (ctx5_p c) = 128 \<Longrightarrow> sha512_rep sha512_iv 64 (SHA512_Init c) []"
  "length (ctx5_p c) = 128 \<Longrightarrow> sha512_rep sha384_iv 48 (SHA384_Init c) []"
  by (simp_all add: sha512_rep_def SHA512_Init_def SHA384_Init_def tail_def)

lemma md_init_rep: "block_ok md b \<Longrightarrow> \<exists>b'. md_init md b = Some b' \<and> md_rep md b' []"
  by (cases md; cases b) (simp_all add: md4_stream.rep_init md5_stream.rep_init sha1_stream.rep_init
      sha224_stream.rep_init sha256_stream.rep_init sha512_init_rep)

lemma md_update_rep: "md_rep md b xs \<Longrightarrow> \<exists>b'. md_update md ys b = Some b' \<and> md_rep md b' (xs @ ys)"
  by (cases md; cases b) (simp_all add: md4_stream.rep_update md5_stream.rep_update sha1_stream.rep_update
      sha224_stream.rep_update sha256_stream.rep_update sha384_stream.rep_update sha512_stream.rep_update)

lemma CHECK_final_fst: "fst (r :: bytes option \<times> 'c) = Some out \<Longrightarrow> \<exists>b. CHECK_final blk r = Some (out, b)"
  by (cases r) auto

lemma md_final_rep: "md_rep md b xs \<Longrightarrow> \<exists>b'. md_final md b = Some (md_hash md xs, b')"
proof (cases md)
  case EVP_md5_sha1
  assume rep: "md_rep md b xs"
  with EVP_md5_sha1 obtain c d where b: "b = MD5_SHA1_CTX c d"
    "md32_rep md5_compress md5_iv c xs" "md32_rep sha1_compress sha1_iv d xs"
    by (cases b) auto
  show ?thesis
    using md5_stream.rep_final [OF b(2)] sha1_stream.rep_final [OF b(3)]
    by (cases "MD5_Final c"; cases "SHA1_Final d") (simp add: EVP_md5_sha1 b(1))
qed (cases b; simp; rule CHECK_final_fst; erule md4_stream.rep_final md5_stream.rep_final
    sha1_stream.rep_final sha224_stream.rep_final sha256_stream.rep_final
    sha384_stream.rep_final sha512_stream.rep_final)+

text \<open>A final function that succeeds leaves a block of its method's type, which can be started again.\<close>

fun_cases CHECK_final_SomeE: "CHECK_final blk r = Some (out, b)"

lemma md_final_typed: "md_final md b = Some (out, b') \<Longrightarrow> md_init md b' \<noteq> None"
  by (cases md; cases b) (auto elim!: CHECK_final_SomeE split: Option.bind_splits)

lemma md_size_bounds [simp]:
  "0 < EVP_MD_size md" "EVP_MD_size md \<le> 64" "EVP_MD_size md < EVP_MD_block_size md" "EVP_MD_block_size md \<le> 128"
  by (cases md; simp)+

section \<open>Well-formed contexts\<close>

definition heap_ok :: "heap \<Rightarrow> bool" where
  "heap_ok h \<longleftrightarrow> (\<forall>n md b. h n md = Some b \<longrightarrow> block_ok md b)"

definition grants :: "heap \<Rightarrow> bool" where
  "grants h \<longleftrightarrow> (\<forall>n md. h n md \<noteq> None)"

definition ctx_ok :: "env_md_ctx \<Rightarrow> bool" where
  "ctx_ok c = (case (ctx_digest c, md_data c) of
     (None, None) \<Rightarrow> True | (Some md, Some b) \<Rightarrow> block_ok md b | _ \<Rightarrow> False)"

definition ctx_rep :: "EVP_MD \<Rightarrow> env_md_ctx \<Rightarrow> bytes \<Rightarrow> bool" where
  "ctx_rep md c xs = (ctx_digest c = Some md \<and> (case md_data c of Some b \<Rightarrow> md_rep md b xs | None \<Rightarrow> False))"

lemma ctx_ok_init [simp]: "ctx_ok EVP_MD_CTX_init"
  by (simp add: ctx_ok_def EVP_MD_CTX_init_def)

lemma ctx_rep_ok: "ctx_rep md c xs \<Longrightarrow> ctx_ok c"
  by (auto simp: ctx_rep_def ctx_ok_def md_rep_block_ok split: option.splits)

lemma ctx_repE:
  assumes "ctx_rep md c xs"
  obtains b where "c = \<lparr>ctx_digest = Some md, md_data = Some b\<rparr>" "md_rep md b xs"
  using assms by (cases c) (auto simp: ctx_rep_def split: option.splits)

lemma heap_shift:
  "heap_ok h \<Longrightarrow> heap_ok (\<lambda>n. h (Suc n))" "grants h \<Longrightarrow> grants (\<lambda>n. h (Suc n))"
  by (simp_all add: heap_ok_def grants_def)

lemma EVP_DigestInit_ex_ok:
  assumes "ctx_ok c" "heap_ok h"
  obtains ok c' h' where "EVP_DigestInit_ex md c h = Some (ok, c', h')" "heap_ok h'" "ctx_ok c'"
    "if ok then ctx_rep md c' [] else c' = c" "grants h \<longrightarrow> ok \<and> grants h'"
    "ctx_digest c = Some md \<longrightarrow> ok"
proof (cases "ctx_digest c = Some md")
  case True
  then obtain b where b: "md_data c = Some b" "block_ok md b"
    using assms(1) by (auto simp: ctx_ok_def split: option.splits)
  obtain b' where b': "md_init md b = Some b'" "md_rep md b' []" using md_init_rep [OF b(2)] by blast
  have rep: "ctx_rep md (c\<lparr>md_data := Some b'\<rparr>) []" using True b' by (simp add: ctx_rep_def)
  show ?thesis
    by (rule that [of True "c\<lparr>md_data := Some b'\<rparr>" h])
      (simp_all add: EVP_DigestInit_ex_def True b b' assms(2) rep ctx_rep_ok [OF rep])
next
  case False
  show ?thesis
  proof (cases "h 0 md")
    case None
    show ?thesis
      by (rule that [of False c "\<lambda>n. h (Suc n)"])
        (use None False assms in \<open>auto simp: EVP_DigestInit_ex_def malloc_md_def heap_shift grants_def simp del: not_None_eq\<close>)
  next
    case (Some b)
    then have "block_ok md b" using assms(2) by (simp add: heap_ok_def)
    then obtain b' where b': "md_init md b = Some b'" "md_rep md b' []" using md_init_rep by blast
    have rep: "ctx_rep md (c\<lparr>md_data := Some b', ctx_digest := Some md\<rparr>) []" using b' by (simp add: ctx_rep_def)
    show ?thesis
      by (rule that [of True "c\<lparr>md_data := Some b', ctx_digest := Some md\<rparr>" "\<lambda>n. h (Suc n)"])
        (use rep in \<open>simp_all add: EVP_DigestInit_ex_def malloc_md_def False Some b' heap_shift assms ctx_rep_ok [OF rep]\<close>)
  qed
qed

lemma EVP_DigestUpdate_rep:
  assumes "ctx_rep md c xs"
  obtains c' where "EVP_DigestUpdate ys c = Some c'" "ctx_rep md c' (xs @ ys)"
proof -
  from assms obtain b where c: "c = \<lparr>ctx_digest = Some md, md_data = Some b\<rparr>" and "md_rep md b xs" by (rule ctx_repE)
  then obtain b' where b': "md_update md ys b = Some b'" "md_rep md b' (xs @ ys)" using md_update_rep by blast
  show ?thesis
    by (rule that [of "c\<lparr>md_data := Some b'\<rparr>"]) (simp_all add: EVP_DigestUpdate_def c b' ctx_rep_def)
qed

lemma EVP_DigestFinal_ex_rep:
  assumes "ctx_rep md c xs"
  shows "EVP_DigestFinal_ex c
    = Some (md_hash md xs, EVP_MD_size md, \<lparr>ctx_digest = Some md, md_data = Some (zero_block md)\<rparr>)"
proof -
  from assms obtain b where c: "c = \<lparr>ctx_digest = Some md, md_data = Some b\<rparr>" and "md_rep md b xs" by (rule ctx_repE)
  then obtain b' where b': "md_final md b = Some (md_hash md xs, b')" using md_final_rep by blast
  show ?thesis by (simp add: EVP_DigestFinal_ex_def c b')
qed

lemma ctx_ok_zero [simp]: "ctx_ok \<lparr>ctx_digest = Some md, md_data = Some (zero_block md)\<rparr>"
  by (simp add: ctx_ok_def)

lemma EVP_MD_CTX_copy_ex_ok:
  assumes "ctx_rep md i xs" "ctx_ok c" "heap_ok h"
  obtains ok c' h' where "EVP_MD_CTX_copy_ex (Some i) c h = Some (ok, c', h')" "heap_ok h'"
    "if ok then c' = i else c' = c" "grants h \<longrightarrow> ok \<and> grants h'" "ctx_digest c = Some md \<longrightarrow> ok"
proof -
  from assms(1) obtain b where i: "i = \<lparr>ctx_digest = Some md, md_data = Some b\<rparr>" by (rule ctx_repE)
  show ?thesis
  proof (cases "ctx_digest c = Some md")
    case True
    then obtain b0 where b0: "md_data c = Some b0"
      using assms(2) by (auto simp: ctx_ok_def split: option.splits)
    show ?thesis
      by (rule that [of True i h])
        (simp_all add: EVP_MD_CTX_copy_ex_def True b0 i memcpy_block_def EVP_MD_CTX_cleanup_def EVP_MD_CTX_init_def assms)
  next
    case False
    show ?thesis
    proof (cases "h 0 md")
      case None
      show ?thesis
        by (rule that [of False c "\<lambda>n. h (Suc n)"])
          (use None False assms in \<open>auto simp: EVP_MD_CTX_copy_ex_def i malloc_md_def heap_shift grants_def simp del: not_None_eq\<close>)
    next
      case (Some b0)
      show ?thesis
        by (rule that [of True i "\<lambda>n. h (Suc n)"])
          (use False assms in \<open>simp_all add: EVP_MD_CTX_copy_ex_def Some malloc_md_def heap_shift i memcpy_block_def
             EVP_MD_CTX_cleanup_def EVP_MD_CTX_init_def\<close>)
    qed
  qed
qed

text \<open>Every operation keeps contexts well-formed, so the streaming contract holds of any history.\<close>

interpretation evp_stream: streaming "the (md_init md (zero_block md))" "\<lambda>xs b. the (md_update md xs b)"
  "\<lambda>b. map_option fst (md_final md b)" "\<lambda>_. True" "md_rep md" "\<lambda>xs. Some (md_hash md xs)" for md
proof
  show "md_rep md (the (md_init md (zero_block md))) []"
    using md_init_rep [OF zero_block_ok [of md]] by auto
next
  fix s xs
  assume rep: "md_rep md s xs"
  show "map_option fst (md_final md s) = Some (md_hash md xs)"
    using md_final_rep [OF rep] by auto
  show "md_rep md (the (md_update md ys s)) (xs @ ys)" for ys
    using md_update_rep [OF rep, of ys] by auto
qed

fun EVP_updates :: "bytes list \<Rightarrow> env_md_ctx \<Rightarrow> env_md_ctx option" where
  "EVP_updates [] c = Some c"
| "EVP_updates (d # ds) c = do { c \<leftarrow> EVP_DigestUpdate d c; EVP_updates ds c }"

lemma EVP_updates_rep:
  "ctx_rep md c xs \<Longrightarrow> \<exists>c'. EVP_updates parts c = Some c' \<and> ctx_rep md c' (xs @ concat parts)"
proof (induction parts arbitrary: c xs)
  case (Cons d ds)
  from Cons.prems obtain c1 where "EVP_DigestUpdate d c = Some c1" "ctx_rep md c1 (xs @ d)"
    by (rule EVP_DigestUpdate_rep)
  then show ?case using Cons.IH [of c1 "xs @ d"] by simp
qed simp

lemma length_concat_const: "(\<And>x. length (f x) = k) \<Longrightarrow> length (concat (map f xs)) = k * length xs"
  by (induction xs) simp_all

lemma length_md [simp]:
  "length (merkle_damgard False 64 8 md4_compress md5_iv xs) = 4"
  "length (merkle_damgard False 64 8 md5_compress md5_iv xs) = 4"
  "length (merkle_damgard True 64 8 sha1_compress sha1_iv xs) = 5"
  "length (merkle_damgard True 64 8 sha256_compress sha224_iv xs) = 8"
  "length (merkle_damgard True 64 8 sha256_compress sha256_iv xs) = 8"
  "length (merkle_damgard True 128 16 sha512_compress sha384_iv xs) = 8"
  "length (merkle_damgard True 128 16 sha512_compress sha512_iv xs) = 8"
  unfolding merkle_damgard_def
  by (rule iterate_blocks_length; simp add: length_md4_compress length_md5_compress length_sha1_compress
      length_sha256_compress length_sha512_compress)+

lemma length_md_hash [simp]: "length (md_hash md xs) = EVP_MD_size md"
  by (cases md) (simp_all add: md4_hash_def md5_hash_def sha1_hash_def sha224_hash_def sha256_hash_def
      sha384_hash_def sha512_hash_def length_concat_const [where k = 4] length_concat_const [where k = 8])

text \<open>(C34) From any well-formed context, whatever digest it was used for before, EVP_DigestInit_ex
  either fails for want of memory, leaving the context as it was, or starts the digest asked for;
  updates in any cut and EVP_DigestFinal_ex then yield the hash of the whole message, of the
  announced size, and leave a well-formed context. No step follows a null pointer, reads the state of
  another hash function or fails an assertion, and only a refused allocation makes the
  one-shot EVP_Digest fail.\<close>

theorem EVP_digest_correct:
  assumes "ctx_ok c" "heap_ok h"
  shows "(\<exists>ok c1 h1. EVP_DigestInit_ex md c h = Some (ok, c1, h1) \<and> ctx_ok c1 \<and> heap_ok h1
      \<and> (grants h \<longrightarrow> ok) \<and> (\<not> ok \<longrightarrow> c1 = c)
      \<and> (ok \<longrightarrow> (\<exists>c2 c3. EVP_updates parts c1 = Some c2
            \<and> EVP_DigestFinal_ex c2 = Some (md_hash md (concat parts), EVP_MD_size md, c3) \<and> ctx_ok c3)))
    \<and> length (md_hash md (concat parts)) = EVP_MD_size md
    \<and> (\<exists>r h1. EVP_Digest data md h = Some (r, h1) \<and> (grants h \<longrightarrow> r \<noteq> None)
         \<and> (r \<noteq> None \<longrightarrow> r = Some (md_hash md data, EVP_MD_size md)))"
proof (intro conjI)
  obtain ok c1 h1 where i: "EVP_DigestInit_ex md c h = Some (ok, c1, h1)" "heap_ok h1" "ctx_ok c1"
    "if ok then ctx_rep md c1 [] else c1 = c" "grants h \<longrightarrow> ok \<and> grants h1"
    "ctx_digest c = Some md \<longrightarrow> ok"
    using assms by (rule EVP_DigestInit_ex_ok [of c h md])
  have "ok \<longrightarrow> (\<exists>c2. EVP_updates parts c1 = Some c2 \<and> ctx_rep md c2 (concat parts))"
    using i(4) EVP_updates_rep [of md c1 "[]" parts] by auto
  then show "\<exists>ok c1 h1. EVP_DigestInit_ex md c h = Some (ok, c1, h1) \<and> ctx_ok c1 \<and> heap_ok h1
      \<and> (grants h \<longrightarrow> ok) \<and> (\<not> ok \<longrightarrow> c1 = c)
      \<and> (ok \<longrightarrow> (\<exists>c2 c3. EVP_updates parts c1 = Some c2
            \<and> EVP_DigestFinal_ex c2 = Some (md_hash md (concat parts), EVP_MD_size md, c3) \<and> ctx_ok c3))"
    using i by (auto simp: EVP_DigestFinal_ex_rep)
next
  obtain ok c1 h1 where i: "EVP_DigestInit_ex md EVP_MD_CTX_init h = Some (ok, c1, h1)"
    "heap_ok h1" "ctx_ok c1" "if ok then ctx_rep md c1 [] else c1 = EVP_MD_CTX_init" "grants h \<longrightarrow> ok \<and> grants h1"
    "ctx_digest EVP_MD_CTX_init = Some md \<longrightarrow> ok"
    using ctx_ok_init assms(2) by (rule EVP_DigestInit_ex_ok [of EVP_MD_CTX_init h md])
  show "\<exists>r h1. EVP_Digest data md h = Some (r, h1) \<and> (grants h \<longrightarrow> r \<noteq> None)
         \<and> (r \<noteq> None \<longrightarrow> r = Some (md_hash md data, EVP_MD_size md))"
  proof (cases ok)
    case True
    with i have "ctx_rep md c1 []" by simp
    then obtain c2 where "EVP_DigestUpdate data c1 = Some c2" "ctx_rep md c2 ([] @ data)"
      by (rule EVP_DigestUpdate_rep)
    then show ?thesis using True i(1) by (simp add: EVP_Digest_def EVP_DigestFinal_ex_rep)
  qed (use i in \<open>auto simp: EVP_Digest_def\<close>)
qed simp

theorem EVP_digest_correct_witness:
  "\<exists>ok c1 h1. EVP_DigestInit_ex EVP_sha1 \<lparr>ctx_digest = Some EVP_md4, md_data = Some (zero_block EVP_md4)\<rparr>
      (\<lambda>n md. Some (zero_block md)) = Some (ok, c1, h1) \<and> ok
     \<and> (\<exists>c2 c3. EVP_updates [[1], [2, 3]] c1 = Some c2
            \<and> EVP_DigestFinal_ex c2 = Some (sha1_hash [1, 2, 3], 20, c3))"
proof -
  have "ctx_ok \<lparr>ctx_digest = Some EVP_md4, md_data = Some (zero_block EVP_md4)\<rparr>" by (rule ctx_ok_zero)
  moreover have "heap_ok (\<lambda>n md. Some (zero_block md))" by (simp add: heap_ok_def)
  moreover have "grants (\<lambda>n md. Some (zero_block md))" by (simp add: grants_def)
  ultimately show ?thesis
    using EVP_digest_correct [of _ "\<lambda>n md. Some (zero_block md)" EVP_sha1 "[[1], [2, 3]]" "[]"] by fastforce
qed

text \<open>(C25) However a message is cut into calls of MD4_Update or MD5_Update, the final call yields the
  hash of the whole message, with the padding and the compression functions in the form RFC 1320
  and RFC 1321 give them.\<close>

theorem md4_md5_hashes:
  "fst (MD4_Final (fold MD4_Update parts MD4_Init)) = Some (md4_hash (concat parts))
   \<and> fst (MD5_Final (fold MD5_Update parts MD5_Init)) = Some (md5_hash (concat parts))"
  by (intro conjI MD4_hashes MD5_hashes)

text \<open>(C26) The tables are what FIPS 180-4 says: K256 and K512 the first 32 and 64 bits of the fractional
  parts of the cube roots of the first 64 and 80 primes; the initial values of SHA-256, SHA-512 and
  SHA-384 the same of the square roots of the first eight primes and the next eight.\<close>

theorem sha2_constants_from_primes:
  "list_all2 (\<lambda>p k. frac_root 3 32 p (uint k)) (primes_below 312) K256
   \<and> list_all2 (\<lambda>p k. frac_root 2 32 p (uint k)) (primes_below 20) (ctx_h SHA256_Init)
   \<and> list_all2 (\<lambda>p k. frac_root 3 64 p (uint k)) (primes_below 410) K512
   \<and> list_all2 (\<lambda>p k. frac_root 2 64 p (uint k)) (primes_below 54) (ctx5_h (SHA512_Init c) @ ctx5_h (SHA384_Init c))"
  using K256_from_primes K512_from_primes by blast

end
