(* ===== verification/Hmac.thy ===== *)
theory Hmac
  imports Digest
begin

unbundle bit_operations_syntax

text \<open>
  The keyed hash of RFC 2104 (crypto/fipsmodule/hmac/hmac.c) over any digest of the table, and the key
  derivation of RFC 5869 built on it (crypto/hkdf/hkdf.c). As in the digest interface \<open>None\<close> stands
  for a null pointer access or a failed assertion, and the heap answers each allocation.
\<close>

section \<open>HMAC (hmac.c)\<close>

record hmac_ctx =
  hm_md :: "EVP_MD option"
  hm_md_ctx :: env_md_ctx
  hm_i_ctx :: env_md_ctx
  hm_o_ctx :: env_md_ctx

definition HMAC_CTX_init :: hmac_ctx where
  "HMAC_CTX_init = \<lparr>hm_md = None, hm_md_ctx = EVP_MD_CTX_init, hm_i_ctx = EVP_MD_CTX_init, hm_o_ctx = EVP_MD_CTX_init\<rparr>"

definition HMAC_CTX_new :: "bool \<Rightarrow> hmac_ctx option" where
  "HMAC_CTX_new granted = (if granted then Some HMAC_CTX_init else None)"

definition HMAC_CTX_cleanup :: "hmac_ctx \<Rightarrow> hmac_ctx" where
  "HMAC_CTX_cleanup ctx = \<lparr>hm_md = None, hm_md_ctx = EVP_MD_CTX_cleanup (hm_md_ctx ctx),
     hm_i_ctx = EVP_MD_CTX_cleanup (hm_i_ctx ctx), hm_o_ctx = EVP_MD_CTX_cleanup (hm_o_ctx ctx)\<rparr>"

definition HMAC_CTX_reset :: "hmac_ctx \<Rightarrow> hmac_ctx" where
  "HMAC_CTX_reset ctx = (let ctx = HMAC_CTX_cleanup ctx in HMAC_CTX_init)"

text \<open>The key block before its padding: a long key is hashed, in the context that is free for it. The
  first component is false where the digest fails.\<close>

definition hmac_key_block :: "EVP_MD \<Rightarrow> bytes \<Rightarrow> env_md_ctx \<Rightarrow> heap \<Rightarrow> (bytes option \<times> env_md_ctx \<times> heap) option" where
  "hmac_key_block md key c h =
     (if EVP_MD_block_size md < length key
      then do { (ok, c, h) \<leftarrow> EVP_DigestInit_ex md c h;
                if \<not> ok then Some (None, c, h)
                else do { c \<leftarrow> EVP_DigestUpdate key c; (key_block, n, c) \<leftarrow> EVP_DigestFinal_ex c;
                          Some (Some key_block, c, h) } }
      else if \<not> length key \<le> EVP_MAX_MD_BLOCK_SIZE then None
      else Some (Some key, c, h))"

text \<open>The two loops that fill \<open>pad\<close>, each with the start of its context.\<close>

definition hmac_pad :: "u8 \<Rightarrow> bytes \<Rightarrow> bytes" where
  "hmac_pad c key_block = map (\<lambda>i. c XOR key_block ! i) [0..<EVP_MAX_MD_BLOCK_SIZE]"

definition hmac_start :: "EVP_MD \<Rightarrow> bytes \<Rightarrow> env_md_ctx \<Rightarrow> heap \<Rightarrow> (bool \<times> env_md_ctx \<times> heap) option" where
  "hmac_start md pad c h =
     do { (ok, c, h) \<leftarrow> EVP_DigestInit_ex md c h;
          if \<not> ok then Some (False, c, h)
          else do { c \<leftarrow> EVP_DigestUpdate (take (EVP_MD_block_size md) pad) c; Some (True, c, h) } }"

definition hmac_set_key :: "EVP_MD \<Rightarrow> bytes \<Rightarrow> hmac_ctx \<Rightarrow> heap \<Rightarrow> (bool \<times> hmac_ctx \<times> heap) option" where
  "hmac_set_key md key ctx h =
     do { (kb, c, h) \<leftarrow> hmac_key_block md key (hm_md_ctx ctx) h;
          let ctx = ctx\<lparr>hm_md_ctx := c\<rparr>;
          case kb of None \<Rightarrow> Some (False, ctx, h) | Some kb \<Rightarrow>
          do { let key_block = kb @ replicate (EVP_MAX_MD_BLOCK_SIZE - length kb) 0;
               (ok, c, h) \<leftarrow> hmac_start md (hmac_pad 0x36 key_block) (hm_i_ctx ctx) h;
               let ctx = ctx\<lparr>hm_i_ctx := c\<rparr>;
               if \<not> ok then Some (False, ctx, h)
               else do { (ok, c, h) \<leftarrow> hmac_start md (hmac_pad 0x5c key_block) (hm_o_ctx ctx) h;
                         let ctx = ctx\<lparr>hm_o_ctx := c\<rparr>;
                         if \<not> ok then Some (False, ctx, h)
                         else Some (True, ctx\<lparr>hm_md := Some md\<rparr>, h) } } }"

text \<open>A null key has length zero.\<close>

definition HMAC_Init_ex :: "bytes option \<Rightarrow> EVP_MD option \<Rightarrow> hmac_ctx \<Rightarrow> heap \<Rightarrow> (bool \<times> hmac_ctx \<times> heap) option" where
  "HMAC_Init_ex key md ctx h =
     (let md = (if md = None then hm_md ctx else md) in
      do { (ok, ctx, h) \<leftarrow>
             (if md \<noteq> hm_md ctx \<or> key \<noteq> None
              then do { md \<leftarrow> md; hmac_set_key md (case key of None \<Rightarrow> [] | Some k \<Rightarrow> k) ctx h }
              else Some (True, ctx, h));
           if \<not> ok then Some (False, ctx, h)
           else do { (ok, c, h) \<leftarrow> EVP_MD_CTX_copy_ex (Some (hm_i_ctx ctx)) (hm_md_ctx ctx) h;
                     Some (ok, ctx\<lparr>hm_md_ctx := c\<rparr>, h) } })"

definition HMAC_Update :: "bytes \<Rightarrow> hmac_ctx \<Rightarrow> hmac_ctx option" where
  "HMAC_Update data ctx = do { c \<leftarrow> EVP_DigestUpdate data (hm_md_ctx ctx); Some (ctx\<lparr>hm_md_ctx := c\<rparr>) }"

text \<open>What is written to \<open>out\<close> and \<open>*out_len\<close>; the failing exit writes \<open>*out_len\<close> even when the
  caller passed a null pointer.\<close>

definition HMAC_Final :: "bool \<Rightarrow> hmac_ctx \<Rightarrow> heap \<Rightarrow> ((bytes \<times> nat) option \<times> hmac_ctx \<times> heap) option" where
  "HMAC_Final out_len_null ctx h =
     do { (buf, i, c) \<leftarrow> EVP_DigestFinal_ex (hm_md_ctx ctx);
          (ok, c, h) \<leftarrow> EVP_MD_CTX_copy_ex (Some (hm_o_ctx ctx)) c h;
          if \<not> ok then (if out_len_null then None else Some (None, ctx\<lparr>hm_md_ctx := c\<rparr>, h))
          else do { c \<leftarrow> EVP_DigestUpdate (take i buf) c; (out, out_len, c) \<leftarrow> EVP_DigestFinal_ex c;
                    Some (Some (out, out_len), ctx\<lparr>hm_md_ctx := c\<rparr>, h) } }"

definition HMAC_size :: "hmac_ctx \<Rightarrow> nat option" where
  "HMAC_size ctx = map_option EVP_MD_size (hm_md ctx)"

text \<open>What HMAC writes to \<open>out\<close> and \<open>*out_len\<close>, nothing when it returns the null pointer.\<close>

definition HMAC :: "EVP_MD \<Rightarrow> bytes option \<Rightarrow> bytes \<Rightarrow> heap \<Rightarrow> ((bytes \<times> nat) option \<times> heap) option" where
  "HMAC evp_md key data h =
     do { (ok, ctx, h) \<leftarrow> HMAC_Init_ex key (Some evp_md) HMAC_CTX_init h;
          if \<not> ok then Some (None, h)
          else do { ctx \<leftarrow> HMAC_Update data ctx; (r, ctx, h) \<leftarrow> HMAC_Final False ctx h; Some (r, h) } }"

definition HMAC_CTX_copy_ex :: "hmac_ctx \<Rightarrow> hmac_ctx \<Rightarrow> heap \<Rightarrow> (bool \<times> hmac_ctx \<times> heap) option" where
  "HMAC_CTX_copy_ex src dest h =
     do { (ok, c, h) \<leftarrow> EVP_MD_CTX_copy_ex (Some (hm_i_ctx src)) (hm_i_ctx dest) h;
          let dest = dest\<lparr>hm_i_ctx := c\<rparr>;
          if \<not> ok then Some (False, dest, h) else
          do { (ok, c, h) \<leftarrow> EVP_MD_CTX_copy_ex (Some (hm_o_ctx src)) (hm_o_ctx dest) h;
               let dest = dest\<lparr>hm_o_ctx := c\<rparr>;
               if \<not> ok then Some (False, dest, h) else
               do { (ok, c, h) \<leftarrow> EVP_MD_CTX_copy_ex (Some (hm_md_ctx src)) (hm_md_ctx dest) h;
                    let dest = dest\<lparr>hm_md_ctx := c\<rparr>;
                    if \<not> ok then Some (False, dest, h) else Some (True, dest\<lparr>hm_md := hm_md src\<rparr>, h) } } }"

definition HMAC_Init :: "bytes option \<Rightarrow> EVP_MD option \<Rightarrow> hmac_ctx \<Rightarrow> heap \<Rightarrow> (bool \<times> hmac_ctx \<times> heap) option" where
  "HMAC_Init key md ctx h = HMAC_Init_ex key md (if key \<noteq> None \<and> md \<noteq> None then HMAC_CTX_init else ctx) h"

definition HMAC_CTX_copy :: "hmac_ctx \<Rightarrow> heap \<Rightarrow> (bool \<times> hmac_ctx \<times> heap) option" where
  "HMAC_CTX_copy src h = HMAC_CTX_copy_ex src HMAC_CTX_init h"

section \<open>RFC 2104\<close>

definition hmac_key0 :: "EVP_MD \<Rightarrow> bytes \<Rightarrow> bytes" where
  "hmac_key0 md K =
     (let K = (if length K > EVP_MD_block_size md then md_hash md K else K)
      in K @ replicate (EVP_MD_block_size md - length K) 0)"

definition hmac_mac :: "EVP_MD \<Rightarrow> bytes \<Rightarrow> bytes \<Rightarrow> bytes" where
  "hmac_mac md K msg =
     (let B = EVP_MD_block_size md; opad = replicate B 0x5c; ipad = replicate B 0x36; K0 = hmac_key0 md K
      in md_hash md (map2 (XOR) opad K0 @ md_hash md (map2 (XOR) ipad K0 @ msg)))"

section \<open>The code computes it\<close>

abbreviation hmac_ipad :: "EVP_MD \<Rightarrow> bytes \<Rightarrow> bytes" where
  "hmac_ipad md K \<equiv> map ((XOR) 0x36) (hmac_key0 md K)"

abbreviation hmac_opad :: "EVP_MD \<Rightarrow> bytes \<Rightarrow> bytes" where
  "hmac_opad md K \<equiv> map ((XOR) 0x5c) (hmac_key0 md K)"

lemma map2_replicate: "length ys \<le> n \<Longrightarrow> map2 f (replicate n x) ys = map (f x) ys"
  by (simp add: zip_replicate1 comp_def)

lemma length_hmac_key0 [simp]: "length (hmac_key0 md K) = EVP_MD_block_size md"
  using md_size_bounds(3) [of md] by (simp add: hmac_key0_def Let_def del: md_size_bounds(3))

lemma hmac_mac_alt: "hmac_mac md K msg = md_hash md (hmac_opad md K @ md_hash md (hmac_ipad md K @ msg))"
  by (simp add: hmac_mac_def Let_def map2_replicate)

definition hmac_ok :: "hmac_ctx \<Rightarrow> bool" where
  "hmac_ok c \<longleftrightarrow> ctx_ok (hm_md_ctx c) \<and> ctx_ok (hm_i_ctx c) \<and> ctx_ok (hm_o_ctx c)"

text \<open>A context that is keyed, and one that has in addition absorbed a message.\<close>

definition hmac_keyed :: "EVP_MD \<Rightarrow> bytes \<Rightarrow> hmac_ctx \<Rightarrow> bool" where
  "hmac_keyed md K c \<longleftrightarrow> hm_md c = Some md \<and> ctx_ok (hm_md_ctx c)
     \<and> ctx_rep md (hm_i_ctx c) (hmac_ipad md K) \<and> ctx_rep md (hm_o_ctx c) (hmac_opad md K)"

definition hmac_rep :: "EVP_MD \<Rightarrow> bytes \<Rightarrow> hmac_ctx \<Rightarrow> bytes \<Rightarrow> bool" where
  "hmac_rep md K c xs \<longleftrightarrow> hmac_keyed md K c \<and> ctx_rep md (hm_md_ctx c) (hmac_ipad md K @ xs)"

lemma hmac_keyed_ok: "hmac_keyed md K c \<Longrightarrow> hmac_ok c"
  by (auto simp: hmac_keyed_def hmac_ok_def ctx_rep_ok)

lemma hmac_ok_init [simp]: "hmac_ok HMAC_CTX_init"
  by (simp add: hmac_ok_def HMAC_CTX_init_def)

lemma hmac_key_block_ok:
  assumes "ctx_ok c" "heap_ok h"
  obtains r c' h' where "hmac_key_block md K c h = Some (r, c', h')" "heap_ok h'" "ctx_ok c'"
    "r \<noteq> None \<longrightarrow> (\<exists>kb. r = Some kb \<and> kb @ replicate (EVP_MD_block_size md - length kb) 0 = hmac_key0 md K
        \<and> length kb \<le> EVP_MD_block_size md)"
    "grants h \<longrightarrow> r \<noteq> None \<and> grants h'"
proof (cases "EVP_MD_block_size md < length K")
  case True
  obtain ok c1 h1 where i: "EVP_DigestInit_ex md c h = Some (ok, c1, h1)" "heap_ok h1" "ctx_ok c1"
    "if ok then ctx_rep md c1 [] else c1 = c" "grants h \<longrightarrow> ok \<and> grants h1" "ctx_digest c = Some md \<longrightarrow> ok"
    using assms by (rule EVP_DigestInit_ex_ok [of c h md])
  show ?thesis
  proof (cases ok)
    case ok: True
    with i have "ctx_rep md c1 []" by simp
    then obtain c2 where "EVP_DigestUpdate K c1 = Some c2" "ctx_rep md c2 ([] @ K)"
      by (rule EVP_DigestUpdate_rep)
    then show ?thesis
      by (intro that [of "Some (md_hash md K)" "\<lparr>ctx_digest = Some md, md_data = Some (zero_block md)\<rparr>" h1])
        (use ok True i md_size_bounds(3) [of md] in \<open>simp_all add: hmac_key_block_def EVP_DigestFinal_ex_rep hmac_key0_def less_imp_le
           del: md_size_bounds(3)\<close>)
  next
    case False
    show ?thesis
      by (rule that [of None c1 h1]) (use False True i in \<open>simp_all add: hmac_key_block_def\<close>)
  qed
next
  case False
  then have "length K \<le> 128" using md_size_bounds(4) [of md] by linarith
  then show ?thesis
    by (intro that [of "Some K" c h]) (use False assms in \<open>simp_all add: hmac_key_block_def hmac_key0_def\<close>)
qed

lemma hmac_pad_take:
  assumes "n \<le> 128" "length kb \<le> n"
  shows "take n (hmac_pad c (kb @ replicate (128 - length kb) 0)) = map ((XOR) c) (kb @ replicate (n - length kb) 0)"
proof (rule nth_equalityI)
  fix i
  assume "i < length (take n (hmac_pad c (kb @ replicate (128 - length kb) 0)))"
  then have "i < n" "i < 128" using assms by (simp_all add: hmac_pad_def)
  then show "take n (hmac_pad c (kb @ replicate (128 - length kb) 0)) ! i
      = map ((XOR) c) (kb @ replicate (n - length kb) 0) ! i"
    using assms by (simp add: hmac_pad_def nth_append)
qed (use assms in \<open>simp add: hmac_pad_def\<close>)

lemma hmac_start_ok:
  assumes "ctx_ok c" "heap_ok h"
  obtains ok c' h' where "hmac_start md pad c h = Some (ok, c', h')" "heap_ok h'" "ctx_ok c'"
    "ok \<longrightarrow> ctx_rep md c' (take (EVP_MD_block_size md) pad)" "grants h \<longrightarrow> ok \<and> grants h'"
proof -
  obtain ok c1 h1 where i: "EVP_DigestInit_ex md c h = Some (ok, c1, h1)" "heap_ok h1" "ctx_ok c1"
    "if ok then ctx_rep md c1 [] else c1 = c" "grants h \<longrightarrow> ok \<and> grants h1" "ctx_digest c = Some md \<longrightarrow> ok"
    using assms by (rule EVP_DigestInit_ex_ok [of c h md])
  show ?thesis
  proof (cases ok)
    case True
    with i have "ctx_rep md c1 []" by simp
    then obtain c2 where c2: "EVP_DigestUpdate (take (EVP_MD_block_size md) pad) c1 = Some c2"
        "ctx_rep md c2 ([] @ take (EVP_MD_block_size md) pad)"
      by (rule EVP_DigestUpdate_rep)
    show ?thesis
      by (rule that [of True c2 h1]) (use c2 i True in \<open>simp_all add: hmac_start_def ctx_rep_ok\<close>)
  next
    case False
    show ?thesis by (rule that [of False c1 h1]) (use i False in \<open>simp_all add: hmac_start_def\<close>)
  qed
qed

lemma hmac_set_key_ok:
  assumes "hmac_ok ctx" "heap_ok h"
  obtains ok ctx' h' where "hmac_set_key md K ctx h = Some (ok, ctx', h')" "heap_ok h'" "hmac_ok ctx'"
    "ok \<longrightarrow> hmac_keyed md K ctx'" "grants h \<longrightarrow> ok \<and> grants h'"
proof -
  have ok: "ctx_ok (hm_md_ctx ctx)" "ctx_ok (hm_i_ctx ctx)" "ctx_ok (hm_o_ctx ctx)"
    using assms(1) by (simp_all add: hmac_ok_def)
  obtain r c1 h1 where kb: "hmac_key_block md K (hm_md_ctx ctx) h = Some (r, c1, h1)" "heap_ok h1" "ctx_ok c1"
    "r \<noteq> None \<longrightarrow> (\<exists>kb. r = Some kb \<and> kb @ replicate (EVP_MD_block_size md - length kb) 0 = hmac_key0 md K
        \<and> length kb \<le> EVP_MD_block_size md)"
    "grants h \<longrightarrow> r \<noteq> None \<and> grants h1"
    using ok(1) assms(2) by (rule hmac_key_block_ok)
  show ?thesis
  proof (cases r)
    case None
    show ?thesis
      by (rule that [of False "ctx\<lparr>hm_md_ctx := c1\<rparr>" h1])
        (use None kb ok in \<open>simp_all add: hmac_set_key_def hmac_ok_def\<close>)
  next
    case (Some kb0)
    with kb(4) have key: "kb0 @ replicate (EVP_MD_block_size md - length kb0) 0 = hmac_key0 md K"
      "length kb0 \<le> EVP_MD_block_size md" by auto
    let ?kb = "kb0 @ replicate (128 - length kb0) 0"
    have pad: "take (EVP_MD_block_size md) (hmac_pad c ?kb) = map ((XOR) c) (hmac_key0 md K)" for c
      using hmac_pad_take [OF md_size_bounds(4) key(2)] by (simp add: key(1))
    obtain ok2 c2 h2 where i: "hmac_start md (hmac_pad 0x36 ?kb) (hm_i_ctx ctx) h1 = Some (ok2, c2, h2)" "heap_ok h2" "ctx_ok c2"
      "ok2 \<longrightarrow> ctx_rep md c2 (take (EVP_MD_block_size md) (hmac_pad 0x36 ?kb))" "grants h1 \<longrightarrow> ok2 \<and> grants h2"
      using ok(2) kb(2) by (rule hmac_start_ok)
    obtain ok3 c3 h3 where o: "hmac_start md (hmac_pad 0x5c ?kb) (hm_o_ctx ctx) h2 = Some (ok3, c3, h3)" "heap_ok h3" "ctx_ok c3"
      "ok3 \<longrightarrow> ctx_rep md c3 (take (EVP_MD_block_size md) (hmac_pad 0x5c ?kb))" "grants h2 \<longrightarrow> ok3 \<and> grants h3"
      using ok(3) i(2) by (rule hmac_start_ok)
    show ?thesis
    proof (cases ok2)
      case False
      show ?thesis
        by (rule that [of False "ctx\<lparr>hm_md_ctx := c1, hm_i_ctx := c2\<rparr>" h2])
          (use False Some kb i ok in \<open>simp_all add: hmac_set_key_def hmac_ok_def\<close>)
    next
      case ok2: True
      show ?thesis
      proof (cases ok3)
        case False
        show ?thesis
          by (rule that [of False "ctx\<lparr>hm_md_ctx := c1, hm_i_ctx := c2, hm_o_ctx := c3\<rparr>" h3])
            (use ok2 False Some kb i o ok in \<open>simp_all add: hmac_set_key_def hmac_ok_def\<close>)
      next
        case True
        show ?thesis
          by (rule that [of True "ctx\<lparr>hm_md_ctx := c1, hm_i_ctx := c2, hm_o_ctx := c3, hm_md := Some md\<rparr>" h3])
            (use ok2 True Some kb i o ok pad in \<open>simp_all add: hmac_set_key_def hmac_ok_def hmac_keyed_def\<close>)
      qed
    qed
  qed
qed

text \<open>The last step of HMAC_Init_ex, which is all of it when the key stays.\<close>

lemma HMAC_rewind_ok:
  assumes "hmac_keyed md K ctx" "heap_ok h"
  obtains ok c' h' where "EVP_MD_CTX_copy_ex (Some (hm_i_ctx ctx)) (hm_md_ctx ctx) h = Some (ok, c', h')" "heap_ok h'"
    "hmac_ok (ctx\<lparr>hm_md_ctx := c'\<rparr>)" "ok \<longrightarrow> hmac_rep md K (ctx\<lparr>hm_md_ctx := c'\<rparr>) []"
    "grants h \<longrightarrow> ok \<and> grants h'" "ctx_digest (hm_md_ctx ctx) = Some md \<longrightarrow> ok"
proof -
  have i: "ctx_rep md (hm_i_ctx ctx) (hmac_ipad md K)" and m: "ctx_ok (hm_md_ctx ctx)"
    using assms(1) by (simp_all add: hmac_keyed_def)
  obtain ok c' h' where c: "EVP_MD_CTX_copy_ex (Some (hm_i_ctx ctx)) (hm_md_ctx ctx) h = Some (ok, c', h')" "heap_ok h'"
    "if ok then c' = hm_i_ctx ctx else c' = hm_md_ctx ctx" "grants h \<longrightarrow> ok \<and> grants h'"
    "ctx_digest (hm_md_ctx ctx) = Some md \<longrightarrow> ok"
    using i m assms(2) by (rule EVP_MD_CTX_copy_ex_ok)
  show ?thesis
    by (rule that [of ok c' h'])
      (use c assms(1) in \<open>auto simp: hmac_keyed_def hmac_ok_def hmac_rep_def ctx_rep_ok split: if_splits\<close>)
qed

lemma HMAC_Init_ex_new_key:
  assumes "hmac_ok ctx" "heap_ok h" "key \<noteq> None \<or> hm_md ctx \<noteq> Some md"
  obtains ok ctx' h' where "HMAC_Init_ex key (Some md) ctx h = Some (ok, ctx', h')" "heap_ok h'" "hmac_ok ctx'"
    "ok \<longrightarrow> hmac_rep md (case key of None \<Rightarrow> [] | Some k \<Rightarrow> k) ctx' []" "grants h \<longrightarrow> ok \<and> grants h'"
proof -
  let ?K = "case key of None \<Rightarrow> [] | Some k \<Rightarrow> k"
  obtain ok1 ctx1 h1 where k: "hmac_set_key md ?K ctx h = Some (ok1, ctx1, h1)" "heap_ok h1" "hmac_ok ctx1"
    "ok1 \<longrightarrow> hmac_keyed md ?K ctx1" "grants h \<longrightarrow> ok1 \<and> grants h1"
    using assms(1,2) by (rule hmac_set_key_ok)
  show ?thesis
  proof (cases ok1)
    case False
    show ?thesis
      by (rule that [of False ctx1 h1]) (use False k assms(3) in \<open>auto simp: HMAC_Init_ex_def\<close>)
  next
    case True
    then have keyed: "hmac_keyed md ?K ctx1" using k by simp
    obtain ok c' h' where "EVP_MD_CTX_copy_ex (Some (hm_i_ctx ctx1)) (hm_md_ctx ctx1) h1 = Some (ok, c', h')" "heap_ok h'"
      "hmac_ok (ctx1\<lparr>hm_md_ctx := c'\<rparr>)" "ok \<longrightarrow> hmac_rep md ?K (ctx1\<lparr>hm_md_ctx := c'\<rparr>) []"
      "grants h1 \<longrightarrow> ok \<and> grants h'" "ctx_digest (hm_md_ctx ctx1) = Some md \<longrightarrow> ok"
      using keyed k(2) by (rule HMAC_rewind_ok)
    then show ?thesis
      by (intro that [of ok "ctx1\<lparr>hm_md_ctx := c'\<rparr>" h']) (use True k assms(3) in \<open>auto simp: HMAC_Init_ex_def\<close>)
  qed
qed

lemma HMAC_Init_ex_rewind:
  assumes "hmac_keyed md K ctx" "heap_ok h" "ctx_digest (hm_md_ctx ctx) = Some md"
  obtains ctx' h' where "HMAC_Init_ex None None ctx h = Some (True, ctx', h')" "heap_ok h'"
    "hmac_rep md K ctx' []" "grants h \<longrightarrow> grants h'"
proof -
  obtain ok c' h' where "EVP_MD_CTX_copy_ex (Some (hm_i_ctx ctx)) (hm_md_ctx ctx) h = Some (ok, c', h')" "heap_ok h'"
    "hmac_ok (ctx\<lparr>hm_md_ctx := c'\<rparr>)" "ok \<longrightarrow> hmac_rep md K (ctx\<lparr>hm_md_ctx := c'\<rparr>) []"
    "grants h \<longrightarrow> ok \<and> grants h'" "ctx_digest (hm_md_ctx ctx) = Some md \<longrightarrow> ok"
    using assms(1,2) by (rule HMAC_rewind_ok)
  then show ?thesis
    by (intro that [of "ctx\<lparr>hm_md_ctx := c'\<rparr>" h']) (use assms(3) in \<open>auto simp: HMAC_Init_ex_def\<close>)
qed

lemma HMAC_Update_rep:
  assumes "hmac_rep md K ctx xs"
  obtains ctx' where "HMAC_Update ys ctx = Some ctx'" "hmac_rep md K ctx' (xs @ ys)"
proof -
  have "ctx_rep md (hm_md_ctx ctx) (hmac_ipad md K @ xs)" using assms by (simp add: hmac_rep_def)
  then obtain c' where "EVP_DigestUpdate ys (hm_md_ctx ctx) = Some c'" "ctx_rep md c' ((hmac_ipad md K @ xs) @ ys)"
    by (rule EVP_DigestUpdate_rep)
  then show ?thesis
    by (intro that [of "ctx\<lparr>hm_md_ctx := c'\<rparr>"])
      (use assms in \<open>auto simp: HMAC_Update_def hmac_rep_def hmac_keyed_def ctx_rep_ok\<close>)
qed

text \<open>The allocation of the copy is never made, so the exit that writes through \<open>out_len\<close> is not taken.\<close>

lemma HMAC_Final_rep:
  assumes "hmac_rep md K ctx xs" "heap_ok h"
  obtains ctx' h' where "HMAC_Final out_len_null ctx h = Some (Some (hmac_mac md K xs, EVP_MD_size md), ctx', h')"
    "heap_ok h'" "hmac_keyed md K ctx'" "ctx_digest (hm_md_ctx ctx') = Some md" "grants h \<longrightarrow> grants h'"
proof -
  let ?inner = "md_hash md (hmac_ipad md K @ xs)" and ?z = "\<lparr>ctx_digest = Some md, md_data = Some (zero_block md)\<rparr>"
  have m: "ctx_rep md (hm_md_ctx ctx) (hmac_ipad md K @ xs)" and o: "ctx_rep md (hm_o_ctx ctx) (hmac_opad md K)"
    using assms(1) by (simp_all add: hmac_rep_def hmac_keyed_def)
  obtain ok c1 h1 where c: "EVP_MD_CTX_copy_ex (Some (hm_o_ctx ctx)) ?z h = Some (ok, c1, h1)" "heap_ok h1"
    "if ok then c1 = hm_o_ctx ctx else c1 = ?z" "grants h \<longrightarrow> ok \<and> grants h1" "ctx_digest ?z = Some md \<longrightarrow> ok"
    using o ctx_ok_zero assms(2) by (rule EVP_MD_CTX_copy_ex_ok)
  then have ok: "ok" "ctx_rep md c1 (hmac_opad md K)" using o by simp_all
  obtain c2 where c2: "EVP_DigestUpdate ?inner c1 = Some c2" "ctx_rep md c2 (hmac_opad md K @ ?inner)"
    using ok(2) by (rule EVP_DigestUpdate_rep)
  have final: "HMAC_Final out_len_null ctx h = Some (Some (hmac_mac md K xs, EVP_MD_size md), ctx\<lparr>hm_md_ctx := ?z\<rparr>, h1)"
    using c(1) ok(1) c2(1)
    by (simp add: HMAC_Final_def EVP_DigestFinal_ex_rep [OF m] EVP_DigestFinal_ex_rep [OF c2(2)] hmac_mac_alt)
  show ?thesis
    by (rule that [OF final]) (use c assms(1) in \<open>simp_all add: hmac_rep_def hmac_keyed_def\<close>)
qed

fun HMAC_updates :: "bytes list \<Rightarrow> hmac_ctx \<Rightarrow> hmac_ctx option" where
  "HMAC_updates [] c = Some c"
| "HMAC_updates (d # ds) c = do { c \<leftarrow> HMAC_Update d c; HMAC_updates ds c }"

lemma HMAC_updates_rep:
  "hmac_rep md K c xs \<Longrightarrow> \<exists>c'. HMAC_updates parts c = Some c' \<and> hmac_rep md K c' (xs @ concat parts)"
proof (induction parts arbitrary: c xs)
  case (Cons d ds)
  from Cons.prems obtain c1 where "HMAC_Update d c = Some c1" "hmac_rep md K c1 (xs @ d)"
    by (rule HMAC_Update_rep)
  then show ?case using Cons.IH [of c1 "xs @ d"] by simp
qed simp

lemma HMAC_ok:
  assumes "heap_ok h"
  shows "\<exists>r h'. HMAC md key data h = Some (r, h') \<and> heap_ok h' \<and> (grants h \<longrightarrow> r \<noteq> None \<and> grants h')
    \<and> (r \<noteq> None \<longrightarrow> r = Some (hmac_mac md (case key of None \<Rightarrow> [] | Some k \<Rightarrow> k) data, EVP_MD_size md))"
proof -
  let ?K = "case key of None \<Rightarrow> [] | Some k \<Rightarrow> k"
  have new: "key \<noteq> None \<or> hm_md HMAC_CTX_init \<noteq> Some md" by (simp add: HMAC_CTX_init_def)
  obtain ok c1 h1 where i: "HMAC_Init_ex key (Some md) HMAC_CTX_init h = Some (ok, c1, h1)" "heap_ok h1" "hmac_ok c1"
    "ok \<longrightarrow> hmac_rep md ?K c1 []" "grants h \<longrightarrow> ok \<and> grants h1"
    using hmac_ok_init assms new by (rule HMAC_Init_ex_new_key)
  show ?thesis
  proof (cases ok)
    case True
    with i have "hmac_rep md ?K c1 []" by simp
    then obtain c2 where c2: "HMAC_Update data c1 = Some c2" "hmac_rep md ?K c2 ([] @ data)"
      by (rule HMAC_Update_rep)
    obtain c3 h3 where "HMAC_Final False c2 h1 = Some (Some (hmac_mac md ?K ([] @ data), EVP_MD_size md), c3, h3)"
      "heap_ok h3" "hmac_keyed md ?K c3" "ctx_digest (hm_md_ctx c3) = Some md" "grants h1 \<longrightarrow> grants h3"
      using c2(2) i(2) by (rule HMAC_Final_rep)
    then show ?thesis using True i c2 by (simp add: HMAC_def)
  qed (use i in \<open>auto simp: HMAC_def\<close>)
qed

lemma HMAC_session:
  assumes "hmac_rep md K c []" "heap_ok h"
  shows "\<exists>c1 c2 h2. HMAC_updates parts c = Some c1
    \<and> HMAC_Final null c1 h = Some (Some (hmac_mac md K (concat parts), EVP_MD_size md), c2, h2)
    \<and> heap_ok h2 \<and> hmac_keyed md K c2 \<and> ctx_digest (hm_md_ctx c2) = Some md"
proof -
  obtain c1 where c1: "HMAC_updates parts c = Some c1" "hmac_rep md K c1 (concat parts)"
    using HMAC_updates_rep [OF assms(1), of parts] by auto
  show ?thesis using c1(1) by (rule_tac HMAC_Final_rep [OF c1(2) assms(2)]) blast
qed

text \<open>(C35) HMAC is RFC 2104 over every digest of the table. From any well-formed context HMAC_Init_ex with
  a key either fails for want of memory or prepares a context on which updates in any cut and
  HMAC_Final yield the code of the whole message; calling HMAC_Init_ex with null key and
  digest then never fails and rewinds to a context on which a second message is authenticated
  under the same key. No call follows a null pointer, whatever key length.\<close>

theorem HMAC_correct:
  assumes "hmac_ok c" "heap_ok h"
  shows "(\<exists>ok c1 h1. HMAC_Init_ex (Some K) (Some md) c h = Some (ok, c1, h1) \<and> hmac_ok c1 \<and> (grants h \<longrightarrow> ok)
      \<and> (ok \<longrightarrow> (\<exists>c2 c3 h3 c4 h4 c5 c6 h6. HMAC_updates parts c1 = Some c2
           \<and> HMAC_Final False c2 h1 = Some (Some (hmac_mac md K (concat parts), EVP_MD_size md), c3, h3)
           \<and> HMAC_Init_ex None None c3 h3 = Some (True, c4, h4) \<and> HMAC_updates parts' c4 = Some c5
           \<and> HMAC_Final False c5 h4 = Some (Some (hmac_mac md K (concat parts'), EVP_MD_size md), c6, h6) \<and> hmac_ok c6)))
    \<and> (\<exists>r h'. HMAC md key data h = Some (r, h') \<and> (grants h \<longrightarrow> r \<noteq> None)
      \<and> (r \<noteq> None \<longrightarrow> r = Some (hmac_mac md (case key of None \<Rightarrow> [] | Some k \<Rightarrow> k) data, EVP_MD_size md)))"
    (is "?session \<and> ?oneshot")
proof
  have new: "Some K \<noteq> None \<or> hm_md c \<noteq> Some md" by simp
  obtain ok c1 h1 where i: "HMAC_Init_ex (Some K) (Some md) c h = Some (ok, c1, h1)" "heap_ok h1" "hmac_ok c1"
    "ok \<longrightarrow> hmac_rep md (case Some K of None \<Rightarrow> [] | Some k \<Rightarrow> k) c1 []" "grants h \<longrightarrow> ok \<and> grants h1"
    using assms new by (rule HMAC_Init_ex_new_key)
  show ?session
  proof (cases ok)
    case True
    then have rep: "hmac_rep md K c1 []" using i(4) by simp
    obtain c2 c3 h3 where s1: "HMAC_updates parts c1 = Some c2"
      "HMAC_Final False c2 h1 = Some (Some (hmac_mac md K (concat parts), EVP_MD_size md), c3, h3)"
      "heap_ok h3" "hmac_keyed md K c3" "ctx_digest (hm_md_ctx c3) = Some md"
      using HMAC_session [OF rep i(2), of parts False] by blast
    obtain c4 h4 where s2: "HMAC_Init_ex None None c3 h3 = Some (True, c4, h4)" "heap_ok h4" "hmac_rep md K c4 []"
      "grants h3 \<longrightarrow> grants h4"
      using s1(4,3,5) by (rule HMAC_Init_ex_rewind)
    obtain c5 c6 h6 where "HMAC_updates parts' c4 = Some c5"
      "HMAC_Final False c5 h4 = Some (Some (hmac_mac md K (concat parts'), EVP_MD_size md), c6, h6)" "hmac_keyed md K c6"
      using HMAC_session [OF s2(3,2), of parts' False] by blast
    then show ?thesis using i s1 s2 hmac_keyed_ok by blast
  qed (use i in auto)
  show ?oneshot using HMAC_ok [OF assms(2), of md key data] by blast
qed

theorem HMAC_correct_witness:
  "\<exists>r h'. HMAC EVP_sha256 None [7] (\<lambda>n md. Some (zero_block md)) = Some (r, h')
     \<and> r = Some (hmac_mac EVP_sha256 [] [7], 32)"
  using HMAC_correct [of HMAC_CTX_init "\<lambda>n md. Some (zero_block md)" "[]" EVP_sha256 "[]" "[]" None "[7]"]
  by (auto simp: heap_ok_def grants_def)

section \<open>HKDF (hkdf.c)\<close>

definition HKDF_extract :: "EVP_MD \<Rightarrow> bytes \<Rightarrow> bytes option \<Rightarrow> heap \<Rightarrow> ((bytes \<times> nat) option \<times> heap) option" where
  "HKDF_extract digest secret salt h =
     do { (r, h) \<leftarrow> HMAC digest salt secret h;
          case r of None \<Rightarrow> Some (None, h) | Some (out_key, len) \<Rightarrow>
          if len \<noteq> EVP_MD_size digest then None else Some (Some (out_key, len), h) }"

text \<open>The loop of HKDF_expand with \<open>m\<close> rounds to go; the bytes written so far are \<open>out\<close>, their number
  is \<open>done\<close>. It ends early at the label \<open>out\<close> when a call fails.\<close>

fun hkdf_loop :: "nat \<Rightarrow> EVP_MD \<Rightarrow> bytes \<Rightarrow> nat \<Rightarrow> nat \<Rightarrow> bytes \<Rightarrow> bytes \<Rightarrow> hmac_ctx \<Rightarrow> heap
    \<Rightarrow> (bytes option \<times> hmac_ctx \<times> heap) option" where
  "hkdf_loop 0 digest info out_len i previous out hmac h = Some (Some out, hmac, h)"
| "hkdf_loop (Suc m) digest info out_len i previous out hmac h =
     (let ctr = of_nat (i + 1); digest_len = EVP_MD_size digest in
      do { (ok, hmac, h) \<leftarrow>
             (if i \<noteq> 0
              then do { (ok, hmac, h) \<leftarrow> HMAC_Init_ex None None hmac h;
                        if \<not> ok then Some (False, hmac, h)
                        else do { hmac \<leftarrow> HMAC_Update (take digest_len previous) hmac; Some (True, hmac, h) } }
              else Some (True, hmac, h));
           if \<not> ok then Some (None, hmac, h) else
           do { hmac \<leftarrow> HMAC_Update info hmac; hmac \<leftarrow> HMAC_Update [ctr] hmac;
                (r, hmac, h) \<leftarrow> HMAC_Final True hmac h;
                case r of None \<Rightarrow> Some (None, hmac, h) | Some (previous, n) \<Rightarrow>
                let todo = (if length out + digest_len > out_len then out_len - length out else digest_len)
                in hkdf_loop m digest info out_len (Suc i) previous (out @ take todo previous) hmac h } })"

definition HKDF_expand :: "u64 \<Rightarrow> EVP_MD \<Rightarrow> bytes \<Rightarrow> bytes \<Rightarrow> heap \<Rightarrow> (bytes option \<times> heap) option" where
  "HKDF_expand out_len digest prk info h =
     (let digest_len = of_nat (EVP_MD_size digest); n = (out_len + digest_len - 1) div digest_len in
      if out_len + digest_len < out_len \<or> n > 255 then Some (None, h)
      else do { (ok, hmac, h) \<leftarrow> HMAC_Init_ex (Some prk) (Some digest) HMAC_CTX_init h;
                if \<not> ok then Some (None, h)
                else do { (r, hmac, h) \<leftarrow> hkdf_loop (unat n) digest info (unat out_len) 0 [] [] hmac h;
                          Some (r, h) } })"

definition HKDF :: "u64 \<Rightarrow> EVP_MD \<Rightarrow> bytes \<Rightarrow> bytes option \<Rightarrow> bytes \<Rightarrow> heap \<Rightarrow> (bytes option \<times> heap) option" where
  "HKDF out_len digest secret salt info h =
     do { (r, h) \<leftarrow> HKDF_extract digest secret salt h;
          case r of None \<Rightarrow> Some (None, h) | Some (prk, prk_len) \<Rightarrow>
          HKDF_expand out_len digest (take prk_len prk) info h }"

section \<open>RFC 5869\<close>

definition hkdf_prk :: "EVP_MD \<Rightarrow> bytes option \<Rightarrow> bytes \<Rightarrow> bytes" where
  "hkdf_prk md salt secret = hmac_mac md (case salt of None \<Rightarrow> replicate (EVP_MD_size md) 0 | Some s \<Rightarrow> s) secret"

fun hkdf_T :: "EVP_MD \<Rightarrow> bytes \<Rightarrow> bytes \<Rightarrow> nat \<Rightarrow> bytes" where
  "hkdf_T md prk info 0 = []"
| "hkdf_T md prk info (Suc i) = hmac_mac md prk (hkdf_T md prk info i @ info @ [of_nat (Suc i)])"

definition hkdf_okm :: "EVP_MD \<Rightarrow> bytes \<Rightarrow> bytes \<Rightarrow> nat \<Rightarrow> bytes" where
  "hkdf_okm md prk info L =
     (let N = (L + EVP_MD_size md - 1) div EVP_MD_size md
      in take L (concat (map (hkdf_T md prk info) [1..<Suc N])))"

section \<open>The code computes it\<close>

lemma length_hmac_mac [simp]: "length (hmac_mac md K xs) = EVP_MD_size md"
  by (simp add: hmac_mac_def Let_def)

lemma hmac_mac_zeros: "n \<le> EVP_MD_block_size md \<Longrightarrow> hmac_mac md (replicate n 0) xs = hmac_mac md [] xs"
  by (simp add: hmac_mac_def hmac_key0_def Let_def flip: replicate_add)

lemma hkdf_loop_ok:
  assumes "if i = 0 then hmac_rep md K c [] else hmac_keyed md K c \<and> ctx_digest (hm_md_ctx c) = Some md"
    and "heap_ok h" "length out \<le> L"
  shows "\<exists>c' h'. hkdf_loop m md info L i (hkdf_T md K info i) out c h
    = Some (Some (out @ take (L - length out) (concat (map (hkdf_T md K info) [Suc i..<Suc i + m]))), c', h')"
  using assms
proof (induction m arbitrary: i c h out)
  case (Suc m)
  let ?T = "hkdf_T md K info"
  have start: "\<exists>c1 h1. (if i \<noteq> 0 then do { (ok, hmac, h) \<leftarrow> HMAC_Init_ex None None c h;
                        if \<not> ok then Some (False, hmac, h)
                        else do { hmac \<leftarrow> HMAC_Update (take (EVP_MD_size md) (?T i)) hmac; Some (True, hmac, h) } }
              else Some (True, c, h)) = Some (True, c1, h1) \<and> heap_ok h1 \<and> hmac_rep md K c1 (?T i)"
  proof (cases "i = 0")
    case False
    then have k: "hmac_keyed md K c" "ctx_digest (hm_md_ctx c) = Some md" using Suc.prems(1) by simp_all
    obtain c1 h1 where i1: "HMAC_Init_ex None None c h = Some (True, c1, h1)" "heap_ok h1" "hmac_rep md K c1 []"
      "grants h \<longrightarrow> grants h1"
      using k(1) Suc.prems(2) k(2) by (rule HMAC_Init_ex_rewind)
    obtain c2 where "HMAC_Update (?T i) c1 = Some c2" "hmac_rep md K c2 ([] @ ?T i)"
      using i1(3) by (rule HMAC_Update_rep)
    moreover have "take (EVP_MD_size md) (?T i) = ?T i" by (cases i) simp_all
    ultimately show ?thesis using False i1 by simp
  qed (use Suc.prems in simp)
  then obtain c1 h1 where c1: "(if i \<noteq> 0 then do { (ok, hmac, h) \<leftarrow> HMAC_Init_ex None None c h;
                        if \<not> ok then Some (False, hmac, h)
                        else do { hmac \<leftarrow> HMAC_Update (take (EVP_MD_size md) (?T i)) hmac; Some (True, hmac, h) } }
              else Some (True, c, h)) = Some (True, c1, h1)" "heap_ok h1" "hmac_rep md K c1 (?T i)" by blast
  obtain c2 where c2: "HMAC_Update info c1 = Some c2" "hmac_rep md K c2 (?T i @ info)"
    using c1(3) by (rule HMAC_Update_rep)
  obtain c3 where c3: "HMAC_Update [of_nat (i + 1)] c2 = Some c3" "hmac_rep md K c3 ((?T i @ info) @ [of_nat (i + 1)])"
    using c2(2) by (rule HMAC_Update_rep)
  obtain c4 h4 where c4: "HMAC_Final True c3 h1
      = Some (Some (hmac_mac md K ((?T i @ info) @ [of_nat (i + 1)]), EVP_MD_size md), c4, h4)"
      "heap_ok h4" "hmac_keyed md K c4" "ctx_digest (hm_md_ctx c4) = Some md" "grants h1 \<longrightarrow> grants h4"
    using c3(2) c1(2) by (rule HMAC_Final_rep)
  define todo where "todo = (if length out + EVP_MD_size md > L then L - length out else EVP_MD_size md)"
  have todo: "length (out @ take todo (?T (Suc i))) \<le> L" "take todo (?T (Suc i)) = take (L - length out) (?T (Suc i))"
    using Suc.prems(3) by (auto simp: todo_def)
  have out: "out @ take todo (?T (Suc i)) = out @ take (L - length out) (?T (Suc i))" using todo(2) by simp
  have rest: "L - length (out @ take todo (?T (Suc i))) = L - length out - length (?T (Suc i))"
    by (auto simp: todo_def)
  have upt: "[Suc i..<Suc i + Suc m] = Suc i # [Suc (Suc i)..<Suc (Suc i) + m]" by (subst upt_conv_Cons) simp_all
  obtain c' h' where ih: "hkdf_loop m md info L (Suc i) (?T (Suc i)) (out @ take todo (?T (Suc i))) c4 h4
    = Some (Some ((out @ take todo (?T (Suc i))) @ take (L - length (out @ take todo (?T (Suc i))))
        (concat (map ?T [Suc (Suc i)..<Suc (Suc i) + m]))), c', h')"
    using Suc.IH [of "Suc i" c4 h4 "out @ take todo (?T (Suc i))"] c4 todo by auto
  have T: "hmac_mac md K ((?T i @ info) @ [of_nat (i + 1)]) = ?T (Suc i)" by simp
  have step: "hkdf_loop (Suc m) md info L i (?T i) out c h
      = hkdf_loop m md info L (Suc i) (?T (Suc i)) (out @ take todo (?T (Suc i))) c4 h4"
    unfolding hkdf_loop.simps Let_def c1(1)
    by (simp add: c2(1) c3(1) [simplified] c4(1) [unfolded T] todo_def [symmetric] del: hkdf_T.simps)
  show ?case
    unfolding step ih rest upt list.map concat.simps take_append
    using out by (simp del: hkdf_T.simps)
qed simp

text \<open>The number of rounds: the sum wraps exactly when the length is out of range.\<close>

lemma hkdf_rounds:
  fixes out_len :: u64
  assumes "0 < d" "d \<le> 64" "n = (out_len + of_nat d - 1) div of_nat d"
  shows "(out_len + of_nat d < out_len \<or> n > 255) = (unat out_len > 255 * d)"
    "unat out_len \<le> 255 * d \<Longrightarrow> unat n = (unat out_len + d - 1) div d"
proof -
  let ?L = "unat out_len"
  have L: "?L < 2 ^ 64" using unsigned_less [of out_len] by simp
  have ud: "unat (of_nat d :: u64) = d" using assms(2) by (simp add: unat_of_nat take_bit_eq_mod)
  have wrap: "(out_len + of_nat d < out_len) = (2 ^ 64 \<le> ?L + d)"
    using L assms(1,2) by (auto simp: word_less_nat_alt unat_word_ariths ud mod_if)
  have val: "unat n = (?L + d - 1) div d" if "?L + d < 2 ^ 64"
  proof -
    have "unat (out_len + of_nat d) = ?L + d" using that by (simp add: unat_word_ariths ud)
    moreover have "unat (out_len + of_nat d - 1) = unat (out_len + of_nat d) - 1"
      using calculation assms(1) by (intro unat_minus_one) auto
    ultimately show ?thesis by (simp add: assms(3) unat_div_distrib ud)
  qed
  have ceil: "(?L + d - 1) div d > 255 \<longleftrightarrow> ?L > 255 * d"
  proof -
    have "(?L + d - 1) div d > 255 \<longleftrightarrow> 256 \<le> (?L + d - 1) div d" by linarith
    also have "\<dots> \<longleftrightarrow> 256 * d \<le> ?L + d - 1" using assms(1) by (rule less_eq_div_iff_mult_less_eq)
    finally show ?thesis using assms(1) by linarith
  qed
  show "(out_len + of_nat d < out_len \<or> n > 255) = (?L > 255 * d)"
  proof (cases "2 ^ 64 \<le> ?L + d")
    case True
    then show ?thesis using wrap assms(2) by simp
  next
    case False
    then show ?thesis using wrap ceil val by (simp add: word_less_nat_alt)
  qed
  show "unat n = (?L + d - 1) div d" if "?L \<le> 255 * d"
    using val that assms(2) by simp
qed

lemma HKDF_expand_ok:
  assumes "heap_ok h"
  shows "\<exists>r h'. HKDF_expand out_len md prk info h = Some (r, h')
    \<and> (unat out_len > 255 * EVP_MD_size md \<longrightarrow> r = None)
    \<and> (grants h \<and> unat out_len \<le> 255 * EVP_MD_size md \<longrightarrow> r \<noteq> None)
    \<and> (r \<noteq> None \<longrightarrow> r = Some (hkdf_okm md prk info (unat out_len)))"
proof -
  define n where "n = (out_len + of_nat (EVP_MD_size md) - 1) div of_nat (EVP_MD_size md)"
  note rounds = hkdf_rounds [OF md_size_bounds(1) md_size_bounds(2) n_def]
  have new: "Some prk \<noteq> None \<or> hm_md HMAC_CTX_init \<noteq> Some md" by simp
  obtain ok c1 h1 where i: "HMAC_Init_ex (Some prk) (Some md) HMAC_CTX_init h = Some (ok, c1, h1)" "heap_ok h1" "hmac_ok c1"
    "ok \<longrightarrow> hmac_rep md (case Some prk of None \<Rightarrow> [] | Some k \<Rightarrow> k) c1 []" "grants h \<longrightarrow> ok \<and> grants h1"
    using hmac_ok_init assms new by (rule HMAC_Init_ex_new_key)
  show ?thesis
  proof (cases "unat out_len > 255 * EVP_MD_size md")
    case True
    then show ?thesis using rounds(1) by (auto simp: HKDF_expand_def n_def [symmetric] Let_def)
  next
    case False
    then have num: "unat n = (unat out_len + EVP_MD_size md - 1) div EVP_MD_size md" using rounds(2) by simp
    show ?thesis
    proof (cases ok)
      case True
      obtain c' h' where "hkdf_loop (unat n) md info (unat out_len) 0 (hkdf_T md prk info 0) [] c1 h1
        = Some (Some ([] @ take (unat out_len - length ([] :: bytes))
             (concat (map (hkdf_T md prk info) [Suc 0..<Suc 0 + unat n]))), c', h')"
        using hkdf_loop_ok [of 0 md prk c1 h1 "[]" "unat out_len" "unat n" info] i True by auto
      then show ?thesis
        using False rounds(1) i True num
        by (auto simp: HKDF_expand_def n_def [symmetric] Let_def hkdf_okm_def)
    qed (use False rounds(1) i in \<open>auto simp: HKDF_expand_def n_def [symmetric] Let_def\<close>)
  qed
qed

text \<open>(C36) HKDF is RFC 5869 over every digest of the table: it refuses exactly the lengths above 255
  times the digest size, with no wrap-around for any size_t, otherwise fails only for want of
  memory, and what it writes are the bytes of the standard's output keying material. No call
  follows a null pointer, in particular not the null \<open>out_len\<close> it passes to HMAC_Final.\<close>

theorem HKDF_correct:
  assumes "heap_ok h"
  shows "\<exists>r h'. HKDF out_len md secret salt info h = Some (r, h')
    \<and> (unat out_len > 255 * EVP_MD_size md \<longrightarrow> r = None)
    \<and> (grants h \<and> unat out_len \<le> 255 * EVP_MD_size md \<longrightarrow> r \<noteq> None)
    \<and> (r \<noteq> None \<longrightarrow> r = Some (hkdf_okm md (hkdf_prk md salt secret) info (unat out_len)))"
proof -
  have prk: "hmac_mac md (case salt of None \<Rightarrow> [] | Some k \<Rightarrow> k) secret = hkdf_prk md salt secret"
    using md_size_bounds(3) [of md] by (cases salt) (simp_all add: hkdf_prk_def hmac_mac_zeros less_imp_le del: md_size_bounds(3))
  obtain r1 h1 where m: "HMAC md salt secret h = Some (r1, h1)" "heap_ok h1" "grants h \<longrightarrow> r1 \<noteq> None \<and> grants h1"
    "r1 \<noteq> None \<longrightarrow> r1 = Some (hkdf_prk md salt secret, EVP_MD_size md)"
    using HMAC_ok [OF assms, of md salt secret] unfolding prk by blast
  have len: "length (hkdf_prk md salt secret) = EVP_MD_size md" by (simp add: hkdf_prk_def)
  show ?thesis
  proof (cases r1)
    case (Some x)
    then have "x = (hkdf_prk md salt secret, EVP_MD_size md)" using m(4) by simp
    then have eq: "HKDF out_len md secret salt info h = HKDF_expand out_len md (hkdf_prk md salt secret) info h1"
      using m(1) Some len by (simp add: HKDF_def HKDF_extract_def)
    show ?thesis
      using HKDF_expand_ok [OF m(2), of out_len md "hkdf_prk md salt secret" info] m(3) unfolding eq by blast
  qed (use m in \<open>auto simp: HKDF_def HKDF_extract_def\<close>)
qed

theorem HKDF_correct_witness:
  "(\<exists>r h'. HKDF 42 EVP_sha256 [11] None [] (\<lambda>n md. Some (zero_block md)) = Some (r, h')
     \<and> r = Some (hkdf_okm EVP_sha256 (hkdf_prk EVP_sha256 None [11]) [] 42))"
  using HKDF_correct [of "\<lambda>n md. Some (zero_block md)" 42 EVP_sha256 "[11]" None "[]"]
  by (auto simp: heap_ok_def grants_def)

end
