(* ===== verification/Lhash.thy ===== *)
theory Lhash
  imports Internal "HOL-Library.Multiset"
begin

unbundle bit_operations_syntax

text \<open>
  The chained hash table (crypto/lhash/lhash.c), with the hash and comparison functions of its user as
  arguments, and one of its users, the configuration values of crypto/conf/conf.c.

  A chain of \<open>LHASH_ITEM\<close> objects is the list of them; each keeps its address, because an iteration
  holds the address of the next item while a callback changes the table. The pointer to a
  \<open>next\<close> field that the lookups return is the position of the item in its chain, the length of the
  chain for the null pointer at its end. \<open>alloc n\<close> is the address of a new block of \<open>n\<close> bytes, if
  there is one. \<open>num_items\<close> counts live blocks of 24 bytes and cannot wrap.
\<close>

section \<open>The code\<close>

record 'a lhash_item =
  item_addr :: nat
  item_data :: 'a
  item_hash :: u32

record 'a lhash =
  lh_num :: nat
  lh_buckets :: "'a lhash_item list list"
  lh_depth :: u32

abbreviation (input) kMinNumBuckets :: nat where "kMinNumBuckets \<equiv> 16"
abbreviation (input) kMaxAverageChainLength :: nat where "kMaxAverageChainLength \<equiv> 2"
abbreviation (input) kMinAverageChainLength :: nat where "kMinAverageChainLength \<equiv> 1"
abbreviation (input) UINT_MAX :: u32 where "UINT_MAX \<equiv> 0xffffffff"

type_synonym heap_alloc = "nat \<Rightarrow> nat option"

definition lh_new :: "heap_alloc \<Rightarrow> 'a lhash option" where
  "lh_new alloc =
     (if alloc 48 = None then None
      else if alloc (8 * kMinNumBuckets) = None then None
      else Some \<lparr>lh_num = 0, lh_buckets = replicate kMinNumBuckets [], lh_depth = 0\<rparr>)"

text \<open>The addresses of the items that are freed, in order.\<close>

definition lh_free :: "'a lhash option \<Rightarrow> nat list" where
  "lh_free lh = (case lh of None \<Rightarrow> [] | Some lh \<Rightarrow> map item_addr (concat (lh_buckets lh)))"

definition lh_num_items :: "'a lhash \<Rightarrow> nat" where
  "lh_num_items lh = lh_num lh"

fun chain_search :: "('a \<Rightarrow> bool) \<Rightarrow> 'a lhash_item list \<Rightarrow> nat" where
  "chain_search eq [] = 0"
| "chain_search eq (cur # rest) = (if eq (item_data cur) then 0 else Suc (chain_search eq rest))"

definition get_next_ptr_and_hash :: "('a \<Rightarrow> u32) \<Rightarrow> ('a \<Rightarrow> 'a \<Rightarrow> int) \<Rightarrow> 'a lhash \<Rightarrow> 'a \<Rightarrow> u32 \<times> nat \<times> nat" where
  "get_next_ptr_and_hash hash cmp lh data =
     (let h = hash data; b = unat h mod length (lh_buckets lh)
      in (h, b, chain_search (\<lambda>d. cmp d data = 0) (lh_buckets lh ! b)))"

definition get_next_ptr_by_key :: "'a lhash \<Rightarrow> 'k \<Rightarrow> u32 \<Rightarrow> ('k \<Rightarrow> 'a \<Rightarrow> int) \<Rightarrow> nat \<times> nat" where
  "get_next_ptr_by_key lh key key_hash cmp_key =
     (let b = unat key_hash mod length (lh_buckets lh)
      in (b, chain_search (\<lambda>d. cmp_key key d = 0) (lh_buckets lh ! b)))"

text \<open>\<open>*next_ptr\<close>.\<close>

definition deref_next :: "'a lhash \<Rightarrow> nat \<Rightarrow> nat \<Rightarrow> 'a lhash_item option" where
  "deref_next lh b k = (if k < length (lh_buckets lh ! b) then Some (lh_buckets lh ! b ! k) else None)"

definition lh_retrieve :: "('a \<Rightarrow> u32) \<Rightarrow> ('a \<Rightarrow> 'a \<Rightarrow> int) \<Rightarrow> 'a lhash \<Rightarrow> 'a \<Rightarrow> 'a option" where
  "lh_retrieve hash cmp lh data =
     (case get_next_ptr_and_hash hash cmp lh data of (_, b, k) \<Rightarrow> map_option item_data (deref_next lh b k))"

definition lh_retrieve_key :: "'a lhash \<Rightarrow> 'k \<Rightarrow> u32 \<Rightarrow> ('k \<Rightarrow> 'a \<Rightarrow> int) \<Rightarrow> 'a option" where
  "lh_retrieve_key lh key key_hash cmp_key =
     (case get_next_ptr_by_key lh key key_hash cmp_key of (b, k) \<Rightarrow> map_option item_data (deref_next lh b k))"

definition rebucket_item :: "nat \<Rightarrow> 'a lhash_item \<Rightarrow> 'a lhash_item list list \<Rightarrow> 'a lhash_item list list" where
  "rebucket_item n cur bs = (let k = unat (item_hash cur) mod n in bs[k := cur # bs ! k])"

definition lh_rebucket :: "heap_alloc \<Rightarrow> nat \<Rightarrow> 'a lhash \<Rightarrow> 'a lhash" where
  "lh_rebucket alloc new_num_buckets lh =
     (let alloc_size = 8 * new_num_buckets mod 2 ^ 64
      in if alloc_size div 8 \<noteq> new_num_buckets then lh
         else if alloc alloc_size = None then lh
         else lh\<lparr>lh_buckets := fold (rebucket_item new_num_buckets) (concat (lh_buckets lh)) (replicate new_num_buckets [])\<rparr>)"

text \<open>The code asserts here that there are at least \<open>kMinNumBuckets\<close> buckets, which is part of \<open>lh_inv\<close> below.\<close>

definition lh_maybe_resize :: "heap_alloc \<Rightarrow> 'a lhash \<Rightarrow> 'a lhash" where
  "lh_maybe_resize alloc lh =
     (if lh_depth lh > 0 then lh
      else let n = length (lh_buckets lh); avg_chain_length = lh_num lh div n
           in if avg_chain_length > kMaxAverageChainLength
              then let new_num_buckets = n * 2 mod 2 ^ 64
                   in if new_num_buckets > n then lh_rebucket alloc new_num_buckets lh else lh
              else if avg_chain_length < kMinAverageChainLength \<and> n > kMinNumBuckets
              then let new_num_buckets = n div 2;
                       new_num_buckets = (if new_num_buckets < kMinNumBuckets then kMinNumBuckets else new_num_buckets)
                   in lh_rebucket alloc new_num_buckets lh
              else lh)"

text \<open>The results are the returned flag and \<open>*old_data\<close>.\<close>

definition lh_insert :: "('a \<Rightarrow> u32) \<Rightarrow> ('a \<Rightarrow> 'a \<Rightarrow> int) \<Rightarrow> heap_alloc \<Rightarrow> 'a \<Rightarrow> 'a lhash \<Rightarrow> bool \<times> 'a option \<times> 'a lhash" where
  "lh_insert hash cmp alloc data lh =
     (case get_next_ptr_and_hash hash cmp lh data of (h, b, k) \<Rightarrow>
      let chain = lh_buckets lh ! b in
      case deref_next lh b k of
        Some item \<Rightarrow> (True, Some (item_data item),
          lh\<lparr>lh_buckets := (lh_buckets lh)[b := chain[k := item\<lparr>item_data := data\<rparr>]]\<rparr>)
      | None \<Rightarrow> (case alloc 24 of
          None \<Rightarrow> (False, None, lh)
        | Some p \<Rightarrow> (True, None, lh_maybe_resize alloc
            (lh\<lparr>lh_buckets := (lh_buckets lh)[b := chain @ [\<lparr>item_addr = p, item_data = data, item_hash = h\<rparr>]],
                lh_num := lh_num lh + 1\<rparr>))))"

definition lh_delete :: "('a \<Rightarrow> u32) \<Rightarrow> ('a \<Rightarrow> 'a \<Rightarrow> int) \<Rightarrow> heap_alloc \<Rightarrow> 'a \<Rightarrow> 'a lhash \<Rightarrow> 'a option \<times> 'a lhash" where
  "lh_delete hash cmp alloc data lh =
     (case get_next_ptr_and_hash hash cmp lh data of (h, b, k) \<Rightarrow>
      case deref_next lh b k of
        None \<Rightarrow> (None, lh)
      | Some item \<Rightarrow> (Some (item_data item), lh_maybe_resize alloc
          (lh\<lparr>lh_buckets := (lh_buckets lh)[b := take k (lh_buckets lh ! b) @ drop (Suc k) (lh_buckets lh ! b)],
              lh_num := lh_num lh - 1\<rparr>)))"

text \<open>
  The iteration. \<open>None\<close> is an access to an item that is no longer in the table, or an iteration that
  does not end because the callback keeps adding items behind the current one.
\<close>

fun item_at :: "nat \<Rightarrow> 'a lhash_item list \<Rightarrow> ('a lhash_item \<times> nat option) option" where
  "item_at p [] = None"
| "item_at p (it # rest) =
     (if item_addr it = p then Some (it, case rest of [] \<Rightarrow> None | nx # _ \<Rightarrow> Some (item_addr nx)) else item_at p rest)"

partial_function (option) doall_chain :: "('a \<Rightarrow> 'a lhash \<times> 's \<Rightarrow> 'a lhash \<times> 's) \<Rightarrow> nat \<Rightarrow> nat option
    \<Rightarrow> 'a lhash \<times> 's \<Rightarrow> ('a lhash \<times> 's) option" where
  [code]: "doall_chain func i cur st =
     (case cur of None \<Rightarrow> Some st
      | Some p \<Rightarrow> (case item_at p (lh_buckets (fst st) ! i) of None \<Rightarrow> None
        | Some (it, nx) \<Rightarrow> doall_chain func i nx (func (item_data it) st)))"

partial_function (option) doall_buckets :: "('a \<Rightarrow> 'a lhash \<times> 's \<Rightarrow> 'a lhash \<times> 's) \<Rightarrow> nat
    \<Rightarrow> 'a lhash \<times> 's \<Rightarrow> ('a lhash \<times> 's) option" where
  [code]: "doall_buckets func i st =
     (if i < length (lh_buckets (fst st))
      then (case doall_chain func i (case lh_buckets (fst st) ! i of [] \<Rightarrow> None | it # _ \<Rightarrow> Some (item_addr it)) st of
          None \<Rightarrow> None | Some st \<Rightarrow> doall_buckets func (Suc i) st)
      else Some st)"

definition lh_doall_arg :: "heap_alloc \<Rightarrow> ('a \<Rightarrow> 'a lhash \<times> 's \<Rightarrow> 'a lhash \<times> 's)
    \<Rightarrow> 'a lhash option \<Rightarrow> 's \<Rightarrow> ('a lhash option \<times> 's) option" where
  "lh_doall_arg alloc func lh arg =
     (case lh of None \<Rightarrow> Some (None, arg)
      | Some lh \<Rightarrow>
        let lh = (if lh_depth lh < UINT_MAX then lh\<lparr>lh_depth := lh_depth lh + 1\<rparr> else lh)
        in case doall_buckets func 0 (lh, arg) of
             None \<Rightarrow> None
           | Some (lh, arg) \<Rightarrow>
               let lh = (if lh_depth lh < UINT_MAX then lh\<lparr>lh_depth := lh_depth lh - 1\<rparr> else lh)
               in Some (Some (lh_maybe_resize alloc lh), arg))"

definition lh_strhash :: "bytes option \<Rightarrow> u32" where
  "lh_strhash c = (case c of None \<Rightarrow> 0 | Some c \<Rightarrow> OPENSSL_hash32 c)"

section \<open>A user: configuration values (conf.c)\<close>

text \<open>Two pointers to the same section compare equal without looking, as their texts would.\<close>

record conf_value =
  cv_section :: bytes
  cv_name :: "bytes option"
  cv_value :: "bytes option"

fun strcmp :: "bytes \<Rightarrow> bytes \<Rightarrow> int" where
  "strcmp [] [] = 0"
| "strcmp [] (b # bs) = -1"
| "strcmp (a # as) [] = 1"
| "strcmp (a # as) (b # bs) = (if a = b then strcmp as bs else if a < b then -1 else 1)"

definition conf_value_hash :: "conf_value \<Rightarrow> u32" where
  "conf_value_hash v = push_bit 2 (lh_strhash (Some (cv_section v))) XOR lh_strhash (cv_name v)"

definition conf_value_cmp :: "conf_value \<Rightarrow> conf_value \<Rightarrow> int" where
  "conf_value_cmp a b =
     (let i = (if cv_section a \<noteq> cv_section b then strcmp (cv_section a) (cv_section b) else 0)
      in if i \<noteq> 0 then i
         else case (cv_name a, cv_name b) of
           (Some m, Some n) \<Rightarrow> strcmp m n
         | (None, None) \<Rightarrow> 0
         | (None, Some _) \<Rightarrow> -1
         | (Some _, None) \<Rightarrow> 1)"

section \<open>The contract of the two functions\<close>

locale hashing =
  fixes hash :: "'a \<Rightarrow> u32"
    and cmp :: "'a \<Rightarrow> 'a \<Rightarrow> int"
  assumes cmp_refl [simp]: "cmp x x = 0"
    and cmp_sym: "cmp x y = 0 \<Longrightarrow> cmp y x = 0"
    and cmp_trans: "cmp x y = 0 \<Longrightarrow> cmp y z = 0 \<Longrightarrow> cmp x z = 0"
    and hash_cong: "cmp x y = 0 \<Longrightarrow> hash x = hash y"

lemma strcmp_eq_0 [simp]: "strcmp a b = 0 \<longleftrightarrow> a = b"
  by (induction a b rule: strcmp.induct) auto

lemma conf_value_cmp_eq_0: "conf_value_cmp a b = 0 \<longleftrightarrow> cv_section a = cv_section b \<and> cv_name a = cv_name b"
  by (auto simp: conf_value_cmp_def Let_def split: option.splits)

interpretation conf_value: hashing conf_value_hash conf_value_cmp
  by unfold_locales (simp_all add: conf_value_cmp_eq_0 conf_value_hash_def)

section \<open>Well-formed tables\<close>

definition placed :: "('a \<Rightarrow> u32) \<Rightarrow> 'a lhash_item list list \<Rightarrow> bool" where
  "placed hash bs \<longleftrightarrow> (\<forall>i<length bs. \<forall>it\<in>set (bs ! i).
     item_hash it = hash (item_data it) \<and> unat (hash (item_data it)) mod length bs = i)"

definition separate :: "('a \<Rightarrow> 'a \<Rightarrow> int) \<Rightarrow> 'a lhash_item list \<Rightarrow> bool" where
  "separate cmp its \<longleftrightarrow> distinct (map item_addr its)
     \<and> (\<forall>x\<in>set its. \<forall>y\<in>set its. cmp (item_data x) (item_data y) = 0 \<longrightarrow> x = y)"

definition lh_inv :: "('a \<Rightarrow> u32) \<Rightarrow> ('a \<Rightarrow> 'a \<Rightarrow> int) \<Rightarrow> 'a lhash \<Rightarrow> bool" where
  "lh_inv hash cmp lh \<longleftrightarrow> 16 \<le> length (lh_buckets lh) \<and> length (lh_buckets lh) < 2 ^ 64
     \<and> lh_num lh = length (concat (lh_buckets lh))
     \<and> placed hash (lh_buckets lh) \<and> separate cmp (concat (lh_buckets lh))"

definition lh_set :: "'a lhash \<Rightarrow> 'a set" where
  "lh_set lh = item_data ` set (concat (lh_buckets lh))"

lemma chain_search_le: "chain_search eq its \<le> length its"
  by (induction its) auto

lemma chain_search_found:
  "chain_search eq its < length its \<Longrightarrow> eq (item_data (its ! chain_search eq its))"
  by (induction its) auto

lemma chain_search_not_found:
  "chain_search eq its = length its \<longleftrightarrow> (\<forall>it\<in>set its. \<not> eq (item_data it))"
  by (induction its) auto

lemma concat_update:
  assumes "b < length bs"
  shows "mset (concat (bs[b := c])) + mset (bs ! b) = mset (concat bs) + mset c"
proof -
  have "concat bs = concat (take b bs) @ bs ! b @ concat (drop (Suc b) bs)"
    using assms by (subst id_take_nth_drop [OF assms]) simp
  moreover have "concat (bs[b := c]) = concat (take b bs) @ c @ concat (drop (Suc b) bs)"
    using assms by (simp add: upd_conv_take_nth_drop)
  ultimately show ?thesis by (simp only: mset_append) (simp add: ac_simps)
qed

lemma length_concat_update:
  "b < length bs \<Longrightarrow> length (concat (bs[b := c])) + length (bs ! b) = length (concat bs) + length c"
  using concat_update [of b bs c] by (metis size_mset size_union)

lemma separate_mset: "mset xs = mset ys \<Longrightarrow> separate cmp xs = separate cmp ys"
  unfolding separate_def using mset_eq_setD mset_eq_imp_distinct_iff by (metis mset_map)

lemma in_concat_nth: "i < length bs \<Longrightarrow> it \<in> set (bs ! i) \<Longrightarrow> it \<in> set (concat bs)"
  using nth_mem by fastforce

lemma rebucket_fold:
  assumes "length bs = n" "0 < n" "placed hash bs" "\<forall>it\<in>set its. item_hash it = hash (item_data it)"
  shows "length (fold (rebucket_item n) its bs) = n \<and> placed hash (fold (rebucket_item n) its bs)
    \<and> mset (concat (fold (rebucket_item n) its bs)) = mset its + mset (concat bs)"
  using assms
proof (induction its arbitrary: bs)
  case (Cons it its)
  let ?k = "unat (item_hash it) mod n"
  have k: "?k < length bs" using Cons.prems by simp
  have "length (rebucket_item n it bs) = n" using Cons.prems(1) by (simp add: rebucket_item_def Let_def)
  moreover have "placed hash (rebucket_item n it bs)"
    using Cons.prems k by (auto simp: placed_def rebucket_item_def Let_def nth_list_update)
  moreover have "mset (concat (rebucket_item n it bs)) = add_mset it (mset (concat bs))"
    using concat_update [OF k, of "it # bs ! ?k"] by (simp add: rebucket_item_def Let_def)
  ultimately show ?case using Cons.IH [of "rebucket_item n it bs"] Cons.prems by simp
qed simp

lemma lh_rebucket_inv:
  assumes "lh_inv hash cmp lh" "16 \<le> n" "n < 2 ^ 64"
  shows "lh_inv hash cmp (lh_rebucket alloc n lh) \<and> lh_set (lh_rebucket alloc n lh) = lh_set lh
    \<and> lh_num (lh_rebucket alloc n lh) = lh_num lh \<and> lh_depth (lh_rebucket alloc n lh) = lh_depth lh"
proof -
  let ?bs = "fold (rebucket_item n) (concat (lh_buckets lh)) (replicate n [])"
  have "\<forall>it\<in>set (concat (lh_buckets lh)). item_hash it = hash (item_data it)"
    using assms(1) by (auto simp: lh_inv_def placed_def in_set_conv_nth) (metis nth_mem)
  moreover have "placed hash (replicate n [])" by (simp add: placed_def)
  ultimately have r: "length ?bs = n \<and> placed hash ?bs
      \<and> mset (concat ?bs) = mset (concat (lh_buckets lh)) + mset (concat (replicate n []))"
    using assms(2) by (intro rebucket_fold) simp_all
  then have m: "mset (concat ?bs) = mset (concat (lh_buckets lh))" by simp
  have "lh_inv hash cmp (lh\<lparr>lh_buckets := ?bs\<rparr>)"
    using assms r separate_mset [OF m] mset_eq_length [OF m] unfolding lh_inv_def by simp
  moreover have "lh_set (lh\<lparr>lh_buckets := ?bs\<rparr>) = lh_set lh"
    using mset_eq_setD [OF m] unfolding lh_set_def by simp
  ultimately show ?thesis using assms(1) by (simp add: lh_rebucket_def Let_def)
qed

lemma lh_maybe_resize_inv:
  assumes "lh_inv hash cmp lh"
  shows "lh_inv hash cmp (lh_maybe_resize alloc lh) \<and> lh_set (lh_maybe_resize alloc lh) = lh_set lh
    \<and> lh_num (lh_maybe_resize alloc lh) = lh_num lh \<and> lh_depth (lh_maybe_resize alloc lh) = lh_depth lh"
proof -
  let ?n = "length (lh_buckets lh)"
  consider "lh_maybe_resize alloc lh = lh"
    | m where "lh_maybe_resize alloc lh = lh_rebucket alloc m lh" "16 \<le> m" "m < 2 ^ 64"
  proof (cases "lh_maybe_resize alloc lh = lh")
    case False
    have n: "16 \<le> ?n" "?n < 2 ^ 64" using assms by (simp_all add: lh_inv_def)
    show ?thesis
    proof (cases "lh_num lh div ?n > 2")
      case True
      then have "lh_maybe_resize alloc lh = lh_rebucket alloc (?n * 2 mod 2 ^ 64) lh" "?n < ?n * 2 mod 2 ^ 64"
        using False by (auto simp: lh_maybe_resize_def Let_def split: if_splits)
      then show ?thesis using n(1) by (intro that(2) [of "?n * 2 mod 2 ^ 64"]) simp_all
    next
      case high: False
      then have "lh_maybe_resize alloc lh = lh_rebucket alloc (if ?n div 2 < 16 then 16 else ?n div 2) lh"
        using False by (auto simp: lh_maybe_resize_def Let_def split: if_splits)
      then show ?thesis using n by (intro that(2) [of "if ?n div 2 < 16 then 16 else ?n div 2"]) auto
    qed
  qed (rule that(1))
  then show ?thesis using assms lh_rebucket_inv [OF assms] by cases simp_all
qed

definition lh_addrs :: "'a lhash \<Rightarrow> nat set" where
  "lh_addrs lh = item_addr ` set (concat (lh_buckets lh))"

text \<open>An allocation that yields a block yields one that is not in use.\<close>

definition fresh :: "heap_alloc \<Rightarrow> 'a lhash \<Rightarrow> bool" where
  "fresh alloc lh \<longleftrightarrow> (case alloc 24 of None \<Rightarrow> True | Some p \<Rightarrow> p \<notin> lh_addrs lh)"

text \<open>The items without the one at a position, and with another there.\<close>

lemma chain_split:
  assumes "b < length bs" "k < length (bs ! b)"
  defines "rest \<equiv> take k (bs ! b) @ drop (Suc k) (bs ! b)"
  shows "mset (concat bs) = mset (bs ! b ! k # concat (bs[b := rest]))"
    "mset (concat (bs[b := (bs ! b)[k := x]])) = mset (x # concat (bs[b := rest]))"
    "set rest \<subseteq> set (bs ! b)" "length (bs ! b) = Suc (length rest)"
proof -
  have upd: "concat (bs[b := c]) = concat (take b bs) @ c @ concat (drop (Suc b) bs)" for c
    using assms(1) by (simp add: upd_conv_take_nth_drop)
  have "bs[b := take k (bs ! b) @ bs ! b ! k # drop (Suc k) (bs ! b)] = bs"
    using assms(2) by (simp flip: id_take_nth_drop)
  then have "concat bs = concat (take b bs) @ (take k (bs ! b) @ bs ! b ! k # drop (Suc k) (bs ! b)) @ concat (drop (Suc b) bs)"
    using upd [of "take k (bs ! b) @ bs ! b ! k # drop (Suc k) (bs ! b)"] by simp
  then show "mset (concat bs) = mset (bs ! b ! k # concat (bs[b := rest]))"
    by (simp add: upd rest_def del: mset_concat)
  show "mset (concat (bs[b := (bs ! b)[k := x]])) = mset (x # concat (bs[b := rest]))"
    using assms(2) by (simp add: upd rest_def upd_conv_take_nth_drop)
  show "set rest \<subseteq> set (bs ! b)" by (auto simp: rest_def dest: in_set_takeD in_set_dropD)
  show "length (bs ! b) = Suc (length rest)" using assms(2) by (simp add: rest_def)
qed

text \<open>What the lookup of a datum finds.\<close>

lemma deref_next_Some:
  assumes "lh_inv hash cmp lh" "get_next_ptr_and_hash hash cmp lh d = (h, b, k)" "deref_next lh b k = Some it"
  shows "b < length (lh_buckets lh)" "k < length (lh_buckets lh ! b)" "it = lh_buckets lh ! b ! k" "h = hash d"
    "b = unat (hash d) mod length (lh_buckets lh)" "cmp (item_data it) d = 0"
    "k = chain_search (\<lambda>x. cmp x d = 0) (lh_buckets lh ! b)" "it \<in> set (concat (lh_buckets lh))"
proof -
  show b: "b < length (lh_buckets lh)"
    using assms(1,2) by (auto simp: lh_inv_def get_next_ptr_and_hash_def Let_def intro!: mod_less_divisor)
  show k: "k < length (lh_buckets lh ! b)" and it: "it = lh_buckets lh ! b ! k"
    using assms(3) by (auto simp: deref_next_def split: if_splits)
  show "h = hash d" "b = unat (hash d) mod length (lh_buckets lh)"
    and ck: "k = chain_search (\<lambda>x. cmp x d = 0) (lh_buckets lh ! b)"
    using assms(2) by (auto simp: get_next_ptr_and_hash_def Let_def)
  show "cmp (item_data it) d = 0"
    using chain_search_found [of "\<lambda>x. cmp x d = 0" "lh_buckets lh ! b"] k unfolding it ck by simp
  show "it \<in> set (concat (lh_buckets lh))"
    unfolding it using k by (intro in_concat_nth [OF b]) simp
qed

context hashing
begin

lemma deref_next_None:
  assumes "lh_inv hash cmp lh" "get_next_ptr_and_hash hash cmp lh d = (h, b, k)" "deref_next lh b k = None"
  shows "b < length (lh_buckets lh)" "h = hash d" "b = unat (hash d) mod length (lh_buckets lh)"
    "\<forall>it\<in>set (concat (lh_buckets lh)). cmp (item_data it) d \<noteq> 0"
proof -
  show b: "b < length (lh_buckets lh)" and "h = hash d" and bh: "b = unat (hash d) mod length (lh_buckets lh)"
    using assms(1,2) by (auto simp: lh_inv_def get_next_ptr_and_hash_def Let_def intro!: mod_less_divisor)
  have k: "k = chain_search (\<lambda>x. cmp x d = 0) (lh_buckets lh ! b)"
    using assms(2) by (auto simp: get_next_ptr_and_hash_def Let_def)
  have "k = length (lh_buckets lh ! b)"
    using assms(3) chain_search_le [of "\<lambda>x. cmp x d = 0" "lh_buckets lh ! b"]
    by (auto simp: deref_next_def k split: if_splits)
  then have none: "\<forall>it\<in>set (lh_buckets lh ! b). cmp (item_data it) d \<noteq> 0"
    using chain_search_not_found [of "\<lambda>x. cmp x d = 0" "lh_buckets lh ! b"] k by simp
  show "\<forall>it\<in>set (concat (lh_buckets lh)). cmp (item_data it) d \<noteq> 0"
  proof (intro ballI notI)
    fix it
    assume "it \<in> set (concat (lh_buckets lh))" and eq: "cmp (item_data it) d = 0"
    then obtain c where "c \<in> set (lh_buckets lh)" "it \<in> set c" by auto
    then obtain i where i: "i < length (lh_buckets lh)" "it \<in> set (lh_buckets lh ! i)"
      by (metis in_set_conv_nth)
    then have "unat (hash (item_data it)) mod length (lh_buckets lh) = i"
      using assms(1) by (auto simp: lh_inv_def placed_def)
    then have "i = b" using hash_cong [OF eq] bh by simp
    then show False using none i eq by auto
  qed
qed

lemma same_item:
  assumes "lh_inv hash cmp lh" "x \<in> set (concat (lh_buckets lh))" "y \<in> set (concat (lh_buckets lh))"
    "cmp (item_data x) d = 0" "cmp (item_data y) d = 0"
  shows "x = y"
proof -
  have "cmp (item_data x) (item_data y) = 0" using assms(4,5) cmp_sym cmp_trans by blast
  then show ?thesis using assms(1-3) unfolding lh_inv_def separate_def by blast
qed

lemma retrieve_iff:
  assumes "lh_inv hash cmp lh"
  shows "lh_retrieve hash cmp lh d = Some x \<longleftrightarrow> x \<in> lh_set lh \<and> cmp x d = 0"
proof -
  obtain h b k where n: "get_next_ptr_and_hash hash cmp lh d = (h, b, k)" by (metis prod_cases3)
  show ?thesis
  proof (cases "deref_next lh b k")
    case None
    then show ?thesis using deref_next_None(4) [OF assms n] by (auto simp: lh_retrieve_def n lh_set_def)
  next
    case (Some it)
    note it = deref_next_Some [OF assms n Some]
    have "x = item_data it" if "x \<in> lh_set lh" "cmp x d = 0"
    proof -
      obtain y where y: "y \<in> set (concat (lh_buckets lh))" "x = item_data y" using \<open>x \<in> lh_set lh\<close> unfolding lh_set_def by blast
      then have "y = it" using same_item [OF assms y(1) it(8)] that(2) it(6) by simp
      then show ?thesis using y by simp
    qed
    then show ?thesis using it(6,8) unfolding lh_retrieve_def n by (auto simp: Some lh_set_def simp del: set_concat)
  qed
qed

lemma retrieve_None: "lh_inv hash cmp lh \<Longrightarrow> lh_retrieve hash cmp lh d = None \<longleftrightarrow> (\<forall>x\<in>lh_set lh. cmp x d \<noteq> 0)"
  using retrieve_iff [of lh d] by (metis not_Some_eq)

text \<open>Replacing the contents of one chain: what has to be known of the new chain.\<close>

lemma inv_update:
  assumes "lh_inv hash cmp lh" "b < length (lh_buckets lh)"
    and "\<forall>it\<in>set c. item_hash it = hash (item_data it) \<and> unat (hash (item_data it)) mod length (lh_buckets lh) = b"
    and "separate cmp (concat ((lh_buckets lh)[b := c]))"
    and "num + length (lh_buckets lh ! b) = lh_num lh + length c"
  shows "lh_inv hash cmp (lh\<lparr>lh_buckets := (lh_buckets lh)[b := c], lh_num := num\<rparr>)"
proof -
  have "placed hash ((lh_buckets lh)[b := c])"
    using assms(1,2,3) unfolding lh_inv_def placed_def by (auto simp: nth_list_update)
  moreover have "num = length (concat ((lh_buckets lh)[b := c]))"
    using length_concat_update [OF assms(2), of c] assms(1,5) unfolding lh_inv_def by linarith
  ultimately show ?thesis using assms(1,4) unfolding lh_inv_def by simp
qed

lemma placed_bucket:
  assumes "lh_inv hash cmp lh" "b < length (lh_buckets lh)" "it \<in> set (lh_buckets lh ! b)"
  shows "item_hash it = hash (item_data it) \<and> unat (hash (item_data it)) mod length (lh_buckets lh) = b"
  using assms unfolding lh_inv_def placed_def by auto

lemma insert_new:
  assumes "lh_inv hash cmp lh" "get_next_ptr_and_hash hash cmp lh d = (h, b, k)" "deref_next lh b k = None"
    "p \<notin> lh_addrs lh"
  defines "lh' \<equiv> lh\<lparr>lh_buckets := (lh_buckets lh)[b := lh_buckets lh ! b @ [\<lparr>item_addr = p, item_data = d, item_hash = h\<rparr>]],
      lh_num := lh_num lh + 1\<rparr>"
  shows "lh_inv hash cmp lh'" "lh_set lh' = insert d (lh_set lh)"
proof -
  note none = deref_next_None [OF assms(1-3)]
  let ?new = "\<lparr>item_addr = p, item_data = d, item_hash = h\<rparr>"
  let ?bs = "(lh_buckets lh)[b := lh_buckets lh ! b @ [?new]]"
  have m: "mset (concat ?bs) = mset (?new # concat (lh_buckets lh))"
    using concat_update [OF none(1), of "lh_buckets lh ! b @ [?new]"] by simp
  have "separate cmp (?new # concat (lh_buckets lh))"
    using assms(1,4) none(4) cmp_sym unfolding lh_inv_def separate_def lh_addrs_def by force
  then have sep: "separate cmp (concat ?bs)" using separate_mset [OF m] by simp
  show "lh_inv hash cmp lh'"
    unfolding lh'_def
    by (rule inv_update [OF assms(1) none(1) _ sep])
      (use none(2,3) placed_bucket [OF assms(1) none(1)] in auto)
  show "lh_set lh' = insert d (lh_set lh)"
    using mset_eq_setD [OF m] by (simp add: lh'_def lh_set_def del: set_concat)
qed

lemma insert_old:
  assumes "lh_inv hash cmp lh" "get_next_ptr_and_hash hash cmp lh d = (h, b, k)" "deref_next lh b k = Some it"
  defines "lh' \<equiv> lh\<lparr>lh_buckets := (lh_buckets lh)[b := (lh_buckets lh ! b)[k := it\<lparr>item_data := d\<rparr>]]\<rparr>"
  shows "lh_inv hash cmp lh'" "lh_set lh' = insert d (lh_set lh - {item_data it})"
proof -
  note found = deref_next_Some [OF assms(1-3)]
  let ?new = "it\<lparr>item_data := d\<rparr>"
  let ?bs = "(lh_buckets lh)[b := (lh_buckets lh ! b)[k := ?new]]"
  define its where "its = concat ((lh_buckets lh)[b := take k (lh_buckets lh ! b) @ drop (Suc k) (lh_buckets lh ! b)])"
  have old: "mset (concat (lh_buckets lh)) = mset (it # its)"
    and m': "mset (concat ?bs) = mset (?new # its)"
    unfolding its_def found(3) using chain_split(1,2) [OF found(1,2)] by auto
  have "separate cmp (it # its)" using assms(1) separate_mset [OF old] by (simp add: lh_inv_def)
  then have sep0: "separate cmp its" "item_addr it \<notin> item_addr ` set its"
    "\<forall>y\<in>set its. cmp (item_data it) (item_data y) \<noteq> 0"
    unfolding separate_def by auto
  then have "\<forall>y\<in>set its. cmp d (item_data y) \<noteq> 0 \<and> cmp (item_data y) d \<noteq> 0"
    using cmp_trans [OF found(6)] cmp_sym by blast
  then have "separate cmp (?new # its)" using sep0(1,2) unfolding separate_def by simp
  then have sep: "separate cmp (concat ?bs)" using separate_mset [OF m'] by simp
  have "lh_inv hash cmp (lh\<lparr>lh_buckets := ?bs, lh_num := lh_num lh\<rparr>)"
  proof (rule inv_update [OF assms(1) found(1) _ sep])
    show "\<forall>x\<in>set ((lh_buckets lh ! b)[k := ?new]). item_hash x = hash (item_data x)
        \<and> unat (hash (item_data x)) mod length (lh_buckets lh) = b"
    proof
      fix x
      assume "x \<in> set ((lh_buckets lh ! b)[k := ?new])"
      then consider "x = ?new" | "x \<in> set (lh_buckets lh ! b)" using set_update_subset_insert by fastforce
      then show "item_hash x = hash (item_data x) \<and> unat (hash (item_data x)) mod length (lh_buckets lh) = b"
      proof cases
        case 1
        have "it \<in> set (lh_buckets lh ! b)" using found(2,3) by simp
        then show ?thesis using placed_bucket [OF assms(1) found(1)] hash_cong [OF found(6)] found(5) 1 by simp
      qed (use placed_bucket [OF assms(1) found(1)] in simp)
    qed
  qed simp
  then show "lh_inv hash cmp lh'" by (simp add: lh'_def)
  have "item_data it \<notin> item_data ` set its"
    using sep0(3) by (metis cmp_refl imageE)
  then show "lh_set lh' = insert d (lh_set lh - {item_data it})"
    using mset_eq_setD [OF m'] mset_eq_setD [OF old] by (simp add: lh'_def lh_set_def del: set_concat)
qed

lemma delete_item:
  assumes "lh_inv hash cmp lh" "get_next_ptr_and_hash hash cmp lh d = (h, b, k)" "deref_next lh b k = Some it"
  defines "lh' \<equiv> lh\<lparr>lh_buckets := (lh_buckets lh)[b := take k (lh_buckets lh ! b) @ drop (Suc k) (lh_buckets lh ! b)],
              lh_num := lh_num lh - 1\<rparr>"
  shows "lh_inv hash cmp lh'" "lh_set lh' = lh_set lh - {item_data it}"
proof -
  note found = deref_next_Some [OF assms(1-3)]
  let ?c = "take k (lh_buckets lh ! b) @ drop (Suc k) (lh_buckets lh ! b)"
  let ?bs = "(lh_buckets lh)[b := ?c]"
  note split = chain_split [OF found(1,2), folded found(3)]
  have m: "mset (concat (lh_buckets lh)) = mset (it # concat ?bs)" by (rule split(1))
  then have sep: "separate cmp (it # concat ?bs)" using assms(1) separate_mset [OF m] by (simp add: lh_inv_def)
  have "0 < lh_num lh" using mset_eq_length [OF m] assms(1) by (simp add: lh_inv_def)
  show "lh_inv hash cmp lh'"
    unfolding lh'_def
  proof (rule inv_update [OF assms(1) found(1)])
    show "\<forall>x\<in>set ?c. item_hash x = hash (item_data x) \<and> unat (hash (item_data x)) mod length (lh_buckets lh) = b"
      using split(3) placed_bucket [OF assms(1) found(1)] by blast
    show "separate cmp (concat ?bs)" using sep unfolding separate_def by simp
    show "lh_num lh - 1 + length (lh_buckets lh ! b) = lh_num lh + length ?c"
      using split(4) \<open>0 < lh_num lh\<close> by linarith
  qed
  have "item_data it \<notin> item_data ` set (concat ?bs)"
    using sep unfolding separate_def by force
  then show "lh_set lh' = lh_set lh - {item_data it}"
    using mset_eq_setD [OF m] by (simp add: lh'_def lh_set_def del: set_concat)
qed

lemma other_data:
  assumes "lh_inv hash cmp lh" "get_next_ptr_and_hash hash cmp lh d = (h, b, k)" "deref_next lh b k = Some it"
  shows "{x \<in> lh_set lh. cmp x d \<noteq> 0} = lh_set lh - {item_data it}"
proof -
  have "x \<in> {x \<in> lh_set lh. cmp x d \<noteq> 0} \<longleftrightarrow> x \<in> lh_set lh - {item_data it}" for x
    using retrieve_iff [OF assms(1), of d x] by (auto simp add: lh_retrieve_def assms(2,3))
  then show ?thesis by (rule set_eqI)
qed

lemma lh_insert_ok:
  assumes "lh_inv hash cmp lh" "fresh alloc lh"
  obtains ok lh' where "lh_insert hash cmp alloc d lh = (ok, lh_retrieve hash cmp lh d, lh')" "lh_inv hash cmp lh'"
    "lh_depth lh' = lh_depth lh" "ok \<longrightarrow> lh_set lh' = insert d {x \<in> lh_set lh. cmp x d \<noteq> 0}"
    "\<not> ok \<longrightarrow> lh' = lh \<and> alloc 24 = None \<and> lh_retrieve hash cmp lh d = None"
proof -
  obtain h b k where n: "get_next_ptr_and_hash hash cmp lh d = (h, b, k)" by (metis prod_cases3)
  show ?thesis
  proof (cases "deref_next lh b k")
    case (Some it)
    note old = insert_old [OF assms(1) n Some] and found = deref_next_Some [OF assms(1) n Some]
    have others: "{x \<in> lh_set lh. cmp x d \<noteq> 0} = lh_set lh - {item_data it}" by (rule other_data [OF assms(1) n Some])
    show ?thesis
      by (intro that [OF _ old(1), of True]) (use old in \<open>simp_all add: others lh_insert_def lh_retrieve_def n Some Let_def\<close>)
  next
    case None
    note none = deref_next_None [OF assms(1) n None]
    have ret: "lh_retrieve hash cmp lh d = None" by (simp add: lh_retrieve_def n None)
    have all: "{x \<in> lh_set lh. cmp x d \<noteq> 0} = lh_set lh"
      using none(4) by (auto simp: lh_set_def simp del: set_concat)
    show ?thesis
    proof (cases "alloc 24")
      case alloc: None
      show ?thesis
        by (rule that [of False lh]) (use alloc ret assms in \<open>simp_all add: lh_insert_def n None\<close>)
    next
      case (Some p)
      then have "p \<notin> lh_addrs lh" using assms(2) by (simp add: fresh_def)
      note new = insert_new [OF assms(1) n None this]
      note resize = lh_maybe_resize_inv [OF new(1), of alloc]
      show ?thesis
        by (rule that [OF _ resize [THEN conjunct1], of True])
          (use resize new Some ret all in \<open>simp_all add: lh_insert_def n None Let_def\<close>)
    qed
  qed
qed

lemma lh_delete_ok:
  assumes "lh_inv hash cmp lh"
  obtains lh' where "lh_delete hash cmp alloc d lh = (lh_retrieve hash cmp lh d, lh')" "lh_inv hash cmp lh'"
    "lh_depth lh' = lh_depth lh" "lh_set lh' = {x \<in> lh_set lh. cmp x d \<noteq> 0}"
proof -
  obtain h b k where n: "get_next_ptr_and_hash hash cmp lh d = (h, b, k)" by (metis prod_cases3)
  show ?thesis
  proof (cases "deref_next lh b k")
    case (Some it)
    note del = delete_item [OF assms n Some] and found = deref_next_Some [OF assms n Some]
    note resize = lh_maybe_resize_inv [OF del(1), of alloc]
    have others: "{x \<in> lh_set lh. cmp x d \<noteq> 0} = lh_set lh - {item_data it}" by (rule other_data [OF assms n Some])
    show ?thesis
      by (intro that [OF _ resize [THEN conjunct1]]) (use resize del in \<open>simp_all add: others lh_delete_def lh_retrieve_def n Some Let_def\<close>)
  next
    case None
    note none = deref_next_None [OF assms n None]
    have all: "{x \<in> lh_set lh. cmp x d \<noteq> 0} = lh_set lh"
      using none(4) by (auto simp: lh_set_def simp del: set_concat)
    show ?thesis
      by (rule that [of lh]) (use all assms in \<open>simp_all add: lh_delete_def lh_retrieve_def n None\<close>)
  qed
qed

end

section \<open>Iteration\<close>

text \<open>The callbacks the library's users pass: they look at the element, and may remove it.\<close>

definition flush_callback :: "('a \<Rightarrow> u32) \<Rightarrow> ('a \<Rightarrow> 'a \<Rightarrow> int) \<Rightarrow> heap_alloc \<Rightarrow> ('a \<Rightarrow> bool) \<Rightarrow> ('a \<Rightarrow> 's \<Rightarrow> 's)
    \<Rightarrow> 'a \<Rightarrow> 'a lhash \<times> 's \<Rightarrow> 'a lhash \<times> 's" where
  "flush_callback hash cmp alloc keep g d st = (case st of (lh, s) \<Rightarrow>
     (if keep d then lh else snd (lh_delete hash cmp alloc d lh), g d s))"

definition head_addr :: "'a lhash_item list \<Rightarrow> nat option" where
  "head_addr its = (case its of [] \<Rightarrow> None | it # _ \<Rightarrow> Some (item_addr it))"

lemma head_addr_simps [simp]: "head_addr [] = None" "head_addr (it # its) = Some (item_addr it)"
  by (simp_all add: head_addr_def)

lemma item_at_append:
  "item_addr it \<notin> item_addr ` set pre \<Longrightarrow> item_at (item_addr it) (pre @ it # rest) = Some (it, head_addr rest)"
  by (induction pre) (auto simp: head_addr_def)

lemma chain_search_append:
  "(\<forall>x\<in>set pre. \<not> eq (item_data x)) \<Longrightarrow> eq (item_data it) \<Longrightarrow> chain_search eq (pre @ it # rest) = length pre"
  by (induction pre) auto

lemma separate_chain:
  assumes "separate cmp (concat bs)" "i < length bs"
  shows "separate cmp (bs ! i)"
proof -
  have "concat bs = concat (take i bs) @ bs ! i @ concat (drop (Suc i) bs)"
    using assms(2) by (subst id_take_nth_drop [OF assms(2)]) simp
  then show ?thesis using assms(1) unfolding separate_def by auto
qed

lemma separate_split:
  assumes "separate cmp (pre @ it # rest)"
  shows "item_addr it \<notin> item_addr ` set pre" "\<forall>x\<in>set pre. cmp (item_data x) (item_data it) \<noteq> 0"
  using assms unfolding separate_def by force+

context hashing
begin

lemma delete_in_iteration:
  assumes "lh_inv hash cmp lh" "0 < lh_depth lh" "i < length (lh_buckets lh)" "lh_buckets lh ! i = pre @ it # rest"
  shows "lh_delete hash cmp alloc (item_data it) lh = (Some (item_data it),
    lh\<lparr>lh_buckets := (lh_buckets lh)[i := pre @ rest], lh_num := lh_num lh - 1\<rparr>)"
proof -
  have sep: "separate cmp (pre @ it # rest)"
    using separate_chain [of cmp "lh_buckets lh" i] assms unfolding lh_inv_def by simp
  have "it \<in> set (lh_buckets lh ! i)" by (simp add: assms(4))
  then have b: "unat (hash (item_data it)) mod length (lh_buckets lh) = i"
    using placed_bucket [OF assms(1,3)] by simp
  have k: "chain_search (\<lambda>x. cmp x (item_data it) = 0) (lh_buckets lh ! i) = length pre"
    unfolding assms(4) using separate_split(2) [OF sep] by (intro chain_search_append) simp_all
  show ?thesis
    using assms(2) by (simp add: lh_delete_def get_next_ptr_and_hash_def Let_def b k [unfolded assms(4)] deref_next_def assms(4) lh_maybe_resize_def)
qed

lemma doall_chain_flush:
  assumes "lh_inv hash cmp lh" "0 < lh_depth lh" "i < length (lh_buckets lh)" "lh_buckets lh ! i = pre @ todo"
  shows "\<exists>lh'. doall_chain (flush_callback hash cmp alloc keep g) i (head_addr todo) (lh, s)
      = Some (lh', fold g (map item_data todo) s)
    \<and> lh_inv hash cmp lh' \<and> lh_depth lh' = lh_depth lh
    \<and> lh_buckets lh' = (lh_buckets lh)[i := pre @ filter (\<lambda>it. keep (item_data it)) todo]"
  using assms
proof (induction todo arbitrary: lh pre s)
  case Nil
  then have "lh_buckets lh = (lh_buckets lh)[i := pre]" by (metis append_Nil2 list_update_id)
  then show ?case using Nil by (simp add: doall_chain.simps)
next
  case (Cons it rest)
  have "separate cmp (pre @ it # rest)"
    using separate_chain [of cmp "lh_buckets lh" i] Cons.prems unfolding lh_inv_def by simp
  then have at: "item_at (item_addr it) (lh_buckets lh ! i) = Some (it, head_addr rest)"
    unfolding Cons.prems(4) by (intro item_at_append separate_split(1))
  have step: "doall_chain (flush_callback hash cmp alloc keep g) i (head_addr (it # rest)) (lh, s)
    = doall_chain (flush_callback hash cmp alloc keep g) i (head_addr rest)
        (if keep (item_data it) then lh else snd (lh_delete hash cmp alloc (item_data it) lh), g (item_data it) s)"
    by (subst doall_chain.simps) (simp add: at flush_callback_def)
  show ?case
  proof (cases "keep (item_data it)")
    case True
    then show ?thesis
      using Cons.IH [of lh "pre @ [it]" "g (item_data it) s"] Cons.prems unfolding step by simp
  next
    case False
    define lh1 where "lh1 = lh\<lparr>lh_buckets := (lh_buckets lh)[i := pre @ rest], lh_num := lh_num lh - 1\<rparr>"
    have del: "lh_delete hash cmp alloc (item_data it) lh = (Some (item_data it), lh1)"
      unfolding lh1_def by (rule delete_in_iteration [OF Cons.prems])
    have inv: "lh_inv hash cmp lh1"
      using lh_delete_ok [OF Cons.prems(1), of alloc "item_data it"] del by auto
    have "lh_buckets lh1 ! i = pre @ rest" "i < length (lh_buckets lh1)" "0 < lh_depth lh1" "lh_depth lh1 = lh_depth lh"
      using Cons.prems by (simp_all add: lh1_def)
    then show ?thesis
      using Cons.IH [OF inv, of pre "g (item_data it) s"] False unfolding step del by (auto simp: lh1_def)
  qed
qed

lemma doall_buckets_flush:
  assumes "lh_inv hash cmp lh" "0 < lh_depth lh" "i \<le> length (lh_buckets lh)"
  shows "\<exists>lh'. doall_buckets (flush_callback hash cmp alloc keep g) i (lh, s)
      = Some (lh', fold g (map item_data (concat (drop i (lh_buckets lh)))) s)
    \<and> lh_inv hash cmp lh' \<and> lh_depth lh' = lh_depth lh
    \<and> lh_buckets lh' = take i (lh_buckets lh) @ map (filter (\<lambda>it. keep (item_data it))) (drop i (lh_buckets lh))"
  using assms
proof (induction "length (lh_buckets lh) - i" arbitrary: i lh s)
  case 0
  then show ?case by (simp add: doall_buckets.simps)
next
  case (Suc n)
  then have i: "i < length (lh_buckets lh)" by simp
  let ?bs = "lh_buckets lh"
  obtain lh1 where lh1: "doall_chain (flush_callback hash cmp alloc keep g) i (head_addr (?bs ! i)) (lh, s)
      = Some (lh1, fold g (map item_data (?bs ! i)) s)" "lh_inv hash cmp lh1" "lh_depth lh1 = lh_depth lh"
    "lh_buckets lh1 = ?bs[i := filter (\<lambda>it. keep (item_data it)) (?bs ! i)]"
    using doall_chain_flush [OF Suc.prems(1,2) i, of "[]" "?bs ! i" alloc keep g s] by auto
  have split: "drop i ?bs = ?bs ! i # drop (Suc i) ?bs" using i by (simp add: Cons_nth_drop_Suc)
  have n: "n = length (lh_buckets lh1) - Suc i" using Suc.hyps(2) by (simp add: lh1(4))
  have "\<exists>lh'. doall_buckets (flush_callback hash cmp alloc keep g) (Suc i) (lh1, fold g (map item_data (?bs ! i)) s)
      = Some (lh', fold g (map item_data (concat (drop (Suc i) (lh_buckets lh1)))) (fold g (map item_data (?bs ! i)) s))
    \<and> lh_inv hash cmp lh' \<and> lh_depth lh' = lh_depth lh1
    \<and> lh_buckets lh' = take (Suc i) (lh_buckets lh1) @ map (filter (\<lambda>it. keep (item_data it))) (drop (Suc i) (lh_buckets lh1))"
    by (rule Suc.hyps(1) [OF n lh1(2)]) (use Suc.prems lh1 i in simp_all)
  moreover have "drop (Suc i) (lh_buckets lh1) = drop (Suc i) ?bs" by (simp add: lh1(4))
  moreover have "take (Suc i) (lh_buckets lh1) = take i ?bs @ [filter (\<lambda>it. keep (item_data it)) (?bs ! i)]"
    using i by (simp add: lh1(4) take_Suc_conv_app_nth)
  ultimately show ?case
    by (subst doall_buckets.simps) (simp add: i head_addr_def [symmetric] lh1 split)
qed

lemma lh_doall_flush:
  assumes "lh_inv hash cmp lh" "lh_depth lh < 0xfffffffe"
  obtains lh' order where "lh_doall_arg alloc (flush_callback hash cmp alloc keep g) (Some lh) s = Some (Some lh', fold g order s)"
    "distinct order" "set order = lh_set lh" "lh_inv hash cmp lh'" "lh_depth lh' = lh_depth lh"
    "lh_set lh' = {x \<in> lh_set lh. keep x}"
    "\<exists>lh3. lh' = lh_maybe_resize alloc lh3 \<and> length (lh_buckets lh3) = length (lh_buckets lh) \<and> lh_depth lh3 = lh_depth lh
       \<and> lh_num lh3 = length (filter keep order) \<and> lh_num lh3 \<le> lh_num lh"
proof -
  define lh1 where "lh1 = lh\<lparr>lh_depth := lh_depth lh + 1\<rparr>"
  have u: "unat (lh_depth lh) < 4294967294" using assms(2) by (simp add: word_less_nat_alt)
  then have up: "unat (lh_depth lh + 1) = unat (lh_depth lh) + 1" by (simp add: unat_word_ariths)
  have depth: "0 < lh_depth lh1" "lh_depth lh1 < UINT_MAX" "lh_depth lh < UINT_MAX"
    using u up by (simp_all add: lh1_def word_less_nat_alt)
  have inv1: "lh_inv hash cmp lh1" using assms(1) by (simp add: lh1_def lh_inv_def)
  let ?order = "map item_data (concat (lh_buckets lh))"
  obtain lh2 where lh2: "doall_buckets (flush_callback hash cmp alloc keep g) 0 (lh1, s) = Some (lh2, fold g ?order s)"
    "lh_inv hash cmp lh2" "lh_depth lh2 = lh_depth lh1"
    "lh_buckets lh2 = map (filter (\<lambda>it. keep (item_data it))) (lh_buckets lh)"
    using doall_buckets_flush [OF inv1 depth(1), of 0 alloc keep g s] by (auto simp: lh1_def)
  define lh3 where "lh3 = lh2\<lparr>lh_depth := lh_depth lh\<rparr>"
  have inv3: "lh_inv hash cmp lh3" using lh2(2) by (simp add: lh3_def lh_inv_def)
  note resize = lh_maybe_resize_inv [OF inv3, of alloc]
  have "lh_depth lh2 - 1 = lh_depth lh" by (simp add: lh2(3) lh1_def)
  then have "lh_doall_arg alloc (flush_callback hash cmp alloc keep g) (Some lh) s
      = Some (Some (lh_maybe_resize alloc lh3), fold g ?order s)"
    using depth lh2(1,3) by (simp add: lh_doall_arg_def Let_def lh1_def [symmetric] lh3_def del: map_concat)
  moreover have "distinct ?order"
    using assms(1) unfolding lh_inv_def separate_def by (auto simp: distinct_map inj_on_def simp del: set_concat)
  moreover have "lh_set (lh_maybe_resize alloc lh3) = {x \<in> lh_set lh. keep x}"
    using resize by (auto simp: lh3_def lh_set_def lh2(4))
  moreover have "length (concat (map (filter P) bs)) = length (filter P (concat bs))" for P and bs :: "'a lhash_item list list"
    by (induction bs) simp_all
  then have "lh_num lh3 = length (filter keep ?order)"
    using lh2(2) by (simp add: lh3_def lh_inv_def lh2(4) filter_map o_def del: map_concat)
  moreover have "length (filter keep ?order) \<le> lh_num lh"
    using length_filter_le [of keep ?order] assms(1) by (simp add: lh_inv_def del: map_concat)
  moreover have "length (lh_buckets lh3) = length (lh_buckets lh)" "lh_depth lh3 = lh_depth lh"
    by (simp_all add: lh3_def lh2(4))
  ultimately have shape: "\<exists>lh4. lh_maybe_resize alloc lh3 = lh_maybe_resize alloc lh4 \<and> length (lh_buckets lh4) = length (lh_buckets lh)
      \<and> lh_depth lh4 = lh_depth lh \<and> lh_num lh4 = length (filter keep ?order) \<and> lh_num lh4 \<le> lh_num lh"
    and run: "lh_doall_arg alloc (flush_callback hash cmp alloc keep g) (Some lh) s
      = Some (Some (lh_maybe_resize alloc lh3), fold g ?order s)" "distinct ?order" "lh_set (lh_maybe_resize alloc lh3) = {x \<in> lh_set lh. keep x}"
    by metis+
  have "set ?order = lh_set lh" "lh_depth (lh_maybe_resize alloc lh3) = lh_depth lh"
    using resize by (simp_all add: lh_set_def lh3_def)
  then show ?thesis using that [OF run(1,2) _ _ _ run(3) shape] resize by simp
qed

end

section \<open>Resizing\<close>

lemma length_rebucket_fold: "length (fold (rebucket_item n) its bs) = length bs"
  by (induction its arbitrary: bs) (simp_all add: rebucket_item_def Let_def)

lemma lh_rebucket_size:
  "length (lh_buckets (lh_rebucket alloc n lh)) = length (lh_buckets lh) \<or> length (lh_buckets (lh_rebucket alloc n lh)) = n"
  by (simp add: lh_rebucket_def Let_def length_rebucket_fold)

lemma lh_rebucket_granted:
  assumes "\<forall>n. alloc n \<noteq> None" "8 * n < 2 ^ 64"
  shows "length (lh_buckets (lh_rebucket alloc n lh)) = n"
proof -
  have "8 * n mod 2 ^ 64 = 8 * n" using assms(2) by (rule mod_less)
  moreover have "8 * n div 8 = n" by simp
  ultimately show ?thesis using assms(1) by (simp add: lh_rebucket_def Let_def length_rebucket_fold del: not_None_eq)
qed

lemma resize_num [simp]: "lh_num (lh_rebucket alloc n lh) = lh_num lh" "lh_num (lh_maybe_resize alloc lh) = lh_num lh"
proof -
  show "lh_num (lh_rebucket alloc n lh) = lh_num lh" for n by (simp add: lh_rebucket_def Let_def)
  then show "lh_num (lh_maybe_resize alloc lh) = lh_num lh" unfolding lh_maybe_resize_def Let_def by auto
qed

text \<open>The three outcomes of a resize outside of an iteration.\<close>

lemma lh_maybe_resize_cases:
  assumes "length (lh_buckets lh) = 16 * 2 ^ e" "lh_depth lh = 0" "lh_num lh < 2 ^ 60"
  obtains (grow) "3 * length (lh_buckets lh) \<le> lh_num lh" "lh_maybe_resize alloc lh = lh_rebucket alloc (16 * 2 ^ Suc e) lh"
    | (shrink) e' where "lh_num lh < length (lh_buckets lh)" "e = Suc e'" "lh_maybe_resize alloc lh = lh_rebucket alloc (16 * 2 ^ e') lh"
    | (keep) "lh_num lh < 3 * length (lh_buckets lh)" "length (lh_buckets lh) = 16 \<or> length (lh_buckets lh) \<le> lh_num lh"
        "lh_maybe_resize alloc lh = lh"
proof -
  let ?n = "length (lh_buckets lh)"
  have n: "0 < ?n" using assms(1) by simp
  consider "3 * ?n \<le> lh_num lh" | "lh_num lh < ?n" "?n \<noteq> 16" | "lh_num lh < 3 * ?n" "?n \<le> lh_num lh \<or> ?n = 16" by linarith
  then show thesis
  proof cases
    case 1
    have "?n * 2 mod 2 ^ 64 = ?n * 2" by (rule mod_less) (use 1 assms(3) in simp)
    moreover have "16 * 2 ^ Suc e = ?n * 2" using assms(1) by simp
    moreover have "2 < lh_num lh div ?n" using div_le_mono [OF 1, of ?n] n by simp
    ultimately show thesis using 1 n assms(2) by (intro grow) (simp_all only:, simp add: lh_maybe_resize_def Let_def)
  next
    case 2
    then obtain e' where e: "e = Suc e'" using assms(1) by (cases e) auto
    have "?n div 2 = 16 * 2 ^ e'" using assms(1) e by simp
    moreover have "16 \<le> ?n" using assms(1) by simp
    then have "?n > 16" using 2(2) by linarith
    moreover have "lh_num lh div ?n = 0" using 2 by simp
    ultimately have "lh_maybe_resize alloc lh = lh_rebucket alloc (16 * 2 ^ e') lh"
      using assms(2) by (simp add: lh_maybe_resize_def Let_def)
    then show thesis by (rule shrink [OF 2(1) e])
  next
    case 3
    have "lh_num lh div ?n < 3" using 3 n by (simp add: less_mult_imp_div_less)
    moreover have "\<not> (lh_num lh div ?n < 1 \<and> ?n > 16)" using 3 n by (auto simp: div_eq_0_iff)
    ultimately have "lh_maybe_resize alloc lh = lh" by (auto simp: lh_maybe_resize_def Let_def)
    then show thesis using 3 by (intro keep) auto
  qed
qed

text \<open>Buckets stay a power of two and grow only below the number of items. If the memory is granted,
  chains are short again afterwards, and buckets that were no more than the items and one are no
  more than the items.\<close>

lemma lh_maybe_resize_load:
  assumes n: "length (lh_buckets lh) = 16 * 2 ^ e" and d: "lh_depth lh = 0" and num: "lh_num lh < 2 ^ 60"
    and big: "length (lh_buckets lh) < 2 ^ 60"
  shows "\<exists>e'. length (lh_buckets (lh_maybe_resize alloc lh)) = 16 * 2 ^ e'"
    and "length (lh_buckets (lh_maybe_resize alloc lh)) \<le> max (length (lh_buckets lh)) (lh_num lh)"
    and "\<forall>n. alloc n \<noteq> None \<Longrightarrow> lh_num lh \<le> 3 * length (lh_buckets lh) \<Longrightarrow> lh_num lh < 3 * length (lh_buckets (lh_maybe_resize alloc lh))"
    and "\<forall>n. alloc n \<noteq> None \<Longrightarrow> length (lh_buckets lh) = 16 \<or> length (lh_buckets lh) \<le> lh_num lh + 1
      \<Longrightarrow> length (lh_buckets (lh_maybe_resize alloc lh)) = 16 \<or> length (lh_buckets (lh_maybe_resize alloc lh)) \<le> lh_num lh"
proof -
  let ?lh = "lh_maybe_resize alloc lh" and ?n = "length (lh_buckets lh)"
  have "(\<exists>e'. length (lh_buckets ?lh) = 16 * 2 ^ e') \<and> length (lh_buckets ?lh) \<le> max ?n (lh_num lh)
    \<and> ((\<forall>n. alloc n \<noteq> None) \<longrightarrow> (lh_num lh \<le> 3 * ?n \<longrightarrow> lh_num lh < 3 * length (lh_buckets ?lh))
        \<and> (?n = 16 \<or> ?n \<le> lh_num lh + 1 \<longrightarrow> length (lh_buckets ?lh) = 16 \<or> length (lh_buckets ?lh) \<le> lh_num lh))"
  proof (rule lh_maybe_resize_cases [OF n d num, of alloc])
    assume g: "3 * ?n \<le> lh_num lh" "?lh = lh_rebucket alloc (16 * 2 ^ Suc e) lh"
    have "length (lh_buckets ?lh) = 16 * 2 ^ Suc e" if "\<forall>n. alloc n \<noteq> None"
      unfolding g(2) by (rule lh_rebucket_granted [OF that]) (use g(1) n num in simp)
    then show ?thesis
      using lh_rebucket_size [of alloc "16 * 2 ^ Suc e" lh] g n by (auto intro: exI [of _ e] exI [of _ "Suc e"])
  next
    fix e' assume g: "lh_num lh < ?n" "e = Suc e'" "?lh = lh_rebucket alloc (16 * 2 ^ e') lh"
    have "length (lh_buckets ?lh) = 16 * 2 ^ e'" if "\<forall>n. alloc n \<noteq> None"
      unfolding g(3) by (rule lh_rebucket_granted [OF that]) (use g(2) n big in simp)
    then show ?thesis
      using lh_rebucket_size [of alloc "16 * 2 ^ e'" lh] g n by (auto intro: exI [of _ e'] exI [of _ e])
  qed (use n in \<open>auto intro: exI [of _ e]\<close>)
  then show "\<exists>e'. length (lh_buckets ?lh) = 16 * 2 ^ e'" "length (lh_buckets ?lh) \<le> max ?n (lh_num lh)"
    "\<forall>n. alloc n \<noteq> None \<Longrightarrow> lh_num lh \<le> 3 * ?n \<Longrightarrow> lh_num lh < 3 * length (lh_buckets ?lh)"
    "\<forall>n. alloc n \<noteq> None \<Longrightarrow> ?n = 16 \<or> ?n \<le> lh_num lh + 1 \<Longrightarrow> length (lh_buckets ?lh) = 16 \<or> length (lh_buckets ?lh) \<le> lh_num lh"
    by blast+
qed

text \<open>The effect of a call on the number of items, up to the resize at its end.\<close>

lemma lh_insert_num:
  assumes "lh_insert hash cmp alloc d lh = (ok, old, lh')"
  obtains (replaced) "ok" "old \<noteq> None" "lh_num lh' = lh_num lh" "length (lh_buckets lh') = length (lh_buckets lh)"
    | (refused) "\<not> ok" "old = None" "lh' = lh"
    | (added) lh1 where "ok" "old = None" "lh' = lh_maybe_resize alloc lh1" "lh_num lh1 = lh_num lh + 1"
        "length (lh_buckets lh1) = length (lh_buckets lh)" "lh_depth lh1 = lh_depth lh"
  using assms by (auto simp: lh_insert_def Let_def split: prod.splits option.splits)

lemma lh_delete_num:
  assumes "lh_delete hash cmp alloc d lh = (r, lh')"
  obtains (absent) "r = None" "lh' = lh"
    | (removed) lh1 where "r \<noteq> None" "lh' = lh_maybe_resize alloc lh1" "lh_num lh1 = lh_num lh - 1"
        "length (lh_buckets lh1) = length (lh_buckets lh)" "lh_depth lh1 = lh_depth lh"
  using assms by (auto simp: lh_delete_def Let_def split: prod.splits option.splits)

section \<open>Histories\<close>

datatype 'a lh_event =
    Inserted 'a "'a option" bool
  | Retrieved 'a "'a option"
  | Deleted 'a "'a option"
  | Flushed "'a \<Rightarrow> bool" "'a list"

text \<open>The calls of a user with their results, from a new table; each with the allocator of the moment,
  which is one of those admitted. A flush is an iteration that removes the elements not to keep and
  lists those it sees.\<close>

inductive lh_calls :: "(heap_alloc \<Rightarrow> bool) \<Rightarrow> ('a \<Rightarrow> u32) \<Rightarrow> ('a \<Rightarrow> 'a \<Rightarrow> int) \<Rightarrow> 'a lh_event list \<Rightarrow> 'a lhash \<Rightarrow> bool"
  for admit hash cmp where
  trace_new: "admit alloc \<Longrightarrow> lh_new alloc = Some lh \<Longrightarrow> lh_calls admit hash cmp [] lh"
| trace_insert: "lh_calls admit hash cmp evs lh \<Longrightarrow> admit alloc \<Longrightarrow> fresh alloc lh
    \<Longrightarrow> lh_insert hash cmp alloc d lh = (ok, old, lh') \<Longrightarrow> lh_calls admit hash cmp (evs @ [Inserted d old ok]) lh'"
| trace_retrieve: "lh_calls admit hash cmp evs lh \<Longrightarrow> lh_calls admit hash cmp (evs @ [Retrieved d (lh_retrieve hash cmp lh d)]) lh"
| trace_delete: "lh_calls admit hash cmp evs lh \<Longrightarrow> admit alloc \<Longrightarrow> lh_delete hash cmp alloc d lh = (r, lh')
    \<Longrightarrow> lh_calls admit hash cmp (evs @ [Deleted d r]) lh'"
| trace_flush: "lh_calls admit hash cmp evs lh \<Longrightarrow> admit alloc
    \<Longrightarrow> lh_doall_arg alloc (flush_callback hash cmp alloc keep (\<lambda>d seen. seen @ [d])) (Some lh) [] = Some (Some lh', seen)
    \<Longrightarrow> lh_calls admit hash cmp (evs @ [Flushed keep seen]) lh'"

abbreviation lh_trace :: "('a \<Rightarrow> u32) \<Rightarrow> ('a \<Rightarrow> 'a \<Rightarrow> int) \<Rightarrow> 'a lh_event list \<Rightarrow> 'a lhash \<Rightarrow> bool" where
  "lh_trace \<equiv> lh_calls (\<lambda>_. True)"

lemma lh_calls_trace: "lh_calls admit hash cmp evs lh \<Longrightarrow> lh_trace hash cmp evs lh"
  by (induction rule: lh_calls.induct) (blast intro: lh_calls.intros)+

text \<open>The abstract table is a set with at most one element of each class of the comparison.\<close>

inductive set_trace :: "('a \<Rightarrow> 'a \<Rightarrow> int) \<Rightarrow> 'a lh_event list \<Rightarrow> 'a set \<Rightarrow> bool" for cmp where
  set_new: "set_trace cmp [] {}"
| set_insert: "set_trace cmp evs S \<Longrightarrow> (\<And>x. old = Some x \<longleftrightarrow> x \<in> S \<and> cmp x d = 0)
    \<Longrightarrow> set_trace cmp (evs @ [Inserted d old True]) (insert d {x \<in> S. cmp x d \<noteq> 0})"
| set_no_room: "set_trace cmp evs S \<Longrightarrow> \<forall>x\<in>S. cmp x d \<noteq> 0 \<Longrightarrow> set_trace cmp (evs @ [Inserted d None False]) S"
| set_retrieve: "set_trace cmp evs S \<Longrightarrow> (\<And>x. r = Some x \<longleftrightarrow> x \<in> S \<and> cmp x d = 0)
    \<Longrightarrow> set_trace cmp (evs @ [Retrieved d r]) S"
| set_delete: "set_trace cmp evs S \<Longrightarrow> (\<And>x. r = Some x \<longleftrightarrow> x \<in> S \<and> cmp x d = 0)
    \<Longrightarrow> set_trace cmp (evs @ [Deleted d r]) {x \<in> S. cmp x d \<noteq> 0}"
| set_flush: "set_trace cmp evs S \<Longrightarrow> distinct seen \<Longrightarrow> set seen = S
    \<Longrightarrow> set_trace cmp (evs @ [Flushed keep seen]) {x \<in> S. keep x}"

inductive_simps set_trace_Nil: "set_trace cmp [] S"
inductive_cases lh_calls_NilE: "lh_calls admit hash cmp [] lh"

lemma fold_snoc [simp]: "fold (\<lambda>d seen. seen @ [d]) xs ys = ys @ xs"
  by (induction xs arbitrary: ys) simp_all

lemma lh_new_inv: "lh_new alloc = Some lh \<Longrightarrow> lh_inv hash cmp lh \<and> lh_set lh = {} \<and> lh_depth lh = 0
    \<and> lh_num lh = 0 \<and> length (lh_buckets lh) = 16"
  by (auto simp: lh_new_def lh_inv_def placed_def separate_def lh_set_def nth_replicate split: if_splits)

context hashing
begin

lemma trace_refines:
  "lh_trace hash cmp evs lh \<Longrightarrow> lh_inv hash cmp lh \<and> lh_depth lh = 0 \<and> set_trace cmp evs (lh_set lh)"
proof (induction rule: lh_calls.induct)
  case (trace_new alloc lh)
  then show ?case using lh_new_inv [of alloc lh hash cmp] by (auto intro: set_new)
next
  case (trace_insert evs lh alloc d ok old lh')
  then have inv: "lh_inv hash cmp lh" by simp
  show ?case
  proof (rule lh_insert_ok [OF inv \<open>fresh alloc lh\<close>, of d])
    fix ok1 lh1
    assume *: "lh_insert hash cmp alloc d lh = (ok1, lh_retrieve hash cmp lh d, lh1)" "lh_inv hash cmp lh1"
      "lh_depth lh1 = lh_depth lh" "ok1 \<longrightarrow> lh_set lh1 = insert d {x \<in> lh_set lh. cmp x d \<noteq> 0}"
      "\<not> ok1 \<longrightarrow> lh1 = lh \<and> alloc 24 = None \<and> lh_retrieve hash cmp lh d = None"
    then have eq: "ok = ok1" "old = lh_retrieve hash cmp lh d" "lh' = lh1" using trace_insert.hyps by simp_all
    show "lh_inv hash cmp lh' \<and> lh_depth lh' = 0 \<and> set_trace cmp (evs @ [Inserted d old ok]) (lh_set lh')"
    proof (cases ok1)
      case True
      then have "set_trace cmp (evs @ [Inserted d (lh_retrieve hash cmp lh d) True]) (lh_set lh1)"
        using set_insert [of cmp evs "lh_set lh" "lh_retrieve hash cmp lh d" d] trace_insert.IH retrieve_iff [OF inv, of d] * by simp
      then show ?thesis using eq * True trace_insert.IH by simp
    next
      case False
      then have "set_trace cmp (evs @ [Inserted d None False]) (lh_set lh)"
        using trace_insert.IH retrieve_None [OF inv, of d] * by (intro set_no_room) simp_all
      then show ?thesis using eq * False trace_insert.IH by simp
    qed
  qed
next
  case (trace_retrieve evs lh d)
  then show ?case using retrieve_iff [of lh d] by (auto intro: set_retrieve)
next
  case (trace_delete evs lh alloc d r lh')
  then have inv: "lh_inv hash cmp lh" by simp
  show ?case
    by (rule lh_delete_ok [OF inv, of alloc d])
      (use trace_delete retrieve_iff [OF inv, of d] set_delete [of cmp evs "lh_set lh" r d] in auto)
next
  case (trace_flush evs lh alloc keep lh' seen)
  then have inv: "lh_inv hash cmp lh" and depth: "lh_depth lh < 0xfffffffe" by simp_all
  show ?case
    by (rule lh_doall_flush [OF inv depth, of alloc keep "\<lambda>d seen. seen @ [d]" "[]"])
      (use trace_flush set_flush [of cmp evs "lh_set lh" seen keep] in auto)
qed

end

section \<open>An example\<close>

text \<open>A table of configuration values that holds one.\<close>

definition example_value :: conf_value where
  "example_value = \<lparr>cv_section = [1], cv_name = None, cv_value = None\<rparr>"

definition example_table :: "conf_value lhash" where
  "example_table = \<lparr>lh_num = 1,
     lh_buckets = (replicate 16 [])[unat (conf_value_hash example_value) mod 16
       := [\<lparr>item_addr = 24, item_data = example_value, item_hash = conf_value_hash example_value\<rparr>]],
     lh_depth = 0\<rparr>"

lemma example_calls: "lh_calls (\<lambda>alloc. alloc = Some) conf_value_hash conf_value_cmp [Inserted example_value None True] example_table"
proof -
  have new: "lh_new Some = Some \<lparr>lh_num = 0, lh_buckets = replicate 16 [], lh_depth = 0\<rparr>" by (simp add: lh_new_def)
  have "unat (conf_value_hash example_value) mod 16 < 16" by simp
  then have "lh_calls (\<lambda>alloc. alloc = Some) conf_value_hash conf_value_cmp ([] @ [Inserted example_value None True]) example_table"
    by (intro trace_insert [OF trace_new [OF refl new] refl])
      (simp_all add: fresh_def lh_addrs_def lh_insert_def get_next_ptr_and_hash_def Let_def deref_next_def lh_maybe_resize_def example_table_def)
  then show ?thesis by simp
qed

lemma example_set: "lh_set example_table = {example_value}"
proof -
  let ?b = "unat (conf_value_hash example_value) mod 16"
  let ?it = "\<lparr>item_addr = 24, item_data = example_value, item_hash = conf_value_hash example_value\<rparr>"
  have b: "?b < length (replicate 16 ([] :: conf_value lhash_item list))" by simp
  have "mset (concat ((replicate 16 [])[?b := [?it]])) = {#?it#}" using concat_update [OF b, of "[?it]"] by simp
  then have "set (concat ((replicate 16 [])[?b := [?it]])) = {?it}" by (metis set_mset_mset set_mset_single)
  then show ?thesis unfolding lh_set_def example_table_def lhash.select_convs by simp
qed

text \<open>(C38) For any hash and comparison that agree, every history of inserts, lookups, deletions and flushing
  iterations from a new table, with any allocation failing, gives the results of the same history
  on a set with one element per class: an insertion reports and replaces the equal element, and
  fails without effect only for want of memory; the count of items is the size of the set.\<close>

theorem lh_refines_set:
  assumes "hashing hash cmp" "lh_trace hash cmp evs lh"
  shows "set_trace cmp evs (lh_set lh) \<and> lh_num_items lh = card (lh_set lh)
    \<and> (\<forall>x\<in>lh_set lh. \<forall>y\<in>lh_set lh. cmp x y = 0 \<longrightarrow> x = y)"
proof -
  have t: "lh_inv hash cmp lh" "set_trace cmp evs (lh_set lh)"
    using hashing.trace_refines [OF assms] by simp_all
  let ?its = "concat (lh_buckets lh)"
  have sep: "separate cmp ?its" using t(1) by (simp add: lh_inv_def)
  then have "inj_on item_data (set ?its)"
    using hashing.cmp_refl [OF assms(1)] unfolding separate_def inj_on_def by metis
  moreover have "distinct ?its" using sep by (simp add: separate_def distinct_map del: map_concat)
  ultimately have "card (lh_set lh) = length ?its" unfolding lh_set_def by (metis card_image distinct_card)
  then show ?thesis
    using t sep unfolding lh_num_items_def lh_inv_def separate_def lh_set_def by auto
qed

theorem lh_refines_set_witness:
  "\<exists>lh. lh_trace conf_value_hash conf_value_cmp [Inserted \<lparr>cv_section = [1], cv_name = None, cv_value = None\<rparr> None False] lh
     \<and> lh_num_items lh = 0"
proof -
  let ?v = "\<lparr>cv_section = [1], cv_name = None, cv_value = None\<rparr>"
  have new: "lh_new (\<lambda>n. if n = 24 then None else Some n) = Some \<lparr>lh_num = 0, lh_buckets = replicate 16 [], lh_depth = 0\<rparr>"
    by (simp add: lh_new_def)
  have "unat (conf_value_hash ?v) mod 16 < 16" by simp
  then have "lh_trace conf_value_hash conf_value_cmp ([] @ [Inserted ?v None False])
      \<lparr>lh_num = 0, lh_buckets = replicate 16 [], lh_depth = 0\<rparr>"
    by (intro trace_insert [OF trace_new [OF TrueI new], of "\<lambda>n. None"])
      (simp_all add: fresh_def lh_insert_def get_next_ptr_and_hash_def Let_def deref_next_def)
  then show ?thesis
    using lh_refines_set [OF conf_value.hashing_axioms, of "[Inserted ?v None False]"] by (auto simp: lh_num_items_def)
qed

text \<open>(C39) An iteration whose callback looks at its element and may delete it from the table always
  returns, calls back exactly once for every element there was, leaves exactly the elements that
  were kept and restores the depth, in any table that a history of calls can produce.\<close>

theorem lh_doall_visits_once:
  assumes "hashing hash cmp" "lh_trace hash cmp evs lh"
  shows "\<exists>lh' order. lh_doall_arg alloc (flush_callback hash cmp alloc keep g) (Some lh) s = Some (Some lh', fold g order s)
    \<and> distinct order \<and> set order = lh_set lh \<and> lh_set lh' = {x \<in> lh_set lh. keep x} \<and> lh_depth lh' = lh_depth lh"
proof -
  have "lh_inv hash cmp lh" "lh_depth lh < 0xfffffffe" using hashing.trace_refines [OF assms] by simp_all
  then show ?thesis by (rule hashing.lh_doall_flush [OF assms(1), of lh alloc keep g s]) blast
qed

text \<open>An iteration that deletes the one element of the example.\<close>

lemma lh_doall_visits_once_witness:
  "\<exists>lh'. lh_doall_arg Some (flush_callback conf_value_hash conf_value_cmp Some (\<lambda>v. False) (\<lambda>v n. n + length (cv_section v)))
      (Some example_table) 0 = Some (Some lh', 1) \<and> lh_set lh' = {}"
proof -
  obtain lh' order where o: "lh_doall_arg Some (flush_callback conf_value_hash conf_value_cmp Some (\<lambda>v. False) (\<lambda>v n. n + length (cv_section v)))
      (Some example_table) 0 = Some (Some lh', fold (\<lambda>v n. n + length (cv_section v)) order 0)"
    "distinct order" "set order = {example_value}" "lh_set lh' = {}"
    using lh_doall_visits_once [OF conf_value.hashing_axioms lh_calls_trace [OF example_calls],
        of Some "\<lambda>v. False" "\<lambda>v n. n + length (cv_section v)" 0] by (auto simp: example_set)
  then have "order = [example_value]" using distinct_card [of order] by (cases order; cases "tl order") auto
  with o show ?thesis by (simp add: example_value_def)
qed

text \<open>The number of items that the results of a history imply, and the most there ever were.\<close>

fun count_after :: "nat \<Rightarrow> 'a lh_event \<Rightarrow> nat" where
  "count_after n (Inserted d old ok) = (if ok \<and> old = None then n + 1 else n)"
| "count_after n (Retrieved d r) = n"
| "count_after n (Deleted d r) = (if r = None then n else n - 1)"
| "count_after n (Flushed keep seen) = length (filter keep seen)"

definition items_after :: "'a lh_event list \<Rightarrow> nat" where
  "items_after evs = foldl count_after 0 evs"

primrec peak_from :: "nat \<Rightarrow> 'a lh_event list \<Rightarrow> nat" where
  "peak_from n [] = n"
| "peak_from n (ev # evs) = max n (peak_from (count_after n ev) evs)"

abbreviation peak_items :: "'a lh_event list \<Rightarrow> nat" where
  "peak_items \<equiv> peak_from 0"

lemma items_after_simps [simp]: "items_after [] = 0" "items_after (evs @ [ev]) = count_after (items_after evs) ev"
  by (simp_all add: items_after_def)

lemma peak_from_snoc: "peak_from n (evs @ [ev]) = max (peak_from n evs) (count_after (foldl count_after n evs) ev)"
  by (induction evs arbitrary: n) (simp_all add: max.assoc max.commute max.left_commute)

lemma peak_items_snoc: "peak_items (evs @ [ev]) = max (peak_items evs) (items_after (evs @ [ev]))"
  by (simp add: peak_from_snoc items_after_def)

definition granting :: "(heap_alloc \<Rightarrow> bool) \<Rightarrow> bool" where
  "granting admit \<longleftrightarrow> (\<forall>alloc. admit alloc \<longrightarrow> (\<forall>n. alloc n \<noteq> None))"

definition is_flush :: "'a lh_event \<Rightarrow> bool" where
  "is_flush ev = (case ev of Flushed _ _ \<Rightarrow> True | _ \<Rightarrow> False)"

text \<open>The load of a table after a history, and after one in which no allocation failed.\<close>

definition load_ok :: "bool \<Rightarrow> 'a lh_event list \<Rightarrow> 'a lhash \<Rightarrow> bool" where
  "load_ok granted evs lh \<longleftrightarrow> (\<exists>e. length (lh_buckets lh) = 16 * 2 ^ e) \<and> length (lh_buckets lh) \<le> max 16 (peak_items evs)
     \<and> (granted \<longrightarrow> lh_num lh < 3 * length (lh_buckets lh)
         \<and> (list_all (\<lambda>ev. \<not> is_flush ev) evs \<longrightarrow> length (lh_buckets lh) = 16 \<or> length (lh_buckets lh) \<le> lh_num lh))"

lemma load_same:
  assumes "load_ok granted evs lh" "length (lh_buckets lh') = length (lh_buckets lh)" "lh_num lh' = lh_num lh"
  shows "load_ok granted (evs @ [ev]) lh'"
  using assms unfolding load_ok_def peak_items_snoc by auto

lemma load_resized:
  assumes ok: "load_ok (granting admit) evs lh" and n: "length (lh_buckets lh1) = length (lh_buckets lh)" and depth: "lh_depth lh1 = 0"
    and up: "lh_num lh1 \<le> lh_num lh + 1" and down: "is_flush ev \<or> lh_num lh \<le> lh_num lh1 + 1"
    and num: "lh_num lh1 = items_after (evs @ [ev])" and peak: "peak_items (evs @ [ev]) < 2 ^ 60"
    and mem: "granting admit \<Longrightarrow> \<forall>n. alloc n \<noteq> None"
  shows "load_ok (granting admit) (evs @ [ev]) (lh_maybe_resize alloc lh1)"
proof -
  obtain e where e: "length (lh_buckets lh1) = 16 * 2 ^ e" using ok n by (auto simp: load_ok_def)
  have most: "length (lh_buckets lh1) \<le> max 16 (peak_items evs)" using ok n by (simp add: load_ok_def)
  have small: "lh_num lh1 < 2 ^ 60" "length (lh_buckets lh1) < 2 ^ 60"
    using peak most num unfolding peak_items_snoc by auto
  note resize = lh_maybe_resize_load [OF e depth small, of alloc]
  have "length (lh_buckets (lh_maybe_resize alloc lh1)) \<le> max 16 (peak_items (evs @ [ev]))"
    using resize(2) most num unfolding peak_items_snoc by auto
  moreover have "lh_num lh1 < 3 * length (lh_buckets (lh_maybe_resize alloc lh1))" if "granting admit"
    using resize(3) [OF mem [OF that]] ok n up that by (simp add: load_ok_def)
  moreover have "length (lh_buckets (lh_maybe_resize alloc lh1)) = 16 \<or> length (lh_buckets (lh_maybe_resize alloc lh1)) \<le> lh_num lh1"
    if "granting admit" "list_all (\<lambda>ev. \<not> is_flush ev) (evs @ [ev])"
    using resize(4) [OF mem [OF that(1)]] ok n down that by (auto simp: load_ok_def)
  ultimately show ?thesis using resize(1) unfolding load_ok_def by simp
qed

context hashing
begin

lemma calls_load:
  "lh_calls admit hash cmp evs lh \<Longrightarrow> peak_items evs < 2 ^ 60
    \<Longrightarrow> lh_num lh = items_after evs \<and> load_ok (granting admit) evs lh"
proof (induction rule: lh_calls.induct)
  case (trace_new alloc lh)
  then show ?case using lh_new_inv [of alloc lh hash cmp] by (auto simp: load_ok_def intro: exI [of _ 0])
next
  case (trace_insert evs lh alloc d ok old lh')
  then have IH: "lh_num lh = items_after evs" "load_ok (granting admit) evs lh"
    unfolding peak_items_snoc by simp_all
  have depth: "lh_depth lh = 0" using trace_refines [OF lh_calls_trace [OF trace_insert.hyps(1)]] by simp
  have mem: "granting admit \<Longrightarrow> \<forall>n. alloc n \<noteq> None" using trace_insert.hyps(2) unfolding granting_def by blast
  from trace_insert.hyps(4) show ?case
  proof (rule lh_insert_num)
    fix lh1
    assume "ok" "old = None" "lh' = lh_maybe_resize alloc lh1" "lh_num lh1 = lh_num lh + 1"
      "length (lh_buckets lh1) = length (lh_buckets lh)" "lh_depth lh1 = lh_depth lh"
    then show ?thesis
      using load_resized [OF IH(2), of lh1 "Inserted d old ok" alloc] IH(1) depth mem trace_insert.prems by simp
  qed (use IH load_same [OF IH(2)] in auto)
next
  case (trace_retrieve evs lh d)
  then show ?case unfolding peak_items_snoc by (auto intro: load_same)
next
  case (trace_delete evs lh alloc d r lh')
  then have IH: "lh_num lh = items_after evs" "load_ok (granting admit) evs lh"
    unfolding peak_items_snoc by simp_all
  have depth: "lh_depth lh = 0" using trace_refines [OF lh_calls_trace [OF trace_delete.hyps(1)]] by simp
  have mem: "granting admit \<Longrightarrow> \<forall>n. alloc n \<noteq> None" using trace_delete.hyps(2) unfolding granting_def by blast
  from trace_delete.hyps(3) show ?case
  proof (rule lh_delete_num)
    fix lh1
    assume "r \<noteq> None" "lh' = lh_maybe_resize alloc lh1" "lh_num lh1 = lh_num lh - 1"
      "length (lh_buckets lh1) = length (lh_buckets lh)" "lh_depth lh1 = lh_depth lh"
    moreover have "items_after evs \<le> Suc (items_after evs - Suc 0)" by linarith
    ultimately show ?thesis
      using load_resized [OF IH(2), of lh1 "Deleted d r" alloc] IH(1) depth mem trace_delete.prems by (simp del: not_None_eq)
  qed (use IH load_same [OF IH(2)] in auto)
next
  case (trace_flush evs lh alloc keep lh' seen)
  then have IH: "lh_num lh = items_after evs" "load_ok (granting admit) evs lh"
    unfolding peak_items_snoc by simp_all
  have inv: "lh_inv hash cmp lh" and depth: "lh_depth lh = 0"
    using trace_refines [OF lh_calls_trace [OF trace_flush.hyps(1)]] by simp_all
  then have small: "lh_depth lh < 0xfffffffe" by simp
  have mem: "granting admit \<Longrightarrow> \<forall>n. alloc n \<noteq> None" using trace_flush.hyps(2) unfolding granting_def by blast
  obtain lh3 where "lh' = lh_maybe_resize alloc lh3" "length (lh_buckets lh3) = length (lh_buckets lh)" "lh_depth lh3 = lh_depth lh"
    "lh_num lh3 = length (filter keep seen)" "lh_num lh3 \<le> lh_num lh"
    by (rule lh_doall_flush [OF inv small, of alloc keep "\<lambda>d seen. seen @ [d]" "[]"]) (use trace_flush.hyps(3) in auto)
  then show ?case
    using load_resized [OF IH(2), of lh3 "Flushed keep seen" alloc] trace_flush.prems depth mem by (simp add: is_flush_def)
qed

end

text \<open>(C40) The load of a table over every history of insertions, lookups, deletions and iterations that
  delete, of less than \<open>2 ^ 60\<close> items at a time (an item takes 24 bytes). Whether allocations fail
  or not, the buckets are a power of two, at least 16, and never more than the most items that the
  table has held (or 16). If no allocation fails, the chains are on average shorter than three
  after every call, and as long as there was no iteration the buckets are no more than the items
  (or 16); an iteration may leave more, because it halves them once whatever it deletes.\<close>

theorem lh_load_bounded:
  assumes "hashing hash cmp" "lh_calls admit hash cmp evs lh" "peak_items evs < 2 ^ 60"
  shows "lh_num_items lh = items_after evs
    \<and> (\<exists>e. length (lh_buckets lh) = 16 * 2 ^ e) \<and> length (lh_buckets lh) \<le> max 16 (peak_items evs)
    \<and> ((\<forall>alloc. admit alloc \<longrightarrow> (\<forall>n. alloc n \<noteq> None)) \<longrightarrow>
        lh_num_items lh < 3 * length (lh_buckets lh)
        \<and> ((\<forall>ev\<in>set evs. \<not> is_flush ev) \<longrightarrow> length (lh_buckets lh) = 16 \<or> length (lh_buckets lh) \<le> lh_num_items lh))"
  using hashing.calls_load [OF assms] unfolding load_ok_def granting_def lh_num_items_def list_all_iff by blast

text \<open>The example inserted and deleted in an iteration, with no allocation failing.\<close>

lemma lh_load_bounded_witness:
  "\<exists>lh. lh_calls (\<lambda>alloc. alloc = Some) conf_value_hash conf_value_cmp
      [Inserted example_value None True, Flushed (\<lambda>v. False) [example_value]] lh
    \<and> lh_num_items lh = 0 \<and> length (lh_buckets lh) \<le> 16 \<and> lh_num_items lh < 3 * length (lh_buckets lh)"
proof -
  let ?evs = "[Inserted example_value None True, Flushed (\<lambda>v. False) [example_value]]"
  have inv: "lh_inv conf_value_hash conf_value_cmp example_table" "lh_depth example_table < 0xfffffffe"
    using conf_value.trace_refines [OF lh_calls_trace [OF example_calls]] by simp_all
  obtain lh seen where "lh_doall_arg Some (flush_callback conf_value_hash conf_value_cmp Some (\<lambda>v. False) (\<lambda>d seen. seen @ [d]))
      (Some example_table) [] = Some (Some lh, seen)" "distinct seen" "set seen = {example_value}"
    by (rule conf_value.lh_doall_flush [OF inv, of Some "\<lambda>v. False" "\<lambda>d seen. seen @ [d]" "[]"]) (auto simp: example_set)
  moreover from this have "seen = [example_value]"
    using distinct_card [of seen] by (cases seen; cases "tl seen") auto
  ultimately have calls: "lh_calls (\<lambda>alloc. alloc = Some) conf_value_hash conf_value_cmp ?evs lh"
    using trace_flush [OF example_calls refl, of "\<lambda>v. False" lh "[example_value]"] by simp
  have "items_after ?evs = 0" "peak_items ?evs = 1" by (simp_all add: items_after_def)
  then show ?thesis
    using calls lh_load_bounded [OF conf_value.hashing_axioms calls] by (intro exI [of _ lh]) auto
qed

end
