(* ===== verification/Poly1305.thy ===== *)
theory Poly1305
  imports Streaming
begin

unbundle bit_operations_syntax

text \<open>
  The one-time authenticator Poly1305 (crypto/poly1305/poly1305.c), in the portable form: numbers modulo
  \<open>2 ^ 130 - 5\<close> as five limbs of 26 bits in 32-bit words, multiplied into 64-bit sums and carried
  only partly. What has to be shown is that no sum overflows, that the limbs stand for the number
  RFC 8439 computes, and that the last reduction is right. The last one is not quite: the final
  carry can leave 26 bits plus one in the lowest limb, which the packing of the limbs into words
  then loses. The exact set of values this happens for is part of the result, and an input that
  reaches it is evaluated.
\<close>

section \<open>The code\<close>

definition U8TO32_LE :: "nat \<Rightarrow> bytes \<Rightarrow> u32" where
  "U8TO32_LE n m = of_nat (be_nat (rev (take 4 (drop n m))))"

definition U32TO8_LE :: "u32 \<Rightarrow> bytes" where
  "U32TO8_LE v = le_bytes 4 (unat v)"

definition mul32x32_64 :: "u32 \<Rightarrow> u32 \<Rightarrow> u64" where
  "mul32x32_64 a b = ucast a * ucast b"

record poly1305_st =
  st_r0 :: u32
  st_r1 :: u32
  st_r2 :: u32
  st_r3 :: u32
  st_r4 :: u32
  st_s1 :: u32
  st_s2 :: u32
  st_s3 :: u32
  st_s4 :: u32
  st_h0 :: u32
  st_h1 :: u32
  st_h2 :: u32
  st_h3 :: u32
  st_h4 :: u32
  st_buf :: bytes
  st_buf_used :: nat
  st_key :: bytes

text \<open>The additions of a block; a full one has the bit \<open>1 << 24\<close> of the last limb set.\<close>

definition poly1305_add :: "bool \<Rightarrow> bytes \<Rightarrow> poly1305_st \<Rightarrow> poly1305_st" where
  "poly1305_add full inp st =
     (let t0 = U8TO32_LE 0 inp; t1 = U8TO32_LE 4 inp; t2 = U8TO32_LE 8 inp; t3 = U8TO32_LE 12 inp
      in st\<lparr>st_h0 := st_h0 st + (t0 AND 0x3ffffff),
            st_h1 := st_h1 st + ucast (drop_bit 26 (push_bit 32 (ucast t1 :: u64) OR ucast t0) AND 0x3ffffff),
            st_h2 := st_h2 st + ucast (drop_bit 20 (push_bit 32 (ucast t2 :: u64) OR ucast t1) AND 0x3ffffff),
            st_h3 := st_h3 st + ucast (drop_bit 14 (push_bit 32 (ucast t3 :: u64) OR ucast t2) AND 0x3ffffff),
            st_h4 := st_h4 st + (if full then drop_bit 8 t3 OR 0x1000000 else drop_bit 8 t3)\<rparr>)"

text \<open>The label \<open>poly1305_donna_mul\<close>.\<close>

definition poly1305_mul :: "poly1305_st \<Rightarrow> poly1305_st" where
  "poly1305_mul st =
     (let h0 = st_h0 st; h1 = st_h1 st; h2 = st_h2 st; h3 = st_h3 st; h4 = st_h4 st;
          r0 = st_r0 st; r1 = st_r1 st; r2 = st_r2 st; r3 = st_r3 st; r4 = st_r4 st;
          s1 = st_s1 st; s2 = st_s2 st; s3 = st_s3 st; s4 = st_s4 st;
          t0 = mul32x32_64 h0 r0 + mul32x32_64 h1 s4 + mul32x32_64 h2 s3 + mul32x32_64 h3 s2 + mul32x32_64 h4 s1;
          t1 = mul32x32_64 h0 r1 + mul32x32_64 h1 r0 + mul32x32_64 h2 s4 + mul32x32_64 h3 s3 + mul32x32_64 h4 s2;
          t2 = mul32x32_64 h0 r2 + mul32x32_64 h1 r1 + mul32x32_64 h2 r0 + mul32x32_64 h3 s4 + mul32x32_64 h4 s3;
          t3 = mul32x32_64 h0 r3 + mul32x32_64 h1 r2 + mul32x32_64 h2 r1 + mul32x32_64 h3 r0 + mul32x32_64 h4 s4;
          t4 = mul32x32_64 h0 r4 + mul32x32_64 h1 r3 + mul32x32_64 h2 r2 + mul32x32_64 h3 r1 + mul32x32_64 h4 r0;
          h0 = ucast t0 AND 0x3ffffff;
          c = drop_bit 26 t0;
          t1 = t1 + c;
          h1 = ucast t1 AND 0x3ffffff;
          b = ucast (drop_bit 26 t1) :: u32;
          t2 = t2 + ucast b;
          h2 = ucast t2 AND 0x3ffffff;
          b = ucast (drop_bit 26 t2) :: u32;
          t3 = t3 + ucast b;
          h3 = ucast t3 AND 0x3ffffff;
          b = ucast (drop_bit 26 t3) :: u32;
          t4 = t4 + ucast b;
          h4 = ucast t4 AND 0x3ffffff;
          b = ucast (drop_bit 26 t4) :: u32;
          h0 = h0 + b * 5
      in st\<lparr>st_h0 := h0, st_h1 := h1, st_h2 := h2, st_h3 := h3, st_h4 := h4\<rparr>)"

function poly1305_update :: "poly1305_st \<Rightarrow> bytes \<Rightarrow> poly1305_st" where
  "poly1305_update st inp =
     (if length inp \<ge> 16
      then poly1305_update (poly1305_mul (poly1305_add True inp st)) (drop 16 inp)
      else if inp = [] then st
      else let mp = inp @ [1] @ replicate (15 - length inp) 0 in poly1305_mul (poly1305_add False mp st))"
  by pat_completeness auto
termination
  by (relation "measure (\<lambda>(_, inp). length inp)") auto

declare poly1305_update.simps [simp del]

text \<open>The words of the state before are garbage; so is the buffer.\<close>

definition CRYPTO_poly1305_init :: "poly1305_st \<Rightarrow> bytes \<Rightarrow> poly1305_st" where
  "CRYPTO_poly1305_init st key =
     (let t0 = U8TO32_LE 0 key; t1 = U8TO32_LE 4 key; t2 = U8TO32_LE 8 key; t3 = U8TO32_LE 12 key;
          r0 = t0 AND 0x3ffffff;
          t0 = drop_bit 26 t0;
          t0 = t0 OR push_bit 6 t1;
          r1 = t0 AND 0x3ffff03;
          t1 = drop_bit 20 t1;
          t1 = t1 OR push_bit 12 t2;
          r2 = t1 AND 0x3ffc0ff;
          t2 = drop_bit 14 t2;
          t2 = t2 OR push_bit 18 t3;
          r3 = t2 AND 0x3f03fff;
          t3 = drop_bit 8 t3;
          r4 = t3 AND 0x00fffff
      in st\<lparr>st_r0 := r0, st_r1 := r1, st_r2 := r2, st_r3 := r3, st_r4 := r4,
            st_s1 := r1 * 5, st_s2 := r2 * 5, st_s3 := r3 * 5, st_s4 := r4 * 5,
            st_h0 := 0, st_h1 := 0, st_h2 := 0, st_h3 := 0, st_h4 := 0,
            st_buf_used := 0, st_key := take 16 (drop 16 key)\<rparr>)"

definition put_buf :: "nat \<Rightarrow> bytes \<Rightarrow> bytes \<Rightarrow> bytes" where
  "put_buf n src buf = take n buf @ src @ drop (n + length src) buf"

text \<open>An update completes the block in the buffer, if there is one, runs over the whole blocks and keeps
  the rest.\<close>

definition poly1305_fill :: "bytes \<Rightarrow> poly1305_st \<Rightarrow> poly1305_st \<times> bytes" where
  "poly1305_fill inp st =
     (if st_buf_used st \<noteq> 0
      then let todo = 16 - st_buf_used st;
               todo = (if todo > length inp then length inp else todo);
               st = st\<lparr>st_buf := put_buf (st_buf_used st) (take todo inp) (st_buf st),
                       st_buf_used := st_buf_used st + todo\<rparr>;
               st = (if st_buf_used st = 16 then (poly1305_update st (take 16 (st_buf st)))\<lparr>st_buf_used := 0\<rparr> else st)
           in (st, drop todo inp)
      else (st, inp))"

definition poly1305_blocks :: "poly1305_st \<times> bytes \<Rightarrow> poly1305_st \<times> bytes" where
  "poly1305_blocks s = (case s of (st, inp) \<Rightarrow>
     if length inp \<ge> 16
     then let todo = length inp div 16 * 16 in (poly1305_update st (take todo inp), drop todo inp)
     else (st, inp))"

definition poly1305_keep :: "poly1305_st \<times> bytes \<Rightarrow> poly1305_st" where
  "poly1305_keep s = (case s of (st, inp) \<Rightarrow>
     if inp \<noteq> [] then st\<lparr>st_buf := put_buf 0 inp (st_buf st), st_buf_used := length inp\<rparr> else st)"

definition CRYPTO_poly1305_update :: "bytes \<Rightarrow> poly1305_st \<Rightarrow> poly1305_st" where
  "CRYPTO_poly1305_update inp st = poly1305_keep (poly1305_blocks (poly1305_fill inp st))"

text \<open>The carry through all limbs, the comparison with \<open>2 ^ 130 - 5\<close> by a trial subtraction, and the sum
  with the second half of the key.\<close>

definition poly1305_carry :: "poly1305_st \<Rightarrow> u32 \<times> u32 \<times> u32 \<times> u32 \<times> u32" where
  "poly1305_carry st =
     (let b = drop_bit 26 (st_h0 st); h0 = st_h0 st AND 0x3ffffff; h1 = st_h1 st + b;
          b = drop_bit 26 h1; h1 = h1 AND 0x3ffffff; h2 = st_h2 st + b;
          b = drop_bit 26 h2; h2 = h2 AND 0x3ffffff; h3 = st_h3 st + b;
          b = drop_bit 26 h3; h3 = h3 AND 0x3ffffff; h4 = st_h4 st + b;
          b = drop_bit 26 h4; h4 = h4 AND 0x3ffffff; h0 = h0 + b * 5
      in (h0, h1, h2, h3, h4))"

definition poly1305_select :: "u32 \<times> u32 \<times> u32 \<times> u32 \<times> u32 \<Rightarrow> u32 \<times> u32 \<times> u32 \<times> u32 \<times> u32" where
  "poly1305_select h = (case h of (h0, h1, h2, h3, h4) \<Rightarrow>
     let g0 = h0 + 5; b = drop_bit 26 g0; g0 = g0 AND 0x3ffffff;
         g1 = h1 + b; b = drop_bit 26 g1; g1 = g1 AND 0x3ffffff;
         g2 = h2 + b; b = drop_bit 26 g2; g2 = g2 AND 0x3ffffff;
         g3 = h3 + b; b = drop_bit 26 g3; g3 = g3 AND 0x3ffffff;
         g4 = h4 + b - push_bit 26 1;
         b = drop_bit 31 g4 - 1; nb = NOT b
     in (h0 AND nb OR g0 AND b, h1 AND nb OR g1 AND b, h2 AND nb OR g2 AND b,
         h3 AND nb OR g3 AND b, h4 AND nb OR g4 AND b))"

definition poly1305_pack :: "u32 \<times> u32 \<times> u32 \<times> u32 \<times> u32 \<Rightarrow> bytes \<Rightarrow> bytes" where
  "poly1305_pack h key = (case h of (h0, h1, h2, h3, h4) \<Rightarrow>
     let f0 = ucast (h0 OR push_bit 26 h1) + ucast (U8TO32_LE 0 key) :: u64;
         f1 = ucast (drop_bit 6 h1 OR push_bit 20 h2) + ucast (U8TO32_LE 4 key) :: u64;
         f2 = ucast (drop_bit 12 h2 OR push_bit 14 h3) + ucast (U8TO32_LE 8 key) :: u64;
         f3 = ucast (drop_bit 18 h3 OR push_bit 8 h4) + ucast (U8TO32_LE 12 key) :: u64;
         f1 = f1 + drop_bit 32 f0;
         f2 = f2 + drop_bit 32 f1;
         f3 = f3 + drop_bit 32 f2
     in U32TO8_LE (ucast f0) @ U32TO8_LE (ucast f1) @ U32TO8_LE (ucast f2) @ U32TO8_LE (ucast f3))"

definition CRYPTO_poly1305_finish :: "poly1305_st \<Rightarrow> bytes" where
  "CRYPTO_poly1305_finish st =
     (let st = (if st_buf_used st \<noteq> 0 then poly1305_update st (take (st_buf_used st) (st_buf st)) else st)
      in poly1305_pack (poly1305_select (poly1305_carry st)) (st_key st))"

section \<open>RFC 8439\<close>

abbreviation (input) poly_p :: nat where "poly_p \<equiv> 2 ^ 130 - 5"

definition le_num :: "bytes \<Rightarrow> nat" where
  "le_num bs = be_nat (rev bs)"

definition poly_clamp :: "bytes \<Rightarrow> nat" where
  "poly_clamp key = le_num (take 16 key) AND 0x0ffffffc0ffffffc0ffffffc0fffffff"

function poly_acc :: "nat \<Rightarrow> nat \<Rightarrow> bytes \<Rightarrow> nat" where
  "poly_acc r a msg =
     (if msg = [] then a else poly_acc r ((a + le_num (take 16 msg @ [1])) * r mod poly_p) (drop 16 msg))"
  by pat_completeness auto
termination
  by (relation "measure (\<lambda>(_, _, msg). length msg)") auto

declare poly_acc.simps [simp del]

definition poly_mac :: "bytes \<Rightarrow> bytes \<Rightarrow> bytes" where
  "poly_mac key msg = le_bytes 16 ((poly_acc (poly_clamp key) 0 msg + le_num (take 16 (drop 16 key))) mod 2 ^ 128)"

section \<open>Words and limbs\<close>

lemma unat_and_26 [simp]: "unat ((x :: u32) AND 0x3ffffff) = unat x mod 2 ^ 26"
proof -
  have "x AND 0x3ffffff = take_bit 26 x" by (simp add: take_bit_eq_mask mask_eq_exp_minus_1)
  then show ?thesis by (simp add: take_bit_eq_mod unat_mod_distrib)
qed

lemma unat_and_26_u64 [simp]: "unat ((x :: u64) AND 0x3ffffff) = unat x mod 2 ^ 26"
proof -
  have "x AND 0x3ffffff = take_bit 26 x" by (simp add: take_bit_eq_mask mask_eq_exp_minus_1)
  then show ?thesis by (simp add: take_bit_eq_mod unat_mod_distrib)
qed

lemma unat_ucast_u32: "unat (ucast (x :: u64) :: u32) = unat x mod 2 ^ 32"
  by (simp add: unsigned_ucast_eq take_bit_eq_mod)

lemma unat_ucast_u64 [simp]: "unat (ucast (x :: u32) :: u64) = unat x"
  using unat_u32_bound [of x] by (simp add: unsigned_ucast_eq take_bit_eq_mod)

lemma unat_low_26 [simp]: "unat ((ucast (t :: u64) :: u32) AND 0x3ffffff) = unat t mod 2 ^ 26"
  by (simp add: unat_ucast_u32 mod_mod_cancel)

lemma unat_carry_26: "unat t < 2 ^ 58 \<Longrightarrow> unat (ucast (drop_bit 26 (t :: u64)) :: u32) = unat t div 2 ^ 26"
  by (simp add: unat_ucast_u32 unat_drop_bit less_mult_imp_div_less)

lemma unat_add_u32: "unat x + unat y < 2 ^ 32 \<Longrightarrow> unat ((x :: u32) + y) = unat x + unat y"
  by (simp add: unat_word_ariths)

lemma unat_add_u64: "unat x + unat y < 2 ^ 64 \<Longrightarrow> unat ((x :: u64) + y) = unat x + unat y"
  by (simp add: unat_word_ariths)

lemma mul32x32_64_of_nat: "mul32x32_64 a b = of_nat (unat a * unat b)"
  by (simp add: mul32x32_64_def)

lemma unat_of_nat_u64: "n < 2 ^ 64 \<Longrightarrow> unat (of_nat n :: u64) = n"
  by (simp add: unat_of_nat take_bit_eq_mod)

abbreviation limbs :: "nat \<Rightarrow> nat \<Rightarrow> nat \<Rightarrow> nat \<Rightarrow> nat \<Rightarrow> nat" where
  "limbs x0 x1 x2 x3 x4 \<equiv> x0 + 2 ^ 26 * x1 + 2 ^ 52 * x2 + 2 ^ 78 * x3 + 2 ^ 104 * x4"

definition h_value :: "poly1305_st \<Rightarrow> nat" where
  "h_value st = limbs (unat (st_h0 st)) (unat (st_h1 st)) (unat (st_h2 st)) (unat (st_h3 st)) (unat (st_h4 st))"

definition r_value :: "poly1305_st \<Rightarrow> nat" where
  "r_value st = limbs (unat (st_r0 st)) (unat (st_r1 st)) (unat (st_r2 st)) (unat (st_r3 st)) (unat (st_r4 st))"

text \<open>The key is clamped and its multiples by five are at hand.\<close>

definition r_ok :: "poly1305_st \<Rightarrow> bool" where
  "r_ok st \<longleftrightarrow> unat (st_r0 st) \<le> 0x3ffffff \<and> unat (st_r1 st) \<le> 0x3ffff03 \<and> unat (st_r2 st) \<le> 0x3ffc0ff
     \<and> unat (st_r3 st) \<le> 0x3f03fff \<and> unat (st_r4 st) \<le> 0xfffff
     \<and> unat (st_s1 st) = 5 * unat (st_r1 st) \<and> unat (st_s2 st) = 5 * unat (st_r2 st)
     \<and> unat (st_s3 st) = 5 * unat (st_r3 st) \<and> unat (st_s4 st) = 5 * unat (st_r4 st)"

text \<open>Limbs after a multiplication, and before one. The bound of the lowest is a fixed point of the
  growth by the message and by five times the last carry.\<close>

definition h_carried :: "poly1305_st \<Rightarrow> bool" where
  "h_carried st \<longleftrightarrow> unat (st_h0 st) \<le> 2800000000 \<and> unat (st_h1 st) < 2 ^ 26 \<and> unat (st_h2 st) < 2 ^ 26
     \<and> unat (st_h3 st) < 2 ^ 26 \<and> unat (st_h4 st) < 2 ^ 26"

definition h_added :: "poly1305_st \<Rightarrow> bool" where
  "h_added st \<longleftrightarrow> unat (st_h0 st) \<le> 2867108863 \<and> unat (st_h1 st) \<le> 134217726 \<and> unat (st_h2 st) \<le> 134217726
     \<and> unat (st_h3 st) \<le> 134217726 \<and> unat (st_h4 st) \<le> 100663294"

lemma sum5_le:
  fixes a0 :: nat
  assumes "a0 \<le> A0" "a1 \<le> A1" "a2 \<le> A2" "a3 \<le> A3" "a4 \<le> A4" "b0 \<le> B0" "b1 \<le> B1" "b2 \<le> B2" "b3 \<le> B3" "b4 \<le> B4"
  shows "a0 * b0 + a1 * b1 + a2 * b2 + a3 * b3 + a4 * b4 \<le> A0 * B0 + A1 * B1 + A2 * B2 + A3 * B3 + A4 * B4"
  using assms by (intro add_mono mult_le_mono)

text \<open>The folded products are the product modulo the prime.\<close>

lemma folded_product:
  fixes h0 h1 h2 h3 h4 r0 r1 r2 r3 r4 :: nat
  defines "Q \<equiv> h1 * r4 + h2 * r3 + h3 * r2 + h4 * r1 + 2 ^ 26 * (h2 * r4 + h3 * r3 + h4 * r2)
      + 2 ^ 52 * (h3 * r4 + h4 * r3) + 2 ^ 78 * (h4 * r4)"
  shows "limbs (h0 * r0 + h1 * (5 * r4) + h2 * (5 * r3) + h3 * (5 * r2) + h4 * (5 * r1))
      (h0 * r1 + h1 * r0 + h2 * (5 * r4) + h3 * (5 * r3) + h4 * (5 * r2))
      (h0 * r2 + h1 * r1 + h2 * r0 + h3 * (5 * r4) + h4 * (5 * r3))
      (h0 * r3 + h1 * r2 + h2 * r1 + h3 * r0 + h4 * (5 * r4))
      (h0 * r4 + h1 * r3 + h2 * r2 + h3 * r1 + h4 * r0) + poly_p * Q
    = limbs h0 h1 h2 h3 h4 * limbs r0 r1 r2 r3 r4"
  unfolding Q_def by (simp add: algebra_simps)

lemma carried_limbs:
  fixes T0 T1 T2 T3 T4 :: nat
  assumes "T0 = x0 + 67108864 * c0" "T1 + c0 = x1 + 67108864 * c1" "T2 + c1 = x2 + 67108864 * c2"
    "T3 + c2 = x3 + 67108864 * c3" "T4 + c3 = x4 + 67108864 * c4"
  shows "limbs (x0 + 5 * c4) x1 x2 x3 x4 + poly_p * c4 = limbs T0 T1 T2 T3 T4"
  using assms by simp

lemma carried_sum:
  fixes T0 :: nat
  assumes "u1 = T1 + T0 div 2 ^ 26" "u2 = T2 + u1 div 2 ^ 26" "u3 = T3 + u2 div 2 ^ 26" "u4 = T4 + u3 div 2 ^ 26"
  shows "limbs (T0 mod 2 ^ 26 + 5 * (u4 div 2 ^ 26)) (u1 mod 2 ^ 26) (u2 mod 2 ^ 26) (u3 mod 2 ^ 26) (u4 mod 2 ^ 26)
      + poly_p * (u4 div 2 ^ 26) = limbs T0 T1 T2 T3 T4"
proof -
  have d: "n = n mod 2 ^ 26 + 67108864 * (n div 2 ^ 26)" for n :: nat
    using mod_mult_div_eq [of n 67108864] by simp
  show ?thesis
    using carried_limbs [OF d [of T0] _ _ _ _, of T1 "u1 mod 2 ^ 26" "u1 div 2 ^ 26" T2 "u2 mod 2 ^ 26" "u2 div 2 ^ 26"
        T3 "u3 mod 2 ^ 26" "u3 div 2 ^ 26" T4 "u4 mod 2 ^ 26" "u4 div 2 ^ 26"]
      d [of u1] d [of u2] d [of u3] d [of u4] unfolding assms [symmetric] by blast
qed

lemma poly1305_mul_correct:
  assumes "r_ok st" "h_added st"
  shows "h_carried (poly1305_mul st) \<and> h_value (poly1305_mul st) mod poly_p = h_value st * r_value st mod poly_p"
proof -
  define h0 h1 h2 h3 h4 where h: "h0 = unat (st_h0 st)" "h1 = unat (st_h1 st)" "h2 = unat (st_h2 st)"
    "h3 = unat (st_h3 st)" "h4 = unat (st_h4 st)"
  define r0 r1 r2 r3 r4 where r: "r0 = unat (st_r0 st)" "r1 = unat (st_r1 st)" "r2 = unat (st_r2 st)"
    "r3 = unat (st_r3 st)" "r4 = unat (st_r4 st)"
  have s: "unat (st_s1 st) = 5 * r1" "unat (st_s2 st) = 5 * r2" "unat (st_s3 st) = 5 * r3" "unat (st_s4 st) = 5 * r4"
    using assms(1) by (simp_all add: r_ok_def r)
  have hb: "h0 \<le> 2867108863" "h1 \<le> 134217726" "h2 \<le> 134217726" "h3 \<le> 134217726" "h4 \<le> 100663294"
    using assms(2) by (simp_all add: h_added_def h)
  have rb: "r0 \<le> 0x3ffffff" "r1 \<le> 0x3ffff03" "r2 \<le> 0x3ffc0ff" "r3 \<le> 0x3f03fff" "r4 \<le> 0xfffff"
    and sb: "5 * r1 \<le> 335543055" "5 * r2 \<le> 335463675" "5 * r3 \<le> 330383355" "5 * r4 \<le> 5242875"
    using assms(1) by (simp_all add: r_ok_def r)
  define T0 where "T0 = h0 * r0 + h1 * (5 * r4) + h2 * (5 * r3) + h3 * (5 * r2) + h4 * (5 * r1)"
  define T1 where "T1 = h0 * r1 + h1 * r0 + h2 * (5 * r4) + h3 * (5 * r3) + h4 * (5 * r2)"
  define T2 where "T2 = h0 * r2 + h1 * r1 + h2 * r0 + h3 * (5 * r4) + h4 * (5 * r3)"
  define T3 where "T3 = h0 * r3 + h1 * r2 + h2 * r1 + h3 * r0 + h4 * (5 * r4)"
  define T4 where "T4 = h0 * r4 + h1 * r3 + h2 * r2 + h3 * r1 + h4 * r0"
  have "T0 \<le> 316257446078931969 \<and> T1 \<le> 280230760287423261 \<and> T2 \<le> 244337702868428049 \<and> T3 \<le> 216996172601730057 \<and> T4 \<le> 36642637891724289"
    unfolding T0_def T1_def T2_def T3_def T4_def
    using sum5_le [OF hb rb(1) sb(4) sb(3) sb(2) sb(1)] sum5_le [OF hb rb(2) rb(1) sb(4) sb(3) sb(2)]
      sum5_le [OF hb rb(3) rb(2) rb(1) sb(4) sb(3)] sum5_le [OF hb rb(4) rb(3) rb(2) rb(1) sb(4)]
      sum5_le [OF hb rb(5) rb(4) rb(3) rb(2) rb(1)] by (intro conjI; linarith)
  then have T: "T0 \<le> 316257446078931969" "T1 \<le> 280230760287423261" "T2 \<le> 244337702868428049" "T3 \<le> 216996172601730057" "T4 \<le> 36642637891724289" by simp_all
  define u1 u2 u3 u4 where u: "u1 = T1 + T0 div 2 ^ 26" "u2 = T2 + u1 div 2 ^ 26" "u3 = T3 + u2 div 2 ^ 26"
    "u4 = T4 + u3 div 2 ^ 26"
  have mono: "m div 2 ^ 26 \<le> k" if "m \<le> n" "n div 67108864 = k" for m n k :: nat
    using div_le_mono [OF that(1), of 67108864] that(2) by simp
  have c0: "T0 div 2 ^ 26 \<le> 4712603182" by (rule mono [OF T(1)]) simp
  have v1: "u1 \<le> 280230765000026443" unfolding u(1) using T(2) c0 by linarith
  have c1: "u1 div 2 ^ 26 \<le> 4175763800" by (rule mono [OF v1]) simp
  have v2: "u2 \<le> 244337707044191849" unfolding u(2) using T(3) c1 by linarith
  have c2: "u2 div 2 ^ 26 \<le> 3640915558" by (rule mono [OF v2]) simp
  have v3: "u3 \<le> 216996176242645615" unfolding u(3) using T(4) c2 by linarith
  have c3: "u3 div 2 ^ 26 \<le> 3233495000" by (rule mono [OF v3]) simp
  have v4: "u4 \<le> 36642641125219289" unfolding u(4) using T(5) c3 by linarith
  have c4: "u4 div 2 ^ 26 \<le> 546017901" by (rule mono [OF v4]) simp
  have ub: "T0 div 2 ^ 26 \<le> 4712603182" "u1 < 2 ^ 58" "u2 < 2 ^ 58" "u3 < 2 ^ 58" "u4 < 2 ^ 58" "u4 div 2 ^ 26 \<le> 546017901"
    using c0 v1 v2 v3 v4 c4 by simp_all
  define b where "b = u4 div 2 ^ 26"
  have t: "mul32x32_64 a0 b0 + mul32x32_64 a1 b1 + mul32x32_64 a2 b2 + mul32x32_64 a3 b3 + mul32x32_64 a4 b4
      = of_nat (unat a0 * unat b0 + unat a1 * unat b1 + unat a2 * unat b2 + unat a3 * unat b3 + unat a4 * unat b4)"
    for a0 a1 a2 a3 a4 b0 b1 b2 b3 b4
    by (simp only: mul32x32_64_of_nat of_nat_add)
  have w0: "unat (of_nat T0 :: u64) = T0" using T(1) by (intro unat_of_nat_u64) simp
  have w1: "of_nat T1 + drop_bit 26 (of_nat T0) = (of_nat u1 :: u64)"
    using w0 by (simp add: word_unat_eq_iff u unat_of_nat unat_word_ariths unat_drop_bit take_bit_eq_mod mod_simps)
  have cc: "ucast (ucast (drop_bit 26 (of_nat n :: u64)) :: u32) = (of_nat (n div 2 ^ 26) :: u64)" if "n < 2 ^ 58" for n
    using that by (simp add: word_unat_eq_iff unat_carry_26 unat_of_nat take_bit_eq_mod less_mult_imp_div_less)
  have c32: "unat (ucast (drop_bit 26 (of_nat n :: u64)) :: u32) = n div 2 ^ 26" if "n < 2 ^ 58" for n
    using that by (subst unat_carry_26) (simp_all add: unat_of_nat take_bit_eq_mod)
  have low: "unat ((ucast (of_nat n :: u64) :: u32) AND 0x3ffffff) = n mod 2 ^ 26" if "n < 2 ^ 64" for n
    unfolding unat_low_26 unat_of_nat_u64 [OF that] by (rule refl)
  define st' where "st' = poly1305_mul st"
  have h1': "unat (st_h1 st') = u1 mod 2 ^ 26" and h2': "unat (st_h2 st') = u2 mod 2 ^ 26"
    and h3': "unat (st_h3 st') = u3 mod 2 ^ 26" and h4': "unat (st_h4 st') = u4 mod 2 ^ 26"
    and h0': "st_h0 st' = (ucast (of_nat T0 :: u64) AND 0x3ffffff) + ucast (drop_bit 26 (of_nat u4 :: u64)) * 5"
    unfolding st'_def poly1305_mul_def Let_def t s h [symmetric] r [symmetric]
      T0_def [symmetric] T1_def [symmetric] T2_def [symmetric] T3_def [symmetric] T4_def [symmetric]
      w1 cc [OF ub(2)] of_nat_add [symmetric] u(2) [symmetric] cc [OF ub(3)] u(3) [symmetric] cc [OF ub(4)] u(4) [symmetric]
    using ub by (simp_all add: low del: unat_low_26 unat_and_26)
  have h0'': "unat (st_h0 st') = T0 mod 2 ^ 26 + 5 * b"
  proof -
    have five: "unat (ucast (drop_bit 26 (of_nat u4 :: u64)) * (5 :: u32)) = 5 * b"
      using ub(6) by (simp add: unat_word_ariths c32 [OF ub(5)] b_def)
    have "T0 mod 2 ^ 26 < 2 ^ 26" by simp
    then have "T0 mod 2 ^ 26 + 5 * b < 2 ^ 32" using ub(6) by (simp add: b_def)
    moreover have "unat (ucast (of_nat T0 :: u64) AND (0x3ffffff :: u32)) = T0 mod 2 ^ 26" using T(1) by (intro low) simp
    ultimately show ?thesis unfolding h0' by (subst unat_add_u32) (simp_all only: five)
  qed
  have "h_carried st'"
  proof -
    have "T0 mod 2 ^ 26 < 2 ^ 26" by simp
    then have "T0 mod 2 ^ 26 + 5 * b \<le> 2800000000" using ub(6) by (simp add: b_def)
    then show ?thesis by (simp add: h_carried_def h1' h2' h3' h4' h0'')
  qed
  moreover have "h_value st' mod poly_p = h_value st * r_value st mod poly_p"
  proof -
    obtain Q where Q: "limbs T0 T1 T2 T3 T4 + poly_p * Q = h_value st * r_value st"
      using folded_product [of h0 r0 h1 r4 h2 r3 h3 r2 h4 r1] unfolding T0_def T1_def T2_def T3_def T4_def h_value_def r_value_def h r by blast
    have "h_value st' + poly_p * b = limbs T0 T1 T2 T3 T4"
      using carried_sum [OF u] unfolding h_value_def h1' h2' h3' h4' h0'' b_def by simp
    then have "h_value st * r_value st = h_value st' + poly_p * (b + Q)"
      unfolding Q [symmetric] by (simp only: distrib_left add.assoc [symmetric])
    then show ?thesis by (simp only: mod_mult_self2)
  qed
  ultimately show ?thesis by (simp add: st'_def)
qed

section \<open>Blocks and keys as limbs\<close>

lemma le_num_Nil [simp]: "le_num [] = 0"
  by (simp add: le_num_def)

lemma le_num_append: "le_num (xs @ ys) = le_num xs + 256 ^ length xs * le_num ys"
  by (simp add: le_num_def be_simps)

lemma le_num_bound: "length xs = n \<Longrightarrow> le_num xs < 256 ^ n"
  using be_nat_bound [of "rev xs"] by (simp add: le_num_def)

lemma le_num_zeros [simp]: "le_num (replicate n 0) = 0"
  by (induction n) (simp_all add: le_num_def be_simps)

lemma le_num_one [simp]: "le_num [1] = 1"
  by (simp add: le_num_def)

lemma unat_U8TO32_LE: "unat (U8TO32_LE n m) = le_num (take 4 (drop n m))"
proof -
  have "le_num (take 4 (drop n m)) < 256 ^ length (take 4 (drop n m))" by (rule le_num_bound) simp
  also have "\<dots> \<le> 256 ^ 4" by (rule power_increasing) simp_all
  finally show ?thesis by (simp add: U8TO32_LE_def unat_of_nat take_bit_eq_mod le_num_def)
qed

text \<open>The four words of a block.\<close>

lemma block_words_num:
  assumes "16 \<le> length m"
  shows "le_num (take 16 m) = unat (U8TO32_LE 0 m) + 2 ^ 32 * unat (U8TO32_LE 4 m) + 2 ^ 64 * unat (U8TO32_LE 8 m)
    + 2 ^ 96 * unat (U8TO32_LE 12 m)"
proof -
  have "take 16 m = take (4 + (4 + (4 + 4))) m" by simp
  also have "\<dots> = take 4 m @ take 4 (drop 4 m) @ take 4 (drop 8 m) @ take 4 (drop 12 m)"
    by (simp only: take_add drop_drop) simp
  finally show ?thesis using assms by (simp add: le_num_append unat_U8TO32_LE)
qed

definition limb :: "nat \<Rightarrow> nat \<Rightarrow> nat" where
  "limb i N = N div 2 ^ (26 * i) mod 2 ^ 26"

lemma horner5:
  fixes N :: nat
  assumes "N = x0 + 67108864 * n1" "n1 = x1 + 67108864 * n2" "n2 = x2 + 67108864 * n3" "n3 = x3 + 67108864 * x4"
  shows "limbs x0 x1 x2 x3 x4 = N"
  unfolding assms by simp

lemma unat_u32_lt: "unat (x :: u32) < 2 ^ 32"
  using unat_u32_bound [of x] by simp

lemma limbs_of_num: "N < 2 ^ 130 \<Longrightarrow> limbs (limb 0 N) (limb 1 N) (limb 2 N) (limb 3 N) (limb 4 N) = N"
proof -
  assume N: "N < 2 ^ 130"
  have d: "n = n mod 2 ^ 26 + 67108864 * (n div 2 ^ 26)" for n :: nat
    using mod_mult_div_eq [of n 67108864] by simp
  have e: "N div 2 ^ 26 div 2 ^ 26 = N div 2 ^ 52" "N div 2 ^ 52 div 2 ^ 26 = N div 2 ^ 78"
    "N div 2 ^ 78 div 2 ^ 26 = N div 2 ^ 104" by (simp_all flip: div_mult2_eq)
  have "N div 2 ^ 104 < 2 ^ 26" using N by (simp add: less_mult_imp_div_less)
  then have l: "limb 0 N = N mod 2 ^ 26" "limb 1 N = N div 2 ^ 26 mod 2 ^ 26" "limb 2 N = N div 2 ^ 52 mod 2 ^ 26"
    "limb 3 N = N div 2 ^ 78 mod 2 ^ 26" "limb 4 N = N div 2 ^ 104" by (simp_all add: limb_def)
  show ?thesis
    unfolding l
    by (rule horner5 [OF d d [of "N div 2 ^ 26", unfolded e] d [of "N div 2 ^ 52", unfolded e] d [of "N div 2 ^ 78", unfolded e]])
qed

lemma limb_words:
  fixes t0 t1 t2 t3 :: nat
  assumes "t0 < 2 ^ 32" "t1 < 2 ^ 32" "t2 < 2 ^ 32" "t3 < 2 ^ 32"
    and N: "N = t0 + 2 ^ 32 * t1 + 2 ^ 64 * t2 + 2 ^ 96 * t3"
  shows "limb 0 N = t0 mod 2 ^ 26" "limb 1 N = (t1 * 2 ^ 32 + t0) div 2 ^ 26 mod 2 ^ 26"
    "limb 2 N = (t2 * 2 ^ 32 + t1) div 2 ^ 20 mod 2 ^ 26" "limb 3 N = (t3 * 2 ^ 32 + t2) div 2 ^ 14 mod 2 ^ 26"
    "limb 4 N = t3 div 2 ^ 8"
proof -
  have high: "(a + 2 ^ 64 * y) div 2 ^ k mod 2 ^ 26 = a div 2 ^ k mod 2 ^ 26" if "k \<le> 38" for a y k :: nat
  proof -
    have "2 ^ 64 * y = 2 ^ k * (2 ^ 26 * (2 ^ (38 - k) * y))"
      using that by (simp only: mult.assoc [symmetric] power_add [symmetric]) simp
    then have "(a + 2 ^ 64 * y) div 2 ^ k = (a + 2 ^ k * (2 ^ 26 * (2 ^ (38 - k) * y))) div 2 ^ k" by (simp only:)
    also have "\<dots> = a div 2 ^ k + 2 ^ 26 * (2 ^ (38 - k) * y)"
      by (subst div_mult_self2) (simp, rule add.commute)
    finally have "(a + 2 ^ 64 * y) div 2 ^ k = a div 2 ^ k + 2 ^ 26 * (2 ^ (38 - k) * y)" .
    then show ?thesis by (simp only: mod_mult_self2)
  qed
  have q1: "N div 2 ^ 32 = t1 + 2 ^ 32 * t2 + 2 ^ 64 * t3"
  proof -
    have "N = t0 + 2 ^ 32 * (t1 + 2 ^ 32 * t2 + 2 ^ 64 * t3)" by (simp add: N)
    then show ?thesis using assms(1) by (simp only: div_mult_self2) simp
  qed
  have q2: "N div 2 ^ 64 = t2 + 2 ^ 32 * t3"
  proof -
    have "N div 2 ^ 64 = N div 2 ^ 32 div 2 ^ 32" by (simp flip: div_mult2_eq)
    also have "\<dots> = (t1 + 2 ^ 32 * (t2 + 2 ^ 32 * t3)) div 2 ^ 32" unfolding q1 by simp
    finally show ?thesis using assms(2) by (simp only: div_mult_self2) simp
  qed
  have q3: "N div 2 ^ 96 = t3"
  proof -
    have "N div 2 ^ 96 = N div 2 ^ 64 div 2 ^ 32" by (simp flip: div_mult2_eq)
    then show ?thesis using assms(3) unfolding q2 by simp
  qed
  show "limb 0 N = t0 mod 2 ^ 26"
  proof -
    have "N = t0 + 2 ^ 26 * (2 ^ 6 * t1 + 2 ^ 38 * t2 + 2 ^ 70 * t3)" by (simp add: N)
    then show ?thesis unfolding limb_def by (simp only: mult_0_right power_0 div_by_1 mod_mult_self2)
  qed
  show "limb 1 N = (t1 * 2 ^ 32 + t0) div 2 ^ 26 mod 2 ^ 26"
    using high [of 26 "t1 * 2 ^ 32 + t0" "t2 + 2 ^ 32 * t3"] by (simp add: limb_def N algebra_simps)
  have "limb 2 N = N div 2 ^ 32 div 2 ^ 20 mod 2 ^ 26" unfolding limb_def by (simp flip: div_mult2_eq)
  also have "\<dots> = ((t2 * 2 ^ 32 + t1) + 2 ^ 64 * t3) div 2 ^ 20 mod 2 ^ 26" unfolding q1 by (simp add: algebra_simps)
  finally show "limb 2 N = (t2 * 2 ^ 32 + t1) div 2 ^ 20 mod 2 ^ 26" by (simp only: high [of 20])
  have "limb 3 N = N div 2 ^ 64 div 2 ^ 14 mod 2 ^ 26" unfolding limb_def by (simp flip: div_mult2_eq)
  then show "limb 3 N = (t3 * 2 ^ 32 + t2) div 2 ^ 14 mod 2 ^ 26" unfolding q2 by (simp add: algebra_simps)
  have "limb 4 N = N div 2 ^ 96 div 2 ^ 8 mod 2 ^ 26" unfolding limb_def by (simp flip: div_mult2_eq)
  moreover have "t3 div 2 ^ 8 < 2 ^ 26" using assms(4) by (simp add: less_mult_imp_div_less)
  ultimately show "limb 4 N = t3 div 2 ^ 8" unfolding q3 by (simp only: mod_less)
qed

lemma two_words: "push_bit 32 (ucast (a :: u32) :: u64) OR ucast (b :: u32) = of_nat (unat a * 2 ^ 32 + unat b)"
proof -
  have "push_bit 32 (ucast a :: u64) AND ucast b = 0"
    by (rule bit_eqI) (auto simp: bit_simps dest: bit_imp_le_length)
  then have "push_bit 32 (ucast a :: u64) OR ucast b = push_bit 32 (ucast a) + ucast b"
    by (simp add: disjunctive_add_eq_or)
  then show ?thesis by (simp add: push_bit_eq_mult)
qed

lemma unat_word_limb:
  "unat (ucast (drop_bit k (push_bit 32 (ucast (a :: u32) :: u64) OR ucast (b :: u32)) AND 0x3ffffff) :: u32)
     = (unat a * 2 ^ 32 + unat b) div 2 ^ k mod 2 ^ 26"
proof -
  have "unat a * 2 ^ 32 + unat b < 2 ^ 64" using unat_u32_bound [of a] unat_u32_bound [of b] by simp
  then have "unat (of_nat (unat a * 2 ^ 32 + unat b) :: u64) = unat a * 2 ^ 32 + unat b" by (rule unat_of_nat_u64)
  moreover have "m mod 2 ^ 26 mod 2 ^ 32 = m mod 2 ^ 26" for m :: nat
    using mod_less_divisor [of "2 ^ 26" m] by (intro mod_less) simp
  ultimately show ?thesis unfolding two_words by (simp only: unat_ucast_u32 unat_and_26_u64 unat_drop_bit)
qed

lemma poly1305_add_correct:
  assumes "h_carried st" "16 \<le> length inp"
  shows "h_added (poly1305_add full inp st)
    \<and> h_value (poly1305_add full inp st) = h_value st + le_num (take 16 inp) + (if full then 2 ^ 128 else 0)"
proof -
  define N where "N = le_num (take 16 inp)"
  have N: "N < 2 ^ 130" using le_num_bound [of "take 16 inp" 16] assms(2) by (simp add: N_def)
  note w = limb_words [OF unat_u32_lt unat_u32_lt unat_u32_lt unat_u32_lt block_words_num [OF assms(2), folded N_def]]
  have lb: "limb i N < 2 ^ 26" for i by (simp add: limb_def)
  have l4: "limb 4 N < 2 ^ 24"
  proof -
    have "N < 2 ^ 128" using le_num_bound [of "take 16 inp" 16] assms(2) by (simp add: N_def)
    then have "N div 2 ^ 104 < 2 ^ 24" by (simp add: less_mult_imp_div_less)
    then show ?thesis by (simp add: limb_def)
  qed
  define x where "x = (if full then drop_bit 8 (U8TO32_LE 12 inp) OR 0x1000000 else drop_bit 8 (U8TO32_LE 12 inp))"
  have x: "unat x = limb 4 N + (if full then 2 ^ 24 else 0)"
  proof -
    have d: "unat (drop_bit 8 (U8TO32_LE 12 inp)) = limb 4 N" by (simp add: unat_drop_bit w(5))
    have "drop_bit 8 (U8TO32_LE 12 inp) AND push_bit 24 1 = 0"
      by (rule bit_eqI, unfold bit_and_iff bit_push_bit_iff bit_drop_bit_eq bit_1_iff) (auto dest: bit_imp_le_length)
    then have "drop_bit 8 (U8TO32_LE 12 inp) OR push_bit 24 1 = drop_bit 8 (U8TO32_LE 12 inp) + push_bit 24 1"
      by (simp only: disjunctive_add_eq_or)
    then have "drop_bit 8 (U8TO32_LE 12 inp) OR 0x1000000 = drop_bit 8 (U8TO32_LE 12 inp) + 0x1000000" by simp
    moreover have "unat (drop_bit 8 (U8TO32_LE 12 inp) + 0x1000000) = limb 4 N + 2 ^ 24"
      by (subst unat_add_u32) (use d l4 in simp_all)
    ultimately show ?thesis by (simp add: x_def d)
  qed
  have h: "unat (st_h0 st) \<le> 2800000000" "unat (st_h1 st) < 2 ^ 26" "unat (st_h2 st) < 2 ^ 26"
     "unat (st_h3 st) < 2 ^ 26" "unat (st_h4 st) < 2 ^ 26" using assms(1) by (simp_all add: h_carried_def)
  define st' where "st' = poly1305_add full inp st"
  have eq: "st_h0 st' = st_h0 st + (U8TO32_LE 0 inp AND 0x3ffffff)"
    "st_h1 st' = st_h1 st + ucast (drop_bit 26 (push_bit 32 (ucast (U8TO32_LE 4 inp) :: u64) OR ucast (U8TO32_LE 0 inp)) AND 0x3ffffff)"
    "st_h2 st' = st_h2 st + ucast (drop_bit 20 (push_bit 32 (ucast (U8TO32_LE 8 inp) :: u64) OR ucast (U8TO32_LE 4 inp)) AND 0x3ffffff)"
    "st_h3 st' = st_h3 st + ucast (drop_bit 14 (push_bit 32 (ucast (U8TO32_LE 12 inp) :: u64) OR ucast (U8TO32_LE 8 inp)) AND 0x3ffffff)"
    "st_h4 st' = st_h4 st + x"
    by (simp_all add: st'_def poly1305_add_def Let_def x_def)
  have "unat (st_h0 st') = unat (st_h0 st) + limb 0 N"
    unfolding eq(1) by (subst unat_add_u32) (use h(1) lb [of 0] in \<open>simp_all add: w(1)\<close>)
  moreover have "unat (st_h1 st') = unat (st_h1 st) + limb 1 N"
    unfolding eq(2) by (subst unat_add_u32) (use h(2) lb [of 1] in \<open>simp_all only: unat_word_limb w(2) [symmetric]\<close>, simp)
  moreover have "unat (st_h2 st') = unat (st_h2 st) + limb 2 N"
    unfolding eq(3) by (subst unat_add_u32) (use h(3) lb [of 2] in \<open>simp_all only: unat_word_limb w(3) [symmetric]\<close>, simp)
  moreover have "unat (st_h3 st') = unat (st_h3 st) + limb 3 N"
    unfolding eq(4) by (subst unat_add_u32) (use h(4) lb [of 3] in \<open>simp_all only: unat_word_limb w(4) [symmetric]\<close>, simp)
  moreover have "unat (st_h4 st') = unat (st_h4 st) + unat x"
    unfolding eq(5) by (rule unat_add_u32) (use h(5) l4 x in simp)
  ultimately show ?thesis
    using h lb [of 0] lb [of 1] lb [of 2] lb [of 3] l4 x limbs_of_num [OF N]
    unfolding st'_def [symmetric] N_def [symmetric] h_added_def h_value_def by auto
qed

section \<open>The clamped key\<close>

lemma limb_bits: "limb i N = take_bit 26 (drop_bit (26 * i) N)"
  by (simp add: limb_def take_bit_eq_mod drop_bit_eq_div)

lemma limb_and: "limb i (M AND N) = limb i M AND limb i N"
  by (simp add: limb_bits)

text \<open>The words the limbs of the key are taken from: only their low 26 bits matter.\<close>

lemma key_word:
  assumes "k \<le> 26" "6 \<le> k"
  shows "unat (drop_bit k a OR push_bit (32 - k) (b :: u32)) mod 2 ^ 26 = (unat b * 2 ^ 32 + unat a) div 2 ^ k mod 2 ^ 26"
proof -
  have "take_bit 26 (drop_bit k a OR push_bit (32 - k) b)
      = ucast (take_bit 26 (drop_bit k (push_bit 32 (ucast b :: u64) OR ucast a)))"
  proof (rule bit_word_eqI)
    fix n
    assume "n < LENGTH(32)"
    then show "bit (take_bit 26 (drop_bit k a OR push_bit (32 - k) b)) n
      \<longleftrightarrow> bit (ucast (take_bit 26 (drop_bit k (push_bit 32 (ucast b :: u64) OR ucast a))) :: u32) n"
      using assms by (auto simp: bit_simps add.commute dest: bit_imp_le_length)
  qed
  then have "unat (take_bit 26 (drop_bit k a OR push_bit (32 - k) b))
      = unat (ucast (drop_bit k (push_bit 32 (ucast b :: u64) OR ucast a) AND 0x3ffffff) :: u32)"
    by (simp add: take_bit_eq_mask mask_eq_exp_minus_1)
  then show ?thesis unfolding unat_word_limb by (simp add: take_bit_eq_mod unat_mod_distrib)
qed

lemma and_low: "n mod 2 ^ 26 AND (m :: nat) = n AND m" if "m < 2 ^ 26"
proof -
  have "take_bit 26 m = m" using that by (simp add: take_bit_nat_eq_self)
  then have "n AND m = take_bit 26 (n AND m)" by (metis take_bit_and and.left_idem and.assoc and.commute take_bit_eq_mask)
  also have "\<dots> = take_bit 26 n AND m" using \<open>take_bit 26 m = m\<close> by simp
  finally show ?thesis by (simp add: take_bit_eq_mod)
qed

lemma init_correct:
  fixes st :: poly1305_st and key :: bytes
  assumes "length key = 32"
  defines "st' \<equiv> CRYPTO_poly1305_init st key"
  shows "r_ok st'" "r_value st' = poly_clamp key" "h_carried st'" "h_value st' = 0" "st_buf_used st' = 0"
    "st_buf st' = st_buf st" "st_key st' = take 16 (drop 16 key)"
proof -
  define N where "N = le_num (take 16 key)"
  let ?m = "0x0ffffffc0ffffffc0ffffffc0fffffff :: nat"
  have N: "N < 2 ^ 128" using le_num_bound [of "take 16 key" 16] assms(1) by (simp add: N_def)
  have len: "16 \<le> length key" using assms(1) by simp
  note w = limb_words [OF unat_u32_lt unat_u32_lt unat_u32_lt unat_u32_lt block_words_num [OF len, folded N_def]]
  have m: "limb 0 ?m = 0x3ffffff" "limb 1 ?m = 0x3ffff03" "limb 2 ?m = 0x3ffc0ff" "limb 3 ?m = 0x3f03fff" "limb 4 ?m = 0xfffff"
    by (simp_all add: limb_def)
  have r: "unat (st_r0 st') = limb 0 (N AND ?m)" "unat (st_r1 st') = limb 1 (N AND ?m)" "unat (st_r2 st') = limb 2 (N AND ?m)"
    "unat (st_r3 st') = limb 3 (N AND ?m)" "unat (st_r4 st') = limb 4 (N AND ?m)"
  proof -
    have a: "unat (x AND y) = unat x mod 2 ^ 26 AND unat y" if "unat y < 2 ^ 26" for x y :: u32
      unfolding unsigned_and_eq by (rule and_low [OF that, symmetric])
    show "unat (st_r0 st') = limb 0 (N AND ?m)"
      unfolding st'_def CRYPTO_poly1305_init_def Let_def limb_and m w by (simp add: a del: unat_and_26)
    show "unat (st_r1 st') = limb 1 (N AND ?m)"
      unfolding st'_def CRYPTO_poly1305_init_def Let_def limb_and m w using key_word [of 26] by (simp add: a)
    show "unat (st_r2 st') = limb 2 (N AND ?m)"
      unfolding st'_def CRYPTO_poly1305_init_def Let_def limb_and m w using key_word [of 20] by (simp add: a)
    show "unat (st_r3 st') = limb 3 (N AND ?m)"
      unfolding st'_def CRYPTO_poly1305_init_def Let_def limb_and m w using key_word [of 14] by (simp add: a)
    show "unat (st_r4 st') = limb 4 (N AND ?m)"
      unfolding st'_def CRYPTO_poly1305_init_def Let_def limb_and m w
      by (simp add: unsigned_and_eq unat_drop_bit)
  qed
  have le: "unat (st_r0 st') \<le> 0x3ffffff" "unat (st_r1 st') \<le> 0x3ffff03" "unat (st_r2 st') \<le> 0x3ffc0ff"
    "unat (st_r3 st') \<le> 0x3f03fff" "unat (st_r4 st') \<le> 0xfffff"
  proof -
    have a: "unat (x AND y) \<le> unat y" for x y :: u32 using word_and_le1 [of x y] by (simp add: word_le_nat_alt)
    show "unat (st_r0 st') \<le> 0x3ffffff" using a [of _ "0x3ffffff"] by (simp add: st'_def CRYPTO_poly1305_init_def Let_def del: unat_and_26)
    show "unat (st_r1 st') \<le> 0x3ffff03" using a [of _ "0x3ffff03"] by (simp add: st'_def CRYPTO_poly1305_init_def Let_def)
    show "unat (st_r2 st') \<le> 0x3ffc0ff" using a [of _ "0x3ffc0ff"] by (simp add: st'_def CRYPTO_poly1305_init_def Let_def)
    show "unat (st_r3 st') \<le> 0x3f03fff" using a [of _ "0x3f03fff"] by (simp add: st'_def CRYPTO_poly1305_init_def Let_def)
    show "unat (st_r4 st') \<le> 0xfffff" using a [of _ "0xfffff"] by (simp add: st'_def CRYPTO_poly1305_init_def Let_def)
  qed
  have five: "unat (x * 5) = 5 * unat x" if "unat x \<le> 0x3ffffff" for x :: u32
    using that by (simp add: unat_word_ariths)
  have s: "st_s1 st' = st_r1 st' * 5" "st_s2 st' = st_r2 st' * 5" "st_s3 st' = st_r3 st' * 5" "st_s4 st' = st_r4 st' * 5"
    by (simp_all add: st'_def CRYPTO_poly1305_init_def Let_def)
  show "r_ok st'" unfolding r_ok_def s using le five by simp
  show "r_value st' = poly_clamp key"
  proof -
    have "take_bit 128 (N AND ?m) = N AND ?m" using N by (simp add: take_bit_nat_eq_self)
    then have "N AND ?m < 2 ^ 128" by (metis take_bit_nat_less_exp)
    then have "N AND ?m < 2 ^ 130" by simp
    then show ?thesis unfolding r_value_def r poly_clamp_def N_def [symmetric] by (rule limbs_of_num)
  qed
qed (simp_all add: st'_def CRYPTO_poly1305_init_def Let_def h_carried_def h_value_def)

section \<open>Blocks\<close>

lemma poly_acc_Nil [simp]: "poly_acc r a [] = a"
  by (subst poly_acc.simps) simp

lemma poly_acc_step: "msg \<noteq> [] \<Longrightarrow> poly_acc r a msg = poly_acc r ((a + le_num (take 16 msg @ [1])) * r mod poly_p) (drop 16 msg)"
  by (subst poly_acc.simps) simp

lemma poly_acc_append: "length xs mod 16 = 0 \<Longrightarrow> poly_acc r a (xs @ ys) = poly_acc r (poly_acc r a xs) ys"
proof (induction "length xs" arbitrary: xs a rule: less_induct)
  case less
  show ?case
  proof (cases "xs = []")
    case False
    then have n: "16 \<le> length xs" using less.prems by (cases "length xs < 16") auto
    then have "length (drop 16 xs) mod 16 = 0" using less.prems by (simp add: le_mod_geq [symmetric])
    then show ?thesis
      using less.hyps [of "drop 16 xs"] False n by (simp add: poly_acc_step)
  qed simp
qed

lemma le_num_one_zeros [simp]: "le_num (1 # replicate n 0) = 1"
  using le_num_append [of "[1]" "replicate n 0"] by simp

lemma r_ok_add [simp]: "r_ok (poly1305_add full inp st) = r_ok st" "r_value (poly1305_add full inp st) = r_value st"
    "st_buf (poly1305_add full inp st) = st_buf st" "st_buf_used (poly1305_add full inp st) = st_buf_used st"
    "st_key (poly1305_add full inp st) = st_key st"
  by (simp_all add: poly1305_add_def r_ok_def r_value_def Let_def)

lemma r_ok_mul [simp]: "r_ok (poly1305_mul st) = r_ok st" "r_value (poly1305_mul st) = r_value st"
    "st_buf (poly1305_mul st) = st_buf st" "st_buf_used (poly1305_mul st) = st_buf_used st"
    "st_key (poly1305_mul st) = st_key st"
  by (simp_all add: poly1305_mul_def r_ok_def r_value_def Let_def)

lemma block_step:
  assumes "r_ok st" "h_carried st" "16 \<le> length inp"
    and b: "le_num (take 16 inp) + (if full then 2 ^ 128 else 0) = b"
  shows "h_carried (poly1305_mul (poly1305_add full inp st))
    \<and> h_value (poly1305_mul (poly1305_add full inp st)) mod poly_p = (h_value st mod poly_p + b) * r_value st mod poly_p"
proof -
  note a = poly1305_add_correct [OF assms(2,3), of full]
  have "h_added (poly1305_add full inp st)" using a by blast
  from poly1305_mul_correct [OF _ this] assms(1)
  have m: "h_carried (poly1305_mul (poly1305_add full inp st))"
    "h_value (poly1305_mul (poly1305_add full inp st)) mod poly_p = (h_value st + b) * r_value st mod poly_p"
    using a by (simp_all only: r_ok_add b add.assoc)
  have "(h_value st + b) * r_value st mod poly_p = (h_value st mod poly_p + b) * r_value st mod poly_p"
    by (metis mod_add_left_eq mod_mult_left_eq)
  then show ?thesis using m by simp
qed

lemma poly1305_update_correct:
  assumes "r_ok st" "h_carried st"
  shows "r_ok (poly1305_update st inp) \<and> h_carried (poly1305_update st inp)
    \<and> r_value (poly1305_update st inp) = r_value st \<and> st_buf (poly1305_update st inp) = st_buf st
    \<and> st_buf_used (poly1305_update st inp) = st_buf_used st \<and> st_key (poly1305_update st inp) = st_key st
    \<and> h_value (poly1305_update st inp) mod poly_p = poly_acc (r_value st) (h_value st mod poly_p) inp"
  using assms
proof (induction st inp rule: poly1305_update.induct)
  case (1 st inp)
  consider "16 \<le> length inp" | "inp = []" | "0 < length inp" "length inp < 16" by (cases "16 \<le> length inp") auto
  then show ?case
  proof cases
    case 1
    have ne: "inp \<noteq> []" using 1 by auto
    have u: "poly1305_update st inp = poly1305_update (poly1305_mul (poly1305_add True inp st)) (drop 16 inp)"
      using 1 by (subst poly1305_update.simps) simp
    have "le_num (take 16 inp) + (if True then 2 ^ 128 else 0) = le_num (take 16 inp @ [1])"
      using 1 by (simp add: le_num_append)
    note s = block_step [OF "1.prems" 1 this]
    have r: "r_ok (poly1305_mul (poly1305_add True inp st))" using "1.prems" by simp
    show ?thesis unfolding u
      using "1.IH" [OF 1 r conjunct1 [OF s]] s by (simp only: poly_acc_step [OF ne] r_ok_add r_ok_mul)
  next
    case 2
    then show ?thesis using "1.prems" by (subst (1 2 3 4 5 6 7) poly1305_update.simps) simp
  next
    case 3
    define mp where "mp = inp @ [1] @ replicate (15 - length inp) 0"
    have ne: "inp \<noteq> []" using 3 by auto
    have u: "poly1305_update st inp = poly1305_mul (poly1305_add False mp st)"
      using 3 by (subst poly1305_update.simps) (simp add: mp_def Let_def)
    have l: "16 \<le> length mp" using 3 by (simp add: mp_def)
    have "le_num (take 16 mp) + (if False then 2 ^ 128 else 0) = le_num (take 16 inp @ [1])"
      using 3 by (simp add: mp_def le_num_append)
    note s = block_step [OF "1.prems" l this]
    show ?thesis unfolding u using s 3 "1.prems" by (simp add: poly_acc_step [OF ne])
  qed
qed

section \<open>The buffering\<close>

text \<open>The state that has absorbed \<open>xs\<close>: the whole blocks are in the accumulator, the rest is in the buffer.\<close>

definition poly_rep :: "bytes \<Rightarrow> poly1305_st \<Rightarrow> bytes \<Rightarrow> bool" where
  "poly_rep key st xs \<longleftrightarrow> r_ok st \<and> r_value st = poly_clamp key \<and> h_carried st \<and> st_key st = take 16 (drop 16 key)
     \<and> length (st_buf st) = 16 \<and> st_buf_used st = length xs mod 16
     \<and> take (length xs mod 16) (st_buf st) = drop (length xs div 16 * 16) xs
     \<and> h_value st mod poly_p = poly_acc (poly_clamp key) 0 (take (length xs div 16 * 16) xs)"

lemma poly_rep_init: "length key = 32 \<Longrightarrow> length (st_buf st) = 16 \<Longrightarrow> poly_rep key (CRYPTO_poly1305_init st key) []"
  using init_correct [of key st] by (simp add: poly_rep_def)

lemma poly_rep_blocks:
  assumes "poly_rep key st xs" "length xs mod 16 = 0" "length ys mod 16 = 0"
  shows "poly_rep key (poly1305_update st ys) (xs @ ys)"
proof -
  have s: "r_ok st" "h_carried st" using assms(1) by (simp_all add: poly_rep_def)
  have l: "length (xs @ ys) div 16 * 16 = length (xs @ ys)" "length xs div 16 * 16 = length xs" "length (xs @ ys) mod 16 = 0"
    using assms(2,3) by (auto simp: mod_0_imp_dvd)
  have t: "take (length (xs @ ys)) (xs @ ys) = xs @ ys" "drop (length (xs @ ys)) (xs @ ys) = []" by simp_all
  show ?thesis
    using assms(1) poly1305_update_correct [OF s, of ys] assms(2)
    unfolding poly_rep_def l t by (simp add: poly_acc_append l(2))
qed

lemma length_put_buf: "n + length src \<le> length buf \<Longrightarrow> length (put_buf n src buf) = length buf"
  by (simp add: put_buf_def)

lemma take_put_buf: "n + length src \<le> length buf \<Longrightarrow> take (n + length src) (put_buf n src buf) = take n buf @ src"
  by (simp add: put_buf_def)

lemma poly_rep_store:
  assumes "poly_rep key st xs" "length xs mod 16 + length ys < 16"
  shows "poly_rep key (st\<lparr>st_buf := put_buf (length xs mod 16) ys (st_buf st), st_buf_used := length xs mod 16 + length ys\<rparr>) (xs @ ys)"
proof -
  have q: "length (xs @ ys) div 16 = length xs div 16" "length (xs @ ys) mod 16 = length xs mod 16 + length ys"
  proof -
    have "length (xs @ ys) = length xs div 16 * 16 + (length xs mod 16 + length ys)" by simp
    then show "length (xs @ ys) div 16 = length xs div 16" "length (xs @ ys) mod 16 = length xs mod 16 + length ys"
      using assms(2) by (simp_all only: div_mult_self3 mod_mult_self3) simp_all
  qed
  have le: "length xs div 16 * 16 \<le> length xs" by simp
  have b: "length (st_buf st) = 16" using assms(1) by (simp add: poly_rep_def)
  show ?thesis
    using assms le unfolding poly_rep_def q
    by (simp add: length_put_buf take_put_buf r_ok_def r_value_def h_carried_def h_value_def)
qed

lemma poly_rep_fill:
  assumes "poly_rep key st xs" "length xs mod 16 + length ys = 16"
  defines "st' \<equiv> st\<lparr>st_buf := put_buf (length xs mod 16) ys (st_buf st), st_buf_used := 16\<rparr>"
  shows "poly_rep key ((poly1305_update st' (take 16 (st_buf st')))\<lparr>st_buf_used := 0\<rparr>) (xs @ ys)"
proof -
  define k where "k = length xs div 16 * 16"
  define b where "b = put_buf (length xs mod 16) ys (st_buf st)"
  have "length (xs @ ys) = (length xs div 16 + 1) * 16"
    using assms(2) div_mult_mod_eq [of "length xs" 16] unfolding length_append distrib_right by linarith
  then have l: "length (xs @ ys) div 16 * 16 = length (xs @ ys)" "length (xs @ ys) mod 16 = 0" by simp_all
  have t: "take (length (xs @ ys)) (xs @ ys) = xs @ ys" "drop (length (xs @ ys)) (xs @ ys) = []" by simp_all
  have kl: "k \<le> length xs" by (simp add: k_def)
  then have "length (take k xs) = k" by simp
  then have k: "length (take k xs) mod 16 = 0" by (simp add: k_def)
  have s: "r_ok st'" "h_carried st'" "r_value st' = r_value st" "h_value st' = h_value st"
    using assms(1) by (simp_all add: poly_rep_def st'_def r_ok_def h_carried_def r_value_def h_value_def)
  have lb: "length b = 16" "take 16 b = b" using assms by (simp_all add: b_def length_put_buf poly_rep_def)
  then have b: "b = drop k xs @ ys"
    using assms take_put_buf [of "length xs mod 16" ys "st_buf st"] by (simp add: b_def k_def poly_rep_def)
  have "xs @ ys = take k xs @ b" by (simp add: b)
  then have acc: "poly_acc (poly_clamp key) 0 (xs @ ys) = poly_acc (poly_clamp key) (poly_acc (poly_clamp key) 0 (take k xs)) b"
    using k by (simp only: poly_acc_append)
  have st': "st_buf st' = b" "st_buf_used st' = 16" "st_key st' = st_key st" by (simp_all add: st'_def b_def)
  have rep: "h_value st mod poly_p = poly_acc (poly_clamp key) 0 (take k xs)" "r_value st = poly_clamp key"
    "st_key st = take 16 (drop 16 key)"
    using assms(1) by (simp_all add: poly_rep_def k_def)
  have upd: "r_ok (s\<lparr>st_buf_used := n\<rparr>) = r_ok s" "r_value (s\<lparr>st_buf_used := n\<rparr>) = r_value s"
    "h_carried (s\<lparr>st_buf_used := n\<rparr>) = h_carried s" "h_value (s\<lparr>st_buf_used := n\<rparr>) = h_value s" for s n
    by (simp_all add: r_ok_def r_value_def h_carried_def h_value_def)
  show ?thesis
    using poly1305_update_correct [OF s(1,2), of b]
    unfolding poly_rep_def l t acc st' lb(2) upd s(3,4) rep by (simp add: lb(1))
qed

text \<open>The two later stages of an update, from an empty buffer.\<close>

lemma poly_rep_rest:
  assumes "poly_rep key st xs" "length xs mod 16 = 0"
  shows "poly_rep key (poly1305_keep (poly1305_blocks (st, inp))) (xs @ inp)"
proof -
  define k where "k = length inp div 16 * 16"
  obtain st2 inp2 where p: "poly1305_blocks (st, inp) = (st2, inp2)" by fastforce
  have kl: "k \<le> length inp" by (simp add: k_def)
  then have "length (take k inp) = k" by simp
  then have whole: "length (take k inp) mod 16 = 0" by (simp add: k_def)
  have small: "k = 0" if "\<not> 16 \<le> length inp" using that by (simp add: k_def)
  have r2: "poly_rep key st2 (xs @ take k inp)" and i2: "inp2 = drop k inp"
    using poly_rep_blocks [OF assms(1,2) whole] assms(1) small p
    by (auto simp: poly1305_blocks_def Let_def k_def split: if_splits)
  have m: "length (xs @ take k inp) mod 16 = 0" using assms(2) whole by (auto simp: mod_0_imp_dvd)
  have "length inp2 = length inp mod 16" unfolding i2 k_def by (simp add: minus_div_mult_eq_mod)
  then have "length inp2 < 16" by simp
  then have "poly_rep key (st2\<lparr>st_buf := put_buf 0 inp2 (st_buf st2), st_buf_used := length inp2\<rparr>) ((xs @ take k inp) @ inp2)"
    using poly_rep_store [OF r2, of inp2] unfolding m by simp
  moreover have "(xs @ take k inp) @ inp2 = xs @ inp" by (simp add: i2)
  ultimately show ?thesis using r2 by (auto simp: p poly1305_keep_def i2)
qed

lemma CRYPTO_poly1305_update_rep:
  assumes "poly_rep key st xs"
  shows "poly_rep key (CRYPTO_poly1305_update inp st) (xs @ inp)"
proof -
  define u where "u = length xs mod 16"
  have u: "st_buf_used st = u" "u < 16" using assms by (simp_all add: poly_rep_def u_def)
  consider "u = 0" | "u \<noteq> 0" "length inp < 16 - u" | "u \<noteq> 0" "16 - u \<le> length inp" by linarith
  then show ?thesis
  proof cases
    case 1
    then show ?thesis
      using poly_rep_rest [OF assms, of inp] u(1) by (simp add: CRYPTO_poly1305_update_def poly1305_fill_def u_def)
  next
    case 2
    then have "poly1305_fill inp st = (st\<lparr>st_buf := put_buf u inp (st_buf st), st_buf_used := u + length inp\<rparr>, [])"
      using u by (simp add: poly1305_fill_def Let_def)
    then have "CRYPTO_poly1305_update inp st = st\<lparr>st_buf := put_buf u inp (st_buf st), st_buf_used := u + length inp\<rparr>"
      by (simp add: CRYPTO_poly1305_update_def poly1305_blocks_def poly1305_keep_def)
    then show ?thesis using poly_rep_store [OF assms, of inp] 2 unfolding u_def [symmetric] by simp
  next
    case 3
    define k where "k = 16 - u"
    define st' where "st' = st\<lparr>st_buf := put_buf u (take k inp) (st_buf st), st_buf_used := 16\<rparr>"
    have f: "poly1305_fill inp st = ((poly1305_update st' (take 16 (st_buf st')))\<lparr>st_buf_used := 0\<rparr>, drop k inp)"
      using 3 u by (simp add: poly1305_fill_def Let_def k_def st'_def)
    have l: "length xs mod 16 + length (take k inp) = 16" using 3 u by (simp add: k_def u_def)
    have "poly_rep key ((poly1305_update st' (take 16 (st_buf st')))\<lparr>st_buf_used := 0\<rparr>) (xs @ take k inp)"
      using poly_rep_fill [OF assms l] unfolding st'_def u_def .
    moreover have "length (xs @ take k inp) mod 16 = 0"
    proof -
      have "length (xs @ take k inp) = (length xs div 16 + 1) * 16"
        using l div_mult_mod_eq [of "length xs" 16] unfolding length_append distrib_right by linarith
      then show ?thesis by simp
    qed
    ultimately have "poly_rep key (poly1305_keep (poly1305_blocks (poly1305_fill inp st))) ((xs @ take k inp) @ drop k inp)"
      unfolding f by (rule poly_rep_rest)
    then show ?thesis by (simp add: CRYPTO_poly1305_update_def)
  qed
qed

section \<open>The last reduction\<close>

text \<open>The limbs of the tuple the last stages pass on.\<close>

definition tuple_value :: "u32 \<times> u32 \<times> u32 \<times> u32 \<times> u32 \<Rightarrow> nat" where
  "tuple_value h = (case h of (h0, h1, h2, h3, h4) \<Rightarrow> limbs (unat h0) (unat h1) (unat h2) (unat h3) (unat h4))"

definition canonical :: "u32 \<times> u32 \<times> u32 \<times> u32 \<times> u32 \<Rightarrow> bool" where
  "canonical h \<longleftrightarrow> (case h of (h0, h1, h2, h3, h4) \<Rightarrow> unat h0 < 2 ^ 26 \<and> unat h1 < 2 ^ 26 \<and> unat h2 < 2 ^ 26
     \<and> unat h3 < 2 ^ 26 \<and> unat h4 < 2 ^ 26)"

text \<open>What the carry of a sum that is already reduced may leave: a lowest limb of \<open>2 ^ 26\<close> or a little more,
  over nothing but a small second limb.\<close>

definition overfull :: "u32 \<times> u32 \<times> u32 \<times> u32 \<times> u32 \<Rightarrow> bool" where
  "overfull h \<longleftrightarrow> (case h of (h0, h1, h2, h3, h4) \<Rightarrow> 2 ^ 26 \<le> unat h0 \<and> unat h0 < 2 ^ 26 + 5 \<and> unat h1 < 41
     \<and> h2 = 0 \<and> h3 = 0 \<and> h4 = 0)"

lemma last_carry:
  fixes x0 :: nat
  assumes "x0 \<le> 2800000000" "x1 < 2 ^ 26" "x2 < 2 ^ 26" "x3 < 2 ^ 26" "x4 < 2 ^ 26"
    and u: "u1 = x1 + x0 div 2 ^ 26" "u2 = x2 + u1 div 2 ^ 26" "u3 = x3 + u2 div 2 ^ 26" "u4 = x4 + u3 div 2 ^ 26"
  shows "x0 div 2 ^ 26 \<le> 41" "u1 < 2 ^ 26 + 41" "u2 \<le> 2 ^ 26" "u3 \<le> 2 ^ 26" "u4 \<le> 2 ^ 26"
    "u4 div 2 ^ 26 \<le> 1"
    "u4 div 2 ^ 26 = 1 \<longrightarrow> u1 mod 2 ^ 26 < 41 \<and> u2 mod 2 ^ 26 = 0 \<and> u3 mod 2 ^ 26 = 0 \<and> u4 mod 2 ^ 26 = 0"
proof -
  have c: "n div 2 ^ 26 = (if n < 2 ^ 26 then 0 else 1)" if "n \<le> 2 ^ 26 + 41" for n :: nat
    using that div_less [of n "2 ^ 26"] div_nat_eqI [of 1 "2 ^ 26" n] by auto
  show c0: "x0 div 2 ^ 26 \<le> 41" using div_le_mono [OF assms(1), of "2 ^ 26"] by simp
  then show u1: "u1 < 2 ^ 26 + 41" using assms(2) u(1) by linarith
  then show u2: "u2 \<le> 2 ^ 26" using assms(3) u(2) c [of u1] by (simp split: if_splits)
  then show u3: "u3 \<le> 2 ^ 26" using assms(4) u(3) c [of u2] by (simp split: if_splits)
  then show u4: "u4 \<le> 2 ^ 26" using assms(5) u(4) c [of u3] by (simp split: if_splits)
  then show "u4 div 2 ^ 26 \<le> 1" using c [of u4] by simp
  show "u4 div 2 ^ 26 = 1 \<longrightarrow> u1 mod 2 ^ 26 < 41 \<and> u2 mod 2 ^ 26 = 0 \<and> u3 mod 2 ^ 26 = 0 \<and> u4 mod 2 ^ 26 = 0"
  proof
    assume "u4 div 2 ^ 26 = 1"
    then have e4: "u4 = 2 ^ 26" using c [of u4] u4 by (simp split: if_splits)
    then have e3: "u3 = 2 ^ 26" using assms(5) u(4) u3 c [of u3] by (simp split: if_splits)
    then have e2: "u2 = 2 ^ 26" using assms(4) u(3) u2 c [of u2] by (simp split: if_splits)
    then have "2 ^ 26 \<le> u1" using assms(3) u(2) u1 c [of u1] by (simp split: if_splits)
    then have "u1 mod 2 ^ 26 < 41" using u1 by (simp add: le_mod_geq)
    then show "u1 mod 2 ^ 26 < 41 \<and> u2 mod 2 ^ 26 = 0 \<and> u3 mod 2 ^ 26 = 0 \<and> u4 mod 2 ^ 26 = 0"
      by (simp add: e2 e3 e4)
  qed
qed

lemma unat_div_26: "unat (drop_bit 26 (x :: u32)) = unat x div 2 ^ 26"
  by (rule unat_drop_bit)

lemma unat_carry_add: "unat h < 2 ^ 26 \<Longrightarrow> unat ((h :: u32) + drop_bit 26 v) = unat h + unat v div 2 ^ 26"
  using unat_u32_lt [of v] div_le_mono [of "unat v" "2 ^ 32" "2 ^ 26"]
  by (subst unat_add_u32) (simp_all add: unat_drop_bit)

lemma poly1305_carry_correct:
  assumes "h_carried st"
  shows "(canonical (poly1305_carry st) \<or> overfull (poly1305_carry st))
    \<and> tuple_value (poly1305_carry st) mod poly_p = h_value st mod poly_p"
proof -
  define x0 x1 x2 x3 x4 where x: "x0 = unat (st_h0 st)" "x1 = unat (st_h1 st)" "x2 = unat (st_h2 st)"
    "x3 = unat (st_h3 st)" "x4 = unat (st_h4 st)"
  define u1 u2 u3 u4 where u: "u1 = x1 + x0 div 2 ^ 26" "u2 = x2 + u1 div 2 ^ 26" "u3 = x3 + u2 div 2 ^ 26"
    "u4 = x4 + u3 div 2 ^ 26"
  have b: "x0 \<le> 2800000000" "x1 < 2 ^ 26" "x2 < 2 ^ 26" "x3 < 2 ^ 26" "x4 < 2 ^ 26"
    using assms by (simp_all add: h_carried_def x)
  note l = last_carry [OF b u]
  define w1 where "w1 = st_h1 st + drop_bit 26 (st_h0 st)"
  define w2 where "w2 = st_h2 st + drop_bit 26 w1"
  define w3 where "w3 = st_h3 st + drop_bit 26 w2"
  define w4 where "w4 = st_h4 st + drop_bit 26 w3"
  have w: "unat w1 = u1" "unat w2 = u2" "unat w3 = u3" "unat w4 = u4"
    unfolding w1_def w2_def w3_def w4_def u x using b[unfolded x] by (simp_all only: unat_carry_add)
  note w1 = w(1) and w2 = w(2) and w3 = w(3) and w4 = w(4)
  have c: "poly1305_carry st = ((st_h0 st AND 0x3ffffff) + drop_bit 26 w4 * 5, w1 AND 0x3ffffff, w2 AND 0x3ffffff,
      w3 AND 0x3ffffff, w4 AND 0x3ffffff)"
    by (simp add: poly1305_carry_def Let_def w1_def w2_def w3_def w4_def)
  have five: "unat (drop_bit 26 w4 * 5) = 5 * (u4 div 2 ^ 26)" using l(6) by (simp add: unat_word_ariths unat_div_26 w4)
  have h0: "unat ((st_h0 st AND 0x3ffffff) + drop_bit 26 w4 * 5) = x0 mod 2 ^ 26 + 5 * (u4 div 2 ^ 26)"
  proof -
    have lo: "unat (st_h0 st AND 0x3ffffff) = x0 mod 2 ^ 26" by (simp add: x)
    have "a + 5 * c < 2 ^ 32" if "a < 2 ^ 26" "c \<le> 1" for a c :: nat using that by simp
    from this [OF _ l(6)] have "x0 mod 2 ^ 26 + 5 * (u4 div 2 ^ 26) < 2 ^ 32" by simp
    then show ?thesis by (subst unat_add_u32) (simp_all only: five lo)
  qed
  have "canonical (poly1305_carry st) \<or> overfull (poly1305_carry st)"
  proof (cases "u4 div 2 ^ 26 = 0")
    case True
    then show ?thesis using h0 by (simp add: c canonical_def)
  next
    case False
    then have one: "u4 div 2 ^ 26 = 1" using l(6) by linarith
    have z: "w AND 0x3ffffff = 0" if "unat w mod 2 ^ 26 = 0" for w :: u32
      using that by (simp add: word_unat_eq_iff)
    have "w2 AND 0x3ffffff = 0" "w3 AND 0x3ffffff = 0" "w4 AND 0x3ffffff = 0" "unat (w1 AND 0x3ffffff) < 41"
      using l(7) one by (simp_all only: z w2 w3 w4 unat_and_26 w1)
    moreover have "x0 mod 2 ^ 26 < 2 ^ 26" by simp
    ultimately show ?thesis using h0 one unfolding c by (cases "x0 mod 2 ^ 26 + 5 < 2 ^ 26") (simp_all add: canonical_def overfull_def)
  qed
  moreover have "tuple_value (poly1305_carry st) + poly_p * (u4 div 2 ^ 26) = h_value st"
    using carried_sum [OF u] unfolding tuple_value_def c h_value_def x [symmetric] prod.case h0 by (simp only: unat_and_26 w1 w2 w3 w4)
  then have "tuple_value (poly1305_carry st) mod poly_p = h_value st mod poly_p" by (metis mod_mult_self2)
  ultimately show ?thesis by blast
qed

text \<open>The trial subtraction of \<open>2 ^ 130 - 5\<close>: its borrow decides.\<close>

lemma top_bit_mask:
  "drop_bit 31 (g :: u32) - 1 = (if unat g < 2 ^ 31 then - 1 else 0)"
proof -
  have "unat (drop_bit 31 g) = unat g div 2 ^ 31" by (rule unat_drop_bit)
  moreover have "unat g div 2 ^ 31 = (if unat g < 2 ^ 31 then 0 else 1)"
    using unat_u32_lt [of g] by (auto intro: div_nat_eqI)
  ultimately have "drop_bit 31 g = (if unat g < 2 ^ 31 then 0 else 1)" by (simp add: word_unat_eq_iff split: if_splits)
  then show ?thesis by simp
qed

lemma select_eq:
  fixes h0 h1 h2 h3 h4 :: u32
  defines "y1 \<equiv> h1 + drop_bit 26 (h0 + 5)"
  defines "y2 \<equiv> h2 + drop_bit 26 y1"
  defines "y3 \<equiv> h3 + drop_bit 26 y2"
  defines "y4 \<equiv> h4 + drop_bit 26 y3"
  assumes "unat y4 \<le> 2 ^ 26"
  shows "poly1305_select (h0, h1, h2, h3, h4) = (if unat y4 = 2 ^ 26
    then ((h0 + 5) AND 0x3ffffff, y1 AND 0x3ffffff, y2 AND 0x3ffffff, y3 AND 0x3ffffff, 0) else (h0, h1, h2, h3, h4))"
proof -
  have p: "push_bit 26 1 = (0x4000000 :: u32)" by simp
  have g4: "unat (y4 - push_bit 26 1) < 2 ^ 31 \<longleftrightarrow> unat y4 = 2 ^ 26"
    using assms(5) unfolding p by (auto simp: unat_sub_if_size word_size)
  have z: "unat y4 = 2 ^ 26 \<Longrightarrow> y4 - push_bit 26 1 = 0"
    unfolding p by (simp add: word_unat_eq_iff unat_sub_if_size word_size)
  show ?thesis
    unfolding poly1305_select_def prod.case Let_def y1_def [symmetric] y2_def [symmetric] y3_def [symmetric] y4_def [symmetric]
      top_bit_mask g4
    using z by (cases "unat y4 = 2 ^ 26") simp_all
qed

lemma trial_carries:
  fixes x0 :: nat
  assumes "x0 < 2 ^ 26" "x1 < 2 ^ 26" "x2 < 2 ^ 26" "x3 < 2 ^ 26" "x4 < 2 ^ 26"
    and y: "y0 = x0 + 5" "y1 = x1 + y0 div 2 ^ 26" "y2 = x2 + y1 div 2 ^ 26" "y3 = x3 + y2 div 2 ^ 26" "y4 = x4 + y3 div 2 ^ 26"
  shows "y4 \<le> 2 ^ 26"
    "limbs (y0 mod 2 ^ 26) (y1 mod 2 ^ 26) (y2 mod 2 ^ 26) (y3 mod 2 ^ 26) y4 = limbs x0 x1 x2 x3 x4 + 5"
proof -
  have c: "n div 2 ^ 26 \<le> 1" if "n < 2 ^ 26 + 5" for n :: nat
    using that div_le_mono [of n "2 ^ 26 + 4" "2 ^ 26"] by simp
  have "y0 div 2 ^ 26 \<le> 1" using assms(1) y(1) by (intro c) simp
  then have "y1 div 2 ^ 26 \<le> 1" using assms(2) y(2) by (intro c) linarith
  then have "y2 div 2 ^ 26 \<le> 1" using assms(3) y(3) by (intro c) linarith
  then have "y3 div 2 ^ 26 \<le> 1" using assms(4) y(4) by (intro c) linarith
  then show "y4 \<le> 2 ^ 26" using assms(5) y(5) by linarith
  have d: "n = n mod 2 ^ 26 + 67108864 * (n div 2 ^ 26)" for n :: nat
    using mod_mult_div_eq [of n 67108864] by simp
  have lin: "limbs m0 m1 m2 m3 (x4 + d3) = limbs x0 x1 x2 x3 x4 + 5"
    if "x0 + 5 = m0 + 67108864 * d0" "x1 + d0 = m1 + 67108864 * d1" "x2 + d1 = m2 + 67108864 * d2" "x3 + d2 = m3 + 67108864 * d3"
    for m0 m1 m2 m3 d0 d1 d2 d3 :: nat
    using that by simp
  show "limbs (y0 mod 2 ^ 26) (y1 mod 2 ^ 26) (y2 mod 2 ^ 26) (y3 mod 2 ^ 26) y4 = limbs x0 x1 x2 x3 x4 + 5"
    unfolding y(5)
    by (rule lin [OF d [of y0, unfolded y(1)] _ _ _, folded y(1)]) (use d [of y1] d [of y2] d [of y3] y in \<open>simp_all only:\<close>)
qed

lemma limbs_less:
  fixes x0 :: nat
  assumes "x0 < 2 ^ 26" "x1 < 2 ^ 26" "x2 < 2 ^ 26" "x3 < 2 ^ 26"
  shows "limbs x0 x1 x2 x3 x4 < 2 ^ 104 * (x4 + 1)"
  using assms by simp

lemma select_canonical:
  assumes "canonical h"
  shows "canonical (poly1305_select h) \<and> tuple_value (poly1305_select h) = tuple_value h mod poly_p"
proof -
  obtain h0 h1 h2 h3 h4 where h: "h = (h0, h1, h2, h3, h4)" by (cases h) auto
  define y1 where "y1 = h1 + drop_bit 26 (h0 + 5)"
  define y2 where "y2 = h2 + drop_bit 26 y1"
  define y3 where "y3 = h3 + drop_bit 26 y2"
  define y4 where "y4 = h4 + drop_bit 26 y3"
  have b: "unat h0 < 2 ^ 26" "unat h1 < 2 ^ 26" "unat h2 < 2 ^ 26" "unat h3 < 2 ^ 26" "unat h4 < 2 ^ 26"
    using assms by (simp_all add: canonical_def h)
  have y0: "unat (h0 + 5) = unat h0 + 5" using b(1) by (subst unat_add_u32) simp_all
  have y: "unat y1 = unat h1 + unat (h0 + 5) div 2 ^ 26" "unat y2 = unat h2 + unat y1 div 2 ^ 26"
    "unat y3 = unat h3 + unat y2 div 2 ^ 26" "unat y4 = unat h4 + unat y3 div 2 ^ 26"
    unfolding y1_def y2_def y3_def y4_def using b by (simp_all only: unat_carry_add)
  note t = trial_carries [OF b y0 y]
  note s = select_eq [of h4 h3 h2 h1 h0, folded y1_def, folded y2_def, folded y3_def, folded y4_def, OF t(1)]
  show ?thesis
  proof (cases "unat y4 = 2 ^ 26")
    case True
    have "limbs (unat (h0 + 5) mod 2 ^ 26) (unat y1 mod 2 ^ 26) (unat y2 mod 2 ^ 26) (unat y3 mod 2 ^ 26) 0 + 2 ^ 130
        = tuple_value h + 5"
      using t(2) unfolding True by (simp add: tuple_value_def h)
    moreover have "limbs (unat (h0 + 5) mod 2 ^ 26) (unat y1 mod 2 ^ 26) (unat y2 mod 2 ^ 26) (unat y3 mod 2 ^ 26) 0 < 2 ^ 104 * (0 + 1)"
      by (rule limbs_less) simp_all
    moreover have red: "n = v mod poly_p" if "n + 2 ^ 130 = v + 5" "n < 2 ^ 104 * (0 + 1)" for n v :: nat
    proof -
      have "v = n + poly_p * 1" using that(1) by simp
      moreover have "n < poly_p" using that(2) by simp
      ultimately show ?thesis by (metis mod_less mod_mult_self2)
    qed
    ultimately have "limbs (unat (h0 + 5) mod 2 ^ 26) (unat y1 mod 2 ^ 26) (unat y2 mod 2 ^ 26) (unat y3 mod 2 ^ 26) 0
        = tuple_value h mod poly_p" by blast
    then show ?thesis
      unfolding h s using True by (simp only: canonical_def tuple_value_def prod.case unat_and_26 if_True unsigned_0) simp
  next
    case False
    then have "unat y4 + 1 \<le> 2 ^ 26" using t(1) by simp
    have "tuple_value h + 5 < 2 ^ 104 * (unat y4 + 1)"
      unfolding tuple_value_def h prod.case t(2) [symmetric] by (rule limbs_less) simp_all
    also have "\<dots> \<le> 2 ^ 104 * 2 ^ 26" using \<open>unat y4 + 1 \<le> 2 ^ 26\<close> by (intro mult_le_mono) simp_all
    finally have "tuple_value h < poly_p" by simp
    then have "tuple_value h mod poly_p = tuple_value h" by (rule mod_less)
    then show ?thesis using assms False s by (simp add: h)
  qed
qed

lemma select_overfull:
  assumes "overfull h"
  shows "poly1305_select h = h"
proof -
  obtain h0 h1 where h: "h = (h0, h1, 0, 0, 0)" and b: "2 ^ 26 \<le> unat h0" "unat h0 < 2 ^ 26 + 5" "unat h1 < 41"
    using assms by (cases h) (auto simp: overfull_def)
  have y0: "unat (h0 + 5) = unat h0 + 5" using b by (subst unat_add_u32) simp_all
  have "unat (h0 + 5) div 2 ^ 26 = 1" using b unfolding y0 by (intro div_nat_eqI) simp_all
  then have "unat (h1 + drop_bit 26 (h0 + 5)) = unat h1 + 1" using b by (subst unat_carry_add) simp_all
  then have "drop_bit 26 (h1 + drop_bit 26 (h0 + 5)) = 0" using b by (simp add: word_unat_eq_iff unat_drop_bit)
  then show ?thesis using select_eq [of 0 0 0 h1 h0] unfolding h by simp
qed

section \<open>The words of the result\<close>

lemma le_bytes_append: "le_bytes (m + n) v = le_bytes m v @ le_bytes n (v div 256 ^ m)"
  by (induction m arbitrary: v) (simp_all add: le_bytes_Suc div_mult2_eq)

lemma le_bytes_mod: "le_bytes n (v mod 256 ^ n) = le_bytes n v"
proof (induction n arbitrary: v)
  case (Suc n)
  have "v mod 256 ^ Suc n div 256 = v div 256 mod 256 ^ n" by (simp add: mod_mult2_eq)
  moreover have "of_nat (v mod 256 ^ Suc n) = (of_nat v :: u8)"
    by (simp add: word_unat_eq_iff unat_of_nat take_bit_eq_mod mod_mod_cancel)
  ultimately show ?case by (simp only: le_bytes_Suc Suc.IH)
qed simp

lemma le_bytes_16: "le_bytes 16 v = le_bytes 4 v @ le_bytes 4 (v div 2 ^ 32) @ le_bytes 4 (v div 2 ^ 64) @ le_bytes 4 (v div 2 ^ 96)"
proof -
  have "le_bytes 16 v = le_bytes (4 + (4 + (4 + 4))) v" by simp
  then show ?thesis unfolding le_bytes_append by (simp flip: div_mult2_eq)
qed

lemma words_sum:
  fixes w0 :: nat
  assumes "w0 < 2 ^ 32" "w1 < 2 ^ 32" "w2 < 2 ^ 32" "w3 < 2 ^ 32" "k0 < 2 ^ 32" "k1 < 2 ^ 32" "k2 < 2 ^ 32" "k3 < 2 ^ 32"
    and f: "f0 = w0 + k0" "f1 = w1 + k1 + f0 div 2 ^ 32" "f2 = w2 + k2 + f1 div 2 ^ 32" "f3 = w3 + k3 + f2 div 2 ^ 32"
  defines "V \<equiv> (w0 + 2 ^ 32 * w1 + 2 ^ 64 * w2 + 2 ^ 96 * w3) + (k0 + 2 ^ 32 * k1 + 2 ^ 64 * k2 + 2 ^ 96 * k3)"
  shows "le_bytes 4 f0 @ le_bytes 4 f1 @ le_bytes 4 f2 @ le_bytes 4 f3 = le_bytes 16 V"
proof -
  have sq: "(a + 2 ^ 32 * b) div 2 ^ 32 = b + a div 2 ^ 32" for a b :: nat by simp
  have "V div 2 ^ 32 = (f0 + 2 ^ 32 * ((w1 + k1) + 2 ^ 32 * (w2 + k2) + 2 ^ 64 * (w3 + k3))) div 2 ^ 32"
    by (simp add: V_def f(1))
  then have q1: "V div 2 ^ 32 = f1 + 2 ^ 32 * ((w2 + k2) + 2 ^ 32 * (w3 + k3))"
    unfolding sq by (simp add: f(2))
  have "V div 2 ^ 64 = V div 2 ^ 32 div 2 ^ 32" by (simp flip: div_mult2_eq)
  then have q2: "V div 2 ^ 64 = f2 + 2 ^ 32 * (w3 + k3)"
    unfolding q1 sq by (simp add: f(3))
  have "V div 2 ^ 96 = V div 2 ^ 64 div 2 ^ 32" by (simp flip: div_mult2_eq)
  then have q3: "V div 2 ^ 96 = f3" unfolding q2 sq by (simp add: f(4))
  have lo: "le_bytes 4 (a + 2 ^ 32 * b) = le_bytes 4 a" for a b :: nat
    using le_bytes_mod [of 4 "a + 2 ^ 32 * b"] le_bytes_mod [of 4 a] by simp
  have "V = f0 + 2 ^ 32 * ((w1 + k1) + 2 ^ 32 * (w2 + k2) + 2 ^ 64 * (w3 + k3))" by (simp add: V_def f(1))
  then have "le_bytes 4 V = le_bytes 4 f0" by (simp only: lo)
  then show ?thesis unfolding le_bytes_16 q1 q2 q3 by (simp only: lo)
qed

text \<open>The packing adds the key to the four words the limbs make up.\<close>

lemma pack_words:
  fixes h0 h1 h2 h3 h4 :: u32
  assumes "length key = 16"
    and w: "unat (h0 OR push_bit 26 h1) = w0" "unat (drop_bit 6 h1 OR push_bit 20 h2) = w1"
      "unat (drop_bit 12 h2 OR push_bit 14 h3) = w2" "unat (drop_bit 18 h3 OR push_bit 8 h4) = w3"
  shows "poly1305_pack (h0, h1, h2, h3, h4) key
    = le_bytes 16 ((w0 + 2 ^ 32 * w1 + 2 ^ 64 * w2 + 2 ^ 96 * w3) + le_num key)"
proof -
  define k0 where "k0 = unat (U8TO32_LE 0 key)"
  define k1 where "k1 = unat (U8TO32_LE 4 key)"
  define k2 where "k2 = unat (U8TO32_LE 8 key)"
  define k3 where "k3 = unat (U8TO32_LE 12 key)"
  have k: "k0 < 2 ^ 32" "k1 < 2 ^ 32" "k2 < 2 ^ 32" "k3 < 2 ^ 32" by (simp_all only: k0_def k1_def k2_def k3_def unat_u32_lt)
  have wl: "w0 < 2 ^ 32" "w1 < 2 ^ 32" "w2 < 2 ^ 32" "w3 < 2 ^ 32" by (simp_all only: w [symmetric] unat_u32_lt)
  have n: "le_num key = k0 + 2 ^ 32 * k1 + 2 ^ 64 * k2 + 2 ^ 96 * k3"
    using block_words_num [of key] assms(1) by (simp add: k0_def k1_def k2_def k3_def)
  have add: "unat (ucast (a :: u32) + ucast (b :: u32) :: u64) = unat a + unat b" for a b
    using unat_u32_lt [of a] unat_u32_lt [of b] by (subst unat_add_u64) simp_all
  have add': "unat (ucast (a :: u32) + ucast (b :: u32) + drop_bit 32 (f :: u64)) = unat a + unat b + unat f div 2 ^ 32" for a b f
  proof -
    have "unat f < 2 ^ 64" using unat_u64_bound [of f] by simp
    then have "unat f div 2 ^ 32 < 2 ^ 32" by (simp add: less_mult_imp_div_less)
    moreover have "x + y + z < 2 ^ 64" if "x < 2 ^ 32" "y < 2 ^ 32" "z < 2 ^ 32" for x y z :: nat using that by simp
    ultimately have "unat a + unat b + unat f div 2 ^ 32 < 2 ^ 64" by (simp only: unat_u32_lt)
    then show ?thesis by (subst unat_add_u64) (simp_all only: add unat_drop_bit)
  qed
  have lo: "U32TO8_LE (ucast (f :: u64)) = le_bytes 4 (unat f)" for f
    using le_bytes_mod [of 4 "unat f"] by (simp add: U32TO8_LE_def unat_ucast_u32)
  show ?thesis
    unfolding poly1305_pack_def prod.case Let_def lo n
    by (rule words_sum [OF wl k]) (simp_all only: add add' w k0_def k1_def k2_def k3_def)
qed

lemma unat_or_push: "unat (a :: u32) < 2 ^ k \<Longrightarrow> k \<le> 32 \<Longrightarrow> unat (a OR push_bit k b) = unat a + 2 ^ k * (unat b mod 2 ^ (32 - k))"
proof -
  assume a: "unat a < 2 ^ k" and k: "k \<le> 32"
  have "a AND push_bit k b = 0"
  proof (rule bit_word_eqI)
    fix n
    have "\<not> bit a n" if "k \<le> n"
    proof -
      have "take_bit k (unat a) = unat a" using a by (simp add: take_bit_nat_eq_self)
      then have "\<not> bit (unat a) n" using that by (metis bit_take_bit_iff not_le)
      then show ?thesis by (simp add: bit_unsigned_iff)
    qed
    then show "bit (a AND push_bit k b) n \<longleftrightarrow> bit (0 :: u32) n" by (auto simp: bit_simps)
  qed
  then have "a OR push_bit k b = a + push_bit k b" by (simp add: disjunctive_add_eq_or)
  moreover have p: "unat (push_bit k b) = 2 ^ k * (unat b mod 2 ^ (32 - k))"
  proof -
    have "unat (push_bit k b) = 2 ^ k * unat b mod 2 ^ 32"
      unfolding unsigned_push_bit_eq by (simp add: take_bit_eq_mod push_bit_eq_mult mult.commute)
    also have "(2 :: nat) ^ 32 = 2 ^ k * 2 ^ (32 - k)" using k by (simp flip: power_add)
    finally show ?thesis by (simp only: mult_mod_right)
  qed
  moreover have "unat a + 2 ^ k * (unat b mod 2 ^ (32 - k)) < 2 ^ 32"
  proof -
    have "unat b mod 2 ^ (32 - k) + 1 \<le> 2 ^ (32 - k)" by (simp add: Suc_leI)
    then have "2 ^ k * (unat b mod 2 ^ (32 - k) + 1) \<le> 2 ^ k * 2 ^ (32 - k)" by (rule mult_le_mono2)
    also have "2 ^ k * 2 ^ (32 - k) = (2 :: nat) ^ 32" using k by (simp flip: power_add)
    finally show ?thesis using a by (simp add: distrib_left)
  qed
  ultimately show ?thesis by (simp only: unat_add_u32 p)
qed

lemma limbs_as_words:
  fixes x0 :: nat
  shows "(x0 + 2 ^ 26 * (x1 mod 2 ^ 6)) + 2 ^ 32 * (x1 div 2 ^ 6 + 2 ^ 20 * (x2 mod 2 ^ 12))
      + 2 ^ 64 * (x2 div 2 ^ 12 + 2 ^ 14 * (x3 mod 2 ^ 18)) + 2 ^ 96 * (x3 div 2 ^ 18 + 2 ^ 8 * (x4 mod 2 ^ 24))
      + 2 ^ 128 * (x4 div 2 ^ 24) = limbs x0 x1 x2 x3 x4"
proof -
  have d: "x1 = 64 * (x1 div 2 ^ 6) + x1 mod 2 ^ 6" "x2 = 4096 * (x2 div 2 ^ 12) + x2 mod 2 ^ 12"
    "x3 = 262144 * (x3 div 2 ^ 18) + x3 mod 2 ^ 18" "x4 = 16777216 * (x4 div 2 ^ 24) + x4 mod 2 ^ 24"
    using mult_div_mod_eq [of 64 x1] mult_div_mod_eq [of 4096 x2] mult_div_mod_eq [of 262144 x3] mult_div_mod_eq [of 16777216 x4]
    by simp_all
  have lin: "(x0 + 2 ^ 26 * m1) + 2 ^ 32 * (d1 + 2 ^ 20 * m2) + 2 ^ 64 * (d2 + 2 ^ 14 * m3) + 2 ^ 96 * (d3 + 2 ^ 8 * m4) + 2 ^ 128 * d4
      = limbs x0 x1 x2 x3 x4"
    if "x1 = 64 * d1 + m1" "x2 = 4096 * d2 + m2" "x3 = 262144 * d3 + m3" "x4 = 16777216 * d4 + m4" for d1 d2 d3 d4 m1 m2 m3 m4 :: nat
    using that by simp
  show ?thesis by (rule lin [OF d])
qed

lemma le_bytes_16_cong: "a + 2 ^ 128 * d = b \<Longrightarrow> le_bytes 16 (a + s) = le_bytes 16 ((b + s) mod 2 ^ 128)"
proof -
  assume "a + 2 ^ 128 * d = b"
  then have "b + s = a + s + 2 ^ 128 * d" by simp
  then have "(b + s) mod 2 ^ 128 = (a + s) mod 2 ^ 128" by (simp only: mod_mult_self2)
  then show ?thesis using le_bytes_mod [of 16 "a + s"] by (simp flip: power_mult)
qed

lemma pack_canonical:
  assumes "canonical h" "length key = 16"
  shows "poly1305_pack h key = le_bytes 16 ((tuple_value h + le_num key) mod 2 ^ 128)"
proof -
  obtain h0 h1 h2 h3 h4 where h: "h = (h0, h1, h2, h3, h4)" by (cases h) auto
  have b: "unat h0 < 2 ^ 26" "unat h1 < 2 ^ 26" "unat h2 < 2 ^ 26" "unat h3 < 2 ^ 26"
    using assms(1) by (simp_all add: canonical_def h)
  have w: "unat (h0 OR push_bit 26 h1) = unat h0 + 2 ^ 26 * (unat h1 mod 2 ^ 6)"
    "unat (drop_bit 6 h1 OR push_bit 20 h2) = unat h1 div 2 ^ 6 + 2 ^ 20 * (unat h2 mod 2 ^ 12)"
    "unat (drop_bit 12 h2 OR push_bit 14 h3) = unat h2 div 2 ^ 12 + 2 ^ 14 * (unat h3 mod 2 ^ 18)"
    "unat (drop_bit 18 h3 OR push_bit 8 h4) = unat h3 div 2 ^ 18 + 2 ^ 8 * (unat h4 mod 2 ^ 24)"
    using unat_or_push [of h0 26 h1] unat_or_push [of "drop_bit 6 h1" 20 h2] unat_or_push [of "drop_bit 12 h2" 14 h3]
      unat_or_push [of "drop_bit 18 h3" 8 h4] b by (simp_all add: unat_drop_bit less_mult_imp_div_less)
  show ?thesis
    unfolding h pack_words [OF assms(2) w] tuple_value_def prod.case
    by (rule le_bytes_16_cong [OF limbs_as_words])
qed

text \<open>Ored into the odd second limb, the carry that is left over in the lowest limb is lost.\<close>

lemma pack_overfull:
  assumes "overfull h" "length key = 16"
  shows "poly1305_pack h key = le_bytes 16 (((if odd (tuple_value h div 2 ^ 26) then tuple_value h
    else tuple_value h - 2 ^ 26) + le_num key) mod 2 ^ 128)"
proof -
  obtain h0 h1 where h: "h = (h0, h1, 0, 0, 0)" and b: "2 ^ 26 \<le> unat h0" "unat h0 < 2 ^ 26 + 5" "unat h1 < 41"
    using assms(1) by (cases h) (auto simp: overfull_def)
  define e :: u32 where "e = h0 - 0x4000000"
  have e: "unat e = unat h0 - 2 ^ 26" "unat e < 5" using b by (simp_all add: e_def unat_sub word_le_nat_alt)
  have p: "push_bit 26 1 = (0x4000000 :: u32)" by simp
  have "h0 = e + push_bit 26 1" by (simp add: e_def)
  also have "\<dots> = e OR push_bit 26 1"
    using unat_or_push [of e 26 1] e unfolding p by (simp add: word_unat_eq_iff unat_word_ariths)
  finally have "h0 OR push_bit 26 h1 = e OR push_bit 26 (1 OR h1)" by (simp only: or.assoc push_bit_or)
  moreover have odd: "unat (1 OR h1) = unat h1 + (if even (unat h1) then 1 else 0)"
    unfolding unsigned_or_eq by (simp only: unsigned_1 one_or_eq of_bool_def)
  moreover have six: "drop_bit 6 x = (0 :: u32)" if "unat x < 64" for x
    using that by (simp add: word_unat_eq_iff unat_drop_bit)
  ultimately have same: "poly1305_pack h key = poly1305_pack (e, 1 OR h1, 0, 0, 0) key"
    using b by (simp add: h poly1305_pack_def Let_def split: if_splits)
  have can: "canonical (e, 1 OR h1, 0, 0, 0)" using e b odd by (simp add: canonical_def split: if_splits)
  have tv: "tuple_value h div 2 ^ 26 = unat h1 + 1"
  proof -
    have "tuple_value h = (unat h1 + 1) * 2 ^ 26 + unat e" using e b by (simp add: tuple_value_def h)
    then show ?thesis using e by simp
  qed
  have "tuple_value (e, 1 OR h1, 0, 0, 0) = (if odd (tuple_value h div 2 ^ 26) then tuple_value h else tuple_value h - 2 ^ 26)"
    unfolding tv using e b odd by (simp add: tuple_value_def h split: if_splits)
  then show ?thesis unfolding same pack_canonical [OF can assms(2)] by simp
qed

lemma overfull_value:
  assumes "overfull h"
  shows "tuple_value h < poly_p" "tuple_value h mod 2 ^ 26 < 5" "1 \<le> tuple_value h div 2 ^ 26" "tuple_value h div 2 ^ 26 \<le> 41"
proof -
  obtain h0 h1 where h: "h = (h0, h1, 0, 0, 0)" and b: "2 ^ 26 \<le> unat h0" "unat h0 < 2 ^ 26 + 5" "unat h1 < 41"
    using assms by (cases h) (auto simp: overfull_def)
  obtain e where e: "unat h0 = 2 ^ 26 + e" "e < 5" using b by (metis le_iff_add nat_add_left_cancel_less)
  have v: "tuple_value h = e + 2 ^ 26 * (unat h1 + 1)" using e by (simp add: tuple_value_def h)
  then show "tuple_value h < poly_p" using b e by simp
  have "tuple_value h mod 2 ^ 26 = e" using e(2) unfolding v mod_mult_self2 by simp
  moreover have "tuple_value h div 2 ^ 26 = unat h1 + 1"
    unfolding v by (subst div_mult_self2) (use e(2) in simp_all)
  ultimately show "tuple_value h mod 2 ^ 26 < 5" "1 \<le> tuple_value h div 2 ^ 26" "tuple_value h div 2 ^ 26 \<le> 41"
    using b e by simp_all
qed

section \<open>The authenticator\<close>

text \<open>The accumulated values whose last carry is lost if it was still pending.\<close>

definition lossy :: "nat \<Rightarrow> bool" where
  "lossy a \<longleftrightarrow> a mod 2 ^ 26 < 5 \<and> even (a div 2 ^ 26) \<and> 2 \<le> a div 2 ^ 26 \<and> a div 2 ^ 26 \<le> 40"

lemma finish_value:
  assumes "h_carried st" "length (st_key st) = 16"
  defines "a \<equiv> h_value st mod poly_p"
  defines "mac \<equiv> poly1305_pack (poly1305_select (poly1305_carry st)) (st_key st)"
  shows "mac = le_bytes 16 ((a + le_num (st_key st)) mod 2 ^ 128)
    \<or> lossy a \<and> mac = le_bytes 16 ((a - 2 ^ 26 + le_num (st_key st)) mod 2 ^ 128)"
proof -
  let ?h = "poly1305_carry st"
  note c = poly1305_carry_correct [OF assms(1), folded a_def]
  show ?thesis
  proof (cases "canonical ?h")
    case True
    note s = select_canonical [OF True]
    show ?thesis using pack_canonical [OF conjunct1 [OF s] assms(2)] s c by (simp only: mac_def simp_thms)
  next
    case False
    then have o: "overfull ?h" using c by blast
    note v = overfull_value [OF o]
    have "tuple_value ?h = a" using c mod_less [OF v(1)] by simp
    note v = v [unfolded this] and p = pack_overfull [OF o assms(2), unfolded this]
    show ?thesis
    proof (cases "odd (a div 2 ^ 26)")
      case True
      then show ?thesis using p by (simp only: mac_def select_overfull [OF o] if_True simp_thms)
    next
      case False
      moreover have "2 \<le> n \<and> n \<le> 40" if "\<not> odd n" "1 \<le> n" "n \<le> 41" for n :: nat using that by presburger
      ultimately have "2 \<le> a div 2 ^ 26" "a div 2 ^ 26 \<le> 40" using v(3,4) by blast+
      then show ?thesis using p False v(2) by (simp only: mac_def select_overfull [OF o] lossy_def simp_thms if_False)
    qed
  qed
qed

lemma CRYPTO_poly1305_finish_rep:
  assumes "poly_rep key st msg" "length key = 32"
  defines "a \<equiv> poly_acc (poly_clamp key) 0 msg"
  shows "CRYPTO_poly1305_finish st = poly_mac key msg \<or> lossy a
    \<and> CRYPTO_poly1305_finish st = le_bytes 16 ((a - 2 ^ 26 + le_num (take 16 (drop 16 key))) mod 2 ^ 128)"
proof -
  define k where "k = length msg div 16 * 16"
  define st' where "st' = (if st_buf_used st \<noteq> 0 then poly1305_update st (take (st_buf_used st) (st_buf st)) else st)"
  have s: "r_ok st" "h_carried st" "r_value st = poly_clamp key" "st_key st = take 16 (drop 16 key)"
    "st_buf_used st = length msg mod 16" "take (length msg mod 16) (st_buf st) = drop k msg"
    "h_value st mod poly_p = poly_acc (poly_clamp key) 0 (take k msg)"
    using assms(1) by (simp_all add: poly_rep_def k_def)
  have kl: "k \<le> length msg" by (simp add: k_def)
  then have "length (take k msg) = k" by simp
  then have "length (take k msg) mod 16 = 0" by (simp add: k_def)
  from poly_acc_append [OF this, of "poly_clamp key" 0 "drop k msg"]
  have a: "a = poly_acc (poly_clamp key) (poly_acc (poly_clamp key) 0 (take k msg)) (drop k msg)" by (simp add: a_def)
  have "h_carried st' \<and> st_key st' = take 16 (drop 16 key) \<and> h_value st' mod poly_p = a"
  proof (cases "st_buf_used st = 0")
    case True
    then have "k = length msg" using s(5) div_mult_mod_eq [of "length msg" 16] by (simp add: k_def)
    then show ?thesis using True s by (simp add: st'_def a_def)
  next
    case False
    then have "st' = poly1305_update st (drop k msg)" by (simp add: st'_def s)
    then show ?thesis using poly1305_update_correct [OF s(1,2), of "drop k msg"] s by (simp add: a)
  qed
  moreover have "length (take 16 (drop 16 key)) = 16" using assms(2) by simp
  ultimately have "let mac = poly1305_pack (poly1305_select (poly1305_carry st')) (st_key st') in
    mac = le_bytes 16 ((a + le_num (take 16 (drop 16 key))) mod 2 ^ 128)
    \<or> lossy a \<and> mac = le_bytes 16 ((a - 2 ^ 26 + le_num (take 16 (drop 16 key))) mod 2 ^ 128)"
    using finish_value [of st'] by (simp only: Let_def)
  then show ?thesis
    by (simp only: CRYPTO_poly1305_finish_def Let_def st'_def [symmetric] poly_mac_def a_def [symmetric])
qed

lemma poly_rep_fold: "poly_rep key st xs \<Longrightarrow> poly_rep key (fold CRYPTO_poly1305_update chunks st) (xs @ concat chunks)"
proof (induction chunks arbitrary: st xs)
  case (Cons c cs)
  then show ?case using Cons.IH [OF CRYPTO_poly1305_update_rep [OF Cons.prems(1), of c]] by simp
qed simp

definition lossy_key :: bytes where
  "lossy_key = [0xfc, 0x1f, 0x40, 0x7c, 0xb1, 0x2a, 0x83, 0x94, 0xc4, 0x6d, 0x16, 0x41, 0x85, 0xa2, 0xa3, 0x5f] @ replicate 16 0"

definition lossy_msg :: bytes where
  "lossy_msg = [0xbb, 0x9a, 0x36, 0x97, 0xa3, 0xc1, 0x1f, 0x48, 0xd3, 0x55, 0x76, 0x20, 0x74, 0x9a, 0x77, 0xc7]"

definition fresh_state :: poly1305_st where
  "fresh_state = \<lparr>st_r0 = 0, st_r1 = 0, st_r2 = 0, st_r3 = 0, st_r4 = 0, st_s1 = 0, st_s2 = 0, st_s3 = 0, st_s4 = 0,
     st_h0 = 0, st_h1 = 0, st_h2 = 0, st_h3 = 0, st_h4 = 0, st_buf = replicate 16 0, st_buf_used = 0, st_key = []\<rparr>"

lemma lossy_acc: "poly_acc (poly_clamp lossy_key) 0 lossy_msg = 2 ^ 27"
proof -
  have "poly_clamp lossy_key = 0xfa3a28401166dc404832ab00c401ffc"
    by (simp add: poly_clamp_def lossy_key_def le_num_def)
  moreover have "le_num (take 16 lossy_msg @ [1]) = 605419754099894759530544487536266746555"
    by (simp add: lossy_msg_def le_num_def)
  moreover have "lossy_msg \<noteq> []" "drop 16 lossy_msg = []" by (simp_all add: lossy_msg_def)
  ultimately show ?thesis by (simp add: poly_acc_step del: append_Cons)
qed

lemma lossy_key_length: "length lossy_key = 32"
  by (simp add: lossy_key_def)

lemma lossy_run: "CRYPTO_poly1305_finish (fold CRYPTO_poly1305_update [lossy_msg] (CRYPTO_poly1305_init fresh_state lossy_key))
    = [0, 0, 0, 4, 0, 0, 0, 0, 0, 0, 0, 0, 0, 0, 0, 0]"
proof -
  have words: "U8TO32_LE 0 lossy_key = 0x7c401ffc" "U8TO32_LE 4 lossy_key = 0x94832ab1" "U8TO32_LE 8 lossy_key = 0x41166dc4"
    "U8TO32_LE 12 lossy_key = 0x5fa3a285" "U8TO32_LE 0 lossy_msg = 0x97369abb" "U8TO32_LE 4 lossy_msg = 0x481fc1a3"
    "U8TO32_LE 8 lossy_msg = 0x207655d3" "U8TO32_LE 12 lossy_msg = 0xc7779a74"
    by (simp_all add: U8TO32_LE_def lossy_key_def lossy_msg_def)
  have key: "take 16 (drop 16 lossy_key) = replicate 16 0" by (simp add: lossy_key_def)
  define st where "st = CRYPTO_poly1305_init fresh_state lossy_key"
  have st: "st = fresh_state\<lparr>st_r0 := 4202492, st_r1 := 13282307, st_r2 := 47988808, st_r3 := 34604121, st_r4 := 1024930,
      st_s1 := 66411535, st_s2 := 239944040, st_s3 := 173020605, st_s4 := 5124650, st_key := replicate 16 0\<rparr>"
    by (simp add: st_def CRYPTO_poly1305_init_def words key Let_def fresh_state_def)
  have add: "poly1305_add True lossy_msg st = st\<lparr>st_h0 := 53910203, st_h1 := 66087141, st_h2 := 22885505, st_h3 := 30441945, st_h4 := 29849498\<rparr>"
    by (simp add: st poly1305_add_def words Let_def fresh_state_def)
  have mul: "poly1305_mul (poly1305_add True lossy_msg st)
      = st\<lparr>st_h0 := 335544315, st_h1 := 67108861, st_h2 := 67108863, st_h3 := 67108863, st_h4 := 67108863\<rparr>"
    unfolding add by (simp add: st poly1305_mul_def mul32x32_64_def Let_def fresh_state_def)
  have carry: "poly1305_carry (poly1305_mul (poly1305_add True lossy_msg st)) = (67108864, 1, 0, 0, 0)"
    unfolding mul by (simp add: st poly1305_carry_def Let_def fresh_state_def)
  have sel: "poly1305_select (67108864, 1, 0, 0, 0) = (67108864, 1, 0, 0, 0)"
    by (rule select_overfull) (simp add: overfull_def)
  have pack: "poly1305_pack (67108864, 1, 0, 0, 0) (replicate 16 0) = [0, 0, 0, 4, 0, 0, 0, 0, 0, 0, 0, 0, 0, 0, 0, 0]"
  proof -
    have "U8TO32_LE n (replicate 16 0) = 0" for n by (simp add: word_unat_eq_iff unat_U8TO32_LE)
    then show ?thesis by (simp add: poly1305_pack_def Let_def U32TO8_LE_def le_bytes_4)
  qed
  have "length lossy_msg = 16" by (simp add: lossy_msg_def)
  then have upd: "CRYPTO_poly1305_update lossy_msg st = poly1305_mul (poly1305_add True lossy_msg st)"
    by (simp add: CRYPTO_poly1305_update_def poly1305_fill_def poly1305_blocks_def poly1305_keep_def poly1305_update.simps
        st fresh_state_def)
  show ?thesis
    using upd carry sel pack
    by (simp add: CRYPTO_poly1305_finish_def st_def [symmetric]) (simp add: mul st fresh_state_def)
qed
text \<open>(C37) CRYPTO_poly1305_init, CRYPTO_poly1305_update (however the message is cut into calls) and
  CRYPTO_poly1305_finish compute the RFC 8439 authenticator, with every 32-bit and 64-bit sum in
  range, with one exception: an accumulator that is \<open>lossy\<close>, which holds of a hundred numbers below
  \<open>2 ^ 32\<close>, may be taken for one that is \<open>2 ^ 26\<close> smaller, because the carry that the last addition to
  \<open>h0\<close> produces is not passed on. The witness evaluates a message for which it is.\<close>

theorem poly1305_correct:
  assumes "length key = 32" "length (st_buf st) = 16"
  shows "CRYPTO_poly1305_finish (fold CRYPTO_poly1305_update chunks (CRYPTO_poly1305_init st key)) = poly_mac key (concat chunks)
    \<or> (let a = poly_acc (poly_clamp key) 0 (concat chunks)
       in lossy a \<and> CRYPTO_poly1305_finish (fold CRYPTO_poly1305_update chunks (CRYPTO_poly1305_init st key))
           = le_bytes 16 ((a - 2 ^ 26 + le_num (take 16 (drop 16 key))) mod 2 ^ 128))"
  using CRYPTO_poly1305_finish_rep [OF _ assms(1)] poly_rep_fold [OF poly_rep_init [OF assms], of chunks]
  by (simp only: Let_def append_Nil)

lemma poly1305_correct_witness:
  "length lossy_key = 32 \<and> length (st_buf fresh_state) = 16
    \<and> CRYPTO_poly1305_finish (fold CRYPTO_poly1305_update [lossy_msg] (CRYPTO_poly1305_init fresh_state lossy_key))
       = le_bytes 16 (2 ^ 26)
    \<and> poly_mac lossy_key (concat [lossy_msg]) = le_bytes 16 (2 ^ 27) \<and> le_bytes 16 (2 ^ 26) \<noteq> le_bytes 16 (2 ^ 27)"
proof -
  have s: "take 16 (drop 16 lossy_key) = replicate 16 0" by (simp add: lossy_key_def)
  have f: "length (st_buf fresh_state) = 16" by (simp add: fresh_state_def)
  have m: "poly_mac lossy_key (concat [lossy_msg]) = le_bytes 16 (2 ^ 27)"
    by (simp add: poly_mac_def lossy_acc s)
  have l: "le_bytes 16 (2 ^ 27) = [0, 0, 0, 8, 0, 0, 0, 0, 0, 0, 0, 0, 0, 0, 0, 0]"
    by (simp add: le_bytes_16 le_bytes_4)
  have ne: "CRYPTO_poly1305_finish (fold CRYPTO_poly1305_update [lossy_msg] (CRYPTO_poly1305_init fresh_state lossy_key))
      \<noteq> poly_mac lossy_key (concat [lossy_msg])"
    unfolding lossy_run m l by simp
  have "CRYPTO_poly1305_finish (fold CRYPTO_poly1305_update [lossy_msg] (CRYPTO_poly1305_init fresh_state lossy_key))
      = le_bytes 16 (2 ^ 26)"
    using poly1305_correct [OF lossy_key_length f, of "[lossy_msg]"] ne by (simp add: lossy_acc s)
  then show ?thesis using ne m lossy_key_length f by simp
qed

end
