(* ===== verification/Nanopb.thy ===== *)
theory Nanopb
  imports Memory
begin

unbundle bit_operations_syntax

text \<open>
  The wire format layer of nanopb (nanopb/pb_decode.c, nanopb/pb_encode.c), the protocol buffer
  library with which the Firestore client serialises: input and output streams, variable-length
  and fixed integers, tags, skipping of unknown fields, length-delimited substreams, and the coders
  of single scalar, bytes and string fields.

  Streams are memory buffers: the input callback is \<open>buf_read\<close> and \<open>is_state\<close> is the memory from the
  read pointer on, which may be longer than the stream's \<open>bytes_left\<close>. An output stream either
  only counts (its callback is NULL) or appends to what it has written. The build flags are the ones
  of the pod: 32-bit field sizes, error messages, 64-bit integers and dynamic allocation.
\<close>

section \<open>Streams\<close>

record pb_istream =
  is_state :: bytes
  is_bytes_left :: nat
  is_errmsg :: "string option"

record pb_ostream =
  os_callback :: bool
  os_state :: bytes
  os_max_size :: u64
  os_bytes_written :: u64
  os_errmsg :: "string option"

text \<open>\<open>PB_RETURN_ERROR\<close> keeps the first message.\<close>

definition pb_set_error :: "string \<Rightarrow> string option \<Rightarrow> string option" where
  "pb_set_error msg e = (case e of None \<Rightarrow> Some msg | Some m \<Rightarrow> Some m)"

definition is_error :: "string \<Rightarrow> (pb_istream, 'a) opn" where
  "is_error msg = (\<lambda>s. (None, s\<lparr>is_errmsg := pb_set_error msg (is_errmsg s)\<rparr>))"

definition os_error :: "string \<Rightarrow> (pb_ostream, 'a) opn" where
  "os_error msg = (\<lambda>s. (None, s\<lparr>os_errmsg := pb_set_error msg (os_errmsg s)\<rparr>))"

definition buf_read :: "nat \<Rightarrow> (pb_istream, bytes) opn" where
  "buf_read n = (\<lambda>s. (Some (take n (is_state s)), s\<lparr>is_state := drop n (is_state s)\<rparr>))"

definition pb_read :: "nat \<Rightarrow> (pb_istream, bytes) opn" where
  "pb_read n = (\<lambda>s.
     if n = 0 then (Some [], s)
     else if is_bytes_left s < n then is_error ''end-of-stream'' s
     else case buf_read n s of
       (None, s) \<Rightarrow> is_error ''io error'' s
     | (Some buf, s) \<Rightarrow> (Some buf, s\<lparr>is_bytes_left := is_bytes_left s - n\<rparr>))"

definition pb_readbyte :: "(pb_istream, u8) opn" where
  "pb_readbyte = (\<lambda>s.
     if is_bytes_left s = 0 then is_error ''end-of-stream'' s
     else case buf_read 1 s of
       (None, s) \<Rightarrow> is_error ''io error'' s
     | (Some buf, s) \<Rightarrow> (Some (buf ! 0), s\<lparr>is_bytes_left := is_bytes_left s - 1\<rparr>))"

definition pb_istream_from_buffer :: "bytes \<Rightarrow> nat \<Rightarrow> pb_istream" where
  "pb_istream_from_buffer buf bufsize = \<lparr>is_state = buf, is_bytes_left = bufsize, is_errmsg = None\<rparr>"

definition pb_ostream_from_buffer :: "u64 \<Rightarrow> pb_ostream" where
  "pb_ostream_from_buffer bufsize =
     \<lparr>os_callback = True, os_state = [], os_max_size = bufsize, os_bytes_written = 0, os_errmsg = None\<rparr>"

definition pb_write :: "bytes \<Rightarrow> (pb_ostream, unit) opn" where
  "pb_write buf = (\<lambda>s. let n = of_nat (length buf) in
     if n > 0 \<and> os_callback s then
       if os_bytes_written s + n < os_bytes_written s \<or> os_bytes_written s + n > os_max_size s
       then os_error ''stream full'' s
       else (Some (), s\<lparr>os_state := os_state s @ buf, os_bytes_written := os_bytes_written s + n\<rparr>)
     else (Some (), s\<lparr>os_bytes_written := os_bytes_written s + n\<rparr>))"

section \<open>Decoding integers\<close>

text \<open>
  \<open>uint_fast8_t\<close> is eight bits wide on the platforms of the pod, so \<open>bitpos\<close> wraps at 256. A loop ends
  because each turn takes a byte from the stream.
\<close>

lemma pb_readbyte_Some:
  "pb_readbyte s = (Some b, s') \<Longrightarrow> is_bytes_left s' < is_bytes_left s"
  by (auto simp: pb_readbyte_def buf_read_def is_error_def split: if_splits)

function varint32_loop :: "nat \<Rightarrow> u32 \<Rightarrow> (pb_istream, nat \<times> u8 \<times> u32) opn" where
  "varint32_loop bitpos result s =
     (case pb_readbyte s of
        (None, s') \<Rightarrow> (None, s')
      | (Some byte, s') \<Rightarrow>
          let sign_extension = (if bitpos < 63 then 0xFF else 0x01 :: u8) in
          if bitpos \<ge> 32 \<and> byte AND 0x7F \<noteq> 0 \<and> (drop_bit 31 result = 0 \<or> byte \<noteq> sign_extension)
          then is_error ''varint overflow'' s'
          else let result = (if bitpos \<ge> 32 then result else result OR push_bit bitpos (ucast (byte AND 0x7F)));
                   bitpos = (bitpos + 7) mod 256
            in if byte AND 0x80 \<noteq> 0 then varint32_loop bitpos result s'
               else (Some (bitpos, byte, result), s'))"
  by pat_completeness auto
termination
  by (relation "measure (\<lambda>(_, _, s). is_bytes_left s)") (auto dest: pb_readbyte_Some [OF sym])

text \<open>The second component of the result is the \<open>eof\<close> flag, set when the first byte is missing.\<close>

definition pb_decode_varint32_eof :: "pb_istream \<Rightarrow> (u32 option \<times> bool) \<times> pb_istream" where
  "pb_decode_varint32_eof s =
     (case pb_readbyte s of
        (None, s') \<Rightarrow> ((None, is_bytes_left s' = 0), s')
      | (Some byte, s') \<Rightarrow>
          if byte AND 0x80 = 0 then ((Some (ucast byte), False), s')
          else case varint32_loop 7 (ucast (byte AND 0x7F)) s' of
              (None, s'') \<Rightarrow> ((None, False), s'')
            | (Some (bitpos, byte, result), s'') \<Rightarrow>
                if bitpos = 35 \<and> byte AND 0x70 \<noteq> 0
                then let (r, s''') = is_error ''varint overflow'' s'' in ((r, False), s''')
                else ((Some result, False), s''))"

definition pb_decode_varint32 :: "(pb_istream, u32) opn" where
  "pb_decode_varint32 s = (case pb_decode_varint32_eof s of ((r, _), s') \<Rightarrow> (r, s'))"

function varint_loop :: "nat \<Rightarrow> u64 \<Rightarrow> (pb_istream, u64) opn" where
  "varint_loop bitpos result s =
     (if bitpos \<ge> 64 then is_error ''varint overflow'' s
      else case pb_readbyte s of
        (None, s') \<Rightarrow> (None, s')
      | (Some byte, s') \<Rightarrow>
          let result = result OR push_bit bitpos (ucast (byte AND 0x7F));
              bitpos = (bitpos + 7) mod 256
          in if byte AND 0x80 \<noteq> 0 then varint_loop bitpos result s' else (Some result, s'))"
  by pat_completeness auto
termination
  by (relation "measure (\<lambda>(_, _, s). is_bytes_left s)") (auto dest: pb_readbyte_Some [OF sym])

definition pb_decode_varint :: "(pb_istream, u64) opn" where
  "pb_decode_varint = varint_loop 0 0"

lemma pb_read_Some:
  "pb_read n s = (Some bs, s') \<Longrightarrow> 0 < n \<Longrightarrow> is_bytes_left s' < is_bytes_left s"
  by (auto simp: pb_read_def buf_read_def is_error_def split: if_splits)

function pb_skip_varint :: "(pb_istream, unit) opn" where
  "pb_skip_varint s =
     (case pb_read 1 s of
        (None, s') \<Rightarrow> (None, s')
      | (Some buf, s') \<Rightarrow> if (buf ! 0) AND 0x80 \<noteq> 0 then pb_skip_varint s' else (Some (), s'))"
  by pat_completeness auto
termination
  by (relation "measure is_bytes_left") (auto dest: pb_read_Some [OF sym])

definition pb_skip_string :: "(pb_istream, unit) opn" where
  "pb_skip_string = op_bind pb_decode_varint32 (\<lambda>len. op_map (\<lambda>_. ()) (pb_read (unat len)))"

text \<open>Wire types are the numbers of the format; a tag may carry any of the eight.\<close>

abbreviation (input) PB_WT_VARINT :: nat where "PB_WT_VARINT \<equiv> 0"
abbreviation (input) PB_WT_64BIT :: nat where "PB_WT_64BIT \<equiv> 1"
abbreviation (input) PB_WT_STRING :: nat where "PB_WT_STRING \<equiv> 2"
abbreviation (input) PB_WT_32BIT :: nat where "PB_WT_32BIT \<equiv> 5"

definition pb_decode_tag :: "pb_istream \<Rightarrow> ((nat \<times> u32) option \<times> bool) \<times> pb_istream" where
  "pb_decode_tag s =
     (case pb_decode_varint32_eof s of
        ((None, eof), s') \<Rightarrow> ((None, eof), s')
      | ((Some temp, eof), s') \<Rightarrow>
          if temp = 0 then ((None, True), s')
          else ((Some (unat (temp AND 7), drop_bit 3 temp), eof), s'))"

definition pb_skip_field :: "nat \<Rightarrow> (pb_istream, unit) opn" where
  "pb_skip_field wire_type =
     (if wire_type = PB_WT_VARINT then pb_skip_varint
      else if wire_type = PB_WT_64BIT then op_map (\<lambda>_. ()) (pb_read 8)
      else if wire_type = PB_WT_STRING then pb_skip_string
      else if wire_type = PB_WT_32BIT then op_map (\<lambda>_. ()) (pb_read 4)
      else is_error ''invalid wire_type'')"

text \<open>\<open>read_raw_value\<close> copies a value for a callback; \<open>max_size\<close> is the room in the callback's buffer.\<close>

function raw_varint_loop :: "nat \<Rightarrow> bytes \<Rightarrow> (pb_istream, bytes) opn" where
  "raw_varint_loop max_size buf s =
     (if length buf + 1 > max_size then (None, s)
      else case pb_read 1 s of
        (None, s') \<Rightarrow> (None, s')
      | (Some b, s') \<Rightarrow>
          if (b ! 0) AND 0x80 \<noteq> 0 then raw_varint_loop max_size (buf @ b) s' else (Some (buf @ b), s'))"
  by pat_completeness auto
termination
  by (relation "measure (\<lambda>(_, _, s). is_bytes_left s)") (auto dest: pb_read_Some [OF sym])

definition read_raw_value :: "nat \<Rightarrow> nat \<Rightarrow> (pb_istream, bytes) opn" where
  "read_raw_value wire_type max_size =
     (if wire_type = PB_WT_VARINT then raw_varint_loop max_size []
      else if wire_type = PB_WT_64BIT then pb_read 8
      else if wire_type = PB_WT_32BIT then pb_read 4
      else is_error ''invalid wire_type'')"

text \<open>The substream shares the memory; the parent's count is reduced at once, its pointer on closing.\<close>

definition pb_make_string_substream :: "(pb_istream, pb_istream) opn" where
  "pb_make_string_substream = op_bind pb_decode_varint32 (\<lambda>sz s.
     if is_bytes_left s < unat sz then is_error ''parent stream too short'' s
     else (Some (s\<lparr>is_bytes_left := unat sz\<rparr>), s\<lparr>is_bytes_left := is_bytes_left s - unat sz\<rparr>))"

definition pb_close_string_substream :: "pb_istream \<Rightarrow> (pb_istream, unit) opn" where
  "pb_close_string_substream substream = (\<lambda>s.
     let (r, substream) = (if is_bytes_left substream \<noteq> 0
                           then pb_read (is_bytes_left substream) substream
                           else (Some [], substream))
     in case r of None \<Rightarrow> (None, s)
        | Some _ \<Rightarrow> (Some (), s\<lparr>is_state := is_state substream, is_errmsg := is_errmsg substream\<rparr>))"

definition pb_decode_svarint :: "(pb_istream, u64) opn" where
  "pb_decode_svarint = op_map (\<lambda>v. if v AND 1 \<noteq> 0 then NOT (drop_bit 1 v) else drop_bit 1 v) pb_decode_varint"

definition pb_decode_fixed32 :: "(pb_istream, u32) opn" where
  "pb_decode_fixed32 = op_map (\<lambda>b. push_bit 0 (ucast (b ! 0)) OR push_bit 8 (ucast (b ! 1))
     OR push_bit 16 (ucast (b ! 2)) OR push_bit 24 (ucast (b ! 3))) (pb_read 4)"

definition pb_decode_fixed64 :: "(pb_istream, u64) opn" where
  "pb_decode_fixed64 = op_map (\<lambda>b. push_bit 0 (ucast (b ! 0)) OR push_bit 8 (ucast (b ! 1))
     OR push_bit 16 (ucast (b ! 2)) OR push_bit 24 (ucast (b ! 3)) OR push_bit 32 (ucast (b ! 4))
     OR push_bit 40 (ucast (b ! 5)) OR push_bit 48 (ucast (b ! 6)) OR push_bit 56 (ucast (b ! 7))) (pb_read 8)"

section \<open>Encoding integers\<close>

lemma drop_bit_7_less: "value \<noteq> 0 \<Longrightarrow> unat (drop_bit 7 value :: u64) < unat value"
  by (simp add: unat_drop_bit unat_gt_0)

function varint_bytes :: "u64 \<Rightarrow> bytes" where
  "varint_bytes value =
     (if value = 0 then [] else (ucast (value AND 0x7F) OR 0x80) # varint_bytes (drop_bit 7 value))"
  by pat_completeness auto
termination
  by (relation "measure unat") (auto simp: drop_bit_7_less)

text \<open>The buffer of ten bytes is enough for 64 bits in sevens.\<close>

definition pb_encode_varint :: "u64 \<Rightarrow> (pb_ostream, unit) opn" where
  "pb_encode_varint value =
     (if value \<le> 0x7F then pb_write [ucast value]
      else let buffer = varint_bytes value; i = length buffer
        in pb_write (buffer[i - 1 := (buffer ! (i - 1)) AND 0x7F]))"

definition pb_encode_svarint :: "u64 \<Rightarrow> (pb_ostream, unit) opn" where
  "pb_encode_svarint value =
     (let zigzagged = (if bit value 63 then NOT (push_bit 1 value) else push_bit 1 value)
      in pb_encode_varint zigzagged)"

definition pb_encode_fixed32 :: "u32 \<Rightarrow> (pb_ostream, unit) opn" where
  "pb_encode_fixed32 val = pb_write [ucast (val AND 0xFF), ucast (drop_bit 8 val AND 0xFF),
     ucast (drop_bit 16 val AND 0xFF), ucast (drop_bit 24 val AND 0xFF)]"

definition pb_encode_fixed64 :: "u64 \<Rightarrow> (pb_ostream, unit) opn" where
  "pb_encode_fixed64 val = pb_write [ucast (val AND 0xFF), ucast (drop_bit 8 val AND 0xFF),
     ucast (drop_bit 16 val AND 0xFF), ucast (drop_bit 24 val AND 0xFF), ucast (drop_bit 32 val AND 0xFF),
     ucast (drop_bit 40 val AND 0xFF), ucast (drop_bit 48 val AND 0xFF), ucast (drop_bit 56 val AND 0xFF)]"

definition pb_encode_tag :: "nat \<Rightarrow> u32 \<Rightarrow> (pb_ostream, unit) opn" where
  "pb_encode_tag wiretype field_number =
     pb_encode_varint (push_bit 3 (ucast field_number) OR of_nat wiretype)"

definition pb_encode_string :: "bytes \<Rightarrow> (pb_ostream, unit) opn" where
  "pb_encode_string buffer = op_seq (pb_encode_varint (of_nat (length buffer))) (pb_write buffer)"

section \<open>Fields\<close>

text \<open>
  A field descriptor. The type holds the logical type in its low four bits, the repetition in the
  next two and the allocation in its high two; the pointer leads to the descriptors of a submessage
  or to a default value, and the coders of a single scalar do not follow it.
\<close>

record pb_field =
  f_tag :: u32
  f_type :: u8
  f_data_offset :: u32
  f_size_offset :: "32 word"
  f_data_size :: u32
  f_array_size :: u32
  f_ptr :: nat

definition PB_LTYPE :: "u8 \<Rightarrow> nat" where
  "PB_LTYPE x = unat (x AND 0x0F)"

definition PB_ATYPE :: "u8 \<Rightarrow> u8" where
  "PB_ATYPE x = x AND 0xC0"

abbreviation (input) PB_ATYPE_STATIC :: u8 where "PB_ATYPE_STATIC \<equiv> 0x00"
abbreviation (input) PB_ATYPE_POINTER :: u8 where "PB_ATYPE_POINTER \<equiv> 0x80"

definition pb_encode_tag_for_field :: "pb_field \<Rightarrow> (pb_ostream, unit) opn" where
  "pb_encode_tag_for_field field =
     (let ltype = PB_LTYPE (f_type field) in
      if ltype \<in> {0, 1, 2, 3} then pb_encode_tag PB_WT_VARINT (f_tag field)
      else if ltype = 4 then pb_encode_tag PB_WT_32BIT (f_tag field)
      else if ltype = 5 then pb_encode_tag PB_WT_64BIT (f_tag field)
      else if ltype \<in> {6, 7, 8, 10} then pb_encode_tag PB_WT_STRING (f_tag field)
      else os_error ''invalid field type'')"

text \<open>
  A field's memory is its little-endian object representation. \<open>load_u\<close> and \<open>load_s\<close> read an unsigned
  or signed integer of that size into 64 bits, \<open>store\<close> writes the low bytes back.
\<close>

definition load_u :: "bytes \<Rightarrow> u64" where
  "load_u src = of_nat (be_nat (rev src))"

definition load_s :: "bytes \<Rightarrow> u64" where
  "load_s src = signed_take_bit (8 * length src - 1) (load_u src)"

definition store_int :: "nat \<Rightarrow> u64 \<Rightarrow> bytes" where
  "store_int n v = rev (nat_be n (unat v))"

definition int_size :: "pb_field \<Rightarrow> bool" where
  "int_size field \<longleftrightarrow> f_data_size field = 8 \<or> f_data_size field = 4 \<or> f_data_size field = 2 \<or> f_data_size field = 1"

definition safe_read_bool :: "bytes \<Rightarrow> bool" where
  "safe_read_bool p = list_ex (\<lambda>b. b \<noteq> 0) p"

definition pb_enc_bool :: "bytes \<Rightarrow> (pb_ostream, unit) opn" where
  "pb_enc_bool src = pb_encode_varint (if safe_read_bool (take 1 src) then 1 else 0)"

definition pb_enc_varint :: "pb_field \<Rightarrow> bytes \<Rightarrow> (pb_ostream, unit) opn" where
  "pb_enc_varint field src =
     (if int_size field then pb_encode_varint (load_s (take (unat (f_data_size field)) src))
      else os_error ''invalid data_size'')"

definition pb_enc_uvarint :: "pb_field \<Rightarrow> bytes \<Rightarrow> (pb_ostream, unit) opn" where
  "pb_enc_uvarint field src =
     (if int_size field then pb_encode_varint (load_u (take (unat (f_data_size field)) src))
      else os_error ''invalid data_size'')"

definition pb_enc_svarint :: "pb_field \<Rightarrow> bytes \<Rightarrow> (pb_ostream, unit) opn" where
  "pb_enc_svarint field src =
     (if int_size field then pb_encode_svarint (load_s (take (unat (f_data_size field)) src))
      else os_error ''invalid data_size'')"

definition pb_enc_fixed32 :: "bytes \<Rightarrow> (pb_ostream, unit) opn" where
  "pb_enc_fixed32 src = pb_encode_fixed32 (ucast (load_u (take 4 src)))"

definition pb_enc_fixed64 :: "bytes \<Rightarrow> (pb_ostream, unit) opn" where
  "pb_enc_fixed64 src = pb_encode_fixed64 (load_u (take 8 src))"

text \<open>A bytes array in memory is its 32-bit size and then its bytes; \<open>None\<close> is the null pointer.\<close>

definition PB_BYTES_ARRAY_T_ALLOCSIZE :: "nat \<Rightarrow> nat" where
  "PB_BYTES_ARRAY_T_ALLOCSIZE n = unat (of_nat n + 4 :: u64)"

definition pb_enc_bytes :: "pb_field \<Rightarrow> (u32 \<times> bytes) option \<Rightarrow> (pb_ostream, unit) opn" where
  "pb_enc_bytes field src =
     (case src of
        None \<Rightarrow> pb_encode_string []
      | Some (sz, bytes) \<Rightarrow>
          let allocsize = PB_BYTES_ARRAY_T_ALLOCSIZE (unat sz) in
          if allocsize < unat sz
             \<or> (PB_ATYPE (f_type field) = PB_ATYPE_STATIC \<and> allocsize > unat (f_data_size field))
          then os_error ''bytes size exceeded''
          else pb_encode_string (take (unat sz) bytes))"

fun pb_strnlen :: "nat \<Rightarrow> u64 \<Rightarrow> bytes \<Rightarrow> nat" where
  "pb_strnlen sz max_size (c # p) =
     (if of_nat sz < max_size \<and> c \<noteq> 0 then pb_strnlen (sz + 1) max_size p else sz)"
| "pb_strnlen sz max_size [] = sz"

definition pb_enc_string :: "pb_field \<Rightarrow> bytes option \<Rightarrow> (pb_ostream, unit) opn" where
  "pb_enc_string field src =
     (let max_size = (if PB_ATYPE (f_type field) = PB_ATYPE_POINTER then - 1 else ucast (f_data_size field))
      in case src of
           None \<Rightarrow> pb_encode_string []
         | Some p \<Rightarrow> pb_encode_string (take (pb_strnlen 0 max_size p) p))"

definition pb_enc_fixed_length_bytes :: "pb_field \<Rightarrow> bytes \<Rightarrow> (pb_ostream, unit) opn" where
  "pb_enc_fixed_length_bytes field src = pb_encode_string (take (unat (f_data_size field)) src)"

text \<open>The decoders return what they leave in the field's memory; on failure that is not defined.\<close>

definition pb_dec_bool :: "(pb_istream, bytes) opn" where
  "pb_dec_bool = op_map (\<lambda>v. [if v \<noteq> 0 then 1 else 0]) pb_decode_varint32"

definition pb_decode_bool :: "(pb_istream, bytes) opn" where
  "pb_decode_bool = pb_dec_bool"

text \<open>Casting to the field's signed or unsigned type and widening again.\<close>

definition clamp_s :: "pb_field \<Rightarrow> u64 \<Rightarrow> u64" where
  "clamp_s field v = signed_take_bit (8 * unat (f_data_size field) - 1) v"

definition clamp_u :: "pb_field \<Rightarrow> u64 \<Rightarrow> u64" where
  "clamp_u field v = take_bit (8 * unat (f_data_size field)) v"

definition pb_dec_varint :: "pb_field \<Rightarrow> (pb_istream, bytes) opn" where
  "pb_dec_varint field = op_bind pb_decode_varint (\<lambda>value.
     let svalue = (if f_data_size field = 8 then value else signed_take_bit 31 value) in
     if \<not> int_size field then is_error ''invalid data_size''
     else let clamped = clamp_s field svalue in
       if clamped \<noteq> svalue then is_error ''integer too large''
       else op_ret (store_int (unat (f_data_size field)) svalue))"

definition pb_dec_uvarint :: "pb_field \<Rightarrow> (pb_istream, bytes) opn" where
  "pb_dec_uvarint field = op_bind pb_decode_varint (\<lambda>value.
     if \<not> int_size field then is_error ''invalid data_size''
     else let clamped = clamp_u field value in
       if clamped \<noteq> value then is_error ''integer too large''
       else op_ret (store_int (unat (f_data_size field)) value))"

definition pb_dec_svarint :: "pb_field \<Rightarrow> (pb_istream, bytes) opn" where
  "pb_dec_svarint field = op_bind pb_decode_svarint (\<lambda>value.
     if \<not> int_size field then is_error ''invalid data_size''
     else let clamped = clamp_s field value in
       if clamped \<noteq> value then is_error ''integer too large''
       else op_ret (store_int (unat (f_data_size field)) value))"

definition pb_dec_fixed32 :: "(pb_istream, bytes) opn" where
  "pb_dec_fixed32 = op_map (\<lambda>v. store_int 4 (ucast v)) pb_decode_fixed32"

definition pb_dec_fixed64 :: "(pb_istream, bytes) opn" where
  "pb_dec_fixed64 = op_map (store_int 8) pb_decode_fixed64"

text \<open>\<open>alloc\<close> says whether \<open>pb_realloc\<close> can provide that many bytes for a pointer field.\<close>

definition allocate_field :: "(nat \<Rightarrow> bool) \<Rightarrow> nat \<Rightarrow> nat \<Rightarrow> (pb_istream, unit) opn" where
  "allocate_field alloc data_size array_size =
     (if data_size = 0 \<or> array_size = 0 then is_error ''invalid size''
      else let check_limit = 4294967296 in
        if (data_size \<ge> check_limit \<or> array_size \<ge> check_limit) \<and> unat ((- 1 :: u64) div of_nat array_size) < data_size
        then is_error ''size too large''
        else if \<not> alloc (unat (of_nat array_size * of_nat data_size :: u64)) then is_error ''realloc failed''
        else op_ret ())"

definition pb_dec_bytes :: "(nat \<Rightarrow> bool) \<Rightarrow> pb_field \<Rightarrow> (pb_istream, u32 \<times> bytes) opn" where
  "pb_dec_bytes alloc field = op_bind pb_decode_varint32 (\<lambda>sz s.
     let alloc_size = PB_BYTES_ARRAY_T_ALLOCSIZE (unat sz) in
     if unat sz > alloc_size then is_error ''size too large'' s
     else if PB_ATYPE (f_type field) = PB_ATYPE_POINTER then
       if is_bytes_left s < unat sz then is_error ''end-of-stream'' s
       else op_seq (allocate_field alloc alloc_size 1) (op_map (Pair sz) (pb_read (unat sz))) s
     else if alloc_size > unat (f_data_size field) then is_error ''bytes overflow'' s
     else op_map (Pair sz) (pb_read (unat sz)) s)"

text \<open>\<open>size + 1\<close> is computed in 32 bits.\<close>

definition pb_dec_string :: "(nat \<Rightarrow> bool) \<Rightarrow> pb_field \<Rightarrow> (pb_istream, bytes) opn" where
  "pb_dec_string alloc field = op_bind pb_decode_varint32 (\<lambda>sz s.
     let alloc_size = unat (sz + 1) in
     if alloc_size < unat sz then is_error ''size too large'' s
     else if PB_ATYPE (f_type field) = PB_ATYPE_POINTER then
       if is_bytes_left s < unat sz then is_error ''end-of-stream'' s
       else op_seq (allocate_field alloc alloc_size 1) (op_map (\<lambda>b. b @ [0]) (pb_read (unat sz))) s
     else if alloc_size > unat (f_data_size field) then is_error ''string overflow'' s
     else op_map (\<lambda>b. b @ [0]) (pb_read (unat sz)) s)"

definition pb_dec_fixed_length_bytes :: "pb_field \<Rightarrow> (pb_istream, bytes) opn" where
  "pb_dec_fixed_length_bytes field = op_bind pb_decode_varint32 (\<lambda>sz s.
     if sz = 0 then (Some (replicate (unat (f_data_size field)) 0), s)
     else if sz \<noteq> f_data_size field then is_error ''incorrect fixed length bytes size'' s
     else pb_read (unat (f_data_size field)) s)"

section \<open>Input streams as byte strings\<close>

text \<open>
  A stream with input \<open>xs\<close> left, memory \<open>junk\<close> behind it and error \<open>e\<close>. Every stream whose count
  does not exceed its memory has this form.
\<close>

definition istream :: "bytes \<Rightarrow> bytes \<Rightarrow> string option \<Rightarrow> pb_istream" where
  "istream xs junk e = \<lparr>is_state = xs @ junk, is_bytes_left = length xs, is_errmsg = e\<rparr>"

named_theorems istream_simps \<open>operations on streams written out\<close>

lemma istream_exhaust:
  assumes "is_bytes_left s \<le> length (is_state s)"
  obtains xs junk e where "s = istream xs junk e"
proof
  show "s = istream (take (is_bytes_left s) (is_state s)) (drop (is_bytes_left s) (is_state s)) (is_errmsg s)"
    using assms by (cases s) (simp add: istream_def)
qed

lemma istream_inject: "istream xs j e = istream ys j' e' \<longleftrightarrow> xs = ys \<and> j = j' \<and> e = e'"
  by (auto simp: istream_def)

lemma pb_istream_from_buffer_eq [istream_simps]: "pb_istream_from_buffer xs (length xs) = istream xs [] None"
  by (simp add: pb_istream_from_buffer_def istream_def)

lemma is_error_istream [istream_simps]: "is_error msg (istream xs j e) = (None, istream xs j (Some (case e of None \<Rightarrow> msg | Some m \<Rightarrow> m)))"
  by (simp add: is_error_def istream_def pb_set_error_def split: option.split)

lemma is_bytes_left_istream [simp]: "is_bytes_left (istream xs j e) = length xs"
  by (simp add: istream_def)

lemma pb_read_istream:
  "pb_read n (istream xs j e)
     = (if n \<le> length xs then (Some (take n xs), istream (drop n xs) j e) else is_error ''end-of-stream'' (istream xs j e))"
  by (auto simp: pb_read_def buf_read_def istream_def is_error_def)

lemma pb_read_istream_append [istream_simps]:
  "length bs = n \<Longrightarrow> pb_read n (istream (bs @ xs) j e) = (Some bs, istream xs j e)"
  by (simp add: pb_read_istream)

lemma pb_readbyte_Nil [istream_simps]: "pb_readbyte (istream [] j e) = is_error ''end-of-stream'' (istream [] j e)"
  by (simp add: pb_readbyte_def istream_def)

lemma pb_readbyte_Cons [istream_simps]: "pb_readbyte (istream (b # xs) j e) = (Some b, istream xs j e)"
  by (simp add: pb_readbyte_def buf_read_def istream_def)

section \<open>Variable-length integers\<close>

text \<open>Base 128, the low digit first; every octet but the last has its high bit set.\<close>

fun le128 :: "bytes \<Rightarrow> nat" where
  "le128 [] = 0"
| "le128 (b # bs) = unat b mod 128 + 128 * le128 bs"

fun varint :: "nat \<Rightarrow> bytes" where
  "varint n = (if n < 128 then [of_nat n] else of_nat (n mod 128 + 128) # varint (n div 128))"

declare varint.simps [simp del] varint32_loop.simps [simp del] varint_loop.simps [simp del]
  pb_skip_varint.simps [simp del] raw_varint_loop.simps [simp del] varint_bytes.simps [simp del]

abbreviation more :: "u8 \<Rightarrow> bool" where "more b \<equiv> 128 \<le> unat b"

definition is_varint :: "bytes \<Rightarrow> bool" where
  "is_varint bs \<longleftrightarrow> (\<exists>hs l. bs = hs @ [l] \<and> list_all more hs \<and> \<not> more l)"

lemma is_varint_Cons: "is_varint (b # bs) \<longleftrightarrow> (if more b then is_varint bs else bs = [])"
proof (cases "more b")
  case True
  have "is_varint (b # bs) \<longleftrightarrow> is_varint bs"
  proof
    assume "is_varint (b # bs)"
    then obtain hs l where *: "b # bs = hs @ [l]" "list_all more hs" "\<not> more l" by (auto simp: is_varint_def)
    with True show "is_varint bs" by (cases hs) (auto simp: is_varint_def)
  next
    assume "is_varint bs"
    then obtain hs l where "bs = hs @ [l]" "list_all more hs" "\<not> more l" by (auto simp: is_varint_def)
    with True show "is_varint (b # bs)" unfolding is_varint_def by (intro exI [of _ "b # hs"]) auto
  qed
  with True show ?thesis by simp
next
  case False
  have "is_varint (b # bs) \<longleftrightarrow> bs = []"
  proof
    assume "is_varint (b # bs)"
    then obtain hs l where *: "b # bs = hs @ [l]" "list_all more hs" by (auto simp: is_varint_def)
    with False show "bs = []" by (cases hs) auto
  next
    assume "bs = []"
    with False show "is_varint (b # bs)" by (auto simp: is_varint_def)
  qed
  with False show ?thesis by simp
qed

lemma is_varint_Nil [simp]: "\<not> is_varint []"
  by (simp add: is_varint_def)

lemma unat_septet: "unat (of_nat (n mod 128 + 128) :: u8) = n mod 128 + 128"
proof -
  have "n mod 128 < 128" by simp
  then have "n mod 128 + 128 < 256" by linarith
  then show ?thesis by (simp add: unat_of_nat del: of_nat_add)
qed

lemma is_varint_varint: "is_varint (varint n)"
proof (induction n rule: varint.induct)
  case (1 n)
  then show ?case
    by (subst varint.simps) (simp add: is_varint_Cons unat_septet unat_of_nat del: of_nat_add)
qed

lemma le128_varint: "le128 (varint n) = n"
proof (induction n rule: varint.induct)
  case (1 n)
  then show ?case
    by (subst varint.simps) (simp add: unat_septet unat_of_nat del: of_nat_add)
qed

lemma length_varint: "0 < k \<Longrightarrow> n < 128 ^ k \<Longrightarrow> length (varint n) \<le> k"
proof (induction k arbitrary: n)
  case (Suc k)
  show ?case
  proof (cases "n < 128")
    case False
    then have "0 < k" using Suc.prems by (cases k) auto
    moreover have "n div 128 < 128 ^ k" using Suc.prems by (simp add: div_less_iff_less_mult mult.commute)
    ultimately have "length (varint (n div 128)) \<le> k" by (rule Suc.IH)
    with False show ?thesis by (subst varint.simps) simp
  qed (simp add: varint.simps)
qed simp

lemma more_iff: "b AND 0x80 \<noteq> 0 \<longleftrightarrow> more b"
  using high_bit_iff [of b] by auto

lemma le128_bound: "le128 bs < 128 ^ length bs"
proof (induction bs)
  case (Cons b bs)
  have "unat b mod 128 + 128 * le128 bs < 128 * (le128 bs + 1)" by simp
  also have "\<dots> \<le> 128 * 128 ^ length bs" using Cons by (intro mult_le_mono2) simp
  finally show ?case by simp
qed simp

text \<open>Adding seven bits at \<open>bitpos\<close>.\<close>

lemma or_push_bit_septet:
  fixes result :: "'a::len word"
  assumes "unat result < 2 ^ p"
  shows "result OR push_bit p (ucast (b AND 0x7F :: u8)) = result + of_nat (2 ^ p * (unat b mod 128))"
proof -
  have "ucast (b AND 0x7F) = (of_nat (unat b mod 128) :: 'a word)"
    by (metis of_nat_unat unat_and_7f)
  moreover have "take_bit p result = result" by (rule take_bit_word_self) (rule assms)
  then have "push_bit p x OR result = push_bit p x + result" for x
    by (rule push_bit_or_add)
  ultimately show ?thesis
    by (simp add: or.commute add.commute push_bit_eq_mult)
qed

lemma varint_loop_correct:
  assumes "is_varint bs" "k + length bs \<le> 10" "unat result < 2 ^ (7 * k)"
  shows "varint_loop (7 * k) result (istream (bs @ rest) j e)
    = (Some (result + of_nat (2 ^ (7 * k) * le128 bs)), istream rest j e)"
  using assms
proof (induction bs arbitrary: k result)
  case (Cons b bs)
  have k: "7 * k < 64" using Cons.prems(2) by simp
  let ?r = "result + of_nat (2 ^ (7 * k) * (unat b mod 128)) :: u64"
  show ?case
  proof (cases "more b")
    case False
    with Cons.prems(1) have "bs = []" by (simp add: is_varint_Cons)
    with False k show ?thesis
      by (subst varint_loop.simps)
        (simp add: istream_simps more_iff or_push_bit_septet [OF Cons.prems(3)] Let_def)
  next
    case True
    with Cons.prems(1) have bs: "is_varint bs" by (simp add: is_varint_Cons)
    then have "bs \<noteq> []" by auto
    with Cons.prems(2) have k': "Suc k \<le> 9" "Suc k + length bs \<le> 10" by (cases bs; simp)+
    have "unat result + 2 ^ (7 * k) * (unat b mod 128) < 2 ^ (7 * k) * 128"
    proof -
      have "unat result + 2 ^ (7 * k) * (unat b mod 128) < 2 ^ (7 * k) * (unat b mod 128 + 1)"
        using Cons.prems(3) by simp
      also have "\<dots> \<le> 2 ^ (7 * k) * 128" by (intro mult_le_mono2) (simp add: Suc_le_eq)
      finally show ?thesis .
    qed
    then have lt: "unat result + 2 ^ (7 * k) * (unat b mod 128) < 2 ^ (7 * Suc k)"
      by (simp add: power_add)
    moreover have "(2::nat) ^ (7 * Suc k) \<le> 2 ^ 63" by (rule power_increasing) (use k' in simp_all)
    ultimately have "unat ?r = unat result + 2 ^ (7 * k) * (unat b mod 128)"
      by (simp add: unat_word_ariths unat_of_nat mod_simps del: of_nat_mult)
    with lt have r: "unat ?r < 2 ^ (7 * Suc k)" by simp
    have "varint_loop (7 * k) result (istream ((b # bs) @ rest) j e)
        = varint_loop (7 * Suc k) ?r (istream (bs @ rest) j e)"
      using True k by (subst varint_loop.simps)
        (simp add: istream_simps more_iff or_push_bit_septet [OF Cons.prems(3)] Let_def add.commute)
    also have "\<dots> = (Some (?r + of_nat (2 ^ (7 * Suc k) * le128 bs)), istream rest j e)"
      by (rule Cons.IH [OF bs k'(2) r])
    finally show ?thesis
      by (simp add: algebra_simps power_add)
  qed
qed simp

lemma varint_loop_overflow:
  assumes "list_all more hs" "k + length hs = 10"
  shows "varint_loop (7 * k) result (istream (hs @ rest) j e) = is_error ''varint overflow'' (istream rest j e)"
  using assms
proof (induction hs arbitrary: k result)
  case Nil
  then show ?case by (subst varint_loop.simps) simp
next
  case (Cons b hs)
  then show ?case
    using Cons.IH [of "Suc k"] by (subst varint_loop.simps) (simp add: istream_simps more_iff Let_def add.commute)
qed

lemma varint_loop_eof:
  assumes "list_all more hs" "k + length hs < 10"
  shows "varint_loop (7 * k) result (istream hs j e) = is_error ''end-of-stream'' (istream [] j e)"
  using assms
proof (induction hs arbitrary: k result)
  case Nil
  then show ?case by (subst varint_loop.simps) (simp add: istream_simps)
next
  case (Cons b hs)
  then show ?case
    using Cons.IH [of "Suc k"] by (subst varint_loop.simps) (simp add: istream_simps more_iff Let_def add.commute)
qed

lemma pb_decode_varint_is_varint [istream_simps]:
  "is_varint bs \<Longrightarrow> length bs \<le> 10 \<Longrightarrow> pb_decode_varint (istream (bs @ rest) j e) = (Some (of_nat (le128 bs)), istream rest j e)"
  using varint_loop_correct [of bs 0 0 rest j e] by (simp add: pb_decode_varint_def)

text \<open>(C28) The 64-bit varint decoder on any stream. With ten continuation octets in front it reports
  an overflow, having consumed them; when the stream ends inside a number, that; otherwise it
  yields the base-128 number of the octets up to the first without the continuation bit, modulo
  \<open>2 ^ 64\<close>, and leaves the stream behind them.\<close>

theorem pb_decode_varint_exact:
  "pb_decode_varint (istream xs j e) =
     (let n = length (takeWhile more xs) in
      if n \<ge> 10 then is_error ''varint overflow'' (istream (drop 10 xs) j e)
      else if n = length xs then is_error ''end-of-stream'' (istream [] j e)
      else (Some (of_nat (le128 (take (n + 1) xs))), istream (drop (n + 1) xs) j e))"
proof -
  define hs where "hs = takeWhile more xs"
  obtain r where xs: "xs = hs @ r" "r = [] \<or> \<not> more (hd r)"
    using hd_dropWhile [of more xs] by (metis hs_def takeWhile_dropWhile_id)
  have tw: "takeWhile more xs = hs" by (simp add: hs_def)
  have hs: "list_all more hs" by (auto simp: hs_def list_all_iff dest: set_takeWhileD)
  consider (over) "10 \<le> length hs" | (eof) "length hs < 10" "r = []" | (ok) "length hs < 10" "r \<noteq> []" by fastforce
  then show ?thesis
  proof cases
    case over
    have "list_all more (take 10 hs)" using hs by (auto simp: list_all_iff dest: in_set_takeD)
    with over have "pb_decode_varint (istream (take 10 hs @ drop 10 hs @ r) j e)
        = is_error ''varint overflow'' (istream (drop 10 hs @ r) j e)"
      using varint_loop_overflow [of "take 10 hs" 0] by (simp add: pb_decode_varint_def)
    moreover have "take 10 hs @ drop 10 hs @ r = xs" using xs(1) by (metis append_assoc append_take_drop_id)
    moreover have "drop 10 hs @ r = drop 10 xs" using over xs(1) by simp
    ultimately show ?thesis unfolding tw using over by (simp add: Let_def)
  next
    case eof
    then show ?thesis unfolding tw using varint_loop_eof [OF hs, of 0] xs(1)
      by (simp add: Let_def pb_decode_varint_def)
  next
    case ok
    then obtain l r' where r: "r = l # r'" "\<not> more l" using xs(2) by (cases r) auto
    have "is_varint (hs @ [l])" using hs r by (auto simp: is_varint_def)
    from pb_decode_varint_is_varint [OF this, of r'] ok(1) show ?thesis
      unfolding tw using xs(1) r by (simp add: Let_def)
  qed
qed

section \<open>Output streams and the contract of a wire type\<close>

definition os_fits :: "bytes \<Rightarrow> pb_ostream \<Rightarrow> bool" where
  "os_fits bs s \<longleftrightarrow> length bs < 2 ^ 64
     \<and> (bs = [] \<or> \<not> os_callback s \<or> unat (os_bytes_written s) + length bs \<le> unat (os_max_size s))"

definition os_put :: "bytes \<Rightarrow> pb_ostream \<Rightarrow> pb_ostream" where
  "os_put bs s = s\<lparr>os_state := os_state s @ (if os_callback s then bs else []),
     os_bytes_written := os_bytes_written s + of_nat (length bs)\<rparr>"

lemma pb_write_fits:
  assumes "os_fits bs s"
  shows "pb_write bs s = (Some (), os_put bs s)"
proof (cases "bs = [] \<or> \<not> os_callback s")
  case True
  then show ?thesis by (auto simp: pb_write_def os_put_def Let_def)
next
  case False
  with assms have le: "unat (os_bytes_written s) + length bs \<le> unat (os_max_size s)"
    by (simp add: os_fits_def)
  then have "unat (os_bytes_written s + of_nat (length bs)) = unat (os_bytes_written s) + length bs"
    using unat_u64_bound [of "os_max_size s"] by (simp add: unat_word_ariths unat_of_nat)
  moreover have "unat (of_nat (length bs) :: u64) = length bs"
    using assms by (simp add: os_fits_def unat_of_nat)
  ultimately show ?thesis using le False
    by (auto simp: pb_write_def os_put_def Let_def word_less_nat_alt)
qed

lemma pb_write_full:
  assumes "\<not> os_fits bs s" "length bs < 2 ^ 64" "os_bytes_written s \<le> os_max_size s"
  shows "pb_write bs s = os_error ''stream full'' s"
proof -
  have s: "os_callback s" "bs \<noteq> []" "unat (os_max_size s) < unat (os_bytes_written s) + length bs"
    using assms(1,2) by (auto simp: os_fits_def)
  define n :: u64 where "n = of_nat (length bs)"
  have n: "unat n = length bs" using assms(2) by (simp add: n_def unat_of_nat)
  have "os_bytes_written s + n < os_bytes_written s \<or> os_bytes_written s + n > os_max_size s"
  proof (cases "unat (os_bytes_written s) + unat n < 2 ^ 64")
    case True
    then have "unat (os_bytes_written s + n) = unat (os_bytes_written s) + unat n"
      by (simp add: unat_word_ariths)
    with s n show ?thesis by (simp add: word_less_nat_alt)
  next
    case False
    then have "unat (os_bytes_written s + n) = unat (os_bytes_written s) + unat n - 2 ^ 64"
      using unat_u64_bound [of n] unat_u64_bound [of "os_bytes_written s"]
      by (simp add: unat_word_ariths le_mod_geq)
    moreover have "unat (os_bytes_written s) + unat n - 2 ^ 64 < unat (os_bytes_written s)"
      using unat_u64_bound [of n] False by simp
    ultimately show ?thesis by (simp add: word_less_nat_alt)
  qed
  moreover have "n \<noteq> 0" using s(2) n by (metis length_0_conv unat_0)
  ultimately show ?thesis
    using s(1) by (simp add: pb_write_def Let_def word_neq_0_conv flip: n_def)
qed

lemma os_put_append: "os_put (xs @ ys) s = os_put ys (os_put xs s)"
  by (simp add: os_put_def)

lemma os_fits_append:
  assumes "os_fits (xs @ ys) s"
  shows "os_fits xs s" "os_fits ys (os_put xs s)"
proof -
  show "os_fits xs s" using assms by (auto simp: os_fits_def)
  have "unat (os_bytes_written s + of_nat (length xs)) = unat (os_bytes_written s) + length xs"
    if "unat (os_bytes_written s) + length (xs @ ys) \<le> unat (os_max_size s)"
    using that unat_u64_bound [of "os_max_size s"] by (simp add: unat_word_ariths unat_of_nat)
  then show "os_fits ys (os_put xs s)" using assms by (auto simp: os_fits_def os_put_def)
qed

text \<open>
  A wire type: what the encoder appends for a value, and the decoder reads off the front of any
  stream that starts with it.
\<close>

locale wire =
  fixes enc :: "'a \<Rightarrow> (pb_ostream, unit) opn"
    and dec :: "(pb_istream, 'a) opn"
    and repr :: "'a \<Rightarrow> bytes"
    and ok :: "'a \<Rightarrow> bool"
  assumes enc_put: "ok a \<Longrightarrow> os_fits (repr a) s \<Longrightarrow> enc a s = (Some (), os_put (repr a) s)"
    and dec_get: "ok a \<Longrightarrow> dec (istream (repr a @ rest) j e) = (Some a, istream rest j e)"
begin

lemma round_trip:
  assumes "ok a" "os_fits (repr a) s" "os_callback s"
  obtains s' where "enc a s = (Some (), s')" "os_state s' = os_state s @ repr a"
    and "dec (istream (repr a @ rest) j e) = (Some a, istream rest j e)"
  using assms enc_put [OF assms(1,2)] dec_get [OF assms(1)] by (simp add: os_put_def)

lemma enc_list:
  "list_all ok as \<Longrightarrow> os_fits (concat (map repr as)) s
    \<Longrightarrow> fold (\<lambda>a (r, s). case r of None \<Rightarrow> (None, s) | Some _ \<Rightarrow> enc a s) as (Some (), s)
      = (Some (), os_put (concat (map repr as)) s)"
proof (induction as arbitrary: s)
  case Nil
  then show ?case by (simp add: os_put_def)
next
  case (Cons a as)
  then show ?case
    using os_fits_append [of "repr a" "concat (map repr as)" s]
    by (simp add: enc_put os_put_append)
qed

end

lemma unat_ucast_u64_u8: "unat v < 256 \<Longrightarrow> unat (ucast (v :: u64) :: u8) = unat v"
  by (simp add: unsigned_ucast_eq take_bit_eq_mod)

lemma varint_bytes_masked:
  assumes "v \<noteq> 0"
  shows "varint_bytes v \<noteq> [] \<and> (varint_bytes v)[length (varint_bytes v) - 1 := varint_bytes v ! (length (varint_bytes v) - 1) AND 0x7F]
    = varint (unat v)"
  using assms
proof (induction v rule: varint_bytes.induct)
  case (1 v)
  have digit: "ucast (v AND 0x7F) = (of_nat (unat v mod 128) :: u8)"
    by (metis of_nat_unat unat_and_7f)
  have or80: "(x :: u8) OR 0x80 = x + 0x80" if "unat x < 128" for x
  proof -
    have "push_bit 7 1 OR x = push_bit 7 1 + x"
      by (rule push_bit_or_add, rule take_bit_word_self) (use that in simp)
    then show ?thesis by (simp add: or.commute add.commute)
  qed
  have d: "unat (of_nat (unat v mod 128) :: u8) = unat v mod 128"
    using mod_less_divisor [of 128 "unat v"] by (simp add: unat_of_nat)
  have low: "(of_nat (unat v mod 128) OR 0x80 :: u8) = of_nat (unat v mod 128 + 128)"
    by (subst or80) (simp_all add: d)
  have rec: "varint_bytes v = of_nat (unat v mod 128 + 128) # varint_bytes (drop_bit 7 v)"
    by (subst varint_bytes.simps) (simp add: "1.prems" digit low del: of_nat_add)
  show ?case
  proof (cases "unat v < 128")
    case True
    then have "drop_bit 7 v = 0" by (simp add: drop_bit_eq_0_iff)
    moreover have "(of_nat (unat v mod 128 + 128) AND 0x7F :: u8) = of_nat (unat v)"
      using True by (simp add: word_unat_eq_iff unat_and_7f unat_septet unat_of_nat unat_ucast_u64_u8 del: of_nat_add)
    ultimately show ?thesis
      using True by (simp add: rec varint_bytes.simps [of 0] varint.simps [of "unat v"])
  next
    case False
    then have nz: "drop_bit 7 v \<noteq> 0" by (simp add: drop_bit_eq_0_iff)
    then obtain b bs where bs: "varint_bytes (drop_bit 7 v) = b # bs" using "1.IH" [OF "1.prems"] by (cases "varint_bytes (drop_bit 7 v)") auto
    have d: "unat (drop_bit 7 v) = unat v div 128" by (simp add: unat_drop_bit)
    have "varint (unat v) = of_nat (unat v mod 128 + 128) # varint (unat v div 128)"
      using False by (simp add: varint.simps [of "unat v"] del: of_nat_add)
    with "1.IH" [OF "1.prems" nz] show ?thesis
      unfolding rec bs d by (simp del: of_nat_add)
  qed
qed

lemma pb_encode_varint_eq: "pb_encode_varint v = pb_write (varint (unat v))"
proof (cases "v \<le> 0x7F")
  case True
  then have "unat v < 128" by (simp add: word_le_nat_alt)
  then show ?thesis using True
    by (simp add: pb_encode_varint_def varint.simps [of "unat v"] word_unat_eq_iff unat_of_nat unat_ucast_u64_u8)
next
  case False
  then have "v \<noteq> 0" by auto
  with False varint_bytes_masked [OF this] show ?thesis by (simp add: pb_encode_varint_def Let_def)
qed

lemma length_varint_u64: "length (varint (unat (v :: u64))) \<le> 10"
  using unat_u64_bound [of v] by (intro length_varint) simp_all

interpretation varint_wire: wire pb_encode_varint pb_decode_varint "\<lambda>v :: u64. varint (unat v)" "\<lambda>_. True"
proof
  fix a :: u64 and s assume "os_fits (varint (unat a)) s"
  then show "pb_encode_varint a s = (Some (), os_put (varint (unat a)) s)"
    by (simp add: pb_encode_varint_eq pb_write_fits)
next
  fix a :: u64 and rest j e
  show "pb_decode_varint (istream (varint (unat a) @ rest) j e) = (Some a, istream rest j e)"
    by (simp add: pb_decode_varint_is_varint is_varint_varint length_varint_u64 le128_varint)
qed

definition zigzag :: "u64 \<Rightarrow> u64" where
  "zigzag value = (if bit value 63 then NOT (push_bit 1 value) else push_bit 1 value)"

lemma zigzag_inverse:
  "(if zigzag v AND 1 \<noteq> 0 then NOT (drop_bit 1 (zigzag v)) else drop_bit 1 (zigzag v)) = v"
proof -
  define z where "z = push_bit 1 v"
  have z: "bit z m \<longleftrightarrow> 1 \<le> m \<and> m < 64 \<and> bit v (m - 1)" for m
    unfolding z_def bit_push_bit_iff by auto
  have odd: "zigzag v AND 1 \<noteq> 0 \<longleftrightarrow> bit v 63"
    unfolding zigzag_def z_def [symmetric] by (simp add: and_one_eq mod_2_eq_odd bit_not_iff z flip: bit_0)
  have "bit (if bit v 63 then NOT (drop_bit 1 (zigzag v)) else drop_bit 1 (zigzag v)) n = bit v n" if "n < 64" for n
    using that unfolding zigzag_def z_def [symmetric]
    by (cases "n = 63") (auto simp: bit_not_iff bit_drop_bit_eq z dest: bit_imp_le_length)
  then show ?thesis unfolding odd by (intro bit_word_eqI) simp
qed

interpretation svarint_wire: wire pb_encode_svarint pb_decode_svarint "\<lambda>v. varint (unat (zigzag v))" "\<lambda>_. True"
proof
  fix a :: u64 and s assume "os_fits (varint (unat (zigzag a))) s"
  then show "pb_encode_svarint a s = (Some (), os_put (varint (unat (zigzag a))) s)"
    unfolding pb_encode_svarint_def Let_def zigzag_def [symmetric] by (simp add: varint_wire.enc_put)
next
  fix a :: u64 and rest j e
  show "pb_decode_svarint (istream (varint (unat (zigzag a)) @ rest) j e) = (Some a, istream rest j e)"
    using zigzag_inverse [of a] by (simp add: pb_decode_svarint_def op_map_def op_bind_def op_ret_def varint_wire.dec_get)
qed

section \<open>Fixed-size integers and tags\<close>

lemma load_u_le_bytes: "v < 256 ^ n \<Longrightarrow> load_u (le_bytes n v) = of_nat v"
  by (simp add: load_u_def le_bytes_def be_simps)

lemma of_nat_and_ff: "ucast (w AND 0xFF) = (of_nat (unat w) :: u8)" for w :: "'a::len word"
proof -
  have "unat (w AND 0xFF) = unat w mod 256" using unat_and_mask [of w 8] by simp
  then have "unat (ucast (w AND 0xFF) :: u8) = unat w mod 256"
    by (simp add: unsigned_ucast_eq take_bit_eq_mod)
  then show ?thesis by (simp add: word_unat_eq_iff unsigned_ucast_eq take_bit_eq_mod)
qed

lemma fixed32_bytes: "pb_encode_fixed32 v = pb_write (le_bytes 4 (unat v))"
  unfolding pb_encode_fixed32_def of_nat_and_ff unat_drop_bit le_bytes_4 by simp

lemma fixed64_bytes: "pb_encode_fixed64 v = pb_write (le_bytes 8 (unat v))"
  unfolding pb_encode_fixed64_def of_nat_and_ff unat_drop_bit le_bytes_8 le_bytes_4
  by (simp flip: div_mult2_eq)

lemma fixed32_value:
  "push_bit 0 (ucast b0) OR push_bit 8 (ucast b1) OR push_bit 16 (ucast b2) OR push_bit 24 (ucast b3)
    = (of_nat (be_nat [b3, b2, b1, b0]) :: u32)"
proof -
  have "push_bit 0 (ucast b0) OR push_bit 8 (ucast b1) OR push_bit 16 (ucast b2) OR push_bit 24 (ucast b3)
    = push_bit 8 (push_bit 8 (push_bit 8 (ucast b3) OR ucast b2) OR ucast b1) OR (ucast b0 :: u32)"
    unfolding push_bit_or push_bit_push_bit by (simp add: or.commute or.left_commute or.assoc)
  then show ?thesis unfolding shift8_or by (simp add: unsigned_ucast_eq)
qed

lemma fixed64_value:
  "push_bit 0 (ucast b0) OR push_bit 8 (ucast b1) OR push_bit 16 (ucast b2) OR push_bit 24 (ucast b3)
     OR push_bit 32 (ucast b4) OR push_bit 40 (ucast b5) OR push_bit 48 (ucast b6) OR push_bit 56 (ucast b7)
    = (of_nat (be_nat [b7, b6, b5, b4, b3, b2, b1, b0]) :: u64)"
proof -
  have "push_bit 0 (ucast b0) OR push_bit 8 (ucast b1) OR push_bit 16 (ucast b2) OR push_bit 24 (ucast b3)
     OR push_bit 32 (ucast b4) OR push_bit 40 (ucast b5) OR push_bit 48 (ucast b6) OR push_bit 56 (ucast b7)
    = push_bit 8 (push_bit 8 (push_bit 8 (push_bit 8 (push_bit 8 (push_bit 8 (push_bit 8 (ucast b7)
        OR ucast b6) OR ucast b5) OR ucast b4) OR ucast b3) OR ucast b2) OR ucast b1) OR (ucast b0 :: u64)"
    unfolding push_bit_or push_bit_push_bit by (simp add: or.commute or.left_commute or.assoc)
  then show ?thesis unfolding shift8_or by (simp add: unsigned_ucast_eq)
qed

lemma pb_decode_fixed32_istream [istream_simps]:
  assumes "length bs = 4"
  shows "pb_decode_fixed32 (istream (bs @ rest) j e) = (Some (of_nat (be_nat (rev bs))), istream rest j e)"
proof -
  from assms obtain a b c d where "bs = [a, b, c, d]"
    by (auto simp: length_Suc_conv numeral_eq_Suc)
  with fixed32_value [of a b c d] show ?thesis
    using pb_read_istream_append [of bs 4 rest j e]
    by (simp add: pb_decode_fixed32_def opn_defs)
qed

lemma pb_decode_fixed64_istream [istream_simps]:
  assumes "length bs = 8"
  shows "pb_decode_fixed64 (istream (bs @ rest) j e) = (Some (of_nat (be_nat (rev bs))), istream rest j e)"
proof -
  from assms obtain a b c d f g h i where "bs = [a, b, c, d, f, g, h, i]"
    by (auto simp: length_Suc_conv numeral_eq_Suc)
  with fixed64_value [of a b c d f g h i] show ?thesis
    using pb_read_istream_append [of bs 8 rest j e]
    by (simp add: pb_decode_fixed64_def opn_defs)
qed

interpretation fixed32_wire: wire pb_encode_fixed32 pb_decode_fixed32 "\<lambda>v. le_bytes 4 (unat v)" "\<lambda>_. True"
proof
  fix a rest j e
  show "pb_decode_fixed32 (istream (le_bytes 4 (unat a) @ rest) j e) = (Some a, istream rest j e)"
    using unat_u32_bound [of a] by (simp add: pb_decode_fixed32_istream be_nat_le_bytes)
qed (simp add: fixed32_bytes pb_write_fits)

interpretation fixed64_wire: wire pb_encode_fixed64 pb_decode_fixed64 "\<lambda>v. le_bytes 8 (unat v)" "\<lambda>_. True"
proof
  fix a rest j e
  show "pb_decode_fixed64 (istream (le_bytes 8 (unat a) @ rest) j e) = (Some a, istream rest j e)"
    using unat_u64_bound [of a] by (simp add: pb_decode_fixed64_istream be_nat_le_bytes)
qed (simp add: fixed64_bytes pb_write_fits)

lemma septet_bound:
  "a < 2 ^ p \<Longrightarrow> a + 2 ^ p * (n mod 128) < 2 ^ p * (128::nat)"
proof -
  assume "a < 2 ^ p"
  then have "a + 2 ^ p * (n mod 128) < 2 ^ p * (n mod 128 + 1)" by simp
  also have "\<dots> \<le> 2 ^ p * 128" by (intro mult_le_mono2) (simp add: Suc_le_eq)
  finally show ?thesis .
qed

section \<open>The 32-bit varint decoder\<close>

text \<open>Up to the fifth octet the loop keeps the exact sum, cut to 32 bits.\<close>

lemma varint32_loop_correct:
  assumes "is_varint bs" "0 < k" "k + length bs \<le> 5"
    and "unat result < 2 ^ (7 * k)"
  shows "varint32_loop (7 * k) result (istream (bs @ rest) j e)
    = (Some (7 * (k + length bs), last bs, result + of_nat (2 ^ (7 * k) * le128 bs)), istream rest j e)"
  using assms
proof (induction bs arbitrary: k result)
  case (Cons b bs)
  have k: "7 * k < 32" using Cons.prems(3) by simp
  let ?r = "result + of_nat (2 ^ (7 * k) * (unat b mod 128)) :: u32"
  show ?case
  proof (cases "more b")
    case False
    with Cons.prems(1) have "bs = []" by (simp add: is_varint_Cons)
    with False k show ?thesis
      by (subst varint32_loop.simps)
        (simp add: istream_simps more_iff or_push_bit_septet [OF Cons.prems(4)] Let_def)
  next
    case True
    with Cons.prems(1) have bs: "is_varint bs" by (simp add: is_varint_Cons)
    then have ne: "bs \<noteq> []" by auto
    with Cons.prems(3) have k': "Suc k \<le> 4" "Suc k + length bs \<le> 5" by (cases bs; simp)+
    have "unat result + 2 ^ (7 * k) * (unat b mod 128) < 2 ^ (7 * k) * 128"
      by (rule septet_bound) (rule Cons.prems(4))
    then have lt: "unat result + 2 ^ (7 * k) * (unat b mod 128) < 2 ^ (7 * Suc k)"
      by (simp add: power_add)
    moreover have "(2::nat) ^ (7 * Suc k) \<le> 2 ^ 28" by (rule power_increasing) (use k' in simp_all)
    ultimately have "unat ?r = unat result + 2 ^ (7 * k) * (unat b mod 128)"
      by (simp add: unat_word_ariths unat_of_nat mod_simps del: of_nat_mult)
    with lt have r: "unat ?r < 2 ^ (7 * Suc k)" by simp
    have "varint32_loop (7 * k) result (istream ((b # bs) @ rest) j e)
        = varint32_loop (7 * Suc k) ?r (istream (bs @ rest) j e)"
      using True k by (subst varint32_loop.simps)
        (simp add: istream_simps more_iff or_push_bit_septet [OF Cons.prems(4)] Let_def add.commute)
    also have "\<dots> = (Some (7 * (Suc k + length bs), last bs, ?r + of_nat (2 ^ (7 * Suc k) * le128 bs)), istream rest j e)"
      by (rule Cons.IH [OF bs _ k'(2) r]) simp
    finally show ?thesis
      using ne by (simp add: algebra_simps power_add)
  qed
qed simp

lemma le128_append: "le128 (xs @ ys) = le128 xs + 128 ^ length xs * le128 ys"
  by (induction xs) (simp_all add: algebra_simps)

text \<open>The last of five octets fits when only its low four bits are used.\<close>

lemma top_septet_iff:
  assumes "\<not> more b"
  shows "b AND 0x70 \<noteq> 0 \<longleftrightarrow> 16 \<le> unat b"
proof -
  have hi: "\<not> bit b 7" using assms by (simp add: bit_unat_iff)
  have "b AND 0x70 = 0 \<longleftrightarrow> drop_bit 4 b = 0"
  proof
    assume *: "b AND 0x70 = 0"
    have "\<not> bit (b AND 0x70) n" for n using * by simp
    from this [of 4] this [of 5] this [of 6] hi have "\<not> bit b 4" "\<not> bit b 5" "\<not> bit b 6" "\<not> bit b 7"
      by (simp_all add: bit_and_iff)
    then show "drop_bit 4 b = 0"
      by (intro word_eq_by_bits) (simp add: upt_conv_Cons bit_drop_bit_eq bit_u8_False)
  next
    assume *: "drop_bit 4 b = 0"
    have "\<not> bit (drop_bit 4 b) n" for n using * by simp
    from this [of 0] this [of 1] this [of 2] have "\<not> bit b 4" "\<not> bit b 5" "\<not> bit b 6"
      by (simp_all add: bit_drop_bit_eq flip: bit_0)
    then show "b AND 0x70 = 0"
      by (intro word_eq_by_bits) (simp add: upt_conv_Cons bit_and_iff numeral_eq_Suc)
  qed
  then show ?thesis by (auto simp: drop_bit_eq_0_iff)
qed

lemma pb_decode_varint32_eof_short:
  assumes "is_varint bs" "length bs \<le> 5"
  shows "pb_decode_varint32_eof (istream (bs @ rest) j e)
    = (if le128 bs < 2 ^ 32 then ((Some (of_nat (le128 bs)), False), istream rest j e)
       else ((None, False), snd (is_error ''varint overflow'' (istream rest j e) :: unit option \<times> pb_istream)))"
proof (cases bs)
  case (Cons b cs)
  show ?thesis
  proof (cases "more b")
    case False
    with assms(1) Cons have bs: "bs = [b]" by (simp add: is_varint_Cons)
    moreover have "(ucast b :: u32) = of_nat (unat b mod 128)"
      using False by (simp add: unsigned_ucast_eq)
    ultimately show ?thesis using False
      by (simp add: pb_decode_varint32_eof_def istream_simps more_iff)
  next
    case True
    with assms(1) Cons have cs: "is_varint cs" by (simp add: is_varint_Cons)
    then obtain hs l where l: "cs = hs @ [l]" "\<not> more l" by (auto simp: is_varint_def)
    have first: "(ucast (b AND 0x7F) :: u32) = of_nat (unat b mod 128)"
      by (metis of_nat_unat unat_and_7f)
    have "unat (of_nat (unat b mod 128) :: u32) < 2 ^ (7 * 1)"
      using mod_less_divisor [of 128 "unat b"] by (simp add: unat_of_nat)
    from varint32_loop_correct [OF cs _ _ this, of rest j e] assms(2) Cons
    have loop: "varint32_loop 7 (of_nat (unat b mod 128)) (istream (cs @ rest) j e)
        = (Some (7 * Suc (length cs), l, of_nat (le128 bs)), istream rest j e)"
      by (simp add: l)
    have eq: "pb_decode_varint32_eof (istream (bs @ rest) j e)
        = (if length cs = 4 \<and> 16 \<le> unat l
           then let (r, s) = is_error ''varint overflow'' (istream rest j e) in ((r, False), s)
           else ((Some (of_nat (le128 bs)), False), istream rest j e))"
      using True unfolding pb_decode_varint32_eof_def Cons
      by (simp add: istream_simps high_bit_iff not_less first loop [unfolded Cons] top_septet_iff [OF l(2)])
    have "length cs = 4 \<and> 16 \<le> unat l \<longleftrightarrow> \<not> le128 bs < 2 ^ 32"
    proof (cases "length cs = 4")
      case True
      then have "le128 bs = le128 (b # hs) + 128 ^ 4 * unat l"
        using l by (simp add: Cons flip: append_Cons) (simp add: le128_append)
      moreover have "le128 (b # hs) < 128 ^ 4" using le128_bound [of "b # hs"] True l by simp
      ultimately show ?thesis using True by auto
    next
      case False
      then have "length bs \<le> 4" using assms(2) Cons by simp
      then have "(128::nat) ^ length bs \<le> 128 ^ 4" by (intro power_increasing) simp_all
      with le128_bound [of bs] False show ?thesis by simp
    qed
    with eq show ?thesis by (auto simp: is_error_def)
  qed
qed (use assms in simp)

lemma pb_decode_varint32_small [istream_simps]:
  "is_varint bs \<Longrightarrow> length bs \<le> 5 \<Longrightarrow> le128 bs < 2 ^ 32
    \<Longrightarrow> pb_decode_varint32 (istream (bs @ rest) j e) = (Some (of_nat (le128 bs)), istream rest j e)"
  by (simp add: pb_decode_varint32_def pb_decode_varint32_eof_short)

lemma length_varint_u32: "n < 2 ^ 32 \<Longrightarrow> length (varint n) \<le> 5"
  by (rule length_varint) simp_all

lemma pb_decode_varint32_varint [istream_simps]:
  "n < 2 ^ 32 \<Longrightarrow> pb_decode_varint32 (istream (varint n @ rest) j e) = (Some (of_nat n), istream rest j e)"
  by (simp add: pb_decode_varint32_small is_varint_varint length_varint_u32 le128_varint)

text \<open>
  Numbers of more than five octets are not always checked: bits 32 to 34 of a fifth octet with the
  continuation bit are dropped, and the eight-bit \<open>bitpos\<close> wraps after 256 bits.
\<close>

definition varint_700000000 :: bytes where
  "varint_700000000 = [0x80, 0x80, 0x80, 0x80, 0xf0, 0]"

lemma varint32_drops_high_bits:
  "is_varint varint_700000000 \<and> le128 varint_700000000 = 0x700000000
    \<and> pb_decode_varint32 (istream varint_700000000 [] None) = (Some 0, istream [] [] None)"
proof (intro conjI)
  show "is_varint varint_700000000" by (simp add: varint_700000000_def is_varint_Cons)
  show "le128 varint_700000000 = 0x700000000" by (simp add: varint_700000000_def)
  show "pb_decode_varint32 (istream varint_700000000 [] None) = (Some 0, istream [] [] None)"
    by (simp add: varint_700000000_def pb_decode_varint32_def pb_decode_varint32_eof_def istream_simps varint32_loop.simps)
qed

lemma varint32_bit_position_wraps:
  "is_varint (replicate 37 0x80 @ [1]) \<and> le128 (replicate 37 0x80 @ [1]) = 2 ^ 259
    \<and> pb_decode_varint32 (istream (replicate 37 0x80 @ [1]) [] None) = (Some 8, istream [] [] None)
    \<and> fst (pb_decode_varint (istream (replicate 37 0x80 @ [1]) [] None)) = None"
proof (intro conjI)
  have r: "replicate 37 x @ [y] = x # x # x # x # x # x # x # x # x # x # x # x # x # x # x # x # x # x # x # x
     # x # x # x # x # x # x # x # x # x # x # x # x # x # x # x # x # x # [y]" for x y :: u8
    by (simp add: numeral_eq_Suc)
  show "is_varint (replicate 37 0x80 @ [1])" by (auto simp: is_varint_def list_all_iff)
  show "le128 (replicate 37 0x80 @ [1]) = 2 ^ 259" by (simp add: r)
  show "pb_decode_varint32 (istream (replicate 37 0x80 @ [1]) [] None) = (Some 8, istream [] [] None)"
    by (simp add: r pb_decode_varint32_def pb_decode_varint32_eof_def istream_simps varint32_loop.simps)
  show "fst (pb_decode_varint (istream (replicate 37 0x80 @ [1]) [] None)) = None"
    by (simp add: r pb_decode_varint_def istream_simps varint_loop.simps)
qed

section \<open>Tags, skipped fields and substreams\<close>

lemma pb_encode_tag_eq:
  assumes "wt < 8"
  shows "pb_encode_tag wt fn = pb_write (varint (8 * unat fn + wt))"
proof -
  have u: "unat (ucast fn :: u64) = unat fn"
    using unat_u32_bound [of fn] by (simp add: unsigned_ucast_eq take_bit_eq_mod)
  have w: "unat (of_nat wt :: u64) = wt" using assms by (simp add: unat_of_nat)
  have "unat (push_bit 3 (ucast fn) OR of_nat wt :: u64) = unat fn * 2 ^ 3 + wt"
    using assms unat_u32_bound [of fn] by (subst unat_push_bit_or) (simp_all add: u w)
  then show ?thesis by (simp add: pb_encode_tag_def pb_encode_varint_eq mult.commute)
qed

lemma pb_decode_tag_varint:
  assumes "wt < 8" "unat fn < 2 ^ 29" "fn \<noteq> 0"
  shows "pb_decode_tag (istream (varint (8 * unat fn + wt) @ rest) j e) = ((Some (wt, fn), False), istream rest j e)"
proof -
  define n where "n = 8 * unat fn + wt"
  have n: "n < 2 ^ 32" using assms(1,2) by (simp add: n_def)
  have dec: "pb_decode_varint32_eof (istream (varint n @ rest) j e) = ((Some (of_nat n), False), istream rest j e)"
    using n by (simp add: pb_decode_varint32_eof_short is_varint_varint length_varint_u32 le128_varint)
  have u: "unat (of_nat n :: u32) = n" using n by (simp add: unat_of_nat)
  have pos: "unat fn \<noteq> 0" using assms(3) by (simp add: unat_eq_0)
  then have "of_nat n \<noteq> (0 :: u32)" using u by (metis n_def add_is_0 mult_is_0 unat_0 zero_neq_numeral)
  moreover have "unat (of_nat n AND 7 :: u32) = wt"
    using unat_and_mask [of "of_nat n :: u32" 3] assms(1) by (simp add: u) (simp add: n_def)
  moreover have "drop_bit 3 (of_nat n :: u32) = fn"
    using assms(1) by (simp add: word_unat_eq_iff unat_drop_bit u) (simp add: n_def)
  ultimately show ?thesis by (simp add: pb_decode_tag_def dec flip: n_def)
qed

text \<open>The octets that a value of each wire type takes.\<close>

definition wire_value :: "nat \<Rightarrow> bytes \<Rightarrow> bool" where
  "wire_value wt bs \<longleftrightarrow>
     (wt = PB_WT_VARINT \<and> is_varint bs) \<or> (wt = PB_WT_64BIT \<and> length bs = 8) \<or> (wt = PB_WT_32BIT \<and> length bs = 4)
     \<or> (wt = PB_WT_STRING \<and> (\<exists>l body. bs = l @ body \<and> is_varint l \<and> length l \<le> 5 \<and> le128 l = length body \<and> length body < 2 ^ 32))"

lemma pb_skip_varint_istream: "is_varint bs \<Longrightarrow> pb_skip_varint (istream (bs @ rest) j e) = (Some (), istream rest j e)"
proof (induction bs)
  case (Cons b bs)
  have "pb_read 1 (istream ((b # bs) @ rest) j e) = (Some [b], istream (bs @ rest) j e)"
    using pb_read_istream_append [of "[b]" 1 "bs @ rest"] by simp
  with Cons show ?case
    by (subst pb_skip_varint.simps) (auto simp: more_iff is_varint_Cons split: if_splits)
qed simp

lemma pb_skip_field_wire_value:
  assumes "wire_value wt bs"
  shows "pb_skip_field wt (istream (bs @ rest) j e) = (Some (), istream rest j e)"
proof -
  have str: "pb_skip_string (istream ((l @ body) @ rest) j e) = (Some (), istream rest j e)"
    if "is_varint l" "length l \<le> 5" "le128 l = length body" "length body < 2 ^ 32" for l body
  proof -
    have "unat (of_nat (length body) :: u32) = length body" using that(4) by (simp add: unat_of_nat)
    with that show ?thesis
      by (simp add: pb_skip_string_def opn_defs istream_simps)
  qed
  from assms show ?thesis
    unfolding wire_value_def pb_skip_field_def
    by (auto simp: pb_skip_varint_istream istream_simps opn_defs str [simplified])
qed

text \<open>
  A substream shows its reader exactly the delimited octets, and closing it, wherever its reader
  stopped, leaves the parent right behind them.
\<close>

lemma pb_substream:
  assumes "is_varint l" "length l \<le> 5" "le128 l = length body" "length body < 2 ^ 32"
  obtains p where "pb_make_string_substream (istream (l @ body @ rest) j e) = (Some (istream body (rest @ j) e), p)"
    and "\<And>n e'. pb_close_string_substream (istream (drop n body) (rest @ j) e') p = (Some (), istream rest j e')"
proof
  have u: "unat (of_nat (length body) :: u32) = length body" using assms(4) by (simp add: unat_of_nat)
  let ?p = "\<lparr>is_state = body @ rest @ j, is_bytes_left = length rest, is_errmsg = e\<rparr>"
  show "pb_make_string_substream (istream (l @ body @ rest) j e) = (Some (istream body (rest @ j) e), ?p)"
    using assms u unfolding pb_make_string_substream_def
    by (simp add: opn_defs istream_simps) (simp add: istream_def)
  show "pb_close_string_substream (istream (drop n body) (rest @ j) e') ?p = (Some (), istream rest j e')" for n e'
    by (simp add: pb_close_string_substream_def pb_read_istream) (simp add: istream_def)
qed

section \<open>Field coders\<close>

text \<open>
  The two tables of coders by logical type, for fields whose data lies in the message (static
  allocation); the decoder's memory \<open>dest\<close> is overwritten from its front. The entry of a submessage
  and the null entry of an extension are not modelled and are \<open>None\<close>.
\<close>

definition PB_ENCODERS :: "nat \<Rightarrow> (pb_field \<Rightarrow> bytes \<Rightarrow> (pb_ostream, unit) opn) option" where
  "PB_ENCODERS ltype =
     (if ltype = 0 then Some (\<lambda>field. pb_enc_bool)
      else if ltype = 1 then Some pb_enc_varint
      else if ltype = 2 then Some pb_enc_uvarint
      else if ltype = 3 then Some pb_enc_svarint
      else if ltype = 4 then Some (\<lambda>field. pb_enc_fixed32)
      else if ltype = 5 then Some (\<lambda>field. pb_enc_fixed64)
      else if ltype = 6 then Some (\<lambda>field src. pb_enc_bytes field (Some (ucast (load_u (take 4 src)), drop 4 src)))
      else if ltype = 7 then Some (\<lambda>field src. pb_enc_string field (Some src))
      else if ltype = 10 then Some pb_enc_fixed_length_bytes
      else None)"

definition PB_DECODERS :: "nat \<Rightarrow> (pb_field \<Rightarrow> bytes \<Rightarrow> (pb_istream, bytes) opn) option" where
  "PB_DECODERS ltype =
     (let put = (\<lambda>dec field dest. op_map (\<lambda>m. m @ drop (length m) dest) (dec field)) in
      if ltype = 0 then Some (put (\<lambda>field. pb_dec_bool))
      else if ltype = 1 then Some (put pb_dec_varint)
      else if ltype = 2 then Some (put pb_dec_uvarint)
      else if ltype = 3 then Some (put pb_dec_svarint)
      else if ltype = 4 then Some (put (\<lambda>field. pb_dec_fixed32))
      else if ltype = 5 then Some (put (\<lambda>field. pb_dec_fixed64))
      else if ltype = 6 then Some (put (\<lambda>field. op_map (\<lambda>(sz, b). le_bytes 4 (unat sz) @ b) (pb_dec_bytes (\<lambda>_. True) field)))
      else if ltype = 7 then Some (put (pb_dec_string (\<lambda>_. True)))
      else if ltype = 10 then Some (put pb_dec_fixed_length_bytes)
      else None)"

text \<open>Integers of one, two, four and eight octets, in memory and widened to 64 bits.\<close>

lemma int_size_cases:
  assumes "int_size field"
  obtains "unat (f_data_size field) = 8" | "unat (f_data_size field) = 4" | "unat (f_data_size field) = 2" | "unat (f_data_size field) = 1"
  using assms by (auto simp: int_size_def)

lemma store_load_u: "length src = n \<Longrightarrow> n \<le> 8 \<Longrightarrow> store_int n (load_u src) = src"
proof -
  assume *: "length src = n" "n \<le> 8"
  then have "(256::nat) ^ n \<le> 256 ^ 8" by (intro power_increasing) simp_all
  with be_nat_bound [of "rev src"] * have "be_nat (rev src) < 2 ^ 64" by simp
  with * show ?thesis
    by (simp add: store_int_def load_u_def unat_of_nat nat_be_be_nat' [of "rev src" n])
qed

lemma store_int_cong: "take_bit (8 * n) v = take_bit (8 * n) w \<Longrightarrow> store_int n v = store_int n w"
proof -
  assume "take_bit (8 * n) v = take_bit (8 * n) w"
  from arg_cong [OF this, of unat] have "take_bit (8 * n) (unat v) = take_bit (8 * n) (unat w)"
    by (simp only: unsigned_take_bit_eq)
  then have "unat v mod 256 ^ n = unat w mod 256 ^ n"
    by (simp add: take_bit_eq_mod power_mult)
  then have "nat_be n (unat v) = nat_be n (unat w)"
    by (metis nat_be_mod)
  then show ?thesis by (simp add: store_int_def)
qed

lemma store_load_s:
  assumes "length src = n" "0 < n" "n \<le> 8"
  shows "store_int n (load_s src) = src"
proof -
  have "take_bit (8 * n) (load_s src) = take_bit (8 * n) (load_u src)"
    using assms by (simp add: load_s_def take_bit_signed_take_bit)
  then have "store_int n (load_s src) = store_int n (load_u src)" by (rule store_int_cong)
  with assms show ?thesis by (simp add: store_load_u)
qed

lemma load_u_take_bit:
  assumes "length src = n" "n \<le> 8"
  shows "take_bit (8 * n) (load_u src) = load_u src"
proof (rule take_bit_word_self)
  have "(256::nat) ^ n \<le> 256 ^ 8" using assms by (intro power_increasing) simp_all
  then show "unat (load_u src) < 2 ^ (8 * n)"
    using be_nat_bound [of "rev src"] assms by (simp add: load_u_def unat_of_nat power_mult)
qed

lemma load_s_signed:
  assumes "length src = n" "0 < n" "8 * n - 1 \<le> k"
  shows "signed_take_bit k (load_s src) = load_s src"
  using assms by (simp add: load_s_def signed_take_bit_signed_take_bit min_def)

text \<open>
  A field's memory is admissible when its size is that of its type, a boolean is 0 or 1, a bytes
  array's size is within its room and a string is terminated. \<open>significant\<close> counts the octets that
  matter: behind the end of a bytes array or a string the memory is free.
\<close>

definition memory_ok :: "nat \<Rightarrow> pb_field \<Rightarrow> bytes \<Rightarrow> bool" where
  "memory_ok ltype field src \<longleftrightarrow>
     (if ltype = 0 then src = [0] \<or> src = [1]
      else if ltype \<in> {1, 2, 3} then int_size field \<and> length src = unat (f_data_size field)
      else if ltype = 4 then length src = 4
      else if ltype = 5 then length src = 8
      else if ltype = 6 then PB_ATYPE (f_type field) = PB_ATYPE_STATIC \<and> length src = unat (f_data_size field)
        \<and> 4 + unat (load_u (take 4 src)) \<le> length src
      else if ltype = 7 then PB_ATYPE (f_type field) = PB_ATYPE_STATIC \<and> length src = unat (f_data_size field) \<and> 0 \<in> set src
      else ltype = 10 \<and> length src = unat (f_data_size field) \<and> src \<noteq> [])"

definition significant :: "nat \<Rightarrow> bytes \<Rightarrow> nat" where
  "significant ltype src =
     (if ltype = 6 then 4 + unat (load_u (take 4 src))
      else if ltype = 7 then length (takeWhile (\<lambda>c. c \<noteq> 0) src) + 1
      else length src)"

definition wire_type_of :: "nat \<Rightarrow> nat" where
  "wire_type_of ltype = (if ltype \<in> {0, 1, 2, 3} then PB_WT_VARINT else if ltype = 4 then PB_WT_32BIT
     else if ltype = 5 then PB_WT_64BIT else PB_WT_STRING)"

definition field_body :: "nat \<Rightarrow> bytes \<Rightarrow> bytes" where
  "field_body ltype src =
     (if ltype = 6 then take (unat (load_u (take 4 src))) (drop 4 src)
      else if ltype = 7 then takeWhile (\<lambda>c. c \<noteq> 0) src else src)"

lemma length_field_body: "length (field_body ltype src) \<le> length src"
  by (auto simp: field_body_def length_takeWhile_le intro: min.coboundedI1)

definition field_wire :: "nat \<Rightarrow> bytes \<Rightarrow> bytes" where
  "field_wire ltype src =
     (if ltype = 0 then varint (be_nat src)
      else if ltype = 1 then varint (unat (load_s src))
      else if ltype = 2 then varint (unat (load_u src))
      else if ltype = 3 then varint (unat (zigzag (load_s src)))
      else if ltype = 4 \<or> ltype = 5 then src
      else varint (length (field_body ltype src)) @ field_body ltype src)"

lemma wire_value_field_wire:
  assumes "memory_ok ltype field src"
  shows "wire_value (wire_type_of ltype) (field_wire ltype src)"
proof -
  have str: "wire_value PB_WT_STRING (varint (length body) @ body)" if "length body < 2 ^ 32" for body :: bytes
    unfolding wire_value_def
    by (rule disjI2, rule disjI2, rule disjI2, rule conjI, rule refl, rule exI [of _ "varint (length body)"], rule exI [of _ body])
      (use that in \<open>simp add: is_varint_varint le128_varint length_varint_u32\<close>)
  show ?thesis
  proof (cases "ltype \<in> {6, 7, 10}")
    case True
    then have "length src = unat (f_data_size field)" using assms by (auto simp: memory_ok_def)
    then have "length (field_body ltype src) < 2 ^ 32"
      using length_field_body [of ltype src] unat_u32_bound [of "f_data_size field"] by simp
    with str True show ?thesis by (auto simp: field_wire_def wire_type_of_def)
  next
    case False
    with assms show ?thesis
      by (auto simp: memory_ok_def wire_type_of_def field_wire_def is_varint_varint wire_value_def split: if_splits)
  qed
qed

lemma pb_encode_string_put:
  assumes "length body < 2 ^ 64" "os_fits (varint (length body) @ body) s"
  shows "pb_encode_string body s = (Some (), os_put (varint (length body) @ body) s)"
proof -
  have "unat (of_nat (length body) :: u64) = length body" using assms(1) by (simp add: unat_of_nat)
  then show ?thesis
    using os_fits_append [OF assms(2)]
    by (simp add: pb_encode_string_def pb_encode_varint_eq op_seq_def op_bind_def pb_write_fits os_put_append)
qed

lemma pb_strnlen_eq:
  "length p < 2 ^ 32 \<Longrightarrow> sz + length p \<le> unat max_size \<Longrightarrow> pb_strnlen sz max_size p = sz + length (takeWhile (\<lambda>c. c \<noteq> 0) p)"
proof (induction p arbitrary: sz)
  case (Cons c p)
  have "unat (of_nat sz :: u64) = sz"
    using Cons.prems(2) unat_u64_bound [of max_size] by (simp add: unat_of_nat)
  then have "of_nat sz < max_size" using Cons.prems(2) by (simp add: word_less_nat_alt)
  with Cons show ?case by simp
qed simp

lemma take_4_split: "4 \<le> length src \<Longrightarrow> take 4 src @ drop 4 src = src" for src :: bytes
  by simp

lemma ucast_load_u_4:
  assumes "length src = 4"
  shows "unat (ucast (load_u src) :: u32) = unat (load_u src)" "unat (load_u src) = be_nat (rev src)"
proof -
  have "be_nat (rev src) < 2 ^ 32" using be_nat_bound [of "rev src"] assms by simp
  then show "unat (load_u src) = be_nat (rev src)" by (simp add: load_u_def unat_of_nat)
  with \<open>be_nat (rev src) < 2 ^ 32\<close> show "unat (ucast (load_u src) :: u32) = unat (load_u src)"
    by (simp add: unsigned_ucast_eq take_bit_eq_mod)
qed

text \<open>What every encoder of the table appends.\<close>

lemma PB_ENCODERS_put:
  assumes "PB_ENCODERS ltype = Some enc" "memory_ok ltype field src" "os_fits (field_wire ltype src) s"
  shows "enc field src s = (Some (), os_put (field_wire ltype src) s)"
proof -
  note put = pb_encode_varint_eq pb_write_fits
  have str: "pb_encode_string (field_body ltype src) s = (Some (), os_put (field_wire ltype src) s)"
    if "ltype \<in> {6, 7, 10}"
  proof -
    from that assms(2) have "length src = unat (f_data_size field)" by (auto simp: memory_ok_def)
    then have "length (field_body ltype src) < 2 ^ 64"
      using length_field_body [of ltype src] unat_u32_bound [of "f_data_size field"] by simp
    moreover have "field_wire ltype src = varint (length (field_body ltype src)) @ field_body ltype src"
      using that by (auto simp: field_wire_def)
    ultimately show ?thesis using assms(3) by (simp add: pb_encode_string_put)
  qed
  consider "ltype = 0" | "ltype = 1" | "ltype = 2" | "ltype = 3" | "ltype = 4" | "ltype = 5" | "ltype = 6" | "ltype = 7" | "ltype = 10"
    using assms(1) by (auto simp: PB_ENCODERS_def split: if_splits)
  then show ?thesis
  proof cases
    case 1
    then show ?thesis using assms
      by (auto simp: PB_ENCODERS_def memory_ok_def pb_enc_bool_def safe_read_bool_def field_wire_def put)
  next
    case 2
    then show ?thesis using assms by (auto simp: PB_ENCODERS_def memory_ok_def pb_enc_varint_def field_wire_def put)
  next
    case 3
    then show ?thesis using assms by (auto simp: PB_ENCODERS_def memory_ok_def pb_enc_uvarint_def field_wire_def put)
  next
    case 4
    then show ?thesis using assms
      by (auto simp: PB_ENCODERS_def memory_ok_def pb_enc_svarint_def field_wire_def svarint_wire.enc_put)
  next
    case 5
    then have l: "length src = 4" using assms(2) by (simp add: memory_ok_def)
    then have "le_bytes 4 (unat (ucast (load_u src) :: u32)) = src"
      by (simp add: ucast_load_u_4 le_bytes_be_nat)
    then show ?thesis using 5 l assms
      by (auto simp: PB_ENCODERS_def pb_enc_fixed32_def field_wire_def fixed32_bytes pb_write_fits)
  next
    case 6
    then have l: "length src = 8" using assms(2) by (simp add: memory_ok_def)
    then have "le_bytes 8 (unat (load_u src)) = src"
      using be_nat_bound [of "rev src"] by (simp add: load_u_def unat_of_nat le_bytes_be_nat)
    then show ?thesis using 6 l assms
      by (auto simp: PB_ENCODERS_def pb_enc_fixed64_def field_wire_def fixed64_bytes pb_write_fits)
  next
    case 7
    have ok: "length src = unat (f_data_size field)" "4 + unat (load_u (take 4 src)) \<le> length src"
      using 7 assms(2) by (auto simp: memory_ok_def)
    then have l: "length (take 4 src) = 4" by simp
    have a: "PB_BYTES_ARRAY_T_ALLOCSIZE (unat (load_u (take 4 src))) = 4 + unat (load_u (take 4 src))"
      using ok unat_u32_bound [of "f_data_size field"] by (simp add: PB_BYTES_ARRAY_T_ALLOCSIZE_def unat_word_ariths)
    show ?thesis using 7 assms(1) str ok a
      by (auto simp: PB_ENCODERS_def pb_enc_bytes_def ucast_load_u_4 [OF l] field_body_def Let_def)
  next
    case 8
    have "length src = unat (f_data_size field)" "PB_ATYPE (f_type field) = PB_ATYPE_STATIC"
      using 8 assms(2) by (auto simp: memory_ok_def)
    moreover have "unat (ucast (f_data_size field) :: u64) = unat (f_data_size field)"
      using unat_u32_bound [of "f_data_size field"] by (simp add: unsigned_ucast_eq take_bit_eq_mod)
    ultimately have "pb_strnlen 0 (ucast (f_data_size field)) src = length (takeWhile (\<lambda>c. c \<noteq> 0) src)"
      using pb_strnlen_eq [of src 0 "ucast (f_data_size field)"] unat_u32_bound [of "f_data_size field"] by simp
    then show ?thesis using 8 assms(1,2) str
      by (auto simp: PB_ENCODERS_def pb_enc_string_def memory_ok_def field_body_def takeWhile_eq_take [symmetric])
  next
    case 9
    then show ?thesis using assms(1,2) str
      by (auto simp: PB_ENCODERS_def pb_enc_fixed_length_bytes_def memory_ok_def field_body_def)
  qed
qed

text \<open>What every decoder of the table makes of it.\<close>

lemma PB_DECODERS_get:
  assumes "PB_DECODERS ltype = Some dec" "memory_ok ltype field src" "length dest = length src"
  shows "dec field dest (istream (field_wire ltype src @ rest) j e)
    = (Some (take (significant ltype src) src @ drop (significant ltype src) dest), istream rest j e)"
proof -
  note get = varint_wire.dec_get [simplified] svarint_wire.dec_get [simplified]
  have len: "unat (of_nat (length (field_body ltype src)) :: u32) = length (field_body ltype src)"
    "length (field_body ltype src) < 2 ^ 32" if "ltype \<in> {6, 7, 10}"
  proof -
    from that assms(2) have "length src = unat (f_data_size field)" by (auto simp: memory_ok_def)
    then show "length (field_body ltype src) < 2 ^ 32"
      using length_field_body [of ltype src] unat_u32_bound [of "f_data_size field"] by simp
    then show "unat (of_nat (length (field_body ltype src)) :: u32) = length (field_body ltype src)"
      by (simp add: unat_of_nat)
  qed
  have ints: "unat (f_data_size field) \<le> 8" "0 < unat (f_data_size field)"
    "f_data_size field \<noteq> 8 \<Longrightarrow> unat (f_data_size field) \<le> 4" if "int_size field"
    using that by (auto simp: int_size_def)
  consider "ltype = 0" | "ltype = 1" | "ltype = 2" | "ltype = 3" | "ltype = 4" | "ltype = 5" | "ltype = 6" | "ltype = 7" | "ltype = 10"
    using assms(1) by (auto simp: PB_DECODERS_def Let_def split: if_splits)
  then show ?thesis
  proof cases
    case 1
    then show ?thesis using assms
      by (auto simp: PB_DECODERS_def memory_ok_def pb_dec_bool_def field_wire_def significant_def opn_defs istream_simps)
  next
    case 2
    then have ok: "int_size field" "length src = unat (f_data_size field)" using assms(2) by (auto simp: memory_ok_def)
    have "signed_take_bit 31 (load_s src) = load_s src" if "f_data_size field \<noteq> 8"
      using ok ints [OF ok(1)] that by (intro load_s_signed) auto
    moreover have "clamp_s field (load_s src) = load_s src"
      unfolding clamp_s_def using ok ints [OF ok(1)] by (intro load_s_signed) auto
    moreover have "store_int (unat (f_data_size field)) (load_s src) = src"
      using ok ints [OF ok(1)] by (intro store_load_s) auto
    ultimately show ?thesis using 2 ok assms(1,3)
      by (auto simp: PB_DECODERS_def pb_dec_varint_def field_wire_def significant_def opn_defs get)
  next
    case 3
    then have ok: "int_size field" "length src = unat (f_data_size field)" using assms(2) by (auto simp: memory_ok_def)
    have "clamp_u field (load_u src) = load_u src"
      unfolding clamp_u_def using ok ints [OF ok(1)] by (intro load_u_take_bit) auto
    moreover have "store_int (unat (f_data_size field)) (load_u src) = src"
      using ok ints [OF ok(1)] by (intro store_load_u) auto
    ultimately show ?thesis using 3 ok assms(1,3)
      by (auto simp: PB_DECODERS_def pb_dec_uvarint_def field_wire_def significant_def opn_defs get)
  next
    case 4
    then have ok: "int_size field" "length src = unat (f_data_size field)" using assms(2) by (auto simp: memory_ok_def)
    have "clamp_s field (load_s src) = load_s src"
      unfolding clamp_s_def using ok ints [OF ok(1)] by (intro load_s_signed) auto
    moreover have "store_int (unat (f_data_size field)) (load_s src) = src"
      using ok ints [OF ok(1)] by (intro store_load_s) auto
    ultimately show ?thesis using 4 ok assms(1,3)
      by (auto simp: PB_DECODERS_def pb_dec_svarint_def field_wire_def significant_def opn_defs get)
  next
    case 5
    then have l: "length src = 4" using assms(2) by (simp add: memory_ok_def)
    have "store_int 4 (ucast (of_nat (be_nat (rev src)) :: u32)) = src"
      using be_nat_bound [of "rev src"] l nat_be_be_nat' [of "rev src" 4]
      by (simp add: store_int_def unsigned_ucast_eq unat_of_nat take_bit_eq_mod)
    then show ?thesis using 5 l assms(1,3)
      by (auto simp: PB_DECODERS_def pb_dec_fixed32_def field_wire_def significant_def opn_defs pb_decode_fixed32_istream)
  next
    case 6
    then have l: "length src = 8" using assms(2) by (simp add: memory_ok_def)
    have "store_int 8 (of_nat (be_nat (rev src))) = src"
      using be_nat_bound [of "rev src"] l nat_be_be_nat' [of "rev src" 8]
      by (simp add: store_int_def unat_of_nat)
    then show ?thesis using 6 l assms(1,3)
      by (auto simp: PB_DECODERS_def pb_dec_fixed64_def field_wire_def significant_def opn_defs pb_decode_fixed64_istream)
  next
    case 7
    have ok: "length src = unat (f_data_size field)" "4 + unat (load_u (take 4 src)) \<le> length src"
      "PB_ATYPE (f_type field) = PB_ATYPE_STATIC"
      using 7 assms(2) by (auto simp: memory_ok_def)
    define n where "n = unat (load_u (take 4 src))"
    have l: "length (take 4 src) = 4" using ok by simp
    have body: "field_body ltype src = take n (drop 4 src)" "length (field_body ltype src) = n"
      using 7 ok by (auto simp: field_body_def n_def)
    have a: "PB_BYTES_ARRAY_T_ALLOCSIZE n = 4 + n"
      using ok unat_u32_bound [of "f_data_size field"] by (simp add: PB_BYTES_ARRAY_T_ALLOCSIZE_def unat_word_ariths n_def)
    have hd: "le_bytes 4 n = take 4 src"
      unfolding n_def using ucast_load_u_4 [OF l] le_bytes_be_nat [OF l] by simp
    have "take 4 src @ take n (drop 4 src) = take (4 + n) src" by (simp add: take_add)
    moreover have "length (take 4 src @ take n (drop 4 src)) = 4 + n" using ok by (simp add: n_def)
    moreover have "unat (of_nat n :: u32) = n" "n < 2 ^ 32" using len 7 body(2) by auto
    then have "pb_dec_bytes (\<lambda>_. True) field (istream (varint n @ take n (drop 4 src) @ rest) j e)
        = (Some (of_nat n, take n (drop 4 src)), istream rest j e)"
      using ok a body by (simp add: pb_dec_bytes_def opn_defs istream_simps Let_def flip: n_def)
    ultimately show ?thesis
      using 7 assms(1) a hd body \<open>unat (of_nat n :: u32) = n\<close>
      by (auto simp: PB_DECODERS_def field_wire_def significant_def opn_defs Let_def simp flip: n_def)
  next
    case 8
    have ok: "length src = unat (f_data_size field)" "0 \<in> set src" "PB_ATYPE (f_type field) = PB_ATYPE_STATIC"
      using 8 assms(2) by (auto simp: memory_ok_def)
    define p where "p = takeWhile (\<lambda>c. c \<noteq> 0) src"
    have body: "field_body ltype src = p" using 8 by (simp add: field_body_def p_def)
    have lt: "length p < length src"
      using ok(2) length_takeWhile_le [of "\<lambda>c. c \<noteq> 0" src] takeWhile_eq_take [of "\<lambda>c. c \<noteq> 0" src]
      by (metis (mono_tags, lifting) le_neq_implies_less p_def set_takeWhileD take_all_iff)
    have "src ! length p = 0" using nth_length_takeWhile [of "\<lambda>c. c \<noteq> 0" src] lt by (simp add: p_def)
    then have tk: "p @ [0] = take (Suc (length p)) src"
      using lt takeWhile_eq_take [of "\<lambda>c. c \<noteq> 0" src] by (simp add: take_Suc_conv_app_nth p_def)
    have "unat (of_nat (length p) + 1 :: u32) = length p + 1"
      using lt ok(1) unat_u32_bound [of "f_data_size field"] by (simp add: unat_word_ariths unat_of_nat)
    then show ?thesis
      using 8 assms(1,3) ok lt len tk body
      by (auto simp: PB_DECODERS_def pb_dec_string_def field_wire_def significant_def opn_defs istream_simps Let_def
          simp flip: p_def)
  next
    case 9
    then have ok: "length src = unat (f_data_size field)" "src \<noteq> []" using assms(2) by (auto simp: memory_ok_def)
    have "0 < length src" using ok(2) by simp
    then have "of_nat (length src) = f_data_size field" "f_data_size field \<noteq> 0" using ok(1) by (auto simp: word_unat_eq_iff)
    then show ?thesis using 9 ok assms(1,3) len
      by (auto simp: PB_DECODERS_def pb_dec_fixed_length_bytes_def field_wire_def field_body_def significant_def
          opn_defs istream_simps Let_def)
  qed
qed

lemma pb_encode_tag_for_field_put:
  assumes "PB_LTYPE (f_type field) = ltype" "PB_ENCODERS ltype = Some enc"
  shows "pb_encode_tag_for_field field = pb_write (varint (8 * unat (f_tag field) + wire_type_of ltype))"
  using assms by (auto simp: pb_encode_tag_for_field_def PB_ENCODERS_def wire_type_of_def Let_def pb_encode_tag_eq split: if_splits)

text \<open>(C27) A field with static allocation, of any of the nine logical types with a coder in the tables, is
  written as its tag and its value when they fit the output. On any input that starts with these
  octets the tag decoder finds the field's number and wire type; the decoder of the field's type
  then restores its memory, up to what lies behind the end of a string or a bytes array, and
  consumes exactly the value; and a reader that does not know the field skips exactly the value.\<close>

theorem pb_field_round_trip:
  assumes "PB_LTYPE (f_type field) = ltype" "PB_ENCODERS ltype = Some enc" "PB_DECODERS ltype = Some dec"
    and "f_tag field \<noteq> 0" "unat (f_tag field) < 2 ^ 29" "memory_ok ltype field src" "length dest = length src"
    and "w = varint (8 * unat (f_tag field) + wire_type_of ltype)" "v = field_wire ltype src" "os_fits (w @ v) s"
  shows "op_seq (pb_encode_tag_for_field field) (enc field src) s = (Some (), os_put (w @ v) s)
    \<and> pb_decode_tag (istream (w @ v @ rest) j e)
       = ((Some (wire_type_of ltype, f_tag field), False), istream (v @ rest) j e)
    \<and> dec field dest (istream (v @ rest) j e)
       = (Some (take (significant ltype src) src @ drop (significant ltype src) dest), istream rest j e)
    \<and> pb_skip_field (wire_type_of ltype) (istream (v @ rest) j e) = (Some (), istream rest j e)"
proof (intro conjI)
  note fits = os_fits_append [OF assms(10)]
  show "op_seq (pb_encode_tag_for_field field) (enc field src) s = (Some (), os_put (w @ v) s)"
    using fits PB_ENCODERS_put [OF assms(2,6), of "os_put w s"]
    by (simp add: op_seq_def op_bind_def pb_encode_tag_for_field_put [OF assms(1,2)] pb_write_fits os_put_append assms(8,9))
  have "wire_type_of ltype < 8" by (simp add: wire_type_of_def)
  with assms(4,5) show "pb_decode_tag (istream (w @ v @ rest) j e)
      = ((Some (wire_type_of ltype, f_tag field), False), istream (v @ rest) j e)"
    unfolding assms(8) by (simp add: pb_decode_tag_varint)
qed (simp_all add: assms(9) PB_DECODERS_get [OF assms(3,6,7)] pb_skip_field_wire_value wire_value_field_wire [OF assms(6)])

definition example_field :: pb_field where
  "example_field = \<lparr>f_tag = 3, f_type = 7, f_data_offset = 0, f_size_offset = 0, f_data_size = 4, f_array_size = 0, f_ptr = 0\<rparr>"

lemma pb_field_round_trip_witness:
  "\<exists>w v. op_seq (pb_encode_tag_for_field example_field) (pb_enc_string example_field (Some [65, 66, 0, 9])) (pb_ostream_from_buffer 100)
      = (Some (), os_put (w @ v) (pb_ostream_from_buffer 100))
    \<and> pb_decode_tag (istream (w @ v @ [7]) [] None) = ((Some (2, 3), False), istream (v @ [7]) [] None)
    \<and> the (PB_DECODERS 7) example_field [1, 1, 1, 1] (istream (v @ [7]) [] None) = (Some [65, 66, 0, 1], istream [7] [] None)"
proof -
  have lt: "PB_LTYPE (f_type example_field) = 7" by (simp add: PB_LTYPE_def example_field_def)
  have enc: "PB_ENCODERS 7 = Some (\<lambda>field src. pb_enc_string field (Some src))" by (simp add: PB_ENCODERS_def)
  have "\<exists>dec. PB_DECODERS 7 = Some dec" by (simp add: PB_DECODERS_def Let_def)
  then obtain dec where dec: "PB_DECODERS 7 = Some dec" by blast
  have ok: "memory_ok 7 example_field [65, 66, 0, 9]" by (simp add: memory_ok_def example_field_def PB_ATYPE_def)
  have "os_fits (varint (8 * unat (f_tag example_field) + wire_type_of 7) @ field_wire 7 [65, 66, 0, 9]) (pb_ostream_from_buffer 100)"
    by (simp add: os_fits_def pb_ostream_from_buffer_def wire_type_of_def field_wire_def field_body_def varint.simps example_field_def)
  from pb_field_round_trip [OF lt enc dec _ _ ok _ refl refl this, of "[1, 1, 1, 1]" "[7]" "[]" None]
  show ?thesis
    by (simp add: dec example_field_def wire_type_of_def significant_def) blast
qed

text \<open>(C30) A write to an output stream that has kept within its limit either fits, and then appends the
  octets and advances the count, or reports a full stream, keeping the first error message, and
  then writes nothing; the count stays within the limit in both cases. A sizing stream only counts.\<close>

theorem pb_write_exact:
  assumes "length bs < 2 ^ 64" "os_bytes_written s \<le> os_max_size s"
  shows "pb_write bs s = (if os_fits bs s then (Some (), os_put bs s) else os_error ''stream full'' s)
    \<and> (os_callback s \<longrightarrow> os_bytes_written (snd (pb_write bs s)) \<le> os_max_size s)
    \<and> (\<not> os_callback s \<longrightarrow> os_state (snd (pb_write bs s)) = os_state s)"
proof (cases "os_fits bs s")
  case True
  have "unat (os_bytes_written s + of_nat (length bs)) = unat (os_bytes_written s) + length bs"
    if "bs \<noteq> []" "os_callback s"
    using that True unat_u64_bound [of "os_max_size s"] by (simp add: os_fits_def unat_word_ariths unat_of_nat)
  then have "os_callback s \<Longrightarrow> os_bytes_written s + of_nat (length bs) \<le> os_max_size s"
    using True assms(2) by (cases "bs = []") (auto simp: os_fits_def word_le_nat_alt)
  with True show ?thesis by (auto simp: pb_write_fits os_put_def)
next
  case False
  then show ?thesis using assms by (auto simp: pb_write_full os_error_def)
qed

lemma pb_write_exact_witness:
  "pb_write [1, 2, 3] (pb_ostream_from_buffer 2) = os_error ''stream full'' (pb_ostream_from_buffer 2)"
  using pb_write_exact [of "[1, 2, 3]" "pb_ostream_from_buffer 2"] by (simp add: pb_ostream_from_buffer_def os_fits_def)

text \<open>(C29) The 32-bit varint decoder. A number of at most five octets is accepted exactly when it is below
  \<open>2 ^ 32\<close>, with its value, and reported as an overflow otherwise. Longer numbers are not always checked:
  bits 32 to 34 are lost when the fifth octet has the continuation bit and a zero octet follows, and
  after 37 octets the eight-bit bit position has wrapped to 3.\<close>

theorem pb_decode_varint32_checks:
  assumes "is_varint bs" "length bs \<le> 5"
  shows "pb_decode_varint32 (istream (bs @ rest) j e)
      = (if le128 bs < 2 ^ 32 then (Some (of_nat (le128 bs)), istream rest j e)
         else is_error ''varint overflow'' (istream rest j e))
    \<and> le128 varint_700000000 = 0x700000000
    \<and> pb_decode_varint32 (istream varint_700000000 [] None) = (Some 0, istream [] [] None)
    \<and> le128 (replicate 37 0x80 @ [1]) = 2 ^ 259
    \<and> pb_decode_varint32 (istream (replicate 37 0x80 @ [1]) [] None) = (Some 8, istream [] [] None)"
  using assms varint32_drops_high_bits varint32_bit_position_wraps
  by (simp add: pb_decode_varint32_def pb_decode_varint32_eof_short is_error_def)

lemma pb_decode_varint32_checks_witness:
  "pb_decode_varint32 (istream ([0xff, 0xff, 0xff, 0xff, 0x0f] @ [1]) [] None) = (Some 0xffffffff, istream [1] [] None)"
  using pb_decode_varint32_checks [of "[0xff, 0xff, 0xff, 0xff, 0x0f]" "[1]" "[]" None]
  by (simp add: is_varint_Cons)

end
