(* ===== verification/PbIter.thy ===== *)
theory PbIter
  imports Nanopb
begin

unbundle bit_operations_syntax

text \<open>
  The common part of nanopb's message coder (nanopb/pb_common.c): a message struct lies at an address
  of the memory, its descriptor is an array of field descriptors closed by one with tag zero, and an
  iterator walks over both. The surroundings of the library (the constant descriptor tables, the
  allocator and the user's callbacks) are an argument.
\<close>

section \<open>State\<close>

text \<open>
  \<open>w_heap\<close> is the allocator's own state. \<open>w_stuck\<close> is set when a loop or a recursion of the model ran
  out of the turns it was given; no run of the code corresponds to what follows.
\<close>

record 'h world =
  w_mem :: mem
  w_heap :: 'h
  w_stuck :: bool

text \<open>
  The decoder's stream and its local variable \<open>fixed_count_size\<close>, to which an iterator may point;
  the encoder's stream.
\<close>

record 'h dstate = "'h world" +
  d_in :: pb_istream
  d_fixed :: u32

record 'h estate = "'h world" +
  e_out :: pb_ostream

text \<open>
  The surroundings: the descriptor array at an address (with its terminator); \<open>pb_realloc\<close> and
  \<open>pb_free\<close>, the former returning zero for a null pointer; the user's functions by their address, for
  callback fields and for extensions; and how many turns the loops over callbacks and extension
  lists may take.
\<close>

record 'h pb_env =
  env_fields :: "nat \<Rightarrow> pb_field list"
  env_realloc :: "nat \<Rightarrow> nat \<Rightarrow> mem \<times> 'h \<Rightarrow> nat \<times> mem \<times> 'h"
  env_free :: "nat \<Rightarrow> mem \<times> 'h \<Rightarrow> mem \<times> 'h"
  env_decode :: "nat \<Rightarrow> pb_field \<Rightarrow> nat \<Rightarrow> ('h dstate, unit) opn"
  env_encode :: "nat \<Rightarrow> pb_field \<Rightarrow> nat \<Rightarrow> ('h estate, unit) opn"
  env_ext_decode :: "nat \<Rightarrow> nat \<Rightarrow> u32 \<Rightarrow> nat \<Rightarrow> ('h dstate, unit) opn"
  env_ext_encode :: "nat \<Rightarrow> nat \<Rightarrow> ('h estate, unit) opn"
  env_turns :: nat

definition stuck :: "('h, 'z) world_scheme \<Rightarrow> ('h, 'z) world_scheme" where
  "stuck s = s\<lparr>w_stuck := True\<rparr>"

definition put :: "nat \<Rightarrow> bytes \<Rightarrow> ('h, 'z) world_scheme \<Rightarrow> ('h, 'z) world_scheme" where
  "put a bs s = s\<lparr>w_mem := store_mem a bs (w_mem s)\<rparr>"

definition get :: "nat \<Rightarrow> nat \<Rightarrow> ('h, 'z) world_scheme \<Rightarrow> bytes" where
  "get a n s = load_mem (w_mem s) a n"

text \<open>Pointers are eight bytes, \<open>pb_size_t\<close> is four.\<close>

definition get_ptr :: "nat \<Rightarrow> ('h, 'z) world_scheme \<Rightarrow> nat" where
  "get_ptr a s = be_nat (rev (get a 8 s))"

definition put_ptr :: "nat \<Rightarrow> nat \<Rightarrow> ('h, 'z) world_scheme \<Rightarrow> ('h, 'z) world_scheme" where
  "put_ptr a p = put a (le_bytes 8 p)"

definition get_size :: "nat \<Rightarrow> ('h, 'z) world_scheme \<Rightarrow> u32" where
  "get_size a s = ucast (load_u (get a 4 s))"

definition put_size :: "nat \<Rightarrow> u32 \<Rightarrow> ('h, 'z) world_scheme \<Rightarrow> ('h, 'z) world_scheme" where
  "put_size a v = put a (le_bytes 4 (unat v))"

section \<open>Field types\<close>

definition PB_HTYPE :: "u8 \<Rightarrow> u8" where
  "PB_HTYPE x = x AND 0x30"

abbreviation (input) PB_HTYPE_REQUIRED :: u8 where "PB_HTYPE_REQUIRED \<equiv> 0x00"
abbreviation (input) PB_HTYPE_OPTIONAL :: u8 where "PB_HTYPE_OPTIONAL \<equiv> 0x10"
abbreviation (input) PB_HTYPE_REPEATED :: u8 where "PB_HTYPE_REPEATED \<equiv> 0x20"
abbreviation (input) PB_HTYPE_ONEOF :: u8 where "PB_HTYPE_ONEOF \<equiv> 0x30"
abbreviation (input) PB_ATYPE_CALLBACK :: u8 where "PB_ATYPE_CALLBACK \<equiv> 0x40"
abbreviation (input) PB_LTYPE_LAST_PACKABLE :: nat where "PB_LTYPE_LAST_PACKABLE \<equiv> 5"
abbreviation (input) PB_LTYPE_BYTES :: nat where "PB_LTYPE_BYTES \<equiv> 6"
abbreviation (input) PB_LTYPE_STRING :: nat where "PB_LTYPE_STRING \<equiv> 7"
abbreviation (input) PB_LTYPE_SUBMESSAGE :: nat where "PB_LTYPE_SUBMESSAGE \<equiv> 8"
abbreviation (input) PB_LTYPE_EXTENSION :: nat where "PB_LTYPE_EXTENSION \<equiv> 9"
abbreviation (input) PB_SIZE_MAX :: u32 where "PB_SIZE_MAX \<equiv> - 1"

abbreviation atype :: "pb_field \<Rightarrow> u8" where "atype f \<equiv> PB_ATYPE (f_type f)"
abbreviation htype :: "pb_field \<Rightarrow> u8" where "htype f \<equiv> PB_HTYPE (f_type f)"
abbreviation ltype :: "pb_field \<Rightarrow> nat" where "ltype f \<equiv> PB_LTYPE (f_type f)"

section \<open>The iterator\<close>

text \<open>
  \<open>pSize\<close> points into the memory, behind \<open>data\<close> by the signed \<open>size_offset\<close>, or to the decoder's
  \<open>fixed_count_size\<close>.
\<close>

datatype size_ref = At nat | Fixed_count

record pb_field_iter =
  it_start :: "pb_field list"
  it_pos :: nat
  it_required_field_index :: nat
  it_dest_struct :: nat
  it_pData :: nat
  it_pSize :: size_ref

definition it_field :: "pb_field_iter \<Rightarrow> pb_field" where
  "it_field it = it_start it ! it_pos it"

definition size_addr :: "nat \<Rightarrow> pb_field \<Rightarrow> nat" where
  "size_addr p f = nat (int p + sint (f_size_offset f))"

definition pb_field_iter_begin :: "pb_field list \<Rightarrow> nat \<Rightarrow> bool \<times> pb_field_iter" where
  "pb_field_iter_begin fs dest_struct =
     (let f = fs ! 0; pData = dest_struct + unat (f_data_offset f)
      in (f_tag f \<noteq> 0,
          \<lparr>it_start = fs, it_pos = 0, it_required_field_index = 0, it_dest_struct = dest_struct,
           it_pData = pData, it_pSize = At (size_addr pData f)\<rparr>))"

definition pb_field_iter_next :: "pb_field_iter \<Rightarrow> bool \<times> pb_field_iter" where
  "pb_field_iter_next it =
     (let prev_field = it_field it in
      if f_tag prev_field = 0 then (False, it)
      else let it = it\<lparr>it_pos := it_pos it + 1\<rparr>; f = it_field it in
        if f_tag f = 0 then (False, snd (pb_field_iter_begin (it_start it) (it_dest_struct it)))
        else let prev_size = unat (f_data_size prev_field) in
          if htype prev_field = PB_HTYPE_ONEOF \<and> htype f = PB_HTYPE_ONEOF \<and> f_data_offset f = PB_SIZE_MAX
          then (True, it)
          else let prev_size =
                     (if atype prev_field = PB_ATYPE_STATIC \<and> htype prev_field = PB_HTYPE_REPEATED
                      then prev_size * unat (f_array_size prev_field)
                      else if atype prev_field = PB_ATYPE_POINTER then 8
                      else prev_size);
                   it = (if htype prev_field = PB_HTYPE_REQUIRED
                         then it\<lparr>it_required_field_index := it_required_field_index it + 1\<rparr> else it);
                   pData = it_pData it + prev_size + unat (f_data_offset f)
            in (True, it\<lparr>it_pData := pData, it_pSize := At (size_addr pData f)\<rparr>))"

text \<open>
  The loops \<open>do ... while (iter->pos != start)\<close> go round the array at most once, so that its length
  bounds their turns.
\<close>

primrec iter_search :: "(pb_field \<Rightarrow> bool) \<Rightarrow> nat \<Rightarrow> nat \<Rightarrow> pb_field_iter \<Rightarrow> bool \<times> pb_field_iter" where
  "iter_search wanted 0 start it = (False, it)"
| "iter_search wanted (Suc k) start it =
     (if wanted (it_field it) then (True, it)
      else let it = snd (pb_field_iter_next it)
        in if it_pos it \<noteq> start then iter_search wanted k start it else (False, it))"

definition pb_field_iter_find :: "pb_field_iter \<Rightarrow> u32 \<Rightarrow> bool \<times> pb_field_iter" where
  "pb_field_iter_find it tag =
     iter_search (\<lambda>f. f_tag f = tag \<and> ltype f \<noteq> PB_LTYPE_EXTENSION) (length (it_start it)) (it_pos it) it"

definition find_extension_field :: "pb_field_iter \<Rightarrow> bool \<times> pb_field_iter" where
  "find_extension_field it = iter_search (\<lambda>f. ltype f = PB_LTYPE_EXTENSION) (length (it_start it)) (it_pos it) it"

text \<open>An action on every field of a message: \<open>do ... while (pb_field_iter_next(&iter))\<close>.\<close>

primrec iter_loop :: "(pb_field_iter \<Rightarrow> 's \<Rightarrow> 's) \<Rightarrow> nat \<Rightarrow> pb_field_iter \<Rightarrow> 's \<Rightarrow> 's" where
  "iter_loop act 0 it s = s"
| "iter_loop act (Suc k) it s =
     (let s = act it s; (more, it) = pb_field_iter_next it in if more then iter_loop act k it s else s)"

definition each_field :: "(pb_field_iter \<Rightarrow> 's \<Rightarrow> 's) \<Rightarrow> pb_field list \<Rightarrow> nat \<Rightarrow> 's \<Rightarrow> 's" where
  "each_field act fs dest_struct s =
     (case pb_field_iter_begin fs dest_struct of (nonempty, it) \<Rightarrow>
        if \<not> nonempty then s else iter_loop act (length fs) it s)"

end
