(* ===== verification/PbDecode.thy ===== *)
theory PbDecode
  imports PbIter
begin

unbundle bit_operations_syntax

text \<open>
  Decoding a message (nanopb/pb_decode.c): default values, static, pointer and callback fields, arrays,
  unions, submessages, extensions, required fields and the release of what was allocated. The
  recursion into submessages is tied at the end: a function that recurses takes what it calls as an
  argument, and the top-level ones take the depth of nesting the model follows. A failing function
  leaves the memory as far as it has come.
\<close>

section \<open>Streams in the state\<close>

definition on_in :: "(pb_istream, 'a) opn \<Rightarrow> ('h dstate, 'a) opn" where
  "on_in f = (\<lambda>s. case f (d_in s) of (r, i) \<Rightarrow> (r, s\<lparr>d_in := i\<rparr>))"

definition d_error :: "string \<Rightarrow> ('h dstate, 'a) opn" where
  "d_error msg = on_in (is_error msg)"

definition act :: "('s \<Rightarrow> 's) \<Rightarrow> ('s, unit) opn" where
  "act f = (\<lambda>s. (Some (), f s))"

definition act_stuck :: "('h dstate, 'a) opn" where
  "act_stuck = (\<lambda>s. (None, stuck s))"

text \<open>An operation on a local substream; its status and the substream it leaves.\<close>

definition on_substream :: "pb_istream \<Rightarrow> ('h dstate, unit) opn \<Rightarrow> ('h dstate, bool \<times> pb_istream) opn" where
  "on_substream sub f = (\<lambda>s. case f (s\<lparr>d_in := sub\<rparr>) of (r, s') \<Rightarrow> (Some (r \<noteq> None, d_in s'), s'\<lparr>d_in := d_in s\<rparr>))"

definition status :: "bool \<Rightarrow> ('s, unit) opn" where
  "status = op_check"

section \<open>Decoders of one value\<close>

text \<open>Those whose only writes are the value they decode.\<close>

definition dec_to :: "(pb_istream, bytes) opn \<Rightarrow> nat \<Rightarrow> ('h dstate, unit) opn" where
  "dec_to dec dest = op_bind (on_in dec) (\<lambda>bs. act (put dest bs))"

text \<open>The integers are stored before the check that nothing was lost.\<close>

definition pb_dec_varint_to :: "pb_field \<Rightarrow> nat \<Rightarrow> ('h dstate, unit) opn" where
  "pb_dec_varint_to field dest = op_bind (on_in pb_decode_varint) (\<lambda>value.
     let svalue = (if f_data_size field = 8 then value else signed_take_bit 31 value) in
     if \<not> int_size field then d_error ''invalid data_size''
     else op_seq (act (put dest (store_int (unat (f_data_size field)) svalue)))
       (if clamp_s field svalue \<noteq> svalue then d_error ''integer too large'' else op_ret ()))"

definition pb_dec_uvarint_to :: "pb_field \<Rightarrow> nat \<Rightarrow> ('h dstate, unit) opn" where
  "pb_dec_uvarint_to field dest = op_bind (on_in pb_decode_varint) (\<lambda>value.
     if \<not> int_size field then d_error ''invalid data_size''
     else op_seq (act (put dest (store_int (unat (f_data_size field)) value)))
       (if clamp_u field value \<noteq> value then d_error ''integer too large'' else op_ret ()))"

definition pb_dec_svarint_to :: "pb_field \<Rightarrow> nat \<Rightarrow> ('h dstate, unit) opn" where
  "pb_dec_svarint_to field dest = op_bind (on_in pb_decode_svarint) (\<lambda>value.
     if \<not> int_size field then d_error ''invalid data_size''
     else op_seq (act (put dest (store_int (unat (f_data_size field)) value)))
       (if clamp_s field value \<noteq> value then d_error ''integer too large'' else op_ret ()))"

text \<open>
  The checks of \<open>allocate_field\<close> are those of its model on streams; the memory comes from
  \<open>pb_realloc\<close>, and on failure the old pointer stays.
\<close>

definition allocate_at :: "'h pb_env \<Rightarrow> nat \<Rightarrow> nat \<Rightarrow> nat \<Rightarrow> ('h dstate, unit) opn" where
  "allocate_at env pData data_size array_size =
     op_seq (on_in (allocate_field (\<lambda>_. True) data_size array_size))
       (\<lambda>s. case env_realloc env (get_ptr pData s) (unat (of_nat array_size * of_nat data_size :: u64)) (w_mem s, w_heap s) of
          (p, m, h) \<Rightarrow> let s = s\<lparr>w_mem := m, w_heap := h\<rparr> in
            if p = 0 then d_error ''realloc failed'' s else (Some (), put_ptr pData p s))"

definition pb_dec_bytes_to :: "'h pb_env \<Rightarrow> pb_field \<Rightarrow> nat \<Rightarrow> ('h dstate, unit) opn" where
  "pb_dec_bytes_to env field dest = op_bind (on_in pb_decode_varint32) (\<lambda>sz s.
     let alloc_size = PB_BYTES_ARRAY_T_ALLOCSIZE (unat sz);
         read_to = (\<lambda>bdest. op_seq (act (put_size bdest sz)) (dec_to (pb_read (unat sz)) (bdest + 4))) in
     if unat sz > alloc_size then d_error ''size too large'' s
     else if atype field = PB_ATYPE_POINTER then
       if is_bytes_left (d_in s) < unat sz then d_error ''end-of-stream'' s
       else op_seq (allocate_at env dest alloc_size 1) (\<lambda>s. read_to (get_ptr dest s) s) s
     else if alloc_size > unat (f_data_size field) then d_error ''bytes overflow'' s
     else read_to dest s)"

text \<open>The terminator is written whether the read succeeds or not.\<close>

definition pb_dec_string_to :: "'h pb_env \<Rightarrow> pb_field \<Rightarrow> nat \<Rightarrow> ('h dstate, unit) opn" where
  "pb_dec_string_to env field dest = op_bind (on_in pb_decode_varint32) (\<lambda>sz s.
     let alloc_size = unat (sz + 1);
         read_to = (\<lambda>dest s. case dec_to (pb_read (unat sz)) dest s of (r, s) \<Rightarrow> (r, put (dest + unat sz) [0] s)) in
     if alloc_size < unat sz then d_error ''size too large'' s
     else if atype field = PB_ATYPE_POINTER then
       if is_bytes_left (d_in s) < unat sz then d_error ''end-of-stream'' s
       else op_seq (allocate_at env dest alloc_size 1) (\<lambda>s. read_to (get_ptr dest s) s) s
     else if alloc_size > unat (f_data_size field) then d_error ''string overflow'' s
     else read_to dest s)"

text \<open>
  \<open>msg init ptr dest\<close> decodes the message described at \<open>ptr\<close>, with \<open>pb_decode\<close> or with
  \<open>pb_decode_noinit\<close>.
\<close>

definition pb_dec_submessage ::
  "(bool \<Rightarrow> nat \<Rightarrow> nat \<Rightarrow> ('h dstate, unit) opn) \<Rightarrow> pb_field \<Rightarrow> nat \<Rightarrow> ('h dstate, unit) opn" where
  "pb_dec_submessage msg field dest = op_bind (on_in pb_make_string_substream) (\<lambda>sub.
     if f_ptr field = 0 then d_error ''invalid field descriptor''
     else op_bind (on_substream sub (msg (htype field = PB_HTYPE_REPEATED) (f_ptr field) dest)) (\<lambda>(ok, sub).
       op_seq (on_in (pb_close_string_substream sub)) (status ok)))"

text \<open>The table \<open>PB_DECODERS\<close>; its null entry is never called.\<close>

definition pb_decoder ::
  "'h pb_env \<Rightarrow> (bool \<Rightarrow> nat \<Rightarrow> nat \<Rightarrow> ('h dstate, unit) opn) \<Rightarrow> pb_field \<Rightarrow> nat \<Rightarrow> ('h dstate, unit) opn" where
  "pb_decoder env msg field dest =
     (let t = ltype field in
      if t = 0 then dec_to pb_dec_bool dest
      else if t = 1 then pb_dec_varint_to field dest
      else if t = 2 then pb_dec_uvarint_to field dest
      else if t = 3 then pb_dec_svarint_to field dest
      else if t = 4 then dec_to pb_dec_fixed32 dest
      else if t = 5 then dec_to pb_dec_fixed64 dest
      else if t = PB_LTYPE_BYTES then pb_dec_bytes_to env field dest
      else if t = PB_LTYPE_STRING then pb_dec_string_to env field dest
      else if t = PB_LTYPE_SUBMESSAGE then pb_dec_submessage msg field dest
      else if t = 10 then dec_to (pb_dec_fixed_length_bytes field) dest
      else act_stuck)"

section \<open>Extensions\<close>

text \<open>
  A \<open>pb_extension_t\<close> is the pointers to its type, its data and the next extension and the flag
  \<open>found\<close>; its type is the two user functions and an argument, for the default handlers the
  descriptor of the field.
\<close>

abbreviation (input) ext_type :: "nat \<Rightarrow> ('h, 'z) world_scheme \<Rightarrow> nat" where "ext_type e \<equiv> get_ptr e"
abbreviation (input) ext_dest :: "nat \<Rightarrow> ('h, 'z) world_scheme \<Rightarrow> nat" where "ext_dest e \<equiv> get_ptr (e + 8)"
abbreviation (input) ext_next :: "nat \<Rightarrow> ('h, 'z) world_scheme \<Rightarrow> nat" where "ext_next e \<equiv> get_ptr (e + 16)"
abbreviation (input) ext_found :: "nat \<Rightarrow> nat" where "ext_found e \<equiv> e + 24"

definition iter_from_extension :: "'h pb_env \<Rightarrow> nat \<Rightarrow> ('h, 'z) world_scheme \<Rightarrow> pb_field_iter" where
  "iter_from_extension env e s =
     (let fs = env_fields env (get_ptr (ext_type e s + 16) s);
          it = snd (pb_field_iter_begin fs (ext_dest e s))
      in it\<lparr>it_pData := if atype (fs ! 0) = PB_ATYPE_POINTER then e + 8 else ext_dest e s,
            it_pSize := At (ext_found e)\<rparr>)"

section \<open>Default values\<close>

text \<open>\<open>rec\<close> is \<open>pb_field_set_to_default\<close> itself, for extensions and the fields of a submessage.\<close>

primrec defaults_of_extensions ::
  "'h pb_env \<Rightarrow> (pb_field_iter \<Rightarrow> 'h dstate \<Rightarrow> 'h dstate) \<Rightarrow> nat \<Rightarrow> nat \<Rightarrow> 'h dstate \<Rightarrow> 'h dstate" where
  "defaults_of_extensions env rec 0 e s = (if e \<noteq> 0 then stuck s else s)"
| "defaults_of_extensions env rec (Suc k) e s =
     (if e \<noteq> 0
      then let s = put (ext_found e) [0] s; s = rec (iter_from_extension env e s) s
        in defaults_of_extensions env rec k (ext_next e s) s
      else s)"

definition field_default ::
  "'h pb_env \<Rightarrow> (pb_field_iter \<Rightarrow> 'h dstate \<Rightarrow> 'h dstate) \<Rightarrow> pb_field_iter \<Rightarrow> 'h dstate \<Rightarrow> 'h dstate" where
  "field_default env rec it s =
     (let f = it_field it; pData = it_pData it; ps = (case it_pSize it of At a \<Rightarrow> a | Fixed_count \<Rightarrow> 0) in
      if ltype f = PB_LTYPE_EXTENSION then defaults_of_extensions env rec (env_turns env) (get_ptr pData s) s
      else if atype f = PB_ATYPE_STATIC then
        let (s, init_data) =
              (if htype f = PB_HTYPE_OPTIONAL \<and> it_pSize it \<noteq> At pData then (put ps [0] s, True)
               else if htype f = PB_HTYPE_REPEATED \<or> htype f = PB_HTYPE_ONEOF then (put_size ps 0 s, False)
               else (s, True))
        in if init_data then
             if ltype f = PB_LTYPE_SUBMESSAGE then each_field rec (env_fields env (f_ptr f)) pData s
             else if f_ptr f \<noteq> 0 then put pData (get (f_ptr f) (unat (f_data_size f)) s) s
             else put pData (replicate (unat (f_data_size f)) 0) s
           else s
      else if atype f = PB_ATYPE_POINTER then
        let s = put_ptr pData 0 s
        in if htype f = PB_HTYPE_REPEATED \<or> htype f = PB_HTYPE_ONEOF then put_size ps 0 s else s
      else s)"

primrec pb_field_set_to_default :: "'h pb_env \<Rightarrow> nat \<Rightarrow> pb_field_iter \<Rightarrow> 'h dstate \<Rightarrow> 'h dstate" where
  "pb_field_set_to_default env 0 it s = stuck s"
| "pb_field_set_to_default env (Suc n) it s = field_default env (pb_field_set_to_default env n) it s"

definition pb_message_set_to_defaults :: "'h pb_env \<Rightarrow> nat \<Rightarrow> pb_field list \<Rightarrow> nat \<Rightarrow> 'h dstate \<Rightarrow> 'h dstate" where
  "pb_message_set_to_defaults env n fs dest_struct s = each_field (pb_field_set_to_default env n) fs dest_struct s"

section \<open>Counts\<close>

definition get_count :: "pb_field_iter \<Rightarrow> 'h dstate \<Rightarrow> u32" where
  "get_count it s = (case it_pSize it of At a \<Rightarrow> get_size a s | Fixed_count \<Rightarrow> d_fixed s)"

definition put_count :: "pb_field_iter \<Rightarrow> u32 \<Rightarrow> 'h dstate \<Rightarrow> 'h dstate" where
  "put_count it v s = (case it_pSize it of At a \<Rightarrow> put_size a v s | Fixed_count \<Rightarrow> s\<lparr>d_fixed := v\<rparr>)"

section \<open>Release\<close>

definition pb_free :: "'h pb_env \<Rightarrow> nat \<Rightarrow> 'h dstate \<Rightarrow> 'h dstate" where
  "pb_free env p s = (case env_free env p (w_mem s, w_heap s) of (m, h) \<Rightarrow> s\<lparr>w_mem := m, w_heap := h\<rparr>)"

primrec release_extensions ::
  "'h pb_env \<Rightarrow> (pb_field_iter \<Rightarrow> 'h dstate \<Rightarrow> 'h dstate) \<Rightarrow> nat \<Rightarrow> nat \<Rightarrow> 'h dstate \<Rightarrow> 'h dstate" where
  "release_extensions env rec 0 e s = (if e \<noteq> 0 then stuck s else s)"
| "release_extensions env rec (Suc k) e s =
     (if e \<noteq> 0
      then let s = rec (iter_from_extension env e s) s in release_extensions env rec k (ext_next e s) s
      else s)"

definition release_contents ::
  "'h pb_env \<Rightarrow> (pb_field_iter \<Rightarrow> 'h dstate \<Rightarrow> 'h dstate) \<Rightarrow> pb_field_iter \<Rightarrow> 'h dstate \<Rightarrow> 'h dstate" where
  "release_contents env rec it s =
     (let f = it_field it in
      if ltype f = PB_LTYPE_EXTENSION then release_extensions env rec (env_turns env) (get_ptr (it_pData it) s) s
      else if ltype f = PB_LTYPE_SUBMESSAGE \<and> atype f \<noteq> PB_ATYPE_CALLBACK then
        let pItem = (if atype f = PB_ATYPE_POINTER then get_ptr (it_pData it) s else it_pData it);
            count = (if htype f = PB_HTYPE_REPEATED
                     then let count = (if atype f = PB_ATYPE_STATIC \<and> it_pSize it = At (it_pData it)
                                       then f_array_size f else get_count it s)
                       in if atype f = PB_ATYPE_STATIC \<and> count > f_array_size f then f_array_size f else count
                     else 1)
        in if pItem \<noteq> 0
           then fold (\<lambda>i. each_field rec (env_fields env (f_ptr f)) (pItem + unat (f_data_size f) * i)) [0..<unat count] s
           else s
      else s)"

definition release_field ::
  "'h pb_env \<Rightarrow> (pb_field_iter \<Rightarrow> 'h dstate \<Rightarrow> 'h dstate) \<Rightarrow> pb_field_iter \<Rightarrow> 'h dstate \<Rightarrow> 'h dstate" where
  "release_field env rec it s =
     (let f = it_field it in
      if htype f = PB_HTYPE_ONEOF \<and> get_count it s \<noteq> f_tag f then s
      else let s = release_contents env rec it s in
        if atype f = PB_ATYPE_POINTER then
          let s = (if htype f = PB_HTYPE_REPEATED \<and> (ltype f = PB_LTYPE_STRING \<or> ltype f = PB_LTYPE_BYTES)
                   then let pItem = get_ptr (it_pData it) s
                     in fold (\<lambda>i s. put_ptr (pItem + 8 * i) 0 (pb_free env (get_ptr (pItem + 8 * i) s) s))
                          [0..<unat (get_count it s)] s
                   else s);
              s = (if htype f = PB_HTYPE_REPEATED then put_count it 0 s else s)
          in put_ptr (it_pData it) 0 (pb_free env (get_ptr (it_pData it) s) s)
        else s)"

primrec pb_release_single_field :: "'h pb_env \<Rightarrow> nat \<Rightarrow> pb_field_iter \<Rightarrow> 'h dstate \<Rightarrow> 'h dstate" where
  "pb_release_single_field env 0 it s = stuck s"
| "pb_release_single_field env (Suc n) it s = release_field env (pb_release_single_field env n) it s"

definition pb_release :: "'h pb_env \<Rightarrow> nat \<Rightarrow> pb_field list \<Rightarrow> nat \<Rightarrow> 'h dstate \<Rightarrow> 'h dstate" where
  "pb_release env n fs dest_struct s =
     (if dest_struct = 0 then s else each_field (pb_release_single_field env n) fs dest_struct s)"

text \<open>The other member of a union is released before a new one is stored.\<close>

definition pb_release_union_field :: "'h pb_env \<Rightarrow> nat \<Rightarrow> pb_field_iter \<Rightarrow> ('h dstate, pb_field_iter) opn" where
  "pb_release_union_field env n it = (\<lambda>s.
     let old_tag = get_count it s; new_tag = f_tag (it_field it) in
     if old_tag = 0 \<or> old_tag = new_tag then (Some it, s)
     else case pb_field_iter_find it old_tag of (found, it) \<Rightarrow>
       if \<not> found then d_error ''invalid union tag'' s
       else let s = pb_release_single_field env n it s in
         case pb_field_iter_find it new_tag of (found, it) \<Rightarrow>
           if \<not> found then d_error ''iterator error'' s
           else (Some it, if atype (it_field it) = PB_ATYPE_POINTER then put_ptr (it_pData it) 0 s else s))"

section \<open>Static fields\<close>

text \<open>
  The loop over a packed array takes an element from the substream in every turn, so that its length
  bounds the turns.
\<close>

primrec packed_loop :: "(pb_field \<Rightarrow> nat \<Rightarrow> ('h dstate, unit) opn) \<Rightarrow> pb_field_iter \<Rightarrow> nat \<Rightarrow> ('h dstate, unit) opn" where
  "packed_loop func it 0 s =
     (if is_bytes_left (d_in s) > 0 \<and> get_count it s < f_array_size (it_field it) then act_stuck s else (Some (), s))"
| "packed_loop func it (Suc k) s =
     (if is_bytes_left (d_in s) > 0 \<and> get_count it s < f_array_size (it_field it)
      then let pItem = it_pData it + unat (f_data_size (it_field it)) * unat (get_count it s)
        in op_seq (func (it_field it) pItem)
             (op_seq (\<lambda>s. act (put_count it (get_count it s + 1)) s) (packed_loop func it k)) s
      else (Some (), s))"

definition decode_static_field ::
  "'h pb_env \<Rightarrow> nat \<Rightarrow> (pb_field \<Rightarrow> nat \<Rightarrow> ('h dstate, unit) opn) \<Rightarrow> nat \<Rightarrow> pb_field_iter \<Rightarrow> ('h dstate, unit) opn" where
  "decode_static_field env n func wire_type it =
     (let f = it_field it; pData = it_pData it in
      if htype f = PB_HTYPE_REQUIRED then func f pData
      else if htype f = PB_HTYPE_OPTIONAL then
        op_seq (act (case it_pSize it of At a \<Rightarrow> if a \<noteq> pData then put a [1] else id
                     | Fixed_count \<Rightarrow> (\<lambda>s. s\<lparr>d_fixed := (d_fixed s AND NOT 0xFF) OR 1\<rparr>))) (func f pData)
      else if htype f = PB_HTYPE_REPEATED then
        if wire_type = PB_WT_STRING \<and> ltype f \<le> PB_LTYPE_LAST_PACKABLE then
          op_bind (on_in pb_make_string_substream) (\<lambda>sub.
          op_bind (on_substream sub (packed_loop func it (is_bytes_left sub))) (\<lambda>(ok, sub).
            if is_bytes_left sub \<noteq> 0 then d_error ''array overflow''
            else op_seq (on_in (pb_close_string_substream sub)) (status ok)))
        else (\<lambda>s. let sz = get_count it s; pItem = pData + unat (f_data_size f) * unat sz; s = put_count it (sz + 1) s in
          if sz \<ge> f_array_size f then d_error ''array overflow'' s else func f pItem s)
      else
        op_seq (\<lambda>s. if ltype f = PB_LTYPE_SUBMESSAGE \<and> get_count it s \<noteq> f_tag f
                    then (Some (), pb_message_set_to_defaults env n (env_fields env (f_ptr f)) pData
                            (put pData (replicate (unat (f_data_size f)) 0) s))
                    else (Some (), s))
          (op_seq (act (put_count it (f_tag f))) (func f pData)))"

section \<open>Pointer fields\<close>

definition initialize_pointer_field :: "'h pb_env \<Rightarrow> nat \<Rightarrow> nat \<Rightarrow> pb_field_iter \<Rightarrow> 'h dstate \<Rightarrow> 'h dstate" where
  "initialize_pointer_field env n pItem it s =
     (let f = it_field it in
      if ltype f = PB_LTYPE_STRING \<or> ltype f = PB_LTYPE_BYTES then put_ptr pItem 0 s
      else if ltype f = PB_LTYPE_SUBMESSAGE then
        pb_message_set_to_defaults env n (env_fields env (f_ptr f)) pItem (put pItem (replicate (unat (f_data_size f)) 0) s)
      else s)"

text \<open>
  Items are added until the substream is empty, so that its length bounds the turns. The message
  ``too many array entries'' goes to the parent stream, whose message the closing of the substream
  replaces.
\<close>

primrec pointer_packed_loop ::
  "'h pb_env \<Rightarrow> nat \<Rightarrow> (pb_field \<Rightarrow> nat \<Rightarrow> ('h dstate, unit) opn) \<Rightarrow> pb_field_iter \<Rightarrow> nat \<Rightarrow> nat \<Rightarrow> ('h dstate, unit) opn" where
  "pointer_packed_loop env n func it 0 allocated s =
     (if is_bytes_left (d_in s) \<noteq> 0 then act_stuck s else (Some (), s))"
| "pointer_packed_loop env n func it (Suc k) allocated s =
     (if is_bytes_left (d_in s) \<noteq> 0 then
        let f = it_field it; sz = get_count it s in
        if sz = PB_SIZE_MAX then (None, s)
        else let grow = unat sz + 1 > allocated;
                 remain = (is_bytes_left (d_in s) - 1) div unat (f_data_size f) + 1;
                 allocated = (if \<not> grow then allocated
                              else if remain < unat PB_SIZE_MAX - allocated then allocated + remain
                              else allocated + 1)
          in op_seq (if grow then allocate_at env (it_pData it) (unat (f_data_size f)) allocated else op_ret ())
               (\<lambda>s. let pItem = get_ptr (it_pData it) s + unat (f_data_size f) * unat sz in
                  op_seq (act (initialize_pointer_field env n pItem it))
                    (op_seq (func f pItem)
                       (op_seq (\<lambda>s. act (put_count it (get_count it s + 1)) s)
                          (pointer_packed_loop env n func it k allocated))) s) s
      else (Some (), s))"

definition decode_pointer_field ::
  "'h pb_env \<Rightarrow> nat \<Rightarrow> (pb_field \<Rightarrow> nat \<Rightarrow> ('h dstate, unit) opn) \<Rightarrow> nat \<Rightarrow> pb_field_iter \<Rightarrow> ('h dstate, unit) opn" where
  "decode_pointer_field env n func wire_type it =
     (let f = it_field it; pData = it_pData it in
      if htype f = PB_HTYPE_REPEATED then
        if wire_type = PB_WT_STRING \<and> ltype f \<le> PB_LTYPE_LAST_PACKABLE then
          (\<lambda>s. let allocated = unat (get_count it s) in
            op_bind (on_in pb_make_string_substream) (\<lambda>sub.
            op_bind (on_substream sub (pointer_packed_loop env n func it (is_bytes_left sub) allocated)) (\<lambda>(ok, sub).
              op_seq (on_in (pb_close_string_substream sub)) (status ok))) s)
        else (\<lambda>s. let sz = get_count it s in
          if sz = PB_SIZE_MAX then d_error ''too many array entries'' s
          else op_seq (allocate_at env pData (unat (f_data_size f)) (unat (sz + 1)))
            (\<lambda>s. let pItem = get_ptr pData s + unat (f_data_size f) * unat sz;
                     s = initialize_pointer_field env n pItem it (put_count it (sz + 1) s)
              in func f pItem s) s)
      else
        op_seq (\<lambda>s. (Some (), if ltype f = PB_LTYPE_SUBMESSAGE \<and> get_ptr pData s \<noteq> 0
                             then pb_release_single_field env n it s else s))
          (op_seq (act (if htype f = PB_HTYPE_ONEOF then put_count it (f_tag f) else id))
             (if ltype f = PB_LTYPE_STRING \<or> ltype f = PB_LTYPE_BYTES then func f pData
              else op_seq (allocate_at env pData (unat (f_data_size f)) 1)
                (\<lambda>s. func f (get_ptr pData s) (initialize_pointer_field env n (get_ptr pData s) it s)))))"

section \<open>Callback fields\<close>

text \<open>
  A \<open>pb_callback_t\<close> is the address of the user's function and its argument. The function may leave
  its substream untouched, and the loop then runs on.
\<close>

primrec callback_loop :: "('h dstate, unit) opn \<Rightarrow> nat \<Rightarrow> ('h dstate, unit) opn" where
  "callback_loop f 0 s = act_stuck s"
| "callback_loop f (Suc k) s =
     (case f s of (None, s) \<Rightarrow> (None, s)
      | (Some _, s) \<Rightarrow> if is_bytes_left (d_in s) \<noteq> 0 then callback_loop f k s else (Some (), s))"

definition decode_callback_field :: "'h pb_env \<Rightarrow> nat \<Rightarrow> pb_field_iter \<Rightarrow> ('h dstate, unit) opn" where
  "decode_callback_field env wire_type it = (\<lambda>s.
     let funcs_decode = get_ptr (it_pData it) s;
         call = env_decode env funcs_decode (it_field it) (it_pData it + 8) in
     if it_pData it = 0 \<or> funcs_decode = 0 then on_in (pb_skip_field wire_type) s
     else if wire_type = PB_WT_STRING then
       op_bind (on_in pb_make_string_substream) (\<lambda>sub.
       op_bind (on_substream sub (callback_loop call (env_turns env))) (\<lambda>(ok, sub).
         if \<not> ok then d_error ''callback failed''
         else on_in (pb_close_string_substream sub))) s
     else
       op_bind (on_in (read_raw_value wire_type 10)) (\<lambda>buffer.
       op_bind (on_substream (pb_istream_from_buffer buffer (length buffer)) call) (\<lambda>(ok, sub). status ok)) s)"

section \<open>One field of a message\<close>

text \<open>The release of another member of a union moves the iterator away and back.\<close>

definition decode_field ::
  "'h pb_env \<Rightarrow> nat \<Rightarrow> (bool \<Rightarrow> nat \<Rightarrow> nat \<Rightarrow> ('h dstate, unit) opn) \<Rightarrow> nat \<Rightarrow> pb_field_iter \<Rightarrow> ('h dstate, pb_field_iter) opn" where
  "decode_field env n msg wire_type it =
     op_bind (if htype (it_field it) = PB_HTYPE_ONEOF then pb_release_union_field env n it else op_ret it) (\<lambda>it.
       let func = pb_decoder env msg in
       op_map (\<lambda>_. it)
         (if atype (it_field it) = PB_ATYPE_STATIC then decode_static_field env n func wire_type it
          else if atype (it_field it) = PB_ATYPE_POINTER then decode_pointer_field env n func wire_type it
          else if atype (it_field it) = PB_ATYPE_CALLBACK then decode_callback_field env wire_type it
          else d_error ''invalid field type''))"

definition default_extension_decoder ::
  "'h pb_env \<Rightarrow> nat \<Rightarrow> (bool \<Rightarrow> nat \<Rightarrow> nat \<Rightarrow> ('h dstate, unit) opn) \<Rightarrow> nat \<Rightarrow> u32 \<Rightarrow> nat \<Rightarrow> ('h dstate, unit) opn" where
  "default_extension_decoder env n msg e tag wire_type = (\<lambda>s.
     let f = env_fields env (get_ptr (ext_type e s + 16) s) ! 0 in
     if f_tag f \<noteq> tag then (Some (), s)
     else let it = iter_from_extension env e s
       in op_map (\<lambda>_. ()) (decode_field env n msg wire_type it) (put (ext_found e) [1] s))"

primrec decode_extensions ::
  "'h pb_env \<Rightarrow> nat \<Rightarrow> (bool \<Rightarrow> nat \<Rightarrow> nat \<Rightarrow> ('h dstate, unit) opn) \<Rightarrow> nat \<Rightarrow> nat \<Rightarrow> u32 \<Rightarrow> nat \<Rightarrow> nat \<Rightarrow> ('h dstate, unit) opn" where
  "decode_extensions env n msg 0 e tag wire_type pos s =
     (if e \<noteq> 0 \<and> pos = is_bytes_left (d_in s) then act_stuck s else (Some (), s))"
| "decode_extensions env n msg (Suc k) e tag wire_type pos s =
     (if e \<noteq> 0 \<and> pos = is_bytes_left (d_in s)
      then let decode = get_ptr (ext_type e s) s in
        op_seq (if decode \<noteq> 0 then env_ext_decode env decode e tag wire_type
                else default_extension_decoder env n msg e tag wire_type)
          (\<lambda>s. decode_extensions env n msg k (ext_next e s) tag wire_type pos s) s
      else (Some (), s))"

definition decode_extension ::
  "'h pb_env \<Rightarrow> nat \<Rightarrow> (bool \<Rightarrow> nat \<Rightarrow> nat \<Rightarrow> ('h dstate, unit) opn) \<Rightarrow> u32 \<Rightarrow> nat \<Rightarrow> pb_field_iter \<Rightarrow> ('h dstate, unit) opn" where
  "decode_extension env n msg tag wire_type it = (\<lambda>s.
     decode_extensions env n msg (env_turns env) (get_ptr (it_pData it) s) tag wire_type (is_bytes_left (d_in s)) s)"

section \<open>A message\<close>

text \<open>
  The local variables of \<open>pb_decode_noinit\<close>, apart from \<open>fixed_count_size\<close>: the iterator, one bit per
  required field seen, the tag from which extensions are tried and the position of the repeated
  field of fixed count that is being received.
\<close>

record pb_locals =
  l_iter :: pb_field_iter
  l_fields_seen :: "u32 list"
  l_extension_range_start :: u32
  l_fixed_count_field :: "nat option"

abbreviation (input) PB_MAX_REQUIRED_FIELDS :: nat where "PB_MAX_REQUIRED_FIELDS \<equiv> 64"

definition fixed_count_check :: "pb_locals \<Rightarrow> ('h dstate, unit) opn" where
  "fixed_count_check l = (\<lambda>s. case l_fixed_count_field l of
       None \<Rightarrow> (Some (), s)
     | Some p \<Rightarrow> if d_fixed s \<noteq> f_array_size (it_start (l_iter l) ! p)
                 then d_error ''wrong size for fixed count field'' s else (Some (), s))"

text \<open>A field whose tag the descriptor does not have: an extension, or skipped.\<close>

definition decode_unknown ::
  "'h pb_env \<Rightarrow> nat \<Rightarrow> (bool \<Rightarrow> nat \<Rightarrow> nat \<Rightarrow> ('h dstate, unit) opn) \<Rightarrow> u32 \<Rightarrow> nat \<Rightarrow> pb_locals \<Rightarrow> ('h dstate, pb_locals) opn" where
  "decode_unknown env n msg tag wire_type l =
     (let skip = (\<lambda>l. op_map (\<lambda>_. l) (on_in (pb_skip_field wire_type))) in
      if tag \<ge> l_extension_range_start l then
        case find_extension_field (l_iter l) of (found, it) \<Rightarrow>
          let l = l\<lparr>l_iter := it, l_extension_range_start := if found then f_tag (it_field it) else - 1\<rparr> in
          if tag \<ge> l_extension_range_start l then
            (\<lambda>s. let pos = is_bytes_left (d_in s) in
               op_seq (decode_extension env n msg tag wire_type it)
                 (\<lambda>s. if pos \<noteq> is_bytes_left (d_in s) then (Some l, s) else skip l s) s)
          else skip l
      else skip l)"

definition see_required :: "pb_field_iter \<Rightarrow> u32 list \<Rightarrow> u32 list" where
  "see_required it seen =
     (let i = it_required_field_index it in
      if htype (it_field it) = PB_HTYPE_REQUIRED \<and> i < PB_MAX_REQUIRED_FIELDS
      then seen[i div 32 := seen ! (i div 32) OR push_bit (i mod 32) 1] else seen)"

definition decode_known ::
  "'h pb_env \<Rightarrow> nat \<Rightarrow> (bool \<Rightarrow> nat \<Rightarrow> nat \<Rightarrow> ('h dstate, unit) opn) \<Rightarrow> nat \<Rightarrow> pb_locals \<Rightarrow> ('h dstate, pb_locals) opn" where
  "decode_known env n msg wire_type l =
     (let it = l_iter l in
      op_bind
        (if htype (it_field it) = PB_HTYPE_REPEATED \<and> it_pSize it = At (it_pData it)
         then op_bind (if l_fixed_count_field l \<noteq> Some (it_pos it)
                       then op_seq (fixed_count_check l)
                              (op_seq (act (\<lambda>s. s\<lparr>d_fixed := 0\<rparr>)) (op_ret (l\<lparr>l_fixed_count_field := Some (it_pos it)\<rparr>)))
                       else op_ret l)
                (\<lambda>l. op_ret (l\<lparr>l_iter := it\<lparr>it_pSize := Fixed_count\<rparr>\<rparr>))
         else op_ret l)
        (\<lambda>l. let l = l\<lparr>l_fields_seen := see_required (l_iter l) (l_fields_seen l)\<rparr> in
           op_map (\<lambda>it. l\<lparr>l_iter := it\<rparr>) (decode_field env n msg wire_type (l_iter l))))"

text \<open>One turn of the main loop; \<open>None\<close> instead of the locals is its \<open>break\<close>.\<close>

definition decode_turn ::
  "'h pb_env \<Rightarrow> nat \<Rightarrow> (bool \<Rightarrow> nat \<Rightarrow> nat \<Rightarrow> ('h dstate, unit) opn) \<Rightarrow> pb_locals \<Rightarrow> ('h dstate, pb_locals option) opn" where
  "decode_turn env n msg l = (\<lambda>s. case pb_decode_tag (d_in s) of ((r, eof), i) \<Rightarrow>
     let s = s\<lparr>d_in := i\<rparr> in
     case r of
       None \<Rightarrow> if eof then (Some None, s) else (None, s)
     | Some (wire_type, tag) \<Rightarrow>
         (case pb_field_iter_find (l_iter l) tag of (found, it) \<Rightarrow>
            let l = l\<lparr>l_iter := it\<rparr> in
            op_map Some (if found then decode_known env n msg wire_type l else decode_unknown env n msg tag wire_type l) s))"

text \<open>Every turn takes a tag from the stream, so that its length bounds the turns.\<close>

primrec decode_loop ::
  "(pb_locals \<Rightarrow> ('h dstate, pb_locals option) opn) \<Rightarrow> nat \<Rightarrow> pb_locals \<Rightarrow> ('h dstate, pb_locals) opn" where
  "decode_loop turn 0 l s = (if is_bytes_left (d_in s) \<noteq> 0 then act_stuck s else (Some l, s))"
| "decode_loop turn (Suc k) l s =
     (if is_bytes_left (d_in s) \<noteq> 0
      then op_bind (turn l) (\<lambda>r. case r of None \<Rightarrow> op_ret l | Some l \<Rightarrow> decode_loop turn k l) s
      else (Some l, s))"

text \<open>
  The number of required fields is found by running the iterator to the end; the bits of the fields
  seen are then compared word by word.
\<close>

primrec seek_end :: "nat \<Rightarrow> pb_field_iter \<Rightarrow> nat \<times> u8 \<times> pb_field_iter" where
  "seek_end 0 it = (it_required_field_index it, f_type (it_field it), it)"
| "seek_end (Suc k) it =
     (case pb_field_iter_next it of (again, it') \<Rightarrow>
        if again then seek_end k it' else (it_required_field_index it, f_type (it_field it), it'))"

definition req_field_count :: "pb_field_iter \<Rightarrow> nat" where
  "req_field_count it =
     (case seek_end (length (it_start it)) it of (n, last_type, it) \<Rightarrow>
        let n = (if PB_HTYPE last_type = PB_HTYPE_REQUIRED \<and> f_tag (it_field it) \<noteq> 0 then n + 1 else n)
        in if n > PB_MAX_REQUIRED_FIELDS then PB_MAX_REQUIRED_FIELDS else n)"

definition required_check :: "pb_locals \<Rightarrow> ('h dstate, unit) opn" where
  "required_check l =
     (let n = req_field_count (l_iter l); seen = l_fields_seen l in
      if n > 0 \<and> list_ex (\<lambda>i. seen ! i \<noteq> - 1) [0..<n div 32] then d_error ''missing required field''
      else if n > 0 \<and> n mod 32 \<noteq> 0 \<and> seen ! (n div 32) \<noteq> drop_bit (32 - n mod 32) (- 1)
      then d_error ''missing required field''
      else op_ret ())"

definition decode_message ::
  "'h pb_env \<Rightarrow> nat \<Rightarrow> (bool \<Rightarrow> nat \<Rightarrow> nat \<Rightarrow> ('h dstate, unit) opn) \<Rightarrow> pb_field list \<Rightarrow> nat \<Rightarrow> ('h dstate, unit) opn" where
  "decode_message env n msg fs dest_struct = (\<lambda>s.
     let l = \<lparr>l_iter = snd (pb_field_iter_begin fs dest_struct), l_fields_seen = [0, 0],
              l_extension_range_start = 0, l_fixed_count_field = None\<rparr>;
         outer = d_fixed s
     in case op_bind (decode_loop (decode_turn env n msg) (is_bytes_left (d_in s)) l)
               (\<lambda>l. op_seq (fixed_count_check l) (required_check l)) (s\<lparr>d_fixed := 0\<rparr>) of
          (r, s') \<Rightarrow> (r, s'\<lparr>d_fixed := outer\<rparr>))"

text \<open>\<open>n\<close> is the depth of nesting that the model follows.\<close>

definition pb_decode_with ::
  "'h pb_env \<Rightarrow> nat \<Rightarrow> (pb_field list \<Rightarrow> nat \<Rightarrow> ('h dstate, unit) opn) \<Rightarrow> pb_field list \<Rightarrow> nat \<Rightarrow> ('h dstate, unit) opn" where
  "pb_decode_with env n noinit fs dest_struct = (\<lambda>s.
     case noinit fs dest_struct (pb_message_set_to_defaults env n fs dest_struct s) of
       (None, s) \<Rightarrow> (None, pb_release env n fs dest_struct s)
     | (Some u, s) \<Rightarrow> (Some u, s))"

primrec pb_decode_noinit :: "'h pb_env \<Rightarrow> nat \<Rightarrow> pb_field list \<Rightarrow> nat \<Rightarrow> ('h dstate, unit) opn" where
  "pb_decode_noinit env 0 fs dest_struct = act_stuck"
| "pb_decode_noinit env (Suc n) fs dest_struct =
     decode_message env (Suc n)
       (\<lambda>init ptr dest. if init then pb_decode_with env n (pb_decode_noinit env n) (env_fields env ptr) dest
                        else pb_decode_noinit env n (env_fields env ptr) dest) fs dest_struct"

definition pb_decode :: "'h pb_env \<Rightarrow> nat \<Rightarrow> pb_field list \<Rightarrow> nat \<Rightarrow> ('h dstate, unit) opn" where
  "pb_decode env n = pb_decode_with env n (pb_decode_noinit env n)"

definition pb_decode_delimited_noinit :: "'h pb_env \<Rightarrow> nat \<Rightarrow> pb_field list \<Rightarrow> nat \<Rightarrow> ('h dstate, unit) opn" where
  "pb_decode_delimited_noinit env n fs dest_struct = op_bind (on_in pb_make_string_substream) (\<lambda>sub.
     op_bind (on_substream sub (pb_decode_noinit env n fs dest_struct)) (\<lambda>(ok, sub).
       op_seq (on_in (pb_close_string_substream sub)) (status ok)))"

definition pb_decode_delimited :: "'h pb_env \<Rightarrow> nat \<Rightarrow> pb_field list \<Rightarrow> nat \<Rightarrow> ('h dstate, unit) opn" where
  "pb_decode_delimited env n fs dest_struct = op_bind (on_in pb_make_string_substream) (\<lambda>sub.
     op_bind (on_substream sub (pb_decode env n fs dest_struct)) (\<lambda>(ok, sub).
       op_seq (on_in (pb_close_string_substream sub)) (status ok)))"

definition pb_decode_nullterminated :: "'h pb_env \<Rightarrow> nat \<Rightarrow> pb_field list \<Rightarrow> nat \<Rightarrow> ('h dstate, unit) opn" where
  "pb_decode_nullterminated = pb_decode"

end
