(* ===== verification/PbEncode.thy ===== *)
theory PbEncode
  imports PbIter
begin

unbundle bit_operations_syntax

text \<open>
  Encoding a message (nanopb/pb_encode.c): static, pointer and callback fields, packed and unpacked
  arrays, submessages with their length found by a sizing pass, extensions and the three top-level
  forms. As in the decoder, what recurses takes what it calls as an argument, and the top-level
  functions take the depth of nesting the model follows.
\<close>

section \<open>Streams in the state\<close>

definition on_out :: "(pb_ostream, 'a) opn \<Rightarrow> ('h estate, 'a) opn" where
  "on_out f = (\<lambda>s. case f (e_out s) of (r, out) \<Rightarrow> (r, s\<lparr>e_out := out\<rparr>))"

definition e_error :: "string \<Rightarrow> ('h estate, 'a) opn" where
  "e_error msg = on_out (os_error msg)"

definition enc_stuck :: "('h estate, 'a) opn" where
  "enc_stuck = (\<lambda>s. (None, stuck s))"

definition PB_OSTREAM_SIZING :: pb_ostream where
  "PB_OSTREAM_SIZING = \<lparr>os_callback = False, os_state = [], os_max_size = 0, os_bytes_written = 0, os_errmsg = None\<rparr>"

definition on_ostream :: "pb_ostream \<Rightarrow> ('h estate, unit) opn \<Rightarrow> ('h estate, bool \<times> pb_ostream) opn" where
  "on_ostream sub f = (\<lambda>s. case f (s\<lparr>e_out := sub\<rparr>) of (r, s') \<Rightarrow> (Some (r \<noteq> None, e_out s'), s'\<lparr>e_out := e_out s\<rparr>))"

text \<open>A write of bytes that are not there, on a stream that only counts.\<close>

definition count_only :: "u64 \<Rightarrow> ('h estate, unit) opn" where
  "count_only sz = on_out (\<lambda>out. (Some (), out\<lparr>os_bytes_written := os_bytes_written out + sz\<rparr>))"

section \<open>Encoders of one value\<close>

text \<open>The value's memory is read where the coders of scalars take it as bytes.\<close>

definition enc_from :: "(bytes \<Rightarrow> (pb_ostream, unit) opn) \<Rightarrow> nat \<Rightarrow> nat \<Rightarrow> ('h estate, unit) opn" where
  "enc_from enc n src = (\<lambda>s. on_out (enc (get src n s)) s)"

function mem_strnlen :: "mem \<Rightarrow> nat \<Rightarrow> nat \<Rightarrow> nat \<Rightarrow> nat" where
  "mem_strnlen m p max_size sz = (if sz < max_size \<and> m (p + sz) \<noteq> 0 then mem_strnlen m p max_size (sz + 1) else sz)"
  by pat_completeness auto
termination
  by (relation "measure (\<lambda>(_, _, max_size, sz). max_size - sz)") auto

declare mem_strnlen.simps [simp del]

definition pb_enc_bytes_from :: "pb_field \<Rightarrow> nat \<Rightarrow> ('h estate, unit) opn" where
  "pb_enc_bytes_from field src = (\<lambda>s. on_out (pb_enc_bytes field
     (if src = 0 then None else let sz = get_size src s in Some (sz, get (src + 4) (unat sz) s))) s)"

definition pb_enc_string_from :: "pb_field \<Rightarrow> nat \<Rightarrow> ('h estate, unit) opn" where
  "pb_enc_string_from field src = (\<lambda>s.
     let max_size = (if atype field = PB_ATYPE_POINTER then 2 ^ 64 - 1 else unat (f_data_size field))
     in on_out (pb_enc_string field (if src = 0 then None else Some (get src (mem_strnlen (w_mem s) src max_size 0) s))) s)"

text \<open>
  The size is counted by a first pass; the second one writes into a substream of exactly that size.
  \<open>msg\<close> is \<open>pb_encode\<close>.
\<close>

definition pb_encode_submessage :: "(nat \<Rightarrow> ('h estate, unit) opn) \<Rightarrow> nat \<Rightarrow> ('h estate, unit) opn" where
  "pb_encode_submessage msg src_struct =
     op_bind (on_ostream PB_OSTREAM_SIZING (msg src_struct)) (\<lambda>(ok, sub).
       if \<not> ok then (\<lambda>s. (None, s\<lparr>e_out := (e_out s)\<lparr>os_errmsg := os_errmsg sub\<rparr>\<rparr>))
       else let sz = os_bytes_written sub in
         op_seq (on_out (pb_encode_varint sz)) (\<lambda>s.
           let out = e_out s in
           if \<not> os_callback out then count_only sz s
           else if os_bytes_written out + sz > os_max_size out then e_error ''stream full'' s
           else let sub = sub\<lparr>os_callback := os_callback out, os_state := os_state out, os_max_size := sz,
                              os_bytes_written := 0, os_errmsg := None\<rparr> in
             op_bind (on_ostream sub (msg src_struct)) (\<lambda>(ok, sub) s.
               let s = s\<lparr>e_out := (e_out s)\<lparr>os_bytes_written := os_bytes_written (e_out s) + os_bytes_written sub,
                                           os_state := os_state sub, os_errmsg := os_errmsg sub\<rparr>\<rparr>
               in if os_bytes_written sub \<noteq> sz then e_error ''submsg size changed'' s
                  else op_check ok s) s))"

definition pb_enc_submessage :: "(nat \<Rightarrow> nat \<Rightarrow> ('h estate, unit) opn) \<Rightarrow> pb_field \<Rightarrow> nat \<Rightarrow> ('h estate, unit) opn" where
  "pb_enc_submessage msg field src =
     (if f_ptr field = 0 then e_error ''invalid field descriptor'' else pb_encode_submessage (msg (f_ptr field)) src)"

text \<open>The table \<open>PB_ENCODERS\<close>; its null entry is never called.\<close>

definition pb_encoder :: "(nat \<Rightarrow> nat \<Rightarrow> ('h estate, unit) opn) \<Rightarrow> pb_field \<Rightarrow> nat \<Rightarrow> ('h estate, unit) opn" where
  "pb_encoder msg field src =
     (let t = ltype field in
      if t = 0 then enc_from pb_enc_bool 1 src
      else if t = 1 then enc_from (pb_enc_varint field) (unat (f_data_size field)) src
      else if t = 2 then enc_from (pb_enc_uvarint field) (unat (f_data_size field)) src
      else if t = 3 then enc_from (pb_enc_svarint field) (unat (f_data_size field)) src
      else if t = 4 then enc_from pb_enc_fixed32 4 src
      else if t = 5 then enc_from pb_enc_fixed64 8 src
      else if t = PB_LTYPE_BYTES then pb_enc_bytes_from field src
      else if t = PB_LTYPE_STRING then pb_enc_string_from field src
      else if t = PB_LTYPE_SUBMESSAGE then pb_enc_submessage msg field src
      else if t = 10 then enc_from (pb_enc_fixed_length_bytes field) (unat (f_data_size field)) src
      else enc_stuck)"

section \<open>Arrays\<close>

definition encode_items :: "(nat \<Rightarrow> ('h estate, unit) opn) \<Rightarrow> nat \<Rightarrow> nat \<Rightarrow> nat \<Rightarrow> ('h estate, unit) opn" where
  "encode_items item data_size pData n =
     foldr (\<lambda>i. op_seq (item (pData + data_size * i))) [0..<n] (op_ret ())"

definition encode_array ::
  "pb_field \<Rightarrow> nat \<Rightarrow> nat \<Rightarrow> (pb_field \<Rightarrow> nat \<Rightarrow> ('h estate, unit) opn) \<Rightarrow> ('h estate, unit) opn" where
  "encode_array field pData n func =
     (let data_size = unat (f_data_size field) in
      if n = 0 then op_ret ()
      else if atype field \<noteq> PB_ATYPE_POINTER \<and> n > unat (f_array_size field) then e_error ''array max size exceeded''
      else if ltype field \<le> PB_LTYPE_LAST_PACKABLE then
        op_seq (on_out (pb_encode_tag PB_WT_STRING (f_tag field)))
          (op_bind (if ltype field = 4 then op_ret (of_nat (4 * n))
                    else if ltype field = 5 then op_ret (of_nat (8 * n))
                    else op_bind (on_ostream PB_OSTREAM_SIZING (encode_items (func field) data_size pData n))
                      (\<lambda>(ok, sub). op_seq (op_check ok) (op_ret (os_bytes_written sub))))
            (\<lambda>sz. op_seq (on_out (pb_encode_varint sz)) (\<lambda>s.
               if \<not> os_callback (e_out s) then count_only sz s
               else encode_items (func field) data_size pData n s)))
      else encode_items (\<lambda>p. op_seq (on_out (pb_encode_tag_for_field field))
             (\<lambda>s. func field
                (if atype field = PB_ATYPE_POINTER \<and> (ltype field = PB_LTYPE_STRING \<or> ltype field = PB_LTYPE_BYTES)
                 then get_ptr p s else p) s)) data_size pData n)"

section \<open>Fields\<close>

text \<open>
  The test for the proto3 default value; \<open>rec\<close> is the test itself, for the fields of a submessage.
\<close>

primrec all_fields :: "(pb_field_iter \<Rightarrow> bool) \<Rightarrow> nat \<Rightarrow> pb_field_iter \<Rightarrow> bool" where
  "all_fields test 0 it = True"
| "all_fields test (Suc k) it =
     (if \<not> test it then False
      else case pb_field_iter_next it of (again, it) \<Rightarrow> if again then all_fields test k it else True)"

definition proto3_default ::
  "'h pb_env \<Rightarrow> 'h estate \<Rightarrow> (pb_field \<Rightarrow> nat \<Rightarrow> bool) \<Rightarrow> pb_field \<Rightarrow> nat \<Rightarrow> bool" where
  "proto3_default env s rec field pData =
     (let pSize = size_addr pData field;
          zeros = list_all (\<lambda>b. b = 0) (get pData (unat (f_data_size field)) s);
          singular =
            (if atype field = PB_ATYPE_STATIC \<and> ltype field = PB_LTYPE_BYTES then get_size pData s = 0
             else if atype field = PB_ATYPE_STATIC \<and> ltype field = PB_LTYPE_STRING then w_mem s pData = 0
             else if atype field = PB_ATYPE_STATIC \<and> ltype field = 10 then f_data_size field = 0
             else if atype field = PB_ATYPE_STATIC \<and> ltype field = PB_LTYPE_SUBMESSAGE then
               (let fs = env_fields env (f_ptr field) in
                case pb_field_iter_begin fs pData of (nonempty, it) \<Rightarrow>
                  \<not> nonempty \<or> all_fields (\<lambda>it. rec (it_field it) (it_pData it)) (length fs) it)
             else if atype field = PB_ATYPE_POINTER \<and> ltype field > PB_LTYPE_LAST_PACKABLE then get_ptr pData s = 0
             else zeros)
      in if htype field = PB_HTYPE_REQUIRED then False
         else if htype field = PB_HTYPE_REPEATED then
           if f_size_offset field \<noteq> 0 then get_size pSize s = 0
           else if atype field = PB_ATYPE_STATIC then False
           else singular
         else if htype field = PB_HTYPE_ONEOF then get_size pSize s = 0
         else if htype field = PB_HTYPE_OPTIONAL \<and> f_size_offset field \<noteq> 0 then \<not> safe_read_bool (get pSize 1 s)
         else singular)"

text \<open>Beyond the depth given to it the answer is that the value is not the default; no claim rests on
  that case, since they ask for the depth of the table.\<close>

primrec pb_check_proto3_default_value :: "'h pb_env \<Rightarrow> 'h estate \<Rightarrow> nat \<Rightarrow> pb_field \<Rightarrow> nat \<Rightarrow> bool" where
  "pb_check_proto3_default_value env s 0 field pData = False"
| "pb_check_proto3_default_value env s (Suc n) field pData =
     proto3_default env s (pb_check_proto3_default_value env s n) field pData"

definition encode_basic_field ::
  "'h pb_env \<Rightarrow> nat \<Rightarrow> (nat \<Rightarrow> nat \<Rightarrow> ('h estate, unit) opn) \<Rightarrow> pb_field \<Rightarrow> nat \<Rightarrow> ('h estate, unit) opn" where
  "encode_basic_field env n msg field pData = (\<lambda>s.
     let func = pb_encoder msg;
         pSize = (if f_size_offset field \<noteq> 0 then Some (size_addr pData field) else None);
         implicit_has = (if htype field = PB_HTYPE_OPTIONAL \<and> f_size_offset field = 0
                         then \<not> pb_check_proto3_default_value env s n field pData else True);
         (pData, implicit_has) =
           (if atype field = PB_ATYPE_POINTER then (get_ptr pData s, get_ptr pData s \<noteq> 0) else (pData, implicit_has))
     in if htype field = PB_HTYPE_REQUIRED then
          if pData = 0 then e_error ''missing required field'' s
          else op_seq (on_out (pb_encode_tag_for_field field)) (func field pData) s
        else if htype field = PB_HTYPE_OPTIONAL then
          if (case pSize of None \<Rightarrow> implicit_has | Some p \<Rightarrow> safe_read_bool (get p 1 s))
          then op_seq (on_out (pb_encode_tag_for_field field)) (func field pData) s
          else (Some (), s)
        else if htype field = PB_HTYPE_REPEATED then
          encode_array field pData (unat (case pSize of None \<Rightarrow> f_array_size field | Some p \<Rightarrow> get_size p s)) func s
        else if (case pSize of None \<Rightarrow> (if implicit_has then 1 else 0) | Some p \<Rightarrow> get_size p s) = f_tag field
        then op_seq (on_out (pb_encode_tag_for_field field)) (func field pData) s
        else (Some (), s))"

definition encode_callback_field :: "'h pb_env \<Rightarrow> pb_field \<Rightarrow> nat \<Rightarrow> ('h estate, unit) opn" where
  "encode_callback_field env field pData = (\<lambda>s.
     let encode = get_ptr pData s in
     if encode \<noteq> 0 then
       (case env_encode env encode field (pData + 8) s of
          (None, s) \<Rightarrow> e_error ''callback error'' s
        | (Some _, s) \<Rightarrow> (Some (), s))
     else (Some (), s))"

definition encode_field ::
  "'h pb_env \<Rightarrow> nat \<Rightarrow> (nat \<Rightarrow> nat \<Rightarrow> ('h estate, unit) opn) \<Rightarrow> pb_field \<Rightarrow> nat \<Rightarrow> ('h estate, unit) opn" where
  "encode_field env n msg field pData =
     (if atype field = PB_ATYPE_STATIC \<or> atype field = PB_ATYPE_POINTER then encode_basic_field env n msg field pData
      else if atype field = PB_ATYPE_CALLBACK then encode_callback_field env field pData
      else e_error ''invalid field type'')"

section \<open>Messages\<close>

definition default_extension_encoder ::
  "'h pb_env \<Rightarrow> nat \<Rightarrow> (nat \<Rightarrow> nat \<Rightarrow> ('h estate, unit) opn) \<Rightarrow> nat \<Rightarrow> ('h estate, unit) opn" where
  "default_extension_encoder env n msg e = (\<lambda>s.
     let field = env_fields env (get_ptr (get_ptr e s + 16) s) ! 0 in
     encode_field env n msg field (if atype field = PB_ATYPE_POINTER then e + 8 else get_ptr (e + 8) s) s)"

primrec encode_extensions ::
  "'h pb_env \<Rightarrow> nat \<Rightarrow> (nat \<Rightarrow> nat \<Rightarrow> ('h estate, unit) opn) \<Rightarrow> nat \<Rightarrow> nat \<Rightarrow> ('h estate, unit) opn" where
  "encode_extensions env n msg 0 e s = (if e \<noteq> 0 then enc_stuck s else (Some (), s))"
| "encode_extensions env n msg (Suc k) e s =
     (if e \<noteq> 0
      then let encode = get_ptr (get_ptr e s + 8) s in
        op_seq (if encode \<noteq> 0 then env_ext_encode env encode e else default_extension_encoder env n msg e)
          (\<lambda>s. encode_extensions env n msg k (get_ptr (e + 16) s) s) s
      else (Some (), s))"

definition encode_extension_field ::
  "'h pb_env \<Rightarrow> nat \<Rightarrow> (nat \<Rightarrow> nat \<Rightarrow> ('h estate, unit) opn) \<Rightarrow> nat \<Rightarrow> ('h estate, unit) opn" where
  "encode_extension_field env n msg pData = (\<lambda>s. encode_extensions env n msg (env_turns env) (get_ptr pData s) s)"

primrec encode_loop :: "(pb_field_iter \<Rightarrow> ('h estate, unit) opn) \<Rightarrow> nat \<Rightarrow> pb_field_iter \<Rightarrow> ('h estate, unit) opn" where
  "encode_loop enc 0 it = op_ret ()"
| "encode_loop enc (Suc k) it =
     op_seq (enc it) (case pb_field_iter_next it of (again, it) \<Rightarrow> if again then encode_loop enc k it else op_ret ())"

primrec pb_encode :: "'h pb_env \<Rightarrow> nat \<Rightarrow> pb_field list \<Rightarrow> nat \<Rightarrow> ('h estate, unit) opn" where
  "pb_encode env 0 fs src_struct = enc_stuck"
| "pb_encode env (Suc n) fs src_struct =
     (case pb_field_iter_begin fs src_struct of (nonempty, it) \<Rightarrow>
        if \<not> nonempty then op_ret ()
        else let msg = (\<lambda>ptr. pb_encode env n (env_fields env ptr)) in
          encode_loop (\<lambda>it.
            if ltype (it_field it) = PB_LTYPE_EXTENSION then encode_extension_field env (Suc n) msg (it_pData it)
            else encode_field env (Suc n) msg (it_field it) (it_pData it)) (length fs) it)"

definition pb_encode_delimited :: "'h pb_env \<Rightarrow> nat \<Rightarrow> pb_field list \<Rightarrow> nat \<Rightarrow> ('h estate, unit) opn" where
  "pb_encode_delimited env n fs = pb_encode_submessage (pb_encode env n fs)"

definition pb_encode_nullterminated :: "'h pb_env \<Rightarrow> nat \<Rightarrow> pb_field list \<Rightarrow> nat \<Rightarrow> ('h estate, unit) opn" where
  "pb_encode_nullterminated env n fs src_struct = op_seq (pb_encode env n fs src_struct) (on_out (pb_write [0]))"

definition pb_get_encoded_size :: "'h pb_env \<Rightarrow> nat \<Rightarrow> pb_field list \<Rightarrow> nat \<Rightarrow> ('h estate, u64) opn" where
  "pb_get_encoded_size env n fs src_struct =
     op_bind (on_ostream PB_OSTREAM_SIZING (pb_encode env n fs src_struct)) (\<lambda>(ok, sub).
       op_seq (op_check ok) (op_ret (os_bytes_written sub)))"

end
