(* ===== verification/PbLayout.thy ===== *)
theory PbLayout
  imports PbDecode PbEncode
begin

unbundle bit_operations_syntax

text \<open>
  What the tables that the generator of nanopb writes promise, as a test on descriptors: tags that are
  distinct, offsets that stay within the message struct, static fields whose sizes fit their types,
  submessages of bounded depth; a struct without fields has one byte. On such a table the iterator is a position in it.
\<close>

section \<open>Offsets\<close>

definition union_next :: "pb_field \<Rightarrow> pb_field \<Rightarrow> bool" where
  "union_next f g \<longleftrightarrow> htype f = PB_HTYPE_ONEOF \<and> htype g = PB_HTYPE_ONEOF \<and> f_data_offset g = PB_SIZE_MAX"

definition item_room :: "pb_field \<Rightarrow> nat" where
  "item_room f = (if htype f = PB_HTYPE_REPEATED then unat (f_array_size f) else 1)"

definition extent :: "pb_field \<Rightarrow> nat" where
  "extent f = unat (f_data_size f) * item_room f"

primrec data_off :: "pb_field list \<Rightarrow> nat \<Rightarrow> nat" where
  "data_off fs 0 = unat (f_data_offset (fs ! 0))"
| "data_off fs (Suc i) =
     (if union_next (fs ! i) (fs ! Suc i) then data_off fs i
      else data_off fs i + extent (fs ! i) + unat (f_data_offset (fs ! Suc i)))"

primrec size_off :: "pb_field list \<Rightarrow> nat \<Rightarrow> nat" where
  "size_off fs 0 = size_addr (data_off fs 0) (fs ! 0)"
| "size_off fs (Suc i) =
     (if union_next (fs ! i) (fs ! Suc i) then size_off fs i else size_addr (data_off fs (Suc i)) (fs ! Suc i))"

definition size_width :: "pb_field list \<Rightarrow> nat \<Rightarrow> nat" where
  "size_width fs i =
     (if htype (fs ! i) = PB_HTYPE_REQUIRED then 0
      else if htype (fs ! i) = PB_HTYPE_OPTIONAL then if size_off fs i = data_off fs i then 0 else 1
      else 4)"

definition layout :: "pb_field list \<Rightarrow> nat \<Rightarrow> bool" where
  "layout fs sz \<longleftrightarrow> fs \<noteq> [] \<and> f_tag (last fs) = 0
     \<and> (length fs = 1 \<longrightarrow> f_type (fs ! 0) = 0 \<and> f_data_offset (fs ! 0) = 0 \<and> 0 < sz)
     \<and> list_all (\<lambda>f. f_tag f \<noteq> 0) (butlast fs)
     \<and> distinct (map f_tag (butlast fs))
     \<and> list_all (\<lambda>i. 0 \<le> int (data_off fs i) + sint (f_size_offset (fs ! i))
          \<and> data_off fs i + extent (fs ! i) \<le> sz \<and> size_off fs i + size_width fs i \<le> sz) [0..<length fs - 1]"

text \<open>The test on a table whose submessages nest to at most a given depth.\<close>

definition static_field :: "pb_field \<Rightarrow> bool" where
  "static_field f \<longleftrightarrow> atype f = PB_ATYPE_STATIC
     \<and> (let t = ltype f; n = unat (f_data_size f) in
        t = 0 \<and> n = 1 \<or> t \<in> {1, 2, 3} \<and> int_size f \<or> t = 4 \<and> n = 4 \<or> t = 5 \<and> n = 8
        \<or> t \<in> {6, 7, 10} \<or> t = 8 \<and> f_ptr f \<noteq> 0)"

primrec static_msg :: "'h pb_env \<Rightarrow> nat \<Rightarrow> pb_field list \<Rightarrow> nat \<Rightarrow> bool" where
  "static_msg env 0 fs sz = False"
| "static_msg env (Suc d) fs sz \<longleftrightarrow> layout fs sz
     \<and> list_all (\<lambda>f. static_field f
          \<and> (ltype f = PB_LTYPE_SUBMESSAGE \<longrightarrow> static_msg env d (env_fields env (f_ptr f)) (unat (f_data_size f)))) (butlast fs)"

section \<open>The iterator as a position\<close>

definition required_before :: "pb_field list \<Rightarrow> nat \<Rightarrow> nat" where
  "required_before fs i = length (filter (\<lambda>f. htype f = PB_HTYPE_REQUIRED) (take i fs))"

definition iter_at :: "pb_field list \<Rightarrow> nat \<Rightarrow> nat \<Rightarrow> pb_field_iter" where
  "iter_at fs dest i = \<lparr>it_start = fs, it_pos = i, it_required_field_index = required_before fs i,
     it_dest_struct = dest, it_pData = dest + data_off fs i, it_pSize = At (dest + size_off fs i)\<rparr>"

lemma iter_at_simps [simp]:
  "it_start (iter_at fs dest i) = fs" "it_pos (iter_at fs dest i) = i" "it_dest_struct (iter_at fs dest i) = dest"
  "it_required_field_index (iter_at fs dest i) = required_before fs i" "it_pData (iter_at fs dest i) = dest + data_off fs i"
  "it_pSize (iter_at fs dest i) = At (dest + size_off fs i)" "it_field (iter_at fs dest i) = fs ! i"
  by (simp_all add: iter_at_def it_field_def)

lemma size_addr_shift: "0 \<le> int p + sint (f_size_offset f) \<Longrightarrow> size_addr (dest + p) f = dest + size_addr p f"
  by (simp add: size_addr_def)

lemma layout_nonempty: "layout fs sz \<Longrightarrow> 0 < length fs"
  by (simp add: layout_def)

lemma layout_last: "layout fs sz \<Longrightarrow> f_tag (fs ! (length fs - 1)) = 0"
  by (metis layout_def last_conv_nth)

lemma layout_tag: "layout fs sz \<Longrightarrow> i < length fs - 1 \<Longrightarrow> f_tag (fs ! i) \<noteq> 0"
  by (simp add: layout_def list_all_length nth_butlast)

lemma layout_at:
  assumes "layout fs sz" "i < length fs - 1"
  shows "0 \<le> int (data_off fs i) + sint (f_size_offset (fs ! i))" "data_off fs i + extent (fs ! i) \<le> sz"
    "size_off fs i + size_width fs i \<le> sz"
  using assms by (simp_all add: layout_def list_all_iff)

lemma layout_distinct:
  "layout fs sz \<Longrightarrow> i < length fs - 1 \<Longrightarrow> j < length fs - 1 \<Longrightarrow> f_tag (fs ! i) = f_tag (fs ! j) \<Longrightarrow> i = j"
proof -
  assume ij: "layout fs sz" "i < length fs - 1" "j < length fs - 1" "f_tag (fs ! i) = f_tag (fs ! j)"
  then have "distinct (map f_tag (butlast fs))" by (simp add: layout_def)
  then show ?thesis
    using ij nth_eq_iff_index_eq [of "map f_tag (butlast fs)" i j] by (simp add: nth_butlast)
qed

lemma iter_begin_at:
  assumes "layout fs sz" "1 < length fs"
  shows "pb_field_iter_begin fs dest = (True, iter_at fs dest 0)"
  using layout_tag [OF assms(1), of 0] layout_at(1) [OF assms(1), of 0] assms(2)
  by (simp add: pb_field_iter_begin_def Let_def iter_at_def required_before_def size_addr_shift)

lemma required_before_Suc:
  "i < length fs \<Longrightarrow> required_before fs (Suc i) = required_before fs i + (if htype (fs ! i) = PB_HTYPE_REQUIRED then 1 else 0)"
  by (simp add: required_before_def take_Suc_conv_app_nth)

text \<open>A step of the iterator, wherever its \<open>pSize\<close> was bent to the decoder's count.\<close>

lemma iter_next_at:
  assumes "layout fs sz" "i < length fs - 1" "\<forall>f\<in>set (butlast fs). static_field f"
    and it: "it = iter_at fs dest i \<or> it = iter_at fs dest i\<lparr>it_pSize := Fixed_count\<rparr> \<and> htype (fs ! i) = PB_HTYPE_REPEATED"
  shows "pb_field_iter_next it
    = (if Suc i < length fs - 1 then (True, iter_at fs dest (Suc i)) else (False, iter_at fs dest 0))"
proof -
  let ?f = "fs ! i" and ?g = "fs ! Suc i"
  have f: "it_field it = ?f" "it_start it = fs" "it_pos it = i" "it_dest_struct it = dest"
    "it_pData it = dest + data_off fs i" "it_required_field_index it = required_before fs i"
    using it by (auto simp: it_field_def)
  have g: "it_field (it\<lparr>it_pos := i + 1\<rparr>) = ?g" using f by (simp add: it_field_def)
  have tag: "f_tag ?f \<noteq> 0" using layout_tag assms(1,2) by blast
  show ?thesis
  proof (cases "Suc i < length fs - 1")
    case False
    then have "Suc i = length fs - 1" using assms(2) by simp
    then have "f_tag ?g = 0" using layout_last [OF assms(1)] by simp
    then show ?thesis
      using tag f g False iter_begin_at [OF assms(1)] assms(2) by (simp add: pb_field_iter_next_def Let_def)
  next
    case True
    then have tg: "f_tag ?g \<noteq> 0" using layout_tag assms(1) by blast
    have "?f \<in> set (butlast fs)" using assms(2) by (metis length_butlast nth_butlast nth_mem)
    then have st: "atype ?f = PB_ATYPE_STATIC" using assms(3) by (simp add: static_field_def)
    show ?thesis
    proof (cases "union_next ?f ?g")
      case True
      then have "htype ?f \<noteq> PB_HTYPE_REPEATED" by (simp add: union_next_def)
      then have "it = iter_at fs dest i" using it by blast
      then show ?thesis
        using True \<open>Suc i < length fs - 1\<close> tag tg assms(2)
        by (simp add: pb_field_iter_next_def Let_def union_next_def iter_at_def it_field_def required_before_Suc)
    next
      case False
      have nz: "0 \<le> int (data_off fs (Suc i)) + sint (f_size_offset ?g)" by (rule layout_at(1) [OF assms(1) True])
      have d: "dest + data_off fs i + extent ?f + unat (f_data_offset ?g) = dest + data_off fs (Suc i)"
        using False by simp
      have "pb_field_iter_next it = (True, it\<lparr>it_pos := Suc i,
          it_required_field_index := required_before fs (Suc i), it_pData := dest + data_off fs (Suc i),
          it_pSize := At (size_addr (dest + data_off fs (Suc i)) ?g)\<rparr>)"
        using tag tg st f g False assms(2)
        unfolding d [symmetric]
        by (cases it) (auto simp: pb_field_iter_next_def Let_def union_next_def extent_def item_room_def required_before_Suc it_field_def)
      also have "\<dots> = (True, iter_at fs dest (Suc i))"
        using f False True size_addr_shift [OF nz] by (cases it) (simp add: iter_at_def)
      finally show ?thesis using True by simp
    qed
  qed
qed

text \<open>An iterator at a position, with \<open>pSize\<close> where it belongs or bent.\<close>

definition iter_ok :: "pb_field list \<Rightarrow> nat \<Rightarrow> nat \<Rightarrow> pb_field_iter \<Rightarrow> bool" where
  "iter_ok fs dest i it \<longleftrightarrow> i < length fs - 1
     \<and> (it = iter_at fs dest i \<or> it = iter_at fs dest i\<lparr>it_pSize := Fixed_count\<rparr> \<and> htype (fs ! i) = PB_HTYPE_REPEATED)"

lemma iter_ok_field: "iter_ok fs dest i it \<Longrightarrow> it_field it = fs ! i \<and> it_start it = fs \<and> it_pos it = i
    \<and> it_pData it = dest + data_off fs i \<and> it_required_field_index it = required_before fs i"
  by (auto simp: iter_ok_def it_field_def)

lemma iter_ok_at: "i < length fs - 1 \<Longrightarrow> iter_ok fs dest i (iter_at fs dest i)"
  by (simp add: iter_ok_def)

lemma iter_next_ok:
  assumes "layout fs sz" "\<forall>f\<in>set (butlast fs). static_field f" "iter_ok fs dest i it"
  shows "pb_field_iter_next it
    = (if Suc i < length fs - 1 then (True, iter_at fs dest (Suc i)) else (False, iter_at fs dest 0))"
  using iter_next_at [OF assms(1) _ assms(2)] assms(3) unfolding iter_ok_def by blast

text \<open>The search looks at every field, first from its position to the end and then from the beginning.\<close>

lemma iter_search_low:
  assumes l: "layout fs sz" "\<forall>f\<in>set (butlast fs). static_field f"
  shows "p < start \<Longrightarrow> start < length fs - 1 \<Longrightarrow> start - p \<le> k \<Longrightarrow>
    (\<exists>j. p \<le> j \<and> j < start \<and> wanted (fs ! j) \<and> iter_search wanted k start (iter_at fs dest p) = (True, iter_at fs dest j))
    \<or> (\<forall>j. p \<le> j \<and> j < start \<longrightarrow> \<not> wanted (fs ! j)) \<and> iter_search wanted k start (iter_at fs dest p) = (False, iter_at fs dest start)"
proof (induction k arbitrary: p)
  case (Suc k)
  show ?case
  proof (cases "wanted (fs ! p)")
    case True
    then show ?thesis using Suc.prems by auto
  next
    case False
    have nx: "pb_field_iter_next (iter_at fs dest p) = (True, iter_at fs dest (Suc p))"
      using iter_next_ok [OF l iter_ok_at] Suc.prems by simp
    show ?thesis
    proof (cases "Suc p = start")
      case True
      then have "\<forall>j. p \<le> j \<and> j < start \<longrightarrow> \<not> wanted (fs ! j)" using False by (metis less_Suc_eq le_less_Suc_eq)
      then show ?thesis using False nx True by simp
    next
      case ne: False
      then have "Suc p < start" using Suc.prems by simp
      with Suc.IH [of "Suc p"] Suc.prems
      have "(\<exists>j. Suc p \<le> j \<and> j < start \<and> wanted (fs ! j) \<and> iter_search wanted k start (iter_at fs dest (Suc p)) = (True, iter_at fs dest j))
        \<or> (\<forall>j. Suc p \<le> j \<and> j < start \<longrightarrow> \<not> wanted (fs ! j))
            \<and> iter_search wanted k start (iter_at fs dest (Suc p)) = (False, iter_at fs dest start)" by simp
      moreover have "iter_search wanted (Suc k) start (iter_at fs dest p) = iter_search wanted k start (iter_at fs dest (Suc p))"
        using False nx ne by simp
      ultimately show ?thesis using False by (metis Suc_leD Suc_leI le_less)
    qed
  qed
qed simp

lemma iter_search_high:
  assumes l: "layout fs sz" "\<forall>f\<in>set (butlast fs). static_field f"
  shows "iter_ok fs dest p it \<Longrightarrow> start \<le> p \<Longrightarrow> length fs - 1 - p + start \<le> k \<Longrightarrow>
    wanted (fs ! p) \<and> iter_search wanted k start it = (True, it)
    \<or> (\<exists>j<length fs - 1. wanted (fs ! j) \<and> (\<not> wanted (fs ! p)) \<and> iter_search wanted k start it = (True, iter_at fs dest j))
    \<or> (\<forall>j. p \<le> j \<and> j < length fs - 1 \<or> j < start \<longrightarrow> \<not> wanted (fs ! j)) \<and> iter_search wanted k start it = (False, iter_at fs dest start)"
proof (induction k arbitrary: p it)
  case 0
  then have False unfolding iter_ok_def by linarith
  then show ?case ..
next
  case (Suc k)
  have f: "it_field it = fs ! p" and p: "p < length fs - 1" using Suc.prems(1) by (simp_all add: iter_ok_field) (simp add: iter_ok_def)
  note nx = iter_next_ok [OF l Suc.prems(1)]
  show ?case
  proof (cases "wanted (fs ! p)")
    case True
    then show ?thesis using f by simp
  next
    case False
    show ?thesis
    proof (cases "Suc p < length fs - 1")
      case True
      then have e: "iter_search wanted (Suc k) start it = iter_search wanted k start (iter_at fs dest (Suc p))"
        using False f nx Suc.prems(2) by simp
      have "wanted (fs ! Suc p) \<and> iter_search wanted k start (iter_at fs dest (Suc p)) = (True, iter_at fs dest (Suc p))
        \<or> (\<exists>j<length fs - 1. wanted (fs ! j) \<and> (\<not> wanted (fs ! Suc p)) \<and> iter_search wanted k start (iter_at fs dest (Suc p)) = (True, iter_at fs dest j))
        \<or> (\<forall>j. Suc p \<le> j \<and> j < length fs - 1 \<or> j < start \<longrightarrow> \<not> wanted (fs ! j))
            \<and> iter_search wanted k start (iter_at fs dest (Suc p)) = (False, iter_at fs dest start)"
        using Suc.IH [of "Suc p" "iter_at fs dest (Suc p)"] Suc.prems True by (simp add: iter_ok_at)
      then show ?thesis unfolding e using False True by (metis Suc_leI le_less)
    next
      case end_: False
      then have last: "Suc p = length fs - 1" using p by simp
      have nx0: "snd (pb_field_iter_next it) = iter_at fs dest 0" using nx end_ by simp
      show ?thesis
      proof (cases "start = 0")
        case True
        then have "iter_search wanted (Suc k) start it = (False, iter_at fs dest start)" using False f nx0 by simp
        moreover have "\<forall>j. p \<le> j \<and> j < length fs - 1 \<or> j < start \<longrightarrow> \<not> wanted (fs ! j)"
          using False True last by (metis le_less_Suc_eq not_less0)
        ultimately show ?thesis by blast
      next
        case ne: False
        then have e: "iter_search wanted (Suc k) start it = iter_search wanted k start (iter_at fs dest 0)"
          using False f nx0 by simp
        have "start < length fs - 1" using Suc.prems p by simp
        with iter_search_low [OF l, of 0 start k wanted dest] ne Suc.prems last
        have "(\<exists>j < start. wanted (fs ! j) \<and> iter_search wanted k start (iter_at fs dest 0) = (True, iter_at fs dest j))
          \<or> (\<forall>j < start. \<not> wanted (fs ! j)) \<and> iter_search wanted k start (iter_at fs dest 0) = (False, iter_at fs dest start)" by simp
        then show ?thesis unfolding e using False last \<open>start < length fs - 1\<close> by (metis less_trans le_less_Suc_eq)
      qed
    qed
  qed
qed

lemma iter_search_all:
  assumes "layout fs sz" "\<forall>f\<in>set (butlast fs). static_field f" "iter_ok fs dest p it"
  shows "wanted (fs ! p) \<and> iter_search wanted (length fs) p it = (True, it)
    \<or> (\<exists>j<length fs - 1. wanted (fs ! j) \<and> \<not> wanted (fs ! p) \<and> iter_search wanted (length fs) p it = (True, iter_at fs dest j))
    \<or> (\<forall>j<length fs - 1. \<not> wanted (fs ! j)) \<and> iter_search wanted (length fs) p it = (False, iter_at fs dest p)"
proof -
  have p: "p < length fs - 1" using assms(3) by (simp add: iter_ok_def)
  then have "length fs - 1 - p + p \<le> length fs" by simp
  from iter_search_high [OF assms(1,2,3) le_refl this, of wanted] show ?thesis using p by (metis not_less)
qed

lemma iter_find_tag:
  assumes "layout fs sz" "\<forall>f\<in>set (butlast fs). static_field f" "iter_ok fs dest p it" "j < length fs - 1"
  shows "pb_field_iter_find it (f_tag (fs ! j)) = (True, if p = j then it else iter_at fs dest j)"
proof -
  have ext: "ltype (fs ! k) \<noteq> PB_LTYPE_EXTENSION" if "k < length fs - 1" for k
  proof -
    have "fs ! k \<in> set (butlast fs)" using that by (metis length_butlast nth_butlast nth_mem)
    then show ?thesis using assms(2) by (auto simp: static_field_def Let_def)
  qed
  note f = iter_ok_field [OF assms(3)]
  have p: "p < length fs - 1" using assms(3) by (simp add: iter_ok_def)
  have u: "f_tag (fs ! k) = f_tag (fs ! j) \<longleftrightarrow> k = j" if "k < length fs - 1" for k
    using layout_distinct [OF assms(1) that assms(4)] by blast
  from iter_search_all [OF assms(1-3), of "\<lambda>f. f_tag f = f_tag (fs ! j) \<and> ltype f \<noteq> PB_LTYPE_EXTENSION"]
  show ?thesis
    unfolding pb_field_iter_find_def using f u p ext assms(4) by auto
qed

lemma iter_loop_fold:
  assumes "layout fs sz" "\<forall>f\<in>set (butlast fs). static_field f"
  shows "i < length fs - 1 \<Longrightarrow> length fs - 1 - i \<le> k
    \<Longrightarrow> iter_loop work k (iter_at fs dest i) s = fold (\<lambda>i. work (iter_at fs dest i)) [i..<length fs - 1] s"
proof (induction k arbitrary: i s)
  case (Suc k)
  have u: "[i..<length fs - 1] = i # [Suc i..<length fs - 1]" using Suc.prems by (simp add: upt_conv_Cons)
  show ?case
    unfolding u using Suc.IH [of "Suc i"] Suc.prems iter_next_ok [OF assms iter_ok_at [OF Suc.prems(1)]]
    by (cases "Suc i < length fs - 1") (simp_all add: Let_def)
qed simp

lemma each_field_fold:
  assumes "layout fs sz" "\<forall>f\<in>set (butlast fs). static_field f"
  shows "each_field work fs dest s = fold (\<lambda>i. work (iter_at fs dest i)) [0..<length fs - 1] s"
proof (cases "1 < length fs")
  case True
  then show ?thesis
    using iter_loop_fold [OF assms, of 0 "length fs" work dest s] by (simp add: each_field_def iter_begin_at [OF assms(1)])
next
  case False
  then have "f_tag (fs ! 0) = 0" using layout_last [OF assms(1)] by simp
  then show ?thesis using False by (simp add: each_field_def pb_field_iter_begin_def Let_def)
qed

end
