(* ===== verification/PbSafe.thy ===== *)
theory PbSafe
  imports PbLayout
begin

unbundle bit_operations_syntax

text \<open>
  Decoding bytes that nobody vouches for: whatever the stream holds, \<open>pb_decode\<close> on a static table
  returns, changes nothing but the message struct and reads nothing behind the end of its input.
  \<open>frame A s s'\<close> says what a run may have changed, \<open>confined A f\<close> that every run of \<open>f\<close> keeps to it;
  the rules for the combinators carry the claim from the streams up to the message.
\<close>

section \<open>Streams only move forward\<close>

definition stream_le :: "pb_istream \<Rightarrow> pb_istream \<Rightarrow> bool" where
  "stream_le i i' \<longleftrightarrow> (\<exists>k. is_state i' = drop k (is_state i) \<and> k + is_bytes_left i' \<le> is_bytes_left i)"

definition forward :: "(pb_istream, 'a) opn \<Rightarrow> bool" where
  "forward f \<longleftrightarrow> (\<forall>i. stream_le i (snd (f i)))"

text \<open>A successful run takes at least one byte.\<close>

definition consumes :: "(pb_istream, 'a) opn \<Rightarrow> bool" where
  "consumes f \<longleftrightarrow> (\<forall>i r i'. f i = (Some r, i') \<longrightarrow> is_bytes_left i' < is_bytes_left i)"

named_theorems forward \<open>stream operations only move forward\<close>
named_theorems consumes \<open>stream operations that take a byte\<close>

lemma stream_le_refl [simp]: "stream_le i i"
  unfolding stream_le_def by (rule exI [of _ 0]) simp

lemma stream_le_trans: "stream_le i j \<Longrightarrow> stream_le j k \<Longrightarrow> stream_le i k"
proof -
  assume "stream_le i j" "stream_le j k"
  then obtain m n where "is_state j = drop m (is_state i)" "m + is_bytes_left j \<le> is_bytes_left i"
    "is_state k = drop n (is_state j)" "n + is_bytes_left k \<le> is_bytes_left j"
    unfolding stream_le_def by blast
  then show ?thesis unfolding stream_le_def by (intro exI [of _ "n + m"]) simp
qed

lemma stream_le_left: "stream_le i i' \<Longrightarrow> is_bytes_left i' \<le> is_bytes_left i"
  by (auto simp: stream_le_def)

lemma stream_le_errmsg [simp]: "stream_le i (i'\<lparr>is_errmsg := e\<rparr>) = stream_le i i'"
  by (simp add: stream_le_def)

lemma forward_error [forward]: "forward (is_error msg)"
  by (simp add: forward_def is_error_def)

lemma forward_ret [forward]: "forward (op_ret a)"
  by (simp add: forward_def op_ret_def)

lemma forward_bind [forward]: "forward f \<Longrightarrow> (\<And>a. forward (g a)) \<Longrightarrow> forward (op_bind f g)"
  unfolding forward_def op_bind_def by (auto split: prod.splits option.splits) (metis snd_conv stream_le_trans)+

lemma forward_map [forward]: "forward f \<Longrightarrow> forward (op_map g f)"
  unfolding op_map_def by (intro forward)

lemma forward_seq [forward]: "forward f \<Longrightarrow> forward g \<Longrightarrow> forward (op_seq f g)"
  unfolding op_seq_def by (intro forward)

lemma forward_if [forward]: "(b \<Longrightarrow> forward f) \<Longrightarrow> (\<not> b \<Longrightarrow> forward g) \<Longrightarrow> forward (if b then f else g)"
  by simp

lemma forward_if_state: "(\<And>i. stream_le i (snd (if b i then f i else g i))) \<Longrightarrow> forward (\<lambda>i. if b i then f i else g i)"
  by (simp add: forward_def)

lemma forward_read [forward]: "forward (pb_read n)"
  unfolding forward_def pb_read_def buf_read_def is_error_def stream_le_def
  by (auto intro: exI [of _ n] exI [of _ 0])

lemma forward_readbyte [forward]: "forward pb_readbyte"
  unfolding forward_def pb_readbyte_def buf_read_def is_error_def stream_le_def
  by (auto intro: exI [of _ 1] exI [of _ 0])

lemma forward_at: "forward f \<Longrightarrow> f i = (r, i') \<Longrightarrow> stream_le i i'"
  unfolding forward_def by (metis snd_conv)

lemma forward_varint32_loop: "stream_le i (snd (varint32_loop bitpos result i))"
proof (induction bitpos result i rule: varint32_loop.induct)
  case (1 bitpos result i)
  obtain r i' where b: "pb_readbyte i = (r, i')" by (cases "pb_readbyte i")
  note le = forward_at [OF forward_readbyte b]
  show ?case
  proof (cases r)
    case None
    then show ?thesis using b le by (subst varint32_loop.simps) simp
  next
    case (Some byte)
    show ?thesis
      using le b Some forward_at [OF forward_error] 
      by (subst varint32_loop.simps) (auto simp: Let_def is_error_def intro: stream_le_trans [OF le 1 [OF b [symmetric] Some refl]])
  qed
qed

lemma forward_varint32_eof: "stream_le i (snd (pb_decode_varint32_eof i))"
proof -
  obtain r i1 where b: "pb_readbyte i = (r, i1)" by (cases "pb_readbyte i")
  note le = forward_at [OF forward_readbyte b]
  show ?thesis
  proof (cases r)
    case None
    then show ?thesis using b le by (simp add: pb_decode_varint32_eof_def)
  next
    case (Some byte)
    obtain q i2 where l: "varint32_loop 7 (ucast (byte AND 0x7F)) i1 = (q, i2)" by fastforce
    then have "stream_le i1 i2" using forward_varint32_loop by (metis snd_conv)
    then have "stream_le i i2" using stream_le_trans le by blast
    then show ?thesis
      using b le Some l by (auto simp: pb_decode_varint32_eof_def is_error_def split: option.splits)
  qed
qed

lemma forward_varint32 [forward]: "forward pb_decode_varint32"
  using forward_varint32_eof unfolding forward_def pb_decode_varint32_def by (auto split: prod.splits) (metis snd_conv)

lemma forward_varint_loop: "stream_le i (snd (varint_loop bitpos result i))"
proof (induction bitpos result i rule: varint_loop.induct)
  case (1 bitpos result i)
  obtain r i' where b: "pb_readbyte i = (r, i')" by (cases "pb_readbyte i")
  note le = forward_at [OF forward_readbyte b]
  show ?case
  proof (cases "64 \<le> bitpos")
    case True
    then show ?thesis by (subst varint_loop.simps) (simp add: is_error_def)
  next
    case False
    then show ?thesis
      using le b by (subst varint_loop.simps)
        (auto simp: Let_def split: option.splits intro: stream_le_trans [OF le 1 [OF False b [symmetric] _ refl]])
  qed
qed

lemma forward_varint [forward]: "forward pb_decode_varint"
  by (simp add: forward_def pb_decode_varint_def forward_varint_loop)

lemma forward_svarint [forward]: "forward pb_decode_svarint"
  unfolding pb_decode_svarint_def by (intro forward)

lemma forward_skip_varint [forward]: "forward pb_skip_varint"
proof -
  have "stream_le i (snd (pb_skip_varint i))" for i
  proof (induction i rule: pb_skip_varint.induct)
    case (1 i)
    obtain r i' where b: "pb_read 1 i = (r, i')" by (cases "pb_read 1 i")
    note le = forward_at [OF forward_read b]
    show ?case
      using le b by (subst pb_skip_varint.simps)
        (auto split: option.splits intro: stream_le_trans [OF le 1 [OF b [symmetric]]])
  qed
  then show ?thesis by (simp add: forward_def)
qed

lemma forward_skip_field [forward]: "forward (pb_skip_field wt)"
  unfolding pb_skip_field_def pb_skip_string_def by (intro forward)

lemma forward_fixed [forward]: "forward pb_dec_fixed32" "forward pb_dec_fixed64" "forward pb_dec_bool"
  unfolding pb_dec_fixed32_def pb_decode_fixed32_def pb_dec_fixed64_def pb_decode_fixed64_def pb_dec_bool_def
  by (intro forward)+

lemma forward_state_if:
  "forward f \<Longrightarrow> forward g \<Longrightarrow> forward (\<lambda>i. if b i then f i else g i)"
  by (simp add: forward_def)

lemma forward_fixed_length_bytes [forward]: "forward (pb_dec_fixed_length_bytes field)"
  unfolding pb_dec_fixed_length_bytes_def
  by (intro forward forward_state_if) (simp add: forward_def)

lemma varint32_eof_consumes: "pb_decode_varint32_eof i = ((Some v, e), i') \<Longrightarrow> is_bytes_left i' < is_bytes_left i"
proof -
  assume *: "pb_decode_varint32_eof i = ((Some v, e), i')"
  then obtain byte i1 where b: "pb_readbyte i = (Some byte, i1)"
    by (auto simp: pb_decode_varint32_eof_def split: prod.splits option.splits)
  obtain q i2 where l: "varint32_loop 7 (ucast (byte AND 0x7F)) i1 = (q, i2)" by fastforce
  then have "stream_le i1 i2" using forward_varint32_loop by (metis snd_conv)
  then have "is_bytes_left i2 < is_bytes_left i" using stream_le_left pb_readbyte_Some [OF b] by fastforce
  then show ?thesis
    using * b l pb_readbyte_Some [OF b] by (auto simp: pb_decode_varint32_eof_def is_error_def split: option.splits if_splits)
qed

lemma varint32_consumes [consumes]: "consumes pb_decode_varint32"
  unfolding consumes_def pb_decode_varint32_def using varint32_eof_consumes by (auto split: prod.splits) 

lemma varint_consumes [consumes]: "consumes pb_decode_varint"
proof -
  have "is_bytes_left i' < is_bytes_left i" if "pb_decode_varint i = (Some v, i')" for i i' v
  proof -
    from that have *: "varint_loop 0 0 i = (Some v, i')" by (simp add: pb_decode_varint_def)
    then obtain byte i1 where b: "pb_readbyte i = (Some byte, i1)"
      by (subst (asm) varint_loop.simps) (auto split: prod.splits option.splits)
    obtain q i2 where l: "varint_loop 7 (0 OR push_bit 0 (ucast (byte AND 0x7F))) i1 = (q, i2)" by fastforce
    then have "stream_le i1 i2" using forward_varint_loop by (metis snd_conv)
    then have "is_bytes_left i2 < is_bytes_left i" using stream_le_left pb_readbyte_Some [OF b] by fastforce
    then show ?thesis
      using * b l pb_readbyte_Some [OF b] by (subst (asm) varint_loop.simps) (auto simp: Let_def split: if_splits)
  qed
  then show ?thesis by (auto simp: consumes_def)
qed

lemma consumes_read [consumes]: "0 < n \<Longrightarrow> consumes (pb_read n)"
  unfolding consumes_def using pb_read_Some by blast

lemma consumes_bind [consumes]: "consumes f \<Longrightarrow> (\<And>a. forward (g a)) \<Longrightarrow> consumes (op_bind f g)"
  unfolding consumes_def op_bind_def
  by (auto split: prod.splits option.splits) (metis stream_le_left forward_at le_less_trans)

lemma consumes_map [consumes]: "consumes f \<Longrightarrow> consumes (op_map g f)"
  unfolding op_map_def by (intro consumes forward)

lemma consumes_svarint [consumes]: "consumes pb_decode_svarint"
  unfolding pb_decode_svarint_def by (intro consumes)

lemma consumes_fixed [consumes]: "consumes pb_dec_fixed32" "consumes pb_dec_fixed64" "consumes pb_dec_bool"
  unfolding pb_dec_fixed32_def pb_decode_fixed32_def pb_dec_fixed64_def pb_decode_fixed64_def pb_dec_bool_def
  by (intro consumes; simp)+

lemma decode_tag_forward:
  assumes "pb_decode_tag i = ((r, eof), i')"
  shows "stream_le i i'" "r \<noteq> None \<longrightarrow> is_bytes_left i' < is_bytes_left i"
proof -
  obtain q e i1 where v: "pb_decode_varint32_eof i = ((q, e), i1)" by (metis prod.collapse)
  then have "i1 = i'" using assms by (auto simp: pb_decode_tag_def split: option.splits if_splits)
  then show "stream_le i i'" using forward_varint32_eof [of i] v by simp
  show "r \<noteq> None \<longrightarrow> is_bytes_left i' < is_bytes_left i"
    using assms v \<open>i1 = i'\<close> varint32_eof_consumes by (auto simp: pb_decode_tag_def split: option.splits if_splits)
qed

lemma make_substream_forward:
  assumes "pb_make_string_substream i = (r, i')"
  shows "stream_le i i'"
    and "r = Some sub \<Longrightarrow> \<exists>k. is_state i' = drop k (is_state i) \<and> is_state sub = drop k (is_state i)
      \<and> k + is_bytes_left sub + is_bytes_left i' \<le> is_bytes_left i \<and> is_bytes_left sub + is_bytes_left i' < is_bytes_left i"
proof -
  obtain q i1 where v: "pb_decode_varint32 i = (q, i1)" by fastforce
  have le: "stream_le i i1" by (rule forward_at [OF forward_varint32 v])
  have lt: "q \<noteq> None \<longrightarrow> is_bytes_left i1 < is_bytes_left i" using varint32_consumes v unfolding consumes_def by (metis not_None_eq)
  from le obtain k where k: "is_state i1 = drop k (is_state i)" "k + is_bytes_left i1 \<le> is_bytes_left i" by (auto simp: stream_le_def)
  show "stream_le i i'"
    using assms v le by (auto simp: pb_make_string_substream_def op_bind_def is_error_def stream_le_def split: option.splits if_splits)
  show "r = Some sub \<Longrightarrow> \<exists>k. is_state i' = drop k (is_state i) \<and> is_state sub = drop k (is_state i)
      \<and> k + is_bytes_left sub + is_bytes_left i' \<le> is_bytes_left i \<and> is_bytes_left sub + is_bytes_left i' < is_bytes_left i"
    using assms v lt k
    by (intro exI [of _ k]) (auto simp: pb_make_string_substream_def op_bind_def is_error_def split: option.splits if_splits)
qed

section \<open>Runs confined to a region\<close>

definition frame :: "nat set \<Rightarrow> 'h dstate \<Rightarrow> 'h dstate \<Rightarrow> bool" where
  "frame A s s' \<longleftrightarrow> (\<forall>a. a \<notin> A \<longrightarrow> w_mem s' a = w_mem s a) \<and> w_heap s' = w_heap s \<and> w_stuck s' = w_stuck s
     \<and> stream_le (d_in s) (d_in s')"

definition confined :: "nat set \<Rightarrow> ('h dstate, 'a) opn \<Rightarrow> bool" where
  "confined A f \<longleftrightarrow> (\<forall>s. frame A s (snd (f s)))"

named_theorems confined \<open>operations that change only a region\<close>

lemma frame_refl [simp]: "frame A s s"
  by (simp add: frame_def)

lemma frame_trans: "frame A s s' \<Longrightarrow> frame A s' s'' \<Longrightarrow> frame A s s''"
  by (auto simp: frame_def intro: stream_le_trans)

lemma frame_mono: "frame A s s' \<Longrightarrow> A \<subseteq> B \<Longrightarrow> frame B s s'"
  by (auto simp: frame_def)

lemma confined_mono: "confined A f \<Longrightarrow> A \<subseteq> B \<Longrightarrow> confined B f"
  by (auto simp: confined_def intro: frame_mono)

lemma frame_at: "confined A f \<Longrightarrow> f s = (r, s') \<Longrightarrow> frame A s s'"
  unfolding confined_def by (metis snd_conv)

lemma frame_locals [simp]: "frame A s (s'\<lparr>d_fixed := v\<rparr>) = frame A s s'" "frame A (s\<lparr>d_fixed := v\<rparr>) s' = frame A s s'"
  by (simp_all add: frame_def)

lemma frame_put: "frame A s s' \<Longrightarrow> {a..<a + length bs} \<subseteq> A \<Longrightarrow> frame A s (put a bs s')"
  by (auto simp: frame_def put_def store_mem_def)

lemma frame_put_size: "frame A s s' \<Longrightarrow> {a..<a + 4} \<subseteq> A \<Longrightarrow> frame A s (put_size a v s')"
  unfolding put_size_def by (rule frame_put) simp_all

lemma confined_ret [confined]: "confined A (op_ret a)"
  by (simp add: confined_def op_ret_def)

lemma confined_check [confined]: "confined A (op_check b)"
  by (simp add: confined_def op_check_def op_ret_def op_fail_def)

lemma confined_status [confined]: "confined A (status b)"
  unfolding status_def by (rule confined_check)

lemma confined_bind [confined]: "confined A f \<Longrightarrow> (\<And>a. confined A (g a)) \<Longrightarrow> confined A (op_bind f g)"
  unfolding confined_def op_bind_def by (auto split: prod.splits option.splits) (metis snd_conv frame_trans)+

lemma confined_map [confined]: "confined A f \<Longrightarrow> confined A (op_map g f)"
  unfolding op_map_def by (intro confined)

lemma confined_seq [confined]: "confined A f \<Longrightarrow> confined A g \<Longrightarrow> confined A (op_seq f g)"
  unfolding op_seq_def by (intro confined)

lemma confined_if [confined]: "(b \<Longrightarrow> confined A f) \<Longrightarrow> (\<not> b \<Longrightarrow> confined A g) \<Longrightarrow> confined A (if b then f else g)"
  by simp

lemma confined_on_in [confined]: "forward f \<Longrightarrow> confined A (on_in f)"
  unfolding confined_def on_in_def by (auto simp: frame_def split: prod.splits intro: forward_at)

lemma confined_error [confined]: "confined A (d_error msg)"
  unfolding d_error_def by (intro confined forward)

lemma confined_put [confined]: "{a..<a + length bs} \<subseteq> A \<Longrightarrow> confined A (act (put a bs))"
  by (simp add: confined_def act_def frame_put)

text \<open>The state at which an operation is used may be known.\<close>

lemma frame_bind:
  assumes "frame A s (snd (f s))" "\<And>a s'. f s = (Some a, s') \<Longrightarrow> frame A s (snd (f s)) \<Longrightarrow> frame A s' (snd (g a s'))"
  shows "frame A s (snd (op_bind f g s))"
  using assms by (auto simp: op_bind_def split: prod.splits option.splits intro: frame_trans)

section \<open>Substreams\<close>

lemma frame_close_substream:
  assumes "stream_le sub sub'" "is_state i1 = drop k st" "is_state sub = drop k st"
    "k + is_bytes_left sub + is_bytes_left i1 \<le> m" "pb_close_string_substream sub' i1 = (r, i2)"
  shows "\<exists>k. is_state i2 = drop k st \<and> k + is_bytes_left i2 \<le> m"
proof -
  obtain j where j: "is_state sub' = drop j (is_state sub)" "j + is_bytes_left sub' \<le> is_bytes_left sub"
    using assms(1) by (auto simp: stream_le_def)
  define p where "p = (if is_bytes_left sub' \<noteq> 0 then pb_read (is_bytes_left sub') sub' else (Some [], sub'))"
  have p: "is_state (snd p) = drop (is_bytes_left sub') (is_state sub') \<and> fst p \<noteq> None"
    by (auto simp: p_def pb_read_def buf_read_def)
  have e: "pb_close_string_substream sub' i1 = (case fst p of None \<Rightarrow> (None, i1)
      | Some _ \<Rightarrow> (Some (), i1\<lparr>is_state := is_state (snd p), is_errmsg := is_errmsg (snd p)\<rparr>))"
    unfolding pb_close_string_substream_def Let_def p_def by (simp add: split_beta)
  then have "is_state i2 = drop (is_bytes_left sub' + j + k) st \<and> is_bytes_left i2 = is_bytes_left i1"
    using p assms(3,5) j(1) by (auto simp: add.assoc)
  then show ?thesis using j(2) assms(4) by (intro exI [of _ "is_bytes_left sub' + j + k"]) simp
qed

text \<open>The pattern of the code: make a substream, work on it, close it unless something is wrong.\<close>

lemma confined_substream:
  assumes work: "\<And>sub s. frame A (s\<lparr>d_in := sub\<rparr>) (snd (F sub (s\<lparr>d_in := sub\<rparr>)))"
    and close: "\<And>ok sub. G ok sub = on_in (pb_close_string_substream sub) \<or> G ok sub = op_seq (on_in (pb_close_string_substream sub)) (status ok)
      \<or> confined A (G ok sub)"
  shows "confined A (op_bind (on_in pb_make_string_substream) (\<lambda>sub. op_bind (on_substream sub (F sub)) (\<lambda>(ok, sub). G ok sub)))"
  unfolding confined_def
proof
  fix s :: "'a dstate"
  obtain r i1 where m: "pb_make_string_substream (d_in s) = (r, i1)" by fastforce
  show "frame A s (snd (op_bind (on_in pb_make_string_substream) (\<lambda>sub. op_bind (on_substream sub (F sub)) (\<lambda>(ok, sub). G ok sub)) s))"
  proof (cases r)
    case None
    then show ?thesis using m make_substream_forward(1) [OF m] by (simp add: op_bind_def on_in_def frame_def)
  next
    case (Some sub)
    obtain k where k: "is_state i1 = drop k (is_state (d_in s))" "is_state sub = drop k (is_state (d_in s))"
      "k + is_bytes_left sub + is_bytes_left i1 \<le> is_bytes_left (d_in s)"
      using make_substream_forward(2) [OF m Some] by blast
    obtain q s2 where f: "F sub (s\<lparr>d_in := sub\<rparr>) = (q, s2)" by fastforce
    have fr: "frame A (s\<lparr>d_in := sub\<rparr>) s2" using work [of sub s] f by simp
    define s3 where "s3 = s2\<lparr>d_in := i1\<rparr>"
    have e: "op_bind (on_in pb_make_string_substream) (\<lambda>sub. op_bind (on_substream sub (F sub)) (\<lambda>(ok, sub). G ok sub)) s
        = G (q \<noteq> None) (d_in s2) s3"
      using m Some f by (simp add: op_bind_def on_in_def on_substream_def s3_def)
    have s3: "frame A s s3" using fr make_substream_forward(1) [OF m] by (simp add: frame_def s3_def)
    have cl: "frame A s (snd (on_in (pb_close_string_substream (d_in s2)) s3))"
    proof -
      obtain r2 i2 where c: "pb_close_string_substream (d_in s2) i1 = (r2, i2)" by fastforce
      have "stream_le sub (d_in s2)" using fr by (simp add: frame_def)
      from frame_close_substream [OF this k c] have "stream_le (d_in s) i2" by (simp add: stream_le_def)
      then show ?thesis using fr c by (simp add: on_in_def s3_def frame_def)
    qed
    consider "G (q \<noteq> None) (d_in s2) = on_in (pb_close_string_substream (d_in s2))"
      | "G (q \<noteq> None) (d_in s2) = op_seq (on_in (pb_close_string_substream (d_in s2))) (status (q \<noteq> None))"
      | "confined A (G (q \<noteq> None) (d_in s2))" using close by blast
    then show ?thesis
    proof cases
      case 2
      have "frame A s (snd (op_bind (on_in (pb_close_string_substream (d_in s2))) (\<lambda>_. status (q \<noteq> None)) s3))"
        using cl confined_status [of A "q \<noteq> None"]
        by (auto simp: op_bind_def confined_def split: prod.splits option.splits intro: frame_trans)
      then show ?thesis unfolding e 2 op_seq_def .
    qed (use cl s3 e in \<open>auto simp: confined_def intro: frame_trans\<close>)
  qed
qed

section \<open>Decoders of one value\<close>

lemma confined_dec_to:
  assumes "forward dec" "\<And>i bs i'. dec i = (Some bs, i') \<Longrightarrow> length bs \<le> n" "{dest..<dest + n} \<subseteq> A"
  shows "confined A (dec_to dec dest)"
proof -
  have "frame A s (snd (dec_to dec dest s))" for s :: "'a dstate"
  proof -
    obtain r i' where d: "dec (d_in s) = (r, i')" by fastforce
    then have le: "stream_le (d_in s) i'" by (rule forward_at [OF assms(1)])
    show ?thesis
    proof (cases r)
      case None
      then show ?thesis using d le by (simp add: dec_to_def op_bind_def on_in_def frame_def)
    next
      case (Some bs)
      then have "{dest..<dest + length bs} \<subseteq> A" using assms(2) [of "d_in s" bs i'] assms(3) d by fastforce
      then have "frame A s (put dest bs (s\<lparr>d_in := i'\<rparr>))" using le by (intro frame_put) (simp_all add: frame_def)
      then show ?thesis using d Some by (simp add: dec_to_def op_bind_def on_in_def act_def)
    qed
  qed
  then show ?thesis by (simp add: confined_def)
qed

lemma length_read: "pb_read n i = (Some bs, i') \<Longrightarrow> length bs \<le> n"
  by (auto simp: pb_read_def buf_read_def is_error_def split: if_splits)

lemma length_store_int [simp]: "length (store_int n v) = n"
  by (simp add: store_int_def)

lemma dec_lengths:
  "pb_dec_bool i = (Some bs, i') \<Longrightarrow> length bs = 1" "pb_dec_fixed32 i = (Some bs, i') \<Longrightarrow> length bs = 4"
  "pb_dec_fixed64 i = (Some bs, i') \<Longrightarrow> length bs = 8"
  "pb_dec_fixed_length_bytes f i = (Some bs, i') \<Longrightarrow> length bs \<le> unat (f_data_size f)"
  by (auto simp: pb_dec_bool_def pb_dec_fixed32_def pb_dec_fixed64_def pb_dec_fixed_length_bytes_def op_map_def op_bind_def op_ret_def
      is_error_def split: prod.splits option.splits if_splits dest: length_read)

lemma confined_varints:
  assumes "{dest..<dest + unat (f_data_size f)} \<subseteq> A"
  shows "confined A (pb_dec_varint_to f dest)" "confined A (pb_dec_uvarint_to f dest)" "confined A (pb_dec_svarint_to f dest)"
  unfolding pb_dec_varint_to_def pb_dec_uvarint_to_def pb_dec_svarint_to_def Let_def
  by (intro confined forward; use assms in simp)+

lemma alloc_size_eq: "PB_BYTES_ARRAY_T_ALLOCSIZE (unat (sz :: u32)) = unat sz + 4"
proof -
  have "unat (of_nat (unat sz) :: u64) = unat sz"
    using unat_u32_bound [of sz] by (simp add: unsigned_ucast_eq take_bit_eq_mod)
  then show ?thesis
    using unat_u32_bound [of sz] unfolding PB_BYTES_ARRAY_T_ALLOCSIZE_def by (subst unat_word_ariths) simp
qed

lemma unat_plus_one_u32: "\<not> unat (sz + 1) < unat (sz :: u32) \<Longrightarrow> unat (sz + 1) = unat sz + 1"
proof -
  assume a: "\<not> unat (sz + 1) < unat sz"
  have m: "unat (sz + 1) = (unat sz + 1) mod 4294967296" by (simp add: unat_word_ariths)
  then show ?thesis using a unat_u32_bound [of sz] by (cases "unat sz = 4294967295") auto
qed

lemma confined_cases: "confined A f \<Longrightarrow> confined A g \<Longrightarrow> confined A (\<lambda>s. if b s then f s else g s)"
  by (simp add: confined_def)

lemma confined_bytes_to:
  assumes "atype f = PB_ATYPE_STATIC" "{dest..<dest + unat (f_data_size f)} \<subseteq> A"
  shows "confined A (pb_dec_bytes_to env f dest)"
proof -
  have "confined A (op_seq (act (put_size dest sz)) (dec_to (pb_read (unat sz)) (dest + 4)))"
    if "unat sz + 4 \<le> unat (f_data_size f)" for sz
  proof (rule confined_seq)
    show "confined A (act (put_size dest sz))"
      unfolding put_size_def using assms(2) that by (intro confined_put) auto
    show "confined A (dec_to (pb_read (unat sz)) (dest + 4))"
      using assms(2) that by (intro confined_dec_to [OF forward_read length_read]) auto
  qed
  note rd = this
  show ?thesis
    unfolding pb_dec_bytes_to_def Let_def alloc_size_eq
  proof (rule confined_bind [OF confined_on_in [OF forward_varint32]])
    fix sz :: u32
    let ?rd = "op_seq (act (put_size dest sz)) (dec_to (pb_read (unat sz)) (dest + 4))"
    have "confined A (\<lambda>s. if unat sz + 4 > unat (f_data_size f) then d_error ''bytes overflow'' s else ?rd s)"
      using rd [of sz] confined_error by (cases "unat sz + 4 > unat (f_data_size f)") simp_all
    then show "confined A (\<lambda>s. if unat sz + 4 < unat sz then d_error ''size too large'' s
      else if atype f = PB_ATYPE_POINTER then
        if is_bytes_left (d_in s) < unat sz then d_error ''end-of-stream'' s
        else op_seq (allocate_at env dest (unat sz + 4) 1)
          (\<lambda>s. op_seq (act (put_size (get_ptr dest s) sz)) (dec_to (pb_read (unat sz)) (get_ptr dest s + 4)) s) s
      else if unat sz + 4 > unat (f_data_size f) then d_error ''bytes overflow'' s else ?rd s)"
      using assms(1) by simp
  qed
qed

lemma confined_string_to:
  assumes "atype f = PB_ATYPE_STATIC" "{dest..<dest + unat (f_data_size f)} \<subseteq> A"
  shows "confined A (pb_dec_string_to env f dest)"
proof -
  have r: "frame A s (snd (case dec_to (pb_read (unat sz)) dest s of (r, s) \<Rightarrow> (r, put (dest + unat sz) [0] s)))"
    if "unat (sz + 1) \<le> unat (f_data_size f)" "\<not> unat (sz + 1) < unat sz" for sz :: u32 and s :: "'a dstate"
  proof -
    have "unat (sz + 1) = unat sz + 1" by (rule unat_plus_one_u32 [OF that(2)])
    then have sz: "unat sz + 1 \<le> unat (f_data_size f)" using that(1) by simp
    have "confined A (dec_to (pb_read (unat sz)) dest :: ('a dstate, unit) opn)"
      by (rule confined_dec_to [OF forward_read, where n = "unat sz"]) (use length_read assms(2) sz in auto)
    then have "frame A s (snd (dec_to (pb_read (unat sz)) dest s))" by (simp add: confined_def)
    then have "frame A s (put (dest + unat sz) [0] (snd (dec_to (pb_read (unat sz)) dest s)))"
      by (rule frame_put) (use assms(2) sz in auto)
    then show ?thesis by (simp add: split_beta)
  qed
  then show ?thesis
    unfolding pb_dec_string_to_def Let_def using assms(1)
    by (intro confined_bind confined_on_in forward)
      (auto simp: confined_def intro: confined_error [unfolded confined_def, rule_format])
qed

lemma confined_decoder:
  assumes "static_field f" "{dest..<dest + unat (f_data_size f)} \<subseteq> A"
    and sub: "ltype f = PB_LTYPE_SUBMESSAGE \<Longrightarrow> confined A (msg (htype f = PB_HTYPE_REPEATED) (f_ptr f) dest)"
  shows "confined A (pb_decoder env msg f dest)"
proof -
  have st: "atype f = PB_ATYPE_STATIC" "ltype f = 0 \<longrightarrow> unat (f_data_size f) = 1" "ltype f = 4 \<longrightarrow> unat (f_data_size f) = 4"
    "ltype f = 5 \<longrightarrow> unat (f_data_size f) = 8" "ltype f \<in> {0, 1, 2, 3, 4, 5, 6, 7, 8, 10}" "ltype f = 8 \<longrightarrow> f_ptr f \<noteq> 0"
    using assms(1) by (auto simp: static_field_def Let_def)
  have submsg: "confined A (pb_dec_submessage msg f dest)" if "ltype f = 8"
  proof -
    have m: "frame A (s\<lparr>d_in := i\<rparr>) (snd (msg (htype f = PB_HTYPE_REPEATED) (f_ptr f) dest (s\<lparr>d_in := i\<rparr>)))" for s :: "'a dstate" and i
      using sub that by (simp add: confined_def)
    have "f_ptr f \<noteq> 0" using st(6) that by simp
    then show ?thesis
      unfolding pb_dec_submessage_def by simp (rule confined_substream; use m in blast)
  qed
  have c0: "confined A (dec_to pb_dec_bool dest)" if "ltype f = 0"
    using st(2) that assms(2) by (intro confined_dec_to [OF forward_fixed(3), of 1]) (simp_all add: dec_lengths)
  have c4: "confined A (dec_to pb_dec_fixed32 dest)" if "ltype f = 4"
    using st(3) that assms(2) by (intro confined_dec_to [OF forward_fixed(1), of 4]) (simp_all add: dec_lengths)
  have c5: "confined A (dec_to pb_dec_fixed64 dest)" if "ltype f = 5"
    using st(4) that assms(2) by (intro confined_dec_to [OF forward_fixed(2), of 8]) (simp_all add: dec_lengths)
  note c = confined_dec_to [OF forward_fixed_length_bytes dec_lengths(4) assms(2)] confined_varints [OF assms(2)]
    confined_bytes_to [OF st(1) assms(2)] confined_string_to [OF st(1) assms(2)]
  show ?thesis
    unfolding pb_decoder_def Let_def
  proof (intro confined_if)
    assume "ltype f \<noteq> 0" "ltype f \<noteq> 1" "ltype f \<noteq> 2" "ltype f \<noteq> 3" "ltype f \<noteq> 4" "ltype f \<noteq> 5" "ltype f \<noteq> 6"
      "ltype f \<noteq> 7" "ltype f \<noteq> 8" "ltype f \<noteq> 10"
    then have False using st(5) by simp
    then show "confined A act_stuck" ..
  qed (rule c0 c4 c5 c submsg; assumption)+
qed

section \<open>Fields of a static message\<close>

lemma static_msg_fields:
  assumes "static_msg env d fs sz"
  obtains e where "d = Suc e" "layout fs sz" "\<forall>f\<in>set (butlast fs). static_field f"
    "\<forall>i<length fs - 1. static_field (fs ! i) \<and> (ltype (fs ! i) = PB_LTYPE_SUBMESSAGE
       \<longrightarrow> static_msg env e (env_fields env (f_ptr (fs ! i))) (unat (f_data_size (fs ! i))))"
proof (cases d)
  case (Suc e)
  have "fs ! i \<in> set (butlast fs)" if "i < length fs - 1" for i using that by (metis length_butlast nth_butlast nth_mem)
  then show ?thesis using that [of e] assms Suc by (auto simp: list_all_iff)
qed (use assms in simp)

lemma static_field_atype: "static_field f \<Longrightarrow> atype f = PB_ATYPE_STATIC \<and> ltype f \<noteq> PB_LTYPE_EXTENSION"
  by (auto simp: static_field_def Let_def)

definition region :: "nat \<Rightarrow> nat \<Rightarrow> nat set" where
  "region dest sz = {dest..<dest + sz}"

text \<open>What a field may write: its data and its count or flag.\<close>

definition area :: "pb_field list \<Rightarrow> nat \<Rightarrow> nat \<Rightarrow> nat set" where
  "area fs dest i = {dest + data_off fs i..<dest + data_off fs i + extent (fs ! i)}
     \<union> {dest + size_off fs i..<dest + size_off fs i + size_width fs i}"

lemma area_region: "layout fs sz \<Longrightarrow> i < length fs - 1 \<Longrightarrow> area fs dest i \<subseteq> region dest sz"
  using layout_at [of fs sz i] by (auto simp: region_def area_def)

lemma item_region:
  assumes "k < item_room (fs ! i)"
  shows "{dest + data_off fs i + unat (f_data_size (fs ! i)) * k
      ..<dest + data_off fs i + unat (f_data_size (fs ! i)) * k + unat (f_data_size (fs ! i))} \<subseteq> area fs dest i"
proof -
  have "unat (f_data_size (fs ! i)) * Suc k \<le> extent (fs ! i)"
    unfolding extent_def using assms by (intro mult_le_mono2) simp
  then show ?thesis by (auto simp: area_def)
qed

lemma whole_item_region:
  "htype (fs ! i) \<noteq> PB_HTYPE_REPEATED
    \<Longrightarrow> {dest + data_off fs i..<dest + data_off fs i + unat (f_data_size (fs ! i))} \<subseteq> area fs dest i"
  using item_region [of 0 fs i dest] by (simp add: item_room_def)

lemma size_region: "{dest + size_off fs i..<dest + size_off fs i + size_width fs i} \<subseteq> area fs dest i"
  by (simp add: area_def)

text \<open>The release of a static message has nothing to do.\<close>

lemma fold_id: "(\<And>i s. f i s = s) \<Longrightarrow> fold f xs s = s"
  by (induction xs) simp_all

lemma release_static_field:
  "static_msg env d fs sz \<Longrightarrow> d \<le> n \<Longrightarrow> i < length fs - 1 \<Longrightarrow> it_field it = fs ! i
    \<Longrightarrow> pb_release_single_field env n it s = s"
proof (induction d arbitrary: n fs sz i it s)
  case (Suc d)
  obtain m where n: "n = Suc m" "d \<le> m" using Suc.prems(2) by (cases n) auto
  let ?f = "fs ! i"
  from Suc.prems(1) obtain e where fs: "Suc d = Suc e" "static_field ?f"
    "ltype ?f = PB_LTYPE_SUBMESSAGE \<longrightarrow> static_msg env e (env_fields env (f_ptr ?f)) (unat (f_data_size ?f))"
    using Suc.prems(3) by (blast elim: static_msg_fields)
  have sub: "each_field (pb_release_single_field env m) (env_fields env (f_ptr ?f)) a s = s"
    if "ltype ?f = PB_LTYPE_SUBMESSAGE" for a s
  proof -
    have sm: "static_msg env d (env_fields env (f_ptr ?f)) (unat (f_data_size ?f))" using fs that by simp
    then obtain e' where l: "layout (env_fields env (f_ptr ?f)) (unat (f_data_size ?f))"
      "\<forall>f\<in>set (butlast (env_fields env (f_ptr ?f))). static_field f" by (blast elim: static_msg_fields)
    show ?thesis
      unfolding each_field_fold [OF l]
      by (rule fold_invariant [where P = "\<lambda>t. t = s" and Q = "\<lambda>j. j < length (env_fields env (f_ptr ?f)) - 1"])
        (use Suc.IH [OF sm n(2)] in auto)
  qed
  have c: "release_contents env (pb_release_single_field env m) it s = s"
    using static_field_atype [OF fs(2)] sub Suc.prems(4) by (simp add: release_contents_def Let_def fold_id)
  show ?case
    using static_field_atype [OF fs(2)] c Suc.prems(4) by (simp add: n(1) release_field_def Let_def)
qed simp

lemma release_static:
  assumes "static_msg env d fs sz" "d \<le> n"
  shows "pb_release env n fs dest s = s"
proof -
  from assms(1) have l: "layout fs sz" "\<forall>f\<in>set (butlast fs). static_field f" by (blast elim: static_msg_fields)+
  have "fold (\<lambda>i. pb_release_single_field env n (iter_at fs dest i)) [0..<length fs - 1] s = s"
    by (rule fold_invariant [where P = "\<lambda>t. t = s" and Q = "\<lambda>j. j < length fs - 1"])
      (use release_static_field [OF assms] in auto)
  then show ?thesis by (simp add: pb_release_def each_field_fold [OF l])
qed

text \<open>Default values stay within the message.\<close>

lemma frame_each_field:
  assumes "layout fs sz" "\<forall>f\<in>set (butlast fs). static_field f"
    "\<And>i s. i < length fs - 1 \<Longrightarrow> frame A s (work (iter_at fs dest i) s)"
  shows "frame A s (each_field work fs dest s)"
  unfolding each_field_fold [OF assms(1,2)]
  by (rule fold_invariant [where P = "\<lambda>t. frame A s t" and Q = "\<lambda>j. j < length fs - 1"])
    (use assms(3) in \<open>auto intro: frame_trans\<close>)

lemma frame_default:
  "static_msg env d fs sz \<Longrightarrow> d \<le> n \<Longrightarrow> i < length fs - 1
    \<Longrightarrow> frame (area fs dest i) s (pb_field_set_to_default env n (iter_at fs dest i) s)"
proof (induction d arbitrary: n fs sz i dest s)
  case (Suc d)
  obtain m where n: "n = Suc m" "d \<le> m" using Suc.prems(2) by (cases n) auto
  let ?f = "fs ! i" and ?p = "dest + data_off fs i" and ?A = "area fs dest i"
  from Suc.prems(1) have l: "layout fs sz" by (blast elim: static_msg_fields)
  from Suc.prems(1) obtain e where fs: "Suc d = Suc e" "static_field ?f"
    "ltype ?f = PB_LTYPE_SUBMESSAGE \<longrightarrow> static_msg env e (env_fields env (f_ptr ?f)) (unat (f_data_size ?f))"
    using Suc.prems(3) by (blast elim: static_msg_fields)
  note st = static_field_atype [OF fs(2)]
  note sr = size_region [of dest fs i]
  have ini: "frame ?A s (if ltype ?f = PB_LTYPE_SUBMESSAGE then each_field (pb_field_set_to_default env m) (env_fields env (f_ptr ?f)) ?p s
      else if f_ptr ?f \<noteq> 0 then put ?p (get (f_ptr ?f) (unat (f_data_size ?f)) s) s
      else put ?p (replicate (unat (f_data_size ?f)) 0) s)" if h: "htype ?f \<noteq> PB_HTYPE_REPEATED" for s
  proof -
    note w = whole_item_region [OF h, of dest]
    have "frame ?A s (each_field (pb_field_set_to_default env m) (env_fields env (f_ptr ?f)) ?p s)"
      if "ltype ?f = PB_LTYPE_SUBMESSAGE"
    proof -
      have sm: "static_msg env d (env_fields env (f_ptr ?f)) (unat (f_data_size ?f))" using fs that by simp
      then have l': "layout (env_fields env (f_ptr ?f)) (unat (f_data_size ?f))"
        "\<forall>f\<in>set (butlast (env_fields env (f_ptr ?f))). static_field f" by (blast elim: static_msg_fields)+
      have "frame (region ?p (unat (f_data_size ?f))) s (each_field (pb_field_set_to_default env m) (env_fields env (f_ptr ?f)) ?p s)"
        by (rule frame_each_field [OF l']) (rule frame_mono [OF Suc.IH [OF sm n(2)] area_region [OF l'(1)]])
      moreover have "region ?p (unat (f_data_size ?f)) \<subseteq> ?A" using w unfolding region_def [of ?p] .
      ultimately show ?thesis by (rule frame_mono)
    qed
    then show ?thesis using w by (auto intro!: frame_put simp: get_def)
  qed
  show ?case
  proof (cases "htype ?f = PB_HTYPE_REPEATED \<or> htype ?f = PB_HTYPE_ONEOF")
    case True
    then have "size_width fs i = 4" by (auto simp: size_width_def)
    then have "frame ?A s (put_size (dest + size_off fs i) 0 s)" using sr by (intro frame_put_size) simp_all
    then show ?thesis using True st by (auto simp: n(1) field_default_def Let_def)
  next
    case False
    then have h: "htype ?f \<noteq> PB_HTYPE_REPEATED" by blast
    show ?thesis
    proof (cases "htype ?f = PB_HTYPE_OPTIONAL \<and> size_off fs i \<noteq> data_off fs i")
      case True
      then have "size_width fs i = 1" by (simp add: size_width_def)
      then have "frame ?A s (put (dest + size_off fs i) [0] s)" using sr by (intro frame_put) simp_all
      from frame_trans [OF this ini [OF h]] show ?thesis using True st False by (simp add: n(1) field_default_def Let_def)
    next
      case F2: False
      then show ?thesis using ini [OF h, of s] st False by (auto simp: n(1) field_default_def Let_def)
    qed
  qed
qed simp

lemma frame_defaults:
  assumes "static_msg env d fs sz" "d \<le> n"
  shows "frame (region dest sz) s (pb_message_set_to_defaults env n fs dest s)"
proof -
  from assms(1) have l: "layout fs sz" "\<forall>f\<in>set (butlast fs). static_field f" by (blast elim: static_msg_fields)+
  show ?thesis
    unfolding pb_message_set_to_defaults_def by (rule frame_each_field [OF l]) (rule frame_mono [OF frame_default [OF assms] area_region [OF l(1)]])
qed

section \<open>One field\<close>

lemma htype_cases: "PB_HTYPE x = PB_HTYPE_REQUIRED \<or> PB_HTYPE x = PB_HTYPE_OPTIONAL \<or> PB_HTYPE x = PB_HTYPE_REPEATED
    \<or> PB_HTYPE x = PB_HTYPE_ONEOF"
proof -
  have "PB_HTYPE x = (if bit x 4 then 0x10 else 0) OR (if bit x 5 then 0x20 else 0)"
    unfolding PB_HTYPE_def
    by (intro word_eq_by_bits) (simp add: upt_conv_Cons bit_and_iff bit_or_iff numeral_eq_Suc)
  then show ?thesis by (cases "bit x 4"; cases "bit x 5") simp_all
qed

lemma frame_put_count:
  assumes "layout fs sz" "iter_ok fs dest i it" "htype (fs ! i) = PB_HTYPE_REPEATED \<or> htype (fs ! i) = PB_HTYPE_ONEOF" "frame (area fs dest i) s s'"
  shows "frame (area fs dest i) s (put_count it v s')"
proof -
  have i: "i < length fs - 1" using assms(2) by (simp add: iter_ok_def)
  have w: "size_width fs i = 4" using assms(3) by (auto simp: size_width_def)
  show ?thesis
    using assms(2,4) size_region [of dest fs i]
    by (auto simp: iter_ok_def put_count_def w intro!: frame_put_size)
qed

lemma d_in_put_count [simp]: "d_in (put_count it v s) = d_in s"
  by (simp add: put_count_def put_size_def put_def split: size_ref.splits)

lemma packed_loop_frame:
  assumes "layout fs sz" "iter_ok fs dest i it" "htype (fs ! i) = PB_HTYPE_REPEATED"
    and func: "\<And>p. {p..<p + unat (f_data_size (fs ! i))} \<subseteq> area fs dest i \<Longrightarrow> confined (area fs dest i) (func (fs ! i) p)"
    and eats: "\<And>p s u s'. func (fs ! i) p s = (Some u, s') \<Longrightarrow> is_bytes_left (d_in s') < is_bytes_left (d_in s)"
  shows "is_bytes_left (d_in s) \<le> k \<Longrightarrow> frame (area fs dest i) s (snd (packed_loop func it k s))"
proof (induction k arbitrary: s)
  case (Suc k)
  have i: "i < length fs - 1" using assms(2) by (simp add: iter_ok_def)
  note f = iter_ok_field [OF assms(2)]
  show ?case
  proof (cases "is_bytes_left (d_in s) > 0 \<and> get_count it s < f_array_size (fs ! i)")
    case True
    define p where "p = dest + data_off fs i + unat (f_data_size (fs ! i)) * unat (get_count it s)"
    have "unat (get_count it s) < item_room (fs ! i)" using True assms(3) by (simp add: item_room_def word_less_nat_alt)
    then have c: "confined (area fs dest i) (func (fs ! i) p)" unfolding p_def by (intro func item_region)
    obtain r s1 where r: "func (fs ! i) p s = (r, s1)" by fastforce
    have f1: "frame (area fs dest i) s s1" by (rule frame_at [OF c r])
    have e: "packed_loop func it (Suc k) s = (case r of None \<Rightarrow> (None, s1)
        | Some u \<Rightarrow> packed_loop func it k (put_count it (get_count it s1 + 1) s1))"
      using True f r by (simp add: p_def Let_def op_seq_def op_bind_def act_def split: option.splits)
    show ?thesis
    proof (cases r)
      case None
      then show ?thesis using e f1 by simp
    next
      case (Some u)
      let ?s2 = "put_count it (get_count it s1 + 1) s1"
      have "is_bytes_left (d_in s1) < is_bytes_left (d_in s)" using eats r Some by blast
      then have "frame (area fs dest i) ?s2 (snd (packed_loop func it k ?s2))" using Suc.prems by (intro Suc.IH) simp
      moreover have "frame (area fs dest i) s ?s2" using assms(3) by (intro frame_put_count [OF assms(1,2) _ f1]) simp
      ultimately show ?thesis using e Some frame_trans by fastforce
    qed
  qed (use f in auto)
qed simp

lemma confined_static_field:
  assumes l: "layout fs sz" and it: "iter_ok fs dest i it" and st: "static_field (fs ! i)"
    and sub: "ltype (fs ! i) = PB_LTYPE_SUBMESSAGE \<longrightarrow> static_msg env d (env_fields env (f_ptr (fs ! i))) (unat (f_data_size (fs ! i))) \<and> d \<le> n"
    and func: "\<And>p. {p..<p + unat (f_data_size (fs ! i))} \<subseteq> area fs dest i \<Longrightarrow> confined (area fs dest i) (func (fs ! i) p)"
    and eats: "\<And>p s u s'. ltype (fs ! i) \<le> 5 \<Longrightarrow> func (fs ! i) p s = (Some u, s') \<Longrightarrow> is_bytes_left (d_in s') < is_bytes_left (d_in s)"
  shows "confined (area fs dest i) (decode_static_field env n func wt it)"
proof -
  let ?f = "fs ! i" and ?A = "area fs dest i" and ?p = "dest + data_off fs i"
  have i: "i < length fs - 1" using it by (simp add: iter_ok_def)
  note f = iter_ok_field [OF it]
  consider "htype ?f = PB_HTYPE_REQUIRED" | "htype ?f = PB_HTYPE_OPTIONAL" | "htype ?f = PB_HTYPE_REPEATED"
    | "htype ?f \<noteq> PB_HTYPE_REQUIRED" "htype ?f \<noteq> PB_HTYPE_OPTIONAL" "htype ?f \<noteq> PB_HTYPE_REPEATED" by blast
  then show ?thesis
  proof cases
    case 1
    then have "confined ?A (func ?f ?p)" by (intro func whole_item_region) simp
    then show ?thesis using 1 f by (simp add: decode_static_field_def Let_def)
  next
    case 2
    then have "confined ?A (func ?f ?p)" by (intro func whole_item_region) simp
    moreover have "it = iter_at fs dest i" using it 2 by (simp add: iter_ok_def)
    moreover have "confined ?A (act (if size_off fs i \<noteq> data_off fs i then put (dest + size_off fs i) [1] else id)
        :: ('a dstate, unit) opn)"
    proof (cases "size_off fs i = data_off fs i")
      case False
      then have "size_width fs i = 1" using 2 by (simp add: size_width_def)
      then show ?thesis using size_region [of dest fs i] False by (simp add: confined_put)
    qed (simp add: confined_def act_def)
    ultimately show ?thesis using 2 by (auto simp: decode_static_field_def Let_def confined_seq split: if_splits)
  next
    case 3
    have packed: "confined ?A (op_bind (on_in pb_make_string_substream) (\<lambda>sub.
        op_bind (on_substream sub (packed_loop func it (is_bytes_left sub))) (\<lambda>(ok, sub).
          if is_bytes_left sub \<noteq> 0 then d_error ''array overflow''
          else op_seq (on_in (pb_close_string_substream sub)) (status ok))))" if "ltype ?f \<le> 5"
    proof (rule confined_substream)
      show "frame ?A (s\<lparr>d_in := sub\<rparr>) (snd (packed_loop func it (is_bytes_left sub) (s\<lparr>d_in := sub\<rparr>)))" for s and sub
        by (rule packed_loop_frame [OF l it 3]) (use func eats [OF that] in simp_all)
    qed (use confined_error in auto)
    have single: "confined ?A (\<lambda>s. let sz = get_count it s; pItem = ?p + unat (f_data_size ?f) * unat sz; s = put_count it (sz + 1) s in
          if sz \<ge> f_array_size ?f then d_error ''array overflow'' s else func ?f pItem s)"
      unfolding confined_def
    proof
      fix s :: "'a dstate"
      let ?c = "get_count it s" and ?s = "put_count it (get_count it s + 1) s"
      have s: "frame ?A s ?s" using 3 by (intro frame_put_count [OF l it]) simp_all
      have "frame ?A ?s (snd (func ?f (?p + unat (f_data_size ?f) * unat ?c) ?s))" if "\<not> ?c \<ge> f_array_size ?f"
      proof -
        have "unat ?c < item_room ?f" using that 3 by (simp add: item_room_def word_le_nat_alt)
        then show ?thesis using func [OF item_region] by (simp add: confined_def)
      qed
      moreover have "frame ?A ?s (snd (d_error ''array overflow'' ?s :: unit option \<times> 'a dstate))"
        using confined_error [of ?A "''array overflow''"] unfolding confined_def by blast
      ultimately show "frame ?A s (snd (let sz = ?c; pItem = ?p + unat (f_data_size ?f) * unat sz; s = put_count it (sz + 1) s in
          if sz \<ge> f_array_size ?f then d_error ''array overflow'' s else func ?f pItem s))"
        using s by (auto simp: Let_def intro: frame_trans)
    qed
    show ?thesis using 3 f packed single by (auto simp: decode_static_field_def Let_def)
  next
    case 4
    have oneof: "htype ?f = PB_HTYPE_ONEOF" using htype_cases [of "f_type ?f"] 4 by blast
    have w: "{?p..<?p + unat (f_data_size ?f)} \<subseteq> ?A" using 4 by (intro whole_item_region) simp
    have ini: "confined ?A (\<lambda>s. if ltype ?f = PB_LTYPE_SUBMESSAGE \<and> get_count it s \<noteq> f_tag ?f
        then (Some (), pb_message_set_to_defaults env n (env_fields env (f_ptr ?f)) ?p (put ?p (replicate (unat (f_data_size ?f)) 0) s))
        else (Some (), s))"
      unfolding confined_def
    proof
      fix s :: "'a dstate"
      let ?s = "put ?p (replicate (unat (f_data_size ?f)) 0) s"
      have "frame ?A ?s (pb_message_set_to_defaults env n (env_fields env (f_ptr ?f)) ?p ?s)" if "ltype ?f = PB_LTYPE_SUBMESSAGE"
        using frame_defaults [of env d "env_fields env (f_ptr ?f)" "unat (f_data_size ?f)" n ?p ?s] sub that w
        by (auto simp: region_def [of ?p] intro: frame_mono)
      moreover have "frame ?A s ?s" using w by (intro frame_put) simp_all
      ultimately show "frame ?A s (snd (if ltype ?f = PB_LTYPE_SUBMESSAGE \<and> get_count it s \<noteq> f_tag ?f
        then (Some (), pb_message_set_to_defaults env n (env_fields env (f_ptr ?f)) ?p ?s) else (Some (), s)))"
        by (auto intro: frame_trans)
    qed
    have "confined ?A (act (put_count it (f_tag ?f)) :: ('a dstate, unit) opn)"
      using oneof by (auto simp: confined_def act_def intro: frame_put_count [OF l it])
    then show ?thesis using 4 f ini func [OF w] by (simp add: decode_static_field_def Let_def confined_seq)
  qed
qed

text \<open>Decoders of packable values take at least one byte.\<close>

definition eats :: "('h dstate, 'a) opn \<Rightarrow> bool" where
  "eats f \<longleftrightarrow> (\<forall>s r s'. f s = (Some r, s') \<longrightarrow> is_bytes_left (d_in s') < is_bytes_left (d_in s))"

lemma confined_left: "confined A f \<Longrightarrow> f s = (r, s') \<Longrightarrow> is_bytes_left (d_in s') \<le> is_bytes_left (d_in s)"
  using frame_at [of A f s r s'] by (simp add: frame_def stream_le_left)

lemma eats_on_in: "consumes f \<Longrightarrow> eats (on_in f)"
  by (auto simp: eats_def consumes_def on_in_def split: prod.splits)

lemma eats_bind: "eats f \<Longrightarrow> (\<And>a. confined UNIV (g a)) \<Longrightarrow> eats (op_bind f g)"
  unfolding eats_def op_bind_def
  by (auto split: prod.splits option.splits) (metis confined_left le_less_trans)

lemma decoder_eats:
  assumes "static_field f" "ltype f \<le> 5"
  shows "eats (pb_decoder env msg f p)"
proof -
  have "ltype f = 0 \<or> ltype f = 1 \<or> ltype f = 2 \<or> ltype f = 3 \<or> ltype f = 4 \<or> ltype f = 5" using assms(2) by linarith
  then show ?thesis
    unfolding pb_decoder_def Let_def dec_to_def pb_dec_varint_to_def pb_dec_uvarint_to_def pb_dec_svarint_to_def
    by (elim disjE) (simp_all, (intro eats_bind eats_on_in consumes confined; simp)+)
qed

text \<open>The release of another member of a static union leaves the iterator where it was.\<close>

lemma release_union_static:
  assumes sm: "static_msg env d fs sz" "d \<le> n" and it: "iter_ok fs dest i it"
  shows "(\<exists>it'. pb_release_union_field env n it s = (Some it', s) \<and> iter_ok fs dest i it')
    \<or> (\<exists>m. pb_release_union_field env n it s = d_error m s)"
proof -
  from sm(1) have l: "layout fs sz" "\<forall>f\<in>set (butlast fs). static_field f" by (blast elim: static_msg_fields)+
  have i: "i < length fs - 1" using it by (simp add: iter_ok_def)
  note f = iter_ok_field [OF it]
  obtain found it1 where fd: "pb_field_iter_find it (get_count it s) = (found, it1)" by fastforce
  show ?thesis
  proof (cases "get_count it s = 0 \<or> get_count it s = f_tag (fs ! i) \<or> \<not> found")
    case True
    then show ?thesis using f fd it by (auto simp: pb_release_union_field_def Let_def)
  next
    case False
    then have "it1 = it \<or> (\<exists>j < length fs - 1. it1 = iter_at fs dest j)"
      using iter_search_all [OF l it, of "\<lambda>f. f_tag f = get_count it s \<and> ltype f \<noteq> PB_LTYPE_EXTENSION"] fd f
      unfolding pb_field_iter_find_def by fastforce
    then obtain j where j: "iter_ok fs dest j it1" using it iter_ok_at by blast
    then have jl: "j < length fs - 1" "it_field it1 = fs ! j" by (simp_all add: iter_ok_field) (simp add: iter_ok_def)
    have bk: "pb_field_iter_find it1 (f_tag (fs ! i)) = (True, if j = i then it1 else iter_at fs dest i)"
      by (rule iter_find_tag [OF l j i])
    have "fs ! i \<in> set (butlast fs)" using i by (metis length_butlast nth_butlast nth_mem)
    then have st: "atype (fs ! i) = PB_ATYPE_STATIC" using l(2) static_field_atype by blast
    have fi: "it_field (if j = i then it1 else iter_at fs dest i) = fs ! i" using jl by simp
    show ?thesis
      using False fd f bk release_static_field [OF sm jl] st fi j iter_ok_at [OF i]
      by (auto simp: pb_release_union_field_def Let_def)
  qed
qed

lemma frame_error: "frame A s (snd (d_error m s))"
  using confined_error unfolding confined_def by blast

lemma submessage_decoder:
  assumes "static_field f" "region dest (unat (f_data_size f)) \<subseteq> A"
    and "ltype f = PB_LTYPE_SUBMESSAGE \<longrightarrow> static_msg env d (env_fields env (f_ptr f)) (unat (f_data_size f))"
    and "\<And>init ptr sz p. static_msg env d (env_fields env ptr) sz \<Longrightarrow> confined (region p sz) (msg init ptr p)"
  shows "confined A (pb_decoder env msg f dest)"
proof (rule confined_decoder [OF assms(1)])
  show "{dest..<dest + unat (f_data_size f)} \<subseteq> A" using assms(2) by (simp add: region_def)
  assume "ltype f = PB_LTYPE_SUBMESSAGE"
  then have "confined (region dest (unat (f_data_size f))) (msg (htype f = PB_HTYPE_REPEATED) (f_ptr f) dest)"
    using assms(3) by (intro assms(4)) simp
  then show "confined A (msg (htype f = PB_HTYPE_REPEATED) (f_ptr f) dest)" using assms(2) by (rule confined_mono)
qed

lemma frame_decode_field:
  assumes sm: "static_msg env (Suc d) fs sz" "Suc d \<le> n" and it: "iter_ok fs dest i it"
    and msg: "\<And>init ptr sz p. static_msg env d (env_fields env ptr) sz \<Longrightarrow> confined (region p sz) (msg init ptr p)"
  shows "frame (area fs dest i) s (snd (decode_field env n msg wt it s))" (is ?F)
    and "decode_field env n msg wt it s = (Some it', s') \<Longrightarrow> iter_ok fs dest i it'" (is "?R \<Longrightarrow> _")
proof -
  from sm(1) have l: "layout fs sz" "\<forall>f\<in>set (butlast fs). static_field f" by (blast elim: static_msg_fields)+
  have i: "i < length fs - 1" using it by (simp add: iter_ok_def)
  from sm(1) obtain e where "Suc d = Suc e" and fs: "static_field (fs ! i)"
    "ltype (fs ! i) = PB_LTYPE_SUBMESSAGE \<longrightarrow> static_msg env e (env_fields env (f_ptr (fs ! i))) (unat (f_data_size (fs ! i)))"
    using i by (blast elim: static_msg_fields)
  then have fs2: "ltype (fs ! i) = PB_LTYPE_SUBMESSAGE \<longrightarrow> static_msg env d (env_fields env (f_ptr (fs ! i))) (unat (f_data_size (fs ! i)))"
    by simp
  let ?un = "if htype (it_field it) = PB_HTYPE_ONEOF then pb_release_union_field env n it else op_ret it"
  have un: "(\<exists>it'. ?un s = (Some it', s) \<and> iter_ok fs dest i it') \<or> (\<exists>m. ?un s = d_error m s)"
    using release_union_static [OF sm it, of s] it by (auto simp: op_ret_def)
  have one: "confined (area fs dest i) (decode_static_field env n (pb_decoder env msg) wt it')" if "iter_ok fs dest i it'" for it'
  proof (rule confined_static_field [OF l(1) that fs(1)])
    show "confined (area fs dest i) (pb_decoder env msg (fs ! i) p)"
      if "{p..<p + unat (f_data_size (fs ! i))} \<subseteq> area fs dest i" for p
      using that by (intro submessage_decoder [OF fs(1) _ fs2 msg]) (simp_all add: region_def)
    show "ltype (fs ! i) = PB_LTYPE_SUBMESSAGE
        \<longrightarrow> static_msg env d (env_fields env (f_ptr (fs ! i))) (unat (f_data_size (fs ! i))) \<and> d \<le> n"
      using fs2 sm(2) by simp
    show "is_bytes_left (d_in s') < is_bytes_left (d_in s)"
      if "ltype (fs ! i) \<le> 5" "pb_decoder env msg (fs ! i) p s = (Some u, s')" for p s u s'
      using decoder_eats [OF fs(1) that(1)] that(2) unfolding eats_def by blast
  qed
  have run: "decode_field env n msg wt it s = (case ?un s of (None, s) \<Rightarrow> (None, s) | (Some it', s) \<Rightarrow>
      if iter_ok fs dest i it' then op_map (\<lambda>_. it') (decode_static_field env n (pb_decoder env msg) wt it') s else
      (let func = pb_decoder env msg; it = it' in
       op_map (\<lambda>_. it)
         (if atype (it_field it) = PB_ATYPE_STATIC then decode_static_field env n func wt it
          else if atype (it_field it) = PB_ATYPE_POINTER then decode_pointer_field env n func wt it
          else if atype (it_field it) = PB_ATYPE_CALLBACK then decode_callback_field env wt it
          else d_error ''invalid field type'') s))"
    using static_field_atype [OF fs(1)]
    by (auto simp: decode_field_def op_bind_def Let_def iter_ok_field split: prod.splits option.splits)
  from un show ?F
  proof (elim disjE exE conjE)
    fix it' assume "?un s = (Some it', s)" "iter_ok fs dest i it'"
    moreover have "confined (area fs dest i) (op_map (\<lambda>_. it') (decode_static_field env n (pb_decoder env msg) wt it'))"
      using one calculation by (intro confined)
    ultimately show ?F by (simp add: run confined_def)
  next
    fix m assume m: "?un s = d_error m s"
    show ?F unfolding run m by (simp add: d_error_def is_error_def on_in_def frame_def)
  qed
  show "?R \<Longrightarrow> iter_ok fs dest i it'"
    using un by (auto simp: run op_map_def op_bind_def op_ret_def d_error_def is_error_def on_in_def split: prod.splits option.splits)
qed

section \<open>The main loop\<close>

definition l_ok :: "pb_field list \<Rightarrow> nat \<Rightarrow> pb_locals \<Rightarrow> bool" where
  "l_ok fs dest l \<longleftrightarrow> (\<exists>i. iter_ok fs dest i (l_iter l)) \<and> (l_extension_range_start l = 0 \<or> l_extension_range_start l = - 1)"

text \<open>A run that stays in the region and leaves locals that are as they should be.\<close>

definition run_ok :: "pb_field list \<Rightarrow> nat \<Rightarrow> nat \<Rightarrow> 'h dstate \<Rightarrow> pb_locals option \<times> 'h dstate \<Rightarrow> bool" where
  "run_ok fs dest sz s p \<longleftrightarrow> frame (region dest sz) s (snd p) \<and> (\<forall>l. fst p = Some l \<longrightarrow> l_ok fs dest l)"

lemma run_ok_error: "run_ok fs dest sz s (d_error m s)"
  using frame_error [of "region dest sz" s m] by (simp add: run_ok_def d_error_def is_error_def on_in_def)

lemma run_ok_map:
  "confined (region dest sz) f \<Longrightarrow> l_ok fs dest l \<Longrightarrow> run_ok fs dest sz s (op_map (\<lambda>_. l) f s)"
  by (auto simp: run_ok_def confined_def op_map_def op_bind_def op_ret_def split: prod.splits option.splits) (metis snd_conv)+

lemma tag_bound:
  assumes "pb_decode_tag i = ((Some (wt, tag), eof), i')"
  shows "tag < - 1"
proof -
  obtain temp :: u32 where t: "tag = drop_bit 3 temp"
    using assms by (auto simp: pb_decode_tag_def split: prod.splits option.splits if_splits)
  have "unat tag < unat (- 1 :: u32)"
    using unat_u32_bound [of temp] unfolding t drop_bit_eq_div unat_div_distrib
    by (simp add: unsigned_minus_1_eq_mask mask_eq_exp_minus_1)
  then show ?thesis by (simp only: word_less_nat_alt)
qed

lemma confined_fixed_count_check: "confined A (fixed_count_check l)"
  by (auto simp: confined_def fixed_count_check_def frame_error split: option.splits)

lemma run_ok_unknown:
  assumes sm: "static_msg env d fs sz" and ok: "l_ok fs dest l" and tag: "tag < - 1"
  shows "run_ok fs dest sz s (decode_unknown env n msg tag wt l s)"
proof -
  from sm have l: "layout fs sz" "\<forall>f\<in>set (butlast fs). static_field f" by (blast elim: static_msg_fields)+
  from ok obtain i where it: "iter_ok fs dest i (l_iter l)" by (auto simp: l_ok_def)
  have i: "i < length fs - 1" using it by (simp add: iter_ok_def)
  note f = iter_ok_field [OF it]
  have skip: "run_ok fs dest sz s (op_map (\<lambda>_. l') (on_in (pb_skip_field wt)) s)" if "l_ok fs dest l'" for l'
    by (intro run_ok_map confined forward that)
  have no: "ltype (fs ! j) \<noteq> PB_LTYPE_EXTENSION" if "j < length fs - 1" for j
    using l(2) that static_field_atype by (metis length_butlast nth_butlast nth_mem)
  have fd: "find_extension_field (l_iter l) = (False, iter_at fs dest i)"
    using iter_search_all [OF l it, of "\<lambda>f. ltype f = PB_LTYPE_EXTENSION"] no i f
    by (auto simp: find_extension_field_def)
  have ok': "l_ok fs dest (l\<lparr>l_iter := iter_at fs dest i, l_extension_range_start := - 1\<rparr>)"
    using iter_ok_at [OF i] by (auto simp: l_ok_def)
  have nt: "\<not> - 1 \<le> tag" using tag by (simp only: not_le)
  show ?thesis
    using skip [OF ok] skip [OF ok'] nt by (simp add: decode_unknown_def fd Let_def)
qed

lemma run_ok_known:
  assumes sm: "static_msg env (Suc d) fs sz" "Suc d \<le> n" and ok: "l_ok fs dest l"
    and msg: "\<And>init ptr sz p. static_msg env d (env_fields env ptr) sz \<Longrightarrow> confined (region p sz) (msg init ptr p)"
  shows "run_ok fs dest sz s (decode_known env n msg wt l s)"
proof -
  from ok obtain i where it: "iter_ok fs dest i (l_iter l)" and es: "l_extension_range_start l = 0 \<or> l_extension_range_start l = - 1"
    by (auto simp: l_ok_def)
  let ?it = "l_iter l"
  define first where "first = (if htype (it_field ?it) = PB_HTYPE_REPEATED \<and> it_pSize ?it = At (it_pData ?it)
         then op_bind (if l_fixed_count_field l \<noteq> Some (it_pos ?it)
                       then op_seq (fixed_count_check l)
                              (op_seq (act (\<lambda>s. s\<lparr>d_fixed := 0\<rparr>)) (op_ret (l\<lparr>l_fixed_count_field := Some (it_pos ?it)\<rparr>)))
                       else op_ret l)
                (\<lambda>l. op_ret (l\<lparr>l_iter := ?it\<lparr>it_pSize := Fixed_count\<rparr>\<rparr>))
         else (op_ret l :: ('a dstate, pb_locals) opn))"
  obtain r s1 where r: "first s = (r, s1)" by fastforce
  have "confined (region dest sz) first"
    unfolding first_def
    by (intro confined confined_fixed_count_check) (simp add: confined_def act_def)
  then have s1: "frame (region dest sz) s s1" using r by (rule frame_at)
  have l1: "iter_ok fs dest i (l_iter l1) \<and> l_extension_range_start l1 = l_extension_range_start l" if "r = Some l1" for l1
    using r that it
    by (auto simp: first_def op_bind_def op_seq_def op_ret_def act_def iter_ok_def split: if_splits option.splits prod.splits)
  have run: "decode_known env n msg wt l s = (case r of None \<Rightarrow> (None, s1) | Some l1 \<Rightarrow>
      let l1 = l1\<lparr>l_fields_seen := see_required (l_iter l1) (l_fields_seen l1)\<rparr> in
      op_map (\<lambda>it. l1\<lparr>l_iter := it\<rparr>) (decode_field env n msg wt (l_iter l1)) s1)"
    using r by (simp add: decode_known_def Let_def first_def [symmetric] op_bind_def split: option.splits)
  show ?thesis
  proof (cases r)
    case None
    then show ?thesis using run s1 by (simp add: run_ok_def)
  next
    case (Some l1)
    obtain q s2 where q: "decode_field env n msg wt (l_iter l1) s1 = (q, s2)" by fastforce
    have i1: "iter_ok fs dest i (l_iter l1)" using l1 [OF Some] ..
    have "layout fs sz" using sm(1) by (blast elim: static_msg_fields)
    moreover have "i < length fs - 1" using it by (simp add: iter_ok_def)
    ultimately have "frame (region dest sz) s1 s2"
      using frame_decode_field(1) [where msg = msg, OF sm i1 msg, where s = s1 and wt = wt] q area_region frame_mono by fastforce
    moreover have "iter_ok fs dest i it'" if "q = Some it'" for it'
      using frame_decode_field(2) [where msg = msg, OF sm i1 msg] q that by blast
    ultimately show ?thesis
      using run Some s1 q l1 [OF Some] es
      by (auto simp: run_ok_def Let_def op_map_def op_bind_def op_ret_def l_ok_def split: option.splits intro: frame_trans)
  qed
qed

text \<open>A turn takes its tag from the stream, so the loop ends within as many turns as it has bytes.\<close>

lemma turn_ok:
  assumes sm: "static_msg env (Suc d) fs sz" "Suc d \<le> n" and ok: "l_ok fs dest l"
    and msg: "\<And>init ptr sz p. static_msg env d (env_fields env ptr) sz \<Longrightarrow> confined (region p sz) (msg init ptr p)"
    and r: "decode_turn env n msg l s = (r, s')"
  shows "frame (region dest sz) s s'"
    "r = Some (Some l') \<Longrightarrow> l_ok fs dest l' \<and> is_bytes_left (d_in s') < is_bytes_left (d_in s)"
proof -
  from sm(1) have l: "layout fs sz" "\<forall>f\<in>set (butlast fs). static_field f" by (blast elim: static_msg_fields)+
  obtain q eof i1 where t: "pb_decode_tag (d_in s) = ((q, eof), i1)" by (metis prod.collapse)
  note tf = decode_tag_forward [OF t]
  have s1: "frame (region dest sz) s (s\<lparr>d_in := i1\<rparr>)" using tf(1) by (simp add: frame_def)
  have "frame (region dest sz) s s'
    \<and> (r = Some (Some l') \<longrightarrow> l_ok fs dest l' \<and> is_bytes_left (d_in s') < is_bytes_left (d_in s))"
  proof (cases q)
    case None
    then show ?thesis using r t s1 by (auto simp: decode_turn_def Let_def split: if_splits)
  next
    case (Some wtag)
    obtain wt tag where wtag: "wtag = (wt, tag)" by fastforce
    obtain i where it: "iter_ok fs dest i (l_iter l)" using ok by (auto simp: l_ok_def)
    obtain found it1 where fd: "pb_field_iter_find (l_iter l) tag = (found, it1)" by fastforce
    have i: "i < length fs - 1" using it by (simp add: iter_ok_def)
    have "it1 = l_iter l \<or> (\<exists>j. j < length fs - 1 \<and> it1 = iter_at fs dest j)"
      using iter_search_all [OF l it, of "\<lambda>f. f_tag f = tag \<and> ltype f \<noteq> PB_LTYPE_EXTENSION"] fd iter_ok_field [OF it] i
      unfolding pb_field_iter_find_def by fastforce
    then have "\<exists>j. iter_ok fs dest j it1" using it iter_ok_at by blast
    then have l1: "l_ok fs dest (l\<lparr>l_iter := it1\<rparr>)" using ok by (simp add: l_ok_def)
    let ?run = "(if found then decode_known env n msg wt (l\<lparr>l_iter := it1\<rparr>)
        else decode_unknown env n msg tag wt (l\<lparr>l_iter := it1\<rparr>)) (s\<lparr>d_in := i1\<rparr>)"
    have run: "run_ok fs dest sz (s\<lparr>d_in := i1\<rparr>) ?run"
      using run_ok_known [where msg = msg, OF sm l1 msg] run_ok_unknown [OF sm(1) l1] tag_bound t Some wtag by auto
    have e: "decode_turn env n msg l s = (case ?run of (q, s) \<Rightarrow> (map_option Some q, s))"
      using t Some wtag fd
      by (auto simp: decode_turn_def op_map_def op_bind_def op_ret_def Let_def split: prod.splits option.splits)
    obtain q2 where q2: "?run = (q2, s')" "r = map_option Some q2" using e r by (cases ?run) auto
    have f2: "frame (region dest sz) (s\<lparr>d_in := i1\<rparr>) s'" "q2 = Some l' \<longrightarrow> l_ok fs dest l'"
      using run unfolding run_ok_def q2(1) by auto
    moreover have "is_bytes_left (d_in s') \<le> is_bytes_left i1" using f2(1) by (simp add: frame_def stream_le_left)
    ultimately show ?thesis using s1 tf(2) Some q2(2) frame_trans by fastforce
  qed
  then show "frame (region dest sz) s s'"
    "r = Some (Some l') \<Longrightarrow> l_ok fs dest l' \<and> is_bytes_left (d_in s') < is_bytes_left (d_in s)" by blast+
qed

definition turn_good :: "nat set \<Rightarrow> (pb_locals \<Rightarrow> bool) \<Rightarrow> (pb_locals \<Rightarrow> ('h dstate, pb_locals option) opn) \<Rightarrow> bool" where
  "turn_good A P turn \<longleftrightarrow> (\<forall>l s r s'. P l \<longrightarrow> turn l s = (r, s') \<longrightarrow> frame A s s'
     \<and> (\<forall>l'. r = Some (Some l') \<longrightarrow> P l' \<and> is_bytes_left (d_in s') < is_bytes_left (d_in s)))"

lemma loop_ok:
  assumes "turn_good A P turn"
  shows "P l \<Longrightarrow> is_bytes_left (d_in s) \<le> k \<Longrightarrow> frame A s (snd (decode_loop turn k l s))"
proof (induction k arbitrary: l s)
  case (Suc k)
  obtain r s1 where r: "turn l s = (r, s1)" by fastforce
  have t: "frame A s s1" "\<And>l1. r = Some (Some l1) \<Longrightarrow> P l1 \<and> is_bytes_left (d_in s1) < is_bytes_left (d_in s)"
    using assms Suc.prems(1) r unfolding turn_good_def by blast+
  show ?case
  proof (cases "r = None \<or> r = Some None \<or> is_bytes_left (d_in s) = 0")
    case True
    then show ?thesis using r t(1) by (auto simp: op_bind_def op_ret_def)
  next
    case False
    then obtain l1 where l1: "r = Some (Some l1)" by (metis not_None_eq)
    then have "frame A s1 (snd (decode_loop turn k l1 s1))"
      using t(2) [OF l1] Suc.prems(2) by (intro Suc.IH) simp_all
    then show ?thesis using False r l1 t(1) by (auto simp: op_bind_def intro: frame_trans)
  qed
qed simp

lemma confined_required_check: "confined A (required_check l)"
  unfolding required_check_def Let_def by (intro confined)

lemma confined_turns:
  assumes turn: "turn_good A P (decode_turn env n msg)"
    and l: "P \<lparr>l_iter = snd (pb_field_iter_begin fs dest), l_fields_seen = [0, 0], l_extension_range_start = 0, l_fixed_count_field = None\<rparr>"
  shows "confined A (decode_message env n msg fs dest)"
proof -
  define l where "l = \<lparr>l_iter = snd (pb_field_iter_begin fs dest), l_fields_seen = [0, 0],
      l_extension_range_start = 0, l_fixed_count_field = None\<rparr>"
  have c: "frame A s (snd (op_bind (decode_loop (decode_turn env n msg) (is_bytes_left (d_in s)) l)
      (\<lambda>l. op_seq (fixed_count_check l) (required_check l)) s))" for s
    using l unfolding l_def [symmetric]
    by (intro frame_bind loop_ok [OF turn]
        confined_seq [OF confined_fixed_count_check confined_required_check, unfolded confined_def, rule_format] le_refl)
  show ?thesis
    using c [of "s\<lparr>d_fixed := 0\<rparr>" for s]
    by (simp add: confined_def decode_message_def l_def [symmetric] Let_def split_beta)
qed

text \<open>
  An empty message: its only entry is the terminator, which a tag of zero with a wire type finds. It
  reads as a required boolean at the beginning of the struct.
\<close>

lemma empty_turns:
  fixes env :: "'h pb_env" and msg :: "bool \<Rightarrow> nat \<Rightarrow> nat \<Rightarrow> ('h dstate, unit) opn"
  assumes t: "f_tag t = 0" "f_type t = 0"
    and it: "it_start it = [t]" "it_pos it = 0" "it_pData it = dest"
  shows "turn_good (region dest (Suc sz)) (\<lambda>l. l_iter l = it \<and> (l_extension_range_start l = 0 \<or> l_extension_range_start l = - 1))
    (decode_turn env n msg)"
proof -
  have f: "it_field it = t" using it by (simp add: it_field_def)
  have ty: "ltype t = 0" "atype t = PB_ATYPE_STATIC" "htype t = PB_HTYPE_REQUIRED"
    using t(2) by (simp_all add: PB_LTYPE_def PB_ATYPE_def PB_HTYPE_def)
  have nx: "pb_field_iter_next it = (False, it)" using f t by (simp add: pb_field_iter_next_def)
  have find: "pb_field_iter_find it tag = (tag = 0, it)" for tag
    using f t it ty nx by (auto simp: pb_field_iter_find_def)
  have ext: "find_extension_field it = (False, it)"
    using f it ty nx by (simp add: find_extension_field_def)
  have dec: "confined (region dest (Suc sz)) (dec_to pb_dec_bool dest :: ('h dstate, unit) opn)"
    by (rule confined_dec_to [OF forward_fixed(3) _, of 1]) (simp_all add: dec_lengths region_def)
  have skip: "confined (region dest (Suc sz)) (on_in (pb_skip_field wt) :: ('h dstate, unit) opn)" for wt by (intro confined forward)
  show ?thesis
    unfolding turn_good_def
  proof (intro allI impI)
    fix l s r s'
    assume l: "l_iter l = it \<and> (l_extension_range_start l = 0 \<or> l_extension_range_start l = - 1)"
      and r: "decode_turn env n msg l s = (r, s')"
    obtain q eof i1 where d: "pb_decode_tag (d_in s) = ((q, eof), i1)" by (metis prod.collapse)
    note tf = decode_tag_forward [OF d]
    show "frame (region dest (Suc sz)) s s' \<and> (\<forall>l'. r = Some (Some l')
      \<longrightarrow> (l_iter l' = it \<and> (l_extension_range_start l' = 0 \<or> l_extension_range_start l' = - 1))
          \<and> is_bytes_left (d_in s') < is_bytes_left (d_in s))"
    proof (cases q)
      case None
      then show ?thesis using r d tf(1) by (auto simp: decode_turn_def Let_def frame_def split: if_splits)
    next
      case (Some wtag)
      obtain wt tag where wtag: "wtag = (wt, tag)" by fastforce
      have nt: "\<not> - 1 \<le> tag" using tag_bound d Some wtag by (simp add: not_le)
      obtain w :: "('h dstate, unit) opn" and l1 where w: "confined (region dest (Suc sz)) w" "l_iter l1 = it"
        "l_extension_range_start l1 = 0 \<or> l_extension_range_start l1 = - 1"
        "(if tag = 0 then decode_known env n msg wt l else decode_unknown env n msg tag wt l) = op_map (\<lambda>_. l1) w"
      proof (cases "tag = 0")
        case True
        show ?thesis
          by (rule that [OF dec, of "l\<lparr>l_fields_seen := see_required it (l_fields_seen l)\<rparr>"])
            (use l f ty it True in \<open>auto simp: decode_known_def decode_field_def decode_static_field_def pb_decoder_def
              Let_def op_map_def op_bind_def op_ret_def fun_eq_iff split: prod.splits option.splits\<close>)
      next
        case False
        have li: "l_iter l = it" using l ..
        have "decode_unknown env n msg tag wt l = (if l_extension_range_start l \<le> tag
          then op_map (\<lambda>_. l\<lparr>l_iter := it, l_extension_range_start := - 1\<rparr>) (on_in (pb_skip_field wt))
          else op_map (\<lambda>_. l) (on_in (pb_skip_field wt)))"
          using nt by (simp add: decode_unknown_def li ext Let_def)
        then show ?thesis
          using that [OF skip [of wt], of l] that [OF skip [of wt], of "l\<lparr>l_iter := it, l_extension_range_start := - 1\<rparr>"] l False
          by (cases "l_extension_range_start l \<le> tag") simp_all
      qed
      have e: "decode_turn env n msg l s = op_map Some (op_map (\<lambda>_. l1) w) (s\<lparr>d_in := i1\<rparr>)"
        using d Some wtag find l w(4) by (auto simp: decode_turn_def Let_def)
      obtain q2 where q2: "w (s\<lparr>d_in := i1\<rparr>) = (q2, s')" "r = map_option (\<lambda>_. Some l1) q2"
        using e r by (cases "w (s\<lparr>d_in := i1\<rparr>)") (auto simp: op_map_def op_bind_def op_ret_def split: option.splits)
      have f2: "frame (region dest (Suc sz)) (s\<lparr>d_in := i1\<rparr>) s'" by (rule frame_at [OF w(1) q2(1)])
      moreover have "frame (region dest (Suc sz)) s (s\<lparr>d_in := i1\<rparr>)" using tf(1) by (simp add: frame_def)
      moreover have "is_bytes_left (d_in s') \<le> is_bytes_left i1" using f2 by (simp add: frame_def stream_le_left)
      ultimately show ?thesis using tf(2) Some q2(2) w(2,3) frame_trans by fastforce
    qed
  qed
qed

section \<open>Whole messages\<close>

lemma static_turns:
  assumes "static_msg env (Suc d) fs sz" "Suc d \<le> n"
    and "\<And>init ptr sz p. static_msg env d (env_fields env ptr) sz \<Longrightarrow> confined (region p sz) (msg init ptr p)"
  shows "turn_good (region dest sz) (l_ok fs dest) (decode_turn env n msg)"
  unfolding turn_good_def using turn_ok [where msg = msg, OF assms(1,2)] assms(3) by blast

lemma confined_message:
  assumes sm: "static_msg env (Suc d) fs sz" "Suc d \<le> n"
    and msg: "\<And>init ptr sz p. static_msg env d (env_fields env ptr) sz \<Longrightarrow> confined (region p sz) (msg init ptr p)"
  shows "confined (region dest sz) (decode_message env n msg fs dest)"
proof -
  from sm(1) have lay: "layout fs sz" by (blast elim: static_msg_fields)
  show ?thesis
  proof (cases "1 < length fs")
    case True
    show ?thesis
      by (rule confined_turns [OF static_turns [OF sm msg]])
        (use iter_ok_at [of 0 fs dest] True in \<open>auto simp: l_ok_def iter_begin_at [OF lay True]\<close>)
  next
    case False
    then have "length fs = 1" using lay by (cases fs) (simp_all add: layout_def)
    then obtain t where fs: "fs = [t]" by (metis One_nat_def length_0_conv length_Suc_conv)
    then have t: "f_tag t = 0" "f_type t = 0" "f_data_offset t = 0" "0 < sz" using lay by (simp_all add: layout_def)
    obtain m where m: "sz = Suc m" using t(4) gr0_implies_Suc by blast
    show ?thesis
      unfolding m by (rule confined_turns [OF empty_turns [OF t(1,2), where it = "snd (pb_field_iter_begin fs dest)"]])
        (simp_all add: pb_field_iter_begin_def fs t(3))
  qed
qed

lemma confined_decode_with:
  assumes "static_msg env d fs sz" "d \<le> n" "confined (region dest sz) (noinit fs dest)"
  shows "confined (region dest sz) (pb_decode_with env n noinit fs dest)"
  unfolding confined_def pb_decode_with_def
proof
  fix s
  let ?s = "pb_message_set_to_defaults env n fs dest s"
  have "frame (region dest sz) s (snd (noinit fs dest ?s))"
    using frame_defaults [OF assms(1,2), of dest s] assms(3) unfolding confined_def by (blast intro: frame_trans)
  then show "frame (region dest sz) s (snd (case noinit fs dest ?s of
      (None, s) \<Rightarrow> (None, pb_release env n fs dest s) | (Some u, s) \<Rightarrow> (Some u, s)))"
    by (auto simp: release_static [OF assms(1,2)] split: prod.splits option.splits)
qed

lemma confined_noinit:
  "static_msg env d fs sz \<Longrightarrow> d \<le> n \<Longrightarrow> confined (region dest sz) (pb_decode_noinit env n fs dest)"
proof (induction n arbitrary: d fs sz dest)
  case (Suc n)
  obtain e where d: "d = Suc e" using Suc.prems(1) by (blast elim: static_msg_fields)
  have e: "e \<le> n" using Suc.prems(2) d by simp
  have "confined (region p sz) (if init then pb_decode_with env n (pb_decode_noinit env n) (env_fields env ptr) p
      else pb_decode_noinit env n (env_fields env ptr) p)" if "static_msg env e (env_fields env ptr) sz" for init ptr sz p
    using Suc.IH [OF that e] confined_decode_with [OF that e] by simp
  then show ?case using Suc.prems d by (auto intro: confined_message)
qed simp

lemma confined_decode:
  assumes "static_msg env d fs sz" "d \<le> n"
  shows "confined (region dest sz) (pb_decode env n fs dest)"
  using confined_decode_with [OF assms, where noinit = "pb_decode_noinit env n", OF confined_noinit [OF assms]] unfolding pb_decode_def .

lemma confined_delimited:
  assumes "static_msg env d fs sz" "d \<le> n"
  shows "confined (region dest sz) (pb_decode_delimited env n fs dest)"
  unfolding pb_decode_delimited_def
  by (rule confined_substream) (use confined_decode [OF assms] in \<open>auto simp: confined_def\<close>)

end
