(* ===== verification/PbMessage.thy ===== *)
theory PbMessage
  imports PbSafe
begin

unbundle bit_operations_syntax

text \<open>
  What decoding a message promises. The example is a message with a required
  integer, an optional submessage and a repeated integer.
\<close>

section \<open>An example\<close>

definition example_last :: pb_field where
  "example_last = \<lparr>f_tag = 0, f_type = 0, f_data_offset = 0, f_size_offset = 0, f_data_size = 0, f_array_size = 0, f_ptr = 0\<rparr>"

definition example_sub :: "pb_field list" where
  "example_sub = [\<lparr>f_tag = 1, f_type = 0x02, f_data_offset = 0, f_size_offset = 0, f_data_size = 4, f_array_size = 0, f_ptr = 0\<rparr>,
     example_last]"

definition example_message :: "pb_field list" where
  "example_message =
     [\<lparr>f_tag = 1, f_type = 0x02, f_data_offset = 0, f_size_offset = 0, f_data_size = 4, f_array_size = 0, f_ptr = 0\<rparr>,
      \<lparr>f_tag = 2, f_type = 0x18, f_data_offset = 4, f_size_offset = - 4, f_data_size = 4, f_array_size = 0, f_ptr = 1\<rparr>,
      \<lparr>f_tag = 3, f_type = 0x22, f_data_offset = 4, f_size_offset = - 4, f_data_size = 4, f_array_size = 2, f_ptr = 0\<rparr>,
      example_last]"

definition example_env :: "unit pb_env" where
  "example_env = \<lparr>env_fields = (\<lambda>p. if p = 1 then example_sub else [example_last]),
     env_realloc = (\<lambda>p n s. (0, s)), env_free = (\<lambda>p s. s), env_decode = (\<lambda>_ _ _. act_stuck), env_encode = (\<lambda>_ _ _ s. (None, s)),
     env_ext_decode = (\<lambda>_ _ _ _. act_stuck), env_ext_encode = (\<lambda>_ _ s. (None, s)), env_turns = 0\<rparr>"

definition example_state :: "bytes \<Rightarrow> unit dstate" where
  "example_state bs = \<lparr>w_mem = (\<lambda>_. 0xAA), w_heap = (), w_stuck = False, d_in = pb_istream_from_buffer bs (length bs), d_fixed = 0\<rparr>"
text \<open>
  Two runs at the edge of what a table may say: an array of fixed count that is shorter than a count
  (the defaults store four bytes over its two), and a message without fields, whose terminator a tag
  of zero finds.
\<close>

definition example_fixed :: "pb_field list" where
  "example_fixed =
     [\<lparr>f_tag = 1, f_type = 0x20, f_data_offset = 0, f_size_offset = 0, f_data_size = 1, f_array_size = 2, f_ptr = 0\<rparr>,
      example_last]"

lemma fixed_count_overrun:
  "get 1000 5 (pb_message_set_to_defaults example_env 1 example_fixed 1000 (example_state [])) = [0, 0, 0, 0, 0xAA]"
  "static_msg example_env 1 example_fixed 2 = False" "static_msg example_env 1 example_fixed 4"
  by code_simp+

lemma zero_tag_finds_terminator:
  defines "p \<equiv> pb_decode example_env 1 [example_last] 1000 (example_state [1, 5])"
  shows "fst p = Some () \<and> get 1000 2 (snd p) = [1, 0xAA]"
  unfolding p_def by code_simp

section \<open>Safety\<close>

text \<open>(C7) On a table of static fields, whatever the stream holds, decoding returns within the turns and
  the depth given to it, with success or failure; it writes only inside the message struct and neither
  allocates nor frees; the stream has moved forward by bytes that it was allowed to read, and the
  caller's own count is untouched. The witness has a message with a submessage and an array on every
  input, and runs a small one on an input that is accepted, an unknown field included, and on one that lacks a required field.\<close>

theorem pb_decode_static_safe:
  assumes "static_msg env d fs sz" "d \<le> n"
    and "(r, s') \<in> {pb_decode env n fs dest s, pb_decode_noinit env n fs dest s, pb_decode_delimited env n fs dest s}"
  shows "w_stuck s' = w_stuck s \<and> w_heap s' = w_heap s
    \<and> (\<forall>a. a < dest \<or> dest + sz \<le> a \<longrightarrow> w_mem s' a = w_mem s a)
    \<and> (\<exists>k. is_state (d_in s') = drop k (is_state (d_in s)) \<and> k + is_bytes_left (d_in s') \<le> is_bytes_left (d_in s))"
proof -
  have "frame (region dest sz) s s'"
    using assms(3) frame_at [OF confined_decode [OF assms(1,2)]] frame_at [OF confined_noinit [OF assms(1,2)]]
      frame_at [OF confined_delimited [OF assms(1,2)]] by (metis empty_iff insert_iff)
  then show ?thesis by (auto simp: frame_def region_def stream_le_def)
qed

lemma example_static: "static_msg example_env 2 example_message 24" "static_msg example_env 1 example_sub 4"
  by code_simp+

lemma example_accepted:
  defines "p \<equiv> pb_decode example_env 2 example_sub 1000 (example_state [0x28, 1, 8, 0x85, 1])"
  shows "fst p = Some () \<and> get 1000 4 (snd p) = [0x85, 0, 0, 0]"
  unfolding p_def by code_simp

lemma example_refused:
  defines "p \<equiv> pb_decode example_env 2 example_sub 1000 (example_state [0x28, 1])"
  shows "fst p = None \<and> is_errmsg (d_in (snd p)) = Some ''missing required field''"
  unfolding p_def by code_simp

lemma pb_decode_static_safe_witness:
  "(\<forall>bs. \<exists>r s'. pb_decode example_env 2 example_message 1000 (example_state bs) = (r, s')
      \<and> \<not> w_stuck s' \<and> (\<forall>a. a < 1000 \<or> 1024 \<le> a \<longrightarrow> w_mem s' a = 0xAA))
    \<and> (\<exists>s'. pb_decode example_env 2 example_sub 1000 (example_state [0x28, 1, 8, 0x85, 1]) = (Some (), s')
      \<and> get 1000 4 s' = [0x85, 0, 0, 0] \<and> \<not> w_stuck s' \<and> w_mem s' 1004 = 0xAA)
    \<and> (\<exists>s'. pb_decode example_env 2 example_sub 1000 (example_state [0x28, 1]) = (None, s')
      \<and> is_errmsg (d_in s') = Some ''missing required field'' \<and> \<not> w_stuck s' \<and> w_mem s' 1004 = 0xAA)"
proof (intro conjI allI)
  fix bs
  obtain r s' where e: "pb_decode example_env 2 example_message 1000 (example_state bs) = (r, s')" by fastforce
  show "\<exists>r s'. pb_decode example_env 2 example_message 1000 (example_state bs) = (r, s')
      \<and> \<not> w_stuck s' \<and> (\<forall>a. a < 1000 \<or> 1024 \<le> a \<longrightarrow> w_mem s' a = 0xAA)"
    using pb_decode_static_safe [OF example_static(1) order_refl, of r s' 1000 "example_state bs"] e
    by (simp add: example_state_def)
next
  obtain s' where e: "pb_decode example_env 2 example_sub 1000 (example_state [0x28, 1, 8, 0x85, 1]) = (Some (), s')"
    "get 1000 4 s' = [0x85, 0, 0, 0]" using example_accepted by (metis prod.collapse)
  then show "\<exists>s'. pb_decode example_env 2 example_sub 1000 (example_state [0x28, 1, 8, 0x85, 1]) = (Some (), s')
      \<and> get 1000 4 s' = [0x85, 0, 0, 0] \<and> \<not> w_stuck s' \<and> w_mem s' 1004 = 0xAA"
    using pb_decode_static_safe [OF example_static(2), of 2 "Some ()" s' 1000 "example_state [0x28, 1, 8, 0x85, 1]"]
    by (simp add: example_state_def)
next
  obtain s' where e: "pb_decode example_env 2 example_sub 1000 (example_state [0x28, 1]) = (None, s')"
    "is_errmsg (d_in s') = Some ''missing required field''" using example_refused by (metis prod.collapse)
  then show "\<exists>s'. pb_decode example_env 2 example_sub 1000 (example_state [0x28, 1]) = (None, s')
      \<and> is_errmsg (d_in s') = Some ''missing required field'' \<and> \<not> w_stuck s' \<and> w_mem s' 1004 = 0xAA"
    using pb_decode_static_safe [OF example_static(2), of 2 None s' 1000 "example_state [0x28, 1]"]
    by (simp add: example_state_def)
qed

end
