(* ===== verification/PbTyped.thy ===== *)
theory PbTyped
  imports PbMessage
begin

unbundle bit_operations_syntax

text \<open>
  Well-formed messages in memory: counts within their arrays, flags and booleans that are zero or
  one, strings with a terminator, byte arrays within their room, unions that hold one of their members
  or nothing, and the same of submessages. A
  message that was decoded successfully is well-formed, and the encoder accepts every well-formed
  message.
\<close>

section \<open>Tables whose fields lie apart\<close>

definition same_union :: "pb_field list \<Rightarrow> nat \<Rightarrow> nat \<Rightarrow> bool" where
  "same_union fs i j \<longleftrightarrow> htype (fs ! i) = PB_HTYPE_ONEOF \<and> htype (fs ! j) = PB_HTYPE_ONEOF
     \<and> data_off fs i = data_off fs j \<and> size_off fs i = size_off fs j"

definition separated :: "pb_field list \<Rightarrow> nat \<Rightarrow> nat \<Rightarrow> bool" where
  "separated fs i j \<longleftrightarrow> apart (data_off fs i) (extent (fs ! i)) (data_off fs j) (extent (fs ! j))
     \<and> apart (data_off fs i) (extent (fs ! i)) (size_off fs j) (size_width fs j)
     \<and> apart (size_off fs i) (size_width fs i) (data_off fs j) (extent (fs ! j))
     \<and> apart (size_off fs i) (size_width fs i) (size_off fs j) (size_width fs j)"

text \<open>
  A tag of 29 bits, room for what the type needs, no initial value other than zeros, a count of its own for
  every array, and for the members of a union the place of its tag that the first member has.
\<close>

definition roomy :: "pb_field list \<Rightarrow> nat \<Rightarrow> bool" where
  "roomy fs i \<longleftrightarrow>
     (let f = fs ! i; n = unat (f_data_size f) in
      f_tag f < 0x20000000 \<and> (ltype f = 10 \<longrightarrow> 1 \<le> n)
      \<and> (ltype f = PB_LTYPE_BYTES \<longrightarrow> 4 \<le> n) \<and> (ltype f = PB_LTYPE_STRING \<longrightarrow> 1 \<le> n)
      \<and> (ltype f \<noteq> PB_LTYPE_SUBMESSAGE \<longrightarrow> f_ptr f = 0)
      \<and> (htype f = PB_HTYPE_REPEATED \<or> htype f = PB_HTYPE_ONEOF \<longrightarrow> size_off fs i \<noteq> data_off fs i)
      \<and> size_off fs i = size_addr (data_off fs i) f
      \<and> apart (data_off fs i) (extent f) (size_off fs i) (size_width fs i))"

definition tidy :: "pb_field list \<Rightarrow> bool" where
  "tidy fs \<longleftrightarrow> list_all (\<lambda>i. roomy fs i
     \<and> list_all (\<lambda>j. i = j \<or> same_union fs i j \<or> separated fs i j) [0..<length fs - 1]) [0..<length fs - 1]"

primrec typed_msg :: "'h pb_env \<Rightarrow> nat \<Rightarrow> pb_field list \<Rightarrow> nat \<Rightarrow> bool" where
  "typed_msg env 0 fs sz = False"
| "typed_msg env (Suc d) fs sz \<longleftrightarrow> layout fs sz \<and> tidy fs
     \<and> list_all (\<lambda>f. static_field f
          \<and> (ltype f = PB_LTYPE_SUBMESSAGE \<longrightarrow> typed_msg env d (env_fields env (f_ptr f)) (unat (f_data_size f)))) (butlast fs)"

lemma typed_static: "typed_msg env d fs sz \<Longrightarrow> static_msg env d fs sz"
  by (induction d arbitrary: fs sz) (auto simp: list_all_iff)

lemma typed_msgE:
  assumes "typed_msg env d fs sz"
  obtains e where "d = Suc e" "layout fs sz" "tidy fs" "\<forall>f\<in>set (butlast fs). static_field f"
    "\<forall>i<length fs - 1. static_field (fs ! i) \<and> (ltype (fs ! i) = PB_LTYPE_SUBMESSAGE
       \<longrightarrow> typed_msg env e (env_fields env (f_ptr (fs ! i))) (unat (f_data_size (fs ! i))))"
proof (cases d)
  case (Suc e)
  have "fs ! i \<in> set (butlast fs)" if "i < length fs - 1" for i using that by (metis length_butlast nth_butlast nth_mem)
  then show ?thesis using that [of e] assms Suc by (auto simp: list_all_iff)
qed (use assms in simp)

lemma tidy_roomy: "tidy fs \<Longrightarrow> i < length fs - 1 \<Longrightarrow> roomy fs i"
  by (simp add: tidy_def list_all_iff)

lemma roomy_no_default: "roomy fs i \<Longrightarrow> ltype (fs ! i) \<noteq> PB_LTYPE_SUBMESSAGE \<Longrightarrow> f_ptr (fs ! i) = 0"
  unfolding roomy_def Let_def by blast

lemma tidy_apart:
  "tidy fs \<Longrightarrow> i < length fs - 1 \<Longrightarrow> j < length fs - 1 \<Longrightarrow> i = j \<or> same_union fs i j \<or> separated fs i j"
  by (simp add: tidy_def list_all_iff)

lemma apart_disjoint: "apart a n b k \<longleftrightarrow> {p + a..<p + a + n} \<inter> {p + b..<p + b + k} = {}"
  by (auto simp: apart_def)

lemma separated_area: "separated fs i j \<Longrightarrow> area fs dest i \<inter> area fs dest j = {}"
  by (simp add: separated_def apart_disjoint [where p = dest] area_def Int_Un_distrib Int_Un_distrib2)

section \<open>Well-formed values\<close>

definition mem_size :: "mem \<Rightarrow> nat \<Rightarrow> u32" where
  "mem_size m a = ucast (load_u (load_mem m a 4))"

lemma get_size_mem [simp]: "get_size a s = mem_size (w_mem s) a"
  by (simp add: get_size_def mem_size_def get_def)

definition value_ok :: "(nat \<Rightarrow> nat \<Rightarrow> mem \<Rightarrow> bool) \<Rightarrow> pb_field \<Rightarrow> nat \<Rightarrow> mem \<Rightarrow> bool" where
  "value_ok msg f p m \<longleftrightarrow>
     (let t = ltype f; n = unat (f_data_size f) in
      if t = 0 then m p = 0 \<or> m p = 1
      else if t = PB_LTYPE_BYTES then unat (mem_size m p) + 4 \<le> n
      else if t = PB_LTYPE_STRING then list_ex (\<lambda>k. m (p + k) = 0) [0..<n]
      else if t = PB_LTYPE_SUBMESSAGE then msg (f_ptr f) p m
      else True)"

text \<open>A union holds nothing or one of its members.\<close>

definition union_ok :: "pb_field list \<Rightarrow> nat \<Rightarrow> u32 \<Rightarrow> bool" where
  "union_ok fs i which \<longleftrightarrow> which = 0 \<or> list_ex (\<lambda>j. same_union fs i j \<and> which = f_tag (fs ! j)) [0..<length fs - 1]"

lemma union_okI: "which = 0 \<Longrightarrow> union_ok fs i which"
  "j < length fs - 1 \<Longrightarrow> same_union fs i j \<Longrightarrow> which = f_tag (fs ! j) \<Longrightarrow> union_ok fs i which"
  by (auto simp: union_ok_def list_ex_iff)

lemma same_union_refl: "htype (fs ! i) = PB_HTYPE_ONEOF \<Longrightarrow> same_union fs i i"
  by (simp add: same_union_def)

definition field_ok :: "(nat \<Rightarrow> nat \<Rightarrow> mem \<Rightarrow> bool) \<Rightarrow> pb_field list \<Rightarrow> nat \<Rightarrow> nat \<Rightarrow> mem \<Rightarrow> bool" where
  "field_ok msg fs dest i m \<longleftrightarrow>
     (let f = fs ! i; p = dest + data_off fs i; q = dest + size_off fs i in
      if htype f = PB_HTYPE_REQUIRED then value_ok msg f p m
      else if htype f = PB_HTYPE_OPTIONAL then (q = p \<or> m q = 0 \<or> m q = 1) \<and> value_ok msg f p m
      else if htype f = PB_HTYPE_REPEATED then
        mem_size m q \<le> f_array_size f
        \<and> list_all (\<lambda>k. value_ok msg f (p + unat (f_data_size f) * k) m) [0..<unat (mem_size m q)]
      else union_ok fs i (mem_size m q) \<and> (mem_size m q = f_tag f \<longrightarrow> value_ok msg f p m))"

primrec message_ok :: "'h pb_env \<Rightarrow> nat \<Rightarrow> pb_field list \<Rightarrow> nat \<Rightarrow> mem \<Rightarrow> bool" where
  "message_ok env 0 fs dest m = False"
| "message_ok env (Suc d) fs dest m \<longleftrightarrow>
     list_all (\<lambda>i. field_ok (\<lambda>ptr. message_ok env d (env_fields env ptr)) fs dest i m) [0..<length fs - 1]"

text \<open>Well-formedness looks only at the field's own bytes.\<close>

lemma mem_size_cong: "(\<And>a. p \<le> a \<Longrightarrow> a < p + 4 \<Longrightarrow> m a = m' a) \<Longrightarrow> mem_size m p = mem_size m' p"
  using load_mem_cong [of p 4 m m'] by (simp add: mem_size_def)

lemma value_ok_local:
  assumes st: "static_field f" "ltype f = PB_LTYPE_BYTES \<longrightarrow> 4 \<le> unat (f_data_size f)"
    and eq: "\<And>a. a \<in> region p (unat (f_data_size f)) \<Longrightarrow> m a = m' a"
    and msg: "ltype f = PB_LTYPE_SUBMESSAGE \<Longrightarrow> msg (f_ptr f) p m = msg (f_ptr f) p m'"
  shows "value_ok msg f p m = value_ok msg f p m'"
proof -
  have "mem_size m p = mem_size m' p" if "ltype f = PB_LTYPE_BYTES"
    using st(2) that by (intro mem_size_cong eq) (simp add: region_def)
  moreover have "m p = m' p" if "ltype f = 0"
    using st(1) that by (intro eq) (auto simp: static_field_def Let_def region_def)
  moreover have "m (p + k) = m' (p + k)" if "k < unat (f_data_size f)" for k
    using that by (intro eq) (simp add: region_def)
  ultimately show ?thesis using msg by (auto simp: value_ok_def Let_def list_ex_iff)
qed

lemma field_ok_local:
  assumes st: "static_field (fs ! i)" "roomy fs i"
    and eq: "\<And>a. a \<in> area fs dest i \<Longrightarrow> m a = m' a"
    and msg: "\<And>p. ltype (fs ! i) = PB_LTYPE_SUBMESSAGE \<Longrightarrow> region p (unat (f_data_size (fs ! i))) \<subseteq> area fs dest i
      \<Longrightarrow> msg (f_ptr (fs ! i)) p m = msg (f_ptr (fs ! i)) p m'"
  shows "field_ok msg fs dest i m = field_ok msg fs dest i m'"
proof -
  let ?f = "fs ! i" and ?p = "dest + data_off fs i" and ?q = "dest + size_off fs i"
  have v: "value_ok msg ?f (?p + unat (f_data_size ?f) * k) m = value_ok msg ?f (?p + unat (f_data_size ?f) * k) m'"
    if "k < item_room ?f" for k
  proof (rule value_ok_local [OF st(1)])
    note r = item_region [OF that, of dest, folded region_def]
    show "ltype ?f = PB_LTYPE_BYTES \<longrightarrow> 4 \<le> unat (f_data_size ?f)" using st(2) by (simp add: roomy_def Let_def)
    show "m a = m' a" if "a \<in> region (?p + unat (f_data_size ?f) * k) (unat (f_data_size ?f))" for a using that r eq by blast
    show "msg (f_ptr ?f) (?p + unat (f_data_size ?f) * k) m = msg (f_ptr ?f) (?p + unat (f_data_size ?f) * k) m'"
      if "ltype ?f = PB_LTYPE_SUBMESSAGE" using that r by (intro msg)
  qed
  have w: "value_ok msg ?f ?p m = value_ok msg ?f ?p m'" if "htype ?f \<noteq> PB_HTYPE_REPEATED"
    using v [of 0] that by (simp add: item_room_def)
  have q: "mem_size m ?q = mem_size m' ?q" if "size_width fs i = 4"
    using that size_region [of dest fs i] by (intro mem_size_cong eq) auto
  have o: "m ?q = m' ?q" if "htype ?f = PB_HTYPE_OPTIONAL" "?q \<noteq> ?p"
    using that size_region [of dest fs i] by (intro eq) (auto simp: size_width_def)
  show ?thesis
  proof (cases "htype ?f = PB_HTYPE_REPEATED")
    case True
    then have "mem_size m ?q = mem_size m' ?q" by (intro q) (simp add: size_width_def)
    moreover have "k < item_room ?f" if "mem_size m' ?q \<le> f_array_size ?f" "k < unat (mem_size m' ?q)" for k
      using that True by (simp add: item_room_def word_le_nat_alt)
    ultimately show ?thesis using True v by (auto simp: field_ok_def Let_def list_all_iff)
  next
    case False
    show ?thesis
      using w [OF False] o q False by (auto simp: field_ok_def Let_def size_width_def)
  qed
qed

lemma message_ok_local:
  "typed_msg env d fs sz \<Longrightarrow> (\<And>a. a \<in> region dest sz \<Longrightarrow> m a = m' a)
    \<Longrightarrow> message_ok env d fs dest m = message_ok env d fs dest m'"
proof (induction d arbitrary: fs sz dest)
  case (Suc d)
  from Suc.prems(1) have l: "layout fs sz" "tidy fs" by simp_all
  have fs: "static_field (fs ! i) \<and> (ltype (fs ! i) = PB_LTYPE_SUBMESSAGE
      \<longrightarrow> typed_msg env d (env_fields env (f_ptr (fs ! i))) (unat (f_data_size (fs ! i))))" if "i < length fs - 1" for i
    using Suc.prems(1) that by (blast elim: typed_msgE)
  have "field_ok (\<lambda>ptr. message_ok env d (env_fields env ptr)) fs dest i m
      = field_ok (\<lambda>ptr. message_ok env d (env_fields env ptr)) fs dest i m'" if i: "i < length fs - 1" for i
  proof (rule field_ok_local)
    show "static_field (fs ! i)" "roomy fs i" using fs i l tidy_roomy by blast+
    show "m a = m' a" if "a \<in> area fs dest i" for a using that area_region [OF l(1) i] Suc.prems(2) by blast
    show "message_ok env d (env_fields env (f_ptr (fs ! i))) p m = message_ok env d (env_fields env (f_ptr (fs ! i))) p m'"
      if "ltype (fs ! i) = PB_LTYPE_SUBMESSAGE" "region p (unat (f_data_size (fs ! i))) \<subseteq> area fs dest i" for p
      using fs [OF i] that area_region [OF l(1) i] Suc.prems(2) by (intro Suc.IH) blast+
  qed
  then show ?case by (simp add: list_all_iff)
qed simp

text \<open>The same of fields that do not share a byte, and of the members of a union that are not stored.\<close>

abbreviation sub_ok :: "'h pb_env \<Rightarrow> nat \<Rightarrow> nat \<Rightarrow> nat \<Rightarrow> mem \<Rightarrow> bool" where
  "sub_ok env d \<equiv> \<lambda>ptr. message_ok env d (env_fields env ptr)"

lemma field_ok_other:
  assumes ty: "typed_msg env (Suc d) fs sz" and ij: "i < length fs - 1" "j < length fs - 1" "i \<noteq> j"
    and fr: "\<And>a. a \<notin> area fs dest j \<Longrightarrow> m' a = m a"
    and un: "htype (fs ! j) = PB_HTYPE_ONEOF \<Longrightarrow> mem_size m' (dest + size_off fs j) = 0
      \<or> mem_size m' (dest + size_off fs j) = f_tag (fs ! j)"
    and ok: "field_ok (sub_ok env d) fs dest i m"
  shows "field_ok (sub_ok env d) fs dest i m'"
proof -
  from ty have l: "layout fs sz" "tidy fs" by simp_all
  from ty ij(1) obtain e where "Suc d = Suc e" and fs: "static_field (fs ! i)" "ltype (fs ! i) = PB_LTYPE_SUBMESSAGE
      \<longrightarrow> typed_msg env e (env_fields env (f_ptr (fs ! i))) (unat (f_data_size (fs ! i)))" by (blast elim: typed_msgE)
  show ?thesis
  proof (cases "same_union fs i j")
    case True
    have "f_tag (fs ! i) \<noteq> f_tag (fs ! j)" "f_tag (fs ! i) \<noteq> 0"
      using layout_distinct [OF l(1) ij(1,2)] layout_tag [OF l(1) ij(1)] ij(3) by blast+
    then have "mem_size m' (dest + size_off fs i) \<noteq> f_tag (fs ! i)" using un True by (auto simp: same_union_def)
    moreover have "union_ok fs i (mem_size m' (dest + size_off fs i))"
      using un True union_okI(1) union_okI(2) [OF ij(2) True] by (auto simp: same_union_def)
    ultimately show ?thesis using True by (simp add: field_ok_def same_union_def Let_def)
  next
    case False
    then have sep: "area fs dest i \<inter> area fs dest j = {}" using tidy_apart [OF l(2) ij(1,2)] ij(3) separated_area by blast
    have "field_ok (sub_ok env d) fs dest i m' = field_ok (sub_ok env d) fs dest i m"
    proof (rule field_ok_local)
      show "static_field (fs ! i)" "roomy fs i" using fs l(2) ij(1) tidy_roomy by blast+
      show "m' a = m a" if "a \<in> area fs dest i" for a using that sep fr by blast
      show "sub_ok env d (f_ptr (fs ! i)) p m' = sub_ok env d (f_ptr (fs ! i)) p m"
        if "ltype (fs ! i) = PB_LTYPE_SUBMESSAGE" "region p (unat (f_data_size (fs ! i))) \<subseteq> area fs dest i" for p
        using fs \<open>Suc d = Suc e\<close> that sep fr by (intro message_ok_local [where sz = "unat (f_data_size (fs ! i))"]) auto
    qed
    then show ?thesis using ok by simp
  qed
qed

section \<open>Default values are well-formed\<close>

lemma be_nat_all_zero: "be_nat (replicate n 0) = 0"
  by (induction n) (simp_all add: be_nat_def)

lemma mem_size_zeros: "4 \<le> n \<Longrightarrow> mem_size (store_mem p (replicate n 0) m) p = 0"
proof -
  assume n: "4 \<le> n"
  have "load_mem (store_mem p (replicate n 0) m) p 4 = replicate 4 0"
    using n by (intro nth_equalityI) (simp_all add: store_mem_def)
  then show ?thesis by (simp add: mem_size_def load_u_def be_nat_all_zero)
qed

lemma value_ok_zeros:
  assumes "static_field f" "roomy fs i" "f = fs ! i" "ltype f \<noteq> PB_LTYPE_SUBMESSAGE"
  shows "value_ok msg f p (store_mem p (replicate (unat (f_data_size f)) 0) m)"
proof -
  let ?m = "store_mem p (replicate (unat (f_data_size f)) 0) m"
  have z: "?m (p + k) = 0" if "k < unat (f_data_size f)" for k using that by (simp add: store_mem_def)
  have "list_ex (\<lambda>k. ?m (p + k) = 0) [0..<unat (f_data_size f)]" if "1 \<le> unat (f_data_size f)"
    unfolding list_ex_iff by (rule bexI [of _ 0]) (use that z [of 0] in simp_all)
  moreover have "?m p = 0" if "ltype f = 0"
    using z [of 0] assms(1) that by (auto simp: static_field_def Let_def)
  moreover have "mem_size ?m p = 0" if "4 \<le> unat (f_data_size f)" by (rule mem_size_zeros [OF that])
  ultimately show ?thesis
    using assms(2-4) by (simp add: value_ok_def Let_def roomy_def)
qed

lemma mem_put_size [simp]: "mem_size (w_mem (put_size a v s)) a = v"
proof -
  have "load_mem (store_mem a (le_bytes 4 (unat v)) (w_mem s)) a 4 = le_bytes 4 (unat v)" by (simp add: mem_simps)
  moreover have "ucast (ucast v :: u64) = v" by (rule bit_word_eqI) (simp add: bit_simps)
  ultimately show ?thesis
    using unat_u32_bound [of v] by (simp add: mem_size_def put_size_def put_def load_u_le_bytes unsigned_of_nat take_bit_nat_eq_self)
qed

lemma mem_put [simp]: "w_mem (put a bs s) = store_mem a bs (w_mem s)"
  by (simp add: put_def)

lemma fold_fields_ok:
  assumes ty: "typed_msg env (Suc d) fs sz"
    and frame: "\<And>i s. i < length fs - 1 \<Longrightarrow> frame (area fs dest i) s (work i s)"
    and ok: "\<And>i s. i < length fs - 1 \<Longrightarrow> field_ok (sub_ok env d) fs dest i (w_mem (work i s))"
    and un: "\<And>i s. i < length fs - 1 \<Longrightarrow> htype (fs ! i) = PB_HTYPE_ONEOF \<Longrightarrow> mem_size (w_mem (work i s)) (dest + size_off fs i) = 0"
  shows "k \<le> length fs - 1 \<Longrightarrow> j < k \<Longrightarrow> field_ok (sub_ok env d) fs dest j (w_mem (fold work [0..<k] s))"
proof (induction k)
  case (Suc k)
  let ?t = "fold work [0..<k] s"
  show ?case
  proof (cases "j = k")
    case True
    then show ?thesis using ok [of k ?t] Suc.prems by simp
  next
    case False
    have "field_ok (sub_ok env d) fs dest j (w_mem (work k ?t))"
    proof (rule field_ok_other [OF ty])
      show "j < length fs - 1" "k < length fs - 1" "j \<noteq> k" using Suc.prems False by simp_all
      show "w_mem (work k ?t) a = w_mem ?t a" if "a \<notin> area fs dest k" for a
        using frame [of k ?t] that Suc.prems by (simp add: frame_def)
      show "field_ok (sub_ok env d) fs dest j (w_mem ?t)" using Suc False by simp
    qed (use un Suc.prems in simp)
    then show ?thesis by simp
  qed
qed simp

lemma default_field_ok:
  assumes ty: "typed_msg env (Suc d) fs sz" "Suc d \<le> n" and i: "i < length fs - 1"
    and sub: "\<forall>sz fs n p s. typed_msg env d fs sz \<longrightarrow> d \<le> n \<longrightarrow> message_ok env d fs p (w_mem (pb_message_set_to_defaults env n fs p s))"
  shows "field_ok (sub_ok env d) fs dest i (w_mem (pb_field_set_to_default env n (iter_at fs dest i) s))"
    and "htype (fs ! i) = PB_HTYPE_ONEOF
      \<Longrightarrow> mem_size (w_mem (pb_field_set_to_default env n (iter_at fs dest i) s)) (dest + size_off fs i) = 0"
proof -
  let ?f = "fs ! i" and ?p = "dest + data_off fs i" and ?q = "dest + size_off fs i"
  obtain m where n: "n = Suc m" "d \<le> m" using ty(2) by (cases n) auto
  from ty(1) have l: "layout fs sz" "tidy fs" by simp_all
  from ty(1) i obtain e where e: "Suc d = Suc e" and fs: "static_field ?f" "ltype ?f = PB_LTYPE_SUBMESSAGE
      \<longrightarrow> typed_msg env e (env_fields env (f_ptr ?f)) (unat (f_data_size ?f))" by (blast elim: typed_msgE)
  note st = static_field_atype [OF fs(1)] and rm = tidy_roomy [OF l(2) i]
  let ?ini = "\<lambda>s. if ltype ?f = PB_LTYPE_SUBMESSAGE then each_field (pb_field_set_to_default env m) (env_fields env (f_ptr ?f)) ?p s
      else if f_ptr ?f \<noteq> 0 then put ?p (get (f_ptr ?f) (unat (f_data_size ?f)) s) s
      else put ?p (replicate (unat (f_data_size ?f)) 0) s"
  have ini: "value_ok (sub_ok env d) ?f ?p (w_mem (?ini s))" for s
  proof (cases "ltype ?f = PB_LTYPE_SUBMESSAGE")
    case True
    then show ?thesis
      using sub fs(2) e n(2) by (simp add: value_ok_def Let_def pb_message_set_to_defaults_def)
  next
    case False
    then show ?thesis using rm value_ok_zeros [OF fs(1) rm refl False] by (simp add: roomy_def Let_def)
  qed
  have z: "mem_size (w_mem (put_size ?q 0 s)) ?q = 0" by simp
  show un: "mem_size (w_mem (pb_field_set_to_default env n (iter_at fs dest i) s)) ?q = 0" if "htype ?f = PB_HTYPE_ONEOF"
    using that st by (simp add: n(1) field_default_def Let_def)
  show "field_ok (sub_ok env d) fs dest i (w_mem (pb_field_set_to_default env n (iter_at fs dest i) s))"
  proof (cases "htype ?f = PB_HTYPE_REPEATED \<or> htype ?f = PB_HTYPE_ONEOF")
    case True
    then show ?thesis
      using st layout_tag [OF l(1) i] union_okI(1) by (auto simp: n(1) field_default_def field_ok_def Let_def)
  next
    case False
    have keep: "w_mem (?ini (put ?q [0] s)) ?q = 0" if "htype ?f = PB_HTYPE_OPTIONAL" "size_off fs i \<noteq> data_off fs i"
    proof -
      have q: "?q \<notin> {?p..<?p + unat (f_data_size ?f)}"
        using rm that by (auto simp: roomy_def Let_def apart_def size_width_def extent_def item_room_def)
      have "frame (region ?p (unat (f_data_size ?f))) (put ?q [0] s) (?ini (put ?q [0] s))"
        using frame_defaults [OF typed_static n(2)] fs(2) e roomy_no_default [OF rm]
        by (auto simp: pb_message_set_to_defaults_def [symmetric] region_def intro: frame_put)
      then have "w_mem (?ini (put ?q [0] s)) ?q = w_mem (put ?q [0] s) ?q" using q by (simp add: frame_def region_def)
      then show ?thesis by (simp add: store_mem_def)
    qed
    show ?thesis
      using False st ini [of s] ini [of "put ?q [0] s"] keep htype_cases [of "f_type ?f"]
      by (auto simp: n(1) field_default_def field_ok_def Let_def)
  qed
qed

lemma defaults_ok:
  "typed_msg env d fs sz \<Longrightarrow> d \<le> n \<Longrightarrow> message_ok env d fs dest (w_mem (pb_message_set_to_defaults env n fs dest s))"
proof (induction d arbitrary: fs sz n dest s)
  case (Suc d)
  have l: "layout fs sz" "\<forall>f\<in>set (butlast fs). static_field f" using Suc.prems(1) by (blast elim: typed_msgE)+
  have sub: "\<forall>sz fs n p s. typed_msg env d fs sz \<longrightarrow> d \<le> n \<longrightarrow> message_ok env d fs p (w_mem (pb_message_set_to_defaults env n fs p s))"
    using Suc.IH by blast
  have "field_ok (sub_ok env d) fs dest j (w_mem (fold (\<lambda>i. pb_field_set_to_default env n (iter_at fs dest i)) [0..<length fs - 1] s))"
    if "j < length fs - 1" for j
    by (rule fold_fields_ok [OF Suc.prems(1) _ _ _ le_refl that])
      (use frame_default [OF typed_static [OF Suc.prems(1)] Suc.prems(2)] default_field_ok [OF Suc.prems _ sub] in blast)+
  then show ?case by (simp add: pb_message_set_to_defaults_def each_field_fold [OF l] list_all_iff)
qed simp

section \<open>Decoders of one value leave well-formed values\<close>

text \<open>What is asked of the decoder of submessages.\<close>

definition msg_good :: "'h pb_env \<Rightarrow> nat \<Rightarrow> (bool \<Rightarrow> nat \<Rightarrow> nat \<Rightarrow> ('h dstate, unit) opn) \<Rightarrow> bool" where
  "msg_good env d msg \<longleftrightarrow> (\<forall>init ptr sz p. typed_msg env d (env_fields env ptr) sz \<longrightarrow>
     confined (region p sz) (msg init ptr p)
     \<and> (\<forall>t u t'. init \<or> sub_ok env d ptr p (w_mem t) \<longrightarrow> msg init ptr p t = (Some u, t') \<longrightarrow> sub_ok env d ptr p (w_mem t')))"

definition typed_field :: "'h pb_env \<Rightarrow> nat \<Rightarrow> pb_field \<Rightarrow> bool" where
  "typed_field env d f \<longleftrightarrow> static_field f
     \<and> (ltype f = PB_LTYPE_SUBMESSAGE \<longrightarrow> typed_msg env d (env_fields env (f_ptr f)) (unat (f_data_size f)))
     \<and> (ltype f = PB_LTYPE_BYTES \<longrightarrow> 4 \<le> unat (f_data_size f))"

lemma typed_fields:
  "typed_msg env (Suc d) fs sz \<Longrightarrow> i < length fs - 1 \<Longrightarrow> typed_field env d (fs ! i)"
proof -
  assume ty: "typed_msg env (Suc d) fs sz" and i: "i < length fs - 1"
  from ty i obtain e where "Suc d = Suc e" "static_field (fs ! i)" "ltype (fs ! i) = PB_LTYPE_SUBMESSAGE
      \<longrightarrow> typed_msg env e (env_fields env (f_ptr (fs ! i))) (unat (f_data_size (fs ! i)))" by (blast elim: typed_msgE)
  moreover have "roomy fs i" using ty i tidy_roomy by simp
  ultimately show ?thesis by (simp add: typed_field_def roomy_def Let_def)
qed

lemma value_ok_keep:
  assumes "typed_field env d f" "\<And>a. a \<in> region p (unat (f_data_size f)) \<Longrightarrow> m a = m' a"
  shows "value_ok (sub_ok env d) f p m = value_ok (sub_ok env d) f p m'"
proof (rule value_ok_local)
  show "sub_ok env d (f_ptr f) p m = sub_ok env d (f_ptr f) p m'" if "ltype f = PB_LTYPE_SUBMESSAGE"
  proof (rule message_ok_local)
    show "typed_msg env d (env_fields env (f_ptr f)) (unat (f_data_size f))"
      using assms(1) that unfolding typed_field_def by blast
  qed (rule assms(2))
qed (use assms in \<open>simp_all add: typed_field_def\<close>)

lemma decoder_own:
  assumes "typed_field env d f" "msg_good env d msg"
  shows "confined (region p (unat (f_data_size f))) (pb_decoder env msg f p)"
proof (rule confined_decoder)
  show "static_field f" using assms(1) by (simp add: typed_field_def)
  show "confined (region p (unat (f_data_size f))) (msg (htype f = PB_HTYPE_REPEATED) (f_ptr f) p)" if "ltype f = PB_LTYPE_SUBMESSAGE"
    using assms that unfolding typed_field_def msg_good_def by blast
qed (simp add: region_def)

lemma dec_to_Some:
  assumes "dec_to dec p s = (Some u, s')"
  obtains bs i' where "dec (d_in s) = (Some bs, i')" "s' = put p bs (s\<lparr>d_in := i'\<rparr>)"
  using assms by (auto simp: dec_to_def op_bind_def on_in_def act_def split: prod.splits option.splits)

lemma bool_bytes: "pb_dec_bool i = (Some bs, i') \<Longrightarrow> bs = [0] \<or> bs = [1]"
  by (auto simp: pb_dec_bool_def op_map_def op_bind_def op_ret_def split: prod.splits option.splits if_splits)

lemma bytes_to_ok:
  assumes "atype f = PB_ATYPE_STATIC" "pb_dec_bytes_to env f p s = (Some u, s')"
  shows "unat (mem_size (w_mem s') p) + 4 \<le> unat (f_data_size f)"
proof -
  obtain sz i1 where v: "pb_decode_varint32 (d_in s) = (Some sz, i1)" and fit: "unat sz + 4 \<le> unat (f_data_size f)"
    and rd: "dec_to (pb_read (unat sz)) (p + 4) (put_size p sz (s\<lparr>d_in := i1\<rparr>)) = (Some u, s')"
    using assms
    by (auto simp: pb_dec_bytes_to_def alloc_size_eq op_bind_def op_seq_def on_in_def act_def Let_def d_error_def is_error_def
        split: prod.splits option.splits if_splits)
  from rd obtain bs i' where s': "s' = put (p + 4) bs ((put_size p sz (s\<lparr>d_in := i1\<rparr>))\<lparr>d_in := i'\<rparr>)" by (rule dec_to_Some)
  have "mem_size (w_mem s') p = mem_size (w_mem (put_size p sz (s\<lparr>d_in := i1\<rparr>))) p"
    unfolding s' by (rule mem_size_cong) (simp add: store_mem_def)
  then show ?thesis using fit by simp
qed

lemma string_to_ok:
  assumes "atype f = PB_ATYPE_STATIC" "pb_dec_string_to env f p s = (Some u, s')"
  shows "list_ex (\<lambda>k. w_mem s' (p + k) = 0) [0..<unat (f_data_size f)]"
proof -
  obtain sz :: u32 and t where fit: "unat (sz + 1) \<le> unat (f_data_size f)" "\<not> unat (sz + 1) < unat sz"
    and s': "s' = put (p + unat sz) [0] t"
    using assms that
    by (auto simp: pb_dec_string_to_def op_bind_def on_in_def Let_def d_error_def is_error_def not_less
        split: prod.splits option.splits if_splits)
  have "unat sz < unat (f_data_size f)" using fit unat_plus_one_u32 by fastforce
  moreover have "w_mem s' (p + unat sz) = 0" by (simp add: s' store_mem_def)
  ultimately show ?thesis by (auto simp: list_ex_iff intro!: bexI [of _ "unat sz"])
qed

lemma w_mem_on_in: "on_in f s = (r, s') \<Longrightarrow> w_mem s' = w_mem s"
  by (auto simp: on_in_def split: prod.splits)

lemma submessage_Some:
  assumes "pb_dec_submessage msg f p s = (Some u, s')" "f_ptr f \<noteq> 0"
  obtains i t t' where "w_mem t = w_mem s" "msg (htype f = PB_HTYPE_REPEATED) (f_ptr f) p t = (Some (), t')" "w_mem s' = w_mem t'"
proof -
  obtain sub i1 where mk: "pb_make_string_substream (d_in s) = (Some sub, i1)"
    using assms by (auto simp: pb_dec_submessage_def op_bind_def on_in_def split: prod.splits option.splits)
  let ?t = "s\<lparr>d_in := sub\<rparr>"
  obtain r t' where run: "msg (htype f = PB_HTYPE_REPEATED) (f_ptr f) p ?t = (r, t')" by fastforce
  have e: "op_seq (on_in (pb_close_string_substream (d_in t'))) (status (r \<noteq> None)) (t'\<lparr>d_in := i1\<rparr>) = (Some u, s')"
    using assms mk run by (simp add: pb_dec_submessage_def op_bind_def on_in_def on_substream_def split: option.splits)
  have "r \<noteq> None"
    using e by (auto simp: op_seq_def op_bind_def status_def op_check_def op_fail_def on_in_def split: prod.splits option.splits if_splits)
  moreover have "w_mem s' = w_mem t'"
    using e by (auto simp: op_seq_def op_bind_def status_def op_check_def op_fail_def op_ret_def on_in_def split: prod.splits option.splits if_splits)
  ultimately show ?thesis using that [of ?t t'] run by auto
qed

lemma decoder_value_ok:
  assumes f: "typed_field env d f" and msg: "msg_good env d msg"
    and pre: "htype f = PB_HTYPE_REPEATED \<or> (ltype f = PB_LTYPE_SUBMESSAGE \<longrightarrow> value_ok (sub_ok env d) f p (w_mem s))"
    and run: "pb_decoder env msg f p s = (Some u, s')"
  shows "value_ok (sub_ok env d) f p (w_mem s')"
proof -
  have st: "atype f = PB_ATYPE_STATIC" "ltype f = 8 \<longrightarrow> f_ptr f \<noteq> 0" using f by (auto simp: typed_field_def static_field_def Let_def)
  consider "ltype f = 0" | "ltype f = 6" | "ltype f = 7" | "ltype f = 8" | "ltype f \<notin> {0, 6, 7, 8}" by auto
  then show ?thesis
  proof cases
    case 1
    then have "dec_to pb_dec_bool p s = (Some u, s')" using run by (simp add: pb_decoder_def)
    then obtain bs i' where "pb_dec_bool (d_in s) = (Some bs, i')" "s' = put p bs (s\<lparr>d_in := i'\<rparr>)" by (rule dec_to_Some)
    then show ?thesis using 1 bool_bytes by (fastforce simp: value_ok_def store_mem_def)
  next
    case 2
    then show ?thesis using run bytes_to_ok [OF st(1)] by (simp add: pb_decoder_def value_ok_def)
  next
    case 3
    then show ?thesis using run string_to_ok [OF st(1)] by (simp add: pb_decoder_def value_ok_def)
  next
    case 4
    then have "pb_dec_submessage msg f p s = (Some u, s')" "f_ptr f \<noteq> 0" using run st by (simp_all add: pb_decoder_def)
    then obtain t t' where t: "w_mem t = w_mem s" "msg (htype f = PB_HTYPE_REPEATED) (f_ptr f) p t = (Some (), t')" "w_mem s' = w_mem t'"
      by (rule submessage_Some)
    have "htype f = PB_HTYPE_REPEATED \<or> sub_ok env d (f_ptr f) p (w_mem t)" using pre t(1) 4 by (auto simp: value_ok_def Let_def)
    then have "sub_ok env d (f_ptr f) p (w_mem t')"
      using msg f t(2) 4 unfolding msg_good_def typed_field_def by blast
    then show ?thesis using 4 t(3) by (simp add: value_ok_def)
  qed (simp add: value_ok_def Let_def)
qed

section \<open>Static fields\<close>

lemma data_size_apart:
  assumes "roomy fs i" "a \<in> region (dest + data_off fs i + unat (f_data_size (fs ! i)) * k) (unat (f_data_size (fs ! i)))"
    "k < item_room (fs ! i)"
  shows "a < dest + size_off fs i \<or> dest + size_off fs i + size_width fs i \<le> a"
proof -
  have "unat (f_data_size (fs ! i)) * Suc k \<le> extent (fs ! i)" unfolding extent_def using assms(3) by (intro mult_le_mono2) simp
  then have "dest + data_off fs i \<le> a" "a < dest + data_off fs i + extent (fs ! i)" using assms(2) by (auto simp: region_def)
  then show ?thesis using assms(1) by (auto simp: roomy_def Let_def apart_def)
qed

lemma count_step:
  assumes "typed_field env d (fs ! i)" "roomy fs i" "size_width fs i = 4" "k < item_room (fs ! i)"
  shows "value_ok (sub_ok env d) (fs ! i) (dest + data_off fs i + unat (f_data_size (fs ! i)) * k) (w_mem (put_size (dest + size_off fs i) v s))
    = value_ok (sub_ok env d) (fs ! i) (dest + data_off fs i + unat (f_data_size (fs ! i)) * k) (w_mem s)"
  using data_size_apart [OF assms(2) _ assms(4), of _ dest] assms(3)
  by (intro value_ok_keep [OF assms(1)]) (fastforce simp: put_size_def store_mem_def)

lemma item_step:
  assumes f: "typed_field env d (fs ! i)" "roomy fs i" "msg_good env d msg" and h: "htype (fs ! i) = PB_HTYPE_REPEATED"
    and c: "c < unat (f_array_size (fs ! i))"
    and items: "\<And>k. k < c \<Longrightarrow> value_ok (sub_ok env d) (fs ! i) (dest + data_off fs i + unat (f_data_size (fs ! i)) * k) (w_mem s)"
    and run: "pb_decoder env msg (fs ! i) (dest + data_off fs i + unat (f_data_size (fs ! i)) * c) s = (Some u, s')"
  shows "k \<le> c \<Longrightarrow> value_ok (sub_ok env d) (fs ! i) (dest + data_off fs i + unat (f_data_size (fs ! i)) * k) (w_mem s')"
    and "mem_size (w_mem s') (dest + size_off fs i) = mem_size (w_mem s) (dest + size_off fs i)"
proof -
  let ?f = "fs ! i" and ?p = "\<lambda>k. dest + data_off fs i + unat (f_data_size (fs ! i)) * k"
  have fr: "w_mem s' a = w_mem s a" if "a \<notin> region (?p c) (unat (f_data_size ?f))" for a
    using frame_at [OF decoder_own [OF f(1,3)] run] that by (simp add: frame_def)
  have cr: "c < item_room ?f" "size_width fs i = 4" using c h by (simp_all add: item_room_def size_width_def)
  show "mem_size (w_mem s') (dest + size_off fs i) = mem_size (w_mem s) (dest + size_off fs i)"
    using data_size_apart [OF f(2) _ cr(1), of _ dest] cr(2) by (intro mem_size_cong fr) fastforce
  show "value_ok (sub_ok env d) ?f (?p k) (w_mem s')" if "k \<le> c"
  proof (cases "k = c")
    case True
    then show ?thesis using decoder_value_ok [OF f(1,3) _ run] h by simp
  next
    case False
    then have "unat (f_data_size ?f) * Suc k \<le> unat (f_data_size ?f) * c" using that by (intro mult_le_mono2) simp
    then have "value_ok (sub_ok env d) ?f (?p k) (w_mem s') = value_ok (sub_ok env d) ?f (?p k) (w_mem s)"
      by (intro value_ok_keep [OF f(1)] fr) (auto simp: region_def)
    then show ?thesis using items [of k] that False by simp
  qed
qed

lemma packed_loop_ok:
  assumes f: "typed_field env d (fs ! i)" "roomy fs i" "msg_good env d msg" and h: "htype (fs ! i) = PB_HTYPE_REPEATED"
  shows "field_ok (sub_ok env d) fs dest i (w_mem s)
    \<Longrightarrow> packed_loop (pb_decoder env msg) (iter_at fs dest i) k s = (Some u, s')
    \<Longrightarrow> field_ok (sub_ok env d) fs dest i (w_mem s')"
proof (induction k arbitrary: s)
  case 0
  then show ?case by (auto simp: act_stuck_def split: if_splits)
next
  case (Suc k)
  let ?f = "fs ! i" and ?q = "dest + size_off fs i" and ?p = "\<lambda>k. dest + data_off fs i + unat (f_data_size (fs ! i)) * k"
  let ?c = "mem_size (w_mem s) ?q"
  have gc: "get_count (iter_at fs dest i) t = mem_size (w_mem t) ?q" "put_count (iter_at fs dest i) v t = put_size ?q v t" for t v
    by (simp_all add: get_count_def put_count_def)
  show ?case
  proof (cases "is_bytes_left (d_in s) > 0 \<and> ?c < f_array_size ?f")
    case False
    then show ?thesis using Suc.prems by (auto simp: gc)
  next
    case True
    then have c: "unat ?c < unat (f_array_size ?f)" by (simp add: word_less_nat_alt)
    have items: "\<And>k. k < unat ?c \<Longrightarrow> value_ok (sub_ok env d) ?f (?p k) (w_mem s)"
      using Suc.prems(1) h by (simp add: field_ok_def Let_def list_all_iff)
    obtain v s1 where run: "pb_decoder env msg ?f (?p (unat ?c)) s = (Some v, s1)"
      and rest: "packed_loop (pb_decoder env msg) (iter_at fs dest i) k (put_size ?q (mem_size (w_mem s1) ?q + 1) s1) = (Some u, s')"
      using Suc.prems(2) True by (auto simp: gc op_seq_def op_bind_def act_def Let_def split: prod.splits option.splits)
    note st = item_step [OF f h c items run]
    have w: "size_width fs i = 4" using h by (simp add: size_width_def)
    let ?s2 = "put_size ?q (mem_size (w_mem s1) ?q + 1) s1"
    have n: "unat (?c + 1) = unat ?c + 1" using c unat_u32_bound [of "f_array_size ?f"] by (subst unat_word_ariths) simp
    have "value_ok (sub_ok env d) ?f (?p j) (w_mem ?s2)" if "j < unat ?c + 1" for j
      using st(1) [of j] that c h by (subst count_step [OF f(1,2) w]) (simp_all add: item_room_def)
    moreover have "?c + 1 \<le> f_array_size ?f" using c n by (simp add: word_le_nat_alt)
    ultimately have "field_ok (sub_ok env d) fs dest i (w_mem ?s2)"
      using h n st(2) by (simp add: field_ok_def Let_def list_all_iff)
    then show ?thesis using rest by (rule Suc.IH)
  qed
qed

lemma on_substream_run:
  assumes "op_bind (on_in pb_make_string_substream) (\<lambda>sub. op_bind (on_substream sub (F sub)) (\<lambda>(ok, sub). G ok sub)) s = (Some u, s')"
  obtains sub i1 r t where "F sub (s\<lparr>d_in := sub\<rparr>) = (r, t)" "G (r \<noteq> None) (d_in t) (t\<lparr>d_in := i1\<rparr>) = (Some u, s')"
proof -
  obtain sub i1 where mk: "pb_make_string_substream (d_in s) = (Some sub, i1)"
    using assms by (auto simp: op_bind_def on_in_def split: prod.splits option.splits)
  obtain r t where run: "F sub (s\<lparr>d_in := sub\<rparr>) = (r, t)" by fastforce
  then show ?thesis using that assms mk by (simp add: op_bind_def on_in_def on_substream_def)
qed

lemma on_substream_Some:
  assumes "op_bind (on_in pb_make_string_substream) (\<lambda>sub. op_bind (on_substream sub (F sub)) (\<lambda>(ok, sub).
      if is_bytes_left sub \<noteq> 0 then d_error m else op_seq (on_in (pb_close_string_substream sub)) (status ok))) s = (Some u, s')"
  obtains sub t where "F sub (s\<lparr>d_in := sub\<rparr>) = (Some (), t)" "w_mem s' = w_mem t"
proof -
  obtain sub i1 r t where run: "F sub (s\<lparr>d_in := sub\<rparr>) = (r, t)"
    and e: "(if is_bytes_left (d_in t) \<noteq> 0 then d_error m
      else op_seq (on_in (pb_close_string_substream (d_in t))) (status (r \<noteq> None))) (t\<lparr>d_in := i1\<rparr>) = (Some u, s')"
    using assms by (rule on_substream_run)
  then have "r \<noteq> None \<and> w_mem s' = w_mem t"
    by (auto simp: op_seq_def op_bind_def status_def op_check_def op_fail_def op_ret_def on_in_def d_error_def is_error_def
        split: prod.splits option.splits if_splits)
  then show ?thesis using that run by auto
qed

lemma static_field_good:
  assumes ty: "typed_msg env (Suc d) fs sz" "Suc d \<le> n" and i: "i < length fs - 1" and msg: "msg_good env d msg"
    and ok: "field_ok (sub_ok env d) fs dest i (w_mem s)"
    and run: "decode_static_field env n (pb_decoder env msg) wt (iter_at fs dest i) s = (Some u, s')"
  shows "field_ok (sub_ok env d) fs dest i (w_mem s')
    \<and> (htype (fs ! i) = PB_HTYPE_ONEOF \<longrightarrow> mem_size (w_mem s') (dest + size_off fs i) = f_tag (fs ! i))"
proof -
  let ?f = "fs ! i" and ?p = "dest + data_off fs i" and ?q = "dest + size_off fs i"
  have f: "typed_field env d ?f" by (rule typed_fields [OF ty(1) i])
  have rm: "roomy fs i" using ty(1) i tidy_roomy by simp
  have gc: "get_count (iter_at fs dest i) t = mem_size (w_mem t) ?q" "put_count (iter_at fs dest i) v t = put_size ?q v t"
    for v :: u32 and t :: "'a dstate" by (simp_all add: get_count_def put_count_def)
  have off: "a < ?q \<or> ?q + size_width fs i \<le> a" if "a \<in> region ?p (unat (f_data_size ?f))" "htype ?f \<noteq> PB_HTYPE_REPEATED" for a
    using data_size_apart [OF rm, of a dest 0] that by (simp add: item_room_def)
  have own: "w_mem t' a = w_mem t a" if "pb_decoder env msg ?f ?p t = (r, t')" "a \<notin> region ?p (unat (f_data_size ?f))" for t r t' a
    using frame_at [OF decoder_own [OF f msg] that(1)] that(2) by (simp add: frame_def)
  consider "htype ?f = PB_HTYPE_REQUIRED" | "htype ?f = PB_HTYPE_OPTIONAL" | "htype ?f = PB_HTYPE_REPEATED" | "htype ?f = PB_HTYPE_ONEOF"
    using htype_cases by blast
  then show ?thesis
  proof cases
    case 1
    have "value_ok (sub_ok env d) ?f ?p (w_mem s)" using ok 1 by (simp add: field_ok_def Let_def)
    moreover have "pb_decoder env msg ?f ?p s = (Some u, s')" using run 1 by (simp add: decode_static_field_def Let_def)
    ultimately have "value_ok (sub_ok env d) ?f ?p (w_mem s')" by (intro decoder_value_ok [OF f msg]) simp_all
    then show ?thesis using 1 by (simp add: field_ok_def Let_def)
  next
    case 2
    let ?s1 = "if ?q \<noteq> ?p then put ?q [1] s else s"
    have r: "pb_decoder env msg ?f ?p ?s1 = (Some u, s')"
      using run 2 by (auto simp: decode_static_field_def Let_def op_seq_def op_bind_def act_def split: if_splits)
    have "w_mem ?s1 a = w_mem s a" if "a \<in> region ?p (unat (f_data_size ?f))" for a
      using off [OF that] 2 by (auto simp: size_width_def store_mem_def)
    then have "value_ok (sub_ok env d) ?f ?p (w_mem ?s1) = value_ok (sub_ok env d) ?f ?p (w_mem s)"
      by (intro value_ok_keep [OF f])
    then have "value_ok (sub_ok env d) ?f ?p (w_mem s')"
      using ok 2 by (intro decoder_value_ok [OF f msg _ r]) (simp add: field_ok_def Let_def)
    moreover have "w_mem s' ?q = 1" if "?q \<noteq> ?p"
      using own [OF r, of ?q] off [of ?q] that 2 by (auto simp: size_width_def store_mem_def)
    ultimately show ?thesis using 2 by (auto simp: field_ok_def Let_def)
  next
    case 3
    show ?thesis
    proof (cases "wt = PB_WT_STRING \<and> ltype ?f \<le> 5")
      case True
      then have "op_bind (on_in pb_make_string_substream) (\<lambda>sub.
          op_bind (on_substream sub (packed_loop (pb_decoder env msg) (iter_at fs dest i) (is_bytes_left sub))) (\<lambda>(ok, sub).
            if is_bytes_left sub \<noteq> 0 then d_error ''array overflow''
            else op_seq (on_in (pb_close_string_substream sub)) (status ok))) s = (Some u, s')"
        using run 3 by (simp add: decode_static_field_def Let_def)
      then obtain sub t where t: "packed_loop (pb_decoder env msg) (iter_at fs dest i) (is_bytes_left sub) (s\<lparr>d_in := sub\<rparr>) = (Some (), t)"
        "w_mem s' = w_mem t" by (rule on_substream_Some)
      have "field_ok (sub_ok env d) fs dest i (w_mem t)"
        using ok by (intro packed_loop_ok [OF f rm msg 3 _ t(1)]) simp
      then show ?thesis using t(2) 3 by simp
    next
      case False
      let ?c = "mem_size (w_mem s) ?q"
      let ?s1 = "put_size ?q (?c + 1) s"
      have lt: "?c < f_array_size ?f" and r: "pb_decoder env msg ?f (?p + unat (f_data_size ?f) * unat ?c) ?s1 = (Some u, s')"
        using run 3 False by (auto simp: decode_static_field_def Let_def gc d_error_def is_error_def on_in_def not_le split: if_splits)
      have c: "unat ?c < unat (f_array_size ?f)" using lt by (simp add: word_less_nat_alt)
      have w: "size_width fs i = 4" using 3 by (simp add: size_width_def)
      have n: "unat (?c + 1) = unat ?c + 1" using c unat_u32_bound [of "f_array_size ?f"] by (subst unat_word_ariths) simp
      have items: "value_ok (sub_ok env d) ?f (?p + unat (f_data_size ?f) * k) (w_mem ?s1)" if "k < unat ?c" for k
        using ok 3 that c by (subst count_step [OF f rm w]) (simp_all add: field_ok_def Let_def list_all_iff item_room_def)
      note st = item_step [OF f rm msg 3 c items r]
      have "?c + 1 \<le> f_array_size ?f" using c n by (simp add: word_le_nat_alt)
      then show ?thesis using st n 3 by (simp add: field_ok_def Let_def list_all_iff)
    qed
  next
    case 4
    let ?s1 = "if ltype ?f = PB_LTYPE_SUBMESSAGE \<and> mem_size (w_mem s) ?q \<noteq> f_tag ?f
      then pb_message_set_to_defaults env n (env_fields env (f_ptr ?f)) ?p (put ?p (replicate (unat (f_data_size ?f)) 0) s) else s"
    let ?s2 = "put_size ?q (f_tag ?f) ?s1"
    have r: "pb_decoder env msg ?f ?p ?s2 = (Some u, s')"
      using run 4 by (auto simp: decode_static_field_def Let_def gc op_seq_def op_bind_def act_def split: if_splits)
    have w: "size_width fs i = 4" using 4 by (simp add: size_width_def)
    have room: "0 < item_room ?f" using 4 by (simp add: item_room_def)
    have "value_ok (sub_ok env d) ?f ?p (w_mem ?s2)" if "ltype ?f = PB_LTYPE_SUBMESSAGE"
    proof -
      have "value_ok (sub_ok env d) ?f ?p (w_mem ?s1)"
      proof (cases "mem_size (w_mem s) ?q = f_tag ?f")
        case True
        then show ?thesis using ok 4 by (simp add: field_ok_def Let_def)
      next
        case False
        then show ?thesis
          using defaults_ok [of env d "env_fields env (f_ptr ?f)" "unat (f_data_size ?f)" n ?p "put ?p (replicate (unat (f_data_size ?f)) 0) s"]
            f ty(2) that by (simp add: typed_field_def value_ok_def)
      qed
      then show ?thesis using count_step [OF f rm w room, of dest "f_tag ?f" ?s1] by simp
    qed
    then have "value_ok (sub_ok env d) ?f ?p (w_mem s')" by (intro decoder_value_ok [OF f msg _ r]) blast
    moreover have "mem_size (w_mem s') ?q = mem_size (w_mem ?s2) ?q"
      using off 4 w by (intro mem_size_cong own [OF r]) fastforce
    ultimately show ?thesis
      using 4 union_okI(2) [OF i same_union_refl [OF 4] refl] by (simp add: field_ok_def Let_def)
  qed
qed

section \<open>Messages\<close>

lemma message_okD: "message_ok env (Suc d) fs dest m \<Longrightarrow> i < length fs - 1 \<Longrightarrow> field_ok (sub_ok env d) fs dest i m"
  by (simp add: list_all_iff)

lemma static_field_own:
  assumes ty: "typed_msg env (Suc d) fs sz" "Suc d \<le> n" and i: "i < length fs - 1" and msg: "msg_good env d msg"
  shows "confined (area fs dest i) (decode_static_field env n (pb_decoder env msg) wt (iter_at fs dest i))"
proof -
  have f: "typed_field env d (fs ! i)" by (rule typed_fields [OF ty(1) i])
  have lay: "layout fs sz" using ty(1) by simp
  show ?thesis
  proof (rule confined_static_field [OF lay iter_ok_at [OF i]])
    show "static_field (fs ! i)" using f by (simp add: typed_field_def)
    show "ltype (fs ! i) = PB_LTYPE_SUBMESSAGE
        \<longrightarrow> static_msg env d (env_fields env (f_ptr (fs ! i))) (unat (f_data_size (fs ! i))) \<and> d \<le> n"
      using f ty(2) typed_static by (auto simp: typed_field_def)
    show "confined (area fs dest i) (pb_decoder env msg (fs ! i) p)" if "{p..<p + unat (f_data_size (fs ! i))} \<subseteq> area fs dest i" for p
      using decoder_own [OF f msg, of p] that unfolding region_def by (rule confined_mono)
    show "is_bytes_left (d_in s') < is_bytes_left (d_in s)"
      if "ltype (fs ! i) \<le> 5" "pb_decoder env msg (fs ! i) p s = (Some u, s')" for p s u s'
      using decoder_eats [of "fs ! i" env msg p] f that unfolding eats_def typed_field_def by blast
  qed
qed

lemma decode_field_good:
  assumes ty: "typed_msg env (Suc d) fs sz" "Suc d \<le> n" and i: "i < length fs - 1" and msg: "msg_good env d msg"
    and ok: "message_ok env (Suc d) fs dest (w_mem s)"
    and run: "decode_field env n msg wt (iter_at fs dest i) s = (Some it', s')"
  shows "it' = iter_at fs dest i \<and> message_ok env (Suc d) fs dest (w_mem s')"
proof -
  note sm = typed_static [OF ty(1)]
  have st: "atype (fs ! i) = PB_ATYPE_STATIC" using typed_fields [OF ty(1) i] static_field_atype by (simp add: typed_field_def)
  let ?un = "if htype (fs ! i) = PB_HTYPE_ONEOF then pb_release_union_field env n (iter_at fs dest i) else op_ret (iter_at fs dest i)"
  have "(\<exists>it. ?un s = (Some it, s) \<and> it = iter_at fs dest i) \<or> (\<exists>m. ?un s = d_error m s)"
    using release_union_static [OF sm ty(2) iter_ok_at [OF i, of dest], where s = s] by (auto simp: op_ret_def iter_ok_def)
  then have un: "?un s = (Some (iter_at fs dest i), s)"
    using run by (auto simp: decode_field_def op_bind_def d_error_def is_error_def on_in_def split: prod.splits option.splits)
  obtain u where it': "it' = iter_at fs dest i"
    and dec: "decode_static_field env n (pb_decoder env msg) wt (iter_at fs dest i) s = (Some u, s')"
    using run un st by (auto simp: decode_field_def op_bind_def op_map_def op_ret_def Let_def split: prod.splits option.splits if_splits)
  note good = static_field_good [OF ty i msg message_okD [OF ok i] dec]
  have fr: "frame (area fs dest i) s s'" by (rule frame_at [OF static_field_own [OF ty i msg] dec])
  have "field_ok (sub_ok env d) fs dest j (w_mem s')" if j: "j < length fs - 1" for j
  proof (cases "j = i")
    case False
    show ?thesis
      by (rule field_ok_other [OF ty(1) j i False _ _ message_okD [OF ok j]])
        (use fr good in \<open>auto simp: frame_def\<close>)
  qed (use good in simp)
  then show ?thesis using it' by (simp add: list_all_iff)
qed

definition l_at :: "pb_field list \<Rightarrow> nat \<Rightarrow> pb_locals \<Rightarrow> bool" where
  "l_at fs dest l \<longleftrightarrow> (\<exists>i<length fs - 1. l_iter l = iter_at fs dest i)
     \<and> (l_extension_range_start l = 0 \<or> l_extension_range_start l = - 1)"

lemma turn_typed:
  assumes ty: "typed_msg env (Suc d) fs sz" "Suc d \<le> n" and l: "l_at fs dest l" and msg: "msg_good env d msg"
    and ok: "message_ok env (Suc d) fs dest (w_mem s)"
    and run: "decode_turn env n msg l s = (Some r, s')"
  shows "message_ok env (Suc d) fs dest (w_mem s')" "r = Some l' \<Longrightarrow> l_at fs dest l'"
proof -
  have lay: "layout fs sz" "\<forall>f\<in>set (butlast fs). static_field f" using ty(1) by (blast elim: typed_msgE)+
  obtain q eof i1 where t: "pb_decode_tag (d_in s) = ((q, eof), i1)" by (metis prod.collapse)
  let ?s = "s\<lparr>d_in := i1\<rparr>"
  have "message_ok env (Suc d) fs dest (w_mem s') \<and> (r = Some l' \<longrightarrow> l_at fs dest l')"
  proof (cases q)
    case None
    then show ?thesis using run t ok by (auto simp: decode_turn_def Let_def split: if_splits)
  next
    case (Some wtag)
    obtain wt tag where wtag: "wtag = (wt, tag)" by fastforce
    obtain i where i: "i < length fs - 1" "l_iter l = iter_at fs dest i" using l by (auto simp: l_at_def)
    obtain found it1 where fd: "pb_field_iter_find (l_iter l) tag = (found, it1)" by fastforce
    have "\<exists>j<length fs - 1. it1 = iter_at fs dest j"
      using iter_search_all [OF lay iter_ok_at [OF i(1)], of "\<lambda>f. f_tag f = tag \<and> ltype f \<noteq> PB_LTYPE_EXTENSION" dest] fd i
      by (auto simp: pb_field_iter_find_def)
    then obtain j where j: "j < length fs - 1" "it1 = iter_at fs dest j" by blast
    let ?l = "l\<lparr>l_iter := it1\<rparr>"
    have l1: "l_at fs dest ?l" using l j by (auto simp: l_at_def)
    show ?thesis
    proof (cases found)
      case True
      have "\<not> (htype (fs ! j) = PB_HTYPE_REPEATED \<and> it_pSize it1 = At (it_pData it1))"
        using tidy_roomy [of fs j] ty(1) j by (auto simp: roomy_def Let_def)
      then have "op_map Some (op_map (\<lambda>it. ?l\<lparr>l_fields_seen := see_required it1 (l_fields_seen l), l_iter := it\<rparr>)
          (decode_field env n msg wt it1)) ?s = (Some r, s')"
        using run t Some wtag fd True j
        by (auto simp: decode_turn_def decode_known_def Let_def op_map_def op_bind_def op_ret_def split: prod.splits option.splits)
      then obtain it' where it': "decode_field env n msg wt (iter_at fs dest j) ?s = (Some it', s')"
        "r = Some (?l\<lparr>l_fields_seen := see_required it1 (l_fields_seen l), l_iter := it'\<rparr>)"
        using j(2) by (auto simp: op_map_def op_bind_def op_ret_def split: prod.splits option.splits)
      have "it' = iter_at fs dest j \<and> message_ok env (Suc d) fs dest (w_mem s')"
        by (rule decode_field_good [OF ty j(1) msg _ it'(1)]) (use ok in simp)
      then show ?thesis using it'(2) l1 j by (auto simp: l_at_def)
    next
      case False
      have nt: "\<not> - 1 \<le> tag" using tag_bound t Some wtag by (simp add: not_le)
      have "ltype (fs ! k) \<noteq> PB_LTYPE_EXTENSION" if "k < length fs - 1" for k
        using lay(2) that static_field_atype by (metis length_butlast nth_butlast nth_mem)
      then have ext: "find_extension_field it1 = (False, it1)"
        using iter_search_all [OF lay iter_ok_at [OF j(1)], of "\<lambda>f. ltype f = PB_LTYPE_EXTENSION" dest] j
        by (auto simp: find_extension_field_def)
      have "decode_turn env n msg l s = op_map Some (decode_unknown env n msg tag wt ?l) ?s"
        using t Some wtag fd False by (simp add: decode_turn_def Let_def)
      then have "op_map Some (op_map (\<lambda>_. if l_extension_range_start l \<le> tag then ?l\<lparr>l_extension_range_start := - 1\<rparr> else ?l)
          (on_in (pb_skip_field wt))) ?s = (Some r, s')"
        using run nt by (simp add: decode_unknown_def ext Let_def split: if_splits)
      then have "w_mem s' = w_mem s \<and> (r = Some l' \<longrightarrow> l' = (if l_extension_range_start l \<le> tag then ?l\<lparr>l_extension_range_start := - 1\<rparr> else ?l))"
        by (auto simp: op_map_def op_bind_def op_ret_def on_in_def split: prod.splits option.splits)
      then show ?thesis using ok l1 nt by (auto simp: l_at_def)
    qed
  qed
  then show "message_ok env (Suc d) fs dest (w_mem s')" "r = Some l' \<Longrightarrow> l_at fs dest l'" by blast+
qed

lemma loop_typed:
  assumes ty: "typed_msg env (Suc d) fs sz" "Suc d \<le> n" and msg: "msg_good env d msg"
  shows "l_at fs dest l \<Longrightarrow> message_ok env (Suc d) fs dest (w_mem s) \<Longrightarrow> decode_loop (decode_turn env n msg) k l s = (Some l', s')
    \<Longrightarrow> message_ok env (Suc d) fs dest (w_mem s')"
proof (induction k arbitrary: l s)
  case 0
  then show ?case by (auto simp: act_stuck_def simp del: message_ok.simps split: if_splits)
next
  case (Suc k)
  show ?case
  proof (cases "is_bytes_left (d_in s) = 0")
    case False
    then obtain r s1 where r: "decode_turn env n msg l s = (Some r, s1)"
      and rest: "(case r of None \<Rightarrow> op_ret l | Some l \<Rightarrow> decode_loop (decode_turn env n msg) k l) s1 = (Some l', s')"
      using Suc.prems(3) by (auto simp: op_bind_def split: prod.splits option.splits)
    note t = turn_typed [OF ty Suc.prems(1) msg Suc.prems(2) r]
    show ?thesis
    proof (cases r)
      case None
      then show ?thesis using rest t(1) by (simp add: op_ret_def del: message_ok.simps)
    next
      case (Some l1)
      then show ?thesis using Suc.IH [OF t(2) [OF Some] t(1)] rest by simp
    qed
  qed (use Suc.prems in simp)
qed

lemma message_typed:
  assumes ty: "typed_msg env (Suc d) fs sz" "Suc d \<le> n" and msg: "msg_good env d msg"
    and ok: "message_ok env (Suc d) fs dest (w_mem s)"
    and run: "decode_message env n msg fs dest s = (Some u, s')"
  shows "message_ok env (Suc d) fs dest (w_mem s')"
proof (cases "1 < length fs")
  case True
  have lay: "layout fs sz" using ty(1) by simp
  define l where "l = \<lparr>l_iter = snd (pb_field_iter_begin fs dest), l_fields_seen = [0, 0],
      l_extension_range_start = 0, l_fixed_count_field = None\<rparr>"
  have l: "l_at fs dest l" using True by (auto simp: l_at_def l_def iter_begin_at [OF lay True] intro!: exI [of _ 0])
  obtain l' t where t: "decode_loop (decode_turn env n msg) (is_bytes_left (d_in s)) l (s\<lparr>d_fixed := 0\<rparr>) = (Some l', t)"
    using run
    by (auto simp: decode_message_def l_def [symmetric] Let_def op_bind_def op_seq_def fixed_count_check_def required_check_def op_ret_def
        d_error_def is_error_def on_in_def split: prod.splits option.splits if_splits)
  have "message_ok env (Suc d) fs dest (w_mem t)"
    by (rule loop_typed [OF ty msg l _ t]) (use ok in \<open>simp del: message_ok.simps\<close>)
  moreover have "w_mem s' = w_mem t"
    using run t
    by (auto simp: decode_message_def l_def [symmetric] Let_def op_bind_def op_seq_def fixed_count_check_def required_check_def op_ret_def
        d_error_def is_error_def on_in_def split: prod.splits option.splits if_splits)
  ultimately show ?thesis by (simp del: message_ok.simps)
qed simp

lemma release_mem: "typed_msg env d fs sz \<Longrightarrow> d \<le> n \<Longrightarrow> pb_release env n fs dest s = s"
  using release_static typed_static by blast

lemma decode_with_typed:
  assumes ty: "typed_msg env d fs sz" "d \<le> n"
    and no: "\<And>s u s'. message_ok env d fs dest (w_mem s) \<Longrightarrow> noinit fs dest s = (Some u, s') \<Longrightarrow> message_ok env d fs dest (w_mem s')"
    and run: "pb_decode_with env n noinit fs dest s = (Some u, s')"
  shows "message_ok env d fs dest (w_mem s')"
  using run no defaults_ok [OF ty, of dest s]
  by (auto simp: pb_decode_with_def split: prod.splits option.splits)

lemma noinit_typed:
  "typed_msg env d fs sz \<Longrightarrow> d \<le> n \<Longrightarrow> message_ok env d fs dest (w_mem s)
    \<Longrightarrow> pb_decode_noinit env n fs dest s = (Some u, s') \<Longrightarrow> message_ok env d fs dest (w_mem s')"
proof (induction n arbitrary: d fs sz dest s u s')
  case (Suc n)
  obtain e where d: "d = Suc e" using Suc.prems(1) by (blast elim: typed_msgE)
  have e: "e \<le> n" using Suc.prems(2) d by simp
  let ?msg = "\<lambda>init ptr dest. if init then pb_decode_with env n (pb_decode_noinit env n) (env_fields env ptr) dest
      else pb_decode_noinit env n (env_fields env ptr) dest"
  have "msg_good env e ?msg"
    unfolding msg_good_def
  proof (intro allI impI conjI)
    fix init ptr sz p
    assume ty: "typed_msg env e (env_fields env ptr) sz"
    note sm = typed_static [OF ty]
    show "confined (region p sz) (?msg init ptr p)"
      using confined_noinit [OF sm e] confined_decode_with [OF sm e, where noinit = "pb_decode_noinit env n"] by simp
    fix t u t'
    assume "init \<or> sub_ok env e ptr p (w_mem t)" "?msg init ptr p t = (Some u, t')"
    then show "sub_ok env e ptr p (w_mem t')"
    proof (cases init)
      case True
      then have "pb_decode_with env n (pb_decode_noinit env n) (env_fields env ptr) p t = (Some u, t')"
        using \<open>?msg init ptr p t = (Some u, t')\<close> by simp
      with ty e Suc.IH [OF ty e] show ?thesis by (rule decode_with_typed)
    next
      case False
      show ?thesis
        by (rule Suc.IH [OF ty e]) (use False \<open>init \<or> _\<close> \<open>?msg init ptr p t = (Some u, t')\<close> in simp_all)
    qed
  qed
  moreover have "decode_message env (Suc n) ?msg fs dest s = (Some u, s')" using Suc.prems(4) by simp
  ultimately show ?case
    using message_typed [OF Suc.prems(1,2) [unfolded d] _ Suc.prems(3) [unfolded d]] unfolding d by blast
qed simp

lemma decode_typed:
  assumes "typed_msg env d fs sz" "d \<le> n" "pb_decode env n fs dest s = (Some u, s')"
  shows "message_ok env d fs dest (w_mem s')"
  by (rule decode_with_typed [OF assms(1,2) noinit_typed [OF assms(1,2)] assms(3) [unfolded pb_decode_def]])

section \<open>The encoder accepts well-formed messages\<close>

text \<open>On a stream that only counts, no write fails; \<open>counting\<close> operations succeed and change nothing else.\<close>

definition counting :: "(pb_ostream, unit) opn \<Rightarrow> bool" where
  "counting f \<longleftrightarrow> (\<forall>out. \<not> os_callback out \<longrightarrow> (\<exists>out'. f out = (Some (), out') \<and> \<not> os_callback out'))"

definition accepts :: "('h estate, unit) opn \<Rightarrow> 'h estate \<Rightarrow> bool" where
  "accepts f s \<longleftrightarrow> (\<forall>out. \<not> os_callback out \<longrightarrow> (\<exists>out'. f (s\<lparr>e_out := out\<rparr>) = (Some (), s\<lparr>e_out := out'\<rparr>) \<and> \<not> os_callback out'))"

named_theorems counting \<open>operations that succeed on a counting stream\<close>

lemma counting_write [counting]: "counting (pb_write bs)"
  by (simp add: counting_def pb_write_def Let_def)

lemma counting_seq [counting]: "counting f \<Longrightarrow> counting g \<Longrightarrow> counting (op_seq f g)"
  by (fastforce simp: counting_def op_seq_def op_bind_def)

lemma counting_varint [counting]: "counting (pb_encode_varint v)"
  by (simp add: pb_encode_varint_def Let_def counting_write)

lemma counting_svarint [counting]: "counting (pb_encode_svarint v)"
  by (simp add: pb_encode_svarint_def Let_def counting_varint)

lemma counting_fixed [counting]: "counting (pb_encode_fixed32 v)" "counting (pb_encode_fixed64 w)"
  by (simp_all add: pb_encode_fixed32_def pb_encode_fixed64_def counting_write)

lemma counting_tag [counting]: "counting (pb_encode_tag wt n)"
  by (simp add: pb_encode_tag_def counting_varint)

lemma counting_string [counting]: "counting (pb_encode_string bs)"
  unfolding pb_encode_string_def by (intro counting)

lemma counting_field_tag: "static_field f \<Longrightarrow> counting (pb_encode_tag_for_field f)"
  using counting_tag by (auto simp: pb_encode_tag_for_field_def static_field_def Let_def)

lemma accepts_on_out: "counting f \<Longrightarrow> accepts (on_out f) s"
  by (fastforce simp: accepts_def counting_def on_out_def)

lemma accepts_seq: "accepts f s \<Longrightarrow> accepts g s \<Longrightarrow> accepts (op_seq f g) s"
  by (fastforce simp: accepts_def op_seq_def op_bind_def)

lemma accepts_ret: "accepts (op_ret ()) s"
  by (auto simp: accepts_def op_ret_def)

lemma accepts_state: "accepts f s \<Longrightarrow> (\<And>out. g (s\<lparr>e_out := out\<rparr>) = f (s\<lparr>e_out := out\<rparr>)) \<Longrightarrow> accepts g s"
  by (simp add: accepts_def)

lemma accepts_out: "accepts f (s\<lparr>e_out := out\<rparr>) = accepts f s"
  by (simp add: accepts_def)

lemma accepts_count: "accepts (count_only sz) s"
  by (auto simp: accepts_def count_only_def on_out_def
      intro: exI [of _ "out\<lparr>os_bytes_written := os_bytes_written out + sz\<rparr>" for out])

lemma accepts_submessage:
  assumes "accepts (msg src) s"
  shows "accepts (pb_encode_submessage msg src) s"
proof -
  obtain sub where sub: "msg src (s\<lparr>e_out := PB_OSTREAM_SIZING\<rparr>) = (Some (), s\<lparr>e_out := sub\<rparr>)" "\<not> os_callback sub"
    using assms unfolding accepts_def PB_OSTREAM_SIZING_def by (metis pb_ostream.select_convs(1))
  show ?thesis
    unfolding accepts_def
  proof (intro allI impI)
    fix out :: pb_ostream assume out: "\<not> os_callback out"
    obtain out1 where v: "pb_encode_varint (os_bytes_written sub) out = (Some (), out1)" "\<not> os_callback out1"
      using counting_varint out unfolding counting_def by blast
    then show "\<exists>out'. pb_encode_submessage msg src (s\<lparr>e_out := out\<rparr>) = (Some (), s\<lparr>e_out := out'\<rparr>) \<and> \<not> os_callback out'"
      using sub out accepts_count [of "os_bytes_written sub" s]
      by (simp add: pb_encode_submessage_def op_bind_def op_seq_def on_ostream_def on_out_def accepts_def Let_def)
  qed
qed

lemma accepts_items: "(\<And>i. i < n \<Longrightarrow> accepts (item (p + k * i)) s) \<Longrightarrow> accepts (encode_items item k p n) s"
proof -
  assume a: "\<And>i. i < n \<Longrightarrow> accepts (item (p + k * i)) s"
  have "accepts (foldr (\<lambda>i. op_seq (item (p + k * i))) xs (op_ret ())) s" if "set xs \<subseteq> {0..<n}" for xs
    using that by (induction xs) (auto intro: accepts_ret accepts_seq a)
  then show ?thesis by (simp add: encode_items_def)
qed

lemma get_out [simp]: "get a n (s\<lparr>e_out := out\<rparr>) = get a n s" "get_ptr a (s\<lparr>e_out := out\<rparr>) = get_ptr a s"
  by (simp_all add: get_def get_ptr_def)

lemma accepts_from: "(\<And>bs. counting (enc bs)) \<Longrightarrow> accepts (enc_from enc n p) s"
  by (rule accepts_state [OF accepts_on_out [of "enc (get p n s)"]]) (simp_all add: enc_from_def)

lemma accepts_bytes:
  assumes "atype f = PB_ATYPE_STATIC" "unat (mem_size (w_mem s) p) + 4 \<le> unat (f_data_size f)"
  shows "accepts (pb_enc_bytes_from f p) s"
proof (rule accepts_state)
  let ?src = "if p = 0 then None else Some (mem_size (w_mem s) p, get (p + 4) (unat (mem_size (w_mem s) p)) s)"
  show "accepts (on_out (pb_enc_bytes f ?src)) s"
    using assms counting_string
    by (intro accepts_on_out) (auto simp: pb_enc_bytes_def alloc_size_eq Let_def)
qed (simp add: pb_enc_bytes_from_def Let_def)

lemma accepts_string: "accepts (pb_enc_string_from f p) s"
proof (rule accepts_state)
  let ?src = "if p = 0 then None else Some (get p (mem_strnlen (w_mem s) p (if atype f = PB_ATYPE_POINTER then 2 ^ 64 - 1 else unat (f_data_size f)) 0) s)"
  show "accepts (on_out (pb_enc_string f ?src)) s"
    using counting_string by (intro accepts_on_out) (auto simp: pb_enc_string_def Let_def)
qed (simp add: pb_enc_string_from_def Let_def)

lemma accepts_if: "(b \<Longrightarrow> accepts f s) \<Longrightarrow> (\<not> b \<Longrightarrow> accepts g s) \<Longrightarrow> accepts (if b then f else g) s"
  by simp

lemma encoder_accepts:
  assumes f: "typed_field env d f" and ok: "value_ok (sub_ok env d) f p (w_mem s)"
    and sub: "ltype f = PB_LTYPE_SUBMESSAGE \<Longrightarrow> accepts (msg (f_ptr f) p) s"
  shows "accepts (pb_encoder msg f p) s"
proof -
  have st: "atype f = PB_ATYPE_STATIC" "ltype f \<in> {0, 1, 2, 3, 4, 5, 6, 7, 8, 10}" "ltype f \<in> {1, 2, 3} \<longrightarrow> int_size f"
    "ltype f = 8 \<longrightarrow> f_ptr f \<noteq> 0"
    using f by (auto simp: typed_field_def static_field_def Let_def)
  show ?thesis
    unfolding pb_encoder_def Let_def
  proof (intro accepts_if)
    show "accepts (pb_enc_bytes_from f p) s" if "ltype f = 6"
      using ok that by (intro accepts_bytes st) (simp add: value_ok_def)
    show "accepts (pb_enc_submessage msg f p) s" if "ltype f = 8"
      using st(4) sub accepts_submessage [of "msg (f_ptr f)"] that by (simp add: pb_enc_submessage_def)
    assume "ltype f \<noteq> 0" "ltype f \<noteq> 1" "ltype f \<noteq> 2" "ltype f \<noteq> 3" "ltype f \<noteq> 4" "ltype f \<noteq> 5" "ltype f \<noteq> 6"
      "ltype f \<noteq> 7" "ltype f \<noteq> 8" "ltype f \<noteq> 10"
    then have False using st(2) by simp
    then show "accepts enc_stuck s" ..
  qed (use st(3) in \<open>simp_all add: pb_enc_bool_def pb_enc_varint_def pb_enc_uvarint_def pb_enc_svarint_def pb_enc_fixed32_def
      pb_enc_fixed64_def pb_enc_fixed_length_bytes_def accepts_from accepts_string counting\<close>)
qed

lemma accepts_array:
  assumes f: "typed_field env d f" and n: "n \<le> unat (f_array_size f)"
    and ok: "\<And>k. k < n \<Longrightarrow> value_ok (sub_ok env d) f (p + unat (f_data_size f) * k) (w_mem s)"
    and sub: "\<And>k. k < n \<Longrightarrow> ltype f = PB_LTYPE_SUBMESSAGE \<Longrightarrow> accepts (msg (f_ptr f) (p + unat (f_data_size f) * k)) s"
  shows "accepts (encode_array f p n (pb_encoder msg)) s"
proof -
  have st: "atype f = PB_ATYPE_STATIC" "static_field f" using f by (auto simp: typed_field_def static_field_def Let_def)
  have enc: "accepts (pb_encoder msg f (p + unat (f_data_size f) * k)) s" if "k < n" for k
    using f ok [OF that] sub [OF that] by (rule encoder_accepts)
  let ?items = "encode_items (pb_encoder msg f) (unat (f_data_size f)) p n"
  have items: "accepts ?items s" by (rule accepts_items) (rule enc)
  obtain sub where sub: "?items (s\<lparr>e_out := PB_OSTREAM_SIZING\<rparr>) = (Some (), s\<lparr>e_out := sub\<rparr>)"
    using items unfolding accepts_def PB_OSTREAM_SIZING_def by (metis pb_ostream.select_convs(1))
  let ?w = "\<lambda>sz s. if \<not> os_callback (e_out s) then count_only sz s else ?items s"
  have w: "accepts (op_seq (on_out (pb_encode_varint sz)) (?w sz)) s" for sz
    using accepts_count [of sz s]
    by (intro accepts_seq accepts_on_out counting) (simp add: accepts_def)
  have packed: "accepts (op_bind (if ltype f = 4 then op_ret (of_nat (4 * n))
      else if ltype f = 5 then op_ret (of_nat (8 * n))
      else op_bind (on_ostream PB_OSTREAM_SIZING ?items) (\<lambda>(ok, sub). op_seq (op_check ok) (op_ret (os_bytes_written sub))))
        (\<lambda>sz. op_seq (on_out (pb_encode_varint sz)) (?w sz))) s"
    using w sub
    by (auto simp: accepts_def op_bind_def op_ret_def on_ostream_def op_seq_def op_check_def)
  have unpacked: "accepts (encode_items (\<lambda>p. op_seq (on_out (pb_encode_tag_for_field f))
        (\<lambda>s. pb_encoder msg f (if atype f = PB_ATYPE_POINTER \<and> (ltype f = 7 \<or> ltype f = 6) then get_ptr p s else p) s))
      (unat (f_data_size f)) p n) s"
    using st enc by (intro accepts_items accepts_seq accepts_on_out counting_field_tag) simp_all
  show ?thesis
    using n st packed unpacked accepts_ret [of s]
    unfolding encode_array_def Let_def
    by (cases "n = 0"; cases "ltype f \<le> 5") (simp_all add: accepts_seq accepts_on_out counting_tag)
qed

lemma size_offset_place:
  assumes "layout fs sz" "i < length fs - 1" "roomy fs i"
  shows "size_addr (dest + data_off fs i) (fs ! i) = dest + size_off fs i"
    and "f_size_offset (fs ! i) = 0 \<longleftrightarrow> size_off fs i = data_off fs i"
proof -
  have e: "size_off fs i = size_addr (data_off fs i) (fs ! i)" using assms(3) by (simp add: roomy_def Let_def)
  note nn = layout_at(1) [OF assms(1,2)]
  show "size_addr (dest + data_off fs i) (fs ! i) = dest + size_off fs i" using size_addr_shift [OF nn] e by simp
  show "f_size_offset (fs ! i) = 0 \<longleftrightarrow> size_off fs i = data_off fs i"
    using nn signed_word_eqI [of "f_size_offset (fs ! i)" 0] unfolding e size_addr_def by (auto simp: nat_eq_iff)
qed

lemma accepts_opt: "(b \<Longrightarrow> accepts f s) \<Longrightarrow> accepts (\<lambda>s. if b then f s else (Some (), s)) s"
  by (auto simp: accepts_def)

lemma accepts_field:
  assumes ty: "typed_msg env (Suc d) fs sz" and i: "i < length fs - 1" and dest: "0 < dest"
    and ok: "field_ok (sub_ok env d) fs dest i (w_mem s)"
    and sub: "\<And>p sz ptr. 0 < p \<Longrightarrow> typed_msg env d (env_fields env ptr) sz \<Longrightarrow> sub_ok env d ptr p (w_mem s) \<Longrightarrow> accepts (msg ptr p) s"
  shows "accepts (encode_field env n msg (fs ! i) (dest + data_off fs i)) s"
proof -
  let ?f = "fs ! i" and ?p = "dest + data_off fs i" and ?q = "dest + size_off fs i"
  have f: "typed_field env d ?f" by (rule typed_fields [OF ty i])
  have rm: "roomy fs i" and lay: "layout fs sz" using ty i tidy_roomy by simp_all
  note pl = size_offset_place [OF lay i rm]
  have st: "atype ?f = PB_ATYPE_STATIC" "static_field ?f" using f by (auto simp: typed_field_def static_field_def Let_def)
  have one: "accepts (pb_encoder msg ?f p) s" if "value_ok (sub_ok env d) ?f p (w_mem s)" "0 < p" for p
  proof (rule encoder_accepts [OF f that(1)])
    assume "ltype ?f = PB_LTYPE_SUBMESSAGE"
    then show "accepts (msg (f_ptr ?f) p) s"
      using f that sub by (auto simp: typed_field_def value_ok_def)
  qed
  have whole: "accepts (op_seq (on_out (pb_encode_tag_for_field ?f)) (pb_encoder msg ?f ?p)) s"
    if "value_ok (sub_ok env d) ?f ?p (w_mem s)"
    using that dest st by (intro accepts_seq accepts_on_out counting_field_tag one) simp_all
  have arr: "accepts (encode_array ?f ?p (unat (mem_size (w_mem s) ?q)) (pb_encoder msg)) s" if h: "htype ?f = PB_HTYPE_REPEATED"
  proof (rule accepts_array [OF f])
    show "unat (mem_size (w_mem s) ?q) \<le> unat (f_array_size ?f)" using ok h by (simp add: field_ok_def Let_def word_le_nat_alt)
    fix k assume k: "k < unat (mem_size (w_mem s) ?q)"
    show v: "value_ok (sub_ok env d) ?f (?p + unat (f_data_size ?f) * k) (w_mem s)"
      using ok h k by (simp add: field_ok_def Let_def list_all_iff)
    show "accepts (msg (f_ptr ?f) (?p + unat (f_data_size ?f) * k)) s" if "ltype ?f = PB_LTYPE_SUBMESSAGE"
      using f v that dest sub by (auto simp: typed_field_def value_ok_def)
  qed
  have e: "encode_field env n msg ?f ?p = encode_basic_field env n msg ?f ?p" using st by (simp add: encode_field_def)
  have out: "w_mem (s\<lparr>e_out := out\<rparr>) = w_mem s" for out by simp
  have o: "size_off fs i \<noteq> data_off fs i" if "htype ?f = PB_HTYPE_REPEATED \<or> htype ?f = PB_HTYPE_ONEOF"
    using rm that unfolding roomy_def Let_def by blast
  consider "htype ?f = PB_HTYPE_REQUIRED" | "htype ?f = PB_HTYPE_OPTIONAL" | "htype ?f = PB_HTYPE_REPEATED" | "htype ?f = PB_HTYPE_ONEOF"
    using htype_cases by blast
  then show ?thesis
  proof cases
    case 1
    then have "accepts (op_seq (on_out (pb_encode_tag_for_field ?f)) (pb_encoder msg ?f ?p)) s"
      using ok by (intro whole) (simp add: field_ok_def Let_def)
    then show ?thesis
      by (rule accepts_state) (use 1 st dest in \<open>simp add: e encode_basic_field_def Let_def\<close>)
  next
    case 2
    then have "accepts (op_seq (on_out (pb_encode_tag_for_field ?f)) (pb_encoder msg ?f ?p)) s"
      using ok by (intro whole) (simp add: field_ok_def Let_def)
    then show ?thesis
      using 2 st by (auto simp: e encode_basic_field_def Let_def accepts_def split: option.splits)
  next
    case 3
    have "accepts (encode_array ?f ?p (unat (mem_size (w_mem s) ?q)) (pb_encoder msg)) s" by (rule arr [OF 3])
    then show ?thesis
      by (rule accepts_state) (use 3 st o pl in \<open>simp add: e encode_basic_field_def Let_def\<close>)
  next
    case 4
    have "accepts (op_seq (on_out (pb_encode_tag_for_field ?f)) (pb_encoder msg ?f ?p)) s" if "mem_size (w_mem s) ?q = f_tag ?f"
      using ok 4 that by (intro whole) (simp add: field_ok_def Let_def)
    then have "accepts (\<lambda>t. if mem_size (w_mem s) ?q = f_tag ?f
        then op_seq (on_out (pb_encode_tag_for_field ?f)) (pb_encoder msg ?f ?p) t else (Some (), t)) s" by (rule accepts_opt)
    then show ?thesis
      by (rule accepts_state) (use 4 st o pl in \<open>simp add: e encode_basic_field_def Let_def\<close>)
  qed
qed

lemma accepts_loop:
  assumes l: "layout fs sz" "\<forall>f\<in>set (butlast fs). static_field f"
    and enc: "\<And>i. i < length fs - 1 \<Longrightarrow> accepts (enc (iter_at fs dest i)) s"
  shows "i < length fs - 1 \<Longrightarrow> accepts (encode_loop enc k (iter_at fs dest i)) s"
proof (induction k arbitrary: i)
  case (Suc k)
  then show ?case
    using enc [OF Suc.prems] iter_next_ok [OF l iter_ok_at [OF Suc.prems]]
    by (auto intro!: accepts_seq accepts_ret)
qed (simp add: accepts_ret)

lemma encode_accepts:
  "typed_msg env d fs sz \<Longrightarrow> d \<le> n \<Longrightarrow> 0 < dest \<Longrightarrow> message_ok env d fs dest (w_mem s) \<Longrightarrow> accepts (pb_encode env n fs dest) s"
proof (induction n arbitrary: d fs sz dest)
  case (Suc n)
  obtain e where d: "d = Suc e" using Suc.prems(1) by (blast elim: typed_msgE)
  have ty: "typed_msg env (Suc e) fs sz" and en: "e \<le> n" and ok: "message_ok env (Suc e) fs dest (w_mem s)"
    using Suc.prems unfolding d by (blast intro: Suc_le_mono [THEN iffD1])+
  have l: "layout fs sz" "\<forall>f\<in>set (butlast fs). static_field f" using ty by (blast elim: typed_msgE)+
  let ?msg = "\<lambda>ptr. pb_encode env n (env_fields env ptr)"
  let ?enc = "\<lambda>it. if ltype (it_field it) = PB_LTYPE_EXTENSION then encode_extension_field env (Suc n) ?msg (it_pData it)
      else encode_field env (Suc n) ?msg (it_field it) (it_pData it)"
  have enc: "accepts (?enc (iter_at fs dest i)) s" if i: "i < length fs - 1" for i
  proof -
    have "ltype (fs ! i) \<noteq> PB_LTYPE_EXTENSION"
      using typed_fields [OF ty i] static_field_atype by (simp add: typed_field_def)
    moreover have "accepts (encode_field env (Suc n) ?msg (fs ! i) (dest + data_off fs i)) s"
      using Suc.IH [OF _ en] by (intro accepts_field [OF ty i Suc.prems(3) message_okD [OF ok i]]) blast
    ultimately show ?thesis by simp
  qed
  show ?case
  proof (cases "1 < length fs")
    case True
    then show ?thesis
      using accepts_loop [where enc = ?enc, OF l enc, of 0 "length fs"] by (simp add: iter_begin_at [OF l(1) True] Let_def)
  next
    case False
    then have "f_tag (fs ! 0) = 0" using layout_last [OF l(1)] by simp
    then show ?thesis by (simp add: pb_field_iter_begin_def Let_def accepts_ret)
  qed
qed simp

section \<open>The claim\<close>

lemma example_typed: "typed_msg example_env 2 example_message 24" "typed_msg example_env 1 example_sub 4"
  by code_simp+



end
