(* ===== verification/PbContent.thy ===== *)
theory PbContent
  imports PbTyped
begin

unbundle bit_operations_syntax

text \<open>
  What a message in memory means: a tree of field values, without offsets, counts, flags and the bytes
  behind the end of a string. The wire format of such a tree is written out as a reference encoder,
  and the encoder of the code writes exactly that for every well-formed message.
\<close>

section \<open>Contents\<close>

text \<open>
  A submessage has a list of values for every field of its table: none for an absent field, one for a
  present one, and all those of an array.
\<close>

datatype pb_tree = Leaf bytes | Node "pb_tree list list"

text \<open>The value that an optional field without a flag of its own shows as its absence.\<close>

fun void :: "pb_field \<Rightarrow> pb_tree \<Rightarrow> bool" where
  "void f (Leaf b) = (if ltype f \<in> {6, 7, 10} then b = [] else list_all (\<lambda>x. x = 0) b)"
| "void f (Node fss) = list_all (\<lambda>vs. vs = []) fss"

definition value_content :: "(nat \<Rightarrow> nat \<Rightarrow> mem \<Rightarrow> pb_tree) \<Rightarrow> pb_field \<Rightarrow> nat \<Rightarrow> mem \<Rightarrow> pb_tree" where
  "value_content msg f p m =
     (if ltype f = PB_LTYPE_SUBMESSAGE then msg (f_ptr f) p m
      else Leaf (field_body (ltype f) (load_mem m p (unat (f_data_size f)))))"

definition field_content :: "(nat \<Rightarrow> nat \<Rightarrow> mem \<Rightarrow> pb_tree) \<Rightarrow> pb_field list \<Rightarrow> nat \<Rightarrow> nat \<Rightarrow> mem \<Rightarrow> pb_tree list" where
  "field_content msg fs dest i m =
     (let f = fs ! i; p = dest + data_off fs i; q = dest + size_off fs i;
          v = (\<lambda>k. value_content msg f (p + unat (f_data_size f) * k) m)
      in if htype f = PB_HTYPE_REQUIRED then [v 0]
         else if htype f = PB_HTYPE_OPTIONAL then if (if q = p then void f (v 0) else m q = 0) then [] else [v 0]
         else if htype f = PB_HTYPE_REPEATED then map v [0..<min (unat (mem_size m q)) (unat (f_array_size f))]
         else if mem_size m q = f_tag f then [v 0] else [])"

primrec message_content :: "'h pb_env \<Rightarrow> nat \<Rightarrow> pb_field list \<Rightarrow> nat \<Rightarrow> mem \<Rightarrow> pb_tree" where
  "message_content env 0 fs dest m = Node []"
| "message_content env (Suc d) fs dest m =
     Node (map (\<lambda>i. field_content (\<lambda>ptr. message_content env d (env_fields env ptr)) fs dest i m) [0..<length fs - 1])"

abbreviation sub_content :: "'h pb_env \<Rightarrow> nat \<Rightarrow> nat \<Rightarrow> nat \<Rightarrow> mem \<Rightarrow> pb_tree" where
  "sub_content env d \<equiv> \<lambda>ptr. message_content env d (env_fields env ptr)"

section \<open>The wire format of a tree\<close>

definition value_wire :: "(nat \<Rightarrow> pb_tree \<Rightarrow> bytes) \<Rightarrow> pb_field \<Rightarrow> pb_tree \<Rightarrow> bytes" where
  "value_wire msg f v =
     (case v of
        Leaf b \<Rightarrow> if ltype f \<in> {6, 7} then varint (length b) @ b else field_wire (ltype f) b
      | Node _ \<Rightarrow> let w = msg (f_ptr f) v in varint (length w) @ w)"

definition tag_wire :: "pb_field \<Rightarrow> nat \<Rightarrow> bytes" where
  "tag_wire f wt = varint (8 * unat (f_tag f) + wt)"

text \<open>Arrays of numbers are packed into one string.\<close>

definition values_wire :: "(nat \<Rightarrow> pb_tree \<Rightarrow> bytes) \<Rightarrow> pb_field \<Rightarrow> pb_tree list \<Rightarrow> bytes" where
  "values_wire msg f vs =
     (if htype f = PB_HTYPE_REPEATED \<and> ltype f \<le> PB_LTYPE_LAST_PACKABLE then
        if vs = [] then []
        else let w = concat (map (value_wire msg f) vs) in tag_wire f PB_WT_STRING @ varint (length w) @ w
      else concat (map (\<lambda>v. tag_wire f (wire_type_of (ltype f)) @ value_wire msg f v) vs))"

primrec message_wire :: "'h pb_env \<Rightarrow> nat \<Rightarrow> pb_field list \<Rightarrow> pb_tree \<Rightarrow> bytes" where
  "message_wire env 0 fs t = []"
| "message_wire env (Suc d) fs t =
     (case t of Leaf _ \<Rightarrow> []
      | Node fss \<Rightarrow> concat (map2 (values_wire (\<lambda>ptr. message_wire env d (env_fields env ptr))) (butlast fs) fss))"

abbreviation sub_wire :: "'h pb_env \<Rightarrow> nat \<Rightarrow> nat \<Rightarrow> pb_tree \<Rightarrow> bytes" where
  "sub_wire env d \<equiv> \<lambda>ptr. message_wire env d (env_fields env ptr)"

lemma message_wire_content:
  "message_wire env (Suc d) fs (message_content env (Suc d) fs dest m)
    = concat (map (\<lambda>i. values_wire (sub_wire env d) (fs ! i) (field_content (sub_content env d) fs dest i m)) [0..<length fs - 1])"
proof -
  have b: "butlast fs = map ((!) fs) [0..<length fs - 1]" by (intro nth_equalityI) (simp_all add: nth_butlast)
  show ?thesis by (simp add: b zip_map_map zip_same_conv_map comp_def)
qed

text \<open>A field's content looks only at the field's own bytes.\<close>

lemma value_content_local:
  assumes "\<And>a. a \<in> region p (unat (f_data_size f)) \<Longrightarrow> m a = m' a"
    and "ltype f = PB_LTYPE_SUBMESSAGE \<Longrightarrow> msg (f_ptr f) p m = msg (f_ptr f) p m'"
  shows "value_content msg f p m = value_content msg f p m'"
proof -
  have "load_mem m p (unat (f_data_size f)) = load_mem m' p (unat (f_data_size f))"
    by (rule load_mem_cong) (use assms(1) in \<open>simp add: region_def\<close>)
  then show ?thesis using assms(2) by (simp add: value_content_def)
qed

lemma field_content_local:
  assumes eq: "\<And>a. a \<in> area fs dest i \<Longrightarrow> m a = m' a"
    and msg: "\<And>p. ltype (fs ! i) = PB_LTYPE_SUBMESSAGE \<Longrightarrow> region p (unat (f_data_size (fs ! i))) \<subseteq> area fs dest i
      \<Longrightarrow> msg (f_ptr (fs ! i)) p m = msg (f_ptr (fs ! i)) p m'"
  shows "field_content msg fs dest i m = field_content msg fs dest i m'"
proof -
  let ?f = "fs ! i" and ?p = "dest + data_off fs i" and ?q = "dest + size_off fs i"
  have v: "value_content msg ?f (?p + unat (f_data_size ?f) * k) m = value_content msg ?f (?p + unat (f_data_size ?f) * k) m'"
    if "k < item_room ?f" for k
  proof (rule value_content_local)
    note r = item_region [OF that, of dest, folded region_def]
    show "m a = m' a" if "a \<in> region (?p + unat (f_data_size ?f) * k) (unat (f_data_size ?f))" for a using that r eq by blast
    show "msg (f_ptr ?f) (?p + unat (f_data_size ?f) * k) m = msg (f_ptr ?f) (?p + unat (f_data_size ?f) * k) m'"
      if "ltype ?f = PB_LTYPE_SUBMESSAGE" using that r by (intro msg)
  qed
  have q: "mem_size m ?q = mem_size m' ?q" if "size_width fs i = 4"
    using that size_region [of dest fs i] by (intro mem_size_cong eq) auto
  have o: "m ?q = m' ?q" if "htype ?f = PB_HTYPE_OPTIONAL" "?q \<noteq> ?p"
    using that size_region [of dest fs i] by (intro eq) (auto simp: size_width_def)
  show ?thesis
    using q o v v [of 0] htype_cases [of "f_type ?f"]
    by (auto simp: field_content_def Let_def item_room_def size_width_def)
qed

lemma message_content_local:
  "typed_msg env d fs sz \<Longrightarrow> (\<And>a. a \<in> region dest sz \<Longrightarrow> m a = m' a)
    \<Longrightarrow> message_content env d fs dest m = message_content env d fs dest m'"
proof (induction d arbitrary: fs sz dest)
  case (Suc d)
  have lay: "layout fs sz" using Suc.prems(1) by simp
  have "field_content (sub_content env d) fs dest i m = field_content (sub_content env d) fs dest i m'" if i: "i < length fs - 1" for i
  proof (rule field_content_local)
    note r = area_region [OF lay i, of dest] and f = typed_fields [OF Suc.prems(1) i]
    show "m a = m' a" if "a \<in> area fs dest i" for a using that r Suc.prems(2) by blast
    show "sub_content env d (f_ptr (fs ! i)) p m = sub_content env d (f_ptr (fs ! i)) p m'"
      if "ltype (fs ! i) = PB_LTYPE_SUBMESSAGE" "region p (unat (f_data_size (fs ! i))) \<subseteq> area fs dest i" for p
      using f that r Suc.prems(2) unfolding typed_field_def by (intro Suc.IH) blast+
  qed
  then show ?case by simp
qed simp

section \<open>Writing on any stream with room\<close>

definition encodes :: "('h estate, unit) opn \<Rightarrow> 'h estate \<Rightarrow> bytes \<Rightarrow> bool" where
  "encodes f s w \<longleftrightarrow> (\<forall>out. os_errmsg out = None \<longrightarrow> os_fits w out
     \<longrightarrow> f (s\<lparr>e_out := out\<rparr>) = (Some (), s\<lparr>e_out := os_put w out\<rparr>))"

lemma encodesD: "encodes f s w \<Longrightarrow> os_errmsg out = None \<Longrightarrow> os_fits w out
    \<Longrightarrow> f (s\<lparr>e_out := out\<rparr>) = (Some (), s\<lparr>e_out := os_put w out\<rparr>)"
  by (simp add: encodes_def)

lemma os_put_Nil [simp]: "os_put [] out = out"
  by (simp add: os_put_def)

lemma os_put_simps [simp]: "os_errmsg (os_put w out) = os_errmsg out" "os_callback (os_put w out) = os_callback out"
  by (simp_all add: os_put_def)

lemma encodes_on_out: "(\<And>out. os_fits w out \<Longrightarrow> g out = (Some (), os_put w out)) \<Longrightarrow> encodes (on_out g) s w"
  by (simp add: encodes_def on_out_def)

lemma encodes_write: "encodes (on_out (pb_write w)) s w"
  by (intro encodes_on_out pb_write_fits)

lemma encodes_varint: "encodes (on_out (pb_encode_varint v)) s (varint (unat v))"
  by (simp add: pb_encode_varint_eq encodes_write)

lemma encodes_ret: "encodes (op_ret ()) s []"
  by (simp add: encodes_def op_ret_def)

lemma encodes_seq: "encodes f s v \<Longrightarrow> encodes g s w \<Longrightarrow> encodes (op_seq f g) s (v @ w)"
  using os_fits_append unfolding encodes_def op_seq_def op_bind_def by (simp add: os_put_append)

lemma encodes_state: "encodes f s w \<Longrightarrow> (\<And>out. g (s\<lparr>e_out := out\<rparr>) = f (s\<lparr>e_out := out\<rparr>)) \<Longrightarrow> encodes g s w"
  by (simp add: encodes_def)

lemma encodes_if: "(b \<Longrightarrow> encodes f s w) \<Longrightarrow> (\<not> b \<Longrightarrow> encodes g s w) \<Longrightarrow> encodes (if b then f else g) s w"
  by simp

lemma encodes_items:
  assumes "\<And>i. i < n \<Longrightarrow> encodes (item (p + k * i)) s (w i)"
  shows "encodes (encode_items item k p n) s (concat (map w [0..<n]))"
proof -
  have "encodes (foldr (\<lambda>i. op_seq (item (p + k * i))) xs (op_ret ())) s (concat (map w xs))" if "set xs \<subseteq> {0..<n}" for xs
    using that by (induction xs) (auto intro: encodes_ret encodes_seq assms)
  then show ?thesis by (simp add: encode_items_def)
qed

text \<open>On a stream that only counts, and in two passes.\<close>

lemma encodes_sizing:
  assumes "encodes f s w" "length w < 2 ^ 64"
  shows "f (s\<lparr>e_out := PB_OSTREAM_SIZING\<rparr>) = (Some (), s\<lparr>e_out := os_put w PB_OSTREAM_SIZING\<rparr>)"
    and "os_bytes_written (os_put w PB_OSTREAM_SIZING) = of_nat (length w)"
    and "unat (of_nat (length w) :: u64) = length w"
  using assms by (simp_all add: encodes_def PB_OSTREAM_SIZING_def os_fits_def os_put_def unat_of_nat)

lemma count_only_put: "\<not> os_callback out \<Longrightarrow> count_only (of_nat (length w)) (s\<lparr>e_out := out\<rparr>) = (Some (), s\<lparr>e_out := os_put w out\<rparr>)"
  by (simp add: count_only_def on_out_def os_put_def)

lemma varint_nonempty [simp]: "varint n \<noteq> []"
  by (subst varint.simps) simp

lemma encodes_submessage:
  assumes "encodes (msg src) s w"
  shows "encodes (pb_encode_submessage msg src) s (varint (length w) @ w)"
  unfolding encodes_def
proof (intro allI impI)
  fix out :: pb_ostream assume out: "os_errmsg out = None" and fits: "os_fits (varint (length w) @ w) out"
  have len: "length w < 2 ^ 64" using fits by (simp add: os_fits_def)
  note sz = encodes_sizing [OF assms len]
  let ?out = "os_put (varint (length w)) out"
  have v: "on_out (pb_encode_varint (of_nat (length w))) (s\<lparr>e_out := out\<rparr>) = (Some (), s\<lparr>e_out := ?out\<rparr>)"
    using encodesD [OF encodes_varint out, of "of_nat (length w)" s] os_fits_append(1) [OF fits] sz(3) by simp
  show "pb_encode_submessage msg src (s\<lparr>e_out := out\<rparr>) = (Some (), s\<lparr>e_out := os_put (varint (length w) @ w) out\<rparr>)"
  proof (cases "os_callback out")
    case False
    then show ?thesis
      using sz(1,2) v count_only_put [of ?out w s]
      by (simp add: pb_encode_submessage_def op_bind_def op_seq_def on_ostream_def os_put_append Let_def)
  next
    case True
    have n: "unat (os_bytes_written ?out + of_nat (length w)) = unat (os_bytes_written out) + length (varint (length w) @ w)"
      and room: "unat (os_bytes_written out) + length (varint (length w) @ w) \<le> unat (os_max_size out)"
      using fits True unat_u64_bound [of "os_max_size out"]
      by (simp_all add: os_fits_def os_put_def unat_word_ariths unat_of_nat mod_simps)
    then have "\<not> os_max_size out < os_bytes_written ?out + of_nat (length w)" by (simp add: word_less_nat_alt)
    then have room': "\<not> os_max_size ?out < os_bytes_written ?out + of_nat (length w)" by (simp add: os_put_def)
    let ?sub = "\<lparr>os_callback = True, os_state = os_state ?out, os_max_size = of_nat (length w), os_bytes_written = 0, os_errmsg = None\<rparr>"
    have "os_fits w ?sub" using len sz(3) by (simp add: os_fits_def)
    then have m: "msg src (s\<lparr>e_out := ?sub\<rparr>) = (Some (), s\<lparr>e_out := os_put w ?sub\<rparr>)" by (intro encodesD [OF assms]) simp_all
    have sub: "(os_put w PB_OSTREAM_SIZING)\<lparr>os_callback := True, os_state := os_state ?out,
        os_max_size := of_nat (length w), os_bytes_written := 0, os_errmsg := None\<rparr> = ?sub" by simp
    have "?out\<lparr>os_bytes_written := os_bytes_written ?out + os_bytes_written (os_put w ?sub), os_state := os_state (os_put w ?sub),
        os_errmsg := None\<rparr> = os_put (varint (length w) @ w) out"
      using True out by (simp add: os_put_def add.assoc)
    then show ?thesis
      using True sz(1,2) v m room' sub
      by (simp add: pb_encode_submessage_def op_bind_def op_seq_def on_ostream_def op_check_def op_ret_def Let_def) (simp add: os_put_def PB_OSTREAM_SIZING_def op_check_def op_ret_def add.assoc)
  qed
qed

section \<open>Values\<close>

definition wire_field :: "'h pb_env \<Rightarrow> nat \<Rightarrow> pb_field \<Rightarrow> bool" where
  "wire_field env d f \<longleftrightarrow> typed_field env d f \<and> f_tag f \<noteq> 0 \<and> unat (f_tag f) < 2 ^ 29 \<and> (ltype f = 10 \<longrightarrow> 1 \<le> unat (f_data_size f))"

lemma wire_fields:
  assumes "typed_msg env (Suc d) fs sz" "i < length fs - 1"
  shows "wire_field env d (fs ! i)"
proof -
  have "layout fs sz" "roomy fs i" using assms tidy_roomy by simp_all
  then have "f_tag (fs ! i) < 0x20000000" "f_tag (fs ! i) \<noteq> 0" "ltype (fs ! i) = 10 \<longrightarrow> 1 \<le> unat (f_data_size (fs ! i))"
    using layout_tag [OF _ assms(2)] unfolding roomy_def Let_def by blast+
  then show ?thesis using typed_fields [OF assms] by (simp add: wire_field_def word_less_nat_alt)
qed

lemma wire_field_static: "wire_field env d f \<Longrightarrow> atype f = PB_ATYPE_STATIC \<and> static_field f"
  using static_field_atype by (auto simp: wire_field_def typed_field_def)

lemma wire_field_types:
  assumes "wire_field env d f"
  shows "ltype f \<in> {0, 1, 2, 3, 4, 5, 6, 7, 8, 10}" "ltype f = 0 \<Longrightarrow> unat (f_data_size f) = 1" "ltype f \<in> {1, 2, 3} \<Longrightarrow> int_size f"
    "ltype f = 4 \<Longrightarrow> unat (f_data_size f) = 4" "ltype f = 5 \<Longrightarrow> unat (f_data_size f) = 8" "ltype f = 8 \<Longrightarrow> f_ptr f \<noteq> 0"
    "ltype f = 6 \<Longrightarrow> 4 \<le> unat (f_data_size f)"
  using assms by (auto simp: wire_field_def typed_field_def static_field_def Let_def)

lemma mem_size_load: "mem_size m p = ucast (load_u (load_mem m p 4))"
  by (simp add: mem_size_def)

lemma bytes_size: "4 \<le> n \<Longrightarrow> unat (load_u (take 4 (load_mem m p n))) = unat (mem_size m p)"
  by (simp add: take_load_mem mem_size_load ucast_load_u_4)

lemma value_memory_ok:
  assumes f: "wire_field env d f" and ok: "value_ok msg f p m" and t: "ltype f \<noteq> PB_LTYPE_SUBMESSAGE"
  shows "memory_ok (ltype f) f (load_mem m p (unat (f_data_size f)))"
proof -
  let ?n = "unat (f_data_size f)"
  note ty = wire_field_types [OF f] and st = wire_field_static [OF f]
  have one: "load_mem m p 1 = [m p]" by (simp add: load_mem_def)
  have str: "0 \<in> set (load_mem m p ?n)" if "list_ex (\<lambda>k. m (p + k) = 0) [0..<?n]"
    using that nth_mem [of _ "load_mem m p ?n"] by (force simp: list_ex_iff)
  have ne: "load_mem m p ?n \<noteq> []" if "ltype f = 10" using f that by (auto simp: wire_field_def simp flip: length_greater_0_conv)
  from ty(1) t consider "ltype f = 0" | "ltype f \<in> {1, 2, 3}" | "ltype f = 4" | "ltype f = 5" | "ltype f = 6" | "ltype f = 7" | "ltype f = 10"
    by auto
  then show ?thesis
  proof cases
    case 5
    then show ?thesis using ok ty(7) st bytes_size [of ?n m p] by (simp add: memory_ok_def value_ok_def)
  qed (use ok ty str ne st one in \<open>auto simp: memory_ok_def value_ok_def Let_def\<close>)
qed

lemma value_wire_leaf:
  "ltype f \<noteq> PB_LTYPE_SUBMESSAGE
    \<Longrightarrow> value_wire w f (value_content msg f p m) = field_wire (ltype f) (load_mem m p (unat (f_data_size f)))"
  by (auto simp: value_wire_def value_content_def field_wire_def field_body_def)

lemma value_wire_sub:
  assumes "ltype f = PB_LTYPE_SUBMESSAGE"
  shows "value_wire (sub_wire env d) f (value_content (sub_content env d) f p m)
    = (let w = sub_wire env d (f_ptr f) (sub_content env d (f_ptr f) p m) in varint (length w) @ w)"
proof -
  obtain fss where "sub_content env d (f_ptr f) p m = Node fss" by (cases d) simp_all
  then show ?thesis using assms by (simp add: value_content_def value_wire_def)
qed

lemma mem_strnlen_takeWhile:
  "sz \<le> n \<Longrightarrow> mem_strnlen m p n sz = sz + length (takeWhile (\<lambda>c. c \<noteq> 0) (load_mem m (p + sz) (n - sz)))"
proof (induction m p n sz rule: mem_strnlen.induct)
  case (1 m p n sz)
  show ?case
  proof (cases "sz < n")
    case True
    then have "load_mem m (p + sz) (n - sz) = m (p + sz) # load_mem m (p + (sz + 1)) (n - (sz + 1))"
      by (intro nth_equalityI) (auto simp: nth_Cons')
    then show ?thesis using 1 True by (subst mem_strnlen.simps) simp
  qed (use 1 in \<open>subst mem_strnlen.simps, simp\<close>)
qed

lemma encodes_string_from:
  assumes f: "wire_field env d f" "ltype f = PB_LTYPE_STRING" and p: "0 < p"
  shows "encodes (pb_enc_string_from f p) s (field_wire 7 (load_mem (w_mem s) p (unat (f_data_size f))))"
proof (rule encodes_state)
  let ?n = "unat (f_data_size f)"
  define b where "b = takeWhile (\<lambda>c. c \<noteq> 0) (load_mem (w_mem s) p ?n)"
  have len: "length b \<le> ?n" using length_takeWhile_le [of _ "load_mem (w_mem s) p ?n"] by (simp add: b_def)
  have get: "get p (mem_strnlen (w_mem s) p ?n 0) s = b"
    using take_load_mem [OF len, of "w_mem s" p] takeWhile_eq_take [of "\<lambda>c. c \<noteq> 0" "load_mem (w_mem s) p ?n"]
    by (simp add: get_def mem_strnlen_takeWhile b_def)
  have u: "unat (ucast (f_data_size f) :: u64) = ?n"
    using unat_u32_bound [of "f_data_size f"] by (simp add: unsigned_ucast_eq take_bit_eq_mod)
  have whole: "takeWhile (\<lambda>c. c \<noteq> 0) b = b" by (simp add: b_def)
  have "pb_strnlen 0 (ucast (f_data_size f)) b = 0 + length (takeWhile (\<lambda>c. c \<noteq> 0) b)"
    using len u unat_u32_bound [of "f_data_size f"] by (intro pb_strnlen_eq) simp_all
  then have "pb_strnlen 0 (ucast (f_data_size f)) b = length b" unfolding whole by simp
  then have enc: "pb_enc_string f (Some b) = pb_encode_string b"
    using wire_field_static [OF f(1)] by (simp add: pb_enc_string_def)
  show "encodes (on_out (pb_enc_string f (Some b))) s (field_wire 7 (load_mem (w_mem s) p ?n))"
    unfolding enc using len unat_u32_bound [of "f_data_size f"]
    by (intro encodes_on_out) (simp add: field_wire_def field_body_def b_def [symmetric] pb_encode_string_put)
  show "pb_enc_string_from f p (s\<lparr>e_out := out\<rparr>) = on_out (pb_enc_string f (Some b)) (s\<lparr>e_out := out\<rparr>)" for out
    using p get wire_field_static [OF f(1)] by (simp add: pb_enc_string_from_def)
qed

lemma encodes_table:
  assumes f: "wire_field env d f" and ok: "value_ok msg' f p (w_mem s)" and t: "ltype f \<notin> {7, 8}" and p: "0 < p"
  shows "encodes (pb_encoder msg f p) s (field_wire (ltype f) (load_mem (w_mem s) p (unat (f_data_size f))))"
proof -
  let ?n = "unat (f_data_size f)" and ?src = "load_mem (w_mem s) p (unat (f_data_size f))"
  have mok: "memory_ok (ltype f) f ?src" using value_memory_ok [OF f ok] t by simp
  obtain enc where enc: "PB_ENCODERS (ltype f) = Some enc" using wire_field_types(1) [OF f] t by (auto simp: PB_ENCODERS_def)
  note put = PB_ENCODERS_put [OF enc mok]
  have e: "pb_encoder msg f p (s\<lparr>e_out := out\<rparr>) = on_out (enc f ?src) (s\<lparr>e_out := out\<rparr>)" for out
  proof (cases "ltype f = 6")
    case True
    then have n: "4 \<le> ?n" "unat (mem_size (w_mem s) p) + 4 \<le> ?n"
      using ok wire_field_types(7) [OF f] by (simp_all add: value_ok_def)
    have "take (unat (mem_size (w_mem s) p)) (drop 4 ?src) = load_mem (w_mem s) (p + 4) (unat (mem_size (w_mem s) p))"
      using n by (simp add: drop_load_mem take_load_mem)
    moreover have "ucast (load_u (take 4 ?src)) = mem_size (w_mem s) p" using n by (simp add: take_load_mem mem_size_load)
    ultimately show ?thesis
      using True enc p by (auto simp: pb_encoder_def PB_ENCODERS_def pb_enc_bytes_from_def pb_enc_bytes_def get_def Let_def on_out_def)
  next
    case False
    then show ?thesis
      using enc wire_field_types [OF f] t
      by (auto simp: pb_encoder_def PB_ENCODERS_def enc_from_def get_def split: if_splits)
  qed
  show ?thesis by (rule encodes_state [OF encodes_on_out [OF put] e])
qed

lemma encoder_encodes:
  assumes f: "wire_field env d f" and ok: "value_ok (sub_ok env d) f p (w_mem s)" and p: "0 < p"
    and sub: "ltype f = PB_LTYPE_SUBMESSAGE
      \<Longrightarrow> encodes (msg (f_ptr f) p) s (sub_wire env d (f_ptr f) (sub_content env d (f_ptr f) p (w_mem s)))"
  shows "encodes (pb_encoder msg f p) s (value_wire (sub_wire env d) f (value_content (sub_content env d) f p (w_mem s)))"
proof -
  consider "ltype f \<notin> {7, 8}" | "ltype f = 7" | "ltype f = 8" by blast
  then show ?thesis
  proof cases
    case 1
    then show ?thesis using encodes_table [OF f ok 1 p] by (simp add: value_wire_leaf)
  next
    case 2
    then show ?thesis using encodes_string_from [OF f 2 p] by (simp add: value_wire_leaf pb_encoder_def)
  next
    case 3
    then show ?thesis
      using encodes_submessage [of "msg (f_ptr f)", OF sub [OF 3]] wire_field_types(6) [OF f]
      by (simp add: value_wire_sub pb_encoder_def pb_enc_submessage_def Let_def)
  qed
qed

section \<open>Arrays\<close>

lemma tag_for_field_put:
  assumes "wire_field env d f"
  shows "pb_encode_tag_for_field f = pb_write (tag_wire f (wire_type_of (ltype f)))"
  using wire_field_types(1) [OF assms]
  by (auto simp: pb_encode_tag_for_field_def wire_type_of_def tag_wire_def pb_encode_tag_eq)

text \<open>The values of an array, packed with their length or each with its tag.\<close>

lemma encodes_packed:
  assumes items: "encodes items s w" and sz: "\<And>out. length w < 2 ^ 64 \<Longrightarrow> size_of (s\<lparr>e_out := out\<rparr>) = (Some (of_nat (length w)), s\<lparr>e_out := out\<rparr>)"
  shows "encodes (op_bind size_of (\<lambda>sz. op_seq (on_out (pb_encode_varint sz))
    (\<lambda>s. if \<not> os_callback (e_out s) then count_only sz s else items s))) s (varint (length w) @ w)"
  unfolding encodes_def
proof (intro allI impI)
  fix out :: pb_ostream assume out: "os_errmsg out = None" and fits: "os_fits (varint (length w) @ w) out"
  have len: "length w < 2 ^ 64" using fits by (simp add: os_fits_def)
  then have u: "unat (of_nat (length w) :: u64) = length w" by (simp add: unat_of_nat)
  let ?g = "\<lambda>s. if \<not> os_callback (e_out s) then count_only (of_nat (length w)) s else items s"
  have "encodes ?g s w"
    using items count_only_put by (auto simp: encodes_def)
  then have "encodes (op_seq (on_out (pb_encode_varint (of_nat (length w)))) ?g) s (varint (length w) @ w)"
    using encodes_seq [OF encodes_varint, of ?g s w "of_nat (length w)"] u by simp
  from encodesD [OF this out fits]
  show "op_bind size_of (\<lambda>sz. op_seq (on_out (pb_encode_varint sz))
      (\<lambda>s. if \<not> os_callback (e_out s) then count_only sz s else items s)) (s\<lparr>e_out := out\<rparr>)
    = (Some (), s\<lparr>e_out := os_put (varint (length w) @ w) out\<rparr>)"
    by (simp add: op_bind_def sz [OF len])
qed

lemma length_concat_same: "(\<And>x. x \<in> set xs \<Longrightarrow> length (g x) = k) \<Longrightarrow> length (concat (map g xs)) = k * length xs"
  by (induction xs) simp_all

lemma encodes_array:
  fixes s :: "'h estate"
  assumes f: "wire_field env d f" and h: "htype f = PB_HTYPE_REPEATED" and n: "n \<le> unat (f_array_size f)"
    and p: "0 < p"
    and ok: "\<And>k. k < n \<Longrightarrow> value_ok (sub_ok env d) f (p + unat (f_data_size f) * k) (w_mem s)"
    and sub: "\<And>q. ltype f = PB_LTYPE_SUBMESSAGE \<Longrightarrow> 0 < q \<Longrightarrow> value_ok (sub_ok env d) f q (w_mem s)
      \<Longrightarrow> encodes (msg (f_ptr f) q) s (sub_wire env d (f_ptr f) (sub_content env d (f_ptr f) q (w_mem s)))"
  shows "encodes (encode_array f p n (pb_encoder msg)) s (values_wire (sub_wire env d) f
    (map (\<lambda>k. value_content (sub_content env d) f (p + unat (f_data_size f) * k) (w_mem s)) [0..<n]))"
proof -
  let ?v = "\<lambda>k. value_content (sub_content env d) f (p + unat (f_data_size f) * k) (w_mem s)"
  let ?w = "\<lambda>k. value_wire (sub_wire env d) f (?v k)"
  let ?items = "encode_items (pb_encoder msg f) (unat (f_data_size f)) p n"
  note st = wire_field_static [OF f]
  have enc: "encodes (pb_encoder msg f (p + unat (f_data_size f) * k)) s (?w k)" if "k < n" for k
    by (rule encoder_encodes [OF f ok [OF that]]) (use p sub ok [OF that] in simp_all)
  have items: "encodes ?items s (concat (map ?w [0..<n]))" by (rule encodes_items) (rule enc)
  consider "n = 0" | "n \<noteq> 0" "ltype f \<le> 5" | "n \<noteq> 0" "\<not> ltype f \<le> 5" by blast
  then show ?thesis
  proof cases
    case 1
    then show ?thesis by (simp add: encode_array_def values_wire_def encodes_ret)
  next
    case 2
    let ?body = "concat (map ?w [0..<n])"
    let ?sz = "if ltype f = 4 then op_ret (of_nat (4 * n)) else if ltype f = 5 then op_ret (of_nat (8 * n))
      else op_bind (on_ostream PB_OSTREAM_SIZING ?items) (\<lambda>(ok, sub). op_seq (op_check ok) (op_ret (os_bytes_written sub)))"
    have "length ?body = 4 * n" if "ltype f = 4"
      using length_concat_same [of "[0..<n]" ?w 4] wire_field_types(4) [OF f] that by (simp add: value_wire_leaf field_wire_def)
    moreover have "length ?body = 8 * n" if "ltype f = 5"
      using length_concat_same [of "[0..<n]" ?w 8] wire_field_types(5) [OF f] that by (simp add: value_wire_leaf field_wire_def)
    moreover have "on_ostream PB_OSTREAM_SIZING ?items (s\<lparr>e_out := out\<rparr>)
        = (Some (True, os_put ?body PB_OSTREAM_SIZING), s\<lparr>e_out := out\<rparr>)" if "length ?body < 2 ^ 64" for out
      using encodes_sizing(1) [OF items that] by (simp add: on_ostream_def)
    ultimately have sz: "?sz (s\<lparr>e_out := out\<rparr>) = (Some (of_nat (length ?body)), s\<lparr>e_out := out\<rparr>)" if "length ?body < 2 ^ 64" for out
      using encodes_sizing(2) [OF items that] that
      by (simp add: op_ret_def op_bind_def op_seq_def op_check_def del: of_nat_mult)
    have "encodes (on_out (pb_encode_tag PB_WT_STRING (f_tag f))) s (tag_wire f PB_WT_STRING)"
      by (simp add: pb_encode_tag_eq tag_wire_def encodes_write)
    from encodes_seq [OF this encodes_packed [OF items sz]]
    show ?thesis using 2 n h st by (simp add: encode_array_def values_wire_def Let_def comp_def)
  next
    case 3
    have "encodes (op_seq (on_out (pb_encode_tag_for_field f)) (pb_encoder msg f (p + unat (f_data_size f) * k))) s
        (tag_wire f (wire_type_of (ltype f)) @ ?w k)" if "k < n" for k
      unfolding tag_for_field_put [OF f] by (intro encodes_seq encodes_write enc that)
    then have "encodes (encode_items (\<lambda>q. op_seq (on_out (pb_encode_tag_for_field f)) (pb_encoder msg f q)) (unat (f_data_size f)) p n) s
        (concat (map (\<lambda>k. tag_wire f (wire_type_of (ltype f)) @ ?w k) [0..<n]))" by (rule encodes_items)
    then show ?thesis using 3 n h st by (simp add: encode_array_def values_wire_def Let_def comp_def)
  qed
qed

section \<open>The test for default values\<close>

lemma all_fields_at:
  assumes "layout fs sz" "\<forall>f\<in>set (butlast fs). static_field f"
  shows "i < length fs - 1 \<Longrightarrow> length fs - 1 - i \<le> k
    \<Longrightarrow> all_fields test k (iter_at fs dest i) \<longleftrightarrow> (\<forall>j<length fs - 1. i \<le> j \<longrightarrow> test (iter_at fs dest j))"
proof (induction k arbitrary: i)
  case (Suc k)
  have split: "(\<forall>j<length fs - 1. i \<le> j \<longrightarrow> P j) \<longleftrightarrow> P i \<and> (\<forall>j<length fs - 1. Suc i \<le> j \<longrightarrow> P j)" for P
    using Suc.prems(1) by (metis Suc_leD le_antisym not_less_eq_eq order_refl)
  show ?case
    unfolding split using Suc.IH [of "Suc i"] Suc.prems iter_next_ok [OF assms iter_ok_at [OF Suc.prems(1)]]
    by (cases "Suc i < length fs - 1") auto
qed simp

lemma leaf_void:
  assumes f: "wire_field env d f" and rm: "ltype f = PB_LTYPE_STRING \<Longrightarrow> 1 \<le> unat (f_data_size f)"
    and ok: "value_ok msg f p m" and t: "ltype f \<noteq> PB_LTYPE_SUBMESSAGE"
  shows "void f (value_content msg' f p m) \<longleftrightarrow>
    (if ltype f = PB_LTYPE_BYTES then mem_size m p = 0 else if ltype f = PB_LTYPE_STRING then m p = 0
     else if ltype f = 10 then f_data_size f = 0 else list_all (\<lambda>b. b = 0) (load_mem m p (unat (f_data_size f))))"
proof -
  let ?n = "unat (f_data_size f)"
  consider "ltype f = 6" | "ltype f = 7" | "ltype f = 10" | "ltype f \<notin> {6, 7, 8, 10}" using t by blast
  then show ?thesis
  proof cases
    case 1
    then have "4 + unat (mem_size m p) \<le> ?n" using ok by (simp add: value_ok_def)
    then have "length (field_body 6 (load_mem m p ?n)) = unat (mem_size m p)" by (simp add: field_body_def bytes_size)
    then have "field_body 6 (load_mem m p ?n) = [] \<longleftrightarrow> mem_size m p = 0" by (metis length_0_conv unat_eq_0)
    then show ?thesis using 1 by (simp add: value_content_def)
  next
    case 2
    then have "load_mem m p ?n = m p # load_mem m (Suc p) (?n - 1)"
      using rm load_mem_add [of m p 1 "?n - 1"] by (simp add: load_mem_def)
    then show ?thesis using 2 by (simp add: value_content_def field_body_def)
  next
    case 3
    then have "load_mem m p ?n \<noteq> []" "f_data_size f \<noteq> 0"
      using f by (auto simp: wire_field_def simp flip: length_greater_0_conv)
    then show ?thesis using 3 by (simp add: value_content_def field_body_def)
  next
    case 4
    then show ?thesis by (simp add: value_content_def field_body_def)
  qed
qed

text \<open>A union that is not empty shows one of its members.\<close>

lemma union_member:
  assumes "union_ok fs i (mem_size m (dest + size_off fs i))" "mem_size m (dest + size_off fs i) \<noteq> 0"
  obtains j where "j < length fs - 1" "same_union fs i j" "field_content msg fs dest j m \<noteq> []"
proof -
  obtain j where j: "j < length fs - 1" "same_union fs i j" "mem_size m (dest + size_off fs i) = f_tag (fs ! j)"
    using assms by (auto simp: union_ok_def list_ex_iff)
  then have "field_content msg fs dest j m \<noteq> []" by (simp add: same_union_def field_content_def Let_def)
  then show ?thesis using that j by blast
qed

definition check_agrees :: "'h pb_env \<Rightarrow> nat \<Rightarrow> nat \<Rightarrow> pb_field list \<Rightarrow> nat \<Rightarrow> nat \<Rightarrow> 'h estate \<Rightarrow> bool" where
  "check_agrees env d n fs dest i s \<longleftrightarrow> pb_check_proto3_default_value env s n (fs ! i) (dest + data_off fs i)
     = (if htype (fs ! i) = PB_HTYPE_ONEOF then mem_size (w_mem s) (dest + size_off fs i) = 0
        else field_content (sub_content env d) fs dest i (w_mem s) = [])"

lemma message_void:
  assumes ty: "typed_msg env (Suc d) fs sz" and ok: "message_ok env (Suc d) fs dest (w_mem s)"
    and check: "\<And>i. i < length fs - 1 \<Longrightarrow> check_agrees env d n fs dest i s"
  shows "(case pb_field_iter_begin fs dest of (nonempty, it) \<Rightarrow>
      \<not> nonempty \<or> all_fields (\<lambda>it. pb_check_proto3_default_value env s n (it_field it) (it_pData it)) (length fs) it)
    \<longleftrightarrow> void f (message_content env (Suc d) fs dest (w_mem s))"
proof -
  have l: "layout fs sz" "\<forall>f\<in>set (butlast fs). static_field f" using ty by (blast elim: typed_msgE)+
  let ?c = "\<lambda>i. pb_check_proto3_default_value env s n (fs ! i) (dest + data_off fs i)"
  let ?e = "\<lambda>i. field_content (sub_content env d) fs dest i (w_mem s) = []"
  have one: "?e i" if "?c i" "i < length fs - 1" for i
    using check [OF that(2)] that layout_tag [OF l(1) that(2)]
    by (auto simp: check_agrees_def field_content_def Let_def split: if_splits)
  have all: "?c i" if e: "\<forall>j<length fs - 1. ?e j" and i: "i < length fs - 1" for i
  proof (cases "htype (fs ! i) = PB_HTYPE_ONEOF")
    case True
    have u: "union_ok fs i (mem_size (w_mem s) (dest + size_off fs i))"
      using message_okD [OF ok i] True by (simp add: field_ok_def Let_def)
    then have "mem_size (w_mem s) (dest + size_off fs i) = 0"
      using e by (metis union_member)
    then show ?thesis using check [OF i] True by (simp add: check_agrees_def)
  next
    case False
    then show ?thesis using check [OF i] e i by (simp add: check_agrees_def)
  qed
  have "(case pb_field_iter_begin fs dest of (nonempty, it) \<Rightarrow>
      \<not> nonempty \<or> all_fields (\<lambda>it. pb_check_proto3_default_value env s n (it_field it) (it_pData it)) (length fs) it)
    \<longleftrightarrow> (\<forall>i<length fs - 1. ?c i)"
  proof (cases "1 < length fs")
    case True
    then show ?thesis using all_fields_at [OF l, of 0 "length fs"] by (simp add: iter_begin_at [OF l(1) True])
  next
    case False
    then have "f_tag (fs ! 0) = 0" using layout_last [OF l(1)] by simp
    then show ?thesis using False by (simp add: pb_field_iter_begin_def Let_def)
  qed
  also have "\<dots> \<longleftrightarrow> (\<forall>i<length fs - 1. ?e i)" using one all by blast
  finally show ?thesis by (simp add: list_all_length)
qed

lemma check_agrees_step:
  assumes ty: "typed_msg env (Suc d) fs sz" and ok: "message_ok env (Suc d) fs dest (w_mem s)" and i: "i < length fs - 1"
    and sub: "\<And>p sz ptr e i. d = Suc e \<Longrightarrow> typed_msg env d (env_fields env ptr) sz \<Longrightarrow> sub_ok env d ptr p (w_mem s)
      \<Longrightarrow> i < length (env_fields env ptr) - 1 \<Longrightarrow> check_agrees env e n (env_fields env ptr) p i s"
  shows "check_agrees env d (Suc n) fs dest i s"
proof -
  let ?f = "fs ! i" and ?p = "dest + data_off fs i" and ?q = "dest + size_off fs i"
  have f: "wire_field env d ?f" by (rule wire_fields [OF ty i])
  have lay: "layout fs sz" and rm: "roomy fs i" using ty i tidy_roomy by simp_all
  have rm': "ltype ?f = 7 \<Longrightarrow> 1 \<le> unat (f_data_size ?f)" "htype ?f = PB_HTYPE_REPEATED \<or> htype ?f = PB_HTYPE_ONEOF \<Longrightarrow> ?q \<noteq> ?p"
    using rm unfolding roomy_def Let_def by simp_all
  have fok: "field_ok (sub_ok env d) fs dest i (w_mem s)" by (rule message_okD [OF ok i])
  note st = wire_field_static [OF f] and pl = size_offset_place [OF lay i rm]
  let ?v = "value_content (sub_content env d) ?f ?p (w_mem s)"
  have sv: "(case pb_field_iter_begin (env_fields env (f_ptr ?f)) ?p of (nonempty, it) \<Rightarrow>
      \<not> nonempty \<or> all_fields (\<lambda>it. pb_check_proto3_default_value env s n (it_field it) (it_pData it)) (length (env_fields env (f_ptr ?f))) it)
    \<longleftrightarrow> void ?f ?v" if "ltype ?f = 8" "value_ok (sub_ok env d) ?f ?p (w_mem s)"
  proof -
    have t: "typed_msg env d (env_fields env (f_ptr ?f)) (unat (f_data_size ?f))" using f that(1) unfolding wire_field_def typed_field_def by blast
    then obtain e where e: "d = Suc e" by (blast elim: typed_msgE)
    have so: "sub_ok env d (f_ptr ?f) ?p (w_mem s)" using that by (simp add: value_ok_def Let_def)
    show ?thesis
      using message_void [OF t [unfolded e] so [unfolded e] sub [OF e t so]] that(1) e by (simp add: value_content_def)
  qed
  consider "htype ?f = PB_HTYPE_REQUIRED" | "htype ?f = PB_HTYPE_OPTIONAL" "?q = ?p" | "htype ?f = PB_HTYPE_OPTIONAL" "?q \<noteq> ?p"
    | "htype ?f = PB_HTYPE_REPEATED" | "htype ?f = PB_HTYPE_ONEOF"
    using htype_cases by blast
  then show ?thesis
  proof cases
    case 2
    then have vok: "value_ok (sub_ok env d) ?f ?p (w_mem s)" using fok by (simp add: field_ok_def Let_def)
    have "pb_check_proto3_default_value env s (Suc n) ?f ?p \<longleftrightarrow> void ?f ?v"
      using 2 st pl sv [OF _ vok] leaf_void [OF f rm'(1) vok]
      by (cases "ltype ?f = 8") (simp_all add: proto3_default_def Let_def get_def)
    then show ?thesis using 2 by (simp add: check_agrees_def field_content_def Let_def)
  next
    case 3
    then show ?thesis using st pl by (simp add: check_agrees_def proto3_default_def field_content_def Let_def get_def safe_read_bool_def load_mem_def)
  next
    case 4
    then have "mem_size (w_mem s) ?q \<le> f_array_size ?f" using fok by (simp add: field_ok_def Let_def)
    then have "min (unat (mem_size (w_mem s) ?q)) (unat (f_array_size ?f)) = unat (mem_size (w_mem s) ?q)" by (simp add: word_le_nat_alt)
    then show ?thesis using 4 st pl rm'(2)
      by (simp add: check_agrees_def proto3_default_def field_content_def Let_def unat_eq_0)
  qed (use st pl rm'(2) in \<open>simp_all add: check_agrees_def proto3_default_def field_content_def Let_def\<close>)
qed

lemma check_agrees_field:
  "typed_msg env (Suc d) fs sz \<Longrightarrow> Suc d \<le> n \<Longrightarrow> message_ok env (Suc d) fs dest (w_mem s) \<Longrightarrow> i < length fs - 1
    \<Longrightarrow> check_agrees env d n fs dest i s"
proof (induction n arbitrary: d fs sz dest i)
  case (Suc n)
  show ?case
  proof (rule check_agrees_step [OF Suc.prems(1,3,4)])
    fix p sz ptr e i
    assume e: "d = Suc e" and t: "typed_msg env d (env_fields env ptr) sz" "sub_ok env d ptr p (w_mem s)" "i < length (env_fields env ptr) - 1"
    show "check_agrees env e n (env_fields env ptr) p i s"
      by (rule Suc.IH [OF t(1) [unfolded e] _ t(2) [unfolded e] t(3)]) (use e Suc.prems(2) in simp)
  qed
qed simp

section \<open>The encoder writes the wire format\<close>

lemma encodes_one:
  assumes f: "wire_field env d f" and h: "htype f \<noteq> PB_HTYPE_REPEATED" and ok: "value_ok (sub_ok env d) f p (w_mem s)" and p: "0 < p"
    and sub: "ltype f = PB_LTYPE_SUBMESSAGE
      \<Longrightarrow> encodes (msg (f_ptr f) p) s (sub_wire env d (f_ptr f) (sub_content env d (f_ptr f) p (w_mem s)))"
  shows "encodes (op_seq (on_out (pb_encode_tag_for_field f)) (pb_encoder msg f p)) s
    (values_wire (sub_wire env d) f [value_content (sub_content env d) f p (w_mem s)])"
proof -
  have "encodes (pb_encoder msg f p) s (value_wire (sub_wire env d) f (value_content (sub_content env d) f p (w_mem s)))"
    by (rule encoder_encodes [OF f ok p]) (rule sub)
  from encodes_seq [OF encodes_write this] show ?thesis
    using h by (simp add: tag_for_field_put [OF f] values_wire_def)
qed

lemma encodes_field:
  assumes ty: "typed_msg env (Suc d) fs sz" "Suc d \<le> n" and i: "i < length fs - 1" and dest: "0 < dest"
    and ok: "message_ok env (Suc d) fs dest (w_mem s)"
    and sub: "\<And>q sz ptr. 0 < q \<Longrightarrow> typed_msg env d (env_fields env ptr) sz \<Longrightarrow> sub_ok env d ptr q (w_mem s)
      \<Longrightarrow> encodes (msg ptr q) s (sub_wire env d ptr (sub_content env d ptr q (w_mem s)))"
  shows "encodes (encode_field env n msg (fs ! i) (dest + data_off fs i)) s
    (values_wire (sub_wire env d) (fs ! i) (field_content (sub_content env d) fs dest i (w_mem s)))"
proof -
  let ?f = "fs ! i" and ?p = "dest + data_off fs i" and ?q = "dest + size_off fs i"
  have f: "wire_field env d ?f" by (rule wire_fields [OF ty(1) i])
  have lay: "layout fs sz" and rm: "roomy fs i" using ty(1) i tidy_roomy by simp_all
  have q: "htype ?f = PB_HTYPE_REPEATED \<or> htype ?f = PB_HTYPE_ONEOF \<Longrightarrow> ?q \<noteq> ?p" using rm unfolding roomy_def Let_def by simp
  have fok: "field_ok (sub_ok env d) fs dest i (w_mem s)" by (rule message_okD [OF ok i])
  note st = wire_field_static [OF f] and pl = size_offset_place [OF lay i rm]
  let ?v = "value_content (sub_content env d) ?f ?p (w_mem s)"
  have msg: "encodes (msg (f_ptr ?f) a) s (sub_wire env d (f_ptr ?f) (sub_content env d (f_ptr ?f) a (w_mem s)))"
    if "ltype ?f = PB_LTYPE_SUBMESSAGE" "0 < a" "value_ok (sub_ok env d) ?f a (w_mem s)" for a
    using f that sub unfolding wire_field_def typed_field_def value_ok_def by auto
  have one: "encodes (op_seq (on_out (pb_encode_tag_for_field ?f)) (pb_encoder msg ?f ?p)) s (values_wire (sub_wire env d) ?f [?v])"
    if "htype ?f \<noteq> PB_HTYPE_REPEATED" "value_ok (sub_ok env d) ?f ?p (w_mem s)"
    using dest msg that by (intro encodes_one [OF f]) simp_all
  have none: "values_wire (sub_wire env d) ?f [] = []" by (simp add: values_wire_def)
  have e: "encode_field env n msg ?f ?p = encode_basic_field env n msg ?f ?p" using st by (simp add: encode_field_def)
  consider "htype ?f = PB_HTYPE_REQUIRED" | "htype ?f = PB_HTYPE_OPTIONAL" | "htype ?f = PB_HTYPE_REPEATED" | "htype ?f = PB_HTYPE_ONEOF"
    using htype_cases by blast
  then show ?thesis
  proof cases
    case 1
    then have w: "encodes (op_seq (on_out (pb_encode_tag_for_field ?f)) (pb_encoder msg ?f ?p)) s (values_wire (sub_wire env d) ?f [?v])"
      using fok by (intro one) (simp_all add: field_ok_def Let_def)
    have c: "field_content (sub_content env d) fs dest i (w_mem s) = [?v]" using 1 by (simp add: field_content_def Let_def)
    show ?thesis
      unfolding c by (rule encodes_state [OF w]) (use 1 st dest in \<open>simp add: e encode_basic_field_def Let_def\<close>)
  next
    case 2
    then have vok: "value_ok (sub_ok env d) ?f ?p (w_mem s)" using fok by (simp add: field_ok_def Let_def)
    let ?b = "if ?q = ?p then void ?f ?v else w_mem s ?q = 0"
    have c: "pb_check_proto3_default_value env (s\<lparr>e_out := out\<rparr>) n ?f ?p \<longleftrightarrow> void ?f ?v" if "?q = ?p" for out
      using check_agrees_field [OF ty, of dest "s\<lparr>e_out := out\<rparr>" i] ok i 2 that
      by (simp add: check_agrees_def field_content_def Let_def del: message_ok.simps)
    have "encodes (if ?b then op_ret () else op_seq (on_out (pb_encode_tag_for_field ?f)) (pb_encoder msg ?f ?p)) s
        (values_wire (sub_wire env d) ?f (field_content (sub_content env d) fs dest i (w_mem s)))"
      using one [OF _ vok] 2 by (auto simp: field_content_def Let_def none encodes_ret)
    then show ?thesis
      by (rule encodes_state)
        (use 2 st pl c in \<open>auto simp: e encode_basic_field_def op_ret_def safe_read_bool_def get_def load_mem_def Let_def split: option.splits\<close>)
  next
    case 3
    let ?n = "unat (mem_size (w_mem s) ?q)"
    have n: "?n \<le> unat (f_array_size ?f)" using fok 3 by (simp add: field_ok_def Let_def word_le_nat_alt)
    have vok: "value_ok (sub_ok env d) ?f (?p + unat (f_data_size ?f) * k) (w_mem s)" if "k < ?n" for k
      using fok 3 that by (simp add: field_ok_def Let_def list_all_iff)
    have w: "encodes (encode_array ?f ?p ?n (pb_encoder msg)) s (values_wire (sub_wire env d) ?f
        (map (\<lambda>k. value_content (sub_content env d) ?f (?p + unat (f_data_size ?f) * k) (w_mem s)) [0..<?n]))"
      by (rule encodes_array [OF f 3 n]) (use dest vok msg in simp_all)
    have c: "field_content (sub_content env d) fs dest i (w_mem s)
        = map (\<lambda>k. value_content (sub_content env d) ?f (?p + unat (f_data_size ?f) * k) (w_mem s)) [0..<?n]"
      using 3 n by (simp add: field_content_def Let_def min_absorb1)
    show ?thesis
      unfolding c by (rule encodes_state [OF w]) (use 3 st pl q in \<open>simp add: e encode_basic_field_def Let_def\<close>)
  next
    case 4
    have "encodes (if mem_size (w_mem s) ?q = f_tag ?f then op_seq (on_out (pb_encode_tag_for_field ?f)) (pb_encoder msg ?f ?p) else op_ret ()) s
        (values_wire (sub_wire env d) ?f (field_content (sub_content env d) fs dest i (w_mem s)))"
      using one fok 4 by (auto simp: field_ok_def field_content_def Let_def none encodes_ret)
    then show ?thesis
      by (rule encodes_state) (use 4 st pl q in \<open>simp add: e encode_basic_field_def op_ret_def Let_def\<close>)
  qed
qed

lemma encodes_loop:
  assumes l: "layout fs sz" "\<forall>f\<in>set (butlast fs). static_field f"
    and enc: "\<And>i. i < length fs - 1 \<Longrightarrow> encodes (enc (iter_at fs dest i)) s (w i)"
  shows "i < length fs - 1 \<Longrightarrow> length fs - 1 - i \<le> k
    \<Longrightarrow> encodes (encode_loop enc k (iter_at fs dest i)) s (concat (map w [i..<length fs - 1]))"
proof (induction k arbitrary: i)
  case (Suc k)
  have u: "[i..<length fs - 1] = i # [Suc i..<length fs - 1]" using Suc.prems by (simp add: upt_conv_Cons)
  have "encodes (if Suc i < length fs - 1 then encode_loop enc k (iter_at fs dest (Suc i)) else op_ret ()) s
      (concat (map w [Suc i..<length fs - 1]))"
    using Suc.IH [of "Suc i"] Suc.prems by (auto simp: encodes_ret)
  from encodes_seq [OF enc [OF Suc.prems(1)] this]
  show ?case
    using iter_next_ok [OF l iter_ok_at [OF Suc.prems(1)]] unfolding u by (auto split: if_splits)
qed simp

lemma encode_encodes:
  "typed_msg env d fs sz \<Longrightarrow> d \<le> n \<Longrightarrow> 0 < dest \<Longrightarrow> message_ok env d fs dest (w_mem s)
    \<Longrightarrow> encodes (pb_encode env n fs dest) s (message_wire env d fs (message_content env d fs dest (w_mem s)))"
proof (induction n arbitrary: d fs sz dest)
  case (Suc n)
  obtain e where d: "d = Suc e" using Suc.prems(1) by (blast elim: typed_msgE)
  have ty: "typed_msg env (Suc e) fs sz" and en: "e \<le> n" and ok: "message_ok env (Suc e) fs dest (w_mem s)"
    using Suc.prems unfolding d by (blast intro: Suc_le_mono [THEN iffD1])+
  have l: "layout fs sz" "\<forall>f\<in>set (butlast fs). static_field f" using ty by (blast elim: typed_msgE)+
  let ?msg = "\<lambda>ptr. pb_encode env n (env_fields env ptr)"
  let ?enc = "\<lambda>it. if ltype (it_field it) = PB_LTYPE_EXTENSION then encode_extension_field env (Suc n) ?msg (it_pData it)
      else encode_field env (Suc n) ?msg (it_field it) (it_pData it)"
  let ?w = "\<lambda>i. values_wire (sub_wire env e) (fs ! i) (field_content (sub_content env e) fs dest i (w_mem s))"
  have enc: "encodes (?enc (iter_at fs dest i)) s (?w i)" if i: "i < length fs - 1" for i
  proof -
    have "ltype (fs ! i) \<noteq> PB_LTYPE_EXTENSION"
      using typed_fields [OF ty i] static_field_atype by (simp add: typed_field_def)
    moreover have "encodes (encode_field env (Suc n) ?msg (fs ! i) (dest + data_off fs i)) s (?w i)"
      using Suc.IH [OF _ en] en by (intro encodes_field [OF ty _ i Suc.prems(3) ok]) simp_all
    ultimately show ?thesis by simp
  qed
  show ?case
    unfolding d message_wire_content
  proof (cases "1 < length fs")
    case True
    then show "encodes (pb_encode env (Suc n) fs dest) s (concat (map ?w [0..<length fs - 1]))"
      using encodes_loop [where enc = ?enc, OF l enc, of 0 "length fs"] by (simp add: iter_begin_at [OF l(1) True] Let_def)
  next
    case False
    then have "f_tag (fs ! 0) = 0" using layout_last [OF l(1)] by simp
    then show "encodes (pb_encode env (Suc n) fs dest) s (concat (map ?w [0..<length fs - 1]))"
      using False by (simp add: pb_field_iter_begin_def Let_def encodes_ret)
  qed
qed simp

section \<open>The claim\<close>

text \<open>The example message with a submessage and an array of two.\<close>

definition example_memory :: mem where
  "example_memory a = (if 1000 \<le> a \<and> a < 1024
     then [0x85, 0, 0, 0, 1, 0, 0, 0, 5, 0, 0, 0, 2, 0, 0, 0, 1, 0, 0, 0, 0x2C, 1, 0, 0] ! (a - 1000) else 0xAA)"

definition example_estate :: "unit estate" where
  "example_estate = \<lparr>w_mem = example_memory, w_heap = (), w_stuck = False, e_out = pb_ostream_from_buffer 100\<rparr>"

definition example_content :: pb_tree where
  "example_content = Node [[Leaf [0x85, 0, 0, 0]], [Node [[Leaf [5, 0, 0, 0]]]], [Leaf [1, 0, 0, 0], Leaf [0x2C, 1, 0, 0]]]"

definition example_wire :: bytes where
  "example_wire = [0x08, 0x85, 0x01, 0x12, 0x02, 0x08, 0x05, 0x1A, 0x03, 0x01, 0xAC, 0x02]"

lemma example_message_ok: "message_ok example_env 2 example_message 1000 example_memory"
  by code_simp

lemma example_message_content: "message_content example_env 2 example_message 1000 example_memory = example_content"
  by code_simp

lemma example_message_wire: "message_wire example_env 2 example_message example_content = example_wire"
  by code_simp
text \<open>(C6) The encoder writes the wire format. For every well-formed message in memory on a table whose fields
  lie apart, of any depth, \<open>pb_encode\<close> appends the reference encoding of the message's content when it
  fits the stream and changes nothing else; \<open>pb_encode_delimited\<close> puts the length in front, and
  \<open>pb_get_encoded_size\<close> returns the length.\<close>

theorem pb_encode_writes_content:
  assumes "typed_msg env d fs sz" "d \<le> n" "0 < src" "message_ok env d fs src (w_mem e)"
    and "w = message_wire env d fs (message_content env d fs src (w_mem e))"
    and "os_errmsg (e_out e) = None" "os_fits (varint (length w) @ w) (e_out e)"
  shows "pb_encode env n fs src e = (Some (), e\<lparr>e_out := os_put w (e_out e)\<rparr>)
    \<and> pb_encode_delimited env n fs src e = (Some (), e\<lparr>e_out := os_put (varint (length w) @ w) (e_out e)\<rparr>)
    \<and> pb_get_encoded_size env n fs src e = (Some (of_nat (length w)), e)"
proof (intro conjI)
  have enc: "encodes (pb_encode env n fs src) e w" using encode_encodes [OF assms(1-4)] by (simp add: assms(5))
  have fits: "os_fits w (e_out e)" "length w < 2 ^ 64" using assms(7) by (auto simp: os_fits_def)
  have same: "e\<lparr>e_out := e_out e\<rparr> = e" by simp
  show "pb_encode env n fs src e = (Some (), e\<lparr>e_out := os_put w (e_out e)\<rparr>)"
    using encodesD [OF enc assms(6) fits(1)] by simp
  show "pb_encode_delimited env n fs src e = (Some (), e\<lparr>e_out := os_put (varint (length w) @ w) (e_out e)\<rparr>)"
    using encodesD [OF encodes_submessage [of "pb_encode env n fs", OF enc] assms(6,7)] by (simp add: pb_encode_delimited_def)
  show "pb_get_encoded_size env n fs src e = (Some (of_nat (length w)), e)"
    using encodes_sizing [OF enc fits(2)]
    by (simp add: pb_get_encoded_size_def on_ostream_def op_bind_def op_seq_def op_check_def op_ret_def)
qed

lemma example_fits: "os_fits (varint (length example_wire) @ example_wire) (e_out example_estate)"
  by (simp add: example_wire_def example_estate_def pb_ostream_from_buffer_def os_fits_def varint.simps)

lemma pb_encode_writes_content_witness:
  "\<exists>e'. pb_encode example_env 2 example_message 1000 example_estate = (Some (), e') \<and> os_state (e_out e') = example_wire
    \<and> (\<exists>e'. pb_encode_delimited example_env 2 example_message 1000 example_estate = (Some (), e')
        \<and> os_state (e_out e') = 12 # example_wire)
    \<and> pb_get_encoded_size example_env 2 example_message 1000 example_estate = (Some 12, example_estate)"
proof -
  have st: "w_mem example_estate = example_memory" "os_errmsg (e_out example_estate) = None" "os_state (e_out example_estate) = []"
    "os_callback (e_out example_estate)" by (simp_all add: example_estate_def pb_ostream_from_buffer_def)
  have ok: "message_ok example_env 2 example_message 1000 (w_mem example_estate)" unfolding st by (rule example_message_ok)
  have w: "example_wire = message_wire example_env 2 example_message (message_content example_env 2 example_message 1000 (w_mem example_estate))"
    unfolding st example_message_content example_message_wire ..
  have len: "length example_wire = 12" by (simp add: example_wire_def)
  have "varint (length example_wire) = [12]" unfolding len by (simp add: varint.simps)
  then show ?thesis
    using pb_encode_writes_content [OF example_typed(1) order_refl _ ok w st(2) example_fits] st
    by (simp add: os_put_def len)
qed

end
