(* ===== verification/PbRound.thy ===== *)
theory PbRound
  imports PbContent
begin

unbundle bit_operations_syntax

text \<open>
  Decoding what was encoded. A message struct that was set to its defaults is fresh; the decoder reads the
  wire format of a tree field by field, and leaves the tree's content in a fresh struct.
\<close>

section \<open>Fresh messages\<close>

definition fresh_value :: "(nat \<Rightarrow> nat \<Rightarrow> mem \<Rightarrow> bool) \<Rightarrow> pb_field \<Rightarrow> nat \<Rightarrow> mem \<Rightarrow> bool" where
  "fresh_value msg f p m \<longleftrightarrow>
     (if ltype f = PB_LTYPE_SUBMESSAGE then msg (f_ptr f) p m else list_all (\<lambda>b. b = 0) (load_mem m p (unat (f_data_size f))))"

definition fresh_field :: "(nat \<Rightarrow> nat \<Rightarrow> mem \<Rightarrow> bool) \<Rightarrow> pb_field list \<Rightarrow> nat \<Rightarrow> nat \<Rightarrow> mem \<Rightarrow> bool" where
  "fresh_field msg fs dest i m \<longleftrightarrow>
     (let f = fs ! i; p = dest + data_off fs i; q = dest + size_off fs i in
      if htype f = PB_HTYPE_REQUIRED then fresh_value msg f p m
      else if htype f = PB_HTYPE_OPTIONAL then (q = p \<or> m q = 0) \<and> fresh_value msg f p m
      else mem_size m q = 0)"

primrec fresh_message :: "'h pb_env \<Rightarrow> nat \<Rightarrow> pb_field list \<Rightarrow> nat \<Rightarrow> mem \<Rightarrow> bool" where
  "fresh_message env 0 fs dest m = False"
| "fresh_message env (Suc d) fs dest m \<longleftrightarrow>
     list_all (\<lambda>i. fresh_field (\<lambda>ptr. fresh_message env d (env_fields env ptr)) fs dest i m) [0..<length fs - 1]"

abbreviation sub_fresh :: "'h pb_env \<Rightarrow> nat \<Rightarrow> nat \<Rightarrow> nat \<Rightarrow> mem \<Rightarrow> bool" where
  "sub_fresh env d \<equiv> \<lambda>ptr. fresh_message env d (env_fields env ptr)"

lemma fresh_messageD: "fresh_message env (Suc d) fs dest m \<Longrightarrow> i < length fs - 1 \<Longrightarrow> fresh_field (sub_fresh env d) fs dest i m"
  by (simp add: list_all_iff)

lemma fresh_field_local:
  assumes eq: "\<And>a. a \<in> area fs dest i \<Longrightarrow> m a = m' a"
    and msg: "\<And>p. ltype (fs ! i) = PB_LTYPE_SUBMESSAGE \<Longrightarrow> region p (unat (f_data_size (fs ! i))) \<subseteq> area fs dest i
      \<Longrightarrow> msg (f_ptr (fs ! i)) p m = msg (f_ptr (fs ! i)) p m'"
  shows "fresh_field msg fs dest i m = fresh_field msg fs dest i m'"
proof -
  let ?f = "fs ! i" and ?p = "dest + data_off fs i" and ?q = "dest + size_off fs i"
  have v: "fresh_value msg ?f ?p m = fresh_value msg ?f ?p m'" if h: "htype ?f \<noteq> PB_HTYPE_REPEATED"
  proof -
    note r = whole_item_region [OF h, of dest, folded region_def]
    have "load_mem m ?p (unat (f_data_size ?f)) = load_mem m' ?p (unat (f_data_size ?f))"
      using r by (intro load_mem_cong eq) (auto simp: region_def)
    then show ?thesis using msg [OF _ r] by (simp add: fresh_value_def)
  qed
  have q: "mem_size m ?q = mem_size m' ?q" if "size_width fs i = 4"
    using that size_region [of dest fs i] by (intro mem_size_cong eq) auto
  have o: "?q = ?p \<or> m ?q = m' ?q" if "htype ?f = PB_HTYPE_OPTIONAL"
    using that size_region [of dest fs i] by (auto intro!: eq simp: size_width_def)
  show ?thesis
    using q o v htype_cases [of "f_type ?f"] by (auto simp: fresh_field_def Let_def size_width_def)
qed

text \<open>The same for any of the predicates on a field and any submessage inside the field's area.\<close>

lemma sub_in_area:
  assumes "typed_msg env (Suc d) fs sz" "i < length fs - 1" "ltype (fs ! i) = PB_LTYPE_SUBMESSAGE"
  shows "typed_msg env d (env_fields env (f_ptr (fs ! i))) (unat (f_data_size (fs ! i)))"
  using typed_fields [OF assms(1,2)] assms(3) by (simp add: typed_field_def)

lemma fresh_message_local:
  "typed_msg env d fs sz \<Longrightarrow> (\<And>a. a \<in> region dest sz \<Longrightarrow> m a = m' a)
    \<Longrightarrow> fresh_message env d fs dest m = fresh_message env d fs dest m'"
proof (induction d arbitrary: fs sz dest)
  case (Suc d)
  have lay: "layout fs sz" using Suc.prems(1) by simp
  have "fresh_field (sub_fresh env d) fs dest i m = fresh_field (sub_fresh env d) fs dest i m'" if i: "i < length fs - 1" for i
  proof (rule fresh_field_local)
    note r = area_region [OF lay i, of dest]
    show "m a = m' a" if "a \<in> area fs dest i" for a using that r Suc.prems(2) by blast
    show "sub_fresh env d (f_ptr (fs ! i)) p m = sub_fresh env d (f_ptr (fs ! i)) p m'"
      if "ltype (fs ! i) = PB_LTYPE_SUBMESSAGE" "region p (unat (f_data_size (fs ! i))) \<subseteq> area fs dest i" for p
      using that r Suc.prems(2) by (intro Suc.IH [OF sub_in_area [OF Suc.prems(1) i]]) blast+
  qed
  then show ?case by (simp add: list_all_iff)
qed simp

lemma content_elsewhere:
  assumes ty: "typed_msg env (Suc d) fs sz" and i: "i < length fs - 1"
    and eq: "\<And>a. a \<in> area fs dest i \<Longrightarrow> m a = m' a"
  shows "field_content (sub_content env d) fs dest i m = field_content (sub_content env d) fs dest i m'"
    and "fresh_field (sub_fresh env d) fs dest i m = fresh_field (sub_fresh env d) fs dest i m'"
  using message_content_local [OF sub_in_area [OF ty i], of _ m m'] fresh_message_local [OF sub_in_area [OF ty i], of _ m m']
  by (intro field_content_local fresh_field_local eq; blast intro: eq)+

section \<open>Defaults are fresh\<close>

lemma fresh_field_other:
  assumes ty: "typed_msg env (Suc d) fs sz" and ij: "i < length fs - 1" "j < length fs - 1" "i \<noteq> j"
    and fr: "\<And>a. a \<notin> area fs dest j \<Longrightarrow> m' a = m a"
    and un: "htype (fs ! j) = PB_HTYPE_ONEOF \<Longrightarrow> mem_size m' (dest + size_off fs j) = 0"
    and fresh: "fresh_field (sub_fresh env d) fs dest i m"
  shows "fresh_field (sub_fresh env d) fs dest i m'"
proof (cases "same_union fs i j")
  case True
  then show ?thesis using un by (simp add: same_union_def fresh_field_def Let_def)
next
  case False
  have "tidy fs" using ty by simp
  then have sep: "area fs dest i \<inter> area fs dest j = {}" using tidy_apart ij separated_area False by blast
  have "fresh_field (sub_fresh env d) fs dest i m' = fresh_field (sub_fresh env d) fs dest i m"
    using sep fr by (intro content_elsewhere [OF ty ij(1)]) blast
  then show ?thesis using fresh by simp
qed

lemma default_field_fresh:
  assumes ty: "typed_msg env (Suc d) fs sz" "Suc d \<le> n" and i: "i < length fs - 1"
    and sub: "\<forall>sz fs n p s. typed_msg env d fs sz \<longrightarrow> d \<le> n \<longrightarrow> fresh_message env d fs p (w_mem (pb_message_set_to_defaults env n fs p s))"
  shows "fresh_field (sub_fresh env d) fs dest i (w_mem (pb_field_set_to_default env n (iter_at fs dest i) s))"
proof -
  let ?f = "fs ! i" and ?p = "dest + data_off fs i" and ?q = "dest + size_off fs i"
  obtain m where n: "n = Suc m" "d \<le> m" using ty(2) by (cases n) auto
  have rm: "roomy fs i" using ty(1) i tidy_roomy by simp
  have f: "typed_field env d ?f" by (rule typed_fields [OF ty(1) i])
  then have st: "atype ?f = PB_ATYPE_STATIC \<and> ltype ?f \<noteq> PB_LTYPE_EXTENSION" using static_field_atype by (simp add: typed_field_def)
  note np = roomy_no_default [OF rm]
  let ?ini = "\<lambda>s. if ltype ?f = PB_LTYPE_SUBMESSAGE then each_field (pb_field_set_to_default env m) (env_fields env (f_ptr ?f)) ?p s
      else put ?p (replicate (unat (f_data_size ?f)) 0) s"
  have ini: "fresh_value (sub_fresh env d) ?f ?p (w_mem (?ini s))" for s
    using sub sub_in_area [OF ty(1) i] n(2)
    by (auto simp: fresh_value_def mem_simps list_all_length pb_message_set_to_defaults_def)
  have own: "frame (region ?p (unat (f_data_size ?f))) s (?ini s)" for s
    using frame_defaults [OF typed_static [OF sub_in_area [OF ty(1) i]] n(2)]
    by (auto simp: pb_message_set_to_defaults_def [symmetric] region_def intro: frame_put)
  have keep: "w_mem (?ini (put ?q [0] s)) ?q = 0" if "htype ?f = PB_HTYPE_OPTIONAL" "size_off fs i \<noteq> data_off fs i"
  proof -
    have q: "?q \<notin> region ?p (unat (f_data_size ?f))"
      using data_size_apart [OF rm, of ?q dest 0] that by (auto simp: size_width_def item_room_def)
    then have "w_mem (?ini (put ?q [0] s)) ?q = w_mem (put ?q [0] s) ?q" using own by (simp add: frame_def)
    then show ?thesis by (simp add: store_mem_def)
  qed
  have step: "pb_field_set_to_default env n (iter_at fs dest i) s =
      (if htype ?f = PB_HTYPE_REPEATED \<or> htype ?f = PB_HTYPE_ONEOF then put_size ?q 0 s
       else ?ini (if htype ?f = PB_HTYPE_OPTIONAL \<and> size_off fs i \<noteq> data_off fs i then put ?q [0] s else s))"
    using st np by (simp add: n(1) field_default_def Let_def)
  show ?thesis
    unfolding step using ini keep htype_cases [of "f_type ?f"] by (auto simp: fresh_field_def Let_def)
qed

lemma defaults_fresh:
  "typed_msg env d fs sz \<Longrightarrow> d \<le> n \<Longrightarrow> fresh_message env d fs dest (w_mem (pb_message_set_to_defaults env n fs dest s))"
proof (induction d arbitrary: fs sz n dest s)
  case (Suc d)
  have l: "layout fs sz" "\<forall>f\<in>set (butlast fs). static_field f" using Suc.prems(1) by (blast elim: typed_msgE)+
  let ?work = "\<lambda>i. pb_field_set_to_default env n (iter_at fs dest i)"
  have sub: "\<forall>sz fs n p s. typed_msg env d fs sz \<longrightarrow> d \<le> n \<longrightarrow> fresh_message env d fs p (w_mem (pb_message_set_to_defaults env n fs p s))"
    using Suc.IH by blast
  have ok: "fresh_field (sub_fresh env d) fs dest i (w_mem (?work i s))" if "i < length fs - 1" for i s
    by (rule default_field_fresh [OF Suc.prems that sub])
  have "k \<le> length fs - 1 \<Longrightarrow> j < k \<Longrightarrow> fresh_field (sub_fresh env d) fs dest j (w_mem (fold ?work [0..<k] s))" for j k
  proof (induction k)
    case (Suc k)
    let ?t = "fold ?work [0..<k] s"
    note fr = frame_default [OF typed_static [OF \<open>typed_msg env (Suc d) fs sz\<close>] \<open>Suc d \<le> n\<close>, of k dest ?t]
    show ?case
    proof (cases "j = k")
      case False
      have "fresh_field (sub_fresh env d) fs dest j (w_mem (?work k ?t))"
        by (rule fresh_field_other [OF \<open>typed_msg env (Suc d) fs sz\<close>, where j = k])
          (use fr ok [of k ?t] Suc False in \<open>auto simp: frame_def fresh_field_def Let_def\<close>)
      then show ?thesis by simp
    qed (use ok [of k ?t] Suc.prems in simp)
  qed simp
  then show ?case by (simp add: pb_message_set_to_defaults_def each_field_fold [OF l] list_all_iff)
qed simp

section \<open>An absent field stays absent\<close>

lemma zeros_load: "list_all (\<lambda>b. b = 0) bs \<Longrightarrow> load_u bs = 0"
proof -
  assume "list_all (\<lambda>b. b = 0) bs"
  then have "rev bs = replicate (length bs) 0"
    using replicate_length_same [of "rev bs" 0] by (simp add: list_all_iff)
  then show ?thesis by (simp add: load_u_def be_nat_all_zero)
qed

lemma zeros_void: "list_all (\<lambda>b. b = 0) bs \<Longrightarrow> ltype f \<noteq> 10 \<Longrightarrow> void f (Leaf (field_body (ltype f) bs))"
proof -
  assume z: "list_all (\<lambda>b. b = 0) bs" and t: "ltype f \<noteq> 10"
  then have "load_u (take 4 bs) = 0" by (intro zeros_load) (auto simp: list_all_iff dest: in_set_takeD)
  moreover have "takeWhile (\<lambda>c. c \<noteq> 0) bs = []" using z by (cases bs) simp_all
  ultimately show ?thesis using z t by (simp add: field_body_def)
qed

lemma absent_step:
  assumes ty: "typed_msg env (Suc d) fs sz" and i: "i < length fs - 1" and fresh: "fresh_field (sub_fresh env d) fs dest i m"
    and none: "field_content (sub_content env d) fs src i m0 = []"
    and sub: "\<And>p q. ltype (fs ! i) = PB_LTYPE_SUBMESSAGE \<Longrightarrow> sub_fresh env d (f_ptr (fs ! i)) p m
      \<Longrightarrow> void (fs ! i) (sub_content env d (f_ptr (fs ! i)) q m0) \<Longrightarrow> void (fs ! i) (sub_content env d (f_ptr (fs ! i)) p m)"
  shows "field_content (sub_content env d) fs dest i m = []"
proof -
  let ?f = "fs ! i" and ?p = "dest + data_off fs i" and ?r = "src + data_off fs i"
  have f: "wire_field env d ?f" by (rule wire_fields [OF ty i])
  have lay: "layout fs sz" using ty by simp
  have void: "void ?f (value_content (sub_content env d) ?f ?p m)"
    if "fresh_value (sub_fresh env d) ?f ?p m" "void ?f (value_content (sub_content env d) ?f ?r m0)"
  proof (cases "ltype ?f = PB_LTYPE_SUBMESSAGE")
    case True
    then show ?thesis using that sub [of ?p ?r] by (simp add: fresh_value_def value_content_def)
  next
    case False
    moreover have "ltype ?f \<noteq> 10"
      using f that(2) False by (auto simp: wire_field_def value_content_def field_body_def simp flip: length_0_conv)
    ultimately show ?thesis using that(1) zeros_void by (simp add: fresh_value_def value_content_def)
  qed
  show ?thesis
    using fresh none void layout_tag [OF lay i] htype_cases [of "f_type ?f"]
    by (auto simp: fresh_field_def field_content_def Let_def split: if_splits)
qed

lemma fresh_absent:
  "typed_msg env (Suc d) fs sz \<Longrightarrow> i < length fs - 1 \<Longrightarrow> fresh_field (sub_fresh env d) fs dest i m
    \<Longrightarrow> field_content (sub_content env d) fs src i m0 = [] \<Longrightarrow> field_content (sub_content env d) fs dest i m = []"
proof (induction d arbitrary: fs sz i dest src)
  case 0
  show ?case by (rule absent_step [OF "0.prems"]) simp
next
  case (Suc d)
  show ?case
  proof (rule absent_step [OF Suc.prems])
    fix p q
    assume t: "ltype (fs ! i) = PB_LTYPE_SUBMESSAGE"
      and fresh: "sub_fresh env (Suc d) (f_ptr (fs ! i)) p m" and void: "void (fs ! i) (sub_content env (Suc d) (f_ptr (fs ! i)) q m0)"
    let ?gs = "env_fields env (f_ptr (fs ! i))"
    have ty: "typed_msg env (Suc d) ?gs (unat (f_data_size (fs ! i)))" by (rule sub_in_area [OF Suc.prems(1,2) t])
    have "field_content (sub_content env d) ?gs p j m = []" if j: "j < length ?gs - 1" for j
    proof -
      have "field_content (sub_content env d) ?gs q j m0 = []" using void j by (simp add: list_all_length)
      then show ?thesis by (rule Suc.IH [OF ty j fresh_messageD [OF fresh j]])
    qed
    then show "void (fs ! i) (sub_content env (Suc d) (f_ptr (fs ! i)) p m)" by (simp add: list_all_length)
  qed
qed

section \<open>Decoding a value\<close>

lemma takeWhile_zero: "0 \<notin> set xs \<Longrightarrow> takeWhile (\<lambda>c. c \<noteq> 0) (xs @ 0 # ys) = xs"
  by (induction xs) auto

lemma field_body_significant:
  assumes "memory_ok t f src" "length dest = length src"
  shows "field_body t (take (significant t src) src @ drop (significant t src) dest) = field_body t src"
proof -
  consider "t = 6" | "t = 7" | "t \<noteq> 6" "t \<noteq> 7" by blast
  then show ?thesis
  proof cases
    case 1
    then have "4 + unat (load_u (take 4 src)) \<le> length src" using assms by (simp add: memory_ok_def)
    then show ?thesis
      using 1 by (simp add: field_body_def significant_def take_drop add.commute min_def)
  next
    case 2
    obtain xs ys where src: "src = xs @ 0 # ys" "0 \<notin> set xs"
      using assms 2 split_list_first [of 0 src] by (auto simp: memory_ok_def)
    then have "take (significant t src) src = xs @ [0]" using 2 takeWhile_zero [of xs ys] by (simp add: significant_def)
    then show ?thesis using 2 src by (simp add: field_body_def takeWhile_zero)
  next
    case 3
    then show ?thesis using assms(2) by (simp add: field_body_def significant_def)
  qed
qed

lemma op_map_dest:
  fixes src :: bytes
  assumes "\<And>dest. length dest = length src \<Longrightarrow> op_map (\<lambda>m. m @ drop (length m) dest) g i = (Some src, i')"
  shows "g i = (Some src, i')"
proof -
  let ?dest = "map (\<lambda>b. b + 1) src"
  obtain m where m: "g i = (Some m, i')" "m @ drop (length m) ?dest = src"
    using assms [of ?dest] by (auto simp: op_map_def op_bind_def op_ret_def split: prod.splits option.splits)
  have "\<not> length m < length src"
  proof
    assume lt: "length m < length src"
    have "src ! length m = (m @ drop (length m) ?dest) ! length m" using m(2) by simp
    also have "\<dots> = src ! length m + 1" using lt by (simp add: nth_append)
    finally show False by simp
  qed
  then have "m = src" using m(2) by simp
  then show ?thesis using m(1) by simp
qed

lemma scalar_read:
  assumes "PB_DECODERS t = Some (\<lambda>f dest. op_map (\<lambda>m. m @ drop (length m) dest) (D f))" "t \<noteq> 6" "t \<noteq> 7" "memory_ok t f src"
  shows "D f (istream (field_wire t src @ rest) j e) = (Some src, istream rest j e)"
proof (rule op_map_dest)
  show "op_map (\<lambda>m. m @ drop (length m) dest) (D f) (istream (field_wire t src @ rest) j e) = (Some src, istream rest j e)"
    if "length dest = length src" for dest
    using PB_DECODERS_get [OF assms(1,4) that] assms(2,3) that by (simp add: significant_def)
qed

lemma dec_to_put: "dec (d_in s) = (Some bs, i) \<Longrightarrow> dec_to dec p s = (Some (), put p bs (s\<lparr>d_in := i\<rparr>))"
  by (simp add: dec_to_def op_bind_def on_in_def act_def)

text \<open>The decoders of integers store what their models on streams return.\<close>

lemma varints_to_put:
  "pb_dec_varint f (d_in s) = (Some bs, i) \<Longrightarrow> pb_dec_varint_to f p s = (Some (), put p bs (s\<lparr>d_in := i\<rparr>))"
  "pb_dec_uvarint f (d_in s) = (Some bs, i) \<Longrightarrow> pb_dec_uvarint_to f p s = (Some (), put p bs (s\<lparr>d_in := i\<rparr>))"
  "pb_dec_svarint f (d_in s) = (Some bs, i) \<Longrightarrow> pb_dec_svarint_to f p s = (Some (), put p bs (s\<lparr>d_in := i\<rparr>))"
  by (auto simp: pb_dec_varint_def pb_dec_varint_to_def pb_dec_uvarint_def pb_dec_uvarint_to_def pb_dec_svarint_def pb_dec_svarint_to_def
      op_bind_def op_seq_def op_ret_def on_in_def act_def is_error_def Let_def split: prod.splits option.splits if_splits)

lemma put_put: "length xs = n \<Longrightarrow> put (p + n) ys (put p xs s) = put p (xs @ ys) s"
  by (simp add: put_def store_append)

lemma put_d_in: "(put p bs s)\<lparr>d_in := i\<rparr> = put p bs (s\<lparr>d_in := i\<rparr>)" "d_in (put p bs s) = d_in s"
  by (simp_all add: put_def)

lemma bytes_leaf:
  assumes f: "wire_field env d f" "ltype f = PB_LTYPE_BYTES" and mem: "memory_ok 6 f src"
    and s: "d_in s = istream (field_wire 6 src @ rest) j e"
  shows "pb_dec_bytes_to env' f p s = (Some (), put p (take (significant 6 src) src) (s\<lparr>d_in := istream rest j e\<rparr>))"
proof -
  define n where "n = unat (load_u (take 4 src))"
  have ok: "length src = unat (f_data_size f)" "4 + n \<le> length src" using mem by (simp_all add: memory_ok_def n_def)
  then have l: "length (take 4 src) = 4" by simp
  have sz: "unat (of_nat n :: u32) = n" and small: "n < 2 ^ 32" using ok unat_u32_bound [of "f_data_size f"] by (simp_all add: unat_of_nat)
  have wire: "field_wire 6 src = varint n @ take n (drop 4 src)" using ok by (simp add: field_wire_def field_body_def n_def)
  have len: "length (take n (drop 4 src)) = n" using ok by simp
  have alloc: "PB_BYTES_ARRAY_T_ALLOCSIZE n = n + 4" using alloc_size_eq [of "of_nat n"] sz by simp
  have hd: "le_bytes 4 n = take 4 src" unfolding n_def using ucast_load_u_4 [OF l] le_bytes_be_nat [OF l] by simp
  have v: "pb_decode_varint32 (d_in s) = (Some (of_nat n), istream (take n (drop 4 src) @ rest) j e)"
    unfolding s wire using small by (simp add: istream_simps)
  let ?t = "s\<lparr>d_in := istream (take n (drop 4 src) @ rest) j e\<rparr>"
  have r: "dec_to (pb_read n) (p + 4) (put_size p (of_nat n) ?t)
      = (Some (), put (p + 4) (take n (drop 4 src)) (put p (take 4 src) (s\<lparr>d_in := istream rest j e\<rparr>)))"
    using pb_read_istream_append [OF len, of rest j e] dec_to_put [of "pb_read n" "put_size p (of_nat n) ?t"]
    by (simp add: put_size_def sz hd put_d_in)
  have "pb_dec_bytes_to env' f p s = dec_to (pb_read n) (p + 4) (put_size p (of_nat n) ?t)"
    using wire_field_static [OF f(1)] v sz alloc ok
    by (simp add: pb_dec_bytes_to_def op_bind_def op_seq_def on_in_def act_def)
  then show ?thesis unfolding r put_put [OF l] by (simp add: significant_def n_def [symmetric] take_add)
qed

lemma string_leaf:
  assumes f: "wire_field env d f" "ltype f = PB_LTYPE_STRING" and mem: "memory_ok 7 f src"
    and s: "d_in s = istream (field_wire 7 src @ rest) j e"
  shows "pb_dec_string_to env' f p s = (Some (), put p (take (significant 7 src) src) (s\<lparr>d_in := istream rest j e\<rparr>))"
proof -
  obtain b ys where src: "src = b @ 0 # ys" "0 \<notin> set b" using mem split_list_first [of 0 src] by (auto simp: memory_ok_def)
  have n: "length src = unat (f_data_size f)" using mem by (simp add: memory_ok_def)
  then have small: "length b + 1 < 2 ^ 32" "length b + 1 \<le> unat (f_data_size f)"
    using src unat_u32_bound [of "f_data_size f"] by simp_all
  have wire: "field_wire 7 src = varint (length b) @ b" using src by (simp add: field_wire_def field_body_def takeWhile_zero)
  have sz: "unat (of_nat (length b) :: u32) = length b" "unat (of_nat (length b) + 1 :: u32) = length b + 1"
    using small(1) by (simp_all add: unat_word_ariths unat_of_nat)
  have v: "pb_decode_varint32 (d_in s) = (Some (of_nat (length b)), istream (b @ rest) j e)"
    unfolding s wire using small by (simp add: istream_simps)
  have r: "dec_to (pb_read (length b)) p (s\<lparr>d_in := istream (b @ rest) j e\<rparr>) = (Some (), put p b (s\<lparr>d_in := istream rest j e\<rparr>))"
    using dec_to_put [of "pb_read (length b)" "s\<lparr>d_in := istream (b @ rest) j e\<rparr>" b "istream rest j e" p] by (simp add: istream_simps)
  have "take (significant 7 src) src = b @ [0]" using src by (simp add: significant_def takeWhile_zero)
  then show ?thesis
    using wire_field_static [OF f(1)] v sz small(2) r put_put [OF refl, where p = p and ys = "[0]" and xs = b]
    by (simp add: pb_dec_string_to_def op_bind_def on_in_def Let_def)
qed

lemma leaf_decoder:
  assumes f: "wire_field env d f" and t: "ltype f \<noteq> PB_LTYPE_SUBMESSAGE" and mem: "memory_ok (ltype f) f src"
    and s: "d_in s = istream (field_wire (ltype f) src @ rest) j e"
  shows "pb_decoder env' msg f p s = (Some (), put p (take (significant (ltype f) src) src) (s\<lparr>d_in := istream rest j e\<rparr>))"
proof -
  have whole: "take (significant (ltype f) src) src = src" if "ltype f \<noteq> 6" "ltype f \<noteq> 7" using that by (simp add: significant_def)
  note read = scalar_read [where t = "ltype f", OF _ _ _ mem, of _ rest j e, folded s]
  from wire_field_types(1) [OF f] t
  consider "ltype f = 0" | "ltype f = 1" | "ltype f = 2" | "ltype f = 3" | "ltype f = 4" | "ltype f = 5" | "ltype f = 6" | "ltype f = 7" | "ltype f = 10"
    by auto
  then show ?thesis
  proof cases
    case 1
    then show ?thesis using read [of "\<lambda>f. pb_dec_bool"] whole by (simp add: PB_DECODERS_def pb_decoder_def dec_to_put)
  next
    case 2
    then show ?thesis using read [of pb_dec_varint] whole by (simp add: PB_DECODERS_def pb_decoder_def varints_to_put)
  next
    case 3
    then show ?thesis using read [of pb_dec_uvarint] whole by (simp add: PB_DECODERS_def pb_decoder_def varints_to_put)
  next
    case 4
    then show ?thesis using read [of pb_dec_svarint] whole by (simp add: PB_DECODERS_def pb_decoder_def varints_to_put)
  next
    case 5
    then show ?thesis using read [of "\<lambda>f. pb_dec_fixed32"] whole by (simp add: PB_DECODERS_def pb_decoder_def dec_to_put)
  next
    case 6
    then show ?thesis using read [of "\<lambda>f. pb_dec_fixed64"] whole by (simp add: PB_DECODERS_def pb_decoder_def dec_to_put)
  next
    case 7
    then show ?thesis using bytes_leaf [OF f] mem s by (simp add: pb_decoder_def)
  next
    case 8
    then show ?thesis using string_leaf [OF f] mem s by (simp add: pb_decoder_def)
  next
    case 9
    then show ?thesis using read [of pb_dec_fixed_length_bytes] whole by (simp add: PB_DECODERS_def pb_decoder_def dec_to_put)
  qed
qed

text \<open>A substream on which the work reads everything.\<close>

lemma substream_all:
  assumes s: "d_in s = istream (varint (length body) @ body @ rest) j e" "length body < 2 ^ 32"
    and F: "F (istream body (rest @ j) e) (s\<lparr>d_in := istream body (rest @ j) e\<rparr>) = (Some (), t)" "d_in t = istream [] (rest @ j) e"
    and G: "\<And>sub. is_bytes_left sub = 0 \<Longrightarrow> G True sub = op_seq (on_in (pb_close_string_substream sub)) (status True)"
  shows "op_bind (on_in pb_make_string_substream) (\<lambda>sub. op_bind (on_substream sub (F sub)) (\<lambda>(ok, sub). G ok sub)) s
    = (Some (), t\<lparr>d_in := istream rest j e\<rparr>)"
proof -
  obtain i where make: "pb_make_string_substream (d_in s) = (Some (istream body (rest @ j) e), i)"
    and close: "\<And>n e'. pb_close_string_substream (istream (drop n body) (rest @ j) e') i = (Some (), istream rest j e')"
    using pb_substream [of "varint (length body)" body rest j e] s by (auto simp: is_varint_varint le128_varint length_varint_u32)
  have "pb_close_string_substream (istream [] (rest @ j) e) i = (Some (), istream rest j e)" using close [of "length body" e] by simp
  then show ?thesis
    using make F G [of "istream [] (rest @ j) e"]
    by (simp add: op_bind_def op_seq_def on_in_def on_substream_def status_def op_check_def op_ret_def)
qed

definition reads :: "'h pb_env \<Rightarrow> nat \<Rightarrow> (bool \<Rightarrow> nat \<Rightarrow> nat \<Rightarrow> ('h dstate, unit) opn) \<Rightarrow> bool" where
  "reads env d msg \<longleftrightarrow> (\<forall>init ptr sz p src m s j e.
     typed_msg env d (env_fields env ptr) sz \<longrightarrow> sub_ok env d ptr src m
     \<longrightarrow> length (sub_wire env d ptr (sub_content env d ptr src m)) < 2 ^ 32
     \<longrightarrow> d_in s = istream (sub_wire env d ptr (sub_content env d ptr src m)) j e
     \<longrightarrow> init \<or> sub_fresh env d ptr p (w_mem s)
     \<longrightarrow> (\<exists>s'. msg init ptr p s = (Some (), s') \<and> d_in s' = istream [] j e
           \<and> sub_content env d ptr p (w_mem s') = sub_content env d ptr src m))"

lemma readsD:
  assumes "reads env d msg" "typed_msg env d (env_fields env ptr) sz" "sub_ok env d ptr src m"
    "length (sub_wire env d ptr (sub_content env d ptr src m)) < 2 ^ 32"
    "d_in s = istream (sub_wire env d ptr (sub_content env d ptr src m)) j e" "init \<or> sub_fresh env d ptr p (w_mem s)"
  obtains s' where "msg init ptr p s = (Some (), s')" "d_in s' = istream [] j e"
    "sub_content env d ptr p (w_mem s') = sub_content env d ptr src m"
  using assms unfolding reads_def by blast

lemma value_read:
  assumes f: "wire_field env d f" and msg: "msg_good env d msg" "reads env d msg"
    and ok: "value_ok (sub_ok env d) f src m" and v: "v = value_content (sub_content env d) f src m"
    and s: "d_in s = istream (value_wire (sub_wire env d) f v @ rest) j e" "length (value_wire (sub_wire env d) f v) < 2 ^ 32"
    and fresh: "htype f = PB_HTYPE_REPEATED \<or> (ltype f = PB_LTYPE_SUBMESSAGE \<longrightarrow> sub_fresh env d (f_ptr f) p (w_mem s))"
  obtains s' where "pb_decoder env msg f p s = (Some (), s')" "d_in s' = istream rest j e"
    "value_content (sub_content env d) f p (w_mem s') = v" "frame (region p (unat (f_data_size f))) s s'"
proof -
  have tf: "typed_field env d f" using f by (simp add: wire_field_def)
  have "\<exists>s'. pb_decoder env msg f p s = (Some (), s') \<and> d_in s' = istream rest j e
      \<and> value_content (sub_content env d) f p (w_mem s') = v"
  proof (cases "ltype f = PB_LTYPE_SUBMESSAGE")
    case False
    let ?src = "load_mem m src (unat (f_data_size f))" and ?n = "significant (ltype f) (load_mem m src (unat (f_data_size f)))"
    have mem: "memory_ok (ltype f) f ?src" by (rule value_memory_ok [OF f ok False])
    have run: "pb_decoder env msg f p s = (Some (), put p (take ?n ?src) (s\<lparr>d_in := istream rest j e\<rparr>))"
      using s(1) by (intro leaf_decoder [OF f False mem]) (simp add: v value_wire_leaf [OF False])
    have le: "length (take ?n ?src) \<le> unat (f_data_size f)" by simp
    have "load_mem (store_mem p (take ?n ?src) (w_mem s)) p (unat (f_data_size f))
        = take ?n ?src @ drop ?n (load_mem (w_mem s) p (unat (f_data_size f)))"
      by (intro nth_equalityI) (auto simp: store_mem_def nth_append min_def)
    then have "value_content (sub_content env d) f p (store_mem p (take ?n ?src) (w_mem s)) = v"
      using field_body_significant [OF mem, of "load_mem (w_mem s) p (unat (f_data_size f))"] False
      by (simp add: value_content_def v)
    then show ?thesis using run by (simp add: put_d_in)
  next
    case True
    let ?ptr = "f_ptr f"
    let ?body = "sub_wire env d ?ptr (sub_content env d ?ptr src m)"
    have w: "value_wire (sub_wire env d) f v = varint (length ?body) @ ?body" by (simp add: v value_wire_sub [OF True] Let_def)
    have ty: "typed_msg env d (env_fields env ?ptr) (unat (f_data_size f))" and pt: "?ptr \<noteq> 0"
      using tf True wire_field_types(6) [OF f] by (simp_all add: typed_field_def)
    have so: "sub_ok env d ?ptr src m" using ok True by (simp add: value_ok_def)
    have len: "length ?body < 2 ^ 32" using s(2) unfolding w by simp
    let ?t = "s\<lparr>d_in := istream ?body (rest @ j) e\<rparr>"
    have tin: "d_in ?t = istream ?body (rest @ j) e" by simp
    have fr: "htype f = PB_HTYPE_REPEATED \<or> sub_fresh env d ?ptr p (w_mem ?t)" using fresh True by simp
    obtain s1 where s1: "msg (htype f = PB_HTYPE_REPEATED) ?ptr p ?t = (Some (), s1)" "d_in s1 = istream [] (rest @ j) e"
      "sub_content env d ?ptr p (w_mem s1) = sub_content env d ?ptr src m"
      by (rule readsD [OF msg(2) ty so len tin fr])
    have "pb_dec_submessage msg f p s = (Some (), s1\<lparr>d_in := istream rest j e\<rparr>)"
      using substream_all [where body = ?body and rest = rest and j = j and e = e and s = s and t = s1
          and F = "\<lambda>_. msg (htype f = PB_HTYPE_REPEATED) ?ptr p" and G = "\<lambda>ok sub. op_seq (on_in (pb_close_string_substream sub)) (status ok)"]
        s(1) len s1(1,2) pt by (simp add: pb_dec_submessage_def w)
    then show ?thesis using s1(3) True by (simp add: pb_decoder_def v value_content_def)
  qed
  then show ?thesis using that frame_at [OF decoder_own [OF tf msg(1)]] by blast
qed

section \<open>Default values leave the stream alone\<close>

lemma each_field_d_in:
  assumes "\<And>it s. d_in (work it s) = d_in s"
  shows "d_in (each_field work fs dest s) = d_in s"
proof -
  have "d_in (iter_loop work k it s) = d_in s" for k it s
    by (induction k arbitrary: it s) (simp_all add: assms Let_def split: prod.split)
  then show ?thesis by (simp add: each_field_def split: prod.split)
qed

lemma default_d_in: "d_in (pb_field_set_to_default env n it s) = d_in s"
proof (induction n arbitrary: it s)
  case (Suc n)
  have ext: "d_in (defaults_of_extensions env (pb_field_set_to_default env n) k e s) = d_in s" for k e s
    by (induction k arbitrary: e s) (simp_all add: stuck_def Suc put_def Let_def)
  show ?case
    by (simp add: field_default_def ext each_field_d_in [OF Suc] put_def put_size_def put_ptr_def Let_def)
qed (simp add: stuck_def)

lemma defaults_d_in [simp]: "d_in (pb_message_set_to_defaults env n fs dest s) = d_in s"
  by (simp add: pb_message_set_to_defaults_def each_field_d_in default_d_in)

section \<open>Reading a field of one value\<close>

lemma value_content_keep:
  assumes "typed_field env d f" "\<And>a. a \<in> region p (unat (f_data_size f)) \<Longrightarrow> m a = m' a"
  shows "value_content (sub_content env d) f p m = value_content (sub_content env d) f p m'"
    and "fresh_value (sub_fresh env d) f p m = fresh_value (sub_fresh env d) f p m'"
proof -
  have "load_mem m p (unat (f_data_size f)) = load_mem m' p (unat (f_data_size f))"
    by (rule load_mem_cong) (use assms(2) in \<open>simp add: region_def\<close>)
  moreover have "sub_content env d (f_ptr f) p m = sub_content env d (f_ptr f) p m' \<and> sub_fresh env d (f_ptr f) p m = sub_fresh env d (f_ptr f) p m'"
    if "ltype f = PB_LTYPE_SUBMESSAGE"
  proof -
    have ty: "typed_msg env d (env_fields env (f_ptr f)) (unat (f_data_size f))" using assms(1) that by (simp add: typed_field_def)
    show ?thesis by (intro conjI message_content_local [OF ty] fresh_message_local [OF ty] assms(2))
  qed
  ultimately show "value_content (sub_content env d) f p m = value_content (sub_content env d) f p m'"
    "fresh_value (sub_fresh env d) f p m = fresh_value (sub_fresh env d) f p m'"
    by (simp_all add: value_content_def fresh_value_def)
qed

lemma get_count_at [simp]: "get_count (iter_at fs dest i) t = mem_size (w_mem t) (dest + size_off fs i)"
    "put_count (iter_at fs dest i) v t = put_size (dest + size_off fs i) v t"
  by (simp_all add: get_count_def put_count_def)

lemma put_size_d_in: "d_in (put_size a v s) = d_in s"
  by (simp add: put_size_def put_def)

text \<open>The value of a field that is not an array lies apart from its size word.\<close>

lemma value_apart:
  assumes "typed_msg env (Suc d) fs sz" "i < length fs - 1" "htype (fs ! i) \<noteq> PB_HTYPE_REPEATED"
    and "a \<in> region (dest + data_off fs i) (unat (f_data_size (fs ! i)))"
  shows "a < dest + size_off fs i \<or> dest + size_off fs i + size_width fs i \<le> a"
proof -
  have "roomy fs i" using assms(1,2) tidy_roomy by simp
  then show ?thesis using data_size_apart [of fs i a dest 0] assms(3,4) by (simp add: item_room_def)
qed

lemma one_into:
  assumes ty: "typed_msg env (Suc d) fs sz" and i: "i < length fs - 1" and msg: "msg_good env d msg" "reads env d msg"
    and ok: "field_ok (sub_ok env d) fs src i m" and h: "htype (fs ! i) \<noteq> PB_HTYPE_REPEATED"
    and v: "field_content (sub_content env d) fs src i m = [v]"
    and t: "d_in t = istream (value_wire (sub_wire env d) (fs ! i) v @ rest) j e" "length (value_wire (sub_wire env d) (fs ! i) v) < 2 ^ 32"
    and sub: "ltype (fs ! i) = PB_LTYPE_SUBMESSAGE \<longrightarrow> sub_fresh env d (f_ptr (fs ! i)) (dest + data_off fs i) (w_mem t)"
    and run: "\<And>s'. pb_decoder env msg (fs ! i) (dest + data_off fs i) t = (Some (), s') \<Longrightarrow> step = (Some (), s')"
    and res: "\<And>s'. value_content (sub_content env d) (fs ! i) (dest + data_off fs i) (w_mem s') = v
      \<Longrightarrow> frame (region (dest + data_off fs i) (unat (f_data_size (fs ! i)))) t s'
      \<Longrightarrow> field_content (sub_content env d) fs dest i (w_mem s') = [v]"
  obtains s' where "step = (Some (), s')" "d_in s' = istream rest j e" "field_content (sub_content env d) fs dest i (w_mem s') = [v]"
proof -
  let ?f = "fs ! i" and ?p = "dest + data_off fs i"
  have f: "wire_field env d ?f" by (rule wire_fields [OF ty i])
  have vok: "value_ok (sub_ok env d) ?f (src + data_off fs i) m" and vc: "v = value_content (sub_content env d) ?f (src + data_off fs i) m"
    using ok v h htype_cases [of "f_type ?f"] by (auto simp: field_ok_def field_content_def Let_def split: if_splits)
  obtain s' where s': "pb_decoder env msg ?f ?p t = (Some (), s')" "d_in s' = istream rest j e"
    "value_content (sub_content env d) ?f ?p (w_mem s') = v" "frame (region ?p (unat (f_data_size ?f))) t s'"
    by (rule value_read [OF f msg vok vc t disjI2 [OF sub]])
  show thesis by (rule that [OF run [OF s'(1)] s'(2) res [OF s'(3,4)]])
qed

text \<open>An optional field keeps the mark that the decoder sets before it reads the value.\<close>

lemma optional_held:
  assumes ty: "typed_msg env (Suc d) fs sz" and i: "i < length fs - 1" and h: "htype (fs ! i) = PB_HTYPE_OPTIONAL"
    and v: "field_content (sub_content env d) fs src i m = [v]"
    and s': "value_content (sub_content env d) (fs ! i) (dest + data_off fs i) (w_mem s') = v"
      "frame (region (dest + data_off fs i) (unat (f_data_size (fs ! i)))) t s'"
    and mark: "size_off fs i \<noteq> data_off fs i \<Longrightarrow> w_mem t (dest + size_off fs i) \<noteq> 0"
  shows "field_content (sub_content env d) fs dest i (w_mem s') = [v]"
proof -
  let ?q = "dest + size_off fs i"
  have "w_mem s' ?q \<noteq> 0" if "size_off fs i \<noteq> data_off fs i"
  proof -
    have "?q \<notin> region (dest + data_off fs i) (unat (f_data_size (fs ! i)))"
      using value_apart [OF ty i, of ?q dest] that h by (auto simp: size_width_def)
    then have "w_mem s' ?q = w_mem t ?q" using s'(2) unfolding frame_def by blast
    then show ?thesis using mark [OF that] by simp
  qed
  moreover have "\<not> void (fs ! i) v" if "size_off fs i = data_off fs i"
    using v that h by (auto simp: field_content_def Let_def split: if_splits)
  ultimately show ?thesis using h s'(1) by (simp add: field_content_def Let_def)
qed

text \<open>A union keeps the tag of the member that the decoder is about to read.\<close>

lemma oneof_held:
  assumes ty: "typed_msg env (Suc d) fs sz" and i: "i < length fs - 1" and h: "htype (fs ! i) = PB_HTYPE_ONEOF"
    and s': "value_content (sub_content env d) (fs ! i) (dest + data_off fs i) (w_mem s') = v"
      "frame (region (dest + data_off fs i) (unat (f_data_size (fs ! i)))) t s'"
    and tag: "mem_size (w_mem t) (dest + size_off fs i) = f_tag (fs ! i)"
  shows "field_content (sub_content env d) fs dest i (w_mem s') = [v]"
proof -
  have "mem_size (w_mem s') (dest + size_off fs i) = mem_size (w_mem t) (dest + size_off fs i)"
    using value_apart [OF ty i, of _ dest] h s'(2) by (intro mem_size_cong) (fastforce simp: frame_def size_width_def)
  then show ?thesis using h s'(1) tag by (simp add: field_content_def Let_def)
qed

text \<open>What the decoder prepares before it reads a value: the mark of an optional field, the cleared
  submessage and the tag of a union member.\<close>

definition prepared :: "'h pb_env \<Rightarrow> nat \<Rightarrow> pb_field list \<Rightarrow> nat \<Rightarrow> nat \<Rightarrow> 'h dstate \<Rightarrow> 'h dstate" where
  "prepared env n fs dest i s =
     (let f = fs ! i; p = dest + data_off fs i; q = dest + size_off fs i in
      if htype f = PB_HTYPE_OPTIONAL then (if q \<noteq> p then put q [1] s else s)
      else if htype f = PB_HTYPE_ONEOF then
        put_size q (f_tag f)
          (if ltype f = PB_LTYPE_SUBMESSAGE
           then pb_message_set_to_defaults env n (env_fields env (f_ptr f)) p (put p (replicate (unat (f_data_size f)) 0) s) else s)
      else s)"

lemma prepared_fresh:
  assumes ty: "typed_msg env (Suc d) fs sz" "Suc d \<le> n" and i: "i < length fs - 1" and h: "htype (fs ! i) \<noteq> PB_HTYPE_REPEATED"
    and l: "ltype (fs ! i) = PB_LTYPE_SUBMESSAGE" and fresh: "fresh_field (sub_fresh env d) fs dest i (w_mem s)"
  shows "sub_fresh env d (f_ptr (fs ! i)) (dest + data_off fs i) (w_mem (prepared env n fs dest i s))"
proof -
  let ?f = "fs ! i" and ?p = "dest + data_off fs i" and ?q = "dest + size_off fs i"
  let ?t = "prepared env n fs dest i s"
  have tf: "typed_field env d ?f" using wire_fields [OF ty(1) i] by (simp add: wire_field_def)
  note apart = value_apart [OF ty(1) i h, of _ dest]
  have keep: "sub_fresh env d (f_ptr ?f) ?p (w_mem ?t)"
    if "fresh_value (sub_fresh env d) ?f ?p (w_mem u)" "\<And>a. a < ?q \<or> ?q + size_width fs i \<le> a \<Longrightarrow> w_mem u a = w_mem ?t a" for u
    using value_content_keep(2) [OF tf that(2) [OF apart]] that(1) l by (simp add: fresh_value_def)
  consider "htype ?f = PB_HTYPE_REQUIRED" | "htype ?f = PB_HTYPE_OPTIONAL" | "htype ?f = PB_HTYPE_ONEOF"
    using htype_cases h by blast
  then show ?thesis
  proof cases
    case 3
    let ?u = "pb_message_set_to_defaults env n (env_fields env (f_ptr ?f)) ?p (put ?p (replicate (unat (f_data_size ?f)) 0) s)"
    have "fresh_value (sub_fresh env d) ?f ?p (w_mem ?u)"
      using defaults_fresh [OF sub_in_area [OF ty(1) i l], of n ?p "put ?p (replicate (unat (f_data_size ?f)) 0) s"] ty(2) l
      by (simp add: fresh_value_def)
    then show ?thesis
      by (rule keep) (use 3 l in \<open>auto simp: prepared_def size_width_def put_size_def store_mem_def Let_def\<close>)
  next
    case 2
    then show ?thesis
      by (intro keep [of s]) (use fresh in \<open>auto simp: fresh_field_def prepared_def size_width_def store_mem_def Let_def\<close>)
  next
    case 1
    then show ?thesis
      by (intro keep [of s]) (use fresh in \<open>simp_all add: fresh_field_def prepared_def\<close>)
  qed
qed

lemma prepared_d_in: "d_in (prepared env n fs dest i s) = d_in s"
  by (simp add: prepared_def put_d_in put_size_d_in Let_def)

lemma one_read:
  assumes ty: "typed_msg env (Suc d) fs sz" "Suc d \<le> n" and i: "i < length fs - 1" and msg: "msg_good env d msg" "reads env d msg"
    and ok: "field_ok (sub_ok env d) fs src i m" and h: "htype (fs ! i) \<noteq> PB_HTYPE_REPEATED"
    and v: "field_content (sub_content env d) fs src i m = [v]"
    and s: "d_in s = istream (value_wire (sub_wire env d) (fs ! i) v @ rest) j e" "length (value_wire (sub_wire env d) (fs ! i) v) < 2 ^ 32"
    and fresh: "fresh_field (sub_fresh env d) fs dest i (w_mem s)"
  obtains s' where "decode_static_field env n (pb_decoder env msg) wt (iter_at fs dest i) s = (Some (), s')"
    "d_in s' = istream rest j e" "field_content (sub_content env d) fs dest i (w_mem s') = [v]"
proof -
  note finish = that
  let ?f = "fs ! i" and ?q = "dest + size_off fs i" and ?t = "prepared env n fs dest i s"
  let ?step = "decode_static_field env n (pb_decoder env msg) wt (iter_at fs dest i) s"
  have lay: "layout fs sz" using ty(1) by simp
  have t: "d_in ?t = istream (value_wire (sub_wire env d) ?f v @ rest) j e" using s(1) by (simp add: prepared_d_in)
  note held = optional_held [OF ty(1) i _ v, where dest = dest and t = ?t] oneof_held [OF ty(1) i, where dest = dest and t = ?t and v = v]
  have other: "mem_size (w_mem s) ?q \<noteq> f_tag ?f" if "htype ?f = PB_HTYPE_ONEOF"
    using fresh that layout_tag [OF lay i] by (simp add: fresh_field_def Let_def)
  show thesis
  proof (rule one_into [OF ty(1) i msg ok h v t s(2) impI [OF prepared_fresh [OF ty i h _ fresh]], where step = ?step])
    show "?step = (Some (), s')" if "pb_decoder env msg ?f (dest + data_off fs i) ?t = (Some (), s')" for s'
      using that other htype_cases [of "f_type ?f"] h
      by (auto simp: prepared_def decode_static_field_def op_seq_def op_bind_def act_def Let_def split: if_splits)
    show "field_content (sub_content env d) fs dest i (w_mem s') = [v]"
      if "value_content (sub_content env d) ?f (dest + data_off fs i) (w_mem s') = v"
        "frame (region (dest + data_off fs i) (unat (f_data_size ?f))) ?t s'" for s'
      using held [OF _ that] that(1) htype_cases [of "f_type ?f"] h
      by (auto simp: prepared_def field_content_def store_mem_def Let_def)
  qed (assumption, rule finish)
qed

section \<open>Reading an array\<close>

text \<open>The first items of an array have been read.\<close>

definition items_at :: "'h pb_env \<Rightarrow> nat \<Rightarrow> pb_field list \<Rightarrow> nat \<Rightarrow> nat \<Rightarrow> pb_tree list \<Rightarrow> mem \<Rightarrow> bool" where
  "items_at env d fs dest i vs m \<longleftrightarrow>
     (\<forall>k<length vs. value_content (sub_content env d) (fs ! i) (dest + data_off fs i + unat (f_data_size (fs ! i)) * k) m = vs ! k)"

lemma items_content:
  assumes h: "htype (fs ! i) = PB_HTYPE_REPEATED" and n: "length vs \<le> unat (f_array_size (fs ! i))"
    and count: "unat (mem_size m (dest + size_off fs i)) = length vs"
  shows "field_content (sub_content env d) fs dest i m = vs \<longleftrightarrow> items_at env d fs dest i vs m"
proof -
  have "field_content (sub_content env d) fs dest i m
      = map (\<lambda>k. value_content (sub_content env d) (fs ! i) (dest + data_off fs i + unat (f_data_size (fs ! i)) * k) m) [0..<length vs]"
    using h n by (simp add: field_content_def Let_def count min_absorb1)
  then show ?thesis unfolding items_at_def list_eq_iff_nth_eq [of _ vs] by simp
qed

lemma items_put_size:
  assumes f: "typed_field env d (fs ! i)" "roomy fs i" "htype (fs ! i) = PB_HTYPE_REPEATED" and n: "length vs \<le> unat (f_array_size (fs ! i))"
  shows "items_at env d fs dest i vs (w_mem (put_size (dest + size_off fs i) c s)) \<longleftrightarrow> items_at env d fs dest i vs (w_mem s)"
proof -
  have "value_content (sub_content env d) (fs ! i) (dest + data_off fs i + unat (f_data_size (fs ! i)) * k) (w_mem (put_size (dest + size_off fs i) c s))
      = value_content (sub_content env d) (fs ! i) (dest + data_off fs i + unat (f_data_size (fs ! i)) * k) (w_mem s)"
    if "k < length vs" for k
  proof (rule value_content_keep(1) [OF f(1)])
    fix a assume a: "a \<in> region (dest + data_off fs i + unat (f_data_size (fs ! i)) * k) (unat (f_data_size (fs ! i)))"
    have "k < item_room (fs ! i)" using that n f(3) by (simp add: item_room_def)
    from data_size_apart [OF f(2) a this]
    show "w_mem (put_size (dest + size_off fs i) c s) a = w_mem s a"
      using f(3) by (auto simp: size_width_def put_size_def store_mem_def)
  qed
  then show ?thesis by (simp add: items_at_def)
qed

lemma item_read:
  assumes f: "wire_field env d (fs ! i)" "roomy fs i" "htype (fs ! i) = PB_HTYPE_REPEATED" and msg: "msg_good env d msg" "reads env d msg"
    and n: "length vs < unat (f_array_size (fs ! i))" and items: "items_at env d fs dest i vs (w_mem s)"
    and ok: "value_ok (sub_ok env d) (fs ! i) src m" and v: "v = value_content (sub_content env d) (fs ! i) src m"
    and s: "d_in s = istream (value_wire (sub_wire env d) (fs ! i) v @ rest) j e" "length (value_wire (sub_wire env d) (fs ! i) v) < 2 ^ 32"
  obtains s' where "pb_decoder env msg (fs ! i) (dest + data_off fs i + unat (f_data_size (fs ! i)) * length vs) s = (Some (), s')"
    "d_in s' = istream rest j e" "items_at env d fs dest i (vs @ [v]) (w_mem s')"
    "mem_size (w_mem s') (dest + size_off fs i) = mem_size (w_mem s) (dest + size_off fs i)"
proof -
  note finish = that
  let ?f = "fs ! i" and ?p = "\<lambda>k. dest + data_off fs i + unat (f_data_size (fs ! i)) * k" and ?n = "unat (f_data_size (fs ! i))"
  have tf: "typed_field env d ?f" using f(1) by (simp add: wire_field_def)
  obtain s' where s': "pb_decoder env msg ?f (?p (length vs)) s = (Some (), s')" "d_in s' = istream rest j e"
    "value_content (sub_content env d) ?f (?p (length vs)) (w_mem s') = v" "frame (region (?p (length vs)) ?n) s s'"
    by (rule value_read [OF f(1) msg ok v s disjI1 [OF f(3)]])
  have own: "w_mem s' a = w_mem s a" if "a \<notin> region (?p (length vs)) ?n" for a using s'(4) that by (simp add: frame_def)
  have "value_content (sub_content env d) ?f (?p k) (w_mem s') = vs ! k" if k: "k < length vs" for k
  proof -
    have "?n * Suc k \<le> ?n * length vs" using k by (intro mult_le_mono2) simp
    then have "value_content (sub_content env d) ?f (?p k) (w_mem s') = value_content (sub_content env d) ?f (?p k) (w_mem s)"
      by (intro value_content_keep(1) [OF tf] own) (auto simp: region_def)
    then show ?thesis using items k by (simp add: items_at_def)
  qed
  then have "items_at env d fs dest i (vs @ [v]) (w_mem s')" using s'(3) by (auto simp: items_at_def nth_append less_Suc_eq)
  moreover have "mem_size (w_mem s') (dest + size_off fs i) = mem_size (w_mem s) (dest + size_off fs i)"
    using data_size_apart [OF f(2), of _ dest "length vs"] n f(3)
    by (intro mem_size_cong own) (fastforce simp: item_room_def size_width_def)
  ultimately show thesis by (rule finish [OF s'(1,2)])
qed

lemma count_next: "unat (c :: u32) = k \<Longrightarrow> k < unat (r :: u32) \<Longrightarrow> unat (c + 1) = k + 1"
  using unat_u32_bound [of r] by (subst unat_word_ariths) simp

lemma value_wire_nonempty:
  assumes "wire_field env d f"
  shows "value_wire (sub_wire env d) f (value_content (sub_content env d) f p m) \<noteq> []"
proof (cases "ltype f = PB_LTYPE_SUBMESSAGE")
  case True
  then show ?thesis by (simp add: value_wire_sub Let_def)
next
  case False
  have "field_wire (ltype f) (load_mem m p (unat (f_data_size f))) \<noteq> []"
  proof (cases "ltype f = 4 \<or> ltype f = 5")
    case True
    then show ?thesis using wire_field_types(4,5) [OF assms] by (auto simp: field_wire_def load_mem_def)
  next
    case False
    then show ?thesis by (simp add: field_wire_def)
  qed
  then show ?thesis using False by (simp add: value_wire_leaf)
qed

text \<open>The items of a packed array.\<close>

definition stored_value :: "'h pb_env \<Rightarrow> nat \<Rightarrow> pb_field \<Rightarrow> mem \<Rightarrow> pb_tree \<Rightarrow> bool" where
  "stored_value env d f m v \<longleftrightarrow> (\<exists>q. value_ok (sub_ok env d) f q m \<and> v = value_content (sub_content env d) f q m)"

lemma packed_read:
  assumes f: "wire_field env d (fs ! i)" "roomy fs i" "htype (fs ! i) = PB_HTYPE_REPEATED" and msg: "msg_good env d msg" "reads env d msg"
  shows "list_all (stored_value env d (fs ! i) m) us \<Longrightarrow> length (vs @ us) \<le> unat (f_array_size (fs ! i)) \<Longrightarrow> items_at env d fs dest i vs (w_mem s)
    \<Longrightarrow> unat (mem_size (w_mem s) (dest + size_off fs i)) = length vs
    \<Longrightarrow> d_in s = istream (concat (map (value_wire (sub_wire env d) (fs ! i)) us)) j e
    \<Longrightarrow> length (concat (map (value_wire (sub_wire env d) (fs ! i)) us)) < 2 ^ 32
    \<Longrightarrow> length (concat (map (value_wire (sub_wire env d) (fs ! i)) us)) \<le> k
    \<Longrightarrow> \<exists>s'. packed_loop (pb_decoder env msg) (iter_at fs dest i) k s = (Some (), s') \<and> d_in s' = istream [] j e
        \<and> items_at env d fs dest i (vs @ us) (w_mem s') \<and> unat (mem_size (w_mem s') (dest + size_off fs i)) = length (vs @ us)"
proof (induction us arbitrary: vs s k)
  case Nil
  then show ?case by (cases k) simp_all
next
  case (Cons u us)
  let ?q = "dest + size_off fs i" and ?w = "value_wire (sub_wire env d) (fs ! i)" and ?r = "f_array_size (fs ! i)"
  have us: "stored_value env d (fs ! i) m u" "list_all (stored_value env d (fs ! i) m) us" using Cons.prems(1) by simp_all
  obtain q where q: "value_ok (sub_ok env d) (fs ! i) q m" "u = value_content (sub_content env d) (fs ! i) q m"
    using us(1) unfolding stored_value_def by blast
  have ne: "0 < length (?w u)" using value_wire_nonempty [OF f(1)] q(2) by simp
  then obtain k' where k: "k = Suc k'" using Cons.prems(7) by (cases k) simp_all
  have lt: "length vs < unat ?r" using Cons.prems(2) by simp
  have tf: "typed_field env d (fs ! i)" using f(1) by (simp add: wire_field_def)
  have s: "d_in s = istream (?w u @ concat (map ?w us)) j e" "length (?w u) < 2 ^ 32" using Cons.prems(5,6) by simp_all
  obtain s1 where s1: "pb_decoder env msg (fs ! i) (dest + data_off fs i + unat (f_data_size (fs ! i)) * length vs) s = (Some (), s1)"
    "d_in s1 = istream (concat (map ?w us)) j e" "items_at env d fs dest i (vs @ [u]) (w_mem s1)"
    "mem_size (w_mem s1) ?q = mem_size (w_mem s) ?q"
    by (rule item_read [OF f msg lt Cons.prems(3) q s])
  define c where "c = mem_size (w_mem s) ?q"
  have c: "unat c = length vs" "unat (c + 1) = length vs + 1"
    using Cons.prems(4) count_next [of c "length vs" ?r] lt by (simp_all add: c_def)
  let ?s2 = "put_size ?q (c + 1) s1"
  have "length (?w u) + length (concat (map ?w us)) \<le> Suc k'" using Cons.prems(7) by (simp add: k)
  then have le: "length (concat (map ?w us)) \<le> k'" using ne by linarith
  have "items_at env d fs dest i (vs @ [u]) (w_mem ?s2)"
    using s1(3) lt by (subst items_put_size [OF tf f(2,3)]) simp_all
  then have "\<exists>s'. packed_loop (pb_decoder env msg) (iter_at fs dest i) k' ?s2 = (Some (), s') \<and> d_in s' = istream [] j e
      \<and> items_at env d fs dest i ((vs @ [u]) @ us) (w_mem s') \<and> unat (mem_size (w_mem s') ?q) = length ((vs @ [u]) @ us)"
    using Cons.prems(2,6) s1(2) c(2) le by (intro Cons.IH [OF us(2)]) (simp_all add: put_size_d_in)
  moreover have "packed_loop (pb_decoder env msg) (iter_at fs dest i) k s = packed_loop (pb_decoder env msg) (iter_at fs dest i) k' ?s2"
    using s1(1,4) s(1) ne c lt by (simp add: k c_def [symmetric] op_seq_def op_bind_def act_def word_less_nat_alt)
  ultimately show ?case by simp
qed

section \<open>Turns of the main loop\<close>

text \<open>The bits of the required fields seen, when the first \<open>r\<close> of them were.\<close>

definition seen_words :: "nat \<Rightarrow> u32 list" where
  "seen_words r = [mask (min 32 r), mask (min 32 (r - 32))]"

lemma mask_set_bit: "r < 32 \<Longrightarrow> (mask r :: u32) OR push_bit r 1 = mask (Suc r)"
  by (rule bit_word_eqI) (auto simp: bit_simps)

lemma seen_words_step:
  "(if r < 64 then (seen_words r)[r div 32 := seen_words r ! (r div 32) OR push_bit (r mod 32) 1] else seen_words r) = seen_words (Suc r)"
proof -
  consider "r < 32" | "32 \<le> r" "r < 64" | "64 \<le> r" by linarith
  then show ?thesis
  proof cases
    case 1
    then have "min 32 r = r" "min 32 (Suc r) = Suc r" by simp_all
    then show ?thesis using 1 mask_set_bit [OF 1] by (simp add: seen_words_def)
  next
    case 2
    then obtain k where k: "r = 32 + k" "k < 32" using le_Suc_ex by (metis add_less_cancel_left numeral_Bit0)
    then have "r div 32 = 1" "r mod 32 = r - 32" "Suc r - 32 = Suc (r - 32)" by simp_all
    moreover have "min 32 r = 32" "min 32 (Suc r) = 32" "min 32 (r - 32) = r - 32" "min 32 (Suc (r - 32)) = Suc (r - 32)" using 2 by simp_all
    moreover have "(mask (r - 32) :: u32) OR push_bit (r - 32) 1 = mask (Suc (r - 32))" using 2 by (intro mask_set_bit) simp
    ultimately show ?thesis using 2 by (simp add: seen_words_def)
  next
    case 3
    then show ?thesis by (simp add: seen_words_def)
  qed
qed

definition l_ready :: "pb_field list \<Rightarrow> nat \<Rightarrow> nat \<Rightarrow> pb_locals \<Rightarrow> bool" where
  "l_ready fs dest i l \<longleftrightarrow> (\<exists>x<length fs - 1. l_iter l = iter_at fs dest x)
     \<and> l_fields_seen l = seen_words (required_before fs i) \<and> l_fixed_count_field l = None"

lemma wire_type_bound: "wire_type_of t < 8"
  by (simp add: wire_type_of_def)

lemma turn_read:
  assumes ty: "typed_msg env (Suc d) fs sz" and i: "i < length fs - 1" and l: "l_ready fs dest i l" and wt: "wt < 8"
    and s: "d_in s = istream (tag_wire (fs ! i) wt @ rest) j e"
    and un: "htype (fs ! i) = PB_HTYPE_ONEOF \<Longrightarrow> mem_size (w_mem s) (dest + size_off fs i) = 0"
    and run: "decode_static_field env n (pb_decoder env msg) wt (iter_at fs dest i) (s\<lparr>d_in := istream rest j e\<rparr>) = (Some (), s')"
  obtains l' where "decode_turn env n msg l s = (Some (Some l'), s')" "l_ready fs dest (Suc i) l'"
proof -
  let ?f = "fs ! i" and ?it = "iter_at fs dest i" and ?s = "s\<lparr>d_in := istream rest j e\<rparr>"
  have lay: "layout fs sz" "\<forall>f\<in>set (butlast fs). static_field f" using ty by (blast elim: typed_msgE)+
  have f: "wire_field env d ?f" by (rule wire_fields [OF ty i])
  note st = wire_field_static [OF f]
  have rm: "roomy fs i" using ty i tidy_roomy by simp
  obtain x where x: "x < length fs - 1" "l_iter l = iter_at fs dest x" using l by (auto simp: l_ready_def)
  have find: "pb_field_iter_find (l_iter l) (f_tag ?f) = (True, ?it)"
    unfolding x(2) using iter_find_tag [OF lay iter_ok_at [OF x(1)] i, of dest] by auto
  have tag: "pb_decode_tag (d_in s) = ((Some (wt, f_tag ?f), False), istream rest j e)"
    unfolding s tag_wire_def using f wt by (intro pb_decode_tag_varint) (simp_all add: wire_field_def)
  have nf: "\<not> (htype ?f = PB_HTYPE_REPEATED \<and> it_pSize ?it = At (it_pData ?it))"
    using rm by (auto simp: roomy_def Let_def)
  have field: "decode_field env n msg wt ?it ?s = (Some ?it, s')"
    using run un st
    by (simp add: decode_field_def op_bind_def op_map_def op_ret_def pb_release_union_field_def Let_def)
  let ?l = "l\<lparr>l_iter := ?it, l_fields_seen := see_required ?it (l_fields_seen l)\<rparr>"
  have "decode_known env n msg wt (l\<lparr>l_iter := ?it\<rparr>) ?s = (Some ?l, s')"
    using nf field
    by (cases "htype ?f = PB_HTYPE_REPEATED") (simp_all add: decode_known_def op_bind_def op_map_def op_ret_def Let_def)
  then have "decode_turn env n msg l s = (Some (Some ?l), s')"
    by (simp add: decode_turn_def tag find op_map_def op_bind_def op_ret_def Let_def)
  moreover have "see_required ?it (l_fields_seen l) = seen_words (required_before fs (Suc i))"
    using l seen_words_step [of "required_before fs i"] i
    by (simp add: see_required_def l_ready_def required_before_Suc Let_def split: if_splits)
  ultimately show thesis using i l that by (auto simp: l_ready_def)
qed

definition reaches :: "(pb_locals \<Rightarrow> ('h dstate, pb_locals option) opn) \<Rightarrow> pb_locals \<times> 'h dstate \<Rightarrow> pb_locals \<times> 'h dstate \<Rightarrow> bool" where
  "reaches turn p p' \<longleftrightarrow> (\<forall>k\<ge>is_bytes_left (d_in (snd p)). \<exists>k'\<ge>is_bytes_left (d_in (snd p')).
     decode_loop turn k (fst p) (snd p) = decode_loop turn k' (fst p') (snd p'))"

lemma reaches_refl: "reaches turn p p"
  by (auto simp: reaches_def)

lemma reaches_trans: "reaches turn p p' \<Longrightarrow> reaches turn p' p'' \<Longrightarrow> reaches turn p p''"
  unfolding reaches_def by metis

lemma reaches_turn:
  assumes "turn l s = (Some (Some l'), s')" "is_bytes_left (d_in s') < is_bytes_left (d_in s)"
  shows "reaches turn (l, s) (l', s')"
  unfolding reaches_def
proof (intro allI impI)
  fix k assume "is_bytes_left (d_in (snd (l, s))) \<le> k"
  then obtain k' where k: "k = Suc k'" "is_bytes_left (d_in s') \<le> k'" using assms(2) by (cases k) simp_all
  moreover have "decode_loop turn k l s = decode_loop turn k' l' s'"
    using assms by (simp add: k(1) op_bind_def)
  ultimately show "\<exists>k'\<ge>is_bytes_left (d_in (snd (l', s'))). decode_loop turn k (fst (l, s)) (snd (l, s))
      = decode_loop turn k' (fst (l', s')) (snd (l', s'))" by auto
qed

section \<open>Reading a field\<close>

lemma frame_d_in: "frame A (s\<lparr>d_in := i\<rparr>) s' \<Longrightarrow> a \<notin> A \<Longrightarrow> w_mem s' a = w_mem s a"
  by (simp add: frame_def)

text \<open>A packed array in one turn, the items of another array in one turn each.\<close>

lemma packed_field:
  assumes ty: "typed_msg env (Suc d) fs sz" and i: "i < length fs - 1" and msg: "msg_good env d msg" "reads env d msg"
    and h: "htype (fs ! i) = PB_HTYPE_REPEATED" "ltype (fs ! i) \<le> PB_LTYPE_LAST_PACKABLE"
    and us: "list_all (stored_value env d (fs ! i) m) us" "length us \<le> unat (f_array_size (fs ! i))"
    and w: "w = concat (map (value_wire (sub_wire env d) (fs ! i)) us)" "length w < 2 ^ 32"
    and s: "d_in s = istream (varint (length w) @ w @ rest) j e" and empty: "mem_size (w_mem s) (dest + size_off fs i) = 0"
  obtains s' where "decode_static_field env n (pb_decoder env msg) PB_WT_STRING (iter_at fs dest i) s = (Some (), s')"
    "d_in s' = istream rest j e" "field_content (sub_content env d) fs dest i (w_mem s') = us"
proof -
  have f: "wire_field env d (fs ! i)" by (rule wire_fields [OF ty i])
  have rm: "roomy fs i" using ty i tidy_roomy by simp
  let ?s = "s\<lparr>d_in := istream w (rest @ j) e\<rparr>" and ?it = "iter_at fs dest i"
  have "\<exists>s1. packed_loop (pb_decoder env msg) ?it (length w) ?s = (Some (), s1) \<and> d_in s1 = istream [] (rest @ j) e
      \<and> items_at env d fs dest i ([] @ us) (w_mem s1) \<and> unat (mem_size (w_mem s1) (dest + size_off fs i)) = length ([] @ us)"
    using w us empty by (intro packed_read [OF f rm h(1) msg]) (simp_all add: items_at_def)
  then obtain s1 where s1: "packed_loop (pb_decoder env msg) ?it (length w) ?s = (Some (), s1)" "d_in s1 = istream [] (rest @ j) e"
    "items_at env d fs dest i us (w_mem s1)" "unat (mem_size (w_mem s1) (dest + size_off fs i)) = length us" by auto
  have "decode_static_field env n (pb_decoder env msg) PB_WT_STRING ?it s = (Some (), s1\<lparr>d_in := istream rest j e\<rparr>)"
    using substream_all [where s = s and t = s1 and body = w and rest = rest and j = j and e = e
        and F = "\<lambda>sub. packed_loop (pb_decoder env msg) ?it (is_bytes_left sub)"
        and G = "\<lambda>ok sub. if is_bytes_left sub \<noteq> 0 then d_error ''array overflow'' else op_seq (on_in (pb_close_string_substream sub)) (status ok)"]
      s w(2) s1(1,2) h by (simp add: decode_static_field_def Let_def)
  moreover have "field_content (sub_content env d) fs dest i (w_mem s1) = us"
    using s1(3,4) us(2) by (subst items_content [OF h(1)]) simp_all
  ultimately show thesis using that by simp
qed

lemma item_field:
  assumes ty: "typed_msg env (Suc d) fs sz" and i: "i < length fs - 1" and msg: "msg_good env d msg" "reads env d msg"
    and h: "htype (fs ! i) = PB_HTYPE_REPEATED" "\<not> ltype (fs ! i) \<le> PB_LTYPE_LAST_PACKABLE"
    and v: "stored_value env d (fs ! i) m v" and n: "length vs < unat (f_array_size (fs ! i))"
    and s: "d_in s = istream (value_wire (sub_wire env d) (fs ! i) v @ rest) j e" "length (value_wire (sub_wire env d) (fs ! i) v) < 2 ^ 32"
    and items: "items_at env d fs dest i vs (w_mem s)" "unat (mem_size (w_mem s) (dest + size_off fs i)) = length vs"
  obtains s' where "decode_static_field env n (pb_decoder env msg) wt (iter_at fs dest i) s = (Some (), s')"
    "d_in s' = istream rest j e" "items_at env d fs dest i (vs @ [v]) (w_mem s')"
    "unat (mem_size (w_mem s') (dest + size_off fs i)) = length (vs @ [v])"
proof -
  note finish = that
  let ?q = "dest + size_off fs i" and ?c = "mem_size (w_mem s) (dest + size_off fs i)"
  have f: "wire_field env d (fs ! i)" by (rule wire_fields [OF ty i])
  then have tf: "typed_field env d (fs ! i)" by (simp add: wire_field_def)
  have rm: "roomy fs i" using ty i tidy_roomy by simp
  obtain a where a: "value_ok (sub_ok env d) (fs ! i) a m" "v = value_content (sub_content env d) (fs ! i) a m"
    using v unfolding stored_value_def by blast
  let ?t = "put_size ?q (?c + 1) s"
  have t: "d_in ?t = istream (value_wire (sub_wire env d) (fs ! i) v @ rest) j e" using s(1) by (simp add: put_size_d_in)
  have it: "items_at env d fs dest i vs (w_mem ?t)" using items(1) n by (subst items_put_size [OF tf rm h(1)]) simp_all
  obtain s' where s': "pb_decoder env msg (fs ! i) (dest + data_off fs i + unat (f_data_size (fs ! i)) * length vs) ?t = (Some (), s')"
    "d_in s' = istream rest j e" "items_at env d fs dest i (vs @ [v]) (w_mem s')" "mem_size (w_mem s') ?q = mem_size (w_mem ?t) ?q"
    by (rule item_read [OF f rm h(1) msg n it a t s(2)])
  have "decode_static_field env n (pb_decoder env msg) wt (iter_at fs dest i) s = (Some (), s')"
    using s'(1) h items(2) n by (simp add: decode_static_field_def Let_def word_le_nat_alt)
  moreover have "unat (mem_size (w_mem s') ?q) = length (vs @ [v])"
    using s'(4) count_next [OF items(2) n] by simp
  ultimately show thesis using finish s'(2,3) by blast
qed

lemma l_ready_Suc: "i < length fs - 1 \<Longrightarrow> htype (fs ! i) \<noteq> PB_HTYPE_REQUIRED \<Longrightarrow> l_ready fs dest (Suc i) l = l_ready fs dest i l"
  by (simp add: l_ready_def required_before_Suc)

lemma tag_wire_nonempty: "0 < length (tag_wire f wt)"
  by (simp add: tag_wire_def)

text \<open>Running one turn on a field's tag and what the field's decoder then reads.\<close>

lemma field_turn:
  assumes ty: "typed_msg env (Suc d) fs sz" "Suc d \<le> n" and i: "i < length fs - 1" and msg: "msg_good env d msg"
    and l: "l_ready fs dest i l" and wt: "wt < 8" and s: "d_in s = istream (tag_wire (fs ! i) wt @ v @ rest) j e"
    and un: "htype (fs ! i) = PB_HTYPE_ONEOF \<Longrightarrow> mem_size (w_mem s) (dest + size_off fs i) = 0"
    and run: "decode_static_field env n (pb_decoder env msg) wt (iter_at fs dest i) (s\<lparr>d_in := istream (v @ rest) j e\<rparr>) = (Some (), s')"
    and s': "d_in s' = istream rest j e"
  obtains l' where "reaches (decode_turn env n msg) (l, s) (l', s')" "l_ready fs dest (Suc i) l'"
    "\<forall>a. a \<notin> area fs dest i \<longrightarrow> w_mem s' a = w_mem s a"
proof -
  obtain l' where l': "decode_turn env n msg l s = (Some (Some l'), s')" "l_ready fs dest (Suc i) l'"
    by (rule turn_read [OF ty(1) i l wt s un run])
  have "is_bytes_left (d_in s') < is_bytes_left (d_in s)" using s s' tag_wire_nonempty [of "fs ! i" wt] by simp
  moreover have "frame (area fs dest i) (s\<lparr>d_in := istream (v @ rest) j e\<rparr>) s'"
    by (rule frame_at [OF static_field_own [OF ty i msg] run])
  ultimately show thesis using that [OF reaches_turn [of "decode_turn env n msg"]] l' frame_d_in by blast
qed

lemma items_turns:
  assumes ty: "typed_msg env (Suc d) fs sz" "Suc d \<le> n" and i: "i < length fs - 1" and msg: "msg_good env d msg" "reads env d msg"
    and h: "htype (fs ! i) = PB_HTYPE_REPEATED" "\<not> ltype (fs ! i) \<le> PB_LTYPE_LAST_PACKABLE"
  shows "list_all (stored_value env d (fs ! i) m) us \<Longrightarrow> length (vs @ us) \<le> unat (f_array_size (fs ! i))
    \<Longrightarrow> l_ready fs dest i l \<Longrightarrow> d_in s = istream (values_wire (sub_wire env d) (fs ! i) us @ rest) j e
    \<Longrightarrow> length (values_wire (sub_wire env d) (fs ! i) us) < 2 ^ 32
    \<Longrightarrow> items_at env d fs dest i vs (w_mem s) \<Longrightarrow> unat (mem_size (w_mem s) (dest + size_off fs i)) = length vs
    \<Longrightarrow> \<exists>l' s'. reaches (decode_turn env n msg) (l, s) (l', s') \<and> d_in s' = istream rest j e \<and> l_ready fs dest i l'
      \<and> items_at env d fs dest i (vs @ us) (w_mem s') \<and> unat (mem_size (w_mem s') (dest + size_off fs i)) = length (vs @ us)
      \<and> (\<forall>a. a \<notin> area fs dest i \<longrightarrow> w_mem s' a = w_mem s a)"
proof (induction us arbitrary: vs l s)
  case Nil
  then have "d_in s = istream rest j e" using h by (simp add: values_wire_def)
  then show ?case using Nil reaches_refl by force
next
  case (Cons u us)
  let ?t = "tag_wire (fs ! i) (wire_type_of (ltype (fs ! i)))" and ?v = "value_wire (sub_wire env d) (fs ! i) u"
    and ?w = "values_wire (sub_wire env d) (fs ! i) us" and ?q = "dest + size_off fs i"
  have split: "values_wire (sub_wire env d) (fs ! i) (u # us) = ?t @ ?v @ ?w" using h by (simp add: values_wire_def)
  have s: "d_in s = istream (?t @ ?v @ ?w @ rest) j e" and len: "length ?v < 2 ^ 32" "length ?w < 2 ^ 32"
    using Cons.prems(4,5) unfolding split by simp_all
  have u: "stored_value env d (fs ! i) m u" "list_all (stored_value env d (fs ! i) m) us" using Cons.prems(1) by simp_all
  have n: "length vs < unat (f_array_size (fs ! i))" using Cons.prems(2) by simp
  let ?s = "s\<lparr>d_in := istream (?v @ ?w @ rest) j e\<rparr>"
  have in_s: "d_in ?s = istream (?v @ ?w @ rest) j e" "items_at env d fs dest i vs (w_mem ?s)" "unat (mem_size (w_mem ?s) ?q) = length vs"
    using Cons.prems(6,7) by simp_all
  obtain s1 where s1: "decode_static_field env n (pb_decoder env msg) (wire_type_of (ltype (fs ! i))) (iter_at fs dest i) ?s = (Some (), s1)"
    "d_in s1 = istream (?w @ rest) j e" "items_at env d fs dest i (vs @ [u]) (w_mem s1)" "unat (mem_size (w_mem s1) ?q) = length (vs @ [u])"
    by (rule item_field [OF ty(1) i msg h u(1) n in_s(1) len(1) in_s(2,3)])
  have no: "mem_size (w_mem s) ?q = 0" if "htype (fs ! i) = PB_HTYPE_ONEOF" using that h by simp
  obtain l1 where l1: "reaches (decode_turn env n msg) (l, s) (l1, s1)" "l_ready fs dest (Suc i) l1"
    "\<forall>a. a \<notin> area fs dest i \<longrightarrow> w_mem s1 a = w_mem s a"
    by (rule field_turn [OF ty i msg(1) Cons.prems(3) wire_type_bound s no s1(1,2)])
  have ready: "l_ready fs dest i l1" using l1(2) l_ready_Suc [OF i] h by simp
  have room: "length ((vs @ [u]) @ us) \<le> unat (f_array_size (fs ! i))" using Cons.prems(2) by simp
  obtain l' s' where "reaches (decode_turn env n msg) (l1, s1) (l', s') \<and> d_in s' = istream rest j e \<and> l_ready fs dest i l'
      \<and> items_at env d fs dest i ((vs @ [u]) @ us) (w_mem s') \<and> unat (mem_size (w_mem s') ?q) = length ((vs @ [u]) @ us)
      \<and> (\<forall>a. a \<notin> area fs dest i \<longrightarrow> w_mem s' a = w_mem s1 a)"
    using Cons.IH [OF u(2) room ready s1(2) len(2) s1(3,4)] by blast
  then show ?case using reaches_trans [OF l1(1)] l1(3) by auto
qed

lemma stored_values:
  assumes ok: "field_ok (sub_ok env d) fs src i m"
  shows "list_all (stored_value env d (fs ! i) m) (field_content (sub_content env d) fs src i m)"
    and "htype (fs ! i) \<noteq> PB_HTYPE_REPEATED \<Longrightarrow> field_content (sub_content env d) fs src i m \<noteq> []
      \<Longrightarrow> \<exists>v. field_content (sub_content env d) fs src i m = [v]"
    and "htype (fs ! i) = PB_HTYPE_REPEATED
      \<Longrightarrow> length (field_content (sub_content env d) fs src i m) \<le> unat (f_array_size (fs ! i))"
proof -
  show "list_all (stored_value env d (fs ! i) m) (field_content (sub_content env d) fs src i m)"
    using ok htype_cases [of "f_type (fs ! i)"]
    by (auto simp: field_ok_def field_content_def stored_value_def list_all_iff word_le_nat_alt Let_def split: if_splits)
qed (use htype_cases [of "f_type (fs ! i)"] in \<open>auto simp: field_content_def Let_def split: if_splits\<close>)

lemma tagged_read:
  assumes ty: "typed_msg env (Suc d) fs sz" "Suc d \<le> n" and i: "i < length fs - 1" and msg: "msg_good env d msg"
    and l: "l_ready fs dest i l" and s: "d_in s = istream (tag_wire (fs ! i) wt @ w @ rest) j e"
    and wt: "wt < 8" and fresh: "fresh_field (sub_fresh env d) fs dest i (w_mem s)"
    and run: "\<And>t. d_in t = istream (w @ rest) j e \<Longrightarrow> w_mem t = w_mem s
      \<Longrightarrow> \<exists>s'. decode_static_field env n (pb_decoder env msg) wt (iter_at fs dest i) t = (Some (), s') \<and> d_in s' = istream rest j e
          \<and> field_content (sub_content env d) fs dest i (w_mem s') = vs"
  obtains l' s' where "reaches (decode_turn env n msg) (l, s) (l', s')" "d_in s' = istream rest j e" "l_ready fs dest (Suc i) l'"
    "field_content (sub_content env d) fs dest i (w_mem s') = vs" "\<forall>a. a \<notin> area fs dest i \<longrightarrow> w_mem s' a = w_mem s a"
proof -
  have un: "mem_size (w_mem s) (dest + size_off fs i) = 0" if "htype (fs ! i) = PB_HTYPE_ONEOF"
    using fresh that by (simp add: fresh_field_def Let_def)
  obtain s' where s': "decode_static_field env n (pb_decoder env msg) wt (iter_at fs dest i) (s\<lparr>d_in := istream (w @ rest) j e\<rparr>) = (Some (), s')"
    "d_in s' = istream rest j e" "field_content (sub_content env d) fs dest i (w_mem s') = vs"
    using run [of "s\<lparr>d_in := istream (w @ rest) j e\<rparr>"] by auto
  obtain l' where "reaches (decode_turn env n msg) (l, s) (l', s')" "l_ready fs dest (Suc i) l'"
    "\<forall>a. a \<notin> area fs dest i \<longrightarrow> w_mem s' a = w_mem s a"
    by (rule field_turn [OF ty i msg l wt s un s'(1,2)])
  then show thesis using that s'(2,3) by blast
qed

lemma field_read:
  assumes ty: "typed_msg env (Suc d) fs sz" "Suc d \<le> n" and i: "i < length fs - 1" and msg: "msg_good env d msg" "reads env d msg"
    and ok: "field_ok (sub_ok env d) fs src i m" and vs: "vs = field_content (sub_content env d) fs src i m" "vs \<noteq> []"
    and l: "l_ready fs dest i l" and s: "d_in s = istream (values_wire (sub_wire env d) (fs ! i) vs @ rest) j e"
    and len: "length (values_wire (sub_wire env d) (fs ! i) vs) < 2 ^ 32"
    and fresh: "fresh_field (sub_fresh env d) fs dest i (w_mem s)"
  obtains l' s' where "reaches (decode_turn env n msg) (l, s) (l', s')" "d_in s' = istream rest j e" "l_ready fs dest (Suc i) l'"
    "field_content (sub_content env d) fs dest i (w_mem s') = vs" "\<forall>a. a \<notin> area fs dest i \<longrightarrow> w_mem s' a = w_mem s a"
proof -
  note finish = that
  let ?f = "fs ! i" and ?q = "dest + size_off fs i"
  note st = stored_values [OF ok, folded vs(1)]
  have rep: "mem_size (w_mem s) ?q = 0" if "htype ?f = PB_HTYPE_REPEATED" using fresh that by (simp add: fresh_field_def Let_def)
  consider "htype ?f \<noteq> PB_HTYPE_REPEATED" | "htype ?f = PB_HTYPE_REPEATED" "ltype ?f \<le> 5" | "htype ?f = PB_HTYPE_REPEATED" "\<not> ltype ?f \<le> 5"
    by blast
  then show thesis
  proof cases
    case 1
    then obtain v where v: "vs = [v]" using st(2) vs(2) by blast
    let ?w = "value_wire (sub_wire env d) ?f v"
    have w: "values_wire (sub_wire env d) ?f vs = tag_wire ?f (wire_type_of (ltype ?f)) @ ?w" using 1 by (simp add: v values_wire_def)
    have small: "length ?w < 2 ^ 32" using len w by simp
    have s0: "d_in s = istream (tag_wire ?f (wire_type_of (ltype ?f)) @ ?w @ rest) j e" using s w by simp
    show thesis
    proof (rule tagged_read [OF ty i msg(1) l s0 wire_type_bound fresh _ finish])
      show "\<exists>s'. decode_static_field env n (pb_decoder env msg) (wire_type_of (ltype ?f)) (iter_at fs dest i) t = (Some (), s')
          \<and> d_in s' = istream rest j e \<and> field_content (sub_content env d) fs dest i (w_mem s') = vs"
        if t: "d_in t = istream (?w @ rest) j e" "w_mem t = w_mem s" for t
      proof -
        have "fresh_field (sub_fresh env d) fs dest i (w_mem t)" using fresh t(2) by simp
        from one_read [OF ty i msg ok 1 vs(1) [symmetric, unfolded v] t(1) small this] show ?thesis unfolding v by metis
      qed
    qed
  next
    case 2
    let ?w = "concat (map (value_wire (sub_wire env d) ?f) vs)"
    let ?v = "varint (length ?w) @ ?w"
    have w: "values_wire (sub_wire env d) ?f vs = tag_wire ?f PB_WT_STRING @ ?v" using 2 vs(2) by (simp add: values_wire_def Let_def)
    have small: "length ?w < 2 ^ 32" using len w by simp
    have s0: "d_in s = istream (tag_wire ?f PB_WT_STRING @ ?v @ rest) j e" using s w by simp
    have eight: "PB_WT_STRING < 8" by simp
    show thesis
    proof (rule tagged_read [OF ty i msg(1) l s0 eight fresh _ finish])
      show "\<exists>s'. decode_static_field env n (pb_decoder env msg) PB_WT_STRING (iter_at fs dest i) t = (Some (), s')
          \<and> d_in s' = istream rest j e \<and> field_content (sub_content env d) fs dest i (w_mem s') = vs"
        if t: "d_in t = istream (?v @ rest) j e" "w_mem t = w_mem s" for t
      proof -
        have "d_in t = istream (varint (length ?w) @ ?w @ rest) j e" "mem_size (w_mem t) ?q = 0" using t rep 2 by simp_all
        from packed_field [OF ty(1) i msg 2 st(1) st(3) [OF 2(1)] refl small this] show ?thesis by metis
      qed
    qed
  next
    case 3
    have none: "items_at env d fs dest i [] (w_mem s)" "unat (mem_size (w_mem s) ?q) = length ([] :: pb_tree list)"
      using rep 3 by (simp_all add: items_at_def)
    have room: "length ([] @ vs) \<le> unat (f_array_size ?f)" using st(3) 3 by simp
    obtain l' s' where r: "reaches (decode_turn env n msg) (l, s) (l', s')" "d_in s' = istream rest j e" "l_ready fs dest i l'"
      "items_at env d fs dest i vs (w_mem s')" "unat (mem_size (w_mem s') ?q) = length vs"
      "\<forall>a. a \<notin> area fs dest i \<longrightarrow> w_mem s' a = w_mem s a"
      using items_turns [OF ty i msg 3 st(1) room l s len none] by auto
    have "field_content (sub_content env d) fs dest i (w_mem s') = vs"
      using r(4,5) room by (subst items_content [OF 3(1)]) simp_all
    then show thesis using finish r l_ready_Suc [OF i] 3 by simp
  qed
qed

section \<open>Reading a message\<close>

text \<open>When the fields before \<open>i\<close> have been read, those behind are fresh or absent for good.\<close>

definition half_read :: "'h pb_env \<Rightarrow> nat \<Rightarrow> pb_field list \<Rightarrow> nat \<Rightarrow> mem \<Rightarrow> nat \<Rightarrow> nat \<Rightarrow> mem \<Rightarrow> bool" where
  "half_read env d fs src m dest i m' \<longleftrightarrow> (\<forall>j<length fs - 1.
     (j < i \<longrightarrow> field_content (sub_content env d) fs dest j m' = field_content (sub_content env d) fs src j m)
     \<and> (i \<le> j \<longrightarrow> fresh_field (sub_fresh env d) fs dest j m'
          \<or> field_content (sub_content env d) fs src j m = [] \<and> field_content (sub_content env d) fs dest j m' = []))"

lemma union_other:
  assumes "layout fs sz" "same_union fs i j" "i < length fs - 1" "j < length fs - 1" "i \<noteq> j"
    "field_content msg fs dest i m \<noteq> []"
  shows "field_content msg fs dest j m = []"
  using assms layout_distinct [OF assms(1,3,4)]
  by (auto simp: same_union_def field_content_def Let_def split: if_splits)

lemma half_read_step:
  assumes ty: "typed_msg env (Suc d) fs sz" and i: "i < length fs - 1" and half: "half_read env d fs src m dest i m1"
    and own: "\<forall>a. a \<notin> area fs dest i \<longrightarrow> m2 a = m1 a"
    and now: "field_content (sub_content env d) fs dest i m2 = field_content (sub_content env d) fs src i m"
    and ne: "field_content (sub_content env d) fs src i m \<noteq> []"
  shows "half_read env d fs src m dest (Suc i) m2"
  unfolding half_read_def
proof (intro allI impI)
  fix j assume j: "j < length fs - 1"
  let ?C = "\<lambda>j. field_content (sub_content env d) fs src j m" and ?D = "\<lambda>j m'. field_content (sub_content env d) fs dest j m'"
    and ?F = "\<lambda>j m'. fresh_field (sub_fresh env d) fs dest j m'"
  from ty have lay: "layout fs sz" and tidy: "tidy fs" by simp_all
  show "(j < Suc i \<longrightarrow> ?D j m2 = ?C j) \<and> (Suc i \<le> j \<longrightarrow> ?F j m2 \<or> ?C j = [] \<and> ?D j m2 = [])"
  proof (cases "j = i")
    case False
    show ?thesis
    proof (cases "same_union fs i j")
      case True
      note un = union_other [OF lay True i j False [symmetric]]
      show ?thesis using un [OF ne] un [of "sub_content env d" dest m2] now ne by simp
    next
      case F2: False
      then have "area fs dest j \<inter> area fs dest i = {}" using tidy_apart [OF tidy i j] separated_area False by blast
      then have "?D j m2 = ?D j m1 \<and> ?F j m2 = ?F j m1"
        using own by (intro conjI content_elsewhere [OF ty j]) blast+
      then show ?thesis using half [unfolded half_read_def, rule_format, OF j] False by (auto simp: less_Suc_eq)
    qed
  qed (use now in simp)
qed

lemma half_read_absent:
  assumes ty: "typed_msg env (Suc d) fs sz" and i: "i < length fs - 1" and half: "half_read env d fs src m dest i m1"
    and none: "field_content (sub_content env d) fs src i m = []"
  shows "half_read env d fs src m dest (Suc i) m1"
proof -
  have "field_content (sub_content env d) fs dest i m1 = []"
    using half i fresh_absent [OF ty i _ none] unfolding half_read_def by blast
  then show ?thesis using half none unfolding half_read_def by (metis Suc_leD less_antisym)
qed

lemma fields_read:
  assumes ty: "typed_msg env (Suc d) fs sz" "Suc d \<le> n" and msg: "msg_good env d msg" "reads env d msg"
    and ok: "message_ok env (Suc d) fs src m"
    and w: "\<And>i. w i = values_wire (sub_wire env d) (fs ! i) (field_content (sub_content env d) fs src i m)"
      "length (concat (map w [0..<length fs - 1])) < 2 ^ 32"
    and l: "l_ready fs dest 0 l" and s: "d_in s = istream (concat (map w [0..<length fs - 1])) j e"
    and half: "half_read env d fs src m dest 0 (w_mem s)"
  shows "i \<le> length fs - 1 \<Longrightarrow> \<exists>l' s'. reaches (decode_turn env n msg) (l, s) (l', s') \<and> l_ready fs dest i l'
    \<and> d_in s' = istream (concat (map w [i..<length fs - 1])) j e \<and> half_read env d fs src m dest i (w_mem s')"
proof (induction i)
  case 0
  then show ?case using l s half reaches_refl by blast
next
  case (Suc i)
  have i: "i < length fs - 1" using Suc.prems by simp
  obtain l1 s1 where r: "reaches (decode_turn env n msg) (l, s) (l1, s1)" "l_ready fs dest i l1"
    "d_in s1 = istream (concat (map w [i..<length fs - 1])) j e" "half_read env d fs src m dest i (w_mem s1)"
    using Suc by auto
  let ?C = "field_content (sub_content env d) fs src i m" and ?rest = "concat (map w [Suc i..<length fs - 1])"
  have u: "concat (map w [i..<length fs - 1]) = w i @ ?rest" using i by (simp add: upt_conv_Cons)
  show ?case
  proof (cases "?C = []")
    case True
    have "htype (fs ! i) \<noteq> PB_HTYPE_REQUIRED" using True by (auto simp: field_content_def Let_def)
    moreover have "w i = []" using True by (simp add: w(1) values_wire_def)
    ultimately show ?thesis
      using r u half_read_absent [OF ty(1) i r(4) True] l_ready_Suc [OF i] by auto
  next
    case False
    have sw: "d_in s1 = istream (values_wire (sub_wire env d) (fs ! i) ?C @ ?rest) j e" using r(3) u by (simp add: w(1))
    have "[0..<length fs - 1] = [0..<i] @ [i..<length fs - 1]" using upt_add_eq_append [of 0 i "length fs - 1 - i"] i by simp
    then have len: "length (values_wire (sub_wire env d) (fs ! i) ?C) < 2 ^ 32" using w(2) u by (simp add: w(1))
    have fresh: "fresh_field (sub_fresh env d) fs dest i (w_mem s1)" using r(4) i False unfolding half_read_def by blast
    obtain l2 s2 where q: "reaches (decode_turn env n msg) (l1, s1) (l2, s2)" "d_in s2 = istream ?rest j e" "l_ready fs dest (Suc i) l2"
      "field_content (sub_content env d) fs dest i (w_mem s2) = ?C" "\<forall>a. a \<notin> area fs dest i \<longrightarrow> w_mem s2 a = w_mem s1 a"
      by (rule field_read [OF ty i msg message_okD [OF ok i] refl False r(2) sw len fresh])
    have "half_read env d fs src m dest (Suc i) (w_mem s2)"
      by (rule half_read_step [OF ty(1) i r(4) q(5,4) False])
    then show ?thesis using reaches_trans [OF r(1) q(1)] q(2,3) by blast
  qed
qed

section \<open>Required fields\<close>

lemma seek_end_at:
  assumes l: "layout fs sz" "\<forall>f\<in>set (butlast fs). static_field f"
  shows "x < length fs - 1 \<Longrightarrow> length fs - 1 - x \<le> k
    \<Longrightarrow> seek_end k (iter_at fs dest x) = (required_before fs (length fs - 2), f_type (fs ! (length fs - 2)), iter_at fs dest 0)"
proof (induction k arbitrary: x)
  case (Suc k)
  note nx = iter_next_ok [OF l iter_ok_at [OF Suc.prems(1)], of dest]
  show ?case
  proof (cases "Suc x < length fs - 1")
    case True
    then show ?thesis using Suc nx by simp
  next
    case False
    then have "x = length fs - 2" using Suc.prems by simp
    then show ?thesis using False nx by simp
  qed
qed simp

lemma req_field_count_at:
  assumes l: "layout fs sz" "\<forall>f\<in>set (butlast fs). static_field f" and x: "x < length fs - 1"
  shows "req_field_count (iter_at fs dest x) = min 64 (required_before fs (length fs - 1))"
proof -
  have "length fs - 1 = Suc (length fs - 2)" using x by simp
  then have r: "required_before fs (length fs - 1)
      = required_before fs (length fs - 2) + (if htype (fs ! (length fs - 2)) = PB_HTYPE_REQUIRED then 1 else 0)"
    using x required_before_Suc [of "length fs - 2" fs] by simp
  have "f_tag (fs ! 0) \<noteq> 0" using layout_tag [OF l(1), of 0] x by simp
  then show ?thesis
    unfolding req_field_count_def r using seek_end_at [OF l x, of "length fs" dest] by (simp add: min_def Let_def)
qed

lemma required_seen:
  assumes "l_fields_seen l = seen_words r" "req_field_count (l_iter l) = min 64 r"
  shows "required_check l = op_ret ()"
proof -
  have ones: "(mask 32 :: u32) = - 1" by (rule bit_word_eqI) (simp add: bit_simps)
  have part: "drop_bit (32 - k) (- 1) = (mask k :: u32)" if "k \<le> 32" for k
    by (rule bit_word_eqI) (use that in \<open>auto simp: bit_simps\<close>)
  consider "r = 0" | "0 < r" "r < 32" | "r = 32" | "32 < r" "r < 64" | "64 \<le> r" by linarith
  then show ?thesis
  proof cases
    case 1
    then show ?thesis using assms by (simp add: required_check_def)
  next
    case 2
    then have "min 64 r div 32 = 0" "min 64 r mod 32 = r" "min 32 r = r" "min 64 r = r" by simp_all
    then show ?thesis using assms 2 part [of r] by (simp add: required_check_def seen_words_def Let_def)
  next
    case 4
    then obtain k where k: "r = 32 + k" "0 < k" "k < 32" by (metis add_less_cancel_left less_imp_add_positive numeral_Bit0)
    then have "min 64 r = r" "r div 32 = 1" "r mod 32 = k" "min 32 r = 32" "min 32 (r - 32) = k" by simp_all
    then show ?thesis using assms k part [of k] ones by (simp add: required_check_def seen_words_def Let_def)
  next
    case 3
    then have "min 64 r = 32" "(32 :: nat) div 32 = 1" "(32 :: nat) mod 32 = 0" by simp_all
    then show ?thesis using assms 3 ones by (simp add: required_check_def seen_words_def Let_def)
  next
    case 5
    then have "min 64 r = 64" "min 32 r = 32" "min 32 (r - 32) = 32" "[0..<64 div 32] = [0, 1 :: nat]" by (simp_all add: upt_rec)
    then show ?thesis using assms ones by (simp add: required_check_def seen_words_def Let_def)
  qed
qed

section \<open>Decoding the wire format\<close>

lemma decode_loop_end: "is_bytes_left (d_in s) = 0 \<Longrightarrow> decode_loop turn k l s = (Some l, s)"
  by (cases k) simp_all

lemma message_end:
  fixes s :: "'h dstate"
  assumes "decode_loop (decode_turn env n msg) (is_bytes_left (d_in s))
      \<lparr>l_iter = snd (pb_field_iter_begin fs dest), l_fields_seen = [0, 0], l_extension_range_start = 0, l_fixed_count_field = None\<rparr>
      (s\<lparr>d_fixed := 0\<rparr>) = (Some l, t)"
    "l_fixed_count_field l = None" "(required_check l :: ('h dstate, unit) opn) = op_ret ()"
  shows "decode_message env n msg fs dest s = (Some (), t\<lparr>d_fixed := d_fixed s\<rparr>)"
  using assms by (simp add: decode_message_def op_bind_def op_seq_def fixed_count_check_def op_ret_def Let_def)

lemma message_read:
  fixes s :: "'h dstate"
  assumes ty: "typed_msg env (Suc d) fs sz" "Suc d \<le> n" and msg: "msg_good env d msg" "reads env d msg"
    and ok: "message_ok env (Suc d) fs src m"
    and len: "length (message_wire env (Suc d) fs (message_content env (Suc d) fs src m)) < 2 ^ 32"
    and s: "d_in s = istream (message_wire env (Suc d) fs (message_content env (Suc d) fs src m)) j e"
    and fresh: "fresh_message env (Suc d) fs dest (w_mem s)"
  shows "\<exists>s'. decode_message env n msg fs dest s = (Some (), s') \<and> d_in s' = istream [] j e
    \<and> message_content env (Suc d) fs dest (w_mem s') = message_content env (Suc d) fs src m"
proof -
  have lay: "layout fs sz" "\<forall>f\<in>set (butlast fs). static_field f" using ty(1) by (blast elim: typed_msgE)+
  define l where "l = \<lparr>l_iter = snd (pb_field_iter_begin fs dest), l_fields_seen = [0, 0],
      l_extension_range_start = 0, l_fixed_count_field = None\<rparr>"
  define w where "w i = values_wire (sub_wire env d) (fs ! i) (field_content (sub_content env d) fs src i m)" for i
  have wire: "message_wire env (Suc d) fs (message_content env (Suc d) fs src m) = concat (map w [0..<length fs - 1])"
    unfolding message_wire_content w_def ..
  let ?s = "s\<lparr>d_fixed := 0\<rparr>"
  have "\<exists>l' t. decode_loop (decode_turn env n msg) (is_bytes_left (d_in s)) l ?s = (Some l', t) \<and> d_in t = istream [] j e
      \<and> l_fixed_count_field l' = None \<and> (required_check l' :: ('h dstate, unit) opn) = op_ret ()
      \<and> message_content env (Suc d) fs dest (w_mem t) = message_content env (Suc d) fs src m"
  proof (cases "1 < length fs")
    case True
    have ready: "l_ready fs dest 0 l"
      using True by (auto simp: l_ready_def l_def iter_begin_at [OF lay(1) True] seen_words_def required_before_def intro!: exI [of _ 0])
    have half: "half_read env d fs src m dest 0 (w_mem ?s)"
      using fresh_messageD [OF fresh] by (simp add: half_read_def)
    have s0: "d_in ?s = istream (concat (map w [0..<length fs - 1])) j e" using s wire by simp
    have len0: "length (concat (map w [0..<length fs - 1])) < 2 ^ 32" using len unfolding wire .
    obtain l' t where r: "reaches (decode_turn env n msg) (l, ?s) (l', t)" "l_ready fs dest (length fs - 1) l'"
      "d_in t = istream (concat (map w [length fs - 1..<length fs - 1])) j e" "half_read env d fs src m dest (length fs - 1) (w_mem t)"
      using fields_read [OF ty msg ok w_def len0 ready s0 half order_refl] by blast
    have t: "d_in t = istream [] j e" using r(3) by simp
    have "decode_loop (decode_turn env n msg) (is_bytes_left (d_in s)) l ?s = (Some l', t)"
      using r(1) decode_loop_end [of t] t unfolding reaches_def by force
    moreover obtain x where "x < length fs - 1" "l_iter l' = iter_at fs dest x" using r(2) by (auto simp: l_ready_def)
    then have "(required_check l' :: ('h dstate, unit) opn) = op_ret ()"
      using r(2) req_field_count_at [OF lay, of x dest] by (intro required_seen) (auto simp: l_ready_def)
    moreover have "message_content env (Suc d) fs dest (w_mem t) = message_content env (Suc d) fs src m"
      using r(4) by (simp add: half_read_def)
    ultimately show ?thesis using r(2) t by (auto simp: l_ready_def)
  next
    case False
    then have one: "length fs = 1" using layout_nonempty [OF lay(1)] by linarith
    then have tz: "f_tag (fs ! 0) = 0" "f_type (fs ! 0) = 0" using lay(1) layout_last [OF lay(1)] by (simp_all add: layout_def)
    have "(required_check l :: ('h dstate, unit) opn) = op_ret ()"
      using one tz
      by (simp add: required_check_def req_field_count_def l_def pb_field_iter_begin_def pb_field_iter_next_def it_field_def Let_def)
    moreover have "decode_loop (decode_turn env n msg) (is_bytes_left (d_in s)) l ?s = (Some l, ?s)"
      using s wire one by (intro decode_loop_end) simp
    ultimately show ?thesis using s wire one by (auto simp: l_def)
  qed
  then obtain l' t where r: "decode_loop (decode_turn env n msg) (is_bytes_left (d_in s)) l ?s = (Some l', t)" "d_in t = istream [] j e"
    "l_fixed_count_field l' = None" "(required_check l' :: ('h dstate, unit) opn) = op_ret ()"
    "message_content env (Suc d) fs dest (w_mem t) = message_content env (Suc d) fs src m" by blast
  then show ?thesis using message_end [OF r(1) [unfolded l_def] r(3,4)] by (auto simp del: message_content.simps)
qed

text \<open>The recursion into submessages.\<close>

abbreviation inner :: "'h pb_env \<Rightarrow> nat \<Rightarrow> bool \<Rightarrow> nat \<Rightarrow> nat \<Rightarrow> ('h dstate, unit) opn" where
  "inner env n \<equiv> \<lambda>init ptr dest. if init then pb_decode_with env n (pb_decode_noinit env n) (env_fields env ptr) dest
     else pb_decode_noinit env n (env_fields env ptr) dest"

lemma inner_good:
  assumes "d \<le> n"
  shows "msg_good env d (inner env n)"
  unfolding msg_good_def
proof (intro allI impI conjI)
  fix init ptr sz p
  assume ty: "typed_msg env d (env_fields env ptr) sz"
  note sm = typed_static [OF ty]
  show "confined (region p sz) (inner env n init ptr p)"
    using confined_noinit [OF sm assms] confined_decode_with [OF sm assms, where noinit = "pb_decode_noinit env n"] by simp
  fix t u t'
  assume pre: "init \<or> sub_ok env d ptr p (w_mem t)" and run: "inner env n init ptr p t = (Some u, t')"
  show "sub_ok env d ptr p (w_mem t')"
  proof (cases init)
    case True
    then have "pb_decode_with env n (pb_decode_noinit env n) (env_fields env ptr) p t = (Some u, t')" using run by simp
    with ty assms noinit_typed [OF ty assms] show ?thesis by (rule decode_with_typed)
  qed (use noinit_typed [OF ty assms] pre run in simp)
qed

lemma noinit_read:
  "typed_msg env d fs sz \<Longrightarrow> d \<le> n \<Longrightarrow> message_ok env d fs src m
    \<Longrightarrow> length (message_wire env d fs (message_content env d fs src m)) < 2 ^ 32
    \<Longrightarrow> d_in s = istream (message_wire env d fs (message_content env d fs src m)) j e \<Longrightarrow> fresh_message env d fs dest (w_mem s)
    \<Longrightarrow> \<exists>s'. pb_decode_noinit env n fs dest s = (Some (), s') \<and> d_in s' = istream [] j e
      \<and> message_content env d fs dest (w_mem s') = message_content env d fs src m"
proof (induction n arbitrary: d fs sz src m dest s j e)
  case (Suc n)
  obtain d' where d: "d = Suc d'" using Suc.prems(1) by (blast elim: typed_msgE)
  have le: "d' \<le> n" using Suc.prems(2) d by simp
  have "reads env d' (inner env n)"
    unfolding reads_def
  proof (intro allI impI)
    fix init ptr sz p src m j e and s :: "'a dstate"
    let ?w = "sub_wire env d' ptr (sub_content env d' ptr src m)"
    assume a: "typed_msg env d' (env_fields env ptr) sz" "sub_ok env d' ptr src m" "length ?w < 2 ^ 32"
      and s: "d_in s = istream ?w j e" and fresh: "init \<or> sub_fresh env d' ptr p (w_mem s)"
    let ?s = "if init then pb_message_set_to_defaults env n (env_fields env ptr) p s else s"
    have f: "sub_fresh env d' ptr p (w_mem ?s)" using fresh defaults_fresh [OF a(1) le] by (cases init) simp_all
    have t: "d_in ?s = istream ?w j e" using s by simp
    from Suc.IH [OF a(1) le a(2,3) t f]
    show "\<exists>s'. inner env n init ptr p s = (Some (), s') \<and> d_in s' = istream [] j e
        \<and> sub_content env d' ptr p (w_mem s') = sub_content env d' ptr src m"
      by (cases init) (auto simp: pb_decode_with_def)
  qed
  then show ?case
    using message_read [OF Suc.prems(1,2) [unfolded d] inner_good [OF le]] Suc.prems(3-6) unfolding d by simp
qed simp

lemma decode_read:
  assumes "typed_msg env d fs sz" "d \<le> n" "message_ok env d fs src m"
    and w: "w = message_wire env d fs (message_content env d fs src m)" "length w < 2 ^ 32" and s: "d_in s = istream w j e"
  obtains s' where "pb_decode env n fs dest s = (Some (), s')" "d_in s' = istream [] j e"
    "message_content env d fs dest (w_mem s') = message_content env d fs src m"
proof -
  let ?s = "pb_message_set_to_defaults env n fs dest s"
  have t: "d_in ?s = istream (message_wire env d fs (message_content env d fs src m)) j e" using s w by simp
  obtain s' where "pb_decode_noinit env n fs dest ?s = (Some (), s')" "d_in s' = istream [] j e"
    "message_content env d fs dest (w_mem s') = message_content env d fs src m"
    using noinit_read [OF assms(1-3) w(2) [unfolded w(1)] t defaults_fresh [OF assms(1,2)]] by blast
  then show thesis using that by (simp add: pb_decode_def pb_decode_with_def)
qed

section \<open>The claim\<close>

definition written :: "'h estate \<Rightarrow> 'h estate \<Rightarrow> bytes" where
  "written e e' = drop (length (os_state (e_out e))) (os_state (e_out e'))"

text \<open>(C5) Encoding and decoding a message are inverse. What \<open>pb_encode\<close> writes for a well-formed message, \<open>pb_decode\<close>
  reads to the end and without error into any message struct in any memory, and the struct then has
  the same content: the same fields present, the same values, arrays and unions, in submessages to any
  depth. The same holds of the delimited form, which leaves whatever follows it in the stream. The
  encoding must fit the output and have less than four gigabytes, which the decoder's 32-bit lengths require.\<close>

theorem pb_message_round_trip:
  assumes "typed_msg env d fs sz" "d \<le> n" "0 < src" "message_ok env d fs src (w_mem e)"
    and "w = message_wire env d fs (message_content env d fs src (w_mem e))" "length w < 2 ^ 32"
    and "os_callback (e_out e)" "os_errmsg (e_out e) = None" "os_fits (varint (length w) @ w) (e_out e)"
  shows "(\<exists>e'. pb_encode env n fs src e = (Some (), e')
      \<and> (\<forall>s dest. d_in s = pb_istream_from_buffer (written e e') (length (written e e')) \<longrightarrow>
          (\<exists>s'. pb_decode env n fs dest s = (Some (), s') \<and> is_bytes_left (d_in s') = 0
            \<and> message_content env d fs dest (w_mem s') = message_content env d fs src (w_mem e))))
    \<and> (\<exists>e'. pb_encode_delimited env n fs src e = (Some (), e')
      \<and> (\<forall>s dest rest j er. d_in s = istream (written e e' @ rest) j er \<longrightarrow>
          (\<exists>s'. pb_decode_delimited env n fs dest s = (Some (), s') \<and> d_in s' = istream rest j er
            \<and> message_content env d fs dest (w_mem s') = message_content env d fs src (w_mem e))))"
proof -
  let ?v = "varint (length w) @ w"
  have enc: "encodes (pb_encode env n fs src) e w" using encode_encodes [OF assms(1-4)] by (simp add: assms(5))
  have fits: "os_fits w (e_out e)" using assms(9) by (auto simp: os_fits_def)
  have out: "written e (e\<lparr>e_out := os_put x (e_out e)\<rparr>) = x" for x using assms(7) by (simp add: written_def os_put_def)
  have plain: "\<exists>s'. pb_decode env n fs dest s = (Some (), s') \<and> d_in s' = istream [] j er
      \<and> message_content env d fs dest (w_mem s') = message_content env d fs src (w_mem e)" if "d_in s = istream w j er" for s dest j er
    using decode_read [OF assms(1,2,4,5,6) that] by metis
  have delimited: "\<exists>s'. pb_decode_delimited env n fs dest s = (Some (), s') \<and> d_in s' = istream rest j er
      \<and> message_content env d fs dest (w_mem s') = message_content env d fs src (w_mem e)"
    if s: "d_in s = istream (?v @ rest) j er" for s dest rest j er
  proof -
    obtain t where t: "pb_decode env n fs dest (s\<lparr>d_in := istream w (rest @ j) er\<rparr>) = (Some (), t)" "d_in t = istream [] (rest @ j) er"
      "message_content env d fs dest (w_mem t) = message_content env d fs src (w_mem e)"
      using plain [of "s\<lparr>d_in := istream w (rest @ j) er\<rparr>" "rest @ j" er dest] by auto
    have "pb_decode_delimited env n fs dest s = (Some (), t\<lparr>d_in := istream rest j er\<rparr>)"
      unfolding pb_decode_delimited_def
      by (rule substream_all [where body = w]) (use s assms(6) t(1,2) in simp_all)
    then show ?thesis using t(3) by simp
  qed
  show ?thesis
    using encodesD [OF enc assms(8) fits] encodesD [OF encodes_submessage [of "pb_encode env n fs", OF enc] assms(8,9)] plain delimited out
    by (simp add: pb_encode_delimited_def pb_istream_from_buffer_eq) (metis is_bytes_left_istream list.size(3))
qed

lemma pb_message_round_trip_witness:
  "\<exists>e'. pb_encode example_env 2 example_message 1000 example_estate = (Some (), e')
    \<and> (\<forall>dest. \<exists>s'. pb_decode example_env 2 example_message dest (example_state (written example_estate e')) = (Some (), s')
        \<and> is_bytes_left (d_in s') = 0 \<and> message_content example_env 2 example_message dest (w_mem s') = example_content)"
proof -
  have st: "w_mem example_estate = example_memory" "os_errmsg (e_out example_estate) = None" "os_callback (e_out example_estate)"
    by (simp_all add: example_estate_def pb_ostream_from_buffer_def)
  have ok: "message_ok example_env 2 example_message 1000 (w_mem example_estate)" unfolding st by (rule example_message_ok)
  have w: "example_wire = message_wire example_env 2 example_message (message_content example_env 2 example_message 1000 (w_mem example_estate))"
    unfolding st example_message_content example_message_wire ..
  have len: "length example_wire < 2 ^ 32" by (simp add: example_wire_def)
  have "d_in (example_state bs) = pb_istream_from_buffer bs (length bs)" for bs by (simp add: example_state_def)
  then show ?thesis
    using pb_message_round_trip [OF example_typed(1) order_refl _ ok w len st(3,2) example_fits]
    unfolding st example_message_content by (metis zero_less_numeral)
qed

end
