(* ===== verification/Spec2Isabelle.thy ===== *)
theory Spec2Isabelle
  imports Internal Der Cbs Cbb Oid Base64 Md4 Md5 Sha1 Sha256 Sha512 Modes Cbc Digest Hmac Lhash Poly1305 PbRound
begin

text \<open>
  A verification development for the C code that the iOS side of this repository ships.

  The application itself is a Flutter program of a few screens. Its C code comes with the pods under
  src/ios/Pods: BoringSSL (the cryptography and the DER code below gRPC), nanopb (the message coder of
  the Firestore client) and upb. The development models the parts of the first two that have a
  specification of their own, from their bytes upwards.

  \<^bold>\<open>Conventions.\<close> Machine integers are words of their width; a \<open>size_t\<close> is a natural number where the
  code cannot make it wrap and a 64-bit word where it can. A struct is a record, a byte buffer a list
  of bytes, and a memory in which buffers may overlap is a function from addresses (theory Memory). A
  function that fails returns an option, with the state it leaves behind: \<open>('s, 'a) opn\<close> of theory
  Prelude is that type, and its combinators are the sequencing and the early returns of the code.
  Allocation is an argument: a predicate or a stream of answers, so that every claim covers every
  pattern of failing allocations. Code that the repository has only as an argument (block ciphers, hash
  functions of a table, user callbacks, descriptor tables) is an argument of the model.

  \<^bold>\<open>BoringSSL.\<close>
  \<^item> Internal: the constant-time helpers of crypto/internal.h and the utilities of crypto/mem.c.
  \<^item> Der: the encoding rules of DER (tags, lengths, integers, base-128 numbers) that the readers and
    builders are compared with.
  \<^item> Cbs: every function of bytestring/cbs.c. The element reader accepts exactly DER, the integer readers
    exactly the minimal encodings of their range; the BER reader accepts the headers of indefinite lengths besides.
  \<^item> Cbb: every function of bytestring/cbb.c. A builder is a buffer and the stack of its pending
    length prefixes. The abstract builder is a list of pending contents (\<open>chain\<close>, \<open>flat\<close>); flushing
    refines closing them innermost first. A step relation over all calls (\<open>cbb_reach\<close>) carries the
    safety claims: no overflow of a fixed buffer, errors that latch. SET OF contents come out sorted.
    Round trips tie the builder to the reader.
  \<^item> Oid: object identifiers to and from dotted decimals (in both files above).
  \<^item> Base64: every function of base64/base64.c, against the encoding of RFC 4648; what a call writes, also
    when it fails, and what it reports in \<open>*out_len\<close> are kept apart. The streaming encoder and decoder
    are instances of the locale \<open>streaming\<close> (theory Streaming).
  \<^item> Md32, Md4, Md5, Sha1, Sha2, Sha256, Sha512: the hash collector of digest/md32_common.h, a template
    in C and a locale here (\<open>md32\<close>), the block functions with their unrolled rounds, and the standards
    they are proved against. Schedule treats message schedules kept in a ring of sixteen words. The
    constants of SHA-2 are computed from the primes.
  \<^item> Digest: digest/digest.c over the method table of digests.c, with the lifetime of \<open>md_data\<close>.
  \<^item> Hmac: hmac/hmac.c and hkdf/hkdf.c over every digest of the table, against RFC 2104 and RFC 5869.
  \<^item> Modes: the counter, output feedback and cipher feedback modes of modes/*.c over any block cipher.
    Byte streams that can be cut anywhere are the locale \<open>byte_stream\<close>, those that decryption inverts
    its extension \<open>invertible_stream\<close>.
  \<^item> Cbc: cipher block chaining on one memory with overlapping buffers and messages of any length.
  \<^item> Poly1305: poly1305/poly1305.c in its five limbs of 26 bits, against RFC 8439.
  \<^item> Lhash: lhash/lhash.c, chains and resizing included; the hash and the comparison are the locale
    \<open>hashing\<close>, interpreted on those of conf/conf.c. Histories of calls refine histories on a set,
    and bound the load of the table; they are taken over any class of admitted allocators.

  \<^bold>\<open>nanopb\<close> (with \<open>PB_ENABLE_MALLOC\<close>, \<open>PB_FIELD_32BIT\<close> and 64-bit pointers, as the pods build it).
  \<^item> Nanopb: streams, integers, tags and the coders of scalar, string and bytes fields. The codecs of the
    wire format are the locale \<open>wire\<close>.
  \<^item> PbIter: the field iterator of pb_common.c on a message struct in memory.
  \<^item> PbDecode, PbEncode: all of the rest of pb_decode.c and pb_encode.c.
  \<^item> PbLayout: what the generated tables promise, as an executable test, and the iterator on such tables.
  \<^item> PbSafe, PbMessage: decoding is safe on any input. The rules for \<open>confined\<close> (only a region changes) and
    \<open>forward\<close> (a stream only moves forward) go through the code construct by construct.
  \<^item> PbTyped: what was decoded is well-formed, and what is well-formed can be encoded.
  \<^item> PbContent: the content of a message as a tree, the wire format of a tree as a reference encoder, and
    the proof that the code's encoder writes it. The rules for \<open>encodes\<close> follow the code's sequencing.
  \<^item> PbRound: decoding what was encoded, field by field (\<open>half_read\<close>) over runs of the main loop
    (\<open>reaches\<close>), gives the content back in any memory.

  \<^bold>\<open>Fuel.\<close> The recursion of nanopb over nested messages takes the depth it follows as an argument \<open>n\<close>; the
  loops over a stream take its length, and every turn takes a byte. A run that would go beyond sets
  \<open>w_stuck\<close>; the claims on messages show that it does not when \<open>n\<close> is at least the depth of the table. The
  loops over extension lists and user callbacks, which the data can make run on for ever, take
  \<open>env_turns\<close>. \<open>env_turns\<close> plays no part in the claims, which are about static tables. The only loop of
  BoringSSL that a caller can keep running, the iteration of a hash table whose callback changes it,
  is proved to end.

  \<^bold>\<open>Not modelled.\<close> The block and stream ciphers, authenticated encryption, big numbers, elliptic curves,
  public key code, certificates, TLS and the I/O of BoringSSL; upb (a table-driven coder like nanopb);
  generated tables; the assembly variants. Locks, reference counts and the error queue are left out
  where the modelled functions only pass through them. The C++ and Objective-C pods (gRPC, Firestore,
  LevelDB, Abseil) and the Dart application are outside the language modelled here. Timing, which the
  constant-time helpers are about, is not a property of these models.
\<close>

end
